(* ===== verification/Prelude.thy ===== *)
theory Prelude
  imports Main "HOL-Library.Word"
begin

unbundle bit_operations_syntax

text \<open>
  Shared vocabulary of the development: names for the fixed-width integers of the C++
  sources, the bit tricks the sources share (\<open>uint64_t(1) << i\<close>, \<open>bit - 1\<close> as a mask of
  lower bits, \<open>std::popcount\<close>) and the rank of a bit in a mask. The library's collection \<open>bit_simps\<close> is extended with the rules
  that turn these masks into statements about single bits; \<open>rank_simps\<close> holds those that
  turn population counts of masked words into counts over an index range.
\<close>

named_theorems rank_simps

type_synonym u8 = "8 word"
type_synonym u16 = "16 word"
type_synonym u32 = "32 word"
type_synonym u64 = "64 word"

section \<open>Single bits and masks\<close>

text \<open>\<open>uint64_t(1) << i\<close> (and the same at other widths).\<close>

definition onebit :: "nat \<Rightarrow> 'a::len word" where
  "onebit i = push_bit i 1"

text \<open>\<open>std::popcount\<close> of the language's standard library.\<close>

definition popcount :: "'a::len word \<Rightarrow> nat" where
  "popcount w = length (filter (bit w) [0..<LENGTH('a)])"

text \<open>The number of set bits strictly below position \<open>i\<close>: what the sources compute as
  \<open>popcount(mask & (bit - 1))\<close>.\<close>

definition rank :: "'a::len word \<Rightarrow> nat \<Rightarrow> nat" where
  "rank w i = length (filter (bit w) [0..<i])"

lemma bit_onebit [bit_simps]: "bit (onebit i :: 'a::len word) j \<longleftrightarrow> j = i \<and> i < LENGTH('a)"
  by (auto simp: onebit_def bit_exp_iff)

lemma onebit_inj:
  "i < LENGTH('a) \<Longrightarrow> j < LENGTH('a) \<Longrightarrow> (onebit i :: 'a::len word) = onebit j \<longleftrightarrow> i = j"
  using bit_onebit [of i i, where 'a = 'a] bit_onebit [of j i, where 'a = 'a] by auto

lemma bit_onebit_minus_1 [bit_simps]:
  "bit (onebit i - 1 :: 'a::len word) j \<longleftrightarrow> j < i \<and> j < LENGTH('a)"
proof -
  have "(onebit i - 1 :: 'a word) = mask i"
    by (simp add: onebit_def mask_eq_exp_minus_1)
  then show ?thesis by (auto simp: bit_mask_iff)
qed

lemmas word_bit_simps [bit_simps] =
  bit_and_iff bit_or_iff bit_xor_iff bit_not_iff

lemma bit_length [simp]: "bit (w :: 'a::len word) i \<Longrightarrow> i < LENGTH('a)"
  by (rule bit_imp_le_length)

lemma word_eq_bitI: "(\<And>i. i < LENGTH('a) \<Longrightarrow> bit v i = bit w i) \<Longrightarrow> v = (w :: 'a::len word)"
  by (rule bit_word_eqI)

lemma and_onebit_zero [bit_simps]:
  "(w AND onebit i = (0 :: 'a::len word)) \<longleftrightarrow> \<not> bit w i"
proof
  assume "w AND onebit i = 0"
  then have "\<not> bit (w AND onebit i) i" by simp
  then show "\<not> bit w i" by (auto simp: bit_simps)
next
  assume "\<not> bit w i"
  then show "w AND onebit i = 0" by (intro word_eq_bitI) (auto simp: bit_simps)
qed

lemma and_not_onebit [bit_simps]: "bit (w AND NOT (onebit i)) j \<longleftrightarrow> bit w j \<and> j \<noteq> i"
  for w :: "'a::len word"
  by (auto simp: bit_simps)

lemma rank_0 [simp]: "rank w 0 = 0"
  by (simp add: rank_def)

lemma rank_Suc: "rank w (Suc i) = rank w i + (if bit w i then 1 else 0)"
  by (simp add: rank_def)

lemma rank_length: "rank (w :: 'a::len word) LENGTH('a) = popcount w"
  by (simp add: rank_def popcount_def)

lemma rank_mono: "i \<le> j \<Longrightarrow> rank w i \<le> rank w j"
  by (induction j) (auto simp: rank_Suc le_Suc_eq)

lemma rank_less: "bit w i \<Longrightarrow> i < j \<Longrightarrow> rank w i < rank w j"
  using rank_mono [of "Suc i" j w] by (simp add: rank_Suc)

lemma rank_less_popcount: "bit (w :: 'a::len word) i \<Longrightarrow> rank w i < popcount w"
  using rank_less [of w i "LENGTH('a)"] by (simp add: rank_length)

lemma rank_le_popcount: "i \<le> LENGTH('a) \<Longrightarrow> rank (w :: 'a::len word) i \<le> popcount w"
  using rank_mono [of i "LENGTH('a)" w] by (simp add: rank_length)

lemma rank_le: "rank w i \<le> i"
  by (induction i) (auto simp: rank_Suc)

lemma popcount_le: "popcount (w :: 'a::len word) \<le> LENGTH('a)"
  using rank_le [of w "LENGTH('a)"] by (simp add: rank_length)

lemma rank_cong: "(\<And>j. j < i \<Longrightarrow> bit v j = bit w j) \<Longrightarrow> rank v i = rank w i"
  by (induction i) (auto simp: rank_Suc)

lemma rank_inj: "bit w i \<Longrightarrow> bit w j \<Longrightarrow> rank w i = rank w j \<Longrightarrow> i = j"
  by (metis nat_neq_iff rank_less)

lemma rank_below:
  "rank (w AND (onebit i - 1) :: 'a::len word) j = rank w (min i j)"
proof (induction j)
  case (Suc j)
  show ?case
  proof (cases "j < i")
    case True
    then have "min i (Suc j) = Suc (min i j)" and "min i j = j" by auto
    with Suc True show ?thesis by (auto simp: rank_Suc bit_simps)
  next
    case False
    then have "min i (Suc j) = min i j" by auto
    with Suc False show ?thesis by (auto simp: rank_Suc bit_simps)
  qed
qed simp

lemma popcount_below [rank_simps]:
  "i \<le> LENGTH('a) \<Longrightarrow> popcount (w AND (onebit i - 1) :: 'a::len word) = rank w i"
  by (simp add: rank_below flip: rank_length)

lemma rank_from:
  "rank (w AND NOT (onebit i - 1) :: 'a::len word) j = rank w j - rank w (min i j)"
proof (induction j)
  case (Suc j)
  show ?case
  proof (cases "j < i")
    case True
    then have "min i (Suc j) = Suc (min i j)" and "min i j = j" by auto
    with Suc True show ?thesis by (auto simp: rank_Suc bit_simps)
  next
    case False
    then have "min i (Suc j) = i" and "min i j = i" by auto
    with Suc False rank_mono [of i j w] show ?thesis by (auto simp: rank_Suc bit_simps)
  qed
qed simp

lemma popcount_from [rank_simps]:
  "i \<le> LENGTH('a) \<Longrightarrow>
     popcount (w AND NOT (onebit i - 1) :: 'a::len word) = popcount w - rank w i"
  by (simp add: rank_from flip: rank_length)

lemma rank_or_onebit:
  "\<not> bit w i \<Longrightarrow> i < LENGTH('a) \<Longrightarrow>
     rank (w OR onebit i :: 'a::len word) j = rank w j + (if i < j then 1 else 0)"
  by (induction j) (auto simp: rank_Suc bit_simps less_Suc_eq)

lemma rank_clear_onebit:
  "bit w i \<Longrightarrow> rank (w AND NOT (onebit i) :: 'a::len word) j = rank w j - (if i < j then 1 else 0)"
proof (induction j)
  case (Suc j)
  have "i < j \<Longrightarrow> 0 < rank w j" using rank_less [OF Suc.prems] by fastforce
  with Suc show ?case by (auto simp: rank_Suc bit_simps less_Suc_eq)
qed simp

lemma xor_onebit_eq_clear: "bit w i \<Longrightarrow> w XOR onebit i = (w AND NOT (onebit i) :: 'a::len word)"
  by (rule word_eq_bitI) (auto simp: bit_simps)

lemma popcount_or_onebit:
  "\<not> bit w i \<Longrightarrow> i < LENGTH('a) \<Longrightarrow> popcount (w OR onebit i :: 'a::len word) = Suc (popcount w)"
  using rank_or_onebit [of w i "LENGTH('a)"] by (simp add: rank_length)

lemma popcount_clear_onebit:
  "bit w i \<Longrightarrow> popcount (w AND NOT (onebit i) :: 'a::len word) = popcount w - 1"
  using rank_clear_onebit [of w i "LENGTH('a)"] by (simp add: rank_length)

lemma popcount_0 [simp]: "popcount (0 :: 'a::len word) = 0"
  by (simp add: popcount_def)

lemma popcount_onebit: "i < LENGTH('a) \<Longrightarrow> popcount (onebit i :: 'a::len word) = 1"
  using popcount_or_onebit [of "0 :: 'a word" i] by simp

lemma popcount_eq_0_iff: "popcount w = 0 \<longleftrightarrow> w = (0 :: 'a::len word)"
proof
  assume "popcount w = 0"
  then show "w = 0"
    by (intro word_eq_bitI) (auto simp: popcount_def filter_empty_conv)
qed simp

end
