(* ===== verification/Uid.thy ===== *)
theory Uid
  imports Prelude
begin

text \<open>
  \<open>voxen::UID\<close> (include/voxen/common/uid.hpp, src/voxen/common/uid.cpp): the 128-bit
  identifier, its order and hash, its textual form \<open>toChars\<close> and the validating parser that
  the \<open>consteval\<close> constructor runs at compile time. \<open>generateRandom\<close> reads the operating
  system's entropy source and is not modelled. A thrown parse error is \<open>None\<close>.
\<close>

section \<open>The identifier, its order and its hash\<close>

datatype uid = UID (v0: u64) (v1: u64)

text \<open>\<open>auto operator<=>(const UID &) const = default\<close>: lexicographic in declaration order.\<close>

instantiation uid :: linorder
begin

definition less_eq_uid :: "uid \<Rightarrow> uid \<Rightarrow> bool" where
  "less_eq_uid a b \<longleftrightarrow> v0 a < v0 b \<or> (v0 a = v0 b \<and> v1 a \<le> v1 b)"

definition less_uid :: "uid \<Rightarrow> uid \<Rightarrow> bool" where
  "less_uid a b \<longleftrightarrow> v0 a < v0 b \<or> (v0 a = v0 b \<and> v1 a < v1 b)"

instance
  by standard (auto simp: less_eq_uid_def less_uid_def intro: uid.expand)

end

text \<open>\<open>std::hash<voxen::UID>\<close>.\<close>

definition uid_hash :: "uid \<Rightarrow> u64" where
  "uid_hash u = v0 u XOR v1 u"

section \<open>Formatting\<close>

text \<open>\<open>%08x\<close> of a 32-bit value: eight lowercase hexadecimal digits, the most significant
  first.\<close>

definition hex_char :: "nat \<Rightarrow> char" where
  "hex_char d = (if d < 10 then char_of (48 + d) else char_of (87 + d))"

definition nibble :: "'a::len word \<Rightarrow> nat \<Rightarrow> nat" where
  "nibble w i = unat (take_bit 4 (drop_bit (4 * i) w))"

definition hex8 :: "u32 \<Rightarrow> string" where
  "hex8 w = map (\<lambda>i. hex_char (nibble w i)) (rev [0..<8])"

definition CHAR_REPR_LENGTH :: nat where
  "CHAR_REPR_LENGTH = 4 * 8 + 3 + 1"

definition toChars :: "uid \<Rightarrow> string" where
  "toChars u =
     (let s0 = ucast (drop_bit 32 (v0 u)) :: u32;
          s1 = ucast (v0 u) :: u32;
          s2 = ucast (drop_bit 32 (v1 u)) :: u32;
          s3 = ucast (v1 u) :: u32
      in hex8 s0 @ [CHR ''-''] @ hex8 s1 @ [CHR ''-''] @ hex8 s2 @ [CHR ''-''] @ hex8 s3
         @ [char_of (0::nat)])"

section \<open>Parsing\<close>

text \<open>\<open>'0' = 48\<close>, \<open>'9' = 57\<close>, \<open>'a' = 97\<close>, \<open>'f' = 102\<close>; the result \<open>c - '0'\<close> or
  \<open>c - 'a' + 10\<close> is what the loops below convert to \<open>uint64_t\<close>.\<close>

definition decode_char :: "char \<Rightarrow> nat option" where
  "decode_char c =
     (let n = of_char c :: nat
      in if 48 \<le> n \<and> n \<le> 57 then Some (n - 48)
         else if 97 \<le> n \<and> n \<le> 102 then Some (n - 97 + 10)
         else None)"

text \<open>One of the two \<open>for\<close> loops over eight characters, continuing from \<open>result\<close>.\<close>

fun decode_chars :: "u64 \<Rightarrow> string \<Rightarrow> u64 option" where
  "decode_chars result [] = Some result"
| "decode_chars result (c # cs) =
     (case decode_char c of
        None \<Rightarrow> None
      | Some d \<Rightarrow> decode_chars (push_bit 4 result OR of_nat d) cs)"

definition decode_u64 :: "string \<Rightarrow> u64 option" where
  "decode_u64 x =
     (case decode_chars 0 (take 8 x) of
        None \<Rightarrow> None
      | Some result \<Rightarrow> decode_chars result (take 8 (drop 9 x)))"

text \<open>The argument type \<open>std::span<const char, 36>\<close> fixes the length.\<close>

definition uid_parse :: "string \<Rightarrow> uid option" where
  "uid_parse s =
     (if length s \<noteq> CHAR_REPR_LENGTH then None
      else if s ! 8 \<noteq> CHR ''-'' \<or> s ! 17 \<noteq> CHR ''-'' \<or> s ! 26 \<noteq> CHR ''-'' then None
      else case decode_u64 (take 17 s) of
             None \<Rightarrow> None
           | Some a \<Rightarrow>
               (case decode_u64 (take 17 (drop 18 s)) of
                  None \<Rightarrow> None
                | Some b \<Rightarrow> Some (UID a b)))"

section \<open>Nibbles and digits\<close>

lemma nibble_less: "nibble w i < 16"
  using take_bit_nat_less_exp [of 4 "unat (drop_bit (4 * i) w)"]
  by (simp add: nibble_def unsigned_take_bit_eq del: take_bit_nat_less_exp)

lemma decode_hex_char: "d < 16 \<Longrightarrow> decode_char (hex_char d) = Some d"
  by (auto simp: decode_char_def hex_char_def)

lemma decode_char_Some: "decode_char c = Some d \<Longrightarrow> d < 16 \<and> c = hex_char d"
  by (auto simp: decode_char_def hex_char_def Let_def split: if_splits)

definition feed :: "u64 \<Rightarrow> nat \<Rightarrow> u64" where
  "feed r d = push_bit 4 r OR of_nat d"

lemma decode_chars_hex:
  "\<forall>d\<in>set ds. d < 16 \<Longrightarrow> decode_chars r (map hex_char ds) = Some (foldl feed r ds)"
  by (induction ds arbitrary: r) (auto simp: decode_hex_char feed_def)

lemma decode_chars_Some:
  "decode_chars r cs = Some v \<Longrightarrow>
     \<exists>ds. cs = map hex_char ds \<and> (\<forall>d\<in>set ds. d < 16) \<and> v = foldl feed r ds"
proof (induction cs arbitrary: r)
  case (Cons c cs)
  then obtain d where d: "decode_char c = Some d" and rest: "decode_chars (push_bit 4 r OR of_nat d) cs = Some v"
    by (auto split: option.splits)
  from Cons.IH [OF rest] obtain ds where "cs = map hex_char ds" "\<forall>d\<in>set ds. d < 16"
      "v = foldl feed (push_bit 4 r OR of_nat d) ds" by blast
  with decode_char_Some [OF d] show ?case
    by (intro exI [of _ "d # ds"]) (auto simp: feed_def [abs_def])
qed simp

lemma bit_nibble: "bit (nibble (x :: 'a::len word) i) j \<longleftrightarrow> j < 4 \<and> bit x (4 * i + j)"
  by (auto simp: nibble_def unsigned_take_bit_eq unsigned_drop_bit_eq bit_take_bit_iff
      bit_drop_bit_eq bit_unsigned_iff dest: bit_imp_le_length)

lemma bit_of_nibble: "bit (of_nat (nibble x i) :: u64) j \<longleftrightarrow> j < 4 \<and> bit x (4 * i + j)"
  by (auto simp: bit_of_nat_iff bit_nibble)

lemma foldl_feed_nibbles:
  "foldl feed r (map (nibble (x::u64)) (rev [0..<k])) = push_bit (4 * k) r OR take_bit (4 * k) x"
proof (induction k arbitrary: r)
  case (Suc k)
  show ?case
    by (simp add: Suc) (rule bit_word_eqI, auto simp: feed_def bit_or_iff bit_push_bit_iff bit_take_bit_iff bit_of_nibble ac_simps)
qed simp


lemma length_hex8 [simp]: "length (hex8 w) = 8"
  by (simp add: hex8_def)

lemma nibble_split:
  "i < 8 \<Longrightarrow> nibble (ucast (drop_bit 32 (w::u64)) :: u32) i = nibble w (i + 8)"
  "i < 8 \<Longrightarrow> nibble (ucast (w::u64) :: u32) i = nibble w i"
  by (rule bit_eqI; auto simp: bit_nibble bit_ucast_iff bit_drop_bit_eq ac_simps)+

lemma hex8_split:
  "hex8 (ucast (drop_bit 32 (w::u64))) = map hex_char (map (nibble w) (rev [8..<16]))"
  "hex8 (ucast (w::u64)) = map hex_char (map (nibble w) (rev [0..<8]))"
proof -
  have "rev [8..<16] = map (\<lambda>i. i + 8) (rev [0..<8::nat])"
    by (simp add: upt_rec)
  then show "hex8 (ucast (drop_bit 32 w)) = map hex_char (map (nibble w) (rev [8..<16]))"
    by (simp add: hex8_def nibble_split(1) del: upt_rec_numeral rev_map)
  show "hex8 (ucast w) = map hex_char (map (nibble w) (rev [0..<8]))"
    by (simp add: hex8_def nibble_split del: upt_rec_numeral)
qed

lemma foldl_feed_split:
  "foldl feed (foldl feed r (map (nibble w) (rev [8..<16]))) (map (nibble w) (rev [0..<8])) = w"
proof -
  have "rev [0..<16::nat] = rev [8..<16] @ rev [0..<8]"
    by (simp add: upt_rec)
  then have "foldl feed (foldl feed r (map (nibble w) (rev [8..<16]))) (map (nibble w) (rev [0..<8]))
      = foldl feed r (map (nibble w) (rev [0..<16]))"
    by (simp del: upt_rec_numeral)
  also have "\<dots> = push_bit 64 r OR take_bit 64 w"
    by (subst foldl_feed_nibbles) simp
  also have "\<dots> = w"
    by (rule bit_word_eqI) (simp add: bit_or_iff bit_push_bit_iff bit_take_bit_iff)
  finally show ?thesis .
qed

lemma decode_u64_hex8:
  "decode_u64 (hex8 (ucast (drop_bit 32 w)) @ c # hex8 (ucast w)) = Some w"
proof -
  let ?hi = "map (nibble w) (rev [8..<16])" and ?lo = "map (nibble w) (rev [0..<8])"
  have small: "\<forall>d\<in>set ?hi. d < 16" "\<forall>d\<in>set ?lo. d < 16"
    by (auto simp: nibble_less)
  have "decode_chars 0 (hex8 (ucast (drop_bit 32 w))) = Some (foldl feed 0 ?hi)"
    unfolding hex8_split(1) by (rule decode_chars_hex [OF small(1)])
  moreover have "decode_chars (foldl feed 0 ?hi) (hex8 (ucast w)) = Some w"
    unfolding hex8_split(2) decode_chars_hex [OF small(2)] foldl_feed_split ..
  ultimately show ?thesis by (simp add: decode_u64_def)
qed

section \<open>Round trips\<close>

text \<open>printing an identifier with \<open>toChars\<close> and parsing the 36 characters back yields
  the same identifier.\<close>

theorem uid_parse_toChars: "uid_parse (toChars u) = Some u"
proof -
  have "take 17 (toChars u) = hex8 (ucast (drop_bit 32 (v0 u))) @ CHR ''-'' # hex8 (ucast (v0 u))"
    and "take 17 (drop 18 (toChars u)) = hex8 (ucast (drop_bit 32 (v1 u))) @ CHR ''-'' # hex8 (ucast (v1 u))"
    and "length (toChars u) = CHAR_REPR_LENGTH"
    and "toChars u ! 8 = CHR ''-''" and "toChars u ! 17 = CHR ''-''" and "toChars u ! 26 = CHR ''-''"
    by (simp_all add: toChars_def Let_def nth_append CHAR_REPR_LENGTH_def)
  then show ?thesis by (simp add: uid_parse_def decode_u64_hex8)
qed

lemma nibble_feed:
  "d < 16 \<Longrightarrow> nibble (feed v d) 0 = d"
  "d < 16 \<Longrightarrow> j < 15 \<Longrightarrow> nibble (feed v d) (Suc j) = nibble v j"
proof -
  assume d: "d < 16"
  then have "take_bit 4 d = d" by (simp add: take_bit_nat_eq_self_iff)
  then have hi: "n < 4" if "bit d n" for n
    using that by (metis bit_take_bit_iff)
  show "nibble (feed v d) 0 = d"
    by (rule bit_eqI) (auto simp: bit_nibble feed_def bit_or_iff bit_push_bit_iff bit_of_nat_iff dest: hi)
  show "nibble (feed v d) (Suc j) = nibble v j" if "j < 15"
    by (rule bit_eqI) (use that in \<open>auto simp: bit_nibble feed_def bit_or_iff bit_push_bit_iff bit_of_nat_iff dest: hi\<close>)
qed

lemma nibble_foldl_feed:
  "\<forall>d\<in>set ds. d < 16 \<Longrightarrow> j < length ds \<Longrightarrow> length ds \<le> 16 \<Longrightarrow> nibble (foldl feed r ds) j = rev ds ! j"
proof (induction ds arbitrary: j rule: rev_induct)
  case (snoc d ds)
  then show ?case by (cases j) (auto simp: nibble_feed)
qed simp

lemma decode_u64_canonical:
  assumes len: "length s = 17" and dash: "s ! 8 = CHR ''-''" and dec: "decode_u64 s = Some w"
  shows "s = hex8 (ucast (drop_bit 32 w)) @ CHR ''-'' # hex8 (ucast w)"
proof -
  obtain v where v: "decode_chars 0 (take 8 s) = Some v"
    and w: "decode_chars v (take 8 (drop 9 s)) = Some w"
    using dec by (auto simp: decode_u64_def split: option.splits)
  from decode_chars_Some [OF v] obtain hi where hi: "take 8 s = map hex_char hi"
      "\<forall>d\<in>set hi. d < 16" "v = foldl feed 0 hi" by blast
  from decode_chars_Some [OF w] obtain lo where lo: "take 8 (drop 9 s) = map hex_char lo"
      "\<forall>d\<in>set lo. d < 16" "w = foldl feed v lo" by blast
  have lens: "length hi = 8" "length lo = 8"
    using arg_cong [OF hi(1), of length] arg_cong [OF lo(1), of length] len by simp_all
  have nib: "nibble w j = (rev lo @ rev hi) ! j" if "j < 16" for j
    using nibble_foldl_feed [of "hi @ lo" j 0] hi lo lens that by auto
  have "map (nibble w) [8..<16] = rev hi" "map (nibble w) [0..<8] = rev lo"
    by (rule nth_equalityI; simp add: lens nib nth_append del: upt_rec_numeral)+
  then have "map (nibble w) (rev [8..<16]) = hi" "map (nibble w) (rev [0..<8]) = lo"
    by (metis rev_map rev_rev_ident)+
  then have "hex8 (ucast (drop_bit 32 w)) = take 8 s" "hex8 (ucast w) = take 8 (drop 9 s)"
    by (simp_all only: hex8_split(1) hi(1) lo(1)) (simp only: hex8_split(2))
  moreover have "s = take 8 s @ s ! 8 # take 8 (drop 9 s)"
    using id_take_nth_drop [of 8 s] len by simp
  ultimately show ?thesis by (simp add: dash)
qed

text \<open>the parser accepts canonical text only: whenever it succeeds, the 35 visible
  characters are those \<open>toChars\<close> prints for the result. (The 36th character, the string
  terminator, is not looked at.)\<close>

theorem uid_parse_canonical:
  assumes "uid_parse s = Some u"
  shows "take 35 s = take 35 (toChars u)"
proof -
  from assms obtain a b where len: "length s = 36"
    and dash: "s ! 8 = CHR ''-''" "s ! 17 = CHR ''-''" "s ! 26 = CHR ''-''"
    and ab: "decode_u64 (take 17 s) = Some a" "decode_u64 (take 17 (drop 18 s)) = Some b"
    and u: "u = UID a b"
    by (auto simp: uid_parse_def CHAR_REPR_LENGTH_def split: if_splits option.splits)
  have "take 17 s = hex8 (ucast (drop_bit 32 a)) @ CHR ''-'' # hex8 (ucast a)"
    by (rule decode_u64_canonical) (use len dash ab in auto)
  moreover have "take 17 (drop 18 s) = hex8 (ucast (drop_bit 32 b)) @ CHR ''-'' # hex8 (ucast b)"
    by (rule decode_u64_canonical) (use len dash ab in auto)
  moreover have "take 35 s = take 17 s @ s ! 17 # take 17 (drop 18 s)"
    using id_take_nth_drop [of 17 "take 35 s"] len by (simp add: drop_take min_def)
  ultimately show ?thesis
    by (simp add: u dash toChars_def Let_def)
qed


theorem uid_parse_canonical_witness:
  "take 35 (toChars (UID 1 2)) = take 35 (toChars (UID 1 2)) \<and>
   uid_parse (toChars (UID 1 2)) = Some (UID 1 2)"
proof -
  have h: "uid_parse (toChars (UID 1 2)) = Some (UID 1 2)" by code_simp
  show ?thesis using uid_parse_canonical [OF h] h by simp
qed

end
