(* ===== verification/Hash.thy ===== *)
theory Hash
  imports Uid
begin

text \<open>
  The hash and checksum utilities of src/voxen/util/hash.cpp: the fixed-size XXH64, the
  key-to-UID extension built on it, the byte-wise FNV hash, the xorshift64 hashes and the
  chunked CRC32. The zlib function \<open>crc32\<close> is third-party: it is an argument of
  \<open>checksumCrc32\<close>.
\<close>

section \<open>Definitions\<close>

definition PRIME1 :: u64 where "PRIME1 = 11400714785074694791"
definition PRIME2 :: u64 where "PRIME2 = 14029467366897019727"
definition PRIME3 :: u64 where "PRIME3 = 1609587929392839161"
definition PRIME4 :: u64 where "PRIME4 = 9650029242287828579"
definition XXH_INIT :: u64 where "XXH_INIT = 2870177450012600261 + 8"

definition xxh64Fixed :: "u64 \<Rightarrow> u64" where
  "xxh64Fixed input =
     (let d = word_rotl 31 (input * PRIME2) * PRIME1;
          r0 = word_rotl 27 (XXH_INIT XOR d) * PRIME1 + PRIME4;
          r1 = r0 XOR drop_bit 33 r0;
          r2 = r1 * PRIME2;
          r3 = r2 XOR drop_bit 29 r2;
          r4 = r3 * PRIME3
      in r4 XOR drop_bit 32 r4)"

definition keyToUid :: "uid \<Rightarrow> u64 \<Rightarrow> uid" where
  "keyToUid pivot key = UID (v0 pivot) (v1 pivot XOR xxh64Fixed (v0 pivot XOR key))"

text \<open>The loop body multiplies before it mixes the byte in.\<close>

fun hashFnv1a_loop :: "u64 \<Rightarrow> u8 list \<Rightarrow> u64" where
  "hashFnv1a_loop r [] = r"
| "hashFnv1a_loop r (b # bs) = hashFnv1a_loop ((r * 0x100000001B3) XOR ucast b) bs"

definition hashFnv1a :: "u8 list \<Rightarrow> u64" where
  "hashFnv1a bs = hashFnv1a_loop 0xCBF29CE484222325 bs"

definition XORSHIFT64_SEED :: u64 where "XORSHIFT64_SEED = 0x2545F4914F6CDD1D"

definition feedXorshift64 :: "u64 \<Rightarrow> u64 \<Rightarrow> u64" where
  "feedXorshift64 prev nxt =
     (let x = prev + nxt;
          x = x XOR push_bit 13 x;
          x = x XOR drop_bit 7 x
      in x XOR push_bit 17 x)"

fun hashXorshift_loop :: "u64 \<Rightarrow> u64 list \<Rightarrow> u64" where
  "hashXorshift_loop r [] = r"
| "hashXorshift_loop r (d # ds) = hashXorshift_loop (feedXorshift64 r d) ds"

definition hashXorshift32 :: "u32 list \<Rightarrow> u64" where
  "hashXorshift32 ds = hashXorshift_loop XORSHIFT64_SEED (map ucast ds)"

definition hashXorshift64 :: "u64 list \<Rightarrow> u64" where
  "hashXorshift64 ds = hashXorshift_loop XORSHIFT64_SEED ds"

text \<open>\<open>uLong crc32(uLong crc, const Bytef *buf, uInt len)\<close> of zlib is the argument
  \<open>zcrc\<close>; \<open>limit\<close> is the largest \<open>uInt\<close>.\<close>

definition CRC_LIMIT :: nat where "CRC_LIMIT = 2 ^ 32 - 1"

function checksumCrc32_loop ::
  "nat \<Rightarrow> (u64 \<Rightarrow> u8 list \<Rightarrow> u64) \<Rightarrow> u64 \<Rightarrow> u8 list \<Rightarrow> u64 \<times> u8 list" where
  "checksumCrc32_loop limit zcrc crc bs =
     (if limit > 0 \<and> length bs \<ge> limit
      then checksumCrc32_loop limit zcrc (zcrc crc (take limit bs)) (drop limit bs)
      else (crc, bs))"
  by pat_completeness auto
termination
  by (relation "measure (\<lambda>(limit, zcrc, crc, bs). length bs)") auto

declare checksumCrc32_loop.simps [simp del]

definition checksumCrc32 :: "(u64 \<Rightarrow> u8 list \<Rightarrow> u64) \<Rightarrow> u8 list \<Rightarrow> u32" where
  "checksumCrc32 zcrc bs =
     (let crc = zcrc 0 [];
          (crc, rest) = checksumCrc32_loop CRC_LIMIT zcrc crc bs
      in ucast (zcrc crc rest))"

section \<open>Invertible word steps\<close>

lemma xor_drop_bit_inj:
  assumes k: "0 < k" and eq: "x XOR drop_bit k x = y XOR drop_bit k (y :: 'a::len word)"
  shows "x = y"
proof -
  have "bit x i = bit y i" if "LENGTH('a) - i \<le> n" for i n
    using that
  proof (induction n arbitrary: i)
    case 0
    then have "LENGTH('a) \<le> i" by simp
    then show ?case by (meson bit_imp_le_length leD)
  next
    case (Suc n)
    have "bit x (i + k) = bit y (i + k)" if "i < LENGTH('a)"
      by (rule Suc.IH) (use k Suc.prems that in auto)
    moreover have "bit (x XOR drop_bit k x) i = bit (y XOR drop_bit k y) i"
      by (simp add: eq)
    ultimately show ?case
      by (auto simp: bit_xor_iff bit_drop_bit_eq ac_simps dest: bit_imp_le_length)
  qed
  then show ?thesis by (intro bit_word_eqI) blast
qed

lemma xor_push_bit_inj:
  assumes k: "0 < k" and eq: "x XOR push_bit k x = y XOR push_bit k (y :: 'a::len word)"
  shows "x = y"
proof -
  have "bit x i = bit y i" for i
  proof (induction i rule: less_induct)
    case (less i)
    have "k \<le> i \<Longrightarrow> bit x (i - k) = bit y (i - k)"
      by (rule less) (use k in auto)
    moreover have "bit (x XOR push_bit k x) i = bit (y XOR push_bit k y) i"
      by (simp add: eq)
    ultimately show ?case
      by (auto simp: bit_xor_iff bit_push_bit_iff dest: bit_imp_le_length)
  qed
  then show ?thesis by (intro bit_word_eqI) blast
qed

lemma mult_inj: "(p :: 'a::len word) * q = 1 \<Longrightarrow> x * p = y * p \<Longrightarrow> x = y"
  by (metis mult.assoc mult.right_neutral)

lemma word_rotl_inj: "word_rotl n x = word_rotl n y \<Longrightarrow> x = y"
  by (metis word_rot_lr)

lemma word_xor_cancel: "(a :: 'a::len word) XOR x = a XOR y \<Longrightarrow> x = y"
  by (metis xor.assoc xor_self_eq xor.left_neutral)

lemma prime_inverses:
  "PRIME1 * 0x0887493432BADB37 = 1"
  "PRIME2 * 0xBA79078168D4BAF = 1"
  "PRIME3 * 0xE9E9F4C41D6DF849 = 1"
  "0x100000001B3 * (0xCE965057AFF6957B :: u64) = 1"
  by (simp_all add: PRIME1_def PRIME2_def PRIME3_def)


lemmas step_injs = xor_drop_bit_inj xor_push_bit_inj word_rotl_inj word_xor_cancel
  prime_inverses [THEN mult_inj]

lemma xxh64Fixed_inj: "inj xxh64Fixed"
proof (rule injI)
  fix x y assume "xxh64Fixed x = xxh64Fixed y"
  then show "x = y"
    unfolding xxh64Fixed_def Let_def
    by (auto dest!: xor_drop_bit_inj [rotated] word_rotl_inj word_xor_cancel
        prime_inverses(1) [THEN mult_inj] prime_inverses(2) [THEN mult_inj]
        prime_inverses(3) [THEN mult_inj])
qed

text \<open>\<open>xxh64Fixed\<close> is a bijection on 64-bit values, so hashes of keys of at most 64 bits
  never collide; the hash trie and \<open>ChunkKey::hash\<close> rely on it.\<close>

lemma xxh64Fixed_bij: "bij xxh64Fixed"
  by (simp add: bij_def xxh64Fixed_inj finite_UNIV_inj_surj)

text \<open>extending keys with one pivot never makes two keys collide, and the extension keeps
  the pivot's first half, which names the domain.\<close>

theorem keyToUid_unique:
  "(keyToUid p k = keyToUid p l \<longleftrightarrow> k = l) \<and> v0 (keyToUid p k) = v0 p"
proof -
  have "k = l" if "keyToUid p k = keyToUid p l"
  proof -
    from that have "xxh64Fixed (v0 p XOR k) = xxh64Fixed (v0 p XOR l)"
      by (auto simp: keyToUid_def dest: word_xor_cancel)
    then have "v0 p XOR k = v0 p XOR l" by (rule injD [OF xxh64Fixed_inj])
    then show ?thesis by (rule word_xor_cancel)
  qed
  then show ?thesis by (auto simp: keyToUid_def)
qed

lemma feedXorshift64_sum: "feedXorshift64 p n = feedXorshift64 q m \<Longrightarrow> p + n = q + m"
  unfolding feedXorshift64_def Let_def
  by (rule xor_push_bit_inj [where k = 13], simp, rule xor_drop_bit_inj [where k = 7], simp,
      rule xor_push_bit_inj [where k = 17], simp, assumption)

lemma feedXorshift64_inj:
  "feedXorshift64 p n = feedXorshift64 q n \<longleftrightarrow> p = q"
  "feedXorshift64 p n = feedXorshift64 p m \<longleftrightarrow> n = m"
  by (auto dest: feedXorshift64_sum)

lemma hashXorshift_loop_inj: "hashXorshift_loop r ds = hashXorshift_loop s ds \<longleftrightarrow> r = s"
  by (induction ds arbitrary: r s) (auto simp: feedXorshift64_inj)

lemma hashXorshift_loop_append:
  "hashXorshift_loop r (ds @ es) = hashXorshift_loop (hashXorshift_loop r ds) es"
  by (induction ds arbitrary: r) auto

lemma hashFnv1a_loop_inj: "hashFnv1a_loop r bs = hashFnv1a_loop s bs \<longleftrightarrow> r = s"
proof (induction bs arbitrary: r s)
  case (Cons b bs)
  have "r = s" if "(r * 0x100000001B3) XOR ucast b = (s * 0x100000001B3) XOR ucast b"
    using that by (metis word_xor_cancel xor.commute prime_inverses(4) mult_inj)
  then show ?case by (auto simp: Cons)
qed simp

lemma hashFnv1a_loop_append:
  "hashFnv1a_loop r (bs @ cs) = hashFnv1a_loop (hashFnv1a_loop r bs) cs"
  by (induction bs arbitrary: r) auto

lemma ucast_up_inj:
  "LENGTH('a) \<le> LENGTH('b) \<Longrightarrow> (ucast (a :: 'a::len word) :: 'b::len word) = ucast b \<longleftrightarrow> a = b"
  by (simp add: bit_eq_iff bit_ucast_iff) (meson bit_imp_le_length less_le_trans)

text \<open>each of the three data hashes is injective in every single position: changing one
  element of the input always changes the hash.\<close>

theorem data_hash_one_change:
  "(hashXorshift64 (xs @ a # ys) = hashXorshift64 (xs @ b # ys) \<longleftrightarrow> a = b) \<and>
   (hashXorshift32 (us @ c # vs) = hashXorshift32 (us @ d # vs) \<longleftrightarrow> c = d) \<and>
   (hashFnv1a (ps @ e # qs) = hashFnv1a (ps @ f # qs) \<longleftrightarrow> e = f)"
  by (auto simp: hashXorshift64_def hashXorshift32_def hashFnv1a_def hashXorshift_loop_append
      hashXorshift_loop_inj feedXorshift64_inj hashFnv1a_loop_append hashFnv1a_loop_inj
      ucast_up_inj dest: word_xor_cancel)

section \<open>FNV-1 against FNV-1a\<close>

text \<open>The published FNV-1a mixes the byte in before it multiplies; the header calls
  \<open>hashFnv1a\<close> by that name but the loop is FNV-1. On the one-byte message \<open>a\<close> the code
  gives FNV-1's published value, not FNV-1a's.\<close>

fun fnv1a_reference :: "u64 \<Rightarrow> u8 list \<Rightarrow> u64" where
  "fnv1a_reference r [] = r"
| "fnv1a_reference r (b # bs) = fnv1a_reference ((r XOR ucast b) * 0x100000001B3) bs"

lemma hashFnv1a_is_fnv1:
  "hashFnv1a [0x61] = 0xAF63BD4C8601B7BE"
  "fnv1a_reference 0xCBF29CE484222325 [0x61] = 0xAF63DC4C8601EC8C"
  by (simp_all add: hashFnv1a_def)

section \<open>Chunked CRC32\<close>

lemma checksumCrc32_loop_spec:
  "(\<And>c xs ys. zcrc (zcrc c xs) ys = zcrc c (xs @ ys)) \<Longrightarrow>
     case checksumCrc32_loop limit zcrc crc bs of (c, rest) \<Rightarrow>
           zcrc c rest = zcrc crc bs \<and> (0 < limit \<longrightarrow> length rest < limit)"
proof (induction limit zcrc crc bs rule: checksumCrc32_loop.induct)
  case (1 limit zcrc crc bs)
  show ?case
  proof (cases "0 < limit \<and> limit \<le> length bs")
    case True
    with 1 show ?thesis
      by (subst checksumCrc32_loop.simps) (auto split: prod.splits)
  next
    case False
    then show ?thesis by (subst checksumCrc32_loop.simps) auto
  qed
qed

text \<open>whatever the size of the data, the checksum is the one-shot \<open>crc32\<close> of all of it:
  splitting at the largest \<open>uInt\<close> loses nothing. The hypothesis is zlib's documented
  running-checksum behaviour.\<close>

theorem checksumCrc32_one_shot:
  assumes "\<And>c xs ys. zcrc (zcrc c xs) ys = zcrc c (xs @ ys)"
  shows "checksumCrc32 zcrc bs = ucast (zcrc 0 bs)"
  using checksumCrc32_loop_spec [where zcrc = zcrc and limit = CRC_LIMIT and crc = "zcrc 0 []" and bs = bs] assms
  by (auto simp: checksumCrc32_def Let_def split: prod.splits)

theorem checksumCrc32_one_shot_witness:
  "checksumCrc32 (foldl (\<lambda>r b. r * 31 + ucast b)) [7, 9] = 226"
proof -
  have "checksumCrc32 (foldl (\<lambda>r b. r * 31 + ucast b)) [7, 9]
      = ucast (foldl (\<lambda>r b. r * 31 + ucast (b :: u8)) (0 :: u64) [7, 9])"
    by (rule checksumCrc32_one_shot) simp
  then show ?thesis by simp
qed

end
