(* ===== verification/Chunk_Key.thy ===== *)
theory Chunk_Key
  imports Hash
begin

text \<open>
  The land subsystem's public constants (include/voxen/land/land_public_consts.hpp) and
  \<open>ChunkKey\<close> (include/voxen/land/chunk_key.hpp), the 64-bit packed identifier of a chunk:
  four bitfields, a level of detail and three signed coordinates. The bitfields are words of
  their declared widths, so storing into one truncates as the code's assignment does.
\<close>

section \<open>Constants\<close>

definition CHUNK_SIZE_BLOCKS :: nat where "CHUNK_SIZE_BLOCKS = 32"
definition NUM_LOD_SCALES :: nat where "NUM_LOD_SCALES = 9"
definition MAX_GENERATABLE_LOD :: nat where "MAX_GENERATABLE_LOD = NUM_LOD_SCALES - 3"
definition STORAGE_TREE_ROOT_ITEM_SIZE_CHUNKS :: nat where
  "STORAGE_TREE_ROOT_ITEM_SIZE_CHUNKS = 2 ^ (NUM_LOD_SCALES - 1 + 3 + 3)"
definition STORAGE_TREE_ROOT_ITEMS_X :: nat where "STORAGE_TREE_ROOT_ITEMS_X = 24"
definition STORAGE_TREE_ROOT_ITEMS_Z :: nat where "STORAGE_TREE_ROOT_ITEMS_Z = 4"
definition MIN_WORLD_Y_CHUNK :: int where "MIN_WORLD_Y_CHUNK = - (2 ^ (NUM_LOD_SCALES - 1))"
definition MAX_WORLD_Y_CHUNK :: int where "MAX_WORLD_Y_CHUNK = - MIN_WORLD_Y_CHUNK - 1"
definition MIN_UNIQUE_WORLD_X_CHUNK :: int where
  "MIN_UNIQUE_WORLD_X_CHUNK =
     - int (STORAGE_TREE_ROOT_ITEM_SIZE_CHUNKS * STORAGE_TREE_ROOT_ITEMS_X div 2)"
definition MAX_UNIQUE_WORLD_X_CHUNK :: int where
  "MAX_UNIQUE_WORLD_X_CHUNK = - MIN_UNIQUE_WORLD_X_CHUNK - 1"
definition MIN_UNIQUE_WORLD_Z_CHUNK :: int where
  "MIN_UNIQUE_WORLD_Z_CHUNK =
     - int (STORAGE_TREE_ROOT_ITEM_SIZE_CHUNKS * STORAGE_TREE_ROOT_ITEMS_Z div 2)"
definition MAX_UNIQUE_WORLD_Z_CHUNK :: int where
  "MAX_UNIQUE_WORLD_Z_CHUNK = - MIN_UNIQUE_WORLD_Z_CHUNK - 1"

lemmas land_consts = CHUNK_SIZE_BLOCKS_def NUM_LOD_SCALES_def MAX_GENERATABLE_LOD_def
  STORAGE_TREE_ROOT_ITEM_SIZE_CHUNKS_def STORAGE_TREE_ROOT_ITEMS_X_def
  STORAGE_TREE_ROOT_ITEMS_Z_def MIN_WORLD_Y_CHUNK_def MAX_WORLD_Y_CHUNK_def
  MIN_UNIQUE_WORLD_X_CHUNK_def MAX_UNIQUE_WORLD_X_CHUNK_def
  MIN_UNIQUE_WORLD_Z_CHUNK_def MAX_UNIQUE_WORLD_Z_CHUNK_def

section \<open>The key and its operations\<close>

text \<open>\<open>glm::ivec3\<close>: coordinates are \<open>int32_t\<close> in the code; every use below stays far inside
  that range.\<close>

datatype ivec3 = IVec3 (ivec_x: int) (ivec_y: int) (ivec_z: int)

text \<open>\<open>CHUNK_KEY_SCALE_BITS = 4\<close>, \<open>CHUNK_KEY_XZ_BITS = 22\<close>, \<open>CHUNK_KEY_Y_BITS = 16\<close>.\<close>

datatype chunk_key =
  Chunk_Key (scale_log2: "4 word") (key_x: "22 word") (key_y: "16 word") (key_z: "22 word")

abbreviation kx :: "chunk_key \<Rightarrow> int" where "kx k \<equiv> sint (key_x k)"
abbreviation ky :: "chunk_key \<Rightarrow> int" where "ky k \<equiv> sint (key_y k)"
abbreviation kz :: "chunk_key \<Rightarrow> int" where "kz k \<equiv> sint (key_z k)"
abbreviation kscale :: "chunk_key \<Rightarrow> nat" where "kscale k \<equiv> unat (scale_log2 k)"

text \<open>\<open>explicit ChunkKey(int64_t x, int64_t y, int64_t z, uint32_t scale_log2)\<close> and the
  \<open>ivec3\<close> constructor, which stores the same truncations.\<close>

definition mk_key :: "int \<Rightarrow> int \<Rightarrow> int \<Rightarrow> nat \<Rightarrow> chunk_key" where
  "mk_key x y z s = Chunk_Key (of_nat s) (of_int x) (of_int y) (of_int z)"

definition key_of_base :: "ivec3 \<Rightarrow> nat \<Rightarrow> chunk_key" where
  "key_of_base b s = mk_key (ivec_x b) (ivec_y b) (ivec_z b) s"

text \<open>\<open>std::bit_cast\<close> between the bitfields (lowest bits first) and \<open>uint64_t\<close>.\<close>

definition packed :: "chunk_key \<Rightarrow> u64" where
  "packed k = ucast (scale_log2 k) OR push_bit 4 (ucast (key_x k))
     OR push_bit 26 (ucast (key_y k)) OR push_bit 42 (ucast (key_z k))"

definition key_of_packed :: "u64 \<Rightarrow> chunk_key" where
  "key_of_packed p =
     Chunk_Key (ucast p) (ucast (drop_bit 4 p)) (ucast (drop_bit 26 p)) (ucast (drop_bit 42 p))"

definition base :: "chunk_key \<Rightarrow> ivec3" where
  "base k = IVec3 (kx k) (ky k) (kz k)"

definition scaleMultiplier :: "chunk_key \<Rightarrow> int" where
  "scaleMultiplier k = 2 ^ kscale k"

text \<open>\<open>(v >> n) << n\<close> on a signed value: an arithmetic shift, then a multiplication.\<close>

definition align_down :: "int \<Rightarrow> nat \<Rightarrow> int" where
  "align_down v n = push_bit n (drop_bit n v)"

definition parentLodKey :: "chunk_key \<Rightarrow> chunk_key" where
  "parentLodKey k =
     (let nscale = kscale k + 1
      in mk_key (align_down (kx k) nscale) (align_down (ky k) nscale) (align_down (kz k) nscale)
           nscale)"

text \<open>\<open>None\<close>: undefined behaviour, the documented precondition \<open>scale_log2 \<noteq> 0\<close> is violated.\<close>

definition childLodKey :: "chunk_key \<Rightarrow> nat \<Rightarrow> chunk_key option" where
  "childLodKey k index =
     (if kscale k = 0 then None
      else let nscale = kscale k - 1;
               step = 2 ^ nscale :: int
           in Some (mk_key
                (if bit index 1 then kx k + step else kx k)
                (if bit index 2 then ky k + step else ky k)
                (if bit index 0 then kz k + step else kz k)
                nscale))"

definition key_valid :: "chunk_key \<Rightarrow> bool" where
  "key_valid k \<longleftrightarrow>
     align_down (kx k) (kscale k) = kx k \<and> align_down (ky k) (kscale k) = ky k
     \<and> align_down (kz k) (kscale k) = kz k"

definition key_hash :: "chunk_key \<Rightarrow> u64" where
  "key_hash k = xxh64Fixed (packed k)"

text \<open>\<open>operator<\<close> compares packed values; with it the library's sorting applies to keys.\<close>

lemma key_of_packed_packed [simp]: "key_of_packed (packed k) = k"
proof (rule chunk_key.expand, intro conjI)
  show "scale_log2 (key_of_packed (packed k)) = scale_log2 k"
    by (rule bit_word_eqI) (auto simp: key_of_packed_def packed_def bit_ucast_iff bit_or_iff bit_push_bit_iff)
  show "key_x (key_of_packed (packed k)) = key_x k"
    by (rule bit_word_eqI) (auto simp: key_of_packed_def packed_def bit_ucast_iff bit_or_iff bit_push_bit_iff bit_drop_bit_eq dest: bit_imp_le_length)
  show "key_y (key_of_packed (packed k)) = key_y k"
    by (rule bit_word_eqI) (auto simp: key_of_packed_def packed_def bit_ucast_iff bit_or_iff bit_push_bit_iff bit_drop_bit_eq dest: bit_imp_le_length)
  show "key_z (key_of_packed (packed k)) = key_z k"
    by (rule bit_word_eqI) (auto simp: key_of_packed_def packed_def bit_ucast_iff bit_or_iff bit_push_bit_iff bit_drop_bit_eq dest: bit_imp_le_length)
qed

lemma packed_key_of_packed [simp]: "packed (key_of_packed p) = p"
proof (rule bit_word_eqI)
  fix n assume "n < LENGTH(64)"
  then consider "n < 4" | "4 \<le> n" "n < 26" | "26 \<le> n" "n < 42" | "42 \<le> n" "n < 64" by fastforce
  then show "bit (packed (key_of_packed p)) n = bit p n"
    by cases (auto simp: key_of_packed_def packed_def bit_ucast_iff bit_or_iff bit_push_bit_iff
        bit_drop_bit_eq)
qed

lemma packed_inj: "packed k = packed l \<longleftrightarrow> k = l"
  by (metis key_of_packed_packed)

instantiation chunk_key :: linorder
begin

definition less_eq_chunk_key :: "chunk_key \<Rightarrow> chunk_key \<Rightarrow> bool" where
  "less_eq_chunk_key a b \<longleftrightarrow> packed a \<le> packed b"

definition less_chunk_key :: "chunk_key \<Rightarrow> chunk_key \<Rightarrow> bool" where
  "less_chunk_key a b \<longleftrightarrow> packed a < packed b"

instance
  by standard (auto simp: less_eq_chunk_key_def less_chunk_key_def packed_inj order.strict_iff_order)

end

lemma key_hash_inj: "key_hash k = key_hash l \<longleftrightarrow> k = l"
  using xxh64Fixed_inj by (auto simp: key_hash_def packed_inj inj_eq)

text \<open>\<open>ChunkKey::hash\<close> is a bijection from keys to 64-bit values: no two keys collide, as
  the comment at its declaration says, and every hash value is the hash of a key.\<close>

theorem key_hash_bij: "bij key_hash"
proof -
  have "bij packed"
    by (rule o_bij [where g = key_of_packed]) (auto simp: fun_eq_iff)
  then have "bij (xxh64Fixed \<circ> packed)" by (rule bij_comp [OF _ xxh64Fixed_bij])
  then show ?thesis by (simp add: key_hash_def [abs_def] comp_def)
qed

section \<open>Level-of-detail arithmetic\<close>

lemma align_down_eq: "align_down v n = v div 2 ^ n * 2 ^ n"
  by (simp add: align_down_def push_bit_eq_mult drop_bit_eq_div)

lemma align_down_le: "align_down v n \<le> v"
  by (simp add: align_down_eq minus_mod_eq_div_mult [symmetric])

lemma align_down_gt: "v < align_down v n + 2 ^ n"
  by (simp add: align_down_eq minus_mod_eq_div_mult [symmetric])

lemma align_down_dvd: "2 ^ n dvd align_down v n"
  by (simp add: align_down_eq)

lemma align_down_id_iff: "align_down v n = v \<longleftrightarrow> 2 ^ n dvd v"
  by (metis align_down_eq dvd_div_mult_self dvd_triv_right)

lemma align_down_ge:
  assumes "c * 2 ^ n \<le> v" shows "c * 2 ^ n \<le> align_down v n"
  by (metis align_down_eq assms mult_right_mono nonzero_mult_div_cancel_right power_not_zero
      zdiv_mono1 zero_le_numeral zero_le_power zero_less_numeral zero_less_power zero_neq_numeral)

lemma align_down_align_down: "m \<le> n \<Longrightarrow> align_down (align_down v m) n = align_down v n"
  by (rule bit_eqI) (auto simp: align_down_def bit_push_bit_iff bit_drop_bit_eq)

lemma sint_of_int_small:
  "- (2 ^ (LENGTH('a) - 1)) \<le> v \<Longrightarrow> v < 2 ^ (LENGTH('a) - 1) \<Longrightarrow> sint (of_int v :: 'a::len word) = v"
  by (simp add: signed_of_int signed_take_bit_int_eq_self_iff)

lemma of_int_sint [simp]: "of_int (sint w) = (w :: 'a::len word)"
  by simp

lemma mk_key_sel [simp]:
  "scale_log2 (mk_key x y z s) = of_nat s" "key_x (mk_key x y z s) = of_int x"
  "key_y (mk_key x y z s) = of_int y" "key_z (mk_key x y z s) = of_int z"
  by (simp_all add: mk_key_def)

lemma kscale_less: "kscale k < 16"
proof -
  have "unat (scale_log2 k) < 2 ^ LENGTH(4)" by (rule unsigned_less)
  then show ?thesis by simp
qed

lemma kscale_mk_key: "s < 16 \<Longrightarrow> kscale (mk_key x y z s) = s"
  by (simp add: unat_of_nat)

lemma int_multiple_step: "c * p < d * p \<Longrightarrow> 0 < p \<Longrightarrow> c * p + p \<le> d * (p::int)"
proof -
  assume "c * p < d * p" and p: "0 < p"
  then have "c + 1 \<le> d" by (simp add: mult_less_cancel_right)
  then have "(c + 1) * p \<le> d * p" using p by (intro mult_right_mono) auto
  then show ?thesis by (simp add: algebra_simps)
qed

lemma aligned_step_range:
  assumes dvd: "2 ^ Suc n dvd v" and n: "Suc n \<le> m" and v: "- (2 ^ m) \<le> v" "v < (2::int) ^ m"
  shows "- (2 ^ m) \<le> v + 2 ^ n" "v + 2 ^ n < 2 ^ m"
proof -
  obtain c where c: "v = c * 2 ^ Suc n" using dvd by (metis dvdE mult.commute)
  have m: "(2::int) ^ m = 2 ^ (m - Suc n) * 2 ^ Suc n"
    using n by (metis le_add_diff_inverse2 power_add)
  have "v + 2 ^ Suc n \<le> 2 ^ m"
    using v(2) unfolding m unfolding c by (rule int_multiple_step) simp
  moreover have "(0::int) < 2 ^ n" "(2::int) ^ n < 2 ^ Suc n" by simp_all
  ultimately show "- (2 ^ m) \<le> v + 2 ^ n" "v + 2 ^ n < 2 ^ m" using v(1) by linarith+
qed

lemma align_down_step:
  assumes "2 ^ Suc n dvd v" shows "align_down (v + 2 ^ n) (Suc n) = v"
proof -
  obtain c where c: "v = c * 2 ^ Suc n" using assms by (metis dvdE mult.commute)
  have "(2 ^ n + c * 2 ^ Suc n) div 2 ^ Suc n = c + 2 ^ n div (2 ^ Suc n :: int)"
    by (rule div_mult_self1) simp
  also have "2 ^ n div (2 ^ Suc n :: int) = 0"
    by (rule div_pos_pos_trivial) auto
  finally show ?thesis unfolding align_down_eq c by (simp add: add.commute)
qed

text \<open>Stepping by half a cell from an aligned coordinate stays inside the bitfield and is
  undone by aligning.\<close>

lemma aligned_step:
  fixes w :: "'a::len word"
  assumes dvd: "2 ^ Suc n dvd sint w" and n: "Suc n \<le> LENGTH('a) - 1"
  shows "sint (of_int (sint w + 2 ^ n) :: 'a word) = sint w + 2 ^ n"
    and "2 ^ n dvd sint w + 2 ^ n" and "2 ^ n dvd sint w"
proof -
  show "sint (of_int (sint w + 2 ^ n) :: 'a word) = sint w + 2 ^ n"
    by (intro sint_of_int_small aligned_step_range dvd n) (simp_all only: sint_ge sint_lt)
  show "2 ^ n dvd sint w" by (rule dvd_trans [OF _ dvd]) (simp add: le_imp_power_dvd)
  then show "2 ^ n dvd sint w + 2 ^ n" by simp
qed

lemma key_valid_iff:
  "key_valid k \<longleftrightarrow> 2 ^ kscale k dvd kx k \<and> 2 ^ kscale k dvd ky k \<and> 2 ^ kscale k dvd kz k"
  by (simp add: key_valid_def align_down_id_iff)

lemma mk_key_kscale: "mk_key (kx k) (ky k) (kz k) (kscale k) = k"
  by (cases k) (simp add: mk_key_def)

text \<open>below every valid key of scale at least one there are eight children: each index
  gives a valid key one level finer whose parent is the key itself.\<close>

theorem childLodKey_parent:
  assumes "key_valid k" and "kscale k \<noteq> 0"
  shows "\<exists>c. childLodKey k i = Some c \<and> key_valid c \<and> kscale c = kscale k - 1
           \<and> parentLodKey c = k"
proof -
  obtain n where n: "kscale k = Suc n" using assms(2) by (cases "kscale k") auto
  have n14: "n < 15" using kscale_less [of k] n by simp
  have dvd: "2 ^ Suc n dvd kx k" "2 ^ Suc n dvd ky k" "2 ^ Suc n dvd kz k"
    using assms(1) n by (simp_all add: key_valid_iff)
  define x where "x = (if bit i 1 then kx k + 2 ^ n else kx k)"
  define y where "y = (if bit i 2 then ky k + 2 ^ n else ky k)"
  define z where "z = (if bit i 0 then kz k + 2 ^ n else kz k)"
  define c where "c = mk_key x y z n"
  have c: "childLodKey k i = Some c"
    using n by (simp add: childLodKey_def Let_def x_def y_def z_def c_def)
  have "kx c = x" "ky c = y" "kz c = z"
    using n14 aligned_step(1) [OF dvd(1)] aligned_step(1) [OF dvd(2)] aligned_step(1) [OF dvd(3)]
    by (simp_all add: c_def x_def y_def z_def)
  moreover have "kscale c = n" unfolding c_def by (rule kscale_mk_key) (use n14 in simp)
  ultimately have sel: "kx c = x" "ky c = y" "kz c = z" "kscale c = n" .
  have "2 ^ n dvd x" "2 ^ n dvd y" "2 ^ n dvd z"
    using aligned_step(2,3) [OF dvd(1)] aligned_step(2,3) [OF dvd(2)] aligned_step(2,3) [OF dvd(3)] n14
    by (simp_all add: x_def y_def z_def)
  then have "key_valid c" unfolding key_valid_iff sel by blast
  moreover have "align_down x (Suc n) = kx k" "align_down y (Suc n) = ky k" "align_down z (Suc n) = kz k"
    using dvd unfolding x_def y_def z_def by (simp_all add: align_down_step align_down_id_iff del: power_Suc)
  then have "parentLodKey c = mk_key (kx k) (ky k) (kz k) (kscale k)"
    unfolding parentLodKey_def sel n by (simp add: Let_def)
  then have "parentLodKey c = k" by (simp add: mk_key_kscale)
  ultimately show ?thesis using c n sel(4) by auto
qed

theorem childLodKey_parent_witness:
  "\<exists>c. childLodKey (mk_key (-32) 16 0 4) 6 = Some c \<and> key_valid c \<and> kscale c = 3
     \<and> parentLodKey c = mk_key (-32) 16 0 4"
proof -
  have "key_valid (mk_key (-32) 16 0 4)" "kscale (mk_key (-32) 16 0 4) \<noteq> 0"
    by (simp_all add: key_valid_iff mk_key_def)
  from childLodKey_parent [OF this, of 6] show ?thesis
    by (simp add: mk_key_def)
qed

lemma align_down_cases:
  assumes "2 ^ n dvd v"
  shows "v = align_down v (Suc n) \<or> v = align_down v (Suc n) + 2 ^ n"
proof -
  obtain c where c: "v = c * 2 ^ n" using assms by (metis dvdE mult.commute)
  have "v div 2 ^ Suc n = c div 2"
    unfolding c by (simp only: power_Suc2 div_mult_mult2 div_mult2_eq) simp
  then have "align_down v (Suc n) = (c div 2 * 2) * 2 ^ n" by (simp add: align_down_eq)
  moreover have "c = c div 2 * 2 \<or> c = c div 2 * 2 + 1" by presburger
  ultimately show ?thesis unfolding c by (metis distrib_right mult_1)
qed

lemma sint_align_down:
  fixes w :: "'a::len word"
  assumes "n \<le> LENGTH('a) - 1"
  shows "sint (of_int (align_down (sint w) n) :: 'a word) = align_down (sint w) n"
proof (rule sint_of_int_small)
  have "- (2 ^ (LENGTH('a) - 1)) = - (2 ^ (LENGTH('a) - 1 - n)) * (2 :: int) ^ n"
    using assms by (metis le_add_diff_inverse2 mult_minus_left power_add)
  then show "- (2 ^ (LENGTH('a) - 1)) \<le> align_down (sint w) n"
    using align_down_ge sint_ge [of w] by metis
  show "align_down (sint w) n < 2 ^ (LENGTH('a) - 1)"
    using align_down_le [of "sint w" n] sint_lt [of w] by linarith
qed

text \<open>every valid key below the top of the four-bit scale range is one of the eight
  children of its parent key, the parent is valid, and it contains the key's base point.\<close>

theorem parentLodKey_child:
  assumes "key_valid k" and "kscale k < 15"
  shows "key_valid (parentLodKey k) \<and> kscale (parentLodKey k) = kscale k + 1
    \<and> (\<exists>i<8. childLodKey (parentLodKey k) i = Some k)"
proof -
  let ?n = "kscale k"
  define ax where "ax = align_down (kx k) (Suc ?n)"
  define ay where "ay = align_down (ky k) (Suc ?n)"
  define az where "az = align_down (kz k) (Suc ?n)"
  have p: "parentLodKey k = mk_key ax ay az (Suc ?n)"
    by (simp add: parentLodKey_def Let_def ax_def ay_def az_def)
  have "kx (parentLodKey k) = ax" "ky (parentLodKey k) = ay" "kz (parentLodKey k) = az"
    using assms(2) unfolding p ax_def ay_def az_def by (simp_all add: sint_align_down)
  moreover have "kscale (parentLodKey k) = Suc ?n"
    unfolding p by (rule kscale_mk_key) (use assms(2) in simp)
  ultimately have sel: "kx (parentLodKey k) = ax" "ky (parentLodKey k) = ay"
    "kz (parentLodKey k) = az" "kscale (parentLodKey k) = Suc ?n" .
  have dvd: "2 ^ ?n dvd kx k" "2 ^ ?n dvd ky k" "2 ^ ?n dvd kz k"
    using assms(1) by (simp_all add: key_valid_iff)
  define bx where "bx = (kx k \<noteq> ax)"
  define by' where "by' = (ky k \<noteq> ay)"
  define bz where "bz = (kz k \<noteq> az)"
  define i where "i = of_bool bz + 2 * of_bool bx + (4 :: nat) * of_bool by'"
  have i: "i < 8" "bit i 0 = bz" "bit i 1 = bx" "bit i 2 = by'"
    by (cases bx; cases by'; cases bz; simp add: i_def bit_iff_odd)+
  have x: "kx k = (if bx then ax + 2 ^ ?n else ax)"
    using align_down_cases [OF dvd(1)] unfolding bx_def ax_def by auto
  have y: "ky k = (if by' then ay + 2 ^ ?n else ay)"
    using align_down_cases [OF dvd(2)] unfolding by'_def ay_def by auto
  have z: "kz k = (if bz then az + 2 ^ ?n else az)"
    using align_down_cases [OF dvd(3)] unfolding bz_def az_def by auto
  have "childLodKey (parentLodKey k) i = Some (mk_key (kx k) (ky k) (kz k) ?n)"
    unfolding childLodKey_def sel i Let_def x y z by simp
  also have "mk_key (kx k) (ky k) (kz k) ?n = k" by (rule mk_key_kscale)
  finally have "\<exists>i<8. childLodKey (parentLodKey k) i = Some k" using i(1) by blast
  moreover have "key_valid (parentLodKey k)"
    unfolding key_valid_iff sel by (simp add: ax_def ay_def az_def align_down_dvd del: power_Suc)
  ultimately show ?thesis using sel(4) by simp
qed

theorem parentLodKey_child_witness:
  "key_valid (parentLodKey (mk_key 5 (-3) 7 0)) \<and> kscale (parentLodKey (mk_key 5 (-3) 7 0)) = 0 + 1
    \<and> (\<exists>i<8. childLodKey (parentLodKey (mk_key 5 (-3) 7 0)) i = Some (mk_key 5 (-3) 7 0))"
proof -
  have 1: "key_valid (mk_key 5 (-3) 7 0)" "kscale (mk_key 5 (-3) 7 0) < 15"
    by (simp_all add: key_valid_iff mk_key_def)
  have "kscale (mk_key 5 (-3) 7 0) = 0" by (simp add: mk_key_def)
  then show ?thesis using parentLodKey_child [OF 1] by simp
qed

end
