(* ===== verification/Storage_Tree_Utils.thy ===== *)
theory Storage_Tree_Utils
  imports Chunk_Key "HOL-Library.Signed_Division"
begin

text \<open>
  src/voxen/land/storage_tree_utils.cpp and storage_tree_utils_private.hpp: the translation
  between chunk keys and bit-encoded traverse paths of the storage tree, and the helpers that
  read a path while the tree is descended. The x86 intrinsics the code calls (\<open>_pdep_u64\<close>,
  \<open>_pext_u64\<close>, \<open>_bextr_u32/64\<close>) have the definitions their instruction manual gives.
\<close>

section \<open>Bit deposit, extract and field extract\<close>

definition pdep :: "u64 \<Rightarrow> u64 \<Rightarrow> u64" where
  "pdep src m = horner_sum of_bool 2 (map (\<lambda>i. bit m i \<and> bit src (rank m i)) [0..<64])"

definition pext :: "u64 \<Rightarrow> u64 \<Rightarrow> u64" where
  "pext src m = horner_sum of_bool 2 (map (bit src) (filter (bit m) [0..<64]))"

definition bextr :: "'a::len word \<Rightarrow> nat \<Rightarrow> nat \<Rightarrow> 'a word" where
  "bextr src start len = take_bit len (drop_bit start src)"

lemma bit_pdep: "bit (pdep s m) i \<longleftrightarrow> bit m i \<and> bit s (rank m i)"
proof -
  have "bit m i \<Longrightarrow> i < 64" using bit_length [of m i] by simp
  then show ?thesis by (auto simp: pdep_def bit_horner_sum_bit_word_iff)
qed

lemma filter_upt_rank:
  "j < length (filter (bit m) [0..<n]) \<Longrightarrow>
     bit m (filter (bit m) [0..<n] ! j) \<and> filter (bit m) [0..<n] ! j < n
     \<and> rank m (filter (bit m) [0..<n] ! j) = j"
  for m :: "'a::len word"
  by (induction n) (auto simp: nth_append rank_def less_Suc_eq)

lemma rank_filter_upt:
  "bit m i \<Longrightarrow> i < n \<Longrightarrow> filter (bit m) [0..<n] ! rank m i = i"
  for m :: "'a::len word"
proof (induction n)
  case (Suc n)
  show ?case
  proof (cases "i = n")
    case True
    with Suc.prems show ?thesis by (simp add: rank_def)
  next
    case False
    with Suc.prems have "i < n" by simp
    with Suc rank_less [of m i n] show ?thesis by (auto simp: nth_append rank_def)
  qed
qed simp

lemma bit_pext:
  "bit (pext s m) j \<longleftrightarrow> j < popcount m \<and> bit s (filter (bit m) [0..<64] ! j)"
proof -
  have "length (filter (bit m) [0..<64]) = popcount m" by (simp add: popcount_def)
  with popcount_le [of m] show ?thesis
    by (auto simp: pext_def bit_horner_sum_bit_word_iff)
qed

lemma pext_or: "pext (a OR b) m = pext a m OR pext b m"
  by (rule bit_word_eqI) (auto simp: bit_pext bit_or_iff)

lemma pext_pdep: "pext (pdep s m) m = take_bit (popcount m) s"
proof (rule bit_word_eqI)
  fix n
  have "bit m (filter (bit m) [0..<64] ! n) \<and> rank m (filter (bit m) [0..<64] ! n) = n"
    if "n < popcount m"
    using filter_upt_rank [of n m 64] that by (simp add: popcount_def)
  then show "bit (pext (pdep s m) m) n = bit (take_bit (popcount m) s) n"
    by (auto simp: bit_pext bit_pdep bit_take_bit_iff)
qed

lemma pext_disjoint: "(\<And>i. bit m i \<Longrightarrow> \<not> bit a i) \<Longrightarrow> pext a m = 0"
proof (rule bit_word_eqI)
  fix n assume d: "\<And>i. bit m i \<Longrightarrow> \<not> bit a i"
  have "bit m (filter (bit m) [0..<64] ! n)" if "n < popcount m"
    using filter_upt_rank [of n m 64] that by (simp add: popcount_def)
  then show "bit (pext a m) n = bit 0 n" by (auto simp: bit_pext d)
qed

section \<open>Keys to paths\<close>

definition XMASK :: u64 where
  "XMASK = 0b0000000000101010001010100001001000010010000100100001001000000000"
definition YMASK :: u64 where
  "YMASK = 0b0000000000000000010000000010010000100100001001000010010000000000"
definition ZMASK :: u64 where
  "ZMASK = 0b0000000000010101000101010000100100001001000010010000100100000000"

text \<open>\<open>detail::DuoctreeLargestNode::NODE_SCALE_LOG2\<close>.\<close>

definition LARGEST_NODE_SCALE_LOG2 :: nat where
  "LARGEST_NODE_SCALE_LOG2 = 8"

definition RSZ :: int where "RSZ = int STORAGE_TREE_ROOT_ITEM_SIZE_CHUNKS"
definition WORLD_X :: int where "WORLD_X = RSZ * int STORAGE_TREE_ROOT_ITEMS_X"
definition WORLD_Z :: int where "WORLD_Z = RSZ * int STORAGE_TREE_ROOT_ITEMS_Z"

text \<open>\<open>a % b\<close> of two signed values takes the sign of \<open>a\<close>: \<open>smod\<close>. The correction adds
  \<open>b\<close> to a negative remainder; the result is divided as an unsigned value.\<close>

definition root_index :: "int \<Rightarrow> int \<Rightarrow> int" where
  "root_index v world =
     (let wrapped = (v + world div 2) smod world
      in (if wrapped < 0 then wrapped + world else wrapped) div RSZ)"

definition keyToTreePath :: "chunk_key \<Rightarrow> u64 option" where
  "keyToTreePath key =
     (let x = kx key; y = ky key; z = kz key; s = kscale key
      in if y < MIN_WORLD_Y_CHUNK \<or> y > MAX_WORLD_Y_CHUNK then None
         else if s > LARGEST_NODE_SCALE_LOG2 then None
         else if (x OR y OR z) AND (2 ^ s - 1) \<noteq> 0 then None
         else
           let x_root = root_index x WORLD_X;
               z_root = root_index z WORLD_Z;
               root_selector = push_bit (64 - 8)
                 (of_int (x_root * int STORAGE_TREE_ROOT_ITEMS_Z + z_root)) :: u64;
               shift_pos = 8 * ((s + 1) div 2) + 6;
               stop_subnode_bits = push_bit shift_pos (of_nat (if odd s then 3 else 2)) :: u64;
               snx = bextr (of_int x :: u32) s 1;
               sny = bextr (of_int y :: u32) s 1;
               snz = bextr (of_int z :: u32) s 1;
               subnode_selector = ucast (push_bit 2 sny OR push_bit 1 snx OR snz) :: u64
           in Some (subnode_selector OR stop_subnode_bits OR root_selector
                OR pdep (of_int x) XMASK OR pdep (of_int y) YMASK OR pdep (of_int z) ZMASK))"

section \<open>Paths to keys\<close>

definition calcRootItemMinCoord :: "nat \<Rightarrow> ivec3" where
  "calcRootItemMinCoord index =
     IVec3 (int (index div STORAGE_TREE_ROOT_ITEMS_Z * STORAGE_TREE_ROOT_ITEM_SIZE_CHUNKS)
              + MIN_UNIQUE_WORLD_X_CHUNK)
           MIN_WORLD_Y_CHUNK
           (int (index mod STORAGE_TREE_ROOT_ITEMS_Z * STORAGE_TREE_ROOT_ITEM_SIZE_CHUNKS)
              + MIN_UNIQUE_WORLD_Z_CHUNK)"

text \<open>The brute-force search over even levels; past the last one the path goes down to a
  chunk, scale 0.\<close>

function find_lod :: "u64 \<Rightarrow> nat \<Rightarrow> nat" where
  "find_lod tree_path lod =
     (if lod < NUM_LOD_SCALES then
        if tree_path AND push_bit (8 * lod div 2) 128 \<noteq> 0 then
          if tree_path AND push_bit (8 * lod div 2) 64 \<noteq> 0 then lod - 1 else lod
        else find_lod tree_path (lod + 2)
      else 0)"
  by pat_completeness auto
termination by (relation "measure (\<lambda>(p, lod). NUM_LOD_SCALES - lod)") auto

declare find_lod.simps [simp del]

definition treePathToKey :: "u64 \<Rightarrow> chunk_key" where
  "treePathToKey tree_path =
     (let x = pext tree_path XMASK;
          y = pext tree_path YMASK;
          z = pext tree_path ZMASK;
          y_sign_bit = push_bit 8 1 :: u64;
          y_sign_fill_mask = NOT (push_bit 1 y_sign_bit - 1);
          y = (if y AND y_sign_bit \<noteq> 0 then y OR y_sign_fill_mask else y);
          root_component = unat (drop_bit (64 - 8) tree_path);
          coord = calcRootItemMinCoord root_component
      in mk_key (ivec_x coord + sint (ucast x :: u32)) (sint (ucast y :: u32))
           (ivec_z coord + sint (ucast z :: u32)) (find_lod tree_path 2))"

section \<open>Reading a path during the descent\<close>

definition triquadtreeYNegative :: "u64 \<Rightarrow> bool" where
  "triquadtreeYNegative path_component \<longleftrightarrow> path_component AND 64 \<noteq> 0"

definition calcTriquadtreeChildMinCoord :: "int \<Rightarrow> int \<Rightarrow> int \<Rightarrow> u64 \<Rightarrow> ivec3" where
  "calcTriquadtreeChildMinCoord CHILD_SIZE min_x min_z p =
     (let cx = drop_bit 3 (p AND 0b100000) OR drop_bit 2 (p AND 0b1000) OR drop_bit 1 (p AND 0b10);
          cz = drop_bit 2 (p AND 0b010000) OR drop_bit 1 (p AND 0b0100) OR (p AND 0b01)
      in IVec3 (min_x + CHILD_SIZE * uint cx)
           (if triquadtreeYNegative p then - CHILD_SIZE else 0)
           (min_z + CHILD_SIZE * uint cz))"

definition calcDuoctreeChildMinCoord :: "int \<Rightarrow> chunk_key \<Rightarrow> u64 \<Rightarrow> ivec3" where
  "calcDuoctreeChildMinCoord CHILD_SIZE key p =
     (let cx = drop_bit 3 (p AND 0b010000) OR drop_bit 1 (p AND 0b010);
          cy = drop_bit 4 (p AND 0b100000) OR drop_bit 2 (p AND 0b100);
          cz = drop_bit 2 (p AND 0b001000) OR (p AND 0b001)
      in IVec3 (kx key + CHILD_SIZE * uint cx) (ky key + CHILD_SIZE * uint cy)
           (kz key + CHILD_SIZE * uint cz))"

definition extractNodePathComponent :: "nat \<Rightarrow> u64 \<Rightarrow> u64" where
  "extractNodePathComponent B tree_path = bextr tree_path (8 * B) 8"

definition extractNodePathChildBit :: "u64 \<Rightarrow> u64" where
  "extractNodePathChildBit path_component = onebit (unat (path_component AND 63))"

definition extractNodePathStopBit :: "u64 \<Rightarrow> bool" where
  "extractNodePathStopBit path_component \<longleftrightarrow> path_component AND 128 \<noteq> 0"

definition extractNodeKeyMaskBit :: "u64 \<Rightarrow> u64 \<Rightarrow> u32" where
  "extractNodeKeyMaskBit tree_path path_component =
     (if path_component AND 64 \<noteq> 0 then onebit (unat (tree_path AND 7)) else 256)"


section \<open>The torus\<close>

lemma root_index_eq:
  assumes "0 < world"
  shows "root_index v world = ((v + world div 2) mod world) div RSZ"
proof -
  have "(if w smod world < 0 then w smod world + world else w smod world) = w mod world" for w
  proof -
    have "w mod world = w smod world + world * of_bool (sgn w \<noteq> sgn world \<and> \<not> world dvd w)"
      by (rule modulo_int_eq_signed_modulo_int)
    moreover have "0 \<le> w mod world" "w mod world < world" using assms by simp_all
    ultimately show ?thesis by (cases "sgn w \<noteq> sgn world \<and> \<not> world dvd w") auto
  qed
  then show ?thesis by (simp add: root_index_def Let_def)
qed

definition wrap_coord :: "int \<Rightarrow> int \<Rightarrow> int" where
  "wrap_coord v world = (v + world div 2) mod world - world div 2"

definition wrap_key :: "chunk_key \<Rightarrow> chunk_key" where
  "wrap_key k = mk_key (wrap_coord (kx k) WORLD_X) (ky k) (wrap_coord (kz k) WORLD_Z) (kscale k)"

lemmas world_consts = WORLD_X_def WORLD_Z_def RSZ_def land_consts

lemma root_index_bounds:
  "0 \<le> root_index v WORLD_X" "root_index v WORLD_X < 24"
  "0 \<le> root_index v WORLD_Z" "root_index v WORLD_Z < 4"
  unfolding world_consts by (simp_all add: root_index_eq RSZ_def land_consts div_less_iff_less_mult)

lemma mod_scaled:
  "(v + h * r) mod (n * r) = ((v + h * r) mod (n * r)) div r * r + v mod (r :: int)"
proof -
  have "(v + h * r) mod (n * r) mod r = (v + h * r) mod r" by (rule mod_mod_cancel) simp
  also have "\<dots> = v mod r" by (rule mod_mult_self1)
  finally show ?thesis using div_mult_mod_eq [of "(v + h * r) mod (n * r)" r] by simp
qed

lemma wrap_coord_split:
  "wrap_coord v WORLD_X = root_index v WORLD_X * RSZ + MIN_UNIQUE_WORLD_X_CHUNK + v mod RSZ"
  "wrap_coord v WORLD_Z = root_index v WORLD_Z * RSZ + MIN_UNIQUE_WORLD_Z_CHUNK + v mod RSZ"
  using mod_scaled [of v 12 RSZ 24] mod_scaled [of v 2 RSZ 4]
  by (simp_all add: wrap_coord_def root_index_eq world_consts)

lemma mask_bits:
  "XMASK = (((((((((((((0 OR onebit 9) OR onebit 12) OR onebit 17) OR onebit 20) OR onebit 25)
     OR onebit 28) OR onebit 33) OR onebit 36) OR onebit 41) OR onebit 43) OR onebit
     45) OR onebit 49) OR onebit 51) OR onebit 53"
  "YMASK = ((((((((0 OR onebit 10) OR onebit 13) OR onebit 18) OR onebit 21) OR onebit 26) OR
     onebit 29) OR onebit 34) OR onebit 37) OR onebit 46"
  "ZMASK = (((((((((((((0 OR onebit 8) OR onebit 11) OR onebit 16) OR onebit 19) OR onebit 24)
     OR onebit 27) OR onebit 32) OR onebit 35) OR onebit 40) OR onebit 42) OR onebit
     44) OR onebit 48) OR onebit 50) OR onebit 52"
  by (simp_all add: XMASK_def YMASK_def ZMASK_def onebit_def)

lemma bit_mask_table:
  "bit XMASK i \<longleftrightarrow> i \<in> {9,12,17,20,25,28,33,36,41,43,45,49,51,53}"
  "bit YMASK i \<longleftrightarrow> i \<in> {10,13,18,21,26,29,34,37,46}"
  "bit ZMASK i \<longleftrightarrow> i \<in> {8,11,16,19,24,27,32,35,40,42,44,48,50,52}"
  unfolding mask_bits by (auto simp: bit_or_iff bit_onebit)

lemma popcount_masks: "popcount XMASK = 14" "popcount YMASK = 9" "popcount ZMASK = 14"
  unfolding mask_bits by (simp_all add: popcount_or_onebit popcount_onebit bit_or_iff bit_onebit)

text \<open>The parts of a path below and above the three interleaved coordinates.\<close>

definition stop_bits :: "nat \<Rightarrow> u64" where
  "stop_bits s = push_bit (8 * ((s + 1) div 2) + 6) (of_nat (if odd s then 3 else 2))"

lemma bit_stop_bits:
  assumes "s \<le> 8"
  shows "bit (stop_bits s) i \<longleftrightarrow>
     i = 8 * ((s + 1) div 2) + 7 \<or> (odd s \<and> i = 8 * ((s + 1) div 2) + 6)"
proof -
  define d where "d = 8 * ((s + 1) div 2) + 6"
  have d: "d \<le> 38" using assms by (simp add: d_def)
  have e: "(3 :: u64) = onebit 0 OR onebit 1" "(2 :: u64) = onebit 1" by (simp_all add: onebit_def)
  have "stop_bits s = (if odd s then onebit d OR onebit (Suc d) else onebit (Suc d))"
    unfolding stop_bits_def d_def [symmetric]
    by (cases "odd s") (simp_all only: if_True if_False of_nat_numeral e onebit_def push_bit_or
        push_bit_push_bit plus_1_eq_Suc add_0_right Suc_eq_plus1 simp_thms)
  then have "bit (stop_bits s) i \<longleftrightarrow> i = Suc d \<or> (odd s \<and> i = d)"
    using d by (auto simp: bit_or_iff bit_onebit)
  then show ?thesis by (auto simp: d_def)
qed

definition selector :: "chunk_key \<Rightarrow> u64" where
  "selector k = ucast (push_bit 2 (bextr (of_int (ky k) :: u32) (kscale k) 1)
     OR push_bit 1 (bextr (of_int (kx k) :: u32) (kscale k) 1)
     OR bextr (of_int (kz k) :: u32) (kscale k) 1)"

lemma bit_selector: "bit (selector k) i \<Longrightarrow> i < 3"
  unfolding selector_def bextr_def bit_ucast_iff bit_or_iff bit_push_bit_iff bit_take_bit_iff by auto

definition root_part :: "chunk_key \<Rightarrow> u64" where
  "root_part k = push_bit 56 (of_int (root_index (kx k) WORLD_X * 4 + root_index (kz k) WORLD_Z))"

lemma bit_root_part: "bit (root_part k) i \<Longrightarrow> 56 \<le> i"
  by (auto simp: root_part_def bit_push_bit_iff)

definition tree_path :: "chunk_key \<Rightarrow> u64" where
  "tree_path k = selector k OR stop_bits (kscale k) OR root_part k
     OR pdep (of_int (kx k)) XMASK OR pdep (of_int (ky k)) YMASK OR pdep (of_int (kz k)) ZMASK"

lemma aligned_or_iff:
  "(x OR y OR z) AND (2 ^ s - 1) = 0 \<longleftrightarrow> 2 ^ s dvd x \<and> 2 ^ s dvd y \<and> 2 ^ s dvd (z :: int)"
  by (simp add: mask_eq_exp_minus_1 [symmetric] take_bit_eq_mask [symmetric] take_bit_or
      or_eq_0_iff take_bit_eq_0_iff)

definition has_path :: "chunk_key \<Rightarrow> bool" where
  "has_path k \<longleftrightarrow> - 256 \<le> ky k \<and> ky k \<le> 255 \<and> kscale k \<le> 8 \<and> key_valid k"

lemma keyToTreePath_eq: "keyToTreePath k = (if has_path k then Some (tree_path k) else None)"
  unfolding keyToTreePath_def Let_def aligned_or_iff tree_path_def selector_def stop_bits_def
    root_part_def has_path_def key_valid_iff
  by (auto simp: land_consts LARGEST_NODE_SCALE_LOG2_def)

lemma masks_disjoint:
  "XMASK AND YMASK = 0" "XMASK AND ZMASK = 0" "YMASK AND XMASK = 0"
  "YMASK AND ZMASK = 0" "ZMASK AND XMASK = 0" "ZMASK AND YMASK = 0"
  by (simp_all add: XMASK_def YMASK_def ZMASK_def)

lemma pext_pdep_other: "m AND m' = 0 \<Longrightarrow> pext (pdep s m) m' = 0"
  by (rule pext_disjoint) (metis bit_and_iff bit_pdep bit_0_eq bot_apply bot_bool_def)

lemma mask_bits_between:
  "bit XMASK i \<or> bit YMASK i \<or> bit ZMASK i \<Longrightarrow>
     3 \<le> i \<and> i < 56 \<and> i \<notin> {7, 15, 23, 31, 39, 14, 22, 30, 38}"
  by (elim disjE) (auto simp: bit_mask_table)

lemma pext_around:
  assumes "has_path k" "m = XMASK \<or> m = YMASK \<or> m = ZMASK"
  shows "pext (selector k) m = 0" "pext (stop_bits (kscale k)) m = 0" "pext (root_part k) m = 0"
proof -
  have m: "bit m i \<Longrightarrow> 3 \<le> i \<and> i < 56 \<and> i \<notin> {7, 15, 23, 31, 39, 14, 22, 30, 38}" for i
    using mask_bits_between [of i] assms(2) by blast
  show "pext (selector k) m = 0"
  proof (rule pext_disjoint)
    fix i assume "bit m i"
    then show "\<not> bit (selector k) i" using m [of i] bit_selector [of k i] by linarith
  qed
  show "pext (root_part k) m = 0"
  proof (rule pext_disjoint)
    fix i assume "bit m i"
    then show "\<not> bit (root_part k) i" using m [of i] bit_root_part [of k i] by linarith
  qed
  define q where "q = (kscale k + 1) div 2"
  have s: "kscale k \<le> 8" using assms by (simp add: has_path_def)
  have q: "q \<in> {0, 1, 2, 3, 4}" "odd (kscale k) \<longrightarrow> q \<noteq> 0"
    using s unfolding q_def by (simp_all, presburger+)
  have "i \<in> {7, 15, 23, 31, 39, 14, 22, 30, 38}" if "bit (stop_bits (kscale k)) i" for i
    using that bit_stop_bits [OF s, of i] q unfolding q_def [symmetric] by auto
  then show "pext (stop_bits (kscale k)) m = 0"
  proof (intro pext_disjoint notI)
    fix i assume "bit m i" "bit (stop_bits (kscale k)) i"
      and "\<And>i. bit (stop_bits (kscale k)) i \<Longrightarrow> i \<in> {7, 15, 23, 31, 39, 14, 22, 30, 38}"
    then show False using m [of i] by blast
  qed
qed

lemma pext_tree_path:
  assumes "has_path k"
  shows "pext (tree_path k) XMASK = take_bit 14 (of_int (kx k))"
    and "pext (tree_path k) YMASK = take_bit 9 (of_int (ky k))"
    and "pext (tree_path k) ZMASK = take_bit 14 (of_int (kz k))"
  unfolding tree_path_def pext_or pext_pdep popcount_masks
  by (simp_all only: pext_around [OF assms] pext_pdep_other masks_disjoint or.left_neutral
      or.right_neutral simp_thms)

lemma ucast_u64_u32: "ucast (of_int v :: u64) = (of_int v :: u32)"
  by (rule bit_word_eqI) (auto simp: bit_ucast_iff bit_word_of_int_iff)

lemma sint_low_bits:
  assumes "n < 32"
  shows "sint (ucast (take_bit n (of_int v :: u64)) :: u32) = take_bit n v"
proof -
  have "take_bit n v < 2 ^ 31"
    using take_bit_int_less_exp [of n v] power_increasing [of n 31 "2 :: int"] assms by linarith
  then show ?thesis
    by (simp add: take_bit_of_int ucast_u64_u32 sint_of_int_small order_trans [OF _ take_bit_nonnegative])
qed

lemma sint_sign_extended:
  assumes "- 256 \<le> y" "y \<le> 255"
  shows "sint (ucast (let w = take_bit 9 (of_int y :: u64) in
     if w AND push_bit 8 1 \<noteq> 0 then w OR NOT (push_bit 1 (push_bit 8 1) - 1) else w) :: u32) = y"
proof -
  have s: "signed_take_bit 8 y = y" using assms by (simp add: signed_take_bit_int_eq_self_iff)
  have "bit (signed_take_bit 8 y) i = bit y (min 8 i)" for i
    by (simp add: bit_signed_take_bit_iff)
  then have b: "bit y i = bit y (min 8 i)" for i unfolding s .
  have p: "(push_bit 8 1 :: u64) = onebit 8" "push_bit 1 (onebit 8) = (onebit 9 :: u64)"
    by (simp_all add: onebit_def)
  have "(let w = take_bit 9 (of_int y :: u64) in
     if w AND push_bit 8 1 \<noteq> 0 then w OR NOT (push_bit 1 (push_bit 8 1) - 1) else w) = of_int y"
    unfolding p Let_def and_onebit_zero
  proof (rule bit_word_eqI)
    fix i assume "i < LENGTH(64)"
    then have i: "i < 64" by simp
    show "bit (if \<not> \<not> bit (take_bit 9 (of_int y :: u64)) 8 then take_bit 9 (of_int y) OR NOT (onebit 9 - 1)
        else take_bit 9 (of_int y :: u64)) i = bit (of_int y :: u64) i"
    proof (cases "i < 9")
      case True
      with i show ?thesis
        by (simp add: bit_take_bit_iff bit_or_iff bit_not_iff bit_onebit_minus_1 bit_word_of_int_iff)
    next
      case False
      then have "bit y i = bit y 8" using b [of i] by simp
      with i False show ?thesis
        by (simp add: bit_take_bit_iff bit_or_iff bit_not_iff bit_onebit_minus_1 bit_word_of_int_iff)
    qed
  qed
  then show ?thesis using assms by (simp only: ucast_u64_u32) (simp add: sint_of_int_small)
qed

lemma push_bit_onebit: "push_bit n (128 :: u64) = onebit (n + 7)" "push_bit n (64 :: u64) = onebit (n + 6)"
proof -
  have "(128 :: u64) = onebit 7" "(64 :: u64) = onebit 6" by (simp_all add: onebit_def)
  then show "push_bit n (128 :: u64) = onebit (n + 7)" "push_bit n (64 :: u64) = onebit (n + 6)"
    by (simp_all only: onebit_def push_bit_push_bit)
qed

lemma find_lod_step:
  "find_lod p lod = (if lod < 9 then
     if bit p (8 * lod div 2 + 7) then if bit p (8 * lod div 2 + 6) then lod - 1 else lod
     else find_lod p (lod + 2) else 0)"
  by (subst find_lod.simps)
    (simp only: push_bit_onebit and_onebit_zero not_not NUM_LOD_SCALES_def if_not_P)

lemma bit_tree_path_stop:
  assumes "i \<in> {14,15,22,23,30,31,38,39}"
  shows "bit (tree_path k) i = bit (stop_bits (kscale k)) i"
proof -
  have "\<not> bit (selector k) i" "\<not> bit (root_part k) i"
    using bit_selector [of k i] bit_root_part [of k i] assms by auto
  with assms show ?thesis
    unfolding tree_path_def bit_or_iff bit_pdep bit_mask_table by auto
qed

lemma find_lod_unfolded:
  "find_lod p 2 =
     (if bit p 15 then if bit p 14 then 1 else 2
      else if bit p 23 then if bit p 22 then 3 else 4
      else if bit p 31 then if bit p 30 then 5 else 6
      else if bit p 39 then if bit p 38 then 7 else 8 else 0)"
  by (simp add: find_lod_step [of p 2] find_lod_step [of p 4] find_lod_step [of p 6]
      find_lod_step [of p 8] find_lod_step [of p 10])

lemma find_lod_tree_path:
  assumes "has_path k" shows "find_lod (tree_path k) 2 = kscale k"
proof -
  define s where "s = kscale k"
  have "s \<le> 8" using assms by (auto simp: has_path_def s_def)
  then have "s = 0 \<or> s = 1 \<or> s = 2 \<or> s = 3 \<or> s = 4 \<or> s = 5 \<or> s = 6 \<or> s = 7 \<or> s = 8" by auto
  moreover have "bit (tree_path k) i = bit (stop_bits s) i" if "i \<in> {14,15,22,23,30,31,38,39}" for i
    unfolding s_def by (rule bit_tree_path_stop [OF that])
  ultimately have "find_lod (tree_path k) 2 = s"
    by (elim disjE) (simp_all add: find_lod_unfolded bit_stop_bits)
  then show ?thesis by (simp add: s_def)
qed

lemma root_of_tree_path:
  assumes "has_path k"
  shows "unat (drop_bit 56 (tree_path k)) = nat (root_index (kx k) WORLD_X * 4 + root_index (kz k) WORLD_Z)"
proof -
  define r where "r = root_index (kx k) WORLD_X * 4 + root_index (kz k) WORLD_Z"
  have r: "0 \<le> r" "r < 96" using root_index_bounds unfolding r_def by (smt (verit))+
  have "drop_bit 56 (tree_path k) = take_bit 8 (of_int r :: u64)"
  proof (rule bit_word_eqI)
    fix i assume "i < LENGTH(64)"
    have "8 * ((kscale k + 1) div 2) < 40" using assms by (auto simp: has_path_def)
    then have "\<not> bit (stop_bits (kscale k)) (56 + i)"
      using assms by (auto simp: bit_stop_bits has_path_def)
    moreover have "\<not> bit (selector k) (56 + i)" using bit_selector [of k "56 + i"] by auto
    moreover have "bit (root_part k) (56 + i) \<longleftrightarrow> i < 8 \<and> bit (of_int r :: u64) i"
      by (auto simp: root_part_def bit_push_bit_iff r_def)
    ultimately show "bit (drop_bit 56 (tree_path k)) i = bit (take_bit 8 (of_int r :: u64)) i"
      unfolding tree_path_def bit_drop_bit_eq comp_def bit_or_iff bit_pdep bit_mask_table bit_take_bit_iff
      by auto
  qed
  also have "\<dots> = of_int r" using r by (simp add: take_bit_of_int take_bit_int_eq_self)
  finally have "drop_bit 56 (tree_path k) = of_int r" .
  moreover obtain n where "r = int n" using r(1) by (metis nonneg_int_cases)
  ultimately show ?thesis using r unfolding r_def [symmetric] by (simp add: unat_of_nat)
qed

lemma calcRootItemMinCoord_eq:
  assumes "0 \<le> xr" "0 \<le> zr" "zr < 4"
  shows "calcRootItemMinCoord (nat (xr * 4 + zr)) =
    IVec3 (xr * RSZ + MIN_UNIQUE_WORLD_X_CHUNK) MIN_WORLD_Y_CHUNK (zr * RSZ + MIN_UNIQUE_WORLD_Z_CHUNK)"
proof -
  obtain a b where "xr = int a" "zr = int b" using assms by (metis nonneg_int_cases)
  moreover from this have "nat (xr * 4 + zr) = a * 4 + b" by simp
  ultimately show ?thesis using assms
    by (simp add: calcRootItemMinCoord_def STORAGE_TREE_ROOT_ITEMS_Z_def RSZ_def)
qed

lemma treePathToKey_tree_path:
  assumes "has_path k" shows "treePathToKey (tree_path k) = wrap_key k"
proof -
  have y: "- 256 \<le> ky k" "ky k \<le> 255" using assms by (simp_all add: has_path_def)
  have m: "v mod RSZ = take_bit 14 v" for v
    by (simp add: take_bit_eq_mod RSZ_def land_consts)
  have e: "(64 - 8 :: nat) = 56" by simp
  have low: "sint (ucast (take_bit 14 (of_int v :: u64)) :: u32) = take_bit 14 v" for v
    by (rule sint_low_bits) simp
  show ?thesis
    unfolding treePathToKey_def wrap_key_def wrap_coord_split m e Let_def pext_tree_path [OF assms]
      root_of_tree_path [OF assms] find_lod_tree_path [OF assms] low
      calcRootItemMinCoord_eq [OF root_index_bounds(1,3,4)] sint_sign_extended [OF y, unfolded Let_def]
    by simp
qed

text \<open>a key has a tree path exactly when its height is inside the world, its level exists and
  its coordinates lie on the grid of that level; every other key is refused.\<close>

theorem keyToTreePath_None_iff:
  "(keyToTreePath k \<noteq> None) =
     (MIN_WORLD_Y_CHUNK \<le> ky k \<and> ky k \<le> MAX_WORLD_Y_CHUNK \<and> kscale k < NUM_LOD_SCALES
      \<and> key_valid k)"
  by (auto simp: keyToTreePath_eq has_path_def land_consts)

text \<open>decoding a key's path gives the key back, its X and Z coordinates wrapped into the
  unique part of the world.\<close>

theorem treePathToKey_keyToTreePath:
  assumes "keyToTreePath k = Some p"
  shows "treePathToKey p = wrap_key k"
  using assms treePathToKey_tree_path by (auto simp: keyToTreePath_eq split: if_splits)

theorem treePathToKey_keyToTreePath_witness:
  "\<exists>p. keyToTreePath (mk_key 393220 (-8) 196608 2) = Some p \<and> treePathToKey p = mk_key 4 (-8) 0 2"
proof -
  have "keyToTreePath (mk_key 393220 (-8) 196608 2) \<noteq> None"
    by (simp add: keyToTreePath_eq has_path_def mk_key_def key_valid_iff)
  then obtain p where p: "keyToTreePath (mk_key 393220 (-8) 196608 2) = Some p" by auto
  have "wrap_key (mk_key 393220 (-8) 196608 2) = mk_key 4 (-8) 0 2"
    by (simp add: wrap_key_def wrap_coord_def world_consts mk_key_def)
  with treePathToKey_keyToTreePath [OF p] p show ?thesis by auto
qed

lemma wrap_coord_range:
  "- (2 ^ 21) \<le> wrap_coord v WORLD_X \<and> wrap_coord v WORLD_X < 2 ^ 21"
  "- (2 ^ 21) \<le> wrap_coord v WORLD_Z \<and> wrap_coord v WORLD_Z < 2 ^ 21"
proof -
  have "0 \<le> (v + 196608) mod 393216" "(v + 196608) mod 393216 < 393216" by simp_all
  then show "- (2 ^ 21) \<le> wrap_coord v WORLD_X \<and> wrap_coord v WORLD_X < 2 ^ 21"
    by (simp add: wrap_coord_def world_consts)
  have "0 \<le> (v + 32768) mod 65536" "(v + 32768) mod 65536 < 65536" by simp_all
  then show "- (2 ^ 21) \<le> wrap_coord v WORLD_Z \<and> wrap_coord v WORLD_Z < 2 ^ 21"
    by (simp add: wrap_coord_def world_consts)
qed

lemma wrap_key_sel:
  "kx (wrap_key k) = wrap_coord (kx k) WORLD_X" "ky (wrap_key k) = ky k"
  "kz (wrap_key k) = wrap_coord (kz k) WORLD_Z" "kscale (wrap_key k) = kscale k"
  using wrap_coord_range(1) [of "kx k"] wrap_coord_range(2) [of "kz k"]
  unfolding wrap_key_def mk_key_sel by (simp_all add: sint_of_int_small)

lemma root_index_wrap:
  "root_index (wrap_coord v WORLD_X) WORLD_X = root_index v WORLD_X"
  "root_index (wrap_coord v WORLD_Z) WORLD_Z = root_index v WORLD_Z"
  by (simp_all add: root_index_eq wrap_coord_def world_consts)

lemma wrap_coord_low:
  "take_bit 14 (wrap_coord v WORLD_X) = take_bit 14 v"
  "take_bit 14 (wrap_coord v WORLD_Z) = take_bit 14 v"
proof -
  have "wrap_coord v WORLD_X = v mod 2 ^ 14 + (root_index v WORLD_X - 12) * 2 ^ 14"
    unfolding wrap_coord_split by (simp add: RSZ_def land_consts left_diff_distrib)
  then show "take_bit 14 (wrap_coord v WORLD_X) = take_bit 14 v"
    by (simp only: take_bit_eq_mod mod_mult_self1 mod_mod_trivial)
  have "wrap_coord v WORLD_Z = v mod 2 ^ 14 + (root_index v WORLD_Z - 2) * 2 ^ 14"
    unfolding wrap_coord_split by (simp add: RSZ_def land_consts left_diff_distrib)
  then show "take_bit 14 (wrap_coord v WORLD_Z) = take_bit 14 v"
    by (simp only: take_bit_eq_mod mod_mult_self1 mod_mod_trivial)
qed

lemma wrap_coord_mod:
  assumes "n \<le> 14"
  shows "take_bit n (wrap_coord v WORLD_X) = take_bit n v"
    and "take_bit n (wrap_coord v WORLD_Z) = take_bit n v"
proof -
  have t: "take_bit n w = take_bit n (take_bit 14 w)" for w :: int
    using assms by (simp only: take_bit_take_bit min_absorb1)
  show "take_bit n (wrap_coord v WORLD_X) = take_bit n v"
    "take_bit n (wrap_coord v WORLD_Z) = take_bit n v"
    by (simp_all only: t [of "wrap_coord v WORLD_X"] t [of "wrap_coord v WORLD_Z"] t [of v] wrap_coord_low)
qed

lemma pdep_cong: "take_bit (popcount m) a = take_bit (popcount m) b \<Longrightarrow> pdep a m = pdep b m"
proof (rule bit_word_eqI)
  fix i assume "take_bit (popcount m) a = take_bit (popcount m) b"
  then have "bit a j = bit b j" if "j < popcount m" for j
    using that by (metis bit_take_bit_iff)
  then show "bit (pdep a m) i = bit (pdep b m) i"
    by (auto simp: bit_pdep dest: rank_less_popcount)
qed

lemma bextr_cong: "take_bit (Suc s) v = take_bit (Suc s) w \<Longrightarrow>
   bextr (of_int v :: u32) s 1 = bextr (of_int w :: u32) s 1"
proof (rule bit_word_eqI)
  fix i assume "take_bit (Suc s) v = take_bit (Suc s) w"
  then have "bit v s = bit w s" by (metis bit_take_bit_iff lessI)
  then show "bit (bextr (of_int v :: u32) s 1) i = bit (bextr (of_int w :: u32) s 1) i"
    unfolding bextr_def bit_take_bit_iff bit_drop_bit_eq comp_def bit_word_of_int_iff
    by (cases i) auto
qed

lemma has_path_wrap: "has_path (wrap_key k) = has_path k"
proof -
  have "2 ^ kscale k dvd wrap_coord v WORLD_X \<longleftrightarrow> 2 ^ kscale k dvd v"
       "2 ^ kscale k dvd wrap_coord v WORLD_Z \<longleftrightarrow> 2 ^ kscale k dvd v" if "kscale k \<le> 8" for v
    using wrap_coord_mod [of "kscale k" v] that by (simp_all flip: take_bit_eq_0_iff)
  then show ?thesis by (auto simp: has_path_def key_valid_iff wrap_key_sel)
qed

lemma tree_path_wrap:
  assumes "has_path k" shows "tree_path (wrap_key k) = tree_path k"
proof -
  have s: "Suc (kscale k) \<le> 14" using assms by (simp add: has_path_def)
  have "selector (wrap_key k) = selector k"
    using bextr_cong [OF wrap_coord_mod(1) [OF s]] bextr_cong [OF wrap_coord_mod(2) [OF s]]
    unfolding selector_def wrap_key_sel by simp
  moreover have "root_part (wrap_key k) = root_part k"
    unfolding root_part_def wrap_key_sel root_index_wrap ..
  moreover have "pdep (of_int (wrap_coord v WORLD_X)) XMASK = pdep (of_int v) XMASK"
    "pdep (of_int (wrap_coord v WORLD_Z)) ZMASK = pdep (of_int v) ZMASK" for v
    by (rule pdep_cong; simp add: popcount_masks take_bit_of_int wrap_coord_mod)+
  ultimately show ?thesis unfolding tree_path_def wrap_key_sel by simp
qed

text \<open>paths identify places on the torus: two keys that have paths share the path exactly when
  they wrap to the same key.\<close>

theorem keyToTreePath_torus:
  assumes "keyToTreePath k = Some p" and "keyToTreePath l = Some q"
  shows "p = q \<longleftrightarrow> wrap_key k = wrap_key l"
proof -
  have "has_path k" "p = tree_path k" "has_path l" "q = tree_path l"
    using assms by (auto simp: keyToTreePath_eq split: if_splits)
  then show ?thesis
    by (metis treePathToKey_tree_path tree_path_wrap)
qed

theorem keyToTreePath_torus_witness:
  "\<exists>p q. keyToTreePath (mk_key 393220 (-8) 0 2) = Some p \<and> keyToTreePath (mk_key 4 (-8) 65536 2) = Some q
     \<and> p = q"
proof -
  have "keyToTreePath (mk_key 393220 (-8) 0 2) \<noteq> None" "keyToTreePath (mk_key 4 (-8) 65536 2) \<noteq> None"
    by (simp_all add: keyToTreePath_eq has_path_def mk_key_def key_valid_iff)
  then obtain p q where p: "keyToTreePath (mk_key 393220 (-8) 0 2) = Some p"
    and q: "keyToTreePath (mk_key 4 (-8) 65536 2) = Some q" by auto
  have "wrap_key (mk_key 393220 (-8) 0 2) = wrap_key (mk_key 4 (-8) 65536 2)"
    by (simp add: wrap_key_def wrap_coord_def world_consts mk_key_def)
  with keyToTreePath_torus [OF p q] p q show ?thesis by auto
qed

end
