(* ===== verification/Item_Storage.thy ===== *)
theory Item_Storage
  imports Prelude
begin

text \<open>
  The packed child storage shared by the two node templates of
  src/voxen/land/land_storage_tree_nodes.cpp: a fixed number of raw slots of which the first
  \<open>popcount(mask)\<close> hold constructed child items in index order. A raw slot is \<open>None\<close>.
  \<open>constructItem\<close> and \<open>removeItem\<close> are the code's swapping loops; an access past the last slot
  is an error, \<open>None\<close>. The lemmas show what the loops do to a packed storage and that a packed
  storage is a finite map on child indices.
\<close>

section \<open>The loops\<close>

text \<open>Move assignment of \<open>StorageTreeNodePtr\<close> swaps.\<close>

definition swap_cells :: "'a option list \<Rightarrow> nat \<Rightarrow> nat \<Rightarrow> 'a option list" where
  "swap_cells cells a b = cells[a := cells ! b, b := cells ! a]"

fun open_gap :: "nat \<Rightarrow> nat \<Rightarrow> 'a option list \<Rightarrow> 'a option list" where
  "open_gap 0 move_to cells = cells"
| "open_gap (Suc n) move_to cells = open_gap n (move_to - 1) (swap_cells cells move_to (move_to - 1))"

definition constructItem :: "nat \<Rightarrow> nat \<Rightarrow> 'a \<Rightarrow> 'a option list \<Rightarrow> 'a option list option" where
  "constructItem storage_index after_count fresh cells =
     (let move_to = storage_index + after_count
      in if move_to < length cells
         then Some (open_gap after_count move_to (cells[move_to := Some fresh]))
         else None)"

fun close_gap :: "nat \<Rightarrow> nat \<Rightarrow> 'a option list \<Rightarrow> 'a option list" where
  "close_gap 0 move_to cells = cells"
| "close_gap (Suc n) move_to cells = close_gap n (move_to + 1) (swap_cells cells move_to (move_to + 1))"

definition removeItem :: "nat \<Rightarrow> nat \<Rightarrow> 'a option list \<Rightarrow> 'a option list option" where
  "removeItem storage_index after_count cells =
     (let last = storage_index + after_count
      in if last < length cells
         then Some ((close_gap after_count storage_index cells)[last := None])
         else None)"

section \<open>The loops on a packed storage\<close>

lemma length_swap_cells [simp]: "length (swap_cells cells a b) = length cells"
  by (simp add: swap_cells_def)

lemma length_open_gap [simp]: "length (open_gap n a cells) = length cells"
  by (induction n a cells rule: open_gap.induct) simp_all

lemma length_close_gap [simp]: "length (close_gap n a cells) = length cells"
  by (induction n a cells rule: close_gap.induct) simp_all

lemma nth_swap_cells:
  "a < length cells \<Longrightarrow> b < length cells \<Longrightarrow> k < length cells \<Longrightarrow>
     swap_cells cells a b ! k = (if k = b then cells ! a else if k = a then cells ! b else cells ! k)"
  by (auto simp: swap_cells_def nth_list_update)

lemma nth_open_gap:
  "i + n < length cells \<Longrightarrow> k < length cells \<Longrightarrow>
     open_gap n (i + n) cells ! k =
       (if k < i then cells ! k else if k = i then cells ! (i + n)
        else if k \<le> i + n then cells ! (k - 1) else cells ! k)"
proof (induction n arbitrary: cells)
  case (Suc n)
  then show ?case by (auto simp: nth_swap_cells) 
qed auto

lemma nth_close_gap:
  "i + n < length cells \<Longrightarrow> k < length cells \<Longrightarrow>
     close_gap n i cells ! k =
       (if k < i then cells ! k else if k < i + n then cells ! (k + 1)
        else if k = i + n then cells ! i else cells ! k)"
proof (induction n arbitrary: cells i)
  case (Suc n)
  have "close_gap (Suc n) i cells ! k = close_gap n (i + 1) (swap_cells cells i (i + 1)) ! k" by simp
  also have "\<dots> = (if k < i + 1 then swap_cells cells i (i + 1) ! k
     else if k < i + 1 + n then swap_cells cells i (i + 1) ! (k + 1)
     else if k = i + 1 + n then swap_cells cells i (i + 1) ! (i + 1) else swap_cells cells i (i + 1) ! k)"
    using Suc.prems by (intro Suc.IH) auto
  finally show ?case using Suc.prems by (auto simp: nth_swap_cells less_Suc_eq)
qed auto

definition packed_cells :: "nat \<Rightarrow> 'a list \<Rightarrow> 'a option list" where
  "packed_cells cap xs = map Some xs @ replicate (cap - length xs) None"

lemma length_packed_cells [simp]: "length xs \<le> cap \<Longrightarrow> length (packed_cells cap xs) = cap"
  by (simp add: packed_cells_def)

lemma nth_packed_cells:
  "k < cap \<Longrightarrow> packed_cells cap xs ! k = (if k < length xs then Some (xs ! k) else None)"
  by (auto simp: packed_cells_def nth_append)

lemma packed_cells_update:
  "k < length xs \<Longrightarrow> (packed_cells cap xs)[k := Some x] = packed_cells cap (xs[k := x])"
  by (simp add: packed_cells_def list_update_append map_update)

lemma constructItem_packed:
  assumes "i \<le> length xs" "length xs < cap"
  shows "constructItem i (length xs - i) d (packed_cells cap xs)
    = Some (packed_cells cap (take i xs @ d # drop i xs))"
proof -
  define n where "n = length xs - i"
  have i: "length xs = i + n" using assms n_def by simp
  have "open_gap n (i + n) ((packed_cells cap xs)[i + n := Some d]) = packed_cells cap (take i xs @ d # drop i xs)"
    using assms i
    by (intro nth_equalityI)
      (auto simp: nth_open_gap nth_packed_cells nth_append nth_Cons' nth_list_update)
  then show ?thesis using assms i by (simp add: constructItem_def n_def [symmetric])
qed

lemma removeItem_packed:
  assumes "i < length xs" "i + n < cap" "length xs \<le> i + n + 1" "length xs \<le> cap"
  shows "removeItem i n (packed_cells cap xs) = Some (packed_cells cap (take i xs @ drop (Suc i) xs))"
proof -
  have "(close_gap n i (packed_cells cap xs))[i + n := None] = packed_cells cap (take i xs @ drop (Suc i) xs)"
    using assms
    by (intro nth_equalityI)
      (auto simp: nth_close_gap nth_packed_cells nth_append nth_Cons' nth_list_update)
  then show ?thesis using assms by (simp add: removeItem_def)
qed

section \<open>A packed storage as a map on child indices\<close>

definition cnt :: "(nat \<Rightarrow> bool) \<Rightarrow> nat \<Rightarrow> nat" where
  "cnt P i = length (filter P [0..<i])"

lemma cnt_0 [simp]: "cnt P 0 = 0" by (simp add: cnt_def)
lemma cnt_Suc: "cnt P (Suc i) = cnt P i + (if P i then 1 else 0)" by (simp add: cnt_def)

lemma cnt_mono: "i \<le> j \<Longrightarrow> cnt P i \<le> cnt P j"
  by (induction j) (auto simp: cnt_Suc le_Suc_eq)

lemma cnt_less: "P i \<Longrightarrow> i < j \<Longrightarrow> cnt P i < cnt P j"
  using cnt_mono [of "Suc i" j P] by (simp add: cnt_Suc)

lemma cnt_inj: "P i \<Longrightarrow> P j \<Longrightarrow> cnt P i = cnt P j \<longleftrightarrow> i = j"
  by (metis cnt_less nat_neq_iff)

lemma cnt_le: "cnt P i \<le> i"
  by (induction i) (auto simp: cnt_Suc)

lemma cnt_cong: "(\<And>j. j < i \<Longrightarrow> P j = Q j) \<Longrightarrow> cnt P i = cnt Q i"
  by (induction i) (auto simp: cnt_Suc)

lemma cnt_insert: "\<not> P i \<Longrightarrow> cnt (P(i := True)) j = cnt P j + (if i < j then 1 else 0)"
  by (induction j) (auto simp: cnt_Suc less_Suc_eq)

lemma cnt_delete: "P i \<Longrightarrow> cnt (P(i := False)) j = cnt P j - (if i < j then 1 else 0)"
proof (induction j)
  case (Suc j)
  have "i < j \<Longrightarrow> 0 < cnt P j" using cnt_less [of P i j] Suc.prems by fastforce
  with Suc show ?case by (auto simp: cnt_Suc less_Suc_eq)
qed simp

definition child_at :: "(nat \<Rightarrow> bool) \<Rightarrow> 'a list \<Rightarrow> nat \<Rightarrow> 'a option" where
  "child_at P xs j = (if P j then Some (xs ! cnt P j) else None)"

lemma child_at_update:
  assumes "P i" "i < N" "length xs = cnt P N"
  shows "child_at P (xs[cnt P i := x]) = (child_at P xs)(i \<mapsto> x)"
proof
  fix j
  have "cnt P i < length xs" using assms cnt_less by metis
  then show "child_at P (xs[cnt P i := x]) j = ((child_at P xs)(i \<mapsto> x)) j"
    using assms(1) by (auto simp: child_at_def nth_list_update cnt_inj)
qed

lemma child_at_insert:
  assumes "\<not> P i" "i < N" "length xs = cnt P N"
  shows "child_at (P(i := True)) (take (cnt P i) xs @ x # drop (cnt P i) xs) = (child_at P xs)(i \<mapsto> x)"
    and "length (take (cnt P i) xs @ x # drop (cnt P i) xs) = cnt (P(i := True)) N"
proof -
  have le: "cnt P i \<le> length xs" using assms cnt_mono [of i N P] by simp
  show "child_at (P(i := True)) (take (cnt P i) xs @ x # drop (cnt P i) xs) = (child_at P xs)(i \<mapsto> x)"
  proof
    fix j
    consider "j < i" | "j = i" | "i < j" by linarith
    then show "child_at (P(i := True)) (take (cnt P i) xs @ x # drop (cnt P i) xs) j
        = ((child_at P xs)(i \<mapsto> x)) j"
    proof cases
      case 1
      then show ?thesis using assms le cnt_less [of P j i]
        by (auto simp: child_at_def cnt_insert nth_append)
    next
      case 2
      then show ?thesis using assms le by (auto simp: child_at_def cnt_insert nth_append)
    next
      case 3
      then have "cnt P i \<le> cnt P j" by (intro cnt_mono) simp
      then obtain d where d: "cnt P j = cnt P i + d" using le_Suc_ex by blast
      have "j < N \<or> N \<le> j" by linarith
      with 3 show ?thesis using assms le d
        by (auto simp: child_at_def cnt_insert nth_append)
    qed
  qed
  show "length (take (cnt P i) xs @ x # drop (cnt P i) xs) = cnt (P(i := True)) N"
    using assms le by (simp add: cnt_insert)
qed

lemma child_at_delete:
  assumes "P i" "i < N" "length xs = cnt P N"
  shows "child_at (P(i := False)) (take (cnt P i) xs @ drop (Suc (cnt P i)) xs) = (child_at P xs)(i := None)"
    and "length (take (cnt P i) xs @ drop (Suc (cnt P i)) xs) = cnt (P(i := False)) N"
proof -
  have less: "cnt P i < length xs" using assms cnt_less [of P i N] by simp
  show "child_at (P(i := False)) (take (cnt P i) xs @ drop (Suc (cnt P i)) xs) = (child_at P xs)(i := None)"
  proof
    fix j
    have "j < i \<Longrightarrow> P j \<Longrightarrow> cnt P j < cnt P i" by (rule cnt_less)
    moreover have "i < j \<Longrightarrow> Suc (cnt P i) \<le> cnt P j" using cnt_less [of P i j] assms(1) by simp
    moreover have "j < N \<Longrightarrow> P j \<Longrightarrow> cnt P j < length xs" using assms(3) cnt_less by metis
    moreover have "N \<le> j \<Longrightarrow> cnt P j \<ge> length xs" using assms(3) cnt_mono by metis
    ultimately show "child_at (P(i := False)) (take (cnt P i) xs @ drop (Suc (cnt P i)) xs) j
        = ((child_at P xs)(i := None)) j"
      using assms less by (auto simp: child_at_def cnt_delete nth_append nth_drop min_def)
  qed
  show "length (take (cnt P i) xs @ drop (Suc (cnt P i)) xs) = cnt (P(i := False)) N"
    using assms less by (simp add: cnt_delete)
qed

end
