(* ===== verification/Storage_Tree.thy ===== *)
theory Storage_Tree
  imports Storage_Tree_Utils Item_Storage
begin

text \<open>
  The land storage tree (src/voxen/land/land_storage_tree.cpp, land_storage_tree_nodes.cpp,
  land_storage_tree_node_ptr.cpp): nodes of both templates with their packed children, node
  pointers with version ticks and copy on write, and \<open>access\<close>, \<open>remove\<close> and \<open>lookup\<close> by tree
  path. The tree is a value: reference counts and deallocation of shared nodes are not
  modelled, so a pointer owns its node. A user data block is a value \<open>'u\<close>; its constructors are
  arguments, \<open>None\<close> when they throw. The pointer \<open>access\<close> returns is modelled by the function
  the caller applies to the block through it.
\<close>

section \<open>Nodes\<close>

type_synonym tick = int

text \<open>Levels are the code's \<open>TREE_PATH_BYTE\<close>: 0 is \<open>ChunkNode\<close>, 1 to 4 are \<open>DuoctreeX4Node\<close> to
  \<open>DuoctreeX256Node\<close>, 5 is \<open>TriquadtreeBridgeNode\<close> (\<open>HILO\<close>), 6 is \<open>TriquadtreeRootNode\<close>. A child
  item is a node pointer: its tick and its node.\<close>

datatype 'u node =
  Chunk_Node chunk_key 'u
| Duo_Node chunk_key (live_key_mask: u32) u64 "(tick \<times> 'u node option) option list" 'u
| Tri_Node bool int int u64 u64 "(tick \<times> 'u node option) option list"

type_synonym 'u item = "tick \<times> 'u node option"

record 'u control =
  chunk_default_ctor :: "chunk_key \<Rightarrow> 'u option"
  chunk_copy_ctor :: "chunk_key \<Rightarrow> 'u \<Rightarrow> 'u option"
  duoctree_default_ctor :: "chunk_key \<Rightarrow> 'u option"
  duoctree_copy_ctor :: "chunk_key \<Rightarrow> 'u \<Rightarrow> 'u option"

text \<open>How an operation ends: with a result, with an exception, or in undefined behaviour
  (an access outside the item storage or through a null pointer).\<close>

datatype 'r outcome = Done 'r | Thrown | Undefined

definition INVALID_TICK :: tick where "INVALID_TICK = - 1"

text \<open>\<open>NODE_SIZE_CHUNKS\<close>.\<close>

definition node_size :: "nat \<Rightarrow> int" where
  "node_size m = (if m \<le> 4 then 4 ^ m else 4 ^ 4 * 8 ^ (m - 4))"

section \<open>Node pointers\<close>

text \<open>\<open>StorageTreeNodePtr::init\<close>: construct the node of level \<open>m\<close>, then its block.\<close>

definition init_node :: "'u control \<Rightarrow> nat \<Rightarrow> ivec3 \<Rightarrow> 'u node option" where
  "init_node ctl m min_coord =
     (if m = 0 then
        (let key = key_of_base min_coord 0
         in map_option (Chunk_Node key) (chunk_default_ctor ctl key))
      else if m \<le> 4 then
        (let key = key_of_base min_coord (2 * m)
         in map_option (Duo_Node key 0 0 (replicate 64 None)) (duoctree_default_ctor ctl key))
      else Some (Tri_Node (m = 5) (ivec_x min_coord) (ivec_z min_coord) 0 0
                  (replicate (if m = 5 then 128 else 64) None)))"

text \<open>The copy constructors: \<open>ChunkNode\<close>'s is defaulted; the other two do not name the base
  class, so \<open>m_live_key_mask\<close> starts from its default. The block is copied by the control's
  constructor.\<close>

fun copy_node :: "'u control \<Rightarrow> 'u node \<Rightarrow> 'u node option" where
  "copy_node ctl (Chunk_Node key u) = map_option (Chunk_Node key) (chunk_copy_ctor ctl key u)"
| "copy_node ctl (Duo_Node key live cmask cells u) =
     map_option (Duo_Node key 0 cmask cells) (duoctree_copy_ctor ctl key u)"
| "copy_node ctl (Tri_Node hilo x z mask0 mask1 cells) = Some (Tri_Node hilo x z mask0 mask1 cells)"

text \<open>\<open>moo\<close>: make own on the first mutable access of a newer tick.\<close>

fun moo :: "'u control \<Rightarrow> 'u item \<Rightarrow> tick \<Rightarrow> 'u item option" where
  "moo ctl (t, n) tick =
     (if t \<ge> tick then Some (t, n)
      else case n of
        None \<Rightarrow> Some (tick, None)
      | Some node \<Rightarrow> (case copy_node ctl node of None \<Rightarrow> None | Some c \<Rightarrow> Some (tick, Some c)))"

section \<open>Node operations\<close>

abbreviation comp_of :: "nat \<Rightarrow> u64 \<Rightarrow> u64" where
  "comp_of m p \<equiv> extractNodePathComponent m p"

text \<open>The empty item \<open>new (move_to) ChildItem()\<close>.\<close>

abbreviation empty_item :: "'u item" where
  "empty_item \<equiv> (INVALID_TICK, None)"

definition duoctree_access ::
  "'u control \<Rightarrow> nat \<Rightarrow> ('u node \<Rightarrow> 'u node \<times> 'u outcome) \<Rightarrow>
     chunk_key \<Rightarrow> u32 \<Rightarrow> u64 \<Rightarrow> 'u item option list \<Rightarrow> 'u \<Rightarrow>
     u64 \<Rightarrow> tick \<Rightarrow> ('u \<Rightarrow> 'u) \<Rightarrow> 'u node \<times> 'u outcome" where
  "duoctree_access ctl m child_access key live cmask cells u p tick f =
     (let comp = comp_of (Suc m) p;
          child_bit = extractNodePathChildBit comp
      in if extractNodePathStopBit comp
         then (Duo_Node key (live OR extractNodeKeyMaskBit p comp) cmask cells (f u), Done (f u))
         else
           let storage_index = popcount (cmask AND (child_bit - 1))
           in if cmask AND child_bit \<noteq> 0 then
                (case cells ! storage_index of
                   None \<Rightarrow> (Duo_Node key live cmask cells u, Undefined)
                 | Some child \<Rightarrow> (case moo ctl child tick of
                     None \<Rightarrow> (Duo_Node key live cmask cells u, Thrown)
                   | Some (t, None) \<Rightarrow> (Duo_Node key live cmask cells u, Undefined)
                   | Some (t, Some c) \<Rightarrow>
                       (case child_access c of (c', r) \<Rightarrow>
                         (Duo_Node key live cmask (cells[storage_index := Some (t, Some c')]) u, r))))
              else
                let after_count = popcount (cmask AND NOT (child_bit - 1))
                in (case constructItem storage_index after_count empty_item cells of
                      None \<Rightarrow> (Duo_Node key live cmask cells u, Undefined)
                    | Some cells1 \<Rightarrow>
                        (case init_node ctl m (calcDuoctreeChildMinCoord (node_size m) key comp) of
                           None \<Rightarrow> (case removeItem storage_index after_count cells1 of
                                      None \<Rightarrow> (Duo_Node key live cmask cells1 u, Undefined)
                                    | Some cells2 \<Rightarrow> (Duo_Node key live cmask cells2 u, Thrown))
                         | Some c \<Rightarrow>
                             (case child_access c of (c', r) \<Rightarrow>
                               (Duo_Node key live (cmask OR child_bit)
                                  (cells1[storage_index := Some (tick, Some c')]) u, r)))))"

definition triquadtree_access ::
  "'u control \<Rightarrow> nat \<Rightarrow> ('u node \<Rightarrow> 'u node \<times> 'u outcome) \<Rightarrow>
     bool \<Rightarrow> int \<Rightarrow> int \<Rightarrow> u64 \<Rightarrow> u64 \<Rightarrow> 'u item option list \<Rightarrow>
     u64 \<Rightarrow> tick \<Rightarrow> ('u \<Rightarrow> 'u) \<Rightarrow> 'u node \<times> 'u outcome" where
  "triquadtree_access ctl m child_access hilo min_x min_z mask0 mask1 cells p tick f =
     (let comp = comp_of (Suc m) p;
          child_bit = extractNodePathChildBit comp;
          high = hilo \<and> triquadtreeYNegative comp;
          cmask = (if high then mask1 else mask0);
          storage_offset = (if high then popcount mask0 else 0);
          after_count = (if hilo \<and> \<not> high then popcount mask1 else 0);
          storage_index = storage_offset + popcount (cmask AND (child_bit - 1))
      in if cmask AND child_bit \<noteq> 0 then
           (case cells ! storage_index of
              None \<Rightarrow> (Tri_Node hilo min_x min_z mask0 mask1 cells, Undefined)
            | Some child \<Rightarrow> (case moo ctl child tick of
                None \<Rightarrow> (Tri_Node hilo min_x min_z mask0 mask1 cells, Thrown)
              | Some (t, None) \<Rightarrow> (Tri_Node hilo min_x min_z mask0 mask1 cells, Undefined)
              | Some (t, Some c) \<Rightarrow>
                  (case child_access c of (c', r) \<Rightarrow>
                    (Tri_Node hilo min_x min_z mask0 mask1
                       (cells[storage_index := Some (t, Some c')]), r))))
         else
           let after_count = after_count + popcount (cmask AND NOT (child_bit - 1))
           in (case constructItem storage_index after_count empty_item cells of
                 None \<Rightarrow> (Tri_Node hilo min_x min_z mask0 mask1 cells, Undefined)
               | Some cells1 \<Rightarrow>
                   (case init_node ctl m (calcTriquadtreeChildMinCoord (node_size m) min_x min_z comp) of
                      None \<Rightarrow> (case removeItem storage_index after_count cells1 of
                                 None \<Rightarrow> (Tri_Node hilo min_x min_z mask0 mask1 cells1, Undefined)
                               | Some cells2 \<Rightarrow> (Tri_Node hilo min_x min_z mask0 mask1 cells2, Thrown))
                    | Some c \<Rightarrow>
                        (case child_access c of (c', r) \<Rightarrow>
                          (Tri_Node hilo min_x min_z
                             (if high then mask0 else mask0 OR child_bit)
                             (if high then mask1 OR child_bit else mask1)
                             (cells1[storage_index := Some (tick, Some c')]), r)))))"

fun access_node ::
  "'u control \<Rightarrow> nat \<Rightarrow> 'u node \<Rightarrow> u64 \<Rightarrow> tick \<Rightarrow> ('u \<Rightarrow> 'u) \<Rightarrow> 'u node \<times> 'u outcome" where
  "access_node ctl 0 node p tick f =
     (case node of Chunk_Node key u \<Rightarrow> (Chunk_Node key (f u), Done (f u)) | _ \<Rightarrow> (node, Undefined))"
| "access_node ctl (Suc m) (Chunk_Node key u) p tick f = (Chunk_Node key u, Undefined)"
| "access_node ctl (Suc m) (Duo_Node key live cmask cells u) p tick f =
     duoctree_access ctl m (\<lambda>c. access_node ctl m c p tick f)
       key live cmask cells u p tick f"
| "access_node ctl (Suc m) (Tri_Node hilo min_x min_z mask0 mask1 cells) p tick f =
     triquadtree_access ctl m (\<lambda>c. access_node ctl m c p tick f)
       hilo min_x min_z mask0 mask1 cells p tick f"

text \<open>\<open>empty()\<close>; a chunk node has none, its parent resets it unconditionally.\<close>

fun node_empty :: "'u node \<Rightarrow> bool" where
  "node_empty (Chunk_Node key u) \<longleftrightarrow> True"
| "node_empty (Duo_Node key live cmask cells u) \<longleftrightarrow> live = 0 \<and> cmask = 0"
| "node_empty (Tri_Node hilo x z mask0 mask1 cells) \<longleftrightarrow> mask0 = 0 \<and> (hilo \<longrightarrow> mask1 = 0)"

definition duoctree_remove ::
  "'u control \<Rightarrow> nat \<Rightarrow> ('u node \<Rightarrow> 'u node \<times> unit outcome) \<Rightarrow>
     chunk_key \<Rightarrow> u32 \<Rightarrow> u64 \<Rightarrow> 'u item option list \<Rightarrow> 'u \<Rightarrow>
     u64 \<Rightarrow> tick \<Rightarrow> 'u node \<times> unit outcome" where
  "duoctree_remove ctl m child_remove key live cmask cells u p tick =
     (let comp = comp_of (Suc m) p;
          child_bit = extractNodePathChildBit comp
      in if extractNodePathStopBit comp
         then (Duo_Node key (live AND NOT (extractNodeKeyMaskBit p comp)) cmask cells u, Done ())
         else if cmask AND child_bit = 0 then (Duo_Node key live cmask cells u, Done ())
         else
           let storage_index = popcount (cmask AND (child_bit - 1));
               after_count = popcount (cmask AND NOT (child_bit - 1))
           in (case cells ! storage_index of
                 None \<Rightarrow> (Duo_Node key live cmask cells u, Undefined)
               | Some child \<Rightarrow> (case moo ctl child tick of
                   None \<Rightarrow> (Duo_Node key live cmask cells u, Thrown)
                 | Some (t, None) \<Rightarrow> (Duo_Node key live cmask cells u, Undefined)
                 | Some (t, Some c) \<Rightarrow>
                     (case child_remove c of
                        (c', Done _) \<Rightarrow>
                          if node_empty c' then
                            (case removeItem storage_index after_count
                                    (cells[storage_index := Some (t, None)]) of
                               None \<Rightarrow> (Duo_Node key live cmask (cells[storage_index := Some (t, None)]) u,
                                         Undefined)
                             | Some cells1 \<Rightarrow> (Duo_Node key live (cmask XOR child_bit) cells1 u, Done ()))
                          else (Duo_Node key live cmask (cells[storage_index := Some (t, Some c')]) u,
                                Done ())
                      | (c', r) \<Rightarrow>
                          (Duo_Node key live cmask (cells[storage_index := Some (t, Some c')]) u, r)))))"

definition triquadtree_remove ::
  "'u control \<Rightarrow> nat \<Rightarrow> ('u node \<Rightarrow> 'u node \<times> unit outcome) \<Rightarrow>
     bool \<Rightarrow> int \<Rightarrow> int \<Rightarrow> u64 \<Rightarrow> u64 \<Rightarrow> 'u item option list \<Rightarrow>
     u64 \<Rightarrow> tick \<Rightarrow> 'u node \<times> unit outcome" where
  "triquadtree_remove ctl m child_remove hilo min_x min_z mask0 mask1 cells p tick =
     (let comp = comp_of (Suc m) p;
          child_bit = extractNodePathChildBit comp;
          high = hilo \<and> triquadtreeYNegative comp;
          cmask = (if high then mask1 else mask0);
          storage_offset = (if high then popcount mask0 else 0);
          after_count = (if hilo \<and> \<not> high then popcount mask1 else 0)
      in if cmask AND child_bit = 0 then (Tri_Node hilo min_x min_z mask0 mask1 cells, Done ())
         else
           let storage_index = storage_offset + popcount (cmask AND (child_bit - 1))
           in (case cells ! storage_index of
                 None \<Rightarrow> (Tri_Node hilo min_x min_z mask0 mask1 cells, Undefined)
               | Some child \<Rightarrow> (case moo ctl child tick of
                   None \<Rightarrow> (Tri_Node hilo min_x min_z mask0 mask1 cells, Thrown)
                 | Some (t, None) \<Rightarrow> (Tri_Node hilo min_x min_z mask0 mask1 cells, Undefined)
                 | Some (t, Some c) \<Rightarrow>
                     (case child_remove c of
                        (c', Done _) \<Rightarrow>
                          if node_empty c' then
                            (case removeItem storage_index
                                    (after_count + popcount (cmask AND NOT (child_bit - 1)))
                                    (cells[storage_index := Some (t, None)]) of
                               None \<Rightarrow> (Tri_Node hilo min_x min_z mask0 mask1
                                           (cells[storage_index := Some (t, None)]), Undefined)
                             | Some cells1 \<Rightarrow>
                                 (Tri_Node hilo min_x min_z
                                    (if high then mask0 else mask0 XOR child_bit)
                                    (if high then mask1 XOR child_bit else mask1) cells1, Done ()))
                          else (Tri_Node hilo min_x min_z mask0 mask1
                                  (cells[storage_index := Some (t, Some c')]), Done ())
                      | (c', r) \<Rightarrow>
                          (Tri_Node hilo min_x min_z mask0 mask1
                             (cells[storage_index := Some (t, Some c')]), r)))))"

fun remove_node :: "'u control \<Rightarrow> nat \<Rightarrow> 'u node \<Rightarrow> u64 \<Rightarrow> tick \<Rightarrow> 'u node \<times> unit outcome" where
  "remove_node ctl 0 node p tick = (node, Done ())"
| "remove_node ctl (Suc m) (Chunk_Node key u) p tick = (Chunk_Node key u, Undefined)"
| "remove_node ctl (Suc m) (Duo_Node key live cmask cells u) p tick =
     duoctree_remove ctl m (\<lambda>c. remove_node ctl m c p tick)
       key live cmask cells u p tick"
| "remove_node ctl (Suc m) (Tri_Node hilo min_x min_z mask0 mask1 cells) p tick =
     triquadtree_remove ctl m (\<lambda>c. remove_node ctl m c p tick)
       hilo min_x min_z mask0 mask1 cells p tick"

definition duoctree_lookup ::
  "nat \<Rightarrow> ('u node \<Rightarrow> 'u option) \<Rightarrow>
     chunk_key \<Rightarrow> u32 \<Rightarrow> u64 \<Rightarrow> 'u item option list \<Rightarrow> 'u \<Rightarrow>
     u64 \<Rightarrow> 'u option" where
  "duoctree_lookup m child_lookup key live cmask cells u p =
     (let comp = comp_of (Suc m) p;
          child_bit = extractNodePathChildBit comp
      in if extractNodePathStopBit comp
         then if live AND extractNodeKeyMaskBit p comp \<noteq> 0 then Some u else None
         else if cmask AND child_bit = 0 then None
         else (case cells ! popcount (cmask AND (child_bit - 1)) of
                 Some (t, Some c) \<Rightarrow> child_lookup c
               | _ \<Rightarrow> None))"

definition triquadtree_lookup ::
  "nat \<Rightarrow> ('u node \<Rightarrow> 'u option) \<Rightarrow>
     bool \<Rightarrow> int \<Rightarrow> int \<Rightarrow> u64 \<Rightarrow> u64 \<Rightarrow> 'u item option list \<Rightarrow>
     u64 \<Rightarrow> 'u option" where
  "triquadtree_lookup m child_lookup hilo min_x min_z mask0 mask1 cells p =
     (let comp = comp_of (Suc m) p;
          child_bit = extractNodePathChildBit comp;
          high = hilo \<and> triquadtreeYNegative comp;
          cmask = (if high then mask1 else mask0);
          storage_offset = (if high then popcount mask0 else 0)
      in if cmask AND child_bit = 0 then None
         else (case cells ! (storage_offset + popcount (cmask AND (child_bit - 1))) of
                 Some (t, Some c) \<Rightarrow> child_lookup c
               | _ \<Rightarrow> None))"

fun lookup_node :: "nat \<Rightarrow> 'u node \<Rightarrow> u64 \<Rightarrow> 'u option" where
  "lookup_node 0 node p = (case node of Chunk_Node key u \<Rightarrow> Some u | _ \<Rightarrow> None)"
| "lookup_node (Suc m) (Chunk_Node key u) p = None"
| "lookup_node (Suc m) (Duo_Node key live cmask cells u) p =
     duoctree_lookup m (\<lambda>c. lookup_node m c p)
       key live cmask cells u p"
| "lookup_node (Suc m) (Tri_Node hilo min_x min_z mask0 mask1 cells) p =
     triquadtree_lookup m (\<lambda>c. lookup_node m c p)
       hilo min_x min_z mask0 mask1 cells p"

declare access_node.simps [simp del] remove_node.simps [simp del] lookup_node.simps [simp del]

lemmas access_node_unfold = access_node.simps [unfolded duoctree_access_def triquadtree_access_def]
lemmas remove_node_unfold = remove_node.simps [unfolded duoctree_remove_def triquadtree_remove_def]
lemmas lookup_node_unfold = lookup_node.simps [unfolded duoctree_lookup_def triquadtree_lookup_def]

section \<open>The tree\<close>

type_synonym 'u storage_tree = "'u item list"

definition NUM_ROOT_ITEMS :: nat where
  "NUM_ROOT_ITEMS = STORAGE_TREE_ROOT_ITEMS_X * STORAGE_TREE_ROOT_ITEMS_Z"

definition new_tree :: "'u storage_tree" where
  "new_tree = replicate NUM_ROOT_ITEMS empty_item"

definition path_root :: "u64 \<Rightarrow> nat" where
  "path_root p = unat (drop_bit (64 - 8) p)"

definition access ::
  "'u control \<Rightarrow> 'u storage_tree \<Rightarrow> u64 \<Rightarrow> tick \<Rightarrow> ('u \<Rightarrow> 'u) \<Rightarrow> 'u storage_tree \<times> 'u outcome" where
  "access ctl tree p tick f =
     (let i = path_root p
      in if i \<ge> length tree then (tree, Undefined)
         else
           let made = (case snd (tree ! i) of
                         None \<Rightarrow> map_option (\<lambda>n. (tick, Some n)) (init_node ctl 6 (calcRootItemMinCoord i))
                       | Some _ \<Rightarrow> moo ctl (tree ! i) tick)
           in (case made of
                 None \<Rightarrow> (tree, Thrown)
               | Some (t, None) \<Rightarrow> (tree, Undefined)
               | Some (t, Some n) \<Rightarrow>
                   (case access_node ctl 6 n p tick f of (n', r) \<Rightarrow> (tree[i := (t, Some n')], r))))"

definition remove :: "'u control \<Rightarrow> 'u storage_tree \<Rightarrow> u64 \<Rightarrow> tick \<Rightarrow> 'u storage_tree \<times> unit outcome" where
  "remove ctl tree p tick =
     (let i = path_root p
      in if i \<ge> length tree then (tree, Undefined)
         else (case snd (tree ! i) of
                 None \<Rightarrow> (tree, Done ())
               | Some _ \<Rightarrow> (case moo ctl (tree ! i) tick of
                   None \<Rightarrow> (tree, Thrown)
                 | Some (t, None) \<Rightarrow> (tree, Undefined)
                 | Some (t, Some n) \<Rightarrow>
                     (case remove_node ctl 6 n p tick of
                        (n', Done _) \<Rightarrow>
                          (tree[i := (t, if node_empty n' then None else Some n')], Done ())
                      | (n', r) \<Rightarrow> (tree[i := (t, Some n')], r)))))"

definition lookup :: "'u storage_tree \<Rightarrow> u64 \<Rightarrow> 'u option" where
  "lookup tree p =
     (let i = path_root p
      in if i \<ge> length tree then None
         else (case snd (tree ! i) of None \<Rightarrow> None | Some n \<Rightarrow> lookup_node 6 n p))"

end
