(* ===== verification/Storage_Tree_Correct.thy ===== *)
theory Storage_Tree_Correct
  imports Storage_Tree
begin

text \<open>
  Correctness of the storage tree: a view that treats the two node templates alike (child
  presence bits, one slot index per path, children as a map), the well-formedness invariant, and
  what \<open>access\<close>, \<open>remove\<close> and exceptions do to every later \<open>lookup\<close>.
\<close>

section \<open>One view of both node templates\<close>

fun present :: "'u node \<Rightarrow> nat \<Rightarrow> bool" where
  "present (Chunk_Node key u) j = False"
| "present (Duo_Node key live cmask cells u) j = bit cmask j"
| "present (Tri_Node hilo x z mask0 mask1 cells) j =
     (if j < 64 then bit mask0 j else hilo \<and> bit mask1 (j - 64))"

fun capacity :: "'u node \<Rightarrow> nat" where
  "capacity (Chunk_Node key u) = 0"
| "capacity (Duo_Node key live cmask cells u) = 64"
| "capacity (Tri_Node hilo x z mask0 mask1 cells) = (if hilo then 128 else 64)"

fun cells_of :: "'u node \<Rightarrow> 'u item option list" where
  "cells_of (Chunk_Node key u) = []"
| "cells_of (Duo_Node key live cmask cells u) = cells"
| "cells_of (Tri_Node hilo x z mask0 mask1 cells) = cells"

fun with_cells :: "'u node \<Rightarrow> 'u item option list \<Rightarrow> 'u node" where
  "with_cells (Chunk_Node key u) cells' = Chunk_Node key u"
| "with_cells (Duo_Node key live cmask cells u) cells' = Duo_Node key live cmask cells' u"
| "with_cells (Tri_Node hilo x z mask0 mask1 cells) cells' = Tri_Node hilo x z mask0 mask1 cells'"

fun flip_bit :: "'u node \<Rightarrow> nat \<Rightarrow> 'u node" where
  "flip_bit (Chunk_Node key u) j = Chunk_Node key u"
| "flip_bit (Duo_Node key live cmask cells u) j = Duo_Node key live (cmask XOR onebit j) cells u"
| "flip_bit (Tri_Node hilo x z mask0 mask1 cells) j =
     (if j < 64 then Tri_Node hilo x z (mask0 XOR onebit j) mask1 cells
      else Tri_Node hilo x z mask0 (mask1 XOR onebit (j - 64)) cells)"

fun stops :: "nat \<Rightarrow> 'u node \<Rightarrow> u64 \<Rightarrow> bool" where
  "stops m (Duo_Node key live cmask cells u) p = extractNodePathStopBit (comp_of m p)"
| "stops m n p = False"

fun own_lookup :: "nat \<Rightarrow> 'u node \<Rightarrow> u64 \<Rightarrow> 'u option" where
  "own_lookup m (Duo_Node key live cmask cells u) p =
     (if live AND extractNodeKeyMaskBit p (comp_of m p) \<noteq> 0 then Some u else None)"
| "own_lookup m n p = None"

text \<open>The child index a path selects at level \<open>m\<close>: six bits, and the sign of Y in the bridge.\<close>

definition slot :: "nat \<Rightarrow> u64 \<Rightarrow> nat" where
  "slot m p = unat (comp_of m p AND 63)
     + (if m = 5 \<and> triquadtreeYNegative (comp_of m p) then 64 else 0)"

fun child_coord :: "nat \<Rightarrow> 'u node \<Rightarrow> u64 \<Rightarrow> ivec3" where
  "child_coord m (Chunk_Node key u) p = IVec3 0 0 0"
| "child_coord m (Duo_Node key live cmask cells u) p =
     calcDuoctreeChildMinCoord (node_size m) key (comp_of (Suc m) p)"
| "child_coord m (Tri_Node hilo x z mask0 mask1 cells) p =
     calcTriquadtreeChildMinCoord (node_size m) x z (comp_of (Suc m) p)"

fun kind_ok :: "nat \<Rightarrow> 'u node \<Rightarrow> bool" where
  "kind_ok m (Chunk_Node key u) = (m = 0)"
| "kind_ok m (Duo_Node key live cmask cells u) = (1 \<le> m \<and> m \<le> 4)"
| "kind_ok m (Tri_Node hilo x z mask0 mask1 cells) = (if hilo then m = 5 else m = 6)"

lemma slot_low: "unat (comp_of m p AND 63) < 64"
proof -
  have "comp_of m p AND 63 \<le> 63" by (rule word_and_le1)
  then show ?thesis by (simp add: word_le_nat_alt)
qed

lemma slot_capacity: "kind_ok (Suc m) n \<Longrightarrow> slot (Suc m) p < capacity n"
  using slot_low [of "Suc m" p] by (cases n) (auto simp: slot_def split: if_splits)

lemma cnt_bit: "cnt (bit w) i = rank w i"
  by (simp add: cnt_def rank_def)

lemma cnt_Tri_low: "j \<le> 64 \<Longrightarrow> cnt (present (Tri_Node hilo x z mask0 mask1 cells)) j = rank mask0 j"
  by (simp flip: cnt_bit) (rule cnt_cong, simp)

lemma cnt_Tri_high:
  "cnt (present (Tri_Node hilo x z mask0 mask1 cells)) (64 + j)
     = popcount mask0 + (if hilo then rank mask1 j else 0)"
proof (induction j)
  case 0
  show ?case using rank_length [of mask0] by (simp add: cnt_Tri_low del: present.simps)
next
  case (Suc j)
  have "present (Tri_Node hilo x z mask0 mask1 cells) (64 + j) = (hilo \<and> bit mask1 j)" by simp
  then show ?case using Suc unfolding add_Suc_right cnt_Suc rank_Suc
    by (simp del: present.simps)
qed

lemma cnt_Duo: "cnt (present (Duo_Node key live cmask cells u)) j = rank cmask j"
  by (simp flip: cnt_bit) (rule cnt_cong, simp)

lemma cnt_total:
  "cnt (present (Duo_Node key live cmask cells u)) 64 = popcount cmask"
  "cnt (present (Tri_Node True x z mask0 mask1 cells)) 128 = popcount mask0 + popcount mask1"
  "cnt (present (Tri_Node False x z mask0 mask1 cells)) 64 = popcount mask0"
  using rank_length [of cmask] rank_length [of mask1] rank_length [of mask0]
    cnt_Tri_high [of True x z mask0 mask1 cells 64] cnt_Tri_low [of 64 False x z mask0 mask1 cells]
  by (simp_all add: cnt_Duo del: present.simps)

text \<open>What the code computes at a step, in terms of the view. \<open>low\<close> is the six-bit index,
  \<open>high\<close> tells that the second mask of a bridge node is addressed.\<close>

definition low :: "nat \<Rightarrow> u64 \<Rightarrow> nat" where
  "low m p = unat (comp_of m p AND 63)"

definition high :: "bool \<Rightarrow> nat \<Rightarrow> u64 \<Rightarrow> bool" where
  "high hilo m p \<longleftrightarrow> hilo \<and> triquadtreeYNegative (comp_of m p)"

lemma low_less: "low m p < 64"
  unfolding low_def by (rule slot_low)

lemma child_bit_low: "extractNodePathChildBit (comp_of m p) = onebit (low m p)"
  by (simp add: extractNodePathChildBit_def low_def)

lemma popcount_below_low: "popcount (w AND (onebit (low m p) - 1)) = rank w (low m p)" for w :: u64
  using low_less [of m p] by (simp add: popcount_below)

lemma popcount_above_low:
  "popcount (w AND NOT (onebit (low m p) - 1)) = popcount w - rank w (low m p)" for w :: u64
  using low_less [of m p] by (simp add: popcount_from)

lemma or_onebit_xor: "\<not> bit w i \<Longrightarrow> w OR onebit i = w XOR onebit i" for w :: u64
  by (auto intro!: word_eq_bitI simp: bit_or_iff bit_xor_iff bit_onebit)

lemma rank_64: "rank w 64 = popcount w" for w :: u64
  using rank_length [of w] by simp

lemma slot_Duo: "m \<le> 4 \<Longrightarrow> slot m p = low m p"
  by (simp add: slot_def low_def)

lemma slot_Tri: "m = (if hilo then 5 else 6) \<Longrightarrow> slot m p = (if high hilo m p then low m p + 64 else low m p)"
  by (auto simp: slot_def low_def high_def)

lemma cnt_slot_Tri:
  "m = (if hilo then 5 else 6) \<Longrightarrow>
   cnt (present (Tri_Node hilo x z mask0 mask1 cells)) (slot m p) =
     (if high hilo m p then popcount mask0 else 0)
       + rank (if high hilo m p then mask1 else mask0) (low m p)"
  using low_less [of m p] cnt_Tri_high [of hilo x z mask0 mask1 cells "low m p"]
  by (auto simp: slot_Tri high_def cnt_Tri_low add.commute simp del: present.simps)

lemma present_slot_Tri:
  "m = (if hilo then 5 else 6) \<Longrightarrow>
   present (Tri_Node hilo x z mask0 mask1 cells) (slot m p) =
     bit (if high hilo m p then mask1 else mask0) (low m p)"
  using low_less [of m p] by (auto simp: slot_Tri high_def)

lemma after_slot_Tri:
  assumes "m = (if hilo then 5 else 6)"
  shows "cnt (present (Tri_Node hilo x z mask0 mask1 cells)) (capacity (Tri_Node hilo x z mask0 mask1 cells))
      - cnt (present (Tri_Node hilo x z mask0 mask1 cells)) (slot m p)
    = (if hilo \<and> \<not> high hilo m p then popcount mask1 else 0)
      + (popcount (if high hilo m p then mask1 else mask0)
         - rank (if high hilo m p then mask1 else mask0) (low m p))"
  unfolding cnt_slot_Tri [OF assms]
  using rank_le_popcount [of "low m p" mask0] low_less [of m p]
  by (cases hilo) (auto simp: cnt_total high_def simp del: present.simps)

lemma flip_slot_Tri:
  assumes "m = (if hilo then 5 else 6)"
  shows "flip_bit (Tri_Node hilo x z mask0 mask1 cells) (slot m p)
    = Tri_Node hilo x z (if high hilo m p then mask0 else mask0 XOR onebit (low m p))
        (if high hilo m p then mask1 XOR onebit (low m p) else mask1) cells"
  using low_less [of m p] assms by (simp add: slot_Tri)

lemmas step_words = child_bit_low popcount_below_low popcount_above_low and_onebit_zero
  high_def [symmetric]

text \<open>\<open>access\<close>, \<open>remove\<close> and \<open>lookup\<close> of an inner step, for both templates.\<close>

lemma access_node_stop:
  "stops (Suc m) n p \<Longrightarrow> access_node ctl (Suc m) n p tick f =
     (case n of Duo_Node key live cmask cells u \<Rightarrow>
        (Duo_Node key (live OR extractNodeKeyMaskBit p (comp_of (Suc m) p)) cmask cells (f u), Done (f u))
      | _ \<Rightarrow> (n, Undefined))"
  by (cases n) (auto simp: access_node_unfold Let_def)

lemma access_node_step:
  assumes "kind_ok (Suc m) n" "\<not> stops (Suc m) n p"
  shows "access_node ctl (Suc m) n p tick f =
    (let j = slot (Suc m) p; i = cnt (present n) j; a = cnt (present n) (capacity n) - i
     in if present n j then
          (case cells_of n ! i of
             None \<Rightarrow> (n, Undefined)
           | Some child \<Rightarrow> (case moo ctl child tick of
               None \<Rightarrow> (n, Thrown)
             | Some (t, None) \<Rightarrow> (n, Undefined)
             | Some (t, Some c) \<Rightarrow>
                 (case access_node ctl m c p tick f of (c', r) \<Rightarrow>
                   (with_cells n ((cells_of n)[i := Some (t, Some c')]), r))))
        else
          (case constructItem i a empty_item (cells_of n) of
             None \<Rightarrow> (n, Undefined)
           | Some cells1 \<Rightarrow>
               (case init_node ctl m (child_coord m n p) of
                  None \<Rightarrow> (case removeItem i a cells1 of
                             None \<Rightarrow> (with_cells n cells1, Undefined)
                           | Some cells2 \<Rightarrow> (with_cells n cells2, Thrown))
                | Some c \<Rightarrow>
                    (case access_node ctl m c p tick f of (c', r) \<Rightarrow>
                      (with_cells (flip_bit n j) (cells1[i := Some (tick, Some c')]), r)))))"
proof (cases n)
  case (Duo_Node key live cmask cells u)
  then have m: "Suc m \<le> 4" and ns: "\<not> extractNodePathStopBit (comp_of (Suc m) p)"
    using assms by simp_all
  show ?thesis
  proof (cases "bit cmask (low (Suc m) p)")
    case True
    with ns show ?thesis
      unfolding Duo_Node access_node_unfold(3) Let_def slot_Duo [OF m] cnt_Duo step_words
        present.simps with_cells.simps cells_of.simps
      by simp
  next
    case False
    with ns show ?thesis
      unfolding Duo_Node access_node_unfold(3) Let_def slot_Duo [OF m] cnt_Duo step_words rank_64
        present.simps with_cells.simps cells_of.simps flip_bit.simps or_onebit_xor [OF False]
        capacity.simps child_coord.simps
      by simp
  qed
next
  case (Tri_Node hilo x z mask0 mask1 cells)
  then have m: "Suc m = (if hilo then 5 else 6)" using assms by (auto split: if_splits)
  show ?thesis
  proof (cases "bit (if high hilo (Suc m) p then mask1 else mask0) (low (Suc m) p)")
    case True
    then show ?thesis
      unfolding Tri_Node access_node_unfold(4) Let_def cnt_slot_Tri [OF m] present_slot_Tri [OF m]
        step_words with_cells.simps cells_of.simps
      by simp
  next
    case False
    then have or: "(if high hilo (Suc m) p then mask0 else mask0 OR onebit (low (Suc m) p))
        = (if high hilo (Suc m) p then mask0 else mask0 XOR onebit (low (Suc m) p))"
      "(if high hilo (Suc m) p then mask1 OR onebit (low (Suc m) p) else mask1)
        = (if high hilo (Suc m) p then mask1 XOR onebit (low (Suc m) p) else mask1)"
      by (cases "high hilo (Suc m) p"; simp add: or_onebit_xor)+
    show ?thesis
      using False
      unfolding Tri_Node access_node_unfold(4) Let_def after_slot_Tri [OF m] flip_slot_Tri [OF m]
        child_coord.simps step_words or
      unfolding cnt_slot_Tri [OF m] present_slot_Tri [OF m] with_cells.simps cells_of.simps
      by simp
  qed
qed (use assms in simp)

lemma remove_node_stop:
  "stops (Suc m) n p \<Longrightarrow> remove_node ctl (Suc m) n p tick =
     (case n of Duo_Node key live cmask cells u \<Rightarrow>
        (Duo_Node key (live AND NOT (extractNodeKeyMaskBit p (comp_of (Suc m) p))) cmask cells u, Done ())
      | _ \<Rightarrow> (n, Undefined))"
  by (cases n) (auto simp: remove_node_unfold Let_def)

lemma remove_node_step:
  assumes "kind_ok (Suc m) n" "\<not> stops (Suc m) n p"
  shows "remove_node ctl (Suc m) n p tick =
    (let j = slot (Suc m) p; i = cnt (present n) j; a = cnt (present n) (capacity n) - i
     in if \<not> present n j then (n, Done ())
        else
          (case cells_of n ! i of
             None \<Rightarrow> (n, Undefined)
           | Some child \<Rightarrow> (case moo ctl child tick of
               None \<Rightarrow> (n, Thrown)
             | Some (t, None) \<Rightarrow> (n, Undefined)
             | Some (t, Some c) \<Rightarrow>
                 (case remove_node ctl m c p tick of
                    (c', Done _) \<Rightarrow>
                      if node_empty c' then
                        (case removeItem i a ((cells_of n)[i := Some (t, None)]) of
                           None \<Rightarrow> (with_cells n ((cells_of n)[i := Some (t, None)]), Undefined)
                         | Some cells1 \<Rightarrow> (with_cells (flip_bit n j) cells1, Done ()))
                      else (with_cells n ((cells_of n)[i := Some (t, Some c')]), Done ())
                  | (c', r) \<Rightarrow> (with_cells n ((cells_of n)[i := Some (t, Some c')]), r)))))"
proof (cases n)
  case (Duo_Node key live cmask cells u)
  then have m: "Suc m \<le> 4" and ns: "\<not> extractNodePathStopBit (comp_of (Suc m) p)"
    using assms by simp_all
  then show ?thesis
    unfolding Duo_Node remove_node_unfold(3) Let_def slot_Duo [OF m] cnt_Duo step_words rank_64
      present.simps with_cells.simps cells_of.simps flip_bit.simps capacity.simps
    by simp
next
  case (Tri_Node hilo x z mask0 mask1 cells)
  then have m: "Suc m = (if hilo then 5 else 6)" using assms by (auto split: if_splits)
  show ?thesis
    unfolding Tri_Node remove_node_unfold(4) Let_def after_slot_Tri [OF m] flip_slot_Tri [OF m] step_words
    unfolding cnt_slot_Tri [OF m] present_slot_Tri [OF m] with_cells.simps cells_of.simps
    by simp
qed (use assms in simp)

lemma lookup_node_step:
  assumes "kind_ok (Suc m) n"
  shows "lookup_node (Suc m) n p =
    (if stops (Suc m) n p then own_lookup (Suc m) n p
     else if \<not> present n (slot (Suc m) p) then None
     else (case cells_of n ! cnt (present n) (slot (Suc m) p) of
             Some (t, Some c) \<Rightarrow> lookup_node m c p
           | _ \<Rightarrow> None))"
proof (cases n)
  case (Duo_Node key live cmask cells u)
  then have m: "Suc m \<le> 4" using assms by simp
  then show ?thesis
    unfolding Duo_Node lookup_node_unfold(3) Let_def slot_Duo [OF m] cnt_Duo step_words
      present.simps cells_of.simps stops.simps own_lookup.simps
    by simp
next
  case (Tri_Node hilo x z mask0 mask1 cells)
  then have m: "Suc m = (if hilo then 5 else 6)" using assms by (auto split: if_splits)
  show ?thesis
    unfolding Tri_Node lookup_node_unfold(4) Let_def step_words
    unfolding cnt_slot_Tri [OF m] present_slot_Tri [OF m] cells_of.simps stops.simps
    by simp
qed (use assms in simp)


section \<open>Well-formed nodes\<close>

definition kids :: "'u node \<Rightarrow> nat \<Rightarrow> 'u item option" where
  "kids n j = (if present n j then cells_of n ! cnt (present n) j else None)"

definition packed_node :: "'u node \<Rightarrow> bool" where
  "packed_node n \<longleftrightarrow> (\<exists>xs. cells_of n = packed_cells (capacity n) xs
     \<and> length xs = cnt (present n) (capacity n) \<and> kids n = child_at (present n) xs)"

lemma present_less: "present n j \<Longrightarrow> j < capacity n"
  by (cases n) (auto dest: bit_imp_le_length split: if_splits)

lemma packed_nodeI:
  assumes "cells_of n = packed_cells (capacity n) xs" "length xs = cnt (present n) (capacity n)"
  shows "packed_node n" "kids n = child_at (present n) xs"
proof -
  have "cnt (present n) j < length xs" if "present n j" for j
    using cnt_less [of "present n" j "capacity n", OF that present_less [OF that]] assms(2) by simp
  moreover have "length xs \<le> capacity n" using assms(2) cnt_le by simp
  ultimately show "kids n = child_at (present n) xs"
    unfolding fun_eq_iff kids_def child_at_def assms(1)
    by (metis nth_packed_cells order_less_le_trans)
  with assms show "packed_node n" unfolding packed_node_def by blast
qed

lemma present_with_cells [simp]: "present (with_cells n cells) = present n"
  and capacity_with_cells [simp]: "capacity (with_cells n cells) = capacity n"
  and kind_ok_with_cells [simp]: "kind_ok m (with_cells n cells) = kind_ok m n"
  and stops_with_cells [simp]: "stops m (with_cells n cells) p = stops m n p"
  and own_lookup_with_cells [simp]: "own_lookup m (with_cells n cells) p = own_lookup m n p"
  by (cases n; auto simp: fun_eq_iff)+

lemma capacity_flip_bit [simp]: "capacity (flip_bit n j) = capacity n"
  and kind_ok_flip_bit [simp]: "kind_ok m (flip_bit n j) = kind_ok m n"
  and stops_flip_bit [simp]: "stops m (flip_bit n j) p = stops m n p"
  and own_lookup_flip_bit [simp]: "own_lookup m (flip_bit n j) p = own_lookup m n p"
  by (cases n; auto simp: fun_eq_iff)+

lemma cells_of_with_cells [simp]: "kind_ok (Suc m) n \<Longrightarrow> cells_of (with_cells n cells) = cells"
  by (cases n) auto

lemma present_flip_bit:
  "j < capacity n \<Longrightarrow> present (flip_bit n j) = (present n)(j := \<not> present n j)"
  by (cases n) (auto simp: fun_eq_iff bit_xor_iff bit_onebit split: if_splits)

text \<open>Replacing, adding and removing one child.\<close>

lemma replace_child:
  assumes "packed_node n" "kind_ok (Suc m) n" "present n j"
  shows "packed_node (with_cells n ((cells_of n)[cnt (present n) j := Some it]))"
    and "kids (with_cells n ((cells_of n)[cnt (present n) j := Some it])) = (kids n)(j \<mapsto> it)"
proof -
  obtain xs where xs: "cells_of n = packed_cells (capacity n) xs"
    "length xs = cnt (present n) (capacity n)" "kids n = child_at (present n) xs"
    using assms(1) unfolding packed_node_def by blast
  have less: "cnt (present n) j < length xs"
    unfolding xs(2) by (rule cnt_less [of "present n", OF assms(3) present_less [OF assms(3)]])
  define n' where "n' = with_cells n ((cells_of n)[cnt (present n) j := Some it])"
  have c: "cells_of n' = packed_cells (capacity n') (xs[cnt (present n) j := it])"
    using less assms(2) by (simp add: n'_def xs(1) packed_cells_update)
  have l: "length (xs[cnt (present n) j := it]) = cnt (present n') (capacity n')"
    using xs(2) by (simp add: n'_def)
  show "packed_node (with_cells n ((cells_of n)[cnt (present n) j := Some it]))"
    using packed_nodeI(1) [OF c l] by (simp add: n'_def)
  show "kids (with_cells n ((cells_of n)[cnt (present n) j := Some it])) = (kids n)(j \<mapsto> it)"
    using packed_nodeI(2) [OF c l] child_at_update [of "present n" j, OF assms(3) present_less [OF assms(3)] xs(2)]
    by (simp add: n'_def xs(3))
qed

lemma insert_child:
  assumes "packed_node n" "kind_ok (Suc m) n" "\<not> present n j" "j < capacity n"
  defines "i \<equiv> cnt (present n) j" and "a \<equiv> cnt (present n) (capacity n) - cnt (present n) j"
  obtains cells1 where "constructItem i a d (cells_of n) = Some cells1"
    and "removeItem i a cells1 = Some (cells_of n)"
    and "\<And>it. packed_node (with_cells (flip_bit n j) (cells1[i := Some it]))"
    and "\<And>it. kids (with_cells (flip_bit n j) (cells1[i := Some it])) = (kids n)(j \<mapsto> it)"
proof -
  obtain xs where xs: "cells_of n = packed_cells (capacity n) xs"
    "length xs = cnt (present n) (capacity n)" "kids n = child_at (present n) xs"
    using assms(1) unfolding packed_node_def by blast
  have i: "i \<le> length xs" unfolding i_def xs(2) using assms(4) by (intro cnt_mono) simp
  have "cnt ((present n)(j := True)) (capacity n) \<le> capacity n" by (rule cnt_le)
  then have l: "length xs < capacity n"
    using cnt_insert [of "present n" j "capacity n", OF assms(3)] assms(4) xs(2) by simp
  have a: "a = length xs - i" unfolding a_def i_def xs(2) ..
  define ys where "ys = (\<lambda>it. take i xs @ it # drop i xs)"
  have c1: "constructItem i a d (cells_of n) = Some (packed_cells (capacity n) (ys d))"
    unfolding a xs(1) ys_def by (rule constructItem_packed [OF i l])
  have r: "removeItem i a (packed_cells (capacity n) (ys d)) = Some (cells_of n)"
    using removeItem_packed [of i "ys d" a "capacity n"] i l a
    by (simp add: ys_def xs(1))
  have u: "(packed_cells (capacity n) (ys d))[i := Some it] = packed_cells (capacity n) (ys it)" for it
    using i by (simp add: packed_cells_update ys_def list_update_append)
  have p: "present (flip_bit n j) = (present n)(j := True)"
    using present_flip_bit [OF assms(4)] assms(3) by simp
  have k: "kind_ok (Suc m) (flip_bit n j)" using assms(2) by simp
  have cells: "cells_of (with_cells (flip_bit n j) (packed_cells (capacity n) (ys it)))
      = packed_cells (capacity (with_cells (flip_bit n j) (packed_cells (capacity n) (ys it)))) (ys it)" for it
    using k by simp
  have len: "length (ys it) = cnt (present (with_cells (flip_bit n j) (packed_cells (capacity n) (ys it))))
      (capacity (with_cells (flip_bit n j) (packed_cells (capacity n) (ys it))))" for it
    using child_at_insert(2) [of "present n" j, OF assms(3,4) xs(2)] by (simp add: p ys_def i_def)
  have kids: "kids (with_cells (flip_bit n j) (packed_cells (capacity n) (ys it))) = (kids n)(j \<mapsto> it)" for it
    using packed_nodeI(2) [OF cells len] child_at_insert(1) [of "present n" j, OF assms(3,4) xs(2)]
    by (simp add: p ys_def i_def xs(3))
  show ?thesis
    by (rule that [OF c1 r]) (simp_all only: u packed_nodeI(1) [OF cells len] kids)
qed

lemma delete_child:
  assumes "packed_node n" "kind_ok (Suc m) n" "present n j"
    and "cnt (present n) (capacity n) < capacity n"
  defines "i \<equiv> cnt (present n) j" and "a \<equiv> cnt (present n) (capacity n) - cnt (present n) j"
  obtains cells1 where "removeItem i a ((cells_of n)[i := Some d]) = Some cells1"
    and "packed_node (with_cells (flip_bit n j) cells1)"
    and "kids (with_cells (flip_bit n j) cells1) = (kids n)(j := None)"
proof -
  obtain xs where xs: "cells_of n = packed_cells (capacity n) xs"
    "length xs = cnt (present n) (capacity n)" "kids n = child_at (present n) xs"
    using assms(1) unfolding packed_node_def by blast
  have j: "j < capacity n" using assms(3) by (rule present_less)
  have i: "i < length xs" unfolding i_def xs(2) by (rule cnt_less [of "present n", OF assms(3) j])
  define ys where "ys = take i xs @ drop (Suc i) xs"
  have "removeItem i a (packed_cells (capacity n) (xs[i := d]))
      = Some (packed_cells (capacity n) (take i (xs[i := d]) @ drop (Suc i) (xs[i := d])))"
    using i assms(4) xs(2) by (intro removeItem_packed) (simp_all add: a_def i_def)
  then have r: "removeItem i a ((cells_of n)[i := Some d]) = Some (packed_cells (capacity n) ys)"
    using i by (simp add: xs(1) packed_cells_update ys_def)
  have p: "present (flip_bit n j) = (present n)(j := False)"
    using present_flip_bit [OF j] assms(3) by simp
  define n' where "n' = with_cells (flip_bit n j) (packed_cells (capacity n) ys)"
  have cells: "cells_of n' = packed_cells (capacity n') ys"
    using assms(2) by (simp add: n'_def)
  have len: "length ys = cnt (present n') (capacity n')"
    using child_at_delete(2) [of "present n" j, OF assms(3) j xs(2)] by (simp add: n'_def p ys_def i_def)
  show ?thesis
    using packed_nodeI [OF cells len] child_at_delete(1) [of "present n" j, OF assms(3) j xs(2)]
    by (intro that [OF r]) (simp_all add: n'_def p ys_def i_def xs(3))
qed

fun wf_node :: "nat \<Rightarrow> 'u node \<Rightarrow> bool" where
  "wf_node 0 n \<longleftrightarrow> (\<exists>key u. n = Chunk_Node key u)"
| "wf_node (Suc m) n \<longleftrightarrow> kind_ok (Suc m) n \<and> packed_node n
     \<and> (\<forall>j it. kids n j = Some it \<longrightarrow> (\<exists>c. snd it = Some c \<and> wf_node m c))"

text \<open>A path stops inside the four duoctree levels.\<close>

definition stop_at :: "nat \<Rightarrow> u64 \<Rightarrow> bool" where
  "stop_at m p \<longleftrightarrow> 1 \<le> m \<and> m \<le> 4 \<and> extractNodePathStopBit (comp_of m p)"

lemma stops_iff: "kind_ok (Suc m) n \<Longrightarrow> stops (Suc m) n p = stop_at (Suc m) p"
  by (cases n) (auto simp: stop_at_def split: if_splits)

text \<open>Two paths lead to the same node; two paths to one duoctree node mean the same key of the nine.\<close>

fun same_node :: "nat \<Rightarrow> u64 \<Rightarrow> u64 \<Rightarrow> bool" where
  "same_node 0 p q = True"
| "same_node (Suc m) p q =
     (if stop_at (Suc m) p \<or> stop_at (Suc m) q then stop_at (Suc m) p \<and> stop_at (Suc m) q
      else slot (Suc m) p = slot (Suc m) q \<and> same_node m p q)"

fun same_bit :: "nat \<Rightarrow> u64 \<Rightarrow> u64 \<Rightarrow> bool" where
  "same_bit 0 p q = True"
| "same_bit (Suc m) p q =
     (if stop_at (Suc m) p
      then extractNodeKeyMaskBit p (comp_of (Suc m) p) = extractNodeKeyMaskBit q (comp_of (Suc m) q)
      else same_bit m p q)"

text \<open>The path ends in a chunk.\<close>

fun to_chunk :: "nat \<Rightarrow> u64 \<Rightarrow> bool" where
  "to_chunk 0 q = True"
| "to_chunk (Suc m) q = (\<not> stop_at (Suc m) q \<and> to_chunk m q)"

text \<open>No node on the path is older than \<open>tick\<close>: nothing will be copied.\<close>

fun current :: "nat \<Rightarrow> 'u node \<Rightarrow> u64 \<Rightarrow> tick \<Rightarrow> bool" where
  "current 0 n p tick = True"
| "current (Suc m) n p tick =
     (stop_at (Suc m) p \<or>
       (case kids n (slot (Suc m) p) of
          Some (t, Some c) \<Rightarrow> tick \<le> t \<and> current m c p tick
        | _ \<Rightarrow> True))"

lemma lookup_node_kids:
  "kind_ok (Suc m) n \<Longrightarrow> lookup_node (Suc m) n p =
    (if stop_at (Suc m) p then own_lookup (Suc m) n p
     else case kids n (slot (Suc m) p) of Some (t, Some c) \<Rightarrow> lookup_node m c p | _ \<Rightarrow> None)"
  by (simp add: lookup_node_step stops_iff kids_def)

lemma key_mask_bit: "\<exists>i<9. extractNodeKeyMaskBit p c = onebit i"
proof (cases "c AND 64 = 0")
  case True
  then have "extractNodeKeyMaskBit p c = onebit 8" by (simp add: extractNodeKeyMaskBit_def onebit_def)
  then show ?thesis by (intro exI [of _ 8]) simp
next
  case False
  have "p AND 7 \<le> 7" by (rule word_and_le1)
  then have "unat (p AND 7) < 9" by (simp add: word_le_nat_alt)
  with False show ?thesis by (auto simp: extractNodeKeyMaskBit_def)
qed

lemma live_or:
  "(live OR extractNodeKeyMaskBit p c) AND extractNodeKeyMaskBit q d \<noteq> 0 \<longleftrightarrow>
     extractNodeKeyMaskBit p c = extractNodeKeyMaskBit q d \<or> live AND extractNodeKeyMaskBit q d \<noteq> 0"
proof -
  obtain i j where ij: "i < 9" "extractNodeKeyMaskBit p c = onebit i"
    "j < 9" "extractNodeKeyMaskBit q d = onebit j" using key_mask_bit by blast
  have "(onebit i :: u32) = onebit j \<longleftrightarrow> i = j"
    using ij by (simp add: onebit_inj)
  then show ?thesis using ij by (auto simp: and_onebit_zero bit_or_iff bit_onebit)
qed

lemma live_clear:
  "(live AND NOT (extractNodeKeyMaskBit p c)) AND extractNodeKeyMaskBit q d \<noteq> 0 \<longleftrightarrow>
     extractNodeKeyMaskBit p c \<noteq> extractNodeKeyMaskBit q d \<and> live AND extractNodeKeyMaskBit q d \<noteq> 0"
proof -
  obtain i j where ij: "i < 9" "extractNodeKeyMaskBit p c = onebit i"
    "j < 9" "extractNodeKeyMaskBit q d = onebit j" using key_mask_bit by blast
  have "(onebit i :: u32) = onebit j \<longleftrightarrow> i = j"
    using ij by (simp add: onebit_inj)
  then show ?thesis using ij by (auto simp: and_onebit_zero bit_and_iff bit_not_iff bit_onebit)
qed

lemma wf_kid:
  assumes "wf_node (Suc m) n" "kids n j = Some it"
  obtains t c where "it = (t, Some c)" "wf_node m c"
proof -
  have "\<forall>j it. kids n j = Some it \<longrightarrow> (\<exists>c. snd it = Some c \<and> wf_node m c)" using assms(1) by simp
  then obtain c where "snd it = Some c" "wf_node m c" using assms(2) by blast
  then show ?thesis by (intro that [of "fst it" c]) (simp_all add: prod_eq_iff)
qed

lemma wf_kind: "wf_node (Suc m) n \<Longrightarrow> kind_ok (Suc m) n \<and> packed_node n"
  by simp

lemma wf_update_kid:
  assumes "wf_node (Suc m) n" "kind_ok (Suc m) n'" "packed_node n'"
    and "kids n' = (kids n)(j \<mapsto> (t, Some c))" "wf_node m c"
  shows "wf_node (Suc m) n'"
  using assms by auto

lemma wf_delete_kid:
  assumes "wf_node (Suc m) n" "kind_ok (Suc m) n'" "packed_node n'" "kids n' = (kids n)(j := None)"
  shows "wf_node (Suc m) n'"
  using assms by auto

lemma packed_cells_Nil: "packed_cells c [] = replicate c None"
  by (simp add: packed_cells_def)

lemma cnt_none: "(\<And>j. \<not> P j) \<Longrightarrow> cnt P i = 0"
  by (simp add: cnt_def)

lemma init_node_fresh:
  assumes "init_node ctl m co = Some c" "m \<le> 6"
  shows "wf_node m c" and "current m c p tick" and "0 < m \<Longrightarrow> lookup_node m c q = None"
proof -
  have *: "wf_node m c \<and> current m c p tick \<and> (0 < m \<longrightarrow> lookup_node m c q = None)"
  proof (cases m)
    case 0
    with assms show ?thesis by (auto simp: init_node_def Let_def)
  next
    case (Suc k)
    have pr: "\<not> present c j" for j
      using assms Suc by (auto simp: init_node_def Let_def split: if_splits)
    have ce: "cells_of c = packed_cells (capacity c) []"
      using assms Suc by (auto simp: init_node_def Let_def packed_cells_Nil split: if_splits)
    have ki: "kind_ok m c"
      using assms Suc by (auto simp: init_node_def Let_def split: if_splits)
    have "packed_node c" using packed_nodeI(1) [OF ce] cnt_none [of "present c", OF pr] by simp
    moreover have "kids c = Map.empty" by (simp add: fun_eq_iff kids_def pr)
    moreover have "own_lookup m c q = None"
      using assms Suc by (auto simp: init_node_def Let_def split: if_splits)
    ultimately show ?thesis using ki Suc by (simp add: lookup_node_kids)
  qed
  from * show "wf_node m c" and "current m c p tick" and "0 < m \<Longrightarrow> lookup_node m c q = None" by auto
qed


text \<open>What copying leaves of a node: everything but the live key mask, and the block of a chunk
  when the control's constructor copies it.\<close>

definition copies_chunks :: "'u control \<Rightarrow> bool" where
  "copies_chunks ctl \<longleftrightarrow> (\<forall>key u. chunk_copy_ctor ctl key u = Some u)"

lemma same_shape:
  assumes "present n' = present n" "cells_of n' = cells_of n" "capacity n' = capacity n"
  shows "kids n' = kids n" "packed_node n' = packed_node n"
proof -
  show "kids n' = kids n" by (rule ext) (simp add: kids_def assms)
  then show "packed_node n' = packed_node n" by (simp add: packed_node_def assms)
qed

lemma copy_node_view:
  assumes "copy_node ctl n = Some n'"
  shows "kids n' = kids n" "present n' = present n" "capacity n' = capacity n"
    "kind_ok m n' = kind_ok m n" "packed_node n' = packed_node n"
proof -
  show *: "present n' = present n" "capacity n' = capacity n" "kind_ok m n' = kind_ok m n"
    using assms by (cases n; auto simp: fun_eq_iff)+
  have "cells_of n' = cells_of n" using assms by (cases n) auto
  with * show "kids n' = kids n" "packed_node n' = packed_node n" using same_shape [of n' n] by blast+
qed

lemma copy_node_wf: "copy_node ctl n = Some n' \<Longrightarrow> wf_node m n' = wf_node m n"
proof (cases m)
  case 0
  assume "copy_node ctl n = Some n'"
  with 0 show ?thesis by (cases n) auto
next
  case (Suc k)
  assume "copy_node ctl n = Some n'"
  from copy_node_view [OF this] Suc show ?thesis by simp
qed

lemma copy_node_lookup:
  assumes "copy_node ctl n = Some n'" "wf_node m n" "to_chunk m q" "copies_chunks ctl"
  shows "lookup_node m n' q = lookup_node m n q"
proof (cases m)
  case 0
  with assms show ?thesis by (auto simp: copies_chunks_def lookup_node_unfold)
next
  case (Suc k)
  with assms copy_node_view [OF assms(1)] show ?thesis by (simp add: lookup_node_kids)
qed

lemma moo_cases:
  assumes "moo ctl (t, Some c) tick = r"
  obtains "tick \<le> t" "r = Some (t, Some c)"
    | "t < tick" "r = None" "copy_node ctl c = None"
    | c' where "t < tick" "r = Some (tick, Some c')" "copy_node ctl c = Some c'"
  using assms by (cases "tick \<le> t"; cases "copy_node ctl c") auto

declare moo.simps [simp del]

text \<open>The effect of \<open>access\<close> on one lookup. The lookup has to be safe from copying: either nothing
  is copied, or it ends in a chunk and chunk blocks are copied as they are.\<close>

definition safe :: "'u control \<Rightarrow> nat \<Rightarrow> 'u node \<Rightarrow> u64 \<Rightarrow> tick \<Rightarrow> u64 \<Rightarrow> bool" where
  "safe ctl m n p tick q \<longleftrightarrow> current m n p tick \<or> (to_chunk m q \<and> copies_chunks ctl)"

definition access_effect :: "'u option \<Rightarrow> nat \<Rightarrow> u64 \<Rightarrow> u64 \<Rightarrow> 'u outcome \<Rightarrow> 'u option" where
  "access_effect before m p q r =
     (case r of
        Done u \<Rightarrow> if same_node m p q then if same_bit m p q \<or> before \<noteq> None then Some u else None
                  else before
      | _ \<Rightarrow> before)"

lemma access_effect_lift:
  assumes "kind_ok (Suc m) n" "kind_ok (Suc m) n'" "\<not> stop_at (Suc m) p"
    and "own_lookup (Suc m) n' q = own_lookup (Suc m) n q"
    and "kids n' = (kids n)(slot (Suc m) p \<mapsto> (t', Some c'))"
    and "\<not> stop_at (Suc m) q \<Longrightarrow> slot (Suc m) q = slot (Suc m) p \<Longrightarrow>
      lookup_node m c' q = access_effect
        (case kids n (slot (Suc m) p) of Some (t, Some c) \<Rightarrow> lookup_node m c q | _ \<Rightarrow> None) m p q r"
  shows "lookup_node (Suc m) n' q = access_effect (lookup_node (Suc m) n q) (Suc m) p q r"
proof (cases "stop_at (Suc m) q \<or> slot (Suc m) q \<noteq> slot (Suc m) p")
  case True
  then have "access_effect b (Suc m) p q r = b" for b
    using assms(3) by (auto simp: access_effect_def split: outcome.splits)
  then show ?thesis using True assms(1-5) by (auto simp: lookup_node_kids)
next
  case False
  then have "access_effect b (Suc m) p q r = access_effect b m p q r" for b
    using assms(3) by (auto simp: access_effect_def split: outcome.splits)
  then show ?thesis using False assms by (auto simp: lookup_node_kids)
qed

lemma with_cells_same [simp]: "with_cells n (cells_of n) = n"
  by (cases n) auto

lemma access_stop_effect:
  assumes "wf_node (Suc m) n" "stop_at (Suc m) p" "access_node ctl (Suc m) n p tick f = (n', r)"
  shows "wf_node (Suc m) n' \<and> r \<noteq> Undefined \<and>
    lookup_node (Suc m) n' q = access_effect (lookup_node (Suc m) n q) (Suc m) p q r"
proof -
  note ko = wf_kind [OF assms(1)]
  then obtain key live cm cells u where n: "n = Duo_Node key live cm cells u"
    using assms(2) by (cases n) (auto simp: stop_at_def split: if_splits)
  have st: "stops (Suc m) n p" using assms(2) ko by (simp add: stops_iff)
  define n1 where "n1 = Duo_Node key (live OR extractNodeKeyMaskBit p (comp_of (Suc m) p)) cm cells (f u)"
  have nr: "n' = n1" "r = Done (f u)"
    using assms(3) access_node_stop [OF st, of ctl tick f] by (simp_all add: n n1_def)
  have "present n1 = present n" "cells_of n1 = cells_of n" "capacity n1 = capacity n"
    by (simp_all add: n n1_def fun_eq_iff)
  note sh = same_shape [OF this]
  have k1: "kind_ok (Suc m) n1" using ko by (simp add: n n1_def)
  then have "wf_node (Suc m) n1" using assms(1) sh by simp
  moreover have "lookup_node (Suc m) n1 q = access_effect (lookup_node (Suc m) n q) (Suc m) p q (Done (f u))"
    using ko assms(2) k1 sh(1)
    by (auto simp: lookup_node_kids access_effect_def n n1_def live_or)
  ultimately show ?thesis using nr by simp
qed

lemma wf_present_kid:
  assumes "wf_node (Suc m) n" "present n j"
  obtains t c where "kids n j = Some (t, Some c)" "wf_node m c"
    "cells_of n ! cnt (present n) j = Some (t, Some c)"
proof -
  have "kids n j \<noteq> None"
    using wf_kind [OF assms(1)] assms(2) by (auto simp: packed_node_def child_at_def)
  then obtain it where it: "kids n j = Some it" by blast
  obtain t c where "it = (t, Some c)" "wf_node m c" using wf_kid [OF assms(1) it] .
  with it assms(2) show ?thesis by (intro that [of t c]) (simp_all add: kids_def)
qed

lemma access_kid_effect:
  assumes wf: "wf_node (Suc m) n" and ns: "\<not> stop_at (Suc m) p" and j: "j = slot (Suc m) p"
    and pr: "present n j" and kid: "kids n j = Some (t, Some c)"
    and n': "n' = with_cells n ((cells_of n)[cnt (present n) j := Some (t1, Some c')])"
    and IH: "wf_node m c'" "safe ctl m c1 p tick q \<Longrightarrow>
      lookup_node m c' q = access_effect (lookup_node m c1 q) m p q r"
    and sf: "safe ctl (Suc m) n p tick q \<Longrightarrow> \<not> stop_at (Suc m) q \<Longrightarrow>
      safe ctl m c1 p tick q \<and> lookup_node m c1 q = lookup_node m c q"
  shows "wf_node (Suc m) n' \<and> (safe ctl (Suc m) n p tick q \<longrightarrow>
    lookup_node (Suc m) n' q = access_effect (lookup_node (Suc m) n q) (Suc m) p q r)"
proof -
  have kn: "kind_ok (Suc m) n" and pk: "packed_node n" using wf_kind [OF wf] by auto
  note rep = replace_child [OF pk kn pr, of "(t1, Some c')", folded n']
  have k': "kind_ok (Suc m) n'" using kn by (simp add: n')
  have "wf_node (Suc m) n'" by (rule wf_update_kid [OF wf k' rep IH(1)])
  moreover have "lookup_node (Suc m) n' q = access_effect (lookup_node (Suc m) n q) (Suc m) p q r"
    if s: "safe ctl (Suc m) n p tick q"
  proof (rule access_effect_lift [OF kn k' ns _ rep(2) [unfolded j]])
    show "own_lookup (Suc m) n' q = own_lookup (Suc m) n q" by (simp add: n')
    show "lookup_node m c' q = access_effect (case kids n (slot (Suc m) p) of
        Some (t, Some c) \<Rightarrow> lookup_node m c q | _ \<Rightarrow> None) m p q r" if "\<not> stop_at (Suc m) q"
      using IH(2) sf [OF s that] kid j by simp
  qed
  ultimately show ?thesis by blast
qed

lemma access_new_effect:
  assumes wf: "wf_node (Suc m) n" and ns: "\<not> stop_at (Suc m) p" and j: "j = slot (Suc m) p"
    and pr: "\<not> present n j" and m: "m \<le> 6"
    and c: "init_node ctl m co = Some c" and acc: "access_node ctl m c p tick f = (c', r)"
    and n': "packed_node n'" "kids n' = (kids n)(j \<mapsto> (tick, Some c'))" "kind_ok (Suc m) n'"
      "own_lookup (Suc m) n' q = own_lookup (Suc m) n q"
    and IH: "wf_node m c'" "safe ctl m c p tick q \<Longrightarrow>
      lookup_node m c' q = access_effect (lookup_node m c q) m p q r"
  shows "wf_node (Suc m) n' \<and>
    lookup_node (Suc m) n' q = access_effect (lookup_node (Suc m) n q) (Suc m) p q r"
proof -
  have kn: "kind_ok (Suc m) n" using wf_kind [OF wf] by auto
  have none: "kids n j = None" using pr by (simp add: kids_def)
  note fresh = init_node_fresh [OF c m]
  have "wf_node (Suc m) n'" by (rule wf_update_kid [OF wf n'(3,1,2) IH(1)])
  moreover have "lookup_node (Suc m) n' q = access_effect (lookup_node (Suc m) n q) (Suc m) p q r"
  proof (rule access_effect_lift [OF kn n'(3) ns n'(4) n'(2) [unfolded j]])
    have l: "lookup_node m c' q = access_effect (lookup_node m c q) m p q r"
      by (rule IH(2)) (simp add: safe_def fresh)
    have "access_effect (lookup_node m c q) m p q r = access_effect None m p q r"
    proof (cases m)
      case 0
      then obtain k u where "c = Chunk_Node k u" using fresh(1) by auto
      then have "r = Done (f u)" using acc 0 by (simp add: access_node_unfold)
      then show ?thesis using 0 by (simp add: access_effect_def)
    qed (use fresh(3) in simp)
    then show "lookup_node m c' q = access_effect (case kids n (slot (Suc m) p) of
        Some (t, Some c) \<Rightarrow> lookup_node m c q | _ \<Rightarrow> None) m p q r"
      using l none j by simp
  qed
  ultimately show ?thesis by blast
qed

lemma access_node_effect:
  assumes "wf_node m n" "m \<le> 6" "access_node ctl m n p tick f = (n', r)"
  shows "wf_node m n' \<and> r \<noteq> Undefined \<and>
    (safe ctl m n p tick q \<longrightarrow> lookup_node m n' q = access_effect (lookup_node m n q) m p q r)"
  using assms
proof (induction m arbitrary: n n' r)
  case 0
  then show ?case by (auto simp: access_node_unfold lookup_node_unfold access_effect_def)
next
  case (Suc m)
  note wf = Suc.prems(1)
  note ko = wf_kind [OF wf]
  have m: "m \<le> 6" using Suc.prems(2) by simp
  define j where "j = slot (Suc m) p"
  show ?case
  proof (cases "stop_at (Suc m) p")
    case True
    then show ?thesis using access_stop_effect [OF wf True Suc.prems(3)] by blast
  next
    case ns: False
    have "\<not> stops (Suc m) n p" using ns ko by (simp add: stops_iff)
    note step = access_node_step [OF conjunct1 [OF ko] this, of ctl tick f, unfolded Let_def,
        folded j_def, unfolded Suc.prems(3)]
    have unchanged: ?thesis if "n' = n" "r = Thrown"
      using that wf by (simp add: access_effect_def)
    show ?thesis
    proof (cases "present n j")
      case True
      obtain t c where kid: "kids n j = Some (t, Some c)" and wfc: "wf_node m c"
        and cell: "cells_of n ! cnt (present n) j = Some (t, Some c)"
        using wf_present_kid [OF wf True] .
      show ?thesis
      proof (cases rule: moo_cases [OF refl, where ctl = ctl and t = t and c = c and tick = tick])
        case 1
        obtain c' r' where acc: "access_node ctl m c p tick f = (c', r')"
          by (cases "access_node ctl m c p tick f")
        have n': "n' = with_cells n ((cells_of n)[cnt (present n) j := Some (t, Some c')])" "r' = r"
          using step by (simp_all add: True cell acc 1)
        have sf: "safe ctl m c p tick q" if "safe ctl (Suc m) n p tick q"
          using that ns kid 1(1) by (auto simp: safe_def j_def)
        show ?thesis
          using access_kid_effect [OF wf ns j_def True kid n'(1), of ctl c tick q r]
            Suc.IH [OF wfc m acc] sf n'(2) by blast
      next
        case 2
        then show ?thesis using step by (intro unchanged) (simp_all add: True cell)
      next
        case (3 c1)
        obtain c' r' where acc: "access_node ctl m c1 p tick f = (c', r')"
          by (cases "access_node ctl m c1 p tick f")
        have n': "n' = with_cells n ((cells_of n)[cnt (present n) j := Some (tick, Some c')])" "r' = r"
          using step by (simp_all add: True cell acc 3)
        have sf: "safe ctl m c1 p tick q \<and> lookup_node m c1 q = lookup_node m c q"
          if "safe ctl (Suc m) n p tick q"
        proof -
          have "to_chunk m q" "copies_chunks ctl"
            using that ns kid 3(1) by (auto simp: safe_def j_def)
          then show ?thesis using copy_node_lookup [OF 3(3) wfc] by (simp add: safe_def)
        qed
        have wf1: "wf_node m c1" using copy_node_wf [OF 3(3)] wfc by simp
        show ?thesis
          using access_kid_effect [OF wf ns j_def True kid n'(1), of ctl c1 tick q r]
            Suc.IH [OF wf1 m acc] sf n'(2) by blast
      qed
    next
      case False
      have jc: "j < capacity n" unfolding j_def using ko by (intro slot_capacity) simp
      obtain cells1 where ins: "constructItem (cnt (present n) j)
            (cnt (present n) (capacity n) - cnt (present n) j) empty_item (cells_of n) = Some cells1"
          "removeItem (cnt (present n) j)
            (cnt (present n) (capacity n) - cnt (present n) j) cells1 = Some (cells_of n)"
          "\<And>it. packed_node (with_cells (flip_bit n j) (cells1[cnt (present n) j := Some it]))"
          "\<And>it. kids (with_cells (flip_bit n j) (cells1[cnt (present n) j := Some it])) = (kids n)(j \<mapsto> it)"
        using insert_child [OF conjunct2 [OF ko] conjunct1 [OF ko] False jc] by metis
      show ?thesis
      proof (cases "init_node ctl m (child_coord m n p)")
        case None
        then show ?thesis using step by (intro unchanged) (simp_all add: False ins(1,2))
      next
        case (Some c)
        obtain c' r' where acc: "access_node ctl m c p tick f = (c', r')"
          by (cases "access_node ctl m c p tick f")
        have n': "n' = with_cells (flip_bit n j) (cells1[cnt (present n) j := Some (tick, Some c')])"
          and r: "r' = r"
          using step by (simp_all add: False ins(1) Some acc)
        have "kind_ok (Suc m) n'" "own_lookup (Suc m) n' q = own_lookup (Suc m) n q"
          using ko by (simp_all add: n')
        note n'' = ins(3) [of "(tick, Some c')", folded n'] ins(4) [of "(tick, Some c')", folded n'] this
        note IH = Suc.IH [OF init_node_fresh(1) [OF Some m] m acc]
        show ?thesis
          using access_new_effect [OF wf ns j_def False m Some acc n''] IH r by blast
      qed
    qed
  qed
qed

section \<open>The effect of removal\<close>

text \<open>Every node on the path from which a child may be removed has a free slot.\<close>

fun room :: "nat \<Rightarrow> 'u node \<Rightarrow> u64 \<Rightarrow> bool" where
  "room 0 n p = True"
| "room (Suc m) n p =
     (stop_at (Suc m) p \<or> \<not> present n (slot (Suc m) p) \<or>
      (cnt (present n) (capacity n) < capacity n \<and>
       (case kids n (slot (Suc m) p) of Some (t, Some c) \<Rightarrow> room m c p | _ \<Rightarrow> True)))"

definition remove_effect :: "'u option \<Rightarrow> nat \<Rightarrow> u64 \<Rightarrow> u64 \<Rightarrow> unit outcome \<Rightarrow> 'u option" where
  "remove_effect before m p q r =
     (if r = Done () \<and> same_node m p q \<and> same_bit m p q then None else before)"

lemma node_empty_lookup:
  assumes "wf_node (Suc m) n" "node_empty n"
  shows "lookup_node (Suc m) n q = None"
proof -
  have ko: "kind_ok (Suc m) n" using wf_kind [OF assms(1)] by simp
  have pr: "\<not> present n j" for j using assms(2) ko by (cases n) (auto split: if_splits)
  have "own_lookup (Suc m) n q = None" using assms(2) by (cases n) auto
  then show ?thesis using ko by (simp add: lookup_node_kids kids_def pr)
qed

lemma remove_effect_lift:
  fixes n :: "'u node"
  assumes "kind_ok (Suc m) n" "kind_ok (Suc m) n'" "\<not> stop_at (Suc m) p"
    and "own_lookup (Suc m) n' q = own_lookup (Suc m) n q"
    and "kids n' = (kids n)(slot (Suc m) p := it)"
    and "\<not> stop_at (Suc m) q \<Longrightarrow> slot (Suc m) q = slot (Suc m) p \<Longrightarrow>
      (case it of Some (t, Some c) \<Rightarrow> lookup_node m c q | _ \<Rightarrow> None) = remove_effect
        (case kids n (slot (Suc m) p) of Some (t, Some c) \<Rightarrow> lookup_node m c q | _ \<Rightarrow> None) m p q r"
  shows "lookup_node (Suc m) n' q = remove_effect (lookup_node (Suc m) n q) (Suc m) p q r"
proof (cases "stop_at (Suc m) q \<or> slot (Suc m) q \<noteq> slot (Suc m) p")
  case True
  then have "remove_effect b (Suc m) p q r = b" for b :: "'u option"
    using assms(3) by (auto simp: remove_effect_def)
  then show ?thesis using True assms(1-5) by (auto simp: lookup_node_kids)
next
  case False
  then have "remove_effect b (Suc m) p q r = remove_effect b m p q r" for b :: "'u option"
    using assms(3) by (auto simp: remove_effect_def)
  then show ?thesis using False assms by (auto simp: lookup_node_kids)
qed

lemma remove_stop_effect:
  assumes "wf_node (Suc m) n" "stop_at (Suc m) p" "remove_node ctl (Suc m) n p tick = (n', r)"
  shows "wf_node (Suc m) n' \<and> r \<noteq> Undefined \<and>
    lookup_node (Suc m) n' q = remove_effect (lookup_node (Suc m) n q) (Suc m) p q r"
proof -
  note ko = wf_kind [OF assms(1)]
  then obtain key live cm cells u where n: "n = Duo_Node key live cm cells u"
    using assms(2) by (cases n) (auto simp: stop_at_def split: if_splits)
  have st: "stops (Suc m) n p" using assms(2) ko by (simp add: stops_iff)
  define n1 where
    "n1 = Duo_Node key (live AND NOT (extractNodeKeyMaskBit p (comp_of (Suc m) p))) cm cells u"
  have nr: "n' = n1" "r = Done ()"
    using assms(3) remove_node_stop [OF st, of ctl tick] by (simp_all add: n n1_def)
  have "present n1 = present n" "cells_of n1 = cells_of n" "capacity n1 = capacity n"
    by (simp_all add: n n1_def fun_eq_iff)
  note sh = same_shape [OF this]
  have k1: "kind_ok (Suc m) n1" using ko by (simp add: n n1_def)
  then have "wf_node (Suc m) n1" using assms(1) sh by simp
  moreover have "lookup_node (Suc m) n1 q = remove_effect (lookup_node (Suc m) n q) (Suc m) p q (Done ())"
    using ko assms(2) k1 sh(1)
    by (auto simp: lookup_node_kids remove_effect_def n n1_def live_clear)
  ultimately show ?thesis using nr by simp
qed

text \<open>Below the removed child: either it stays, changed, or it is taken out.\<close>

lemma remove_kid_effect:
  assumes wf: "wf_node (Suc m) n" and ns: "\<not> stop_at (Suc m) p" and j: "j = slot (Suc m) p"
    and kid: "kids n j = Some (t, Some c)"
    and n': "packed_node n'" "kids n' = (kids n)(j := it)" "kind_ok (Suc m) n'"
      "own_lookup (Suc m) n' q = own_lookup (Suc m) n q"
    and it: "it = Some (tt, Some c') \<or> (it = None \<and> r = Done () \<and> node_empty c')"
    and IH: "wf_node m c'" "0 < m \<Longrightarrow> safe ctl m cc p tick q \<Longrightarrow>
      lookup_node m c' q = remove_effect (lookup_node m cc q) m p q r"
    and zero: "m = 0 \<Longrightarrow> it = None"
    and sf: "safe ctl (Suc m) n p tick q \<Longrightarrow> \<not> stop_at (Suc m) q \<Longrightarrow>
      safe ctl m cc p tick q \<and> lookup_node m cc q = lookup_node m c q"
  shows "wf_node (Suc m) n' \<and> (safe ctl (Suc m) n p tick q \<longrightarrow>
    lookup_node (Suc m) n' q = remove_effect (lookup_node (Suc m) n q) (Suc m) p q r)"
proof -
  have kn: "kind_ok (Suc m) n" using wf_kind [OF wf] by auto
  have "wf_node (Suc m) n'" using it
  proof
    assume "it = Some (tt, Some c')"
    with n'(2) show ?thesis using wf_update_kid [OF wf n'(3,1) _ IH(1), of j tt] by simp
  next
    assume "it = None \<and> r = Done () \<and> node_empty c'"
    with n'(2) show ?thesis using wf_delete_kid [OF wf n'(3,1), of j] by simp
  qed
  moreover have "lookup_node (Suc m) n' q = remove_effect (lookup_node (Suc m) n q) (Suc m) p q r"
    if s: "safe ctl (Suc m) n p tick q"
  proof (rule remove_effect_lift [OF kn n'(3) ns n'(4) n'(2) [unfolded j]])
    assume nq: "\<not> stop_at (Suc m) q"
    show "(case it of Some (t, Some c) \<Rightarrow> lookup_node m c q | _ \<Rightarrow> None) = remove_effect
        (case kids n (slot (Suc m) p) of Some (t, Some c) \<Rightarrow> lookup_node m c q | _ \<Rightarrow> None) m p q r"
    proof (cases m)
      case 0
      then show ?thesis using it zero by (auto simp: remove_effect_def)
    next
      case (Suc k)
      have "lookup_node m c' q = remove_effect (lookup_node m c q) m p q r"
        using IH(2) sf [OF s nq] Suc by simp
      moreover have "it = None \<Longrightarrow> lookup_node m c' q = None"
        using it node_empty_lookup [of k c' q] IH(1) Suc by auto
      ultimately show ?thesis using it kid j by auto
    qed
  qed
  ultimately show ?thesis by blast
qed

lemma copy_node_room:
  assumes "copy_node ctl n = Some n'" shows "room m n' p = room m n p"
  using copy_node_view [OF assms] by (cases m) simp_all

lemma remove_node_effect:
  assumes "wf_node m n" "remove_node ctl m n p tick = (n', r)" "room m n p"
  shows "wf_node m n' \<and> r \<noteq> Undefined \<and>
    (0 < m \<longrightarrow> safe ctl m n p tick q \<longrightarrow>
      lookup_node m n' q = remove_effect (lookup_node m n q) m p q r)"
  using assms
proof (induction m arbitrary: n n' r)
  case 0
  then show ?case by (auto simp: remove_node_unfold)
next
  case (Suc m)
  note wf = Suc.prems(1)
  note ko = wf_kind [OF wf]
  define j where "j = slot (Suc m) p"
  show ?case
  proof (cases "stop_at (Suc m) p")
    case True
    then show ?thesis using remove_stop_effect [OF wf True Suc.prems(2)] by blast
  next
    case ns: False
    have "\<not> stops (Suc m) n p" using ns ko by (simp add: stops_iff)
    note step = remove_node_step [OF conjunct1 [OF ko] this, of ctl tick, unfolded Let_def,
        folded j_def, unfolded Suc.prems(2)]
    show ?thesis
    proof (cases "present n j")
      case False
      then have nr: "n' = n" "r = Done ()" using step by simp_all
      have "lookup_node (Suc m) n q = None" if "same_node (Suc m) p q"
        using that False ns ko by (auto simp: lookup_node_kids kids_def j_def split: if_splits)
      then have "lookup_node (Suc m) n q = remove_effect (lookup_node (Suc m) n q) (Suc m) p q r"
        by (auto simp: remove_effect_def)
      then show ?thesis using nr wf by simp
    next
      case True
      obtain t c where kid: "kids n j = Some (t, Some c)" and wfc: "wf_node m c"
        and cell: "cells_of n ! cnt (present n) j = Some (t, Some c)"
        using wf_present_kid [OF wf True] .
      have rm: "cnt (present n) (capacity n) < capacity n" "room m c p"
        using Suc.prems(3) ns True kid by (auto simp: j_def)
      have go: ?thesis
        if moo: "moo ctl (t, Some c) tick = Some (t1, Some c1)" and wf1: "wf_node m c1"
          and rm1: "room m c1 p"
          and sf: "safe ctl (Suc m) n p tick q \<Longrightarrow> \<not> stop_at (Suc m) q \<Longrightarrow>
            safe ctl m c1 p tick q \<and> lookup_node m c1 q = lookup_node m c q" for t1 c1
      proof -
        obtain c' r' where rem: "remove_node ctl m c1 p tick = (c', r')"
          by (cases "remove_node ctl m c1 p tick")
        note IH = Suc.IH [OF wf1 rem rm1]
        note kid_effect = remove_kid_effect [OF wf ns j_def kid, where c' = c' and cc = c1 and tt = t1 and q = q]
        show ?thesis
        proof (cases "r' = Done () \<and> node_empty c'")
          case del: True
          obtain cells1 where d: "removeItem (cnt (present n) j)
                (cnt (present n) (capacity n) - cnt (present n) j)
                ((cells_of n)[cnt (present n) j := Some (t1, None)]) = Some cells1"
              "packed_node (with_cells (flip_bit n j) cells1)"
              "kids (with_cells (flip_bit n j) cells1) = (kids n)(j := None)"
            using delete_child [OF conjunct2 [OF ko] conjunct1 [OF ko] True rm(1)] by metis
          have nr: "n' = with_cells (flip_bit n j) cells1" "r = Done ()"
            using step del by (simp_all add: True cell moo rem d(1))
          show ?thesis
            using kid_effect [where n' = n' and it = None and r = r and ctl = ctl and tick = tick] d(2,3) ko IH del sf
            unfolding nr by simp
        next
          case keep: False
          have nr: "n' = with_cells n ((cells_of n)[cnt (present n) j := Some (t1, Some c')])" "r = r'"
            using step keep by (auto simp: True cell moo rem split: outcome.splits)
          note rep = replace_child [OF conjunct2 [OF ko] conjunct1 [OF ko] True, of "(t1, Some c')", folded nr(1)]
          have "0 < m"
          proof (rule ccontr)
            assume "\<not> 0 < m"
            then show False using keep rem wf1 by (auto simp: remove_node_unfold)
          qed
          then show ?thesis
            using kid_effect [where n' = n' and it = "Some (t1, Some c')" and r = r and ctl = ctl and tick = tick]
              rep ko IH sf
            unfolding nr by simp
        qed
      qed
      show ?thesis
      proof (cases rule: moo_cases [OF refl, where ctl = ctl and t = t and c = c and tick = tick])
        case 1
        have "safe ctl m c p tick q" if "safe ctl (Suc m) n p tick q"
          using that ns kid 1(1) by (auto simp: safe_def j_def)
        then show ?thesis using go [OF 1(2) wfc rm(2)] by blast
      next
        case 2
        then have "n' = n" "r = Thrown" using step by (simp_all add: True cell)
        then show ?thesis using wf by (simp add: remove_effect_def)
      next
        case (3 c1)
        have "safe ctl m c1 p tick q \<and> lookup_node m c1 q = lookup_node m c q"
          if "safe ctl (Suc m) n p tick q"
        proof -
          have "to_chunk m q" "copies_chunks ctl"
            using that ns kid 3(1) by (auto simp: safe_def j_def)
          then show ?thesis using copy_node_lookup [OF 3(3) wfc] by (simp add: safe_def)
        qed
        moreover have "wf_node m c1" using copy_node_wf [OF 3(3)] wfc by simp
        moreover have "room m c1 p" using copy_node_room [OF 3(3)] rm(2) by simp
        ultimately show ?thesis using go [OF 3(2)] by blast
      qed
    qed
  qed
qed

section \<open>Which block is accessed\<close>

text \<open>The block a path leads to, whether or not its key is live.\<close>

fun block_node :: "nat \<Rightarrow> 'u node \<Rightarrow> u64 \<Rightarrow> 'u option" where
  "block_node 0 n p = (case n of Chunk_Node key u \<Rightarrow> Some u | _ \<Rightarrow> None)"
| "block_node (Suc m) n p =
     (if stop_at (Suc m) p then (case n of Duo_Node key live cm cells u \<Rightarrow> Some u | _ \<Rightarrow> None)
      else case kids n (slot (Suc m) p) of Some (t, Some c) \<Rightarrow> block_node m c p | _ \<Rightarrow> None)"

definition default_block :: "'u control \<Rightarrow> 'u \<Rightarrow> bool" where
  "default_block ctl b \<longleftrightarrow>
     (\<exists>key. chunk_default_ctor ctl key = Some b \<or> duoctree_default_ctor ctl key = Some b)"

lemma lookup_block: "wf_node m n \<Longrightarrow> lookup_node m n p = Some b \<Longrightarrow> block_node m n p = Some b"
proof (induction m arbitrary: n)
  case 0
  then show ?case by (simp add: lookup_node_unfold)
next
  case (Suc m)
  note ko = wf_kind [OF Suc.prems(1)]
  show ?case
  proof (cases "stop_at (Suc m) p")
    case True
    with Suc.prems(2) ko show ?thesis by (cases n) (auto simp: lookup_node_kids split: if_splits)
  next
    case False
    with Suc.prems(2) ko obtain t c where c: "kids n (slot (Suc m) p) = Some (t, Some c)"
      "lookup_node m c p = Some b"
      by (auto simp: lookup_node_kids split: option.splits)
    moreover have "wf_node m c" using wf_kid [OF Suc.prems(1) c(1)] by auto
    ultimately show ?thesis using Suc.IH False by simp
  qed
qed

lemma init_node_block:
  "init_node ctl m co = Some c \<Longrightarrow> m \<le> 6 \<Longrightarrow> block_node m c p = Some b \<Longrightarrow> default_block ctl b"
  by (cases m) (auto simp: init_node_def Let_def default_block_def kids_def split: if_splits option.splits)

lemma access_node_block:
  assumes "wf_node m n" "m \<le> 6" "current m n p tick" "access_node ctl m n p tick f = (n', Done u)"
  shows "\<exists>b. u = f b \<and> (block_node m n p = Some b \<or> (block_node m n p = None \<and> default_block ctl b))"
  using assms
proof (induction m arbitrary: n n')
  case 0
  then show ?case by (auto simp: access_node_unfold)
next
  case (Suc m)
  note wf = Suc.prems(1)
  note ko = wf_kind [OF wf]
  have m: "m \<le> 6" using Suc.prems(2) by simp
  define j where "j = slot (Suc m) p"
  show ?case
  proof (cases "stop_at (Suc m) p")
    case True
    have "stops (Suc m) n p" using True ko by (simp add: stops_iff)
    then show ?thesis
      using access_node_stop [of m n p ctl tick f] Suc.prems(4) True by (cases n) auto
  next
    case ns: False
    have "\<not> stops (Suc m) n p" using ns ko by (simp add: stops_iff)
    note step = access_node_step [OF conjunct1 [OF ko] this, of ctl tick f, unfolded Let_def,
        folded j_def, unfolded Suc.prems(4)]
    show ?thesis
    proof (cases "present n j")
      case True
      obtain t c where kid: "kids n j = Some (t, Some c)" and wfc: "wf_node m c"
        and cell: "cells_of n ! cnt (present n) j = Some (t, Some c)"
        using wf_present_kid [OF wf True] .
      have cur: "tick \<le> t" "current m c p tick" using Suc.prems(3) ns kid by (simp_all add: j_def)
      then have moo: "moo ctl (t, Some c) tick = Some (t, Some c)" by (simp add: moo.simps)
      obtain c' r' where acc: "access_node ctl m c p tick f = (c', r')"
        by (cases "access_node ctl m c p tick f")
      have "r' = Done u" using step by (simp add: True cell moo acc)
      then show ?thesis using Suc.IH [OF wfc m cur(2)] acc kid ns by (simp add: j_def)
    next
      case False
      have jc: "j < capacity n" unfolding j_def using ko by (intro slot_capacity) simp
      obtain cells1 where ins: "constructItem (cnt (present n) j)
            (cnt (present n) (capacity n) - cnt (present n) j) empty_item (cells_of n) = Some cells1"
          "removeItem (cnt (present n) j)
            (cnt (present n) (capacity n) - cnt (present n) j) cells1 = Some (cells_of n)"
        using insert_child [OF conjunct2 [OF ko] conjunct1 [OF ko] False jc] by metis
      obtain c where c: "init_node ctl m (child_coord m n p) = Some c"
        using step by (cases "init_node ctl m (child_coord m n p)") (simp_all add: False ins)
      obtain c' r' where acc: "access_node ctl m c p tick f = (c', r')"
        by (cases "access_node ctl m c p tick f")
      have "r' = Done u" using step by (simp add: False ins(1) c acc)
      then obtain b where b: "u = f b"
        "block_node m c p = Some b \<or> (block_node m c p = None \<and> default_block ctl b)"
        using Suc.IH [OF init_node_fresh(1) [OF c m] m init_node_fresh(2) [OF c m]] acc by blast
      have "default_block ctl b" using b(2) init_node_block [OF c m] by blast
      moreover have "block_node (Suc m) n p = None" using False ns by (simp add: kids_def j_def)
      ultimately show ?thesis using b(1) by blast
    qed
  qed
qed

text \<open>With constructors that do not throw, an access does not throw.\<close>

definition no_throw :: "'u control \<Rightarrow> bool" where
  "no_throw ctl \<longleftrightarrow>
     (\<forall>key. chunk_default_ctor ctl key \<noteq> None \<and> duoctree_default_ctor ctl key \<noteq> None)
     \<and> (\<forall>key u. chunk_copy_ctor ctl key u \<noteq> None \<and> duoctree_copy_ctor ctl key u \<noteq> None)"

lemma no_throw_init: "no_throw ctl \<Longrightarrow> init_node ctl m co \<noteq> None"
  by (auto simp: init_node_def no_throw_def Let_def)

lemma no_throw_moo: "no_throw ctl \<Longrightarrow> moo ctl (t, Some c) tick \<noteq> None"
proof (cases c)
  case (Chunk_Node key u)
  assume "no_throw ctl"
  then have "chunk_copy_ctor ctl key u \<noteq> None" unfolding no_throw_def by blast
  then obtain v where "chunk_copy_ctor ctl key u = Some v" by blast
  then show ?thesis by (simp add: Chunk_Node moo.simps)
next
  case (Duo_Node key live cm cells u)
  assume "no_throw ctl"
  then have "duoctree_copy_ctor ctl key u \<noteq> None" unfolding no_throw_def by blast
  then obtain v where "duoctree_copy_ctor ctl key u = Some v" by blast
  then show ?thesis by (simp add: Duo_Node moo.simps)
qed (simp add: moo.simps)

lemma access_node_no_throw:
  assumes "no_throw ctl" "wf_node m n" "m \<le> 6" "access_node ctl m n p tick f = (n', r)"
  shows "\<exists>u. r = Done u"
proof -
  have nu: "r \<noteq> Undefined" using access_node_effect [OF assms(2-4)] by blast
  have "r \<noteq> Thrown" using assms(2-4)
  proof (induction m arbitrary: n n' r)
    case 0
    then show ?case by (auto simp: access_node_unfold)
  next
    case (Suc m)
    note ko = wf_kind [OF Suc.prems(1)]
    have m: "m \<le> 6" using Suc.prems(2) by simp
    define j where "j = slot (Suc m) p"
    show ?case
    proof (cases "stop_at (Suc m) p")
      case True
      then have "stops (Suc m) n p" using ko by (simp add: stops_iff)
      then show ?thesis using access_node_stop [of m n p ctl tick f] Suc.prems(3) by (cases n) auto
    next
      case False
      then have "\<not> stops (Suc m) n p" using ko by (simp add: stops_iff)
      note step = access_node_step [OF conjunct1 [OF ko] this, of ctl tick f, unfolded Let_def,
          folded j_def, unfolded Suc.prems(3)]
      show ?thesis
      proof (cases "present n j")
        case True
        obtain t c where kid: "kids n j = Some (t, Some c)" and wfc: "wf_node m c"
          and cell: "cells_of n ! cnt (present n) j = Some (t, Some c)"
          using wf_present_kid [OF Suc.prems(1) True] .
        obtain t1 c1 where moo: "moo ctl (t, Some c) tick = Some (t1, Some c1)" and wf1: "wf_node m c1"
          using no_throw_moo [OF assms(1), of t c tick] wfc copy_node_wf
          by (cases rule: moo_cases [OF refl, where ctl = ctl and t = t and c = c and tick = tick]) auto
        obtain c' r' where acc: "access_node ctl m c1 p tick f = (c', r')"
          by (cases "access_node ctl m c1 p tick f")
        have "r' = r" using step by (simp add: True cell moo acc)
        then show ?thesis using Suc.IH [OF wf1 m acc] by simp
      next
        case pr: False
        have jc: "j < capacity n" unfolding j_def using ko by (intro slot_capacity) simp
        obtain cells1 where ins: "constructItem (cnt (present n) j)
            (cnt (present n) (capacity n) - cnt (present n) j) empty_item (cells_of n) = Some cells1"
          using insert_child [OF conjunct2 [OF ko] conjunct1 [OF ko] pr jc] by metis
        obtain c where c: "init_node ctl m (child_coord m n p) = Some c"
          using no_throw_init [OF assms(1)] by fastforce
        obtain c' r' where acc: "access_node ctl m c p tick f = (c', r')"
          by (cases "access_node ctl m c p tick f")
        have "r' = r" using step by (simp add: pr ins c acc)
        then show ?thesis using Suc.IH [OF init_node_fresh(1) [OF c m] m acc] by simp
      qed
    qed
  qed
  with nu show ?thesis by (cases r) auto
qed

section \<open>The tree\<close>

definition wf_tree :: "'u storage_tree \<Rightarrow> bool" where
  "wf_tree tree \<longleftrightarrow> length tree = NUM_ROOT_ITEMS
     \<and> (\<forall>i<NUM_ROOT_ITEMS. \<forall>n. snd (tree ! i) = Some n \<longrightarrow> wf_node 6 n)"

text \<open>Two paths lead to one node, and mean the same key there.\<close>

definition same_place :: "u64 \<Rightarrow> u64 \<Rightarrow> bool" where
  "same_place p q \<longleftrightarrow> path_root p = path_root q \<and> same_node 6 p q"

definition same_key :: "u64 \<Rightarrow> u64 \<Rightarrow> bool" where
  "same_key p q \<longleftrightarrow> same_place p q \<and> same_bit 6 p q"

definition tree_current :: "'u storage_tree \<Rightarrow> u64 \<Rightarrow> tick \<Rightarrow> bool" where
  "tree_current tree p tick \<longleftrightarrow>
     (\<forall>n. snd (tree ! path_root p) = Some n \<longrightarrow> tick \<le> fst (tree ! path_root p) \<and> current 6 n p tick)"

definition tree_room :: "'u storage_tree \<Rightarrow> u64 \<Rightarrow> bool" where
  "tree_room tree p \<longleftrightarrow> (\<forall>n. snd (tree ! path_root p) = Some n \<longrightarrow> room 6 n p)"

lemma same_node_refl: "same_node m p p" by (induction m) auto
lemma same_bit_refl: "same_bit m p p" by (induction m) auto

lemma same_key_refl: "same_key p p"
  by (simp add: same_key_def same_place_def same_node_refl same_bit_refl)

lemma wf_tree_new: "wf_tree new_tree"
  by (simp add: wf_tree_def new_tree_def)

lemma wf_tree_update:
  "wf_tree tree \<Longrightarrow> (\<And>n. no = Some n \<Longrightarrow> wf_node 6 n) \<Longrightarrow> wf_tree (tree[i := (t, no)])"
  by (cases "i < length tree") (auto simp: wf_tree_def nth_list_update split: if_splits)

definition tree_safe :: "'u control \<Rightarrow> 'u storage_tree \<Rightarrow> u64 \<Rightarrow> tick \<Rightarrow> u64 \<Rightarrow> bool" where
  "tree_safe ctl tree p tick q \<longleftrightarrow> tree_current tree p tick \<or> (to_chunk 6 q \<and> copies_chunks ctl)"

lemma access_effect_other: "\<not> same_node m p q \<Longrightarrow> access_effect b m p q r = b"
  by (simp add: access_effect_def split: outcome.splits)

lemma access_tree_effect:
  assumes wf: "wf_tree tree" and i: "path_root p < NUM_ROOT_ITEMS"
    and acc: "access ctl tree p tick f = (tree', r)"
  shows "wf_tree tree' \<and> r \<noteq> Undefined \<and>
    (tree_safe ctl tree p tick q \<longrightarrow>
      lookup tree' q = (if path_root p = path_root q then access_effect (lookup tree q) 6 p q r
                        else lookup tree q))"
proof -
  let ?i = "path_root p"
  have len: "length tree = NUM_ROOT_ITEMS" using wf by (simp add: wf_tree_def)
  have fin: "wf_tree tree' \<and> r \<noteq> Undefined \<and>
      (safe ctl 6 n p tick q \<and> ?i = path_root q \<longrightarrow> lookup tree' q = access_effect (lookup_node 6 n q) 6 p q r)
      \<and> (?i \<noteq> path_root q \<longrightarrow> lookup tree' q = lookup tree q)"
    if n: "wf_node 6 n" and a: "access_node ctl 6 n p tick f = (n', r)" and t': "tree' = tree[?i := (t, Some n')]"
    for n n' t
    using access_node_effect [OF n _ a, of q] wf_tree_update [OF wf, of "Some n'" ?i t] len i
    by (auto simp: t' lookup_def Let_def nth_list_update)
  show ?thesis
  proof (cases "snd (tree ! ?i)")
    case None
    show ?thesis
    proof (cases "init_node ctl 6 (calcRootItemMinCoord ?i)")
      case no: None
      then have "tree' = tree" "r = Thrown" using acc None len i by (simp_all add: access_def Let_def)
      then show ?thesis using wf by (simp add: access_effect_def)
    next
      case (Some n)
      obtain n' r' where a: "access_node ctl 6 n p tick f = (n', r')" by (cases "access_node ctl 6 n p tick f")
      have tr: "tree' = tree[?i := (tick, Some n')]" "r' = r"
        using acc None len i Some a by (simp_all add: access_def Let_def)
      have fr: "wf_node 6 n" "safe ctl 6 n p tick q" "lookup_node 6 n q = None"
        using init_node_fresh [OF Some] by (simp_all add: safe_def)
      have "lookup tree q = None" if "?i = path_root q" using None that by (simp add: lookup_def Let_def)
      then show ?thesis using fin [OF fr(1) _ tr(1)] a tr(2) fr(2,3) by auto
    qed
  next
    case (Some n)
    obtain t where tn: "tree ! ?i = (t, Some n)" using Some by (metis prod.collapse)
    have wfn: "wf_node 6 n" using wf i Some by (simp add: wf_tree_def)
    have lq: "lookup tree q = lookup_node 6 n q" if "?i = path_root q"
      using that len i tn by (simp add: lookup_def Let_def)
    show ?thesis
    proof (cases rule: moo_cases [OF refl, where ctl = ctl and t = t and c = n and tick = tick])
      case 1
      obtain n' r' where a: "access_node ctl 6 n p tick f = (n', r')" by (cases "access_node ctl 6 n p tick f")
      have tr: "tree' = tree[?i := (t, Some n')]" "r' = r"
        using acc len i 1 a tn by (simp_all add: access_def Let_def)
      have "safe ctl 6 n p tick q" if "tree_safe ctl tree p tick q"
        using that Some by (auto simp: tree_safe_def safe_def tree_current_def)
      then show ?thesis using fin [OF wfn _ tr(1)] a tr(2) lq by auto
    next
      case 2
      then have "tree' = tree" "r = Thrown" using acc len i tn by (simp_all add: access_def Let_def)
      then show ?thesis using wf by (simp add: access_effect_def)
    next
      case (3 c)
      obtain n' r' where a: "access_node ctl 6 c p tick f = (n', r')" by (cases "access_node ctl 6 c p tick f")
      have tr: "tree' = tree[?i := (tick, Some n')]" "r' = r"
        using acc len i 3 a tn by (simp_all add: access_def Let_def)
      have "safe ctl 6 c p tick q \<and> lookup_node 6 c q = lookup_node 6 n q" if "tree_safe ctl tree p tick q"
        using that Some 3(1) tn copy_node_lookup [OF 3(3) wfn, of q]
        by (auto simp: tree_safe_def safe_def tree_current_def)
      then show ?thesis using fin [OF copy_node_wf [OF 3(3), THEN iffD2, OF wfn] a [unfolded tr(2)] tr(1)] lq by auto
    qed
  qed
qed

lemma remove_tree_effect:
  assumes wf: "wf_tree tree" and i: "path_root p < NUM_ROOT_ITEMS" and rm: "tree_room tree p"
    and rem: "remove ctl tree p tick = (tree', r)"
  shows "wf_tree tree' \<and> r \<noteq> Undefined \<and>
    (tree_safe ctl tree p tick q \<longrightarrow>
      lookup tree' q = (if path_root p = path_root q then remove_effect (lookup tree q) 6 p q r
                        else lookup tree q))"
proof -
  let ?i = "path_root p"
  have len: "length tree = NUM_ROOT_ITEMS" using wf by (simp add: wf_tree_def)
  show ?thesis
  proof (cases "snd (tree ! ?i)")
    case None
    then have "tree' = tree" "r = Done ()" using rem len i by (simp_all add: remove_def Let_def)
    moreover have "lookup tree q = None" if "?i = path_root q"
      using None that by (simp add: lookup_def Let_def)
    ultimately show ?thesis using wf by (simp add: remove_effect_def)
  next
    case (Some n)
    obtain t where tn: "tree ! ?i = (t, Some n)" using Some by (metis prod.collapse)
    have wfn: "wf_node 6 n" using wf i Some by (simp add: wf_tree_def)
    have rmn: "room 6 n p" using rm Some by (simp add: tree_room_def)
    have lq: "lookup tree q = lookup_node 6 n q" if "?i = path_root q"
      using that len i tn by (simp add: lookup_def Let_def)
    have fin: ?thesis
      if moo: "moo ctl (t, Some n) tick = Some (t1, Some c)" and wfc: "wf_node 6 c" and rmc: "room 6 c p"
        and sf: "tree_safe ctl tree p tick q \<Longrightarrow> safe ctl 6 c p tick q \<and> lookup_node 6 c q = lookup_node 6 n q"
      for t1 c
    proof -
      obtain c' r' where a: "remove_node ctl 6 c p tick = (c', r')" by (cases "remove_node ctl 6 c p tick")
      have eff: "wf_node 6 c' \<and> r' \<noteq> Undefined \<and> (safe ctl 6 c p tick q \<longrightarrow>
          lookup_node 6 c' q = remove_effect (lookup_node 6 c q) 6 p q r')"
        using remove_node_effect [OF wfc a rmc, of q] by simp
      have r: "r' = r" using rem len i tn moo a
        by (cases r') (simp_all add: remove_def Let_def)
      define no where "no = (if r = Done () \<and> node_empty c' then None else Some c')"
      have t': "tree' = tree[?i := (t1, no)]" using rem len i tn moo a r
        by (cases r) (simp_all add: remove_def Let_def no_def)
      have "wf_tree tree'" unfolding t' by (rule wf_tree_update [OF wf]) (use eff in \<open>auto simp: no_def split: if_splits\<close>)
      moreover have "lookup tree' q = (case no of None \<Rightarrow> None | Some x \<Rightarrow> lookup_node 6 x q)" if "?i = path_root q"
        using that len i by (simp add: t' lookup_def Let_def)
      moreover have "no = None \<Longrightarrow> lookup_node 6 c' q = None"
        using eff node_empty_lookup [of 5 c' q] by (auto simp: no_def split: if_splits)
      moreover have "lookup tree' q = lookup tree q" if "?i \<noteq> path_root q"
        using that by (simp add: t' lookup_def Let_def)
      ultimately show ?thesis using eff sf lq r
        by (cases no) (auto simp: no_def split: if_splits)
    qed
    show ?thesis
    proof (cases rule: moo_cases [OF refl, where ctl = ctl and t = t and c = n and tick = tick])
      case 1
      have "safe ctl 6 n p tick q" if "tree_safe ctl tree p tick q"
        using that Some by (auto simp: tree_safe_def safe_def tree_current_def)
      then show ?thesis using fin [OF 1(2) wfn rmn] by blast
    next
      case 2
      then have "tree' = tree" "r = Thrown" using rem len i tn by (simp_all add: remove_def Let_def)
      then show ?thesis using wf by (simp add: remove_effect_def)
    next
      case (3 c)
      have "safe ctl 6 c p tick q \<and> lookup_node 6 c q = lookup_node 6 n q" if "tree_safe ctl tree p tick q"
        using that Some 3(1) tn copy_node_lookup [OF 3(3) wfn, of q]
        by (auto simp: tree_safe_def safe_def tree_current_def)
      then show ?thesis
        using fin [OF 3(2) copy_node_wf [OF 3(3), THEN iffD2, OF wfn]] copy_node_room [OF 3(3), of 6 p] rmn by blast
    qed
  qed
qed

lemma access_tree_block:
  assumes wf: "wf_tree tree" and i: "path_root p < NUM_ROOT_ITEMS" and cur: "tree_current tree p tick"
    and acc: "access ctl tree p tick f = (tree', Done u)"
  shows "\<exists>b. u = f b \<and> (case lookup tree p of Some b' \<Rightarrow> b = b' | None \<Rightarrow> True)"
proof -
  let ?i = "path_root p"
  have len: "length tree = NUM_ROOT_ITEMS" using wf by (simp add: wf_tree_def)
  show ?thesis
  proof (cases "snd (tree ! ?i)")
    case None
    then obtain n where n: "init_node ctl 6 (calcRootItemMinCoord ?i) = Some n"
      using acc len i by (cases "init_node ctl 6 (calcRootItemMinCoord ?i)") (simp_all add: access_def Let_def)
    obtain n' r' where a: "access_node ctl 6 n p tick f = (n', r')" by (cases "access_node ctl 6 n p tick f")
    have "r' = Done u" using acc None len i n a by (simp add: access_def Let_def)
    then obtain b where "u = f b"
      using access_node_block [OF init_node_fresh(1) [OF n] _ init_node_fresh(2) [OF n],
          where ctl = ctl and p = p and tick = tick and f = f and n' = n' and u = u] a by auto
    moreover have "lookup tree p = None" using None by (simp add: lookup_def Let_def)
    ultimately show ?thesis by auto
  next
    case (Some n)
    obtain t where tn: "tree ! ?i = (t, Some n)" using Some by (metis prod.collapse)
    have wfn: "wf_node 6 n" using wf i Some by (simp add: wf_tree_def)
    have c: "tick \<le> t" "current 6 n p tick" using cur tn by (simp_all add: tree_current_def)
    then have moo: "moo ctl (t, Some n) tick = Some (t, Some n)" by (simp add: moo.simps)
    obtain n' r' where a: "access_node ctl 6 n p tick f = (n', r')" by (cases "access_node ctl 6 n p tick f")
    have "r' = Done u" using acc tn len i moo a by (simp add: access_def Let_def)
    then obtain b where b: "u = f b"
      "block_node 6 n p = Some b \<or> (block_node 6 n p = None \<and> default_block ctl b)"
      using access_node_block [OF wfn _ c(2), where ctl = ctl and f = f and n' = n' and u = u] a by auto
    have "lookup tree p = lookup_node 6 n p" using len i tn by (simp add: lookup_def Let_def)
    then have "b = b'" if "lookup tree p = Some b'" for b'
      using lookup_block [OF wfn, of p b'] b(2) that by auto
    with b(1) show ?thesis by (intro exI [of _ b]) (auto split: option.splits)
  qed
qed


text \<open>chunk data survives accesses at newer ticks: whatever is copied on the way, every key that
  ends in a chunk keeps its block, and the accessed chunk has the written one.\<close>

theorem access_chunk_lookup:
  assumes "wf_tree tree" and "path_root p < NUM_ROOT_ITEMS" and "copies_chunks ctl" and "to_chunk 6 q"
    and "access ctl tree p tick f = (tree', Done u)"
  shows "wf_tree tree'
    \<and> lookup tree' q = (if same_key p q then Some u
         else if same_place p q then (if lookup tree q = None then None else Some u)
         else lookup tree q)"
  using access_tree_effect [OF assms(1,2,5), of q] assms(3,4)
  by (auto simp: tree_safe_def access_effect_def same_key_def same_place_def)

text \<open>C3: an access whose constructors do not throw always returns a block, from any well-formed
  tree, at any tick.\<close>

theorem access_returns:
  assumes "wf_tree tree" and "path_root p < NUM_ROOT_ITEMS" and "no_throw ctl"
  shows "\<exists>tree' u. access ctl tree p tick f = (tree', Done u)"
proof -
  let ?i = "path_root p"
  obtain tree' r where acc: "access ctl tree p tick f = (tree', r)" by (cases "access ctl tree p tick f")
  have len: "length tree = NUM_ROOT_ITEMS" using assms(1) by (simp add: wf_tree_def)
  have go: "\<exists>u. r = Done u" if "wf_node 6 n" "\<exists>n'. access_node ctl 6 n p tick f = (n', r)" for n
    using access_node_no_throw [OF assms(3) that(1)] that(2) by auto
  have "\<exists>u. r = Done u"
  proof (cases "snd (tree ! ?i)")
    case None
    obtain n where n: "init_node ctl 6 (calcRootItemMinCoord ?i) = Some n"
      using no_throw_init [OF assms(3)] by fastforce
    show ?thesis
      using acc None len assms(2) n
      by (intro go [OF init_node_fresh(1) [OF n]])
        (auto simp: access_def Let_def split: prod.splits)
  next
    case (Some n)
    obtain t where tn: "tree ! ?i = (t, Some n)" using Some by (metis prod.collapse)
    have wfn: "wf_node 6 n" using assms(1,2) Some by (simp add: wf_tree_def)
    obtain t1 c where moo: "moo ctl (t, Some n) tick = Some (t1, Some c)" and wfc: "wf_node 6 c"
      using no_throw_moo [OF assms(3), of t n tick] wfn copy_node_wf
      by (cases rule: moo_cases [OF refl, where ctl = ctl and t = t and c = n and tick = tick]) auto
    show ?thesis
      using acc tn len assms(2) moo
      by (intro go [OF wfc]) (auto simp: access_def Let_def split: prod.splits)
  qed
  with acc show ?thesis by blast
qed



lemma no_throw_moo_obtain:
  assumes "no_throw ctl" "wf_node m c"
  obtains tn cn where "moo ctl (t, Some c) tick = Some (tn, Some cn)" "wf_node m cn"
    "\<And>p. room m cn p = room m c p"
proof (cases rule: moo_cases [OF refl, where ctl = ctl and t = t and c = c and tick = tick])
  case 1
  show ?thesis by (rule that [OF 1(2) assms(2) refl])
next
  case 2
  then show ?thesis using no_throw_moo [OF assms(1), of t c tick] by simp
next
  case (3 c')
  have "wf_node m c'" using copy_node_wf [OF 3(3), of m] assms(2) by simp
  then show ?thesis using copy_node_room [OF 3(3)] by (rule that [OF 3(2)])
qed

section \<open>Two defects of the code\<close>

text \<open>C6: \<open>remove\<close> passes \<open>removeItem\<close> a count that includes the removed child, so the closing loop
  touches one slot past the last child; in a node whose 64 slots are all taken that is memory
  outside the item storage.\<close>

theorem remove_from_full_node:
  assumes "wf_node 1 n" and "\<not> stop_at 1 p" and "cnt (present n) (capacity n) = capacity n"
    and "no_throw ctl"
  shows "snd (remove_node ctl 1 n p tick) = Undefined"
proof -
  note wf = assms(1) [unfolded One_nat_def]
  note ko = wf_kind [OF wf]
  define j where "j = slot (Suc 0) p"
  have jc: "j < capacity n" unfolding j_def using ko by (intro slot_capacity) simp
  have "present n j"
  proof (rule ccontr)
    assume np: "\<not> present n j"
    have "cnt ((present n)(j := True)) (capacity n) \<le> capacity n" by (rule cnt_le)
    then show False using cnt_insert [of "present n" j "capacity n", OF np] jc assms(3) by simp
  qed
  then obtain t c where kid: "kids n j = Some (t, Some c)" and wfc: "wf_node 0 c"
    and cell: "cells_of n ! cnt (present n) j = Some (t, Some c)" and pr: "present n j"
    using wf_present_kid [OF wf] by metis
  have "\<not> stops (Suc 0) n p" using assms(2) ko by (simp add: stops_iff)
  note step = remove_node_step [OF conjunct1 [OF ko] this, of ctl tick, unfolded Let_def, folded j_def]
  obtain t1 c1 where moo: "moo ctl (t, Some c) tick = Some (t1, Some c1)" and "wf_node 0 c1"
    using no_throw_moo_obtain [OF assms(4) wfc, of t tick] by metis
  then have e: "node_empty c1" "remove_node ctl 0 c1 p tick = (c1, Done ())"
    by (auto simp: remove_node_unfold)
  have "length (cells_of n) = capacity n"
  proof -
    obtain xs where "cells_of n = packed_cells (capacity n) xs" "length xs = cnt (present n) (capacity n)"
      using ko by (auto simp: packed_node_def)
    then show ?thesis using assms(3) by simp
  qed
  moreover have "cnt (present n) j \<le> capacity n" using cnt_le [of "present n" j] jc by simp
  ultimately have "removeItem (cnt (present n) j) (cnt (present n) (capacity n) - cnt (present n) j)
      ((cells_of n)[cnt (present n) j := Some (t1, None)]) = None"
    using assms(3) by (simp add: removeItem_def)
  then show ?thesis by (simp add: step pr cell moo e)
qed

lemma access_own_lookup:
  assumes "kind_ok (Suc m) n" "\<not> stop_at (Suc m) p"
  shows "own_lookup (Suc m) (fst (access_node ctl (Suc m) n p tick f)) q = own_lookup (Suc m) n q"
proof -
  have "\<not> stops (Suc m) n p" using assms by (simp add: stops_iff)
  from access_node_step [OF assms(1) this] show ?thesis
    by (auto simp: Let_def split: option.splits prod.splits)
qed

text \<open>C5: copying a duoctree node loses its live key mask: after an access at a newer tick that passes
  through a node, none of the node's own keys can be looked up, although nothing was removed.\<close>

theorem newer_access_forgets_keys:
  assumes "wf_node (Suc (Suc m)) n" and "m \<le> 4"
    and "kids n (slot (Suc (Suc m)) p) = Some (t, Some c)" and "t < tick"
    and "\<not> stop_at (Suc (Suc m)) p" and "\<not> stop_at (Suc m) p"
    and "\<not> stop_at (Suc (Suc m)) q" and "stop_at (Suc m) q"
    and "slot (Suc (Suc m)) q = slot (Suc (Suc m)) p"
    and "access_node ctl (Suc (Suc m)) n p tick f = (n', Done u)"
  shows "lookup_node (Suc (Suc m)) n' q = None"
proof -
  note wf = assms(1)
  note ko = wf_kind [OF wf]
  define j where "j = slot (Suc (Suc m)) p"
  have kid: "kids n j = Some (t, Some c)" using assms(3) by (simp add: j_def)
  then have pr: "present n j" and cell: "cells_of n ! cnt (present n) j = Some (t, Some c)"
    by (simp_all add: kids_def split: if_splits)
  have "\<not> stops (Suc (Suc m)) n p" using assms(5) ko by (simp add: stops_iff)
  note step = access_node_step [OF conjunct1 [OF ko] this, of ctl tick f, unfolded Let_def, folded j_def]
  obtain c1 where moo: "moo ctl (t, Some c) tick = Some (tick, Some c1)" and cp: "copy_node ctl c = Some c1"
  proof (cases rule: moo_cases [OF refl, where ctl = ctl and t = t and c = c and tick = tick])
    case 1
    then show ?thesis using assms(4) by simp
  next
    case 2
    then show ?thesis using step assms(10) by (simp add: pr cell)
  next
    case (3 c')
    then show ?thesis by (intro that [of c'])
  qed
  obtain c' r where acc: "access_node ctl (Suc m) c1 p tick f = (c', r)"
    by (cases "access_node ctl (Suc m) c1 p tick f")
  have n': "n' = with_cells n ((cells_of n)[cnt (present n) j := Some (tick, Some c')])"
    using step assms(10) by (simp add: pr cell moo acc)
  note rep = replace_child [OF conjunct2 [OF ko] conjunct1 [OF ko] pr, of "(tick, Some c')", folded n']
  have k': "kind_ok (Suc (Suc m)) n'" using ko by (simp add: n')
  obtain t2 c2 where "(t, Some c) = (t2, Some c2)" "wf_node (Suc m) c2" using wf_kid [OF wf kid] .
  then have wf1: "wf_node (Suc m) c1" using copy_node_wf [OF cp, of "Suc m"] by blast
  have m6: "Suc m \<le> 6" using assms(2) by simp
  have wf': "wf_node (Suc m) c'" using access_node_effect [OF wf1 m6 acc] by blast
  have k1: "kind_ok (Suc m) c1" using wf_kind [OF wf1] by blast
  have "own_lookup (Suc m) c' q = own_lookup (Suc m) c1 q"
    using access_own_lookup [OF k1 assms(6), of ctl tick f q] acc by simp
  also have "\<dots> = None" using cp by (cases c) auto
  finally have "lookup_node (Suc m) c' q = None"
    using lookup_node_kids [OF conjunct1 [OF wf_kind [OF wf']], of q] assms(8) by simp
  moreover have "kids n' (slot (Suc (Suc m)) q) = Some (tick, Some c')"
    using rep(2) assms(9) by (simp add: j_def)
  ultimately show ?thesis using lookup_node_kids [OF k', of q] assms(7) by simp
qed

text \<open>Removal returns when constructors do not throw and there is room.\<close>

lemma remove_node_no_throw:
  assumes "no_throw ctl" "wf_node m n" "room m n p" "remove_node ctl m n p tick = (n', r)"
  shows "r = Done ()"
proof -
  have nu: "r \<noteq> Undefined" using remove_node_effect [OF assms(2,4,3)] by blast
  have "r \<noteq> Thrown" using assms(2-4)
  proof (induction m arbitrary: n n' r)
    case 0
    then show ?case by (auto simp: remove_node_unfold)
  next
    case (Suc m)
    note ko = wf_kind [OF Suc.prems(1)]
    define j where "j = slot (Suc m) p"
    show ?case
    proof (cases "stop_at (Suc m) p")
      case True
      then have "stops (Suc m) n p" using ko by (simp add: stops_iff)
      then show ?thesis using remove_node_stop [of m n p ctl tick] Suc.prems(3) by (cases n) auto
    next
      case ns: False
      then have "\<not> stops (Suc m) n p" using ko by (simp add: stops_iff)
      note step = remove_node_step [OF conjunct1 [OF ko] this, of ctl tick, unfolded Let_def,
          folded j_def, unfolded Suc.prems(3)]
      show ?thesis
      proof (cases "present n j")
        case True
        obtain t c where kid: "kids n j = Some (t, Some c)" and wfc: "wf_node m c"
          and cell: "cells_of n ! cnt (present n) j = Some (t, Some c)"
          using wf_present_kid [OF Suc.prems(1) True] .
        have rmc: "room m c p" using Suc.prems(2) ns True kid by (auto simp: j_def)
        obtain t1 c1 where moo: "moo ctl (t, Some c) tick = Some (t1, Some c1)" and wf1: "wf_node m c1"
            and rm1: "room m c1 p"
          using no_throw_moo_obtain [OF assms(1) wfc, of t tick] rmc by metis
        obtain c' r' where rem: "remove_node ctl m c1 p tick = (c', r')"
          by (cases "remove_node ctl m c1 p tick")
        have "r' = r \<or> r \<noteq> Thrown" using step
          by (cases r') (auto simp: True cell moo rem split: option.splits if_splits)
        then show ?thesis using Suc.IH [OF wf1 rm1 rem] by auto
      qed (use step in simp)
    qed
  qed
  with nu show ?thesis by (cases r) auto
qed

lemma remove_tree_returns:
  assumes "wf_tree tree" "path_root p < NUM_ROOT_ITEMS" "tree_room tree p" "no_throw ctl"
  obtains tree' where "remove ctl tree p tick = (tree', Done ())"
proof -
  let ?i = "path_root p"
  have len: "?i < length tree" using assms(1,2) by (simp add: wf_tree_def)
  show ?thesis
  proof (cases "snd (tree ! ?i)")
    case None
    then show ?thesis using len by (intro that [of tree]) (simp add: remove_def Let_def)
  next
    case (Some n)
    obtain t where tn: "tree ! ?i = (t, Some n)" using Some by (metis prod.collapse)
    have wfn: "wf_node 6 n" using assms(1,2) Some by (simp add: wf_tree_def)
    obtain t1 c where moo: "moo ctl (t, Some n) tick = Some (t1, Some c)" and wfc: "wf_node 6 c"
      and rm: "room 6 c p"
      using no_throw_moo_obtain [OF assms(4) wfn, of t tick] assms(3) Some by (metis tree_room_def)
    obtain c' r where a: "remove_node ctl 6 c p tick = (c', r)" by (cases "remove_node ctl 6 c p tick")
    have "r = Done ()" by (rule remove_node_no_throw [OF assms(4) wfc rm a])
    then show ?thesis using len moo a tn
      by (intro that [of "tree[?i := (t1, if node_empty c' then None else Some c')]"])
        (simp add: remove_def Let_def)
  qed
qed

section \<open>Concrete instances\<close>

text \<open>A control with integer blocks, the paths of the chunk and of the key above it at the first
  corner of root item 0, and a tree that holds just that chunk and that key.\<close>

definition demo_ctl :: "int control" where
  "demo_ctl = \<lparr>chunk_default_ctor = (\<lambda>k. Some 0), chunk_copy_ctor = (\<lambda>k u. Some u),
     duoctree_default_ctor = (\<lambda>k. Some 0), duoctree_copy_ctor = (\<lambda>k u. Some u)\<rparr>"

definition demo_chunk :: u64 where "demo_chunk = 0x80"
definition demo_duo :: u64 where "demo_duo = 0x8000"
definition demo_key :: chunk_key where "demo_key = mk_key 0 0 0 0"

lemma demo_no_throw: "no_throw demo_ctl" and demo_copies: "copies_chunks demo_ctl"
  by (simp_all add: no_throw_def copies_chunks_def demo_ctl_def)

fun demo_node :: "u32 \<Rightarrow> nat \<Rightarrow> int node" where
  "demo_node live 0 = Chunk_Node demo_key 7"
| "demo_node live (Suc m) =
     (if m < 4 then Duo_Node demo_key (if m = 0 then live else 0) (onebit 0)
          (packed_cells 64 [(1, Some (demo_node live m))]) 9
      else Tri_Node (m = 4) 0 0 (onebit 0) 0
          (packed_cells (if m = 4 then 128 else 64) [(1, Some (demo_node live m))]))"

definition demo_tree :: "int storage_tree" where
  "demo_tree = new_tree[0 := (1, Some (demo_node 256 6))]"

lemma demo_comp:
  "m < 7 \<Longrightarrow> comp_of (Suc m) demo_chunk = 0"
  "m < 6 \<Longrightarrow> comp_of (Suc (Suc m)) demo_duo = 0"
  "comp_of 1 demo_duo = 128"
proof -
  have z: "drop_bit 8 demo_chunk = 0" "drop_bit 16 demo_duo = 0"
    by (simp_all add: demo_chunk_def demo_duo_def)
  have "drop_bit (8 + k) demo_chunk = 0" "drop_bit (16 + k) demo_duo = 0" for k
    unfolding add.commute [of _ k] drop_bit_drop_bit [symmetric] z by simp_all
  then show "m < 7 \<Longrightarrow> comp_of (Suc m) demo_chunk = 0" "m < 6 \<Longrightarrow> comp_of (Suc (Suc m)) demo_duo = 0"
    by (simp_all add: extractNodePathComponent_def bextr_def)
  show "comp_of 1 demo_duo = 128"
    by (simp add: extractNodePathComponent_def bextr_def demo_duo_def)
qed

lemma demo_slot:
  "m < 7 \<Longrightarrow> slot (Suc m) demo_chunk = 0" "m < 7 \<Longrightarrow> \<not> stop_at (Suc m) demo_chunk"
  "m < 6 \<Longrightarrow> slot (Suc (Suc m)) demo_duo = 0" "m < 6 \<Longrightarrow> \<not> stop_at (Suc (Suc m)) demo_duo"
  "stop_at (Suc 0) demo_duo"
  using demo_comp(3)
  by (simp_all add: slot_def stop_at_def demo_comp triquadtreeYNegative_def extractNodePathStopBit_def)

lemma demo_kind: "m < 6 \<Longrightarrow> kind_ok (Suc m) (demo_node live (Suc m))"
  by auto

lemma demo_present: "present (demo_node live (Suc m)) j \<longleftrightarrow> j = 0"
  by (auto simp: bit_onebit)

lemma cnt_only_0: "(\<And>j. P j \<longleftrightarrow> j = (0 :: nat)) \<Longrightarrow> 0 < k \<Longrightarrow> cnt P k = 1"
  by (induction k) (auto simp: cnt_Suc)

lemma demo_shape:
  assumes "m < 6"
  shows "packed_node (demo_node live (Suc m))"
    and "kids (demo_node live (Suc m)) = [0 \<mapsto> (1, Some (demo_node live m))]"
    and "cnt (present (demo_node live (Suc m))) (capacity (demo_node live (Suc m))) = 1"
    and "1 < capacity (demo_node live (Suc m))"
proof -
  let ?n = "demo_node live (Suc m)"
  show cap: "1 < capacity ?n" by auto
  show c: "cnt (present ?n) (capacity ?n) = 1"
    using cap by (intro cnt_only_0 demo_present) simp
  have cells: "cells_of ?n = packed_cells (capacity ?n) [(1, Some (demo_node live m))]" by auto
  note p = packed_nodeI [OF cells]
  show "packed_node ?n" using p(1) c by simp
  have "kids ?n = child_at (present ?n) [(1, Some (demo_node live m))]" using p(2) c by simp
  then show "kids ?n = [0 \<mapsto> (1, Some (demo_node live m))]"
    by (auto simp: fun_eq_iff child_at_def demo_present simp del: demo_node.simps)
qed

lemma demo_node_ok:
  "m \<le> 6 \<Longrightarrow> wf_node m (demo_node live m) \<and> current m (demo_node live m) demo_chunk 1
     \<and> room m (demo_node live m) demo_chunk \<and> lookup_node m (demo_node live m) demo_chunk = Some 7"
proof (induction m)
  case 0
  then show ?case by (simp add: lookup_node_unfold)
next
  case (Suc m)
  then have m: "m < 6" "m < 7" by simp_all
  show ?case
    using Suc m demo_shape [OF m(1), of live] demo_kind [OF m(1), of live]
    by (simp add: demo_slot lookup_node_kids del: demo_node.simps kind_ok.simps present.simps capacity.simps)
qed

lemma demo_tree_ok:
  "wf_tree demo_tree" "tree_current demo_tree demo_chunk 1" "tree_room demo_tree demo_chunk"
  "lookup demo_tree demo_chunk = Some 7" "path_root demo_chunk < NUM_ROOT_ITEMS"
proof -
  have r: "path_root demo_chunk = 0" by (simp add: path_root_def demo_chunk_def)
  have N: "0 < NUM_ROOT_ITEMS" by (simp add: NUM_ROOT_ITEMS_def land_consts)
  then show "path_root demo_chunk < NUM_ROOT_ITEMS" by (simp add: r)
  have hd: "demo_tree ! 0 = (1, Some (demo_node 256 6))" "length demo_tree = NUM_ROOT_ITEMS"
    using N by (simp_all add: demo_tree_def new_tree_def)
  note ok = demo_node_ok [of 6 256, OF order_refl]
  show "wf_tree demo_tree"
    unfolding demo_tree_def by (rule wf_tree_update [OF wf_tree_new]) (use ok in blast)
  show "tree_current demo_tree demo_chunk 1" "tree_room demo_tree demo_chunk"
    "lookup demo_tree demo_chunk = Some 7"
    using ok hd N by (simp_all add: tree_current_def tree_room_def lookup_def Let_def r
        del: demo_node.simps current.simps room.simps)
qed


theorem access_chunk_lookup_witness:
  "\<exists>tree' u. access demo_ctl demo_tree demo_chunk 2 (\<lambda>x. x + 5) = (tree', Done u)
     \<and> lookup tree' demo_chunk = Some u"
proof -
  obtain tree' u where a: "access demo_ctl demo_tree demo_chunk 2 (\<lambda>x. x + 5) = (tree', Done u)"
    using access_returns [OF demo_tree_ok(1,5) demo_no_throw] by blast
  have "to_chunk 6 demo_chunk"
    by (simp add: eval_nat_numeral demo_slot)
  from access_chunk_lookup [OF demo_tree_ok(1,5) demo_copies this a] a show ?thesis
    by (auto simp: same_key_refl)
qed

theorem access_returns_witness:
  "\<exists>tree' u. access demo_ctl demo_tree demo_duo 3 (\<lambda>x. x - 1) = (tree', Done u)"
proof (rule access_returns [OF demo_tree_ok(1) _ demo_no_throw])
  show "path_root demo_duo < NUM_ROOT_ITEMS"
    by (simp add: path_root_def demo_duo_def NUM_ROOT_ITEMS_def land_consts)
qed

definition throwing_ctl :: "int control" where
  "throwing_ctl = demo_ctl\<lparr>chunk_default_ctor := (\<lambda>k. None), duoctree_default_ctor := (\<lambda>k. None)\<rparr>"



text \<open>All 64 chunks of an X4 node.\<close>

definition full_node :: "int node" where
  "full_node = Duo_Node demo_key 0 (- 1) (packed_cells 64 (replicate 64 (1, Some (Chunk_Node demo_key 7)))) 9"

theorem remove_from_full_node_witness:
  "snd (remove_node demo_ctl 1 full_node demo_chunk 1) = Undefined"
proof (rule remove_from_full_node)
  have pc: "popcount (- 1 :: u64) = 64" by (simp add: popcount_def)
  have c: "cnt (present full_node) (capacity full_node) = capacity full_node"
    unfolding full_node_def capacity.simps cnt_total pc ..
  then show "cnt (present full_node) (capacity full_node) = capacity full_node" .
  have cells: "cells_of full_node = packed_cells (capacity full_node) (replicate 64 (1, Some (Chunk_Node demo_key 7)))"
    by (simp add: full_node_def)
  have len: "length (replicate 64 (1 :: int, Some (Chunk_Node demo_key (7 :: int)))) = cnt (present full_node) (capacity full_node)"
    using c by (simp add: full_node_def)
  have "snd it = Some (Chunk_Node demo_key 7)" if "kids full_node j = Some it" for j it
  proof -
    have pj: "present full_node j" using that by (simp add: kids_def split: if_splits)
    have "cnt (present full_node) j < 64"
      using cnt_less [of "present full_node" j "capacity full_node", OF pj present_less [OF pj]] c
      by (simp add: full_node_def)
    then show ?thesis using that packed_nodeI(2) [OF cells len] pj
      by (auto simp: child_at_def)
  qed
  then show "wf_node 1 full_node"
    using packed_nodeI(1) [OF cells len] by (simp add: full_node_def)
  show "\<not> stop_at 1 demo_chunk" using demo_slot(2) [of 0] by simp
  show "no_throw demo_ctl" by (rule demo_no_throw)
qed

theorem newer_access_forgets_keys_witness:
  "\<exists>n' u. access_node demo_ctl 2 (demo_node 256 2) demo_chunk 2 id = (n', Done u)
     \<and> lookup_node 2 (demo_node 256 2) demo_duo = Some 9 \<and> lookup_node 2 n' demo_duo = None"
proof -
  have two: "2 = Suc (Suc 0)" by simp
  have sh1: "kids (demo_node 256 (Suc (Suc 0))) = [0 \<mapsto> (1, Some (demo_node 256 (Suc 0)))]"
    by (rule demo_shape(2)) simp
  have wf: "wf_node (Suc (Suc 0)) (demo_node 256 (Suc (Suc 0)))"
    using demo_node_ok [of "Suc (Suc 0)" 256] by (simp del: demo_node.simps wf_node.simps)
  obtain n' u where acc: "access_node demo_ctl (Suc (Suc 0)) (demo_node 256 (Suc (Suc 0))) demo_chunk 2 id = (n', Done u)"
    using access_node_no_throw [OF demo_no_throw wf, of demo_chunk 2 id]
    by (cases "access_node demo_ctl (Suc (Suc 0)) (demo_node 256 (Suc (Suc 0))) demo_chunk 2 id") auto
  have sl: "slot (Suc (Suc 0)) demo_chunk = 0" "slot (Suc (Suc 0)) demo_duo = 0" 
    "\<not> stop_at (Suc (Suc 0)) demo_chunk" "\<not> stop_at (Suc 0) demo_chunk"
    "\<not> stop_at (Suc (Suc 0)) demo_duo" "stop_at (Suc 0) demo_duo"
    using demo_slot(1,2) [of "Suc 0"] demo_slot(2) [of 0] demo_slot(3,4) [of 0] demo_slot(5) by simp_all
  have "lookup_node (Suc (Suc 0)) n' demo_duo = None"
    by (rule newer_access_forgets_keys [OF wf _ _ _ sl(3,4,5,6) _ acc, where t = 1 and c = "demo_node 256 (Suc 0)"])
      (simp_all add: sl sh1 del: demo_node.simps)
  moreover have "lookup_node (Suc (Suc 0)) (demo_node 256 (Suc (Suc 0))) demo_duo = Some 9"
  proof -
    have "own_lookup (Suc 0) (demo_node 256 (Suc 0)) demo_duo = Some 9"
      using demo_comp(3) by (simp add: extractNodeKeyMaskBit_def)
    then show ?thesis
      using lookup_node_kids [OF demo_kind, of "Suc 0" 256 demo_duo] lookup_node_kids [OF demo_kind, of 0 256 demo_duo]
      by (simp add: sl sh1 del: demo_node.simps)
  qed
  ultimately show ?thesis unfolding two using acc by blast
qed

end
