(* ===== verification/Bitset.thy ===== *)
theory Bitset
  imports Prelude
begin

text \<open>
  \<open>extras::bitset<N>\<close> (include/extras/bitset.hpp): \<open>N\<close> bits in 64-bit integers, with the padding
  bits of the last integer kept zero, used as a free list. \<open>SIZE_MAX\<close> is \<open>None\<close>. The interface
  the pools rely on is the locale \<open>slot_allocator\<close>; the bitset is its instance.
\<close>

section \<open>Definitions\<close>

type_synonym bitset = "u64 list"

definition NUM_INTS :: "nat \<Rightarrow> nat" where "NUM_INTS N = (N + 63) div 64"
definition ALL_BITS_USED :: "nat \<Rightarrow> bool" where "ALL_BITS_USED N \<longleftrightarrow> N mod 64 = 0"
definition LAST_USED_BITS :: "nat \<Rightarrow> nat" where "LAST_USED_BITS N = N mod 64"

text \<open>\<open>std::countr_one\<close>: the number of consecutive one bits from the lowest.\<close>

definition countr_one :: "u64 \<Rightarrow> nat" where
  "countr_one w = length (takeWhile (bit w) [0..<64])"

definition bs_test :: "bitset \<Rightarrow> nat \<Rightarrow> bool" where
  "bs_test d pos \<longleftrightarrow> d ! (pos div 64) AND onebit (pos mod 64) \<noteq> 0"

definition bs_set :: "bitset \<Rightarrow> nat \<Rightarrow> bitset" where
  "bs_set d pos = d[pos div 64 := d ! (pos div 64) OR onebit (pos mod 64)]"

definition bs_set_all :: "nat \<Rightarrow> bitset" where
  "bs_set_all N =
     (if ALL_BITS_USED N then replicate (NUM_INTS N) (- 1)
      else replicate (NUM_INTS N - 1) (- 1) @ [onebit (LAST_USED_BITS N) - 1])"

definition bs_clear :: "bitset \<Rightarrow> nat \<Rightarrow> bitset" where
  "bs_clear d pos = d[pos div 64 := d ! (pos div 64) AND NOT (onebit (pos mod 64))]"

definition bs_clear_all :: "nat \<Rightarrow> bitset" where
  "bs_clear_all N = replicate (NUM_INTS N) 0"

definition bs_popcount :: "bitset \<Rightarrow> nat" where
  "bs_popcount d = sum_list (map popcount d)"

text \<open>The loop over the integers without padding.\<close>

fun zero_loop :: "bitset \<Rightarrow> nat \<Rightarrow> nat \<Rightarrow> nat option" where
  "zero_loop d i 0 = None"
| "zero_loop d i (Suc n) =
     (let cnt = countr_one (d ! i)
      in if cnt < 64 then Some (i * 64 + cnt) else zero_loop d (Suc i) n)"

definition first_zero :: "nat \<Rightarrow> bitset \<Rightarrow> nat option" where
  "first_zero N d =
     (let limit = (if ALL_BITS_USED N then NUM_INTS N else NUM_INTS N - 1)
      in case zero_loop d 0 limit of
           Some pos \<Rightarrow> Some pos
         | None \<Rightarrow>
             if \<not> ALL_BITS_USED N then
               let cnt = countr_one (d ! (NUM_INTS N - 1))
               in if cnt < LAST_USED_BITS N then Some ((NUM_INTS N - 1) * 64 + cnt) else None
             else None)"

text \<open>The same search, writing the bit where it is found.\<close>

fun occupy_loop :: "bitset \<Rightarrow> nat \<Rightarrow> nat \<Rightarrow> (nat \<times> bitset) option" where
  "occupy_loop d i 0 = None"
| "occupy_loop d i (Suc n) =
     (let cnt = countr_one (d ! i)
      in if cnt < 64 then Some (i * 64 + cnt, d[i := d ! i OR onebit cnt])
         else occupy_loop d (Suc i) n)"

definition occupy_zero :: "nat \<Rightarrow> bitset \<Rightarrow> nat option \<times> bitset" where
  "occupy_zero N d =
     (let limit = (if ALL_BITS_USED N then NUM_INTS N else NUM_INTS N - 1)
      in case occupy_loop d 0 limit of
           Some (pos, d') \<Rightarrow> (Some pos, d')
         | None \<Rightarrow>
             if \<not> ALL_BITS_USED N then
               let cnt = countr_one (d ! (NUM_INTS N - 1))
               in if cnt < LAST_USED_BITS N
                  then (Some ((NUM_INTS N - 1) * 64 + cnt),
                        d[NUM_INTS N - 1 := d ! (NUM_INTS N - 1) OR onebit cnt])
                  else (None, d)
             else (None, d))"

section \<open>The bits as a set\<close>

definition bs_bits :: "bitset \<Rightarrow> nat \<Rightarrow> bool" where
  "bs_bits d pos \<longleftrightarrow> pos div 64 < length d \<and> bit (d ! (pos div 64)) (pos mod 64)"

definition bs_ok :: "nat \<Rightarrow> bitset \<Rightarrow> bool" where
  "bs_ok N d \<longleftrightarrow> length d = NUM_INTS N \<and> (\<forall>pos. bs_bits d pos \<longrightarrow> pos < N)"

definition bs_elems :: "bitset \<Rightarrow> nat set" where
  "bs_elems d = Collect (bs_bits d)"

lemma NUM_INTS_bounds: "pos < N \<Longrightarrow> pos div 64 < NUM_INTS N"
  by (simp add: NUM_INTS_def div_less_iff_less_mult)

lemma bs_test_iff: "pos div 64 < length d \<Longrightarrow> bs_test d pos = bs_bits d pos"
  by (simp add: bs_test_def bs_bits_def and_onebit_zero)

lemma bs_bits_set:
  "pos div 64 < length d \<Longrightarrow> bs_bits (bs_set d pos) = (bs_bits d)(pos := True)"
proof
  fix q assume p: "pos div 64 < length d"
  have "q div 64 = pos div 64 \<and> q mod 64 = pos mod 64 \<longleftrightarrow> q = pos" by (metis div_mult_mod_eq)
  then show "bs_bits (bs_set d pos) q = ((bs_bits d)(pos := True)) q"
    using p by (auto simp: bs_bits_def bs_set_def nth_list_update bit_or_iff bit_onebit)
qed

lemma bs_bits_clear:
  "pos div 64 < length d \<Longrightarrow> bs_bits (bs_clear d pos) = (bs_bits d)(pos := False)"
proof
  fix q assume p: "pos div 64 < length d"
  have "q div 64 = pos div 64 \<and> q mod 64 = pos mod 64 \<longleftrightarrow> q = pos" by (metis div_mult_mod_eq)
  then show "bs_bits (bs_clear d pos) q = ((bs_bits d)(pos := False)) q"
    using p by (auto simp: bs_bits_def bs_clear_def nth_list_update and_not_onebit)
qed

lemma countr_one_spec:
  "countr_one w \<le> 64" "j < countr_one w \<Longrightarrow> bit w j" "countr_one w < 64 \<Longrightarrow> \<not> bit w (countr_one w)"
proof -
  have le: "length (takeWhile (bit w) [0..<64]) \<le> 64"
    using length_takeWhile_le [of "bit w" "[0..<64]"] by simp
  then show "countr_one w \<le> 64" by (simp add: countr_one_def)
  show "bit w j" if "j < countr_one w"
  proof -
    have "takeWhile (bit w) [0..<64] ! j = [0..<64] ! j"
      using that by (intro takeWhile_nth) (simp add: countr_one_def)
    moreover have "bit w (takeWhile (bit w) [0..<64] ! j)"
      using that nth_mem [of j "takeWhile (bit w) [0..<64]"] set_takeWhileD
      by (fastforce simp: countr_one_def)
    moreover have "j < 64" using that le by (simp add: countr_one_def)
    ultimately show ?thesis by simp
  qed
  show "\<not> bit w (countr_one w)" if "countr_one w < 64"
    using nth_length_takeWhile [of "bit w" "[0..<64]"] that by (simp add: countr_one_def)
qed

lemma zero_loop_spec:
  "i + n \<le> length d \<Longrightarrow>
     case zero_loop d i n of
       None \<Rightarrow> \<forall>q. i * 64 \<le> q \<and> q < (i + n) * 64 \<longrightarrow> bs_bits d q
     | Some pos \<Rightarrow> i * 64 \<le> pos \<and> pos < (i + n) * 64 \<and> \<not> bs_bits d pos
         \<and> (\<forall>q. i * 64 \<le> q \<and> q < pos \<longrightarrow> bs_bits d q)"
proof (induction n arbitrary: i)
  case (Suc n)
  let ?c = "countr_one (d ! i)"
  have row: "bs_bits d (i * 64 + k) = bit (d ! i) k" if "k < 64" for k
    using that Suc.prems by (simp add: bs_bits_def)
  show ?case
  proof (cases "?c < 64")
    case True
    have "bs_bits d q" if "i * 64 \<le> q" "q < i * 64 + ?c" for q
      using row [of "q - i * 64"] countr_one_spec(2) [of "q - i * 64" "d ! i"] that True by simp
    then show ?thesis using True row [OF True] countr_one_spec(3) [OF True] by (simp add: Let_def)
  next
    case False
    then have c: "?c = 64" using countr_one_spec(1) [of "d ! i"] by simp
    have r: "bs_bits d q" if "i * 64 \<le> q" "q < Suc i * 64" for q
      using row [of "q - i * 64"] countr_one_spec(2) [of "q - i * 64" "d ! i"] that c by simp
    have "case zero_loop d (Suc i) n of
        None \<Rightarrow> \<forall>q. Suc i * 64 \<le> q \<and> q < (Suc i + n) * 64 \<longrightarrow> bs_bits d q
      | Some pos \<Rightarrow> Suc i * 64 \<le> pos \<and> pos < (Suc i + n) * 64 \<and> \<not> bs_bits d pos
         \<and> (\<forall>q. Suc i * 64 \<le> q \<and> q < pos \<longrightarrow> bs_bits d q)"
      using Suc.prems by (intro Suc.IH) simp
    then show ?thesis using c r
      by (auto simp: Let_def split: option.splits) (meson not_le_imp_less)+
  qed
qed auto

lemma occupy_loop_zero:
  "occupy_loop d i n = map_option (\<lambda>pos. (pos, bs_set d pos)) (zero_loop d i n)"
proof (induction n arbitrary: i)
  case (Suc n)
  have "countr_one (d ! i) < 64 \<Longrightarrow>
    (i * 64 + countr_one (d ! i)) div 64 = i \<and> (i * 64 + countr_one (d ! i)) mod 64 = countr_one (d ! i)"
    by simp
  then show ?case using Suc by (simp add: Let_def bs_set_def)
qed simp

lemma occupy_zero_first:
  "occupy_zero N d = (first_zero N d, case first_zero N d of None \<Rightarrow> d | Some pos \<Rightarrow> bs_set d pos)"
proof -
  have "((NUM_INTS N - 1) * 64 + c) div 64 = NUM_INTS N - 1 \<and> ((NUM_INTS N - 1) * 64 + c) mod 64 = c"
    if "c < N mod 64" for c using that by simp
  then show ?thesis
    by (auto simp: occupy_zero_def first_zero_def Let_def occupy_loop_zero bs_set_def LAST_USED_BITS_def
        split: option.splits)
qed

lemma NUM_INTS_partial: "N mod 64 \<noteq> 0 \<Longrightarrow> NUM_INTS N = Suc (N div 64)"
proof -
  assume "N mod 64 \<noteq> 0"
  define q r where "q = N div 64" and "r = N mod 64"
  have N: "N = r + q * 64" by (simp add: q_def r_def)
  have r: "0 < r" "r < 64" using \<open>N mod 64 \<noteq> 0\<close> by (simp_all add: r_def)
  have "(N + 63) div 64 = ((r + 63) + q * 64) div 64" by (simp add: N)
  also have "\<dots> = q + (r + 63) div 64" by (rule div_mult_self1) simp
  also have "(r + 63) div 64 = 1" using r by (simp add: div_nat_eqI)
  finally show ?thesis by (simp add: NUM_INTS_def q_def)
qed

lemma first_zero_spec:
  assumes "bs_ok N d"
  shows "case first_zero N d of
      None \<Rightarrow> \<forall>q<N. bs_bits d q
    | Some pos \<Rightarrow> pos < N \<and> \<not> bs_bits d pos \<and> (\<forall>q<pos. bs_bits d q)"
proof -
  have len: "length d = NUM_INTS N" using assms by (simp add: bs_ok_def)
  show ?thesis
  proof (cases "ALL_BITS_USED N")
    case True
    then have N: "NUM_INTS N * 64 = N" by (auto simp: ALL_BITS_USED_def NUM_INTS_def)
    show ?thesis
      using zero_loop_spec [of 0 "NUM_INTS N" d] len True
      by (cases "zero_loop d 0 (NUM_INTS N)") (simp_all add: first_zero_def Let_def N)
  next
    case False
    define k where "k = NUM_INTS N - 1"
    have r: "0 < N mod 64" "N mod 64 < 64" using False by (auto simp: ALL_BITS_USED_def)
    then have n: "NUM_INTS N = Suc (N div 64)" by (intro NUM_INTS_partial) simp
    then have K: "NUM_INTS N = Suc k" by (simp add: k_def)
    define r where "r = N mod 64"
    have N: "N = k * 64 + r" using n by (simp add: k_def r_def)
    have r0: "0 < r" "r < 64" using r by (simp_all add: r_def)
    have row: "bs_bits d (k * 64 + j) = bit (d ! k) j" if "j < 64" for j
      using that K len by (simp add: bs_bits_def)
    have loop: "case zero_loop d 0 k of
        None \<Rightarrow> \<forall>q<k * 64. bs_bits d q
      | Some pos \<Rightarrow> pos < k * 64 \<and> \<not> bs_bits d pos \<and> (\<forall>q<pos. bs_bits d q)"
      using zero_loop_spec [of 0 k d] K len by (cases "zero_loop d 0 k") simp_all
    show ?thesis
    proof (cases "zero_loop d 0 k")
      case (Some pos)
      then have "first_zero N d = Some pos" using False by (simp add: first_zero_def Let_def k_def)
      then show ?thesis using loop Some N by simp
    next
      case None
      define c where "c = countr_one (d ! k)"
      have below: "bs_bits d q" if "q < k * 64" for q using loop None that by simp
      have ones: "bs_bits d (k * 64 + j)" if "j < c" for j
        using row [of j] countr_one_spec(1) [of "d ! k"] countr_one_spec(2) [of j "d ! k"] that
        by (simp add: c_def)
      have fz: "first_zero N d = (if c < r then Some (k * 64 + c) else None)"
        using None False by (simp add: first_zero_def Let_def k_def LAST_USED_BITS_def r_def c_def)
      have all: "bs_bits d q" if "q < k * 64 + c" for q
        using below [of q] ones [of "q - k * 64"] that by (cases "q < k * 64") auto
      show ?thesis
      proof (cases "c < r")
        case True
        then have "\<not> bs_bits d (k * 64 + c)"
          using row [of c] countr_one_spec(3) [of "d ! k"] r0 by (simp add: c_def)
        moreover have "k * 64 + c < N" using True N by simp
        ultimately show ?thesis using True all fz by simp
      next
        case F: False
        then have "q < N \<Longrightarrow> q < k * 64 + c" for q using N by simp
        then show ?thesis using F all fz by simp
      qed
    qed
  qed
qed


section \<open>Whole-set operations and the count\<close>

lemma bs_bits_clear_all: "bs_bits (bs_clear_all N) pos = False"
  by (simp add: bs_bits_def bs_clear_all_def)

lemma bs_bits_set_all: "bs_bits (bs_set_all N) pos \<longleftrightarrow> pos < N"
proof (cases "ALL_BITS_USED N")
  case True
  then have N: "NUM_INTS N * 64 = N" by (auto simp: ALL_BITS_USED_def NUM_INTS_def)
  have "pos div 64 < NUM_INTS N \<longleftrightarrow> pos < NUM_INTS N * 64"
    by (simp add: div_less_iff_less_mult)
  then have "pos div 64 < NUM_INTS N \<longleftrightarrow> pos < N" by (simp only: N)
  then show ?thesis using True by (auto simp: bs_bits_def bs_set_all_def)
next
  case False
  define k r where "k = N div 64" and "r = N mod 64"
  have n: "NUM_INTS N = Suc k" using False NUM_INTS_partial by (simp add: ALL_BITS_USED_def k_def)
  have N: "N = k * 64 + r" by (simp add: k_def r_def)
  have r: "r < 64" by (simp add: r_def)
  have d: "bs_set_all N = replicate k (- 1) @ [onebit r - 1]"
    using False n by (simp add: bs_set_all_def LAST_USED_BITS_def r_def)
  define i j where "i = pos div 64" and "j = pos mod 64"
  have pos: "pos = i * 64 + j" "j < 64" by (simp_all add: i_def j_def)
  consider "i < k" | "i = k" | "k < i" by linarith
  then show ?thesis
  proof cases
    case 1
    then have "Suc i * 64 \<le> k * 64" by (intro mult_le_mono1) simp
    then have "pos < N" using pos N by simp
    then show ?thesis using 1 pos(2) by (simp add: bs_bits_def d nth_append flip: i_def j_def)
  next
    case 2
    then have "pos < N \<longleftrightarrow> j < r" using pos N by simp
    then show ?thesis using pos(2) 2 unfolding bs_bits_def d i_def [symmetric] j_def [symmetric]
      by (simp add: nth_append bit_onebit_minus_1)
  next
    case 3
    then have "Suc k * 64 \<le> i * 64" by (intro mult_le_mono1) simp
    then have "\<not> pos < N" using pos N r by simp
    then show ?thesis using 3 by (simp add: bs_bits_def d flip: i_def j_def)
  qed
qed

lemma bs_ok_clear_all: "bs_ok N (bs_clear_all N)"
  by (simp add: bs_ok_def bs_bits_clear_all) (simp add: bs_clear_all_def)

lemma bs_ok_set_all: "0 < N \<Longrightarrow> bs_ok N (bs_set_all N)"
proof -
  assume "0 < N"
  then have "NUM_INTS N \<noteq> 0" by (simp add: NUM_INTS_def)
  then show ?thesis by (auto simp: bs_ok_def bs_bits_set_all) (simp add: bs_set_all_def)
qed

lemma bs_ok_set: "bs_ok N d \<Longrightarrow> pos < N \<Longrightarrow> bs_ok N (bs_set d pos) \<and> bs_elems (bs_set d pos) = insert pos (bs_elems d)"
  using bs_bits_set [of pos d] NUM_INTS_bounds [of pos N]
  by (auto simp: bs_ok_def bs_elems_def) (simp_all add: bs_set_def)

lemma bs_ok_clear: "bs_ok N d \<Longrightarrow> pos < N \<Longrightarrow> bs_ok N (bs_clear d pos) \<and> bs_elems (bs_clear d pos) = bs_elems d - {pos}"
  using bs_bits_clear [of pos d] NUM_INTS_bounds [of pos N]
  by (auto simp: bs_ok_def bs_elems_def split: if_splits) (simp_all add: bs_clear_def)

lemma popcount_card: "popcount w = card {i. bit (w :: u64) i}"
proof -
  have "popcount w = card (set (filter (bit w) [0..<64]))"
    by (simp add: popcount_def distinct_card [symmetric])
  also have "set (filter (bit w) [0..<64]) = {i. bit w i}" using bit_length [of w] by auto
  finally show ?thesis .
qed

lemma bs_elems_Cons:
  "bs_elems (w # d) = {i. bit w i} \<union> (\<lambda>p. p + 64) ` bs_elems d"
proof -
  have "bs_bits (w # d) p \<longleftrightarrow> bit w p \<or> (64 \<le> p \<and> bs_bits d (p - 64))" for p
  proof (cases "p < 64")
    case False
    then have "p div 64 = Suc ((p - 64) div 64)" "p mod 64 = (p - 64) mod 64"
      by (simp_all add: le_div_geq le_mod_geq)
    moreover have "\<not> bit w p" using False bit_length [of w p] by auto
    ultimately show ?thesis using False by (simp add: bs_bits_def)
  qed (simp add: bs_bits_def)
  then have b: "bs_elems (w # d) = {p. bit w p} \<union> {p. 64 \<le> p \<and> bs_bits d (p - 64)}"
    unfolding bs_elems_def by blast
  have "{p. 64 \<le> p \<and> bs_bits d (p - 64)} = (\<lambda>p. p + 64) ` bs_elems d"
  proof
    show "{p. 64 \<le> p \<and> bs_bits d (p - 64)} \<subseteq> (\<lambda>p. p + 64) ` bs_elems d"
    proof
      fix p assume "p \<in> {p. 64 \<le> p \<and> bs_bits d (p - 64)}"
      then show "p \<in> (\<lambda>p. p + 64) ` bs_elems d"
        by (intro image_eqI [of _ _ "p - 64"]) (simp_all add: bs_elems_def)
    qed
  qed (auto simp: bs_elems_def)
  then show ?thesis unfolding b by simp
qed

lemma bs_elems_Nil: "bs_elems [] = {}"
  unfolding bs_elems_def bs_bits_def by simp

lemma bs_elems_finite: "finite (bs_elems d)"
proof (induction d)
  case (Cons w d)
  have "{i. bit w i} \<subseteq> {..<64}" using bit_length [of w] by auto
  then have "finite {i. bit w i}" by (rule finite_subset) simp
  then show ?case using Cons by (simp add: bs_elems_Cons)
qed (simp add: bs_elems_Nil)

text \<open>for every bitset, \<open>popcount()\<close> is the number of positions whose bit is set.\<close>

theorem bs_popcount_card: "bs_popcount d = card (bs_elems d)"
proof (induction d)
  case Nil
  show ?case by (simp add: bs_popcount_def bs_elems_Nil)
next
  case (Cons w d)
  have "{i. bit w i} \<subseteq> {..<64}" using bit_length [of w] by auto
  then have fin: "finite {i. bit w i}" by (rule finite_subset) simp
  have "{i. bit w i} \<inter> (\<lambda>p. p + 64) ` bs_elems d = {}" using bit_length [of w] by force
  then have "card (bs_elems (w # d)) = card {i. bit w i} + card ((\<lambda>p. p + 64) ` bs_elems d)"
    unfolding bs_elems_Cons using fin bs_elems_finite by (intro card_Un_disjoint) auto
  also have "card ((\<lambda>p. p + 64) ` bs_elems d) = card (bs_elems d)" by (simp add: card_image)
  finally show ?case using Cons by (simp add: bs_popcount_def popcount_card)
qed

section \<open>The interface the pools use\<close>

text \<open>A provider of numbered slots: taking one returns a free slot or tells that all are used,
  giving one back frees just it.\<close>

locale slot_allocator =
  fixes inv :: "'s \<Rightarrow> bool" and used :: "'s \<Rightarrow> nat set" and cap :: nat
    and take_slot :: "'s \<Rightarrow> nat option \<times> 's" and give_back :: "'s \<Rightarrow> nat \<Rightarrow> 's"
  assumes used_below: "inv s \<Longrightarrow> used s \<subseteq> {..<cap}"
    and take_some: "inv s \<Longrightarrow> take_slot s = (Some i, s') \<Longrightarrow>
      inv s' \<and> i < cap \<and> i \<notin> used s \<and> used s' = insert i (used s)"
    and take_none: "inv s \<Longrightarrow> take_slot s = (None, s') \<Longrightarrow> s' = s \<and> used s = {..<cap}"
    and give_back: "inv s \<Longrightarrow> i \<in> used s \<Longrightarrow> inv (give_back s i) \<and> used (give_back s i) = used s - {i}"
begin

lemma used_finite: "inv s \<Longrightarrow> finite (used s)"
  using used_below finite_subset by blast

lemma take_succeeds: "inv s \<Longrightarrow> card (used s) < cap \<Longrightarrow> \<exists>i s'. take_slot s = (Some i, s')"
  by (metis card_lessThan less_irrefl option.exhaust surj_pair take_none)

lemma take_then_give:
  "inv s \<Longrightarrow> take_slot s = (Some i, s') \<Longrightarrow> used (give_back s' i) = used s"
  using take_some give_back [of s' i] by force

lemma give_then_take:
  "inv s \<Longrightarrow> i \<in> used s \<Longrightarrow> \<exists>j s'. take_slot (give_back s i) = (Some j, s')"
proof -
  assume s: "inv s" "i \<in> used s"
  have "card (used s - {i}) < card (used s)" using used_finite [OF s(1)] s(2) by (rule card_Diff1_less)
  also have "\<dots> \<le> cap" using card_mono [OF _ used_below [OF s(1)]] by simp
  finally show ?thesis using give_back [OF s] take_succeeds by simp
qed

end

interpretation bs: slot_allocator "bs_ok N" bs_elems N "occupy_zero N" bs_clear
proof unfold_locales
  fix s :: bitset and i s'
  assume ok: "bs_ok N s"
  then show "bs_elems s \<subseteq> {..<N}" by (auto simp: bs_ok_def bs_elems_def)
  note fz = first_zero_spec [OF ok]
  show "bs_ok N s' \<and> i < N \<and> i \<notin> bs_elems s \<and> bs_elems s' = insert i (bs_elems s)"
    if "occupy_zero N s = (Some i, s')"
  proof -
    have "first_zero N s = Some i" "s' = bs_set s i"
      using that by (auto simp: occupy_zero_first split: option.splits)
    with fz bs_ok_set [OF ok] show ?thesis by (simp add: bs_elems_def)
  qed
  show "s' = s \<and> bs_elems s = {..<N}" if "occupy_zero N s = (None, s')"
    using that fz ok by (auto simp: occupy_zero_first bs_elems_def bs_ok_def split: option.splits)
  show "bs_ok N (bs_clear s i) \<and> bs_elems (bs_clear s i) = bs_elems s - {i}" if "i \<in> bs_elems s"
    using bs_ok_clear [OF ok, of i] that ok by (simp add: bs_elems_def bs_ok_def)
qed

text \<open>\<open>occupy_zero\<close> turns on exactly the lowest clear bit and returns its index; when all \<open>N\<close>
  bits are set, and only then, it changes nothing and reports so.\<close>

theorem occupy_zero_lowest:
  assumes "bs_ok N d"
  shows "case occupy_zero N d of
      (None, d') \<Rightarrow> d' = d \<and> bs_elems d = {..<N}
    | (Some pos, d') \<Rightarrow> bs_ok N d' \<and> pos < N \<and> pos \<notin> bs_elems d \<and> {..<pos} \<subseteq> bs_elems d
        \<and> bs_elems d' = insert pos (bs_elems d)"
proof (cases "occupy_zero N d")
  case (Pair r d')
  show ?thesis
  proof (cases r)
    case None
    then show ?thesis using Pair bs.take_none [OF assms] by simp
  next
    case (Some pos)
    then have "first_zero N d = Some pos" using Pair by (simp add: occupy_zero_first)
    then have "{..<pos} \<subseteq> bs_elems d" using first_zero_spec [OF assms] by (auto simp: bs_elems_def)
    then show ?thesis using Pair Some bs.take_some [OF assms] by simp
  qed
qed

theorem occupy_zero_lowest_witness:
  "case occupy_zero 70 (bs_set (bs_set (bs_clear_all 70) 0) 2) of
      (None, d') \<Rightarrow> False
    | (Some pos, d') \<Rightarrow> pos = 1 \<and> bs_elems d' = {0, 1, 2}"
proof -
  let ?d = "bs_set (bs_set (bs_clear_all 70) 0) 2"
  have e: "bs_elems (bs_clear_all 70) = {}"
    by (auto simp: bs_elems_def bs_bits_clear_all)
  have 1: "bs_ok 70 (bs_set (bs_clear_all 70) 0) \<and> bs_elems (bs_set (bs_clear_all 70) 0) = {0}"
    using bs_ok_set [OF bs_ok_clear_all, of 0 70] unfolding e by simp
  have 2: "bs_ok 70 ?d \<and> bs_elems ?d = {2, 0}"
    using bs_ok_set [OF conjunct1 [OF 1], of 2] 1 by simp
  have low: "pos = 1" if "pos \<notin> {2, 0}" "{..<pos} \<subseteq> {2, 0 :: nat}" for pos
  proof (rule ccontr)
    assume "pos \<noteq> 1"
    then have "1 \<in> {..<pos}" using that(1) by auto
    then show False using that(2) by auto
  qed
  have ne: "{2, 0} \<noteq> {..<70 :: nat}"
  proof
    assume "{2, 0} = {..<70 :: nat}"
    then have "1 \<in> {2, 0 :: nat}" by simp
    then show False by simp
  qed
  obtain r d' where r: "occupy_zero 70 ?d = (r, d')" by (cases "occupy_zero 70 ?d")
  show ?thesis
  proof (cases r)
    case None
    then show ?thesis using occupy_zero_lowest [OF conjunct1 [OF 2]] r 2 ne by simp
  next
    case (Some pos)
    have p: "pos \<notin> {2, 0}" "{..<pos} \<subseteq> {2, 0}" "bs_elems d' = insert pos {2, 0}"
      using occupy_zero_lowest [OF conjunct1 [OF 2]] r 2 Some by simp_all
    have "insert 1 {2, 0} = {0, 1, 2 :: nat}" by auto
    then show ?thesis using low [OF p(1,2)] p(3) r Some by simp
  qed
qed

end
