(* ===== verification/Fixed_Pool.thy ===== *)
theory Fixed_Pool
  imports Bitset
begin

text \<open>
  \<open>extras::fixed_pool<T, N, R>\<close> (include/extras/fixed_pool.hpp) with the reference-counted
  pointers it hands out, \<open>extras::refcnt_ptr\<close> (include/extras/refcnt_ptr.hpp). The pool is a
  record; a program that uses it is a list of pointer variables, null or naming a slot. Every
  pointer operation of \<open>refcnt_ptr\<close> is a step of an inductive relation, and the invariant says
  that counts, bitmap and objects agree with the live pointers. Steps are atomic: the lock
  and the atomics are not modelled. \<open>fin\<close> is what the last owner does to the object: destroying it
  (\<open>None\<close>) or, in a reusable pool, \<open>clear()\<close>.
\<close>

section \<open>The pool\<close>

record 't pool =
  used_bitmap :: bitset
  usage_counts :: "u8 list"
  pool_objects :: "'t option list"

text \<open>The reusable pool constructs all objects at once.\<close>

definition new_pool :: "nat \<Rightarrow> 't option \<Rightarrow> 't pool" where
  "new_pool N initial =
     \<lparr>used_bitmap = bs_clear_all N, usage_counts = replicate N 0, pool_objects = replicate N initial\<rparr>"

text \<open>\<open>allocate\<close>: \<open>ctor\<close> is the constructed object, \<open>None\<close> when the constructor throws. The result
  is the state, whether an exception left the call, and the slot (\<open>None\<close> the null pointer).\<close>

definition pool_allocate :: "nat \<Rightarrow> 't option \<Rightarrow> 't pool \<Rightarrow> 't pool \<times> bool \<times> nat option" where
  "pool_allocate N ctor p =
     (case occupy_zero N (used_bitmap p) of
        (None, used) \<Rightarrow> (p\<lparr>used_bitmap := used\<rparr>, False, None)
      | (Some pos, used) \<Rightarrow>
          (case ctor of
             None \<Rightarrow> (p\<lparr>used_bitmap := bs_clear used pos\<rparr>, True, None)
           | Some obj \<Rightarrow>
               (p\<lparr>used_bitmap := used, usage_counts := (usage_counts p)[pos := 1],
                  pool_objects := (pool_objects p)[pos := Some obj]\<rparr>, False, Some pos)))"

text \<open>\<open>allocate\<close> of a reusable pool takes the object that is already there.\<close>

definition pool_allocate_reusable :: "nat \<Rightarrow> 't pool \<Rightarrow> 't pool \<times> nat option" where
  "pool_allocate_reusable N p =
     (case occupy_zero N (used_bitmap p) of
        (None, used) \<Rightarrow> (p\<lparr>used_bitmap := used\<rparr>, None)
      | (Some pos, used) \<Rightarrow>
          (p\<lparr>used_bitmap := used, usage_counts := (usage_counts p)[pos := 1]\<rparr>, Some pos))"

definition pool_free_space :: "nat \<Rightarrow> 't pool \<Rightarrow> u32" where
  "pool_free_space N p = of_nat N - of_nat (bs_popcount (used_bitmap p))"

text \<open>The two actions of \<open>operator()\<close>.\<close>

definition pool_acquire :: "'t pool \<Rightarrow> nat \<Rightarrow> 't pool" where
  "pool_acquire p i = p\<lparr>usage_counts := (usage_counts p)[i := usage_counts p ! i + 1]\<rparr>"

definition pool_release :: "('t \<Rightarrow> 't option) \<Rightarrow> 't pool \<Rightarrow> nat \<Rightarrow> 't pool" where
  "pool_release fin p i =
     (let old_count = usage_counts p ! i;
          p1 = p\<lparr>usage_counts := (usage_counts p)[i := old_count - 1]\<rparr>
      in if old_count \<noteq> 1 then p1
         else p1\<lparr>pool_objects := (pool_objects p)[i := Option.bind (pool_objects p ! i) fin],
                 used_bitmap := bs_clear (used_bitmap p) i\<rparr>)"

section \<open>Pointer variables\<close>

type_synonym 't pool_state = "'t pool \<times> nat option list"

definition acquire_ref :: "'t pool \<Rightarrow> nat option \<Rightarrow> 't pool" where
  "acquire_ref p ptr = (case ptr of None \<Rightarrow> p | Some i \<Rightarrow> pool_acquire p i)"

definition release_ref :: "('t \<Rightarrow> 't option) \<Rightarrow> 't pool \<Rightarrow> nat option \<Rightarrow> 't pool" where
  "release_ref fin p ptr = (case ptr of None \<Rightarrow> p | Some i \<Rightarrow> pool_release fin p i)"

definition ptr_copy :: "'t pool_state \<Rightarrow> nat \<Rightarrow> 't pool_state" where
  "ptr_copy s src = (case s of (p, ptrs) \<Rightarrow> (acquire_ref p (ptrs ! src), ptrs @ [ptrs ! src]))"

definition ptr_move :: "'t pool_state \<Rightarrow> nat \<Rightarrow> 't pool_state" where
  "ptr_move s src = (case s of (p, ptrs) \<Rightarrow> (p, ptrs[src := None] @ [ptrs ! src]))"

definition ptr_move_assign :: "'t pool_state \<Rightarrow> nat \<Rightarrow> nat \<Rightarrow> 't pool_state" where
  "ptr_move_assign s dst src =
     (case s of (p, ptrs) \<Rightarrow> (p, ptrs[dst := ptrs ! src, src := ptrs ! dst]))"

definition ptr_copy_assign :: "('t \<Rightarrow> 't option) \<Rightarrow> 't pool_state \<Rightarrow> nat \<Rightarrow> nat \<Rightarrow> 't pool_state" where
  "ptr_copy_assign fin s dst src =
     (case s of (p, ptrs) \<Rightarrow>
        if ptrs ! dst = ptrs ! src then (p, ptrs)
        else (acquire_ref (release_ref fin p (ptrs ! dst)) (ptrs ! src), ptrs[dst := ptrs ! src]))"

definition ptr_reset :: "('t \<Rightarrow> 't option) \<Rightarrow> 't pool_state \<Rightarrow> nat \<Rightarrow> 't pool_state" where
  "ptr_reset fin s i = (case s of (p, ptrs) \<Rightarrow> (release_ref fin p (ptrs ! i), ptrs[i := None]))"

definition ptr_destroy :: "('t \<Rightarrow> 't option) \<Rightarrow> 't pool_state \<Rightarrow> nat \<Rightarrow> 't pool_state" where
  "ptr_destroy fin s i =
     (case s of (p, ptrs) \<Rightarrow> (release_ref fin p (ptrs ! i), take i ptrs @ drop (Suc i) ptrs))"

text \<open>The steps of a program. Acquiring is limited to 255 pointers to one object, as documented.\<close>

definition may_acquire :: "nat option list \<Rightarrow> nat option \<Rightarrow> bool" where
  "may_acquire ptrs ptr \<longleftrightarrow> (ptr = None \<or> count_list ptrs ptr < 255)"

inductive pool_step :: "nat \<Rightarrow> ('t \<Rightarrow> 't option) \<Rightarrow> 't pool_state \<Rightarrow> 't pool_state \<Rightarrow> bool"
  for N :: nat and fin :: "'t \<Rightarrow> 't option" where
  allocate: "pool_allocate N ctor p = (p', thrown, r) \<Longrightarrow>
     pool_step N fin (p, ptrs) (p', if thrown then ptrs else ptrs @ [r])"
| copy: "src < length ptrs \<Longrightarrow> may_acquire ptrs (ptrs ! src) \<Longrightarrow>
     pool_step N fin (p, ptrs) (ptr_copy (p, ptrs) src)"
| move: "src < length ptrs \<Longrightarrow> pool_step N fin (p, ptrs) (ptr_move (p, ptrs) src)"
| move_assign: "src < length ptrs \<Longrightarrow> dst < length ptrs \<Longrightarrow>
     pool_step N fin (p, ptrs) (ptr_move_assign (p, ptrs) dst src)"
| copy_assign: "src < length ptrs \<Longrightarrow> dst < length ptrs \<Longrightarrow> may_acquire ptrs (ptrs ! src) \<Longrightarrow>
     pool_step N fin (p, ptrs) (ptr_copy_assign fin (p, ptrs) dst src)"
| reset: "i < length ptrs \<Longrightarrow> pool_step N fin (p, ptrs) (ptr_reset fin (p, ptrs) i)"
| destroy: "i < length ptrs \<Longrightarrow> pool_step N fin (p, ptrs) (ptr_destroy fin (p, ptrs) i)"

inductive_cases pool_stepE: "pool_step N fin s s'"

inductive pool_reachable :: "nat \<Rightarrow> ('t \<Rightarrow> 't option) \<Rightarrow> 't pool_state \<Rightarrow> bool"
  for N :: nat and fin :: "'t \<Rightarrow> 't option" where
  start: "pool_reachable N fin (new_pool N None, [])"
| step: "pool_reachable N fin s \<Longrightarrow> pool_step N fin s s' \<Longrightarrow> pool_reachable N fin s'"

section \<open>The invariant\<close>

text \<open>\<open>refs\<close> is the number of pointers each slot has.\<close>

definition pool_inv :: "nat \<Rightarrow> 't pool \<Rightarrow> (nat \<Rightarrow> nat) \<Rightarrow> bool" where
  "pool_inv N p refs \<longleftrightarrow>
     bs_ok N (used_bitmap p) \<and> length (usage_counts p) = N \<and> length (pool_objects p) = N
     \<and> (\<forall>i<N. unat (usage_counts p ! i) = refs i)
     \<and> (\<forall>i. i \<in> bs_elems (used_bitmap p) \<longleftrightarrow> 0 < refs i)
     \<and> (\<forall>i<N. 0 < refs i \<longrightarrow> pool_objects p ! i \<noteq> None)"

lemma pool_inv_below: "pool_inv N p refs \<Longrightarrow> 0 < refs i \<Longrightarrow> i < N"
proof -
  assume "pool_inv N p refs" "0 < refs i"
  then have "bs_ok N (used_bitmap p)" "i \<in> bs_elems (used_bitmap p)" by (simp_all add: pool_inv_def)
  then show ?thesis using bs.used_below by blast
qed

lemma pool_inv_acquire:
  assumes "pool_inv N p refs" "0 < refs i" "refs i < 255"
  shows "pool_inv N (pool_acquire p i) (refs(i := Suc (refs i)))"
proof -
  have i: "i < N" using pool_inv_below [OF assms(1,2)] .
  have u: "unat (usage_counts p ! i) = refs i" using assms(1) i by (simp add: pool_inv_def)
  then have "unat (usage_counts p ! i + 1) = Suc (refs i)"
    using assms(3) by (simp add: unat_word_ariths)
  then show ?thesis using assms(1,2) i
    by (auto simp: pool_inv_def pool_acquire_def nth_list_update)
qed

lemma pool_inv_release:
  assumes "pool_inv N p refs" "0 < refs i"
  shows "pool_inv N (pool_release fin p i) (refs(i := refs i - 1))"
proof -
  have i: "i < N" using pool_inv_below [OF assms] .
  have u: "unat (usage_counts p ! i) = refs i" using assms(1) i by (simp add: pool_inv_def)
  have ok: "bs_ok N (used_bitmap p)" "i \<in> bs_elems (used_bitmap p)"
    using assms by (auto simp: pool_inv_def)
  have old: "usage_counts p ! i \<noteq> 0" using u assms(2) by auto
  then have dec: "unat (usage_counts p ! i - 1) = refs i - 1"
    using u by (simp add: unat_minus_one)
  have one: "usage_counts p ! i = 1 \<longleftrightarrow> refs i = 1"
    using u by (simp add: word_unat_eq_iff)
  show ?thesis
  proof (cases "refs i = 1")
    case True
    then show ?thesis using assms(1) i dec one bs.give_back [OF ok]
      by (auto simp: pool_inv_def pool_release_def Let_def nth_list_update)
  next
    case False
    then show ?thesis using assms i dec one
      by (auto simp: pool_inv_def pool_release_def Let_def nth_list_update)
  qed
qed

lemma pool_inv_allocate:
  assumes "pool_inv N p refs" "pool_allocate N ctor p = (p', thrown, r)"
  shows "(case r of None \<Rightarrow> pool_inv N p' refs \<and> (\<not> thrown \<longrightarrow> bs_elems (used_bitmap p) = {..<N})
    | Some i \<Rightarrow> \<not> thrown \<and> refs i = 0 \<and> i < N \<and> pool_inv N p' (refs(i := 1)))"
proof -
  have ok: "bs_ok N (used_bitmap p)" using assms(1) by (simp add: pool_inv_def)
  obtain o' used where oz: "occupy_zero N (used_bitmap p) = (o', used)"
    by (cases "occupy_zero N (used_bitmap p)")
  show ?thesis
  proof (cases o')
    case None
    then show ?thesis using assms oz bs.take_none [OF ok, of used]
      by (auto simp: pool_allocate_def)
  next
    case (Some pos)
    note tk = bs.take_some [OF ok, of pos used]
    show ?thesis
    proof (cases ctor)
      case None
      have "bs_ok N (bs_clear used pos)" "bs_elems (bs_clear used pos) = bs_elems (used_bitmap p)"
        using tk oz Some bs.give_back [of N used pos] bs.take_then_give [OF ok] by auto
      then show ?thesis using assms oz Some None by (auto simp: pool_allocate_def pool_inv_def)
    next
      case obj: (Some x)
      then show ?thesis using assms oz Some tk
        by (auto simp: pool_allocate_def pool_inv_def nth_list_update)
    qed
  qed
qed


section \<open>All programs\<close>

abbreviation refs_of :: "nat option list \<Rightarrow> nat \<Rightarrow> nat" where
  "refs_of ptrs i \<equiv> count_list ptrs (Some i)"

lemma count_list_update:
  "k < length xs \<Longrightarrow> count_list (xs[k := y]) x
     = count_list xs x - (if xs ! k = x then 1 else 0) + (if y = x then 1 else 0)"
proof (induction xs arbitrary: k)
  case (Cons a xs)
  show ?case
  proof (cases k)
    case (Suc k')
    have "xs ! k' = x \<Longrightarrow> 0 < count_list xs x"
      using Cons.prems Suc by (metis count_list_0_iff neq0_conv nth_mem Suc_less_eq length_Cons)
    with Cons.IH [of k'] Cons.prems Suc show ?thesis by auto
  qed auto
qed simp

lemma count_list_nth: "k < length xs \<Longrightarrow> 0 < count_list xs (xs ! k)"
  by (metis count_list_0_iff neq0_conv nth_mem)

lemma count_list_drop_nth:
  "k < length xs \<Longrightarrow> count_list (take k xs @ drop (Suc k) xs) x
     = count_list xs x - (if xs ! k = x then 1 else 0)"
proof -
  assume k: "k < length xs"
  have "count_list xs x = count_list (take k xs @ xs ! k # drop (Suc k) xs) x"
    using k by (simp add: id_take_nth_drop [symmetric])
  then show ?thesis by simp
qed

lemma acquire_inv:
  "pool_inv N p (refs_of ptrs) \<Longrightarrow> ptr = None \<or> 0 < count_list ptrs ptr \<Longrightarrow> may_acquire ptrs ptr \<Longrightarrow>
     pool_inv N (acquire_ref p ptr) (\<lambda>i. refs_of ptrs i + (if ptr = Some i then 1 else 0))"
proof (cases ptr)
  case (Some j)
  assume a: "pool_inv N p (refs_of ptrs)" "ptr = None \<or> 0 < count_list ptrs ptr" "may_acquire ptrs ptr"
  have "(refs_of ptrs)(j := Suc (refs_of ptrs j)) = (\<lambda>i. refs_of ptrs i + (if ptr = Some i then 1 else 0))"
    using Some by auto
  then show ?thesis using pool_inv_acquire [OF a(1), of j] a(2,3) Some
    by (simp add: acquire_ref_def may_acquire_def)
qed (simp add: acquire_ref_def)

lemma release_inv:
  "pool_inv N p refs \<Longrightarrow> (\<And>j. ptr = Some j \<Longrightarrow> 0 < refs j) \<Longrightarrow>
     pool_inv N (release_ref fin p ptr) (\<lambda>i. refs i - (if ptr = Some i then 1 else 0))"
proof (cases ptr)
  case (Some j)
  assume a: "pool_inv N p refs" "\<And>j. ptr = Some j \<Longrightarrow> 0 < refs j"
  have "refs(j := refs j - 1) = (\<lambda>i. refs i - (if ptr = Some i then 1 else 0))"
    using Some by auto
  then show ?thesis using pool_inv_release [OF a(1), of j fin] a(2) Some by (simp add: release_ref_def)
qed (simp add: release_ref_def)

lemma pool_step_inv:
  assumes "pool_step N fin (p, ptrs) (p', ptrs')" "pool_inv N p (refs_of ptrs)"
  shows "pool_inv N p' (refs_of ptrs')"
  using assms(1)
proof (cases rule: pool_step.cases)
  case (allocate ctor thrown r)
  show ?thesis
  proof (cases r)
    case None
    then show ?thesis using pool_inv_allocate [OF assms(2) allocate(2)] allocate(1) by auto
  next
    case (Some i)
    then have "\<not> thrown" "pool_inv N p' ((refs_of ptrs)(i := 1))" "refs_of ptrs i = 0"
      using pool_inv_allocate [OF assms(2) allocate(2)] by auto
    moreover from this have "(refs_of ptrs)(i := 1) = refs_of (ptrs @ [Some i])" by (auto simp: fun_eq_iff)
    ultimately show ?thesis using allocate(1) Some by simp
  qed
next
  case (copy src)
  have "pool_inv N p' (\<lambda>i. refs_of ptrs i + (if ptrs ! src = Some i then 1 else 0))"
    using acquire_inv [OF assms(2) disjI2 [OF count_list_nth] copy(3)] copy(1,2) by (simp add: ptr_copy_def)
  moreover have "(\<lambda>i. refs_of ptrs i + (if ptrs ! src = Some i then 1 else 0)) = refs_of (ptrs @ [ptrs ! src])"
    by auto
  ultimately show ?thesis using copy(1) by (simp add: ptr_copy_def)
next
  case (move src)
  then have "p' = p" "ptrs' = ptrs[src := None] @ [ptrs ! src]" by (simp_all add: ptr_move_def)
  moreover have "refs_of (ptrs[src := None] @ [ptrs ! src]) i = refs_of ptrs i" for i
    using move(2) count_list_nth [OF move(2)] by (auto simp: count_list_update)
  ultimately show ?thesis using assms(2) by presburger
next
  case (move_assign src dst)
  then have "p' = p" "ptrs' = ptrs[dst := ptrs ! src, src := ptrs ! dst]"
    by (simp_all add: ptr_move_assign_def)
  moreover have "refs_of (ptrs[dst := ptrs ! src, src := ptrs ! dst]) i = refs_of ptrs i" for i
    using move_assign(2,3) count_list_nth [OF move_assign(3)]
    by (cases "src = dst") (auto simp: count_list_update nth_list_update)
  ultimately show ?thesis using assms(2) by presburger
next
  case (copy_assign src dst)
  show ?thesis
  proof (cases "ptrs ! dst = ptrs ! src")
    case True
    then show ?thesis using copy_assign assms(2) by (simp add: ptr_copy_assign_def)
  next
    case False
    have rel: "pool_inv N (release_ref fin p (ptrs ! dst)) (refs_of (ptrs[dst := None]))"
    proof -
      have "(\<lambda>i. refs_of ptrs i - (if ptrs ! dst = Some i then 1 else 0)) = refs_of (ptrs[dst := None])"
        using copy_assign(3) by (auto simp: count_list_update)
      then show ?thesis
        using release_inv [OF assms(2), of "ptrs ! dst" fin] count_list_nth [OF copy_assign(3)] by fastforce
    qed
    have src: "ptrs[dst := None] ! src = ptrs ! src" using False by (cases "src = dst") auto
    have le: "count_list (ptrs[dst := None]) (ptrs ! src) \<le> count_list ptrs (ptrs ! src) \<or> ptrs ! src = None"
      using copy_assign(3) by (auto simp: count_list_update)
    have "pool_inv N p' (\<lambda>i. refs_of (ptrs[dst := None]) i + (if ptrs ! src = Some i then 1 else 0))"
      using acquire_inv [OF rel, of "ptrs ! src"] count_list_nth [of src "ptrs[dst := None]"]
        copy_assign(1,2,4) src le False
      by (auto simp: ptr_copy_assign_def may_acquire_def)
    moreover have "(\<lambda>i. refs_of (ptrs[dst := None]) i + (if ptrs ! src = Some i then 1 else 0))
        = refs_of (ptrs[dst := ptrs ! src])"
      using copy_assign(3) by (auto simp: count_list_update)
    ultimately show ?thesis using copy_assign(1) False by (simp add: ptr_copy_assign_def)
  qed
next
  case (reset i)
  have "(\<lambda>j. refs_of ptrs j - (if ptrs ! i = Some j then 1 else 0)) = refs_of (ptrs[i := None])"
    using reset(2) by (auto simp: count_list_update)
  then show ?thesis
    using release_inv [OF assms(2), of "ptrs ! i" fin] count_list_nth [OF reset(2)] reset(1)
    by (fastforce simp: ptr_reset_def)
next
  case (destroy i)
  have "(\<lambda>j. refs_of ptrs j - (if ptrs ! i = Some j then 1 else 0)) = refs_of (take i ptrs @ drop (Suc i) ptrs)"
    using count_list_drop_nth [OF destroy(2)] by auto
  then show ?thesis
    using release_inv [OF assms(2), of "ptrs ! i" fin] count_list_nth [OF destroy(2)] destroy(1)
    by (fastforce simp: ptr_destroy_def)
qed

lemma pool_reachable_inv:
  "pool_reachable N fin s \<Longrightarrow> pool_inv N (fst s) (refs_of (snd s))"
proof (induction rule: pool_reachable.induct)
  case start
  show ?case
    by (auto simp: pool_inv_def new_pool_def bs_ok_clear_all bs_elems_def bs_bits_clear_all)
next
  case (step s s')
  then show ?case using pool_step_inv [of N fin "fst s" "snd s" "fst s'" "snd s'"] by simp
qed

text \<open>C40: whatever a program does with pointers of a pool, a slot is occupied exactly when some live
  pointer names it, its count is the number of those pointers, and its object is alive: no
  object is freed while referenced and none stays after its last pointer is gone.\<close>

theorem pool_counts_exact:
  assumes "pool_reachable N fin (p, ptrs)"
  shows "bs_elems (used_bitmap p) = {i. Some i \<in> set ptrs}
    \<and> (\<forall>i. Some i \<in> set ptrs \<longrightarrow>
          i < N \<and> unat (usage_counts p ! i) = count_list ptrs (Some i) \<and> pool_objects p ! i \<noteq> None)"
proof -
  have inv: "pool_inv N p (refs_of ptrs)" using pool_reachable_inv [OF assms] by simp
  have pos: "0 < refs_of ptrs i \<longleftrightarrow> Some i \<in> set ptrs" for i
    by (metis count_list_0_iff neq0_conv)
  show ?thesis using inv pool_inv_below [OF inv] by (auto simp: pool_inv_def pos)
qed

theorem pool_counts_exact_witness:
  "\<exists>p :: int pool. pool_reachable 2 (\<lambda>_. None) (p, [Some 0, None, Some 0]) \<and> bs_elems (used_bitmap p) = {0}
     \<and> unat (usage_counts p ! 0) = 2"
proof -
  let ?fin = "\<lambda>_. None :: int option"
  obtain p thrown r where al: "pool_allocate 2 (Some 5) (new_pool 2 (None :: int option)) = (p, thrown, r)"
    by (cases "pool_allocate 2 (Some 5) (new_pool 2 (None :: int option))")
  have c0: "countr_one 0 = 0" by (simp add: countr_one_def upt_conv_Cons)
  have p: "p = \<lparr>used_bitmap = [1], usage_counts = [1, 0], pool_objects = [Some 5, None]\<rparr>" "\<not> thrown" "r = Some 0"
    using al by (simp_all add: pool_allocate_def new_pool_def occupy_zero_def bs_clear_all_def
        ALL_BITS_USED_def NUM_INTS_def c0 LAST_USED_BITS_def onebit_def Let_def numeral_2_eq_2
        split: if_splits)
  note p1 = pool_reachable.start [of 2 ?fin] pool_step.allocate [OF al, of ?fin "[]"]
  have r1: "pool_reachable 2 ?fin (p, [Some 0])"
    using pool_reachable.step [OF p1] p(2,3) by simp
  have r2: "pool_reachable 2 ?fin (ptr_copy (p, [Some 0]) 0)"
    by (rule pool_reachable.step [OF r1 pool_step.copy]) (simp_all add: may_acquire_def)
  obtain p2 where p2: "ptr_copy (p, [Some 0]) 0 = (p2, [Some 0, Some 0])"
    by (simp add: ptr_copy_def)
  have r3: "pool_reachable 2 ?fin (ptr_move (p2, [Some 0, Some 0]) 1)"
    by (rule pool_reachable.step [OF r2 [unfolded p2] pool_step.move]) simp
  have m: "ptr_move (p2, [Some 0, Some 0]) 1 = (p2, [Some 0, None, Some 0])"
    by (simp add: ptr_move_def)
  from pool_counts_exact [OF r3 [unfolded m]] r3 m show ?thesis by (intro exI [of _ p2]) auto
qed

end
