(* ===== verification/Linear_Allocator.thy ===== *)
theory Linear_Allocator
  imports Prelude
begin

text \<open>
  \<open>extras::linear_allocator<B, S, G>\<close> (include/extras/linear_allocator.hpp): a free list of
  ranges over an address space of the unsigned type \<open>S\<close>, here \<open>'a word\<close>, so address arithmetic
  wraps as in the code. \<open>G\<close> is the granularity. The free list is the state; the callback
  \<open>on_allocator_freed\<close> is the boolean second result. Vector reservations are not modelled.
  The locale \<open>range_allocator\<close> is the contract a client relies on.
\<close>

section \<open>Definitions\<close>

type_synonym 'a range = "'a word \<times> 'a word"

definition align_up :: "'a::len word \<Rightarrow> 'a word \<Rightarrow> 'a word" where
  "align_up sz alignment = (sz + alignment - 1) AND NOT (alignment - 1)"

definition new_allocator :: "'a::len word \<Rightarrow> 'a range list" where
  "new_allocator full_size = [(0, full_size)]"

text \<open>The search loop. The split of the chosen block keeps the vector order.\<close>

fun alloc_loop :: "'a::len word \<Rightarrow> 'a word \<Rightarrow> 'a range list \<Rightarrow> ('a range \<times> 'a range list) option" where
  "alloc_loop sz align [] = None"
| "alloc_loop sz align ((rb, re) # rest) =
     (let adjusted_begin = align_up rb align;
          adjusted_end = adjusted_begin + sz
      in if adjusted_end > re
         then map_option (\<lambda>(r, ranges). (r, (rb, re) # ranges)) (alloc_loop sz align rest)
         else Some ((adjusted_begin, adjusted_end),
                (if adjusted_begin > rb then [(rb, adjusted_begin)] else [])
                @ (if adjusted_end < re then [(adjusted_end, re)] else [])
                @ rest))"

definition allocate ::
  "'a::len word \<Rightarrow> 'a word \<Rightarrow> 'a range list \<Rightarrow> 'a word \<Rightarrow> 'a word \<Rightarrow> ('a range \<times> 'a range list) option" where
  "allocate G full_size ranges sz align =
     (let sz = align_up sz G;
          align = max align G
      in if sz > full_size then None else alloc_loop sz align ranges)"

definition allocate_all :: "'a::len word \<Rightarrow> 'a range \<times> 'a range list" where
  "allocate_all full_size = ((0, full_size), [])"

text \<open>\<open>std::upper_bound\<close>: the ranges not above the pair, and the others.\<close>

definition pair_less :: "'a::len range \<Rightarrow> 'a range \<Rightarrow> bool" where
  "pair_less r s \<longleftrightarrow> fst r < fst s \<or> (fst r = fst s \<and> snd r < snd s)"

definition below :: "'a::len range \<Rightarrow> 'a range list \<Rightarrow> 'a range list" where
  "below r ranges = takeWhile (\<lambda>s. \<not> pair_less r s) ranges"

definition above :: "'a::len range \<Rightarrow> 'a range list \<Rightarrow> 'a range list" where
  "above r ranges = dropWhile (\<lambda>s. \<not> pair_less r s) ranges"

definition grow :: "'a::len word \<Rightarrow> 'a range list \<Rightarrow> 'a range \<Rightarrow> 'a word \<Rightarrow> ('a range \<times> 'a range list) option" where
  "grow G ranges r addendum =
     (if addendum = 0 then Some (r, ranges)
      else case above r ranges of
        [] \<Rightarrow> None
      | (nb, ne) # rest \<Rightarrow>
          if nb \<noteq> snd r then None
          else let desired_end = snd r + align_up addendum G
               in if ne < desired_end then None
                  else Some ((fst r, desired_end),
                         below r ranges @ (if ne = desired_end then rest else (desired_end, ne) # rest)))"

definition is_free :: "'a::len word \<Rightarrow> 'a range list \<Rightarrow> bool" where
  "is_free full_size ranges \<longleftrightarrow> ranges = [(0, full_size)]"

text \<open>\<open>free\<close>: insert before the first higher block, then merge with the next and with the
  previous block.\<close>

definition release_range :: "'a::len word \<Rightarrow> 'a range list \<Rightarrow> 'a range \<Rightarrow> 'a range list \<times> bool" where
  "release_range full_size ranges r =
     (let lo = below r ranges;
          (cur, hi) = (case above r ranges of
             [] \<Rightarrow> (r, [])
           | (nb, ne) # rest \<Rightarrow> if nb = snd r then ((fst r, ne), rest) else (r, (nb, ne) # rest));
          ranges' = (if lo \<noteq> [] \<and> snd (last lo) = fst r
                     then butlast lo @ (fst (last lo), snd cur) # hi
                     else lo @ cur # hi)
      in (ranges', is_free full_size ranges'))"

definition reset :: "'a::len word \<Rightarrow> 'a range list \<Rightarrow> 'a range list \<times> bool" where
  "reset full_size ranges =
     (if is_free full_size ranges then (ranges, False) else ([(0, full_size)], True))"

section \<open>Rounding up\<close>

lemma unat_add_small: "unat x + unat y < 2 ^ LENGTH('a) \<Longrightarrow> unat (x + y :: 'a::len word) = unat x + unat y"
  by (simp add: unat_word_ariths)

lemma and_not_mask_unat:
  "unat (x AND NOT (onebit k - 1) :: 'a::len word) = unat x div 2 ^ k * 2 ^ k"
proof -
  have "x AND NOT (onebit k - 1) = push_bit k (drop_bit k x)"
    by (rule word_eq_bitI)
      (auto simp: bit_and_iff bit_not_iff bit_onebit_minus_1 bit_push_bit_iff bit_drop_bit_eq)
  also have "\<dots> = x - take_bit k x"
    by (metis add_diff_cancel_right' bits_ident)
  finally have e: "x AND NOT (onebit k - 1) = x - take_bit k x" .
  have "unat (take_bit k x) = take_bit k (unat x)" by (rule unsigned_take_bit_eq)
  also have "\<dots> = unat x mod 2 ^ k" by (rule take_bit_eq_mod)
  finally have t: "unat (take_bit k x) = unat x mod 2 ^ k" .
  then have "take_bit k x \<le> x" by (simp add: word_le_nat_alt)
  then show ?thesis unfolding e by (simp add: unat_sub t minus_mod_eq_div_mult)
qed

lemma unat_onebit: "k < LENGTH('a) \<Longrightarrow> unat (onebit k :: 'a::len word) = 2 ^ k"
proof -
  assume "k < LENGTH('a)"
  then have "(2 :: nat) ^ k < 2 ^ LENGTH('a)" by (intro power_strict_increasing) simp_all
  then show ?thesis
    unfolding onebit_def unsigned_push_bit_eq by (simp add: push_bit_eq_mult take_bit_nat_eq_self)
qed

text \<open>Rounding up to a power of two, when the sum does not wrap.\<close>

lemma align_up_unat:
  assumes "k < LENGTH('a)" "unat x + 2 ^ k \<le> 2 ^ LENGTH('a)"
  shows "unat (align_up x (onebit k) :: 'a::len word) = (unat x + (2 ^ k - 1)) div 2 ^ k * 2 ^ k"
proof -
  have "(onebit k :: 'a word) \<noteq> 0" using assms(1) unat_onebit [of k, where 'a = 'a] by (metis power_not_zero unat_0 zero_neq_numeral)
  then have m: "unat (onebit k - 1 :: 'a word) = 2 ^ k - 1"
    using assms(1) by (simp add: unat_minus_one unat_onebit)
  have "x + onebit k - 1 = x + (onebit k - 1)" by (simp add: add_diff_eq)
  moreover have "unat (x + (onebit k - 1)) = unat x + (2 ^ k - 1)"
    using assms(2) m zero_less_power [of "2 :: nat" k] by (subst unat_add_small) linarith+
  ultimately show ?thesis unfolding align_up_def and_not_mask_unat by (simp only:)
qed

definition round_up :: "nat \<Rightarrow> nat \<Rightarrow> nat" where
  "round_up x a = (x + (a - 1)) div a * a"

lemma round_up_ge: "0 < a \<Longrightarrow> x \<le> round_up x a"
proof -
  assume a: "0 < a"
  have "(x + (a - 1)) mod a < a" using a by simp
  then show ?thesis using div_mult_mod_eq [of "x + (a - 1)" a] a unfolding round_up_def by linarith
qed

lemma round_up_least: "0 < a \<Longrightarrow> x \<le> y \<Longrightarrow> a dvd y \<Longrightarrow> round_up x a \<le> y"
proof -
  assume a: "0 < a" "x \<le> y" "a dvd y"
  obtain c where c: "y = c * a" using a(3) by (metis dvd_def mult.commute)
  have "(x + (a - 1)) div a \<le> (c * a + (a - 1)) div a" using a(2) c by (intro div_le_mono) simp
  also have "\<dots> = c + (a - 1) div a" using a(1) by (intro div_mult_self3) simp
  also have "\<dots> = c" using a(1) by simp
  finally show ?thesis unfolding round_up_def c by (rule mult_le_mono1)
qed

lemma round_up_dvd: "a dvd round_up x a"
  by (simp add: round_up_def)

lemma round_up_less: "0 < a \<Longrightarrow> round_up x a < x + a"
proof -
  assume a: "0 < a"
  have "round_up x a \<le> x + (a - 1)" by (simp add: round_up_def)
  then show ?thesis using a by linarith
qed


section \<open>The free list\<close>

text \<open>Ranges are non-empty, ordered, never adjacent and inside the space.\<close>

fun ordered :: "nat \<Rightarrow> 'a::len range list \<Rightarrow> bool" where
  "ordered lo [] = True"
| "ordered lo ((b, e) # rest) = (lo \<le> unat b \<and> unat b < unat e \<and> ordered (Suc (unat e)) rest)"

definition within :: "nat \<Rightarrow> 'a::len range list \<Rightarrow> bool" where
  "within full ranges \<longleftrightarrow> (\<forall>r\<in>set ranges. unat (snd r) \<le> full)"

definition space :: "'a::len range \<Rightarrow> nat set" where
  "space r = {unat (fst r)..<unat (snd r)}"

definition free_space :: "'a::len range list \<Rightarrow> nat set" where
  "free_space ranges = (\<Union>r\<in>set ranges. space r)"

lemma free_space_simps [simp]:
  "free_space [] = {}" "free_space (r # ranges) = space r \<union> free_space ranges"
  "free_space (xs @ ys) = free_space xs \<union> free_space ys"
  by (auto simp: free_space_def)

lemma ordered_mono: "ordered lo ranges \<Longrightarrow> lo' \<le> lo \<Longrightarrow> ordered lo' ranges"
  by (cases ranges) auto

lemma ordered_above: "ordered lo ranges \<Longrightarrow> x \<in> free_space ranges \<Longrightarrow> lo \<le> x"
  by (induction lo ranges rule: ordered.induct) (auto simp: space_def)

lemma ordered_ne: "ordered lo ranges \<Longrightarrow> r \<in> set ranges \<Longrightarrow> lo \<le> unat (fst r) \<and> unat (fst r) < unat (snd r)"
  by (induction lo ranges rule: ordered.induct) auto

lemma ordered_append:
  "ordered lo (xs @ ys) \<longleftrightarrow> ordered lo xs \<and>
     ordered (if xs = [] then lo else Suc (unat (snd (last xs)))) ys"
  by (induction lo xs rule: ordered.induct) auto

lemma word_less_unat: "(x :: 'a::len word) < y \<longleftrightarrow> unat x < unat y" by (simp add: word_less_nat_alt)

text \<open>What the loop returns: the first range that fits, split around the aligned block.\<close>

lemma alloc_loop_Some:
  assumes "alloc_loop sz al ranges = Some ((ab, ae), ranges')"
  shows "\<exists>xs rb re ys. ranges = xs @ (rb, re) # ys \<and> ab = align_up rb al \<and> ae = ab + sz \<and> \<not> ae > re
    \<and> ranges' = xs @ (if ab > rb then [(rb, ab)] else []) @ (if ae < re then [(ae, re)] else []) @ ys"
  using assms
proof (induction sz al ranges arbitrary: ranges' rule: alloc_loop.induct)
  case (2 sz al rb re rest)
  show ?case
  proof (cases "align_up rb al + sz > re")
    case True
    then obtain r2 where "alloc_loop sz al rest = Some ((ab, ae), r2)" "ranges' = (rb, re) # r2"
      using 2(2) by (auto simp: Let_def)
    with 2(1) [of "align_up rb al" "align_up rb al + sz"] True obtain xs rb' re' ys where
      "rest = xs @ (rb', re') # ys" "ab = align_up rb' al" "ae = ab + sz" "\<not> ae > re'"
      "r2 = xs @ (if ab > rb' then [(rb', ab)] else []) @ (if ae < re' then [(ae, re')] else []) @ ys"
      by blast
    then show ?thesis using \<open>ranges' = (rb, re) # r2\<close>
      by (intro exI [of _ "(rb, re) # xs"] exI [of _ rb'] exI [of _ re'] exI [of _ ys]) simp
  next
    case False
    then show ?thesis using 2(2)
      by (intro exI [of _ "[]"] exI [of _ rb] exI [of _ re] exI [of _ rest]) (auto simp: Let_def)
  qed
qed simp

lemma alloc_loop_None:
  "alloc_loop sz al ranges = None \<longleftrightarrow> (\<forall>(rb, re)\<in>set ranges. align_up rb al + sz > re)"
  by (induction sz al ranges rule: alloc_loop.induct) (auto simp: Let_def)

text \<open>The parameters the class is used with: a power of two granularity, a space of at most half
  the address range, and requests that survive rounding.\<close>

definition space_ok :: "'a::len word \<Rightarrow> 'a word \<Rightarrow> bool" where
  "space_ok G full_size \<longleftrightarrow>
     (\<exists>g<LENGTH('a). G = onebit g) \<and> 2 * unat full_size < 2 ^ LENGTH('a) \<and> 0 < unat full_size"

definition request_ok :: "'a::len word \<Rightarrow> 'a word \<Rightarrow> 'a word \<Rightarrow> bool" where
  "request_ok G sz al \<longleftrightarrow>
     0 < unat sz \<and> unat sz + unat G \<le> 2 ^ LENGTH('a) \<and> (\<exists>a<LENGTH('a). al = onebit a)"

lemma allocate_block:
  fixes G :: "'a::len word"
  assumes sp: "space_ok G full_size" and rq: "request_ok G sz al"
    and b: "unat rb < unat full_size"
  defines "A \<equiv> max (unat al) (unat G)" and "S \<equiv> round_up (unat sz) (unat G)"
  shows "unat (align_up sz G) = S"
    and "unat (align_up rb (max al G)) = round_up (unat rb) A"
    and "S \<le> unat full_size \<Longrightarrow> unat (align_up rb (max al G) + align_up sz G) = round_up (unat rb) A + S"
proof -
  obtain g where g: "g < LENGTH('a)" "G = onebit g" using sp by (auto simp: space_ok_def)
  obtain a where a: "a < LENGTH('a)" "al = onebit a" using rq by (auto simp: request_ok_def)
  have full: "2 * unat full_size < 2 ^ LENGTH('a)" using sp by (simp add: space_ok_def)
  define m where "m = max a g"
  have m: "m < LENGTH('a)" using a g by (simp add: m_def)
  have "max al G = onebit m"
    using a g unfolding m_def by (auto simp: max_def word_le_nat_alt unat_onebit)
  moreover have A: "A = 2 ^ m"
    using a g unfolding A_def m_def by (auto simp: unat_onebit max_def)
  moreover have half: "(2 :: nat) ^ m \<le> 2 ^ (LENGTH('a) - 1)" using m by (intro power_increasing) auto
  moreover have two: "2 * 2 ^ (LENGTH('a) - 1) = (2 :: nat) ^ LENGTH('a)"
    by (metis len_gt_0 power_eq_if not_gr_zero)
  ultimately have "unat rb + 2 ^ m \<le> 2 ^ LENGTH('a)" using b full by linarith
  then show ab: "unat (align_up rb (max al G)) = round_up (unat rb) A"
    unfolding \<open>max al G = onebit m\<close> A round_up_def by (intro align_up_unat m)
  show s: "unat (align_up sz G) = S"
    using rq g unfolding S_def round_up_def by (simp add: align_up_unat unat_onebit request_ok_def)
  have dv: "(2 :: nat) ^ m dvd 2 ^ (LENGTH('a) - 1)" using m by (intro le_imp_power_dvd) simp
  have "unat rb \<le> 2 ^ (LENGTH('a) - 1)" using b full two by linarith
  then have "round_up (unat rb) A \<le> 2 ^ (LENGTH('a) - 1)"
    unfolding A using dv by (intro round_up_least) simp_all
  then show "unat (align_up rb (max al G) + align_up sz G) = round_up (unat rb) A + S"
    if "S \<le> unat full_size"
    using that ab s full two by (subst unat_add_small) simp_all
qed

definition free_list_ok :: "'a::len word \<Rightarrow> 'a range list \<Rightarrow> bool" where
  "free_list_ok full_size ranges \<longleftrightarrow> ordered 0 ranges \<and> within (unat full_size) ranges"

lemma range_end_not_free:
  "ordered lo ranges \<Longrightarrow> r \<in> set ranges \<Longrightarrow> unat (snd r) \<notin> free_space ranges"
proof (induction lo ranges rule: ordered.induct)
  case (2 lo b e rest)
  have "ordered (Suc (unat e)) rest" using 2(2) by simp
  note up = ordered_above [OF this] ordered_ne [OF this]
  from 2(3) consider "r = (b, e)" | "r \<in> set rest" by auto
  then show ?case
  proof cases
    case 1
    then show ?thesis using up(1) [of "unat e"] by (auto simp: space_def)
  next
    case 2
    then show ?thesis using "2.IH" "2.prems" up(2) [OF 2] by (auto simp: space_def)
  qed
qed simp

lemma block_in_one_range:
  assumes "ordered lo ranges" "{x..<x + n} \<subseteq> free_space ranges" "0 < n"
  shows "\<exists>r\<in>set ranges. unat (fst r) \<le> x \<and> x + n \<le> unat (snd r)"
proof -
  have "x \<in> free_space ranges" using assms(2,3) by auto
  then obtain r where r: "r \<in> set ranges" "unat (fst r) \<le> x" "x < unat (snd r)"
    by (auto simp: free_space_def space_def)
  have "x + n \<le> unat (snd r)"
  proof (rule ccontr)
    assume "\<not> x + n \<le> unat (snd r)"
    then have "unat (snd r) \<in> {x..<x + n}" using r(3) by simp
    then show False using assms(2) range_end_not_free [OF assms(1) r(1)] by blast
  qed
  with r show ?thesis by blast
qed

text \<open>Space \<open>s\<close> of a block of \<open>sz\<close> at alignment \<open>al\<close>.\<close>

definition block_size :: "'a::len word \<Rightarrow> 'a word \<Rightarrow> nat" where
  "block_size G sz = round_up (unat sz) (unat G)"

definition block_align :: "'a::len word \<Rightarrow> 'a word \<Rightarrow> nat" where
  "block_align G al = max (unat al) (unat G)"

lemma request_positive:
  "space_ok G full_size \<Longrightarrow> request_ok G sz al \<Longrightarrow> 0 < unat G \<and> 0 < block_align G al \<and> 0 < block_size G sz"
proof -
  assume sp: "space_ok G full_size" and rq: "request_ok G sz al"
  have G: "0 < unat G" using sp by (auto simp: space_ok_def unat_onebit)
  then have "unat sz \<le> block_size G sz" unfolding block_size_def by (intro round_up_ge)
  then show ?thesis using G rq by (auto simp: block_align_def request_ok_def)
qed

lemma split_range:
  assumes o: "ordered 0 (xs @ (rb, re) # ys)" and le: "unat rb \<le> unat ab" "unat ae \<le> unat re" "unat ab < unat ae"
  defines "mid \<equiv> (if ab > rb then [(rb, ab)] else []) @ (if ae < re then [(ae, re)] else [])"
  shows "ordered 0 (xs @ mid @ ys)"
    and "free_space (xs @ mid @ ys) = free_space (xs @ (rb, re) # ys) - {unat ab..<unat ae}"
proof -
  define l where "l = (if xs = [] then 0 else Suc (unat (snd (last xs))))"
  have o': "ordered 0 xs" "ordered l ((rb, re) # ys)"
    using o unfolding ordered_append l_def by simp_all
  then have ys: "l \<le> unat rb" "unat rb < unat re" "ordered (Suc (unat re)) ys" by simp_all
  have m: "ordered l (mid @ ys)"
    using ys le ordered_mono [OF ys(3)] by (auto simp: mid_def word_less_unat)
  show "ordered 0 (xs @ mid @ ys)" using o'(1) m by (simp add: ordered_append l_def)
  have lo: "x < unat rb" if "x \<in> free_space xs" for x
  proof -
    from that obtain r where r: "r \<in> set xs" "x \<in> space r" unfolding free_space_def by blast
    then have r2: "x < unat (snd r)" by (simp add: space_def)
    have "unat (snd r) < unat rb"
    proof -
      have "\<forall>r\<in>set xs. unat (snd r) \<le> unat (snd (last xs))" using o'(1)
      proof (induction xs rule: rev_induct)
        case (snoc a xs)
        then have "unat (snd (last xs)) < unat (fst a) \<or> xs = []" "unat (fst a) < unat (snd a)"
          by (cases a; auto simp: ordered_append split: if_splits)+
        then show ?case using snoc by (auto simp: ordered_append)
      qed simp
      then show ?thesis using r(1) ys(1) by (force simp: l_def split: if_splits)
    qed
    then show ?thesis using r2 by simp
  qed
  have hi: "unat re < x" if "x \<in> free_space ys" for x
    using ordered_above [OF ys(3) that] by simp
  have "free_space mid = {unat rb..<unat re} - {unat ab..<unat ae}"
    using le ys(2) by (auto simp: mid_def space_def word_less_unat)
  then have "free_space (xs @ mid @ ys) = free_space xs \<union> ({unat rb..<unat re} - {unat ab..<unat ae}) \<union> free_space ys"
    by auto
  also have "\<dots> = (free_space xs \<union> {unat rb..<unat re} \<union> free_space ys) - {unat ab..<unat ae}"
    using lo hi le by fastforce
  finally show "free_space (xs @ mid @ ys) = free_space (xs @ (rb, re) # ys) - {unat ab..<unat ae}"
    by (auto simp: space_def)
qed

text \<open>What an allocation does to the free space.\<close>

lemma allocate_keeps:
  assumes "space_ok G full_size" and "request_ok G sz al" and "free_list_ok full_size ranges"
    and "allocate G full_size ranges sz al = Some ((ab, ae), ranges')"
  shows "unat ae = unat ab + block_size G sz \<and> block_align G al dvd unat ab
    \<and> space (ab, ae) \<subseteq> free_space ranges
    \<and> free_space ranges' = free_space ranges - space (ab, ae)
    \<and> free_list_ok full_size ranges'"
proof -
  have ok: "ordered 0 ranges" "within (unat full_size) ranges"
    using assms(3) by (simp_all add: free_list_ok_def)
  have nf: "\<not> align_up sz G > full_size"
    and al: "alloc_loop (align_up sz G) (max al G) ranges = Some ((ab, ae), ranges')"
    using assms(4) by (auto simp: allocate_def Let_def split: if_splits)
  obtain xs rb re ys where sp: "ranges = xs @ (rb, re) # ys" "ab = align_up rb (max al G)"
    "ae = ab + align_up sz G" "\<not> ae > re"
    "ranges' = xs @ (if ab > rb then [(rb, ab)] else []) @ (if ae < re then [(ae, re)] else []) @ ys"
    using alloc_loop_Some [OF al] by blast
  have "(rb, re) \<in> set ranges" by (simp add: sp(1))
  then have rr: "unat rb < unat re" "unat re \<le> unat full_size"
    using ordered_ne [OF ok(1)] ok(2) by (auto simp: within_def)
  then have "unat rb < unat full_size" by simp
  note blk = allocate_block [OF assms(1,2) this, folded block_size_def block_align_def]
  have S: "block_size G sz \<le> unat full_size" using nf blk(1) by (simp add: word_less_unat)
  have ab: "unat ab = round_up (unat rb) (block_align G al)" using blk(2) sp(2) by simp
  have ae: "unat ae = unat ab + block_size G sz" using blk(3) [OF S] sp(2,3) ab by simp
  note pos = request_positive [OF assms(1,2)]
  have le: "unat rb \<le> unat ab" "unat ae \<le> unat re" "unat ab < unat ae"
    using round_up_ge pos sp(4) ae by (auto simp: ab word_less_unat)
  note split = split_range [OF ok(1) [unfolded sp(1)] le]
  have "block_align G al dvd unat ab" unfolding ab by (rule round_up_dvd)
  moreover have "space (ab, ae) \<subseteq> free_space ranges"
    using le by (auto simp: sp(1) space_def)
  moreover have "free_space ranges' = free_space ranges - space (ab, ae)"
    using split(2) sp(1,5) by (simp add: space_def)
  moreover have "within (unat full_size) ranges'"
    using ok(2) le rr by (auto simp: within_def sp(1,5))
  ultimately show ?thesis using ae split(1) sp(5) by (simp add: free_list_ok_def)
qed

text \<open>an allocation fails only when it has to: the free space holds no block of that size at that
  alignment.\<close>

theorem allocate_complete:
  assumes "space_ok G full_size" and "request_ok G sz al" and "free_list_ok full_size ranges"
    and "allocate G full_size ranges sz al = None" and "block_align G al dvd x"
  shows "\<not> {x..<x + block_size G sz} \<subseteq> free_space ranges"
proof
  assume sub: "{x..<x + block_size G sz} \<subseteq> free_space ranges"
  have ok: "ordered 0 ranges" "within (unat full_size) ranges"
    using assms(3) by (simp_all add: free_list_ok_def)
  note pos = request_positive [OF assms(1,2)]
  obtain rb re where r: "(rb, re) \<in> set ranges" "unat rb \<le> x" "x + block_size G sz \<le> unat re"
    using block_in_one_range [OF ok(1) sub] pos by auto
  have re: "unat re \<le> unat full_size" using ok(2) r(1) by (auto simp: within_def)
  then have "unat rb < unat full_size" using r(2,3) pos by simp
  note blk = allocate_block [OF assms(1,2) this, folded block_size_def block_align_def]
  have S: "block_size G sz \<le> unat full_size" using r(3) re by simp
  then have "alloc_loop (align_up sz G) (max al G) ranges = None"
    using assms(4) blk(1) by (auto simp: allocate_def Let_def word_less_unat split: if_splits)
  then have "align_up rb (max al G) + align_up sz G > re" using r(1) by (auto simp: alloc_loop_None)
  then have "unat re < round_up (unat rb) (block_align G al) + block_size G sz"
    using blk(3) [OF S] by (simp add: word_less_unat)
  moreover have "round_up (unat rb) (block_align G al) \<le> x"
    using pos r(2) assms(5) by (intro round_up_least) auto
  ultimately show False using r(3) by simp
qed

text \<open>Giving a block back.\<close>

lemma below_above: "ranges = below r ranges @ above r ranges"
  by (simp add: below_def above_def)

lemma below_above_split:
  assumes o: "ordered lo ranges" and r: "unat b < unat e" and d: "space (b, e) \<inter> free_space ranges = {}"
  shows "(\<forall>s\<in>set (below (b, e) ranges). unat (snd s) \<le> unat b)
    \<and> (\<forall>s\<in>set (above (b, e) ranges). unat e \<le> unat (fst s))"
  using o d
proof (induction lo ranges rule: ordered.induct)
  case (2 lo b' e' rest)
  have o: "ordered (Suc (unat e')) rest" and ne: "unat b' < unat e'" using 2(2) by simp_all
  have dj: "space (b, e) \<inter> space (b', e') = {}" "space (b, e) \<inter> free_space rest = {}" using 2(3) by auto
  have "unat b \<notin> space (b', e')" "unat b' \<notin> space (b, e)" using dj(1) r ne by (auto simp: space_def)
  then have c: "unat e' \<le> unat b \<or> unat e \<le> unat b'" "unat b \<noteq> unat b'" using r ne by (auto simp: space_def)
  show ?case
  proof (cases "unat b < unat b'")
    case True
    then have "pair_less (b, e) (b', e')" by (simp add: pair_less_def word_less_unat)
    moreover have "\<forall>s\<in>set ((b', e') # rest). unat e \<le> unat (fst s)"
      using True c ordered_ne [OF o] ne by fastforce
    ultimately show ?thesis by (simp add: below_def above_def)
  next
    case False
    then have "\<not> pair_less (b, e) (b', e')" using c(2) by (auto simp: pair_less_def word_less_unat)
    moreover have "unat e' \<le> unat b" using False c ne r by simp
    ultimately show ?thesis using 2(1) [OF o dj(2)] by (simp add: below_def above_def)
  qed
qed (simp add: below_def above_def)

lemma ordered_join:
  "ordered lo (xs @ ys) \<longleftrightarrow> ordered lo xs \<and> ordered lo ys
     \<and> (\<forall>x\<in>set xs. \<forall>y\<in>set ys. unat (snd x) < unat (fst y))"
proof (induction lo xs rule: ordered.induct)
  case (2 lo b e rest)
  have *: "ordered (Suc (unat e)) ys \<longleftrightarrow> ordered lo ys \<and> (\<forall>y\<in>set ys. unat e < unat (fst y))"
    if "lo \<le> unat b" "unat b < unat e"
  proof (cases ys)
    case (Cons y zs)
    then show ?thesis using that ordered_ne [of "Suc (unat (snd y))" zs] by (cases y) fastforce
  qed simp
  show ?case using 2 * by auto
qed simp

text \<open>The two merges, on a block already placed.\<close>

definition merge_next :: "'a::len range \<Rightarrow> 'a range list \<Rightarrow> 'a range \<times> 'a range list" where
  "merge_next r hi = (case hi of [] \<Rightarrow> (r, [])
     | (nb, ne) # rest \<Rightarrow> if nb = snd r then ((fst r, ne), rest) else (r, hi))"

definition merge_prev :: "'a::len range list \<Rightarrow> 'a range \<Rightarrow> 'a range list" where
  "merge_prev lo cur = (if lo \<noteq> [] \<and> snd (last lo) = fst cur
     then butlast lo @ [(fst (last lo), snd cur)] else lo @ [cur])"

lemma release_range_merge:
  "fst (release_range F ranges r) =
     (let (cur, hi) = merge_next r (above r ranges) in merge_prev (below r ranges) cur @ hi)"
  by (auto simp: release_range_def merge_next_def merge_prev_def Let_def split: list.splits prod.splits if_splits)

lemma merge_next_ok:
  assumes "ordered lo hi" "lo \<le> unat b" "unat b < unat e" "\<forall>s\<in>set hi. unat e \<le> unat (fst s)"
    and "merge_next (b, e) hi = ((b', e'), hi')"
  shows "b' = b \<and> unat b < unat e' \<and> ordered (unat b) ((b, e') # hi')
    \<and> free_space ((b, e') # hi') = space (b, e) \<union> free_space hi
    \<and> (within F hi \<longrightarrow> unat e \<le> F \<longrightarrow> within F ((b, e') # hi'))"
proof (cases hi)
  case Nil
  then show ?thesis using assms by (auto simp: merge_next_def within_def)
next
  case (Cons s rest)
  obtain nb ne where s: "s = (nb, ne)" by (cases s)
  have h: "unat e \<le> unat nb" "unat nb < unat ne" "ordered (Suc (unat ne)) rest"
    using assms(1,4) Cons s by auto
  show ?thesis
  proof (cases "nb = e")
    case True
    then show ?thesis using assms(2,3,5) h Cons s by (auto simp: merge_next_def space_def within_def)
  next
    case False
    then have "unat e < unat nb" using h(1) by (metis le_neq_implies_less word_unat_eq_iff)
    then show ?thesis using False assms(2,3,5) h Cons s
      by (auto simp: merge_next_def space_def within_def)
  qed
qed

lemma merge_prev_ok:
  assumes "ordered 0 lo" "unat b < unat e" "\<forall>s\<in>set lo. unat (snd s) \<le> unat b"
  shows "ordered 0 (merge_prev lo (b, e)) \<and> free_space (merge_prev lo (b, e)) = free_space lo \<union> space (b, e)
    \<and> snd (last (merge_prev lo (b, e))) = e
    \<and> (within F lo \<longrightarrow> unat e \<le> F \<longrightarrow> within F (merge_prev lo (b, e)))"
proof (cases lo rule: rev_exhaust)
  case Nil
  then show ?thesis using assms by (auto simp: merge_prev_def within_def)
next
  case (snoc l s)
  obtain pb pe where s: "s = (pb, pe)" by (cases s)
  have h: "ordered 0 l" "unat pb < unat pe" "\<forall>x\<in>set l. unat (snd x) < unat pb" "unat pe \<le> unat b"
    using assms(1,3) snoc s by (auto simp: ordered_join)
  show ?thesis
  proof (cases "pe = b")
    case True
    then show ?thesis using assms(2) h snoc s
      by (auto simp: merge_prev_def space_def within_def ordered_join)
  next
    case False
    then have "unat pe < unat b" using h(4) by (metis le_neq_implies_less word_unat_eq_iff)
    then show ?thesis using False assms(2) h snoc s
      by (fastforce simp: merge_prev_def space_def within_def ordered_join)
  qed
qed

lemma release_range_keeps:
  assumes ok: "free_list_ok F ranges" and r: "unat b < unat e" "unat e \<le> unat F"
    and d: "space (b, e) \<inter> free_space ranges = {}"
  shows "free_list_ok F (fst (release_range F ranges (b, e)))
    \<and> free_space (fst (release_range F ranges (b, e))) = free_space ranges \<union> space (b, e)"
proof -
  define lo where "lo = below (b, e) ranges"
  define hi where "hi = above (b, e) ranges"
  have ranges: "ranges = lo @ hi" unfolding lo_def hi_def by (rule below_above)
  have o: "ordered 0 lo" "ordered 0 hi" "within (unat F) lo" "within (unat F) hi"
    using ok unfolding free_list_ok_def ranges by (auto simp: ordered_join within_def)
  have sp: "\<forall>s\<in>set lo. unat (snd s) \<le> unat b" "\<forall>s\<in>set hi. unat e \<le> unat (fst s)"
    using below_above_split [OF _ r(1) d] ok unfolding free_list_ok_def lo_def hi_def by blast+
  obtain b' e' hi' where m: "merge_next (b, e) hi = ((b', e'), hi')" by (metis surj_pair)
  note mn = merge_next_ok [OF o(2) _ r(1) sp(2) m, of "unat F"]
  have mn: "b' = b" "unat b < unat e'" "ordered (unat b) ((b, e') # hi')"
    "free_space ((b, e') # hi') = space (b, e) \<union> free_space hi" "within (unat F) ((b, e') # hi')"
    using mn o(4) r(2) by simp_all
  define lo' where "lo' = merge_prev lo (b, e')"
  have mp: "ordered 0 lo'" "free_space lo' = free_space lo \<union> space (b, e')" "snd (last lo') = e'"
    "within (unat F) lo'"
    using merge_prev_ok [OF o(1) mn(2) sp(1), of "unat F"] o(3) mn(5) unfolding lo'_def by (simp_all add: within_def)
  have res: "fst (release_range F ranges (b, e)) = lo' @ hi'"
    unfolding release_range_merge lo'_def using m mn(1) by (simp add: lo_def hi_def)
  have "lo' \<noteq> []" by (simp add: lo'_def merge_prev_def)
  moreover have "ordered (Suc (unat e')) hi'" using mn(3) by simp
  ultimately have "ordered 0 (lo' @ hi')" using mp(1,3) by (simp add: ordered_append)
  moreover have "within (unat F) (lo' @ hi')" using mp(4) mn(5) by (auto simp: within_def)
  moreover have "free_space (lo' @ hi') = free_space ranges \<union> space (b, e)"
    using mp(2) mn(4) unfolding ranges by auto
  ultimately show ?thesis unfolding res free_list_ok_def by simp
qed

lemma all_free_iff:
  assumes "free_list_ok F ranges" "0 < unat F"
  shows "is_free F ranges \<longleftrightarrow> free_space ranges = {..<unat F}"
proof
  show "is_free F ranges \<Longrightarrow> free_space ranges = {..<unat F}" by (auto simp: is_free_def space_def)
  assume fs: "free_space ranges = {..<unat F}"
  then obtain b e where r: "(b, e) \<in> set ranges" "unat b \<le> 0" "0 < unat e"
    using block_in_one_range [of 0 ranges 0 1] assms by (auto simp: free_list_ok_def)
  then obtain rest where rest: "ranges = (b, e) # rest"
    using assms(1) by (cases ranges; fastforce simp: free_list_ok_def dest: ordered_ne)
  have "unat e \<le> unat F" using assms(1) r(1) by (auto simp: free_list_ok_def within_def)
  moreover have "unat e \<notin> {..<unat F}"
    using range_end_not_free [OF _ r(1), of 0] assms(1) fs by (simp add: free_list_ok_def)
  ultimately have e: "unat e = unat F" by simp
  have "rest = []"
  proof (rule ccontr)
    assume "rest \<noteq> []"
    then obtain s where s: "s \<in> set rest" by (cases rest) auto
    have "ordered (Suc (unat e)) rest" using assms(1) rest by (simp add: free_list_ok_def)
    note ordered_ne [OF this s]
    moreover have "unat (snd s) \<le> unat F" using s assms(1) rest by (auto simp: free_list_ok_def within_def)
    ultimately show False using e by simp
  qed
  then show "is_free F ranges" using rest e r(2) by (simp add: is_free_def word_unat_eq_iff)
qed

text \<open>giving a block back adds exactly that block to the free space, keeps the free list
  ordered and merged, and reports \<open>on_allocator_freed\<close> exactly when everything is free.\<close>

theorem release_range_sound:
  assumes "free_list_ok F ranges" "0 < unat F"
    and "unat b < unat e" "unat e \<le> unat F" "space (b, e) \<inter> free_space ranges = {}"
    and "release_range F ranges (b, e) = (ranges', freed)"
  shows "free_list_ok F ranges' \<and> free_space ranges' = free_space ranges \<union> space (b, e)
    \<and> freed = (free_space ranges' = {..<unat F})"
proof -
  have "ranges' = fst (release_range F ranges (b, e))" using assms(6) by simp
  then have "free_list_ok F ranges' \<and> free_space ranges' = free_space ranges \<union> space (b, e)"
    using release_range_keeps [OF assms(1,3,4,5)] by simp
  moreover have "freed = is_free F ranges'" using assms(6) by (auto simp: release_range_def Let_def split: prod.splits)
  ultimately show ?thesis using all_free_iff assms(2) by blast
qed

theorem release_range_sound_witness:
  "free_list_ok (1024 :: u32) [(0, 1024)] \<and> release_range (1024 :: u32) [(0, 128), (256, 1024)] (128, 256) = ([(0, 1024)], True)"
proof -
  have r: "release_range (1024 :: u32) [(0, 128), (256, 1024)] (128, 256) = ([(0, 1024)], True)"
    by (simp add: release_range_def below_def above_def pair_less_def is_free_def)
  have "free_list_ok (1024 :: u32) [(0, 128), (256, 1024)]"
    by (simp add: free_list_ok_def within_def)
  moreover have d: "space (128, 256 :: u32) \<inter> free_space [(0, 128), (256, 1024 :: u32)] = {}"
    by (auto simp: space_def)
  ultimately have "free_list_ok (1024 :: u32) [(0, 1024)]"
    using release_range_sound [OF _ _ _ _ d r] by simp
  with r show ?thesis by blast
qed

text \<open>an allocation returns a block inside the free space, of the requested size rounded up to
  the granularity and aligned as asked; exactly that block leaves the free space and the free
  list stays well-formed.\<close>

theorem allocate_sound:
  assumes "space_ok G full_size" and "request_ok G sz al" and "free_list_ok full_size ranges"
    and "allocate G full_size ranges sz al = Some ((ab, ae), ranges')"
  shows "unat ae = unat ab + block_size G sz \<and> block_align G al dvd unat ab
    \<and> space (ab, ae) \<subseteq> free_space ranges
    \<and> free_space ranges' = free_space ranges - space (ab, ae)
    \<and> free_list_ok full_size ranges'"
  by (rule allocate_keeps [OF assms])

theorem allocate_sound_witness:
  "allocate (64 :: u32) 1024 [(32, 1024)] 100 128 = Some ((128, 256), [(32, 128), (256, 1024)])
   \<and> free_space [(32, 128), (256, 1024 :: u32)] = free_space [(32, 1024 :: u32)] - {128..<256}"
proof -
  have a: "allocate (64 :: u32) 1024 [(32, 1024)] 100 128 = Some ((128, 256), [(32, 128), (256, 1024)])"
    by code_simp
  have G: "(64 :: u32) = onebit 6" "(128 :: u32) = onebit 7" by code_simp+
  have "\<exists>k<32. (64 :: u32) = onebit k" "\<exists>k<32. (128 :: u32) = onebit k"
    by (rule exI [of _ 6], simp add: G) (rule exI [of _ 7], simp add: G)
  then have "space_ok (64 :: u32) 1024" "request_ok (64 :: u32) 100 128"
    by (simp_all add: space_ok_def request_ok_def)
  moreover have "free_list_ok (1024 :: u32) [(32, 1024)]" by (simp add: free_list_ok_def within_def)
  ultimately show ?thesis using allocate_sound [OF _ _ _ a] a by (simp add: space_def)
qed

theorem allocate_complete_witness:
  "allocate (64 :: u32) 1024 [(32, 256)] 100 256 = None \<and> \<not> {0..<128} \<subseteq> free_space [(32, 256 :: u32)]"
proof -
  have a: "allocate (64 :: u32) 1024 [(32, 256)] 100 256 = None"
    by code_simp
  have G: "(64 :: u32) = onebit 6" "(256 :: u32) = onebit 8" by code_simp+
  have "\<exists>k<32. (64 :: u32) = onebit k" "\<exists>k<32. (256 :: u32) = onebit k"
    by (rule exI [of _ 6], simp add: G) (rule exI [of _ 8], simp add: G)
  then have "space_ok (64 :: u32) 1024" "request_ok (64 :: u32) 100 256"
    by (simp_all add: space_ok_def request_ok_def)
  moreover have "free_list_ok (1024 :: u32) [(32, 256)]" by (simp add: free_list_ok_def within_def)
  moreover have "block_size (64 :: u32) 100 = 128" by (simp add: block_size_def round_up_def)
  ultimately show ?thesis using allocate_complete [OF _ _ _ a, of 0] a by simp
qed

section \<open>Growing a block\<close>

text \<open>When the rounded addendum fits in the space, growing takes exactly the free bytes after the
  block, and it fails only when some of them is taken.\<close>

lemma grow_sound:
  assumes sp: "space_ok G F" and ok: "free_list_ok F ranges"
    and r: "unat b < unat e" "unat e \<le> unat F" "space (b, e) \<inter> free_space ranges = {}"
    and a: "unat ad + unat G \<le> 2 ^ LENGTH('a)" "round_up (unat ad) (unat G) \<le> unat F"
  defines "N \<equiv> {unat e..<unat e + round_up (unat ad) (unat G)}"
  shows "case grow G ranges (b, e) (ad :: 'a::len word) of
      None \<Rightarrow> \<not> N \<subseteq> free_space ranges
    | Some ((b', e'), ranges') \<Rightarrow> b' = b \<and> N = space (e, e') \<and> N \<subseteq> free_space ranges
        \<and> free_space ranges' = free_space ranges - N \<and> free_list_ok F ranges'"
proof (cases "ad = 0")
  case True
  have "0 < unat G" using sp by (auto simp: space_ok_def unat_onebit)
  then have "round_up (unat (0 :: 'a word)) (unat G) = 0" by (simp add: round_up_def)
  then show ?thesis using True ok by (simp add: grow_def N_def space_def)
next
  case False
  obtain g where g: "g < LENGTH('a)" "G = onebit g" using sp by (auto simp: space_ok_def)
  have G0: "0 < unat G" using g by (simp add: unat_onebit)
  have up: "unat (align_up ad G) = round_up (unat ad) (unat G)"
    using a(1) g unfolding round_up_def by (simp add: align_up_unat unat_onebit)
  define R where "R = round_up (unat ad) (unat G)"
  have "0 < unat ad" using False by (simp add: unat_gt_0)
  then have R0: "0 < R" using round_up_ge [OF G0, of "unat ad"] by (simp add: R_def)
  have "2 * unat F < 2 ^ LENGTH('a)" using sp by (simp add: space_ok_def)
  then have de: "unat (e + align_up ad G) = unat e + R"
    using r(2) a(2) up by (subst unat_add_small) (simp_all add: R_def)
  define lo where "lo = below (b, e) ranges"
  define hi where "hi = above (b, e) ranges"
  have ranges: "ranges = lo @ hi" unfolding lo_def hi_def by (rule below_above)
  have o: "ordered 0 (lo @ hi)" "within (unat F) (lo @ hi)"
    using ok unfolding free_list_ok_def ranges by simp_all
  have sp2: "\<forall>s\<in>set lo. unat (snd s) \<le> unat b" "\<forall>s\<in>set hi. unat e \<le> unat (fst s)"
    using below_above_split [OF _ r(1,3)] ok unfolding free_list_ok_def lo_def hi_def by blast+
  have elo: "x \<notin> free_space lo" if "unat e \<le> x" for x
    using sp2(1) r(1) that by (fastforce simp: free_space_def space_def)
  show ?thesis
  proof (cases hi)
    case Nil
    then have "unat e \<notin> free_space ranges" using elo unfolding ranges by simp
    moreover have "unat e \<in> N" using R0 by (simp add: N_def R_def)
    ultimately show ?thesis using False Nil by (auto simp: grow_def hi_def)
  next
    case (Cons s rest)
    obtain nb ne where s: "s = (nb, ne)" by (cases s)
    have oh: "unat nb < unat ne" "ordered (Suc (unat ne)) rest" "ordered 0 lo"
      "\<forall>x\<in>set lo. unat (snd x) < unat nb" and e_nb: "unat e \<le> unat nb"
      using o(1) sp2(2) Cons s by (auto simp: ordered_join)
    note rest = ordered_above [OF oh(2)]
    show ?thesis
    proof (cases "nb = e \<and> \<not> ne < e + align_up ad G")
      case True
      then have le: "unat e + R \<le> unat ne" by (simp add: word_less_unat de)
      define mid where "mid = (if ne = e + align_up ad G then rest else (e + align_up ad G, ne) # rest)"
      have g: "grow G ranges (b, e) ad = Some ((b, e + align_up ad G), lo @ mid)"
        using False True Cons s by (auto simp: grow_def hi_def lo_def mid_def Let_def)
      have NN: "N = {unat e..<unat e + R}" by (simp add: N_def R_def)
      have eqn: "ne = e + align_up ad G \<longleftrightarrow> unat ne = unat e + R" by (simp add: word_unat_eq_iff de)
      have o2: "ordered 0 (lo @ (e, ne) # rest)" using o(1) Cons s True by simp
      have "unat (e + align_up ad G) \<le> unat ne" "unat e < unat (e + align_up ad G)"
        using le R0 by (simp_all add: de)
      note split = split_range [OF o2 order_refl this]
      have mid: "(if e > e then [(e, e)] else [])
          @ (if e + align_up ad G < ne then [(e + align_up ad G, ne)] else []) @ rest = mid"
        using le eqn by (auto simp: mid_def word_less_unat de)
      have fr: "ordered 0 (lo @ mid)" "free_space (lo @ mid) = free_space ranges - N"
        using split [unfolded append_assoc mid] ranges Cons s True by (simp_all add: de NN del: free_space_simps)
      have "N \<subseteq> free_space ranges" using le True unfolding ranges Cons s by (auto simp: NN space_def)
      moreover have "within (unat F) (lo @ mid)"
        using o(2) Cons s by (auto simp: within_def mid_def)
      ultimately show ?thesis using g fr by (simp add: NN space_def de free_list_ok_def)
    next
      case no: False
      have "\<exists>x\<in>N. x \<notin> free_space ranges"
      proof (cases "nb = e")
        case True
        then have lt: "unat ne < unat e + R" using no by (simp add: word_less_unat de)
        have "unat ne \<notin> free_space ranges"
          using range_end_not_free [OF o(1), of "(nb, ne)"] Cons s ranges by simp
        then show ?thesis using lt oh(1) True by (auto simp: N_def R_def intro!: bexI [of _ "unat ne"])
      next
        case ne: False
        then have "unat e < unat nb" using e_nb by (metis le_neq_implies_less word_unat_eq_iff)
        then have "unat e \<notin> free_space ranges"
          using elo rest [of "unat e"] oh(1) unfolding ranges Cons s by (auto simp: space_def)
        then show ?thesis using R0 by (auto simp: N_def R_def intro!: bexI [of _ "unat e"])
      qed
      then show ?thesis using False no Cons s by (auto simp: grow_def hi_def Let_def split: if_splits)
    qed
  qed
qed

section \<open>The contract of a range allocator\<close>

text \<open>\<open>tiles full fs bs\<close>: the free space and the blocks are disjoint and cover the whole space.\<close>

fun apart :: "nat set list \<Rightarrow> bool" where
  "apart [] = True"
| "apart (b # bs) = (b \<noteq> {} \<and> b \<inter> \<Union>(set bs) = {} \<and> apart bs)"

definition tiles :: "nat set \<Rightarrow> nat set \<Rightarrow> nat set list \<Rightarrow> bool" where
  "tiles full fs bs \<longleftrightarrow> apart bs \<and> fs \<inter> \<Union>(set bs) = {} \<and> fs \<union> \<Union>(set bs) = full"

lemma apart_middle:
  "apart (xs @ b # ys) \<longleftrightarrow> b \<noteq> {} \<and> b \<inter> \<Union>(set (xs @ ys)) = {} \<and> apart (xs @ ys)"
  by (induction xs) auto

lemma tiles_middle:
  "tiles full fs (xs @ b # ys) \<longleftrightarrow> b \<noteq> {} \<and> b \<inter> fs = {} \<and> tiles full (fs \<union> b) (xs @ ys)"
proof
  assume t: "tiles full fs (xs @ b # ys)"
  then show "b \<noteq> {} \<and> b \<inter> fs = {} \<and> tiles full (fs \<union> b) (xs @ ys)"
    unfolding tiles_def apart_middle by auto
next
  assume t: "b \<noteq> {} \<and> b \<inter> fs = {} \<and> tiles full (fs \<union> b) (xs @ ys)"
  then show "tiles full fs (xs @ b # ys)" unfolding tiles_def apart_middle by auto
qed

lemma tiles_take:
  assumes "tiles full fs bs" "b \<subseteq> fs" "b \<noteq> {}"
  shows "tiles full (fs - b) (b # bs)"
proof -
  have "(fs - b) \<union> b = fs" using assms(2) by blast
  then show ?thesis using assms tiles_middle [of full "fs - b" "[]" b bs] by auto
qed

locale range_allocator =
  fixes inv :: "'s \<Rightarrow> bool" and free :: "'s \<Rightarrow> nat set" and blk :: "'b \<Rightarrow> nat set"
    and ok_req :: "'q \<Rightarrow> bool" and take_block :: "'s \<Rightarrow> 'q \<Rightarrow> ('b \<times> 's) option"
    and give_block :: "'s \<Rightarrow> 'b \<Rightarrow> 's" and full :: "nat set"
  assumes take_law: "inv s \<Longrightarrow> ok_req q \<Longrightarrow> take_block s q = Some (b, s') \<Longrightarrow>
      inv s' \<and> blk b \<noteq> {} \<and> blk b \<subseteq> free s \<and> free s' = free s - blk b"
    and give_law: "inv s \<Longrightarrow> blk b \<noteq> {} \<Longrightarrow> blk b \<subseteq> full \<Longrightarrow> blk b \<inter> free s = {} \<Longrightarrow>
      inv (give_block s b) \<and> free (give_block s b) = free s \<union> blk b"
begin

lemma take_tiles:
  assumes "inv s" "tiles full (free s) (map blk live)" "ok_req q" "take_block s q = Some (b, s')"
  shows "inv s' \<and> tiles full (free s') (map blk (b # live))"
  using take_law [OF assms(1,3,4)] tiles_take [OF assms(2)] by simp

lemma give_tiles:
  assumes "inv s" "tiles full (free s) (map blk (xs @ b # ys))"
  shows "inv (give_block s b) \<and> tiles full (free (give_block s b)) (map blk (xs @ ys))"
proof -
  have t: "blk b \<noteq> {}" "blk b \<inter> free s = {}" "tiles full (free s \<union> blk b) (map blk (xs @ ys))"
    using assms(2) tiles_middle by simp_all
  then have "blk b \<subseteq> full" by (auto simp: tiles_def)
  then show ?thesis using give_law [OF assms(1) t(1) _ t(2)] t(3) by simp
qed

end

definition la_inv :: "'a::len word \<Rightarrow> 'a word \<Rightarrow> 'a range list \<Rightarrow> bool" where
  "la_inv G F ranges \<longleftrightarrow> space_ok G F \<and> free_list_ok F ranges"

lemma space_nonempty: "space r \<noteq> {} \<longleftrightarrow> unat (fst r) < unat (snd r)"
  by (auto simp: space_def)

lemma space_below: "space r \<subseteq> {..<n} \<Longrightarrow> space r \<noteq> {} \<Longrightarrow> unat (snd r) \<le> n"
proof -
  assume s: "space r \<subseteq> {..<n}" "space r \<noteq> {}"
  then have "unat (snd r) - 1 \<in> space r" by (auto simp: space_def)
  with s(1) have "unat (snd r) - 1 < n" by blast
  then show ?thesis by linarith
qed

interpretation la: range_allocator "la_inv G F" free_space space "\<lambda>(sz, al). request_ok G sz al"
  "\<lambda>ranges (sz, al). allocate G F ranges sz al" "\<lambda>ranges r. fst (release_range F ranges r)" "{..<unat F}"
proof unfold_locales
  fix ranges ranges' :: "'a range list" and q b
  assume i: "la_inv G F ranges" and q: "case q of (sz, al) \<Rightarrow> request_ok G sz al"
    and a: "(case q of (sz, al) \<Rightarrow> allocate G F ranges sz al) = Some (b, ranges')"
  obtain sz al ab ae where p: "q = (sz, al)" "b = (ab, ae)" by (cases q, cases b)
  have h: "space_ok G F" "free_list_ok F ranges" "request_ok G sz al"
    "allocate G F ranges sz al = Some ((ab, ae), ranges')" using i q a p by (simp_all add: la_inv_def)
  have s: "unat ae = unat ab + block_size G sz" "space (ab, ae) \<subseteq> free_space ranges"
      "free_space ranges' = free_space ranges - space (ab, ae)" "free_list_ok F ranges'"
    using allocate_keeps [OF h(1,3,2,4)] by blast+
  moreover have "space (ab, ae) \<noteq> {}" using s(1) request_positive [OF h(1,3)] by (simp add: space_nonempty)
  ultimately show "la_inv G F ranges' \<and> space b \<noteq> {} \<and> space b \<subseteq> free_space ranges
      \<and> free_space ranges' = free_space ranges - space b"
    using h(1) p(2) unfolding la_inv_def by simp
next
  fix ranges and r :: "'a range"
  assume i: "la_inv G F ranges" "space r \<noteq> {}" "space r \<subseteq> {..<unat F}" "space r \<inter> free_space ranges = {}"
  obtain b e where "r = (b, e)" by (cases r)
  then show "la_inv G F (fst (release_range F ranges r))
      \<and> free_space (fst (release_range F ranges r)) = free_space ranges \<union> space r"
    using i release_range_keeps [of F ranges b e] space_below [OF i(3,2)]
    by (simp add: la_inv_def space_nonempty)
qed

section \<open>The allocator and the blocks its clients hold\<close>

text \<open>The second component lists the blocks handed out. The class's assertions are the guards.\<close>

inductive la_step :: "'a::len word \<Rightarrow> 'a word \<Rightarrow> 'a range list \<times> 'a range list \<Rightarrow> 'a range list \<times> 'a range list \<Rightarrow> bool"
  for G F :: "'a::len word" where
  la_allocate: "request_ok G sz al \<Longrightarrow> allocate G F ranges sz al = Some (r, ranges') \<Longrightarrow>
    la_step G F (ranges, live) (ranges', r # live)"
| la_allocate_all: "is_free F ranges \<Longrightarrow>
    la_step G F (ranges, live) (snd (allocate_all F), fst (allocate_all F) # live)"
| la_grow: "unat ad + unat G \<le> 2 ^ LENGTH('a) \<Longrightarrow> round_up (unat ad) (unat G) \<le> unat F \<Longrightarrow>
    grow G ranges r ad = Some (r', ranges') \<Longrightarrow>
    la_step G F (ranges, xs @ r # ys) (ranges', xs @ r' # ys)"
| la_free: "release_range F ranges r = (ranges', freed) \<Longrightarrow>
    la_step G F (ranges, xs @ r # ys) (ranges', xs @ ys)"
| la_reset: "reset F ranges = (ranges', freed) \<Longrightarrow> la_step G F (ranges, live) (ranges', [])"

inductive_cases la_stepE: "la_step G F (ranges, live) st'"

definition la_good :: "'a::len word \<Rightarrow> 'a word \<Rightarrow> 'a range list \<times> 'a range list \<Rightarrow> bool" where
  "la_good G F st \<longleftrightarrow> la_inv G F (fst st) \<and> tiles {..<unat F} (free_space (fst st)) (map space (snd st))"

lemma full_range: "space_ok G F \<Longrightarrow> la_inv G F [(0, F)] \<and> free_space [(0, F)] = {..<unat F}"
  by (auto simp: la_inv_def free_list_ok_def within_def space_ok_def space_def)

lemma la_good_start: "space_ok G F \<Longrightarrow> la_good G F (new_allocator F, [])"
  using full_range [of G F] by (simp add: la_good_def new_allocator_def tiles_def)

lemma la_good_grow:
  assumes i: "la_inv G F ranges" "tiles {..<unat F} (free_space ranges) (map space (xs @ r # ys))"
    and a: "unat ad + unat G \<le> 2 ^ LENGTH('a)" "round_up (unat ad) (unat G) \<le> unat F"
    and g: "grow G ranges r (ad :: 'a::len word) = Some (r', ranges')"
  shows "la_inv G F ranges' \<and> tiles {..<unat F} (free_space ranges') (map space (xs @ r' # ys))"
proof -
  obtain b e b' e' where p: "r = (b, e)" "r' = (b', e')" by (cases r, cases r')
  have t: "space r \<noteq> {}" "space r \<inter> free_space ranges = {}"
      "tiles {..<unat F} (free_space ranges \<union> space r) (map space (xs @ ys))"
    using i(2) tiles_middle by simp_all
  then have be: "unat b < unat e" "space r \<subseteq> {..<unat F}" by (auto simp: p space_nonempty tiles_def)
  then have eF: "unat e \<le> unat F" using space_below [of r] t(1) p by simp
  have h: "space_ok G F" "free_list_ok F ranges" "space (b, e) \<inter> free_space ranges = {}"
    using i(1) t(2) p by (simp_all add: la_inv_def)
  have s: "b' = b" "space (e, e') \<subseteq> free_space ranges"
      "free_space ranges' = free_space ranges - space (e, e')" "free_list_ok F ranges'"
      "{unat e..<unat e + round_up (unat ad) (unat G)} = space (e, e')"
    using grow_sound [OF h(1,2) be(1) eF h(3) a] unfolding g [unfolded p] option.case prod.case by metis+
  have e: "unat e \<le> unat e' \<or> space (e, e') = {}" by (auto simp: space_def)
  have sp: "space r' = space r \<union> space (e, e')"
  proof (cases "unat e \<le> unat e'")
    case True
    then show ?thesis using be(1) s(1) by (auto simp: p space_def)
  next
    case False
    then have "round_up (unat ad) (unat G) = 0" using s(5) by (auto simp: space_def)
    moreover have "0 < unat G" using i(1) by (auto simp: la_inv_def space_ok_def unat_onebit)
    ultimately have "ad = 0" using round_up_ge [of "unat G" "unat ad"] by (simp add: unat_eq_0)
    then have "e' = e" using g p by (simp add: grow_def)
    then show ?thesis using False by simp
  qed
  have "free_space ranges' \<union> space r' = free_space ranges \<union> space r" "space r' \<noteq> {}"
    "space r' \<inter> free_space ranges' = {}"
    using s(2) t(1,2) unfolding s(3) sp by blast+
  then have "tiles {..<unat F} (free_space ranges') (map space xs @ space r' # map space ys)"
    unfolding tiles_middle using t(3) by simp
  then show ?thesis using i(1) s(4) by (simp add: la_inv_def)
qed

lemma la_good_step: "la_step G F st st' \<Longrightarrow> la_good G F st \<Longrightarrow> la_good G F st'"
proof (induction rule: la_step.induct)
  case (la_allocate sz al ranges r ranges' live)
  then show ?case using la.take_tiles [of G F ranges live "(sz, al)" r ranges'] by (simp add: la_good_def)
next
  case (la_allocate_all ranges live)
  then have "tiles {..<unat F} {..<unat F} (map space live)" "0 < unat F" "space_ok G F"
    using full_range [of G F] by (auto simp: la_good_def is_free_def la_inv_def space_ok_def)
  then show ?case using tiles_take [of "{..<unat F}" "{..<unat F}" "map space live" "{..<unat F}"]
    by (auto simp: la_good_def allocate_all_def la_inv_def free_list_ok_def within_def space_def atLeast0LessThan)
next
  case (la_grow ad ranges r r' ranges' xs ys)
  then show ?case using la_good_grow [of G F ranges xs r ys ad r' ranges'] by (simp add: la_good_def)
next
  case (la_free ranges r ranges' freed xs ys)
  then show ?case using la.give_tiles [of G F ranges xs r ys] by (simp add: la_good_def)
next
  case (la_reset ranges ranges' freed live)
  then have "ranges' = [(0, F)]" by (auto simp: reset_def is_free_def split: if_splits)
  moreover have "space_ok G F" using la_reset by (simp add: la_good_def la_inv_def)
  ultimately show ?case using full_range [of G F] by (simp add: la_good_def tiles_def)
qed



lemma align_up_overflow:
  assumes "g < LENGTH('a)" "2 ^ LENGTH('a) < unat sz + 2 ^ g"
  shows "align_up sz (onebit g) = (0 :: 'a::len word)"
proof -
  have p: "(0 :: nat) < 2 ^ g" "(2 :: nat) ^ g \<le> 2 ^ LENGTH('a)" using assms(1) by simp_all
  have u: "unat sz < 2 ^ LENGTH('a)" by simp
  have "(onebit g :: 'a word) \<noteq> 0" using assms(1) unat_onebit [of g, where 'a = 'a]
    by (metis power_not_zero unat_0 zero_neq_numeral)
  then have m: "unat (onebit g - 1 :: 'a word) = 2 ^ g - 1"
    using assms(1) by (simp add: unat_minus_one unat_onebit)
  have "unat (sz + (onebit g - 1)) = (unat sz + (2 ^ g - 1)) mod 2 ^ LENGTH('a)"
    by (simp add: unat_word_ariths m)
  also have "\<dots> = unat sz + (2 ^ g - 1) - 2 ^ LENGTH('a)"
  proof -
    have "2 ^ LENGTH('a) \<le> unat sz + (2 ^ g - 1)" using assms(2) by linarith
    moreover have "unat sz + (2 ^ g - 1) - 2 ^ LENGTH('a) < 2 ^ LENGTH('a)" using u p by linarith
    ultimately show ?thesis by (metis le_mod_geq mod_less)
  qed
  also have "\<dots> < 2 ^ g" using u p by linarith
  finally have "unat (sz + (onebit g - 1)) div 2 ^ g = 0" by simp
  then have "unat (align_up sz (onebit g)) = 0"
    unfolding align_up_def add_diff_eq [symmetric] and_not_mask_unat by simp
  then show ?thesis by (simp add: unat_eq_0)
qed

text \<open>a request within one granule of the top of the size type wraps to size 0 while it is
  rounded, passes the size check, and is answered with an empty range that other blocks may start at.\<close>

theorem oversized_request_gets_empty_range:
  assumes "g < LENGTH('a)" and "2 ^ LENGTH('a) < unat sz + 2 ^ g"
  shows "allocate (onebit g) F ((0, e) # rest) sz al
    = Some ((0, 0 :: 'a::len word), (if 0 < e then [(0, e)] else []) @ rest)"
proof -
  have "align_up 0 x = (0 :: 'a word)" for x
    by (simp add: align_up_def)
  then show ?thesis using align_up_overflow [OF assms] by (simp add: allocate_def)
qed

theorem oversized_request_gets_empty_range_witness:
  "allocate (onebit 6) 1024 [(0, 1024)] 0xFFFFFFFF 1 = Some ((0, 0 :: u32), [(0, 1024)])"
  using oversized_request_gets_empty_range [of 6 "0xFFFFFFFF :: u32" 1024 1024 "[]" 1] by simp

end
