(* ===== verification/Versioned_Map.thy ===== *)
theory Versioned_Map
  imports Prelude
begin

text \<open>
  The contract the two versioned containers share (\<open>V8gFlatMap\<close> and \<open>V8gHashTrie\<close>, described in
  include/voxen/common/v8g_flat_map.hpp and v8g_hash_trie.hpp): a finite map from keys to values
  with the version of the last change. A client that drives a container by a script of inserts and
  erases sees what the script does to a map.
\<close>

datatype ('k, 'v) map_op = Insert u64 'k 'v | Erase u64 'k

fun apply_op :: "('k, 'v) map_op \<Rightarrow> ('k \<rightharpoonup> u64 \<times> 'v) \<Rightarrow> 'k \<rightharpoonup> u64 \<times> 'v" where
  "apply_op (Insert timeline k v) m = m(k \<mapsto> (timeline, v))"
| "apply_op (Erase timeline k) m = m(k := None)"

locale versioned_map =
  fixes inv :: "'s \<Rightarrow> bool" and entries :: "'s \<Rightarrow> 'k \<rightharpoonup> u64 \<times> 'v"
    and put :: "u64 \<Rightarrow> 'k \<Rightarrow> 'v \<Rightarrow> 's \<Rightarrow> 's" and del :: "u64 \<Rightarrow> 'k \<Rightarrow> 's \<Rightarrow> 's"
  assumes put_law: "inv s \<Longrightarrow> inv (put timeline k v s) \<and> entries (put timeline k v s) = (entries s)(k \<mapsto> (timeline, v))"
    and del_law: "inv s \<Longrightarrow> inv (del timeline k s) \<and> entries (del timeline k s) = (entries s)(k := None)"
begin

fun run_op :: "('k, 'v) map_op \<Rightarrow> 's \<Rightarrow> 's" where
  "run_op (Insert timeline k v) s = put timeline k v s"
| "run_op (Erase timeline k) s = del timeline k s"

lemma run_op_law: "inv s \<Longrightarrow> inv (run_op op s) \<and> entries (run_op op s) = apply_op op (entries s)"
  using put_law del_law by (cases op) simp_all

lemma run_law: "inv s \<Longrightarrow> inv (fold run_op ops s) \<and> entries (fold run_op ops s) = fold apply_op ops (entries s)"
  using run_op_law by (induction ops arbitrary: s) simp_all

end

end
