(* ===== verification/Flat_Map.thy ===== *)
theory Flat_Map
  imports Versioned_Map
begin

text \<open>
  \<open>V8gFlatMap\<close> (include/voxen/common/v8g_flat_map_impl.hpp): a vector of items (version, key, value
  pointer) sorted by key. An iterator is an index, the past-the-end one the length. A value pointer
  is the value it points to (null pointers are not modelled); the constructors of the value types
  are the parameter \<open>mk\<close>.
\<close>

section \<open>Definitions\<close>

type_synonym ('k, 'v) v8g_item = "u64 \<times> 'k \<times> 'v"

abbreviation version :: "('k, 'v) v8g_item \<Rightarrow> u64" where "version \<equiv> fst"
abbreviation itemKey :: "('k, 'v) v8g_item \<Rightarrow> 'k" where "itemKey it \<equiv> fst (snd it)"
abbreviation itemValue :: "('k, 'v) v8g_item \<Rightarrow> 'v" where "itemValue it \<equiv> snd (snd it)"

text \<open>\<open>std::ranges::lower_bound\<close> on a vector sorted by key.\<close>

definition lower_bound :: "'k::linorder \<Rightarrow> ('k, 'v) v8g_item list \<Rightarrow> nat" where
  "lower_bound key items = length (takeWhile (\<lambda>it. itemKey it < key) items)"

definition key_here :: "nat \<Rightarrow> 'k::linorder \<Rightarrow> ('k, 'v) v8g_item list \<Rightarrow> bool" where
  "key_here iter key items \<longleftrightarrow> iter < length items \<and> itemKey (items ! iter) = key"

definition fm_insert :: "u64 \<Rightarrow> 'k::linorder \<Rightarrow> 'v \<Rightarrow> ('k, 'v) v8g_item list \<Rightarrow> ('k, 'v) v8g_item list" where
  "fm_insert timeline key value_ptr items =
     (let iter = lower_bound key items
      in if key_here iter key items
         then items[iter := (timeline, key, value_ptr)]
         else take iter items @ (timeline, key, value_ptr) # drop iter items)"

text \<open>The overload that takes a value: move-assigned in place, or a new pointer.\<close>

definition fm_insert_value ::
  "bool \<Rightarrow> u64 \<Rightarrow> 'k::linorder \<Rightarrow> 'v \<Rightarrow> ('k, 'v) v8g_item list \<Rightarrow> ('k, 'v) v8g_item list" where
  "fm_insert_value move_assignable timeline key value items =
     (let iter = lower_bound key items
      in if key_here iter key items
         then (if move_assignable
               then (let items' = items[iter := (timeline, snd (items ! iter))]
                     in items'[iter := (fst (items' ! iter), key, value)])
               else items[iter := (timeline, key, value)])
         else take iter items @ (timeline, key, value) # drop iter items)"

definition fm_erase_at :: "nat \<Rightarrow> ('k, 'v) v8g_item list \<Rightarrow> ('k, 'v) v8g_item list" where
  "fm_erase_at iter items = take iter items @ drop (Suc iter) items"

definition fm_erase :: "'k::linorder \<Rightarrow> ('k, 'v) v8g_item list \<Rightarrow> ('k, 'v) v8g_item list" where
  "fm_erase key items =
     (let iter = lower_bound key items
      in if key_here iter key items then fm_erase_at iter items else items)"

text \<open>The mutable \<open>find\<close> stamps the item; the pointer it returns is its index.\<close>

definition fm_find_mutable ::
  "u64 \<Rightarrow> 'k::linorder \<Rightarrow> ('k, 'v) v8g_item list \<Rightarrow> nat option \<times> ('k, 'v) v8g_item list" where
  "fm_find_mutable timeline key items =
     (let iter = lower_bound key items
      in if key_here iter key items
         then (Some iter, items[iter := (timeline, snd (items ! iter))])
         else (None, items))"

definition fm_find :: "'k::linorder \<Rightarrow> ('k, 'v) v8g_item list \<Rightarrow> nat" where
  "fm_find key items =
     (let iter = lower_bound key items
      in if key_here iter key items then iter else length items)"

text \<open>The immutable copies. \<open>old\<close> is the ever-advancing range of old items.\<close>

fun fm_copy :: "('m \<Rightarrow> 'v option \<Rightarrow> 'v) \<Rightarrow> ('k::linorder, 'm) v8g_item list \<Rightarrow> ('k, 'v) v8g_item list \<Rightarrow> ('k, 'v) v8g_item list" where
  "fm_copy mk [] old = []"
| "fm_copy mk ((mut_version, mut_key, mut_value) # mut_items) old =
     (let old' = dropWhile (\<lambda>it. itemKey it < mut_key) old;
          new_value =
            (if old' \<noteq> [] \<and> itemKey (hd old') = mut_key
             then (if version (hd old') = mut_version then itemValue (hd old')
                   else mk mut_value (Some (itemValue (hd old'))))
             else mk mut_value None)
      in (mut_version, mut_key, new_value) # fm_copy mk mut_items old')"

fun fm_damaging_copy ::
  "('m \<Rightarrow> 'v option \<Rightarrow> 'v \<times> 'm) \<Rightarrow> ('k::linorder, 'm) v8g_item list \<Rightarrow> ('k, 'v) v8g_item list
     \<Rightarrow> ('k, 'v) v8g_item list \<times> ('k, 'm) v8g_item list" where
  "fm_damaging_copy mk [] old = ([], [])"
| "fm_damaging_copy mk ((mut_version, mut_key, mut_value) # mut_items) old =
     (let old' = dropWhile (\<lambda>it. itemKey it < mut_key) old;
          (new_value, mut_value') =
            (if old' \<noteq> [] \<and> itemKey (hd old') = mut_key
             then (if version (hd old') = mut_version then (itemValue (hd old'), mut_value)
                   else mk mut_value (Some (itemValue (hd old'))))
             else mk mut_value None);
          (news, muts) = fm_damaging_copy mk mut_items old'
      in ((mut_version, mut_key, new_value) # news, (mut_version, mut_key, mut_value') # muts))"

definition fm_shared_copy :: "('k, 'v) v8g_item list \<Rightarrow> ('k, 'v) v8g_item list" where
  "fm_shared_copy mut_items = map (\<lambda>(mut_version, mut_key, mut_value). (mut_version, mut_key, mut_value)) mut_items"

text \<open>\<open>visitDiff\<close>. The visitor carries a state; it returns \<open>False\<close> to stop. The inner loop over the
  removed items returns \<open>None\<close> in its first component when the visitor stopped there.\<close>

type_synonym ('k, 'v, 's) visitor = "'k \<Rightarrow> 'v option \<Rightarrow> 'v option \<Rightarrow> 's \<Rightarrow> bool \<times> 's"

fun visit_removed ::
  "('k::linorder, 'v, 's) visitor \<Rightarrow> 'k \<Rightarrow> ('k, 'v) v8g_item list \<Rightarrow> 's \<Rightarrow> ('k, 'v) v8g_item list option \<times> 's" where
  "visit_removed visitor key [] s = (Some [], s)"
| "visit_removed visitor key (it # old) s =
     (if itemKey it < key
      then (let (proceed, s') = visitor (itemKey it) None (Some (itemValue it)) s
            in if \<not> proceed then (None, s') else visit_removed visitor key old s')
      else (Some (it # old), s))"

fun fm_visitDiff ::
  "('k::linorder, 'v, 's) visitor \<Rightarrow> ('k, 'v) v8g_item list \<Rightarrow> ('k, 'v) v8g_item list \<Rightarrow> 's \<Rightarrow> 's" where
  "fm_visitDiff visitor [] old s = s"
| "fm_visitDiff visitor ((ver, key, value_ptr) # items) old s =
     (case visit_removed visitor key old s of
        (None, s') \<Rightarrow> s'
      | (Some old', s') \<Rightarrow>
          if old' \<noteq> [] \<and> itemKey (hd old') = key \<and> version (hd old') = ver
          then fm_visitDiff visitor items (tl old') s'
          else (let same_key = (old' \<noteq> [] \<and> itemKey (hd old') = key);
                    old_value_ptr = (if same_key then Some (itemValue (hd old')) else None);
                    old'' = (if same_key then tl old' else old');
                    (proceed, s'') = visitor key (Some value_ptr) old_value_ptr s'
                in if \<not> proceed then s'' else fm_visitDiff visitor items old'' s''))"

section \<open>Sorted items as a map\<close>

definition fm_sorted :: "('k::linorder, 'v) v8g_item list \<Rightarrow> bool" where
  "fm_sorted items \<longleftrightarrow> sorted_wrt (<) (map itemKey items)"

definition fm_entries :: "('k, 'v) v8g_item list \<Rightarrow> 'k \<rightharpoonup> u64 \<times> 'v" where
  "fm_entries items = map_of (map (\<lambda>(ver, key, v). (key, (ver, v))) items)"

lemma fm_entries_simps [simp]:
  "fm_entries [] = Map.empty"
  "fm_entries ((ver, key, v) # items) = (fm_entries items)(key \<mapsto> (ver, v))"
  by (simp_all add: fm_entries_def)

lemma fm_sorted_simps [simp]:
  "fm_sorted []" "fm_sorted (it # items) \<longleftrightarrow> (\<forall>x\<in>set items. itemKey it < itemKey x) \<and> fm_sorted items"
  by (simp_all add: fm_sorted_def)

lemma fm_entries_None: "(\<forall>x\<in>set items. itemKey x \<noteq> k) \<Longrightarrow> fm_entries items k = None"
  by (induction items) auto

lemma fm_entries_Some: "fm_entries items k = Some (ver, v) \<Longrightarrow> (ver, k, v) \<in> set items"
  by (induction items) (auto split: if_splits)

lemma fm_entries_append: "fm_entries (xs @ ys) = fm_entries ys ++ fm_entries xs"
  by (simp add: fm_entries_def)

lemma fm_sorted_append:
  "fm_sorted (xs @ ys) \<longleftrightarrow> fm_sorted xs \<and> fm_sorted ys \<and> (\<forall>x\<in>set xs. \<forall>y\<in>set ys. itemKey x < itemKey y)"
  by (auto simp: fm_sorted_def sorted_wrt_append)

lemma fm_entries_below: "(\<forall>x\<in>set items. itemKey x < (k :: 'k::linorder)) \<Longrightarrow> fm_entries items k = None"
  by (rule fm_entries_None) (metis less_irrefl)

lemma fm_entries_beyond: "(\<forall>x\<in>set items. (k :: 'k::linorder) < itemKey x) \<Longrightarrow> fm_entries items k = None"
  by (rule fm_entries_None) (metis less_irrefl)

lemmas fm_entries_outside = fm_entries_below fm_entries_beyond

text \<open>Where the key is, or would be.\<close>

lemma lower_bound_split:
  assumes "fm_sorted items"
  obtains (found) lo ver v hi where "items = lo @ (ver, key, v) # hi" "lower_bound key items = length lo"
      "key_here (length lo) key items"
  | (missing) lo hi where "items = lo @ hi" "lower_bound key items = length lo"
      "\<not> key_here (length lo) key items" "\<forall>x\<in>set lo. itemKey x < key" "\<forall>x\<in>set hi. key < itemKey x"
proof -
  define lo where "lo = takeWhile (\<lambda>it. itemKey it < key) items"
  define hi where "hi = dropWhile (\<lambda>it. itemKey it < key) items"
  have i: "items = lo @ hi" by (simp add: lo_def hi_def)
  have l: "lower_bound key items = length lo" by (simp add: lower_bound_def lo_def)
  have lo: "\<forall>x\<in>set lo. itemKey x < key" by (auto simp: lo_def dest: set_takeWhileD)
  have hd: "hi \<noteq> [] \<Longrightarrow> key \<le> itemKey (hd hi)" unfolding hi_def by (metis hd_dropWhile not_le)
  show thesis
  proof (cases "hi \<noteq> [] \<and> itemKey (hd hi) = key")
    case True
    then obtain ver v hi' where "hi = (ver, key, v) # hi'" by (cases hi) auto
    then show thesis using found [of lo ver v hi'] i l by (simp add: key_here_def)
  next
    case False
    have "\<forall>x\<in>set hi. key < itemKey x"
    proof (cases hi)
      case (Cons h hs)
      then have "key < itemKey h" using False hd by auto
      moreover have "fm_sorted (h # hs)" using assms unfolding i Cons fm_sorted_append by blast
      ultimately show ?thesis using Cons by auto
    qed simp
    moreover have "\<not> key_here (length lo) key items" using False unfolding i
      by (cases hi) (auto simp: key_here_def)
    ultimately show thesis using missing [OF i l] lo by blast
  qed
qed

lemma sorted_middle:
  "fm_sorted (lo @ (ver, key, v) # hi) \<Longrightarrow>
     (\<forall>x\<in>set lo. itemKey x < key) \<and> (\<forall>x\<in>set hi. key < itemKey x) \<and> fm_sorted (lo @ hi) \<and> fm_sorted (lo @ (ver', key, v') # hi)"
  by (fastforce simp: fm_sorted_append)

lemma entries_middle:
  "(\<forall>x\<in>set lo. itemKey x < (key :: 'k::linorder)) \<Longrightarrow> (\<forall>x\<in>set hi. key < itemKey x) \<Longrightarrow>
     fm_entries (lo @ (ver, key, v) # hi) = (fm_entries (lo @ hi))(key \<mapsto> (ver, v))
     \<and> fm_entries (lo @ hi) key = None"
proof -
  assume a: "\<forall>x\<in>set lo. itemKey x < key" "\<forall>x\<in>set hi. key < itemKey x"
  have "fm_entries lo key = None" "fm_entries hi key = None" by (rule fm_entries_below [OF a(1)], rule fm_entries_beyond [OF a(2)])
  then show ?thesis by (auto simp: fm_entries_append map_add_def split: option.splits)
qed

lemma fm_insert_law:
  assumes "fm_sorted items"
  shows "fm_sorted (fm_insert timeline key v items)
    \<and> fm_entries (fm_insert timeline key v items) = (fm_entries items)(key \<mapsto> (timeline, v))"
  using assms
proof (cases rule: lower_bound_split [where key = key])
  case (found lo ver v' hi)
  note m = sorted_middle [OF assms [unfolded found(1)], of timeline v]
  have "fm_insert timeline key v items = lo @ (timeline, key, v) # hi"
    using found by (simp add: fm_insert_def)
  then show ?thesis using m entries_middle [of lo key hi timeline v] entries_middle [of lo key hi ver v'] found(1) by simp
next
  case (missing lo hi)
  then have "fm_insert timeline key v items = lo @ (timeline, key, v) # hi" by (simp add: fm_insert_def)
  then show ?thesis using missing assms entries_middle [of lo key hi timeline v]
    by (fastforce simp: fm_sorted_append)
qed

lemma fm_insert_value_eq: "fm_insert_value assignable timeline key v items = fm_insert timeline key v items"
  by (simp add: fm_insert_value_def fm_insert_def Let_def key_here_def)

lemma fm_erase_law:
  assumes "fm_sorted items"
  shows "fm_sorted (fm_erase key items) \<and> fm_entries (fm_erase key items) = (fm_entries items)(key := None)"
  using assms
proof (cases rule: lower_bound_split [where key = key])
  case (found lo ver v' hi)
  note m = sorted_middle [OF assms [unfolded found(1)]]
  have "fm_erase key items = lo @ hi" using found by (simp add: fm_erase_def fm_erase_at_def)
  then show ?thesis using m entries_middle [of lo key hi ver v'] found(1) by auto
next
  case (missing lo hi)
  then have "fm_erase key items = items" by (simp add: fm_erase_def)
  moreover have "fm_entries items key = None" 
    unfolding missing(1) fm_entries_append map_add_def fm_entries_below [OF missing(4)] fm_entries_beyond [OF missing(5)] by simp
  ultimately show ?thesis using assms by auto
qed

lemma fm_find_law:
  assumes "fm_sorted items"
  shows "fm_entries items key =
    (if fm_find key items < length items
     then Some (version (items ! fm_find key items), itemValue (items ! fm_find key items)) else None)"
  using assms
proof (cases rule: lower_bound_split [where key = key])
  case (found lo ver v hi)
  have "fm_find key items = length lo" using found by (simp add: fm_find_def)
  then show ?thesis using sorted_middle [OF assms [unfolded found(1)]] entries_middle [of lo key hi ver v] found(1) by simp
next
  case (missing lo hi)
  then have "fm_find key items = length items" by (simp add: fm_find_def)
  moreover have "fm_entries items key = None" 
    unfolding missing(1) fm_entries_append map_add_def fm_entries_below [OF missing(4)] fm_entries_beyond [OF missing(5)] by simp
  ultimately show ?thesis by simp
qed

interpretation fm: versioned_map fm_sorted fm_entries fm_insert "\<lambda>timeline. fm_erase"
  by unfold_locales (rule fm_insert_law, assumption, rule fm_erase_law, assumption)

text \<open>after any script of inserts and erases \<open>find\<close> returns, for every key, the version and value
  of the last insert, or the end when the key was erased or never inserted.\<close>

theorem flat_map_is_a_map:
  "fold apply_op ops Map.empty key =
    (let items = fold fm.run_op ops []
     in if fm_find key items < length items
        then Some (version (items ! fm_find key items), itemValue (items ! fm_find key items)) else None)"
proof -
  have e: "fm_sorted (fold fm.run_op ops [])" "fold apply_op ops Map.empty = fm_entries (fold fm.run_op ops [])"
    using fm.run_law [of "[]" ops] by simp_all
  show ?thesis unfolding e(2) Let_def by (rule fm_find_law [OF e(1)])
qed

section \<open>Differences between two versions\<close>

fun run_visitor :: "('k, 'v, 's) visitor \<Rightarrow> ('k \<times> 'v option \<times> 'v option) list \<Rightarrow> 's \<Rightarrow> 's" where
  "run_visitor visitor [] s = s"
| "run_visitor visitor ((key, new, old) # events) s =
     (let (proceed, s') = visitor key new old s in if proceed then run_visitor visitor events s' else s')"

definition removed_event :: "('k, 'v) v8g_item \<Rightarrow> 'k \<times> 'v option \<times> 'v option" where
  "removed_event it = (itemKey it, None, Some (itemValue it))"

fun diff_events :: "('k::linorder, 'v) v8g_item list \<Rightarrow> ('k, 'v) v8g_item list \<Rightarrow> ('k \<times> 'v option \<times> 'v option) list" where
  "diff_events [] old = []"
| "diff_events ((ver, key, v) # items) old =
     map removed_event (takeWhile (\<lambda>it. itemKey it < key) old) @
     (case dropWhile (\<lambda>it. itemKey it < key) old of
        [] \<Rightarrow> (key, Some v, None) # diff_events items []
      | (over, okey, ov) # old' \<Rightarrow>
          if okey = key then (if over = ver then [] else [(key, Some v, Some ov)]) @ diff_events items old'
          else (key, Some v, None) # diff_events items ((over, okey, ov) # old'))"

lemma visit_removed_run:
  "visit_removed visitor key old s =
     (case visit_removed visitor key (takeWhile (\<lambda>it. itemKey it < key) old) s of
        (None, s') \<Rightarrow> (None, s') | (Some _, s') \<Rightarrow> (Some (dropWhile (\<lambda>it. itemKey it < key) old), s'))"
  by (induction visitor key old s rule: visit_removed.induct) (auto split: prod.splits option.splits)

lemma run_visitor_removed:
  "(\<forall>it\<in>set gone. itemKey it < key) \<Longrightarrow>
   run_visitor visitor (map removed_event gone @ events) s =
     (case visit_removed visitor key gone s of
        (None, s') \<Rightarrow> s' | (Some _, s') \<Rightarrow> run_visitor visitor events s')"
  by (induction gone arbitrary: s) (auto simp: removed_event_def split: prod.splits option.splits)

lemma visitDiff_run: "fm_visitDiff visitor items old s = run_visitor visitor (diff_events items old) s"
proof (induction items old arbitrary: s rule: diff_events.induct)
  case (2 ver key v items old)
  define gone where "gone = takeWhile (\<lambda>it. itemKey it < key) old"
  define rest where "rest = dropWhile (\<lambda>it. itemKey it < key) old"
  have g: "\<forall>it\<in>set gone. itemKey it < key" by (auto simp: gone_def dest: set_takeWhileD)
  show ?case
  proof (cases rest)
    case Nil
    then have rest: "dropWhile (\<lambda>it. itemKey it < key) old = []" by (simp add: rest_def)
    show ?thesis using 2(1) [OF rest]
      by (auto simp: visit_removed_run [of visitor key old] run_visitor_removed [OF g, unfolded gone_def]
          Let_def rest simp del: dropWhile_eq_Nil_conv split: prod.splits option.splits)
  next
    case (Cons h old')
    obtain over okey ov where h: "h = (over, okey, ov)" by (cases h)
    have rest: "dropWhile (\<lambda>it. itemKey it < key) old = (over, okey, ov) # old'"
      using Cons h by (simp add: rest_def)
    have ih: "fm_visitDiff visitor items old' s = run_visitor visitor (diff_events items old') s" if "okey = key" for s
      using 2(2) [OF rest [unfolded h]] that by simp
    have ih2: "fm_visitDiff visitor items ((over, okey, ov) # old') s
        = run_visitor visitor (diff_events items ((over, okey, ov) # old')) s" if "okey \<noteq> key" for s
      using 2(3) [OF rest [unfolded h]] that by simp
    show ?thesis using ih ih2
      by (auto simp: visit_removed_run [of visitor key old] run_visitor_removed [OF g, unfolded gone_def]
          Let_def rest split: prod.splits option.splits)
  qed
qed simp

text \<open>The reference: the keys whose version differs, with the two values.\<close>

definition changed :: "('k, 'v) v8g_item list \<Rightarrow> ('k, 'v) v8g_item list \<Rightarrow> 'k \<Rightarrow> bool" where
  "changed items old key \<longleftrightarrow> map_option fst (fm_entries items key) \<noteq> map_option fst (fm_entries old key)"

definition event_at :: "('k, 'v) v8g_item list \<Rightarrow> ('k, 'v) v8g_item list \<Rightarrow> 'k \<Rightarrow> 'k \<times> 'v option \<times> 'v option" where
  "event_at items old key = (key, map_option snd (fm_entries items key), map_option snd (fm_entries old key))"

lemma fm_keys_dom: "fst ` snd ` set items = dom (fm_entries items)"
  by (induction items) auto

definition seen_events :: "('k::linorder, 'v) v8g_item list \<Rightarrow> ('k, 'v) v8g_item list \<Rightarrow> ('k \<times> 'v option \<times> 'v option) set" where
  "seen_events items old = {event_at items old k |k. changed items old k \<and> (\<exists>x\<in>set items. k \<le> itemKey x)}"

lemma fm_entries_in: "fm_sorted items \<Longrightarrow> (ver, k, v) \<in> set items \<Longrightarrow> fm_entries items k = Some (ver, v)"
proof (induction items)
  case (Cons it items)
  then show ?case by (cases it) fastforce
qed simp

lemma seen_events_Cons:
  fixes key :: "'k::linorder"
  assumes s: "fm_sorted ((ver, key, v) # items)" "fm_sorted old"
    and o: "fm_entries old' = (\<lambda>k. if key < k then fm_entries old k else None)"
  shows "seen_events ((ver, key, v) # items) old = removed_event ` {it \<in> set old. itemKey it < key}
      \<union> (if map_option fst (fm_entries old key) = Some ver then {} else {(key, Some v, map_option snd (fm_entries old key))})
      \<union> seen_events items old'" (is "?L = ?R \<union> ?K \<union> ?E")
    and "\<forall>e\<in>seen_events items old'. key < fst e"
proof -
  let ?I = "(ver, key, v) # items"
  have up: "\<forall>x\<in>set items. key < itemKey x" using s(1) by simp
  have i_none: "fm_entries items k = None" if "k \<le> key" for k
    using up that by (intro fm_entries_beyond) (metis le_less_trans)
  have gt: "event_at ?I old k = event_at items old' k \<and> changed ?I old k = changed items old' k" if "key < k" for k
    using that o by (auto simp: event_at_def changed_def)
  have le: "\<not> changed items old' k" if "k \<le> key" for k
    using that o i_none by (auto simp: changed_def)
  show "\<forall>e\<in>seen_events items old'. key < fst e"
    using le by (auto simp: seen_events_def event_at_def not_le [symmetric])
  have part: "?L = {event_at ?I old k |k. changed ?I old k \<and> k < key}
    \<union> {event_at ?I old k |k. changed ?I old k \<and> k = key}
    \<union> {event_at ?I old k |k. changed ?I old k \<and> key < k \<and> (\<exists>x\<in>set items. k \<le> itemKey x)}"
  proof -
    have "(\<exists>x\<in>set ?I. k \<le> itemKey x) \<longleftrightarrow> k < key \<or> k = key \<or> (key < k \<and> (\<exists>x\<in>set items. k \<le> itemKey x))" for k
      by (cases k key rule: linorder_cases) auto
    then show ?thesis unfolding seen_events_def by blast
  qed
  have "{event_at ?I old k |k. changed ?I old k \<and> key < k \<and> (\<exists>x\<in>set items. k \<le> itemKey x)} = ?E"
  proof -
    have "(e = event_at ?I old k \<and> changed ?I old k \<and> key < k \<and> X) \<longleftrightarrow> (e = event_at items old' k \<and> changed items old' k \<and> X)" for e k X
      using gt [of k] le [of k] by (cases "key < k") auto
    then show ?thesis unfolding seen_events_def by blast
  qed
  moreover have "{event_at ?I old k |k. changed ?I old k \<and> k = key} = ?K"
    by (auto simp: changed_def event_at_def dest!: sym [of "Some ver"])
  moreover have "{event_at ?I old k |k. changed ?I old k \<and> k < key} = ?R"
  proof -
    have none: "fm_entries ?I k = None" if "k < key" for k using that i_none [of k] by simp
    show ?thesis
    proof (intro set_eqI iffI)
      fix e assume "e \<in> {event_at ?I old k |k. changed ?I old k \<and> k < key}"
      then obtain k where k: "e = event_at ?I old k" "changed ?I old k" "k < key" by blast
      then obtain over ov where "fm_entries old k = Some (over, ov)"
        using none [OF k(3)] by (auto simp: changed_def)
      then show "e \<in> ?R" using k none [OF k(3)] fm_entries_Some [of old k over ov]
        by (auto simp: event_at_def removed_event_def intro!: image_eqI [of _ _ "(over, k, ov)"])
    next
      fix e assume "e \<in> ?R"
      then obtain over k ov where it: "(over, k, ov) \<in> set old" "k < key" "e = (k, None, Some ov)"
        by (auto simp: removed_event_def)
      then show "e \<in> {event_at ?I old k |k. changed ?I old k \<and> k < key}"
        using fm_entries_in [OF s(2) it(1)] none [OF it(2)]
        by (auto simp: event_at_def changed_def intro!: exI [of _ k])
    qed
  qed
  ultimately show "?L = ?R \<union> ?K \<union> ?E" using part by simp
qed

lemma old_split:
  fixes key :: "'k::linorder"
  assumes "fm_sorted old"
  defines "gone \<equiv> takeWhile (\<lambda>it. itemKey it < key) old" and "rest \<equiv> dropWhile (\<lambda>it. itemKey it < key) old"
  shows "set gone = {it \<in> set old. itemKey it < key}" "sorted_wrt (<) (map itemKey gone)" "fm_sorted rest"
    "\<forall>x\<in>set rest. key \<le> itemKey x" "fm_entries old = fm_entries rest ++ fm_entries gone"
proof -
  have e: "old = gone @ rest" by (simp add: gone_def rest_def)
  have s: "fm_sorted gone" "fm_sorted rest" "\<forall>x\<in>set gone. \<forall>y\<in>set rest. itemKey x < itemKey y"
    using assms(1) unfolding e fm_sorted_append by blast+
  show "sorted_wrt (<) (map itemKey gone)" "fm_sorted rest" using s by (simp_all add: fm_sorted_def)
  show "fm_entries old = fm_entries rest ++ fm_entries gone" unfolding e fm_entries_append ..
  show r: "\<forall>x\<in>set rest. key \<le> itemKey x"
  proof (cases rest)
    case (Cons h hs)
    then have "\<not> itemKey h < key" unfolding rest_def by (metis hd_dropWhile list.distinct(1) list.sel(1))
    then show ?thesis using s(2) unfolding Cons by (auto simp: not_less intro: less_imp_le order.strict_trans1)
  qed simp
  have "\<forall>x\<in>set gone. itemKey x < key" by (auto simp: gone_def dest: set_takeWhileD)
  then show "set gone = {it \<in> set old. itemKey it < key}" using r unfolding e by (auto simp: not_le [symmetric])
qed

lemma events_join:
  fixes key :: "'k::linorder"
  assumes "sorted_wrt (<) (map fst gone)" "\<forall>e\<in>set gone. fst e < key" "sorted_wrt (<) (map fst es)"
    "\<forall>e\<in>set es. key < fst e" "\<forall>e\<in>set mid. fst e = key" "length mid \<le> 1"
  shows "sorted_wrt (<) (map fst (gone @ mid @ es))"
proof -
  have "sorted_wrt (<) (map fst mid)" using assms(6) by (cases mid) auto
  moreover have "\<forall>x\<in>set gone. \<forall>y\<in>set es. fst x < fst y" using assms(2,4) by (meson less_trans)
  moreover have "\<forall>x\<in>set gone. \<forall>y\<in>set mid. fst x < fst y" "\<forall>x\<in>set mid. \<forall>y\<in>set es. fst x < fst y"
    using assms(2,4,5) by simp_all
  ultimately show ?thesis using assms(1,3) by (auto simp: sorted_wrt_append)
qed

lemma diff_events_spec:
  "fm_sorted items \<Longrightarrow> fm_sorted old \<Longrightarrow>
     sorted_wrt (<) (map fst (diff_events items old)) \<and> set (diff_events items old) = seen_events items old"
proof (induction items old rule: diff_events.induct)
  case (1 old)
  then show ?case by (simp add: seen_events_def)
next
  case (2 ver key v items old)
  define gone where "gone = takeWhile (\<lambda>it. itemKey it < key) old"
  note os = old_split [OF 2(5), of key, folded gone_def]
  have si: "fm_sorted items" using 2(4) by simp
  have gone: "set (map removed_event gone) = removed_event ` {it \<in> set old. itemKey it < key}"
    using os(1) by simp
  have sg: "sorted_wrt (<) (map fst (map removed_event gone))" "\<forall>e\<in>set (map removed_event gone). fst e < key"
    using os(1,2) by (auto simp: removed_event_def comp_def)
  show ?case
  proof (cases "dropWhile (\<lambda>it. itemKey it < key) old")
    case Nil
    then have "fm_entries old = fm_entries gone" using os(5) unfolding Nil by simp
    moreover have "\<forall>k. key \<le> k \<longrightarrow> fm_entries gone k = None"
      using os(1) by (auto intro!: fm_entries_None)
    ultimately have none: "\<forall>k. key \<le> k \<longrightarrow> fm_entries old k = None" by simp
    then have "fm_entries [] = (\<lambda>k. if key < k then fm_entries old k else None)" by auto
    note se = seen_events_Cons [OF 2(4,5) this]
    have ih: "sorted_wrt (<) (map fst (diff_events items []))" "set (diff_events items []) = seen_events items []"
      using 2(1) [OF Nil si] by simp_all
    have d: "diff_events ((ver, key, v) # items) old = map removed_event gone @ (key, Some v, None) # diff_events items []"
      by (simp add: Nil gone_def del: dropWhile_eq_Nil_conv)
    have "fm_entries old key = None" using none by simp
    then have "set (diff_events ((ver, key, v) # items) old) = seen_events ((ver, key, v) # items) old"
      unfolding d se(1) using gone ih(2) by simp
    then show ?thesis using events_join [OF sg ih(1), of "[(key, Some v, None)]"] se(2) ih(2) unfolding d by simp
  next
    case (Cons h old')
    obtain over okey ov where h: "h = (over, okey, ov)" by (cases h)
    have rest: "fm_sorted ((over, okey, ov) # old')" "key \<le> okey"
        "fm_entries old = fm_entries ((over, okey, ov) # old') ++ fm_entries gone"
      using os(3,4,5) unfolding Cons h by simp_all
    have gk: "fm_entries gone k = None" if "key \<le> k" for k
      using os(1) that by (auto intro!: fm_entries_None)
    have ok: "fm_entries old k = fm_entries ((over, okey, ov) # old') k" if "key \<le> k" for k
      using gk [OF that] by (simp add: rest(3) map_add_def)
    have old'_none: "fm_entries old' k = None" if "k \<le> okey" for k
      using rest(1) that by (intro fm_entries_beyond) auto
    show ?thesis
    proof (cases "okey = key")
      case True
      have "fm_entries old' = (\<lambda>k. if key < k then fm_entries old k else None)"
        using ok old'_none True by auto
      note se = seen_events_Cons [OF 2(4,5) this]
      have ih: "sorted_wrt (<) (map fst (diff_events items old'))" "set (diff_events items old') = seen_events items old'"
        using 2(2) [OF Cons [unfolded h] refl refl True si] rest(1) by simp_all
      have d: "diff_events ((ver, key, v) # items) old = map removed_event gone
          @ (if over = ver then [] else [(key, Some v, Some ov)]) @ diff_events items old'"
        using Cons h True by (simp add: gone_def)
      have "fm_entries old key = Some (over, ov)" using ok [of key] True by simp
      then have "set (diff_events ((ver, key, v) # items) old) = seen_events ((ver, key, v) # items) old"
        unfolding d se(1) using gone ih(2) by auto
      then show ?thesis
        using events_join [OF sg ih(1), of "if over = ver then [] else [(key, Some v, Some ov)]"] se(2) ih(2)
        unfolding d by simp
    next
      case False
      then have lt: "key < okey" using rest(2) by simp
      have "fm_entries ((over, okey, ov) # old') = (\<lambda>k. if key < k then fm_entries old k else None)"
      proof
        fix k
        show "fm_entries ((over, okey, ov) # old') k = (if key < k then fm_entries old k else None)"
          using ok [of k] old'_none [of k] lt by auto
      qed
      note se = seen_events_Cons [OF 2(4,5) this]
      have ih: "sorted_wrt (<) (map fst (diff_events items ((over, okey, ov) # old')))"
          "set (diff_events items ((over, okey, ov) # old')) = seen_events items ((over, okey, ov) # old')"
        using 2(3) [OF Cons [unfolded h] refl refl False si rest(1)] by simp_all
      have d: "diff_events ((ver, key, v) # items) old = map removed_event gone
          @ (key, Some v, None) # diff_events items ((over, okey, ov) # old')"
        using Cons h False by (simp add: gone_def)
      have "fm_entries old key = None" using ok [of key] old'_none [of key] lt by simp
      then have "set (diff_events ((ver, key, v) # items) old) = seen_events ((ver, key, v) # items) old"
        unfolding d se(1) using gone ih(2) by simp
      then show ?thesis using events_join [OF sg ih(1), of "[(key, Some v, None)]"] se(2) ih(2) unfolding d by simp
    qed
  qed
qed

text \<open>\<open>visitDiff\<close> calls the visitor, in key order and until it returns false, for the keys that
  were added, removed or changed their version, but only up to the largest key of the new map: the
  removals of larger keys are never reported.\<close>

theorem visitDiff_reports:
  assumes "fm_sorted items" and "fm_sorted old"
  shows "\<exists>events. fm_visitDiff visitor items old s = run_visitor visitor events s
    \<and> sorted_wrt (<) (map fst events)
    \<and> set events = {event_at items old k |k. changed items old k \<and> (\<exists>x\<in>set items. k \<le> itemKey x)}"
  using diff_events_spec [OF assms] visitDiff_run [of visitor items old s]
  unfolding seen_events_def by blast

theorem visitDiff_reports_witness:
  "(\<exists>events. [(1, None, Some ''a''), (3, Some ''C'', Some ''c'')]
      = run_visitor (\<lambda>k new old log. (True, log @ [(k, new, old)])) events []
    \<and> sorted_wrt (<) (map fst events)
    \<and> set events = {event_at [(1, 2 :: nat, ''b''), (4, 3, ''C'')] [(1, 1, ''a''), (1, 2, ''b''), (1, 3, ''c''), (1, 9, ''z'')] k |k.
        changed [(1, 2 :: nat, ''b''), (4, 3, ''C'')] [(1, 1, ''a''), (1, 2, ''b''), (1, 3, ''c''), (1, 9, ''z'')] k
        \<and> (\<exists>x\<in>set [(1 :: u64, 2 :: nat, ''b''), (4, 3, ''C'')]. k \<le> itemKey x)})"
proof -
  have s: "fm_sorted [(1, 2 :: nat, ''b''), (4, 3, ''C'')]"
    "fm_sorted [(1, 1 :: nat, ''a''), (1, 2, ''b''), (1, 3, ''c''), (1, 9, ''z'')]" by simp_all
  have r: "fm_visitDiff (\<lambda>k new old log. (True, log @ [(k, new, old)])) [(1, 2 :: nat, ''b''), (4, 3, ''C'')]
     [(1, 1, ''a''), (1, 2, ''b''), (1, 3, ''c''), (1, 9, ''z'')] []
   = [(1, None, Some ''a''), (3, Some ''C'', Some ''c'')]" by simp
  show ?thesis using visitDiff_reports [OF s, of "\<lambda>k new old log. (True, log @ [(k, new, old)])" "[]", unfolded r] .
qed

section \<open>Immutable copies\<close>

text \<open>What a copy stores at a key, given the old copy.\<close>

definition copied_value :: "('m \<Rightarrow> 'v option \<Rightarrow> 'v) \<Rightarrow> (u64 \<times> 'v) option \<Rightarrow> u64 \<Rightarrow> 'm \<Rightarrow> 'v" where
  "copied_value mk old ver m =
     (case old of None \<Rightarrow> mk m None | Some (over, ov) \<Rightarrow> if over = ver then ov else mk m (Some ov))"

lemma head_entry:
  fixes key :: "'k::linorder"
  assumes "fm_sorted old" "\<forall>x\<in>set old. key \<le> itemKey x"
  shows "fm_entries old key = (if old \<noteq> [] \<and> itemKey (hd old) = key then Some (version (hd old), itemValue (hd old)) else None)"
proof (cases old)
  case (Cons h hs)
  show ?thesis
  proof (cases "itemKey h = key")
    case False
    then have "key < itemKey h" using assms(2) Cons by auto
    then have "\<forall>x\<in>set old. key < itemKey x" using assms(1) Cons by auto
    then have "fm_entries old key = None" by (rule fm_entries_beyond)
    then show ?thesis using False Cons by simp
  qed (use Cons in \<open>cases h; simp\<close>)
qed simp

lemma fm_copy_keys: "map (\<lambda>it. (version it, itemKey it)) (fm_copy mk mut old) = map (\<lambda>it. (version it, itemKey it)) mut"
  by (induction mk mut old rule: fm_copy.induct) (simp_all add: Let_def)

lemma fm_copy_sorted: "fm_sorted mut \<Longrightarrow> fm_sorted (fm_copy mk mut old)"
proof -
  have "map itemKey (fm_copy mk mut old) = map itemKey mut"
    using arg_cong [OF fm_copy_keys [of mk mut old], of "map snd"] by (simp add: comp_def)
  then show "fm_sorted mut \<Longrightarrow> ?thesis" by (simp add: fm_sorted_def)
qed

lemma fm_copy_entries:
  "fm_sorted mut \<Longrightarrow> fm_sorted old \<Longrightarrow>
     fm_entries (fm_copy mk mut old) k =
       map_option (\<lambda>(ver, m). (ver, copied_value mk (fm_entries old k) ver m)) (fm_entries mut k)"
proof (induction mk mut old rule: fm_copy.induct)
  case (2 mk ver key m mut old)
  define old' where "old' = dropWhile (\<lambda>it. itemKey it < key) old"
  note os = old_split [OF 2(3), of key, folded old'_def]
  have hd: "fm_entries old' key = (if old' \<noteq> [] \<and> itemKey (hd old') = key then Some (version (hd old'), itemValue (hd old')) else None)"
    using os(3,4) by (rule head_entry)
  have same: "fm_entries old k = fm_entries old' k" if "key \<le> k" for k
  proof -
    have "\<forall>x\<in>set (takeWhile (\<lambda>it. itemKey it < key) old). itemKey x < k"
      using that by (auto dest: set_takeWhileD)
    from fm_entries_below [OF this] show ?thesis unfolding os(5) by (simp add: map_add_def)
  qed
  have ih: "fm_entries (fm_copy mk mut old') k =
       map_option (\<lambda>(ver, m). (ver, copied_value mk (fm_entries old' k) ver m)) (fm_entries mut k)"
    using 2(1) [OF old'_def] 2(2) os(3) by (simp add: old'_def)
  have mut_none: "fm_entries mut k = None" if "k \<le> key"
    using 2(2) that by (intro fm_entries_beyond) auto
  consider "k < key" | "k = key" | "key < k" by (rule linorder_cases)
  then show ?case
  proof cases
    case 1
    then have "k \<noteq> key" by simp
    then show ?thesis using 1 ih mut_none by (simp add: Let_def old'_def)
  next
    case 2
    then show ?thesis using hd same [of key] by (simp add: Let_def old'_def copied_value_def split: option.splits)
  next
    case 3
    then have "k \<noteq> key" "key \<le> k" by simp_all
    then show ?thesis using 3 ih same [of k] by (simp add: Let_def old'_def)
  qed
qed simp

lemma fm_damaging_copy_news:
  "fst (fm_damaging_copy mk mut old) = fm_copy (\<lambda>m old. fst (mk m old)) mut old"
  by (induction mut arbitrary: old) (auto simp: Let_def case_prod_beta)

lemma fm_shared_copy_id: "fm_shared_copy mut = mut"
  by (induction mut) (auto simp: fm_shared_copy_def)

section \<open>Snapshots of a living map\<close>

text \<open>The container as its owner drives it: every change is stamped with the current timeline; a
  snapshot may reuse any earlier one, and the timeline advances after it. \<open>mk m old\<close> must be a copy
  \<open>conv m\<close> whatever the old value is.\<close>

record ('k, 'm, 'v) living_map =
  mut :: "('k, 'm) v8g_item list"
  snapshots :: "('k, 'v) v8g_item list list"
  now :: u64

inductive fm_step ::
  "('m \<Rightarrow> 'v option \<Rightarrow> 'v) \<Rightarrow> ('k::linorder, 'm, 'v) living_map \<Rightarrow> ('k, 'm, 'v) living_map \<Rightarrow> bool"
  for mk :: "'m \<Rightarrow> 'v option \<Rightarrow> 'v" where
  fm_step_insert: "fm_step mk st (st\<lparr>mut := fm_insert (now st) key m (mut st)\<rparr>)"
| fm_step_erase: "fm_step mk st (st\<lparr>mut := fm_erase key (mut st)\<rparr>)"
| fm_step_modify: "fm_find_mutable (now st) key (mut st) = (Some i, items) \<Longrightarrow>
    fm_step mk st (st\<lparr>mut := items[i := (version (items ! i), itemKey (items ! i), m)]\<rparr>)"
| fm_step_snapshot: "old \<in> set ([] # snapshots st) \<Longrightarrow> now st < now st + 1 \<Longrightarrow>
    fm_step mk st (st\<lparr>snapshots := fm_copy mk (mut st) old # snapshots st, now := now st + 1\<rparr>)"

text \<open>Equal versions mean equal values, and old versions lie behind the timeline.\<close>

definition agrees :: "('m \<Rightarrow> 'v) \<Rightarrow> ('k, 'm) v8g_item list \<Rightarrow> ('k, 'v) v8g_item list \<Rightarrow> bool" where
  "agrees conv items old \<longleftrightarrow> (\<forall>k ver m v. fm_entries items k = Some (ver, m) \<longrightarrow>
     fm_entries old k = Some (ver, v) \<longrightarrow> v = conv m)"

definition living_ok :: "('m \<Rightarrow> 'v) \<Rightarrow> ('k::linorder, 'm, 'v) living_map \<Rightarrow> bool" where
  "living_ok conv st \<longleftrightarrow> fm_sorted (mut st) \<and> (\<forall>it\<in>set (mut st). version it \<le> now st) \<and>
     (\<forall>old\<in>set (snapshots st). fm_sorted old \<and> (\<forall>it\<in>set old. version it < now st) \<and> agrees conv (mut st) old)"

lemma agrees_insert:
  assumes "agrees conv items old" "\<forall>it\<in>set old. version it < t" "fm_entries items' = (fm_entries items)(key \<mapsto> (t, m))"
  shows "agrees conv items' old"
proof -
  have "fm_entries old key \<noteq> Some (t, v)" for v
    using assms(2) fm_entries_Some [of old key t v] by force
  then show ?thesis using assms(1,3) by (auto simp: agrees_def)
qed

lemma modify_entries:
  assumes s: "fm_sorted items" and f: "fm_find_mutable t key items = (Some i, items')"
  shows "fm_sorted (items'[i := (version (items' ! i), itemKey (items' ! i), m)])
    \<and> fm_entries (items'[i := (version (items' ! i), itemKey (items' ! i), m)]) = (fm_entries items)(key \<mapsto> (t, m))"
  using s
proof (cases rule: lower_bound_split [where key = key])
  case (found lo ver v hi)
  have "i = length lo" "items' = items[length lo := (t, snd (items ! length lo))]"
    using f found(2,3) by (auto simp: fm_find_mutable_def Let_def)
  then have e: "items'[i := (version (items' ! i), itemKey (items' ! i), m)] = lo @ (t, key, m) # hi"
    using found(1) by (simp add: list_update_append)
  show ?thesis unfolding e
    using sorted_middle [OF s [unfolded found(1)], of t m] entries_middle [of lo key hi t m]
      entries_middle [of lo key hi ver v] found(1) by simp
next
  case (missing lo hi)
  then show ?thesis using f by (simp add: fm_find_mutable_def)
qed

lemma fm_insert_set: "set (fm_insert t key m items) \<subseteq> insert (t, key, m) (set items)"
  by (auto simp: fm_insert_def Let_def dest: in_set_takeD in_set_dropD set_update_subset_insert [THEN subsetD])

lemma fm_erase_set: "set (fm_erase key items) \<subseteq> set items"
  by (auto simp: fm_erase_def fm_erase_at_def Let_def dest: in_set_takeD in_set_dropD)

lemma modify_set:
  "fm_find_mutable t key items = (Some i, items') \<Longrightarrow> it \<in> set (items'[i := (version (items' ! i), itemKey (items' ! i), m)]) \<Longrightarrow>
     version it = t \<or> it \<in> set items"
  by (auto simp: fm_find_mutable_def key_here_def Let_def split: if_splits
      dest!: set_update_subset_insert [THEN subsetD])

lemma full_copy_agrees:
  assumes "\<forall>m old. mk m old = conv m" "fm_sorted items" "fm_sorted old" "agrees conv items old"
  shows "fm_entries (fm_copy mk items old) k = map_option (\<lambda>(ver, m). (ver, conv m)) (fm_entries items k)"
  unfolding fm_copy_entries [OF assms(2,3)]
proof (cases "fm_entries items k")
  case (Some vm)
  obtain ver m where "vm = (ver, m)" by (cases vm)
  then show "map_option (\<lambda>(ver, m). (ver, copied_value mk (fm_entries old k) ver m)) (fm_entries items k)
      = map_option (\<lambda>(ver, m). (ver, conv m)) (fm_entries items k)"
    using assms(1,4) Some by (auto simp: copied_value_def agrees_def split: option.splits)
qed simp

lemma living_ok_step:
  assumes mk: "\<forall>m old. mk m old = conv m"
  shows "fm_step mk st st' \<Longrightarrow> living_ok conv st \<Longrightarrow> living_ok conv st'"
proof (induction rule: fm_step.induct)
  case (fm_step_insert st key m)
  then show ?case
    using fm_insert_law [of "mut st" "now st" key m] fm_insert_set [of "now st" key m "mut st"]
    by (fastforce simp: living_ok_def intro: agrees_insert)
next
  case (fm_step_erase st key)
  then show ?case using fm_erase_law [of "mut st" key] fm_erase_set [of key "mut st"]
    by (fastforce simp: living_ok_def agrees_def)
next
  case (fm_step_modify st key i items m)
  then show ?case using modify_entries [OF _ fm_step_modify(1), of m] modify_set [OF fm_step_modify(1), of _ m]
    by (fastforce simp: living_ok_def intro: agrees_insert)
next
  case (fm_step_snapshot old st)
  have o: "fm_sorted old" "agrees conv (mut st) old" and s: "fm_sorted (mut st)"
    using fm_step_snapshot(1,3) by (auto simp: living_ok_def agrees_def)
  have "version ` set (fm_copy mk (mut st) old) = version ` set (mut st)"
    using arg_cong [OF fm_copy_keys [of mk "mut st" old], of "\<lambda>l. fst ` set l"] by (simp add: image_image)
  then have v: "\<forall>it\<in>set (fm_copy mk (mut st) old). version it < now st + 1"
    using fm_step_snapshot(2,3) unfolding living_ok_def
    by (metis (no_types, lifting) image_iff le_less_trans)
  have "agrees conv (mut st) (fm_copy mk (mut st) old)"
    unfolding agrees_def full_copy_agrees [OF mk s o] by auto
  moreover have up: "x < now st + 1" if "x < now st \<or> x \<le> now st" for x
    using that fm_step_snapshot(2) by (auto intro: less_trans le_less_trans)
  moreover have "\<forall>it\<in>set (mut st). version it \<le> now st + 1"
    using fm_step_snapshot(3) up less_imp_le unfolding living_ok_def by blast
  moreover have "\<forall>old\<in>set (snapshots st). fm_sorted old \<and> (\<forall>it\<in>set old. version it < now st + 1) \<and> agrees conv (mut st) old"
    using fm_step_snapshot(3) up unfolding living_ok_def by blast
  ultimately show ?case using s fm_copy_sorted [OF s] v by (simp add: living_ok_def)
qed

text \<open>C37: however the map is changed between snapshots and whichever earlier snapshot a copy reuses
  objects from, the copy has exactly the keys, versions and converted values of the mutable map.\<close>

theorem snapshot_is_exact:
  assumes "\<forall>m old. mk m old = conv m"
    and "(fm_step mk)\<^sup>*\<^sup>* \<lparr>mut = [], snapshots = [], now = t\<rparr> st" and "old \<in> set ([] # snapshots st)"
  shows "fm_entries (fm_copy mk (mut st) old) k = map_option (\<lambda>(ver, m). (ver, conv m)) (fm_entries (mut st) k)"
proof -
  have "living_ok conv \<lparr>mut = [], snapshots = [], now = t\<rparr>" by (simp add: living_ok_def)
  then have "living_ok conv st" using assms(2)
    by (induction rule: rtranclp_induct [OF assms(2)]) (auto intro: living_ok_step [OF assms(1)])
  then show ?thesis using assms(3) by (intro full_copy_agrees [OF assms(1)]) (auto simp: living_ok_def agrees_def)
qed

theorem snapshot_is_exact_witness:
  "fm_entries (fm_copy (\<lambda>m old. m + 1) [(6, 3 :: nat, 30)] [(5, 3, 21)]) 3 = Some (6, 31 :: nat)"
proof -
  define mk where "mk = (\<lambda>(m :: nat) (old :: nat option). m + 1)"
  have conv: "\<forall>m old. mk m old = m + 1" by (simp add: mk_def)
  define st where "st = (\<lparr>mut = [(5, 3, 20)], snapshots = [], now = 5\<rparr> :: (nat, nat, nat) living_map)"
  have 1: "fm_step mk \<lparr>mut = [], snapshots = [], now = 5\<rparr> st"
    using fm_step_insert [of mk "\<lparr>mut = [], snapshots = [], now = 5\<rparr>" 3 20]
    by (simp add: st_def fm_insert_def lower_bound_def key_here_def)
  have 2: "fm_step mk st \<lparr>mut = [(5, 3, 20)], snapshots = [[(5, 3, 21)]], now = 6\<rparr>"
    using fm_step_snapshot [of "[]" st mk] by (simp add: st_def mk_def)
  have 3: "fm_step mk \<lparr>mut = [(5, 3 :: nat, 20)], snapshots = [[(5, 3, 21)]], now = 6\<rparr>
      \<lparr>mut = [(6, 3, 30)], snapshots = [[(5, 3, 21)]], now = 6\<rparr>"
    using fm_step_insert [of mk "\<lparr>mut = [(5, 3, 20)], snapshots = [[(5, 3, 21)]], now = 6\<rparr>" 3 30]
    by (simp add: fm_insert_def lower_bound_def key_here_def)
  have "(fm_step mk)\<^sup>*\<^sup>* \<lparr>mut = [], snapshots = [], now = 5\<rparr> \<lparr>mut = [(6, 3 :: nat, 30)], snapshots = [[(5, 3, 21)]], now = 6\<rparr>"
    using 1 2 3 by (meson converse_rtranclp_into_rtranclp r_into_rtranclp)
  from snapshot_is_exact [OF conv this, of "[(5, 3, 21)]" 3] show ?thesis by (simp add: mk_def)
qed

end
