(* ===== verification/Hash_Trie.thy ===== *)
theory Hash_Trie
  imports Flat_Map Item_Storage
begin

text \<open>
  \<open>V8gHashTrie\<close> (include/voxen/common/v8g_hash_trie.hpp and v8g_hash_trie_impl.hpp): a 64-ary trie
  on 64-bit key hashes, of which 4 bits select a root node and 6 bits a slot of each node below. A
  slot holds a child node or an item; two bitmaps say which, and the packed arrays hold them in slot
  order (the item array grows down in memory, here its list index is the code's \<open>index\<close>). \<open>isz\<close> is
  \<open>sizeof(Item)\<close>, \<open>hash\<close> the key's hash. A depth counts the levels left below (10 under a root, for
  64 = 4 + 6 * 10); at depth 0 all hash bits are consumed and a shift by 64 would be undefined.
  Copy-on-write is the version stamp of a child: the contents of a copied node are equal.
\<close>

section \<open>Nodes\<close>

datatype ('k, 'v) tnode = Node
  (node_bitmap: u64) (item_bitmap: u64)
  (node_items: "(u64 \<times> ('k, 'v) tnode) list") (leaf_items: "('k, 'v) v8g_item list")
  (used_bytes: nat) (capacity_bytes: nat) (consumed_hash_bits: nat)

type_synonym ('k, 'v) node_item = "u64 \<times> ('k, 'v) tnode"

definition NODE_ITEM_SIZE :: nat where "NODE_ITEM_SIZE = 24"
definition INITIAL_CAPACITY :: "nat \<Rightarrow> nat" where "INITIAL_CAPACITY isz = 2 * max NODE_ITEM_SIZE isz"
definition MAX_CAPACITY :: "nat \<Rightarrow> nat" where "MAX_CAPACITY isz = 64 * max NODE_ITEM_SIZE isz"

definition allocateNode :: "nat \<Rightarrow> nat \<Rightarrow> ('k, 'v) tnode" where
  "allocateNode isz consumed = Node 0 0 [] [] 0 (INITIAL_CAPACITY isz) consumed"

text \<open>The copy constructor.\<close>

definition copy_into :: "('k, 'v) tnode \<Rightarrow> nat \<Rightarrow> ('k, 'v) tnode" where
  "copy_into old capacity =
     Node (node_bitmap old) (item_bitmap old)
       (map (\<lambda>i. node_items old ! i) [0..<popcount (node_bitmap old)])
       (map (\<lambda>i. leaf_items old ! i) [0..<popcount (item_bitmap old)])
       (used_bytes old) capacity (consumed_hash_bits old)"

definition copyNode :: "('k, 'v) tnode \<Rightarrow> ('k, 'v) tnode" where
  "copyNode old = copy_into old (capacity_bytes old)"

definition expandNode :: "nat \<Rightarrow> ('k, 'v) tnode \<Rightarrow> ('k, 'v) tnode" where
  "expandNode isz old =
     (let capacity = min (capacity_bytes old + capacity_bytes old div 2) (MAX_CAPACITY isz);
          capacity = (if capacity mod 8 \<noteq> 0 then capacity + (8 - capacity mod 8) else capacity)
      in copy_into old capacity)"

text \<open>The element-moving loops of the packed arrays.\<close>

fun shift_up :: "nat \<Rightarrow> nat \<Rightarrow> 'a list \<Rightarrow> 'a list" where
  "shift_up target 0 xs = xs"
| "shift_up target (Suc n) xs = shift_up target n (xs[target + Suc n := xs ! (target + n)])"

definition insert_slot :: "nat \<Rightarrow> nat \<Rightarrow> 'a \<Rightarrow> 'a list \<Rightarrow> 'a list" where
  "insert_slot target_index after x xs =
     (if after > 0
      then (shift_up target_index (after - 1) (xs @ [xs ! (target_index + (after - 1))]))[target_index := x]
      else xs @ [x])"

fun shift_down :: "nat \<Rightarrow> nat \<Rightarrow> 'a list \<Rightarrow> 'a list" where
  "shift_down move_to 0 xs = xs"
| "shift_down move_to (Suc n) xs = shift_down (move_to + 1) n (xs[move_to := xs ! (move_to + 1)])"

definition erase_slot :: "nat \<Rightarrow> nat \<Rightarrow> 'a list \<Rightarrow> 'a list" where
  "erase_slot target_index after xs = butlast (shift_down target_index (after - 1) xs)"

definition insertNode :: "u64 \<Rightarrow> ('k, 'v) node_item \<Rightarrow> ('k, 'v) tnode \<Rightarrow> ('k, 'v) tnode" where
  "insertNode sbit item node =
     Node (node_bitmap node OR sbit) (item_bitmap node)
       (insert_slot (popcount (node_bitmap node AND (sbit - 1))) (popcount (node_bitmap node AND NOT (sbit - 1)))
          item (node_items node))
       (leaf_items node) (used_bytes node + NODE_ITEM_SIZE) (capacity_bytes node) (consumed_hash_bits node)"

definition eraseNode :: "u64 \<Rightarrow> ('k, 'v) tnode \<Rightarrow> ('k, 'v) tnode" where
  "eraseNode sbit node =
     Node (node_bitmap node XOR sbit) (item_bitmap node)
       (erase_slot (popcount (node_bitmap node AND (sbit - 1))) (popcount (node_bitmap node AND NOT (sbit - 1)))
          (node_items node))
       (leaf_items node) (used_bytes node - NODE_ITEM_SIZE) (capacity_bytes node) (consumed_hash_bits node)"

definition insertItem :: "nat \<Rightarrow> u64 \<Rightarrow> ('k, 'v) v8g_item \<Rightarrow> ('k, 'v) tnode \<Rightarrow> ('k, 'v) tnode" where
  "insertItem isz sbit item node =
     Node (node_bitmap node) (item_bitmap node OR sbit) (node_items node)
       (insert_slot (popcount (item_bitmap node AND (sbit - 1))) (popcount (item_bitmap node AND NOT (sbit - 1)))
          item (leaf_items node))
       (used_bytes node + isz) (capacity_bytes node) (consumed_hash_bits node)"

definition eraseItem :: "nat \<Rightarrow> u64 \<Rightarrow> ('k, 'v) tnode \<Rightarrow> ('k, 'v) tnode" where
  "eraseItem isz sbit node =
     Node (node_bitmap node) (item_bitmap node XOR sbit) (node_items node)
       (erase_slot (popcount (item_bitmap node AND (sbit - 1))) (popcount (item_bitmap node AND NOT (sbit - 1)))
          (leaf_items node))
       (used_bytes node - isz) (capacity_bytes node) (consumed_hash_bits node)"

definition refNodeBit :: "u64 \<Rightarrow> ('k, 'v) tnode \<Rightarrow> ('k, 'v) node_item" where
  "refNodeBit sbit node = node_items node ! popcount (node_bitmap node AND (sbit - 1))"

definition refItemBit :: "u64 \<Rightarrow> ('k, 'v) tnode \<Rightarrow> ('k, 'v) v8g_item" where
  "refItemBit sbit node = leaf_items node ! popcount (item_bitmap node AND (sbit - 1))"

text \<open>Writing through these references.\<close>

definition set_node_bit :: "u64 \<Rightarrow> ('k, 'v) node_item \<Rightarrow> ('k, 'v) tnode \<Rightarrow> ('k, 'v) tnode" where
  "set_node_bit sbit item node =
     Node (node_bitmap node) (item_bitmap node)
       ((node_items node)[popcount (node_bitmap node AND (sbit - 1)) := item]) (leaf_items node)
       (used_bytes node) (capacity_bytes node) (consumed_hash_bits node)"

definition set_item_bit :: "u64 \<Rightarrow> ('k, 'v) v8g_item \<Rightarrow> ('k, 'v) tnode \<Rightarrow> ('k, 'v) tnode" where
  "set_item_bit sbit item node =
     Node (node_bitmap node) (item_bitmap node) (node_items node)
       ((leaf_items node)[popcount (item_bitmap node AND (sbit - 1)) := item])
       (used_bytes node) (capacity_bytes node) (consumed_hash_bits node)"

text \<open>\<open>uint64_t(1) << (hash_bits >> (64 - 6))\<close>.\<close>

definition slot_bit :: "u64 \<Rightarrow> u64" where
  "slot_bit hash_bits = onebit (unat (drop_bit (64 - 6) hash_bits))"

definition promoteItemToNode :: "nat \<Rightarrow> ('k \<Rightarrow> u64) \<Rightarrow> u64 \<Rightarrow> ('k, 'v) tnode \<Rightarrow> ('k, 'v) tnode" where
  "promoteItemToNode isz hash sbit node =
     (let item = refItemBit sbit node;
          child = allocateNode isz (consumed_hash_bits node + 6);
          child_bit = slot_bit (push_bit (consumed_hash_bits node + 6) (hash (itemKey item)))
      in insertNode sbit (version item, insertItem isz child_bit item child) (eraseItem isz sbit node))"

definition tryShrinkChildNode :: "nat \<Rightarrow> u64 \<Rightarrow> ('k, 'v) tnode \<Rightarrow> ('k, 'v) tnode" where
  "tryShrinkChildNode isz sbit node =
     (let child = snd (refNodeBit sbit node)
      in if node_bitmap child \<noteq> 0 then node
         else if item_bitmap child = 0 then eraseNode sbit node
         else if capacity_bytes node - used_bytes node + NODE_ITEM_SIZE < isz then node
         else if item_bitmap child AND (item_bitmap child - 1) = 0
              then insertItem isz sbit (leaf_items child ! 0) (eraseNode sbit node)
         else node)"

section \<open>Insert, erase, find\<close>

definition own :: "u64 \<Rightarrow> ('k, 'v) node_item \<Rightarrow> ('k, 'v) tnode" where
  "own timeline item = (if fst item \<noteq> timeline then copyNode (snd item) else snd item)"

text \<open>The loop of \<open>insert\<close>; \<open>None\<close> at depth 0. The second result tells whether \<open>m_size\<close> grows.\<close>

fun insert_at ::
  "nat \<Rightarrow> ('k \<Rightarrow> u64) \<Rightarrow> u64 \<Rightarrow> 'k \<Rightarrow> 'v \<Rightarrow> nat \<Rightarrow> u64 \<Rightarrow> ('k, 'v) node_item \<Rightarrow> (('k, 'v) node_item \<times> bool) option" where
  "insert_at isz hash timeline key v 0 hash_bits current = None"
| "insert_at isz hash timeline key v (Suc d) hash_bits current =
     (let node = own timeline current;
          sbit = slot_bit hash_bits;
          hash_bits = push_bit 6 hash_bits;
          descend = (\<lambda>node.
            map_option (\<lambda>(child, inserted). ((timeline, set_node_bit sbit child node), inserted))
              (insert_at isz hash timeline key v d hash_bits (refNodeBit sbit node)))
      in if node_bitmap node AND sbit \<noteq> 0 then descend node
         else if item_bitmap node AND sbit \<noteq> 0 then
           (let item = refItemBit sbit node
            in if itemKey item = key
               then Some ((timeline, set_item_bit sbit (timeline, itemKey item, v) node), False)
               else descend (promoteItemToNode isz hash sbit node))
         else
           (let node = (if used_bytes node + isz > capacity_bytes node then expandNode isz node else node)
            in Some ((timeline, insertItem isz sbit (timeline, key, v) node), True)))"

fun erase_at ::
  "nat \<Rightarrow> u64 \<Rightarrow> 'k \<Rightarrow> nat \<Rightarrow> u64 \<Rightarrow> ('k, 'v) node_item \<Rightarrow> (('k, 'v) node_item \<times> bool) option" where
  "erase_at isz timeline key 0 hash_bits current = None"
| "erase_at isz timeline key (Suc d) hash_bits current =
     (let sbit = slot_bit hash_bits;
          hash_bits = push_bit 6 hash_bits;
          node = snd current
      in if item_bitmap node AND sbit \<noteq> 0 then
           (if itemKey (refItemBit sbit node) \<noteq> key then Some (current, False)
            else Some ((timeline, eraseItem isz sbit (own timeline current)), True))
         else if node_bitmap node AND sbit = 0 then Some (current, False)
         else
           (let node = own timeline current
            in map_option
                 (\<lambda>(child, erased).
                    (let node = set_node_bit sbit child node
                     in ((timeline, if erased then tryShrinkChildNode isz sbit node else node), erased)))
                 (erase_at isz timeline key d hash_bits (refNodeBit sbit node))))"

fun find_at :: "'k \<Rightarrow> nat \<Rightarrow> u64 \<Rightarrow> ('k, 'v) tnode \<Rightarrow> ('k, 'v) v8g_item option" where
  "find_at key 0 hash_bits node = None"
| "find_at key (Suc d) hash_bits node =
     (let sbit = slot_bit hash_bits;
          hash_bits = push_bit 6 hash_bits
      in if item_bitmap node AND sbit \<noteq> 0 then
           (let item = refItemBit sbit node in if itemKey item = key then Some item else None)
         else if node_bitmap node AND sbit = 0 then None
         else find_at key d hash_bits (snd (refNodeBit sbit node)))"

section \<open>Ordered search\<close>

text \<open>\<open>while (combo_mask) { sbit = 1 << countr_zero(combo_mask); ...; combo_mask ^= sbit; }\<close> runs over
  the set bits from the lowest.\<close>

definition set_bits_of :: "u64 \<Rightarrow> nat list" where
  "set_bits_of w = filter (bit w) [0..<64]"

fun first_loop ::
  "u64 \<Rightarrow> (u64 \<Rightarrow> ('k, 'v) v8g_item) \<Rightarrow> ('k, 'v) v8g_item option list \<Rightarrow> nat list \<Rightarrow> nat \<Rightarrow> ('k, 'v) v8g_item option" where
  "first_loop item_mask item_ref firsts [] node_index = None"
| "first_loop item_mask item_ref firsts (b # bits) node_index =
     (if item_mask AND onebit b \<noteq> 0 then Some (item_ref (onebit b))
      else case firsts ! node_index of
        Some found \<Rightarrow> Some found
      | None \<Rightarrow> first_loop item_mask item_ref firsts bits (node_index + 1))"

fun findFirstItem :: "nat \<Rightarrow> ('k, 'v) tnode \<Rightarrow> ('k, 'v) v8g_item option" where
  "findFirstItem 0 node = None"
| "findFirstItem (Suc d) node =
     first_loop (item_bitmap node) (\<lambda>sbit. leaf_items node ! 0)
       (map (\<lambda>(ver, child). findFirstItem d child) (node_items node))
       (set_bits_of (node_bitmap node OR item_bitmap node)) 0"

fun findNextItem :: "('k \<Rightarrow> u64) \<Rightarrow> nat \<Rightarrow> u64 \<Rightarrow> ('k, 'v) tnode \<Rightarrow> ('k, 'v) v8g_item option" where
  "findNextItem hash 0 hash_bits node = None"
| "findNextItem hash (Suc d) hash_bits node =
     (let sbit = slot_bit hash_bits;
          combo_mask = (node_bitmap node OR item_bitmap node) AND NOT (push_bit 1 sbit - 1);
          rest = first_loop (item_bitmap node) (\<lambda>sbit. refItemBit sbit node)
                   (map (\<lambda>(ver, child). findFirstItem d child) (node_items node))
                   (set_bits_of combo_mask) (popcount (node_bitmap node AND NOT combo_mask));
          from_node = (if node_bitmap node AND sbit \<noteq> 0
                       then findNextItem hash d (push_bit 6 hash_bits) (snd (refNodeBit sbit node)) else None)
      in case from_node of
           Some found \<Rightarrow> Some found
         | None \<Rightarrow>
             if item_bitmap node AND sbit \<noteq> 0 \<and>
                hash_bits < push_bit (consumed_hash_bits node) (hash (itemKey (refItemBit sbit node)))
             then Some (refItemBit sbit node)
             else rest)"

section \<open>Visits\<close>

text \<open>A visitor carries a state and returns \<open>False\<close> to stop.\<close>

type_synonym ('k, 'v, 's) unary_visitor = "('k, 'v) v8g_item \<Rightarrow> 's \<Rightarrow> bool \<times> 's"
type_synonym ('k, 'v, 's) diff_visitor = "('k, 'v) v8g_item option \<Rightarrow> ('k, 'v) v8g_item option \<Rightarrow> 's \<Rightarrow> bool \<times> 's"

text \<open>\<open>a && b\<close> on actions.\<close>

definition and_then :: "('s \<Rightarrow> bool \<times> 's) \<Rightarrow> ('s \<Rightarrow> bool \<times> 's) \<Rightarrow> 's \<Rightarrow> bool \<times> 's" where
  "and_then a b s = (case a s of (True, s') \<Rightarrow> b s' | (False, s') \<Rightarrow> (False, s'))"

fun run_all :: "('s \<Rightarrow> bool \<times> 's) list \<Rightarrow> 's \<Rightarrow> bool \<times> 's" where
  "run_all [] s = (True, s)"
| "run_all (a # as) s = and_then a (run_all as) s"

text \<open>The loop over both arrays with \<open>node_ptr++\<close> and \<open>item_ptr--\<close>.\<close>

fun visit_loop ::
  "u64 \<Rightarrow> ('n \<Rightarrow> 's \<Rightarrow> bool \<times> 's) \<Rightarrow> ('i \<Rightarrow> 's \<Rightarrow> bool \<times> 's) \<Rightarrow> nat list \<Rightarrow> 'n list \<Rightarrow> 'i list \<Rightarrow> 's \<Rightarrow> bool \<times> 's" where
  "visit_loop node_mask on_node on_item [] node_ptr item_ptr s = (True, s)"
| "visit_loop node_mask on_node on_item (b # bits) node_ptr item_ptr s =
     (if node_mask AND onebit b \<noteq> 0
      then and_then (on_node (hd node_ptr)) (visit_loop node_mask on_node on_item bits (tl node_ptr) item_ptr) s
      else and_then (on_item (hd item_ptr)) (visit_loop node_mask on_node on_item bits node_ptr (tl item_ptr)) s)"

fun visitUnary :: "nat \<Rightarrow> ('k, 'v, 's) unary_visitor \<Rightarrow> ('k, 'v) tnode \<Rightarrow> 's \<Rightarrow> bool \<times> 's" where
  "visitUnary 0 visitor node s = (True, s)"
| "visitUnary (Suc d) visitor node s =
     visit_loop (node_bitmap node) (\<lambda>child. visitUnary d visitor (snd child)) visitor
       (set_bits_of (node_bitmap node OR item_bitmap node)) (node_items node) (leaf_items node) s"

definition visitDiffItemOrdered ::
  "('k \<Rightarrow> u64) \<Rightarrow> ('k, 'v) v8g_item \<Rightarrow> ('k, 'v) v8g_item \<Rightarrow> ('k, 'v, 's) diff_visitor \<Rightarrow> 's \<Rightarrow> bool \<times> 's" where
  "visitDiffItemOrdered hash a b visitor s =
     (if itemKey a = itemKey b
      then (if version a \<noteq> version b then visitor (Some a) (Some b) s else (True, s))
      else if hash (itemKey a) < hash (itemKey b)
      then and_then (visitor (Some a) None) (visitor None (Some b)) s
      else and_then (visitor None (Some b)) (visitor (Some a) None) s)"

text \<open>The loop of \<open>visitDiffItem\<close>, with the flag \<open>visited_item_bit\<close>.\<close>

fun diff_item_loop ::
  "u64 \<Rightarrow> nat \<Rightarrow> ('n \<Rightarrow> 's \<Rightarrow> bool \<times> 's) \<Rightarrow> ('i \<Rightarrow> 's \<Rightarrow> bool \<times> 's) \<Rightarrow> ('n \<Rightarrow> 's \<Rightarrow> bool \<times> 's) \<Rightarrow> ('i \<Rightarrow> 's \<Rightarrow> bool \<times> 's)
     \<Rightarrow> ('s \<Rightarrow> bool \<times> 's) \<Rightarrow> bool \<Rightarrow> nat list \<Rightarrow> 'n list \<Rightarrow> 'i list \<Rightarrow> 's \<Rightarrow> bool \<times> 's" where
  "diff_item_loop node_mask item_bit same_node same_item on_node on_item alone visited [] node_ptr item_ptr s =
     (if visited then (True, s) else alone s)"
| "diff_item_loop node_mask item_bit same_node same_item on_node on_item alone visited (b # bits) node_ptr item_ptr s =
     (if b = item_bit
      then (if node_mask AND onebit b \<noteq> 0
            then and_then (same_node (hd node_ptr))
                   (diff_item_loop node_mask item_bit same_node same_item on_node on_item alone True bits (tl node_ptr) item_ptr) s
            else and_then (same_item (hd item_ptr))
                   (diff_item_loop node_mask item_bit same_node same_item on_node on_item alone True bits node_ptr (tl item_ptr)) s)
      else
        (let now = (b > item_bit \<and> \<not> visited);
             visited = (visited \<or> now);
             rest = (if node_mask AND onebit b \<noteq> 0
               then and_then (on_node (hd node_ptr))
                      (diff_item_loop node_mask item_bit same_node same_item on_node on_item alone visited bits (tl node_ptr) item_ptr)
               else and_then (on_item (hd item_ptr))
                      (diff_item_loop node_mask item_bit same_node same_item on_node on_item alone visited bits node_ptr (tl item_ptr)))
         in if now then and_then alone rest s else rest s))"

fun visitDiffItem ::
  "('k \<Rightarrow> u64) \<Rightarrow> nat \<Rightarrow> ('k, 'v) v8g_item \<Rightarrow> ('k, 'v, 's) diff_visitor \<Rightarrow> ('k, 'v) tnode \<Rightarrow> 's \<Rightarrow> bool \<times> 's" where
  "visitDiffItem hash 0 item visitor node s = (True, s)"
| "visitDiffItem hash (Suc d) item visitor node s =
     (let item_bit = unat (drop_bit (64 - 6) (push_bit (consumed_hash_bits node) (hash (itemKey item))))
      in diff_item_loop (node_bitmap node) item_bit
           (\<lambda>child. visitDiffItem hash d item visitor (snd child))
           (\<lambda>it. visitDiffItemOrdered hash it item visitor)
           (\<lambda>child. visitUnary d (\<lambda>it. visitor (Some it) None) (snd child))
           (\<lambda>it. visitor (Some it) None)
           (visitor None (Some item))
           False (set_bits_of (node_bitmap node OR item_bitmap node)) (node_items node) (leaf_items node) s)"

text \<open>\<open>Node::visitDiff\<close>; the case number is computed as in the code.\<close>

fun node_visitDiff ::
  "('k \<Rightarrow> u64) \<Rightarrow> nat \<Rightarrow> ('k, 'v, 's) diff_visitor \<Rightarrow> ('k, 'v) tnode \<Rightarrow> ('k, 'v) tnode \<Rightarrow> 's \<Rightarrow> bool \<times> 's" where
  "node_visitDiff hash 0 visitor new_node old_node s = (True, s)"
| "node_visitDiff hash (Suc d) visitor new_node old_node s =
     run_all (map (\<lambda>b.
       let bt = onebit b;
           case_new = (if node_bitmap new_node AND bt \<noteq> 0 then 3
                       else if item_bitmap new_node AND bt = 0 then 6 else (0 :: nat));
           case_old = (if node_bitmap old_node AND bt \<noteq> 0 then 1
                       else if item_bitmap old_node AND bt = 0 then 2 else (0 :: nat));
           case_id = case_new + case_old
       in if case_id = 0 then visitDiffItemOrdered hash (refItemBit bt new_node) (refItemBit bt old_node) visitor
          else if case_id = 1 then visitDiffItem hash d (refItemBit bt new_node)
                 (\<lambda>node_item passed_item. visitor passed_item node_item) (snd (refNodeBit bt old_node))
          else if case_id = 2 then visitor (Some (refItemBit bt new_node)) None
          else if case_id = 3 then visitDiffItem hash d (refItemBit bt old_node) visitor (snd (refNodeBit bt new_node))
          else if case_id = 4 then
            (let new_child = refNodeBit bt new_node; old_child = refNodeBit bt old_node
             in if fst new_child \<noteq> fst old_child
                then node_visitDiff hash d visitor (snd new_child) (snd old_child) else Pair True)
          else if case_id = 5 then visitUnary d (\<lambda>it. visitor (Some it) None) (snd (refNodeBit bt new_node))
          else if case_id = 6 then visitor None (Some (refItemBit bt old_node))
          else if case_id = 7 then visitUnary d (\<lambda>it. visitor None (Some it)) (snd (refNodeBit bt old_node))
          else Pair False)
       (set_bits_of ((node_bitmap new_node OR item_bitmap new_node) OR (node_bitmap old_node OR item_bitmap old_node)))) s"

section \<open>The container\<close>

record ('k, 'v) trie =
  m_size :: nat
  m_root_nodes :: "(u64 \<times> ('k, 'v) tnode option) list"

definition ROOT_NODES_LOG2 :: nat where "ROOT_NODES_LOG2 = 4"

definition DEPTH :: nat where "DEPTH = 10"

definition new_trie :: "('k, 'v) trie" where
  "new_trie = \<lparr>m_size = 0, m_root_nodes = replicate (2 ^ ROOT_NODES_LOG2) (0, None)\<rparr>"

definition trie_root_index :: "u64 \<Rightarrow> nat" where
  "trie_root_index hash_bits = unat (drop_bit (64 - ROOT_NODES_LOG2) hash_bits)"

definition trie_insert :: "nat \<Rightarrow> ('k \<Rightarrow> u64) \<Rightarrow> u64 \<Rightarrow> 'k \<Rightarrow> 'v \<Rightarrow> ('k, 'v) trie \<Rightarrow> ('k, 'v) trie option" where
  "trie_insert isz hash timeline key v t =
     (let i = trie_root_index (hash key);
          current = (case m_root_nodes t ! i of
            (ver, None) \<Rightarrow> (timeline, allocateNode isz ROOT_NODES_LOG2)
          | (ver, Some node) \<Rightarrow> (ver, node))
      in map_option (\<lambda>((ver, node), inserted).
           \<lparr>m_size = m_size t + (if inserted then 1 else 0),
            m_root_nodes = (m_root_nodes t)[i := (ver, Some node)]\<rparr>)
         (insert_at isz hash timeline key v DEPTH (push_bit ROOT_NODES_LOG2 (hash key)) current))"

definition trie_erase :: "nat \<Rightarrow> ('k \<Rightarrow> u64) \<Rightarrow> u64 \<Rightarrow> 'k \<Rightarrow> ('k, 'v) trie \<Rightarrow> ('k, 'v) trie option" where
  "trie_erase isz hash timeline key t =
     (let i = trie_root_index (hash key)
      in case m_root_nodes t ! i of
           (ver, None) \<Rightarrow> Some t
         | (ver, Some node) \<Rightarrow>
             map_option (\<lambda>((ver, node), erased).
               \<lparr>m_size = m_size t - (if erased then 1 else 0),
                m_root_nodes = (m_root_nodes t)[i := (ver, Some node)]\<rparr>)
             (erase_at isz timeline key DEPTH (push_bit ROOT_NODES_LOG2 (hash key)) (ver, node)))"

definition trie_find :: "('k \<Rightarrow> u64) \<Rightarrow> 'k \<Rightarrow> ('k, 'v) trie \<Rightarrow> ('k, 'v) v8g_item option" where
  "trie_find hash key t =
     (case snd (m_root_nodes t ! trie_root_index (hash key)) of
        None \<Rightarrow> None
      | Some node \<Rightarrow> find_at key DEPTH (push_bit ROOT_NODES_LOG2 (hash key)) node)"

fun first_root :: "(u64 \<times> ('k, 'v) tnode option) list \<Rightarrow> ('k, 'v) v8g_item option" where
  "first_root [] = None"
| "first_root ((ver, None) # roots) = first_root roots"
| "first_root ((ver, Some node) # roots) =
     (case findFirstItem DEPTH node of Some found \<Rightarrow> Some found | None \<Rightarrow> first_root roots)"

definition trie_findFirst :: "('k, 'v) trie \<Rightarrow> ('k, 'v) v8g_item option" where
  "trie_findFirst t = first_root (m_root_nodes t)"

definition trie_findNext :: "('k \<Rightarrow> u64) \<Rightarrow> 'k \<Rightarrow> ('k, 'v) trie \<Rightarrow> ('k, 'v) v8g_item option" where
  "trie_findNext hash key t =
     (let i = trie_root_index (hash key);
          here = (case snd (m_root_nodes t ! i) of
            None \<Rightarrow> None
          | Some node \<Rightarrow> findNextItem hash DEPTH (push_bit ROOT_NODES_LOG2 (hash key)) node)
      in case here of Some found \<Rightarrow> Some found | None \<Rightarrow> first_root (drop (i + 1) (m_root_nodes t)))"

definition trie_visitDiff :: "('k \<Rightarrow> u64) \<Rightarrow> ('k, 'v, 's) diff_visitor \<Rightarrow> ('k, 'v) trie \<Rightarrow> ('k, 'v) trie \<Rightarrow> 's \<Rightarrow> 's" where
  "trie_visitDiff hash visitor t old s =
     snd (run_all (map (\<lambda>(new_root, old_root).
       if fst new_root = fst old_root then Pair True
       else case (snd new_root, snd old_root) of
         (None, None) \<Rightarrow> Pair True
       | (None, Some old_node) \<Rightarrow> visitUnary DEPTH (\<lambda>it. visitor None (Some it)) old_node
       | (Some new_node, None) \<Rightarrow> visitUnary DEPTH (\<lambda>it. visitor (Some it) None) new_node
       | (Some new_node, Some old_node) \<Rightarrow> node_visitDiff hash DEPTH visitor new_node old_node)
       (zip (m_root_nodes t) (m_root_nodes old))) s)"

text \<open>Moves take the contents and leave an empty container; copy assignment copies what differs.\<close>

definition trie_move :: "('k, 'v) trie \<Rightarrow> ('k, 'v) trie \<times> ('k, 'v) trie" where
  "trie_move other =
     (\<lparr>m_size = m_size other, m_root_nodes = map (\<lambda>i. m_root_nodes other ! i) [0..<2 ^ ROOT_NODES_LOG2]\<rparr>,
      \<lparr>m_size = 0, m_root_nodes = map (\<lambda>i. (0, None)) [0..<2 ^ ROOT_NODES_LOG2]\<rparr>)"

definition trie_copy_assign :: "('k, 'v) trie \<Rightarrow> ('k, 'v) trie \<Rightarrow> ('k, 'v) trie" where
  "trie_copy_assign t other =
     \<lparr>m_size = m_size other,
      m_root_nodes = map (\<lambda>i. if m_root_nodes t ! i \<noteq> m_root_nodes other ! i
                               then m_root_nodes other ! i else m_root_nodes t ! i) [0..<2 ^ ROOT_NODES_LOG2]\<rparr>"

section \<open>The packed arrays of a node\<close>

lemma length_shift_up [simp]: "length (shift_up t n xs) = length xs"
  by (induction t n xs rule: shift_up.induct) simp_all

lemma length_shift_down [simp]: "length (shift_down t n xs) = length xs"
  by (induction t n xs rule: shift_down.induct) simp_all

lemma nth_shift_up:
  "t + n < length xs \<Longrightarrow> k < length xs \<Longrightarrow>
     shift_up t n xs ! k = (if t < k \<and> k \<le> t + n then xs ! (k - 1) else xs ! k)"
  by (induction t n xs rule: shift_up.induct) (auto simp: nth_list_update)

lemma nth_shift_down:
  "t + n < length xs \<Longrightarrow> k < length xs \<Longrightarrow>
     shift_down t n xs ! k = (if t \<le> k \<and> k < t + n then xs ! (k + 1) else xs ! k)"
  by (induction t n xs rule: shift_down.induct) (auto simp: nth_list_update)

lemma insert_slot_eq:
  "t \<le> length xs \<Longrightarrow> insert_slot t (length xs - t) x xs = take t xs @ x # drop t xs"
proof (cases "t < length xs")
  case True
  define ys where "ys = xs @ [xs ! (length xs - 1)]"
  define zs where "zs = (shift_up t (length xs - t - 1) ys)[t := x]"
  have zs: "insert_slot t (length xs - t) x xs = zs"
    using True by (simp add: insert_slot_def zs_def ys_def)
  show ?thesis unfolding zs
  proof (intro nth_equalityI)
    fix i assume "i < length zs"
    then have i: "i < Suc (length xs)" by (simp add: zs_def ys_def)
    then have "shift_up t (length xs - t - 1) ys ! i = (if t < i \<and> i \<le> length xs - 1 then ys ! (i - 1) else ys ! i)"
      using True nth_shift_up [of t "length xs - t - 1" ys i] by (simp add: ys_def)
    then show "zs ! i = (take t xs @ x # drop t xs) ! i"
      using i True by (cases "i = length xs") (auto simp: zs_def ys_def nth_append nth_Cons' nth_list_update)
  qed (use True in \<open>simp add: zs_def ys_def\<close>)
qed (simp add: insert_slot_def)

lemma erase_slot_eq:
  "t < length xs \<Longrightarrow> erase_slot t (length xs - t) xs = take t xs @ drop (Suc t) xs"
  by (intro nth_equalityI) (auto simp: erase_slot_def nth_butlast nth_shift_down nth_append)

definition nodes_at :: "('k, 'v) tnode \<Rightarrow> nat \<Rightarrow> ('k, 'v) node_item option" where
  "nodes_at node = child_at (bit (node_bitmap node)) (node_items node)"

definition items_at :: "('k, 'v) tnode \<Rightarrow> nat \<Rightarrow> ('k, 'v) v8g_item option" where
  "items_at node = child_at (bit (item_bitmap node)) (leaf_items node)"

definition shape :: "nat \<Rightarrow> ('k, 'v) tnode \<Rightarrow> bool" where
  "shape isz node \<longleftrightarrow> length (node_items node) = popcount (node_bitmap node)
    \<and> length (leaf_items node) = popcount (item_bitmap node)
    \<and> node_bitmap node AND item_bitmap node = 0
    \<and> used_bytes node = NODE_ITEM_SIZE * length (node_items node) + isz * length (leaf_items node)
    \<and> used_bytes node \<le> capacity_bytes node \<and> INITIAL_CAPACITY isz \<le> capacity_bytes node"

lemma rank_cnt: "rank w = cnt (bit w)"
  by (simp add: rank_def cnt_def fun_eq_iff)

lemma popcount_cnt: "popcount (w :: u64) = cnt (bit w) 64"
  by (simp add: popcount_def cnt_def)

lemma bit_fun_or: "bit (w OR onebit i :: u64) = (bit w)(i := True)" if "i < 64"
  using that by (auto simp: fun_eq_iff bit_simps)

lemma bit_fun_xor: "bit (w XOR onebit i :: u64) = (bit w)(i := False)" if "bit w i" "i < 64"
  using that by (auto simp: fun_eq_iff bit_simps xor_onebit_eq_clear dest: bit_imp_le_length)

text \<open>The two index computations, for a slot below 64.\<close>

lemma slot_index: "i < 64 \<Longrightarrow> popcount ((w :: u64) AND (onebit i - 1)) = cnt (bit w) i"
  by (simp add: popcount_below rank_cnt)

lemma slot_after: "i < 64 \<Longrightarrow> popcount ((w :: u64) AND NOT (onebit i - 1)) = popcount w - cnt (bit w) i"
  by (simp add: popcount_from rank_cnt)

lemma nodes_at_Some: "nodes_at node i \<noteq> None \<longleftrightarrow> bit (node_bitmap node) i"
  by (simp add: nodes_at_def child_at_def del: not_None_eq)

lemma items_at_Some: "items_at node i \<noteq> None \<longleftrightarrow> bit (item_bitmap node) i"
  by (simp add: items_at_def child_at_def del: not_None_eq)

lemma and_zero_iff: "(a :: 'a::len word) AND b = 0 \<longleftrightarrow> (\<forall>i. \<not> (bit a i \<and> bit b i))"
proof
  assume "a AND b = 0"
  then have "\<not> bit (a AND b) i" for i by simp
  then show "\<forall>i. \<not> (bit a i \<and> bit b i)" by (simp add: bit_and_iff)
next
  assume "\<forall>i. \<not> (bit a i \<and> bit b i)"
  then show "a AND b = 0" by (intro word_eq_bitI) (simp add: bit_and_iff)
qed

lemma cnt_le_popcount: "i < 64 \<Longrightarrow> cnt (bit w) i \<le> popcount (w :: u64)"
  unfolding popcount_cnt by (intro cnt_mono) simp

lemma cnt_less_popcount: "bit w i \<Longrightarrow> i < 64 \<Longrightarrow> cnt (bit w) i < popcount (w :: u64)"
  unfolding popcount_cnt by (rule cnt_less)

text \<open>The array operations as updates of the slot maps.\<close>

lemma packed_insert:
  fixes w :: u64 and x :: 'a
  assumes "\<not> bit w i" "i < 64" "length xs = popcount w"
  defines "xs' \<equiv> insert_slot (popcount (w AND (onebit i - 1))) (popcount (w AND NOT (onebit i - 1))) x xs"
  shows "child_at (bit (w OR onebit i)) xs' = (child_at (bit w) xs)(i \<mapsto> x)"
    and "length xs' = popcount (w OR onebit i)" and "length xs' = Suc (length xs)"
proof -
  have e: "xs' = take (cnt (bit w) i) xs @ x # drop (cnt (bit w) i) xs"
    unfolding xs'_def slot_index [OF assms(2)] slot_after [OF assms(2)] assms(3) [symmetric]
    using assms(2,3) by (intro insert_slot_eq) (simp add: cnt_le_popcount)
  show "child_at (bit (w OR onebit i)) xs' = (child_at (bit w) xs)(i \<mapsto> x)"
    unfolding e bit_fun_or [OF assms(2)] using assms(1-3) by (intro child_at_insert(1)) (simp_all add: popcount_cnt)
  show "length xs' = popcount (w OR onebit i)" "length xs' = Suc (length xs)"
    using assms(1-3) by (simp_all add: e popcount_or_onebit cnt_le_popcount)
qed

lemma packed_erase:
  fixes w :: u64
  assumes "bit w i" "i < 64" "length xs = popcount w"
  defines "xs' \<equiv> erase_slot (popcount (w AND (onebit i - 1))) (popcount (w AND NOT (onebit i - 1))) xs"
  shows "child_at (bit (w XOR onebit i)) xs' = (child_at (bit w) xs)(i := None)"
    and "length xs' = popcount (w XOR onebit i)" and "Suc (length xs') = length xs"
proof -
  have l: "cnt (bit w) i < length xs" using assms by (simp add: cnt_less_popcount)
  have e: "xs' = take (cnt (bit w) i) xs @ drop (Suc (cnt (bit w) i)) xs"
    unfolding xs'_def slot_index [OF assms(2)] slot_after [OF assms(2)] assms(3) [symmetric]
    using l by (rule erase_slot_eq)
  show "child_at (bit (w XOR onebit i)) xs' = (child_at (bit w) xs)(i := None)"
    unfolding e bit_fun_xor [OF assms(1,2)] using assms(1-3) by (intro child_at_delete(1)) (simp_all add: popcount_cnt)
  show "length xs' = popcount (w XOR onebit i)" "Suc (length xs') = length xs"
    using l assms(1-3) by (simp_all add: e xor_onebit_eq_clear popcount_clear_onebit)
qed

lemma packed_update:
  fixes w :: u64
  assumes "bit w i" "i < 64" "length xs = popcount w"
  shows "child_at (bit w) (xs[popcount (w AND (onebit i - 1)) := x]) = (child_at (bit w) xs)(i \<mapsto> x)"
  unfolding slot_index [OF assms(2)] using assms by (intro child_at_update [of _ _ 64]) (simp_all add: popcount_cnt)

text \<open>The operations on a shaped node, in terms of its slots.\<close>

lemma shapeD:
  assumes "shape isz node"
  shows "length (node_items node) = popcount (node_bitmap node)"
    "length (leaf_items node) = popcount (item_bitmap node)"
    "\<not> (bit (node_bitmap node) i \<and> bit (item_bitmap node) i)"
  using assms by (auto simp: shape_def and_zero_iff)

lemma node_slot_test: "node_bitmap node AND onebit i \<noteq> 0 \<longleftrightarrow> nodes_at node i \<noteq> None"
  by (simp add: and_onebit_zero nodes_at_Some del: not_None_eq)

lemma item_slot_test: "item_bitmap node AND onebit i \<noteq> 0 \<longleftrightarrow> items_at node i \<noteq> None"
  by (simp add: and_onebit_zero items_at_Some del: not_None_eq)

lemma refNodeBit_at: "i < 64 \<Longrightarrow> nodes_at node i = Some x \<Longrightarrow> refNodeBit (onebit i) node = x"
  by (auto simp: refNodeBit_def nodes_at_def child_at_def slot_index split: if_splits)

lemma refItemBit_at: "i < 64 \<Longrightarrow> items_at node i = Some x \<Longrightarrow> refItemBit (onebit i) node = x"
  by (auto simp: refItemBit_def items_at_def child_at_def slot_index split: if_splits)

lemma shapeI:
  assumes "length (node_items node) = popcount (node_bitmap node)" "length (leaf_items node) = popcount (item_bitmap node)"
    "\<And>i. \<not> (bit (node_bitmap node) i \<and> bit (item_bitmap node) i)"
    "used_bytes node = NODE_ITEM_SIZE * length (node_items node) + isz * length (leaf_items node)"
    "used_bytes node \<le> capacity_bytes node" "INITIAL_CAPACITY isz \<le> capacity_bytes node"
  shows "shape isz node"
  using assms by (simp add: shape_def and_zero_iff)

lemma shape_used:
  assumes "shape isz node"
  shows "used_bytes node = NODE_ITEM_SIZE * length (node_items node) + isz * length (leaf_items node)"
    "used_bytes node \<le> capacity_bytes node" "INITIAL_CAPACITY isz \<le> capacity_bytes node"
  using assms by (auto simp: shape_def)

lemma insertNode_at:
  assumes "shape isz node" "i < 64" "nodes_at node i = None" "items_at node i = None"
    "used_bytes node + NODE_ITEM_SIZE \<le> capacity_bytes node"
  shows "shape isz (insertNode (onebit i) x node)"
    "nodes_at (insertNode (onebit i) x node) = (nodes_at node)(i \<mapsto> x)"
    "items_at (insertNode (onebit i) x node) = items_at node"
    "consumed_hash_bits (insertNode (onebit i) x node) = consumed_hash_bits node"
proof -
  have b: "\<not> bit (node_bitmap node) i" "\<not> bit (item_bitmap node) i"
    using assms(3,4) nodes_at_Some [of node i] items_at_Some [of node i] by simp_all
  note p = packed_insert [OF b(1) assms(2) shapeD(1) [OF assms(1)], of x]
  show "nodes_at (insertNode (onebit i) x node) = (nodes_at node)(i \<mapsto> x)"
    using p(1) by (simp add: nodes_at_def insertNode_def)
  show "shape isz (insertNode (onebit i) x node)"
  proof (rule shapeI)
    show "length (node_items (insertNode (onebit i) x node)) = popcount (node_bitmap (insertNode (onebit i) x node))" "length (leaf_items (insertNode (onebit i) x node)) = popcount (item_bitmap (insertNode (onebit i) x node))"
      using p(2) shapeD(1,2) [OF assms(1)] by (simp_all add: insertNode_def)
    show "\<not> (bit (node_bitmap (insertNode (onebit i) x node)) j \<and> bit (item_bitmap (insertNode (onebit i) x node)) j)" for j
      using shapeD(3) [OF assms(1), of j] b by (auto simp: insertNode_def bit_simps xor_onebit_eq_clear)
    show "used_bytes (insertNode (onebit i) x node) = NODE_ITEM_SIZE * length (node_items (insertNode (onebit i) x node)) + isz * length (leaf_items (insertNode (onebit i) x node))"
      using p(3) shape_used(1) [OF assms(1)] by (auto simp: insertNode_def)
    show "used_bytes (insertNode (onebit i) x node) \<le> capacity_bytes (insertNode (onebit i) x node)" "INITIAL_CAPACITY isz \<le> capacity_bytes (insertNode (onebit i) x node)"
      using shape_used(2,3) [OF assms(1)] assms(5) by (simp_all add: insertNode_def)
  qed
qed (simp_all add: items_at_def insertNode_def)

lemma insertItem_at:
  assumes "shape isz node" "i < 64" "nodes_at node i = None" "items_at node i = None"
    "used_bytes node + isz \<le> capacity_bytes node"
  shows "shape isz (insertItem isz (onebit i) x node)"
    "items_at (insertItem isz (onebit i) x node) = (items_at node)(i \<mapsto> x)"
    "nodes_at (insertItem isz (onebit i) x node) = nodes_at node"
    "consumed_hash_bits (insertItem isz (onebit i) x node) = consumed_hash_bits node"
proof -
  have b: "\<not> bit (node_bitmap node) i" "\<not> bit (item_bitmap node) i"
    using assms(3,4) nodes_at_Some [of node i] items_at_Some [of node i] by simp_all
  note p = packed_insert [OF b(2) assms(2) shapeD(2) [OF assms(1)], of x]
  show "items_at (insertItem isz (onebit i) x node) = (items_at node)(i \<mapsto> x)"
    using p(1) by (simp add: items_at_def insertItem_def)
  show "shape isz (insertItem isz (onebit i) x node)"
  proof (rule shapeI)
    show "length (node_items (insertItem isz (onebit i) x node)) = popcount (node_bitmap (insertItem isz (onebit i) x node))" "length (leaf_items (insertItem isz (onebit i) x node)) = popcount (item_bitmap (insertItem isz (onebit i) x node))"
      using p(2) shapeD(1,2) [OF assms(1)] by (simp_all add: insertItem_def)
    show "\<not> (bit (node_bitmap (insertItem isz (onebit i) x node)) j \<and> bit (item_bitmap (insertItem isz (onebit i) x node)) j)" for j
      using shapeD(3) [OF assms(1), of j] b by (auto simp: insertItem_def bit_simps xor_onebit_eq_clear)
    show "used_bytes (insertItem isz (onebit i) x node) = NODE_ITEM_SIZE * length (node_items (insertItem isz (onebit i) x node)) + isz * length (leaf_items (insertItem isz (onebit i) x node))"
      using p(3) shape_used(1) [OF assms(1)] by (auto simp: insertItem_def)
    show "used_bytes (insertItem isz (onebit i) x node) \<le> capacity_bytes (insertItem isz (onebit i) x node)" "INITIAL_CAPACITY isz \<le> capacity_bytes (insertItem isz (onebit i) x node)"
      using shape_used(2,3) [OF assms(1)] assms(5) by (simp_all add: insertItem_def)
  qed
qed (simp_all add: nodes_at_def insertItem_def)

lemma eraseNode_at:
  assumes "shape isz node" "i < 64" "nodes_at node i \<noteq> None"
  shows "shape isz (eraseNode (onebit i) node)"
    "nodes_at (eraseNode (onebit i) node) = (nodes_at node)(i := None)"
    "items_at (eraseNode (onebit i) node) = items_at node"
    "consumed_hash_bits (eraseNode (onebit i) node) = consumed_hash_bits node"
    "used_bytes (eraseNode (onebit i) node) + NODE_ITEM_SIZE = used_bytes node"
    "capacity_bytes (eraseNode (onebit i) node) = capacity_bytes node"
proof -
  have b: "bit (node_bitmap node) i" using assms(3) nodes_at_Some [of node i] by simp
  note p = packed_erase [OF b assms(2) shapeD(1) [OF assms(1)]]
  have u: "used_bytes node = NODE_ITEM_SIZE * length (node_items node) + isz * length (leaf_items node)"
    using assms(1) by (simp add: shape_def)
  show "nodes_at (eraseNode (onebit i) node) = (nodes_at node)(i := None)"
    using p(1) by (simp add: nodes_at_def eraseNode_def)
  show "shape isz (eraseNode (onebit i) node)"
  proof (rule shapeI)
    show "length (node_items (eraseNode (onebit i) node)) = popcount (node_bitmap (eraseNode (onebit i) node))" "length (leaf_items (eraseNode (onebit i) node)) = popcount (item_bitmap (eraseNode (onebit i) node))"
      using p(2) shapeD(1,2) [OF assms(1)] by (simp_all add: eraseNode_def)
    show "\<not> (bit (node_bitmap (eraseNode (onebit i) node)) j \<and> bit (item_bitmap (eraseNode (onebit i) node)) j)" for j
      using shapeD(3) [OF assms(1), of j] b by (auto simp: eraseNode_def bit_simps xor_onebit_eq_clear)
    show "used_bytes (eraseNode (onebit i) node) = NODE_ITEM_SIZE * length (node_items (eraseNode (onebit i) node)) + isz * length (leaf_items (eraseNode (onebit i) node))"
      by (simp add: eraseNode_def u p(3) [symmetric])
    show "used_bytes (eraseNode (onebit i) node) \<le> capacity_bytes (eraseNode (onebit i) node)" "INITIAL_CAPACITY isz \<le> capacity_bytes (eraseNode (onebit i) node)"
      using shape_used(2,3) [OF assms(1)] by (simp_all add: eraseNode_def)
  qed
  show "used_bytes (eraseNode (onebit i) node) + NODE_ITEM_SIZE = used_bytes node"
    using p(3) by (simp add: eraseNode_def u p(3) [symmetric])
qed (simp_all add: items_at_def eraseNode_def)

lemma eraseItem_at:
  assumes "shape isz node" "i < 64" "items_at node i \<noteq> None"
  shows "shape isz (eraseItem isz (onebit i) node)"
    "items_at (eraseItem isz (onebit i) node) = (items_at node)(i := None)"
    "nodes_at (eraseItem isz (onebit i) node) = nodes_at node"
    "consumed_hash_bits (eraseItem isz (onebit i) node) = consumed_hash_bits node"
    "used_bytes (eraseItem isz (onebit i) node) + isz = used_bytes node"
    "capacity_bytes (eraseItem isz (onebit i) node) = capacity_bytes node"
proof -
  have b: "bit (item_bitmap node) i" using assms(3) items_at_Some [of node i] by simp
  note p = packed_erase [OF b assms(2) shapeD(2) [OF assms(1)]]
  have u: "used_bytes node = NODE_ITEM_SIZE * length (node_items node) + isz * length (leaf_items node)"
    using assms(1) by (simp add: shape_def)
  show "items_at (eraseItem isz (onebit i) node) = (items_at node)(i := None)"
    using p(1) by (simp add: items_at_def eraseItem_def)
  show "shape isz (eraseItem isz (onebit i) node)"
  proof (rule shapeI)
    show "length (node_items (eraseItem isz (onebit i) node)) = popcount (node_bitmap (eraseItem isz (onebit i) node))" "length (leaf_items (eraseItem isz (onebit i) node)) = popcount (item_bitmap (eraseItem isz (onebit i) node))"
      using p(2) shapeD(1,2) [OF assms(1)] by (simp_all add: eraseItem_def)
    show "\<not> (bit (node_bitmap (eraseItem isz (onebit i) node)) j \<and> bit (item_bitmap (eraseItem isz (onebit i) node)) j)" for j
      using shapeD(3) [OF assms(1), of j] b by (auto simp: eraseItem_def bit_simps xor_onebit_eq_clear)
    show "used_bytes (eraseItem isz (onebit i) node) = NODE_ITEM_SIZE * length (node_items (eraseItem isz (onebit i) node)) + isz * length (leaf_items (eraseItem isz (onebit i) node))"
      by (simp add: eraseItem_def u p(3) [symmetric])
    show "used_bytes (eraseItem isz (onebit i) node) \<le> capacity_bytes (eraseItem isz (onebit i) node)" "INITIAL_CAPACITY isz \<le> capacity_bytes (eraseItem isz (onebit i) node)"
      using shape_used(2,3) [OF assms(1)] by (simp_all add: eraseItem_def)
  qed
  show "used_bytes (eraseItem isz (onebit i) node) + isz = used_bytes node"
    using p(3) by (simp add: eraseItem_def u p(3) [symmetric])
qed (simp_all add: nodes_at_def eraseItem_def)

lemma set_node_bit_at:
  assumes "shape isz node" "i < 64" "nodes_at node i \<noteq> None"
  shows "shape isz (set_node_bit (onebit i) x node)"
    "nodes_at (set_node_bit (onebit i) x node) = (nodes_at node)(i \<mapsto> x)"
    "items_at (set_node_bit (onebit i) x node) = items_at node"
    "consumed_hash_bits (set_node_bit (onebit i) x node) = consumed_hash_bits node"
proof -
  have b: "bit (node_bitmap node) i" using assms(3) nodes_at_Some [of node i] by simp
  show "nodes_at (set_node_bit (onebit i) x node) = (nodes_at node)(i \<mapsto> x)"
    using packed_update [OF b assms(2) shapeD(1) [OF assms(1)], of x] by (simp add: nodes_at_def set_node_bit_def)
qed (use assms(1) in \<open>auto simp: items_at_def set_node_bit_def shape_def\<close>)

lemma set_item_bit_at:
  assumes "shape isz node" "i < 64" "items_at node i \<noteq> None"
  shows "shape isz (set_item_bit (onebit i) x node)"
    "items_at (set_item_bit (onebit i) x node) = (items_at node)(i \<mapsto> x)"
    "nodes_at (set_item_bit (onebit i) x node) = nodes_at node"
    "consumed_hash_bits (set_item_bit (onebit i) x node) = consumed_hash_bits node"
proof -
  have b: "bit (item_bitmap node) i" using assms(3) items_at_Some [of node i] by simp
  show "items_at (set_item_bit (onebit i) x node) = (items_at node)(i \<mapsto> x)"
    using packed_update [OF b assms(2) shapeD(2) [OF assms(1)], of x] by (simp add: items_at_def set_item_bit_def)
qed (use assms(1) in \<open>auto simp: nodes_at_def set_item_bit_def shape_def\<close>)

lemma copy_into_eq:
  "shape isz node \<Longrightarrow> copy_into node capacity =
     Node (node_bitmap node) (item_bitmap node) (node_items node) (leaf_items node) (used_bytes node) capacity (consumed_hash_bits node)"
proof -
  assume s: "shape isz node"
  show ?thesis unfolding copy_into_def shapeD(1,2) [OF s, symmetric] map_nth ..
qed

lemma copyNode_eq: "shape isz node \<Longrightarrow> copyNode node = node"
  by (simp add: copyNode_def copy_into_eq)

lemma own_eq: "shape isz (snd item) \<Longrightarrow> own timeline item = snd item"
  by (simp add: own_def copyNode_eq)

section \<open>Hash digits\<close>

definition digit :: "nat \<Rightarrow> u64 \<Rightarrow> nat" where
  "digit d h = unat h div 2 ^ (6 * d) mod 64"

lemma digit_less [simp]: "digit d h < 64"
  by (simp add: digit_def)

lemma top_bits_digit:
  assumes "d \<le> 9"
  shows "unat (drop_bit 58 (push_bit (58 - 6 * d) h) :: u64) = digit d h"
proof -
  have "drop_bit 58 (push_bit (58 - 6 * d) h) = take_bit 6 (drop_bit (6 * d) h)"
  proof (rule word_eq_bitI)
    fix j assume "j < LENGTH(64)"
    have "58 + j - (58 - 6 * d) = 6 * d + j" using assms by simp
    then show "bit (drop_bit 58 (push_bit (58 - 6 * d) h)) j = bit (take_bit 6 (drop_bit (6 * d) h)) j"
      using assms by (auto simp: bit_drop_bit_eq bit_push_bit_iff bit_take_bit_iff add.commute dest: bit_imp_le_length)
  qed
  also have "unat \<dots> = digit d h"
  proof -
    have "unat h < 2 ^ LENGTH(64)" by (rule unsigned_less)
    then have "unat h mod 18446744073709551616 = unat h" by simp
    then show ?thesis unfolding unsigned_take_bit_eq unsigned_drop_bit_eq digit_def
      by (simp add: take_bit_eq_mod drop_bit_eq_div)
  qed
  finally show ?thesis .
qed

lemma slot_bit_digit: "d \<le> 9 \<Longrightarrow> slot_bit (push_bit (64 - 6 * Suc d) h) = onebit (digit d h)"
  using top_bits_digit [of d h] by (simp add: slot_bit_def)

lemma consume_digit: "d \<le> 9 \<Longrightarrow> push_bit 6 (push_bit (64 - 6 * Suc d) h :: u64) = push_bit (64 - 6 * d) h"
  by (simp add: push_bit_push_bit)

lemma level_pow: "(2 :: nat) ^ (6 * Suc d) = 2 ^ (6 * d) * 64"
  by (simp add: power_add)

lemma prefix_digit: "unat h div 2 ^ (6 * d) = unat h div 2 ^ (6 * Suc d) * 64 + digit d h"
  unfolding level_pow div_mult2_eq digit_def by simp

lemma prefix_up: "unat h div 2 ^ (6 * d) = p * 64 + i \<Longrightarrow> i < 64 \<Longrightarrow> unat h div 2 ^ (6 * Suc d) = p \<and> digit d h = i"
  unfolding level_pow div_mult2_eq digit_def by simp

section \<open>Well-formed subtrees\<close>

fun wf_node :: "nat \<Rightarrow> ('k \<Rightarrow> u64) \<Rightarrow> nat \<Rightarrow> nat \<Rightarrow> ('k, 'v) tnode \<Rightarrow> bool" where
  "wf_node isz hash 0 p node = False"
| "wf_node isz hash (Suc d) p node \<longleftrightarrow> shape isz node \<and> consumed_hash_bits node = 64 - 6 * Suc d
     \<and> (\<forall>i ver child. nodes_at node i = Some (ver, child) \<longrightarrow> wf_node isz hash d (p * 64 + i) child)
     \<and> (\<forall>i it. items_at node i = Some it \<longrightarrow> unat (hash (itemKey it)) div 2 ^ (6 * d) = p * 64 + i)"

text \<open>The items of a slot, and of a subtree, in slot order.\<close>

fun subtree :: "nat \<Rightarrow> ('k, 'v) tnode \<Rightarrow> ('k, 'v) v8g_item list" where
  "subtree 0 node = []"
| "subtree (Suc d) node = concat (map (\<lambda>i.
     case nodes_at node i of Some (ver, child) \<Rightarrow> subtree d child
     | None \<Rightarrow> (case items_at node i of Some it \<Rightarrow> [it] | None \<Rightarrow> [])) [0..<64])"

definition slot :: "nat \<Rightarrow> ('k, 'v) tnode \<Rightarrow> nat \<Rightarrow> ('k, 'v) v8g_item list" where
  "slot d node i =
     (case nodes_at node i of Some (ver, child) \<Rightarrow> subtree d child
      | None \<Rightarrow> (case items_at node i of Some it \<Rightarrow> [it] | None \<Rightarrow> []))"

lemma subtree_Suc: "subtree (Suc d) node = concat (map (slot d node) [0..<64])"
  unfolding subtree.simps slot_def ..

declare subtree.simps(2) [simp del]

lemma slot_split:
  "i < 64 \<Longrightarrow> concat (map f [0..<64]) = concat (map f [0..<i]) @ f i @ concat (map f [Suc i..<64])"
proof -
  assume "i < 64"
  then have "[0..<64] = [0..<i] @ i # [Suc i..<64]"
    by (metis add_0 le_add_diff_inverse less_imp_le_nat upt_add_eq_append upt_conv_Cons zero_le)
  then show ?thesis by simp
qed

lemma slot_outside:
  assumes "nodes_at node' = (nodes_at node)(i := a)" "items_at node' = (items_at node)(i := b)" "i < 64"
  shows "\<exists>A B. subtree (Suc d) node = A @ slot d node i @ B \<and> subtree (Suc d) node' = A @ slot d node' i @ B
    \<and> A = concat (map (slot d node) [0..<i]) \<and> B = concat (map (slot d node) [Suc i..<64])"
proof -
  have "slot d node' j = slot d node j" if "j \<noteq> i" for j
    using that by (auto simp: slot_def assms(1,2) split: option.splits)
  then have m: "map (slot d node') [0..<i] = map (slot d node) [0..<i]"
    "map (slot d node') [Suc i..<64] = map (slot d node) [Suc i..<64]" by simp_all
  show ?thesis unfolding subtree_Suc slot_split [OF assms(3)] m by blast
qed

lemma wf_nodeD:
  assumes "wf_node isz hash (Suc d) p node"
  shows "shape isz node" "consumed_hash_bits node = 64 - 6 * Suc d"
    "nodes_at node i = Some (ver, child) \<Longrightarrow> wf_node isz hash d (p * 64 + i) child"
    "items_at node i = Some it \<Longrightarrow> unat (hash (itemKey it)) div 2 ^ (6 * d) = p * 64 + i"
    "nodes_at node i = None \<or> items_at node i = None"
proof -
  show s: "shape isz node" "consumed_hash_bits node = 64 - 6 * Suc d"
    "nodes_at node i = Some (ver, child) \<Longrightarrow> wf_node isz hash d (p * 64 + i) child"
    "items_at node i = Some it \<Longrightarrow> unat (hash (itemKey it)) div 2 ^ (6 * d) = p * 64 + i"
    using assms unfolding wf_node.simps by blast+
  show "nodes_at node i = None \<or> items_at node i = None"
    using shapeD(3) [OF s(1), of i] nodes_at_Some [of node i] items_at_Some [of node i] by blast
qed

lemma wf_slot_prefix:
  "wf_node isz hash (Suc d) p node \<Longrightarrow> i < 64 \<Longrightarrow> it \<in> set (slot d node i) \<Longrightarrow>
     (\<And>q child. wf_node isz hash d q child \<Longrightarrow> it \<in> set (subtree d child) \<Longrightarrow> unat (hash (itemKey it)) div 2 ^ (6 * d) = q) \<Longrightarrow>
     unat (hash (itemKey it)) div 2 ^ (6 * d) = p * 64 + i"
proof -
  assume wf: "wf_node isz hash (Suc d) p node" and it: "it \<in> set (slot d node i)"
    and ih: "\<And>q child. wf_node isz hash d q child \<Longrightarrow> it \<in> set (subtree d child) \<Longrightarrow> unat (hash (itemKey it)) div 2 ^ (6 * d) = q"
  show ?thesis
  proof (cases "nodes_at node i")
    case None
    then have "items_at node i = Some it" using it by (auto simp: slot_def split: option.splits)
    then show ?thesis by (rule wf_nodeD(4) [OF wf])
  next
    case (Some vc)
    obtain ver child where vc: "vc = (ver, child)" by (cases vc)
    then have "it \<in> set (subtree d child)" using it Some by (simp add: slot_def)
    with wf_nodeD(3) [OF wf] Some vc show ?thesis using ih by blast
  qed
qed

lemma wf_prefix: "wf_node isz hash d p node \<Longrightarrow> it \<in> set (subtree d node) \<Longrightarrow> unat (hash (itemKey it)) div 2 ^ (6 * d) = p"
proof (induction d arbitrary: p node)
  case (Suc d)
  then obtain i where i: "i < 64" "it \<in> set (slot d node i)" by (auto simp: subtree_Suc)
  have "unat (hash (itemKey it)) div 2 ^ (6 * d) = p * 64 + i"
    by (rule wf_slot_prefix [OF Suc.prems(1) i Suc.IH])
  then show ?case using prefix_up i(1) by blast
qed simp

lemma wf_slot:
  "wf_node isz hash (Suc d) p node \<Longrightarrow> i < 64 \<Longrightarrow> it \<in> set (slot d node i) \<Longrightarrow>
     unat (hash (itemKey it)) div 2 ^ (6 * d) = p * 64 + i"
  using wf_slot_prefix wf_prefix by blast

lemma at_less_64: "nodes_at node i = Some x \<Longrightarrow> i < 64" "items_at node i = Some y \<Longrightarrow> i < 64"
  by (auto simp: nodes_at_def items_at_def child_at_def split: if_splits dest!: bit_imp_le_length)

text \<open>Changing one slot.\<close>

lemma wf_node_update:
  assumes wf: "wf_node isz hash (Suc d) p node" and s: "shape isz node'"
    and c: "consumed_hash_bits node' = consumed_hash_bits node"
    and a: "nodes_at node' = (nodes_at node)(i := a)" "items_at node' = (items_at node)(i := b)"
    and wa: "\<And>ver child. a = Some (ver, child) \<Longrightarrow> wf_node isz hash d (p * 64 + i) child"
    and wb: "\<And>it. b = Some it \<Longrightarrow> unat (hash (itemKey it)) div 2 ^ (6 * d) = p * 64 + i"
  shows "wf_node isz hash (Suc d) p node'"
  using wf s c wa wb by (auto simp: a)

text \<open>The other slots hold no key with this digit.\<close>

lemma slot_keys:
  assumes wf: "wf_node isz hash (Suc d) p node" and k: "unat (hash key) div 2 ^ (6 * Suc d) = p"
    and i: "j < 64" "j \<noteq> digit d (hash key)" and it: "it \<in> set (slot d node j)"
  shows "itemKey it \<noteq> key"
proof
  assume "itemKey it = key"
  then have "unat (hash key) div 2 ^ (6 * d) = p * 64 + j" using wf_slot [OF wf i(1) it] by simp
  then show False using prefix_up i by blast
qed

lemma slots_keys:
  assumes wf: "wf_node isz hash (Suc d) p node" and k: "unat (hash key) div 2 ^ (6 * Suc d) = p"
    and j: "\<forall>j\<in>set js. j < 64 \<and> j \<noteq> digit d (hash key)"
  shows "\<forall>x\<in>set (concat (map (slot d node) js)). itemKey x \<noteq> key"
  unfolding set_concat set_map using slot_keys [OF wf k] j by blast

lemma entries_replace:
  assumes "\<forall>x\<in>set A. itemKey x \<noteq> k" "\<forall>x\<in>set B. itemKey x \<noteq> k" "fm_entries M' = (fm_entries M)(k := r)"
  shows "fm_entries (A @ M' @ B) = (fm_entries (A @ M @ B))(k := r)"
proof
  fix j
  have "fm_entries A k = None" "fm_entries B k = None" using assms(1,2) by (simp_all add: fm_entries_None)
  then show "fm_entries (A @ M' @ B) j = ((fm_entries (A @ M @ B))(k := r)) j"
    by (cases "j = k"; cases r) (auto simp: fm_entries_append map_add_def assms(3) split: option.splits)
qed

lemma entries_slot:
  assumes wf: "wf_node isz hash (Suc d) p node" and k: "unat (hash key) div 2 ^ (6 * Suc d) = p"
  shows "fm_entries (subtree (Suc d) node) key = fm_entries (slot d node (digit d (hash key))) key"
proof -
  have s: "subtree (Suc d) node = concat (map (slot d node) [0..<digit d (hash key)]) @ slot d node (digit d (hash key))
      @ concat (map (slot d node) [Suc (digit d (hash key))..<64])"
    unfolding subtree_Suc by (rule slot_split) simp
  have "fm_entries (concat (map (slot d node) js)) key = None"
    if "\<forall>j\<in>set js. j < 64 \<and> j \<noteq> digit d (hash key)" for js
    using slots_keys [OF wf k that] by (rule fm_entries_None)
  then have "fm_entries (concat (map (slot d node) [0..<digit d (hash key)])) key = None"
    "fm_entries (concat (map (slot d node) [Suc (digit d (hash key))..<64])) key = None"
    using less_trans [OF _ digit_less [of d "hash key"]] by simp_all
  then show ?thesis unfolding s by (simp add: fm_entries_append map_add_def split: option.splits)
qed

text \<open>One slot replaced: what it does to the entries and the number of items of the subtree.\<close>

lemma slot_replaced:
  assumes wf: "wf_node isz hash (Suc d) p node" and k: "unat (hash key) div 2 ^ (6 * Suc d) = p"
    and a: "nodes_at node' = (nodes_at node)(digit d (hash key) := a)" "items_at node' = (items_at node)(digit d (hash key) := b)"
    and e: "fm_entries (slot d node' (digit d (hash key))) = (fm_entries (slot d node (digit d (hash key))))(key := r)"
  shows "fm_entries (subtree (Suc d) node') = (fm_entries (subtree (Suc d) node))(key := r)
    \<and> length (subtree (Suc d) node') + length (slot d node (digit d (hash key)))
      = length (subtree (Suc d) node) + length (slot d node' (digit d (hash key)))"
proof -
  obtain A B where s: "subtree (Suc d) node = A @ slot d node (digit d (hash key)) @ B"
      "subtree (Suc d) node' = A @ slot d node' (digit d (hash key)) @ B"
      "A = concat (map (slot d node) [0..<digit d (hash key)])"
      "B = concat (map (slot d node) [Suc (digit d (hash key))..<64])"
    using slot_outside [OF a digit_less, of d] by blast
  have "\<forall>x\<in>set A. itemKey x \<noteq> key" "\<forall>x\<in>set B. itemKey x \<noteq> key"
    unfolding s(3,4) using less_trans [OF _ digit_less [of d "hash key"]]
    by (intro slots_keys [OF wf k]; auto)+
  from entries_replace [OF this e] show ?thesis unfolding s(1,2) by simp
qed

section \<open>Insert\<close>

definition item_size_ok :: "nat \<Rightarrow> bool" where
  "item_size_ok isz \<longleftrightarrow> NODE_ITEM_SIZE \<le> isz"

lemma cnt_disjoint: "(\<forall>i. \<not> (P i \<and> Q i)) \<Longrightarrow> cnt P n + cnt Q n = cnt (\<lambda>i. P i \<or> Q i) n"
  by (induction n) (auto simp: cnt_Suc)

lemma free_slot_room:
  assumes s: "shape isz node" "item_size_ok isz" "i < 64" "nodes_at node i = None" "items_at node i = None"
  shows "used_bytes node + isz \<le> 64 * isz"
proof -
  define P where "P = (\<lambda>j. bit (node_bitmap node) j \<or> bit (item_bitmap node) j)"
  have "\<not> P i" using s(4,5) nodes_at_Some [of node i] items_at_Some [of node i] by (simp add: P_def)
  then have "cnt P 64 + 1 \<le> 64" using cnt_insert [of P i 64] cnt_le [of "P(i := True)" 64] s(3) by simp
  moreover have "popcount (node_bitmap node) + popcount (item_bitmap node) = cnt P 64"
    unfolding popcount_cnt P_def using shapeD(3) [OF s(1)] by (intro cnt_disjoint) blast
  ultimately have n: "length (node_items node) + length (leaf_items node) + 1 \<le> 64" using shapeD(1,2) [OF s(1)] by simp
  have "used_bytes node \<le> isz * length (node_items node) + isz * length (leaf_items node)"
    using shape_used(1) [OF s(1)] s(2) by (simp add: item_size_ok_def)
  also have "\<dots> + isz = isz * (length (node_items node) + length (leaf_items node) + 1)" by (simp add: algebra_simps)
  also have "\<dots> \<le> isz * 64" using n by (rule mult_le_mono2)
  finally show ?thesis by simp
qed

lemma expandNode_ok:
  assumes s: "shape isz node" "item_size_ok isz" "i < 64" "nodes_at node i = None" "items_at node i = None"
  shows "shape isz (expandNode isz node)" "used_bytes (expandNode isz node) + isz \<le> capacity_bytes (expandNode isz node)"
    "nodes_at (expandNode isz node) = nodes_at node" "items_at (expandNode isz node) = items_at node"
    "consumed_hash_bits (expandNode isz node) = consumed_hash_bits node"
proof -
  define c where "c = min (capacity_bytes node + capacity_bytes node div 2) (MAX_CAPACITY isz)"
  define c' where "c' = (if c mod 8 \<noteq> 0 then c + (8 - c mod 8) else c)"
  have e: "expandNode isz node = Node (node_bitmap node) (item_bitmap node) (node_items node) (leaf_items node)
      (used_bytes node) c' (consumed_hash_bits node)"
    by (simp add: expandNode_def c_def c'_def copy_into_eq [OF s(1)] Let_def)
  have M: "MAX_CAPACITY isz = 64 * isz" "INITIAL_CAPACITY isz = 2 * isz"
    using s(2) by (simp_all add: MAX_CAPACITY_def INITIAL_CAPACITY_def item_size_ok_def)
  note u = shape_used [OF s(1)]
  have "2 * isz \<le> capacity_bytes node" using u(3) M by simp
  then have "isz \<le> capacity_bytes node div 2" by linarith
  then have "used_bytes node + isz \<le> capacity_bytes node + capacity_bytes node div 2" using u(2) by linarith
  then have "used_bytes node + isz \<le> c" using free_slot_room [OF s] M by (simp add: c_def)
  moreover have "c \<le> (if b then c + k else c)" for b k by simp
  then have cc: "c \<le> c'" unfolding c'_def .
  ultimately have room: "used_bytes node + isz \<le> c'" by simp
  have "2 * isz \<le> c" using \<open>2 * isz \<le> capacity_bytes node\<close> M by (simp add: c_def)
  then have init: "INITIAL_CAPACITY isz \<le> c'" using M cc by simp
  show "shape isz (expandNode isz node)"
    using s(1) room init unfolding e shape_def by auto
  show "used_bytes (expandNode isz node) + isz \<le> capacity_bytes (expandNode isz node)" using room by (simp add: e)
  show "nodes_at (expandNode isz node) = nodes_at node" "items_at (expandNode isz node) = items_at node"
    "consumed_hash_bits (expandNode isz node) = consumed_hash_bits node"
    by (simp_all add: e nodes_at_def items_at_def)
qed

lemma allocateNode_ok:
  "shape isz (allocateNode isz c)" "nodes_at (allocateNode isz c) i = None" "items_at (allocateNode isz c) i = None"
  "consumed_hash_bits (allocateNode isz c) = c" "used_bytes (allocateNode isz c) = 0"
  "capacity_bytes (allocateNode isz c) = INITIAL_CAPACITY isz"
  by (simp_all add: allocateNode_def shape_def nodes_at_def items_at_def child_at_def)

text \<open>A fresh node with one item.\<close>

lemma singleton_node:
  fixes hash :: "'k \<Rightarrow> u64" and it :: "('k, 'v) v8g_item" and d :: nat
  assumes "item_size_ok isz"
  defines "child \<equiv> insertItem isz (onebit (digit d (hash (itemKey it)))) it (allocateNode isz (64 - 6 * Suc d))"
  shows "wf_node isz hash (Suc d) (unat (hash (itemKey it)) div 2 ^ (6 * Suc d)) child" "subtree (Suc d) child = [it]"
    "nodes_at child = Map.empty"
proof -
  define i where "i = digit d (hash (itemKey it))"
  have i: "i < 64" by (simp add: i_def)
  have "isz \<le> INITIAL_CAPACITY isz" by (simp add: INITIAL_CAPACITY_def)
  then have c: "shape isz child" "items_at child = (items_at (allocateNode isz (64 - 6 * Suc d)))(i \<mapsto> it)"
    "nodes_at child = nodes_at (allocateNode isz (64 - 6 * Suc d))" "consumed_hash_bits child = 64 - 6 * Suc d"
    unfolding child_def i_def [symmetric]
    using insertItem_at [OF allocateNode_ok(1) i, of isz "64 - 6 * Suc d" it]
    by (simp_all add: allocateNode_ok)
  have at: "items_at child = [i \<mapsto> it]" "nodes_at child = Map.empty"
    by (simp_all add: c fun_eq_iff allocateNode_ok)
  then show "nodes_at child = Map.empty" by simp
  show "wf_node isz hash (Suc d) (unat (hash (itemKey it)) div 2 ^ (6 * Suc d)) child"
    using c(1,4) prefix_digit [of "hash (itemKey it)" d] by (simp add: at i_def del: split_paired_All)
  have z: "concat (map (slot d child) js) = []" if "i \<notin> set js" for js
    using that by (induction js) (auto simp: slot_def at)
  have "concat (map (slot d child) [0..<i]) = []" "concat (map (slot d child) [Suc i..<64]) = []"
    by (rule z, simp)+
  then show "subtree (Suc d) child = [it]"
    unfolding subtree_Suc slot_split [OF i] by (simp only:) (simp add: slot_def at)
qed

lemma promote_ok:
  assumes isz: "item_size_ok isz" and wf: "wf_node isz hash (Suc (Suc d)) p node" and it: "items_at node i = Some it"
    and d: "Suc d \<le> 9"
  defines "node' \<equiv> promoteItemToNode isz hash (onebit i) node"
  shows "\<exists>child. shape isz node' \<and> consumed_hash_bits node' = consumed_hash_bits node
    \<and> nodes_at node' = (nodes_at node)(i \<mapsto> (version it, child)) \<and> items_at node' = (items_at node)(i := None)
    \<and> wf_node isz hash (Suc d) (p * 64 + i) child \<and> subtree (Suc d) child = [it]
    \<and> nodes_at child = Map.empty"
proof -
  note w = wf_nodeD [OF wf]
  have i: "i < 64" using it by (rule at_less_64)
  define child where "child = insertItem isz (onebit (digit d (hash (itemKey it)))) it (allocateNode isz (64 - 6 * Suc d))"
  have d9: "d \<le> 9" using d by simp
  have c: "consumed_hash_bits node + 6 = 64 - 6 * Suc d" using w(2) d by simp
  have n': "node' = insertNode (onebit i) (version it, child) (eraseItem isz (onebit i) node)"
    unfolding node'_def promoteItemToNode_def refItemBit_at [OF i it] c Let_def child_def slot_bit_digit [OF d9] ..
  have "items_at node i \<noteq> None" using it by simp
  note e = eraseItem_at [OF w(1) i this]
  have room: "used_bytes (eraseItem isz (onebit i) node) + NODE_ITEM_SIZE \<le> capacity_bytes (eraseItem isz (onebit i) node)"
    using e(5,6) shape_used(2) [OF w(1)] isz by (simp add: item_size_ok_def)
  have "nodes_at node i = None" using w(5) [of i] it by simp
  then have n: "shape isz node'" "nodes_at node' = (nodes_at node)(i \<mapsto> (version it, child))"
      "items_at node' = (items_at node)(i := None)" "consumed_hash_bits node' = consumed_hash_bits node"
    unfolding n' using insertNode_at [OF e(1) i _ _ room, of "(version it, child)"] e by simp_all
  moreover have "wf_node isz hash (Suc d) (p * 64 + i) child" "subtree (Suc d) child = [it]" "nodes_at child = Map.empty"
    using singleton_node [OF isz, where d = d and hash = hash and it = it] w(4) [OF it] by (simp_all add: child_def)
  ultimately show ?thesis by blast
qed

text \<open>What a change of the subtree under a node item must achieve: the key maps to \<open>r\<close>, nothing else
  changes, and the item count moves by \<open>n - m\<close>.\<close>

definition changes_key ::
  "'k \<Rightarrow> (u64 \<times> 'v) option \<Rightarrow> ('k, 'v) v8g_item list \<Rightarrow> ('k, 'v) v8g_item list \<Rightarrow> bool" where
  "changes_key key r before after \<longleftrightarrow>
     fm_entries after = (fm_entries before)(key := r)
     \<and> length after + (if fm_entries before key = None then 0 else 1) = length before + (if r = None then 0 else 1)"

lemma slot_changed:
  assumes wf: "wf_node isz hash (Suc d) p node" and k: "unat (hash key) div 2 ^ (6 * Suc d) = p"
    and s: "shape isz node'" "consumed_hash_bits node' = consumed_hash_bits node"
    and a: "nodes_at node' = (nodes_at node)(digit d (hash key) := a)" "items_at node' = (items_at node)(digit d (hash key) := b)"
    and wa: "\<And>ver child. a = Some (ver, child) \<Longrightarrow> wf_node isz hash d (p * 64 + digit d (hash key)) child"
    and wb: "\<And>it. b = Some it \<Longrightarrow> unat (hash (itemKey it)) div 2 ^ (6 * d) = p * 64 + digit d (hash key)"
    and c: "changes_key key r (slot d node (digit d (hash key))) (slot d node' (digit d (hash key)))"
  shows "wf_node isz hash (Suc d) p node' \<and> changes_key key r (subtree (Suc d) node) (subtree (Suc d) node')"
proof -
  have "wf_node isz hash (Suc d) p node'" by (rule wf_node_update [OF wf s a wa wb])
  moreover have "changes_key key r (subtree (Suc d) node) (subtree (Suc d) node')"
    using slot_replaced [OF wf k a, of r] entries_slot [OF wf k] c by (auto simp: changes_key_def)
  ultimately show ?thesis ..
qed

lemma changes_key_trans:
  "fm_entries before = fm_entries before' \<Longrightarrow> length before = length before' \<Longrightarrow>
     changes_key key r before' after \<Longrightarrow> changes_key key r before after"
  by (simp add: changes_key_def)

text \<open>The step into the child of the key's slot.\<close>

lemma descend_ok:
  assumes wf: "wf_node isz hash (Suc d) p node" and k: "unat (hash key) div 2 ^ (6 * Suc d) = p"
    and n: "nodes_at node (digit d (hash key)) = Some (ver, child)"
    and w: "wf_node isz hash d (p * 64 + digit d (hash key)) child'"
    and c: "changes_key key r (subtree d child) (subtree d child')"
  shows "wf_node isz hash (Suc d) p (set_node_bit (onebit (digit d (hash key))) (ver', child') node)
    \<and> changes_key key r (subtree (Suc d) node) (subtree (Suc d) (set_node_bit (onebit (digit d (hash key))) (ver', child') node))"
proof -
  note wd = wf_nodeD [OF wf]
  have "nodes_at node (digit d (hash key)) \<noteq> None" using n by simp
  note sn = set_node_bit_at [OF wd(1) digit_less this, of "(ver', child')"]
  have i: "items_at node (digit d (hash key)) = None" using wd(5) [of "digit d (hash key)"] n by simp
  show ?thesis
  proof (rule slot_changed [OF wf k sn(1,4) sn(2)])
    show "items_at (set_node_bit (onebit (digit d (hash key))) (ver', child') node)
        = (items_at node)(digit d (hash key) := None)" using sn(3) i by auto
  qed (use w c n in \<open>simp_all add: slot_def sn(2)\<close>)
qed

text \<open>One level of the two loops, in terms of slots.\<close>

lemma insert_at_step:
  assumes s: "shape isz (snd current)" and d: "d \<le> 9"
  shows "insert_at isz hash timeline key v (Suc d) (push_bit (64 - 6 * Suc d) (hash key)) current =
     (let node = snd current; i = digit d (hash key);
          desc = (\<lambda>n. map_option (\<lambda>(child, inserted). ((timeline, set_node_bit (onebit i) child n), inserted))
            (insert_at isz hash timeline key v d (push_bit (64 - 6 * d) (hash key)) (refNodeBit (onebit i) n)))
      in if nodes_at node i \<noteq> None then desc node
         else if items_at node i \<noteq> None then
           (if itemKey (refItemBit (onebit i) node) = key
            then Some ((timeline, set_item_bit (onebit i) (timeline, itemKey (refItemBit (onebit i) node), v) node), False)
            else desc (promoteItemToNode isz hash (onebit i) node))
         else Some ((timeline, insertItem isz (onebit i) (timeline, key, v)
                (if used_bytes node + isz > capacity_bytes node then expandNode isz node else node)), True))"
  unfolding insert_at.simps(2) own_eq [OF s] Let_def slot_bit_digit [OF d] consume_digit [OF d]
    node_slot_test item_slot_test ..

lemma erase_at_step:
  assumes s: "shape isz (snd current)" and d: "d \<le> 9"
  shows "erase_at isz timeline key (Suc d) (push_bit (64 - 6 * Suc d) (hash key)) current =
     (let node = snd current; i = digit d (hash key)
      in if items_at node i \<noteq> None then
           (if itemKey (refItemBit (onebit i) node) \<noteq> key then Some (current, False)
            else Some ((timeline, eraseItem isz (onebit i) node), True))
         else if \<not> (nodes_at node i \<noteq> None) then Some (current, False)
         else map_option (\<lambda>(child, erased).
             ((timeline, if erased then tryShrinkChildNode isz (onebit i) (set_node_bit (onebit i) child node)
                         else set_node_bit (onebit i) child node), erased))
           (erase_at isz timeline key d (push_bit (64 - 6 * d) (hash key)) (refNodeBit (onebit i) node)))"
  unfolding erase_at.simps(2) own_eq [OF s] Let_def slot_bit_digit [OF d] consume_digit [OF d]
    node_slot_test [symmetric] item_slot_test not_not ..

lemma insert_at_ok:
  fixes hash :: "'k \<Rightarrow> u64"
  assumes inj: "inj hash" and isz: "item_size_ok isz"
  shows "wf_node isz hash d p (snd current) \<Longrightarrow> d \<le> 10 \<Longrightarrow> unat (hash key) div 2 ^ (6 * d) = p \<Longrightarrow>
    \<exists>node'. insert_at isz hash timeline key v d (push_bit (64 - 6 * d) (hash key)) current
        = Some ((timeline, node'), fm_entries (subtree d (snd current)) key = None)
      \<and> wf_node isz hash d p node' \<and> changes_key key (Some (timeline, v)) (subtree d (snd current)) (subtree d node')"
proof (induction d arbitrary: p current)
  case (Suc d)
  define node where "node = snd current"
  have wf: "wf_node isz hash (Suc d) p node" using Suc.prems(1) by (simp add: node_def)
  note wd = wf_nodeD [OF wf]
  have d: "d \<le> 9" using Suc.prems(2) by simp
  define i where "i = digit d (hash key)"
  have own: "own timeline current = node" using own_eq wd(1) by (simp add: node_def)
  have ent: "fm_entries (subtree (Suc d) node) key = fm_entries (slot d node i) key"
    unfolding i_def by (rule entries_slot [OF wf Suc.prems(3)])
  have pk: "unat (hash key) div 2 ^ (6 * d) = p * 64 + i"
    using prefix_digit [of "hash key" d] Suc.prems(3) by (simp add: i_def)
  define desc where "desc = (\<lambda>n. map_option (\<lambda>(child, inserted). ((timeline, set_node_bit (onebit i) child n), inserted))
        (insert_at isz hash timeline key v d (push_bit (64 - 6 * d) (hash key)) (refNodeBit (onebit i) n)))"
  define node2 where "node2 = (if used_bytes node + isz > capacity_bytes node then expandNode isz node else node)"
  have step: "insert_at isz hash timeline key v (Suc d) (push_bit (64 - 6 * Suc d) (hash key)) current =
     (if nodes_at node i \<noteq> None then desc node
      else if items_at node i \<noteq> None then
        (if itemKey (refItemBit (onebit i) node) = key
         then Some ((timeline, set_item_bit (onebit i) (timeline, itemKey (refItemBit (onebit i) node), v) node), False)
         else desc (promoteItemToNode isz hash (onebit i) node))
      else Some ((timeline, insertItem isz (onebit i) (timeline, key, v) node2), True))"
    unfolding insert_at_step [OF wd(1) [unfolded node_def] d] Let_def desc_def node2_def i_def node_def ..
  have descend: "\<exists>node'. desc n = Some ((timeline, node'), fm_entries (subtree (Suc d) n) key = None)
      \<and> wf_node isz hash (Suc d) p node' \<and> changes_key key (Some (timeline, v)) (subtree (Suc d) n) (subtree (Suc d) node')"
    if n: "wf_node isz hash (Suc d) p n" "nodes_at n i = Some (ver, child)" for n ver child
  proof -
    have w: "wf_node isz hash d (p * 64 + i) child" by (rule wf_nodeD(3) [OF n])
    have e: "fm_entries (subtree (Suc d) n) key = fm_entries (subtree d child) key"
      using entries_slot [OF n(1) Suc.prems(3)] n(2) by (simp add: slot_def i_def)
    have "refNodeBit (onebit i) n = (ver, child)"
      by (intro refNodeBit_at [OF _ n(2)]) (simp add: i_def)
    moreover obtain child' where "insert_at isz hash timeline key v d (push_bit (64 - 6 * d) (hash key)) (ver, child)
        = Some ((timeline, child'), fm_entries (subtree d child) key = None)"
      "wf_node isz hash d (p * 64 + i) child'" "changes_key key (Some (timeline, v)) (subtree d child) (subtree d child')"
      using Suc.IH [of "p * 64 + i" "(ver, child)"] w d pk by auto
    ultimately show ?thesis
      using descend_ok [OF n(1) Suc.prems(3) n(2) [unfolded i_def], of child', folded i_def] e by (simp add: desc_def del: wf_node.simps)
  qed
  show ?case
  proof (cases "nodes_at node i")
    case (Some vc)
    then show ?thesis using descend [OF wf, of "fst vc" "snd vc"] unfolding step node_def [symmetric]
      by (simp del: wf_node.simps)
  next
    case none: None
    show ?thesis
    proof (cases "items_at node i")
      case None
      have n2: "shape isz node2" "used_bytes node2 + isz \<le> capacity_bytes node2" "nodes_at node2 = nodes_at node"
          "items_at node2 = items_at node" "consumed_hash_bits node2 = consumed_hash_bits node"
        using expandNode_ok [OF wd(1) isz _ none None] wd(1) i_def by (auto simp: node2_def)
      have il: "i < 64" by (simp add: i_def)
      note ni = insertItem_at [OF n2(1) il _ _ n2(2), of "(timeline, key, v)", unfolded n2(3,4,5), OF none None]
      have sl: "slot d node i = []" "slot d (insertItem isz (onebit i) (timeline, key, v) node2) i = [(timeline, key, v)]"
        using none None ni(2,3) by (simp_all add: slot_def)
      have "wf_node isz hash (Suc d) p (insertItem isz (onebit i) (timeline, key, v) node2)
          \<and> changes_key key (Some (timeline, v)) (subtree (Suc d) node) (subtree (Suc d) (insertItem isz (onebit i) (timeline, key, v) node2))"
      proof (rule slot_changed [OF wf Suc.prems(3) ni(1,4), folded i_def])
        show "nodes_at (insertItem isz (onebit i) (timeline, key, v) node2) = (nodes_at node)(i := None)"
          using ni(3) none by auto
      qed (use ni(2) pk sl in \<open>auto simp: changes_key_def\<close>)
      moreover have "insert_at isz hash timeline key v (Suc d) (push_bit (64 - 6 * Suc d) (hash key)) current
          = Some ((timeline, insertItem isz (onebit i) (timeline, key, v) node2), True)"
        using none None unfolding step by simp
      moreover have "fm_entries (subtree (Suc d) node) key = None" using ent sl by simp
      ultimately show ?thesis unfolding node_def [symmetric] by (simp del: wf_node.simps)
    next
      case (Some it)
      have il: "i < 64" by (simp add: i_def)
      have ref: "refItemBit (onebit i) node = it" by (rule refItemBit_at [OF il Some])
      have sl: "slot d node i = [it]" using none Some by (simp add: slot_def)
      show ?thesis
      proof (cases "itemKey it = key")
        case True
        have "items_at node i \<noteq> None" using Some by simp
        note si = set_item_bit_at [OF wd(1) il this, of "(timeline, key, v)"]
        have sl': "slot d (set_item_bit (onebit i) (timeline, key, v) node) i = [(timeline, key, v)]"
          using none si(2,3) by (simp add: slot_def)
        have "wf_node isz hash (Suc d) p (set_item_bit (onebit i) (timeline, key, v) node)
          \<and> changes_key key (Some (timeline, v)) (subtree (Suc d) node) (subtree (Suc d) (set_item_bit (onebit i) (timeline, key, v) node))"
        proof (rule slot_changed [OF wf Suc.prems(3) si(1,4), folded i_def])
          show "nodes_at (set_item_bit (onebit i) (timeline, key, v) node) = (nodes_at node)(i := None)"
            using si(3) none by auto
          show "changes_key key (Some (timeline, v)) (slot d node i)
              (slot d (set_item_bit (onebit i) (timeline, key, v) node) i)"
            unfolding sl sl' using True by (cases it) (simp add: changes_key_def)
        qed (use si(2) pk in auto)
        moreover have "insert_at isz hash timeline key v (Suc d) (push_bit (64 - 6 * Suc d) (hash key)) current
            = Some ((timeline, set_item_bit (onebit i) (timeline, key, v) node), False)"
          using none Some True ref unfolding step by simp
        moreover have "fm_entries (subtree (Suc d) node) key \<noteq> None" using ent sl True by (cases it) simp
        ultimately show ?thesis unfolding node_def [symmetric] by (simp del: wf_node.simps)
      next
        case False
        have "0 < d"
        proof (rule ccontr)
          assume "\<not> 0 < d"
          then have "unat (hash (itemKey it)) = unat (hash key)" using wd(4) [OF Some] pk by simp
          then have "itemKey it = key" using injD [OF inj] by (metis word_unat_eq_iff)
          then show False using False by simp
        qed
        then obtain d' where d': "d = Suc d'" by (cases d) simp_all
        obtain child where pr: "shape isz (promoteItemToNode isz hash (onebit i) node)"
          "consumed_hash_bits (promoteItemToNode isz hash (onebit i) node) = consumed_hash_bits node"
          "nodes_at (promoteItemToNode isz hash (onebit i) node) = (nodes_at node)(i \<mapsto> (version it, child))"
          "items_at (promoteItemToNode isz hash (onebit i) node) = (items_at node)(i := None)"
          "wf_node isz hash d (p * 64 + i) child" "subtree d child = [it]"
          using promote_ok [OF isz wf [unfolded d'] Some] d unfolding d' by blast
        define pn where "pn = promoteItemToNode isz hash (onebit i) node"
        have wp: "wf_node isz hash (Suc d) p pn"
          unfolding pn_def by (rule wf_node_update [OF wf pr(1,2,3,4)]) (use pr(5) in simp_all)
        have "slot d pn i = slot d node i" using sl pr(3,6) by (simp add: slot_def pn_def)
        then have same: "subtree (Suc d) pn = subtree (Suc d) node"
          using slot_outside [OF pr(3,4) il, folded pn_def, of d] by auto
        have "nodes_at pn i = Some (version it, child)" using pr(3) by (simp add: pn_def)
        from descend [OF wp this] show ?thesis using none Some False ref
          unfolding step same pn_def [symmetric] node_def [symmetric] by (simp del: wf_node.simps)
      qed
    qed
  qed
qed simp

section \<open>Erase\<close>

lemma single_bit:
  assumes "w \<noteq> 0" "w AND (w - 1) = (0 :: u64)"
  shows "\<exists>j<64. w = onebit j"
proof -
  have ex: "\<exists>j. bit w j" using assms(1) word_eq_bitI [of w 0] by auto
  define j where "j = (LEAST j. bit w j)"
  have j: "bit w j" "\<And>k. k < j \<Longrightarrow> \<not> bit w k" unfolding j_def using ex by (auto intro: LeastI dest: not_less_Least)
  have j64: "j < 64" using j(1) bit_imp_le_length by fastforce
  define w' where "w' = w AND NOT (onebit j)"
  have "w' AND onebit j = 0" "w' AND (onebit j - 1) = 0" using j(2) by (auto simp: w'_def and_zero_iff bit_simps)
  then have "w' + onebit j = w' OR onebit j" "w' + (onebit j - 1) = w' OR (onebit j - 1)"
    by (simp_all add: disjunctive_add_eq_or)
  moreover have "w = w' OR onebit j" using j(1) by (intro word_eq_bitI) (auto simp: w'_def bit_simps)
  ultimately have m: "w - 1 = w' OR (onebit j - 1)" by (metis add_diff_eq)
  have "w' = 0"
  proof (rule word_eq_bitI)
    fix k assume "k < LENGTH(64)"
    have "\<not> (bit w k \<and> bit (w - 1) k)" using assms(2) and_zero_iff by blast
    then show "bit w' k = bit (0 :: u64) k" unfolding m by (auto simp: w'_def bit_simps)
  qed
  then show ?thesis using \<open>w = w' OR onebit j\<close> j64 by auto
qed

lemma empty_bitmaps: "node_bitmap node = 0 \<Longrightarrow> nodes_at node = Map.empty"
  "item_bitmap node = 0 \<Longrightarrow> items_at node = Map.empty"
  by (auto simp: nodes_at_def items_at_def child_at_def)

lemma subtree_one_slot:
  assumes "nodes_at node = Map.empty" "items_at node = [j \<mapsto> it]" "j < 64"
  shows "subtree (Suc d) node = [it]"
proof -
  have z: "concat (map (slot d node) js) = []" if "j \<notin> set js" for js
    using that assms(1,2) by (induction js) (auto simp: slot_def)
  have "concat (map (slot d node) [0..<j]) = []" "concat (map (slot d node) [Suc j..<64]) = []"
    by (rule z, simp)+
  then show ?thesis unfolding subtree_Suc slot_split [OF assms(3)] by (simp only:) (simp add: slot_def assms(1,2))
qed

lemma subtree_no_slot: "nodes_at node = Map.empty \<Longrightarrow> items_at node = Map.empty \<Longrightarrow> subtree d node = []"
proof (cases d)
  case (Suc d')
  assume "nodes_at node = Map.empty" "items_at node = Map.empty"
  then have "slot d' node j = []" for j by (simp add: slot_def)
  then show ?thesis by (simp add: Suc subtree_Suc)
qed simp

lemma tryShrink_ok:
  assumes isz: "item_size_ok isz" and wf: "wf_node isz hash (Suc d) p node" and n: "nodes_at node i = Some (ver, child)"
  shows "wf_node isz hash (Suc d) p (tryShrinkChildNode isz (onebit i) node)
    \<and> subtree (Suc d) (tryShrinkChildNode isz (onebit i) node) = subtree (Suc d) node"
proof -
  note wd = wf_nodeD [OF wf]
  have i: "i < 64" using n by (rule at_less_64)
  have wc: "wf_node isz hash d (p * 64 + i) child" by (rule wd(3) [OF n])
  then obtain d' where d': "d = Suc d'" by (cases d) simp_all
  have sc: "shape isz child" using wf_nodeD(1) [OF wc [unfolded d']] .
  have sl: "slot d node i = subtree d child" using n by (simp add: slot_def)
  have ref: "snd (refNodeBit (onebit i) node) = child" using refNodeBit_at [OF i n] by simp
  have inone: "items_at node i = None" using wd(5) [of i] n by simp
  have "nodes_at node i \<noteq> None" using n by simp
  note e = eraseNode_at [OF wd(1) i this]
  note upd = wf_node_update [OF wf]
  note tr = tryShrinkChildNode_def [of isz "onebit i" node, unfolded ref Let_def]
  consider (keep) "tryShrinkChildNode isz (onebit i) node = node"
    | (drop) "node_bitmap child = 0" "item_bitmap child = 0" "tryShrinkChildNode isz (onebit i) node = eraseNode (onebit i) node"
    | (demote) j where "node_bitmap child = 0" "j < 64" "item_bitmap child = onebit j"
      "isz \<le> capacity_bytes node - used_bytes node + NODE_ITEM_SIZE"
      "tryShrinkChildNode isz (onebit i) node = insertItem isz (onebit i) (leaf_items child ! 0) (eraseNode (onebit i) node)"
  proof (cases "node_bitmap child \<noteq> 0 \<or> (item_bitmap child \<noteq> 0
      \<and> (capacity_bytes node - used_bytes node + NODE_ITEM_SIZE < isz \<or> item_bitmap child AND (item_bitmap child - 1) \<noteq> 0))")
    case True
    then show ?thesis using that(1) by (auto simp: tr)
  next
    case False
    then have nb: "node_bitmap child = 0" by simp
    show ?thesis
    proof (cases "item_bitmap child = 0")
      case True
      then show ?thesis using that(2) nb by (simp add: tr)
    next
      case ne: False
      then have z: "item_bitmap child AND (item_bitmap child - 1) = 0"
        and room: "isz \<le> capacity_bytes node - used_bytes node + NODE_ITEM_SIZE" using False by auto
      obtain j where "j < 64" "item_bitmap child = onebit j" using single_bit [OF ne z] by blast
      then show ?thesis using that(3) [of j] nb ne z room by (simp add: tr)
    qed
  qed
  then show ?thesis
  proof cases
    case keep
    then show ?thesis using wf by (simp del: wf_node.simps)
  next
    case drop
    have sub: "subtree d child = []" by (rule subtree_no_slot) (use drop empty_bitmaps in blast)+
    have it: "items_at (eraseNode (onebit i) node) = (items_at node)(i := None)" using e(3) inone by auto
    have "slot d (eraseNode (onebit i) node) i = slot d node i" unfolding sl sub by (simp add: slot_def e(2) it)
    then have "subtree (Suc d) (eraseNode (onebit i) node) = subtree (Suc d) node"
      using slot_outside [OF e(2) it i, of d] by auto
    moreover have "wf_node isz hash (Suc d) p (eraseNode (onebit i) node)"
      by (rule upd [OF e(1,4,2) it]) simp_all
    ultimately show ?thesis unfolding drop(3) by blast
  next
    case demote
    have at: "nodes_at child = Map.empty" "items_at child = [j \<mapsto> leaf_items child ! 0]"
    proof -
      show "nodes_at child = Map.empty" by (rule empty_bitmaps(1) [OF demote(1)])
      have "cnt (bit (onebit j :: u64)) j = 0" by (simp add: cnt_def filter_empty_conv bit_simps)
      then show "items_at child = [j \<mapsto> leaf_items child ! 0]"
        using demote(2) by (auto simp: items_at_def demote(3) child_at_def fun_eq_iff bit_simps)
    qed
    have sub: "subtree d child = [leaf_items child ! 0]" unfolding d' by (rule subtree_one_slot [OF at demote(2)])
    have room: "used_bytes (eraseNode (onebit i) node) + isz \<le> capacity_bytes (eraseNode (onebit i) node)"
      using e(5,6) demote(4) shape_used(2) [OF wd(1)] by simp
    have en: "nodes_at (eraseNode (onebit i) node) i = None" "items_at (eraseNode (onebit i) node) i = None"
      using e(2,3) inone by simp_all
    note ii = insertItem_at [OF e(1) i en room, of "leaf_items child ! 0", unfolded e(2,3,4)]
    have "slot d (insertItem isz (onebit i) (leaf_items child ! 0) (eraseNode (onebit i) node)) i = slot d node i"
      unfolding sl sub by (simp add: slot_def ii)
    then have "subtree (Suc d) (insertItem isz (onebit i) (leaf_items child ! 0) (eraseNode (onebit i) node)) = subtree (Suc d) node"
      using slot_outside [OF ii(3,2) i, of d] by auto
    moreover have "unat (hash (itemKey (leaf_items child ! 0))) div 2 ^ (6 * d) = p * 64 + i"
      by (rule wf_prefix [OF wc]) (simp add: sub)
    then have "wf_node isz hash (Suc d) p (insertItem isz (onebit i) (leaf_items child ! 0) (eraseNode (onebit i) node))"
      by (intro upd [OF ii(1,4,3,2)]) simp_all
    ultimately show ?thesis unfolding demote(5) by blast
  qed
qed

lemma tryShrink_nodes:
  assumes "shape isz node" "i < 64" "nodes_at node i \<noteq> None"
  shows "nodes_at (tryShrinkChildNode isz (onebit i) node) = nodes_at node
    \<or> nodes_at (tryShrinkChildNode isz (onebit i) node) = (nodes_at node)(i := None)"
proof -
  have "nodes_at (insertItem isz b x n) = nodes_at n" for b x and n :: "('a, 'b) tnode"
    by (simp add: nodes_at_def insertItem_def)
  then show ?thesis using eraseNode_at(2) [OF assms] by (simp add: tryShrinkChildNode_def Let_def)
qed

lemma erase_at_ok:
  assumes isz: "item_size_ok isz"
  shows "wf_node isz hash d p (snd current) \<Longrightarrow> d \<le> 10 \<Longrightarrow> unat (hash key) div 2 ^ (6 * d) = p \<Longrightarrow>
    \<exists>current'. erase_at isz timeline key d (push_bit (64 - 6 * d) (hash key)) current
        = Some (current', fm_entries (subtree d (snd current)) key \<noteq> None)
      \<and> wf_node isz hash d p (snd current') \<and> changes_key key None (subtree d (snd current)) (subtree d (snd current'))"
proof (induction d arbitrary: p current)
  case (Suc d)
  define node where "node = snd current"
  have wf: "wf_node isz hash (Suc d) p node" using Suc.prems(1) by (simp add: node_def)
  note wd = wf_nodeD [OF wf]
  have d: "d \<le> 9" using Suc.prems(2) by simp
  define i where "i = digit d (hash key)"
  have il: "i < 64" by (simp add: i_def)
  have own: "own timeline current = node" using own_eq wd(1) by (simp add: node_def)
  have ent: "fm_entries (subtree (Suc d) node) key = fm_entries (slot d node i) key"
    unfolding i_def by (rule entries_slot [OF wf Suc.prems(3)])
  have pk: "unat (hash key) div 2 ^ (6 * d) = p * 64 + i"
    using prefix_digit [of "hash key" d] Suc.prems(3) by (simp add: i_def)
  have step: "erase_at isz timeline key (Suc d) (push_bit (64 - 6 * Suc d) (hash key)) current =
     (if items_at node i \<noteq> None then
        (if itemKey (refItemBit (onebit i) node) \<noteq> key then Some (current, False)
         else Some ((timeline, eraseItem isz (onebit i) node), True))
      else if \<not> (nodes_at node i \<noteq> None) then Some (current, False)
      else map_option (\<lambda>(child, erased).
             ((timeline, if erased then tryShrinkChildNode isz (onebit i) (set_node_bit (onebit i) child node)
                         else set_node_bit (onebit i) child node), erased))
           (erase_at isz timeline key d (push_bit (64 - 6 * d) (hash key)) (refNodeBit (onebit i) node)))"
    unfolding erase_at_step [OF wd(1) [unfolded node_def] d] Let_def i_def node_def ..
  have same: ?case if "fm_entries (subtree (Suc d) node) key = None"
    "erase_at isz timeline key (Suc d) (push_bit (64 - 6 * Suc d) (hash key)) current = Some (current, False)"
    using that wf unfolding that(2) node_def [symmetric]
    by (intro exI [of _ current]) (auto simp: changes_key_def node_def fun_upd_idem simp del: wf_node.simps)
  show ?case
  proof (cases "items_at node i")
    case (Some it)
    have none: "nodes_at node i = None" using wd(5) [of i] Some by simp
    have sl: "slot d node i = [it]" using none Some by (simp add: slot_def)
    have ref: "refItemBit (onebit i) node = it" by (rule refItemBit_at [OF il Some])
    show ?thesis
    proof (cases "itemKey it = key")
      case False
      show ?thesis by (rule same) (use ent sl False Some ref step in \<open>auto simp: fm_entries_None\<close>)
    next
      case True
      have "items_at node i \<noteq> None" using Some by simp
      note e = eraseItem_at [OF wd(1) il this]
      have "slot d (eraseItem isz (onebit i) node) i = []" using none by (simp add: slot_def e)
      then have c: "changes_key key None (slot d node i) (slot d (eraseItem isz (onebit i) node) i)"
        unfolding sl using True by (cases it) (simp add: changes_key_def)
      have "wf_node isz hash (Suc d) p (eraseItem isz (onebit i) node)
          \<and> changes_key key None (subtree (Suc d) node) (subtree (Suc d) (eraseItem isz (onebit i) node))"
      proof (rule slot_changed [OF wf Suc.prems(3) e(1,4), folded i_def])
        show "nodes_at (eraseItem isz (onebit i) node) = (nodes_at node)(i := None)" using e(3) none by auto
        show "items_at (eraseItem isz (onebit i) node) = (items_at node)(i := None)" by (rule e(2))
      qed (use c in simp_all)
      moreover have "fm_entries (subtree (Suc d) node) key \<noteq> None" using ent sl True by (cases it) simp
      ultimately show ?thesis using Some ref True unfolding step node_def [symmetric] by (simp del: wf_node.simps)
    qed
  next
    case inone: None
    show ?thesis
    proof (cases "nodes_at node i")
      case None
      show ?thesis by (rule same) (use ent None inone step in \<open>auto simp: slot_def\<close>)
    next
      case (Some vc)
      obtain ver child where vc: "nodes_at node i = Some (ver, child)" using Some by (cases vc) simp
      have w: "wf_node isz hash d (p * 64 + i) child" by (rule wd(3) [OF vc])
      have e: "fm_entries (subtree (Suc d) node) key = fm_entries (subtree d child) key"
        using ent vc by (simp add: slot_def)
      have ref: "refNodeBit (onebit i) node = (ver, child)" by (rule refNodeBit_at [OF il vc])
      obtain cur' where ih: "erase_at isz timeline key d (push_bit (64 - 6 * d) (hash key)) (ver, child)
          = Some (cur', fm_entries (subtree d child) key \<noteq> None)" "wf_node isz hash d (p * 64 + i) (snd cur')"
          "changes_key key None (subtree d child) (subtree d (snd cur'))"
        using Suc.IH [of "p * 64 + i" "(ver, child)"] w d pk by auto
      obtain ver' child' where cur': "cur' = (ver', child')" by (cases cur')
      have ds: "wf_node isz hash (Suc d) p (set_node_bit (onebit i) cur' node)"
        "changes_key key None (subtree (Suc d) node) (subtree (Suc d) (set_node_bit (onebit i) cur' node))"
        using descend_ok [OF wf Suc.prems(3) vc [unfolded i_def], of child' None ver', folded i_def] ih cur'
        by (simp_all del: wf_node.simps)
      have "nodes_at (set_node_bit (onebit i) cur' node) i = Some (ver', child')"
        using set_node_bit_at(2) [OF wd(1) il, of cur'] vc cur' by simp
      from tryShrink_ok [OF isz ds(1) this]
      have ts: "wf_node isz hash (Suc d) p (tryShrinkChildNode isz (onebit i) (set_node_bit (onebit i) cur' node))"
        "subtree (Suc d) (tryShrinkChildNode isz (onebit i) (set_node_bit (onebit i) cur' node))
          = subtree (Suc d) (set_node_bit (onebit i) cur' node)" by simp_all
      show ?thesis unfolding step ref ih(1) node_def [symmetric] e
        using ts ds inone vc by (auto simp del: wf_node.simps)
    qed
  qed
qed simp

lemma find_at_ok:
  "wf_node isz hash d p node \<Longrightarrow> d \<le> 10 \<Longrightarrow> unat (hash key) div 2 ^ (6 * d) = p \<Longrightarrow>
    find_at key d (push_bit (64 - 6 * d) (hash key)) node
      = map_option (\<lambda>(ver, v). (ver, key, v)) (fm_entries (subtree d node) key)"
proof (induction d arbitrary: p node)
  case (Suc d)
  note wd = wf_nodeD [OF Suc.prems(1)]
  have d: "d \<le> 9" using Suc.prems(2) by simp
  define i where "i = digit d (hash key)"
  have il: "i < 64" by (simp add: i_def)
  have ent: "fm_entries (subtree (Suc d) node) key = fm_entries (slot d node i) key"
    unfolding i_def by (rule entries_slot [OF Suc.prems(1,3)])
  have pk: "unat (hash key) div 2 ^ (6 * d) = p * 64 + i"
    using prefix_digit [of "hash key" d] Suc.prems(3) by (simp add: i_def)
  have step: "find_at key (Suc d) (push_bit (64 - 6 * Suc d) (hash key)) node =
     (if items_at node i \<noteq> None then
        (if itemKey (refItemBit (onebit i) node) = key then Some (refItemBit (onebit i) node) else None)
      else if \<not> (nodes_at node i \<noteq> None) then None
      else find_at key d (push_bit (64 - 6 * d) (hash key)) (snd (refNodeBit (onebit i) node)))"
    unfolding find_at.simps(2) Let_def slot_bit_digit [OF d] consume_digit [OF d] i_def [symmetric]
      node_slot_test [symmetric] item_slot_test not_not ..
  show ?case
  proof (cases "items_at node i")
    case (Some it)
    have "nodes_at node i = None" using wd(5) [of i] Some by simp
    then have "slot d node i = [it]" using Some by (simp add: slot_def)
    then show ?thesis unfolding step ent using Some refItemBit_at [OF il Some] by (cases it) simp
  next
    case None
    show ?thesis
    proof (cases "nodes_at node i")
      case (Some vc)
      obtain ver child where vc: "nodes_at node i = Some (ver, child)" using Some by (cases vc) simp
      then show ?thesis unfolding step ent
        using None refNodeBit_at [OF il vc] Suc.IH [OF wd(3) [OF vc] _ pk] d by (simp add: slot_def)
    next
      case none: None
      then show ?thesis unfolding step ent using None by (simp add: slot_def)
    qed
  qed
qed simp

section \<open>Order of the items\<close>

definition hash_less :: "('k \<Rightarrow> u64) \<Rightarrow> ('k, 'v) v8g_item \<Rightarrow> ('k, 'v) v8g_item \<Rightarrow> bool" where
  "hash_less hash a b \<longleftrightarrow> hash (itemKey a) < hash (itemKey b)"

lemma sorted_concat:
  "(\<And>i. i < n \<Longrightarrow> sorted_wrt R (f i)) \<Longrightarrow> (\<And>i j x y. i < j \<Longrightarrow> j < n \<Longrightarrow> x \<in> set (f i) \<Longrightarrow> y \<in> set (f j) \<Longrightarrow> R x y) \<Longrightarrow>
     sorted_wrt R (concat (map f [0..<n]))"
proof (induction n)
  case (Suc n)
  have "sorted_wrt R (concat (map f [0..<n]))" using Suc by simp
  moreover have "\<forall>x\<in>set (concat (map f [0..<n])). \<forall>y\<in>set (f n). R x y" using Suc.prems(2) [of _ n] by auto
  ultimately show ?case using Suc.prems(1) [of n] by (simp add: sorted_wrt_append)
qed simp

lemma prefix_less:
  "unat h div 2 ^ n < unat h' div 2 ^ n \<Longrightarrow> h < (h' :: u64)"
  by (metis div_le_mono not_le word_less_nat_alt)

lemma subtree_sorted: "wf_node isz hash d p node \<Longrightarrow> sorted_wrt (hash_less hash) (subtree d node)"
proof (induction d arbitrary: p node)
  case (Suc d)
  note wd = wf_nodeD [OF Suc.prems]
  show ?case unfolding subtree_Suc
  proof (rule sorted_concat)
    fix i assume "i < (64 :: nat)"
    show "sorted_wrt (hash_less hash) (slot d node i)"
      using Suc.IH [OF wd(3) [of i]] by (auto simp: slot_def split: option.splits)
  next
    fix i j x y assume a: "i < j" "j < (64 :: nat)" "x \<in> set (slot d node i)" "y \<in> set (slot d node j)"
    have "unat (hash (itemKey x)) div 2 ^ (6 * d) = p * 64 + i" "unat (hash (itemKey y)) div 2 ^ (6 * d) = p * 64 + j"
      using wf_slot [OF Suc.prems _ a(3)] wf_slot [OF Suc.prems _ a(4)] a(1,2) by simp_all
    then show "hash_less hash x y" using a(1) prefix_less [of _ "6 * d"] by (simp add: hash_less_def)
  qed
qed simp

definition first_of :: "'a list \<Rightarrow> 'a option" where
  "first_of xs = (case xs of [] \<Rightarrow> None | x # _ \<Rightarrow> Some x)"

lemma first_of_simps [simp]: "first_of [] = None" "first_of (x # xs) = Some x"
  by (simp_all add: first_of_def)

lemma first_of_append: "first_of (xs @ ys) = (case first_of xs of None \<Rightarrow> first_of ys | Some x \<Rightarrow> Some x)"
  by (cases xs) simp_all

lemma first_of_None [simp]: "first_of xs = None \<longleftrightarrow> xs = []"
  by (cases xs) simp_all

text \<open>The loop over set bits, from a bit on, against the slots it runs over. \<open>idx\<close> counts the
  child nodes below.\<close>

lemma first_loop_ok:
  assumes s: "shape isz node" and ref: "\<And>b it. b \<in> set bits \<Longrightarrow> items_at node b = Some it \<Longrightarrow>
      (\<forall>b'\<in>set bits. b' < b \<longrightarrow> items_at node b' = None) \<Longrightarrow> item_ref (onebit b) = it"
    and fs: "firsts = map (\<lambda>(ver, child). first_of (subtree d child)) (node_items node)"
    and bits: "bits = filter (bit (node_bitmap node OR item_bitmap node)) [lo..<64]"
    and idx: "idx = cnt (bit (node_bitmap node)) lo" and lo: "lo \<le> 64"
  shows "first_loop (item_bitmap node) item_ref firsts bits idx = first_of (concat (map (slot d node) [lo..<64]))"
  using ref bits idx lo
proof (induction "64 - lo" arbitrary: lo bits idx)
  case 0
  then show ?case by simp
next
  case (Suc n)
  then have lo: "lo < 64" "n = 64 - Suc lo" by simp_all
  have up: "[lo..<64] = lo # [Suc lo..<64]" using lo(1) by (rule upt_conv_Cons)
  define bits' where "bits' = filter (bit (node_bitmap node OR item_bitmap node)) [Suc lo..<64]"
  have bits: "bits = (if bit (node_bitmap node) lo \<or> bit (item_bitmap node) lo then lo # bits' else bits')"
    unfolding Suc.prems(2) up bits'_def by (simp add: bit_simps)
  have ge: "b \<in> set bits' \<Longrightarrow> lo < b" for b by (auto simp: bits'_def)
  have ih: "first_loop (item_bitmap node) item_ref firsts bits' (cnt (bit (node_bitmap node)) (Suc lo))
      = first_of (concat (map (slot d node) [Suc lo..<64]))" if "\<not> bit (item_bitmap node) lo"
  proof (rule Suc.hyps(1) [OF lo(2) _ bits'_def refl])
    fix b it assume a: "b \<in> set bits'" "items_at node b = Some it" "\<forall>b'\<in>set bits'. b' < b \<longrightarrow> items_at node b' = None"
    have "items_at node lo = None" using that items_at_Some [of node lo] by blast
    then have "\<forall>b'\<in>set bits. b' < b \<longrightarrow> items_at node b' = None" using a(3) by (simp add: bits)
    then show "item_ref (onebit b) = it" using a(1,2) by (intro Suc.prems(1)) (simp_all add: bits)
  qed (use lo in simp)
  show ?case
  proof (cases "bit (item_bitmap node) lo")
    case True
    then obtain it where it: "items_at node lo = Some it" using items_at_Some [of node lo] by blast
    moreover have n: "nodes_at node lo = None" using shapeD(3) [OF s, of lo] True nodes_at_Some [of node lo] by blast
    ultimately have "slot d node lo = [it]" by (simp add: slot_def)
    moreover have "item_ref (onebit lo) = it"
      using True it ge by (intro Suc.prems(1)) (auto simp: bits dest!: ge)
    ultimately show ?thesis unfolding bits up using True by (simp add: and_onebit_zero)
  next
    case no_item: False
    show ?thesis
    proof (cases "bit (node_bitmap node) lo")
      case True
      have c: "cnt (bit (node_bitmap node)) lo < length (node_items node)"
        unfolding shapeD(1) [OF s] by (rule cnt_less_popcount [OF True lo(1)])
      obtain ver child where vc: "node_items node ! cnt (bit (node_bitmap node)) lo = (ver, child)" by (metis surj_pair)
      then have "slot d node lo = subtree d child" using True by (simp add: slot_def nodes_at_def child_at_def)
      moreover have "firsts ! idx = first_of (subtree d child)" using c vc by (simp add: fs Suc.prems(3))
      moreover have "idx + 1 = cnt (bit (node_bitmap node)) (Suc lo)" using True by (simp add: Suc.prems(3) cnt_Suc)
      ultimately show ?thesis unfolding bits up using True no_item ih [OF no_item]
        by (auto simp: and_onebit_zero first_of_append split: option.splits)
    next
      case False
      then have "nodes_at node lo = None" "items_at node lo = None"
        using no_item nodes_at_Some [of node lo] items_at_Some [of node lo] by blast+
      then have "slot d node lo = []" by (simp add: slot_def)
      moreover have "idx = cnt (bit (node_bitmap node)) (Suc lo)" using False by (simp add: Suc.prems(3) cnt_Suc)
      ultimately show ?thesis unfolding bits up using False no_item ih [OF no_item] by simp
    qed
  qed
qed

lemma cnt_surj: "n < cnt P m \<Longrightarrow> \<exists>i<m. P i \<and> cnt P i = n"
proof (induction m)
  case (Suc m)
  show ?case
  proof (cases "n < cnt P m")
    case True
    then show ?thesis using Suc.IH less_SucI by blast
  next
    case False
    then show ?thesis using Suc.prems by (intro exI [of _ m]) (auto simp: cnt_Suc split: if_splits)
  qed
qed simp

lemma firsts_ok:
  fixes node :: "('k, 'v) tnode"
  assumes wf: "wf_node isz hash (Suc d) p node"
    and ih: "\<And>q (child :: ('k, 'v) tnode). wf_node isz hash d q child \<Longrightarrow> findFirstItem d child = first_of (subtree d child)"
  shows "map (\<lambda>(ver, child). findFirstItem d child) (node_items node)
      = map (\<lambda>(ver, child). first_of (subtree d child)) (node_items node)"
proof (rule map_cong [OF refl], clarify)
  note wd = wf_nodeD [OF wf]
  fix ver child assume "(ver, child) \<in> set (node_items node)"
  then obtain n where n: "n < popcount (node_bitmap node)" "node_items node ! n = (ver, child)"
    by (auto simp: in_set_conv_nth shapeD(1) [OF wd(1)])
  obtain i where i: "i < 64" "bit (node_bitmap node) i" "cnt (bit (node_bitmap node)) i = n"
    using cnt_surj [of n "bit (node_bitmap node)" 64] n(1) unfolding popcount_cnt by blast
  then have "nodes_at node i = Some (ver, child)" using n(2) by (simp add: nodes_at_def child_at_def)
  then show "findFirstItem d child = first_of (subtree d child)" using ih wd(3) by blast
qed

lemma findFirstItem_ok: "wf_node isz hash d p node \<Longrightarrow> findFirstItem d node = first_of (subtree d node)"
proof (induction d arbitrary: p node)
  case (Suc d)
  note wd = wf_nodeD [OF Suc.prems]
  have fs: "map (\<lambda>(ver, child). findFirstItem d child) (node_items node)
      = map (\<lambda>(ver, child). first_of (subtree d child)) (node_items node)"
    by (rule firsts_ok [OF Suc.prems Suc.IH])
  have "findFirstItem (Suc d) node = first_of (concat (map (slot d node) [0..<64]))"
    unfolding findFirstItem.simps set_bits_of_def fs
  proof (rule first_loop_ok [OF wd(1) _ refl refl])
    fix b it assume b: "b \<in> set (filter (bit (node_bitmap node OR item_bitmap node)) [0..<64])" "items_at node b = Some it"
      "\<forall>b'\<in>set (filter (bit (node_bitmap node OR item_bitmap node)) [0..<64]). b' < b \<longrightarrow> items_at node b' = None"
    have "\<not> bit (item_bitmap node) j" if "j < b" for j
      using b that items_at_Some [of node j] by (auto simp: bit_simps)
    then have "cnt (bit (item_bitmap node)) b = 0" by (simp add: cnt_def filter_empty_conv)
    then show "leaf_items node ! 0 = it" using b(2) by (auto simp: items_at_def child_at_def split: if_splits)
  qed simp_all
  then show ?case by (simp add: subtree_Suc)
qed simp

lemma push_bit_less:
  fixes a b :: u64
  assumes "n \<le> 64" "unat a div 2 ^ (64 - n) = unat b div 2 ^ (64 - n)"
  shows "push_bit n a < push_bit n b \<longleftrightarrow> a < b"
proof -
  have u: "unat (push_bit n x) = 2 ^ n * (unat x mod 2 ^ (64 - n))" for x :: u64
  proof -
    have "unat (push_bit n x) = take_bit 64 (push_bit n (unat x))" by (simp add: unsigned_push_bit_eq)
    also have "\<dots> = push_bit n (take_bit (64 - n) (unat x))" using assms(1) by (simp add: take_bit_push_bit)
    finally show ?thesis by (simp add: push_bit_eq_mult take_bit_eq_mod mult.commute)
  qed
  define q where "q = unat a div 2 ^ (64 - n)"
  have "unat a = q * 2 ^ (64 - n) + unat a mod 2 ^ (64 - n)" "unat b = q * 2 ^ (64 - n) + unat b mod 2 ^ (64 - n)"
    using assms(2) div_mult_mod_eq [of "unat a" "2 ^ (64 - n)"] div_mult_mod_eq [of "unat b" "2 ^ (64 - n)"]
    by (simp_all add: q_def)
  then have "unat a < unat b \<longleftrightarrow> unat a mod 2 ^ (64 - n) < unat b mod 2 ^ (64 - n)" by linarith
  then show ?thesis by (simp add: word_less_nat_alt u)
qed

lemma bits_above:
  assumes "i < 64"
  shows "set_bits_of (w AND NOT (push_bit 1 (onebit i) - 1)) = filter (bit w) [Suc i..<64]"
    and "popcount (v AND NOT ((v OR w') AND NOT (push_bit 1 (onebit i) - 1)) :: u64) = cnt (bit v) (Suc i)"
proof -
  have p: "push_bit 1 (onebit i) = (onebit (Suc i) :: u64)" by (simp add: onebit_def push_bit_push_bit)
  have b: "bit (w AND NOT (onebit (Suc i) - 1)) j \<longleftrightarrow> bit w j \<and> Suc i \<le> j" if "j < 64" for j
    using that by (auto simp: bit_simps)
  have "[0..<64] = [0..<Suc i] @ [Suc i..<64]" using assms by (metis Suc_leI le0 le_add_diff_inverse upt_add_eq_append)
  moreover have "filter (bit (w AND NOT (onebit (Suc i) - 1))) [0..<Suc i] = []"
    using b assms by (auto simp: filter_empty_conv)
  moreover have "filter (bit (w AND NOT (onebit (Suc i) - 1))) [Suc i..<64] = filter (bit w) [Suc i..<64]"
    using b by (intro filter_cong) auto
  ultimately show "set_bits_of (w AND NOT (push_bit 1 (onebit i) - 1)) = filter (bit w) [Suc i..<64]"
    unfolding p set_bits_of_def by (simp del: upt_Suc)
  have "v AND NOT ((v OR w') AND NOT (onebit (Suc i) - 1)) = v AND (onebit (Suc i) - 1)"
    by (intro word_eq_bitI) (auto simp: bit_simps)
  then show "popcount (v AND NOT ((v OR w') AND NOT (push_bit 1 (onebit i) - 1)) :: u64) = cnt (bit v) (Suc i)"
    unfolding p using assms by (simp add: popcount_below rank_cnt)
qed

definition after_hash :: "('k \<Rightarrow> u64) \<Rightarrow> u64 \<Rightarrow> ('k, 'v) v8g_item list \<Rightarrow> ('k, 'v) v8g_item list" where
  "after_hash hash h = filter (\<lambda>it. h < hash (itemKey it))"

lemma after_hash_simps [simp]:
  "after_hash hash h [] = []" "after_hash hash h (xs @ ys) = after_hash hash h xs @ after_hash hash h ys"
  by (simp_all add: after_hash_def)

lemma after_hash_slots:
  assumes wf: "wf_node isz hash (Suc d) p node" and h: "unat h div 2 ^ (6 * Suc d) = p"
  shows "after_hash hash h (subtree (Suc d) node)
    = after_hash hash h (slot d node (digit d h)) @ concat (map (slot d node) [Suc (digit d h)..<64])"
proof -
  define i where "i = digit d h"
  have i: "i < 64" by (simp add: i_def)
  have ph: "unat h div 2 ^ (6 * d) = p * 64 + i" using prefix_digit [of h d] h by (simp add: i_def)
  have lo: "after_hash hash h (concat (map (slot d node) [0..<i])) = []"
  proof -
    have "\<not> h < hash (itemKey it)" if "j < i" "it \<in> set (slot d node j)" for j it
      using prefix_less [of "hash (itemKey it)" "6 * d" h] wf_slot [OF wf _ that(2)] that(1) i ph
      by (auto simp: not_less intro: less_imp_le)
    then show ?thesis by (auto simp: after_hash_def filter_empty_conv)
  qed
  have hi: "after_hash hash h (concat (map (slot d node) [Suc i..<64])) = concat (map (slot d node) [Suc i..<64])"
    unfolding after_hash_def filter_id_conv
  proof
    fix it assume "it \<in> set (concat (map (slot d node) [Suc i..<64]))"
    then obtain j where j: "Suc i \<le> j" "j < 64" "it \<in> set (slot d node j)" by auto
    then show "h < hash (itemKey it)"
      using prefix_less [of h "6 * d" "hash (itemKey it)"] wf_slot [OF wf j(2,3)] ph by simp
  qed
  show ?thesis unfolding i_def [symmetric] subtree_Suc slot_split [OF i] after_hash_simps lo hi by simp
qed

lemma findNextItem_ok:
  "wf_node isz hash d p node \<Longrightarrow> d \<le> 10 \<Longrightarrow> unat h div 2 ^ (6 * d) = p \<Longrightarrow>
     findNextItem hash d (push_bit (64 - 6 * d) h) node = first_of (after_hash hash h (subtree d node))"
proof (induction d arbitrary: p node)
  case (Suc d)
  note wd = wf_nodeD [OF Suc.prems(1)]
  have d: "d \<le> 9" using Suc.prems(2) by simp
  define i where "i = digit d h"
  have il: "i < 64" by (simp add: i_def)
  have ph: "unat h div 2 ^ (6 * d) = p * 64 + i" using prefix_digit [of h d] Suc.prems(3) by (simp add: i_def)
  have fs: "map (\<lambda>(ver, child). findFirstItem d child) (node_items node)
      = map (\<lambda>(ver, child). first_of (subtree d child)) (node_items node)"
    by (rule firsts_ok [OF Suc.prems(1) findFirstItem_ok])
  define rest where "rest = first_of (concat (map (slot d node) [Suc i..<64]))"
  have rest: "first_loop (item_bitmap node) (\<lambda>bit. refItemBit bit node)
       (map (\<lambda>(ver, child). findFirstItem d child) (node_items node))
       (set_bits_of ((node_bitmap node OR item_bitmap node) AND NOT (push_bit 1 (onebit i) - 1)))
       (popcount (node_bitmap node AND NOT ((node_bitmap node OR item_bitmap node) AND NOT (push_bit 1 (onebit i) - 1)))) = rest"
    unfolding bits_above [OF il] fs rest_def
    by (rule first_loop_ok [OF wd(1) _ refl refl refl]) (use il in \<open>auto intro: refItemBit_at\<close>)
  have step: "findNextItem hash (Suc d) (push_bit (64 - 6 * Suc d) h) node =
     (case (if nodes_at node i \<noteq> None then findNextItem hash d (push_bit (64 - 6 * d) h) (snd (refNodeBit (onebit i) node)) else None) of
        Some found \<Rightarrow> Some found
      | None \<Rightarrow> if items_at node i \<noteq> None \<and>
                   push_bit (64 - 6 * Suc d) h < push_bit (consumed_hash_bits node) (hash (itemKey (refItemBit (onebit i) node)))
                then Some (refItemBit (onebit i) node) else rest)"
    unfolding findNextItem.simps(2) Let_def slot_bit_digit [OF d] consume_digit [OF d] i_def [symmetric]
      node_slot_test item_slot_test rest ..
  have goal: "first_of (after_hash hash h (subtree (Suc d) node))
      = (case first_of (after_hash hash h (slot d node i)) of Some found \<Rightarrow> Some found | None \<Rightarrow> rest)"
    unfolding after_hash_slots [OF Suc.prems(1,3)] i_def [symmetric] first_of_append rest_def
    by (simp split: option.split)
  show ?case
  proof (cases "nodes_at node i")
    case (Some vc)
    obtain ver child where vc: "nodes_at node i = Some (ver, child)" using Some by (cases vc) simp
    have "items_at node i = None" using wd(5) [of i] vc by simp
    moreover have "findNextItem hash d (push_bit (64 - 6 * d) h) child = first_of (after_hash hash h (slot d node i))"
      using Suc.IH [OF wd(3) [OF vc] _ ph] d vc by (simp add: slot_def)
    ultimately show ?thesis unfolding step goal using vc refNodeBit_at [OF il vc] by simp
  next
    case none: None
    show ?thesis
    proof (cases "items_at node i")
      case None
      then show ?thesis unfolding step goal using none by (simp add: slot_def)
    next
      case (Some it)
      have "64 - (64 - 6 * Suc d) = 6 * Suc d" using d by simp
      moreover have "unat (hash (itemKey it)) div 2 ^ (6 * Suc d) = p" using prefix_up [OF wd(4) [OF Some] il] by simp
      ultimately have cmp: "push_bit (64 - 6 * Suc d) h < push_bit (64 - 6 * Suc d) (hash (itemKey it)) \<longleftrightarrow> h < hash (itemKey it)"
        using Suc.prems(3) by (intro push_bit_less) simp_all
      have sl: "slot d node i = [it]" using none Some by (simp add: slot_def)
      show ?thesis unfolding step goal sl wd(2) refItemBit_at [OF il Some] cmp using none Some
        by (simp add: after_hash_def)
    qed
  qed
qed simp

section \<open>The whole container\<close>

definition root_subtree :: "(u64 \<times> ('k, 'v) tnode option) \<Rightarrow> ('k, 'v) v8g_item list" where
  "root_subtree root = (case snd root of None \<Rightarrow> [] | Some node \<Rightarrow> subtree DEPTH node)"

definition trie_items :: "('k, 'v) trie \<Rightarrow> ('k, 'v) v8g_item list" where
  "trie_items t = concat (map root_subtree (m_root_nodes t))"

definition trie_entries :: "('k, 'v) trie \<Rightarrow> 'k \<rightharpoonup> u64 \<times> 'v" where
  "trie_entries t = fm_entries (trie_items t)"

definition trie_ok :: "nat \<Rightarrow> ('k \<Rightarrow> u64) \<Rightarrow> ('k, 'v) trie \<Rightarrow> bool" where
  "trie_ok isz hash t \<longleftrightarrow> length (m_root_nodes t) = 16 \<and> m_size t = length (trie_items t)
     \<and> (\<forall>i<16. \<forall>node. snd (m_root_nodes t ! i) = Some node \<longrightarrow> wf_node isz hash DEPTH i node)"

lemma trie_root_index_div: "trie_root_index h = unat h div 2 ^ (6 * DEPTH)"
proof -
  have "unat h < 2 ^ LENGTH(64)" by (rule unsigned_less)
  then have m: "unat h mod 18446744073709551616 = unat h" by simp
  show ?thesis unfolding trie_root_index_def ROOT_NODES_LOG2_def DEPTH_def unsigned_drop_bit_eq
    by (simp add: drop_bit_eq_div take_bit_eq_mod m)
qed

lemma trie_root_index_less [simp]: "trie_root_index h < 16"
proof -
  have "unat h < 2 ^ LENGTH(64)" by (rule unsigned_less)
  then show ?thesis by (simp add: trie_root_index_div DEPTH_def less_mult_imp_div_less)
qed

lemma root_shift: "push_bit ROOT_NODES_LOG2 h = push_bit (64 - 6 * DEPTH) h"
  by (simp add: ROOT_NODES_LOG2_def DEPTH_def)

lemma trie_okD:
  assumes "trie_ok isz hash t"
  shows "length (m_root_nodes t) = 16" "m_size t = length (trie_items t)"
    "i < 16 \<Longrightarrow> snd (m_root_nodes t ! i) = Some node \<Longrightarrow> wf_node isz hash DEPTH i node"
  using assms by (auto simp: trie_ok_def)

text \<open>One root replaced.\<close>

lemma root_keys:
  assumes ok: "trie_ok isz hash t" and j: "j < 16" "j \<noteq> trie_root_index (hash key)" and it: "it \<in> set (root_subtree (m_root_nodes t ! j))"
  shows "itemKey it \<noteq> key"
proof
  assume k: "itemKey it = key"
  from it obtain node where n: "snd (m_root_nodes t ! j) = Some node" "it \<in> set (subtree DEPTH node)"
    by (cases "snd (m_root_nodes t ! j)") (auto simp: root_subtree_def)
  have "unat (hash (itemKey it)) div 2 ^ (6 * DEPTH) = j"
    by (rule wf_prefix [OF trie_okD(3) [OF ok j(1) n(1)] n(2)])
  then show False using j(2) k by (simp add: trie_root_index_div)
qed

lemma roots_keys:
  assumes ok: "trie_ok isz hash t" and j: "\<forall>j\<in>set js. j < 16 \<and> j \<noteq> trie_root_index (hash key)"
  shows "\<forall>x\<in>set (concat (map (\<lambda>j. root_subtree (m_root_nodes t ! j)) js)). itemKey x \<noteq> key"
  unfolding set_concat set_map using root_keys [OF ok] j by blast

lemma roots_split:
  assumes "length roots = 16" "i < 16"
  shows "concat (map f roots) = concat (map (\<lambda>j. f (roots ! j)) [0..<i]) @ f (roots ! i) @ concat (map (\<lambda>j. f (roots ! j)) [Suc i..<16])"
proof -
  have "map f roots = map (\<lambda>j. f (roots ! j)) [0..<16]" using assms(1) by (intro nth_equalityI) simp_all
  moreover have "[0..<16] = [0..<i] @ i # [Suc i..<16]"
    using assms(2) by (metis add_0 le_add_diff_inverse less_imp_le_nat upt_add_eq_append upt_conv_Cons zero_le)
  ultimately show ?thesis by simp
qed

lemma root_entries:
  assumes ok: "trie_ok isz hash t"
  shows "trie_entries t key = fm_entries (root_subtree (m_root_nodes t ! trie_root_index (hash key))) key"
proof -
  have z: "fm_entries (concat (map (\<lambda>j. root_subtree (m_root_nodes t ! j)) js)) key = None"
    if "\<forall>j\<in>set js. j < 16 \<and> j \<noteq> trie_root_index (hash key)" for js
    by (rule fm_entries_None [OF roots_keys [OF ok that]])
  have "fm_entries (concat (map (\<lambda>j. root_subtree (m_root_nodes t ! j)) [0..<trie_root_index (hash key)])) key = None"
    "fm_entries (concat (map (\<lambda>j. root_subtree (m_root_nodes t ! j)) [Suc (trie_root_index (hash key))..<16])) key = None"
    by (rule z, use less_trans [OF _ trie_root_index_less [of "hash key"]] in simp)+
  then show ?thesis
    unfolding trie_entries_def trie_items_def roots_split [OF trie_okD(1) [OF ok] trie_root_index_less [of "hash key"]]
    by (simp add: fm_entries_append map_add_def split: option.splits)
qed

lemma root_changed:
  fixes ver :: u64
  assumes ok: "trie_ok isz hash t" and w: "wf_node isz hash DEPTH (trie_root_index (hash key)) node"
    and c: "changes_key key r (root_subtree (m_root_nodes t ! trie_root_index (hash key))) (subtree DEPTH node)"
    and n: "m_size t + (if r = None then 0 else 1) = n + (if trie_entries t key = None then 0 else 1)"
  defines "t' \<equiv> \<lparr>m_size = n, m_root_nodes = (m_root_nodes t)[trie_root_index (hash key) := (ver, Some node)]\<rparr>"
  shows "trie_ok isz hash t' \<and> trie_entries t' = (trie_entries t)(key := r)"
proof -
  define i where "i = trie_root_index (hash key)"
  have il: "i < 16" by (simp add: i_def)
  define A where "A = concat (map (\<lambda>j. root_subtree (m_root_nodes t ! j)) [0..<i])"
  define B where "B = concat (map (\<lambda>j. root_subtree (m_root_nodes t ! j)) [Suc i..<16])"
  have len: "length (m_root_nodes t) = 16" "length (m_root_nodes t') = 16" using trie_okD(1) [OF ok] by (simp_all add: t'_def)
  have nth: "m_root_nodes t' ! i = (ver, Some node)" using il len(1) by (simp add: t'_def i_def)
  have oth: "j \<noteq> i \<Longrightarrow> m_root_nodes t' ! j = m_root_nodes t ! j" for j by (simp add: t'_def i_def)
  have m: "map (\<lambda>j. root_subtree (m_root_nodes t' ! j)) [0..<i] = map (\<lambda>j. root_subtree (m_root_nodes t ! j)) [0..<i]"
    "map (\<lambda>j. root_subtree (m_root_nodes t' ! j)) [Suc i..<16] = map (\<lambda>j. root_subtree (m_root_nodes t ! j)) [Suc i..<16]"
    using oth by simp_all
  have items: "trie_items t = A @ root_subtree (m_root_nodes t ! i) @ B" "trie_items t' = A @ subtree DEPTH node @ B"
    unfolding trie_items_def roots_split [OF len(1) il] roots_split [OF len(2) il] m nth
    by (simp_all add: A_def B_def root_subtree_def)
  have keys: "\<forall>x\<in>set A. itemKey x \<noteq> key" "\<forall>x\<in>set B. itemKey x \<noteq> key"
    unfolding A_def B_def using less_trans [OF _ il] by (intro roots_keys [OF ok]; force simp: i_def)+
  have e: "trie_entries t' = (trie_entries t)(key := r)"
    unfolding trie_entries_def items using c by (intro entries_replace keys) (simp add: changes_key_def i_def)
  moreover have "length (subtree DEPTH node) + (if trie_entries t key = None then 0 else 1)
      = length (root_subtree (m_root_nodes t ! i)) + (if r = None then 0 else 1)"
    using c root_entries [OF ok, of key] by (simp add: changes_key_def i_def)
  then have "m_size t' = length (trie_items t')"
    using trie_okD(2) [OF ok] n unfolding items by (simp add: t'_def split: if_splits)
  moreover have "wf_node isz hash DEPTH j nd" if "j < 16" "snd (m_root_nodes t' ! j) = Some nd" for j nd
    using that w trie_okD(3) [OF ok] nth oth by (cases "j = i") (simp_all add: i_def)
  ultimately show ?thesis using len by (simp add: trie_ok_def)
qed

lemma new_trie_ok: "trie_ok isz hash (new_trie :: ('k, 'v) trie) \<and> trie_entries (new_trie :: ('k, 'v) trie) = Map.empty"
proof -
  have "trie_items (new_trie :: ('k, 'v) trie) = []"
    by (simp add: trie_items_def new_trie_def root_subtree_def)
  then show ?thesis by (simp add: trie_ok_def trie_entries_def) (simp add: new_trie_def ROOT_NODES_LOG2_def)
qed

lemma root_fresh:
  "wf_node isz hash DEPTH i (allocateNode isz ROOT_NODES_LOG2)" "subtree DEPTH (allocateNode isz ROOT_NODES_LOG2) = []"
proof -
  have D: "DEPTH = Suc 9" by (simp add: DEPTH_def)
  show "wf_node isz hash DEPTH i (allocateNode isz ROOT_NODES_LOG2)"
    unfolding D wf_node.simps(2) by (simp add: ROOT_NODES_LOG2_def allocateNode_ok)
qed (simp add: allocateNode_ok subtree_no_slot fun_eq_iff)

lemma trie_insert_ok:
  fixes t :: "('k, 'v) trie"
  assumes inj: "inj hash" and isz: "item_size_ok isz" and ok: "trie_ok isz hash t"
  shows "\<exists>t'. trie_insert isz hash timeline key v t = Some t' \<and> trie_ok isz hash t'
    \<and> trie_entries t' = (trie_entries t)(key \<mapsto> (timeline, v))"
proof -
  define i where "i = trie_root_index (hash key)"
  define cur where "cur = (case m_root_nodes t ! i of (ver, None) \<Rightarrow> (timeline, allocateNode isz ROOT_NODES_LOG2) | (ver, Some node) \<Rightarrow> (ver, node))"
  have cur: "wf_node isz hash DEPTH i (snd cur)" "root_subtree (m_root_nodes t ! i) = subtree DEPTH (snd cur)"
    using trie_okD(3) [OF ok, of i]
    by (auto simp: cur_def root_subtree_def i_def root_fresh split: option.splits prod.splits)
  have pk: "unat (hash key) div 2 ^ (6 * DEPTH) = i" by (simp add: i_def trie_root_index_div)
  have "DEPTH \<le> 10" by (simp add: DEPTH_def)
  from insert_at_ok [OF inj isz cur(1) this pk, of timeline v] obtain node' where
    n: "insert_at isz hash timeline key v DEPTH (push_bit (64 - 6 * DEPTH) (hash key)) cur
        = Some ((timeline, node'), fm_entries (subtree DEPTH (snd cur)) key = None)"
      "wf_node isz hash DEPTH i node'" "changes_key key (Some (timeline, v)) (subtree DEPTH (snd cur)) (subtree DEPTH node')"
    by blast
  have e: "trie_entries t key = fm_entries (subtree DEPTH (snd cur)) key"
    using root_entries [OF ok, of key] cur(2) by (simp add: i_def)
  have r: "trie_insert isz hash timeline key v t = Some
      \<lparr>m_size = m_size t + (if trie_entries t key = None then 1 else 0), m_root_nodes = (m_root_nodes t)[i := (timeline, Some node')]\<rparr>"
    unfolding trie_insert_def Let_def i_def [symmetric] cur_def [symmetric] root_shift n(1) e by simp
  show ?thesis unfolding r
    using root_changed [OF ok n(2) [unfolded i_def] n(3) [folded cur(2), unfolded i_def],
        of "m_size t + (if trie_entries t key = None then 1 else 0)" timeline]
    by (simp add: i_def)
qed

lemma trie_erase_ok:
  assumes isz: "item_size_ok isz" and ok: "trie_ok isz hash t"
  shows "\<exists>t'. trie_erase isz hash timeline key t = Some t' \<and> trie_ok isz hash t'
    \<and> trie_entries t' = (trie_entries t)(key := None)"
proof -
  define i where "i = trie_root_index (hash key)"
  obtain ver nd where root: "m_root_nodes t ! i = (ver, nd)" by (metis surj_pair)
  show ?thesis
  proof (cases nd)
    case None
    then have "trie_entries t key = None"
      using root_entries [OF ok, of key] root by (simp add: i_def root_subtree_def)
    then have "trie_entries t = (trie_entries t)(key := None)" by (simp add: fun_upd_idem)
    moreover have "trie_erase isz hash timeline key t = Some t"
      using root None by (simp add: trie_erase_def i_def)
    ultimately show ?thesis using ok by auto
  next
    case (Some node)
    have w: "wf_node isz hash DEPTH i node" using trie_okD(3) [OF ok, of i] root Some by (simp add: i_def)
    have sub: "root_subtree (m_root_nodes t ! i) = subtree DEPTH node" using root Some by (simp add: root_subtree_def)
    have pk: "unat (hash key) div 2 ^ (6 * DEPTH) = i" by (simp add: i_def trie_root_index_div)
    have "DEPTH \<le> 10" by (simp add: DEPTH_def)
    then obtain cur' where
      n: "erase_at isz timeline key DEPTH (push_bit (64 - 6 * DEPTH) (hash key)) (ver, node)
          = Some (cur', fm_entries (subtree DEPTH node) key \<noteq> None)"
        "wf_node isz hash DEPTH i (snd cur')" "changes_key key None (subtree DEPTH node) (subtree DEPTH (snd cur'))"
      using erase_at_ok [OF isz, of hash DEPTH i "(ver, node)" key timeline] w pk by auto
    have e: "trie_entries t key = fm_entries (subtree DEPTH node) key"
      using root_entries [OF ok, of key] sub by (simp add: i_def)
    have r: "trie_erase isz hash timeline key t = Some
        \<lparr>m_size = m_size t - (if trie_entries t key \<noteq> None then 1 else 0),
         m_root_nodes = (m_root_nodes t)[i := (fst cur', Some (snd cur'))]\<rparr>"
      unfolding trie_erase_def Let_def i_def [symmetric] root Some root_shift n(1) prod.case option.case e
      by (cases cur') simp
    have sz: "trie_entries t key \<noteq> None \<Longrightarrow> 0 < m_size t"
    proof -
      assume "trie_entries t key \<noteq> None"
      then have "trie_items t \<noteq> []" by (auto simp: trie_entries_def)
      then show ?thesis using trie_okD(2) [OF ok] by simp
    qed
    show ?thesis unfolding r
      using root_changed [OF ok n(2) [unfolded i_def] n(3) [folded sub, unfolded i_def],
          of "m_size t - (if trie_entries t key \<noteq> None then 1 else 0)" "fst cur'"] sz
      by (auto simp: i_def)
  qed
qed

lemma trie_find_ok:
  assumes ok: "trie_ok isz hash t"
  shows "trie_find hash key t = map_option (\<lambda>(ver, v). (ver, key, v)) (trie_entries t key)"
proof (cases "snd (m_root_nodes t ! trie_root_index (hash key))")
  case None
  then show ?thesis using root_entries [OF ok, of key] by (simp add: trie_find_def root_subtree_def)
next
  case (Some node)
  have "wf_node isz hash DEPTH (trie_root_index (hash key)) node" by (rule trie_okD(3) [OF ok trie_root_index_less Some])
  from find_at_ok [OF this, of key] show ?thesis
    using root_entries [OF ok, of key] Some by (simp add: trie_find_def root_subtree_def root_shift trie_root_index_div DEPTH_def)
qed

lemma trie_sorted:
  assumes ok: "trie_ok isz hash t"
  shows "sorted_wrt (hash_less hash) (trie_items t)"
proof -
  have r: "map root_subtree (m_root_nodes t) = map (\<lambda>i. root_subtree (m_root_nodes t ! i)) [0..<16]"
    using trie_okD(1) [OF ok] by (intro nth_equalityI) simp_all
  have pre: "unat (hash (itemKey it)) div 2 ^ (6 * DEPTH) = i" if "i < 16" "it \<in> set (root_subtree (m_root_nodes t ! i))" for i it
  proof (cases "snd (m_root_nodes t ! i)")
    case (Some node)
    then have "it \<in> set (subtree DEPTH node)" using that(2) by (simp add: root_subtree_def)
    then show ?thesis by (rule wf_prefix [OF trie_okD(3) [OF ok that(1) Some]])
  qed (use that(2) in \<open>simp add: root_subtree_def\<close>)
  show ?thesis unfolding trie_items_def r
  proof (rule sorted_concat)
    fix i assume i: "i < (16 :: nat)"
    show "sorted_wrt (hash_less hash) (root_subtree (m_root_nodes t ! i))"
    proof (cases "snd (m_root_nodes t ! i)")
      case (Some node)
      from subtree_sorted [OF trie_okD(3) [OF ok i this]] Some show ?thesis by (simp add: root_subtree_def)
    qed (simp add: root_subtree_def)
  next
    fix i j x y assume "i < j" "j < (16 :: nat)" "x \<in> set (root_subtree (m_root_nodes t ! i))" "y \<in> set (root_subtree (m_root_nodes t ! j))"
    then show "hash_less hash x y" using pre [of i x] pre [of j y] prefix_less [of _ "6 * DEPTH"] by (simp add: hash_less_def)
  qed
qed

lemma sorted_distinct: "sorted_wrt (hash_less hash) items \<Longrightarrow> distinct (map itemKey items)"
  by (induction items) (auto simp: hash_less_def)

lemma distinct_card: "distinct (map itemKey items) \<Longrightarrow> length items = card (dom (fm_entries items))"
proof -
  assume "distinct (map itemKey items)"
  then have "length items = card (itemKey ` set items)" by (metis distinct_card length_map list.set_map)
  also have "itemKey ` set items = dom (fm_entries items)" using fm_keys_dom [of items] by (simp add: image_image)
  finally show ?thesis .
qed

lemma trie_size_ok: "trie_ok isz hash t \<Longrightarrow> m_size t = card (dom (trie_entries t))"
  using distinct_card [OF sorted_distinct [OF trie_sorted]] trie_okD(2) unfolding trie_entries_def by metis

definition ht_inv :: "nat \<Rightarrow> ('k \<Rightarrow> u64) \<Rightarrow> ('k, 'v) trie \<Rightarrow> bool" where
  "ht_inv isz hash t \<longleftrightarrow> inj hash \<and> item_size_ok isz \<and> trie_ok isz hash t"

interpretation ht: versioned_map "ht_inv isz (hash :: 'k \<Rightarrow> u64) :: ('k, 'v) trie \<Rightarrow> bool" trie_entries
  "\<lambda>timeline k v t. the (trie_insert isz hash timeline k v t)" "\<lambda>timeline k t. the (trie_erase isz hash timeline k t)"
proof unfold_locales
  fix t :: "('k, 'v) trie" and timeline k v
  assume i: "ht_inv isz hash t"
  then show "ht_inv isz hash (the (trie_insert isz hash timeline k v t))
      \<and> trie_entries (the (trie_insert isz hash timeline k v t)) = (trie_entries t)(k \<mapsto> (timeline, v))"
    using trie_insert_ok [of hash isz t timeline k v] by (auto simp: ht_inv_def)
  show "ht_inv isz hash (the (trie_erase isz hash timeline k t))
      \<and> trie_entries (the (trie_erase isz hash timeline k t)) = (trie_entries t)(k := None)"
    using i trie_erase_ok [of isz hash t timeline k] by (auto simp: ht_inv_def)
qed

text \<open>A script of operations.\<close>

fun trie_run :: "nat \<Rightarrow> ('k \<Rightarrow> u64) \<Rightarrow> ('k, 'v) map_op list \<Rightarrow> ('k, 'v) trie \<Rightarrow> ('k, 'v) trie option" where
  "trie_run isz hash [] t = Some t"
| "trie_run isz hash (Insert timeline k v # ops) t =
     (case trie_insert isz hash timeline k v t of None \<Rightarrow> None | Some t' \<Rightarrow> trie_run isz hash ops t')"
| "trie_run isz hash (Erase timeline k # ops) t =
     (case trie_erase isz hash timeline k t of None \<Rightarrow> None | Some t' \<Rightarrow> trie_run isz hash ops t')"

lemma trie_run_ok: "ht_inv isz hash t \<Longrightarrow> trie_run isz hash ops t = Some (fold (ht.run_op isz hash) ops t)"
proof (induction isz hash ops t rule: trie_run.induct)
  case (2 isz hash timeline k v ops t)
  then obtain t' where t': "trie_insert isz hash timeline k v t = Some t'" "ht_inv isz hash t'"
    using trie_insert_ok [of hash isz t timeline k v] by (auto simp: ht_inv_def)
  then show ?case using 2(1) [OF t'] by simp
next
  case (3 isz hash timeline k ops t)
  then obtain t' where t': "trie_erase isz hash timeline k t = Some t'" "ht_inv isz hash t'"
    using trie_erase_ok [of isz hash t timeline k] by (auto simp: ht_inv_def)
  then show ?case using 3(1) [OF t'] by simp
qed simp

text \<open>C33: when no two keys share a hash, every script of inserts and erases on an empty trie terminates
  within the ten levels of a root, without undefined behaviour, and afterwards \<open>find\<close> and \<open>size\<close>
  answer as the map the script describes.\<close>

theorem hash_trie_is_a_map:
  fixes ops :: "('k, 'v) map_op list"
  assumes "inj hash" and "item_size_ok isz"
  shows "\<exists>t. trie_run isz hash ops new_trie = Some t
    \<and> (\<forall>key. trie_find hash key t = map_option (\<lambda>(ver, v). (ver, key, v)) (fold apply_op ops Map.empty key))
    \<and> m_size t = card (dom (fold apply_op ops Map.empty))"
proof -
  have i: "ht_inv isz hash (new_trie :: ('k, 'v) trie)" using assms new_trie_ok [of isz hash] unfolding ht_inv_def by blast
  note r = ht.run_law [OF i, of ops]
  then have ok: "trie_ok isz hash (fold (ht.run_op isz hash) ops new_trie)" by (simp add: ht_inv_def)
  have e: "trie_entries (new_trie :: ('k, 'v) trie) = Map.empty" using new_trie_ok [of isz hash] by blast
  show ?thesis using trie_run_ok [OF i, of ops] trie_find_ok [OF ok] trie_size_ok [OF ok] r unfolding e by auto
qed

theorem hash_trie_is_a_map_witness:
  "\<exists>t. trie_run 32 id [Insert 1 (0 :: u64) ''a'', Insert 1 1 ''b'', Erase 2 0] new_trie = Some t
    \<and> trie_find id 1 t = Some (1, 1, ''b'') \<and> trie_find id 0 t = None \<and> m_size t = 1"
proof -
  have "inj (id :: u64 \<Rightarrow> u64)" "item_size_ok 32" by (simp_all add: item_size_ok_def NODE_ITEM_SIZE_def)
  note h = hash_trie_is_a_map [OF this, of "[Insert 1 (0 :: u64) ''a'', Insert 1 1 ''b'', Erase 2 0]"]
  have m: "fold apply_op [Insert 1 (0 :: u64) ''a'', Insert 1 1 ''b'', Erase 2 0] Map.empty = [1 \<mapsto> (1, ''b'')]"
    by (rule ext) simp
  show ?thesis using h unfolding m by auto
qed

lemma entries_iff: "distinct (map itemKey items) \<Longrightarrow> fm_entries items k = Some (ver, v) \<longleftrightarrow> (ver, k, v) \<in> set items"
proof -
  assume "distinct (map itemKey items)"
  then have "distinct (map fst (map (\<lambda>(ver, key, v). (key, (ver, v))) items))"
    by (simp add: comp_def case_prod_unfold)
  from map_of_eq_Some_iff [OF this] show ?thesis unfolding fm_entries_def by force
qed

lemma root_subtree_simps [simp]:
  "root_subtree (ver, None) = []" "root_subtree (ver, Some node) = subtree DEPTH node"
  by (simp_all add: root_subtree_def)

lemma first_root_ok:
  "(\<And>i node. i < length roots \<Longrightarrow> snd (roots ! i) = Some node \<Longrightarrow> \<exists>isz hash p. wf_node isz hash DEPTH p node) \<Longrightarrow>
     first_root roots = first_of (concat (map root_subtree roots))"
proof (induction roots rule: first_root.induct)
  case (2 ver roots)
  have "first_root roots = first_of (concat (map root_subtree roots))"
  proof (rule 2(1))
    fix i node assume "i < length roots" "snd (roots ! i) = Some node"
    then show "\<exists>isz hash p. wf_node isz hash DEPTH p node" using 2(2) [of "Suc i" node] by simp
  qed
  then show ?case by simp
next
  case (3 ver node roots)
  have ih: "first_root roots = first_of (concat (map root_subtree roots))" if "findFirstItem DEPTH node = None"
  proof (rule 3(1) [OF that])
    fix i node assume "i < length roots" "snd (roots ! i) = Some node"
    then show "\<exists>isz hash p. wf_node isz hash DEPTH p node" using 3(2) [of "Suc i" node] by simp
  qed
  obtain isz hash p where "wf_node isz hash DEPTH p node" using 3(2) [of 0 node] by auto
  then have "findFirstItem DEPTH node = first_of (subtree DEPTH node)" by (rule findFirstItem_ok)
  then show ?case using ih by (auto simp: first_of_append split: option.splits)
qed simp

lemma trie_findFirst_ok: "trie_ok isz hash t \<Longrightarrow> trie_findFirst t = first_of (trie_items t)"
  unfolding trie_findFirst_def trie_items_def by (rule first_root_ok) (metis trie_okD(1,3))

lemma trie_findNext_ok:
  assumes ok: "trie_ok isz hash t"
  shows "trie_findNext hash key t = first_of (after_hash hash (hash key) (trie_items t))"
proof -
  define i where "i = trie_root_index (hash key)"
  have il: "i < 16" by (simp add: i_def)
  note len = trie_okD(1) [OF ok]
  have pk: "unat (hash key) div 2 ^ (6 * DEPTH) = i" by (simp add: i_def trie_root_index_div)
  have pre: "unat (hash (itemKey it)) div 2 ^ (6 * DEPTH) = j" if "j < 16" "it \<in> set (root_subtree (m_root_nodes t ! j))" for j it
  proof (cases "snd (m_root_nodes t ! j)")
    case (Some node)
    then have "it \<in> set (subtree DEPTH node)" using that(2) by (simp add: root_subtree_def)
    then show ?thesis by (rule wf_prefix [OF trie_okD(3) [OF ok that(1) Some]])
  qed (use that(2) in \<open>simp add: root_subtree_def\<close>)
  define A where "A = concat (map (\<lambda>j. root_subtree (m_root_nodes t ! j)) [0..<i])"
  define B where "B = concat (map (\<lambda>j. root_subtree (m_root_nodes t ! j)) [Suc i..<16])"
  have items: "trie_items t = A @ root_subtree (m_root_nodes t ! i) @ B"
    unfolding trie_items_def A_def B_def by (rule roots_split [OF len il])
  have "after_hash hash (hash key) A = []" unfolding after_hash_def filter_empty_conv
  proof
    fix it assume "it \<in> set A"
    then obtain j where j: "j < i" "it \<in> set (root_subtree (m_root_nodes t ! j))" by (auto simp: A_def)
    then show "\<not> hash key < hash (itemKey it)"
      using prefix_less [of "hash (itemKey it)" "6 * DEPTH" "hash key"] pre [of j it] il pk by (auto simp: not_less intro: less_imp_le)
  qed
  moreover have "after_hash hash (hash key) B = B" unfolding after_hash_def filter_id_conv
  proof
    fix it assume "it \<in> set B"
    then obtain j where j: "i < j" "j < 16" "it \<in> set (root_subtree (m_root_nodes t ! j))" by (auto simp: B_def Suc_le_eq)
    then show "hash key < hash (itemKey it)"
      using prefix_less [of "hash key" "6 * DEPTH" "hash (itemKey it)"] pre [of j it] pk by simp
  qed
  ultimately have a: "after_hash hash (hash key) (trie_items t)
      = after_hash hash (hash key) (root_subtree (m_root_nodes t ! i)) @ B" by (simp add: items)
  have here: "(case snd (m_root_nodes t ! i) of None \<Rightarrow> None
      | Some node \<Rightarrow> findNextItem hash DEPTH (push_bit ROOT_NODES_LOG2 (hash key)) node)
      = first_of (after_hash hash (hash key) (root_subtree (m_root_nodes t ! i)))"
  proof (cases "snd (m_root_nodes t ! i)")
    case (Some node)
    have "DEPTH \<le> 10" by (simp add: DEPTH_def)
    from findNextItem_ok [OF trie_okD(3) [OF ok il Some] this pk] Some show ?thesis
      by (simp add: root_subtree_def root_shift)
  qed (simp add: root_subtree_def)
  have "first_root (drop (i + 1) (m_root_nodes t)) = first_of (concat (map root_subtree (drop (i + 1) (m_root_nodes t))))"
  proof (rule first_root_ok)
    fix j node assume "j < length (drop (i + 1) (m_root_nodes t))" "snd (drop (i + 1) (m_root_nodes t) ! j) = Some node"
    then have "i + 1 + j < 16" "snd (m_root_nodes t ! (i + 1 + j)) = Some node" using len by simp_all
    then show "\<exists>isz hash p. wf_node isz hash DEPTH p node" using trie_okD(3) [OF ok] by blast
  qed
  also have "map root_subtree (drop (i + 1) (m_root_nodes t)) = map (\<lambda>j. root_subtree (m_root_nodes t ! j)) [Suc i..<16]"
    using len by (intro nth_equalityI) simp_all
  finally have "first_root (drop (i + 1) (m_root_nodes t)) = first_of B" by (simp add: B_def)
  then show ?thesis unfolding trie_findNext_def Let_def i_def [symmetric] here a first_of_append by (simp split: option.split)
qed

text \<open>iteration with \<open>findFirst\<close> and \<open>findNext\<close> goes through exactly the inserted items, in strictly
  increasing hash order; \<open>findNext\<close> of any key, present or not, is the first item of a larger hash.\<close>

theorem hash_trie_iterates_in_hash_order:
  fixes ops :: "('k, 'v) map_op list"
  assumes "inj hash" and "item_size_ok isz" and "trie_run isz hash ops new_trie = Some t"
  shows "\<exists>items. sorted_wrt (hash_less hash) items
    \<and> (\<forall>ver key v. (ver, key, v) \<in> set items \<longleftrightarrow> fold apply_op ops Map.empty key = Some (ver, v))
    \<and> trie_findFirst t = first_of items
    \<and> (\<forall>key. trie_findNext hash key t = first_of (filter (\<lambda>it. hash key < hash (itemKey it)) items))"
proof -
  have i: "ht_inv isz hash (new_trie :: ('k, 'v) trie)" and e: "trie_entries (new_trie :: ('k, 'v) trie) = Map.empty"
    using assms(1,2) new_trie_ok [of isz hash] unfolding ht_inv_def by blast+
  have "t = fold (ht.run_op isz hash) ops new_trie" using trie_run_ok [OF i, of ops] assms(3) by simp
  then have ok: "trie_ok isz hash t" "trie_entries t = fold apply_op ops Map.empty"
    using ht.run_law [OF i, of ops] unfolding e by (simp_all add: ht_inv_def)
  show ?thesis
    using trie_sorted [OF ok(1)] entries_iff [OF sorted_distinct [OF trie_sorted [OF ok(1)]]]
      trie_findFirst_ok [OF ok(1)] trie_findNext_ok [OF ok(1)] ok(2)
    by (intro exI [of _ "trie_items t"]) (simp add: trie_entries_def after_hash_def)
qed

theorem hash_trie_iterates_in_hash_order_witness:
  "\<exists>t. trie_run 32 id [Insert 1 (5 :: u64) ''a'', Insert 1 1 ''b'', Insert 2 3 ''c''] new_trie = Some t
    \<and> (\<exists>items. sorted_wrt (hash_less id) items \<and> trie_findFirst t = first_of items)"
proof -
  have o: "inj (id :: u64 \<Rightarrow> u64)" "item_size_ok 32" by (simp_all add: item_size_ok_def NODE_ITEM_SIZE_def)
  have i: "ht_inv 32 (id :: u64 \<Rightarrow> u64) (new_trie :: (u64, string) trie)"
    using o new_trie_ok [of 32 "id :: u64 \<Rightarrow> u64"] unfolding ht_inv_def by blast
  note r = trie_run_ok [OF i, of "[Insert 1 5 ''a'', Insert 1 1 ''b'', Insert 2 3 ''c'']"]
  show ?thesis using hash_trie_iterates_in_hash_order [OF o r] r by blast
qed

end
