(* ===== verification/Hash_Trie_Diff.thy ===== *)
theory Hash_Trie_Diff
  imports Hash_Trie
begin

text \<open>
  What the visits of \<open>V8gHashTrie\<close> report: \<open>reports\<close> says that an action calls the visitor for
  exactly the changes between two item lists, in hash order, until the visitor stops it. It is
  shown for \<open>visitUnary\<close>, \<open>visitDiffItemOrdered\<close>, \<open>visitDiffItem\<close> and \<open>visitDiff\<close>, slot by slot.
  The general part speaks of items \<open>'i\<close> with a key and a version.
\<close>

type_synonym 'i change = "'i option \<times> 'i option"
type_synonym ('i, 's) change_visitor = "'i option \<Rightarrow> 'i option \<Rightarrow> 's \<Rightarrow> bool \<times> 's"

definition run_changes :: "('i, 's) change_visitor \<Rightarrow> 'i change list \<Rightarrow> 's \<Rightarrow> bool \<times> 's" where
  "run_changes visitor evs = run_all (map (\<lambda>(a, b). visitor a b) evs)"

definition changes :: "('i \<Rightarrow> 'k) \<Rightarrow> ('i \<Rightarrow> u64) \<Rightarrow> 'i list \<Rightarrow> 'i list \<Rightarrow> 'i change set" where
  "changes key ver xs ys =
     {(Some x, None) |x. x \<in> set xs \<and> key x \<notin> key ` set ys}
     \<union> {(None, Some y) |y. y \<in> set ys \<and> key y \<notin> key ` set xs}
     \<union> {(Some x, Some y) |x y. x \<in> set xs \<and> y \<in> set ys \<and> key x = key y \<and> ver x \<noteq> ver y}"

definition change_item :: "'i change \<Rightarrow> 'i" where
  "change_item e = (case fst e of Some x \<Rightarrow> x | None \<Rightarrow> the (snd e))"

definition change_less :: "('i \<Rightarrow> u64) \<Rightarrow> 'i change \<Rightarrow> 'i change \<Rightarrow> bool" where
  "change_less h a b \<longleftrightarrow> h (change_item a) < h (change_item b)"

definition reports ::
  "('i \<Rightarrow> 'k) \<Rightarrow> ('i \<Rightarrow> u64) \<Rightarrow> ('k \<Rightarrow> u64) \<Rightarrow> ('i, 's) change_visitor \<Rightarrow> ('s \<Rightarrow> bool \<times> 's) \<Rightarrow> 'i list \<Rightarrow> 'i list \<Rightarrow> bool" where
  "reports key ver hash visitor act xs ys \<longleftrightarrow>
     (\<exists>evs. act = run_changes visitor evs \<and> sorted_wrt (change_less (\<lambda>x. hash (key x))) evs \<and> set evs = changes key ver xs ys)"

lemma and_then_assoc: "and_then (and_then a b) c = and_then a (and_then b c)"
  by (rule ext) (simp add: and_then_def split: prod.splits bool.splits)

lemma and_then_unit [simp]: "and_then (Pair True) a = a" "and_then a (Pair True) = a"
  by (rule ext, simp add: and_then_def split: prod.splits bool.splits)+

lemma run_all_append: "run_all (xs @ ys) = and_then (run_all xs) (run_all ys)"
proof (induction xs)
  case Nil
  have "run_all [] = Pair True" by (rule ext) simp
  then show ?case by simp
next
  case (Cons x xs)
  have "run_all (x # zs) = and_then x (run_all zs)" for zs by (rule ext) simp
  with Cons show ?case by (simp add: and_then_assoc)
qed

lemma run_changes_append: "run_changes visitor (xs @ ys) = and_then (run_changes visitor xs) (run_changes visitor ys)"
  by (simp add: run_changes_def run_all_append)

lemma run_changes_simps [simp]:
  "run_changes visitor [] = Pair True" "run_changes visitor ((a, b) # evs) = and_then (visitor a b) (run_changes visitor evs)"
  by (rule ext, simp add: run_changes_def)+

lemma changes_item: "e \<in> changes key ver xs ys \<Longrightarrow> change_item e \<in> set xs \<union> set ys"
  by (auto simp: changes_def change_item_def)

lemma changes_append:
  assumes "\<And>x y. x \<in> set as \<union> set bs \<Longrightarrow> y \<in> set as' \<union> set bs' \<Longrightarrow> key x \<noteq> key y"
  shows "changes key ver (as @ as') (bs @ bs') = changes key ver as bs \<union> changes key ver as' bs'"
proof -
  have d: "key x \<noteq> key y" "key y \<noteq> key x" if "x \<in> set as \<or> x \<in> set bs" "y \<in> set as' \<or> y \<in> set bs'" for x y
    using assms [of x y] that by auto
  show ?thesis unfolding changes_def using d by (auto simp: image_iff)
qed

text \<open>Two actions in sequence, on parts of the hash range that follow each other.\<close>

lemma reports_append:
  assumes "reports key ver hash visitor act as bs" "reports key ver hash visitor act' as' bs'"
    and less: "\<And>x y. x \<in> set as \<union> set bs \<Longrightarrow> y \<in> set as' \<union> set bs' \<Longrightarrow> hash (key x) < hash (key y)"
  shows "reports key ver hash visitor (and_then act act') (as @ as') (bs @ bs')"
proof -
  obtain evs where e: "act = run_changes visitor evs" "sorted_wrt (change_less (\<lambda>x. hash (key x))) evs" "set evs = changes key ver as bs"
    using assms(1) by (auto simp: reports_def)
  obtain evs' where e': "act' = run_changes visitor evs'" "sorted_wrt (change_less (\<lambda>x. hash (key x))) evs'" "set evs' = changes key ver as' bs'"
    using assms(2) by (auto simp: reports_def)
  have "change_less (\<lambda>x. hash (key x)) a b" if "a \<in> set evs" "b \<in> set evs'" for a b
    using changes_item [of a key ver as bs] changes_item [of b key ver as' bs'] that less unfolding e(3) e'(3) change_less_def by blast
  moreover have "changes key ver (as @ as') (bs @ bs') = changes key ver as bs \<union> changes key ver as' bs'"
    using less by (intro changes_append) fastforce
  ultimately show ?thesis unfolding reports_def
    by (intro exI [of _ "evs @ evs'"]) (simp add: run_changes_append e e' sorted_wrt_append)
qed

lemma reports_nothing: "reports key ver hash visitor (Pair True) [] []"
  by (auto simp: reports_def changes_def intro!: exI [of _ "[]"])

lemma reports_unchanged: "distinct (map key xs) \<Longrightarrow> reports key ver hash visitor (Pair True) xs xs"
proof -
  assume d: "distinct (map key xs)"
  then have "changes key ver xs xs = {}" by (auto simp: changes_def distinct_map dest: inj_onD)
  then show ?thesis by (auto simp: reports_def intro!: exI [of _ "[]"])
qed

lemma reports_left:
  "sorted_wrt (\<lambda>x y. hash (key x) < hash (key y)) xs \<Longrightarrow> reports key ver hash visitor (run_all (map (\<lambda>x. visitor (Some x) None) xs)) xs []"
  unfolding reports_def
  by (intro exI [of _ "map (\<lambda>x. (Some x, None)) xs"])
    (auto simp: run_changes_def comp_def changes_def sorted_wrt_map change_less_def change_item_def)

lemma reports_right:
  "sorted_wrt (\<lambda>x y. hash (key x) < hash (key y)) ys \<Longrightarrow> reports key ver hash visitor (run_all (map (\<lambda>y. visitor None (Some y)) ys)) [] ys"
  unfolding reports_def
  by (intro exI [of _ "map (\<lambda>y. (None, Some y)) ys"])
    (auto simp: run_changes_def comp_def changes_def sorted_wrt_map change_less_def change_item_def)

lemma run_all_single [simp]: "run_all [a] = a"
proof -
  have "run_all [a] = and_then a (Pair True)" by (rule ext) (simp add: and_then_def split: prod.splits bool.splits)
  then show ?thesis by simp
qed

lemma changes_swap: "(b, a) \<in> changes key ver ys xs \<longleftrightarrow> (a, b) \<in> changes key ver xs ys"
  by (cases a; cases b) (auto simp: changes_def)

lemma reports_one_left: "reports key ver hash visitor (visitor (Some x) None) [x] []"
  using reports_left [of hash key "[x]" ver visitor] by simp

lemma reports_one_right: "reports key ver hash visitor (visitor None (Some y)) [] [y]"
  using reports_right [of hash key "[y]" ver visitor] by simp

lemma reports_swap:
  assumes "reports key ver hash (\<lambda>a b. visitor b a) act ys xs"
  shows "reports key ver hash visitor act xs ys"
proof -
  obtain evs where e: "act = run_changes (\<lambda>a b. visitor b a) evs" "sorted_wrt (change_less (\<lambda>x. hash (key x))) evs" "set evs = changes key ver ys xs"
    using assms by (auto simp: reports_def)
  have k: "hash (key (change_item (snd e, fst e))) = hash (key (change_item e))" if "e \<in> set evs" for e
    using that unfolding e(3) by (auto simp: changes_def change_item_def)
  have "sorted_wrt (change_less (\<lambda>x. hash (key x))) (map (\<lambda>e. (snd e, fst e)) evs)"
    using e(2) k by (induction evs) (auto simp: change_less_def)
  moreover have "(\<lambda>e. (snd e, fst e)) ` changes key ver ys xs = changes key ver xs ys"
  proof (intro set_eqI iffI)
    fix p assume "p \<in> (\<lambda>e. (snd e, fst e)) ` changes key ver ys xs"
    then obtain e where "e \<in> changes key ver ys xs" "p = (snd e, fst e)" by blast
    then show "p \<in> changes key ver xs ys" by (simp add: changes_swap [symmetric])
  next
    fix p assume "p \<in> changes key ver xs ys"
    then have "(snd p, fst p) \<in> changes key ver ys xs" by (simp add: changes_swap)
    then have "(\<lambda>e. (snd e, fst e)) (snd p, fst p) \<in> (\<lambda>e. (snd e, fst e)) ` changes key ver ys xs" by (rule imageI)
    then show "p \<in> (\<lambda>e. (snd e, fst e)) ` changes key ver ys xs" by simp
  qed
  ultimately show ?thesis unfolding reports_def
    by (intro exI [of _ "map (\<lambda>e. (snd e, fst e)) evs"]) (simp add: e run_changes_def comp_def case_prod_unfold)
qed

section \<open>The loops\<close>

abbreviation trie_reports ::
  "('k \<Rightarrow> u64) \<Rightarrow> ('k, 'v, 's) diff_visitor \<Rightarrow> ('s \<Rightarrow> bool \<times> 's) \<Rightarrow> ('k, 'v) v8g_item list \<Rightarrow> ('k, 'v) v8g_item list \<Rightarrow> bool" where
  "trie_reports hash \<equiv> reports itemKey version hash"

text \<open>What the two pointers of a loop show at its next slot.\<close>

lemma slot_ptr:
  assumes s: "shape isz node" and lo: "lo < 64"
  shows "bit (node_bitmap node) lo \<Longrightarrow> nodes_at node lo = Some (hd (drop (cnt (bit (node_bitmap node)) lo) (node_items node)))
      \<and> items_at node lo = None"
    "bit (item_bitmap node) lo \<Longrightarrow> items_at node lo = Some (hd (drop (cnt (bit (item_bitmap node)) lo) (leaf_items node)))
      \<and> nodes_at node lo = None"
    "\<not> bit (node_bitmap node) lo \<Longrightarrow> \<not> bit (item_bitmap node) lo \<Longrightarrow> slot d node lo = []"
proof -
  show "nodes_at node lo = Some (hd (drop (cnt (bit (node_bitmap node)) lo) (node_items node))) \<and> items_at node lo = None"
    if b: "bit (node_bitmap node) lo"
    using cnt_less_popcount [OF b lo] b shapeD(1) [OF s] shapeD(3) [OF s, of lo]
    by (simp add: nodes_at_def items_at_def child_at_def hd_drop_conv_nth)
  show "items_at node lo = Some (hd (drop (cnt (bit (item_bitmap node)) lo) (leaf_items node))) \<and> nodes_at node lo = None"
    if b: "bit (item_bitmap node) lo"
    using cnt_less_popcount [OF b lo] b shapeD(2) [OF s] shapeD(3) [OF s, of lo]
    by (simp add: nodes_at_def items_at_def child_at_def hd_drop_conv_nth)
  show "slot d node lo = []" if "\<not> bit (node_bitmap node) lo" "\<not> bit (item_bitmap node) lo"
    using that by (simp add: slot_def nodes_at_def items_at_def child_at_def)
qed

lemma next_ptr: "tl (drop (cnt P lo) xs) = drop (cnt P lo + 1) xs"
  by (simp add: drop_Suc tl_drop)

text \<open>The masks of the remaining slots.\<close>

lemma remaining_bits:
  "lo < 64 \<Longrightarrow> filter P [lo..<64] = (if P lo then [lo] else []) @ filter P [Suc lo..<64]"
  by (simp add: upt_conv_Cons)

lemma remaining_slots: "lo < 64 \<Longrightarrow> concat (map f [lo..<64]) = f lo @ concat (map f [Suc lo..<64])"
  by (simp add: upt_conv_Cons)

lemma visit_loop_ok:
  assumes s: "shape isz node"
    and n: "\<And>i ver child. nodes_at node i = Some (ver, child) \<Longrightarrow> on_node (ver, child) = run_all (map visitor (subtree d child))"
    and lo: "lo \<le> 64"
  shows "visit_loop (node_bitmap node) on_node visitor (filter (bit (node_bitmap node OR item_bitmap node)) [lo..<64])
      (drop (cnt (bit (node_bitmap node)) lo) (node_items node)) (drop (cnt (bit (item_bitmap node)) lo) (leaf_items node))
    = run_all (map visitor (concat (map (slot d node) [lo..<64])))"
  using lo
proof (induction "64 - lo" arbitrary: lo)
  case 0
  then have "lo = 64" by simp
  then show ?case by (intro ext) simp
next
  case (Suc k)
  then have lo: "lo < 64" by simp
  have ih: "visit_loop (node_bitmap node) on_node visitor (filter (bit (node_bitmap node OR item_bitmap node)) [Suc lo..<64])
      (drop (cnt (bit (node_bitmap node)) (Suc lo)) (node_items node)) (drop (cnt (bit (item_bitmap node)) (Suc lo)) (leaf_items node))
    = run_all (map visitor (concat (map (slot d node) [Suc lo..<64])))"
    using Suc.hyps(1) [of "Suc lo"] Suc.hyps(2) lo by simp
  note ptr = slot_ptr [OF s lo]
  show ?case unfolding remaining_bits [OF lo] remaining_slots [OF lo]
  proof (rule ext)
    fix st
    consider (node) "bit (node_bitmap node) lo" | (item) "bit (item_bitmap node) lo"
      | (none) "\<not> bit (node_bitmap node) lo" "\<not> bit (item_bitmap node) lo" by blast
    then show "visit_loop (node_bitmap node) on_node visitor
        ((if bit (node_bitmap node OR item_bitmap node) lo then [lo] else []) @ filter (bit (node_bitmap node OR item_bitmap node)) [Suc lo..<64])
        (drop (cnt (bit (node_bitmap node)) lo) (node_items node)) (drop (cnt (bit (item_bitmap node)) lo) (leaf_items node)) st
      = run_all (map visitor (slot d node lo @ concat (map (slot d node) [Suc lo..<64]))) st"
    proof cases
      case node
      obtain ver child where vc: "nodes_at node lo = Some (ver, child)" "hd (drop (cnt (bit (node_bitmap node)) lo) (node_items node)) = (ver, child)"
        using ptr(1) [OF node] by (metis surj_pair)
      have ni: "\<not> bit (item_bitmap node) lo" using shapeD(3) [OF s, of lo] node by blast
      show ?thesis using node ni vc n [OF vc(1)] ih
        by (simp add: bit_simps and_onebit_zero next_ptr cnt_Suc slot_def run_all_append)
    next
      case item
      have nn: "\<not> bit (node_bitmap node) lo" using shapeD(3) [OF s, of lo] item by blast
      have "slot d node lo = [hd (drop (cnt (bit (item_bitmap node)) lo) (leaf_items node))]"
        using ptr(2) [OF item] by (simp add: slot_def)
      then show ?thesis using item nn ih
        by (simp add: bit_simps and_onebit_zero next_ptr cnt_Suc run_all_append)
    next
      case none
      show ?thesis using none ih ptr(3) [OF none] by (simp add: bit_simps cnt_Suc)
    qed
  qed
qed

lemma visitUnary_eq: "wf_node isz hash d p node \<Longrightarrow> visitUnary d visitor node = run_all (map visitor (subtree d node))"
proof (induction d arbitrary: p node)
  case (Suc d)
  note wd = wf_nodeD [OF Suc.prems]
  have "visitUnary (Suc d) visitor node = visit_loop (node_bitmap node) (\<lambda>child. visitUnary d visitor (snd child)) visitor
       (filter (bit (node_bitmap node OR item_bitmap node)) [0..<64]) (drop (cnt (bit (node_bitmap node)) 0) (node_items node))
       (drop (cnt (bit (item_bitmap node)) 0) (leaf_items node))"
    by (rule ext) (simp add: set_bits_of_def)
  also have "\<dots> = run_all (map visitor (concat (map (slot d node) [0..<64])))"
  proof (rule visit_loop_ok [OF wd(1)])
    fix i ver child assume "nodes_at node i = Some (ver, child)"
    from Suc.IH [OF wd(3) [OF this]] show "visitUnary d visitor (snd (ver, child)) = run_all (map visitor (subtree d child))"
      by simp
  qed simp
  finally show ?case by (simp add: subtree_Suc)
qed simp

lemma changes_pair:
  "changes key ver [a] [b] = (if key a = key b then (if ver a \<noteq> ver b then {(Some a, Some b)} else {})
    else {(Some a, None), (None, Some b)})"
  by (auto simp: changes_def)

lemma visitDiffItemOrdered_ok:
  assumes "inj hash"
  shows "trie_reports hash visitor (visitDiffItemOrdered hash a b visitor) [a] [b]"
proof -
  have n: "itemKey a \<noteq> itemKey b \<Longrightarrow> hash (itemKey a) < hash (itemKey b) \<or> hash (itemKey b) < hash (itemKey a)"
    using assms by (metis injD linorder_neqE)
  define evs where "evs = (if itemKey a = itemKey b then (if version a \<noteq> version b then [(Some a, Some b)] else [])
    else if hash (itemKey a) < hash (itemKey b) then [(Some a, None), (None, Some b)] else [(None, Some b), (Some a, None)])"
  have "visitDiffItemOrdered hash a b visitor = run_changes visitor evs"
    by (rule ext) (simp add: visitDiffItemOrdered_def evs_def)
  moreover have "sorted_wrt (change_less (\<lambda>x. hash (itemKey x))) evs" using n by (auto simp: evs_def change_less_def change_item_def)
  moreover have "set evs = changes itemKey version [a] [b]" by (auto simp: evs_def changes_pair)
  ultimately show ?thesis unfolding reports_def by blast
qed

lemma diff_item_loop_ok:
  assumes s: "shape isz node" and ib: "item_bit < 64"
    and same_node: "\<And>ver child. nodes_at node item_bit = Some (ver, child) \<Longrightarrow>
        trie_reports hash visitor (same_node (ver, child)) (subtree d child) [item]"
    and same_item: "\<And>it. items_at node item_bit = Some it \<Longrightarrow> trie_reports hash visitor (same_item it) [it] [item]"
    and on_node: "\<And>i ver child. nodes_at node i = Some (ver, child) \<Longrightarrow> trie_reports hash visitor (on_node (ver, child)) (subtree d child) []"
    and on_item: "\<And>it. trie_reports hash visitor (on_item it) [it] []"
    and alone: "trie_reports hash visitor alone [] [item]"
    and less: "\<And>i j x y. i < j \<Longrightarrow> j < 64 \<Longrightarrow> x \<in> set (slot d node i) \<Longrightarrow> y \<in> set (slot d node j) \<Longrightarrow> hash (itemKey x) < hash (itemKey y)"
    and below: "\<And>i x. i < item_bit \<Longrightarrow> x \<in> set (slot d node i) \<Longrightarrow> hash (itemKey x) < hash (itemKey item)"
    and beyond: "\<And>i x. item_bit < i \<Longrightarrow> i < 64 \<Longrightarrow> x \<in> set (slot d node i) \<Longrightarrow> hash (itemKey item) < hash (itemKey x)"
    and lo: "lo \<le> 64"
  defines "loop \<equiv> \<lambda>visited lo. diff_item_loop (node_bitmap node) item_bit same_node same_item on_node on_item alone visited
      (filter (bit (node_bitmap node OR item_bitmap node)) [lo..<64])
      (drop (cnt (bit (node_bitmap node)) lo) (node_items node)) (drop (cnt (bit (item_bitmap node)) lo) (leaf_items node))"
  shows "(item_bit < lo \<longrightarrow> trie_reports hash visitor (loop True lo) (concat (map (slot d node) [lo..<64])) [])
    \<and> trie_reports hash visitor (loop False lo) (concat (map (slot d node) [lo..<64])) [item]"
  using lo
proof (induction "64 - lo" arbitrary: lo)
  case 0
  then have lo: "lo = 64" by simp
  have l: "loop True 64 = Pair True" "loop False 64 = alone" by (rule ext, simp add: loop_def)+
  have "trie_reports hash visitor (loop True 64) [] []" unfolding l by (rule reports_nothing)
  then show ?case using alone l(2) unfolding lo by simp
next
  case (Suc k)
  then have lo: "lo < 64" by simp
  let ?rest = "concat (map (slot d node) [Suc lo..<64])"
  have ih: "item_bit < Suc lo \<Longrightarrow> trie_reports hash visitor (loop True (Suc lo)) ?rest []"
    "trie_reports hash visitor (loop False (Suc lo)) ?rest [item]"
    using Suc.hyps(1) [of "Suc lo"] Suc.hyps(2) lo by simp_all
  note ptr = slot_ptr [OF s lo]
  have rest_less: "hash (itemKey x) < hash (itemKey y)" if "x \<in> set (slot d node lo)" "y \<in> set ?rest" for x y
  proof -
    note h = that
    obtain j where "lo < j" "j < 64" "y \<in> set (slot d node j)" using h(2) by (auto simp: Suc_le_eq)
    then show ?thesis using less h(1) by blast
  qed
  have rest_beyond: "hash (itemKey item) < hash (itemKey y)" if "item_bit \<le> lo" "y \<in> set ?rest" for y
  proof -
    note h = that
    obtain j where "lo < j" "j < 64" "y \<in> set (slot d node j)" using h(2) by (auto simp: Suc_le_eq)
    then show ?thesis using beyond [of j y] h(1) by simp
  qed
  show ?case
  proof (cases "bit (node_bitmap node OR item_bitmap node) lo")
    case False
    then have n: "\<not> bit (node_bitmap node) lo" "\<not> bit (item_bitmap node) lo" by (simp_all add: bit_simps)
    have "loop v lo = loop v (Suc lo)" for v using False n lo by (simp add: loop_def remaining_bits cnt_Suc)
    then show ?thesis using ih ptr(3) [OF n] unfolding remaining_slots [OF lo] by simp
  next
    case True
    define here_node where "here_node = bit (node_bitmap node) lo"
    define act where "act = (if here_node then on_node (hd (drop (cnt (bit (node_bitmap node)) lo) (node_items node)))
        else on_item (hd (drop (cnt (bit (item_bitmap node)) lo) (leaf_items node))))"
    define same where "same = (if here_node then same_node (hd (drop (cnt (bit (node_bitmap node)) lo) (node_items node)))
        else same_item (hd (drop (cnt (bit (item_bitmap node)) lo) (leaf_items node))))"
    have it: "\<not> here_node \<Longrightarrow> bit (item_bitmap node) lo" using True by (simp add: bit_simps here_node_def)
    have excl: "here_node \<Longrightarrow> \<not> bit (item_bitmap node) lo" using shapeD(3) [OF s, of lo] by (simp add: here_node_def)
    have step: "loop v lo = (if lo = item_bit then and_then same (loop True (Suc lo))
        else if lo > item_bit \<and> \<not> v then and_then alone (and_then act (loop True (Suc lo)))
        else and_then act (loop v (Suc lo)))" for v
      unfolding loop_def remaining_bits [OF lo] act_def same_def using True it excl
      by - (rule ext, cases here_node; cases "lo = item_bit"; cases v; cases "item_bit < lo";
        simp add: here_node_def and_onebit_zero next_ptr cnt_Suc)
    have act: "trie_reports hash visitor act (slot d node lo) []"
    proof (cases here_node)
      case True
      then obtain ver child where "nodes_at node lo = Some (ver, child)" "hd (drop (cnt (bit (node_bitmap node)) lo) (node_items node)) = (ver, child)"
        using ptr(1) by (metis here_node_def surj_pair)
      then show ?thesis using True on_node by (simp add: act_def slot_def)
    next
      case False
      then show ?thesis using ptr(2) [OF it [OF False]] on_item by (simp add: act_def slot_def)
    qed
    have same: "trie_reports hash visitor same (slot d node lo) [item]" if "lo = item_bit"
    proof (cases here_node)
      case True
      then obtain ver child where "nodes_at node lo = Some (ver, child)" "hd (drop (cnt (bit (node_bitmap node)) lo) (node_items node)) = (ver, child)"
        using ptr(1) by (metis here_node_def surj_pair)
      then show ?thesis using True same_node that by (simp add: same_def slot_def)
    next
      case False
      then show ?thesis using ptr(2) [OF it [OF False]] same_item that by (simp add: same_def slot_def)
    qed
    consider "lo < item_bit" | "lo = item_bit" | "item_bit < lo" by linarith
    then show ?thesis
    proof cases
      case 1
      have "trie_reports hash visitor (and_then act (loop False (Suc lo))) (slot d node lo @ ?rest) ([] @ [item])"
        using act ih(2) by (rule reports_append) (use rest_less below [OF 1] in fastforce)
      then show ?thesis using 1 unfolding remaining_slots [OF lo] step by simp
    next
      case 2
      have "trie_reports hash visitor (and_then same (loop True (Suc lo))) (slot d node lo @ ?rest) ([item] @ [])"
        using same [OF 2] ih(1) by (rule reports_append) (use rest_less rest_beyond 2 in fastforce)+
      then show ?thesis using 2 unfolding remaining_slots [OF lo] step by simp
    next
      case 3
      have t: "trie_reports hash visitor (and_then act (loop True (Suc lo))) (slot d node lo @ ?rest) ([] @ [])"
        using act ih(1) by (rule reports_append) (use rest_less 3 in fastforce)+
      have "trie_reports hash visitor (and_then alone (and_then act (loop True (Suc lo)))) ([] @ slot d node lo @ ?rest) ([item] @ [])"
        using alone t [unfolded append_Nil] by (rule reports_append) (use rest_beyond beyond [OF 3 lo] 3 in fastforce)
      then show ?thesis using t 3 unfolding remaining_slots [OF lo] step by simp
    qed
  qed
qed

section \<open>The visits of a node\<close>

lemma slot_less:
  assumes wf: "wf_node isz hash (Suc d) p node" and wf': "wf_node isz' hash (Suc d) p node'"
    and "i < j" "j < 64" "x \<in> set (slot d node i)" "y \<in> set (slot d node' j)"
  shows "hash (itemKey x) < hash (itemKey y)"
  using wf_slot [OF wf _ assms(5)] wf_slot [OF wf' _ assms(6)] assms(3,4) prefix_less [of _ "6 * d"] by simp

lemma visitDiffItem_ok:
  assumes inj: "inj hash"
  shows "wf_node isz hash d p node \<Longrightarrow> d \<le> 10 \<Longrightarrow> unat (hash (itemKey item)) div 2 ^ (6 * d) = p \<Longrightarrow>
    trie_reports hash visitor (visitDiffItem hash d item visitor node) (subtree d node) [item]"
proof (induction d arbitrary: p node)
  case (Suc d)
  note wd = wf_nodeD [OF Suc.prems(1)]
  have d: "d \<le> 9" using Suc.prems(2) by simp
  define i where "i = digit d (hash (itemKey item))"
  have il: "i < 64" by (simp add: i_def)
  have pi: "unat (hash (itemKey item)) div 2 ^ (6 * d) = p * 64 + i"
    using prefix_digit [of "hash (itemKey item)" d] Suc.prems(3) by (simp add: i_def)
  have ib: "unat (drop_bit (64 - 6) (push_bit (consumed_hash_bits node) (hash (itemKey item)))) = i"
    using top_bits_digit [OF d] wd(2) d by (simp add: i_def)
  have e: "visitDiffItem hash (Suc d) item visitor node = diff_item_loop (node_bitmap node) i
           (\<lambda>child. visitDiffItem hash d item visitor (snd child))
           (\<lambda>it. visitDiffItemOrdered hash it item visitor)
           (\<lambda>child. visitUnary d (\<lambda>it. visitor (Some it) None) (snd child))
           (\<lambda>it. visitor (Some it) None)
           (visitor None (Some item))
           False (filter (bit (node_bitmap node OR item_bitmap node)) [0..<64])
           (drop (cnt (bit (node_bitmap node)) 0) (node_items node)) (drop (cnt (bit (item_bitmap node)) 0) (leaf_items node))"
    by (rule ext) (simp only: visitDiffItem.simps ib Let_def set_bits_of_def cnt_0 drop_0)
  have less_i: "hash (itemKey x) < hash (itemKey item)" if "j < i" "x \<in> set (slot d node j)" for j x
    using wf_slot [OF Suc.prems(1) _ that(2)] that(1) il pi prefix_less [of _ "6 * d"] by simp
  have i_less: "hash (itemKey item) < hash (itemKey x)" if "i < j" "j < 64" "x \<in> set (slot d node j)" for j x
    using wf_slot [OF Suc.prems(1) that(2,3)] that(1) pi prefix_less [of _ "6 * d"] by simp
  have "trie_reports hash visitor (visitDiffItem hash (Suc d) item visitor node) (concat (map (slot d node) [0..<64])) [item]"
    unfolding e
  proof (rule diff_item_loop_ok [THEN conjunct2, OF wd(1) il])
    fix ver child assume "nodes_at node i = Some (ver, child)"
    then show "trie_reports hash visitor (visitDiffItem hash d item visitor (snd (ver, child))) (subtree d child) [item]"
      using Suc.IH [OF wd(3)] d pi by simp
  next
    fix j ver child assume "nodes_at node j = Some (ver, child)"
    from wd(3) [OF this] show "trie_reports hash visitor (visitUnary d (\<lambda>it. visitor (Some it) None) (snd (ver, child))) (subtree d child) []"
      using visitUnary_eq reports_left [of hash itemKey "subtree d child" version visitor] subtree_sorted
      by (metis (no_types, lifting) hash_less_def snd_conv sorted_wrt_mono_rel)
  qed (use visitDiffItemOrdered_ok [OF inj] reports_one_left reports_one_right slot_less [OF Suc.prems(1,1)] less_i i_less in \<open>simp_all\<close>)
  then show ?case unfolding subtree_Suc .
qed simp

text \<open>Between two versions, equal stamps at the same place mean the same child.\<close>

fun stamps_sound :: "nat \<Rightarrow> ('k, 'v) tnode \<Rightarrow> ('k, 'v) tnode \<Rightarrow> bool" where
  "stamps_sound 0 new_node old_node = True"
| "stamps_sound (Suc d) new_node old_node \<longleftrightarrow>
     (\<forall>i<64. case (nodes_at new_node i, nodes_at old_node i) of
        (Some (ver, child), Some (over, ochild)) \<Rightarrow>
          if ver = over then child = ochild else stamps_sound d child ochild
      | _ \<Rightarrow> True)"

lemma reports_slots:
  assumes "\<And>i. i < 64 \<Longrightarrow> P i \<Longrightarrow> reports key ver hash visitor (act i) (f i) (g i)"
    and "\<And>i. \<not> P i \<Longrightarrow> f i = [] \<and> g i = []"
    and less: "\<And>i j x y. i < j \<Longrightarrow> j < 64 \<Longrightarrow> x \<in> set (f i) \<union> set (g i) \<Longrightarrow> y \<in> set (f j) \<union> set (g j) \<Longrightarrow> hash (key x) < hash (key y)"
    and lo: "lo \<le> 64"
  shows "reports key ver hash visitor (run_all (map act (filter P [lo..<64]))) (concat (map f [lo..<64])) (concat (map g [lo..<64]))"
  using lo
proof (induction "64 - lo" arbitrary: lo)
  case 0
  have "run_all [] = Pair True" by (rule ext) simp
  with 0 show ?case by (simp add: reports_nothing)
next
  case (Suc k)
  then have lo: "lo < 64" by simp
  have ih: "reports key ver hash visitor (run_all (map act (filter P [Suc lo..<64]))) (concat (map f [Suc lo..<64])) (concat (map g [Suc lo..<64]))"
    using Suc.hyps(1) [of "Suc lo"] Suc.hyps(2) lo by simp
  show ?case
  proof (cases "P lo")
    case True
    have c: "run_all (map act (filter P [lo..<64])) = and_then (act lo) (run_all (map act (filter P [Suc lo..<64])))"
      using True by (intro ext) (simp add: remaining_bits [OF lo])
    show ?thesis unfolding c remaining_slots [OF lo]
    proof (rule reports_append [OF assms(1) [OF lo True] ih])
      fix x y assume x: "x \<in> set (f lo) \<union> set (g lo)"
        and "y \<in> set (concat (map f [Suc lo..<64])) \<union> set (concat (map g [Suc lo..<64]))"
      then obtain j where "lo < j" "j < 64" "y \<in> set (f j) \<union> set (g j)" by (auto simp: Suc_le_eq)
      then show "hash (key x) < hash (key y)" using less x by blast
    qed
  next
    case False
    then show ?thesis using ih assms(2) [OF False] by (simp add: remaining_bits [OF lo] remaining_slots [OF lo])
  qed
qed

lemma unary_left:
  "wf_node isz hash d p child \<Longrightarrow> trie_reports hash visitor (visitUnary d (\<lambda>it. visitor (Some it) None) child) (subtree d child) []"
  using reports_left [of hash itemKey "subtree d child" version visitor] subtree_sorted [of isz hash d p child]
  unfolding visitUnary_eq hash_less_def by simp

lemma unary_right:
  "wf_node isz hash d p child \<Longrightarrow> trie_reports hash visitor (visitUnary d (\<lambda>it. visitor None (Some it)) child) [] (subtree d child)"
  using reports_right [of hash itemKey "subtree d child" version visitor] subtree_sorted [of isz hash d p child]
  unfolding visitUnary_eq hash_less_def by simp

lemma slot_cases [consumes 1]:
  assumes s: "shape isz node"
  obtains (child) ver child where "bit (node_bitmap node) i" "nodes_at node i = Some (ver, child)" "slot d node i = subtree d child"
  | (item) it where "\<not> bit (node_bitmap node) i" "bit (item_bitmap node) i" "items_at node i = Some it" "slot d node i = [it]"
  | (none) "\<not> bit (node_bitmap node) i" "\<not> bit (item_bitmap node) i" "slot d node i = []"
proof -
  consider "bit (node_bitmap node) i" | "\<not> bit (node_bitmap node) i" "bit (item_bitmap node) i"
    | "\<not> bit (node_bitmap node) i" "\<not> bit (item_bitmap node) i" by blast
  then show thesis
  proof cases
    case 1
    then obtain ver child where "nodes_at node i = Some (ver, child)" using nodes_at_Some by (metis not_None_eq surj_pair)
    with 1 show thesis by (intro child [of ver child]) (simp_all add: slot_def)
  next
    case 2
    then obtain it where "items_at node i = Some it" "nodes_at node i = None" using nodes_at_Some items_at_Some by (metis not_None_eq)
    with 2 show thesis by (intro item [of it]) (simp_all add: slot_def)
  next
    case 3
    then have "items_at node i = None" "nodes_at node i = None" using nodes_at_Some items_at_Some by metis+
    then have "slot d node i = []" by (simp add: slot_def)
    with 3 show thesis using none by blast
  qed
qed

lemma stamps_at:
  assumes "stamps_sound (Suc d) new_node old_node" "i < 64"
    and "nodes_at new_node i = Some (ver, child)" "nodes_at old_node i = Some (over, ochild)"
  shows "if ver = over then child = ochild else stamps_sound d child ochild"
proof -
  from assms(1,2) have "case (nodes_at new_node i, nodes_at old_node i) of
      (Some (ver, child), Some (over, ochild)) \<Rightarrow> if ver = over then child = ochild else stamps_sound d child ochild
    | _ \<Rightarrow> True" unfolding stamps_sound.simps by blast
  then show ?thesis using assms(3,4) by simp
qed

lemma node_visitDiff_ok:
  assumes inj: "inj hash"
  shows "wf_node isz hash d p new_node \<Longrightarrow> wf_node isz hash d p old_node \<Longrightarrow> d \<le> 10 \<Longrightarrow> stamps_sound d new_node old_node \<Longrightarrow>
    trie_reports hash visitor (node_visitDiff hash d visitor new_node old_node) (subtree d new_node) (subtree d old_node)"
proof (induction d arbitrary: p new_node old_node)
  case 0
  have "node_visitDiff hash 0 visitor new_node old_node = Pair True" by (rule ext) simp
  then show ?case by (simp add: reports_nothing)
next
  case (Suc d)
  note wn = wf_nodeD [OF Suc.prems(1)] and wo = wf_nodeD [OF Suc.prems(2)]
  define act where "act = (\<lambda>b. let bt = onebit b;
           case_new = (if node_bitmap new_node AND bt \<noteq> 0 then 3
                       else if item_bitmap new_node AND bt = 0 then 6 else (0 :: nat));
           case_old = (if node_bitmap old_node AND bt \<noteq> 0 then 1
                       else if item_bitmap old_node AND bt = 0 then 2 else (0 :: nat));
           case_id = case_new + case_old
       in if case_id = 0 then visitDiffItemOrdered hash (refItemBit bt new_node) (refItemBit bt old_node) visitor
          else if case_id = 1 then visitDiffItem hash d (refItemBit bt new_node)
                 (\<lambda>node_item passed_item. visitor passed_item node_item) (snd (refNodeBit bt old_node))
          else if case_id = 2 then visitor (Some (refItemBit bt new_node)) None
          else if case_id = 3 then visitDiffItem hash d (refItemBit bt old_node) visitor (snd (refNodeBit bt new_node))
          else if case_id = 4 then
            (let new_child = refNodeBit bt new_node; old_child = refNodeBit bt old_node
             in if fst new_child \<noteq> fst old_child
                then node_visitDiff hash d visitor (snd new_child) (snd old_child) else Pair True)
          else if case_id = 5 then visitUnary d (\<lambda>it. visitor (Some it) None) (snd (refNodeBit bt new_node))
          else if case_id = 6 then visitor None (Some (refItemBit bt old_node))
          else if case_id = 7 then visitUnary d (\<lambda>it. visitor None (Some it)) (snd (refNodeBit bt old_node))
          else Pair False)"
  let ?P = "bit ((node_bitmap new_node OR item_bitmap new_node) OR (node_bitmap old_node OR item_bitmap old_node))"
  have e: "node_visitDiff hash (Suc d) visitor new_node old_node = run_all (map act (filter ?P [0..<64]))"
    by (rule ext) (simp only: node_visitDiff.simps act_def set_bits_of_def)
  have prefix: "unat (hash (itemKey it)) div 2 ^ (6 * d) = p * 64 + i"
    if "i < 64" "it \<in> set (slot d new_node i) \<or> it \<in> set (slot d old_node i)" for it i
    using that wf_slot [OF Suc.prems(1)] wf_slot [OF Suc.prems(2)] by blast
  have here: "trie_reports hash visitor (act i) (slot d new_node i) (slot d old_node i)" if i: "i < 64" and P: "?P i" for i
  using wn(1) proof (cases rule: slot_cases [where i = i and d = d])
    case n: (child nver nchild)
    have wfn: "wf_node isz hash d (p * 64 + i) nchild" by (rule wn(3) [OF n(2)])
    show ?thesis
    using wo(1) proof (cases rule: slot_cases [where i = i and d = d])
      case ol: (child over ochild)
      have wfo: "wf_node isz hash d (p * 64 + i) ochild" by (rule wo(3) [OF ol(2)])
      have st: "if nver = over then nchild = ochild else stamps_sound d nchild ochild"
        by (rule stamps_at [OF Suc.prems(4) i n(2) ol(2)])
      show ?thesis
      proof (cases "nver = over")
        case True
        have "act i = Pair True"
          using n ol True refNodeBit_at [OF i n(2)] refNodeBit_at [OF i ol(2)] by (simp add: act_def and_onebit_zero)
        then show ?thesis using st True n(3) ol(3) reports_unchanged [OF sorted_distinct [OF subtree_sorted [OF wfn]]] by simp
      next
        case False
        have "act i = node_visitDiff hash d visitor nchild ochild"
          using n ol False refNodeBit_at [OF i n(2)] refNodeBit_at [OF i ol(2)] by (simp add: act_def and_onebit_zero)
        then show ?thesis using st False n(3) ol(3) Suc.IH [OF wfn wfo] Suc.prems(3) by simp
      qed
    next
      case ol: (item oit)
      have "act i = visitDiffItem hash d oit visitor nchild"
        using n ol refNodeBit_at [OF i n(2)] refItemBit_at [OF i ol(3)] by (simp add: act_def and_onebit_zero)
      then show ?thesis using n(3) ol(4) visitDiffItem_ok [OF inj wfn] Suc.prems(3) prefix [OF i, of oit] by simp
    next
      case ol: none
      have "act i = visitUnary d (\<lambda>it. visitor (Some it) None) nchild"
        using n ol refNodeBit_at [OF i n(2)] by (simp add: act_def and_onebit_zero)
      then show ?thesis using n(3) ol(3) unary_left [OF wfn] by simp
    qed
  next
    case n: (item nit)
    show ?thesis
    using wo(1) proof (cases rule: slot_cases [where i = i and d = d])
      case ol: (child over ochild)
      have wfo: "wf_node isz hash d (p * 64 + i) ochild" by (rule wo(3) [OF ol(2)])
      have "act i = visitDiffItem hash d nit (\<lambda>node_item passed_item. visitor passed_item node_item) ochild"
        using n ol refNodeBit_at [OF i ol(2)] refItemBit_at [OF i n(3)] by (simp add: act_def and_onebit_zero)
      moreover have "trie_reports hash (\<lambda>a b. visitor b a) (visitDiffItem hash d nit (\<lambda>a b. visitor b a) ochild) (subtree d ochild) [nit]"
        by (rule visitDiffItem_ok [OF inj wfo]) (use Suc.prems(3) prefix [OF i, of nit] n(4) in simp_all)
      ultimately show ?thesis using reports_swap n(4) ol(3) by simp
    next
      case ol: (item oit)
      have a: "act i = visitDiffItemOrdered hash nit oit visitor"
        using n ol refItemBit_at [OF i n(3)] refItemBit_at [OF i ol(3)] by (simp add: act_def and_onebit_zero)
      show ?thesis unfolding a n(4) ol(4) by (rule visitDiffItemOrdered_ok [OF inj])
    next
      case ol: none
      have "act i = visitor (Some nit) None"
        using n ol refItemBit_at [OF i n(3)] by (simp add: act_def and_onebit_zero)
      then show ?thesis using reports_one_left [of itemKey version hash visitor nit] n(4) ol(3) by simp
    qed
  next
    case n: none
    show ?thesis
    using wo(1) proof (cases rule: slot_cases [where i = i and d = d])
      case ol: (child over ochild)
      have wfo: "wf_node isz hash d (p * 64 + i) ochild" by (rule wo(3) [OF ol(2)])
      have "act i = visitUnary d (\<lambda>it. visitor None (Some it)) ochild"
        using n ol refNodeBit_at [OF i ol(2)] by (simp add: act_def and_onebit_zero)
      then show ?thesis using n(3) ol(3) unary_right [OF wfo] by simp
    next
      case ol: (item oit)
      have "act i = visitor None (Some oit)"
        using n ol refItemBit_at [OF i ol(3)] by (simp add: act_def and_onebit_zero)
      then show ?thesis using reports_one_right [of itemKey version hash visitor oit] n(3) ol(4) by simp
    next
      case ol: none
      with n P show ?thesis by (simp add: bit_simps)
    qed
  qed
  have "trie_reports hash visitor (run_all (map act (filter ?P [0..<64]))) (concat (map (slot d new_node) [0..<64])) (concat (map (slot d old_node) [0..<64]))"
  proof (rule reports_slots [OF here])
    show "slot d new_node i = [] \<and> slot d old_node i = []" if "\<not> ?P i" for i
      using that slot_cases [OF wn(1), of i d] slot_cases [OF wo(1), of i d] by (metis bit_or_iff)
    show "hash (itemKey x) < hash (itemKey y)"
      if "i < j" "j < 64" "x \<in> set (slot d new_node i) \<union> set (slot d old_node i)" "y \<in> set (slot d new_node j) \<union> set (slot d old_node j)" for i j x y
      using that prefix [of i x] prefix [of j y] prefix_less [of _ "6 * d"] by simp
  qed simp_all
  then show ?case unfolding e subtree_Suc .
qed

section \<open>Stamps\<close>

text \<open>Stamp conditions that hold of whatever an operation stamps survive the operation: the children
  of a node in context \<open>x\<close> (the old node at the same place, say) satisfy \<open>stamp_ok x\<close>.\<close>

locale stamp_condition =
  fixes good :: "u64 \<Rightarrow> bool" and stamp_ok :: "'x \<Rightarrow> nat \<Rightarrow> ('k, 'v) node_item \<Rightarrow> bool" and below :: "'x \<Rightarrow> nat \<Rightarrow> 'x"
  assumes stamped_ok: "good timeline \<Longrightarrow> stamp_ok x i (timeline, child)"
begin

fun stamped :: "nat \<Rightarrow> 'x \<Rightarrow> ('k, 'v) tnode \<Rightarrow> bool" where
  "stamped 0 x node = True"
| "stamped (Suc d) x node \<longleftrightarrow> (\<forall>i ver child. nodes_at node i = Some (ver, child) \<longrightarrow>
     stamp_ok x i (ver, child) \<and> stamped d (below x i) child)"

lemma stamped_at: "stamped (Suc d) x node \<Longrightarrow> nodes_at node i = Some (ver, child) \<Longrightarrow> stamped d (below x i) child"
  by simp

lemma stamped_same: "stamped (Suc d) x node \<Longrightarrow> nodes_at node' = nodes_at node \<Longrightarrow> stamped (Suc d) x node'"
  by simp

lemma stamped_leaf: "nodes_at node = Map.empty \<Longrightarrow> stamped d x node"
  by (cases d) simp_all

lemma stamped_erase: "stamped (Suc d) x node \<Longrightarrow> nodes_at node' = (nodes_at node)(i := None) \<Longrightarrow> stamped (Suc d) x node'"
  by (auto split: if_splits)

lemma stamped_set:
  "(\<And>j ver child. j \<noteq> i \<Longrightarrow> nodes_at node j = Some (ver, child) \<Longrightarrow> stamp_ok x j (ver, child) \<and> stamped d (below x j) child) \<Longrightarrow>
     nodes_at node' = (nodes_at node)(i \<mapsto> (timeline, child')) \<Longrightarrow> good timeline \<Longrightarrow> stamped d (below x i) child' \<Longrightarrow> stamped (Suc d) x node'"
  using stamped_ok by (auto split: if_splits)

lemma insert_at_stamped:
  fixes hash :: "'k \<Rightarrow> u64"
  assumes inj: "inj hash" and isz: "item_size_ok isz" and good: "good timeline"
  shows "wf_node isz hash d p (snd current) \<Longrightarrow> d \<le> 10 \<Longrightarrow> unat (hash key) div 2 ^ (6 * d) = p \<Longrightarrow> stamped d x (snd current) \<Longrightarrow>
    insert_at isz hash timeline key v d (push_bit (64 - 6 * d) (hash key)) current = Some ((ver', node'), b) \<Longrightarrow> stamped d x node'"
proof (induction d arbitrary: p current x ver' node' b)
  case (Suc d)
  define node where "node = snd current"
  have wf: "wf_node isz hash (Suc d) p node" using Suc.prems(1) by (simp add: node_def)
  note wd = wf_nodeD [OF wf]
  have d: "d \<le> 9" using Suc.prems(2) by simp
  define i where "i = digit d (hash key)"
  have il: "i < 64" by (simp add: i_def)
  have pk: "unat (hash key) div 2 ^ (6 * d) = p * 64 + i"
    using prefix_digit [of "hash key" d] Suc.prems(3) by (simp add: i_def)
  have st: "stamped (Suc d) x node" using Suc.prems(4) by (simp only: node_def)
  define desc where "desc = (\<lambda>n. map_option (\<lambda>(child, inserted). ((timeline, set_node_bit (onebit i) child n), inserted))
        (insert_at isz hash timeline key v d (push_bit (64 - 6 * d) (hash key)) (refNodeBit (onebit i) n)))"
  note run = Suc.prems(5) [unfolded insert_at_step [OF wd(1) [unfolded node_def] d] Let_def, folded node_def i_def, folded desc_def]
  have descend: "stamped (Suc d) x node'"
    if n: "shape isz n" "nodes_at n i = Some (ver, child)" "wf_node isz hash d (p * 64 + i) child" "stamped d (below x i) child"
      and oth: "\<And>j. j \<noteq> i \<Longrightarrow> nodes_at n j = nodes_at node j" and r: "desc n = Some ((ver', node'), b)" for n ver child
  proof -
    have ref: "refNodeBit (onebit i) n = (ver, child)" by (rule refNodeBit_at [OF il n(2)])
    obtain cv child' where ih: "insert_at isz hash timeline key v d (push_bit (64 - 6 * d) (hash key)) (ver, child) = Some ((cv, child'), b)"
      and n': "node' = set_node_bit (onebit i) (cv, child') n"
      using r unfolding desc_def ref by (auto split: prod.splits)
    have w: "wf_node isz hash d (p * 64 + i) (snd (ver, child))" using n(3) by simp
    have cv: "cv = timeline" using insert_at_ok [OF inj isz w _ pk, of timeline v] ih d by auto
    have "nodes_at node' = (nodes_at n)(i \<mapsto> (timeline, child'))"
      using set_node_bit_at(2) [OF n(1) il, of "(cv, child')"] n(2) n' cv by simp
    moreover have "stamped d (below x i) child'"
      by (rule Suc.IH [OF w _ pk _ ih]) (use d n(4) in simp_all)
    ultimately show ?thesis using st oth good by (intro stamped_set [of i n]) auto
  qed
  show ?case
  proof (cases "nodes_at node i")
    case (Some vc)
    obtain ver child where vc: "nodes_at node i = Some (ver, child)" using Some by (cases vc) simp
    show ?thesis by (rule descend [OF wd(1) vc wd(3) [OF vc] stamped_at [OF st vc]]) (use run vc in \<open>simp_all add: desc_def\<close>)
  next
    case none: None
    show ?thesis
    proof (cases "items_at node i")
      case None
      have "nodes_at node' = nodes_at node"
        using run none None expandNode_ok(3) [OF wd(1) isz il none None]
        by (auto simp: nodes_at_def insertItem_def split: if_splits)
      then show ?thesis using st by (rule stamped_same [rotated])
    next
      case (Some it)
      have ref: "refItemBit (onebit i) node = it" by (rule refItemBit_at [OF il Some])
      show ?thesis
      proof (cases "itemKey it = key")
        case True
        then have "nodes_at node' = nodes_at node"
          using run none Some ref by (auto simp: nodes_at_def set_item_bit_def)
        then show ?thesis using st by (rule stamped_same [rotated])
      next
        case False
        have r: "desc (promoteItemToNode isz hash (onebit i) node) = Some ((ver', node'), b)"
          using run none Some ref False by (simp add: desc_def)
        have "0 < d"
        proof (rule ccontr)
          assume "\<not> 0 < d"
          then have "unat (hash (itemKey it)) = unat (hash key)" using wd(4) [OF Some] pk by simp
          then have "itemKey it = key" using injD [OF inj] by (metis word_unat_eq_iff)
          then show False using False by simp
        qed
        then obtain d' where d': "d = Suc d'" by (cases d) simp_all
        obtain child where pr: "shape isz (promoteItemToNode isz hash (onebit i) node)"
          "nodes_at (promoteItemToNode isz hash (onebit i) node) = (nodes_at node)(i \<mapsto> (version it, child))"
          "wf_node isz hash d (p * 64 + i) child" "nodes_at child = Map.empty"
          using promote_ok [OF isz wf [unfolded d'] Some] d unfolding d' by blast
        have "nodes_at (promoteItemToNode isz hash (onebit i) node) i = Some (version it, child)" using pr(2) by simp
        from descend [OF pr(1) this pr(3) stamped_leaf [OF pr(4)] _ r] show ?thesis using pr(2) by simp
      qed
    qed
  qed
qed simp

lemma erase_at_stamped:
  assumes isz: "item_size_ok isz" and good: "good timeline"
  shows "wf_node isz hash d p (snd current) \<Longrightarrow> d \<le> 10 \<Longrightarrow> unat (hash key) div 2 ^ (6 * d) = p \<Longrightarrow> stamped d x (snd current) \<Longrightarrow>
    erase_at isz timeline key d (push_bit (64 - 6 * d) (hash key)) current = Some ((ver', node'), b) \<Longrightarrow>
    stamped d x node' \<and> ((ver', node') = current \<or> ver' = timeline)"
proof (induction d arbitrary: p current x ver' node' b)
  case (Suc d)
  define node where "node = snd current"
  have wf: "wf_node isz hash (Suc d) p node" using Suc.prems(1) by (simp add: node_def)
  note wd = wf_nodeD [OF wf]
  have d: "d \<le> 9" using Suc.prems(2) by simp
  define i where "i = digit d (hash key)"
  have il: "i < 64" by (simp add: i_def)
  have pk: "unat (hash key) div 2 ^ (6 * d) = p * 64 + i"
    using prefix_digit [of "hash key" d] Suc.prems(3) by (simp add: i_def)
  have st: "stamped (Suc d) x node" using Suc.prems(4) by (simp only: node_def)
  note run = Suc.prems(5) [unfolded erase_at_step [OF wd(1) [unfolded node_def] d] Let_def, folded node_def i_def]
  show ?case
  proof (cases "items_at node i")
    case (Some it)
    have n: "nodes_at (eraseItem isz (onebit i) node) = nodes_at node" by (simp add: nodes_at_def eraseItem_def)
    have "items_at node i \<noteq> None" using Some by simp
    then have "(ver', node') = current \<or> (ver' = timeline \<and> node' = eraseItem isz (onebit i) node)"
      using run by (simp only: if_True simp_thms option.inject prod.inject split: if_splits)
    then show ?thesis using st stamped_same [OF st n] node_def by (metis snd_conv)
  next
    case inone: None
    show ?thesis
    proof (cases "nodes_at node i")
      case None
      then show ?thesis using run inone st node_def by (auto simp del: stamped.simps)
    next
      case (Some vc)
      obtain ver child where vc: "nodes_at node i = Some (ver, child)" using Some by (cases vc) simp
      have ref: "refNodeBit (onebit i) node = (ver, child)" by (rule refNodeBit_at [OF il vc])
      have w: "wf_node isz hash d (p * 64 + i) (snd (ver, child))" using wd(3) [OF vc] by simp
      obtain cv child' where ih: "erase_at isz timeline key d (push_bit (64 - 6 * d) (hash key)) (ver, child) = Some ((cv, child'), b)"
        and n': "ver' = timeline" "node' = (if b then tryShrinkChildNode isz (onebit i) (set_node_bit (onebit i) (cv, child') node)
          else set_node_bit (onebit i) (cv, child') node)"
        using run inone vc unfolding ref by (auto split: prod.splits if_splits)
      have c: "stamped d (below x i) child' \<and> ((cv, child') = (ver, child) \<or> cv = timeline)"
        by (rule Suc.IH [OF w _ pk _ ih]) (use d stamped_at [OF st vc] in simp_all)
      have "nodes_at node i \<noteq> None" using vc by simp
      note sn = set_node_bit_at [OF wd(1) il this, of "(cv, child')"]
      have s: "stamped (Suc d) x (set_node_bit (onebit i) (cv, child') node)"
      proof (cases "(cv, child') = (ver, child)")
        case True
        then have "nodes_at (set_node_bit (onebit i) (cv, child') node) = nodes_at node" using sn(2) vc by auto
        then show ?thesis using st by (rule stamped_same [rotated])
      next
        case False
        then have "cv = timeline" using c by blast
        then show ?thesis using st sn(2) c good by (intro stamped_set [of i node]) auto
      qed
      have "nodes_at (set_node_bit (onebit i) (cv, child') node) i \<noteq> None" using sn(2) by simp
      from tryShrink_nodes [OF sn(1) il this]
      have "stamped (Suc d) x (tryShrinkChildNode isz (onebit i) (set_node_bit (onebit i) (cv, child') node))"
        using stamped_same [OF s] stamped_erase [OF s] by blast
      with s show ?thesis unfolding n' by (simp del: stamped.simps)
    qed
  qed
qed simp

end

fun op_timeline :: "('k, 'v) map_op \<Rightarrow> u64" where
  "op_timeline (Insert timeline k v) = timeline"
| "op_timeline (Erase timeline k) = timeline"

text \<open>The same for the roots.\<close>

locale root_stamp_condition = stamp_condition good stamp_ok below
  for good :: "u64 \<Rightarrow> bool" and stamp_ok :: "'x \<Rightarrow> nat \<Rightarrow> ('k, 'v) node_item \<Rightarrow> bool" and below +
  fixes root_ok :: "nat \<Rightarrow> u64 \<times> ('k, 'v) tnode option \<Rightarrow> bool" and root_context :: "nat \<Rightarrow> 'x"
  assumes root_stamped_ok: "good timeline \<Longrightarrow> root_ok i (timeline, Some node)"
begin

definition roots_stamped :: "('k, 'v) trie \<Rightarrow> bool" where
  "roots_stamped t \<longleftrightarrow> (\<forall>i<16. root_ok i (m_root_nodes t ! i)
     \<and> (\<forall>node. snd (m_root_nodes t ! i) = Some node \<longrightarrow> stamped DEPTH (root_context i) node))"

lemma roots_stamped_at: "roots_stamped t \<Longrightarrow> i < 16 \<Longrightarrow> root_ok i (m_root_nodes t ! i)"
  "roots_stamped t \<Longrightarrow> i < 16 \<Longrightarrow> m_root_nodes t ! i = (ver, Some node) \<Longrightarrow> stamped DEPTH (root_context i) node"
  by (simp_all add: roots_stamped_def)

lemma roots_stamped_update:
  assumes "roots_stamped t" "length (m_root_nodes t) = 16" "root_ok i (ver, Some node)" "stamped DEPTH (root_context i) node"
  shows "roots_stamped \<lparr>m_size = n, m_root_nodes = (m_root_nodes t)[i := (ver, Some node)]\<rparr>"
proof -
  have "(m_root_nodes t)[i := (ver, Some node)] ! j = (if j = i then (ver, Some node) else m_root_nodes t ! j)" if "j < 16" for j
    using that assms(2) by (simp add: nth_list_update)
  then show ?thesis using assms by (simp add: roots_stamped_def)
qed

lemma trie_insert_stamped:
  fixes hash :: "'k \<Rightarrow> u64"
  assumes inv: "ht_inv isz hash t" and good: "good timeline" and st: "roots_stamped t"
    and run: "trie_insert isz hash timeline key v t = Some t'"
  shows "roots_stamped t'"
proof -
  have inj: "inj hash" and isz: "item_size_ok isz" and ok: "trie_ok isz hash t" using inv by (simp_all add: ht_inv_def)
  define i where "i = trie_root_index (hash key)"
  have il: "i < 16" by (simp add: i_def)
  define cur where "cur = (case m_root_nodes t ! i of (ver, None) \<Rightarrow> (timeline, allocateNode isz ROOT_NODES_LOG2) | (ver, Some node) \<Rightarrow> (ver, node))"
  have pk: "unat (hash key) div 2 ^ (6 * DEPTH) = i" by (simp add: i_def trie_root_index_div)
  have D: "DEPTH \<le> 10" by (simp add: DEPTH_def)
  have w: "wf_node isz hash DEPTH i (snd cur)"
    using trie_okD(3) [OF ok il] root_fresh(1) [of isz hash i] by (auto simp: cur_def split: option.splits prod.splits)
  have s: "stamped DEPTH (root_context i) (snd cur)"
  proof (cases "snd (m_root_nodes t ! i)")
    case None
    then have "nodes_at (snd cur) = Map.empty" by (auto simp: cur_def allocateNode_ok fun_eq_iff split: option.splits prod.splits)
    then show ?thesis by (rule stamped_leaf)
  next
    case (Some node)
    then have "snd cur = node" by (auto simp: cur_def split: option.splits prod.splits)
    then show ?thesis using st il Some by (simp add: roots_stamped_def)
  qed
  obtain ver' node' b where ia: "insert_at isz hash timeline key v DEPTH (push_bit (64 - 6 * DEPTH) (hash key)) cur = Some ((ver', node'), b)"
    and t': "t' = \<lparr>m_size = m_size t + (if b then 1 else 0), m_root_nodes = (m_root_nodes t)[i := (ver', Some node')]\<rparr>"
    using run unfolding trie_insert_def Let_def i_def [symmetric] cur_def [symmetric] root_shift by (auto split: prod.splits)
  have v': "ver' = timeline" using insert_at_ok [OF inj isz w D pk, of timeline v] ia by auto
  show ?thesis unfolding t' v'
    by (rule roots_stamped_update [OF st trie_okD(1) [OF ok] root_stamped_ok [OF good] insert_at_stamped [OF inj isz good w D pk s ia]])
qed

lemma trie_erase_stamped:
  fixes hash :: "'k \<Rightarrow> u64"
  assumes inv: "ht_inv isz hash t" and good: "good timeline" and st: "roots_stamped t"
    and run: "trie_erase isz hash timeline key t = Some t'"
  shows "roots_stamped t'"
proof -
  have isz: "item_size_ok isz" and ok: "trie_ok isz hash t" using inv by (simp_all add: ht_inv_def)
  define i where "i = trie_root_index (hash key)"
  have il: "i < 16" by (simp add: i_def)
  have pk: "unat (hash key) div 2 ^ (6 * DEPTH) = i" by (simp add: i_def trie_root_index_div)
  have D: "DEPTH \<le> 10" by (simp add: DEPTH_def)
  obtain ver nd where root: "m_root_nodes t ! i = (ver, nd)" by (metis surj_pair)
  show ?thesis
  proof (cases nd)
    case None
    then show ?thesis using run st root by (simp add: trie_erase_def i_def)
  next
    case (Some node)
    have w: "wf_node isz hash DEPTH i (snd (ver, node))" using trie_okD(3) [OF ok il] root Some by simp
    have s: "stamped DEPTH (root_context i) (snd (ver, node))" using st il root Some by (simp add: roots_stamped_def)
    obtain ver' node' b where ea: "erase_at isz timeline key DEPTH (push_bit (64 - 6 * DEPTH) (hash key)) (ver, node) = Some ((ver', node'), b)"
      and t': "t' = \<lparr>m_size = m_size t - (if b then 1 else 0), m_root_nodes = (m_root_nodes t)[i := (ver', Some node')]\<rparr>"
      using run unfolding trie_erase_def Let_def i_def [symmetric] root Some root_shift by (auto split: prod.splits)
    note e = erase_at_stamped [OF isz good w D pk s ea]
    have "root_ok i (ver, Some node)" using roots_stamped_at(1) [OF st il] root Some by simp
    then have "root_ok i (ver', Some node')" using e root_stamped_ok [OF good] by auto
    then show ?thesis unfolding t' by (rule roots_stamped_update [OF st trie_okD(1) [OF ok] _ conjunct1 [OF e]])
  qed
qed

lemma trie_run_stamped:
  fixes hash :: "'k \<Rightarrow> u64"
  shows "ht_inv isz hash t \<Longrightarrow> \<forall>op\<in>set ops. good (op_timeline op) \<Longrightarrow> roots_stamped t \<Longrightarrow>
    trie_run isz hash ops t = Some t' \<Longrightarrow> roots_stamped t'"
proof (induction isz hash ops t rule: trie_run.induct)
  case (2 isz hash timeline k v ops t)
  then obtain s where s: "trie_insert isz hash timeline k v t = Some s" "ht_inv isz hash s"
    using trie_insert_ok [of hash isz t timeline k v] by (auto simp: ht_inv_def)
  have "roots_stamped s" using trie_insert_stamped [OF 2(2) _ 2(4) s(1)] 2(3) by simp
  then show ?case using 2(1) [OF s] 2(3,5) s(1) by simp
next
  case (3 isz hash timeline k ops t)
  then obtain s where s: "trie_erase isz hash timeline k t = Some s" "ht_inv isz hash s"
    using trie_erase_ok [of isz hash t timeline k] by (auto simp: ht_inv_def)
  have "roots_stamped s" using trie_erase_stamped [OF 3(2) _ 3(4) s(1)] 3(3) by simp
  then show ?case using 3(1) [OF s] 3(3,5) s(1) by simp
qed simp

end

text \<open>No stamp exceeds \<open>T\<close>; and, since an older state, every child is stamped later than \<open>T\<close> or the
  old child is still there.\<close>

definition old_child :: "('k, 'v) tnode option \<Rightarrow> nat \<Rightarrow> ('k, 'v) node_item option" where
  "old_child old i = (case old of None \<Rightarrow> None | Some node \<Rightarrow> nodes_at node i)"

definition kept_or_new :: "u64 \<Rightarrow> ('k, 'v) tnode option \<Rightarrow> nat \<Rightarrow> ('k, 'v) node_item \<Rightarrow> bool" where
  "kept_or_new T old i child \<longleftrightarrow> T < fst child \<or> old_child old i = None \<or> old_child old i = Some child"

definition below_old :: "('k, 'v) tnode option \<Rightarrow> nat \<Rightarrow> ('k, 'v) tnode option" where
  "below_old old i = map_option snd (old_child old i)"

lemma kept_or_newD:
  "kept_or_new T (Some old) i (ver, child) \<Longrightarrow> nodes_at old i = Some (over, ochild) \<Longrightarrow> T < ver \<or> (ver = over \<and> child = ochild)"
  by (auto simp: kept_or_new_def old_child_def)

lemma kept_same: "nodes_at node i = Some (ver, child) \<Longrightarrow> kept_or_new T (Some node) i (ver, child)"
  by (simp add: kept_or_new_def old_child_def)

lemma below_old_at: "nodes_at node i = Some (ver, child) \<Longrightarrow> below_old (Some node) i = Some child"
  by (simp add: below_old_def old_child_def)

interpretation upto: root_stamp_condition "\<lambda>timeline. timeline \<le> T"
  "\<lambda>(x :: nat) i (child :: ('k, 'v) node_item). fst child \<le> T" "\<lambda>x i. x"
  "\<lambda>i root. fst root \<le> T" "\<lambda>i. 0"
  by unfold_locales simp_all

interpretation since: root_stamp_condition "\<lambda>timeline. T < timeline"
  "kept_or_new T :: ('k, 'v) tnode option \<Rightarrow> nat \<Rightarrow> ('k, 'v) node_item \<Rightarrow> bool"
  below_old
  "\<lambda>i root. T < fst root \<or> root = m_root_nodes t ! i" "\<lambda>i. snd (m_root_nodes (t :: ('k, 'v) trie) ! i)"
  by unfold_locales (simp_all add: kept_or_new_def)

lemma stamps_sound_since:
  "upto.stamped T d 0 old \<Longrightarrow> since.stamped T d (Some old) node \<Longrightarrow> stamps_sound d node old"
proof (induction d arbitrary: node old)
  case (Suc d)
  have "if ver = over then child = ochild else stamps_sound d child ochild"
    if n: "nodes_at node i = Some (ver, child)" "nodes_at old i = Some (over, ochild)" for i ver child over ochild
  proof -
    have o: "over \<le> T" "upto.stamped T d 0 ochild" using Suc.prems(1) n(2) by auto
    have k: "kept_or_new T (Some old) i (ver, child)" "since.stamped T d (below_old (Some old) i) child"
      using Suc.prems(2) n(1) by auto
    have s: "T < ver \<or> (ver = over \<and> child = ochild)" "since.stamped T d (Some ochild) child"
      using kept_or_newD [OF k(1) n(2)] k(2) below_old_at [OF n(2)] by simp_all
    show ?thesis using Suc.IH [OF o(2) s(2)] s(1) o(1) by auto
  qed
  then show ?case by (auto split: option.splits)
qed simp

lemma since_same: "since.stamped T d (Some node) node"
  by (induction d arbitrary: node) (auto simp: kept_same below_old_at)

lemma since_start: "since.roots_stamped T t t"
  by (simp add: since.roots_stamped_def since_same)

lemma upto_new_trie: "upto.roots_stamped T new_trie"
  by (simp add: upto.roots_stamped_def new_trie_def ROOT_NODES_LOG2_def)

section \<open>The diff of two versions\<close>

lemma roots_report:
  assumes roots: "\<And>i. i < n \<Longrightarrow> reports key ver hash visitor (act i) (f i) (g i)"
    and less: "\<And>i j x y. i < j \<Longrightarrow> j < n \<Longrightarrow> x \<in> set (f i) \<union> set (g i) \<Longrightarrow> y \<in> set (f j) \<union> set (g j) \<Longrightarrow> hash (key x) < hash (key y)"
  shows "reports key ver hash visitor (run_all (map act [0..<n])) (concat (map f [0..<n])) (concat (map g [0..<n]))"
  using assms
proof (induction n)
  case 0
  have "run_all [] = Pair True" by (rule ext) simp
  then show ?case by (simp add: reports_nothing)
next
  case (Suc n)
  have ih: "reports key ver hash visitor (run_all (map act [0..<n])) (concat (map f [0..<n])) (concat (map g [0..<n]))"
    using Suc.IH Suc.prems by (meson less_SucI)
  have "reports key ver hash visitor (and_then (run_all (map act [0..<n])) (act n))
      (concat (map f [0..<n]) @ f n) (concat (map g [0..<n]) @ g n)"
  proof (rule reports_append [OF ih Suc.prems(1)])
    fix x y assume "x \<in> set (concat (map f [0..<n])) \<union> set (concat (map g [0..<n]))" "y \<in> set (f n) \<union> set (g n)"
    moreover from this(1) obtain i where "i < n" "x \<in> set (f i) \<union> set (g i)" by auto
    ultimately show "hash (key x) < hash (key y)" using Suc.prems(2) by blast
  qed simp
  then show ?case by (simp add: run_all_append)
qed

lemma trie_visitDiff_ok:
  fixes t :: "('k, 'v) trie"
  assumes inj: "inj hash" and ok: "trie_ok isz hash t" and oko: "trie_ok isz hash old"
    and st: "since.roots_stamped T old t" and sto: "upto.roots_stamped T old"
  shows "\<exists>act. trie_visitDiff hash visitor t old = (\<lambda>s. snd (act s)) \<and> trie_reports hash visitor act (trie_items t) (trie_items old)"
proof -
  define act where "act = (\<lambda>i. let new_root = m_root_nodes t ! i; old_root = m_root_nodes old ! i in
       if fst new_root = fst old_root then Pair True
       else case (snd new_root, snd old_root) of
         (None, None) \<Rightarrow> Pair True
       | (None, Some old_node) \<Rightarrow> visitUnary DEPTH (\<lambda>it. visitor None (Some it)) old_node
       | (Some new_node, None) \<Rightarrow> visitUnary DEPTH (\<lambda>it. visitor (Some it) None) new_node
       | (Some new_node, Some old_node) \<Rightarrow> node_visitDiff hash DEPTH visitor new_node old_node)"
  note len = trie_okD(1) [OF ok] trie_okD(1) [OF oko]
  have z: "zip (m_root_nodes t) (m_root_nodes old) = map (\<lambda>i. (m_root_nodes t ! i, m_root_nodes old ! i)) [0..<16]"
    using len by (intro nth_equalityI) simp_all
  have items: "trie_items u = concat (map (\<lambda>i. root_subtree (m_root_nodes u ! i)) [0..<16])" if "trie_ok isz hash u" for u :: "('k, 'v) trie"
    using map_nth [of "m_root_nodes u"] trie_okD(1) [OF that] unfolding trie_items_def by (metis (no_types, lifting) list.map_comp comp_def map_eq_conv)
  have v: "trie_visitDiff hash visitor t old = (\<lambda>s. snd (run_all (map act [0..<16]) s))"
    by (rule ext) (simp only: trie_visitDiff_def z map_map comp_def act_def Let_def case_prod_conv)
  have prefix: "unat (hash (itemKey it)) div 2 ^ (6 * DEPTH) = i"
    if i: "i < 16" and it: "it \<in> set (root_subtree (m_root_nodes t ! i)) \<union> set (root_subtree (m_root_nodes old ! i))" for i it
  proof -
    from it consider node where "snd (m_root_nodes t ! i) = Some node" "it \<in> set (subtree DEPTH node)"
      | node where "snd (m_root_nodes old ! i) = Some node" "it \<in> set (subtree DEPTH node)"
      unfolding root_subtree_def by (cases "snd (m_root_nodes t ! i)"; cases "snd (m_root_nodes old ! i)") auto
    then show ?thesis
      using wf_prefix [OF trie_okD(3) [OF ok i]] wf_prefix [OF trie_okD(3) [OF oko i]] by cases metis+
  qed
  have "trie_reports hash visitor (run_all (map act [0..<16])) (concat (map (\<lambda>i. root_subtree (m_root_nodes t ! i)) [0..<16]))
      (concat (map (\<lambda>i. root_subtree (m_root_nodes old ! i)) [0..<16]))"
  proof (rule roots_report)
    fix i :: nat assume i: "i < 16"
    obtain ver n over od where r: "m_root_nodes t ! i = (ver, n)" "m_root_nodes old ! i = (over, od)" by (metis surj_pair)
    have w: "\<And>node. n = Some node \<Longrightarrow> wf_node isz hash DEPTH i node" "\<And>node. od = Some node \<Longrightarrow> wf_node isz hash DEPTH i node"
      using trie_okD(3) [OF ok i] trie_okD(3) [OF oko i] r by simp_all
    have s: "T < ver \<or> (ver, n) = (over, od)" "over \<le> T"
      using since.roots_stamped_at(1) [OF st i] upto.roots_stamped_at(1) [OF sto i] unfolding r by simp_all
    show "trie_reports hash visitor (act i) (root_subtree (m_root_nodes t ! i)) (root_subtree (m_root_nodes old ! i))"
    proof (cases "ver = over")
      case True
      then have "n = od" using s by auto
      moreover have "sorted_wrt (hash_less hash) (root_subtree (m_root_nodes t ! i))"
        using subtree_sorted [OF w(1)] r by (cases n) (simp_all add: root_subtree_def)
      ultimately show ?thesis using True r reports_unchanged [OF sorted_distinct] by (simp add: act_def)
    next
      case False
      have "stamps_sound DEPTH new_node old_node" if "n = Some new_node" "od = Some old_node" for new_node old_node
        using since.roots_stamped_at(2) [OF st i] upto.roots_stamped_at(2) [OF sto i] r that
        by (intro stamps_sound_since [of T]) simp_all
      then have both: "trie_reports hash visitor (node_visitDiff hash DEPTH visitor new_node old_node) (subtree DEPTH new_node) (subtree DEPTH old_node)"
        if "n = Some new_node" "od = Some old_node" for new_node old_node
        using that w by (intro node_visitDiff_ok [OF inj]) (auto simp: DEPTH_def)
      have left: "trie_reports hash visitor (visitUnary DEPTH (\<lambda>it. visitor (Some it) None) new_node) (subtree DEPTH new_node) []"
        if "n = Some new_node" for new_node using unary_left [OF w(1) [OF that]] .
      have right: "trie_reports hash visitor (visitUnary DEPTH (\<lambda>it. visitor None (Some it)) old_node) [] (subtree DEPTH old_node)"
        if "od = Some old_node" for old_node using unary_right [OF w(2) [OF that]] .
      show ?thesis using False r left right reports_nothing [of itemKey version hash visitor] both
        by (cases n; cases od) (simp_all add: act_def root_subtree_def)
    qed
  next
    fix i j :: nat and x y
    assume "i < j" "j < 16" "x \<in> set (root_subtree (m_root_nodes t ! i)) \<union> set (root_subtree (m_root_nodes old ! i))"
      "y \<in> set (root_subtree (m_root_nodes t ! j)) \<union> set (root_subtree (m_root_nodes old ! j))"
    then show "hash (itemKey x) < hash (itemKey y)"
      using prefix [of i x] prefix [of j y] prefix_less [of _ "6 * DEPTH"] by simp
  qed
  then show ?thesis using v by (intro exI [of _ "run_all (map act [0..<16])"]) (simp add: items [OF ok] items [OF oko])
qed

text \<open>What a client may expect of a diff, in terms of the two maps.\<close>

definition map_changes ::
  "('k \<rightharpoonup> u64 \<times> 'v) \<Rightarrow> ('k \<rightharpoonup> u64 \<times> 'v) \<Rightarrow> ('k, 'v) v8g_item change set" where
  "map_changes m old =
     {(Some (ver, k, v), None) |ver k v. m k = Some (ver, v) \<and> old k = None}
     \<union> {(None, Some (ver, k, v)) |ver k v. old k = Some (ver, v) \<and> m k = None}
     \<union> {(Some (ver, k, v), Some (over, k, ov)) |ver k v over ov. m k = Some (ver, v) \<and> old k = Some (over, ov) \<and> ver \<noteq> over}"

lemma item_key: "k \<in> itemKey ` set xs \<longleftrightarrow> (\<exists>ver v. (ver, k, v) \<in> set xs)"
  by force

lemma changes_maps:
  assumes "distinct (map itemKey xs)" "distinct (map itemKey ys)"
  shows "changes itemKey version xs ys = map_changes (fm_entries xs) (fm_entries ys)"
proof -
  have n: "fm_entries zs k = None \<longleftrightarrow> k \<notin> itemKey ` set zs" for zs :: "('a, 'b) v8g_item list" and k
    by (induction zs) (auto split: if_splits)
  show ?thesis unfolding changes_def map_changes_def n entries_iff [OF assms(1)] entries_iff [OF assms(2)]
    by (auto simp: image_iff)
qed

text \<open>C7: take any script on an empty trie as the older version and any further script with later
  timelines on top of it; then \<open>visitDiff\<close> calls the visitor, in hash order and until it stops the
  visit, for each added, removed or changed key and for nothing else: skipping subtrees and roots
  with equal stamps loses no change.\<close>

theorem trie_visitDiff_is_exact:
  fixes ops :: "('k, 'v) map_op list" and visitor :: "('k, 'v, 's) diff_visitor"
  assumes "inj hash" and "item_size_ok isz"
    and "\<forall>op\<in>set ops. op_timeline op \<le> T" and "\<forall>op\<in>set ops'. T < op_timeline op"
  shows "\<exists>old t evs. trie_run isz hash ops new_trie = Some old \<and> trie_run isz hash ops' old = Some t
    \<and> trie_visitDiff hash visitor t old = (\<lambda>s. snd (run_changes visitor evs s))
    \<and> sorted_wrt (change_less (\<lambda>it. hash (itemKey it))) evs
    \<and> set evs = map_changes (fold apply_op (ops @ ops') Map.empty) (fold apply_op ops Map.empty)"
proof -
  have i: "ht_inv isz hash (new_trie :: ('k, 'v) trie)" using assms(1,2) new_trie_ok [of isz hash] unfolding ht_inv_def by blast
  have e: "trie_entries (new_trie :: ('k, 'v) trie) = Map.empty" using new_trie_ok [of isz hash] by blast
  define old where "old = fold (ht.run_op isz hash) ops (new_trie :: ('k, 'v) trie)"
  define t where "t = fold (ht.run_op isz hash) ops' old"
  have o: "ht_inv isz hash old" "trie_entries old = fold apply_op ops Map.empty" "trie_run isz hash ops new_trie = Some old"
    using ht.run_law [OF i, of ops, unfolded e] trie_run_ok [OF i, of ops] by (simp_all add: old_def)
  have n: "ht_inv isz hash t" "trie_entries t = fold apply_op (ops @ ops') Map.empty" "trie_run isz hash ops' old = Some t"
    using ht.run_law [OF o(1), of ops'] trie_run_ok [OF o(1), of ops'] o(2) by (simp_all add: t_def)
  have ok: "trie_ok isz hash t" "trie_ok isz hash old" using n(1) o(1) by (simp_all add: ht_inv_def)
  have "upto.roots_stamped T old" by (rule upto.trie_run_stamped [OF i assms(3) upto_new_trie o(3)])
  moreover have "since.roots_stamped T old t" by (rule since.trie_run_stamped [OF o(1) assms(4) since_start n(3)])
  ultimately obtain act where a: "trie_visitDiff hash visitor t old = (\<lambda>s. snd (act s))"
    "trie_reports hash visitor act (trie_items t) (trie_items old)"
    using trie_visitDiff_ok [OF assms(1) ok] by blast
  have c: "changes itemKey version (trie_items t) (trie_items old)
      = map_changes (fold apply_op (ops @ ops') Map.empty) (fold apply_op ops Map.empty)"
    using changes_maps [OF sorted_distinct [OF trie_sorted [OF ok(1)]] sorted_distinct [OF trie_sorted [OF ok(2)]]] n(2) o(2)
    by (simp add: trie_entries_def)
  show ?thesis using o(3) n(3) a c unfolding reports_def by blast
qed

theorem trie_visitDiff_is_exact_witness:
  "\<exists>old t (evs :: (u64, string) v8g_item change list). trie_run 32 id [Insert 1 (0 :: u64) ''a'', Insert 2 1 ''b''] new_trie = Some old
    \<and> trie_run 32 id [Insert 3 1 ''c'', Erase 4 0] old = Some t
    \<and> trie_visitDiff id (\<lambda>a b s. (True, s + 1)) t old = (\<lambda>s :: nat. snd (run_changes (\<lambda>a b s. (True, s + 1)) evs s))
    \<and> set evs = {(None, Some (1, 0, ''a'')), (Some (3, 1, ''c''), Some (2, 1, ''b''))}"
proof -
  have "inj (id :: u64 \<Rightarrow> u64)" "item_size_ok 32" by (simp_all add: item_size_ok_def NODE_ITEM_SIZE_def)
  moreover have "\<forall>op\<in>set [Insert 1 (0 :: u64) ''a'', Insert 2 1 ''b'']. op_timeline op \<le> 2"
    "\<forall>op\<in>set [Insert 3 (1 :: u64) ''c'', Erase 4 0]. 2 < op_timeline op" by simp_all
  ultimately have h: "\<exists>old t evs. trie_run 32 id [Insert 1 0 ''a'', Insert 2 1 ''b''] new_trie = Some old
      \<and> trie_run 32 id [Insert 3 1 ''c'', Erase 4 0] old = Some t
      \<and> trie_visitDiff id (\<lambda>a b s. (True, s + 1)) t old = (\<lambda>s :: nat. snd (run_changes (\<lambda>a b s. (True, s + 1)) evs s))
      \<and> sorted_wrt (change_less (\<lambda>it. id (itemKey it))) evs
      \<and> set evs = map_changes (fold apply_op ([Insert 1 (0 :: u64) ''a'', Insert 2 1 ''b''] @ [Insert 3 1 ''c'', Erase 4 0]) Map.empty)
          (fold apply_op [Insert 1 0 ''a'', Insert 2 1 ''b''] Map.empty)"
    by (rule trie_visitDiff_is_exact)
  have m: "fold apply_op ([Insert 1 (0 :: u64) ''a'', Insert 2 1 ''b''] @ [Insert 3 1 ''c'', Erase 4 0]) Map.empty = [1 \<mapsto> (3, ''c'')]"
    "fold apply_op [Insert 1 (0 :: u64) ''a'', Insert 2 1 ''b''] Map.empty = [0 \<mapsto> (1, ''a''), 1 \<mapsto> (2, ''b'')]"
    by (rule ext, simp)+
  have c: "map_changes [1 \<mapsto> (3, ''c'')] [0 \<mapsto> (1, ''a''), 1 \<mapsto> (2, ''b'')]
      = {(None, Some (1, 0 :: u64, ''a'')), (Some (3, 1, ''c''), Some (2, 1, ''b''))}"
    by (auto simp: map_changes_def split: if_splits)
  show ?thesis using h unfolding m c by blast
qed

end
