(* ===== verification/Cube_Array.thy ===== *)
theory Cube_Array
  imports Prelude
begin

text \<open>
  \<open>CubeArray\<close> and \<open>CubeArrayView\<close> (include/voxen/land/cube_array.hpp): a cube of values in YXZ order and
  a strided view of (a part of) one. An array is the list of its values in memory order, a view
  the offset and strides with which it addresses such a list; element loops are the code's. The
  lemmas say which elements each operation writes and with what: \<open>writes\<close>.
\<close>

datatype uvec3 = UVec3 (vx: nat) (vy: nat) (vz: nat)

definition add3 :: "uvec3 \<Rightarrow> uvec3 \<Rightarrow> uvec3" where
  "add3 a b = UVec3 (vx a + vx b) (vy a + vy b) (vz a + vz b)"

section \<open>Views\<close>

record cube_array_view =
  vdata :: nat
  y_stride :: nat
  x_stride :: nat

definition view_addr :: "cube_array_view \<Rightarrow> uvec3 \<Rightarrow> nat" where
  "view_addr v c = vdata v + vy c * y_stride v + vx c * x_stride v + vz c"

definition view_load :: "cube_array_view \<Rightarrow> 'a list \<Rightarrow> uvec3 \<Rightarrow> 'a" where
  "view_load v mem c = mem ! view_addr v c"

definition view_store :: "cube_array_view \<Rightarrow> uvec3 \<Rightarrow> 'a \<Rightarrow> 'a list \<Rightarrow> 'a list" where
  "view_store v c val mem = mem[view_addr v c := val]"

definition subview :: "cube_array_view \<Rightarrow> uvec3 \<Rightarrow> cube_array_view" where
  "subview v off = \<lparr>vdata = view_addr v off, y_stride = y_stride v, x_stride = x_stride v\<rparr>"

text \<open>\<open>std::fill_n\<close>.\<close>

fun fill_n :: "nat \<Rightarrow> 'a \<Rightarrow> nat \<Rightarrow> 'a list \<Rightarrow> 'a list" where
  "fill_n 0 val p mem = mem"
| "fill_n (Suc n) val p mem = fill_n n val (p + 1) (mem[p := val])"

definition view_fill :: "nat \<Rightarrow> cube_array_view \<Rightarrow> 'a \<Rightarrow> 'a list \<Rightarrow> 'a list" where
  "view_fill N v val =
     fold (\<lambda>y. fold (\<lambda>x. fill_n N val (vdata v + y * y_stride v + x * x_stride v)) [0..<N]) [0..<N]"

definition view_fill_box :: "cube_array_view \<Rightarrow> uvec3 \<Rightarrow> uvec3 \<Rightarrow> 'a \<Rightarrow> 'a list \<Rightarrow> 'a list" where
  "view_fill_box v low extent val =
     fold (\<lambda>y. fold (\<lambda>x. fill_n (vz extent) val (vdata v + y * y_stride v + x * x_stride v + vz low))
       [vx low..<vx low + vx extent]) [vy low..<vy low + vy extent]"

text \<open>\<open>for y, for x, for z\<close>, each below \<open>N\<close>.\<close>

definition for_cube :: "nat \<Rightarrow> (uvec3 \<Rightarrow> 's \<Rightarrow> 's) \<Rightarrow> 's \<Rightarrow> 's" where
  "for_cube N f = fold (\<lambda>y. fold (\<lambda>x. fold (\<lambda>z. f (UVec3 x y z)) [0..<N]) [0..<N]) [0..<N]"

definition view_fillFrom :: "nat \<Rightarrow> cube_array_view \<Rightarrow> cube_array_view \<Rightarrow> 'a list \<Rightarrow> 'a list \<Rightarrow> 'a list" where
  "view_fillFrom N v in_view in_mem = for_cube N (\<lambda>c. view_store v c (view_load in_view in_mem c))"

section \<open>Arrays\<close>

definition cube_view_at :: "nat \<Rightarrow> uvec3 \<Rightarrow> cube_array_view" where
  "cube_view_at N off = \<lparr>vdata = vy off * (N * N) + vx off * N + vz off, y_stride = N * N, x_stride = N\<rparr>"

definition cube_view :: "nat \<Rightarrow> cube_array_view" where
  "cube_view N = cube_view_at N (UVec3 0 0 0)"

definition cube_load :: "nat \<Rightarrow> 'a list \<Rightarrow> uvec3 \<Rightarrow> 'a" where
  "cube_load N cube c = cube ! (vy c * (N * N) + vx c * N + vz c)"

definition cube_store :: "nat \<Rightarrow> uvec3 \<Rightarrow> 'a \<Rightarrow> 'a list \<Rightarrow> 'a list" where
  "cube_store N c val cube = cube[vy c * (N * N) + vx c * N + vz c := val]"

definition cube_fill :: "nat \<Rightarrow> 'a \<Rightarrow> 'a list \<Rightarrow> 'a list" where
  "cube_fill N val = fill_n (N * N * N) val 0"

definition cube_fill_box :: "nat \<Rightarrow> uvec3 \<Rightarrow> uvec3 \<Rightarrow> 'a \<Rightarrow> 'a list \<Rightarrow> 'a list" where
  "cube_fill_box N low extent val =
     fold (\<lambda>y. fold (\<lambda>x. fill_n (vz extent) val (y * (N * N) + x * N + vz low))
       [vx low..<vx low + vx extent]) [vy low..<vy low + vy extent]"

definition cube_extractTo :: "nat \<Rightarrow> nat \<Rightarrow> uvec3 \<Rightarrow> 'a list \<Rightarrow> 'a list \<Rightarrow> 'a list" where
  "cube_extractTo N M base cube = for_cube M (\<lambda>c. cube_store M c (cube_load N cube (add3 base c)))"

definition cube_insertFrom :: "nat \<Rightarrow> nat \<Rightarrow> uvec3 \<Rightarrow> 'a list \<Rightarrow> 'a list \<Rightarrow> 'a list" where
  "cube_insertFrom N M base input = for_cube M (\<lambda>c. cube_store N (add3 base c) (cube_load M input c))"

definition view_extractTo :: "nat \<Rightarrow> cube_array_view \<Rightarrow> 'a list \<Rightarrow> uvec3 \<Rightarrow> 'a list \<Rightarrow> 'a list" where
  "view_extractTo M v mem base = for_cube M (\<lambda>c. cube_store M c (view_load v mem (add3 base c)))"

section \<open>What is written\<close>

text \<open>An operation on a view changes exactly the elements at the positions \<open>C\<close>, to \<open>f\<close>.\<close>

definition writes :: "cube_array_view \<Rightarrow> uvec3 set \<Rightarrow> (uvec3 \<Rightarrow> 'a) \<Rightarrow> 'a list \<Rightarrow> 'a list \<Rightarrow> bool" where
  "writes v C f mem mem' \<longleftrightarrow> length mem' = length mem \<and> (\<forall>c\<in>C. mem' ! view_addr v c = f c)
     \<and> (\<forall>k. k \<notin> view_addr v ` C \<longrightarrow> mem' ! k = mem ! k)"

definition box :: "uvec3 \<Rightarrow> nat \<Rightarrow> uvec3 set" where
  "box off N = {c. vx off \<le> vx c \<and> vx c < vx off + N \<and> vy off \<le> vy c \<and> vy c < vy off + N \<and> vz off \<le> vz c \<and> vz c < vz off + N}"

abbreviation cube :: "nat \<Rightarrow> uvec3 set" where "cube N \<equiv> box (UVec3 0 0 0) N"

text \<open>The rows of a view do not overlap and lie in memory.\<close>

definition view_ok :: "nat \<Rightarrow> cube_array_view \<Rightarrow> 'a list \<Rightarrow> bool" where
  "view_ok N v mem \<longleftrightarrow> N \<le> x_stride v \<and> N * x_stride v \<le> y_stride v \<and> (\<forall>c\<in>cube N. view_addr v c < length mem)"

lemma add3_simps [simp]: "vx (add3 a b) = vx a + vx b" "vy (add3 a b) = vy a + vy b" "vz (add3 a b) = vz a + vz b"
  by (simp_all add: add3_def)

lemma view_addr_inj:
  assumes s: "N \<le> x_stride v" "N * x_stride v \<le> y_stride v" and c: "c \<in> cube N" "d \<in> cube N"
    and eq: "view_addr v c = view_addr v d"
  shows "c = d"
proof -
  have row: "vx e * x_stride v + vz e < y_stride v" if "e \<in> cube N" for e
  proof -
    have "vx e + 1 \<le> N" "vz e < x_stride v" using that s(1) by (auto simp: box_def)
    then have "vx e * x_stride v + vz e < (vx e + 1) * x_stride v" by simp
    also have "\<dots> \<le> N * x_stride v" using \<open>vx e + 1 \<le> N\<close> by (rule mult_le_mono1)
    finally show ?thesis using s(2) by simp
  qed
  have e: "vy c * y_stride v + (vx c * x_stride v + vz c) = vy d * y_stride v + (vx d * x_stride v + vz d)"
    using eq by (simp add: view_addr_def)
  have y: "vy c = vy d" "vx c * x_stride v + vz c = vx d * x_stride v + vz d"
    using row [OF c(1)] row [OF c(2)] arg_cong [OF e, of "\<lambda>n. n div y_stride v"] arg_cong [OF e, of "\<lambda>n. n mod y_stride v"]
    by simp_all
  have z: "vz c < x_stride v" "vz d < x_stride v" using c s(1) by (auto simp: box_def)
  have "vx c = vx d" "vz c = vz d"
    using z arg_cong [OF y(2), of "\<lambda>n. n div x_stride v"] arg_cong [OF y(2), of "\<lambda>n. n mod x_stride v"] by simp_all
  with y(1) show ?thesis by (cases c; cases d) simp
qed

lemma view_ok_inj: "view_ok N v mem \<Longrightarrow> inj_on (view_addr v) (cube N)"
  unfolding inj_on_def view_ok_def using view_addr_inj by blast

lemma writes_nothing: "writes v {} f mem mem"
  by (simp add: writes_def)

lemma writes_store: "view_addr v c < length mem \<Longrightarrow> writes v {c} f mem (view_store v c (f c) mem)"
  by (auto simp: writes_def view_store_def)

lemma writes_cong: "writes v C g mem mem' \<Longrightarrow> (\<And>c. c \<in> C \<Longrightarrow> g c = f c) \<Longrightarrow> writes v C f mem mem'"
  by (simp add: writes_def)

lemma writes_then:
  assumes "writes v C f mem mem1" "writes v D f mem1 mem2" and inj: "inj_on (view_addr v) (C \<union> D)"
  shows "writes v (C \<union> D) f mem mem2"
proof -
  have "mem2 ! view_addr v c = f c" if c: "c \<in> C" for c
  proof (cases "view_addr v c \<in> view_addr v ` D")
    case True
    then obtain d where "d \<in> D" "view_addr v c = view_addr v d" by blast
    moreover from this have "c = d" using inj_onD [OF inj] c by blast
    ultimately show ?thesis using assms(2) by (simp add: writes_def)
  next
    case False
    then show ?thesis using assms(1,2) c by (simp add: writes_def)
  qed
  moreover have "mem2 ! k = mem ! k" if "k \<notin> view_addr v ` (C \<union> D)" for k
    using that assms(1,2) unfolding writes_def image_Un by (metis UnI1 UnI2)
  ultimately show ?thesis using assms(1,2) unfolding writes_def by (metis Un_iff)
qed

lemma writes_fold:
  "(\<And>i mem'. i \<in> set is \<Longrightarrow> length mem' = length mem \<Longrightarrow> writes v (C i) f mem' (step i mem')) \<Longrightarrow>
     inj_on (view_addr v) (\<Union>i\<in>set is. C i) \<Longrightarrow> writes v (\<Union>i\<in>set is. C i) f mem (fold step is mem)"
proof (induction "is" arbitrary: mem)
  case (Cons i "is")
  have 1: "writes v (C i) f mem (step i mem)" using Cons.prems(1) by simp
  then have l: "length (step i mem) = length mem" by (simp add: writes_def)
  have "writes v (\<Union>i\<in>set is. C i) f (step i mem) (fold step is (step i mem))"
    by (rule Cons.IH) (use Cons.prems l in \<open>auto intro: inj_on_subset\<close>)
  from writes_then [OF 1 this] Cons.prems(2) show ?case by simp
qed (simp add: writes_nothing)

lemma writes_for_cube:
  assumes "\<And>c mem'. c \<in> cube N \<Longrightarrow> length mem' = length mem \<Longrightarrow> writes v (C c) f mem' (step c mem')"
    and inj: "inj_on (view_addr v) (\<Union>c\<in>cube N. C c)"
  shows "writes v (\<Union>c\<in>cube N. C c) f mem (for_cube N step mem)"
proof -
  have sub: "inj_on (view_addr v) A" if "A \<subseteq> (\<Union>c\<in>cube N. C c)" for A by (rule inj_on_subset [OF inj that])
  have m: "UVec3 x y z \<in> cube N" if "x < N" "y < N" "z < N" for x y z using that by (simp add: box_def)
  have z: "writes v (\<Union>z\<in>set [0..<N]. C (UVec3 x y z)) f m (fold (\<lambda>z. step (UVec3 x y z)) [0..<N] m)"
    if "x < N" "y < N" "length m = length mem" for x y m
    using that m by (intro writes_fold sub assms(1) UN_least UN_upper) simp_all
  have x: "writes v (\<Union>x\<in>set [0..<N]. \<Union>z\<in>set [0..<N]. C (UVec3 x y z)) f m
      (fold (\<lambda>x. fold (\<lambda>z. step (UVec3 x y z)) [0..<N]) [0..<N] m)"
    if "y < N" "length m = length mem" for y m
    using that m by (intro writes_fold sub z UN_least UN_upper) simp_all
  have "writes v (\<Union>y\<in>set [0..<N]. \<Union>x\<in>set [0..<N]. \<Union>z\<in>set [0..<N]. C (UVec3 x y z)) f mem (for_cube N step mem)"
    unfolding for_cube_def using m by (intro writes_fold sub x UN_least UN_upper) simp_all
  moreover have "(\<Union>y\<in>set [0..<N]. \<Union>x\<in>set [0..<N]. \<Union>z\<in>set [0..<N]. C (UVec3 x y z)) = (\<Union>c\<in>cube N. C c)"
  proof -
    have "c \<in> cube N \<Longrightarrow> \<exists>x y z. x < N \<and> y < N \<and> z < N \<and> c = UVec3 x y z" for c by (cases c) (auto simp: box_def)
    then show ?thesis by (fastforce simp: box_def)
  qed
  ultimately show ?thesis by simp
qed

lemma length_fill_n [simp]: "length (fill_n n val p mem) = length mem"
  by (induction n val p mem rule: fill_n.induct) simp_all

lemma nth_fill_n: "p + n \<le> length mem \<Longrightarrow> fill_n n val p mem ! k = (if p \<le> k \<and> k < p + n then val else mem ! k)"
  by (induction n val p mem rule: fill_n.induct) (auto simp: nth_list_update)

text \<open>A part of a view, seen from the whole.\<close>

lemma view_addr_subview: "view_addr (subview v off) c = view_addr v (add3 off c)"
  by (simp add: view_addr_def subview_def algebra_simps)

lemma box_add3: "box off M = add3 off ` cube M"
proof -
  have "c \<in> add3 off ` cube M" if "c \<in> box off M" for c
    using that by (intro image_eqI [of _ _ "UVec3 (vx c - vx off) (vy c - vy off) (vz c - vz off)"])
      (cases c, auto simp: box_def add3_def)
  then show ?thesis by (auto simp: box_def)
qed

lemma writes_subview: "writes (subview v off) (cube M) (\<lambda>c. f (add3 off c)) mem mem' \<Longrightarrow> writes v (box off M) f mem mem'"
  unfolding box_add3 [of off M] writes_def by (simp add: image_image view_addr_subview)

lemma view_fill_writes:
  assumes ok: "view_ok N v mem"
  shows "writes v (cube N) (\<lambda>c. val) mem (view_fill N v val mem)"
proof -
  have sub: "inj_on (view_addr v) A" if "A \<subseteq> cube N" for A by (rule inj_on_subset [OF view_ok_inj [OF ok] that])
  define row where "row = (\<lambda>x y. {c \<in> cube N. vx c = x \<and> vy c = y})"
  have row: "writes v (row x y) (\<lambda>c. val) m (fill_n N val (vdata v + y * y_stride v + x * x_stride v) m)"
    if b: "x < N" "y < N" and l: "length m = length mem" for x y m
  proof -
    define p where "p = vdata v + y * y_stride v + x * x_stride v"
    have "view_addr v (UVec3 x y (N - 1)) < length mem" using ok b by (auto simp: view_ok_def box_def)
    then have len: "p + N \<le> length m" using b l by (simp add: view_addr_def p_def)
    have "view_addr v ` row x y = {p..<p + N}"
    proof -
      have "k \<in> view_addr v ` row x y" if "p \<le> k" "k < p + N" for k
        using that b by (intro image_eqI [of _ _ "UVec3 x y (k - p)"]) (auto simp: row_def box_def view_addr_def p_def)
      then show ?thesis by (auto simp: row_def view_addr_def p_def box_def)
    qed
    then show ?thesis unfolding writes_def p_def [symmetric] nth_fill_n [OF len] by auto
  qed
  have "writes v (\<Union>y\<in>set [0..<N]. \<Union>x\<in>set [0..<N]. row x y) (\<lambda>c. val) mem (view_fill N v val mem)"
    unfolding view_fill_def by (intro writes_fold row sub) (auto simp: row_def)
  moreover have "(\<Union>y\<in>set [0..<N]. \<Union>x\<in>set [0..<N]. row x y) = cube N" by (auto simp: row_def box_def)
  ultimately show ?thesis by simp
qed

lemma view_fillFrom_writes:
  assumes ok: "view_ok N v mem"
  shows "writes v (cube N) (view_load in_view in_mem) mem (view_fillFrom N v in_view in_mem mem)"
proof -
  have "writes v (\<Union>c\<in>cube N. {c}) (view_load in_view in_mem) mem (view_fillFrom N v in_view in_mem mem)"
    unfolding view_fillFrom_def using ok view_ok_inj [OF ok]
    by (intro writes_for_cube writes_store) (auto simp: view_ok_def)
  then show ?thesis by simp
qed

lemma view_ok_subview:
  assumes "view_ok N v mem" "box off M \<subseteq> cube N" "M \<le> N"
  shows "view_ok M (subview v off) mem"
proof -
  have s: "x_stride (subview v off) = x_stride v" "y_stride (subview v off) = y_stride v" by (simp_all add: subview_def)
  have "M * x_stride v \<le> N * x_stride v" using assms(3) by (rule mult_le_mono1)
  then have "M * x_stride v \<le> y_stride v" by (rule le_trans) (use assms(1) in \<open>simp add: view_ok_def\<close>)
  moreover have "view_addr v (add3 off c) < length mem" if "c \<in> cube M" for c
  proof -
    have "add3 off c \<in> cube N" using that assms(2) unfolding box_add3 [of off M] by blast
    then show ?thesis using assms(1) by (simp add: view_ok_def)
  qed
  ultimately show ?thesis using assms unfolding view_ok_def s view_addr_subview by auto
qed

lemma view_ok_length: "view_ok N v mem \<Longrightarrow> length mem' = length mem \<Longrightarrow> view_ok N v mem'"
  by (simp add: view_ok_def)

section \<open>Arrays as views\<close>

lemma cube_view_addr: "view_addr (cube_view N) c = vy c * (N * N) + vx c * N + vz c"
  by (simp add: view_addr_def cube_view_def cube_view_at_def)

lemma cube_store_view: "cube_store N c val = view_store (cube_view N) c val"
  by (rule ext) (simp add: cube_store_def view_store_def cube_view_addr)

lemma cube_load_view: "cube_load N = view_load (cube_view N)"
  by (intro ext) (simp add: cube_load_def view_load_def cube_view_addr)

lemma cube_view_ok: "length mem = N * N * N \<Longrightarrow> view_ok N (cube_view N) mem"
proof -
  assume l: "length mem = N * N * N"
  have "vy c * (N * N) + vx c * N + vz c < N * N * N" if "c \<in> cube N" for c
  proof -
    have b: "vx c + 1 \<le> N" "vy c + 1 \<le> N" "vz c < N" using that by (auto simp: box_def)
    have "vx c * N + vz c < (vx c + 1) * N" using b by simp
    also have "\<dots> \<le> N * N" using b(1) by (rule mult_le_mono1)
    finally have "vy c * (N * N) + (vx c * N + vz c) < (vy c + 1) * (N * N)" by simp
    also have "\<dots> \<le> N * (N * N)" using b(2) by (rule mult_le_mono1)
    finally show ?thesis by (simp add: algebra_simps)
  qed
  then show ?thesis using l by (simp add: view_ok_def cube_view_addr) (simp add: cube_view_def cube_view_at_def)
qed

lemma view_extractTo_writes:
  assumes "length out = M * M * M"
  shows "writes (cube_view M) (cube M) (\<lambda>c. view_load v mem (add3 base c)) out (view_extractTo M v mem base out)"
proof -
  note ok = cube_view_ok [OF assms]
  have "writes (cube_view M) (\<Union>c\<in>cube M. {c}) (\<lambda>c. view_load v mem (add3 base c)) out (view_extractTo M v mem base out)"
    unfolding view_extractTo_def cube_store_view using ok view_ok_inj [OF ok]
    by (intro writes_for_cube writes_store [where f = "\<lambda>c. view_load v mem (add3 base c)"]) (auto simp: view_ok_def)
  then show ?thesis by simp
qed

lemma view_load_replicate: "c \<in> cube N \<Longrightarrow> view_load (cube_view N) (replicate (N * N * N) x) c = x"
proof -
  assume "c \<in> cube N"
  moreover have "view_ok N (cube_view N) (replicate (N * N * N) x)" by (rule cube_view_ok) simp
  ultimately have "view_addr (cube_view N) c < N * N * N" by (auto simp: view_ok_def)
  then show ?thesis by (simp add: view_load_def)
qed

lemma cube_insertFrom_writes:
  assumes "length mem = N * N * N" "box base M \<subseteq> cube N"
  shows "\<exists>f. writes (cube_view N) (box base M) f mem (cube_insertFrom N M base input mem)
    \<and> (\<forall>c\<in>cube M. f (add3 base c) = cube_load M input c)"
proof -
  note ok = cube_view_ok [OF assms(1)]
  define f where "f = (\<lambda>c. cube_load M input (UVec3 (vx c - vx base) (vy c - vy base) (vz c - vz base)))"
  have f: "f (add3 base c) = cube_load M input c" for c by (cases c) (simp add: f_def add3_def)
  have b: "(\<Union>c\<in>cube M. {add3 base c}) = box base M" unfolding box_add3 [of base M] by blast
  have "writes (cube_view N) (\<Union>c\<in>cube M. {add3 base c}) f mem (cube_insertFrom N M base input mem)"
    unfolding cube_insertFrom_def cube_store_view
  proof (rule writes_for_cube)
    show "inj_on (view_addr (cube_view N)) (\<Union>c\<in>cube M. {add3 base c})"
      unfolding b by (rule inj_on_subset [OF view_ok_inj [OF ok] assms(2)])
    fix c and mem' :: "'a list" assume c: "c \<in> cube M" and l: "length mem' = length mem"
    have "add3 base c \<in> cube N" using c assms(2) unfolding box_add3 [of base M] by blast
    then have "view_addr (cube_view N) (add3 base c) < length mem'" using ok l by (simp add: view_ok_def)
    from writes_store [OF this, of f] show "writes (cube_view N) {add3 base c} f mem'
        (view_store (cube_view N) (add3 base c) (cube_load M input c) mem')" unfolding f .
  qed
  then show ?thesis unfolding b using f by blast
qed

end
