(* ===== verification/Compressed_Storage.thy ===== *)
theory Compressed_Storage
  imports Cube_Array
begin

text \<open>
  \<open>CompressedChunkStorage<T>\<close> (include/voxen/land/compressed_chunk_storage.hpp and
  src/voxen/land/compressed_chunk_storage.cpp): the 32-cube of a chunk as 64 nodes of side 8, each of
  64 leaves of side 2; zero nodes are not stored, uniform nodes and leaves are one value. The unions
  of the code are the alternatives of the data types. Leaves are one array of values, in which leaf
  \<open>i\<close> is the eight from \<open>8 * i\<close> on, because the code also runs over it value by value. Only zero
  and equality of \<open>T\<close> are used.
\<close>

section \<open>The storage\<close>

datatype 'a cnode = Uniform_Node (uniform_value: 'a)
  | Leaf_Node (nonuniform_leaf_mask: u64) (leaves: "'a list")

datatype 'a storage = Uniform_Chunk 'a
  | Node_Chunk u64 "'a cnode list"

definition node_uniform :: "'a cnode \<Rightarrow> bool" where
  "node_uniform node = (case node of Uniform_Node _ \<Rightarrow> True | Leaf_Node _ _ \<Rightarrow> False)"

definition nodeBaseOffset :: "nat \<Rightarrow> uvec3" where
  "nodeBaseOffset i = UVec3 (push_bit 1 (i AND 12)) (drop_bit 1 (i AND 48)) (push_bit 3 (i AND 3))"

definition leafBaseOffset :: "uvec3 \<Rightarrow> nat \<Rightarrow> uvec3" where
  "leafBaseOffset origin i =
     UVec3 (vx origin + drop_bit 1 (i AND 12)) (vy origin + drop_bit 3 (i AND 48)) (vz origin + push_bit 1 (i AND 3))"

section \<open>Compression\<close>

record 'a leaf_scan =
  leaf_mask :: u64
  node_uniform_value :: 'a
  met_uniform_leaf :: bool
  whole_node_uniform :: bool

definition leaf_uniform :: "'a list \<Rightarrow> bool" where
  "leaf_uniform leaf = list_all (\<lambda>j. leaf ! j = leaf ! 0) [1..<8]"

definition scan_leaf :: "nat \<Rightarrow> 'a list \<Rightarrow> 'a leaf_scan \<Rightarrow> 'a leaf_scan" where
  "scan_leaf i leaf s =
     (if \<not> leaf_uniform leaf then s\<lparr>leaf_mask := leaf_mask s OR onebit i, whole_node_uniform := False\<rparr>
      else if \<not> met_uniform_leaf s then s\<lparr>node_uniform_value := leaf ! 0, met_uniform_leaf := True\<rparr>
      else if node_uniform_value s \<noteq> leaf ! 0 then s\<lparr>whole_node_uniform := False\<rparr>
      else s)"

text \<open>The loop that packs the leaves; \<open>pn\<close> and \<open>pu\<close> are \<open>output_nonuniform\<close> and \<open>output_uniform\<close>.\<close>

definition pack_leaf :: "u64 \<Rightarrow> 'a list list \<Rightarrow> nat \<Rightarrow> 'a list \<times> nat \<times> nat \<Rightarrow> 'a list \<times> nat \<times> nat" where
  "pack_leaf lmask ls i = (\<lambda>(out, pn, pu).
     if lmask AND onebit i \<noteq> 0 then (take (8 * pn) out @ ls ! i @ drop (8 * pn + 8) out, pn + 1, pu)
     else (out[pu := ls ! i ! 0], pn, pu + 1))"

definition gather_leaf :: "cube_array_view \<Rightarrow> 'a::zero list \<Rightarrow> uvec3 \<Rightarrow> nat \<Rightarrow> 'a list" where
  "gather_leaf v mem node_base i = view_extractTo 2 v mem (leafBaseOffset node_base i) (replicate 8 0)"

definition construct_node :: "cube_array_view \<Rightarrow> 'a::zero list \<Rightarrow> nat \<Rightarrow> 'a cnode option" where
  "construct_node v mem index =
     (let ls = map (gather_leaf v mem (nodeBaseOffset index)) [0..<64];
          s = fold (\<lambda>i. scan_leaf i (ls ! i)) [0..<64]
                \<lparr>leaf_mask = 0, node_uniform_value = 0, met_uniform_leaf = False, whole_node_uniform = True\<rparr>
      in if whole_node_uniform s \<and> node_uniform_value s = 0 then None
         else if whole_node_uniform s then Some (Uniform_Node (node_uniform_value s))
         else
           (let num_nonuniform = popcount (leaf_mask s);
                num_uniform = (64 - num_nonuniform + 7) div 8;
                out = replicate (8 * (num_nonuniform + num_uniform)) 0
            in Some (Leaf_Node (leaf_mask s)
                 (fst (fold (pack_leaf (leaf_mask s) ls) [0..<64] (out, 0, 8 * num_nonuniform))))))"

record 'a chunk_scan =
  nonzero_mask :: u64
  used :: "'a cnode list"
  chunk_uniform_value :: 'a
  met_uniform_node :: bool
  whole_chunk_uniform :: bool

definition scan_node :: "(nat \<Rightarrow> 'a::zero cnode option) \<Rightarrow> nat \<Rightarrow> 'a chunk_scan \<Rightarrow> 'a chunk_scan" where
  "scan_node construct i s =
     (case construct i of
        None \<Rightarrow> s\<lparr>met_uniform_node := True,
                 whole_chunk_uniform := (if chunk_uniform_value s \<noteq> 0 then False else whole_chunk_uniform s)\<rparr>
      | Some node \<Rightarrow>
          (let s = (if \<not> node_uniform node then s\<lparr>whole_chunk_uniform := False\<rparr>
                    else if \<not> met_uniform_node s then s\<lparr>chunk_uniform_value := uniform_value node\<rparr>
                    else if chunk_uniform_value s \<noteq> uniform_value node then s\<lparr>whole_chunk_uniform := False\<rparr>
                    else s)
           in s\<lparr>nonzero_mask := nonzero_mask s OR onebit i, used := used s @ [node]\<rparr>))"

definition compress :: "cube_array_view \<Rightarrow> 'a::zero list \<Rightarrow> 'a storage" where
  "compress v mem =
     (let s = fold (scan_node (construct_node v mem)) [0..<64]
                \<lparr>nonzero_mask = 0, used = [], chunk_uniform_value = 0, met_uniform_node = False, whole_chunk_uniform = True\<rparr>
      in if whole_chunk_uniform s then Uniform_Chunk (chunk_uniform_value s)
         else Node_Chunk (nonzero_mask s) (used s))"

section \<open>Reading\<close>

definition node_load :: "'a cnode \<Rightarrow> uvec3 \<Rightarrow> 'a" where
  "node_load node c =
     (case node of
        Uniform_Node x \<Rightarrow> x
      | Leaf_Node lmask ls \<Rightarrow>
          (let leaf_id = vz c mod 8 div 2 + (vx c mod 8 div 2) * 4 + (vy c mod 8 div 2) * 16;
               leaf_bit = onebit leaf_id;
               leaf_tail_mask = leaf_bit - 1
           in if lmask AND leaf_bit \<noteq> 0
              then ls ! (8 * popcount (lmask AND leaf_tail_mask) + (vz c mod 2 + (vx c mod 2) * 2 + (vy c mod 2) * 4))
              else ls ! (8 * popcount lmask + popcount (NOT lmask AND leaf_tail_mask))))"

definition load :: "'a::zero storage \<Rightarrow> uvec3 \<Rightarrow> 'a" where
  "load s c =
     (case s of
        Uniform_Chunk x \<Rightarrow> x
      | Node_Chunk nmask nodes \<Rightarrow>
          (let node_id = vz c div 8 + (vx c div 8) * 4 + (vy c div 8) * 16;
               node_bit = onebit node_id
           in if nmask AND node_bit = 0 then 0
              else node_load (nodes ! popcount (nmask AND (node_bit - 1))) c))"

definition expand_leaf :: "cube_array_view \<Rightarrow> uvec3 \<Rightarrow> u64 \<Rightarrow> 'a list \<Rightarrow> nat \<Rightarrow> 'a list \<times> nat \<times> nat \<Rightarrow> 'a list \<times> nat \<times> nat" where
  "expand_leaf v node_base lmask ls j = (\<lambda>(mem, pn, pu).
     let out_leaf_view = subview v (leafBaseOffset node_base j)
     in if lmask AND onebit j \<noteq> 0
        then (view_fillFrom 2 out_leaf_view (cube_view 2) (take 8 (drop (8 * pn) ls)) mem, pn + 1, pu)
        else (view_fill 2 out_leaf_view (ls ! pu) mem, pn, pu + 1))"

definition expand_node :: "cube_array_view \<Rightarrow> u64 \<Rightarrow> 'a::zero cnode list \<Rightarrow> nat \<Rightarrow> 'a list \<times> nat \<Rightarrow> 'a list \<times> nat" where
  "expand_node v nmask nodes i = (\<lambda>(mem, p).
     let node_base = nodeBaseOffset i;
         out_node_view = subview v node_base
     in if nmask AND onebit i = 0 then (view_fill 8 out_node_view 0 mem, p)
        else case nodes ! p of
          Uniform_Node x \<Rightarrow> (view_fill 8 out_node_view x mem, p + 1)
        | Leaf_Node lmask ls \<Rightarrow>
            (fst (fold (expand_leaf v node_base lmask ls) [0..<64] (mem, 0, 8 * popcount lmask)), p + 1))"

definition expand :: "'a::zero storage \<Rightarrow> cube_array_view \<Rightarrow> 'a list \<Rightarrow> 'a list" where
  "expand s v mem =
     (case s of
        Uniform_Chunk x \<Rightarrow> view_fill 32 v x mem
      | Node_Chunk nmask nodes \<Rightarrow> fst (fold (expand_node v nmask nodes) [0..<64] (mem, 0)))"

section \<open>Copying and moving\<close>

definition setUniform :: "'a \<Rightarrow> 'a storage \<Rightarrow> 'a storage" where
  "setUniform x s = Uniform_Chunk x"

definition move_storage :: "'a::zero storage \<Rightarrow> 'a storage \<times> 'a storage" where
  "move_storage other = (other, Uniform_Chunk 0)"

definition move_assign :: "'a storage \<Rightarrow> 'a storage \<Rightarrow> 'a storage \<times> 'a storage" where
  "move_assign s other = (other, s)"

text \<open>The copy constructor: the copy, and the source as it is left. \<open>std::copy\<close> is called with the fresh
  (zero) leaves as its source range and the leaves of \<open>other\<close> as its target.\<close>

definition copy_chunk_node :: "'a::zero cnode \<Rightarrow> 'a cnode \<times> 'a cnode" where
  "copy_chunk_node other_node =
     (case other_node of
        Uniform_Node x \<Rightarrow> (Uniform_Node x, other_node)
      | Leaf_Node lmask ls \<Rightarrow>
          (let num_leaves = popcount lmask + (64 - popcount lmask + 7) div 8;
               fresh = replicate (8 * num_leaves) 0
           in (Leaf_Node lmask fresh, Leaf_Node lmask (take (8 * num_leaves) fresh @ drop (8 * num_leaves) ls))))"

definition copy_storage :: "'a::zero storage \<Rightarrow> 'a storage \<times> 'a storage" where
  "copy_storage other =
     (case other of
        Uniform_Chunk x \<Rightarrow> (Uniform_Chunk x, other)
      | Node_Chunk nmask nodes \<Rightarrow>
          (let num_nodes = popcount nmask
           in (Node_Chunk nmask (map (\<lambda>i. fst (copy_chunk_node (nodes ! i))) [0..<num_nodes]),
               Node_Chunk nmask (map (\<lambda>i. snd (copy_chunk_node (nodes ! i))) [0..<num_nodes]))))"

definition copy_assign :: "'a::zero storage \<Rightarrow> 'a storage \<Rightarrow> 'a storage \<times> 'a storage" where
  "copy_assign s other = (let (copy, other') = copy_storage other in (fst (move_assign s copy), other'))"

section \<open>Geometry\<close>

lemma nodeBaseOffset_eq: "i < 64 \<Longrightarrow> nodeBaseOffset i = UVec3 (8 * (i div 4 mod 4)) (8 * (i div 16)) (8 * (i mod 4))"
proof -
  have "list_all (\<lambda>i. nodeBaseOffset i = UVec3 (8 * (i div 4 mod 4)) (8 * (i div 16)) (8 * (i mod 4))) [0..<64]"
    by code_simp
  then show "i < 64 \<Longrightarrow> ?thesis" by (simp add: list_all_iff)
qed

lemma leafBaseOffset_eq:
  "i < 64 \<Longrightarrow> leafBaseOffset p i = add3 p (UVec3 (2 * (i div 4 mod 4)) (2 * (i div 16)) (2 * (i mod 4)))"
proof -
  have "list_all (\<lambda>i. drop_bit 1 (i AND 12) = 2 * (i div 4 mod 4) \<and> drop_bit 3 (i AND 48) = 2 * (i div 16)
      \<and> push_bit 1 (i AND 3) = 2 * (i mod 4)) [0..<64 :: nat]"
    by code_simp
  then show "i < 64 \<Longrightarrow> ?thesis" by (simp add: list_all_iff leafBaseOffset_def add3_def)
qed

definition node_id :: "uvec3 \<Rightarrow> nat" where
  "node_id c = vz c div 8 + (vx c div 8) * 4 + (vy c div 8) * 16"

definition leaf_id :: "uvec3 \<Rightarrow> nat" where
  "leaf_id c = vz c mod 8 div 2 + (vx c mod 8 div 2) * 4 + (vy c mod 8 div 2) * 16"

definition element_id :: "uvec3 \<Rightarrow> nat" where
  "element_id c = vz c mod 2 + (vx c mod 2) * 2 + (vy c mod 2) * 4"

definition leaf_pos :: "nat \<Rightarrow> nat \<Rightarrow> uvec3" where
  "leaf_pos i j = leafBaseOffset (nodeBaseOffset i) j"

lemma node_id_less: "c \<in> cube 32 \<Longrightarrow> node_id c < 64"
proof -
  assume c: "c \<in> cube 32"
  then have "vx c div 8 \<le> 3" "vy c div 8 \<le> 3" "vz c div 8 \<le> 3" by (auto simp: box_def)
  then show ?thesis by (simp add: node_id_def)
qed

lemma leaf_id_less: "leaf_id c < 64"
proof -
  have "vx c mod 8 div 2 \<le> 3" "vy c mod 8 div 2 \<le> 3" "vz c mod 8 div 2 \<le> 3" by linarith+
  then show ?thesis by (simp add: leaf_id_def)
qed

lemma element_id_less: "element_id c < 8"
proof -
  have "vx c mod 2 \<le> 1" "vy c mod 2 \<le> 1" "vz c mod 2 \<le> 1" by linarith+
  then show ?thesis by (simp add: element_id_def)
qed

lemma digits4:
  assumes "a < 4" "b < 4" "c < (4 :: nat)"
  shows "(c + b * 4 + a * 16) mod 4 = c" "(c + b * 4 + a * 16) div 4 mod 4 = b" "(c + b * 4 + a * 16) div 16 = a"
proof -
  have e: "c + b * 4 + a * 16 = c + (b + a * 4) * 4" by simp
  show "(c + b * 4 + a * 16) mod 4 = c" unfolding e mod_mult_self1 using assms by simp
  have d: "(c + b * 4 + a * 16) div 4 = b + a * 4" unfolding e using assms by (subst div_mult_self1) simp_all
  show "(c + b * 4 + a * 16) div 4 mod 4 = b" unfolding d using assms by simp
  have "(c + b * 4 + a * 16) div (4 * 4) = a" unfolding div_mult2_eq d using assms by simp
  then show "(c + b * 4 + a * 16) div 16 = a" by simp
qed

lemma undigits4:
  assumes "i < (64 :: nat)"
  obtains a b c where "i = c + b * 4 + a * 16" "a < 4" "b < 4" "c < 4"
proof
  have "i div 16 = i div 4 div 4" by (simp flip: div_mult2_eq)
  then show "i = i mod 4 + i div 4 mod 4 * 4 + i div 16 * 16"
    using mod_mult_div_eq [of i 4] mod_mult_div_eq [of "i div 4" 4] by linarith
qed (use assms in auto)

lemma in_span: "8 * a \<le> v \<and> v < 8 * a + 8 \<longleftrightarrow> v div 8 = (a :: nat)"
  by auto

lemma in_leaf_span: "b < 4 \<Longrightarrow> 8 * a + 2 * b \<le> v \<and> v < 8 * a + 2 * b + 2 \<longleftrightarrow> v div 8 = a \<and> v mod 8 div 2 = (b :: nat)"
proof -
  assume b: "b < 4"
  have v: "v = 8 * (v div 8) + (2 * (v mod 8 div 2) + v mod 8 mod 2)" by simp
  define q r e where "q = v div 8" and "r = v mod 8 div 2" and "e = v mod 8 mod 2"
  have b': "r < 4" "e < 2" "v = 8 * q + (2 * r + e)" using v by (auto simp: q_def r_def e_def)
  have h: "2 * m \<le> 2 * n + e \<and> 2 * n + e < 2 * m + 2 \<longleftrightarrow> n = m" for m n :: nat using b'(2) by auto
  have "8 * a + 2 * b \<le> v \<and> v < 8 * a + 2 * b + 2 \<longleftrightarrow> 4 * q + r = 4 * a + b"
    using h [of "4 * a + b" "4 * q + r"] unfolding b'(3) by (simp add: algebra_simps)
  also have "\<dots> \<longleftrightarrow> q = a \<and> r = b" using b b'(1) by presburger
  finally have "8 * a + 2 * b \<le> v \<and> v < 8 * a + 2 * b + 2 \<longleftrightarrow> q = a \<and> r = b" .
  then show ?thesis by (simp add: q_def r_def)
qed

lemma digits4_eq:
  assumes "a < 4" "b < 4" "c < (4 :: nat)" "a' < 4" "b' < 4" "c' < (4 :: nat)"
  shows "c + b * 4 + a * 16 = c' + b' * 4 + a' * 16 \<longleftrightarrow> a = a' \<and> b = b' \<and> c = c'"
  using digits4 [OF assms(1-3)] digits4 [OF assms(4-6)] by metis

lemma cube_32: "c \<in> cube 32 \<longleftrightarrow> vx c div 8 < 4 \<and> vy c div 8 < 4 \<and> vz c div 8 < 4"
  by (auto simp: box_def)

text \<open>The nodes tile the chunk, and the leaves tile a node.\<close>

lemma node_box: "i < 64 \<Longrightarrow> c \<in> box (nodeBaseOffset i) 8 \<longleftrightarrow> c \<in> cube 32 \<and> node_id c = i"
proof -
  assume i: "i < 64"
  from undigits4 [OF i] obtain y x z where yxz: "i = z + x * 4 + y * 16" "y < 4" "x < 4" "z < 4" .
  have "c \<in> box (nodeBaseOffset i) 8 \<longleftrightarrow> vx c div 8 = x \<and> vy c div 8 = y \<and> vz c div 8 = z"
    unfolding nodeBaseOffset_eq [OF i] unfolding yxz(1) digits4 [OF yxz(2,3,4)] box_def
    using in_span [of x "vx c"] in_span [of y "vy c"] in_span [of z "vz c"] by auto
  also have "\<dots> \<longleftrightarrow> c \<in> cube 32 \<and> node_id c = i"
    unfolding node_id_def yxz(1) cube_32 using digits4_eq [OF _ _ _ yxz(2,3,4)] yxz(2,3,4) by auto
  finally show ?thesis .
qed

lemma leaf_box: "i < 64 \<Longrightarrow> j < 64 \<Longrightarrow> c \<in> box (leaf_pos i j) 2 \<longleftrightarrow> c \<in> cube 32 \<and> node_id c = i \<and> leaf_id c = j"
proof -
  assume i: "i < 64" and j: "j < 64"
  from undigits4 [OF j] obtain y x z where yxz: "j = z + x * 4 + y * 16" "y < 4" "x < 4" "z < 4" .
  obtain y' x' z' where n: "nodeBaseOffset i = UVec3 (8 * x') (8 * y') (8 * z')" by (simp add: nodeBaseOffset_eq [OF i])
  have l: "leaf_pos i j = UVec3 (8 * x' + 2 * x) (8 * y' + 2 * y) (8 * z' + 2 * z)"
    unfolding leaf_pos_def leafBaseOffset_eq [OF j] n unfolding yxz(1) digits4 [OF yxz(2,3,4)] by (simp add: add3_def)
  have "c \<in> box (leaf_pos i j) 2 \<longleftrightarrow> c \<in> box (nodeBaseOffset i) 8 \<and> vx c mod 8 div 2 = x \<and> vy c mod 8 div 2 = y \<and> vz c mod 8 div 2 = z"
    unfolding l n box_def using in_leaf_span [OF yxz(3), of x' "vx c"] in_leaf_span [OF yxz(2), of y' "vy c"]
      in_leaf_span [OF yxz(4), of z' "vz c"] in_span [of x' "vx c"] in_span [of y' "vy c"] in_span [of z' "vz c"] by auto
  also have "\<dots> \<longleftrightarrow> c \<in> box (nodeBaseOffset i) 8 \<and> leaf_id c = j"
  proof -
    have "vx c mod 8 div 2 < 4" "vy c mod 8 div 2 < 4" "vz c mod 8 div 2 < 4" by linarith+
    from digits4_eq [OF this(2,1,3) yxz(2,3,4)] show ?thesis unfolding leaf_id_def yxz(1) by blast
  qed
  finally show ?thesis unfolding node_box [OF i] by blast
qed

lemma leaf_element:
  assumes "c \<in> cube 32"
  shows "add3 (leaf_pos (node_id c) (leaf_id c)) (UVec3 (vx c mod 2) (vy c mod 2) (vz c mod 2)) = c"
proof -
  have i: "node_id c < 64" using assms by (rule node_id_less)
  have "c \<in> box (leaf_pos (node_id c) (leaf_id c)) 2" using leaf_box [OF i leaf_id_less] assms by blast
  moreover have "even (vx (leaf_pos (node_id c) (leaf_id c)))" "even (vy (leaf_pos (node_id c) (leaf_id c)))"
      "even (vz (leaf_pos (node_id c) (leaf_id c)))"
    by (simp_all add: leaf_pos_def leafBaseOffset_eq [OF leaf_id_less] nodeBaseOffset_eq [OF i])
  moreover have "even a \<Longrightarrow> a \<le> v \<Longrightarrow> v < a + 2 \<Longrightarrow> a + v mod 2 = v" for a v :: nat by presburger
  ultimately show ?thesis by (cases c) (simp add: box_def add3_def)
qed

section \<open>What compression gathers\<close>

abbreviation leaf_at :: "cube_array_view \<Rightarrow> 'a::zero list \<Rightarrow> nat \<Rightarrow> nat \<Rightarrow> 'a list" where
  "leaf_at v mem i j \<equiv> gather_leaf v mem (nodeBaseOffset i) j"

lemma length_gather_leaf [simp]: "length (gather_leaf v mem p j) = 8"
proof -
  have "writes (cube_view 2) (cube 2) (\<lambda>c. view_load v mem (add3 (leafBaseOffset p j) c)) (replicate 8 0) (gather_leaf v mem p j)"
    unfolding gather_leaf_def by (rule view_extractTo_writes) simp
  then show ?thesis by (simp add: writes_def)
qed

lemma gather_leaf_nth:
  "x < 2 \<Longrightarrow> y < 2 \<Longrightarrow> z < 2 \<Longrightarrow> leaf_at v mem i j ! (z + x * 2 + y * 4) = view_load v mem (add3 (leaf_pos i j) (UVec3 x y z))"
proof -
  assume b: "x < 2" "y < 2" "z < 2"
  then have "UVec3 x y z \<in> cube 2" by (simp add: box_def)
  moreover have "writes (cube_view 2) (cube 2) (\<lambda>c. view_load v mem (add3 (leaf_pos i j) c)) (replicate 8 0) (leaf_at v mem i j)"
    unfolding gather_leaf_def leaf_pos_def by (rule view_extractTo_writes) simp
  ultimately have "leaf_at v mem i j ! view_addr (cube_view 2) (UVec3 x y z) = view_load v mem (add3 (leaf_pos i j) (UVec3 x y z))"
    by (simp add: writes_def)
  then show ?thesis by (simp add: cube_view_addr algebra_simps)
qed

lemma gather_leaf_element: "c \<in> cube 32 \<Longrightarrow> leaf_at v mem (node_id c) (leaf_id c) ! element_id c = view_load v mem c"
proof -
  assume c: "c \<in> cube 32"
  have "vx c mod 2 < 2" "vy c mod 2 < 2" "vz c mod 2 < 2" by simp_all
  from gather_leaf_nth [OF this, of v mem "node_id c" "leaf_id c"] show ?thesis
    unfolding leaf_element [OF c] by (simp only: element_id_def)
qed

lemma gather_leaf_set:
  assumes i: "i < 64" and j: "j < 64"
  shows "set (leaf_at v mem i j) = view_load v mem ` {c \<in> cube 32. node_id c = i \<and> leaf_id c = j}"
proof -
  have "leaf_at v mem i j ! k \<in> view_load v mem ` {c \<in> cube 32. node_id c = i \<and> leaf_id c = j}" if k: "k < 8" for k
  proof -
    define x y z where "x = k div 2 mod 2" and "y = k div 4" and "z = k mod 2"
    have b: "x < 2" "y < 2" "z < 2" using k by (auto simp: x_def y_def z_def)
    have "k div 4 = k div 2 div 2" by (simp flip: div_mult2_eq)
    then have e: "k = z + x * 2 + y * 4"
      using mod_mult_div_eq [of k 2] mod_mult_div_eq [of "k div 2" 2] unfolding x_def y_def z_def by linarith
    have "add3 (leaf_pos i j) (UVec3 x y z) \<in> box (leaf_pos i j) 2" using b by (simp add: box_def)
    then show ?thesis unfolding e gather_leaf_nth [OF b] using leaf_box [OF i j] by blast
  qed
  moreover have "view_load v mem c \<in> set (leaf_at v mem i j)" if "c \<in> cube 32" "node_id c = i" "leaf_id c = j" for c
    using gather_leaf_element [OF that(1), of v mem] that(2,3) element_id_less [of c]
    by (metis length_gather_leaf nth_mem)
  ultimately show ?thesis by (auto simp: in_set_conv_nth)
qed

lemma leaf_uniform_iff: "length leaf = 8 \<Longrightarrow> leaf_uniform leaf \<and> leaf ! 0 = x \<longleftrightarrow> set leaf = {x}"
proof -
  assume l: "length leaf = 8"
  have "{..<8} = insert 0 {1..<8 :: nat}" by auto
  then have "leaf_uniform leaf \<longleftrightarrow> (\<forall>j\<in>{..<8}. leaf ! j = leaf ! 0)"
    by (simp add: leaf_uniform_def list_all_iff)
  with l have "leaf_uniform leaf \<and> leaf ! 0 = x \<longleftrightarrow> (\<forall>y\<in>set leaf. y = x)"
    by (auto simp: all_set_conv_all_nth)
  also have "\<dots> \<longleftrightarrow> set leaf = {x}" using l by (cases leaf) auto
  finally show ?thesis .
qed

section \<open>The scan of a node\<close>

abbreviation scan_start :: "'a::zero leaf_scan" where
  "scan_start \<equiv> \<lparr>leaf_mask = 0, node_uniform_value = 0, met_uniform_leaf = False, whole_node_uniform = True\<rparr>"

abbreviation scan_to :: "'a::zero list list \<Rightarrow> nat \<Rightarrow> 'a leaf_scan" where
  "scan_to ls n \<equiv> fold (\<lambda>i. scan_leaf i (ls ! i)) [0..<n] scan_start"

lemma scan_leaf_simps [simp]:
  "leaf_mask (scan_leaf i l s) = (if leaf_uniform l then leaf_mask s else leaf_mask s OR onebit i)"
  "met_uniform_leaf (scan_leaf i l s) \<longleftrightarrow> met_uniform_leaf s \<or> leaf_uniform l"
  "whole_node_uniform (scan_leaf i l s) \<longleftrightarrow> whole_node_uniform s \<and> leaf_uniform l \<and> (met_uniform_leaf s \<longrightarrow> node_uniform_value s = l ! 0)"
  "node_uniform_value (scan_leaf i l s) = (if leaf_uniform l \<and> \<not> met_uniform_leaf s then l ! 0 else node_uniform_value s)"
  by (auto simp: scan_leaf_def)

lemma scan_mask: "n \<le> 64 \<Longrightarrow> bit (leaf_mask (scan_to ls n)) i \<longleftrightarrow> i < n \<and> \<not> leaf_uniform (ls ! i)"
  by (induction n) (auto simp: bit_simps less_Suc_eq)

lemma scan_met: "met_uniform_leaf (scan_to ls n) \<longleftrightarrow> (\<exists>i<n. leaf_uniform (ls ! i))"
  by (induction n) (auto simp: less_Suc_eq)

lemma scan_whole:
  "whole_node_uniform (scan_to ls n) \<Longrightarrow> i < n \<Longrightarrow> leaf_uniform (ls ! i) \<and> ls ! i ! 0 = node_uniform_value (scan_to ls n)"
proof (induction n arbitrary: i)
  case (Suc n)
  have w: "whole_node_uniform (scan_to ls n)" using Suc.prems(1) by (auto simp: split: if_splits)
  show ?case
  proof (cases "met_uniform_leaf (scan_to ls n)")
    case True
    then show ?thesis using Suc.IH [OF w, of i] Suc.prems by (auto simp: less_Suc_eq split: if_splits)
  next
    case False
    then have "n = 0" using Suc.IH [OF w, of 0] unfolding scan_met by (cases n) auto
    then show ?thesis using Suc.prems by (auto simp: split: if_splits)
  qed
qed simp

lemma scan_uniform:
  "\<forall>i<n. leaf_uniform (ls ! i) \<and> ls ! i ! 0 = x \<Longrightarrow> 0 < n \<Longrightarrow> whole_node_uniform (scan_to ls n) \<and> node_uniform_value (scan_to ls n) = x"
proof (induction n)
  case (Suc n)
  show ?case
  proof (cases "n = 0")
    case True
    then show ?thesis using Suc.prems by simp
  next
    case False
    then have "whole_node_uniform (scan_to ls n) \<and> node_uniform_value (scan_to ls n) = x" "met_uniform_leaf (scan_to ls n)"
      using Suc unfolding scan_met by auto
    then show ?thesis using Suc.prems by simp
  qed
qed simp

section \<open>The packed leaves\<close>

lemma nth_splice:
  "a + length xs \<le> length out \<Longrightarrow> k < length out \<Longrightarrow>
     (take a out @ xs @ drop (a + length xs) out) ! k = (if a \<le> k \<and> k < a + length xs then xs ! (k - a) else out ! k)"
  by (auto simp: nth_append)

lemma rank_not: "n \<le> 64 \<Longrightarrow> rank (w :: u64) n + rank (NOT w) n = n"
  by (induction n) (auto simp: rank_Suc bit_simps)

lemma popcount_not: "popcount (NOT (w :: u64)) = 64 - popcount w"
  using rank_not [of 64 w] rank_length [of w] rank_length [of "NOT w"] by simp

definition packed_leaves :: "u64 \<Rightarrow> 'a list list \<Rightarrow> nat \<Rightarrow> 'a list \<Rightarrow> bool" where
  "packed_leaves w ls n out \<longleftrightarrow> length out = 8 * (popcount w + (64 - popcount w + 7) div 8)
     \<and> (\<forall>i<n. if bit w i then \<forall>k<8. out ! (8 * rank w i + k) = ls ! i ! k
              else out ! (8 * popcount w + rank (NOT w) i) = ls ! i ! 0)"

lemma pack_ok:
  fixes w :: u64
  assumes len: "\<forall>i<64. length (ls ! i) = 8" and o: "length out = 8 * (popcount w + (64 - popcount w + 7) div 8)"
  shows "n \<le> 64 \<Longrightarrow> \<exists>out'. fold (pack_leaf w ls) [0..<n] (out, 0, 8 * popcount w)
      = (out', rank w n, 8 * popcount w + rank (NOT w) n) \<and> packed_leaves w ls n out'"
proof (induction n)
  case 0
  then show ?case using o by (simp add: packed_leaves_def)
next
  case (Suc n)
  then obtain out1 where f: "fold (pack_leaf w ls) [0..<n] (out, 0, 8 * popcount w) = (out1, rank w n, 8 * popcount w + rank (NOT w) n)"
    and p: "packed_leaves w ls n out1" by auto
  have n: "n < 64" using Suc.prems by simp
  have l1: "length out1 = 8 * (popcount w + (64 - popcount w + 7) div 8)" using p by (simp add: packed_leaves_def)
  have r64: "popcount w \<le> 64" using popcount_le [of w] by simp
  have ceil: "64 - popcount w \<le> 8 * ((64 - popcount w + 7) div 8)" by presburger
  have step: "fold (pack_leaf w ls) [0..<Suc n] (out, 0, 8 * popcount w)
      = pack_leaf w ls n (out1, rank w n, 8 * popcount w + rank (NOT w) n)" using f by simp
  show ?case
  proof (cases "bit w n")
    case True
    have lt: "rank w n < popcount w" using rank_less_popcount [OF True] .
    have ln: "length (ls ! n) = 8" using len n by simp
    define out2 where "out2 = take (8 * rank w n) out1 @ ls ! n @ drop (8 * rank w n + 8) out1"
    have nth: "out2 ! k = (if 8 * rank w n \<le> k \<and> k < 8 * rank w n + 8 then ls ! n ! (k - 8 * rank w n) else out1 ! k)"
      if "k < length out1" for k
      using nth_splice [of "8 * rank w n" "ls ! n" out1 k] that lt l1 ln unfolding out2_def by simp
    have l2: "length out2 = length out1" using lt l1 ln by (simp add: out2_def)
    have "packed_leaves w ls (Suc n) out2" unfolding packed_leaves_def
    proof (intro conjI allI impI)
      show "length out2 = 8 * (popcount w + (64 - popcount w + 7) div 8)" using l2 l1 by simp
      fix i assume i: "i < Suc n"
      show "if bit w i then \<forall>k<8. out2 ! (8 * rank w i + k) = ls ! i ! k
          else out2 ! (8 * popcount w + rank (NOT w) i) = ls ! i ! 0"
      proof (cases "bit w i")
        case b: True
        have "out2 ! (8 * rank w i + k) = ls ! i ! k" if k: "k < 8" for k
        proof -
          have "8 * rank w i + k < length out1" using rank_less_popcount [OF b] k l1 by simp
          moreover have "rank w i < rank w n" if "i \<noteq> n" using rank_less [OF b] that i by simp
          ultimately show ?thesis using nth k p b i unfolding packed_leaves_def by (cases "i = n") auto
        qed
        then show ?thesis using b by simp
      next
        case b: False
        then have "i < n" using True i less_SucE by blast
        moreover have "rank (NOT w) i < 64 - popcount w"
          using rank_less_popcount [of "NOT w" i] b n i by (simp add: popcount_not bit_simps)
        then have "8 * popcount w + rank (NOT w) i < length out1" using l1 ceil by simp
        ultimately show ?thesis using nth lt p b unfolding packed_leaves_def by auto
      qed
    qed
    then show ?thesis unfolding step using True by (simp add: pack_leaf_def and_onebit_zero rank_Suc bit_simps out2_def)
  next
    case False
    have lt: "rank (NOT w) n < 64 - popcount w"
      using rank_less_popcount [of "NOT w" n] False n by (simp add: popcount_not bit_simps)
    define out2 where "out2 = out1[8 * popcount w + rank (NOT w) n := ls ! n ! 0]"
    have "packed_leaves w ls (Suc n) out2" unfolding packed_leaves_def
    proof (intro conjI allI impI)
      show "length out2 = 8 * (popcount w + (64 - popcount w + 7) div 8)" using l1 by (simp add: out2_def)
      fix i assume i: "i < Suc n"
      show "if bit w i then \<forall>k<8. out2 ! (8 * rank w i + k) = ls ! i ! k
          else out2 ! (8 * popcount w + rank (NOT w) i) = ls ! i ! 0"
      proof (cases "bit w i")
        case b: True
        then have "i < n" using False i less_SucE by blast
        moreover have "out2 ! (8 * rank w i + k) = out1 ! (8 * rank w i + k)" if "k < 8" for k
          using rank_less_popcount [OF b] that unfolding out2_def by (intro nth_list_update_neq) simp
        ultimately show ?thesis using p b unfolding packed_leaves_def by auto
      next
        case b: False
        show ?thesis
        proof (cases "i = n")
          case True
          have "8 * popcount w + rank (NOT w) n < length out1" using l1 ceil lt by simp
          then show ?thesis using True False by (simp add: out2_def)
        next
          case ne: False
          then have "rank (NOT w) i < rank (NOT w) n" using i b n by (intro rank_less) (auto simp: bit_simps)
          then show ?thesis using ne i b p unfolding packed_leaves_def out2_def by (auto simp: nth_list_update)
        qed
      qed
    qed
    then show ?thesis unfolding step using False n by (simp add: pack_leaf_def and_onebit_zero rank_Suc bit_simps out2_def)
  qed
qed

section \<open>The result of a node\<close>

text \<open>All values of node \<open>i\<close> are \<open>x\<close>.\<close>

definition node_all :: "cube_array_view \<Rightarrow> 'a list \<Rightarrow> nat \<Rightarrow> 'a \<Rightarrow> bool" where
  "node_all v mem i x \<longleftrightarrow> (\<forall>c\<in>cube 32. node_id c = i \<longrightarrow> view_load v mem c = x)"

lemma some_element:
  assumes "i < 64" "j < 64"
  shows "\<exists>c\<in>cube 32. node_id c = i \<and> leaf_id c = j"
proof -
  have "leaf_pos i j \<in> box (leaf_pos i j) 2" by (simp add: box_def)
  then show ?thesis using leaf_box [OF assms] by blast
qed

lemma node_all_leaves:
  assumes i: "i < 64"
  shows "node_all v mem i x \<longleftrightarrow> (\<forall>j<64. leaf_uniform (leaf_at v mem i j) \<and> leaf_at v mem i j ! 0 = x)"
proof -
  have "leaf_uniform (leaf_at v mem i j) \<and> leaf_at v mem i j ! 0 = x \<longleftrightarrow>
      (\<forall>c\<in>cube 32. node_id c = i \<and> leaf_id c = j \<longrightarrow> view_load v mem c = x)" if j: "j < 64" for j
    unfolding leaf_uniform_iff [OF length_gather_leaf] gather_leaf_set [OF i j] using some_element [OF i j] by blast
  then show ?thesis unfolding node_all_def using leaf_id_less by auto
qed

text \<open>A node holds the values of its part of the chunk.\<close>

definition node_holds :: "'a cnode \<Rightarrow> nat \<Rightarrow> (uvec3 \<Rightarrow> 'a) \<Rightarrow> bool" where
  "node_holds node i val \<longleftrightarrow> (\<forall>c\<in>cube 32. node_id c = i \<longrightarrow> node_load node c = val c)"

lemma node_load_Leaf:
  "node_load (Leaf_Node w ls) c =
     (if bit w (leaf_id c) then ls ! (8 * rank w (leaf_id c) + element_id c)
      else ls ! (8 * popcount w + rank (NOT w) (leaf_id c)))"
proof -
  have "leaf_id c \<le> LENGTH(64)" using leaf_id_less [of c] by simp
  from popcount_below [OF this, of w] popcount_below [OF this, of "NOT w"] show ?thesis
    unfolding node_load_def leaf_id_def [symmetric] element_id_def [symmetric] Let_def
    by (simp add: and_onebit_zero)
qed

lemma packed_holds:
  assumes i: "i < 64" and m: "\<And>j. j < 64 \<Longrightarrow> bit w j \<longleftrightarrow> \<not> leaf_uniform (leaf_at v mem i j)"
    and p: "packed_leaves w (map (leaf_at v mem i) [0..<64]) 64 out"
  shows "node_holds (Leaf_Node w out) i (view_load v mem)"
  unfolding node_holds_def
proof (intro ballI impI)
  fix c assume c: "c \<in> cube 32" "node_id c = i"
  note j = leaf_id_less [of c] and g = gather_leaf_element [OF c(1), of v mem, unfolded c(2)]
  have ls: "map (leaf_at v mem i) [0..<64] ! leaf_id c = leaf_at v mem i (leaf_id c)" using j by simp
  show "node_load (Leaf_Node w out) c = view_load v mem c"
  proof (cases "bit w (leaf_id c)")
    case True
    then have "out ! (8 * rank w (leaf_id c) + element_id c) = leaf_at v mem i (leaf_id c) ! element_id c"
      using p j element_id_less [of c] ls unfolding packed_leaves_def by auto
    then show ?thesis unfolding node_load_Leaf using True g by simp
  next
    case False
    then have "out ! (8 * popcount w + rank (NOT w) (leaf_id c)) = leaf_at v mem i (leaf_id c) ! 0"
      using p j ls unfolding packed_leaves_def by auto
    moreover have "leaf_at v mem i (leaf_id c) ! element_id c = leaf_at v mem i (leaf_id c) ! 0"
    proof -
      have "leaf_uniform (leaf_at v mem i (leaf_id c))" using m [OF j] False by blast
      then have "set (leaf_at v mem i (leaf_id c)) = {leaf_at v mem i (leaf_id c) ! 0}"
        using leaf_uniform_iff [OF length_gather_leaf] by blast
      then show ?thesis using element_id_less [of c] nth_mem length_gather_leaf by (metis singletonD)
    qed
    ultimately show ?thesis unfolding node_load_Leaf using False g by simp
  qed
qed

lemma construct_node_ok:
  assumes i: "i < 64"
  shows "construct_node v mem i = None \<longleftrightarrow> node_all v mem i 0"
    "construct_node v mem i = Some (Uniform_Node x) \<longleftrightarrow> x \<noteq> 0 \<and> node_all v mem i x"
    "construct_node v mem i = Some node \<Longrightarrow> node_holds node i (view_load v mem)"
    "construct_node v mem i = Some (Leaf_Node w out) \<Longrightarrow> length out = 8 * (popcount w + (64 - popcount w + 7) div 8)"
proof -
  define ls where "ls = map (leaf_at v mem i) [0..<64]"
  define s where "s = scan_to ls 64"
  have ls: "j < 64 \<Longrightarrow> ls ! j = leaf_at v mem i j" for j by (simp add: ls_def)
  have len: "\<forall>j<64. length (ls ! j) = 8" by (simp add: ls)
  define w where "w = leaf_mask s"
  define out where "out = fst (fold (pack_leaf w ls) [0..<64] (replicate (8 * (popcount w + (64 - popcount w + 7) div 8)) 0, 0, 8 * popcount w))"
  have r: "construct_node v mem i = (if whole_node_uniform s \<and> node_uniform_value s = 0 then None
      else if whole_node_uniform s then Some (Uniform_Node (node_uniform_value s)) else Some (Leaf_Node w out))"
    unfolding construct_node_def Let_def ls_def [symmetric] s_def [symmetric] w_def [symmetric] out_def [symmetric] ..
  have bits: "bit w j \<longleftrightarrow> \<not> leaf_uniform (leaf_at v mem i j)" if "j < 64" for j
    using scan_mask [of 64 ls j] that ls by (simp add: w_def s_def)
  have p: "packed_leaves w ls 64 out"
    using pack_ok [OF len, where w = w and n = 64 and out = "replicate (8 * (popcount w + (64 - popcount w + 7) div 8)) 0"]
    unfolding out_def by auto
  have all: "node_all v mem i x \<longleftrightarrow> whole_node_uniform s \<and> node_uniform_value s = x" for x
  proof
    assume "node_all v mem i x"
    then have "\<forall>j<64. leaf_uniform (ls ! j) \<and> ls ! j ! 0 = x" unfolding node_all_leaves [OF i] using ls by simp
    then show "whole_node_uniform s \<and> node_uniform_value s = x" unfolding s_def by (rule scan_uniform) simp
  next
    assume "whole_node_uniform s \<and> node_uniform_value s = x"
    then show "node_all v mem i x" unfolding node_all_leaves [OF i] s_def using scan_whole [of ls 64] ls by auto
  qed
  show "construct_node v mem i = None \<longleftrightarrow> node_all v mem i 0" unfolding r all by simp
  show "construct_node v mem i = Some (Uniform_Node x) \<longleftrightarrow> x \<noteq> 0 \<and> node_all v mem i x" unfolding r all by auto
  show "node_holds node i (view_load v mem)" if n: "construct_node v mem i = Some node"
  proof (cases "whole_node_uniform s")
    case True
    then have "node = Uniform_Node (node_uniform_value s)" using n unfolding r by (auto split: if_splits)
    moreover have "node_all v mem i (node_uniform_value s)" using True all by blast
    ultimately show ?thesis by (simp add: node_holds_def node_all_def node_load_def)
  next
    case False
    then have "node = Leaf_Node w out" using n unfolding r by simp
    then show ?thesis using packed_holds [OF i bits p [unfolded ls_def]] by simp
  qed
  show "length out' = 8 * (popcount w' + (64 - popcount w' + 7) div 8)" if "construct_node v mem i = Some (Leaf_Node w' out')" for w' out'
    using that p unfolding r packed_leaves_def by (auto split: if_splits)
qed

section \<open>The result of a chunk\<close>

abbreviation chunk_start :: "'a::zero chunk_scan" where
  "chunk_start \<equiv> \<lparr>nonzero_mask = 0, used = [], chunk_uniform_value = 0, met_uniform_node = False, whole_chunk_uniform = True\<rparr>"

abbreviation chunk_to :: "(nat \<Rightarrow> 'a::zero cnode option) \<Rightarrow> nat \<Rightarrow> 'a chunk_scan" where
  "chunk_to con n \<equiv> fold (scan_node con) [0..<n] chunk_start"

lemma scan_node_simps [simp]:
  "nonzero_mask (scan_node con i s) = (if con i = None then nonzero_mask s else nonzero_mask s OR onebit i)"
  "used (scan_node con i s) = (case con i of None \<Rightarrow> used s | Some node \<Rightarrow> used s @ [node])"
  by (auto simp: scan_node_def Let_def split: option.splits)

lemma chunk_mask: "n \<le> 64 \<Longrightarrow> bit (nonzero_mask (chunk_to con n)) i \<longleftrightarrow> i < n \<and> con i \<noteq> None"
  by (induction n) (auto simp: bit_simps less_Suc_eq)

lemma chunk_used:
  "n \<le> 64 \<Longrightarrow> used (chunk_to con n) = map (\<lambda>i. the (con i)) (filter (\<lambda>i. con i \<noteq> None) [0..<n])"
  by (induction n) (auto split: option.splits)

lemma nth_filtered: "P i \<Longrightarrow> i < n \<Longrightarrow> filter P [0..<n] ! length (filter P [0..<i]) = i"
proof -
  assume "P i" "i < n"
  then have "[0..<n] = [0..<i] @ i # [Suc i..<n]" by (metis le0 le_add_diff_inverse less_imp_le_nat plus_nat.add_0 upt_add_eq_append upt_conv_Cons)
  then show ?thesis using \<open>P i\<close> by (simp add: nth_append)
qed

text \<open>The flag \<open>met_uniform_node\<close> is only set at zero nodes, so the scan accepts a chunk without zero
  nodes as uniform whatever its values are.\<close>

definition nonzero_uniform :: "'a::zero cnode option \<Rightarrow> bool" where
  "nonzero_uniform r \<longleftrightarrow> (\<exists>x. r = Some (Uniform_Node x))"

lemma chunk_whole:
  "(\<forall>i<n. con i \<noteq> Some (Uniform_Node 0)) \<Longrightarrow> (whole_chunk_uniform (chunk_to con n) \<longleftrightarrow> (\<forall>i<n. nonzero_uniform (con i)) \<or> (\<forall>i<n. con i = None))
    \<and> (met_uniform_node (chunk_to con n) \<longleftrightarrow> (\<exists>i<n. con i = None))
    \<and> (whole_chunk_uniform (chunk_to con n) \<longrightarrow>
       chunk_uniform_value (chunk_to con n) = (if n = 0 \<or> con 0 = None then 0 else uniform_value (the (con (n - 1)))))"
proof (induction n)
  case (Suc n)
  define s where "s = chunk_to con n"
  have s': "chunk_to con (Suc n) = scan_node con n s" by (simp add: s_def)
  have w: "whole_chunk_uniform s \<longleftrightarrow> (\<forall>i<n. nonzero_uniform (con i)) \<or> (\<forall>i<n. con i = None)"
    and m: "met_uniform_node s \<longleftrightarrow> (\<exists>i<n. con i = None)"
    and v: "whole_chunk_uniform s \<Longrightarrow> chunk_uniform_value s = (if n = 0 \<or> con 0 = None then 0 else uniform_value (the (con (n - 1))))"
    using Suc by (simp_all add: s_def)
  have nz: "con i \<noteq> Some (Uniform_Node 0)" if "i < Suc n" for i using Suc.prems that by blast
  have zero: "chunk_uniform_value s = 0 \<longleftrightarrow> (\<forall>i<n. con i = None)" if "whole_chunk_uniform s"
  proof (cases "n = 0 \<or> con 0 = None")
    case True
    then show ?thesis using that v w by (auto simp: nonzero_uniform_def)
  next
    case False
    then have "\<not> (\<forall>i<n. con i = None)" "0 < n" by auto
    then have "nonzero_uniform (con (n - 1))" using that w by auto
    then obtain x where x: "con (n - 1) = Some (Uniform_Node x)" by (auto simp: nonzero_uniform_def)
    then have "x \<noteq> 0" using nz [of "n - 1"] by auto
    then show ?thesis using v [OF that] x False \<open>\<not> (\<forall>i<n. con i = None)\<close> by simp
  qed
  have all: "(\<forall>i<Suc n. P i) \<longleftrightarrow> P n \<and> (\<forall>i<n. P i)" for P by (auto simp: less_Suc_eq)
  have ex: "(\<exists>i<Suc n. P i) \<longleftrightarrow> P n \<or> (\<exists>i<n. P i)" for P by (auto simp: less_Suc_eq)
  show ?case unfolding s' all ex
  proof (cases "con n")
    case None
    have f: "whole_chunk_uniform (scan_node con n s) \<longleftrightarrow> whole_chunk_uniform s \<and> chunk_uniform_value s = 0"
      "met_uniform_node (scan_node con n s)" "chunk_uniform_value (scan_node con n s) = chunk_uniform_value s"
      using None by (auto simp: scan_node_def)
    have "con 0 = None" if "\<forall>i<n. con i = None" using that None by (cases n) auto
    moreover have "whole_chunk_uniform s \<and> chunk_uniform_value s = 0 \<longleftrightarrow> (\<forall>i<n. con i = None)"
      using zero w by auto
    moreover have "\<not> nonzero_uniform (con n)" using None by (simp add: nonzero_uniform_def)
    ultimately show "(whole_chunk_uniform (scan_node con n s) \<longleftrightarrow> (nonzero_uniform (con n) \<and> (\<forall>i<n. nonzero_uniform (con i))) \<or> (con n = None \<and> (\<forall>i<n. con i = None)))
      \<and> (met_uniform_node (scan_node con n s) \<longleftrightarrow> con n = None \<or> (\<exists>i<n. con i = None))
      \<and> (whole_chunk_uniform (scan_node con n s) \<longrightarrow> chunk_uniform_value (scan_node con n s)
          = (if Suc n = 0 \<or> con 0 = None then 0 else uniform_value (the (con (Suc n - 1)))))"
      using None f(2) unfolding f(1,3) by auto
  next
    case (Some node)
    show "(whole_chunk_uniform (scan_node con n s) \<longleftrightarrow> (nonzero_uniform (con n) \<and> (\<forall>i<n. nonzero_uniform (con i))) \<or> (con n = None \<and> (\<forall>i<n. con i = None)))
      \<and> (met_uniform_node (scan_node con n s) \<longleftrightarrow> con n = None \<or> (\<exists>i<n. con i = None))
      \<and> (whole_chunk_uniform (scan_node con n s) \<longrightarrow> chunk_uniform_value (scan_node con n s)
          = (if Suc n = 0 \<or> con 0 = None then 0 else uniform_value (the (con (Suc n - 1)))))"
    proof (cases node)
      case (Leaf_Node w ls)
      have f: "\<not> whole_chunk_uniform (scan_node con n s)" "met_uniform_node (scan_node con n s) = met_uniform_node s"
        using Some Leaf_Node by (simp_all add: scan_node_def node_uniform_def)
      show ?thesis using f m Some Leaf_Node by (simp add: nonzero_uniform_def)
    next
      case (Uniform_Node x)
      have x: "x \<noteq> 0" using nz [of n] Some Uniform_Node by auto
      have f: "whole_chunk_uniform (scan_node con n s) \<longleftrightarrow> whole_chunk_uniform s \<and> (met_uniform_node s \<longrightarrow> chunk_uniform_value s = x)"
        "met_uniform_node (scan_node con n s) = met_uniform_node s"
        "chunk_uniform_value (scan_node con n s) = (if met_uniform_node s then chunk_uniform_value s else x)"
        using Some Uniform_Node by (auto simp: scan_node_def node_uniform_def Let_def)
      have u: "nonzero_uniform (con n)" "con n \<noteq> None" "uniform_value (the (con n)) = x"
        using Some Uniform_Node by (simp_all add: nonzero_uniform_def)
      have k: "whole_chunk_uniform s \<and> (met_uniform_node s \<longrightarrow> chunk_uniform_value s = x) \<longleftrightarrow> (\<forall>i<n. nonzero_uniform (con i))"
        using w m zero x by (auto simp: nonzero_uniform_def)
      have "con 0 \<noteq> None" if "\<forall>i<n. nonzero_uniform (con i)" using that u by (cases n) (auto simp: nonzero_uniform_def)
      then show ?thesis using u m unfolding f k by (auto simp: nonzero_uniform_def)
    qed
  qed
qed simp

section \<open>Reading a compressed chunk\<close>

definition all_nodes_uniform :: "cube_array_view \<Rightarrow> 'a::zero list \<Rightarrow> bool" where
  "all_nodes_uniform v mem \<longleftrightarrow> (\<forall>i<64. \<exists>x. x \<noteq> 0 \<and> node_all v mem i x)"

definition node_at :: "u64 \<Rightarrow> 'a cnode list \<Rightarrow> nat \<Rightarrow> 'a cnode option" where
  "node_at nmask nodes i = (if bit nmask i then Some (nodes ! rank nmask i) else None)"

lemma load_Node_Chunk:
  assumes "c \<in> cube 32"
  shows "load (Node_Chunk nmask nodes) c = (case node_at nmask nodes (node_id c) of None \<Rightarrow> 0 | Some node \<Rightarrow> node_load node c)"
proof -
  have "node_id c \<le> LENGTH(64)" using node_id_less [OF assms] by simp
  from popcount_below [OF this, of nmask] show ?thesis
    unfolding load_def node_id_def [symmetric] Let_def by (simp add: and_onebit_zero node_at_def)
qed

lemma length_filter_index: "P i \<Longrightarrow> i < n \<Longrightarrow> length (filter P [0..<i]) < length (filter P [0..<n])"
proof -
  assume "P i" "i < n"
  then have "[0..<n] = [0..<i] @ i # [Suc i..<n]" by (metis le0 le_add_diff_inverse less_imp_le_nat plus_nat.add_0 upt_add_eq_append upt_conv_Cons)
  then show ?thesis using \<open>P i\<close> by simp
qed

lemma node_at_scan: "i < 64 \<Longrightarrow> node_at (nonzero_mask (chunk_to con 64)) (used (chunk_to con 64)) i = con i"
proof -
  assume i: "i < 64"
  have "rank (nonzero_mask (chunk_to con 64)) i = length (filter (\<lambda>i. con i \<noteq> None) [0..<i])"
    unfolding rank_def using i by (intro arg_cong [of _ _ length] filter_cong refl) (simp add: chunk_mask)
  then have "used (chunk_to con 64) ! rank (nonzero_mask (chunk_to con 64)) i = the (con i)" if "con i \<noteq> None"
    using nth_filtered [of "\<lambda>i. con i \<noteq> None" i 64] that i length_filter_index [of "\<lambda>i. con i \<noteq> None" i 64]
    by (simp add: chunk_used del: not_None_eq)
  then show ?thesis using i by (auto simp: node_at_def chunk_mask)
qed

text \<open>The three results of the constructor.\<close>

lemma compress_cases:
  fixes v :: cube_array_view and mem :: "'a::zero list"
  obtains (one_value) "all_nodes_uniform v mem" "compress v mem = Uniform_Chunk (view_load v mem (UVec3 31 31 31))"
  | (zero) "\<not> all_nodes_uniform v mem" "\<forall>i<64. node_all v mem i 0" "compress v mem = Uniform_Chunk 0"
  | (nodes) nmask ns where "\<not> all_nodes_uniform v mem" "compress v mem = Node_Chunk nmask ns"
      "length ns = popcount nmask" "\<forall>i<64. node_at nmask ns i = construct_node v mem i"
proof -
  define con where "con = construct_node v mem"
  define s where "s = chunk_to con 64"
  have r: "compress v mem = (if whole_chunk_uniform s then Uniform_Chunk (chunk_uniform_value s) else Node_Chunk (nonzero_mask s) (used s))"
    by (simp only: compress_def Let_def s_def con_def)
  have nu: "nonzero_uniform (con j) \<longleftrightarrow> (\<exists>x. x \<noteq> 0 \<and> node_all v mem j x)" if "j < 64" for j
    using construct_node_ok(2) [OF that, of v mem] by (simp add: nonzero_uniform_def con_def)
  have nz: "\<forall>i<64. con i \<noteq> Some (Uniform_Node 0)" using construct_node_ok(2) [of _ v mem 0] by (simp add: con_def)
  note w = chunk_whole [OF nz, folded s_def]
  have anu: "all_nodes_uniform v mem \<longleftrightarrow> (\<forall>i<64. nonzero_uniform (con i))" using nu by (simp add: all_nodes_uniform_def)
  show thesis
  proof (cases "all_nodes_uniform v mem")
    case True
    then have u: "\<forall>i<64. nonzero_uniform (con i)" by (simp add: anu)
    then have "nonzero_uniform (con 63)" "nonzero_uniform (con 0)" by simp_all
    then obtain x where x: "con 63 = Some (Uniform_Node x)" and "con 0 \<noteq> None" by (auto simp: nonzero_uniform_def)
    then have c0: "(64 :: nat) = 0 \<or> con 0 = None \<longleftrightarrow> False" by simp
    have ws: "whole_chunk_uniform s" using w u by blast
    then have "chunk_uniform_value s = uniform_value (the (con (64 - 1)))" using w unfolding c0 by simp
    then have "chunk_uniform_value s = x" using x by simp
    note this ws
    moreover have "view_load v mem (UVec3 31 31 31) = x"
      using construct_node_ok(2) [of 63 v mem x] x by (simp add: con_def node_all_def box_def node_id_def)
    ultimately show thesis using one_value [OF True] r by simp
  next
    case False
    show thesis
    proof (cases "\<forall>i<64. con i = None")
      case True
      then have "whole_chunk_uniform s" "chunk_uniform_value s = 0" using w by simp_all
      moreover have "\<forall>i<64. node_all v mem i 0" using True construct_node_ok(1) [of _ v mem] by (simp add: con_def)
      ultimately show thesis using zero [OF False] r by simp
    next
      case nn: False
      then have ns: "\<not> whole_chunk_uniform s" using w False anu by blast
      show thesis
      proof (rule nodes [OF False])
        show "compress v mem = Node_Chunk (nonzero_mask s) (used s)" using ns r by simp
        show "\<forall>i<64. node_at (nonzero_mask s) (used s) i = construct_node v mem i"
          using node_at_scan [of _ con] by (simp add: s_def con_def)
        have "filter (\<lambda>i. con i \<noteq> None) [0..<64] = filter (bit (nonzero_mask s)) [0..<64]"
          by (rule filter_cong) (simp_all add: s_def chunk_mask)
        then show "length (used s) = popcount (nonzero_mask s)"
          by (simp add: s_def chunk_used popcount_def)
      qed
    qed
  qed
qed

lemma compress_load:
  assumes c: "c \<in> cube 32"
  shows "load (compress v mem) c = (if all_nodes_uniform v mem then view_load v mem (UVec3 31 31 31) else view_load v mem c)"
proof -
  have i: "node_id c < 64" using c by (rule node_id_less)
  show ?thesis
  proof (cases rule: compress_cases [of v mem])
    case one_value
    then show ?thesis by (simp add: load_def)
  next
    case zero
    then show ?thesis using c i by (simp add: load_def node_all_def)
  next
    case (nodes nmask ns)
    show ?thesis
    proof (cases "construct_node v mem (node_id c)")
      case None
      then have "view_load v mem c = 0" using construct_node_ok(1) [OF i, of v mem] c by (simp add: node_all_def)
      then show ?thesis using nodes None i c by (simp add: load_Node_Chunk)
    next
      case (Some node)
      then have "node_load node c = view_load v mem c" using construct_node_ok(3) [OF i Some] c by (simp add: node_holds_def)
      then show ?thesis using nodes Some i c by (simp add: load_Node_Chunk)
    qed
  qed
qed

section \<open>Expansion\<close>

definition node_wf :: "'a cnode \<Rightarrow> bool" where
  "node_wf node = (case node of Uniform_Node x \<Rightarrow> True
     | Leaf_Node w ls \<Rightarrow> length ls = 8 * (popcount w + (64 - popcount w + 7) div 8))"

fun storage_wf :: "'a storage \<Rightarrow> bool" where
  "storage_wf (Uniform_Chunk x) = True"
| "storage_wf (Node_Chunk nmask ns) \<longleftrightarrow> length ns = popcount nmask \<and> (\<forall>node\<in>set ns. node_wf node)"

lemma compress_wf: "storage_wf (compress v mem)"
proof (cases rule: compress_cases [of v mem])
  case (nodes nmask ns)
  have "node_wf (ns ! k)" if k: "k < length ns" for k
  proof -
    obtain i where i: "i < 64" "bit nmask i" "rank nmask i = k"
    proof -
      define bs where "bs = filter (bit nmask) [0..<64]"
      have "length bs = popcount nmask" by (simp add: bs_def popcount_def)
      then have kl: "k < length bs" using k nodes(3) by simp
      then have "bs ! k \<in> set bs" by simp
      then have m: "bs ! k < 64" "bit nmask (bs ! k)" by (simp_all add: bs_def)
      have "bs ! rank nmask (bs ! k) = bs ! k" unfolding bs_def rank_def by (rule nth_filtered) (use m in \<open>simp_all add: bs_def\<close>)
      moreover have "distinct bs" by (simp add: bs_def)
      moreover have "rank nmask (bs ! k) < length bs" using rank_less_popcount [OF m(2)] \<open>length bs = popcount nmask\<close> by simp
      ultimately have "rank nmask (bs ! k) = k" using kl nth_eq_iff_index_eq by blast
      then show ?thesis using that m by blast
    qed
    then have c: "construct_node v mem i = Some (ns ! k)" using nodes(4) by (auto simp: node_at_def)
    show ?thesis
    proof (cases "ns ! k")
      case (Leaf_Node w out)
      then show ?thesis using construct_node_ok(4) [OF i(1), of v mem w out] c by (simp add: node_wf_def)
    qed (simp add: node_wf_def)
  qed
  then show ?thesis using nodes(2,3) by (auto simp: in_set_conv_nth)
qed simp_all

text \<open>One leaf, one node, and the whole chunk. The pointers of the loops are ranks.\<close>

lemma leaf_writes:
  assumes ok: "view_ok 32 v mem" and i: "i < 64" and j: "j < 64"
    and wf: "length ls = 8 * (popcount w + (64 - popcount w + 7) div 8)"
  defines "r \<equiv> expand_leaf v (nodeBaseOffset i) w ls j (mem, rank w j, 8 * popcount w + rank (NOT w) j)"
  shows "snd r = (rank w (Suc j), 8 * popcount w + rank (NOT w) (Suc j))
    \<and> writes v (box (leaf_pos i j) 2) (node_load (Leaf_Node w ls)) mem (fst r)"
proof -
  have sub: "box (leaf_pos i j) 2 \<subseteq> cube 32" using leaf_box [OF i j] by blast
  have sok: "view_ok 2 (subview v (leaf_pos i j)) mem" by (rule view_ok_subview [OF ok sub]) simp
  have at: "leaf_id (add3 (leaf_pos i j) d) = j \<and> element_id (add3 (leaf_pos i j) d) = vz d + vx d * 2 + vy d * 4"
    if d: "d \<in> cube 2" for d
  proof -
    define c where "c = add3 (leaf_pos i j) d"
    have "c \<in> box (leaf_pos i j) 2" unfolding c_def box_add3 [of "leaf_pos i j" 2] using d by blast
    then have c: "c \<in> cube 32" "node_id c = i" "leaf_id c = j" using leaf_box [OF i j] by blast+
    have "add3 (leaf_pos i j) (UVec3 (vx c mod 2) (vy c mod 2) (vz c mod 2)) = add3 (leaf_pos i j) d"
      using leaf_element [OF c(1)] unfolding c(2,3) by (simp add: c_def)
    then have "vx c mod 2 = vx d" "vy c mod 2 = vy d" "vz c mod 2 = vz d" by (simp_all add: add3_def)
    then show ?thesis using c(3) unfolding c_def [symmetric] element_id_def by simp
  qed
  show ?thesis
  proof (cases "bit w j")
    case True
    have "8 * rank w j + 8 \<le> length ls" using rank_less_popcount [OF True] wf by simp
    then have "view_load (cube_view 2) (take 8 (drop (8 * rank w j) ls)) d = node_load (Leaf_Node w ls) (add3 (leaf_pos i j) d)"
      if "d \<in> cube 2" for d
      using at [OF that] that True unfolding node_load_Leaf view_load_def cube_view_addr
      by (auto simp: box_def algebra_simps)
    with view_fillFrom_writes [OF sok, of "cube_view 2" "take 8 (drop (8 * rank w j) ls)"]
    have "writes (subview v (leaf_pos i j)) (cube 2) (\<lambda>d. node_load (Leaf_Node w ls) (add3 (leaf_pos i j) d)) mem
        (view_fillFrom 2 (subview v (leaf_pos i j)) (cube_view 2) (take 8 (drop (8 * rank w j) ls)) mem)"
      by (rule writes_cong)
    from writes_subview [OF this] show ?thesis using True j
      by (simp add: r_def expand_leaf_def and_onebit_zero rank_Suc bit_simps leaf_pos_def [symmetric])
  next
    case False
    have "node_load (Leaf_Node w ls) (add3 (leaf_pos i j) d) = ls ! (8 * popcount w + rank (NOT w) j)" if "d \<in> cube 2" for d
      using at [OF that] False by (simp add: node_load_Leaf)
    then have "writes (subview v (leaf_pos i j)) (cube 2) (\<lambda>d. node_load (Leaf_Node w ls) (add3 (leaf_pos i j) d)) mem
        (view_fill 2 (subview v (leaf_pos i j)) (ls ! (8 * popcount w + rank (NOT w) j)) mem)"
      by (intro writes_cong [OF view_fill_writes [OF sok]]) simp
    from writes_subview [OF this] show ?thesis using False j
      by (simp add: r_def expand_leaf_def and_onebit_zero rank_Suc bit_simps leaf_pos_def [symmetric])
  qed
qed

lemma writes_subset_inj: "view_ok 32 v mem \<Longrightarrow> A \<subseteq> cube 32 \<Longrightarrow> inj_on (view_addr v) A"
  by (rule inj_on_subset [OF view_ok_inj])

lemma leaves_write:
  assumes ok: "view_ok 32 v mem" and i: "i < 64" and wf: "length ls = 8 * (popcount w + (64 - popcount w + 7) div 8)"
  shows "n \<le> 64 \<Longrightarrow> \<exists>mem'. fold (expand_leaf v (nodeBaseOffset i) w ls) [0..<n] (mem, 0, 8 * popcount w)
      = (mem', rank w n, 8 * popcount w + rank (NOT w) n)
    \<and> writes v {c \<in> cube 32. node_id c = i \<and> leaf_id c < n} (node_load (Leaf_Node w ls)) mem mem'"
proof (induction n)
  case 0
  then show ?case by (simp add: writes_nothing)
next
  case (Suc n)
  then obtain mem' where f: "fold (expand_leaf v (nodeBaseOffset i) w ls) [0..<n] (mem, 0, 8 * popcount w)
      = (mem', rank w n, 8 * popcount w + rank (NOT w) n)"
    and w: "writes v {c \<in> cube 32. node_id c = i \<and> leaf_id c < n} (node_load (Leaf_Node w ls)) mem mem'" by auto
  have n: "n < 64" using Suc.prems by simp
  have ok': "view_ok 32 v mem'" by (rule view_ok_length [OF ok]) (use w in \<open>simp add: writes_def\<close>)
  note l = leaf_writes [OF ok' i n wf]
  have e: "{c \<in> cube 32. node_id c = i \<and> leaf_id c < n} \<union> box (leaf_pos i n) 2 = {c \<in> cube 32. node_id c = i \<and> leaf_id c < Suc n}"
    using leaf_box [OF i n] less_Suc_eq by blast
  have "writes v ({c \<in> cube 32. node_id c = i \<and> leaf_id c < n} \<union> box (leaf_pos i n) 2) (node_load (Leaf_Node w ls)) mem
      (fst (expand_leaf v (nodeBaseOffset i) w ls n (mem', rank w n, 8 * popcount w + rank (NOT w) n)))"
    by (rule writes_then [OF w conjunct2 [OF l] writes_subset_inj [OF ok]]) (use e in blast)
  then show ?case unfolding e using f conjunct1 [OF l]
    by (cases "expand_leaf v (nodeBaseOffset i) w ls n (mem', rank w n, 8 * popcount w + rank (NOT w) n)") simp
qed

lemma nodes_write:
  assumes ok: "view_ok 32 v mem" and wf: "storage_wf (Node_Chunk nmask ns)"
  shows "n \<le> 64 \<Longrightarrow> \<exists>mem'. fold (expand_node v nmask ns) [0..<n] (mem, 0) = (mem', rank nmask n)
    \<and> writes v {c \<in> cube 32. node_id c < n} (load (Node_Chunk nmask ns)) mem mem'"
proof (induction n)
  case 0
  then show ?case by (simp add: writes_nothing)
next
  case (Suc n)
  then obtain mem' where f: "fold (expand_node v nmask ns) [0..<n] (mem, 0) = (mem', rank nmask n)"
    and w: "writes v {c \<in> cube 32. node_id c < n} (load (Node_Chunk nmask ns)) mem mem'" by auto
  have n: "n < 64" using Suc.prems by simp
  have ok': "view_ok 32 v mem'" by (rule view_ok_length [OF ok]) (use w in \<open>simp add: writes_def\<close>)
  have sub: "box (nodeBaseOffset n) 8 \<subseteq> cube 32" using node_box [OF n] by blast
  have sok: "view_ok 8 (subview v (nodeBaseOffset n)) mem'" by (rule view_ok_subview [OF ok' sub]) simp
  have e: "{c \<in> cube 32. node_id c < n} \<union> box (nodeBaseOffset n) 8 = {c \<in> cube 32. node_id c < Suc n}"
    using node_box [OF n] less_Suc_eq by blast
  have fill: "writes v (box (nodeBaseOffset n) 8) (\<lambda>c. x) mem' (view_fill 8 (subview v (nodeBaseOffset n)) x mem')" for x :: 'a
    by (rule writes_subview) (rule view_fill_writes [OF sok])
  define r where "r = expand_node v nmask ns n (mem', rank nmask n)"
  have ld: "load (Node_Chunk nmask ns) c = (case node_at nmask ns n of None \<Rightarrow> 0 | Some node \<Rightarrow> node_load node c)"
    if "c \<in> box (nodeBaseOffset n) 8" for c using that node_box [OF n, of c] load_Node_Chunk [of c] by simp
  have "snd r = rank nmask (Suc n) \<and> writes v (box (nodeBaseOffset n) 8) (load (Node_Chunk nmask ns)) mem' (fst r)"
  proof (cases "bit nmask n")
    case False
    then show ?thesis using writes_cong [OF fill [of 0]] ld
      by (simp add: r_def expand_node_def and_onebit_zero rank_Suc node_at_def)
  next
    case True
    then have nn: "node_at nmask ns n = Some (ns ! rank nmask n)" by (simp add: node_at_def)
    show ?thesis
    proof (cases "ns ! rank nmask n")
      case (Uniform_Node x)
      have "load (Node_Chunk nmask ns) c = x" if "c \<in> box (nodeBaseOffset n) 8" for c
        using ld [OF that] nn Uniform_Node by (simp add: node_load_def)
      then have "writes v (box (nodeBaseOffset n) 8) (load (Node_Chunk nmask ns)) mem' (view_fill 8 (subview v (nodeBaseOffset n)) x mem')"
        by (intro writes_cong [OF fill]) simp
      then show ?thesis using True Uniform_Node by (simp add: r_def expand_node_def and_onebit_zero rank_Suc)
    next
      case (Leaf_Node lw ls)
      have "rank nmask n < length ns" using rank_less_popcount [OF True] wf by simp
      then have "node_wf (Leaf_Node lw ls)" using wf Leaf_Node by (metis nth_mem storage_wf.simps(2))
      then have len: "length ls = 8 * (popcount lw + (64 - popcount lw + 7) div 8)" by (simp add: node_wf_def)
      obtain mem2 where m2: "fold (expand_leaf v (nodeBaseOffset n) lw ls) [0..<64] (mem', 0, 8 * popcount lw)
          = (mem2, rank lw 64, 8 * popcount lw + rank (NOT lw) 64)"
        "writes v {c \<in> cube 32. node_id c = n \<and> leaf_id c < 64} (node_load (Leaf_Node lw ls)) mem' mem2"
        using leaves_write [OF ok' n len, of 64] by auto
      have "{c \<in> cube 32. node_id c = n \<and> leaf_id c < 64} = box (nodeBaseOffset n) 8"
        using node_box [OF n] leaf_id_less by blast
      then have "writes v (box (nodeBaseOffset n) 8) (load (Node_Chunk nmask ns)) mem' mem2"
        using m2(2) ld nn Leaf_Node by (auto elim: writes_cong)
      then show ?thesis using True Leaf_Node m2(1) by (simp add: r_def expand_node_def and_onebit_zero rank_Suc)
    qed
  qed
  moreover from this have "writes v ({c \<in> cube 32. node_id c < n} \<union> box (nodeBaseOffset n) 8) (load (Node_Chunk nmask ns)) mem (fst r)"
    by (intro writes_then [OF w _ writes_subset_inj [OF ok]]) (use e in blast)+
  moreover have "fold (expand_node v nmask ns) [0..<Suc n] (mem, 0) = r" using f by (simp add: r_def)
  ultimately show ?case unfolding e by (cases r) simp
qed

lemma expand_ok:
  assumes "storage_wf s" and ok: "view_ok 32 v mem"
  shows "writes v (cube 32) (load s) mem (expand s v mem)"
proof (cases s)
  case (Uniform_Chunk x)
  have "load s c = x" for c by (simp add: Uniform_Chunk load_def)
  then show ?thesis using writes_cong [OF view_fill_writes [OF ok, of x]] by (simp add: Uniform_Chunk expand_def)
next
  case (Node_Chunk nmask ns)
  have "{c \<in> cube 32. node_id c < 64} = cube 32" using node_id_less by blast
  then show ?thesis using nodes_write [OF ok, of nmask ns 64] assms(1) unfolding Node_Chunk expand_def by auto
qed

text \<open>C17: compression followed by \<open>load\<close>, or by \<open>expand\<close> into any array, gives back every value of the
  compressed array and touches nothing outside the chunk's view, except that an array whose 64 nodes
  are all uniform and non-zero comes back with every value equal to that of its last node.\<close>

theorem compress_roundtrip:
  assumes "view_ok 32 v' mem'"
  shows "(\<forall>c\<in>cube 32. load (compress v mem) c
      = (if all_nodes_uniform v mem then view_load v mem (UVec3 31 31 31) else view_load v mem c))
    \<and> writes v' (cube 32) (\<lambda>c. if all_nodes_uniform v mem then view_load v mem (UVec3 31 31 31) else view_load v mem c)
        mem' (expand (compress v mem) v' mem')"
  using compress_load by (intro conjI writes_cong [OF expand_ok [OF compress_wf assms]]) blast+

theorem compress_roundtrip_witness:
  "load (compress (cube_view 32) (replicate 32768 (7 :: nat))) (UVec3 3 4 5) = 7
    \<and> expand (compress (cube_view 32) (replicate 32768 (7 :: nat))) (cube_view 32) (replicate 32768 0) ! 0 = 7"
proof -
  have ok: "view_ok 32 (cube_view 32) (replicate 32768 (0 :: nat))" by (rule cube_view_ok) simp
  have l: "view_load (cube_view 32) (replicate 32768 (7 :: nat)) c = 7" if "c \<in> cube 32" for c
  proof -
    have "view_ok 32 (cube_view 32) (replicate 32768 (7 :: nat))" by (rule cube_view_ok) simp
    then have "view_addr (cube_view 32) c < 32768" using that by (auto simp: view_ok_def)
    then show ?thesis by (simp add: view_load_def)
  qed
  have m: "UVec3 31 31 31 \<in> cube 32" "UVec3 3 4 5 \<in> cube 32" "UVec3 0 0 0 \<in> cube 32" by (simp_all add: box_def)
  have a: "view_addr (cube_view 32) (UVec3 0 0 0) = 0" by (simp add: cube_view_addr)
  note h = compress_roundtrip [OF ok, of "cube_view 32" "replicate 32768 7"]
  from conjunct1 [OF h] m l have "load (compress (cube_view 32) (replicate 32768 (7 :: nat))) (UVec3 3 4 5) = 7" by simp
  moreover have "expand (compress (cube_view 32) (replicate 32768 (7 :: nat))) (cube_view 32) (replicate 32768 0)
      ! view_addr (cube_view 32) (UVec3 0 0 0) = 7"
    using conjunct2 [OF h] m l unfolding writes_def by simp
  ultimately show ?thesis unfolding a by simp
qed

section \<open>The copy constructor\<close>

definition stored_in_leaf :: "'a storage \<Rightarrow> uvec3 \<Rightarrow> bool" where
  "stored_in_leaf s c = (case s of Uniform_Chunk x \<Rightarrow> False
     | Node_Chunk nmask ns \<Rightarrow> (case node_at nmask ns (node_id c) of Some (Leaf_Node w ls) \<Rightarrow> True | _ \<Rightarrow> False))"

lemma copy_chunk_node_ok:
  assumes "node_wf node"
  shows "snd (copy_chunk_node node) = fst (copy_chunk_node node)"
    "node_load (fst (copy_chunk_node node)) c = (case node of Uniform_Node x \<Rightarrow> x | Leaf_Node w ls \<Rightarrow> 0)"
proof -
  have b: "8 * popcount w + rank (NOT w) (leaf_id c) < 8 * (popcount w + (64 - popcount w + 7) div 8)"
    if "\<not> bit w (leaf_id c)" for w :: u64
  proof -
    have "rank (NOT w) (leaf_id c) < 64 - popcount w"
      using rank_less_popcount [of "NOT w" "leaf_id c"] that leaf_id_less [of c] by (simp add: popcount_not bit_simps)
    moreover have "64 - popcount w \<le> 8 * ((64 - popcount w + 7) div 8)" by presburger
    ultimately show ?thesis by simp
  qed
  have a: "8 * rank w (leaf_id c) + element_id c < 8 * (popcount w + n)" if "bit w (leaf_id c)" for w :: u64 and n
    using rank_less_popcount [OF that] element_id_less [of c] by simp
  show "node_load (fst (copy_chunk_node node)) c = (case node of Uniform_Node x \<Rightarrow> x | Leaf_Node w ls \<Rightarrow> 0)"
  proof (cases node)
    case (Uniform_Node x)
    then show ?thesis by (simp add: copy_chunk_node_def node_load_def)
  next
    case (Leaf_Node w ls)
    then show ?thesis using a b by (cases "bit w (leaf_id c)") (simp_all add: copy_chunk_node_def node_load_Leaf Let_def)
  qed
  show "snd (copy_chunk_node node) = fst (copy_chunk_node node)"
    using assms by (cases node) (simp_all add: copy_chunk_node_def Let_def node_wf_def)
qed

text \<open>C38: the copy constructor destroys every chunk that is not made of uniform nodes: all values held
  in leaves become zero, in the copy and in the chunk it was made from; only uniform chunks and
  nodes survive.\<close>

theorem copy_destroys_leaves:
  assumes "storage_wf s" and "c \<in> cube 32"
  shows "snd (copy_storage s) = fst (copy_storage s)
    \<and> load (fst (copy_storage s)) c = (if stored_in_leaf s c then 0 else load s c)"
proof (cases s)
  case (Uniform_Chunk x)
  then show ?thesis by (simp add: copy_storage_def stored_in_leaf_def)
next
  case (Node_Chunk nmask ns)
  have wf: "length ns = popcount nmask" "\<And>k. k < popcount nmask \<Longrightarrow> node_wf (ns ! k)"
    using assms(1) Node_Chunk by simp_all
  define ns' where "ns' = map (\<lambda>i. fst (copy_chunk_node (ns ! i))) [0..<popcount nmask]"
  have "map (\<lambda>i. snd (copy_chunk_node (ns ! i))) [0..<popcount nmask] = ns'"
    unfolding ns'_def using copy_chunk_node_ok(1) [OF wf(2)] by (intro map_cong refl) simp
  then have c: "copy_storage s = (Node_Chunk nmask ns', Node_Chunk nmask ns')"
    by (simp add: Node_Chunk copy_storage_def Let_def ns'_def)
  have "load (Node_Chunk nmask ns') c = (if stored_in_leaf s c then 0 else load s c)"
  proof (cases "bit nmask (node_id c)")
    case False
    then show ?thesis using assms(2) by (simp add: load_Node_Chunk node_at_def Node_Chunk stored_in_leaf_def)
  next
    case True
    have r: "rank nmask (node_id c) < popcount nmask" by (rule rank_less_popcount [OF True])
    then have "ns' ! rank nmask (node_id c) = fst (copy_chunk_node (ns ! rank nmask (node_id c)))" by (simp add: ns'_def)
    then show ?thesis using True assms(2) copy_chunk_node_ok(2) [OF wf(2) [OF r], of c]
      by (simp add: load_Node_Chunk node_at_def Node_Chunk stored_in_leaf_def node_load_def [of "Uniform_Node _"] split: cnode.splits)
  qed
  then show ?thesis unfolding c by simp
qed

theorem copy_destroys_leaves_witness:
  "fst (copy_storage (Node_Chunk 1 [Leaf_Node 0 (replicate 64 (5 :: nat))])) = snd (copy_storage (Node_Chunk 1 [Leaf_Node 0 (replicate 64 5)]))
    \<and> load (Node_Chunk 1 [Leaf_Node 0 (replicate 64 (5 :: nat))]) (UVec3 0 0 0) = 5
    \<and> load (fst (copy_storage (Node_Chunk 1 [Leaf_Node 0 (replicate 64 (5 :: nat))]))) (UVec3 0 0 0) = 0"
proof -
  have o: "(1 :: u64) = onebit 0" by (simp add: onebit_def)
  have p: "popcount (1 :: u64) = 1" unfolding o by (rule popcount_onebit) simp
  have wf: "storage_wf (Node_Chunk 1 [Leaf_Node 0 (replicate 64 (5 :: nat))])" by (simp add: p node_wf_def)
  have c: "UVec3 0 0 0 \<in> cube 32" by (simp add: box_def)
  have n: "node_at 1 [Leaf_Node 0 (replicate 64 (5 :: nat))] (node_id (UVec3 0 0 0)) = Some (Leaf_Node 0 (replicate 64 5))"
    by (simp add: node_at_def node_id_def)
  have "load (Node_Chunk 1 [Leaf_Node 0 (replicate 64 (5 :: nat))]) (UVec3 0 0 0) = 5"
    unfolding load_Node_Chunk [OF c] n by (simp add: node_load_Leaf leaf_id_def)
  then show ?thesis using copy_destroys_leaves [OF wf c] by (simp add: stored_in_leaf_def n)
qed

end
