(* ===== verification/Compressed_Bool.thy ===== *)
theory Compressed_Bool
  imports Compressed_Storage
begin

text \<open>
  The specialisation \<open>CompressedChunkStorage<bool>\<close> (same files as \<open>Compressed_Storage\<close>): per node a bit
  for its uniform value, and 64 mask bytes for a node that is not uniform. Undefined behaviour (a
  read past the node array or the mask bytes, a shift by 32 or more) is \<open>None\<close>. The theorems give
  the exact result of \<open>load\<close> and \<open>expand\<close>, which is the stored chunk only when no node is mixed.
\<close>

record bool_storage =
  m_nonuniform_node_mask :: u64
  m_uniform_value_mask :: u64
  m_nodes :: "u8 list list option"

definition empty_bools :: bool_storage where
  "empty_bools = \<lparr>m_nonuniform_node_mask = 0, m_uniform_value_mask = 0, m_nodes = None\<rparr>"

section \<open>Operations\<close>

text \<open>The loop over the 512 bools of a node: mask bytes, \<open>has_false\<close> and \<open>has_true\<close>.\<close>

definition scan_bool :: "bool list \<Rightarrow> nat \<Rightarrow> u8 list \<times> bool \<times> bool \<Rightarrow> u8 list \<times> bool \<times> bool" where
  "scan_bool bools j = (\<lambda>(leaf_mask, has_false, has_true).
     if bools ! j then (leaf_mask[j div 8 := leaf_mask ! (j div 8) OR onebit (j mod 8)], has_false, True)
     else (leaf_mask, True, has_true))"

definition gather_bools :: "cube_array_view \<Rightarrow> bool list \<Rightarrow> nat \<Rightarrow> bool list" where
  "gather_bools v mem i = view_extractTo 8 v mem (nodeBaseOffset i) (replicate 512 False)"

definition scan_bool_node :: "cube_array_view \<Rightarrow> bool list \<Rightarrow> nat \<Rightarrow> bool_storage \<times> u8 list list \<Rightarrow> bool_storage \<times> u8 list list" where
  "scan_bool_node v mem i = (\<lambda>(s, nodes).
     let (leaf_mask, has_false, has_true) =
           fold (scan_bool (gather_bools v mem i)) [0..<512] (replicate 64 0, False, False)
     in if has_false \<and> has_true
        then (s\<lparr>m_nonuniform_node_mask := m_nonuniform_node_mask s OR onebit i\<rparr>, nodes @ [leaf_mask])
        else if has_true then (s\<lparr>m_uniform_value_mask := m_uniform_value_mask s OR onebit i\<rparr>, nodes)
        else (s, nodes))"

definition compress_bools :: "cube_array_view \<Rightarrow> bool list \<Rightarrow> bool_storage" where
  "compress_bools v mem =
     (let (s, nodes) = fold (scan_bool_node v mem) [0..<64] (empty_bools, [])
      in if length nodes > 0 then s\<lparr>m_nodes := Some nodes\<rparr> else s)"

definition bools_move :: "bool_storage \<Rightarrow> bool_storage \<times> bool_storage" where
  "bools_move other = (other, empty_bools)"

definition bools_copy :: "bool_storage \<Rightarrow> bool_storage" where
  "bools_copy other =
     (case m_nodes other of
        None \<Rightarrow> \<lparr>m_nonuniform_node_mask = m_nonuniform_node_mask other,
                 m_uniform_value_mask = m_uniform_value_mask other, m_nodes = None\<rparr>
      | Some nodes \<Rightarrow>
          \<lparr>m_nonuniform_node_mask = m_nonuniform_node_mask other, m_uniform_value_mask = m_uniform_value_mask other,
           m_nodes = Some (take (popcount (m_nonuniform_node_mask other)) nodes)\<rparr>)"

definition bools_move_assign :: "bool_storage \<Rightarrow> bool_storage \<Rightarrow> bool_storage \<times> bool_storage" where
  "bools_move_assign s other = (other, s)"

definition bools_copy_assign :: "bool_storage \<Rightarrow> bool_storage \<Rightarrow> bool_storage" where
  "bools_copy_assign s other = fst (bools_move_assign s (bools_copy other))"

definition bools_setUniform :: "bool \<Rightarrow> bool_storage" where
  "bools_setUniform value =
     \<lparr>m_nonuniform_node_mask = 0, m_uniform_value_mask = (if value then NOT 0 else 0), m_nodes = None\<rparr>"

definition bools_uniform :: "bool_storage \<Rightarrow> bool" where
  "bools_uniform s \<longleftrightarrow> m_nodes s = None \<and> (m_uniform_value_mask s = 0 \<or> NOT (m_uniform_value_mask s) = 0)"

definition bools_load :: "bool_storage \<Rightarrow> uvec3 \<Rightarrow> bool option" where
  "bools_load s c =
     (let node_id = vz c div 8 + (vx c div 8) * 4 + (vy c div 8) * 16;
          node_bit = onebit node_id;
          node_tail_mask = node_bit - 1
      in case m_nodes s of
           None \<Rightarrow> Some (m_uniform_value_mask s AND node_bit \<noteq> 0)
         | Some nodes \<Rightarrow>
             (let array_index = popcount (m_nonuniform_node_mask s AND node_tail_mask);
                  leaf_id = vz c mod 8 div 2 + (vx c mod 8 div 2) * 4 + (vy c mod 8 div 2) * 16;
                  leaf_bit_id = vz c mod 2 + (vx c mod 2) * 2 + (vy c mod 2) * 4
              in if array_index < length nodes
                 then Some ((nodes ! array_index) ! leaf_id AND onebit leaf_bit_id \<noteq> 0) else None))"

text \<open>The triple loop of \<open>expand\<close> runs to \<open>base + 8\<close> inclusive, tests \<open>1u << j\<close> and never advances \<open>node\<close>.\<close>

definition expand_bool :: "cube_array_view \<Rightarrow> u8 list \<Rightarrow> uvec3 \<Rightarrow> (bool list \<times> nat) option \<Rightarrow> (bool list \<times> nat) option" where
  "expand_bool v node c r =
     (case r of
        None \<Rightarrow> None
      | Some (mem, j) \<Rightarrow>
          if j div 8 < length node \<and> j < 32
          then Some (view_store v c ((ucast (node ! (j div 8)) :: u32) AND onebit j \<noteq> 0) mem, j + 1) else None)"

definition expand_bool_node :: "cube_array_view \<Rightarrow> bool_storage \<Rightarrow> nat \<Rightarrow> bool list option \<Rightarrow> bool list option" where
  "expand_bool_node v s i r =
     (case r of
        None \<Rightarrow> None
      | Some mem \<Rightarrow>
          (let origin = nodeBaseOffset i
           in if m_nonuniform_node_mask s AND onebit i = 0
              then Some (view_fill_box v origin (UVec3 8 8 8) (m_uniform_value_mask s AND onebit i \<noteq> 0) mem)
              else case m_nodes s of
                Some (node # nodes) \<Rightarrow>
                  map_option fst (fold (\<lambda>y. fold (\<lambda>x. fold (\<lambda>z. expand_bool v node (UVec3 x y z))
                    [vz origin..<vz origin + 9]) [vx origin..<vx origin + 9]) [vy origin..<vy origin + 9] (Some (mem, 0)))
              | _ \<Rightarrow> None))"

definition bools_expand :: "bool_storage \<Rightarrow> cube_array_view \<Rightarrow> bool list \<Rightarrow> bool list option" where
  "bools_expand s v mem = fold (expand_bool_node v s) [0..<64] (Some mem)"

section \<open>The scan of a node\<close>

definition bools_to :: "bool list \<Rightarrow> nat \<Rightarrow> u8 list \<times> bool \<times> bool" where
  "bools_to bools n = fold (scan_bool bools) [0..<n] (replicate 64 0, False, False)"

lemma bools_to_ok:
  "n \<le> 512 \<Longrightarrow> \<exists>m hf ht. bools_to bools n = (m, hf, ht) \<and> length m = 64
     \<and> (\<forall>a<64. \<forall>b<8. bit (m ! a) b \<longleftrightarrow> 8 * a + b < n \<and> bools ! (8 * a + b))
     \<and> (hf \<longleftrightarrow> (\<exists>j<n. \<not> bools ! j)) \<and> (ht \<longleftrightarrow> (\<exists>j<n. bools ! j))"
proof (induction n)
  case 0
  show ?case
    by (intro exI [of _ "replicate 64 0"] exI [of _ False] exI [of _ False]) (simp add: bools_to_def)
next
  case (Suc n)
  then obtain m hf ht where h: "bools_to bools n = (m, hf, ht)" "length m = 64"
    "\<forall>a<64. \<forall>b<8. bit (m ! a) b \<longleftrightarrow> 8 * a + b < n \<and> bools ! (8 * a + b)"
    "hf \<longleftrightarrow> (\<exists>j<n. \<not> bools ! j)" "ht \<longleftrightarrow> (\<exists>j<n. bools ! j)" by auto
  have st: "bools_to bools (Suc n) = scan_bool bools n (m, hf, ht)" using h(1) by (simp add: bools_to_def)
  have n: "n div 8 < 64" "n mod 8 < 8" "n = 8 * (n div 8) + n mod 8" using Suc.prems by auto
  have split: "8 * a + b = n \<longleftrightarrow> a = n div 8 \<and> b = n mod 8" if "b < 8" for a b using that by auto
  show ?case
  proof (cases "bools ! n")
    case True
    define m' where "m' = m[n div 8 := m ! (n div 8) OR onebit (n mod 8)]"
    have "bit (m' ! a) b \<longleftrightarrow> 8 * a + b < Suc n \<and> bools ! (8 * a + b)" if ab: "a < 64" "b < 8" for a b
    proof -
      have "bit (m' ! a) b \<longleftrightarrow> bit (m ! a) b \<or> (a = n div 8 \<and> b = n mod 8)"
        using h(2) n ab by (auto simp: m'_def nth_list_update bit_simps)
      also have "\<dots> \<longleftrightarrow> (8 * a + b < n \<and> bools ! (8 * a + b)) \<or> 8 * a + b = n" using h(3) ab split [OF ab(2), of a] by simp
      also have "\<dots> \<longleftrightarrow> 8 * a + b < Suc n \<and> bools ! (8 * a + b)" using True by (auto simp: less_Suc_eq)
      finally show ?thesis .
    qed
    moreover have "length m' = 64" using h(2) by (simp add: m'_def)
    moreover have "hf \<longleftrightarrow> (\<exists>j<Suc n. \<not> bools ! j)" using True unfolding h(4) less_Suc_eq by blast
    moreover have "\<exists>j<Suc n. bools ! j" using True by blast
    moreover have "bools_to bools (Suc n) = (m', hf, True)" unfolding st using True by (simp add: scan_bool_def m'_def)
    ultimately show ?thesis by blast
  next
    case False
    then have "bit (m ! a) b \<longleftrightarrow> 8 * a + b < Suc n \<and> bools ! (8 * a + b)" if "a < 64" "b < 8" for a b
      using h(3) that by (auto simp: less_Suc_eq)
    moreover have "ht \<longleftrightarrow> (\<exists>j<Suc n. bools ! j)" using False unfolding h(5) less_Suc_eq by blast
    moreover have "\<exists>j<Suc n. \<not> bools ! j" using False by blast
    moreover have "bools_to bools (Suc n) = (m, True, ht)" unfolding st using False by (simp add: scan_bool_def)
    ultimately show ?thesis using h(2) by blast
  qed
qed

lemma gather_bools_nth:
  "x < 8 \<Longrightarrow> y < 8 \<Longrightarrow> z < 8 \<Longrightarrow> gather_bools v mem i ! (y * 64 + x * 8 + z) = view_load v mem (add3 (nodeBaseOffset i) (UVec3 x y z))"
proof -
  assume b: "x < 8" "y < 8" "z < 8"
  then have "UVec3 x y z \<in> cube 8" by (simp add: box_def)
  moreover have "writes (cube_view 8) (cube 8) (\<lambda>c. view_load v mem (add3 (nodeBaseOffset i) c)) (replicate 512 False) (gather_bools v mem i)"
    unfolding gather_bools_def by (rule view_extractTo_writes) simp
  ultimately have "gather_bools v mem i ! view_addr (cube_view 8) (UVec3 x y z) = view_load v mem (add3 (nodeBaseOffset i) (UVec3 x y z))"
    by (simp add: writes_def)
  then show ?thesis by (simp add: cube_view_addr algebra_simps)
qed

text \<open>The mask bytes of node \<open>i\<close>.\<close>

definition node_bytes :: "cube_array_view \<Rightarrow> bool list \<Rightarrow> nat \<Rightarrow> u8 list" where
  "node_bytes v mem i = fst (bools_to (gather_bools v mem i) 512)"

definition mixed :: "cube_array_view \<Rightarrow> bool list \<Rightarrow> nat \<Rightarrow> bool" where
  "mixed v mem i \<longleftrightarrow> \<not> node_all v mem i True \<and> \<not> node_all v mem i False"

lemma split_512:
  assumes "j < 512"
  obtains x y z where "j = y * 64 + x * 8 + z" "x < 8" "y < 8" "z < (8 :: nat)"
proof
  have "j div 64 = j div 8 div 8" by (simp flip: div_mult2_eq)
  then show "j = j div 64 * 64 + j div 8 mod 8 * 8 + j mod 8"
    using mod_mult_div_eq [of j 8] mod_mult_div_eq [of "j div 8" 8] by linarith
qed (use assms in auto)

lemma node_all_gather: "i < 64 \<Longrightarrow> node_all v mem i b \<longleftrightarrow> (\<forall>j<512. gather_bools v mem i ! j = b)"
proof
  assume i: "i < 64" and a: "node_all v mem i b"
  show "\<forall>j<512. gather_bools v mem i ! j = b"
  proof (intro allI impI)
    fix j :: nat assume "j < 512"
    from split_512 [OF this] obtain x y z where j: "j = y * 64 + x * 8 + z" "x < 8" "y < 8" "z < 8" .
    have "add3 (nodeBaseOffset i) (UVec3 x y z) \<in> box (nodeBaseOffset i) 8" using j by (simp add: box_def)
    then show "gather_bools v mem i ! j = b"
      using a node_box [OF i] unfolding j(1) gather_bools_nth [OF j(2-4)] node_all_def by blast
  qed
next
  assume i: "i < 64" and a: "\<forall>j<512. gather_bools v mem i ! j = b"
  show "node_all v mem i b" unfolding node_all_def
  proof (intro ballI impI)
    fix c assume "c \<in> cube 32" "node_id c = i"
    then have "c \<in> box (nodeBaseOffset i) 8" using node_box [OF i] by blast
    then obtain d where d: "d \<in> cube 8" "c = add3 (nodeBaseOffset i) d" unfolding box_add3 [of "nodeBaseOffset i" 8] by blast
    then have "vx d < 8" "vy d < 8" "vz d < 8" by (auto simp: box_def)
    moreover from this have "vy d * 64 + vx d * 8 + vz d < 512" by linarith
    ultimately show "view_load v mem c = b" using a gather_bools_nth [of "vx d" "vy d" "vz d" v mem i] d(2) by simp
  qed
qed

lemma scan_bool_node_ok:
  assumes i: "i < 64"
  shows "scan_bool_node v mem i (s, nodes) =
     (if mixed v mem i then (s\<lparr>m_nonuniform_node_mask := m_nonuniform_node_mask s OR onebit i\<rparr>, nodes @ [node_bytes v mem i])
      else if node_all v mem i True then (s\<lparr>m_uniform_value_mask := m_uniform_value_mask s OR onebit i\<rparr>, nodes)
      else (s, nodes))"
proof -
  obtain m hf ht where r: "bools_to (gather_bools v mem i) 512 = (m, hf, ht)"
    "hf \<longleftrightarrow> (\<exists>j<512. \<not> gather_bools v mem i ! j)" "ht \<longleftrightarrow> (\<exists>j<512. gather_bools v mem i ! j)"
    using bools_to_ok [of 512 "gather_bools v mem i"] by auto
  have f: "hf \<longleftrightarrow> \<not> node_all v mem i True" "ht \<longleftrightarrow> \<not> node_all v mem i False"
    unfolding r(2,3) node_all_gather [OF i] by auto
  have both: "\<not> (node_all v mem i True \<and> node_all v mem i False)" unfolding node_all_gather [OF i] by force
  have e: "node_bytes v mem i = m" by (simp add: node_bytes_def r(1))
  have "scan_bool_node v mem i (s, nodes) = (if hf \<and> ht
      then (s\<lparr>m_nonuniform_node_mask := m_nonuniform_node_mask s OR onebit i\<rparr>, nodes @ [m])
      else if ht then (s\<lparr>m_uniform_value_mask := m_uniform_value_mask s OR onebit i\<rparr>, nodes) else (s, nodes))"
    unfolding scan_bool_node_def bools_to_def [symmetric] prod.case r(1) Let_def ..
  then show ?thesis unfolding f e mixed_def using both by auto
qed

lemma node_bytes_bit:
  assumes "a < 64" "b < 8"
  shows "bit (node_bytes v mem i ! a) b \<longleftrightarrow> view_load v mem (add3 (nodeBaseOffset i) (UVec3 (a mod 8) (a div 8) b))"
proof -
  have "bit (node_bytes v mem i ! a) b \<longleftrightarrow> gather_bools v mem i ! (8 * a + b)"
    using bools_to_ok [of 512 "gather_bools v mem i"] assms by (auto simp: node_bytes_def)
  also have "8 * a + b = a div 8 * 64 + a mod 8 * 8 + b" using mod_mult_div_eq [of a 8] by linarith
  also have "gather_bools v mem i ! (a div 8 * 64 + a mod 8 * 8 + b) = view_load v mem (add3 (nodeBaseOffset i) (UVec3 (a mod 8) (a div 8) b))"
    using assms by (intro gather_bools_nth) auto
  finally show ?thesis .
qed

lemma scan_bools:
  "n \<le> 64 \<Longrightarrow> \<exists>s. fold (scan_bool_node v mem) [0..<n] (empty_bools, []) = (s, map (node_bytes v mem) (filter (mixed v mem) [0..<n]))
    \<and> m_nodes s = None \<and> (\<forall>i. bit (m_nonuniform_node_mask s) i \<longleftrightarrow> i < n \<and> mixed v mem i)
    \<and> (\<forall>i. bit (m_uniform_value_mask s) i \<longleftrightarrow> i < n \<and> \<not> mixed v mem i \<and> node_all v mem i True)"
proof (induction n)
  case 0
  then show ?case by (simp add: empty_bools_def)
next
  case (Suc n)
  then obtain s where s: "fold (scan_bool_node v mem) [0..<n] (empty_bools, []) = (s, map (node_bytes v mem) (filter (mixed v mem) [0..<n]))"
    "m_nodes s = None" "\<forall>i. bit (m_nonuniform_node_mask s) i \<longleftrightarrow> i < n \<and> mixed v mem i"
    "\<forall>i. bit (m_uniform_value_mask s) i \<longleftrightarrow> i < n \<and> \<not> mixed v mem i \<and> node_all v mem i True" by auto
  have n: "n < 64" using Suc.prems by simp
  have st: "fold (scan_bool_node v mem) [0..<Suc n] (empty_bools, [])
      = scan_bool_node v mem n (s, map (node_bytes v mem) (filter (mixed v mem) [0..<n]))" using s(1) by simp
  show ?case
  proof (cases "mixed v mem n")
    case True
    then show ?thesis unfolding st scan_bool_node_ok [OF n] using s(2-4) n
      by (auto simp: less_Suc_eq bit_simps)
  next
    case nm: False
    show ?thesis
    proof (cases "node_all v mem n True")
      case True
      then show ?thesis unfolding st scan_bool_node_ok [OF n] using nm s(2-4) n
        by (auto simp: less_Suc_eq bit_simps)
    next
      case False
      then show ?thesis unfolding st scan_bool_node_ok [OF n] using nm s(2-4)
        by (auto simp: less_Suc_eq)
    qed
  qed
qed

definition mixed_nodes :: "cube_array_view \<Rightarrow> bool list \<Rightarrow> nat list" where
  "mixed_nodes v mem = filter (mixed v mem) [0..<64]"

lemma compress_bools_ok:
  "m_nodes (compress_bools v mem) = (if mixed_nodes v mem = [] then None else Some (map (node_bytes v mem) (mixed_nodes v mem)))"
  "bit (m_nonuniform_node_mask (compress_bools v mem)) i \<longleftrightarrow> i < 64 \<and> mixed v mem i"
  "bit (m_uniform_value_mask (compress_bools v mem)) i \<longleftrightarrow> i < 64 \<and> \<not> mixed v mem i \<and> node_all v mem i True"
proof -
  from scan_bools [of 64 v mem] obtain s where
    s: "fold (scan_bool_node v mem) [0..<64] (empty_bools, []) = (s, map (node_bytes v mem) (mixed_nodes v mem))"
      "m_nodes s = None" "\<And>i. bit (m_nonuniform_node_mask s) i \<longleftrightarrow> i < 64 \<and> mixed v mem i"
      "\<And>i. bit (m_uniform_value_mask s) i \<longleftrightarrow> i < 64 \<and> \<not> mixed v mem i \<and> node_all v mem i True"
    by (auto simp: mixed_nodes_def)
  have c: "compress_bools v mem = (if mixed_nodes v mem = [] then s else s\<lparr>m_nodes := Some (map (node_bytes v mem) (mixed_nodes v mem))\<rparr>)"
    by (simp add: compress_bools_def s(1))
  show "m_nodes (compress_bools v mem) = (if mixed_nodes v mem = [] then None else Some (map (node_bytes v mem) (mixed_nodes v mem)))"
    "bit (m_nonuniform_node_mask (compress_bools v mem)) i \<longleftrightarrow> i < 64 \<and> mixed v mem i"
    "bit (m_uniform_value_mask (compress_bools v mem)) i \<longleftrightarrow> i < 64 \<and> \<not> mixed v mem i \<and> node_all v mem i True"
    unfolding c using s(2-4) by simp_all
qed

text \<open>\<open>load\<close> of a compressed bool chunk is right when no node is mixed. Otherwise it reads the mask
  bytes of the mixed node whose rank is the number of mixed nodes before the addressed one, whether
  or not the addressed node is mixed, past the end of the node array if there is none; and it reads
  them in the order of 2-cubes although they were written row by row.\<close>

theorem bools_load_exact:
  assumes c: "c \<in> cube 32"
  shows "bools_load (compress_bools v mem) c =
     (let k = length (filter (mixed v mem) [0..<node_id c])
      in if mixed_nodes v mem = [] then Some (view_load v mem c)
      else if k < length (mixed_nodes v mem)
      then Some (view_load v mem (add3 (nodeBaseOffset (mixed_nodes v mem ! k)) (UVec3 (leaf_id c mod 8) (leaf_id c div 8) (element_id c))))
      else None)"
proof -
  have i: "node_id c < 64" by (rule node_id_less [OF c])
  define k where "k = length (filter (mixed v mem) [0..<node_id c])"
  define w where "w = m_nonuniform_node_mask (compress_bools v mem)"
  have "popcount (w AND (onebit (node_id c) - 1)) = rank w (node_id c)" using i by (intro popcount_below) simp
  also have "\<dots> = k" unfolding rank_def k_def w_def
    using i by (intro arg_cong [of _ _ length] filter_cong refl) (simp add: compress_bools_ok)
  finally have r: "popcount (w AND (onebit (node_id c) - 1)) = k" .
  have "bools_load (compress_bools v mem) c =
     (if mixed_nodes v mem = [] then Some (view_load v mem c)
      else if k < length (mixed_nodes v mem)
      then Some (view_load v mem (add3 (nodeBaseOffset (mixed_nodes v mem ! k)) (UVec3 (leaf_id c mod 8) (leaf_id c div 8) (element_id c))))
      else None)"
  proof (cases "mixed_nodes v mem = []")
    case True
    then have nm: "\<not> mixed v mem (node_id c)" using i by (simp add: mixed_nodes_def filter_empty_conv)
    then have "node_all v mem (node_id c) True \<longleftrightarrow> view_load v mem c"
      using c by (auto simp: mixed_def node_all_def)
    then have "bit (m_uniform_value_mask (compress_bools v mem)) (node_id c) \<longleftrightarrow> view_load v mem c"
      using nm i by (simp add: compress_bools_ok)
    then show ?thesis using True
      by (simp add: bools_load_def node_id_def [symmetric] compress_bools_ok(1) and_onebit_zero)
  next
    case False
    have "bools_load (compress_bools v mem) c = (if k < length (mixed_nodes v mem)
        then Some (bit (node_bytes v mem (mixed_nodes v mem ! k) ! leaf_id c) (element_id c)) else None)"
      using False unfolding bools_load_def node_id_def [symmetric] leaf_id_def [symmetric] element_id_def [symmetric]
        w_def [symmetric] r Let_def
      by (simp add: compress_bools_ok(1) and_onebit_zero)
    then show ?thesis using False node_bytes_bit [OF leaf_id_less element_id_less, of v mem] by simp
  qed
  then show ?thesis by (simp only: Let_def k_def)
qed

theorem bools_load_exact_witness:
  "bools_load (compress_bools (cube_view 32) (replicate 32768 True)) (UVec3 3 4 5) = Some True"
proof -
  have "node_all (cube_view 32) (replicate 32768 True) i True" for i
    using view_load_replicate [of _ 32 True] by (simp add: node_all_def)
  then have "mixed_nodes (cube_view 32) (replicate 32768 True) = []" by (simp add: mixed_nodes_def mixed_def)
  moreover have "UVec3 3 4 5 \<in> cube 32" by (simp add: box_def)
  ultimately show ?thesis
    using bools_load_exact [of "UVec3 3 4 5" "cube_view 32" "replicate 32768 True"] view_load_replicate [of "UVec3 3 4 5" 32 True]
    by simp
qed

section \<open>Expansion\<close>

lemma fold_shift: "fold f [a..<a + n] = fold (\<lambda>i. f (a + i)) [0..<n]" for f :: "nat \<Rightarrow> 's \<Rightarrow> 's"
proof -
  have "[a..<a + n] = map (\<lambda>i. a + i) [0..<n]" by (rule nth_equalityI) simp_all
  then show ?thesis by (simp only: fold_map comp_def)
qed

lemma view_fill_box_subview: "view_fill_box v off (UVec3 M M M) val = view_fill M (subview v off) val"
proof -
  have a: "vdata v + (vy off + y) * y_stride v + (vx off + x) * x_stride v + vz off = view_addr v off + y * y_stride v + x * x_stride v" for x y
    by (simp add: view_addr_def algebra_simps)
  show ?thesis unfolding view_fill_box_def view_fill_def by (simp add: fold_shift a subview_def)
qed

text \<open>The loop over a mixed node runs into the undefined shift after 32 of its 729 steps.\<close>

lemma expand_bool_count:
  assumes "r = None \<or> (\<exists>mem. r = Some (mem, k)) \<and> k \<le> 32"
  shows "expand_bool v node c r = None \<or> (\<exists>mem. expand_bool v node c r = Some (mem, k + 1)) \<and> k + 1 \<le> 32"
  using assms by (auto simp: expand_bool_def split: if_splits)

lemma fold_count:
  assumes "\<And>c k r. r = None \<or> (\<exists>mem. r = Some (mem, k)) \<and> k \<le> 32 \<Longrightarrow>
      step c r = None \<or> (\<exists>mem. step c r = Some (mem, k + d)) \<and> k + d \<le> (32 :: nat)"
  shows "r = None \<or> (\<exists>mem. r = Some (mem, k)) \<and> k \<le> 32 \<Longrightarrow>
    fold step cs r = None \<or> (\<exists>mem. fold step cs r = Some (mem, k + length cs * d)) \<and> k + length cs * d \<le> 32"
proof (induction cs arbitrary: r k)
  case (Cons c cs)
  show ?case using Cons.IH [OF assms [OF Cons.prems]] by (simp add: algebra_simps)
qed simp

lemma expand_mixed_None:
  "fold (\<lambda>y. fold (\<lambda>x. fold (\<lambda>z. expand_bool v node (UVec3 x y z)) [c..<c + 9]) [b..<b + 9]) [a..<a + 9] (Some (mem, 0)) = None"
proof -
  have z: "r = None \<or> (\<exists>mem. r = Some (mem, k)) \<and> k \<le> 32 \<Longrightarrow>
      fold (\<lambda>z. expand_bool v node (UVec3 x y z)) [c..<c + 9] r = None
      \<or> (\<exists>mem. fold (\<lambda>z. expand_bool v node (UVec3 x y z)) [c..<c + 9] r = Some (mem, k + 9)) \<and> k + 9 \<le> 32" for x y r k
    using fold_count [of "\<lambda>z. expand_bool v node (UVec3 x y z)" 1 r k "[c..<c + 9]", OF expand_bool_count] by simp
  have x: "r = None \<or> (\<exists>mem. r = Some (mem, k)) \<and> k \<le> 32 \<Longrightarrow>
      fold (\<lambda>x. fold (\<lambda>z. expand_bool v node (UVec3 x y z)) [c..<c + 9]) [b..<b + 9] r = None
      \<or> (\<exists>mem. fold (\<lambda>x. fold (\<lambda>z. expand_bool v node (UVec3 x y z)) [c..<c + 9]) [b..<b + 9] r = Some (mem, k + 81)) \<and> k + 81 \<le> 32" for y r k
    using fold_count [of "\<lambda>x. fold (\<lambda>z. expand_bool v node (UVec3 x y z)) [c..<c + 9]" 9 r k "[b..<b + 9]", OF z] by simp
  have "fold (\<lambda>y. fold (\<lambda>x. fold (\<lambda>z. expand_bool v node (UVec3 x y z)) [c..<c + 9]) [b..<b + 9]) [a..<a + 9] (Some (mem, 0)) = None
      \<or> 0 + length [a..<a + 9] * 81 \<le> 32"
    using fold_count [of "\<lambda>y. fold (\<lambda>x. fold (\<lambda>z. expand_bool v node (UVec3 x y z)) [c..<c + 9]) [b..<b + 9]" 81 "Some (mem, 0)" 0 "[a..<a + 9]", OF x] by blast
  then show ?thesis by simp
qed

lemma expand_node_None: "fold (expand_bool_node v s) is None = None"
  by (induction "is") (simp_all add: expand_bool_node_def)

lemma expand_uniform:
  assumes ok: "view_ok 32 v mem" and u: "m_nonuniform_node_mask s = 0"
  shows "n \<le> 64 \<Longrightarrow> \<exists>mem'. fold (expand_bool_node v s) [0..<n] (Some mem) = Some mem'
    \<and> writes v {c \<in> cube 32. node_id c < n} (\<lambda>c. bit (m_uniform_value_mask s) (node_id c)) mem mem'"
proof (induction n)
  case 0
  then show ?case by (simp add: writes_nothing)
next
  case (Suc n)
  then obtain mem' where f: "fold (expand_bool_node v s) [0..<n] (Some mem) = Some mem'"
    and w: "writes v {c \<in> cube 32. node_id c < n} (\<lambda>c. bit (m_uniform_value_mask s) (node_id c)) mem mem'" by auto
  have n: "n < 64" using Suc.prems by simp
  have ok': "view_ok 32 v mem'" by (rule view_ok_length [OF ok]) (use w in \<open>simp add: writes_def\<close>)
  have sub: "box (nodeBaseOffset n) 8 \<subseteq> cube 32" using node_box [OF n] by blast
  have sok: "view_ok 8 (subview v (nodeBaseOffset n)) mem'" by (rule view_ok_subview [OF ok' sub]) simp
  have e: "{c \<in> cube 32. node_id c < n} \<union> box (nodeBaseOffset n) 8 = {c \<in> cube 32. node_id c < Suc n}"
    using node_box [OF n] less_Suc_eq by blast
  define val where "val = bit (m_uniform_value_mask s) n"
  have "writes v (box (nodeBaseOffset n) 8) (\<lambda>c. val) mem' (view_fill 8 (subview v (nodeBaseOffset n)) val mem')"
    by (rule writes_subview) (rule view_fill_writes [OF sok])
  then have "writes v (box (nodeBaseOffset n) 8) (\<lambda>c. bit (m_uniform_value_mask s) (node_id c)) mem'
      (view_fill 8 (subview v (nodeBaseOffset n)) val mem')"
    by (rule writes_cong) (use node_box [OF n] in \<open>auto simp: val_def\<close>)
  from writes_then [OF w this writes_subset_inj [OF ok]]
  have "writes v {c \<in> cube 32. node_id c < Suc n} (\<lambda>c. bit (m_uniform_value_mask s) (node_id c)) mem
      (view_fill 8 (subview v (nodeBaseOffset n)) val mem')" unfolding e by blast
  moreover have "fold (expand_bool_node v s) [0..<Suc n] (Some mem) = Some (view_fill 8 (subview v (nodeBaseOffset n)) val mem')"
    using f u by (simp add: expand_bool_node_def view_fill_box_subview and_onebit_zero val_def)
  ultimately show ?case by blast
qed

text \<open>expanding a compressed bool chunk gives back the chunk, and nothing else changes, if no node
  is mixed; as soon as one node is mixed the expansion has undefined behaviour.\<close>

theorem bools_expand_exact:
  assumes "view_ok 32 v' mem'"
  shows "if mixed_nodes v mem = [] then
      (\<exists>out. bools_expand (compress_bools v mem) v' mem' = Some out \<and> writes v' (cube 32) (view_load v mem) mem' out)
    else bools_expand (compress_bools v mem) v' mem' = None"
proof (cases "mixed_nodes v mem = []")
  case True
  then have nm: "\<not> mixed v mem i" if "i < 64" for i using that by (simp add: mixed_nodes_def filter_empty_conv)
  have "m_nonuniform_node_mask (compress_bools v mem) = 0"
    by (rule word_eq_bitI) (use nm in \<open>simp add: compress_bools_ok\<close>)
  from expand_uniform [OF assms this, of 64] obtain out where
    o: "bools_expand (compress_bools v mem) v' mem' = Some out"
      "writes v' {c \<in> cube 32. node_id c < 64} (\<lambda>c. bit (m_uniform_value_mask (compress_bools v mem)) (node_id c)) mem' out"
    by (auto simp: bools_expand_def)
  have "{c \<in> cube 32. node_id c < 64} = cube 32" using node_id_less by blast
  moreover have "bit (m_uniform_value_mask (compress_bools v mem)) (node_id c) = view_load v mem c" if "c \<in> cube 32" for c
    using nm [OF node_id_less [OF that]] node_id_less [OF that] that by (auto simp: compress_bools_ok mixed_def node_all_def)
  ultimately have "writes v' (cube 32) (view_load v mem) mem' out" using o(2) by (auto elim: writes_cong)
  then show ?thesis using True o(1) by simp
next
  case False
  then obtain i where i: "i < 64" "mixed v mem i" by (auto simp: mixed_nodes_def filter_empty_conv)
  have step: "expand_bool_node v' (compress_bools v mem) i r = None" for r
  proof (cases r)
    case (Some m)
    have "bit (m_nonuniform_node_mask (compress_bools v mem)) i" using i by (simp add: compress_bools_ok)
    moreover obtain node nodes where "m_nodes (compress_bools v mem) = Some (node # nodes)"
      using False by (cases "mixed_nodes v mem") (simp_all add: compress_bools_ok)
    ultimately show ?thesis by (simp add: Some expand_bool_node_def Let_def and_onebit_zero expand_mixed_None)
  qed (simp add: expand_bool_node_def)
  have "[0..<64] = [0..<i] @ i # [Suc i..<64]" using i(1) by (metis le0 le_add_diff_inverse less_imp_le_nat plus_nat.add_0 upt_add_eq_append upt_conv_Cons)
  then have "bools_expand (compress_bools v mem) v' mem' = None"
    by (simp only: bools_expand_def fold_append fold_simps comp_def step expand_node_None)
  then show ?thesis using False by simp
qed

theorem bools_expand_exact_witness:
  "\<exists>out. bools_expand (compress_bools (cube_view 32) (replicate 32768 True)) (cube_view 32) (replicate 32768 False) = Some out \<and> out ! 0"
proof -
  have "node_all (cube_view 32) (replicate 32768 True) i True" for i
    using view_load_replicate [of _ 32 True] by (simp add: node_all_def)
  then have "mixed_nodes (cube_view 32) (replicate 32768 True) = []" by (simp add: mixed_nodes_def mixed_def)
  moreover have "view_ok 32 (cube_view 32) (replicate 32768 False)" by (rule cube_view_ok) simp
  ultimately obtain out where
    o: "bools_expand (compress_bools (cube_view 32) (replicate 32768 True)) (cube_view 32) (replicate 32768 False) = Some out"
      "writes (cube_view 32) (cube 32) (view_load (cube_view 32) (replicate 32768 True)) (replicate 32768 False) out"
    using bools_expand_exact [of "cube_view 32" "replicate 32768 False" "cube_view 32" "replicate 32768 True"] by auto
  have "UVec3 0 0 0 \<in> cube 32" by (simp add: box_def)
  then have "out ! view_addr (cube_view 32) (UVec3 0 0 0)"
    using o(2) view_load_replicate [of "UVec3 0 0 0" 32 True] by (simp add: writes_def)
  then show ?thesis using o(1) by (simp add: cube_view_addr)
qed

end
