(* ===== verification/Async_Counter_Tracker.thy ===== *)
theory Async_Counter_Tracker
  imports Prelude "HOL-Library.Multiset"
begin

text \<open>
  \<open>AsyncCounterTracker\<close> (src/voxen/svc/async_counter_tracker.cpp and .hpp): completion of the
  counters that tasks and I/O operations wait on. A counter lives in the list \<open>counter % 64\<close>
  under the value \<open>counter / 64\<close>; a list keeps the largest value up to which all are completed
  and the segments of values completed out of order. Values are \<open>uint64_t\<close>; they are kept as
  naturals, and \<open>wrap64\<close> is written wherever the code adds or subtracts.

  The first half is the code run by one thread. \<open>segs_ok\<close> is the invariant of the segments and
  \<open>done_values\<close> the set of values a list stands for; every completion adds exactly one value.
\<close>

section \<open>State\<close>

abbreviation NUM_COMPLETION_LISTS :: nat where
  "NUM_COMPLETION_LISTS \<equiv> 64"

type_synonym value_segment = "nat \<times> nat"

record completion_list =
  fully_completed :: nat
  out_of_order :: "value_segment list"

record counter_tracker =
  next_allocated :: nat
  completion_lists :: "completion_list list"

definition wrap64 :: "nat \<Rightarrow> nat" where
  "wrap64 v = v mod 2 ^ 64"

definition new_completion_list :: completion_list where
  "new_completion_list = \<lparr>fully_completed = 0, out_of_order = []\<rparr>"

definition new_tracker :: counter_tracker where
  "new_tracker = \<lparr>next_allocated = NUM_COMPLETION_LISTS,
     completion_lists = replicate NUM_COMPLETION_LISTS new_completion_list\<rparr>"

section \<open>Operations\<close>

definition allocateCounter :: "counter_tracker \<Rightarrow> nat \<times> counter_tracker" where
  "allocateCounter t = (next_allocated t, t\<lparr>next_allocated := wrap64 (next_allocated t + 1)\<rparr>)"

text \<open>\<open>compare_exchange_strong\<close> on the completed value: whether it was exchanged, and the
  value \<open>expected\<close> has afterwards.\<close>

definition exchange_completed :: "nat \<Rightarrow> nat \<Rightarrow> completion_list \<Rightarrow> bool \<times> nat \<times> completion_list" where
  "exchange_completed expected desired l =
     (if fully_completed l = expected then (True, expected, l\<lparr>fully_completed := desired\<rparr>)
      else (False, fully_completed l, l))"

definition erase_segment :: "nat \<Rightarrow> 'a list \<Rightarrow> 'a list" where
  "erase_segment i xs = take i xs @ drop (Suc i) xs"

text \<open>The loop that tries to append to an existing segment; \<open>None\<close> is \<open>!appended\<close>.\<close>

function try_append :: "nat \<Rightarrow> value_segment list \<Rightarrow> nat \<Rightarrow> value_segment list option" where
  "try_append desired segs i =
     (if i < length segs then
        if wrap64 (desired + 1) = fst (segs ! i) then
          Some (if i + 1 < length segs \<and> wrap64 (snd (segs ! (i + 1)) + 1) = desired
                then erase_segment (i + 1) (segs[i := (fst (segs ! (i + 1)), snd (segs ! i))])
                else segs[i := (desired, snd (segs ! i))])
        else if desired = wrap64 (snd (segs ! i) + 1) then
          Some (if 0 < i \<and> fst (segs ! (i - 1)) = wrap64 (desired + 1)
                then erase_segment i (segs[i - 1 := (fst (segs ! i), snd (segs ! (i - 1)))])
                else segs[i := (fst (segs ! i), desired)])
        else try_append desired segs (i + 1)
      else None)"
  by pat_completeness auto
termination by (relation "measure (\<lambda>(_, segs, i). length segs - i)") auto

declare try_append.simps [simp del]

text \<open>The position before the first segment that ends below the value.\<close>

fun insert_segment :: "nat \<Rightarrow> value_segment list \<Rightarrow> value_segment list" where
  "insert_segment desired [] = [(desired, desired)]"
| "insert_segment desired (s # segs) =
     (if desired < snd s then s # insert_segment desired segs else (desired, desired) # s # segs)"

definition add_value :: "nat \<Rightarrow> value_segment list \<Rightarrow> value_segment list" where
  "add_value desired segs =
     (case try_append desired segs 0 of Some segs' \<Rightarrow> segs' | None \<Rightarrow> insert_segment desired segs)"

text \<open>The last loop: completed values swallow segments from the back. A failed exchange
  loads the current value into \<open>expected\<close> and the loop goes on.\<close>

function collapse :: "nat \<Rightarrow> completion_list \<Rightarrow> completion_list" where
  "collapse expected l =
     (if out_of_order l = [] then l
      else if fst (last (out_of_order l)) \<noteq> wrap64 (expected + 1) then l
      else case exchange_completed expected (snd (last (out_of_order l))) l of
          (True, _, l') \<Rightarrow> collapse (snd (last (out_of_order l))) (l'\<lparr>out_of_order := butlast (out_of_order l')\<rparr>)
        | (False, expected', _) \<Rightarrow> collapse expected' l)"
  by pat_completeness auto
termination
  by (relation "measures [\<lambda>(_, l). length (out_of_order l), \<lambda>(e, l). if e = fully_completed l then 0 else 1]")
    (auto simp: exchange_completed_def split: if_splits)

declare collapse.simps [simp del]

definition complete_value :: "nat \<Rightarrow> completion_list \<Rightarrow> completion_list" where
  "complete_value desired l =
     (case exchange_completed (wrap64 (desired + 2 ^ 64 - 1)) desired l of
        (True, _, l') \<Rightarrow> l'
      | (False, expected, l') \<Rightarrow>
          collapse expected (l'\<lparr>out_of_order := add_value desired (out_of_order l')\<rparr>))"

definition completeCounter :: "nat \<Rightarrow> counter_tracker \<Rightarrow> counter_tracker" where
  "completeCounter counter t =
     (let i = counter mod NUM_COMPLETION_LISTS in
      t\<lparr>completion_lists := (completion_lists t)
         [i := complete_value (counter div NUM_COMPLETION_LISTS) (completion_lists t ! i)]\<rparr>)"

definition in_segments :: "nat \<Rightarrow> value_segment list \<Rightarrow> bool" where
  "in_segments v segs \<longleftrightarrow> (\<exists>s \<in> set segs. fst s \<le> v \<and> v \<le> snd s)"

definition value_complete :: "nat \<Rightarrow> completion_list \<Rightarrow> bool" where
  "value_complete v l \<longleftrightarrow> v \<le> fully_completed l \<or> in_segments v (out_of_order l)"

definition isCounterComplete :: "nat \<Rightarrow> counter_tracker \<Rightarrow> bool" where
  "isCounterComplete counter t =
     value_complete (counter div NUM_COMPLETION_LISTS)
       (completion_lists t ! (counter mod NUM_COMPLETION_LISTS))"

text \<open>\<open>std::swap(counters[i], counters[j])\<close>.\<close>

definition swap_at :: "nat \<Rightarrow> nat \<Rightarrow> 'a list \<Rightarrow> 'a list" where
  "swap_at i j xs = xs[i := xs ! j, j := xs ! i]"

function trim_loop :: "counter_tracker \<Rightarrow> nat list \<Rightarrow> nat \<Rightarrow> nat \<Rightarrow> nat list \<times> nat" where
  "trim_loop t counters i remaining =
     (if i < remaining then
        if isCounterComplete (counters ! i) t
        then trim_loop t (swap_at i (remaining - 1) counters) i (remaining - 1)
        else trim_loop t counters (i + 1) remaining
      else (counters, remaining))"
  by pat_completeness auto
termination by (relation "measure (\<lambda>(_, _, i, remaining). remaining - i)") auto

declare trim_loop.simps [simp del]

definition trimCompleteCounters :: "nat list \<Rightarrow> counter_tracker \<Rightarrow> nat list \<times> nat" where
  "trimCompleteCounters counters t = trim_loop t counters 0 (length counters)"

section \<open>The segments of a list\<close>

definition segs_ok :: "nat \<Rightarrow> value_segment list \<Rightarrow> bool" where
  "segs_ok f segs \<longleftrightarrow> sorted_wrt (\<lambda>s s'. snd s' + 1 < fst s) segs \<and>
     (\<forall>s \<in> set segs. f < fst s \<and> fst s \<le> snd s \<and> snd s + 1 < 2 ^ 64)"

definition list_ok :: "completion_list \<Rightarrow> bool" where
  "list_ok l \<longleftrightarrow> segs_ok (fully_completed l) (out_of_order l) \<and> fully_completed l + 1 < 2 ^ 64"

definition seg_values :: "value_segment list \<Rightarrow> nat set" where
  "seg_values segs = {v. in_segments v segs}"

definition done_values :: "completion_list \<Rightarrow> nat set" where
  "done_values l = {v. value_complete v l}"

lemma wrap64_small [simp]: "v < 2 ^ 64 \<Longrightarrow> wrap64 v = v"
  by (simp add: wrap64_def)

lemma wrap64_pred: "0 < v \<Longrightarrow> v < 2 ^ 64 \<Longrightarrow> wrap64 (v + 2 ^ 64 - 1) = v - 1"
proof -
  assume "0 < v" "v < 2 ^ 64"
  then have "v + 2 ^ 64 - 1 = (v - 1) + 2 ^ 64" "v - 1 < 2 ^ 64" by auto
  then show ?thesis unfolding wrap64_def by (metis mod_add_self2 mod_less)
qed

lemma in_segments_simps [simp]:
  "in_segments v [] = False"
  "in_segments v (s # segs) = (fst s \<le> v \<and> v \<le> snd s \<or> in_segments v segs)"
  "in_segments v (xs @ ys) = (in_segments v xs \<or> in_segments v ys)"
  by (auto simp: in_segments_def)

lemma done_values_eq: "done_values l = {.. fully_completed l} \<union> seg_values (out_of_order l)"
  by (auto simp: done_values_def seg_values_def value_complete_def)

lemma segs_ok_Nil [simp]: "segs_ok f []"
  by (simp add: segs_ok_def)

lemma segs_ok_Cons: "segs_ok f (s # segs) \<longleftrightarrow> (\<forall>s' \<in> set segs. snd s' + 1 < fst s) \<and>
    f < fst s \<and> fst s \<le> snd s \<and> snd s + 1 < 2 ^ 64 \<and> segs_ok f segs"
  by (auto simp: segs_ok_def)

lemma segs_ok_append: "segs_ok f (xs @ ys) \<longleftrightarrow> segs_ok f xs \<and> segs_ok f ys \<and>
    (\<forall>s \<in> set xs. \<forall>s' \<in> set ys. snd s' + 1 < fst s)"
  by (auto simp: segs_ok_def sorted_wrt_append)

lemma erase_segment_split [simp]: "i = length xs \<Longrightarrow> erase_segment i (xs @ y # ys) = xs @ ys"
  by (simp add: erase_segment_def)

lemma insert_segment_set: "set (insert_segment d segs) = insert (d, d) (set segs)"
  by (induction segs) auto

lemma in_segments_insert: "in_segments v (insert_segment d segs) \<longleftrightarrow> v = d \<or> in_segments v segs"
  by (induction segs) auto

text \<open>A value apart from all segments finds its place between them.\<close>

definition apart :: "nat \<Rightarrow> value_segment list \<Rightarrow> bool" where
  "apart d segs \<longleftrightarrow> (\<forall>s \<in> set segs. snd s + 1 < d \<or> d + 1 < fst s)"

lemma insert_segment_ok:
  "segs_ok f segs \<Longrightarrow> apart d segs \<Longrightarrow> f < d \<Longrightarrow> d + 1 < 2 ^ 64 \<Longrightarrow> segs_ok f (insert_segment d segs)"
proof (induction segs)
  case (Cons s segs)
  have ok: "\<forall>s' \<in> set segs. snd s' + 1 < fst s" "fst s \<le> snd s" "segs_ok f segs"
    using Cons.prems(1) by (auto simp: segs_ok_Cons)
  have ap: "snd s + 1 < d \<or> d + 1 < fst s" "apart d segs"
    using Cons.prems(2) by (auto simp: apart_def)
  show ?case
  proof (cases "d < snd s")
    case True
    then have "d + 1 < fst s" using ap by auto
    with True ok Cons ap show ?thesis by (auto simp: segs_ok_Cons insert_segment_set)
  next
    case False
    then have "snd s + 1 < d" using ap ok by auto
    with False ok Cons.prems show ?thesis by (fastforce simp: segs_ok_Cons)
  qed
qed (simp add: segs_ok_Cons)

text \<open>One found place: the segment grows by the value, and the next one may join it.\<close>

lemma append_left:
  assumes ok: "segs_ok f (xs @ (a, b) # ys)" and a: "a = d + 1" and f: "f < d"
  shows "segs_ok f (xs @ (d, b) # ys) \<or> (\<exists>s zs. ys = s # zs \<and> snd s + 1 = d)"
    "ys = s # zs \<Longrightarrow> snd s + 1 = d \<Longrightarrow> segs_ok f (xs @ (fst s, b) # zs)"
    "ys = s # zs \<Longrightarrow> snd s + 1 = d \<Longrightarrow> in_segments v (xs @ (fst s, b) # zs) \<longleftrightarrow> v = d \<or> in_segments v (xs @ (a, b) # ys)"
    "in_segments v (xs @ (d, b) # ys) \<longleftrightarrow> v = d \<or> in_segments v (xs @ (a, b) # ys)"
proof -
  show "segs_ok f (xs @ (d, b) # ys) \<or> (\<exists>s zs. ys = s # zs \<and> snd s + 1 = d)"
  proof (cases ys)
    case Nil
    then show ?thesis using ok a f by (auto simp: segs_ok_append segs_ok_Cons)
  next
    case (Cons s zs)
    have "\<forall>s' \<in> set zs. snd s' + 1 < fst s" "snd s + 1 < a" "fst s \<le> snd s"
      using ok Cons by (auto simp: segs_ok_append segs_ok_Cons)
    then show ?thesis using ok a f Cons by (fastforce simp: segs_ok_append segs_ok_Cons)
  qed
  show "in_segments v (xs @ (d, b) # ys) \<longleftrightarrow> v = d \<or> in_segments v (xs @ (a, b) # ys)"
    using ok a by (auto simp: segs_ok_append segs_ok_Cons)
  assume y: "ys = s # zs" "snd s + 1 = d"
  show "segs_ok f (xs @ (fst s, b) # zs)"
    using ok a y by (fastforce simp: segs_ok_append segs_ok_Cons)
  show "in_segments v (xs @ (fst s, b) # zs) \<longleftrightarrow> v = d \<or> in_segments v (xs @ (a, b) # ys)"
    using ok a y by (auto simp: segs_ok_append segs_ok_Cons)
qed

lemma append_right:
  assumes ok: "segs_ok f (xs @ (a, b) # ys)" and d: "d = b + 1" "d + 1 < 2 ^ 64"
  shows "segs_ok f (xs @ (a, d) # ys) \<or> (\<exists>zs s. xs = zs @ [s] \<and> fst s = d + 1)"
    "xs = zs @ [s] \<Longrightarrow> fst s = d + 1 \<Longrightarrow> segs_ok f (zs @ (a, snd s) # ys)"
    "xs = zs @ [s] \<Longrightarrow> fst s = d + 1 \<Longrightarrow> in_segments v (zs @ (a, snd s) # ys) \<longleftrightarrow> v = d \<or> in_segments v (xs @ (a, b) # ys)"
    "in_segments v (xs @ (a, d) # ys) \<longleftrightarrow> v = d \<or> in_segments v (xs @ (a, b) # ys)"
proof -
  show "segs_ok f (xs @ (a, d) # ys) \<or> (\<exists>zs s. xs = zs @ [s] \<and> fst s = d + 1)"
  proof (cases xs rule: rev_cases)
    case Nil
    then show ?thesis using ok d by (auto simp: segs_ok_append segs_ok_Cons)
  next
    case (snoc zs s)
    have "\<forall>s' \<in> set zs. snd s + 1 < fst s'" "b + 1 < fst s" "fst s \<le> snd s"
      using ok snoc by (auto simp: segs_ok_append segs_ok_Cons)
    then show ?thesis using ok d snoc by (fastforce simp: segs_ok_append segs_ok_Cons)
  qed
  show "in_segments v (xs @ (a, d) # ys) \<longleftrightarrow> v = d \<or> in_segments v (xs @ (a, b) # ys)"
    using ok d by (auto simp: segs_ok_append segs_ok_Cons)
  assume y: "xs = zs @ [s]" "fst s = d + 1"
  show "segs_ok f (zs @ (a, snd s) # ys)"
    using ok d y by (fastforce simp: segs_ok_append segs_ok_Cons)
  show "in_segments v (zs @ (a, snd s) # ys) \<longleftrightarrow> v = d \<or> in_segments v (xs @ (a, b) # ys)"
    using ok d y by (auto simp: segs_ok_append segs_ok_Cons)
qed

definition adds_value :: "nat \<Rightarrow> nat \<Rightarrow> value_segment list \<Rightarrow> value_segment list \<Rightarrow> bool" where
  "adds_value f d segs segs' \<longleftrightarrow> segs_ok f segs' \<and> (\<forall>v. in_segments v segs' \<longleftrightarrow> v = d \<or> in_segments v segs)"

lemma adds_valueI:
  "segs_ok f segs' \<Longrightarrow> (\<And>v. in_segments v segs' \<longleftrightarrow> v = d \<or> in_segments v segs) \<Longrightarrow> adds_value f d segs segs'"
  by (simp add: adds_value_def)

lemma segs_ok_bound: "segs_ok f segs \<Longrightarrow> i < length segs \<Longrightarrow>
    f < fst (segs ! i) \<and> fst (segs ! i) \<le> snd (segs ! i) \<and> snd (segs ! i) + 1 < 2 ^ 64"
  by (simp add: segs_ok_def)

lemma try_append_adds:
  assumes "segs_ok f segs" "f < d" "d + 1 < 2 ^ 64"
  shows "case try_append d segs i of Some segs' \<Rightarrow> adds_value f d segs segs'
     | None \<Rightarrow> \<forall>j. i \<le> j \<and> j < length segs \<longrightarrow> d + 1 \<noteq> fst (segs ! j) \<and> d \<noteq> snd (segs ! j) + 1"
  using assms
proof (induction d segs i rule: try_append.induct)
  case (1 d segs i)
  show ?case
  proof (cases "i < length segs")
    case False
    then show ?thesis by (subst try_append.simps) simp
  next
    case i: True
    obtain xs a b ys where segs: "segs = xs @ (a, b) # ys" "i = length xs"
      using id_take_nth_drop[OF i] i by (metis length_take min.absorb4 surj_pair)
    note ok = 1(2)[unfolded segs(1)]
    have bnd: "b + 1 < 2 ^ 64" "a \<le> b" using segs_ok_bound[OF 1(2) i] by (auto simp: segs)
    have w: "wrap64 (d + 1) = d + 1" "wrap64 (b + 1) = b + 1" using 1(4) bnd by simp_all
    consider (left) "d + 1 = a" | (right) "d + 1 \<noteq> a" "d = b + 1" | (skip) "d + 1 \<noteq> a" "d \<noteq> b + 1"
      by blast
    then show ?thesis
    proof cases
      case left
      note L = append_left[OF ok left[symmetric] 1(3)]
      show ?thesis
      proof (cases "\<exists>s zs. ys = s # zs \<and> snd s + 1 = d")
        case True
        then obtain s zs where y: "ys = s # zs" "snd s + 1 = d" by blast
        have "try_append d segs i = Some (xs @ (fst s, b) # zs)"
          using left w y 1(4) by (subst try_append.simps) (simp add: segs nth_append erase_segment_def)
        then show ?thesis using L(2,3)[OF y] by (simp add: adds_valueI segs(1))
      next
        case no: False
        then have "segs_ok f (xs @ (d, b) # ys)" using L(1) by blast
        moreover have "try_append d segs i = Some (xs @ (d, b) # ys)"
        proof -
          have "\<not> (i + 1 < length segs \<and> wrap64 (snd (segs ! (i + 1)) + 1) = d)"
          proof
            assume a: "i + 1 < length segs \<and> wrap64 (snd (segs ! (i + 1)) + 1) = d"
            then obtain s zs where "ys = s # zs" by (cases ys) (auto simp: segs)
            moreover have "snd (segs ! (i + 1)) + 1 < 2 ^ 64" using segs_ok_bound[OF 1(2)] a by blast
            ultimately show False using a no by (simp add: segs nth_append)
          qed
          then show ?thesis
            using left w by (subst try_append.simps) (auto simp: segs nth_append)
        qed
        ultimately show ?thesis using L(4) by (simp add: adds_valueI segs(1))
      qed
    next
      case right
      note R = append_right[OF ok right(2) 1(4)]
      show ?thesis
      proof (cases "\<exists>zs s. xs = zs @ [s] \<and> fst s = d + 1")
        case True
        then obtain zs s where y: "xs = zs @ [s]" "fst s = d + 1" by blast
        have "try_append d segs i = Some (zs @ (a, snd s) # ys)"
          using right w y by (subst try_append.simps) (simp add: segs nth_append erase_segment_def list_update_append)
        then show ?thesis using R(2,3)[OF y] by (simp add: adds_valueI segs(1))
      next
        case no: False
        then have "segs_ok f (xs @ (a, d) # ys)" using R(1) by blast
        moreover have "\<not> (0 < i \<and> fst (segs ! (i - 1)) = d + 1)"
          using no by (cases xs rule: rev_cases) (auto simp: segs nth_append)
        then have "try_append d segs i = Some (xs @ (a, d) # ys)"
          using right w by (subst try_append.simps) (auto simp: segs nth_append split: if_splits)
        ultimately show ?thesis using R(4) by (simp add: adds_valueI segs(1))
      qed
    next
      case skip
      have rec: "try_append d segs i = try_append d segs (i + 1)"
        using i skip w by (subst try_append.simps) (simp add: segs nth_append)
      have "case try_append d segs (i + 1) of Some segs' \<Rightarrow> adds_value f d segs segs'
         | None \<Rightarrow> \<forall>j. i + 1 \<le> j \<and> j < length segs \<longrightarrow> d + 1 \<noteq> fst (segs ! j) \<and> d \<noteq> snd (segs ! j) + 1"
        using 1(1)[OF i] skip w 1(2,3,4) by (simp add: segs nth_append)
      moreover have "segs ! i = (a, b)" by (simp add: segs)
      ultimately show ?thesis unfolding rec
        using skip by (auto split: option.splits) (metis Suc_leI fst_conv le_neq_implies_less snd_conv)+
    qed
  qed
qed

lemma add_value_adds:
  assumes "segs_ok f segs" "f < d" "d + 1 < 2 ^ 64" "\<not> in_segments d segs"
  shows "adds_value f d segs (add_value d segs)"
proof (cases "try_append d segs 0")
  case (Some segs')
  then show ?thesis using try_append_adds[OF assms(1-3), of 0] by (simp add: add_value_def)
next
  case None
  have "apart d segs"
    unfolding apart_def
  proof
    fix s assume s: "s \<in> set segs"
    then obtain j where j: "j < length segs" "s = segs ! j" by (metis in_set_conv_nth)
    have "d + 1 \<noteq> fst s" "d \<noteq> snd s + 1"
      using try_append_adds[OF assms(1-3), of 0] None j by auto
    moreover have "\<not> (fst s \<le> d \<and> d \<le> snd s)" using assms(4) s by (auto simp: in_segments_def)
    ultimately show "snd s + 1 < d \<or> d + 1 < fst s" by linarith
  qed
  then show ?thesis
    using None assms by (simp add: add_value_def adds_valueI insert_segment_ok in_segments_insert)
qed

text \<open>The last loop does not change what a list stands for.\<close>

lemma segs_ok_raise: "segs_ok f segs \<Longrightarrow> (\<And>s. s \<in> set segs \<Longrightarrow> g < fst s) \<Longrightarrow> segs_ok g segs"
  by (simp add: segs_ok_def)

lemma segs_ok_last:
  assumes "segs_ok f segs" "segs \<noteq> []" "fst (last segs) = f + 1"
  shows "segs_ok (snd (last segs)) (butlast segs)"
    "v \<le> snd (last segs) \<or> in_segments v (butlast segs) \<longleftrightarrow> v \<le> f \<or> in_segments v segs"
proof -
  obtain ss a b where s: "segs = ss @ [(a, b)]" using assms(2) by (metis append_butlast_last_id surj_pair)
  show "segs_ok (snd (last segs)) (butlast segs)"
    using assms(1) by (fastforce intro: segs_ok_raise simp: s segs_ok_append)
  show "v \<le> snd (last segs) \<or> in_segments v (butlast segs) \<longleftrightarrow> v \<le> f \<or> in_segments v segs"
    using assms by (auto simp: s segs_ok_append segs_ok_Cons)
qed

lemma collapse_keeps:
  assumes "list_ok l" "e \<le> fully_completed l"
  shows "list_ok (collapse e l) \<and> done_values (collapse e l) = done_values l"
  using assms
proof (induction e l rule: collapse.induct)
  case (1 e l)
  let ?s = "last (out_of_order l)"
  show ?case
  proof (cases "out_of_order l = [] \<or> fst ?s \<noteq> wrap64 (e + 1)")
    case True
    then have "collapse e l = l" by (subst collapse.simps) auto
    then show ?thesis using 1(3) by simp
  next
    case False
    then have c: "out_of_order l \<noteq> []" "fst ?s = wrap64 (e + 1)" by auto
    have e: "wrap64 (e + 1) = e + 1" using 1(3,4) by (simp add: list_ok_def)
    have ok: "segs_ok (fully_completed l) (out_of_order l)" using 1(3) by (simp add: list_ok_def)
    then have b: "snd ?s + 1 < 2 ^ 64" using c(1) by (simp add: segs_ok_def)
    show ?thesis
    proof (cases "fully_completed l = e")
      case True
      let ?l = "l\<lparr>fully_completed := snd ?s, out_of_order := butlast (out_of_order l)\<rparr>"
      have r: "collapse e l = collapse (snd ?s) ?l"
        using c True by (subst collapse.simps) (simp add: exchange_completed_def)
      have k: "segs_ok (snd ?s) (butlast (out_of_order l))"
          "\<And>v. v \<le> snd ?s \<or> in_segments v (butlast (out_of_order l)) \<longleftrightarrow> v \<le> fully_completed l \<or> in_segments v (out_of_order l)"
        using segs_ok_last[OF ok c(1)] c(2) e True by auto
      have "list_ok ?l" using k(1) b by (simp add: list_ok_def)
      moreover have "done_values ?l = done_values l" using k(2) by (simp add: done_values_def value_complete_def)
      ultimately show ?thesis unfolding r
        using 1(1)[of True "(e, l\<lparr>fully_completed := snd ?s\<rparr>)" e "l\<lparr>fully_completed := snd ?s\<rparr>"] c True
        by (simp add: exchange_completed_def)
    next
      case False
      have r: "collapse e l = collapse (fully_completed l) l"
        using c False by (subst collapse.simps) (simp add: exchange_completed_def)
      show ?thesis unfolding r using 1(2)[of False "(fully_completed l, l)" "fully_completed l" l] c False 1(3)
        by (simp add: exchange_completed_def)
    qed
  qed
qed

lemma complete_value_adds:
  assumes "list_ok l" "d \<notin> done_values l" "d + 1 < 2 ^ 64"
  shows "list_ok (complete_value d l)" "done_values (complete_value d l) = insert d (done_values l)"
proof -
  have d: "fully_completed l < d" "\<not> in_segments d (out_of_order l)"
    using assms(2) by (auto simp: done_values_def value_complete_def)
  have w: "wrap64 (d + 2 ^ 64 - 1) = d - 1" using d assms(3) by (intro wrap64_pred) auto
  have ok: "segs_ok (fully_completed l) (out_of_order l)" using assms(1) by (simp add: list_ok_def)
  have "list_ok (complete_value d l) \<and> done_values (complete_value d l) = insert d (done_values l)"
  proof (cases "fully_completed l = d - 1")
    case True
    then have c: "complete_value d l = l\<lparr>fully_completed := d\<rparr>"
      unfolding complete_value_def w exchange_completed_def by simp
    have "f < d \<Longrightarrow> segs_ok f segs \<Longrightarrow> f = d - 1 \<Longrightarrow> \<not> in_segments d segs \<Longrightarrow> segs_ok d segs" for f segs
      by (fastforce simp: segs_ok_def in_segments_def)
    then have "segs_ok d (out_of_order l)" using d ok True by blast
    then show ?thesis using True d assms(3)
      by (auto simp: c list_ok_def done_values_def value_complete_def)
  next
    case False
    let ?l = "l\<lparr>out_of_order := add_value d (out_of_order l)\<rparr>"
    have c: "complete_value d l = collapse (fully_completed l) ?l"
      using False unfolding complete_value_def w exchange_completed_def by simp
    have a: "adds_value (fully_completed l) d (out_of_order l) (add_value d (out_of_order l))"
      by (rule add_value_adds[OF ok d(1) assms(3) d(2)])
    then have "list_ok ?l" "done_values ?l = insert d (done_values l)"
      using assms(1) by (auto simp: list_ok_def adds_value_def done_values_def value_complete_def)
    then show ?thesis unfolding c using collapse_keeps[of ?l "fully_completed l"] by simp
  qed
  then show "list_ok (complete_value d l)" "done_values (complete_value d l) = insert d (done_values l)"
    by simp_all
qed

section \<open>The tracker\<close>

definition tracker_ok :: "counter_tracker \<Rightarrow> bool" where
  "tracker_ok t \<longleftrightarrow> length (completion_lists t) = NUM_COMPLETION_LISTS \<and>
     (\<forall>l \<in> set (completion_lists t). list_ok l)"

lemma new_tracker_ok: "tracker_ok new_tracker"
  by (simp add: tracker_ok_def new_tracker_def new_completion_list_def list_ok_def)

lemma new_tracker_complete: "isCounterComplete c new_tracker \<longleftrightarrow> c < NUM_COMPLETION_LISTS"
  by (simp add: isCounterComplete_def new_tracker_def new_completion_list_def value_complete_def
      div_eq_0_iff)

lemma next_allocated_complete [simp]: "next_allocated (completeCounter c t) = next_allocated t"
  by (simp add: completeCounter_def Let_def)

lemma completeCounter_adds:
  assumes ok: "tracker_ok t" and c: "\<not> isCounterComplete c t" "c < 2 ^ 64"
  shows "tracker_ok (completeCounter c t)"
    "isCounterComplete c' (completeCounter c t) \<longleftrightarrow> c' = c \<or> isCounterComplete c' t"
proof -
  let ?i = "c mod NUM_COMPLETION_LISTS" and ?v = "c div NUM_COMPLETION_LISTS"
  let ?l = "completion_lists t ! ?i"
  have len: "length (completion_lists t) = NUM_COMPLETION_LISTS" using ok by (simp add: tracker_ok_def)
  have l: "list_ok ?l" using ok len by (simp add: tracker_ok_def)
  have v: "?v \<notin> done_values ?l" using c(1) by (simp add: isCounterComplete_def done_values_def)
  have "?v \<le> c" "?v \<noteq> 0" using v by (auto simp: done_values_eq)
  then have "?v + 1 < 2 ^ 64" using c(2) by linarith
  note k = complete_value_adds[OF l v this]
  show "tracker_ok (completeCounter c t)"
    using ok len k(1) set_update_subset_insert by (fastforce simp: tracker_ok_def completeCounter_def Let_def)
  have m: "value_complete w (complete_value ?v ?l) \<longleftrightarrow> w = ?v \<or> value_complete w ?l" for w
    using k(2) by (auto simp: done_values_def)
  show "isCounterComplete c' (completeCounter c t) \<longleftrightarrow> c' = c \<or> isCounterComplete c' t"
  proof (cases "c' mod NUM_COMPLETION_LISTS = ?i")
    case True
    then have "c' = c \<longleftrightarrow> c' div NUM_COMPLETION_LISTS = ?v" by (metis div_mult_mod_eq)
    then show ?thesis using True len m by (simp add: isCounterComplete_def completeCounter_def Let_def)
  next
    case False
    then show ?thesis using len by (auto simp: isCounterComplete_def completeCounter_def Let_def)
  qed
qed

section \<open>Histories\<close>

text \<open>A history of one program: it completes only counters it has been given, each once.\<close>

datatype tracker_op = Allocate | Complete nat

fun tracker_step :: "tracker_op \<Rightarrow> counter_tracker \<Rightarrow> counter_tracker" where
  "tracker_step Allocate t = snd (allocateCounter t)"
| "tracker_step (Complete c) t = completeCounter c t"

fun history_ok :: "nat \<Rightarrow> nat list \<Rightarrow> tracker_op list \<Rightarrow> bool" where
  "history_ok n cs [] = True"
| "history_ok n cs (Allocate # ops) = (n + 1 < 2 ^ 64 \<and> history_ok (n + 1) cs ops)"
| "history_ok n cs (Complete c # ops) =
     (NUM_COMPLETION_LISTS \<le> c \<and> c < n \<and> c \<notin> set cs \<and> history_ok n (c # cs) ops)"

definition tracks :: "nat \<Rightarrow> nat list \<Rightarrow> counter_tracker \<Rightarrow> bool" where
  "tracks n cs t \<longleftrightarrow> tracker_ok t \<and> next_allocated t = n \<and> n < 2 ^ 64 \<and>
     (\<forall>c. isCounterComplete c t \<longleftrightarrow> c < NUM_COMPLETION_LISTS \<or> c \<in> set cs)"

definition completed_by :: "tracker_op list \<Rightarrow> nat list" where
  "completed_by ops = concat (map (\<lambda>p. case p of Complete c \<Rightarrow> [c] | Allocate \<Rightarrow> []) ops)"

definition allocations :: "tracker_op list \<Rightarrow> nat" where
  "allocations ops = length (filter (\<lambda>p. p = Allocate) ops)"

lemma completed_by_simps [simp]:
  "completed_by [] = []"
  "completed_by (Allocate # ops) = completed_by ops"
  "completed_by (Complete c # ops) = c # completed_by ops"
  by (simp_all add: completed_by_def)

lemma allocations_simps [simp]:
  "allocations [] = 0"
  "allocations (Allocate # ops) = Suc (allocations ops)"
  "allocations (Complete c # ops) = allocations ops"
  by (simp_all add: allocations_def)

lemma history_replicate [simp]:
  "n + k < 2 ^ 64 \<Longrightarrow> history_ok n cs (replicate k Allocate @ ops) = history_ok (n + k) cs ops"
  by (induction k arbitrary: n) auto

lemma allocations_replicate [simp]: "allocations (replicate k Allocate @ ops) = k + allocations ops"
  by (simp add: allocations_def)

lemma allocate_tracks: "tracks n cs t \<Longrightarrow> n + 1 < 2 ^ 64 \<Longrightarrow> tracks (n + 1) cs (snd (allocateCounter t))"
  by (simp add: tracks_def allocateCounter_def tracker_ok_def isCounterComplete_def)

lemma complete_tracks:
  assumes "tracks n cs t" "NUM_COMPLETION_LISTS \<le> c" "c < n" "c \<notin> set cs"
  shows "tracks n (c # cs) (completeCounter c t)"
proof -
  have "\<not> isCounterComplete c t" "c < 2 ^ 64" "tracker_ok t" using assms by (auto simp: tracks_def)
  from completeCounter_adds[OF this(3,1,2)] assms show ?thesis by (auto simp: tracks_def)
qed

lemma fold_tracks:
  "tracks n cs t \<Longrightarrow> history_ok n cs ops \<Longrightarrow>
     \<exists>cs'. set cs' = set cs \<union> set (completed_by ops) \<and> tracks (n + allocations ops) cs' (fold tracker_step ops t)"
proof (induction n cs ops arbitrary: t rule: history_ok.induct)
  case (2 n cs ops)
  then show ?case using allocate_tracks by fastforce
next
  case (3 n cs c ops)
  then have "tracks n (c # cs) (completeCounter c t)" by (intro complete_tracks) auto
  from 3(1)[OF this] 3(3) show ?case by auto
qed auto

lemma new_tracks: "tracks NUM_COMPLETION_LISTS [] new_tracker"
  using new_tracker_ok by (simp add: tracks_def new_tracker_complete) (simp add: new_tracker_def)

lemma history_tracks:
  assumes "history_ok NUM_COMPLETION_LISTS [] ops"
  obtains cs where "set cs = set (completed_by ops)"
    "tracks (NUM_COMPLETION_LISTS + allocations ops) cs (fold tracker_step ops new_tracker)"
  using fold_tracks[OF new_tracks assms] by auto

text \<open>C20: However a program interleaves allocations and completions, and in whatever order it
  completes its counters, as long as it completes only counters it has been given and each
  of them once: the tracker holds exactly the completed ones for complete (and the first 64
  values, which are never given out), and the next counter is larger than all earlier ones.\<close>

theorem tracker_is_a_set:
  assumes "history_ok NUM_COMPLETION_LISTS [] ops"
  shows "(isCounterComplete c (fold tracker_step ops new_tracker) \<longleftrightarrow>
      c < NUM_COMPLETION_LISTS \<or> Complete c \<in> set ops) \<and>
    fst (allocateCounter (fold tracker_step ops new_tracker)) = NUM_COMPLETION_LISTS + allocations ops"
proof -
  have "c \<in> set (completed_by ops) \<longleftrightarrow> Complete c \<in> set ops" for c
    by (auto simp: completed_by_def split: tracker_op.splits)
  then show ?thesis using history_tracks[OF assms] by (auto simp: tracks_def allocateCounter_def)
qed

theorem tracker_is_a_set_witness:
  "isCounterComplete 192 (fold tracker_step
     (replicate 200 Allocate @ [Complete 192, Complete 64, Complete 128]) new_tracker)"
  using tracker_is_a_set[of "replicate 200 Allocate @ [Complete 192, Complete 64, Complete 128]" 192]
  by simp

section \<open>Memory\<close>

lemma segments_bound:
  assumes "segs_ok f segs"
  shows "length segs \<le> 1 + card {v. f < v \<and> v < snd (hd segs) \<and> \<not> in_segments v segs}"
proof (cases segs)
  case (Cons s ss)
  have gap: "\<And>s'. s' \<in> set ss \<Longrightarrow> f < snd s' + 1 \<and> snd s' + 1 < snd s \<and> \<not> in_segments (snd s' + 1) segs"
  proof -
    fix s' assume s': "s' \<in> set ss"
    have o: "segs_ok f ss" "snd s' + 1 < fst s" "fst s \<le> snd s" "f < fst s'" "fst s' \<le> snd s'"
      using assms s' Cons by (auto simp: segs_ok_Cons) (auto simp: segs_ok_def)
    moreover have "\<not> in_segments (snd s' + 1) ss"
    proof
      assume "in_segments (snd s' + 1) ss"
      then obtain z where z: "z \<in> set ss" "fst z \<le> snd s' + 1" "snd s' + 1 \<le> snd z"
        by (auto simp: in_segments_def)
      then have "z \<noteq> s'" by auto
      obtain i j where "i < length ss" "ss ! i = z" "j < length ss" "ss ! j = s'"
        using z(1) s' by (metis in_set_conv_nth)
      moreover from this \<open>z \<noteq> s'\<close> have "i \<noteq> j" by auto
      ultimately have "snd s' + 1 < fst z \<or> snd z + 1 < fst s'"
        using o(1) unfolding segs_ok_def sorted_wrt_iff_nth_less by (metis linorder_neqE_nat)
      then show False using z o by auto
    qed
    ultimately show "f < snd s' + 1 \<and> snd s' + 1 < snd s \<and> \<not> in_segments (snd s' + 1) segs"
      using Cons by auto
  qed
  have dist: "distinct (map snd ss)"
  proof -
    have "sorted_wrt (\<lambda>s s'. snd s' < snd s) ss"
      using assms Cons by (auto simp: segs_ok_def elim!: sorted_wrt_mono_rel [rotated])
    then show ?thesis by (induction ss) auto
  qed
  let ?G = "{v. f < v \<and> v < snd (hd segs) \<and> \<not> in_segments v segs}"
  have "finite ?G" by (rule finite_subset[of _ "{..< snd (hd segs)}"]) auto
  have "inj_on (\<lambda>s. snd s + 1) (set ss)" "distinct ss" using dist by (auto simp: distinct_map inj_on_def)
  then have "length ss = card ((\<lambda>s. snd s + 1) ` set ss)" by (simp add: card_image distinct_card)
  also have "\<dots> \<le> card ?G" using gap Cons by (intro card_mono \<open>finite ?G\<close>) auto
  finally show ?thesis using Cons by simp
qed simp

lemma segment_values_complete:
  assumes "tracks n cs t" "i < NUM_COMPLETION_LISTS" "in_segments v (out_of_order (completion_lists t ! i))"
  shows "v * NUM_COMPLETION_LISTS + i \<in> set cs"
proof -
  let ?c = "v * NUM_COMPLETION_LISTS + i"
  have c: "?c div NUM_COMPLETION_LISTS = v" "?c mod NUM_COMPLETION_LISTS = i" using assms(2) by auto
  have "list_ok (completion_lists t ! i)" using assms(1,2) by (auto simp: tracks_def tracker_ok_def)
  then have "0 < v" using assms(3) by (auto simp: list_ok_def segs_ok_def in_segments_def)
  then have "\<not> ?c < NUM_COMPLETION_LISTS" by simp
  moreover have "isCounterComplete ?c t"
    using assms(3) unfolding isCounterComplete_def c value_complete_def by simp
  ultimately show ?thesis using assms(1) unfolding tracks_def by blast
qed

lemma list_bound:
  assumes t: "tracks n cs t" and i: "i < NUM_COMPLETION_LISTS" and cs: "\<And>c. c \<in> set cs \<Longrightarrow> c < n"
  shows "length (out_of_order (completion_lists t ! i)) \<le>
    1 + card {c. c < n \<and> c mod NUM_COMPLETION_LISTS = i \<and> \<not> isCounterComplete c t}"
proof -
  let ?l = "completion_lists t ! i"
  let ?segs = "out_of_order ?l"
  let ?V = "{v. fully_completed ?l < v \<and> v < snd (hd ?segs) \<and> \<not> in_segments v ?segs}"
  let ?C = "{c. c < n \<and> c mod NUM_COMPLETION_LISTS = i \<and> \<not> isCounterComplete c t}"
  have ok: "segs_ok (fully_completed ?l) ?segs" using t i by (auto simp: tracks_def tracker_ok_def list_ok_def)
  show ?thesis
  proof (cases "?segs = []")
    case False
    then have "in_segments (snd (hd ?segs)) ?segs"
      using ok hd_in_set unfolding in_segments_def segs_ok_def by (metis le_refl)
    from cs[OF segment_values_complete[OF t i this]] have h: "snd (hd ?segs) * NUM_COMPLETION_LISTS + i < n" .
    have sub: "(\<lambda>v. v * NUM_COMPLETION_LISTS + i) ` ?V \<subseteq> ?C"
    proof
      fix c assume "c \<in> (\<lambda>v. v * NUM_COMPLETION_LISTS + i) ` ?V"
      then obtain v where v: "c = v * NUM_COMPLETION_LISTS + i" "v \<in> ?V" by blast
      have d: "c div NUM_COMPLETION_LISTS = v" "c mod NUM_COMPLETION_LISTS = i" using v(1) i by auto
      have "\<not> isCounterComplete c t" using v(2) unfolding isCounterComplete_def d value_complete_def by simp
      moreover have "c < n" using h v by simp
      ultimately show "c \<in> ?C" using d by simp
    qed
    have "card ?V = card ((\<lambda>v. v * NUM_COMPLETION_LISTS + i) ` ?V)"
      by (rule card_image[symmetric]) (simp add: inj_on_def)
    also have "\<dots> \<le> card ?C" by (rule card_mono[OF _ sub]) simp
    finally show ?thesis using segments_bound[OF ok] by simp
  qed simp
qed

lemma history_completed_below:
  "history_ok n cs ops \<Longrightarrow> c \<in> set (completed_by ops) \<Longrightarrow> c < n + allocations ops"
  by (induction n cs ops rule: history_ok.induct) fastforce+

text \<open>Completed counters cost no memory of their own: a completion list never holds
  more segments than there are counters of that list given out and not yet completed, plus
  one; when all are completed at most one segment is left, whatever the order was.\<close>

theorem tracker_memory:
  assumes "history_ok NUM_COMPLETION_LISTS [] ops" "i < NUM_COMPLETION_LISTS"
  shows "length (out_of_order (completion_lists (fold tracker_step ops new_tracker) ! i)) \<le>
    1 + card {c. c < NUM_COMPLETION_LISTS + allocations ops \<and> c mod NUM_COMPLETION_LISTS = i \<and>
      \<not> isCounterComplete c (fold tracker_step ops new_tracker)}"
proof -
  obtain cs where cs: "set cs = set (completed_by ops)"
    "tracks (NUM_COMPLETION_LISTS + allocations ops) cs (fold tracker_step ops new_tracker)"
    using history_tracks[OF assms(1)] .
  show ?thesis using list_bound[OF cs(2) assms(2)] history_completed_below[OF assms(1)] cs(1) by blast
qed

theorem tracker_memory_witness:
  "length (out_of_order (completion_lists (fold tracker_step
     (replicate 200 Allocate @ [Complete 192]) new_tracker) ! 0)) \<le>
   1 + card {c. c < NUM_COMPLETION_LISTS + allocations (replicate 200 Allocate @ [Complete 192]) \<and> c mod NUM_COMPLETION_LISTS = 0 \<and>
      \<not> isCounterComplete c (fold tracker_step (replicate 200 Allocate @ [Complete 192]) new_tracker)}"
  by (rule tracker_memory) simp_all

section \<open>Trimming\<close>

lemma mset_swap_at: "i < length xs \<Longrightarrow> j < length xs \<Longrightarrow> mset (swap_at i j xs) = mset xs"
  by (simp add: swap_at_def mset_swap)

lemma trim_loop_ok:
  assumes "i \<le> r" "r \<le> length cs" "\<forall>k < i. \<not> isCounterComplete (cs ! k) t"
    "\<forall>k. r \<le> k \<and> k < length cs \<longrightarrow> isCounterComplete (cs ! k) t"
  shows "case trim_loop t cs i r of (cs', r') \<Rightarrow> mset cs' = mset cs \<and> r' \<le> length cs' \<and>
    (\<forall>k < r'. \<not> isCounterComplete (cs' ! k) t) \<and>
    (\<forall>k. r' \<le> k \<and> k < length cs' \<longrightarrow> isCounterComplete (cs' ! k) t)"
  using assms
proof (induction t cs i r rule: trim_loop.induct)
  case (1 t cs i r)
  show ?case
  proof (cases "i < r")
    case False
    then show ?thesis using 1(3-6) by (subst trim_loop.simps) auto
  next
    case ir: True
    show ?thesis
    proof (cases "isCounterComplete (cs ! i) t")
      case True
      let ?cs = "swap_at i (r - 1) cs"
      have len: "length ?cs = length cs" by (simp add: swap_at_def)
      have r: "trim_loop t cs i r = trim_loop t ?cs i (r - 1)" using ir True by (subst trim_loop.simps) simp
      have "\<forall>k < i. \<not> isCounterComplete (?cs ! k) t" using 1(5) ir 1(4) by (auto simp: swap_at_def nth_list_update)
      moreover have "\<forall>k. r - 1 \<le> k \<and> k < length ?cs \<longrightarrow> isCounterComplete (?cs ! k) t"
        using 1(4,6) ir True by (auto simp: swap_at_def nth_list_update)
      ultimately show ?thesis unfolding r using 1(1)[OF ir True] ir 1(4) len
        by (simp add: mset_swap_at)
    next
      case False
      have r: "trim_loop t cs i r = trim_loop t cs (i + 1) r" using ir False by (subst trim_loop.simps) simp
      show ?thesis unfolding r using 1(2)[OF ir False] ir False 1(4-6) by (auto simp: less_Suc_eq)
    qed
  qed
qed

lemma mset_filter_partition:
  assumes "r \<le> length xs" "\<forall>k < r. P (xs ! k)" "\<forall>k. r \<le> k \<and> k < length xs \<longrightarrow> \<not> P (xs ! k)"
  shows "mset (take r xs) = filter_mset P (mset xs)"
proof -
  have "\<forall>x \<in> set (take r xs). P x" using assms(1,2) by (auto simp: in_set_conv_nth)
  moreover have "\<forall>x \<in> set (drop r xs). \<not> P x" using assms(1,3) by (fastforce simp: in_set_conv_nth)
  moreover have "filter P xs = filter P (take r xs) @ filter P (drop r xs)"
    by (metis append_take_drop_id filter_append)
  ultimately have "filter P xs = take r xs" by simp
  then show ?thesis by (metis mset_filter)
qed

text \<open>Trimming permutes the counters and moves exactly the incomplete ones, with their
  multiplicities, to the front; it returns their number.\<close>

theorem trim_moves_incomplete_front:
  "mset (fst (trimCompleteCounters counters t)) = mset counters \<and>
   mset (take (snd (trimCompleteCounters counters t)) (fst (trimCompleteCounters counters t))) =
     filter_mset (\<lambda>c. \<not> isCounterComplete c t) (mset counters) \<and>
   snd (trimCompleteCounters counters t) = size (filter_mset (\<lambda>c. \<not> isCounterComplete c t) (mset counters))"
proof -
  obtain cs r where cs: "trimCompleteCounters counters t = (cs, r)" by force
  have k: "mset cs = mset counters" "r \<le> length cs" "\<forall>k < r. \<not> isCounterComplete (cs ! k) t"
    "\<forall>k. r \<le> k \<and> k < length cs \<longrightarrow> isCounterComplete (cs ! k) t"
  proof -
    have "case trimCompleteCounters counters t of (cs', r') \<Rightarrow> mset cs' = mset counters \<and> r' \<le> length cs' \<and>
      (\<forall>k < r'. \<not> isCounterComplete (cs' ! k) t) \<and>
      (\<forall>k. r' \<le> k \<and> k < length cs' \<longrightarrow> isCounterComplete (cs' ! k) t)"
      unfolding trimCompleteCounters_def by (rule trim_loop_ok) auto
    then show "mset cs = mset counters" "r \<le> length cs" "\<forall>k < r. \<not> isCounterComplete (cs ! k) t"
      "\<forall>k. r \<le> k \<and> k < length cs \<longrightarrow> isCounterComplete (cs ! k) t" unfolding cs by simp_all
  qed
  have "mset (take r cs) = filter_mset (\<lambda>c. \<not> isCounterComplete c t) (mset cs)"
    using k by (intro mset_filter_partition) auto
  moreover from this have "size (filter_mset (\<lambda>c. \<not> isCounterComplete c t) (mset cs)) = r"
    using k(2) by (metis length_take min.absorb2 size_mset)
  ultimately show ?thesis using cs k(1) by simp
qed

end
