(* ===== verification/Async_Counter_Threads.thy ===== *)
theory Async_Counter_Threads
  imports Async_Counter_Tracker
begin

text \<open>
  \<open>AsyncCounterTracker\<close> under concurrency: any number of threads call \<open>completeCounter\<close> and
  \<open>isCounterComplete\<close> on one completion list. A step is one access to shared memory: an atomic
  load or exchange of the completed value, taking or releasing the list's lock, or one access
  to the segments, which the code touches only under the lock. The sets of values whose
  completion has begun and has finished are kept beside the memory; no step reads them but the
  guard that a value is completed once.
\<close>

section \<open>Threads\<close>

text \<open>Where a thread is in the code, with its locals. \<open>Exchange\<close> to \<open>Unlock\<close> are
  \<open>completeCounter\<close>, \<open>Load\<close> to \<open>Unlock_Query\<close> are \<open>isCounterComplete\<close>, and \<open>Answer\<close> holds
  what it returned.\<close>

datatype thread_pc =
    Idle
  | Exchange nat
  | Lock_Complete nat nat
  | Add_Value nat nat
  | Collapse nat nat
  | Pop nat nat
  | Unlock nat
  | Load nat
  | Lock_Query nat
  | Scan nat
  | Unlock_Query nat bool
  | Answer nat bool

text \<open>One step of a thread at the shared list; the flag says whether the lock is free.\<close>

fun thread_step :: "thread_pc \<Rightarrow> completion_list \<Rightarrow> bool \<Rightarrow> (thread_pc \<times> completion_list \<times> bool) option" where
  "thread_step (Exchange d) l free =
     Some (case exchange_completed (wrap64 (d + 2 ^ 64 - 1)) d l of
         (True, _, l') \<Rightarrow> (Idle, l', free)
       | (False, e, l') \<Rightarrow> (Lock_Complete d e, l', free))"
| "thread_step (Lock_Complete d e) l free = (if free then Some (Add_Value d e, l, False) else None)"
| "thread_step (Add_Value d e) l free =
     Some (Collapse d e, l\<lparr>out_of_order := add_value d (out_of_order l)\<rparr>, free)"
| "thread_step (Collapse d e) l free =
     Some (if out_of_order l = [] \<or> fst (last (out_of_order l)) \<noteq> wrap64 (e + 1) then (Unlock d, l, free)
       else case exchange_completed e (snd (last (out_of_order l))) l of
           (True, _, l') \<Rightarrow> (Pop d (snd (last (out_of_order l))), l', free)
         | (False, e', l') \<Rightarrow> (Collapse d e', l', free))"
| "thread_step (Pop d e) l free = Some (Collapse d e, l\<lparr>out_of_order := butlast (out_of_order l)\<rparr>, free)"
| "thread_step (Unlock d) l free = Some (Idle, l, True)"
| "thread_step (Load v) l free =
     Some (if v \<le> fully_completed l then Answer v True else Lock_Query v, l, free)"
| "thread_step (Lock_Query v) l free = (if free then Some (Scan v, l, False) else None)"
| "thread_step (Scan v) l free = Some (Unlock_Query v (in_segments v (out_of_order l)), l, free)"
| "thread_step (Unlock_Query v b) l free = Some (Answer v b, l, True)"
| "thread_step Idle l free = None"
| "thread_step (Answer v b) l free = None"

fun resting :: "thread_pc \<Rightarrow> bool" where
  "resting Idle = True"
| "resting (Answer v b) = True"
| "resting p = False"

record tracker_threads =
  shared_list :: completion_list
  lock_taken :: bool
  thread_pcs :: "nat \<Rightarrow> thread_pc"
  begun :: "nat set"
  finished :: "nat set"

definition initial_threads :: tracker_threads where
  "initial_threads = \<lparr>shared_list = new_completion_list, lock_taken = False,
     thread_pcs = (\<lambda>_. Idle), begun = {0}, finished = {0}\<rparr>"

fun completing :: "thread_pc \<Rightarrow> nat set" where
  "completing (Exchange d) = {d}"
| "completing (Unlock d) = {d}"
| "completing p = {}"

definition run_thread :: "nat \<Rightarrow> tracker_threads \<Rightarrow> tracker_threads option" where
  "run_thread t s =
     (case thread_step (thread_pcs s t) (shared_list s) (\<not> lock_taken s) of
        None \<Rightarrow> None
      | Some (p, l, free) \<Rightarrow> Some (s\<lparr>shared_list := l, lock_taken := \<not> free,
          thread_pcs := (thread_pcs s)(t := p),
          finished := (if p = Idle then finished s \<union> completing (thread_pcs s t) else finished s)\<rparr>))"

text \<open>A call: each value is completed once.\<close>

definition call_complete :: "nat \<Rightarrow> nat \<Rightarrow> tracker_threads \<Rightarrow> tracker_threads option" where
  "call_complete t d s =
     (if resting (thread_pcs s t) \<and> d \<notin> begun s \<and> d + 1 < 2 ^ 64
      then Some (s\<lparr>thread_pcs := (thread_pcs s)(t := Exchange d), begun := insert d (begun s)\<rparr>)
      else None)"

definition call_query :: "nat \<Rightarrow> nat \<Rightarrow> tracker_threads \<Rightarrow> tracker_threads option" where
  "call_query t v s =
     (if resting (thread_pcs s t) then Some (s\<lparr>thread_pcs := (thread_pcs s)(t := Load v)\<rparr>) else None)"

datatype thread_event = Run nat | Call_Complete nat nat | Call_Query nat nat

fun thread_event_step :: "thread_event \<Rightarrow> tracker_threads \<Rightarrow> tracker_threads option" where
  "thread_event_step (Run t) s = run_thread t s"
| "thread_event_step (Call_Complete t d) s = call_complete t d s"
| "thread_event_step (Call_Query t v) s = call_query t v s"

fun run_events :: "thread_event list \<Rightarrow> tracker_threads \<Rightarrow> tracker_threads option" where
  "run_events [] s = Some s"
| "run_events (e # es) s =
     (case thread_event_step e s of None \<Rightarrow> None | Some s' \<Rightarrow> run_events es s')"

inductive threads_reachable :: "tracker_threads \<Rightarrow> bool" where
  threads_start: "threads_reachable initial_threads"
| threads_event: "threads_reachable s \<Longrightarrow> thread_event_step e s = Some s' \<Longrightarrow> threads_reachable s'"

lemma run_events_append:
  "run_events (xs @ ys) s = (case run_events xs s of None \<Rightarrow> None | Some s' \<Rightarrow> run_events ys s')"
  by (induction xs arbitrary: s) (auto split: option.splits)

lemma run_events_reachable: "threads_reachable s \<Longrightarrow> run_events es s = Some s' \<Longrightarrow> threads_reachable s'"
  by (induction es arbitrary: s) (auto split: option.splits intro: threads_event)

section \<open>What a thread knows\<close>

text \<open>The value a thread has yet to add, and the value it last read.\<close>

fun to_add :: "thread_pc \<Rightarrow> nat option" where
  "to_add (Exchange d) = Some d"
| "to_add (Lock_Complete d e) = Some d"
| "to_add (Add_Value d e) = Some d"
| "to_add p = None"

fun critical :: "thread_pc \<Rightarrow> bool" where
  "critical (Add_Value d e) = True"
| "critical (Collapse d e) = True"
| "critical (Pop d e) = True"
| "critical (Unlock d) = True"
| "critical (Scan v) = True"
| "critical (Unlock_Query v b) = True"
| "critical p = False"

fun popping :: "thread_pc \<Rightarrow> bool" where
  "popping (Pop d e) = True"
| "popping p = False"

fun pc_ok :: "completion_list \<Rightarrow> thread_pc \<Rightarrow> bool" where
  "pc_ok l (Exchange d) = (d \<notin> done_values l \<and> d + 1 < 2 ^ 64)"
| "pc_ok l (Lock_Complete d e) = (d \<notin> done_values l \<and> d + 1 < 2 ^ 64 \<and> e \<le> fully_completed l)"
| "pc_ok l (Add_Value d e) = (d \<notin> done_values l \<and> d + 1 < 2 ^ 64 \<and> e \<le> fully_completed l)"
| "pc_ok l (Collapse d e) = (d \<in> done_values l \<and> e \<le> fully_completed l)"
| "pc_ok l (Pop d e) = (d \<in> done_values l \<and> e \<le> fully_completed l)"
| "pc_ok l (Unlock d) = (d \<in> done_values l)"
| "pc_ok l (Unlock_Query v b) = (b \<longrightarrow> v \<in> done_values l)"
| "pc_ok l (Answer v b) = (b \<longrightarrow> v \<in> done_values l)"
| "pc_ok l p = True"

text \<open>Between the exchange and the removal of the last segment, that segment is covered.\<close>

definition shared_ok :: "bool \<Rightarrow> completion_list \<Rightarrow> bool" where
  "shared_ok pops l \<longleftrightarrow>
     (if pops then out_of_order l \<noteq> [] \<and> snd (last (out_of_order l)) \<le> fully_completed l \<and>
        list_ok (l\<lparr>out_of_order := butlast (out_of_order l)\<rparr>)
      else list_ok l)"

text \<open>What a step of one thread does: it keeps the shared list in order, adds the thread's
  value or nothing, and leaves the thread in order.\<close>

definition added :: "thread_pc \<Rightarrow> thread_pc \<Rightarrow> nat set" where
  "added p p' = (case to_add p of Some d \<Rightarrow> if to_add p' = None then {d} else {} | None \<Rightarrow> {})"

lemma done_butlast:
  assumes "out_of_order l \<noteq> []" "snd (last (out_of_order l)) \<le> fully_completed l"
  shows "done_values (l\<lparr>out_of_order := butlast (out_of_order l)\<rparr>) = done_values l"
proof -
  obtain ss s where s: "out_of_order l = ss @ [s]" using assms(1) by (metis append_butlast_last_id)
  show ?thesis using assms(2) by (auto simp: done_values_def value_complete_def s)
qed

lemma exchange_step:
  assumes "shared_ok pops l" "d \<notin> done_values l" "d + 1 < 2 ^ 64" "fully_completed l = d - 1"
  shows "shared_ok pops (l\<lparr>fully_completed := d\<rparr>)"
    "done_values (l\<lparr>fully_completed := d\<rparr>) = insert d (done_values l)"
proof -
  have d: "fully_completed l < d" "\<not> in_segments d (out_of_order l)"
    using assms(2) by (auto simp: done_values_def value_complete_def)
  have *: "segs_ok d segs" if "segs_ok (fully_completed l) segs" "\<not> in_segments d segs" for segs
    using that d(1) assms(4) by (fastforce simp: segs_ok_def in_segments_def)
  have **: "\<not> in_segments d (butlast (out_of_order l))"
    using d(2) by (auto simp: in_segments_def dest: in_set_butlastD)
  show "shared_ok pops (l\<lparr>fully_completed := d\<rparr>)"
    using assms(1,3) d * ** by (auto simp: shared_ok_def list_ok_def)
  show "done_values (l\<lparr>fully_completed := d\<rparr>) = insert d (done_values l)"
    using d(1) assms(4) by (auto simp: done_values_def value_complete_def)
qed

lemma add_step:
  assumes "list_ok l" "d \<notin> done_values l" "d + 1 < 2 ^ 64"
  shows "list_ok (l\<lparr>out_of_order := add_value d (out_of_order l)\<rparr>)"
    "done_values (l\<lparr>out_of_order := add_value d (out_of_order l)\<rparr>) = insert d (done_values l)"
proof -
  have d: "fully_completed l < d" "\<not> in_segments d (out_of_order l)" "segs_ok (fully_completed l) (out_of_order l)"
    using assms by (auto simp: done_values_def value_complete_def list_ok_def)
  have "adds_value (fully_completed l) d (out_of_order l) (add_value d (out_of_order l))"
    by (rule add_value_adds[OF d(3,1) assms(3) d(2)])
  then show "list_ok (l\<lparr>out_of_order := add_value d (out_of_order l)\<rparr>)"
    "done_values (l\<lparr>out_of_order := add_value d (out_of_order l)\<rparr>) = insert d (done_values l)"
    using assms(1) by (auto simp: list_ok_def adds_value_def done_values_def value_complete_def)
qed

lemma collapse_step:
  assumes "list_ok l" "out_of_order l \<noteq> []" "fst (last (out_of_order l)) = fully_completed l + 1"
  shows "shared_ok True (l\<lparr>fully_completed := snd (last (out_of_order l))\<rparr>)"
    "done_values (l\<lparr>fully_completed := snd (last (out_of_order l))\<rparr>) = done_values l"
    "fully_completed l \<le> snd (last (out_of_order l))"
proof -
  have ok: "segs_ok (fully_completed l) (out_of_order l)" using assms(1) by (simp add: list_ok_def)
  note L = segs_ok_last[OF ok assms(2,3)]
  have b: "snd (last (out_of_order l)) + 1 < 2 ^ 64" "fst (last (out_of_order l)) \<le> snd (last (out_of_order l))"
    using ok assms(2) by (auto simp: segs_ok_def)
  show s: "shared_ok True (l\<lparr>fully_completed := snd (last (out_of_order l))\<rparr>)"
    using L(1) b assms(2) by (simp add: shared_ok_def list_ok_def)
  show "fully_completed l \<le> snd (last (out_of_order l))" using b(2) assms(3) by simp
  have "done_values (l\<lparr>fully_completed := snd (last (out_of_order l)), out_of_order := butlast (out_of_order l)\<rparr>) = done_values l"
    using L(2) by (simp add: done_values_def value_complete_def)
  then show "done_values (l\<lparr>fully_completed := snd (last (out_of_order l))\<rparr>) = done_values l"
    using done_butlast[of "l\<lparr>fully_completed := snd (last (out_of_order l))\<rparr>"] assms(2) by simp
qed

lemma pc_ok_other:
  assumes "pc_ok l q" "done_values l' = done_values l \<union> A" "fully_completed l \<le> fully_completed l'"
    "\<And>d. to_add q = Some d \<Longrightarrow> d \<notin> A"
  shows "pc_ok l' q"
  using assms by (cases q) auto

lemma shared_ok_bounds:
  assumes "shared_ok pops l"
  shows "fully_completed l + 1 < 2 ^ 64"
  using assms by (auto simp: shared_ok_def list_ok_def split: if_splits)

lemma thread_step_ok:
  assumes "thread_step p l free = Some (p', l', free')" "pc_ok l p" "shared_ok pops l"
    "critical p \<Longrightarrow> pops = popping p"
  shows "shared_ok (if critical p then popping p' else pops) l' \<and>
    done_values l' = done_values l \<union> added p p' \<and>
    fully_completed l \<le> fully_completed l' \<and> pc_ok l' p'"
proof (cases p)
  case (Exchange d)
  have w: "wrap64 (d + 2 ^ 64 - 1) = d - 1"
    using assms(2) Exchange by (intro wrap64_pred) (auto simp: done_values_eq intro!: Nat.gr0I)
  show ?thesis
  proof (cases "fully_completed l = d - 1")
    case True
    then have e: "p' = Idle" "l' = l\<lparr>fully_completed := d\<rparr>"
      using assms(1)[unfolded Exchange thread_step.simps w exchange_completed_def] by auto
    then show ?thesis using exchange_step[OF assms(3) _ _ True] assms(2) Exchange True by (simp add: added_def)
  next
    case False
    then have "p' = Lock_Complete d (fully_completed l)" "l' = l"
      using assms(1)[unfolded Exchange thread_step.simps w exchange_completed_def] by auto
    then show ?thesis using assms Exchange by (simp add: added_def)
  qed
next
  case (Add_Value d e)
  then show ?thesis using assms add_step[of l d] by (auto simp: added_def shared_ok_def)
next
  case (Collapse d e)
  have np: "\<not> pops" using assms(4) Collapse by simp
  show ?thesis
  proof (cases "out_of_order l = [] \<or> fst (last (out_of_order l)) \<noteq> wrap64 (e + 1)")
    case True
    then show ?thesis using assms Collapse np by (auto simp: added_def)
  next
    case c: False
    have "e + 1 < 2 ^ 64" using assms(2) shared_ok_bounds[OF assms(3)] Collapse by simp
    then have w: "fst (last (out_of_order l)) = e + 1" using c by simp
    have lok: "list_ok l" using assms(3) np by (simp add: shared_ok_def)
    show ?thesis
    proof (cases "fully_completed l = e")
      case True
      then show ?thesis using assms(1,2) Collapse c w collapse_step[OF lok] np
        by (auto simp: added_def exchange_completed_def)
    next
      case False
      then show ?thesis using assms(1,2,3) Collapse c np by (auto simp: added_def exchange_completed_def)
    qed
  qed
next
  case (Pop d e)
  have "pops" using assms(4) Pop by simp
  then show ?thesis using assms(1,2,3) Pop done_butlast[of l] by (auto simp: added_def shared_ok_def)
next
  case (Scan v)
  then show ?thesis using assms by (auto simp: added_def done_values_def value_complete_def)
next
  case (Load v)
  then show ?thesis using assms by (auto simp: added_def done_values_def value_complete_def split: if_splits)
qed (use assms in \<open>auto simp: added_def split: if_splits\<close>)

text \<open>The lock: taken exactly by a step into a critical section, which needs it free.\<close>

lemma thread_step_lock:
  assumes "thread_step p l free = Some (p', l', free')"
  shows "critical p' \<Longrightarrow> \<not> critical p \<Longrightarrow> free \<and> \<not> free'" "critical p \<Longrightarrow> \<not> critical p' \<Longrightarrow> free'"
    "critical p = critical p' \<Longrightarrow> free' = free" "popping p' \<Longrightarrow> critical p"
    "to_add p' = None \<or> to_add p' = to_add p"
  using assms by (cases p; auto simp: exchange_completed_def split: if_splits)+

section \<open>The invariant of all threads\<close>

definition mutual_exclusion :: "tracker_threads \<Rightarrow> bool" where
  "mutual_exclusion s \<longleftrightarrow> (lock_taken s \<longleftrightarrow> (\<exists>t. critical (thread_pcs s t))) \<and>
     (\<forall>t t'. critical (thread_pcs s t) \<longrightarrow> critical (thread_pcs s t') \<longrightarrow> t = t')"

definition own_values :: "tracker_threads \<Rightarrow> bool" where
  "own_values s \<longleftrightarrow> (\<forall>t t' d. to_add (thread_pcs s t) = Some d \<longrightarrow> to_add (thread_pcs s t') = Some d \<longrightarrow> t = t')"

definition threads_ok :: "tracker_threads \<Rightarrow> bool" where
  "threads_ok s \<longleftrightarrow> mutual_exclusion s \<and> own_values s \<and>
     shared_ok (\<exists>t. popping (thread_pcs s t)) (shared_list s) \<and>
     (\<forall>t. pc_ok (shared_list s) (thread_pcs s t)) \<and>
     done_values (shared_list s) \<union> {d. \<exists>t. to_add (thread_pcs s t) = Some d} = begun s \<and>
     finished s \<subseteq> done_values (shared_list s)"

lemma own_valuesD: "own_values s \<Longrightarrow> to_add (thread_pcs s a) = Some d \<Longrightarrow> to_add (thread_pcs s b) = Some d \<Longrightarrow> a = b"
  unfolding own_values_def by blast

lemma mutual_exclusionD: "mutual_exclusion s \<Longrightarrow> critical (thread_pcs s a) \<Longrightarrow> critical (thread_pcs s b) \<Longrightarrow> a = b"
  unfolding mutual_exclusion_def by blast

lemma own_valuesI: "thread_pcs s = f \<Longrightarrow>
    (\<And>a b d. to_add (f a) = Some d \<Longrightarrow> to_add (f b) = Some d \<Longrightarrow> a = b) \<Longrightarrow> own_values s"
  unfolding own_values_def by blast

lemma mutual_exclusionI: "thread_pcs s = f \<Longrightarrow> lock_taken s = (\<exists>t. critical (f t)) \<Longrightarrow>
    (\<And>a b. critical (f a) \<Longrightarrow> critical (f b) \<Longrightarrow> a = b) \<Longrightarrow> mutual_exclusion s"
  unfolding mutual_exclusion_def by blast

lemma ex_fun_upd:
  "\<not> P (f t) \<Longrightarrow> \<not> P p \<Longrightarrow> (\<exists>t'. P ((f(t := p)) t')) \<longleftrightarrow> (\<exists>t'. P (f t'))"
  by (metis fun_upd_apply)

lemma popping_critical: "popping p \<Longrightarrow> critical p"
  by (cases p) auto

lemma initial_threads_ok: "threads_ok initial_threads"
  by (auto simp: threads_ok_def mutual_exclusion_def own_values_def initial_threads_def
      shared_ok_def list_ok_def new_completion_list_def done_values_def value_complete_def)

lemma run_mutual_exclusion:
  assumes "mutual_exclusion s" "thread_step (thread_pcs s t) (shared_list s) (\<not> lock_taken s) = Some (p, l, free)"
  shows "mutual_exclusion (s\<lparr>shared_list := l, lock_taken := \<not> free, thread_pcs := (thread_pcs s)(t := p), finished := F\<rparr>)"
proof -
  note L = thread_step_lock[OF assms(2)]
  have m: "lock_taken s \<longleftrightarrow> (\<exists>t. critical (thread_pcs s t))"
    "critical (thread_pcs s t') \<Longrightarrow> critical (thread_pcs s t'') \<Longrightarrow> t' = t''" for t' t''
    using assms(1) by (auto simp: mutual_exclusion_def)
  show ?thesis
  proof (cases "critical (thread_pcs s t)")
    case True
    then have "critical (thread_pcs s t') \<longleftrightarrow> t' = t" for t' using m(2) by blast
    then show ?thesis using True L(2,3) m(1) by (cases "critical p") (auto simp: mutual_exclusion_def)
  next
    case False
    show ?thesis
    proof (cases "critical p")
      case True
      then have "\<not> critical (thread_pcs s t')" "\<not> free" for t' using L(1) False m(1) by auto
      then show ?thesis using True by (auto simp: mutual_exclusion_def)
    next
      case np: False
      have "free = (\<not> lock_taken s)" using L(3) False np by auto
      moreover have "(\<exists>t'. critical (((thread_pcs s)(t := p)) t')) \<longleftrightarrow> (\<exists>t'. critical (thread_pcs s t'))"
        by (rule ex_fun_upd[of critical "thread_pcs s" t p, OF False np])
      ultimately show ?thesis using m np by (simp add: mutual_exclusion_def)
    qed
  qed
qed

lemma run_popping:
  assumes "mutual_exclusion s" "thread_step (thread_pcs s t) (shared_list s) (\<not> lock_taken s) = Some (p, l, free)"
  shows "(\<exists>t'. popping (((thread_pcs s)(t := p)) t')) \<longleftrightarrow>
    (if critical (thread_pcs s t) then popping p else (\<exists>t'. popping (thread_pcs s t')))"
proof (cases "critical (thread_pcs s t)")
  case True
  then have "critical (thread_pcs s t') \<longleftrightarrow> t' = t" for t' using assms(1) by (auto simp: mutual_exclusion_def)
  then have "\<not> popping (thread_pcs s t')" if "t' \<noteq> t" for t' using that popping_critical by blast
  then show ?thesis using True by auto
next
  case False
  then have "\<not> popping p" "\<not> popping (thread_pcs s t)" using thread_step_lock(4)[OF assms(2)] popping_critical by auto
  then show ?thesis using False by auto
qed

lemma run_values:
  assumes o: "own_values s" and st: "thread_step (thread_pcs s t) (shared_list s) fr = Some (p, l, free)"
  shows "{d. \<exists>t'. to_add (((thread_pcs s)(t := p)) t') = Some d} \<union> added (thread_pcs s t) p =
      {d. \<exists>t'. to_add (thread_pcs s t') = Some d}"
    "\<And>t' d. t' \<noteq> t \<Longrightarrow> to_add (thread_pcs s t') = Some d \<Longrightarrow> d \<notin> added (thread_pcs s t) p"
    "own_values (s\<lparr>shared_list := l, lock_taken := b, thread_pcs := (thread_pcs s)(t := p), finished := F\<rparr>)"
proof -
  have a: "to_add p = None \<or> to_add p = to_add (thread_pcs s t)" by (rule thread_step_lock(5)[OF st])
  show "{d. \<exists>t'. to_add (((thread_pcs s)(t := p)) t') = Some d} \<union> added (thread_pcs s t) p =
      {d. \<exists>t'. to_add (thread_pcs s t') = Some d}"
  proof (intro set_eqI iffI)
    fix d assume "d \<in> {d. \<exists>t'. to_add (thread_pcs s t') = Some d}"
    then obtain t' where t': "to_add (thread_pcs s t') = Some d" by blast
    show "d \<in> {d. \<exists>t'. to_add (((thread_pcs s)(t := p)) t') = Some d} \<union> added (thread_pcs s t) p"
    proof (cases "t' = t")
      case True
      then show ?thesis using a t' by (cases "to_add p") (auto simp: added_def)
    next
      case False
      then show ?thesis using t' by auto
    qed
  next
    fix d assume "d \<in> {d. \<exists>t'. to_add (((thread_pcs s)(t := p)) t') = Some d} \<union> added (thread_pcs s t) p"
    then show "d \<in> {d. \<exists>t'. to_add (thread_pcs s t') = Some d}"
      using a by (auto simp: added_def split: option.splits if_splits)
  qed
  show "t' \<noteq> t \<Longrightarrow> to_add (thread_pcs s t') = Some d \<Longrightarrow> d \<notin> added (thread_pcs s t) p" for t' d
    using o by (auto simp: own_values_def added_def split: option.splits if_splits)
  show "own_values (s\<lparr>shared_list := l, lock_taken := b, thread_pcs := (thread_pcs s)(t := p), finished := F\<rparr>)"
  proof -
    have k: "to_add (((thread_pcs s)(t := p)) t') = Some d \<Longrightarrow> to_add (thread_pcs s t') = Some d" for t' d
      using a by (cases "t' = t") auto
    show ?thesis by (rule own_valuesI[where f = "(thread_pcs s)(t := p)", OF _ own_valuesD[OF o k k]]) simp_all
  qed
qed

lemma run_thread_ok:
  assumes ok: "threads_ok s" and r: "run_thread t s = Some s'"
  shows "threads_ok s' \<and> done_values (shared_list s) \<subseteq> done_values (shared_list s')"
proof -
  let ?p = "thread_pcs s t"
  obtain p l free where st: "thread_step ?p (shared_list s) (\<not> lock_taken s) = Some (p, l, free)"
    and s': "s' = s\<lparr>shared_list := l, lock_taken := \<not> free, thread_pcs := (thread_pcs s)(t := p),
        finished := (if p = Idle then finished s \<union> completing ?p else finished s)\<rparr>"
    using r unfolding run_thread_def by (auto split: option.splits)
  have me: "mutual_exclusion s" and ow: "own_values s" and pcs: "\<And>t. pc_ok (shared_list s) (thread_pcs s t)"
    and sh: "shared_ok (\<exists>t. popping (thread_pcs s t)) (shared_list s)"
    and bg: "done_values (shared_list s) \<union> {d. \<exists>t. to_add (thread_pcs s t) = Some d} = begun s"
    and fin: "finished s \<subseteq> done_values (shared_list s)"
    using ok by (simp_all add: threads_ok_def)
  have "critical ?p \<Longrightarrow> (\<exists>t. popping (thread_pcs s t)) = popping ?p"
    using me popping_critical unfolding mutual_exclusion_def by blast
  note K = thread_step_ok[OF st pcs sh this]
  then have sh': "shared_ok (if critical ?p then popping p else (\<exists>t. popping (thread_pcs s t))) l"
    and dn: "done_values l = done_values (shared_list s) \<union> added ?p p"
    and mono: "fully_completed (shared_list s) \<le> fully_completed l" and pok: "pc_ok l p" by blast+
  note V = run_values[OF ow st]
  have o: "pc_ok l (thread_pcs s t')" if "t' \<noteq> t" for t'
    by (rule pc_ok_other[OF pcs dn mono V(2)[OF that]])
  have c: "completing ?p \<subseteq> done_values l" if "p = Idle"
    using that dn pcs[of t] by (cases ?p) (auto simp: added_def)
  have "mutual_exclusion s'" "own_values s'"
    unfolding s' by (rule run_mutual_exclusion[OF me st], rule V(3))
  moreover have "shared_ok (\<exists>t'. popping (thread_pcs s' t')) (shared_list s')"
    using sh' run_popping[OF me st] by (simp add: s')
  moreover have "\<forall>t'. pc_ok (shared_list s') (thread_pcs s' t')" using o pok by (simp add: s')
  moreover have "done_values (shared_list s') \<union> {d. \<exists>t. to_add (thread_pcs s' t) = Some d} = begun s'"
  proof -
    have "done_values l \<union> {d. \<exists>t'. to_add (((thread_pcs s)(t := p)) t') = Some d} =
        done_values (shared_list s) \<union> ({d. \<exists>t'. to_add (((thread_pcs s)(t := p)) t') = Some d} \<union> added ?p p)"
      unfolding dn by blast
    also have "\<dots> = begun s" unfolding V(1) by (rule bg)
    finally show ?thesis by (simp add: s')
  qed
  moreover have "finished s' \<subseteq> done_values (shared_list s')" using fin dn c by (auto simp: s')
  moreover have "done_values (shared_list s) \<subseteq> done_values (shared_list s')" using dn by (auto simp: s')
  ultimately show ?thesis by (simp add: threads_ok_def)
qed

lemma threads_ok_pc:
  assumes ok: "threads_ok s" and p: "resting (thread_pcs s t)" "\<not> critical p" "to_add p = None \<or> (\<exists>d. to_add p = Some d \<and> d \<notin> begun s)"
    "pc_ok (shared_list s) p"
  shows "threads_ok (s\<lparr>thread_pcs := (thread_pcs s)(t := p), begun := begun s \<union> set_option (to_add p)\<rparr>)"
proof -
  have r: "\<not> critical (thread_pcs s t)" "to_add (thread_pcs s t) = None" "\<not> popping (thread_pcs s t)" "\<not> popping p"
    using p(1,2) popping_critical by (cases "thread_pcs s t"; auto)+
  have u: "to_add (thread_pcs s t') = Some d \<Longrightarrow> d \<in> begun s" for t' d using ok by (auto simp: threads_ok_def)
  let ?f = "(thread_pcs s)(t := p)"
  have me: "mutual_exclusion s" and ow: "own_values s" using ok by (simp_all add: threads_ok_def)
  have ex: "(\<exists>t'. critical (?f t')) = (\<exists>t'. critical (thread_pcs s t'))"
    "(\<exists>t'. popping (?f t')) = (\<exists>t'. popping (thread_pcs s t'))"
    using ex_fun_upd[of critical "thread_pcs s" t p] ex_fun_upd[of popping "thread_pcs s" t p] r p(2) by simp_all
  have val: "{d. \<exists>t'. to_add (?f t') = Some d} = {d. \<exists>t'. to_add (thread_pcs s t') = Some d} \<union> set_option (to_add p)"
    (is "?L = ?R")
  proof (intro set_eqI iffI)
    fix d assume "d \<in> ?L"
    then show "d \<in> ?R" by (auto split: if_splits)
  next
    fix d assume "d \<in> ?R"
    then consider t' where "to_add (thread_pcs s t') = Some d" | "to_add p = Some d" by auto
    then show "d \<in> ?L"
    proof cases
      case 1
      then have "t' \<noteq> t" using r(2) by auto
      then show ?thesis using 1 by auto
    qed auto
  qed
  have "critical (?f a) \<Longrightarrow> critical (thread_pcs s a)" for a using p(2) by (cases "a = t") auto
  note m = mutual_exclusionD[OF me this this]
  have o: "a = b" if "to_add (?f a) = Some d" "to_add (?f b) = Some d" for a b d
  proof (cases "a = t \<or> b = t")
    case True
    then have "to_add p = Some d" using that by auto
    then have "d \<notin> begun s" using p(3) by auto
    then show ?thesis using u that by (metis fun_upd_apply)
  next
    case False
    then show ?thesis using that own_valuesD[OF ow] by (metis fun_upd_apply)
  qed
  have "mutual_exclusion (s\<lparr>thread_pcs := ?f, begun := begun s \<union> set_option (to_add p)\<rparr>)"
    using me ex(1) by (intro mutual_exclusionI[where f = "?f", OF _ _ m]) (simp_all add: mutual_exclusion_def)
  moreover have "own_values (s\<lparr>thread_pcs := ?f, begun := begun s \<union> set_option (to_add p)\<rparr>)"
    by (rule own_valuesI[where f = "?f", OF _ o]) simp_all
  moreover have "done_values (shared_list s) \<union> ?L = begun s \<union> set_option (to_add p)"
    unfolding val using ok by (auto simp: threads_ok_def)
  moreover have "pc_ok (shared_list s) (?f a)" for a using ok p(4) by (simp add: threads_ok_def)
  ultimately show ?thesis using ok ex(2) by (simp add: threads_ok_def)
qed

lemma reachable_threads_ok: "threads_reachable s \<Longrightarrow> threads_ok s"
proof (induction rule: threads_reachable.induct)
  case (threads_event s e s')
  show ?case
  proof (cases e)
    case (Run t)
    then show ?thesis using threads_event run_thread_ok by auto
  next
    case (Call_Complete t d)
    then have c: "resting (thread_pcs s t)" "d \<notin> begun s" "d + 1 < 2 ^ 64"
      and s': "s' = s\<lparr>thread_pcs := (thread_pcs s)(t := Exchange d), begun := insert d (begun s)\<rparr>"
      using threads_event(2) by (auto simp: call_complete_def split: if_splits)
    have "d \<notin> done_values (shared_list s)" using c(2) threads_event(3) by (auto simp: threads_ok_def)
    then show ?thesis using threads_ok_pc[OF threads_event(3) c(1), of "Exchange d"] c by (simp add: s')
  next
    case (Call_Query t v)
    then have c: "resting (thread_pcs s t)" and s': "s' = s\<lparr>thread_pcs := (thread_pcs s)(t := Load v)\<rparr>"
      using threads_event(2) by (auto simp: call_query_def split: if_splits)
    show ?thesis using threads_ok_pc[OF threads_event(3) c, of "Load v"] by (simp add: s')
  qed
qed (rule initial_threads_ok)

section \<open>No completion is lost\<close>

text \<open>C21: However the calls of any number of threads interleave: every value whose completion
  has returned is held in the list; a query answers "complete" only for a value whose
  completion has begun; and while no thread is about to add a value the list stands for
  exactly the values whose completion has begun, although exchanges outside the lock race
  with the merging of segments under it.\<close>

theorem threads_lose_no_value:
  assumes "threads_reachable s"
  shows "(v \<in> finished s \<longrightarrow> value_complete v (shared_list s)) \<and>
    (thread_pcs s t = Answer v True \<longrightarrow> v \<in> begun s) \<and>
    ((\<forall>t'. to_add (thread_pcs s t') = None) \<longrightarrow> (value_complete v (shared_list s) \<longleftrightarrow> v \<in> begun s))"
proof -
  have ok: "threads_ok s" by (rule reachable_threads_ok[OF assms])
  then have "thread_pcs s t = Answer v True \<Longrightarrow> v \<in> done_values (shared_list s)"
    by (metis pc_ok.simps(8) threads_ok_def)
  then show ?thesis using ok by (auto simp: threads_ok_def done_values_def)
qed

definition race_start :: "thread_event list" where
  "race_start = [Call_Complete 0 2, Run 0, Run 0, Run 0, Run 0, Run 0]"

definition race_end :: "thread_event list" where
  "race_end = [Call_Query 1 2, Run 1, Call_Complete 0 1, Run 0, Call_Complete 0 3,
     Run 0, Run 0, Run 0, Run 0, Run 0, Run 0, Run 0, Run 1, Run 1, Run 1]"

definition race_middle :: tracker_threads where
  "race_middle = \<lparr>shared_list = \<lparr>fully_completed = 0, out_of_order = [(2, 2)]\<rparr>, lock_taken = False,
     thread_pcs = (\<lambda>_. Idle), begun = {0, 2}, finished = {0, 2}\<rparr>"

lemmas run_simps = run_thread_def call_complete_def call_query_def exchange_completed_def
  wrap64_def add_value_def try_append.simps erase_segment_def

lemma race_start_run: "run_events race_start initial_threads = Some race_middle"
  by (simp add: race_start_def race_middle_def initial_threads_def new_completion_list_def run_simps fun_upd_def insert_commute)
    (auto simp: fun_eq_iff)

lemma threads_lose_no_value_witness:
  "value_complete 2 (shared_list (the (run_events race_start initial_threads)))"
proof -
  have "threads_reachable race_middle"
    by (rule run_events_reachable[OF threads_start race_start_run])
  from threads_lose_no_value[OF this, of 2 0] show ?thesis
    unfolding race_start_run by (simp add: race_middle_def)
qed

section \<open>A stale answer\<close>

text \<open>C23: A query can answer "incomplete" for a value whose completion returned before the
  query was called. Value 2 is completed out of order; the query reads the completed value
  while it is still 0; then 1 and 3 are completed, which moves the segment into the completed
  value; the query takes the lock and finds no segment.\<close>

theorem query_misses_completed_value:
  "\<exists>s s'. run_events race_start initial_threads = Some s \<and> 2 \<in> finished s \<and> resting (thread_pcs s 1) \<and>
     run_events race_end s = Some s' \<and> hd race_end = Call_Query 1 2 \<and> thread_pcs s' 1 = Answer 2 False"
proof -
  obtain s' where "run_events race_end race_middle = Some s'" "thread_pcs s' 1 = Answer 2 False"
    by (simp add: race_end_def race_middle_def run_simps)
  then show ?thesis using race_start_run by (auto simp: race_middle_def race_end_def)
qed

section \<open>Every call can return\<close>

lemma length_try_append: "try_append d segs i = Some segs' \<Longrightarrow> length segs' \<le> length segs"
proof (induction d segs i rule: try_append.induct)
  case (1 d segs i)
  from 1(2) show ?case by (subst (asm) try_append.simps) (use 1(1) in \<open>auto simp: erase_segment_def split: if_splits\<close>)
qed

lemma length_insert_segment [simp]: "length (insert_segment d segs) = Suc (length segs)"
  by (induction segs) auto

lemma length_add_value: "length (add_value d segs) \<le> Suc (length segs)"
  using length_try_append by (auto simp: add_value_def le_SucI split: option.splits)

text \<open>How many steps a thread has left at most, when no other thread runs.\<close>

fun steps_left :: "thread_pc \<Rightarrow> completion_list \<Rightarrow> nat" where
  "steps_left (Exchange d) l = 4 * length (out_of_order l) + 10"
| "steps_left (Lock_Complete d e) l = 4 * length (out_of_order l) + 9"
| "steps_left (Add_Value d e) l = 4 * length (out_of_order l) + 8"
| "steps_left (Collapse d e) l = 4 * length (out_of_order l) + (if e = fully_completed l then 2 else 3)"
| "steps_left (Pop d e) l = 4 * (length (out_of_order l) - 1) + 4"
| "steps_left (Unlock d) l = 1"
| "steps_left (Load v) l = 4"
| "steps_left (Lock_Query v) l = 3"
| "steps_left (Scan v) l = 2"
| "steps_left (Unlock_Query v b) l = 1"
| "steps_left Idle l = 0"
| "steps_left (Answer v b) l = 0"

lemma thread_step_measure:
  assumes "thread_step p l free = Some (p', l', free')"
  shows "steps_left p' l' < steps_left p l"
proof (cases p)
  case (Add_Value d e)
  then show ?thesis using assms length_add_value[of d "out_of_order l"] by auto
next
  case (Collapse d e)
  then show ?thesis using assms by (cases "out_of_order l") (auto simp: exchange_completed_def split: if_splits)
qed (use assms in \<open>auto simp: exchange_completed_def split: if_splits\<close>)

lemma thread_step_enabled:
  "\<not> resting p \<Longrightarrow> free \<or> critical p \<Longrightarrow> thread_step p l free \<noteq> None"
  by (cases p) auto

lemma run_alone:
  "\<not> lock_taken s \<or> critical (thread_pcs s t) \<Longrightarrow>
   \<exists>n s'. run_events (replicate n (Run t)) s = Some s' \<and> n \<le> steps_left (thread_pcs s t) (shared_list s) \<and>
     resting (thread_pcs s' t) \<and> \<not> lock_taken s' \<and> (\<forall>t'. t' \<noteq> t \<longrightarrow> thread_pcs s' t' = thread_pcs s t')"
proof (induction "steps_left (thread_pcs s t) (shared_list s)" arbitrary: s rule: less_induct)
  case less
  show ?case
  proof (cases "resting (thread_pcs s t)")
    case True
    then have "\<not> lock_taken s" using less(2) by (cases "thread_pcs s t") auto
    then have "run_events (replicate 0 (Run t)) s = Some s \<and> resting (thread_pcs s t) \<and> \<not> lock_taken s"
      using True by simp
    then show ?thesis by blast
  next
    case False
    then obtain p l free where st: "thread_step (thread_pcs s t) (shared_list s) (\<not> lock_taken s) = Some (p, l, free)"
      using thread_step_enabled less(2) by (metis not_None_eq prod_cases3)
    then obtain s1 where s1: "run_thread t s = Some s1" "thread_pcs s1 = (thread_pcs s)(t := p)"
        "shared_list s1 = l" "lock_taken s1 = (\<not> free)" by (simp add: run_thread_def)
    have m: "steps_left (thread_pcs s1 t) (shared_list s1) < steps_left (thread_pcs s t) (shared_list s)"
      using thread_step_measure[OF st] s1 by simp
    have "\<not> lock_taken s1 \<or> critical (thread_pcs s1 t)"
      using thread_step_lock(2,3)[OF st] less(2) s1 by auto
    from less(1)[OF m this] obtain n s' where n: "run_events (replicate n (Run t)) s1 = Some s'"
        "n \<le> steps_left (thread_pcs s1 t) (shared_list s1)"
        "resting (thread_pcs s' t)" "\<not> lock_taken s'" "\<forall>t'. t' \<noteq> t \<longrightarrow> thread_pcs s' t' = thread_pcs s1 t'" by blast
    have "run_events (replicate (Suc n) (Run t)) s = Some s'" using n(1) s1(1) by simp
    moreover have "\<forall>t'. t' \<noteq> t \<longrightarrow> thread_pcs s' t' = thread_pcs s t'" using n(5) s1(2) by simp
    ultimately show ?thesis using n(2-4) m by (meson Suc_leI le_trans not_less_eq_eq)
  qed
qed

text \<open>No call can get stuck: from every reachable state, whatever the other threads are in
  the middle of, the call of a thread returns after finitely many steps of itself and of at
  most one other thread, the one that holds the lock; no further call is needed.\<close>

theorem call_can_return:
  assumes "threads_reachable s"
  shows "\<exists>u m n s'. run_events (replicate m (Run u) @ replicate n (Run t)) s = Some s' \<and> resting (thread_pcs s' t)"
proof (cases "\<exists>u. critical (thread_pcs s u)")
  case True
  then obtain u where u: "critical (thread_pcs s u)" by blast
  then obtain m s1 where s1: "run_events (replicate m (Run u)) s = Some s1" "\<not> lock_taken s1"
    using run_alone[of s u] by blast
  then obtain n s' where "run_events (replicate n (Run t)) s1 = Some s'" "resting (thread_pcs s' t)"
    using run_alone[of s1 t] by blast
  then show ?thesis using s1(1) by (metis option.simps(5) run_events_append)
next
  case False
  then have "\<not> lock_taken s" using reachable_threads_ok[OF assms] by (simp add: threads_ok_def mutual_exclusion_def)
  then obtain n s' where "run_events (replicate n (Run t)) s = Some s'" "resting (thread_pcs s' t)"
    using run_alone[of s t] by blast
  then have "run_events (replicate 0 (Run t) @ replicate n (Run t)) s = Some s' \<and> resting (thread_pcs s' t)" by simp
  then show ?thesis by blast
qed

theorem call_can_return_witness:
  "\<exists>u m n s'. run_events (replicate m (Run u) @ replicate n (Run 1))
     (the (run_events [Call_Complete 0 2, Run 0, Run 0, Call_Query 1 2, Run 1] initial_threads)) = Some s' \<and>
     resting (thread_pcs s' 1)"
proof (rule call_can_return)
  have "run_events [Call_Complete 0 2, Run 0, Run 0, Call_Query 1 2, Run 1] initial_threads \<noteq> None"
    by (simp add: initial_threads_def new_completion_list_def run_simps)
  then show "threads_reachable (the (run_events [Call_Complete 0 2, Run 0, Run 0, Call_Query 1 2, Run 1] initial_threads))"
    by (metis option.collapse run_events_reachable threads_start)
qed

end
