(* ===== verification/Octahedra_Walker.thy ===== *)
theory Octahedra_Walker
  imports Prelude Chunk_Key "HOL-Library.Monad_Syntax"
begin

text \<open>
  \<open>ConcentricOctahedraWalker\<close> (src/voxen/util/concentric_octahedra_walker.cpp and its header):
  a small state machine whose steps enumerate the integer points of Manhattan norm 0, 1, 2 and
  so on up to a radius. The fields are 7-bit and \<open>int8_t\<close>; the constructor truncates the radius
  to 7 bits, so no other value leaves its field's range.

  The reference is \<open>octahedra\<close>, nested comprehensions over radius, x and z; the lemmas of the
  second section lead the walker through a cell, a row and a shell of it.
\<close>

section \<open>The walker\<close>

record octa_walker =
  max_radius :: int
  wrapped_around :: bool
  w_radius :: int
  dy_negative :: bool
  w_dx :: int
  w_dz :: int

definition new_walker :: "nat \<Rightarrow> octa_walker" where
  "new_walker r = \<lparr>max_radius = int (r mod 2 ^ 7), wrapped_around = False, w_radius = 0,
     dy_negative = False, w_dx = 0, w_dz = 0\<rparr>"

definition octa_step :: "octa_walker \<Rightarrow> ivec3 \<times> octa_walker" where
  "octa_step w =
     (let radius = w_radius w; dx = w_dx w; dz = w_dz w;
          dy = radius - \<bar>dx\<bar> - \<bar>dz\<bar>;
          result = IVec3 dx (if dy_negative w then - dy else dy) dz
      in (result,
          if dy_negative w \<or> dy = 0 then
            (let w = w\<lparr>dy_negative := False\<rparr>; dz = dz + 1
             in if dz > radius - \<bar>dx\<bar> then
                  (let dx = dx + 1
                   in if dx > radius then
                        (let radius = radius + 1;
                             w = (if radius > max_radius w then w\<lparr>wrapped_around := True\<rparr> else w);
                             radius = (if radius > max_radius w then 0 else radius);
                             dx = - radius
                         in w\<lparr>w_radius := radius, w_dx := dx, w_dz := - (radius - \<bar>dx\<bar>)\<rparr>)
                      else w\<lparr>w_dx := dx, w_dz := - (radius - \<bar>dx\<bar>)\<rparr>)
                else w\<lparr>w_dz := dz\<rparr>)
          else w\<lparr>dy_negative := True\<rparr>))"

text \<open>The loop of its caller: \<open>while (!walker.wrappedAround())\<close> over \<open>walker.step()\<close>. It is not
  obvious that it ends; \<open>None\<close> is a loop that does not.\<close>

partial_function (option) octa_offsets :: "octa_walker \<Rightarrow> ivec3 list option" where
  "octa_offsets w =
     (if wrapped_around w then Some []
      else do { ps \<leftarrow> octa_offsets (snd (octa_step w)); Some (fst (octa_step w) # ps) })"

declare octa_offsets.simps [code]

section \<open>The points in order\<close>

definition octa_cell :: "int \<Rightarrow> int \<Rightarrow> int \<Rightarrow> ivec3 list" where
  "octa_cell r x z =
     (let y = r - \<bar>x\<bar> - \<bar>z\<bar> in if y = 0 then [IVec3 x 0 z] else [IVec3 x y z, IVec3 x (- y) z])"

definition octa_row :: "int \<Rightarrow> int \<Rightarrow> int list \<Rightarrow> ivec3 list" where
  "octa_row r x zs = concat (map (octa_cell r x) zs)"

definition octa_shell :: "int \<Rightarrow> int list \<Rightarrow> ivec3 list" where
  "octa_shell r xs = concat (map (\<lambda>x. octa_row r x [- (r - \<bar>x\<bar>)..r - \<bar>x\<bar>]) xs)"

definition octahedra :: "int list \<Rightarrow> ivec3 list" where
  "octahedra rs = concat (map (\<lambda>r. octa_shell r [- r..r]) rs)"

definition at_cell :: "int \<Rightarrow> int \<Rightarrow> int \<Rightarrow> int \<Rightarrow> octa_walker" where
  "at_cell m r x z = \<lparr>max_radius = m, wrapped_around = False, w_radius = r, dy_negative = False,
     w_dx = x, w_dz = z\<rparr>"

definition next_shell :: "int \<Rightarrow> int \<Rightarrow> octa_walker" where
  "next_shell m r = (if r + 1 > m
     then \<lparr>max_radius = m, wrapped_around = True, w_radius = 0, dy_negative = False, w_dx = 0, w_dz = 0\<rparr>
     else at_cell m (r + 1) (- (r + 1)) 0)"

definition next_row :: "int \<Rightarrow> int \<Rightarrow> int \<Rightarrow> octa_walker" where
  "next_row m r x = (if x + 1 > r then next_shell m r else at_cell m r (x + 1) (- (r - \<bar>x + 1\<bar>)))"

definition next_cell :: "int \<Rightarrow> int \<Rightarrow> int \<Rightarrow> int \<Rightarrow> octa_walker" where
  "next_cell m r x z = (if z + 1 > r - \<bar>x\<bar> then next_row m r x else at_cell m r x (z + 1))"

definition before :: "'a list \<Rightarrow> 'a list option \<Rightarrow> 'a list option" where
  "before ps = map_option ((@) ps)"

lemma before_append [simp]: "before ps (before qs o') = before (ps @ qs) o'"
  by (cases o') (simp_all add: before_def)

lemma before_Nil [simp]: "before [] o' = o'"
  by (cases o') (simp_all add: before_def)

lemma octa_offsets_step:
  "\<not> wrapped_around w \<Longrightarrow> octa_offsets w = before [fst (octa_step w)] (octa_offsets (snd (octa_step w)))"
  by (subst octa_offsets.simps) (cases "octa_offsets (snd (octa_step w))"; simp add: before_def)

lemma octa_cell_walk:
  assumes "0 \<le> r" "r \<le> m"
  shows "octa_offsets (at_cell m r x z) = before (octa_cell r x z) (octa_offsets (next_cell m r x z))"
proof (cases "r - \<bar>x\<bar> - \<bar>z\<bar> = 0")
  case True
  have "octa_step (at_cell m r x z) = (IVec3 x 0 z, next_cell m r x z)"
    using True assms by (simp add: octa_step_def at_cell_def next_cell_def next_row_def next_shell_def Let_def)
  then show ?thesis using True octa_offsets_step[of "at_cell m r x z"] by (simp add: octa_cell_def at_cell_def)
next
  case False
  let ?y = "r - \<bar>x\<bar> - \<bar>z\<bar>" and ?w = "(at_cell m r x z)\<lparr>dy_negative := True\<rparr>"
  have 1: "octa_step (at_cell m r x z) = (IVec3 x ?y z, ?w)"
    using False by (simp add: octa_step_def at_cell_def Let_def)
  have 2: "octa_step ?w = (IVec3 x (- ?y) z, next_cell m r x z)"
    using assms by (simp add: octa_step_def at_cell_def next_cell_def next_row_def next_shell_def Let_def)
  show ?thesis using False octa_offsets_step[of "at_cell m r x z"] octa_offsets_step[of ?w] 1 2
    by (simp add: octa_cell_def at_cell_def Let_def)
qed

lemma octa_row_walk:
  assumes "0 \<le> r" "r \<le> m" "z \<le> r - \<bar>x\<bar>"
  shows "octa_offsets (at_cell m r x z) = before (octa_row r x [z..r - \<bar>x\<bar>]) (octa_offsets (next_row m r x))"
  using assms
proof (induction "nat (r - \<bar>x\<bar> - z)" arbitrary: z rule: less_induct)
  case less
  show ?case
  proof (cases "z + 1 > r - \<bar>x\<bar>")
    case True
    then have "[z..r - \<bar>x\<bar>] = [z]" using less(4) by (simp add: upto_rec1)
    then show ?thesis using octa_cell_walk[OF less(2,3)] True by (simp add: octa_row_def next_cell_def)
  next
    case False
    then have "[z..r - \<bar>x\<bar>] = z # [z + 1..r - \<bar>x\<bar>]" by (simp add: upto_rec1)
    then have row: "octa_row r x [z..r - \<bar>x\<bar>] = octa_cell r x z @ octa_row r x [z + 1..r - \<bar>x\<bar>]"
      unfolding octa_row_def by (simp only: list.map concat.simps)
    have IH: "octa_offsets (at_cell m r x (z + 1)) =
        before (octa_row r x [z + 1..r - \<bar>x\<bar>]) (octa_offsets (next_row m r x))"
      by (rule less(1)) (use less(2-4) False in linarith)+
    have "next_cell m r x z = at_cell m r x (z + 1)" using False by (simp add: next_cell_def)
    then show ?thesis unfolding row octa_cell_walk[OF less(2,3)] by (simp only: IH before_append)
  qed
qed

lemma octa_shell_walk:
  assumes "0 \<le> r" "r \<le> m" "\<bar>x\<bar> \<le> r"
  shows "octa_offsets (at_cell m r x (- (r - \<bar>x\<bar>))) =
    before (octa_shell r [x..r]) (octa_offsets (next_shell m r))"
  using assms
proof (induction "nat (r - x)" arbitrary: x rule: less_induct)
  case less
  have row: "octa_offsets (at_cell m r x (- (r - \<bar>x\<bar>))) =
      before (octa_row r x [- (r - \<bar>x\<bar>)..r - \<bar>x\<bar>]) (octa_offsets (next_row m r x))"
    by (rule octa_row_walk[OF less(2,3)]) (use less(4) in simp)
  show ?case
  proof (cases "x + 1 > r")
    case True
    then have "[x..r] = [x]" using less(4) by (simp add: upto_rec1)
    then show ?thesis using row True by (simp add: octa_shell_def next_row_def)
  next
    case False
    then have "[x..r] = x # [x + 1..r]" by (simp add: upto_rec1)
    moreover have "octa_offsets (at_cell m r (x + 1) (- (r - \<bar>x + 1\<bar>))) =
        before (octa_shell r [x + 1..r]) (octa_offsets (next_shell m r))"
      using less(2-4) False by (intro less(1)) auto
    ultimately show ?thesis using row False by (simp add: octa_shell_def next_row_def)
  qed
qed

lemma octahedra_walk:
  assumes "0 \<le> r" "r \<le> m"
  shows "octa_offsets (at_cell m r (- r) 0) = Some (octahedra [r..m])"
  using assms
proof (induction "nat (m - r)" arbitrary: r rule: less_induct)
  case less
  have shell: "octa_offsets (at_cell m r (- r) 0) = before (octa_shell r [- r..r]) (octa_offsets (next_shell m r))"
    using octa_shell_walk[of r m "- r"] less(2,3) by simp
  show ?case
  proof (cases "r + 1 > m")
    case True
    then have "[r..m] = [r]" using less(3) by (simp add: upto_rec1)
    moreover have "octa_offsets (next_shell m r) = Some []"
      using True by (subst octa_offsets.simps) (simp add: next_shell_def)
    ultimately show ?thesis using shell by (simp add: octahedra_def before_def)
  next
    case False
    then have "[r..m] = r # [r + 1..m]" by (simp add: upto_rec1)
    moreover have "octa_offsets (next_shell m r) = Some (octahedra [r + 1..m])"
      using less(1)[of "r + 1"] less(2,3) False by (simp add: next_shell_def)
    ultimately show ?thesis using shell by (simp add: octahedra_def before_def)
  qed
qed

section \<open>Every point once\<close>

definition manhattan :: "ivec3 \<Rightarrow> int" where
  "manhattan p = \<bar>ivec_x p\<bar> + \<bar>ivec_y p\<bar> + \<bar>ivec_z p\<bar>"

lemma distinct_concat_map:
  assumes "distinct xs" "\<And>x. x \<in> set xs \<Longrightarrow> distinct (f x)"
    "\<And>x y a. a \<in> set (f x) \<Longrightarrow> a \<in> set (f y) \<Longrightarrow> x \<in> set xs \<Longrightarrow> y \<in> set xs \<Longrightarrow> x = y"
  shows "distinct (concat (map f xs))"
  using assms by (induction xs) (auto 4 4)

lemma set_octa_cell: "IVec3 x' y z' \<in> set (octa_cell r x z) \<longleftrightarrow> x' = x \<and> z' = z \<and> \<bar>y\<bar> = \<bar>r - \<bar>x\<bar> - \<bar>z\<bar>\<bar>"
proof -
  have "\<bar>y\<bar> = \<bar>a\<bar> \<longleftrightarrow> y = a \<or> y = - a" for a :: int by (rule abs_eq_iff)
  from this[of "r - \<bar>x\<bar> - \<bar>z\<bar>"] show ?thesis by (auto simp: octa_cell_def Let_def)
qed

lemma set_octa_row: "IVec3 x' y z \<in> set (octa_row r x zs) \<longleftrightarrow> x' = x \<and> z \<in> set zs \<and> \<bar>y\<bar> = \<bar>r - \<bar>x\<bar> - \<bar>z\<bar>\<bar>"
  by (auto simp: octa_row_def set_octa_cell)

lemma set_octa_shell:
  "p \<in> set (octa_shell r xs) \<longleftrightarrow> manhattan p = r \<and> ivec_x p \<in> set xs"
proof (cases p)
  case (IVec3 x y z)
  have "p \<in> set (octa_shell r xs) \<longleftrightarrow> x \<in> set xs \<and> z \<in> {- (r - \<bar>x\<bar>)..r - \<bar>x\<bar>} \<and> \<bar>y\<bar> = \<bar>r - \<bar>x\<bar> - \<bar>z\<bar>\<bar>"
    by (auto simp: octa_shell_def IVec3 set_octa_row)
  also have "\<dots> \<longleftrightarrow> x \<in> set xs \<and> \<bar>x\<bar> + \<bar>y\<bar> + \<bar>z\<bar> = r" by (simp add: abs_if) linarith
  finally show ?thesis by (auto simp: IVec3 manhattan_def)
qed

lemma set_octahedra: "p \<in> set (octahedra rs) \<longleftrightarrow> manhattan p \<in> set rs"
proof -
  have "ivec_x p \<in> set [- manhattan p..manhattan p]" by (auto simp: manhattan_def)
  then show ?thesis by (auto simp: octahedra_def set_octa_shell)
qed

lemma distinct_octahedra: "distinct rs \<Longrightarrow> distinct (octahedra rs)"
  unfolding octahedra_def
proof (rule distinct_concat_map)
  fix r
  show "distinct (octa_shell r [- r..r])"
    unfolding octa_shell_def
  proof (rule distinct_concat_map)
    fix x show "distinct (octa_row r x [- (r - \<bar>x\<bar>)..r - \<bar>x\<bar>])"
      unfolding octa_row_def
    proof (rule distinct_concat_map)
      fix z show "distinct (octa_cell r x z)" by (simp add: octa_cell_def Let_def)
    next
      fix z z' p assume "p \<in> set (octa_cell r x z)" "p \<in> set (octa_cell r x z')"
      then show "z = z'" by (cases p rule: ivec3.exhaust) (simp add: set_octa_cell)
    qed simp
  next
    fix x x' p assume "p \<in> set (octa_row r x [- (r - \<bar>x\<bar>)..r - \<bar>x\<bar>])" "p \<in> set (octa_row r x' [- (r - \<bar>x'\<bar>)..r - \<bar>x'\<bar>])"
    then show "x = x'" by (cases p rule: ivec3.exhaust) (simp add: set_octa_row)
  qed simp
qed (auto simp: set_octa_shell)

lemma sorted_octahedra: "sorted rs \<Longrightarrow> sorted (map manhattan (octahedra rs))"
proof (induction rs)
  case (Cons r rs)
  have "sorted (map manhattan (octa_shell r [- r..r]))"
  proof (rule sorted_wrt_mono_rel[of _ "\<lambda>a b. a = b"])
    have "\<forall>p \<in> set (map manhattan (octa_shell r [- r..r])). p = r" by (auto simp: set_octa_shell)
    then show "sorted_wrt (=) (map manhattan (octa_shell r [- r..r]))"
      by (simp add: sorted_wrt_iff_nth_less)
  qed simp
  then show ?case using Cons
    by (auto simp: octahedra_def sorted_append set_octa_shell)
qed (simp add: octahedra_def)

text \<open>C27: The walking loop ends for every radius up to 127, and the offsets it returns are
  exactly the points of Manhattan norm at most the radius, each once, in order of
  non-decreasing norm.\<close>

theorem walker_enumerates_octahedron:
  assumes "r < 128"
  shows "\<exists>ps. octa_offsets (new_walker r) = Some ps \<and> distinct ps \<and>
    set ps = {p. manhattan p \<le> int r} \<and> sorted (map manhattan ps)"
proof -
  have "new_walker r = at_cell (int r) 0 (- 0) 0" using assms by (simp add: new_walker_def at_cell_def)
  then have "octa_offsets (new_walker r) = Some (octahedra [0..int r])" using octahedra_walk[of 0 "int r"] by simp
  moreover have "0 \<le> manhattan p" for p by (simp add: manhattan_def)
  ultimately show ?thesis
    by (auto simp: distinct_octahedra sorted_octahedra set_octahedra)
qed

theorem walker_enumerates_octahedron_witness:
  "\<exists>ps. octa_offsets (new_walker 16) = Some ps \<and> distinct ps \<and>
    set ps = {p. manhattan p \<le> 16} \<and> sorted (map manhattan ps)"
  using walker_enumerates_octahedron[of 16] by simp

end
