(* ===== verification/Lru_Visit_Ordering.thy ===== *)
theory Lru_Visit_Ordering
  imports Prelude "HOL-Library.Product_Lexorder" "HOL-Library.Multiset"
begin

text \<open>
  \<open>LruVisitOrdering\<close> (include/voxen/util/lru_visit_ordering.hpp): keys scheduled to be visited
  on a tick, oldest first. The code keeps a \<open>std::priority_queue\<close> of (tick, key) pairs with the
  least pair on top; what can be observed of it is the sorted list of its pairs, which is how
  it is kept here. The visitor may change state of its own, which is passed along.

  \<open>visit_keys\<close> is the reference: the visitor run over a list of keys.
\<close>

type_synonym 'k lru_queue = "(int \<times> 'k) list"

definition addKey :: "'k::linorder \<Rightarrow> int \<Rightarrow> 'k lru_queue \<Rightarrow> 'k lru_queue" where
  "addKey key tick q = insort (tick, key) q"

fun visitOldest ::
  "('k::linorder \<Rightarrow> 's \<Rightarrow> int \<times> 's) \<Rightarrow> nat \<Rightarrow> int \<Rightarrow> 'k lru_queue \<Rightarrow> 's \<Rightarrow> 'k lru_queue \<times> 's" where
  "visitOldest fn 0 tick_cutoff q s = (q, s)"
| "visitOldest fn (Suc cnt) tick_cutoff q s =
     (case q of
        [] \<Rightarrow> (q, s)
      | (tick, key) # rest \<Rightarrow>
          if tick > tick_cutoff then (q, s)
          else (case fn key s of (new_tick, s') \<Rightarrow>
            if new_tick < 0 then visitOldest fn cnt tick_cutoff rest s'
            else visitOldest fn cnt tick_cutoff (insort (new_tick, key) rest) s'))"

fun visit_keys :: "('k \<Rightarrow> 's \<Rightarrow> int \<times> 's) \<Rightarrow> 'k list \<Rightarrow> 's \<Rightarrow> (int \<times> 'k) list \<times> 's" where
  "visit_keys fn [] s = ([], s)"
| "visit_keys fn (k # ks) s =
     (case fn k s of (new_tick, s1) \<Rightarrow>
        (case visit_keys fn ks s1 of (again, s2) \<Rightarrow>
           ((if new_tick < 0 then again else (new_tick, k) # again), s2)))"

definition due :: "int \<Rightarrow> 'k lru_queue \<Rightarrow> 'k lru_queue" where
  "due cutoff q = takeWhile (\<lambda>it. fst it \<le> cutoff) q"

lemma due_insort:
  "cutoff < t \<Longrightarrow> due cutoff (insort (t, k :: 'k::linorder) q) = due cutoff q"
  by (induction q) (auto simp: due_def less_eq_prod_def)

lemma due_drop_insort:
  "cutoff < t \<Longrightarrow> n \<le> length (due cutoff q) \<Longrightarrow>
   mset (drop n (insort (t, k :: 'k::linorder) q)) = add_mset (t, k) (mset (drop n q))"
proof (induction q arbitrary: n)
  case (Cons x q)
  then show ?case
  proof (cases n)
    case (Suc m)
    then have x: "fst x \<le> cutoff" "m \<le> length (due cutoff q)"
      using Cons.prems(2) by (auto simp: due_def split: if_splits)
    then have "\<not> (t, k) \<le> x" using Cons.prems(1) by (auto simp: less_eq_prod_def)
    then show ?thesis using Cons.IH[OF Cons.prems(1) x(2)] Suc by simp
  qed simp
qed (simp add: due_def)

lemma visitOldest_keys:
  assumes "\<forall>k s. fst (fn k s) < 0 \<or> cutoff < fst (fn k s)" "sorted q"
  shows "snd (visitOldest fn cnt cutoff q s) = snd (visit_keys fn (map snd (take cnt (due cutoff q))) s) \<and>
    sorted (fst (visitOldest fn cnt cutoff q s)) \<and>
    mset (fst (visitOldest fn cnt cutoff q s)) =
      mset (drop (length (take cnt (due cutoff q))) q) + mset (fst (visit_keys fn (map snd (take cnt (due cutoff q))) s))"
  using assms(2)
proof (induction cnt arbitrary: q s)
  case (Suc cnt)
  show ?case
  proof (cases q)
    case Nil
    then show ?thesis by (simp add: due_def)
  next
    case (Cons it rest)
    obtain tick key where it: "it = (tick, key)" by force
    have srt: "sorted rest" using Suc.prems Cons by simp
    show ?thesis
    proof (cases "tick > cutoff")
      case True
      then show ?thesis using Cons it Suc.prems by (simp add: due_def)
    next
      case False
      then have d: "due cutoff q = (tick, key) # due cutoff rest" using Cons it by (simp add: due_def)
      obtain nt s1 where f: "fn key s = (nt, s1)" by force
      show ?thesis
      proof (cases "nt < 0")
        case True
        then show ?thesis using Suc.IH[OF srt, of s1] Cons it False d f by (simp split: prod.splits)
      next
        case nt: False
        then have c: "cutoff < nt" using assms(1)[rule_format, of key s] f by simp
        let ?rest = "insort (nt, key) rest"
        have s': "sorted ?rest" using srt by (simp add: sorted_insort)
        have "take cnt (due cutoff ?rest) = take cnt (due cutoff rest)" by (simp add: due_insort[OF c])
        moreover have "mset (drop (length (take cnt (due cutoff rest))) ?rest) =
            add_mset (nt, key) (mset (drop (length (take cnt (due cutoff rest))) rest))"
          by (rule due_drop_insort[OF c]) simp
        ultimately show ?thesis using Suc.IH[OF s', of s1] Cons it False d f nt by (simp split: prod.splits)
      qed
    qed
  qed
qed simp

text \<open>When the visitor answers every key with removal or with a tick after the cutoff, one
  call visits the keys that are due, at most as many as asked for, each exactly once and in
  order of their ticks; the keys visited leave the queue or are scheduled as the visitor
  said, all others stay as they are.\<close>

theorem visit_due_once:
  fixes fn :: "'k::linorder \<Rightarrow> 's \<Rightarrow> int \<times> 's"
  assumes "\<forall>k s. fst (fn k s) < 0 \<or> cutoff < fst (fn k s)" "sorted q"
  shows "let visited = take cnt (due cutoff q); result = visitOldest fn cnt cutoff q s;
      reference = visit_keys fn (map snd visited) s
    in snd result = snd reference \<and> sorted (fst result) \<and>
       mset (fst result) = mset (drop (length visited) q) + mset (fst reference)"
  using visitOldest_keys[OF assms] unfolding Let_def by blast

theorem visit_due_once_witness:
  "let q = [(3, 7), (4, 5), (9, 1)]; visited = take 1000 (due 5 q); fn = (\<lambda>(k::nat) n. (if k = 7 then -1 else 6, n + 1));
       result = visitOldest fn 1000 5 q (0::nat); reference = visit_keys fn (map snd visited) 0
   in snd result = snd reference \<and> sorted (fst result) \<and>
      mset (fst result) = mset (drop (length visited) q) + mset (fst reference) \<and> snd reference = 2"
  using visit_due_once[of "\<lambda>(k::nat) n. (if k = 7 then -1 else 6, n + 1)" 5 "[(3, 7), (4, 5), (9, 1)]" 1000 "0::nat"]
  by (simp add: due_def Let_def)

end
