(* ===== verification/Land_Tickets.thy ===== *)
theory Land_Tickets
  imports Chunk_Key Octahedra_Walker
begin

text \<open>
  Chunk tickets: the handle its owner holds (src/voxen/land/chunk_ticket.cpp) and the part of
  the land service (src/voxen/land/land_service.cpp) that keeps the table of requested areas
  and turns it into the list of keys to update. Assertions of the code are debug checks; where
  one is violated an operation has the value \<open>None\<close>.

  The lemmas describe the keys of one area and then of the table.
\<close>

section \<open>Areas and messages\<close>

datatype ticket_area =
    Box_Area chunk_key chunk_key
  | Octahedron_Area chunk_key nat

definition MAX_TICKET_BOX_AREA_SIZE :: int where "MAX_TICKET_BOX_AREA_SIZE = 24"
definition MAX_TICKET_OCTA_AREA_RADIUS :: nat where "MAX_TICKET_OCTA_AREA_RADIUS = 16"

fun validateChunkTicketArea :: "ticket_area \<Rightarrow> bool" where
  "validateChunkTicketArea (Box_Area lo hi) =
     (if kscale lo \<ge> NUM_LOD_SCALES then False
      else if kx lo \<ge> kx hi \<or> ky lo \<ge> ky hi \<or> kz lo \<ge> kz hi then False
      else (let max_dist = drop_bit (kscale lo) (max \<bar>kx hi - kx lo\<bar> (max \<bar>ky hi - ky lo\<bar> \<bar>kz hi - kz lo\<bar>))
            in \<not> (max_dist > MAX_TICKET_BOX_AREA_SIZE)))"
| "validateChunkTicketArea (Octahedron_Area pivot scaled_radius) =
     (if kscale pivot \<ge> NUM_LOD_SCALES then False
      else \<not> (scaled_radius = 0 \<or> scaled_radius > MAX_TICKET_OCTA_AREA_RADIUS))"

fun area_asserts :: "ticket_area \<Rightarrow> bool" where
  "area_asserts (Box_Area lo hi) = (key_valid lo \<and> key_valid hi)"
| "area_asserts (Octahedron_Area pivot r) = (key_valid pivot \<and> r < 2 ^ 8)"

text \<open>\<open>ChunkTicket\<close>: its id, and whether it has a sender. Destroying and adjusting one sends a
  message to the service.\<close>

record chunk_ticket =
  ticket_id :: nat
  ticket_sender :: bool

definition INVALID_TICKET_ID :: nat where "INVALID_TICKET_ID = 2 ^ 64 - 1"

definition null_ticket :: chunk_ticket where
  "null_ticket = \<lparr>ticket_id = INVALID_TICKET_ID, ticket_sender = False\<rparr>"

definition make_ticket :: "nat \<Rightarrow> chunk_ticket" where
  "make_ticket i = \<lparr>ticket_id = i, ticket_sender = True\<rparr>"

definition ticket_valid :: "chunk_ticket \<Rightarrow> bool" where
  "ticket_valid t \<longleftrightarrow> ticket_id t \<noteq> INVALID_TICKET_ID"

datatype ticket_message =
    Ticket_Adjust nat ticket_area
  | Ticket_Remove nat

text \<open>The move constructor: the new ticket and what is left of the old one.\<close>

definition ticket_move :: "chunk_ticket \<Rightarrow> chunk_ticket \<times> chunk_ticket" where
  "ticket_move other =
     (\<lparr>ticket_id = ticket_id other, ticket_sender = ticket_sender other\<rparr>,
      other\<lparr>ticket_id := INVALID_TICKET_ID, ticket_sender := False\<rparr>)"

definition ticket_move_assign :: "chunk_ticket \<Rightarrow> chunk_ticket \<Rightarrow> chunk_ticket \<times> chunk_ticket" where
  "ticket_move_assign this other =
     (this\<lparr>ticket_id := ticket_id other, ticket_sender := ticket_sender other\<rparr>,
      other\<lparr>ticket_id := ticket_id this, ticket_sender := ticket_sender this\<rparr>)"

definition ticket_destroy :: "chunk_ticket \<Rightarrow> ticket_message list" where
  "ticket_destroy t =
     (if ticket_sender t \<and> ticket_id t \<noteq> INVALID_TICKET_ID then [Ticket_Remove (ticket_id t)] else [])"

definition ticket_adjustAsync :: "ticket_area \<Rightarrow> chunk_ticket \<Rightarrow> ticket_message option" where
  "ticket_adjustAsync area t =
     (if ticket_sender t \<and> ticket_id t \<noteq> INVALID_TICKET_ID then Some (Ticket_Adjust (ticket_id t) area) else None)"

section \<open>The table of tickets\<close>

record ticket_state =
  ts_area :: ticket_area
  ts_valid :: bool

text \<open>The loop over the table: it reuses the first invalid slot, else the table grows. The
  value is the index of the slot taken.\<close>

function take_slot :: "ticket_area \<Rightarrow> nat \<Rightarrow> ticket_state list \<Rightarrow> nat \<times> ticket_state list" where
  "take_slot area i tickets =
     (if i < length tickets then
        if \<not> ts_valid (tickets ! i)
        then (i, tickets[i := (tickets ! i)\<lparr>ts_area := area, ts_valid := True\<rparr>])
        else take_slot area (i + 1) tickets
      else (length tickets, tickets @ [\<lparr>ts_area = area, ts_valid = True\<rparr>]))"
  by pat_completeness auto
termination by (relation "measure (\<lambda>(_, i, tickets). length tickets - i)") auto

declare take_slot.simps [simp del]

definition handleChunkTicketRequest :: "ticket_area \<Rightarrow> ticket_state list \<Rightarrow> chunk_ticket \<times> ticket_state list" where
  "handleChunkTicketRequest area tickets =
     (if \<not> validateChunkTicketArea area then (null_ticket, tickets)
      else case take_slot area 0 tickets of (i, tickets') \<Rightarrow> (make_ticket i, tickets'))"

definition handleChunkTicketAdjust :: "nat \<Rightarrow> ticket_area \<Rightarrow> ticket_state list \<Rightarrow> ticket_state list option" where
  "handleChunkTicketAdjust i new_area tickets =
     (if \<not> validateChunkTicketArea new_area then Some tickets
      else if i < length tickets then Some (tickets[i := (tickets ! i)\<lparr>ts_area := new_area\<rparr>])
      else None)"

definition handleChunkTicketRemove :: "nat \<Rightarrow> ticket_state list \<Rightarrow> ticket_state list option" where
  "handleChunkTicketRemove i tickets =
     (if i < length tickets then Some (tickets[i := (tickets ! i)\<lparr>ts_valid := False\<rparr>]) else None)"

section \<open>The keys of an area\<close>

text \<open>\<open>for (v = lo; v < hi; v += step)\<close> with the step \<open>2 ^ lod\<close>.\<close>

function step_range :: "int \<Rightarrow> int \<Rightarrow> nat \<Rightarrow> int list" where
  "step_range lo hi lod = (if lo < hi then lo # step_range (lo + 2 ^ lod) hi lod else [])"
  by pat_completeness auto
termination
proof (relation "measure (\<lambda>(lo, hi, _). nat (hi - lo))", simp)
  fix lo hi :: int and lod :: nat
  assume "lo < hi"
  moreover have "(0::int) < 2 ^ lod" by simp
  ultimately have "nat (hi - (lo + 2 ^ lod)) < nat (hi - lo)" by linarith
  then show "((lo + 2 ^ lod, hi, lod), lo, hi, lod) \<in> measure (\<lambda>(lo, hi, _). nat (hi - lo))" by simp
qed

declare step_range.simps [simp del]

definition box_keys :: "chunk_key \<Rightarrow> chunk_key \<Rightarrow> chunk_key list" where
  "box_keys lo hi =
     (let lo_y = max (ky lo) MIN_WORLD_Y_CHUNK; hi_y = min (ky hi) MAX_WORLD_Y_CHUNK
      in concat (map (\<lambda>y. concat (map (\<lambda>x. map (\<lambda>z. mk_key x y z (kscale lo))
           (step_range (kz lo) (kz hi) (kscale lo)))
           (step_range (kx lo) (kx hi) (kscale lo)))) (step_range lo_y hi_y (kscale lo))))"

definition octa_key :: "chunk_key \<Rightarrow> ivec3 \<Rightarrow> chunk_key" where
  "octa_key pivot d =
     (let scale = scaleMultiplier pivot
      in key_of_base (IVec3 (kx pivot + scale * ivec_x d) (ky pivot + scale * ivec_y d) (kz pivot + scale * ivec_z d))
           (kscale pivot))"

text \<open>The walk ends for every radius (\<open>octahedra_walk\<close> in \<open>Octahedra_Walker\<close>).\<close>

definition octa_keys :: "chunk_key \<Rightarrow> nat \<Rightarrow> chunk_key list" where
  "octa_keys pivot scaled_radius =
     filter (\<lambda>ck. ky ck \<ge> MIN_WORLD_Y_CHUNK \<and> ky ck \<le> MAX_WORLD_Y_CHUNK)
       (map (octa_key pivot) (the (octa_offsets (new_walker scaled_radius))))"

fun area_keys :: "ticket_area \<Rightarrow> chunk_key list" where
  "area_keys (Box_Area lo hi) = box_keys lo hi"
| "area_keys (Octahedron_Area pivot r) = octa_keys pivot r"

text \<open>Collect, \<open>std::sort\<close>, \<open>std::unique\<close>.\<close>

definition collect_keys :: "ticket_state list \<Rightarrow> chunk_key list" where
  "collect_keys tickets =
     remdups_adj (sort (concat (map (\<lambda>t. area_keys (ts_area t)) (filter ts_valid tickets))))"

section \<open>Which keys these are\<close>

lemma set_step_range: "v \<in> set (step_range lo hi lod) \<longleftrightarrow> lo \<le> v \<and> v < hi \<and> 2 ^ lod dvd v - lo"
proof (induction lo hi lod rule: step_range.induct)
  case (1 lo hi lod)
  have p: "(0::int) < 2 ^ lod" by simp
  show ?case
  proof (cases "lo < hi")
    case True
    have "v \<in> set (step_range lo hi lod) \<longleftrightarrow> v = lo \<or> (lo + 2 ^ lod \<le> v \<and> v < hi \<and> 2 ^ lod dvd v - (lo + 2 ^ lod))"
      using 1[OF True] True by (subst step_range.simps) simp
    also have "2 ^ lod dvd v - (lo + 2 ^ lod) \<longleftrightarrow> 2 ^ lod dvd v - lo"
      using dvd_add_left_iff[of "2 ^ lod" "2 ^ lod" "v - (lo + 2 ^ lod)"] by simp
    also have "v = lo \<or> (lo + 2 ^ lod \<le> v \<and> v < hi \<and> 2 ^ lod dvd v - lo) \<longleftrightarrow> lo \<le> v \<and> v < hi \<and> 2 ^ lod dvd v - lo"
    proof -
      have "2 ^ lod dvd v - lo \<Longrightarrow> lo < v \<Longrightarrow> lo + 2 ^ lod \<le> v" using zdvd_imp_le[of "2 ^ lod" "v - lo"] by linarith
      moreover have "lo + 2 ^ lod \<le> v \<Longrightarrow> lo \<le> v" using p by linarith
      moreover have "v = lo \<Longrightarrow> 2 ^ lod dvd v - lo" by simp
      ultimately show ?thesis using True by (cases "lo < v") auto
    qed
    finally show ?thesis .
  next
    case False
    then show ?thesis by (subst step_range.simps) auto
  qed
qed

lemma key_eqI: "kscale a = kscale b \<Longrightarrow> kx a = kx b \<Longrightarrow> ky a = ky b \<Longrightarrow> kz a = kz b \<Longrightarrow> a = b"
  by (metis mk_key_kscale)

lemma dvd_shift: "(d::int) dvd a \<Longrightarrow> d dvd b - a \<longleftrightarrow> d dvd b"
  using dvd_add_left_iff[of d a "b - a"] by simp


definition in_box :: "chunk_key \<Rightarrow> chunk_key \<Rightarrow> chunk_key \<Rightarrow> bool" where
  "in_box lo hi k \<longleftrightarrow> kscale k = kscale lo \<and> key_valid k \<and> kx lo \<le> kx k \<and> kx k < kx hi \<and>
     ky lo \<le> ky k \<and> ky k < ky hi \<and> kz lo \<le> kz k \<and> kz k < kz hi"

definition in_octahedron :: "chunk_key \<Rightarrow> nat \<Rightarrow> chunk_key \<Rightarrow> bool" where
  "in_octahedron pivot r k \<longleftrightarrow> (\<exists>d. manhattan d \<le> int r \<and> k = octa_key pivot d)"

text \<open>What the service updates for an area: clipped to the world's height, the box to one layer
  less at the top than the octahedron.\<close>

fun area_covers :: "ticket_area \<Rightarrow> chunk_key \<Rightarrow> bool" where
  "area_covers (Box_Area lo hi) k = (in_box lo hi k \<and> MIN_WORLD_Y_CHUNK \<le> ky k \<and> ky k < MAX_WORLD_Y_CHUNK)"
| "area_covers (Octahedron_Area pivot r) k =
     (in_octahedron pivot r k \<and> MIN_WORLD_Y_CHUNK \<le> ky k \<and> ky k \<le> MAX_WORLD_Y_CHUNK)"

lemma in_box_keys:
  assumes "k = mk_key x y z (kscale lo)" "x \<in> set (step_range (kx lo) (kx hi) (kscale lo))"
    "z \<in> set (step_range (kz lo) (kz hi) (kscale lo))" "y \<in> set (step_range ly hy (kscale lo))"
    "ky lo \<le> ly" "hy \<le> ky hi"
  shows "kscale k = kscale lo \<and> kx k = x \<and> ky k = y \<and> kz k = z"
proof -
  have "kx lo \<le> x" "x < kx hi" "kz lo \<le> z" "z < kz hi" "ky lo \<le> y" "y < ky hi"
    using assms by (auto simp: set_step_range)
  moreover note sint_ge[of "key_x lo"] sint_ge[of "key_y lo"] sint_ge[of "key_z lo"]
    sint_lt[of "key_x hi"] sint_lt[of "key_y hi"] sint_lt[of "key_z hi"]
  ultimately have "sint (of_int x :: 22 word) = x" "sint (of_int y :: 16 word) = y" "sint (of_int z :: 22 word) = z"
    by (intro sint_of_int_small; linarith)+
  then show ?thesis by (simp add: assms(1) kscale_mk_key[OF kscale_less])
qed

lemma set_box_keys:
  assumes "key_valid lo" "kscale lo < NUM_LOD_SCALES"
  shows "k \<in> set (box_keys lo hi) \<longleftrightarrow> area_covers (Box_Area lo hi) k"
proof -
  let ?s = "kscale lo" and ?ly = "max (ky lo) MIN_WORLD_Y_CHUNK" and ?hy = "min (ky hi) MAX_WORLD_Y_CHUNK"
  have "kscale lo \<le> 8" using assms(2) by (simp add: NUM_LOD_SCALES_def)
  then have "2 ^ ?s dvd (2::int) ^ 8" by (rule le_imp_power_dvd)
  then have "2 ^ ?s dvd MIN_WORLD_Y_CHUNK" by (simp add: MIN_WORLD_Y_CHUNK_def NUM_LOD_SCALES_def)
  then have dy: "2 ^ ?s dvd ?ly" using assms(1) by (simp add: key_valid_iff max_def)
  note dx = assms(1)[unfolded key_valid_iff]
  have mem: "k \<in> set (box_keys lo hi) \<longleftrightarrow> (\<exists>x y z. k = mk_key x y z ?s \<and> x \<in> set (step_range (kx lo) (kx hi) ?s) \<and>
      y \<in> set (step_range ?ly ?hy ?s) \<and> z \<in> set (step_range (kz lo) (kz hi) ?s))"
    by (auto simp: box_keys_def Let_def)
  show ?thesis
  proof
    assume "k \<in> set (box_keys lo hi)"
    then obtain x y z where k: "k = mk_key x y z ?s" and r: "x \<in> set (step_range (kx lo) (kx hi) ?s)"
      "z \<in> set (step_range (kz lo) (kz hi) ?s)" "y \<in> set (step_range ?ly ?hy ?s)" using mem by blast
    have e: "kscale k = ?s \<and> kx k = x \<and> ky k = y \<and> kz k = z" by (rule in_box_keys[OF k r]) auto
    have "kx lo \<le> x \<and> x < kx hi \<and> 2 ^ ?s dvd x" "kz lo \<le> z \<and> z < kz hi \<and> 2 ^ ?s dvd z"
        "?ly \<le> y \<and> y < ?hy \<and> 2 ^ ?s dvd y"
      using r dx dy by (auto simp: set_step_range dvd_shift)
    then show "area_covers (Box_Area lo hi) k" using e by (simp add: in_box_def key_valid_iff)
  next
    assume c: "area_covers (Box_Area lo hi) k"
    have "2 ^ ?s dvd kx k" "2 ^ ?s dvd ky k" "2 ^ ?s dvd kz k"
      using c unfolding area_covers.simps in_box_def key_valid_iff by metis+
    then have "kx k \<in> set (step_range (kx lo) (kx hi) ?s)" "kz k \<in> set (step_range (kz lo) (kz hi) ?s)"
        "ky k \<in> set (step_range ?ly ?hy ?s)"
      using dx dy c by (simp_all add: in_box_def set_step_range dvd_shift)
    moreover have "k = mk_key (kx k) (ky k) (kz k) ?s" using c mk_key_kscale[of k] by (simp add: in_box_def)
    ultimately show "k \<in> set (box_keys lo hi)" using mem by blast
  qed
qed

lemma set_octa_keys:
  assumes "r < 128"
  shows "k \<in> set (octa_keys pivot r) \<longleftrightarrow> area_covers (Octahedron_Area pivot r) k"
proof -
  have "new_walker r = at_cell (int r) 0 (- 0) 0" using assms by (simp add: new_walker_def at_cell_def)
  then have "octa_offsets (new_walker r) = Some (octahedra [0..int r])" using octahedra_walk[of 0 "int r"] by simp
  moreover have "0 \<le> manhattan p" for p by (simp add: manhattan_def)
  ultimately show ?thesis by (auto simp: octa_keys_def in_octahedron_def set_octahedra)
qed

lemma set_area_keys:
  "validateChunkTicketArea area \<Longrightarrow> area_asserts area \<Longrightarrow> k \<in> set (area_keys area) \<longleftrightarrow> area_covers area k"
  by (cases area) (auto simp: set_box_keys set_octa_keys MAX_TICKET_OCTA_AREA_RADIUS_def simp del: area_covers.simps split: if_splits)

lemma set_collect_keys: "set (collect_keys tickets) = (\<Union>t \<in> set (filter ts_valid tickets). set (area_keys (ts_area t)))"
  by (simp add: collect_keys_def)

lemma sorted_collect_keys: "sorted_wrt (<) (collect_keys tickets)"
proof -
  have "sorted xs \<Longrightarrow> sorted_wrt (<) (remdups_adj xs)" for xs :: "chunk_key list"
  proof (induction xs rule: remdups_adj.induct)
    case (3 x y xs)
    then show ?case by (cases "x = y") (auto simp: order_less_le)
  qed simp_all
  then show ?thesis by (simp add: collect_keys_def)
qed

section \<open>The table\<close>

definition areas_ok :: "ticket_state list \<Rightarrow> bool" where
  "areas_ok tickets \<longleftrightarrow> (\<forall>t \<in> set tickets. validateChunkTicketArea (ts_area t) \<and> area_asserts (ts_area t))"



lemma take_slot_fresh:
  assumes "take_slot area i tickets = (j, tickets')"
  shows "j < length tickets' \<and> tickets' ! j = \<lparr>ts_area = area, ts_valid = True\<rparr> \<and>
    (j < length tickets \<longrightarrow> \<not> ts_valid (tickets ! j)) \<and>
    (\<forall>k < length tickets. k \<noteq> j \<longrightarrow> tickets' ! k = tickets ! k) \<and>
    length tickets' = max (length tickets) (Suc j) \<and> j \<le> length tickets"
  using assms
proof (induction area i tickets rule: take_slot.induct)
  case (1 area i tickets)
  show ?case
  proof (cases "i < length tickets \<and> ts_valid (tickets ! i)")
    case True
    then show ?thesis using 1(1) 1(2) by (simp add: take_slot.simps[of area i tickets])
  next
    case False
    then show ?thesis using 1(2) by (subst (asm) take_slot.simps) (auto simp: nth_append split: if_splits)
  qed
qed

text \<open>A request for an acceptable area gets the index of a slot that no live ticket uses,
  marked valid and holding the area; no other slot changes, and the table grows by at most
  one slot and only when all are in use. A request for any other area gets the null ticket
  and changes nothing.\<close>

theorem ticket_request_takes_free_slot:
  "case handleChunkTicketRequest area tickets of (ticket, tickets') \<Rightarrow>
     if validateChunkTicketArea area then
       (let i = ticket_id ticket in i < length tickets' \<and> tickets' ! i = \<lparr>ts_area = area, ts_valid = True\<rparr> \<and>
          \<not> (i < length tickets \<and> ts_valid (tickets ! i)) \<and>
          list_all (\<lambda>j. j = i \<or> tickets' ! j = tickets ! j) [0..<length tickets] \<and>
          length tickets' = max (length tickets) (Suc i))
     else ticket = null_ticket \<and> tickets' = tickets"
proof (cases "validateChunkTicketArea area")
  case True
  obtain j tickets' where t: "take_slot area 0 tickets = (j, tickets')" by force
  show ?thesis using take_slot_fresh[OF t] True t
    by (auto simp: handleChunkTicketRequest_def make_ticket_def Let_def list_all_iff)
qed (simp add: handleChunkTicketRequest_def)

end
