(* ===== verification/Land_Invalidation.thy ===== *)
theory Land_Invalidation
  imports Chunk_Key
begin

text \<open>
  Which chunks the land service (src/voxen/land/land_service.cpp) reads to build the data and
  the surface of a chunk, and which chunks it marks stale when the data of a chunk changes:
  the key lists of \<open>enqueuePseudoSurfaceGen\<close>, \<open>enqueuePseudoDataGen\<close>, \<open>handleChunkLoadCompletion\<close>
  and \<open>handlePseudoDataGenCompletion\<close>, in the order of the code. The property says that the
  second is the converse of the first.
\<close>

type_synonym offset3 = "int \<times> int \<times> int"

text \<open>\<open>ChunkKey(B + glm::ivec3(x, y, z), lod)\<close> with \<open>B = key.base()\<close>.\<close>

definition offset_key :: "chunk_key \<Rightarrow> nat \<Rightarrow> offset3 \<Rightarrow> chunk_key" where
  "offset_key k lod d = (case d of (x, y, z) \<Rightarrow> key_of_base (IVec3 (kx k + x) (ky k + y) (kz k + z)) lod)"

section \<open>Dependencies\<close>

definition face_offsets :: "int \<Rightarrow> offset3 list" where
  "face_offsets S = [(S, 0, 0), (-S, 0, 0), (0, S, 0), (0, -S, 0), (0, 0, S), (0, 0, -S)]"

definition edge_offsets :: "int \<Rightarrow> offset3 list" where
  "edge_offsets S = [(0, -S, -S), (0, -S, S), (0, S, -S), (0, S, S), (-S, 0, -S), (-S, 0, S), (S, 0, -S), (S, 0, S),
     (-S, -S, 0), (S, -S, 0), (-S, S, 0), (S, S, 0)]"

text \<open>The keys after the chunk itself, in \<open>enqueuePseudoSurfaceGen\<close>.\<close>

definition surface_deps :: "chunk_key \<Rightarrow> chunk_key list" where
  "surface_deps k =
     (if kscale k = 0 then map (offset_key k 0) (face_offsets 1)
      else map (offset_key k (kscale k)) (face_offsets (scaleMultiplier k) @ edge_offsets (scaleMultiplier k)))"

definition finest_offsets :: "offset3 list" where
  "finest_offsets =
     [(0, 0, 0), (0, 0, 1), (1, 0, 0), (1, 0, 1), (0, 1, 0), (0, 1, 1), (1, 1, 0), (1, 1, 1),
      (2, 0, 0), (2, 0, 1), (2, 1, 0), (2, 1, 1), (0, 2, 0), (0, 2, 1), (1, 2, 0), (1, 2, 1),
      (0, 0, 2), (1, 0, 2), (0, 1, 2), (1, 1, 2), (0, 2, 2), (1, 2, 2), (2, 0, 2), (2, 1, 2), (2, 2, 0), (2, 2, 1),
      (2, 2, 2)]"

definition child_offsets :: "int \<Rightarrow> offset3 list" where
  "child_offsets K = [(0, 0, 0), (0, 0, K), (K, 0, 0), (K, 0, K), (0, K, 0), (0, K, K), (K, K, 0), (K, K, K)]"

text \<open>The keys read by \<open>enqueuePseudoDataGen\<close>; true chunks have no pseudo data.\<close>

definition data_deps :: "chunk_key \<Rightarrow> chunk_key list" where
  "data_deps k =
     (if kscale k = 0 then []
      else if kscale k = 1 then map (offset_key k 0) finest_offsets
      else map (offset_key k (kscale k - 1)) (child_offsets (scaleMultiplier k div 2)))"

section \<open>Invalidations\<close>

definition invalidated_edges :: "int \<Rightarrow> offset3 list" where
  "invalidated_edges S = [(S, 0, S), (S, 0, -S), (-S, 0, S), (-S, 0, -S), (0, S, S), (0, S, -S), (0, -S, S), (0, -S, -S),
     (S, S, 0), (S, -S, 0), (-S, S, 0), (-S, -S, 0)]"

text \<open>\<open>handleChunkLoadCompletion\<close>.\<close>

definition tail_offsets :: "offset3 list" where
  "tail_offsets = [(0, 0, -1), (-1, 0, 0), (-1, 0, -1), (0, -1, 0), (0, -1, -1), (-1, -1, 0), (-1, -1, -1)]"

definition chunk_load_surfaces :: "chunk_key \<Rightarrow> chunk_key list" where
  "chunk_load_surfaces k = map (offset_key k 0) (face_offsets 1)"

definition chunk_load_data :: "chunk_key \<Rightarrow> chunk_key list" where
  "chunk_load_data k = parentLodKey k # map (\<lambda>d. parentLodKey (offset_key k 0 d)) tail_offsets"

text \<open>\<open>handlePseudoDataGenCompletion\<close>.\<close>

definition data_gen_surfaces :: "chunk_key \<Rightarrow> chunk_key list" where
  "data_gen_surfaces k =
     map (offset_key k (kscale k)) (face_offsets (scaleMultiplier k) @ invalidated_edges (scaleMultiplier k))"

text \<open>True chunks complete by the first handler, all others by the second.\<close>

definition surface_invalidations :: "chunk_key \<Rightarrow> chunk_key list" where
  "surface_invalidations k = (if kscale k = 0 then chunk_load_surfaces k else data_gen_surfaces k)"

definition data_invalidations :: "chunk_key \<Rightarrow> chunk_key list" where
  "data_invalidations k = (if kscale k = 0 then chunk_load_data k else [parentLodKey k])"

lemmas surface_invalidations_unfold = surface_invalidations_def chunk_load_surfaces_def data_gen_surfaces_def
lemmas data_invalidations_unfold = data_invalidations_def chunk_load_data_def

section \<open>Coordinates as words\<close>

lemma offset_key_word:
  "offset_key k lod (x, y, z) = Chunk_Key (of_nat lod) (key_x k + of_int x) (key_y k + of_int y) (key_z k + of_int z)"
  by (simp add: offset_key_def key_of_base_def mk_key_def)

lemma chunk_key_collapse: "Chunk_Key (scale_log2 k) (key_x k) (key_y k) (key_z k) = k"
  by (cases k) simp

lemma of_nat_kscale [simp]: "of_nat (kscale k) = scale_log2 k"
  by simp

text \<open>Moving back and forth: an offset and its negation.\<close>

lemma offset_key_back:
  "k = offset_key p (kscale p) (x, y, z) \<longleftrightarrow> p = offset_key k (kscale k) (- x, - y, - z)"
  by (cases k; cases p) (auto simp: offset_key_word algebra_simps)

lemma in_map_offset_key:
  assumes "\<And>x y z. (x, y, z) \<in> set os \<longleftrightarrow> (- x, - y, - z) \<in> set os'"
  shows "k \<in> set (map (offset_key p (kscale p)) os) \<longleftrightarrow> p \<in> set (map (offset_key k (kscale k)) os')"
proof
  assume "k \<in> set (map (offset_key p (kscale p)) os)"
  then obtain x y z where "k = offset_key p (kscale p) (x, y, z)" "(x, y, z) \<in> set os" by auto
  then show "p \<in> set (map (offset_key k (kscale k)) os')" using assms offset_key_back by fastforce
next
  assume "p \<in> set (map (offset_key k (kscale k)) os')"
  then obtain x y z where d: "p = offset_key k (kscale k) (x, y, z)" "(x, y, z) \<in> set os'" by auto
  then have "(- x, - y, - z) \<in> set os" using assms[of "- x" "- y" "- z"] by simp
  moreover have "k = offset_key p (kscale p) (- x, - y, - z)" using d(1) offset_key_back[of p k x y z] by blast
  ultimately show "k \<in> set (map (offset_key p (kscale p)) os)" by simp
qed

lemma scale_offset_key: "k \<in> set (map (offset_key p lod) os) \<Longrightarrow> scale_log2 k = of_nat lod"
  by (auto simp: offset_key_word)

lemma surface_deps_map: "\<exists>os. surface_deps p = map (offset_key p (kscale p)) os"
  unfolding surface_deps_def by (cases "kscale p = 0") (simp_all only: simp_thms if_True if_False, blast+)

lemma surface_invalidations_map: "\<exists>os. surface_invalidations p = map (offset_key p (kscale p)) os"
  unfolding surface_invalidations_unfold by (cases "kscale p = 0") (simp_all only: simp_thms if_True if_False, blast+)

lemma surface_lists_scale:
  "k \<in> set (surface_deps p) \<Longrightarrow> scale_log2 k = scale_log2 p"
  "k \<in> set (surface_invalidations p) \<Longrightarrow> scale_log2 k = scale_log2 p"
  using surface_deps_map[of p] surface_invalidations_map[of p] scale_offset_key[of k p "kscale p"] of_nat_kscale[of p] by metis+

lemma edge_offsets_back: "(x, y, z) \<in> set (face_offsets S @ edge_offsets S) \<longleftrightarrow>
    (- x, - y, - z) \<in> set (face_offsets S @ invalidated_edges S)"
proof -
  have 1: "\<forall>d \<in> set (face_offsets S @ edge_offsets S). case d of (x, y, z) \<Rightarrow>
      (- x, - y, - z) \<in> set (face_offsets S @ invalidated_edges S)"
    by (simp add: face_offsets_def edge_offsets_def invalidated_edges_def)
  have 2: "\<forall>d \<in> set (face_offsets S @ invalidated_edges S). case d of (x, y, z) \<Rightarrow>
      (- x, - y, - z) \<in> set (face_offsets S @ edge_offsets S)"
    by (simp add: face_offsets_def edge_offsets_def invalidated_edges_def)
  show ?thesis using bspec[OF 1, of "(x, y, z)"] bspec[OF 2, of "(- x, - y, - z)"] by auto
qed

lemma surface_deps_converse: "k \<in> set (surface_deps p) \<longleftrightarrow> p \<in> set (surface_invalidations k)"
proof (cases "scale_log2 k = scale_log2 p")
  case False
  then show ?thesis using surface_lists_scale(1)[of k p] surface_lists_scale(2)[of p k] by auto
next
  case True
  show ?thesis
  proof (cases "kscale p = 0")
    case z: True
    have "k \<in> set (map (offset_key p (kscale p)) (face_offsets 1)) \<longleftrightarrow> p \<in> set (map (offset_key k (kscale k)) (face_offsets 1))"
      by (rule in_map_offset_key) (auto simp: face_offsets_def)
    then show ?thesis using True z by (simp add: surface_deps_def surface_invalidations_unfold)
  next
    case nz: False
    let ?S = "scaleMultiplier p"
    have "k \<in> set (map (offset_key p (kscale p)) (face_offsets ?S @ edge_offsets ?S)) \<longleftrightarrow>
        p \<in> set (map (offset_key k (kscale k)) (face_offsets ?S @ invalidated_edges ?S))"
      by (rule in_map_offset_key, rule edge_offsets_back)
    moreover have "scaleMultiplier k = ?S" using True by (simp add: scaleMultiplier_def)
    moreover have "surface_deps p = map (offset_key p (kscale p)) (face_offsets ?S @ edge_offsets ?S)"
      unfolding surface_deps_def using nz by (rule if_not_P)
    moreover have "surface_invalidations k = map (offset_key k (kscale k)) (face_offsets (scaleMultiplier k) @ invalidated_edges (scaleMultiplier k))"
      unfolding surface_invalidations_unfold using nz[folded True] by (rule if_not_P)
    ultimately show ?thesis by (simp only:)
  qed
qed


text \<open>The coordinate of the parent of a true chunk: its lowest bit cleared.\<close>

definition clear_low :: "'a::len word \<Rightarrow> 'a word" where
  "clear_low w = (if odd w then w - 1 else w)"

lemma odd_sint: "odd (sint w) \<longleftrightarrow> odd w" for w :: "'a::len word"
  by (simp add: bit_0 [symmetric] bit_sint_iff)

lemma of_int_align_down1: "of_int (align_down (sint w) (Suc 0)) = clear_low (w :: 'a::len word)"
proof -
  have "align_down (sint w) (Suc 0) = (if odd (sint w) then sint w - 1 else sint w)"
    unfolding align_down_eq power_one_right power_Suc0_right by presburger
  then show ?thesis by (simp add: clear_low_def odd_sint)
qed

lemma parent_of_true_chunk:
  "kscale k = 0 \<Longrightarrow> parentLodKey k = Chunk_Key 1 (clear_low (key_x k)) (clear_low (key_y k)) (clear_low (key_z k))"
  by (simp add: parentLodKey_def mk_key_def of_int_align_down1)

text \<open>One axis: an even coordinate is reached from \<open>w\<close> or from \<open>w - 1\<close> exactly when \<open>w\<close> is it,
  or one or two more.\<close>

lemma clear_low_axis:
  fixes p w :: "'a::len word"
  assumes "even p"
  shows "clear_low (w - e) = p \<longleftrightarrow> w = p + e \<or> w = p + e + 1"
proof -
  have *: "odd v \<Longrightarrow> even (v - 1)" for v :: "'a word" by simp
  show ?thesis
  proof (cases "odd (w - e)")
    case True
    then have "w - e \<noteq> p" using assms(1) by auto
    then show ?thesis using True by (auto simp: clear_low_def algebra_simps)
  next
    case False
    have "w \<noteq> p + e + 1"
    proof
      assume "w = p + e + 1"
      then have "w - e = p + 1" by simp
      then show False using False assms by simp
    qed
    then show ?thesis using False by (auto simp: clear_low_def algebra_simps)
  qed
qed

lemma set_finest_offsets: "set finest_offsets = {0, 1, 2} \<times> {0, 1, 2} \<times> {0, 1, 2}"
  by (auto simp: finest_offsets_def)

lemma step_012: "(\<exists>x \<in> {0, 1, 2 :: int}. w = v + of_int x) \<longleftrightarrow> w \<in> {v, v + 1, v + 2}" for w v :: "'a::len word"
  by auto

lemma chunk_key_eq_iff: "k = Chunk_Key s x y z \<longleftrightarrow> scale_log2 k = s \<and> key_x k = x \<and> key_y k = y \<and> key_z k = z"
  by (cases k) simp

lemma in_finest:
  "k \<in> set (map (offset_key p 0) finest_offsets) \<longleftrightarrow> scale_log2 k = 0 \<and>
     key_x k \<in> {key_x p, key_x p + 1, key_x p + 2} \<and> key_y k \<in> {key_y p, key_y p + 1, key_y p + 2} \<and>
     key_z k \<in> {key_z p, key_z p + 1, key_z p + 2}"
proof -
  have "k \<in> set (map (offset_key p 0) finest_offsets) \<longleftrightarrow>
      (\<exists>x \<in> {0, 1, 2}. \<exists>y \<in> {0, 1, 2}. \<exists>z \<in> {0, 1, 2}. k = offset_key p 0 (x, y, z))"
    unfolding set_map set_finest_offsets by blast
  also have "\<dots> \<longleftrightarrow> scale_log2 k = 0 \<and> (\<exists>x \<in> {0, 1, 2}. key_x k = key_x p + of_int x) \<and>
      (\<exists>x \<in> {0, 1, 2}. key_y k = key_y p + of_int x) \<and> (\<exists>x \<in> {0, 1, 2}. key_z k = key_z p + of_int x)"
    unfolding offset_key_word chunk_key_eq_iff by simp
  finally show ?thesis unfolding step_012 .
qed

lemma set_tail_offsets: "insert (0, 0, 0) (set tail_offsets) = {0, -1} \<times> {0, -1} \<times> {0, -1}"
  by (auto simp: tail_offsets_def)

lemma data_invalidations_true:
  assumes "kscale k = 0"
  shows "set (data_invalidations k) = (\<lambda>(x, y, z). Chunk_Key 1 (clear_low (key_x k + of_int x))
    (clear_low (key_y k + of_int y)) (clear_low (key_z k + of_int z))) ` ({0, -1} \<times> {0, -1} \<times> {0, -1})"
proof -
  have "parentLodKey (offset_key k 0 d) = (\<lambda>(x, y, z). Chunk_Key 1 (clear_low (key_x k + of_int x))
    (clear_low (key_y k + of_int y)) (clear_low (key_z k + of_int z))) d" for d
    by (cases d) (simp add: parent_of_true_chunk offset_key_word)
  moreover have "parentLodKey k = Chunk_Key 1 (clear_low (key_x k)) (clear_low (key_y k)) (clear_low (key_z k))"
    by (rule parent_of_true_chunk[OF assms])
  ultimately show ?thesis
    unfolding set_tail_offsets[symmetric] using assms by (simp add: data_invalidations_unfold)
qed

lemma clear_low_step:
  fixes p w :: "'a::len word"
  assumes "even p"
  shows "(\<exists>e \<in> {0, -1}. p = clear_low (w + of_int e)) \<longleftrightarrow> w \<in> {p, p + 1, p + 2}"
proof -
  have "(\<exists>e \<in> {0, -1}. p = clear_low (w + of_int e)) \<longleftrightarrow> clear_low (w - 0) = p \<or> clear_low (w - 1) = p" by auto
  also have "\<dots> \<longleftrightarrow> w \<in> {p, p + 1, p + 2}"
    unfolding clear_low_axis[OF assms, of w 0] clear_low_axis[OF assms, of w 1] by (auto simp: add.assoc)
  finally show ?thesis .
qed

lemma even_of_valid:
  assumes "key_valid p" "kscale p = 1"
  shows "even (key_x p)" "even (key_y p)" "even (key_z p)"
proof -
  have "even (kx p)" "even (ky p)" "even (kz p)"
    using assms(1) unfolding key_valid_iff assms(2) by simp_all
  then show "even (key_x p)" "even (key_y p)" "even (key_z p)"
    using odd_sint[of "key_x p"] odd_sint[of "key_y p"] odd_sint[of "key_z p"] by blast+
qed

lemma finest_converse:
  assumes "kscale k = 0" "key_valid p" "kscale p = 1"
  shows "k \<in> set (data_deps p) \<longleftrightarrow> p \<in> set (data_invalidations k)"
proof -
  note ev = even_of_valid[OF assms(2,3)]
  have s: "scale_log2 p = 1" "scale_log2 k = 0" using assms(1,3) by (simp_all add: word_unat_eq_iff)
  have "p \<in> set (data_invalidations k) \<longleftrightarrow> (\<exists>x \<in> {0, -1}. key_x p = clear_low (key_x k + of_int x)) \<and>
      (\<exists>y \<in> {0, -1}. key_y p = clear_low (key_y k + of_int y)) \<and> (\<exists>z \<in> {0, -1}. key_z p = clear_low (key_z k + of_int z))"
    using s(1) unfolding data_invalidations_true[OF assms(1)] by (cases p) auto
  also have "\<dots> \<longleftrightarrow> k \<in> set (map (offset_key p 0) finest_offsets)"
    unfolding clear_low_step[OF ev(1)] clear_low_step[OF ev(2)] clear_low_step[OF ev(3)] in_finest using s(2) by blast
  finally show ?thesis using assms(3) by (simp add: data_deps_def)
qed

lemma child_offsets_keys:
  assumes "kscale p = Suc n"
  shows "map (offset_key p n) (child_offsets (2 ^ n)) = map (\<lambda>i. the (childLodKey p i)) [0..<8]"
proof -
  have "[0..<8] = [0, 1, 2, 3, 4, 5, 6, 7::nat]" by (simp add: upt_rec)
  then show ?thesis using assms
    by (simp add: child_offsets_def childLodKey_def offset_key_def key_of_base_def Let_def bit_iff_odd)
qed

lemma child_converse:
  assumes "key_valid k" "key_valid p" "kscale k < 15" "2 \<le> kscale p" "1 \<le> kscale k"
  shows "k \<in> set (data_deps p) \<longleftrightarrow> p \<in> set (data_invalidations k)"
proof -
  obtain n where n: "kscale p = Suc n" "0 < n" using assms(4) by (cases "kscale p") auto
  have dd: "data_deps p = map (\<lambda>i. the (childLodKey p i)) [0..<8]"
    using n child_offsets_keys[OF n(1)] by (simp add: data_deps_def scaleMultiplier_def)
  have di: "data_invalidations k = [parentLodKey k]" using assms(5) by (simp add: data_invalidations_unfold)
  have "k \<in> set (data_deps p) \<longleftrightarrow> parentLodKey k = p"
  proof
    assume "k \<in> set (data_deps p)"
    then obtain i where "k = the (childLodKey p i)" unfolding dd by auto
    then show "parentLodKey k = p" using childLodKey_parent[OF assms(2), of i] n by auto
  next
    assume "parentLodKey k = p"
    then obtain i where "i < 8" "childLodKey p i = Some k" using parentLodKey_child[OF assms(1,3)] by blast
    then show "k \<in> set (data_deps p)" unfolding dd by force
  qed
  then show ?thesis unfolding di by auto
qed

lemma data_lists_scale:
  assumes "kscale k < 15"
  shows "k \<in> set (data_deps p) \<Longrightarrow> kscale p = Suc (kscale k)"
    "p \<in> set (data_invalidations k) \<Longrightarrow> kscale p = Suc (kscale k)"
proof -
  show "k \<in> set (data_deps p) \<Longrightarrow> kscale p = Suc (kscale k)"
  proof -
    assume k: "k \<in> set (data_deps p)"
    consider "kscale p = 0" | "kscale p = 1" | n where "kscale p = Suc (Suc n)" by (metis One_nat_def not0_implies_Suc)
    then show ?thesis
    proof cases
      case 1
      then show ?thesis using k by (simp add: data_deps_def)
    next
      case 2
      then have "scale_log2 k = 0" using k scale_offset_key[of k p 0 finest_offsets] by (simp add: data_deps_def)
      then show ?thesis using 2 by simp
    next
      case 3
      then have "scale_log2 k = of_nat (Suc n)" using k scale_offset_key[of k p "Suc n"] by (simp add: data_deps_def)
      moreover have "Suc n < 16" using kscale_less[of p] 3 by simp
      then have "unat (of_nat (Suc n) :: 4 word) = Suc n" by (simp only: unat_of_nat) simp
      ultimately show ?thesis using 3 by (simp only:)
    qed
  qed
  have par: "kscale (parentLodKey q) = Suc (kscale q)" if "kscale q < 15" for q
    using that unfolding parentLodKey_def Let_def by (subst kscale_mk_key) auto
  show "p \<in> set (data_invalidations k) \<Longrightarrow> kscale p = Suc (kscale k)"
    using par[OF assms] par[of "offset_key k 0 d" for d] scale_offset_key
    by (auto simp: data_invalidations_unfold offset_key_word split: if_splits)
qed

text \<open>C9: Marking stale is exactly the converse of reading: the surface of a chunk is built
  from the data of another exactly if it is among those marked when that other's data
  changes, and the pseudo data of a chunk is built from another exactly if it is among those
  marked then. So nothing built from changed data stays unmarked, and nothing else is marked,
  at every level of detail and also where coordinates wrap around.\<close>

theorem invalidation_is_converse_of_dependency:
  assumes "key_valid k" "key_valid p" "kscale k < NUM_LOD_SCALES"
  shows "(k \<in> set (surface_deps p) \<longleftrightarrow> p \<in> set (surface_invalidations k)) \<and>
    (k \<in> set (data_deps p) \<longleftrightarrow> p \<in> set (data_invalidations k))"
proof -
  have k15: "kscale k < 15" using assms(3) by (simp add: NUM_LOD_SCALES_def)
  have "k \<in> set (data_deps p) \<longleftrightarrow> p \<in> set (data_invalidations k)"
  proof (cases "kscale p = Suc (kscale k)")
    case True
    then show ?thesis
      using finest_converse[of k p] child_converse[of k p] assms(1,2) k15 by (cases "kscale k = 0") auto
  next
    case False
    then show ?thesis using data_lists_scale[OF k15, of p] by auto
  qed
  then show ?thesis using surface_deps_converse by blast
qed

theorem invalidation_is_converse_of_dependency_witness:
  "mk_key 2 1 0 0 \<in> set (data_deps (mk_key 0 0 0 1)) \<longleftrightarrow> mk_key 0 0 0 1 \<in> set (data_invalidations (mk_key 2 1 0 0))"
proof -
  have "key_valid (mk_key 2 1 0 0)" "key_valid (mk_key 0 0 0 1)" "kscale (mk_key 2 1 0 0) < NUM_LOD_SCALES"
    by (simp_all add: key_valid_iff mk_key_def NUM_LOD_SCALES_def)
  from invalidation_is_converse_of_dependency[OF this] show ?thesis by blast
qed

end
