(* ===== verification/Land_Service.thy ===== *)
theory Land_Service
  imports Land_Tickets Land_Invalidation Lru_Visit_Ordering
begin

text \<open>
  The land service (src/voxen/land/land_service.cpp): the state it keeps per chunk, the tasks it
  enqueues to generate chunk data, pseudo data and surfaces, the messages those tasks send
  back, and its tick. With it come what it uses of \<open>TaskBuilder\<close> and \<open>TaskService\<close>
  (src/voxen/svc/task_builder.cpp, task_service.cpp) and of \<open>Generator\<close>.

  The code is kept with its references written out: \<open>ChunkMetastate &m\<close> is an entry of the map
  \<open>metastate\<close> read and updated through its key (\<open>std::unordered_map\<close> does not move entries).
  Chunks and pseudo data live on other threads; here a pointer to one is a number, fresh for
  each allocation, and \<open>None\<close> is the null pointer. What a task computes is not modelled, only
  whether it sends a message and with what pointer. Task counters are 64-bit in the code and
  natural numbers here: no run allocates \<open>2 ^ 64\<close> of them. The tables of \<open>LandState\<close> are
  versioned hash tries; as \<open>Hash_Trie\<close> shows these to be maps, they are maps here.
\<close>

section \<open>State\<close>

type_synonym ptr = "nat option"

record chunk_metastate =
  last_referenced_tick :: int
  pending_task_count :: "8 word"
  chunk_data_invalidated :: bool
  pseudo_data_invalidated :: bool
  pseudo_surface_invalidated :: bool
  is_virgin :: bool
  chunk_gen_task_counter :: nat
  pseudo_data_gen_task_counter :: nat
  pseudo_surface_gen_task_counter :: nat
  latest_chunk_ptr :: ptr
  latest_pseudo_data_ptr :: ptr

definition new_metastate :: chunk_metastate where
  "new_metastate = \<lparr>last_referenced_tick = -1, pending_task_count = 0, chunk_data_invalidated = True,
     pseudo_data_invalidated = True, pseudo_surface_invalidated = True, is_virgin = True,
     chunk_gen_task_counter = 0, pseudo_data_gen_task_counter = 0, pseudo_surface_gen_task_counter = 0,
     latest_chunk_ptr = None, latest_pseudo_data_ptr = None\<rparr>"

text \<open>The lambdas given to \<open>enqueueTask\<close>, with what they capture.\<close>

datatype land_task =
    Global_Map
  | Generate_Chunk chunk_key ptr
  | Edit_Block chunk_key ptr ivec3 u16
  | Aggregate_Lod0 chunk_key "ptr list" ptr
  | Generate_Pseudo chunk_key ptr
  | Aggregate_Lod chunk_key "ptr list" ptr
  | Surface_Lod0 chunk_key "ptr list"
  | Surface_Lod chunk_key "ptr list"

record queued_task =
  task_counter :: nat
  task_waits :: "nat list"
  task_body :: land_task

datatype land_message =
    Ticket_Request ticket_area
  | Ticket_Message ticket_message
  | Block_Edit ivec3 u16
  | Chunk_Loaded chunk_key ptr
  | Data_Generated chunk_key
  | Surface_Generated chunk_key ptr

record land_service =
  next_task_counter :: nat
  outstanding :: "queued_task list"
  next_ptr :: nat
  generator_tick :: int
  global_map_counter :: nat
  chunk_tickets :: "ticket_state list"
  granted :: "chunk_ticket list"
  metastate :: "chunk_key \<rightharpoonup> chunk_metastate"
  data_invalidated :: "chunk_key list"
  surface_invalidated :: "chunk_key list"
  lru_order :: "chunk_key lru_queue"
  keys_to_update :: "chunk_key list"
  current_tick :: int
  chunk_table :: "chunk_key \<rightharpoonup> int \<times> ptr"
  surface_table :: "chunk_key \<rightharpoonup> int \<times> ptr"
  dummy_above :: ptr
  dummy_below :: ptr
  dummy_data :: ptr

text \<open>The constructor, after the registration of handlers: three dummies are allocated.\<close>

definition new_land_service :: land_service where
  "new_land_service = \<lparr>next_task_counter = 64, outstanding = [], next_ptr = 3, generator_tick = -1,
     global_map_counter = 0, chunk_tickets = [], granted = [], metastate = Map.empty,
     data_invalidated = [], surface_invalidated = [], lru_order = [], keys_to_update = [], current_tick = 0,
     chunk_table = Map.empty, surface_table = Map.empty,
     dummy_above = Some 0, dummy_below = Some 1, dummy_data = Some 2\<rparr>"

definition STALE_CHUNK_AGE_THRESHOLD :: int where "STALE_CHUNK_AGE_THRESHOLD = 750"
definition KEYS_PER_TICK :: nat where "KEYS_PER_TICK = 500"

section \<open>Task builder and generator\<close>

record task_builder =
  wait_counters :: "nat list"
  last_task_counter :: nat

definition new_builder :: task_builder where
  "new_builder = \<lparr>wait_counters = [], last_task_counter = 0\<rparr>"

definition addWait :: "nat \<Rightarrow> task_builder \<Rightarrow> task_builder" where
  "addWait c bld = bld\<lparr>wait_counters := wait_counters bld @ [c]\<rparr>"

definition addWaits :: "nat list \<Rightarrow> task_builder \<Rightarrow> task_builder" where
  "addWaits cs bld = bld\<lparr>wait_counters := wait_counters bld @ cs\<rparr>"

text \<open>Zero counters are dropped; the builder starts afresh with the next task. (Above 32
  counters the code drops completed ones early, which does not change when the task can run.)\<close>

definition enqueueTask :: "land_task \<Rightarrow> task_builder \<times> land_service \<Rightarrow> task_builder \<times> land_service" where
  "enqueueTask body bs =
     (case bs of (bld, s) \<Rightarrow>
        let counter = next_task_counter s
        in (\<lparr>wait_counters = [], last_task_counter = counter\<rparr>,
            s\<lparr>next_task_counter := counter + 1,
              outstanding := outstanding s @
                [\<lparr>task_counter = counter, task_waits = filter (\<lambda>c. c \<noteq> 0) (wait_counters bld), task_body = body\<rparr>]\<rparr>))"

definition enqueueGenerate :: "task_builder \<times> land_service \<Rightarrow> nat \<times> task_builder \<times> land_service" where
  "enqueueGenerate bs = (let bs' = enqueueTask Global_Map bs in (last_task_counter (fst bs'), bs'))"

definition ensureGlobalMap :: "task_builder \<times> land_service \<Rightarrow> nat \<times> task_builder \<times> land_service" where
  "ensureGlobalMap bs =
     (case bs of (bld, s) \<Rightarrow>
        if global_map_counter s > 0 then (global_map_counter s, bs)
        else (case enqueueGenerate bs of (counter, bld, s) \<Rightarrow> (counter, bld, s\<lparr>global_map_counter := counter\<rparr>)))"

definition prepareKeyGeneration :: "chunk_key \<Rightarrow> task_builder \<times> land_service \<Rightarrow> nat \<times> task_builder \<times> land_service" where
  "prepareKeyGeneration key bs = ensureGlobalMap bs"

section \<open>Metastate\<close>

text \<open>\<open>m_metastate[key]\<close> read, and an update through a reference to it.\<close>

definition meta :: "land_service \<Rightarrow> chunk_key \<Rightarrow> chunk_metastate" where
  "meta s key = (case metastate s key of Some m \<Rightarrow> m | None \<Rightarrow> new_metastate)"

definition set_meta :: "chunk_key \<Rightarrow> (chunk_metastate \<Rightarrow> chunk_metastate) \<Rightarrow> land_service \<Rightarrow> land_service" where
  "set_meta key f s = s\<lparr>metastate := (metastate s)(key \<mapsto> f (meta s key))\<rparr>"

definition fresh_ptr :: "land_service \<Rightarrow> ptr \<times> land_service" where
  "fresh_ptr s = (Some (next_ptr s), s\<lparr>next_ptr := next_ptr s + 1\<rparr>)"

definition try_emplace :: "chunk_key \<Rightarrow> int \<Rightarrow> land_service \<Rightarrow> land_service" where
  "try_emplace key tick s =
     (if metastate s key = None
      then s\<lparr>metastate := (metastate s)(key \<mapsto> new_metastate),
             lru_order := addKey key (tick + STALE_CHUNK_AGE_THRESHOLD) (lru_order s)\<rparr>
      else s)"

definition getMetastate :: "chunk_key \<Rightarrow> land_service \<Rightarrow> land_service" where
  "getMetastate key s =
     set_meta key (\<lambda>m. m\<lparr>last_referenced_tick := current_tick s\<rparr>) (try_emplace key (current_tick s) s)"

section \<open>Enqueueing\<close>

definition enqueueChunkDataGen :: "chunk_key \<Rightarrow> land_service \<Rightarrow> land_service" where
  "enqueueChunkDataGen ck s =
     (if \<not> chunk_data_invalidated (meta s ck) then s
      else let s = set_meta ck (\<lambda>m. m\<lparr>chunk_data_invalidated := False\<rparr>) s
        in if chunk_gen_task_counter (meta s ck) > 0 then s
           else case fresh_ptr s of (p, s) \<Rightarrow>
             let s = set_meta ck (\<lambda>m. m\<lparr>latest_chunk_ptr := p\<rparr>) s;
                 bld = addWait (chunk_gen_task_counter (meta s ck)) new_builder
             in case prepareKeyGeneration ck (bld, s) of (gen, bld, s) \<Rightarrow>
               case enqueueTask (Generate_Chunk ck (latest_chunk_ptr (meta s ck))) (addWait gen bld, s) of (bld, s) \<Rightarrow>
                 set_meta ck (\<lambda>m. m\<lparr>pending_task_count := pending_task_count m + 1,
                   chunk_gen_task_counter := last_task_counter bld\<rparr>) s)"

text \<open>The lambdas \<open>collect_dependency\<close>: they fill \<open>dependencies[index]\<close> and \<open>wait_counters[index]\<close>
  in ascending order of the index and note whether a dependency is newer than the last result.\<close>

record dep_collection =
  col_state :: land_service
  col_deps :: "ptr list"
  col_waits :: "nat list"
  col_outdated :: bool

definition collect_fixed :: "ptr \<Rightarrow> dep_collection \<Rightarrow> dep_collection" where
  "collect_fixed p col = col\<lparr>col_deps := col_deps col @ [p], col_waits := col_waits col @ [0]\<rparr>"

definition collect_chunk :: "(chunk_metastate \<Rightarrow> nat) \<Rightarrow> chunk_key \<Rightarrow> chunk_key \<Rightarrow> dep_collection \<Rightarrow> dep_collection" where
  "collect_chunk last_gen ck dk col =
     (if ky dk > MAX_WORLD_Y_CHUNK then collect_fixed (dummy_above (col_state col)) col
      else if ky dk < MIN_WORLD_Y_CHUNK then collect_fixed (dummy_below (col_state col)) col
      else let s = enqueueChunkDataGen dk (getMetastate dk (col_state col)); mm = meta s dk
        in \<lparr>col_state = s, col_deps = col_deps col @ [latest_chunk_ptr mm],
            col_waits = col_waits col @ [chunk_gen_task_counter mm],
            col_outdated = (col_outdated col \<or> last_gen (meta s ck) \<le> chunk_gen_task_counter mm)\<rparr>)"

definition collect_data ::
  "(land_service \<Rightarrow> land_service) \<Rightarrow> (chunk_metastate \<Rightarrow> nat) \<Rightarrow> chunk_key \<Rightarrow> chunk_key \<Rightarrow> dep_collection \<Rightarrow> dep_collection" where
  "collect_data enqueue_dk last_gen ck dk col =
     (if ky dk < MIN_WORLD_Y_CHUNK \<or> ky dk > MAX_WORLD_Y_CHUNK
      then collect_fixed (dummy_data (col_state col)) col
      else let s = enqueue_dk (getMetastate dk (col_state col)); mm = meta s dk
        in \<lparr>col_state = s, col_deps = col_deps col @ [latest_pseudo_data_ptr mm],
            col_waits = col_waits col @ [pseudo_data_gen_task_counter mm],
            col_outdated = (col_outdated col \<or> last_gen (meta s ck) \<le> pseudo_data_gen_task_counter mm)\<rparr>)"

text \<open>The last lines of both functions for pseudo data and surfaces.\<close>

definition data_enqueued :: "chunk_key \<Rightarrow> task_builder \<times> land_service \<Rightarrow> land_service" where
  "data_enqueued ck bs =
     set_meta ck (\<lambda>m. m\<lparr>pending_task_count := pending_task_count m + 1,
       pseudo_data_gen_task_counter := last_task_counter (fst bs)\<rparr>) (snd bs)"

definition surface_enqueued :: "chunk_key \<Rightarrow> task_builder \<times> land_service \<Rightarrow> land_service" where
  "surface_enqueued ck bs =
     set_meta ck (\<lambda>m. m\<lparr>pending_task_count := pending_task_count m + 1,
       pseudo_surface_gen_task_counter := last_task_counter (fst bs)\<rparr>) (snd bs)"

definition alloc_data :: "chunk_key \<Rightarrow> land_service \<Rightarrow> land_service" where
  "alloc_data ck s = (case fresh_ptr s of (p, s) \<Rightarrow> set_meta ck (\<lambda>m. m\<lparr>latest_pseudo_data_ptr := p\<rparr>) s)"

lemma data_deps_scale: "dk \<in> set (data_deps ck) \<Longrightarrow> kscale dk < kscale ck"
proof -
  assume dk: "dk \<in> set (data_deps ck)"
  consider "kscale ck = 0" | "kscale ck = 1" | n where "kscale ck = Suc (Suc n)" by (metis One_nat_def not0_implies_Suc)
  then show ?thesis
  proof cases
    case 1
    then show ?thesis using dk by (simp add: data_deps_def)
  next
    case 2
    then have "scale_log2 dk = 0" using dk scale_offset_key[of dk ck 0 finest_offsets] by (simp add: data_deps_def)
    then show ?thesis using 2 by simp
  next
    case 3
    then have "scale_log2 dk = of_nat (Suc n)" using dk scale_offset_key[of dk ck "Suc n"] by (simp add: data_deps_def)
    moreover have "Suc n < 16" using kscale_less[of ck] 3 by simp
    then have "unat (of_nat (Suc n) :: 4 word) = Suc n" by (simp only: unat_of_nat) simp
    ultimately show ?thesis using 3 by (simp only:)
  qed
qed

function enqueuePseudoDataGen :: "chunk_key \<Rightarrow> land_service \<Rightarrow> land_service" where
  "enqueuePseudoDataGen ck s =
     (if \<not> pseudo_data_invalidated (meta s ck) then s
      else let s = set_meta ck (\<lambda>m. m\<lparr>pseudo_data_invalidated := False\<rparr>) s
        in if kscale ck = 0 then s
           else let bld = addWait (pseudo_data_gen_task_counter (meta s ck)) new_builder
             in if kscale ck = 1 then
                  (let col = fold (collect_chunk pseudo_data_gen_task_counter ck) (data_deps ck)
                         \<lparr>col_state = s, col_deps = [], col_waits = [], col_outdated = False\<rparr>
                   in if \<not> col_outdated col then col_state col
                      else let s = alloc_data ck (col_state col)
                        in data_enqueued ck (enqueueTask (Aggregate_Lod0 ck (col_deps col) (latest_pseudo_data_ptr (meta s ck)))
                             (addWaits (col_waits col) bld, s)))
                else if kscale ck \<le> MAX_GENERATABLE_LOD \<and> is_virgin (meta s ck) then
                  (if latest_pseudo_data_ptr (meta s ck) \<noteq> None then s
                   else let s = alloc_data ck s
                     in case prepareKeyGeneration ck (bld, s) of (gen, bld, s) \<Rightarrow>
                       data_enqueued ck (enqueueTask (Generate_Pseudo ck (latest_pseudo_data_ptr (meta s ck)))
                         (addWait gen bld, s)))
                else
                  (let col = fold (\<lambda>dk. collect_data (\<lambda>s. enqueuePseudoDataGen dk s) pseudo_data_gen_task_counter ck dk) (data_deps ck)
                         \<lparr>col_state = s, col_deps = [], col_waits = [], col_outdated = False\<rparr>
                   in if \<not> col_outdated col then col_state col
                      else let s = alloc_data ck (col_state col)
                        in data_enqueued ck (enqueueTask (Aggregate_Lod ck (col_deps col) (latest_pseudo_data_ptr (meta s ck)))
                             (addWaits (col_waits col) bld, s))))"
  by pat_completeness auto
termination by (relation "measure (\<lambda>(ck, s). kscale ck)") (auto dest: data_deps_scale)

declare enqueuePseudoDataGen.simps [simp del]

definition enqueuePseudoSurfaceGen :: "chunk_key \<Rightarrow> land_service \<Rightarrow> land_service" where
  "enqueuePseudoSurfaceGen ck s =
     (if \<not> pseudo_surface_invalidated (meta s ck) then s
      else let s = set_meta ck (\<lambda>m. m\<lparr>pseudo_surface_invalidated := False\<rparr>) s;
               bld = addWait (pseudo_surface_gen_task_counter (meta s ck)) new_builder
        in if kscale ck = 0 then
             (let s = enqueueChunkDataGen ck s; m = meta s ck;
                  col = fold (collect_chunk pseudo_surface_gen_task_counter ck) (surface_deps ck)
                    \<lparr>col_state = s, col_deps = [latest_chunk_ptr m], col_waits = [chunk_gen_task_counter m],
                     col_outdated = (chunk_gen_task_counter m \<ge> pseudo_surface_gen_task_counter m)\<rparr>
              in if \<not> col_outdated col then col_state col
                 else surface_enqueued ck (enqueueTask (Surface_Lod0 ck (col_deps col))
                        (addWaits (col_waits col) bld, col_state col)))
           else
             (let s = enqueuePseudoDataGen ck s; m = meta s ck;
                  col = fold (\<lambda>dk. collect_data (enqueuePseudoDataGen dk) pseudo_surface_gen_task_counter ck dk) (surface_deps ck)
                    \<lparr>col_state = s, col_deps = [latest_pseudo_data_ptr m], col_waits = [pseudo_data_gen_task_counter m],
                     col_outdated = (pseudo_data_gen_task_counter m \<ge> pseudo_surface_gen_task_counter m)\<rparr>
              in if \<not> col_outdated col then col_state col
                 else surface_enqueued ck (enqueueTask (Surface_Lod ck (col_deps col))
                        (addWaits (col_waits col) bld, col_state col))))"

definition tickChunkKey :: "chunk_key \<Rightarrow> int \<Rightarrow> land_service \<Rightarrow> land_service" where
  "tickChunkKey ck tick_id s =
     (let s = set_meta ck (\<lambda>m. m\<lparr>last_referenced_tick := tick_id\<rparr>) (try_emplace ck tick_id s);
          s = (if kscale ck = 0 then enqueueChunkDataGen ck s else s)
      in enqueuePseudoSurfaceGen ck s)"

section \<open>Messages\<close>

text \<open>\<open>position & ~(CHUNK_SIZE_BLOCKS - 1)\<close>, and the division of that multiple.\<close>

definition lowest_block :: "int \<Rightarrow> int" where
  "lowest_block v = align_down v 5"

definition handleBlockEditMessage :: "ivec3 \<Rightarrow> u16 \<Rightarrow> land_service \<Rightarrow> land_service" where
  "handleBlockEditMessage position new_id s =
     (let chunk_lowest_block = IVec3 (lowest_block (ivec_x position)) (lowest_block (ivec_y position)) (lowest_block (ivec_z position));
          chunk_key = key_of_base (IVec3 (ivec_x chunk_lowest_block div int CHUNK_SIZE_BLOCKS)
            (ivec_y chunk_lowest_block div int CHUNK_SIZE_BLOCKS) (ivec_z chunk_lowest_block div int CHUNK_SIZE_BLOCKS)) 0;
          s = enqueueChunkDataGen chunk_key (getMetastate chunk_key s);
          edit_position = IVec3 (ivec_x position - ivec_x chunk_lowest_block)
            (ivec_y position - ivec_y chunk_lowest_block) (ivec_z position - ivec_z chunk_lowest_block);
          m = meta s chunk_key
      in case enqueueTask (Edit_Block chunk_key (latest_chunk_ptr m) edit_position new_id)
                (addWait (chunk_gen_task_counter m) new_builder, s) of (bld, s) \<Rightarrow>
           let s = set_meta chunk_key (\<lambda>m. m\<lparr>pending_task_count := pending_task_count m + 1,
                 chunk_gen_task_counter := last_task_counter bld\<rparr>) s
           in enqueuePseudoSurfaceGen chunk_key (set_meta chunk_key (\<lambda>m. m\<lparr>pseudo_surface_invalidated := True\<rparr>) s))"

definition task_reported :: "chunk_key \<Rightarrow> land_service \<Rightarrow> land_service" where
  "task_reported key s = set_meta key (\<lambda>m. m\<lparr>pending_task_count := pending_task_count m - 1\<rparr>) s"

definition handleChunkLoadCompletion :: "chunk_key \<Rightarrow> ptr \<Rightarrow> land_service \<Rightarrow> land_service" where
  "handleChunkLoadCompletion key value_ptr s =
     (let s = task_reported key s;
          s = s\<lparr>chunk_table := (chunk_table s)(key \<mapsto> (current_tick s, value_ptr))\<rparr>;
          s = set_meta key (\<lambda>m. m\<lparr>pseudo_surface_invalidated := True\<rparr>) s
      in s\<lparr>surface_invalidated := surface_invalidated s @ chunk_load_surfaces key,
           data_invalidated := data_invalidated s @ chunk_load_data key\<rparr>)"

definition handlePseudoDataGenCompletion :: "chunk_key \<Rightarrow> land_service \<Rightarrow> land_service" where
  "handlePseudoDataGenCompletion key s =
     (let s = set_meta key (\<lambda>m. m\<lparr>pseudo_surface_invalidated := True\<rparr>) (task_reported key s)
      in s\<lparr>surface_invalidated := surface_invalidated s @ data_gen_surfaces key,
           data_invalidated := data_invalidated s @ [parentLodKey key]\<rparr>)"

definition handlePseudoSurfaceGenCompletion :: "chunk_key \<Rightarrow> ptr \<Rightarrow> land_service \<Rightarrow> land_service" where
  "handlePseudoSurfaceGenCompletion key value_ptr s =
     (let s = task_reported key s
      in s\<lparr>surface_table := (surface_table s)(key \<mapsto> (current_tick s, value_ptr))\<rparr>)"

text \<open>\<open>None\<close>: an assertion of a ticket handler fails.\<close>

fun handle_message :: "land_message \<Rightarrow> land_service \<Rightarrow> land_service option" where
  "handle_message (Ticket_Request area) s =
     (case handleChunkTicketRequest area (chunk_tickets s) of (ticket, tickets) \<Rightarrow>
        Some (s\<lparr>chunk_tickets := tickets, granted := granted s @ [ticket]\<rparr>))"
| "handle_message (Ticket_Message (Ticket_Adjust i area)) s =
     map_option (\<lambda>tickets. s\<lparr>chunk_tickets := tickets\<rparr>) (handleChunkTicketAdjust i area (chunk_tickets s))"
| "handle_message (Ticket_Message (Ticket_Remove i)) s =
     map_option (\<lambda>tickets. s\<lparr>chunk_tickets := tickets\<rparr>) (handleChunkTicketRemove i (chunk_tickets s))"
| "handle_message (Block_Edit position new_id) s = Some (handleBlockEditMessage position new_id s)"
| "handle_message (Chunk_Loaded key p) s = Some (handleChunkLoadCompletion key p s)"
| "handle_message (Data_Generated key) s = Some (handlePseudoDataGenCompletion key s)"
| "handle_message (Surface_Generated key p) s = Some (handlePseudoSurfaceGenCompletion key p s)"

fun pollMessages :: "land_message list \<Rightarrow> land_service \<Rightarrow> land_service option" where
  "pollMessages [] s = Some s"
| "pollMessages (msg # msgs) s =
     (case handle_message msg s of None \<Rightarrow> None | Some s \<Rightarrow> pollMessages msgs s)"

section \<open>The tick\<close>

definition invalidate_data :: "chunk_key \<Rightarrow> land_service \<Rightarrow> land_service" where
  "invalidate_data key s =
     (if metastate s key = None then s
      else set_meta key (\<lambda>m. m\<lparr>pseudo_data_invalidated := True, is_virgin := False\<rparr>) s)"

definition invalidate_surface :: "chunk_key \<Rightarrow> land_service \<Rightarrow> land_service" where
  "invalidate_surface key s =
     (if metastate s key = None then s
      else set_meta key (\<lambda>m. m\<lparr>pseudo_surface_invalidated := True\<rparr>) s)"

definition process_invalidations :: "land_service \<Rightarrow> land_service" where
  "process_invalidations s =
     (let s' = fold invalidate_surface (surface_invalidated s) (fold invalidate_data (data_invalidated s) s)
      in s'\<lparr>data_invalidated := [], surface_invalidated := []\<rparr>)"

definition refill_keys :: "land_service \<Rightarrow> land_service" where
  "refill_keys s =
     (if keys_to_update s = [] then s\<lparr>keys_to_update := collect_keys (chunk_tickets s)\<rparr> else s)"

fun visit_keys_loop :: "nat \<Rightarrow> int \<Rightarrow> land_service \<Rightarrow> land_service" where
  "visit_keys_loop 0 tick_id s = s"
| "visit_keys_loop (Suc i) tick_id s =
     (let s = tickChunkKey (last (keys_to_update s)) tick_id s
      in visit_keys_loop i tick_id (s\<lparr>keys_to_update := butlast (keys_to_update s)\<rparr>))"

text \<open>The visitor of the clean-up; a negative tick removes the key from the ordering.\<close>

definition cleanup_visit :: "int \<Rightarrow> chunk_key \<Rightarrow> land_service \<Rightarrow> int \<times> land_service" where
  "cleanup_visit tick_id key s =
     (case metastate s key of
        None \<Rightarrow> (-1, s)
      | Some m \<Rightarrow>
          if last_referenced_tick m + STALE_CHUNK_AGE_THRESHOLD > tick_id
          then (last_referenced_tick m + STALE_CHUNK_AGE_THRESHOLD, s)
          else if pending_task_count m > 0 then (tick_id + 1, s)
          else (-1, s\<lparr>chunk_table := (chunk_table s)(key := None),
                      surface_table := (surface_table s)(key := None),
                      metastate := (metastate s)(key := None)\<rparr>))"

definition cleanup :: "int \<Rightarrow> land_service \<Rightarrow> land_service" where
  "cleanup tick_id s =
     (case visitOldest (cleanup_visit tick_id) 1000 tick_id (lru_order s) s of
        (q, s') \<Rightarrow> s'\<lparr>lru_order := q\<rparr>)"

definition doTick :: "int \<Rightarrow> land_message list \<Rightarrow> land_service \<Rightarrow> land_service option" where
  "doTick tick_id msgs s =
     (case pollMessages msgs (s\<lparr>current_tick := tick_id, generator_tick := tick_id\<rparr>) of
        None \<Rightarrow> None
      | Some s \<Rightarrow>
          let s = refill_keys (process_invalidations s);
              s = visit_keys_loop (min KEYS_PER_TICK (length (keys_to_update s))) tick_id s
          in Some (cleanup tick_id s))"

section \<open>The service, its tasks and its queue\<close>

text \<open>What a finished task sends: whether an edit changed a block, and which surface (none if
  it is empty) was built, is decided by the task. A finished edit sends no chunk.\<close>

fun task_message :: "land_task \<Rightarrow> bool \<Rightarrow> ptr \<Rightarrow> land_message option" where
  "task_message Global_Map changed p = None"
| "task_message (Generate_Chunk key p) changed surface = Some (Chunk_Loaded key p)"
| "task_message (Edit_Block key p position new_id) changed surface =
     (if changed then Some (Chunk_Loaded key None) else None)"
| "task_message (Aggregate_Lod0 key deps p) changed surface = Some (Data_Generated key)"
| "task_message (Generate_Pseudo key p) changed surface = Some (Data_Generated key)"
| "task_message (Aggregate_Lod key deps p) changed surface = Some (Data_Generated key)"
| "task_message (Surface_Lod0 key deps) changed surface = Some (Surface_Generated key surface)"
| "task_message (Surface_Lod key deps) changed surface = Some (Surface_Generated key surface)"

text \<open>A task runs once every counter it waits on is complete.\<close>

definition task_ready :: "land_service \<Rightarrow> queued_task \<Rightarrow> bool" where
  "task_ready s t \<longleftrightarrow> (\<forall>c \<in> set (task_waits t). c \<notin> task_counter ` set (outstanding s))"

text \<open>The service with the messages sent to it and not yet polled; \<open>unreported\<close> remembers the
  keys of finished tasks that sent none.\<close>

record land_system =
  service :: land_service
  inbox :: "land_message list"
  unreported :: "chunk_key list"

fun client_message :: "land_message \<Rightarrow> bool" where
  "client_message (Ticket_Request area) = area_asserts area"
| "client_message (Ticket_Message (Ticket_Adjust i area)) = area_asserts area"
| "client_message (Ticket_Message (Ticket_Remove i)) = True"
| "client_message (Block_Edit position new_id) = True"
| "client_message msg = False"

fun task_key :: "land_task \<Rightarrow> chunk_key option" where
  "task_key Global_Map = None"
| "task_key (Generate_Chunk key p) = Some key"
| "task_key (Edit_Block key p position new_id) = Some key"
| "task_key (Aggregate_Lod0 key deps p) = Some key"
| "task_key (Generate_Pseudo key p) = Some key"
| "task_key (Aggregate_Lod key deps p) = Some key"
| "task_key (Surface_Lod0 key deps) = Some key"
| "task_key (Surface_Lod key deps) = Some key"

inductive land_step :: "land_system \<Rightarrow> land_system \<Rightarrow> bool" where
  land_client: "client_message msg \<Longrightarrow> land_step y (y\<lparr>inbox := inbox y @ [msg]\<rparr>)"
| land_task_ends: "i < length (outstanding (service y)) \<Longrightarrow> t = outstanding (service y) ! i \<Longrightarrow>
     task_ready (service y) t \<Longrightarrow>
     land_step y (y\<lparr>service := (service y)\<lparr>outstanding := take i (outstanding (service y)) @ drop (Suc i) (outstanding (service y))\<rparr>,
       inbox := inbox y @ (case task_message (task_body t) changed surface of Some msg \<Rightarrow> [msg] | None \<Rightarrow> []),
       unreported := unreported y @ (case (task_message (task_body t) changed surface, task_key (task_body t)) of
         (None, Some key) \<Rightarrow> [key] | _ \<Rightarrow> [])\<rparr>)"
| land_tick: "doTick tick_id (inbox y) (service y) = Some s \<Longrightarrow> land_step y (y\<lparr>service := s, inbox := []\<rparr>)"

definition new_land_system :: land_system where
  "new_land_system = \<lparr>service = new_land_service, inbox = [], unreported = []\<rparr>"

inductive land_reachable :: "land_system \<Rightarrow> bool" where
  land_start: "land_reachable new_land_system"
| land_next: "land_reachable y \<Longrightarrow> land_step y y' \<Longrightarrow> land_reachable y'"

inductive_cases land_stepE: "land_step y y'"

end
