(* ===== verification/Land_Service_Steps.thy ===== *)
theory Land_Service_Steps
  imports Land_Service
begin

text \<open>
  What the operations of the land service keep. \<open>debt\<close> is the number a chunk's pending-task
  counter is ahead of its enqueued tasks: enqueueing raises both, so no operation but a
  completion handler changes it. \<open>base_inv\<close> says that no task captures a null pointer, that
  counters grow and that tasks wait only on earlier ones; \<open>flags_ok\<close> that a chunk of a level
  below a bound whose data is not marked stale has a data object. While the data of a chunk is
  being enqueued the second holds only below its level, so the lemmas carry the bound along.
\<close>

section \<open>Counting\<close>

definition num_tasks :: "chunk_key \<Rightarrow> land_service \<Rightarrow> nat" where
  "num_tasks key s = length (filter (\<lambda>t. task_key (task_body t) = Some key) (outstanding s))"

definition debt :: "land_service \<Rightarrow> chunk_key \<Rightarrow> 8 word" where
  "debt s key = pending_task_count (meta s key) - of_nat (num_tasks key s)"

definition height_ok :: "chunk_key \<Rightarrow> bool" where
  "height_ok k \<longleftrightarrow> MIN_WORLD_Y_CHUNK \<le> ky k \<and> ky k \<le> MAX_WORLD_Y_CHUNK"

section \<open>Well-formedness\<close>

fun captures_null :: "land_task \<Rightarrow> bool" where
  "captures_null Global_Map = False"
| "captures_null (Generate_Chunk key p) = (p = None)"
| "captures_null (Edit_Block key p position new_id) = (p = None)"
| "captures_null (Aggregate_Lod0 key deps p) = (p = None \<or> None \<in> set deps)"
| "captures_null (Generate_Pseudo key p) = (p = None)"
| "captures_null (Aggregate_Lod key deps p) = (p = None \<or> None \<in> set deps)"
| "captures_null (Surface_Lod0 key deps) = (None \<in> set deps)"
| "captures_null (Surface_Lod key deps) = (None \<in> set deps)"

definition task_ok :: "nat \<Rightarrow> queued_task \<Rightarrow> bool" where
  "task_ok n t \<longleftrightarrow> task_counter t < n \<and> (\<forall>c \<in> set (task_waits t). c < task_counter t) \<and> \<not> captures_null (task_body t)"

definition meta_ok :: "nat \<Rightarrow> chunk_metastate \<Rightarrow> bool" where
  "meta_ok n m \<longleftrightarrow> chunk_gen_task_counter m < n \<and> pseudo_data_gen_task_counter m < n \<and>
     pseudo_surface_gen_task_counter m < n \<and>
     (chunk_gen_task_counter m > 0 \<or> \<not> chunk_data_invalidated m \<longrightarrow> latest_chunk_ptr m \<noteq> None) \<and>
     (pseudo_data_gen_task_counter m > 0 \<longrightarrow> latest_pseudo_data_ptr m \<noteq> None)"

definition base_inv :: "land_service \<Rightarrow> bool" where
  "base_inv s \<longleftrightarrow> 0 < next_task_counter s \<and> global_map_counter s < next_task_counter s \<and>
     dummy_above s \<noteq> None \<and> dummy_below s \<noteq> None \<and> dummy_data s \<noteq> None \<and>
     (\<forall>k. meta_ok (next_task_counter s) (meta s k)) \<and>
     sorted_wrt (\<lambda>a b. task_counter a < task_counter b) (outstanding s) \<and>
     (\<forall>t \<in> set (outstanding s). task_ok (next_task_counter s) t)"

text \<open>What an operation may change: tasks are added, pointers appear, the rest of the state
  outside the metastate stays.\<close>

definition keeps :: "land_service \<Rightarrow> land_service \<Rightarrow> bool" where
  "keeps s s' \<longleftrightarrow> base_inv s' \<and> debt s' = debt s \<and> next_task_counter s \<le> next_task_counter s' \<and>
     keys_to_update s' = keys_to_update s \<and> chunk_tickets s' = chunk_tickets s \<and>
     (\<forall>k. latest_chunk_ptr (meta s k) \<noteq> None \<longrightarrow> latest_chunk_ptr (meta s' k) \<noteq> None) \<and>
     (\<forall>k. latest_pseudo_data_ptr (meta s k) \<noteq> None \<longrightarrow> latest_pseudo_data_ptr (meta s' k) \<noteq> None)"

definition data_view :: "land_service \<Rightarrow> chunk_key \<Rightarrow> bool \<times> ptr" where
  "data_view s k = (pseudo_data_invalidated (meta s k), latest_pseudo_data_ptr (meta s k))"

definition data_flag_ok :: "land_service \<Rightarrow> chunk_key \<Rightarrow> bool" where
  "data_flag_ok s k \<longleftrightarrow> (0 < kscale k \<and> height_ok k \<longrightarrow> fst (data_view s k) \<or> snd (data_view s k) \<noteq> None)"

definition flags_ok :: "nat \<Rightarrow> land_service \<Rightarrow> bool" where
  "flags_ok n s \<longleftrightarrow> (\<forall>k. kscale k < n \<longrightarrow> data_flag_ok s k)"

lemma keeps_refl: "base_inv s \<Longrightarrow> keeps s s"
  by (simp add: keeps_def)

lemma keeps_trans: "keeps s s' \<Longrightarrow> keeps s' s'' \<Longrightarrow> keeps s s''"
  by (auto simp: keeps_def)

lemma keeps_base: "keeps s s' \<Longrightarrow> base_inv s'"
  by (simp add: keeps_def)

section \<open>Building blocks\<close>

lemma meta_set_meta [simp]: "meta (set_meta k f s) k' = (if k' = k then f (meta s k) else meta s k')"
  by (simp add: meta_def set_meta_def)

lemma set_meta_fields [simp]:
  "outstanding (set_meta k f s) = outstanding s" "next_task_counter (set_meta k f s) = next_task_counter s"
  "next_ptr (set_meta k f s) = next_ptr s" "global_map_counter (set_meta k f s) = global_map_counter s"
  "dummy_above (set_meta k f s) = dummy_above s" "dummy_below (set_meta k f s) = dummy_below s"
  "dummy_data (set_meta k f s) = dummy_data s" "keys_to_update (set_meta k f s) = keys_to_update s"
  "chunk_tickets (set_meta k f s) = chunk_tickets s" "current_tick (set_meta k f s) = current_tick s"
  by (simp_all add: set_meta_def)

lemma meta_other [simp]:
  "meta (s\<lparr>next_ptr := x\<rparr>) k = meta s k" "meta (s\<lparr>outstanding := ts\<rparr>) k = meta s k"
  "meta (s\<lparr>next_task_counter := n\<rparr>) k = meta s k" "meta (s\<lparr>global_map_counter := n\<rparr>) k = meta s k"
  "meta (s\<lparr>chunk_tickets := xs\<rparr>) k = meta s k" "meta (s\<lparr>granted := gs\<rparr>) k = meta s k"
  "meta (s\<lparr>data_invalidated := ks\<rparr>) k = meta s k" "meta (s\<lparr>surface_invalidated := ks\<rparr>) k = meta s k"
  "meta (s\<lparr>lru_order := q\<rparr>) k = meta s k" "meta (s\<lparr>keys_to_update := ks\<rparr>) k = meta s k"
  "meta (s\<lparr>current_tick := t\<rparr>) k = meta s k" "meta (s\<lparr>generator_tick := t\<rparr>) k = meta s k"
  "meta (s\<lparr>chunk_table := ct\<rparr>) k = meta s k" "meta (s\<lparr>surface_table := st\<rparr>) k = meta s k"
  by (simp_all add: meta_def)

lemma num_tasks_outstanding: "outstanding s' = outstanding s \<Longrightarrow> num_tasks k s' = num_tasks k s"
  by (simp add: num_tasks_def)

text \<open>An update of one entry that touches neither counters nor pointers.\<close>

lemma keeps_set_meta:
  assumes "base_inv s" "\<And>m. meta_ok (next_task_counter s) m \<Longrightarrow> meta_ok (next_task_counter s) (f m)"
    "\<And>m. pending_task_count (f m) = pending_task_count m"
    "\<And>m. latest_chunk_ptr m \<noteq> None \<Longrightarrow> latest_chunk_ptr (f m) \<noteq> None"
    "\<And>m. latest_pseudo_data_ptr m \<noteq> None \<Longrightarrow> latest_pseudo_data_ptr (f m) \<noteq> None"
  shows "keeps s (set_meta k f s)"
  using assms by (auto simp: keeps_def base_inv_def debt_def num_tasks_def fun_eq_iff)

lemma meta_try_emplace [simp]: "meta (try_emplace k t s) k' = meta s k'"
  by (simp add: try_emplace_def meta_def)

lemma try_emplace_fields [simp]:
  "outstanding (try_emplace k t s) = outstanding s" "next_task_counter (try_emplace k t s) = next_task_counter s"
  "global_map_counter (try_emplace k t s) = global_map_counter s"
  "dummy_above (try_emplace k t s) = dummy_above s" "dummy_below (try_emplace k t s) = dummy_below s"
  "dummy_data (try_emplace k t s) = dummy_data s" "keys_to_update (try_emplace k t s) = keys_to_update s"
  "chunk_tickets (try_emplace k t s) = chunk_tickets s" "current_tick (try_emplace k t s) = current_tick s"
  by (simp_all add: try_emplace_def)

lemma keeps_try_emplace: "base_inv s \<Longrightarrow> keeps s (try_emplace k t s)"
  by (simp add: keeps_def base_inv_def debt_def num_tasks_def fun_eq_iff)

lemma keeps_getMetastate: "base_inv s \<Longrightarrow> keeps s (getMetastate k s)"
  unfolding getMetastate_def
  by (rule keeps_trans[OF keeps_try_emplace], assumption, rule keeps_set_meta)
    (auto simp: meta_ok_def dest: keeps_try_emplace keeps_base)

lemma data_view_getMetastate [simp]: "data_view (getMetastate k s) = data_view s"
  by (simp add: fun_eq_iff data_view_def getMetastate_def)

lemma flags_ok_view: "data_view s' = data_view s \<Longrightarrow> flags_ok n s' = flags_ok n s"
  by (simp add: flags_ok_def data_flag_ok_def)

text \<open>Enqueueing a task for a chunk and counting it as pending.\<close>

lemma enqueueTask_eq:
  "enqueueTask body (bld, s) =
     (\<lparr>wait_counters = [], last_task_counter = next_task_counter s\<rparr>,
      s\<lparr>next_task_counter := next_task_counter s + 1,
        outstanding := outstanding s @
          [\<lparr>task_counter = next_task_counter s, task_waits = filter (\<lambda>c. c \<noteq> 0) (wait_counters bld), task_body = body\<rparr>]\<rparr>)"
  by (simp add: enqueueTask_def Let_def)

lemma meta_ok_mono: "meta_ok n m \<Longrightarrow> n \<le> n' \<Longrightarrow> meta_ok n' m"
  by (auto simp: meta_ok_def)

lemma task_ok_mono: "task_ok n t \<Longrightarrow> n \<le> n' \<Longrightarrow> task_ok n' t"
  by (auto simp: task_ok_def)

lemma base_inv_enqueue:
  assumes "base_inv s" "\<forall>c \<in> set (wait_counters bld). c < next_task_counter s" "\<not> captures_null body"
  shows "base_inv (snd (enqueueTask body (bld, s)))"
proof -
  have "\<forall>k. meta_ok (next_task_counter s + 1) (meta s k)" "\<forall>t \<in> set (outstanding s). task_ok (next_task_counter s + 1) t"
    using assms(1) unfolding base_inv_def by (meson meta_ok_mono task_ok_mono le_add1)+
  then show ?thesis using assms
    by (auto simp: enqueueTask_eq base_inv_def sorted_wrt_append task_ok_def)
qed

lemma debt_enqueue:
  "task_key body = Some key \<Longrightarrow> debt (snd (enqueueTask body (bld, s))) = (debt s)(key := debt s key - 1)"
  by (auto simp: enqueueTask_eq debt_def num_tasks_def fun_eq_iff)

lemma debt_enqueue_none: "task_key body = None \<Longrightarrow> debt (snd (enqueueTask body (bld, s))) = debt s"
  by (auto simp: enqueueTask_eq debt_def num_tasks_def fun_eq_iff)

definition bld_ok :: "task_builder \<times> land_service \<Rightarrow> bool" where
  "bld_ok bs \<longleftrightarrow> base_inv (snd bs) \<and> (\<forall>c \<in> set (wait_counters (fst bs)). c < next_task_counter (snd bs))"

lemma bld_ok_new: "base_inv s \<Longrightarrow> bld_ok (new_builder, s)"
  by (simp add: bld_ok_def new_builder_def)

lemma bld_ok_addWait: "bld_ok (bld, s) \<Longrightarrow> c < next_task_counter s \<Longrightarrow> bld_ok (addWait c bld, s)"
  by (auto simp: bld_ok_def addWait_def)

lemma bld_ok_addWaits: "bld_ok (bld, s) \<Longrightarrow> \<forall>c \<in> set cs. c < next_task_counter s \<Longrightarrow> bld_ok (addWaits cs bld, s)"
  by (auto simp: bld_ok_def addWaits_def)

lemma bld_ok_keeps: "bld_ok (bld, s) \<Longrightarrow> keeps s s' \<Longrightarrow> bld_ok (bld, s')"
  by (auto simp: bld_ok_def keeps_def)

lemma keeps_enqueue:
  assumes "bld_ok (bld, s)" "\<not> captures_null body" "task_key body = Some ck"
    "meta_ok (next_task_counter s + 1) (f (meta s ck))"
    "pending_task_count (f (meta s ck)) = pending_task_count (meta s ck) + 1"
    "latest_chunk_ptr (f (meta s ck)) = latest_chunk_ptr (meta s ck)"
    "latest_pseudo_data_ptr (f (meta s ck)) = latest_pseudo_data_ptr (meta s ck)"
  shows "keeps s (set_meta ck f (snd (enqueueTask body (bld, s))))"
proof -
  let ?s = "snd (enqueueTask body (bld, s))"
  have b: "base_inv ?s" using assms(1,2) by (intro base_inv_enqueue) (auto simp: bld_ok_def)
  have m: "meta ?s k = meta s k" "next_task_counter ?s = next_task_counter s + 1" for k
    by (simp_all add: enqueueTask_eq)
  have "debt (set_meta ck f ?s) = (debt ?s)(ck := debt ?s ck + 1)"
    using assms(5) by (auto simp: debt_def num_tasks_def m fun_eq_iff)
  then have d: "debt (set_meta ck f ?s) = debt s" unfolding debt_enqueue[OF assms(3)] by (simp add: fun_eq_iff)
  have "base_inv (set_meta ck f ?s)" using b assms(4) by (simp add: base_inv_def m)
  then show ?thesis using d assms(6,7) by (simp add: keeps_def m) (simp add: enqueueTask_eq)
qed

lemma prepare_ok:
  assumes "bld_ok (bld, s)" "prepareKeyGeneration ck (bld, s) = (gen, bld', s')"
  shows "keeps s s' \<and> bld_ok (bld', s') \<and> gen < next_task_counter s' \<and> metastate s' = metastate s"
proof (cases "global_map_counter s > 0")
  case True
  then show ?thesis using assms
    by (auto simp: prepareKeyGeneration_def ensureGlobalMap_def bld_ok_def keeps_refl base_inv_def)
next
  case False
  let ?r = "enqueueTask Global_Map (bld, s)"
  have b: "base_inv (snd ?r)" using assms(1) by (intro base_inv_enqueue) (auto simp: bld_ok_def)
  have e: "gen = next_task_counter s" "bld' = fst ?r" "s' = (snd ?r)\<lparr>global_map_counter := next_task_counter s\<rparr>"
    using False assms(2)
    by (auto simp: prepareKeyGeneration_def ensureGlobalMap_def enqueueGenerate_def Let_def enqueueTask_eq)
  have "base_inv s'" using b unfolding e by (simp add: base_inv_def enqueueTask_eq)
  moreover have "debt s' = debt s"
    using debt_enqueue_none[of Global_Map bld s] unfolding e by (simp add: debt_def num_tasks_def fun_eq_iff)
  ultimately show ?thesis unfolding e by (auto simp: keeps_def bld_ok_def enqueueTask_eq meta_def)
qed

lemma metastate_view: "metastate s' = metastate s \<Longrightarrow> meta s' = meta s \<and> data_view s' = data_view s"
  by (auto simp: meta_def data_view_def fun_eq_iff)

section \<open>Chunk data\<close>

lemma keeps_fresh: "base_inv s \<Longrightarrow> fresh_ptr s = (p, s') \<Longrightarrow> keeps s s' \<and> p \<noteq> None \<and> metastate s' = metastate s"
  by (auto simp: fresh_ptr_def keeps_def base_inv_def debt_def num_tasks_def fun_eq_iff)

lemma base_meta: "base_inv s \<Longrightarrow> meta_ok (next_task_counter s) (meta s k)"
  by (simp add: base_inv_def)

lemma enqueueChunkDataGen_ok:
  assumes "base_inv s"
  shows "keeps s (enqueueChunkDataGen ck s) \<and> latest_chunk_ptr (meta (enqueueChunkDataGen ck s) ck) \<noteq> None \<and>
    data_view (enqueueChunkDataGen ck s) = data_view s"
proof (cases "chunk_data_invalidated (meta s ck)")
  case False
  then show ?thesis using assms base_meta[OF assms, of ck]
    by (auto simp: enqueueChunkDataGen_def keeps_refl meta_ok_def)
next
  case inval: True
  show ?thesis
  proof (cases "chunk_gen_task_counter (meta s ck) > 0")
    case True
    let ?s = "set_meta ck (\<lambda>m. m\<lparr>chunk_data_invalidated := False\<rparr>) s"
    have e: "enqueueChunkDataGen ck s = ?s" using inval True by (simp add: enqueueChunkDataGen_def Let_def)
    have p: "latest_chunk_ptr (meta s ck) \<noteq> None" using base_meta[OF assms, of ck] True by (simp add: meta_ok_def)
    have "base_inv ?s" using assms True p by (auto simp: base_inv_def meta_ok_def)
    then have "keeps s ?s" by (simp add: keeps_def debt_def num_tasks_def fun_eq_iff)
    then show ?thesis unfolding e using p by (simp add: data_view_def fun_eq_iff)
  next
    case cnt: False
    let ?s1 = "set_meta ck (\<lambda>m. m\<lparr>chunk_data_invalidated := False\<rparr>) s"
    obtain p s2 where f: "fresh_ptr ?s1 = (p, s2)" by force
    let ?s3 = "set_meta ck (\<lambda>m. m\<lparr>latest_chunk_ptr := p\<rparr>) s2"
    let ?bld = "addWait (chunk_gen_task_counter (meta ?s3 ck)) new_builder"
    obtain gen bld4 s4 where g: "prepareKeyGeneration ck (?bld, ?s3) = (gen, bld4, s4)" by (metis prod_cases3)
    have s2: "s2 = ?s1\<lparr>next_ptr := next_ptr s + 1\<rparr>" "p = Some (next_ptr s)" using f by (simp_all add: fresh_ptr_def)
    have m3: "meta ?s3 k = (if k = ck then (meta s ck)\<lparr>chunk_data_invalidated := False, latest_chunk_ptr := p\<rparr> else meta s k)" for k
      by (simp add: s2)
    have "base_inv ?s3" using assms by (auto simp: base_inv_def s2 meta_ok_def)
    then have k3: "keeps s ?s3" by (simp add: keeps_def debt_def num_tasks_def fun_eq_iff s2)
    have b3: "base_inv ?s3" by (rule keeps_base[OF k3])
    have "bld_ok (?bld, ?s3)"
      by (rule bld_ok_addWait[OF bld_ok_new[OF b3]]) (use base_meta[OF b3, of ck] in \<open>simp add: meta_ok_def\<close>)
    note P = prepare_ok[OF this g]
    have m4: "meta s4 = meta ?s3" using P metastate_view by blast
    have b4: "bld_ok (addWait gen bld4, s4)" using P by (intro bld_ok_addWait) auto
    let ?body = "Generate_Chunk ck (latest_chunk_ptr (meta s4 ck))"
    let ?f = "\<lambda>m. m\<lparr>pending_task_count := pending_task_count m + 1, chunk_gen_task_counter := next_task_counter s4\<rparr>"
    have e: "enqueueChunkDataGen ck s = set_meta ck ?f (snd (enqueueTask ?body (addWait gen bld4, s4)))"
      using inval cnt f g by (simp add: enqueueChunkDataGen_def Let_def enqueueTask_eq)
    have p4: "latest_chunk_ptr (meta s4 ck) \<noteq> None" by (simp add: m4 s2)
    have "meta_ok (next_task_counter s4) (meta s4 ck)" using b4 base_meta by (auto simp: bld_ok_def)
    then have "keeps s4 (set_meta ck ?f (snd (enqueueTask ?body (addWait gen bld4, s4))))"
      using p4 by (intro keeps_enqueue[OF b4]) (auto simp: meta_ok_def)
    then have "keeps s (enqueueChunkDataGen ck s)" unfolding e using keeps_trans[OF keeps_trans[OF k3]] P by blast
    moreover have "latest_chunk_ptr (meta (enqueueChunkDataGen ck s) ck) \<noteq> None"
      unfolding e using p4 by (simp add: enqueueTask_eq)
    moreover have "data_view (enqueueChunkDataGen ck s) = data_view s"
      unfolding e by (auto simp: data_view_def fun_eq_iff enqueueTask_eq m4 s2)
    ultimately show ?thesis by blast
  qed
qed

section \<open>Collecting dependencies\<close>

definition col_ok :: "land_service \<Rightarrow> dep_collection \<Rightarrow> bool" where
  "col_ok s col \<longleftrightarrow> keeps s (col_state col) \<and> None \<notin> set (col_deps col) \<and>
     (\<forall>c \<in> set (col_waits col). c < next_task_counter (col_state col))"

lemma base_dummies: "base_inv s \<Longrightarrow> dummy_above s \<noteq> None \<and> dummy_below s \<noteq> None \<and> dummy_data s \<noteq> None \<and> 0 < next_task_counter s"
  by (simp add: base_inv_def)

lemma collect_fixed_ok: "col_ok s col \<Longrightarrow> p \<noteq> None \<Longrightarrow> col_ok s (collect_fixed p col)"
  by (auto simp: col_ok_def collect_fixed_def dest: keeps_base base_dummies)

lemma col_ok_step:
  assumes "col_ok s col" "keeps (col_state col) s'" "p \<noteq> None" "c < next_task_counter s'"
  shows "col_ok s \<lparr>col_state = s', col_deps = col_deps col @ [p], col_waits = col_waits col @ [c], col_outdated = b\<rparr>"
  using assms by (auto simp: col_ok_def keeps_def intro: keeps_trans)

lemma keeps_next: "keeps s s' \<Longrightarrow> next_task_counter s \<le> next_task_counter s'"
  by (simp add: keeps_def)

lemma collect_chunk_ok:
  assumes "col_ok s col"
  shows "col_ok s (collect_chunk sel ck dk col) \<and> data_view (col_state (collect_chunk sel ck dk col)) = data_view (col_state col)"
proof -
  let ?s = "col_state col"
  have b: "base_inv ?s" using assms by (auto simp: col_ok_def dest: keeps_base)
  let ?s1 = "getMetastate dk ?s" and ?s2 = "enqueueChunkDataGen dk (getMetastate dk ?s)"
  have k1: "keeps ?s ?s1" by (rule keeps_getMetastate[OF b])
  note C = enqueueChunkDataGen_ok[OF keeps_base[OF k1], of dk]
  then have k: "keeps ?s ?s2" using keeps_trans[OF k1] by blast
  have c: "chunk_gen_task_counter (meta ?s2 dk) < next_task_counter ?s2"
    using base_meta[OF keeps_base[OF k], of dk] by (simp add: meta_ok_def)
  show ?thesis
    using col_ok_step[OF assms k _ c, of "latest_chunk_ptr (meta ?s2 dk)"] C
      collect_fixed_ok[OF assms] base_dummies[OF b]
    by (auto simp: collect_chunk_def Let_def) (auto simp: collect_fixed_def)
qed

text \<open>The data of one dependency: \<open>enq\<close> stands for \<open>enqueuePseudoDataGen\<close> of its key.\<close>

definition yields_data :: "(land_service \<Rightarrow> land_service) \<Rightarrow> chunk_key \<Rightarrow> land_service \<Rightarrow> bool" where
  "yields_data enq dk s \<longleftrightarrow> keeps s (enq s) \<and> latest_pseudo_data_ptr (meta (enq s) dk) \<noteq> None"

lemma collect_data_ok:
  assumes "col_ok s col" "height_ok dk \<Longrightarrow> yields_data enq dk (getMetastate dk (col_state col))"
  shows "col_ok s (collect_data enq sel ck dk col)"
proof (cases "height_ok dk")
  case False
  have "base_inv (col_state col)" using assms(1) by (auto simp: col_ok_def dest: keeps_base)
  then show ?thesis using False collect_fixed_ok[OF assms(1)] base_dummies
    by (auto simp: collect_data_def height_ok_def)
next
  case True
  let ?s = "col_state col"
  let ?s1 = "getMetastate dk ?s" and ?s2 = "enq (getMetastate dk ?s)"
  have b: "base_inv ?s" using assms(1) by (auto simp: col_ok_def dest: keeps_base)
  have k1: "keeps ?s ?s1" by (rule keeps_getMetastate[OF b])
  have k: "keeps ?s ?s2" using assms(2)[OF True] keeps_trans[OF k1] by (simp add: yields_data_def)
  have c: "pseudo_data_gen_task_counter (meta ?s2 dk) < next_task_counter ?s2"
    using base_meta[OF keeps_base[OF k], of dk] by (simp add: meta_ok_def)
  show ?thesis
    using col_ok_step[OF assms(1) k _ c, of "latest_pseudo_data_ptr (meta ?s2 dk)"] assms(2)[OF True] True
    by (simp add: collect_data_def Let_def height_ok_def yields_data_def)
qed

text \<open>After a dependency inside the world is collected, the result is outdated or exists.\<close>

definition settled :: "chunk_key \<Rightarrow> dep_collection \<Rightarrow> bool" where
  "settled ck col \<longleftrightarrow> col_outdated col \<or> latest_pseudo_data_ptr (meta (col_state col) ck) \<noteq> None"

lemma data_ptr_of_counter:
  "base_inv s \<Longrightarrow> \<not> pseudo_data_gen_task_counter (meta s ck) \<le> n \<Longrightarrow> latest_pseudo_data_ptr (meta s ck) \<noteq> None"
  using base_meta[of s ck] by (auto simp: meta_ok_def)

lemma keeps_data_ptr:
  "keeps s s' \<Longrightarrow> latest_pseudo_data_ptr (meta s k) \<noteq> None \<Longrightarrow> latest_pseudo_data_ptr (meta s' k) \<noteq> None"
  by (simp add: keeps_def)

lemma settled_collect_chunk:
  assumes "col_ok s col" "settled ck col \<or> height_ok dk"
  shows "settled ck (collect_chunk pseudo_data_gen_task_counter ck dk col)"
proof (cases "height_ok dk")
  case False
  then have "settled ck col" using assms(2) by simp
  then show ?thesis using False by (auto simp: settled_def collect_chunk_def collect_fixed_def height_ok_def Let_def)
next
  case True
  let ?s2 = "enqueueChunkDataGen dk (getMetastate dk (col_state col))"
  have "base_inv (col_state (collect_chunk pseudo_data_gen_task_counter ck dk col))"
    using collect_chunk_ok[OF assms(1), of pseudo_data_gen_task_counter ck dk] unfolding col_ok_def
    by (blast dest: keeps_base)
  then have "base_inv ?s2" using True by (simp add: collect_chunk_def Let_def height_ok_def)
  from data_ptr_of_counter[OF this] True show ?thesis
    by (auto simp: settled_def collect_chunk_def height_ok_def Let_def)
qed

lemma settled_collect_data:
  assumes "col_ok s col" "settled ck col \<or> height_ok dk" "height_ok dk \<Longrightarrow> yields_data enq dk (getMetastate dk (col_state col))"
  shows "settled ck (collect_data enq pseudo_data_gen_task_counter ck dk col)"
proof (cases "height_ok dk")
  case False
  then have "settled ck col" using assms(2) by simp
  then show ?thesis using False by (auto simp: settled_def collect_data_def collect_fixed_def height_ok_def Let_def)
next
  case True
  let ?s2 = "enq (getMetastate dk (col_state col))"
  have "base_inv ?s2" using assms(3)[OF True] by (auto simp: yields_data_def dest: keeps_base)
  from data_ptr_of_counter[OF this] True show ?thesis
    by (auto simp: settled_def collect_data_def height_ok_def Let_def)
qed

section \<open>Pseudo data\<close>

text \<open>Enqueueing data for a key touches the data of no other key of its level or above.\<close>

definition data_frame :: "chunk_key \<Rightarrow> land_service \<Rightarrow> land_service \<Rightarrow> bool" where
  "data_frame ck s s' \<longleftrightarrow> (\<forall>k. k \<noteq> ck \<and> kscale ck \<le> kscale k \<longrightarrow> data_view s' k = data_view s k)"

lemma data_frame_flags:
  assumes "data_frame ck s s'" "flags_ok N s" "flags_ok (kscale ck) s'" "data_flag_ok s' ck"
  shows "flags_ok N s'"
  unfolding flags_ok_def
proof (intro allI impI)
  fix k assume n: "kscale k < N"
  consider "k = ck" | "kscale k < kscale ck" | "k \<noteq> ck" "kscale ck \<le> kscale k" by linarith
  then show "data_flag_ok s' k"
  proof cases
    case 2
    then show ?thesis using assms(3) by (simp add: flags_ok_def)
  next
    case 3
    then show ?thesis using assms(1,2) n by (auto simp: data_frame_def flags_ok_def data_flag_ok_def)
  qed (simp add: assms(4))
qed

lemma data_frame_trans: "data_frame ck s s' \<Longrightarrow> data_frame ck s' s'' \<Longrightarrow> data_frame ck s s''"
  by (simp add: data_frame_def)

lemma data_frame_view: "data_view s' = data_view s \<Longrightarrow> data_frame ck s s'"
  by (simp add: data_frame_def)

lemma data_deps_first: "0 < kscale ck \<Longrightarrow> \<exists>d ds. data_deps ck = d # ds \<and> ky d = ky ck"
  by (auto simp: data_deps_def finest_offsets_def child_offsets_def offset_key_def key_of_base_def)

lemma alloc_data_ok:
  assumes "base_inv s"
  shows "keeps s (alloc_data ck s) \<and> latest_pseudo_data_ptr (meta (alloc_data ck s) ck) \<noteq> None \<and>
    data_frame ck s (alloc_data ck s) \<and> (\<forall>k. k \<noteq> ck \<longrightarrow> data_view (alloc_data ck s) k = data_view s k)"
proof -
  have e: "alloc_data ck s = set_meta ck (\<lambda>m. m\<lparr>latest_pseudo_data_ptr := Some (next_ptr s)\<rparr>) (s\<lparr>next_ptr := next_ptr s + 1\<rparr>)"
    by (simp add: alloc_data_def fresh_ptr_def)
  have "base_inv (alloc_data ck s)" using assms unfolding e by (auto simp: base_inv_def meta_ok_def)
  then have "keeps s (alloc_data ck s)" by (simp add: keeps_def e debt_def num_tasks_def fun_eq_iff)
  then show ?thesis by (simp add: e data_frame_def data_view_def)
qed

lemma data_enqueued_ok:
  assumes "bld_ok (bld, s)" "\<not> captures_null body" "task_key body = Some ck" "latest_pseudo_data_ptr (meta s ck) \<noteq> None"
  shows "keeps s (data_enqueued ck (enqueueTask body (bld, s)))"
    "data_view (data_enqueued ck (enqueueTask body (bld, s))) = data_view s"
proof -
  have "meta_ok (next_task_counter s) (meta s ck)" using assms(1) base_meta by (auto simp: bld_ok_def)
  then have "keeps s (set_meta ck (\<lambda>m. m\<lparr>pending_task_count := pending_task_count m + 1,
      pseudo_data_gen_task_counter := next_task_counter s\<rparr>) (snd (enqueueTask body (bld, s))))"
    using assms(4) by (intro keeps_enqueue[OF assms(1-3)]) (auto simp: meta_ok_def)
  then show "keeps s (data_enqueued ck (enqueueTask body (bld, s)))" by (simp add: data_enqueued_def enqueueTask_eq)
  show "data_view (data_enqueued ck (enqueueTask body (bld, s))) = data_view s"
    by (simp add: data_enqueued_def enqueueTask_eq data_view_def fun_eq_iff)
qed

lemma collected_data_enqueued:
  assumes b: "bld_ok (bld, s)" and col: "col_ok s col" and body: "\<And>p. p \<noteq> None \<Longrightarrow> \<not> captures_null (body (col_deps col) p)"
    "\<And>p. task_key (body (col_deps col) p) = Some ck"
  shows "let s' = alloc_data ck (col_state col);
      s'' = data_enqueued ck (enqueueTask (body (col_deps col) (latest_pseudo_data_ptr (meta s' ck))) (addWaits (col_waits col) bld, s'))
    in keeps s s'' \<and> latest_pseudo_data_ptr (meta s'' ck) \<noteq> None \<and>
       (\<forall>k. k \<noteq> ck \<longrightarrow> data_view s'' k = data_view (col_state col) k)"
proof -
  let ?s' = "alloc_data ck (col_state col)"
  have k: "keeps s (col_state col)" using col by (simp add: col_ok_def)
  note A = alloc_data_ok[OF keeps_base[OF k], of ck]
  have "bld_ok (bld, ?s')" using b k A by (intro bld_ok_keeps[OF b]) (blast intro: keeps_trans)
  then have "bld_ok (addWaits (col_waits col) bld, ?s')"
    using col A keeps_next[of "col_state col" ?s'] by (intro bld_ok_addWaits) (auto simp: col_ok_def dest: order_less_le_trans)
  note D = data_enqueued_ok[OF this body(1)[of "latest_pseudo_data_ptr (meta ?s' ck)"] body(2)]
  let ?s'' = "data_enqueued ck (enqueueTask (body (col_deps col) (latest_pseudo_data_ptr (meta ?s' ck))) (addWaits (col_waits col) bld, ?s'))"
  have D1: "keeps ?s' ?s''" and D2: "data_view ?s'' = data_view ?s'" using D A by blast+
  have "keeps s ?s''" using k A D1 keeps_trans by blast
  moreover have "latest_pseudo_data_ptr (meta ?s'' ck) \<noteq> None" using keeps_data_ptr[OF D1] A by blast
  ultimately show ?thesis using A D2 by (simp add: Let_def)
qed

definition data_gen_ok :: "nat \<Rightarrow> chunk_key \<Rightarrow> land_service \<Rightarrow> land_service \<Rightarrow> bool" where
  "data_gen_ok N ck s s' \<longleftrightarrow> keeps s s' \<and> flags_ok N s' \<and> data_frame ck s s' \<and>
     (0 < kscale ck \<longrightarrow> latest_pseudo_data_ptr (meta s' ck) \<noteq> None)"

lemma flags_ok_less: "flags_ok N s \<Longrightarrow> n \<le> N \<Longrightarrow> flags_ok n s"
  by (auto simp: flags_ok_def)

lemma clear_data_flag:
  assumes "base_inv s"
  shows "keeps s (set_meta ck (\<lambda>m. m\<lparr>pseudo_data_invalidated := False\<rparr>) s)"
    "flags_ok (kscale ck) (set_meta ck (\<lambda>m. m\<lparr>pseudo_data_invalidated := False\<rparr>) s) = flags_ok (kscale ck) s"
    "data_frame ck s (set_meta ck (\<lambda>m. m\<lparr>pseudo_data_invalidated := False\<rparr>) s)"
proof -
  show "keeps s (set_meta ck (\<lambda>m. m\<lparr>pseudo_data_invalidated := False\<rparr>) s)"
    by (rule keeps_set_meta[OF assms]) (auto simp: meta_ok_def)
  show "data_frame ck s (set_meta ck (\<lambda>m. m\<lparr>pseudo_data_invalidated := False\<rparr>) s)"
    by (simp add: data_frame_def data_view_def)
  have "kscale k < kscale ck \<Longrightarrow> data_view (set_meta ck (\<lambda>m. m\<lparr>pseudo_data_invalidated := False\<rparr>) s) k = data_view s k" for k
    by (auto simp: data_view_def)
  then show "flags_ok (kscale ck) (set_meta ck (\<lambda>m. m\<lparr>pseudo_data_invalidated := False\<rparr>) s) = flags_ok (kscale ck) s"
    by (auto simp: flags_ok_def data_flag_ok_def)
qed

text \<open>From the state with the flag cleared to the end: below its level the flags stay in order,
  at and above it no other data changes, and the data exists.\<close>

lemma data_gen_okI:
  assumes s: "base_inv s" "flags_ok N s"
    and s1: "s1 = set_meta ck (\<lambda>m. m\<lparr>pseudo_data_invalidated := False\<rparr>) s"
    and s': "keeps s1 s'" "flags_ok (kscale ck) s'" "data_frame ck s1 s'"
      "0 < kscale ck \<Longrightarrow> latest_pseudo_data_ptr (meta s' ck) \<noteq> None"
  shows "data_gen_ok N ck s s'"
proof -
  note C = clear_data_flag[OF s(1), of ck, folded s1]
  have fr: "data_frame ck s s'" by (rule data_frame_trans[OF C(3) s'(3)])
  have "data_flag_ok s' ck" using s'(4) by (auto simp: data_flag_ok_def data_view_def)
  then have "flags_ok N s'" by (rule data_frame_flags[OF fr s(2) s'(2)])
  then show ?thesis using fr keeps_trans[OF C(1) s'(1)] s'(4) by (simp add: data_gen_ok_def)
qed

lemma flags_ok_except:
  assumes "flags_ok (kscale ck) s" "\<And>k. k \<noteq> ck \<Longrightarrow> data_view s' k = data_view s k"
  shows "flags_ok (kscale ck) s'"
  unfolding flags_ok_def
proof (intro allI impI)
  fix k assume k: "kscale k < kscale ck"
  then have "k \<noteq> ck" by auto
  then show "data_flag_ok s' k" using assms k by (simp add: flags_ok_def data_flag_ok_def)
qed

lemma data_frame_except: "(\<And>k. k \<noteq> ck \<Longrightarrow> data_view s' k = data_view s k) \<Longrightarrow> data_frame ck s s'"
  by (simp add: data_frame_def)

text \<open>The fold over the dependencies, for both kinds.\<close>

definition collecting :: "chunk_key \<Rightarrow> land_service \<Rightarrow> dep_collection \<Rightarrow> bool" where
  "collecting ck s col \<longleftrightarrow> col_ok s col \<and> flags_ok (kscale ck) (col_state col) \<and> data_frame ck s (col_state col)"

lemma fold_collecting:
  assumes step: "\<And>d col. d \<in> set ds \<Longrightarrow> collecting ck s col \<Longrightarrow> collecting ck s (f d col) \<and> (settled ck col \<or> height_ok d \<longrightarrow> settled ck (f d col))"
    and c: "collecting ck s col"
  shows "collecting ck s (fold f ds col) \<and> (settled ck col \<or> (\<exists>d ds'. ds = d # ds' \<and> height_ok d) \<longrightarrow> settled ck (fold f ds col))"
  using assms
proof (induction ds arbitrary: col)
  case (Cons d ds)
  have 1: "collecting ck s (f d col) \<and> (settled ck col \<or> height_ok d \<longrightarrow> settled ck (f d col))"
    using Cons.prems by simp
  have 2: "collecting ck s (fold f ds (f d col)) \<and> (settled ck (f d col) \<or> (\<exists>d' ds'. ds = d' # ds' \<and> height_ok d') \<longrightarrow> settled ck (fold f ds (f d col)))"
  proof (rule Cons.IH)
    fix d' col' assume "d' \<in> set ds" "collecting ck s col'"
    then show "collecting ck s (f d' col') \<and> (settled ck col' \<or> height_ok d' \<longrightarrow> settled ck (f d' col'))"
      by (intro Cons.prems(1)) simp_all
  qed (use 1 in blast)
  show ?case using 1 2 by (simp only: fold_simps list.inject) blast
qed simp

lemma collecting_start:
  assumes "base_inv s" "flags_ok (kscale ck) s"
  shows "collecting ck s \<lparr>col_state = s, col_deps = [], col_waits = [], col_outdated = b\<rparr>"
  using assms by (simp add: collecting_def col_ok_def keeps_refl data_frame_def)

lemma collecting_chunk_step:
  assumes "collecting ck s col"
  shows "collecting ck s (collect_chunk sel ck d col)"
  using assms collect_chunk_ok[of s col sel ck d] flags_ok_view[of "col_state (collect_chunk sel ck d col)" "col_state col"]
  by (auto simp: collecting_def data_frame_def)

lemma data_frame_up:
  assumes "data_frame d s s'" "kscale d < kscale ck"
  shows "data_frame ck s s'"
  unfolding data_frame_def
proof (intro allI impI)
  fix k assume "k \<noteq> ck \<and> kscale ck \<le> kscale k"
  then have "k \<noteq> d" "kscale d \<le> kscale k" using assms(2) by auto
  then show "data_view s' k = data_view s k" using assms(1) by (simp add: data_frame_def)
qed

lemma collecting_data_step:
  assumes c: "collecting ck s col" and d: "kscale d < kscale ck" "0 < kscale d"
    and enq: "\<And>s'. base_inv s' \<Longrightarrow> height_ok d \<Longrightarrow> flags_ok (kscale ck) s' \<Longrightarrow> data_gen_ok (kscale ck) d s' (enq s')"
  shows "collecting ck s (collect_data enq pseudo_data_gen_task_counter ck d col) \<and>
    (settled ck col \<or> height_ok d \<longrightarrow> settled ck (collect_data enq pseudo_data_gen_task_counter ck d col))"
proof -
  let ?s = "col_state col" and ?s1 = "getMetastate d (col_state col)"
  let ?col = "collect_data enq pseudo_data_gen_task_counter ck d col"
  have cok: "col_ok s col" "flags_ok (kscale ck) ?s" "data_frame ck s ?s" using c by (simp_all add: collecting_def)
  have b: "base_inv ?s" using cok(1) by (auto simp: col_ok_def dest: keeps_base)
  have k1: "keeps ?s ?s1" by (rule keeps_getMetastate[OF b])
  have f1: "flags_ok (kscale ck) ?s1" using cok(2) flags_ok_view[OF data_view_getMetastate] by blast
  have G: "data_gen_ok (kscale ck) d ?s1 (enq ?s1)" if "height_ok d" by (rule enq[OF keeps_base[OF k1] that f1])
  have Y: "height_ok d \<Longrightarrow> yields_data enq d ?s1" using G d(2) by (simp add: yields_data_def data_gen_ok_def)
  have st: "col_state ?col = (if height_ok d then enq ?s1 else ?s)"
    by (auto simp: collect_data_def collect_fixed_def height_ok_def Let_def)
  have fr: "data_frame ck ?s (enq ?s1)" if "height_ok d"
  proof -
    have "data_frame d ?s1 (enq ?s1)" using G[OF that] by (simp only: data_gen_ok_def)
    then have "data_frame ck ?s1 (enq ?s1)" by (rule data_frame_up[OF _ d(1)])
    then show ?thesis by (simp only: data_frame_def data_view_getMetastate simp_thms)
  qed
  have "flags_ok (kscale ck) (col_state ?col) \<and> data_frame ck s (col_state ?col)"
  proof (cases "height_ok d")
    case True
    then show ?thesis
      using G[OF True] data_frame_trans[OF cok(3) fr[OF True]] st by (simp_all add: data_gen_ok_def)
  next
    case False
    then show ?thesis
      using cok st by simp_all
  qed
  then show ?thesis
    using collect_data_ok[OF cok(1) Y] settled_collect_data[OF cok(1) _ Y] by (simp add: collecting_def)
qed

lemma data_deps_scale_pos:
  assumes "1 < kscale ck" "d \<in> set (data_deps ck)"
  shows "0 < kscale d"
proof -
  obtain n where n: "kscale ck = Suc (Suc n)" using assms(1) by (metis One_nat_def less_imp_Suc_add plus_nat.simps(2) add.commute)
  then have "scale_log2 d = of_nat (Suc n)" using assms(2) scale_offset_key[of d ck "Suc n"] by (simp add: data_deps_def)
  moreover have "Suc n < 16" using kscale_less[of ck] n by simp
  then have "unat (of_nat (Suc n) :: 4 word) = Suc n" by (simp only: unat_of_nat) simp
  ultimately show ?thesis by (simp only: zero_less_Suc)
qed


text \<open>After the fold: nothing to do, or a new object and a task that builds it.\<close>

lemma finish_collecting:
  assumes s: "base_inv s" "flags_ok N s" and s1: "s1 = set_meta ck (\<lambda>m. m\<lparr>pseudo_data_invalidated := False\<rparr>) s"
    and bld: "bld_ok (bld, s1)" and col: "collecting ck s1 col" "settled ck col"
    and body: "\<And>deps p. task_key (body deps p) = Some ck" "\<And>deps p. captures_null (body deps p) = (p = None \<or> None \<in> set deps)"
    and e: "s' = (if \<not> col_outdated col then col_state col
      else let s2 = alloc_data ck (col_state col)
        in data_enqueued ck (enqueueTask (body (col_deps col) (latest_pseudo_data_ptr (meta s2 ck))) (addWaits (col_waits col) bld, s2)))"
  shows "data_gen_ok N ck s s'"
proof -
  have c: "col_ok s1 col" "flags_ok (kscale ck) (col_state col)" "data_frame ck s1 (col_state col)"
    using col(1) by (simp_all add: collecting_def)
  show ?thesis
  proof (cases "col_outdated col")
    case False
    then have "s' = col_state col" "latest_pseudo_data_ptr (meta (col_state col) ck) \<noteq> None"
      using e col(2) by (simp_all add: settled_def)
    then show ?thesis using data_gen_okI[OF s s1, of s'] c by (simp add: col_ok_def)
  next
    case True
    have "None \<notin> set (col_deps col)" using c(1) by (simp add: col_ok_def)
    then have D: "keeps s1 s' \<and> latest_pseudo_data_ptr (meta s' ck) \<noteq> None \<and> (\<forall>k. k \<noteq> ck \<longrightarrow> data_view s' k = data_view (col_state col) k)"
      using collected_data_enqueued[OF bld c(1), of body ck] True e body by (simp add: Let_def)
    then show ?thesis
      using data_gen_okI[OF s s1, of s'] flags_ok_except[OF c(2), of s'] data_frame_trans[OF c(3) data_frame_except[of ck s' "col_state col"]]
      by blast
  qed
qed

lemma first_dep_in_world:
  assumes "0 < kscale ck" "height_ok ck"
  shows "\<exists>d ds. data_deps ck = d # ds \<and> height_ok d"
  using data_deps_first[OF assms(1)] assms(2) by (auto simp: height_ok_def)

lemma enqueuePseudoDataGen_ok:
  "base_inv s \<Longrightarrow> height_ok ck \<Longrightarrow> kscale ck < N \<Longrightarrow> flags_ok N s \<Longrightarrow> data_gen_ok N ck s (enqueuePseudoDataGen ck s)"
proof (induction "kscale ck" arbitrary: ck s N rule: less_induct)
  case less
  note b = less(2) and h = less(3) and n = less(4) and fl = less(5)
  let ?s1 = "set_meta ck (\<lambda>m. m\<lparr>pseudo_data_invalidated := False\<rparr>) s"
  note C = clear_data_flag[OF b, of ck]
  have b1: "base_inv ?s1" by (rule keeps_base[OF C(1)])
  have f1: "flags_ok (kscale ck) ?s1" using C(2) flags_ok_less[OF fl, of "kscale ck"] n by simp
  note I = data_gen_okI[OF b fl refl]
  let ?bld = "addWait (pseudo_data_gen_task_counter (meta ?s1 ck)) new_builder"
  have bld: "bld_ok (?bld, ?s1)"
    using base_meta[OF b1, of ck] by (intro bld_ok_addWait bld_ok_new b1) (simp add: meta_ok_def)
  let ?start = "\<lparr>col_state = ?s1, col_deps = [], col_waits = [], col_outdated = False\<rparr>"
  have c0: "collecting ck ?s1 ?start" by (rule collecting_start[OF b1 f1])
  show ?case
  proof (cases "pseudo_data_invalidated (meta s ck)")
    case False
    have "data_flag_ok s ck" using fl n by (simp add: flags_ok_def)
    then have "0 < kscale ck \<Longrightarrow> latest_pseudo_data_ptr (meta s ck) \<noteq> None"
      using False h by (simp add: data_flag_ok_def data_view_def)
    then show ?thesis using False b fl
      by (simp add: enqueuePseudoDataGen.simps[of ck s] data_gen_ok_def keeps_refl data_frame_def)
  next
    case inval: True
    consider (lod0) "kscale ck = 0" | (lod1) "kscale ck = 1"
      | (virgin) "1 < kscale ck" "kscale ck \<le> MAX_GENERATABLE_LOD \<and> is_virgin (meta ?s1 ck)"
      | (aggregate) "1 < kscale ck" "\<not> (kscale ck \<le> MAX_GENERATABLE_LOD \<and> is_virgin (meta ?s1 ck))" by linarith
    then show ?thesis
    proof cases
      case lod0
      then have "enqueuePseudoDataGen ck s = ?s1" using inval by (simp add: enqueuePseudoDataGen.simps[of ck s] Let_def)
      then show ?thesis using I[OF keeps_refl[OF b1] f1] lod0 by (simp add: data_frame_def)
    next
      case lod1
      let ?col = "fold (collect_chunk pseudo_data_gen_task_counter ck) (data_deps ck) ?start"
      have F: "collecting ck ?s1 ?col \<and> ((settled ck ?start \<or> (\<exists>d ds. data_deps ck = d # ds \<and> height_ok d)) \<longrightarrow> settled ck ?col)"
      proof (rule fold_collecting[OF _ c0])
        fix d col assume c: "collecting ck ?s1 col"
        then have "col_ok ?s1 col" by (simp add: collecting_def)
        from settled_collect_chunk[OF this] collecting_chunk_step[OF c]
        show "collecting ck ?s1 (collect_chunk pseudo_data_gen_task_counter ck d col) \<and>
          (settled ck col \<or> height_ok d \<longrightarrow> settled ck (collect_chunk pseudo_data_gen_task_counter ck d col))" by blast
      qed
      have st: "settled ck ?col" using F first_dep_in_world[OF _ h] lod1 by (metis zero_less_one)
      show ?thesis
        by (rule finish_collecting[OF b fl refl bld conjunct1[OF F] st, of "Aggregate_Lod0 ck"])
          (use inval lod1 in \<open>simp_all add: enqueuePseudoDataGen.simps[of ck s] Let_def\<close>)
    next
      case virgin
      show ?thesis
      proof (cases "latest_pseudo_data_ptr (meta ?s1 ck) = None")
        case False
        then have "enqueuePseudoDataGen ck s = ?s1"
          using inval virgin by (simp add: enqueuePseudoDataGen.simps[of ck s] Let_def)
        then show ?thesis using I[OF keeps_refl[OF b1] f1] False by (simp add: data_frame_def)
      next
        case True
        let ?s2 = "alloc_data ck ?s1"
        note A = alloc_data_ok[OF b1, of ck]
        obtain gen bld3 s3 where g: "prepareKeyGeneration ck (?bld, ?s2) = (gen, bld3, s3)" by (metis prod_cases3)
        note P = prepare_ok[OF bld_ok_keeps[OF bld conjunct1[OF A]] g]
        have v: "meta s3 = meta ?s2" "data_view s3 = data_view ?s2" using P metastate_view by blast+
        have b3: "bld_ok (addWait gen bld3, s3)" using P by (intro bld_ok_addWait) auto
        let ?body = "Generate_Pseudo ck (latest_pseudo_data_ptr (meta s3 ck))"
        let ?s' = "data_enqueued ck (enqueueTask ?body (addWait gen bld3, s3))"
        have p: "latest_pseudo_data_ptr (meta s3 ck) \<noteq> None" unfolding v using A by blast
        have D: "keeps s3 ?s'" "data_view ?s' = data_view s3" using data_enqueued_ok[OF b3 _ _ p, of ?body] p by auto
        have e: "enqueuePseudoDataGen ck s = ?s'"
          using inval virgin True g by (simp add: enqueuePseudoDataGen.simps[of ck s] Let_def)
        have k: "keeps ?s1 ?s'" using A P D(1) keeps_trans by blast
        have vw: "\<And>k. k \<noteq> ck \<Longrightarrow> data_view ?s' k = data_view ?s1 k" using A D(2) v(2) by simp
        show ?thesis unfolding e
          by (rule I[OF k flags_ok_except[OF f1 vw] data_frame_except[OF vw]]) (use keeps_data_ptr[OF D(1) p] in blast)+
      qed
    next
      case aggregate
      let ?f = "\<lambda>dk. collect_data (enqueuePseudoDataGen dk) pseudo_data_gen_task_counter ck dk"
      let ?col = "fold ?f (data_deps ck) ?start"
      have F: "collecting ck ?s1 ?col \<and> ((settled ck ?start \<or> (\<exists>d ds. data_deps ck = d # ds \<and> height_ok d)) \<longrightarrow> settled ck ?col)"
      proof (rule fold_collecting[OF _ c0])
        fix d col assume d: "d \<in> set (data_deps ck)" and c: "collecting ck ?s1 col"
        show "collecting ck ?s1 (?f d col) \<and> (settled ck col \<or> height_ok d \<longrightarrow> settled ck (?f d col))"
        proof (rule collecting_data_step[OF c data_deps_scale[OF d] data_deps_scale_pos[OF aggregate(1) d]])
          fix s' assume "base_inv s'" "height_ok d" "flags_ok (kscale ck) s'"
          then show "data_gen_ok (kscale ck) d s' (enqueuePseudoDataGen d s')"
            by (intro less(1) data_deps_scale[OF d])
        qed
      qed
      have st: "settled ck ?col" using F first_dep_in_world[OF _ h] aggregate(1) by (metis less_trans zero_less_one)
      have nv: "(kscale ck \<le> MAX_GENERATABLE_LOD \<and> is_virgin (meta s ck)) = False" using aggregate(2) by simp
      show ?thesis
        by (rule finish_collecting[OF b fl refl bld conjunct1[OF F] st, of "Aggregate_Lod ck"])
          (cases "kscale ck \<le> MAX_GENERATABLE_LOD";
            use inval aggregate(1) nv in \<open>simp_all add: enqueuePseudoDataGen.simps[of ck s] Let_def\<close>)+
    qed
  qed
qed

section \<open>Surfaces\<close>

lemma surface_enqueued_ok:
  assumes b: "bld_ok (bld, s)" and col: "col_ok s col"
    and body: "\<And>deps. task_key (body deps) = Some ck" "\<And>deps. captures_null (body deps) = (None \<in> set deps)"
  shows "keeps s (surface_enqueued ck (enqueueTask (body (col_deps col)) (addWaits (col_waits col) bld, col_state col)))"
    "data_view (surface_enqueued ck (enqueueTask (body (col_deps col)) (addWaits (col_waits col) bld, col_state col))) =
      data_view (col_state col)"
proof -
  let ?s = "col_state col"
  have k: "keeps s ?s" using col by (simp add: col_ok_def)
  have bw: "bld_ok (addWaits (col_waits col) bld, ?s)"
    using col by (intro bld_ok_addWaits bld_ok_keeps[OF b k]) (simp add: col_ok_def)
  have "meta_ok (next_task_counter ?s) (meta ?s ck)" by (rule base_meta[OF keeps_base[OF k]])
  then have "keeps ?s (set_meta ck (\<lambda>m. m\<lparr>pending_task_count := pending_task_count m + 1,
      pseudo_surface_gen_task_counter := next_task_counter ?s\<rparr>)
      (snd (enqueueTask (body (col_deps col)) (addWaits (col_waits col) bld, ?s))))"
    using col body by (intro keeps_enqueue[OF bw]) (auto simp: meta_ok_def col_ok_def)
  then show "keeps s (surface_enqueued ck (enqueueTask (body (col_deps col)) (addWaits (col_waits col) bld, ?s)))"
    using keeps_trans[OF k] by (simp add: surface_enqueued_def enqueueTask_eq)
  show "data_view (surface_enqueued ck (enqueueTask (body (col_deps col)) (addWaits (col_waits col) bld, ?s))) = data_view ?s"
    by (simp add: surface_enqueued_def enqueueTask_eq data_view_def fun_eq_iff)
qed

text \<open>Keeping a state in order with the flags of all levels (a level is below 16).\<close>

definition keeps_flags :: "land_service \<Rightarrow> land_service \<Rightarrow> bool" where
  "keeps_flags s s' \<longleftrightarrow> keeps s s' \<and> flags_ok 16 s'"

lemma keeps_flags_trans: "keeps_flags s s' \<Longrightarrow> keeps_flags s' s'' \<Longrightarrow> keeps_flags s s''"
  by (auto simp: keeps_flags_def intro: keeps_trans)

lemma keeps_flags_view: "keeps s s' \<Longrightarrow> data_view s' = data_view s \<Longrightarrow> flags_ok 16 s \<Longrightarrow> keeps_flags s s'"
  unfolding keeps_flags_def by (simp only: flags_ok_view[of s' s 16] simp_thms)

lemma keeps_flags_data:
  "base_inv s \<Longrightarrow> flags_ok 16 s \<Longrightarrow> height_ok ck \<Longrightarrow> keeps_flags s (enqueuePseudoDataGen ck s) \<and>
     (0 < kscale ck \<longrightarrow> latest_pseudo_data_ptr (meta (enqueuePseudoDataGen ck s) ck) \<noteq> None)"
  using enqueuePseudoDataGen_ok[of s ck 16] kscale_less[of ck] by (simp add: data_gen_ok_def keeps_flags_def)

lemma fold_col_chunk:
  assumes "col_ok s col" "flags_ok 16 (col_state col)"
  shows "col_ok s (fold (collect_chunk sel ck) ds col) \<and> flags_ok 16 (col_state (fold (collect_chunk sel ck) ds col))"
  using assms
proof (induction ds arbitrary: col)
  case (Cons d ds)
  have "col_ok s (collect_chunk sel ck d col)" "flags_ok 16 (col_state (collect_chunk sel ck d col))"
    using collect_chunk_ok[OF Cons.prems(1), of sel ck d] Cons.prems(2)
      flags_ok_view[of "col_state (collect_chunk sel ck d col)" "col_state col"] by simp_all
  then show ?case using Cons.IH by simp
qed simp

lemma fold_col_data:
  assumes "col_ok s col" "flags_ok 16 (col_state col)" "\<And>d. d \<in> set ds \<Longrightarrow> 0 < kscale d"
  shows "col_ok s (fold (\<lambda>dk. collect_data (enqueuePseudoDataGen dk) sel ck dk) ds col) \<and>
    flags_ok 16 (col_state (fold (\<lambda>dk. collect_data (enqueuePseudoDataGen dk) sel ck dk) ds col))"
  using assms
proof (induction ds arbitrary: col)
  case (Cons d ds)
  let ?col = "collect_data (enqueuePseudoDataGen d) sel ck d col"
  let ?s = "col_state col" and ?s1 = "getMetastate d (col_state col)"
  have b: "base_inv ?s" using Cons.prems(1) by (auto simp: col_ok_def dest: keeps_base)
  have k1: "keeps ?s ?s1" by (rule keeps_getMetastate[OF b])
  have f1: "flags_ok 16 ?s1" using Cons.prems(2) flags_ok_view[OF data_view_getMetastate] by blast
  have G: "height_ok d \<Longrightarrow> keeps_flags ?s1 (enqueuePseudoDataGen d ?s1) \<and>
      latest_pseudo_data_ptr (meta (enqueuePseudoDataGen d ?s1) d) \<noteq> None"
    using keeps_flags_data[OF keeps_base[OF k1] f1] Cons.prems(3)[of d] by simp
  then have "height_ok d \<Longrightarrow> yields_data (enqueuePseudoDataGen d) d ?s1" by (simp add: yields_data_def keeps_flags_def)
  then have "col_ok s ?col" by (rule collect_data_ok[OF Cons.prems(1)])
  moreover have "flags_ok 16 (col_state ?col)"
    using G Cons.prems(2) by (cases "height_ok d")
      (auto simp: collect_data_def collect_fixed_def height_ok_def Let_def keeps_flags_def)
  ultimately show ?case using Cons.IH[of ?col] Cons.prems(3) by simp
qed simp

lemma surface_deps_scale: "d \<in> set (surface_deps ck) \<Longrightarrow> kscale d = kscale ck"
  using surface_lists_scale(1) by simp

lemma enqueuePseudoSurfaceGen_ok:
  assumes b: "base_inv s" and fl: "flags_ok 16 s" and h: "0 < kscale ck \<Longrightarrow> height_ok ck"
  shows "keeps_flags s (enqueuePseudoSurfaceGen ck s)"
proof (cases "pseudo_surface_invalidated (meta s ck)")
  case False
  then show ?thesis using b fl by (simp add: enqueuePseudoSurfaceGen_def keeps_flags_def keeps_refl)
next
  case inval: True
  let ?s1 = "set_meta ck (\<lambda>m. m\<lparr>pseudo_surface_invalidated := False\<rparr>) s"
  have k1: "keeps s ?s1" by (rule keeps_set_meta[OF b]) (auto simp: meta_ok_def)
  have v1: "data_view ?s1 = data_view s" by (simp add: data_view_def fun_eq_iff)
  have b1: "base_inv ?s1" and f1: "flags_ok 16 ?s1" using keeps_base[OF k1] flags_ok_view[OF v1] fl by simp_all
  let ?bld = "addWait (pseudo_surface_gen_task_counter (meta ?s1 ck)) new_builder"
  have bld: "bld_ok (?bld, ?s1)"
    using base_meta[OF b1, of ck] by (intro bld_ok_addWait bld_ok_new b1) (simp add: meta_ok_def)
  have fin: "keeps_flags s (if \<not> col_outdated col then col_state col
      else surface_enqueued ck (enqueueTask (body (col_deps col)) (addWaits (col_waits col) ?bld, col_state col)))"
    if "col_ok ?s1 col" "flags_ok 16 (col_state col)"
      "\<And>deps. task_key (body deps) = Some ck" "\<And>deps. captures_null (body deps) = (None \<in> set deps)" for col body
    using that(1,2) surface_enqueued_ok(1)[OF bld that(1,3,4)] flags_ok_view[OF surface_enqueued_ok(2)[OF bld that(1,3,4)], of 16]
      keeps_trans[OF k1]
    by (simp add: keeps_flags_def col_ok_def)
  show ?thesis
  proof (cases "kscale ck = 0")
    case True
    let ?s2 = "enqueueChunkDataGen ck ?s1"
    note E = enqueueChunkDataGen_ok[OF b1, of ck]
    let ?start = "\<lparr>col_state = ?s2, col_deps = [latest_chunk_ptr (meta ?s2 ck)], col_waits = [chunk_gen_task_counter (meta ?s2 ck)],
      col_outdated = (chunk_gen_task_counter (meta ?s2 ck) \<ge> pseudo_surface_gen_task_counter (meta ?s2 ck))\<rparr>"
    have "chunk_gen_task_counter (meta ?s2 ck) < next_task_counter ?s2"
      using base_meta[of ?s2 ck] E by (auto simp: meta_ok_def dest: keeps_base)
    then have c: "col_ok ?s1 ?start" using E by (auto simp: col_ok_def)
    have f: "flags_ok 16 (col_state ?start)" using E f1 flags_ok_view[of ?s2 ?s1] by simp
    note F = fold_col_chunk[OF c f, of pseudo_surface_gen_task_counter ck "surface_deps ck"]
    show ?thesis using fin[of _ "Surface_Lod0 ck", OF conjunct1[OF F] conjunct2[OF F]] inval True
      by (simp add: enqueuePseudoSurfaceGen_def Let_def)
  next
    case False
    let ?s2 = "enqueuePseudoDataGen ck ?s1"
    have E: "keeps_flags ?s1 ?s2" "latest_pseudo_data_ptr (meta ?s2 ck) \<noteq> None"
      using keeps_flags_data[OF b1 f1] h False by auto
    let ?start = "\<lparr>col_state = ?s2, col_deps = [latest_pseudo_data_ptr (meta ?s2 ck)], col_waits = [pseudo_data_gen_task_counter (meta ?s2 ck)],
      col_outdated = (pseudo_data_gen_task_counter (meta ?s2 ck) \<ge> pseudo_surface_gen_task_counter (meta ?s2 ck))\<rparr>"
    have "pseudo_data_gen_task_counter (meta ?s2 ck) < next_task_counter ?s2"
      using base_meta[of ?s2 ck] E by (auto simp: meta_ok_def keeps_flags_def dest: keeps_base)
    then have c: "col_ok ?s1 ?start" using E by (auto simp: col_ok_def keeps_flags_def)
    have f: "flags_ok 16 (col_state ?start)" using E by (simp add: keeps_flags_def)
    have "\<And>d. d \<in> set (surface_deps ck) \<Longrightarrow> 0 < kscale d" using surface_deps_scale False by simp
    note F = fold_col_data[OF c f this, of "surface_deps ck" pseudo_surface_gen_task_counter ck]
    show ?thesis using fin[of _ "Surface_Lod ck", OF conjunct1[OF F] conjunct2[OF F]] inval False
      by (simp add: enqueuePseudoSurfaceGen_def Let_def)
  qed
qed

end
