(* ===== verification/Land_System.thy ===== *)
theory Land_System
  imports Land_Service_Steps
begin

text \<open>
  The land service with its tasks and its inbox, over all reachable states: the pending-task
  counters, the pointers tasks capture, the removal of idle chunks and the progress of tasks.
  The lemmas take \<open>keeps_flags\<close> of \<open>Land_Service_Steps\<close> through the handlers and the tick.
\<close>

section \<open>Handlers\<close>

lemma keeps_touch:
  assumes "base_inv s"
  shows "keeps s (set_meta ck (\<lambda>m. m\<lparr>last_referenced_tick := t\<rparr>) (try_emplace ck t' s))"
    "data_view (set_meta ck (\<lambda>m. m\<lparr>last_referenced_tick := t\<rparr>) (try_emplace ck t' s)) = data_view s"
proof -
  have k: "keeps s (try_emplace ck t' s)" by (rule keeps_try_emplace[OF assms])
  show "keeps s (set_meta ck (\<lambda>m. m\<lparr>last_referenced_tick := t\<rparr>) (try_emplace ck t' s))"
    by (rule keeps_trans[OF k keeps_set_meta[OF keeps_base[OF k]]]) (auto simp: meta_ok_def)
  show "data_view (set_meta ck (\<lambda>m. m\<lparr>last_referenced_tick := t\<rparr>) (try_emplace ck t' s)) = data_view s"
    by (simp add: data_view_def fun_eq_iff)
qed

lemma keeps_flags_inv: "keeps_flags s s' \<Longrightarrow> base_inv s' \<and> flags_ok 16 s'"
  by (auto simp: keeps_flags_def dest: keeps_base)

lemma keeps_flags_chunk: "base_inv s \<Longrightarrow> flags_ok 16 s \<Longrightarrow> keeps_flags s (enqueueChunkDataGen ck s)"
  using enqueueChunkDataGen_ok[of s ck] by (intro keeps_flags_view) auto

lemma tickChunkKey_ok:
  assumes "base_inv s" "flags_ok 16 s" "height_ok ck"
  shows "keeps_flags s (tickChunkKey ck tick_id s)"
proof -
  let ?s1 = "set_meta ck (\<lambda>m. m\<lparr>last_referenced_tick := tick_id\<rparr>) (try_emplace ck tick_id s)"
  let ?s2 = "if kscale ck = 0 then enqueueChunkDataGen ck ?s1 else ?s1"
  have 1: "keeps_flags s ?s1" by (rule keeps_flags_view[OF keeps_touch[OF assms(1)] assms(2)])
  then have i1: "base_inv ?s1" "flags_ok 16 ?s1" using keeps_flags_inv by blast+
  have "keeps_flags ?s1 ?s2" using keeps_flags_chunk[OF i1] i1 by (simp add: keeps_flags_def keeps_refl)
  then have 2: "keeps_flags s ?s2" by (rule keeps_flags_trans[OF 1])
  then have "keeps_flags ?s2 (enqueuePseudoSurfaceGen ck ?s2)"
    using keeps_flags_inv[OF 2] assms(3) by (intro enqueuePseudoSurfaceGen_ok) auto
  then show ?thesis using keeps_flags_trans[OF 2] by (simp only: tickChunkKey_def Let_def)
qed

lemma kscale_key_of_base0: "kscale (key_of_base b 0) = 0"
  by (simp add: key_of_base_def)

lemma handleBlockEditMessage_ok:
  assumes "base_inv s" "flags_ok 16 s"
  shows "keeps_flags s (handleBlockEditMessage position new_id s)"
proof -
  define key where "key = key_of_base (IVec3 (lowest_block (ivec_x position) div int CHUNK_SIZE_BLOCKS)
    (lowest_block (ivec_y position) div int CHUNK_SIZE_BLOCKS) (lowest_block (ivec_z position) div int CHUNK_SIZE_BLOCKS)) 0"
  let ?s2 = "enqueueChunkDataGen key (getMetastate key s)"
  have k1: "keeps s (getMetastate key s)" by (rule keeps_getMetastate[OF assms(1)])
  have 1: "keeps_flags s (getMetastate key s)" by (rule keeps_flags_view[OF k1 data_view_getMetastate assms(2)])
  note i1 = keeps_flags_inv[OF 1]
  have 2: "keeps_flags s ?s2" by (rule keeps_flags_trans[OF 1 keeps_flags_chunk]) (use i1 in blast)+
  have i2: "base_inv ?s2" "flags_ok 16 ?s2" using keeps_flags_inv[OF 2] by blast+
  have p: "latest_chunk_ptr (meta ?s2 key) \<noteq> None" using enqueueChunkDataGen_ok i1 by blast
  let ?m = "meta ?s2 key"
  let ?bld = "addWait (chunk_gen_task_counter ?m) new_builder"
  have bld: "bld_ok (?bld, ?s2)"
    using base_meta[OF i2(1), of key] by (intro bld_ok_addWait bld_ok_new i2) (simp add: meta_ok_def)
  let ?body = "Edit_Block key (latest_chunk_ptr ?m) (IVec3 (ivec_x position - lowest_block (ivec_x position))
    (ivec_y position - lowest_block (ivec_y position)) (ivec_z position - lowest_block (ivec_z position))) new_id"
  let ?s3 = "set_meta key (\<lambda>m. m\<lparr>pending_task_count := pending_task_count m + 1,
    chunk_gen_task_counter := next_task_counter ?s2\<rparr>) (snd (enqueueTask ?body (?bld, ?s2)))"
  have k3: "keeps ?s2 ?s3"
    using p base_meta[OF i2(1), of key] by (intro keeps_enqueue[OF bld]) (auto simp: meta_ok_def)
  have 3: "keeps_flags ?s2 ?s3"
    by (rule keeps_flags_view[OF k3 _ i2(2)]) (simp add: enqueueTask_eq data_view_def fun_eq_iff)
  let ?s4 = "set_meta key (\<lambda>m. m\<lparr>pseudo_surface_invalidated := True\<rparr>) ?s3"
  have k4: "keeps ?s3 ?s4" by (rule keeps_set_meta[OF keeps_base[OF k3]]) (auto simp: meta_ok_def)
  have 4: "keeps_flags ?s3 ?s4"
    by (rule keeps_flags_view[OF k4 _ conjunct2[OF keeps_flags_inv[OF 3]]]) (simp add: data_view_def fun_eq_iff)
  have "keeps_flags ?s4 (enqueuePseudoSurfaceGen key ?s4)"
    using keeps_flags_inv[OF 4] by (intro enqueuePseudoSurfaceGen_ok) (auto simp: key_def kscale_key_of_base0)
  then have "keeps_flags s (enqueuePseudoSurfaceGen key ?s4)"
    using keeps_flags_trans[OF keeps_flags_trans[OF keeps_flags_trans[OF 2 3] 4]] by blast
  then show ?thesis by (simp add: handleBlockEditMessage_def Let_def key_def enqueueTask_eq)
qed

text \<open>Completions lower the debt of their chunk by one.\<close>

fun reported_key :: "land_message \<Rightarrow> chunk_key option" where
  "reported_key (Chunk_Loaded key p) = Some key"
| "reported_key (Data_Generated key) = Some key"
| "reported_key (Surface_Generated key p) = Some key"
| "reported_key msg = None"

fun message_area_ok :: "land_message \<Rightarrow> bool" where
  "message_area_ok (Ticket_Request area) = area_asserts area"
| "message_area_ok (Ticket_Message (Ticket_Adjust i area)) = area_asserts area"
| "message_area_ok msg = True"

definition service_ok :: "land_service \<Rightarrow> bool" where
  "service_ok s \<longleftrightarrow> base_inv s \<and> flags_ok 16 s \<and> areas_ok (chunk_tickets s) \<and> (\<forall>k \<in> set (keys_to_update s). height_ok k)"

lemma service_ok_keeps: "service_ok s \<Longrightarrow> keeps_flags s s' \<Longrightarrow> service_ok s' \<and> debt s' = debt s"
  by (auto simp: service_ok_def keeps_flags_def keeps_def)

lemma reported_ok:
  assumes "service_ok s" "\<And>k. meta s' k = (if k = key then (meta s k)\<lparr>pending_task_count := pending_task_count (meta s k) - 1,
      pseudo_surface_invalidated := f (pseudo_surface_invalidated (meta s k))\<rparr> else meta s k)"
    "outstanding s' = outstanding s" "next_task_counter s' = next_task_counter s" "global_map_counter s' = global_map_counter s"
    "dummy_above s' = dummy_above s" "dummy_below s' = dummy_below s" "dummy_data s' = dummy_data s"
    "keys_to_update s' = keys_to_update s" "chunk_tickets s' = chunk_tickets s"
  shows "service_ok s' \<and> debt s' = (debt s)(key := debt s key - 1)"
proof -
  have "data_view s' = data_view s" by (simp add: data_view_def fun_eq_iff assms(2))
  then have "flags_ok 16 s'" using assms(1) by (simp only: service_ok_def flags_ok_view[of s' s 16])
  moreover have "debt s' = (debt s)(key := debt s key - 1)"
    unfolding debt_def num_tasks_def fun_eq_iff assms(2,3) by simp
  moreover have "base_inv s'"
    using assms(1) unfolding service_ok_def base_inv_def assms(2-8) by (simp add: meta_ok_def)
  ultimately show ?thesis using assms(1) unfolding service_ok_def assms(9,10) by blast
qed

lemma areas_ok_update: "areas_ok ts \<Longrightarrow> (validateChunkTicketArea (ts_area t) \<and> area_asserts (ts_area t)) \<Longrightarrow> areas_ok (ts[i := t])"
  using set_update_subset_insert[of ts i t] by (auto simp: areas_ok_def)

lemma take_slot_areas:
  "areas_ok ts \<Longrightarrow> validateChunkTicketArea area \<Longrightarrow> area_asserts area \<Longrightarrow> take_slot area i ts = (j, ts') \<Longrightarrow> areas_ok ts'"
proof (induction area i ts rule: take_slot.induct)
  case (1 area i ts)
  show ?case
  proof (cases "i < length ts \<and> ts_valid (ts ! i)")
    case True
    then show ?thesis using 1(1) 1(2-5) by (simp add: take_slot.simps[of area i ts])
  next
    case False
    have "areas_ok (ts @ [\<lparr>ts_area = area, ts_valid = True\<rparr>])" using 1(2-4) by (auto simp: areas_ok_def)
    moreover have "areas_ok (ts[i := (ts ! i)\<lparr>ts_area := area, ts_valid := True\<rparr>])"
      by (rule areas_ok_update[OF 1(2)]) (use 1(3,4) in simp)
    ultimately show ?thesis using False 1(5) by (subst (asm) take_slot.simps) (auto split: if_splits)
  qed
qed

lemma tickets_changed:
  assumes "service_ok s" "areas_ok ts"
  shows "service_ok (s\<lparr>chunk_tickets := ts, granted := gs\<rparr>) \<and> debt (s\<lparr>chunk_tickets := ts, granted := gs\<rparr>) = debt s"
  using assms
  by (simp add: service_ok_def base_inv_def flags_ok_def data_flag_ok_def data_view_def debt_def num_tasks_def fun_eq_iff)

lemma handle_message_ok:
  assumes ok: "service_ok s" and m: "message_area_ok msg" and h: "handle_message msg s = Some s'"
  shows "service_ok s' \<and> debt s' = (case reported_key msg of None \<Rightarrow> debt s | Some k \<Rightarrow> (debt s)(k := debt s k - 1))"
proof -
  have a: "areas_ok (chunk_tickets s)" using ok by (simp add: service_ok_def)
  show ?thesis
  proof (cases msg)
    case (Ticket_Request area)
    obtain t ts where t: "handleChunkTicketRequest area (chunk_tickets s) = (t, ts)" by force
    then have "areas_ok ts" using a m take_slot_areas[OF a] Ticket_Request
      by (auto simp: handleChunkTicketRequest_def split: if_splits prod.splits)
    then show ?thesis using h Ticket_Request t tickets_changed[OF ok] by auto
  next
    case (Ticket_Message tm)
    show ?thesis
    proof (cases tm)
      case (Ticket_Adjust i area)
      then obtain ts where ts: "handleChunkTicketAdjust i area (chunk_tickets s) = Some ts" "s' = s\<lparr>chunk_tickets := ts\<rparr>"
        using h Ticket_Message by auto
      have "validateChunkTicketArea area \<Longrightarrow> areas_ok ((chunk_tickets s)[i := (chunk_tickets s ! i)\<lparr>ts_area := area\<rparr>])"
        using m Ticket_Message Ticket_Adjust by (intro areas_ok_update[OF a]) simp
      then have "areas_ok ts" using a ts(1)
        by (auto simp: handleChunkTicketAdjust_def split: if_splits)
      then show ?thesis using tickets_changed[OF ok, of ts "granted s"] ts(2) Ticket_Message by simp
    next
      case (Ticket_Remove i)
      then obtain ts where ts: "handleChunkTicketRemove i (chunk_tickets s) = Some ts" "s' = s\<lparr>chunk_tickets := ts\<rparr>"
        using h Ticket_Message by auto
      then have "i < length (chunk_tickets s)" "ts = (chunk_tickets s)[i := (chunk_tickets s ! i)\<lparr>ts_valid := False\<rparr>]"
        by (auto simp: handleChunkTicketRemove_def split: if_splits)
      moreover from this have "validateChunkTicketArea (ts_area (chunk_tickets s ! i)) \<and> area_asserts (ts_area (chunk_tickets s ! i))"
        using a by (simp add: areas_ok_def)
      then have "areas_ok ((chunk_tickets s)[i := (chunk_tickets s ! i)\<lparr>ts_valid := False\<rparr>])"
        by (intro areas_ok_update[OF a]) simp
      ultimately have "areas_ok ts" by simp
      then show ?thesis using tickets_changed[OF ok, of ts "granted s"] ts(2) Ticket_Message by simp
    qed
  next
    case (Block_Edit position new_id)
    have "keeps_flags s (handleBlockEditMessage position new_id s)"
      using ok by (intro handleBlockEditMessage_ok) (simp_all add: service_ok_def)
    then show ?thesis using service_ok_keeps[OF ok] h Block_Edit by auto
  next
    case (Chunk_Loaded key p)
    then show ?thesis using h
      by (simp, intro reported_ok[OF ok, where f = "\<lambda>_. True"]) (auto simp: handleChunkLoadCompletion_def task_reported_def Let_def)
  next
    case (Data_Generated key)
    then show ?thesis using h
      by (simp, intro reported_ok[OF ok, where f = "\<lambda>_. True"]) (auto simp: handlePseudoDataGenCompletion_def task_reported_def Let_def)
  next
    case (Surface_Generated key p)
    then show ?thesis using h
      by (simp, intro reported_ok[OF ok, where f = "\<lambda>b. b"]) (auto simp: handlePseudoSurfaceGenCompletion_def task_reported_def Let_def)
  qed
qed

section \<open>The tick\<close>

definition reports :: "chunk_key \<Rightarrow> land_message list \<Rightarrow> nat" where
  "reports key msgs = length (filter (\<lambda>msg. reported_key msg = Some key) msgs)"

lemma pollMessages_ok:
  assumes "service_ok s" "\<forall>msg \<in> set msgs. message_area_ok msg" "pollMessages msgs s = Some s'"
  shows "service_ok s' \<and> (\<forall>k. debt s' k = debt s k - of_nat (reports k msgs))"
  using assms
proof (induction msgs arbitrary: s)
  case (Cons msg msgs)
  then obtain s1 where s1: "handle_message msg s = Some s1" "pollMessages msgs s1 = Some s'"
    by (auto split: option.splits)
  have H: "service_ok s1 \<and> debt s1 = (case reported_key msg of None \<Rightarrow> debt s | Some k \<Rightarrow> (debt s)(k := debt s k - 1))"
    using handle_message_ok[OF Cons.prems(1) _ s1(1)] Cons.prems(2) by simp
  have I: "service_ok s' \<and> (\<forall>k. debt s' k = debt s1 k - of_nat (reports k msgs))"
    using Cons.IH[OF _ _ s1(2)] H Cons.prems(2) by simp
  have "debt s1 k - of_nat (reports k msgs) = debt s k - of_nat (reports k (msg # msgs))" for k
    using H by (cases "reported_key msg") (auto simp: reports_def)
  then show ?case using I by simp
qed (simp add: reports_def)

definition same_debt_ok :: "land_service \<Rightarrow> land_service \<Rightarrow> bool" where
  "same_debt_ok s s' \<longleftrightarrow> service_ok s' \<and> debt s' = debt s"

lemma same_debt_trans: "same_debt_ok s s' \<Longrightarrow> same_debt_ok s' s'' \<Longrightarrow> same_debt_ok s s''"
  by (simp add: same_debt_ok_def)

lemma same_debt_keeps: "service_ok s \<Longrightarrow> keeps_flags s s' \<Longrightarrow> same_debt_ok s s'"
  using service_ok_keeps by (simp add: same_debt_ok_def)

text \<open>Only fields that no invariant reads change.\<close>

lemma same_debt_irrelevant:
  assumes "service_ok s" "metastate s' = metastate s" "outstanding s' = outstanding s" "next_task_counter s' = next_task_counter s"
    "global_map_counter s' = global_map_counter s" "dummy_above s' = dummy_above s" "dummy_below s' = dummy_below s"
    "dummy_data s' = dummy_data s" "chunk_tickets s' = chunk_tickets s" "\<forall>k \<in> set (keys_to_update s'). height_ok k"
  shows "same_debt_ok s s'"
proof -
  have m: "meta s' = meta s" "data_view s' = data_view s" using metastate_view[OF assms(2)] by simp_all
  have "base_inv s'" using assms(1) unfolding service_ok_def base_inv_def m assms by blast
  moreover have "flags_ok 16 s'" using assms(1) flags_ok_view[OF m(2)] by (simp only: service_ok_def)
  moreover have "debt s' = debt s" unfolding debt_def num_tasks_def m assms by simp
  ultimately show ?thesis using assms(1,10) unfolding same_debt_ok_def service_ok_def assms(9) by blast
qed

lemma invalidate_data_ok:
  assumes "service_ok s"
  shows "same_debt_ok s (invalidate_data key s)"
proof (cases "metastate s key = None")
  case True
  then show ?thesis using assms by (simp add: invalidate_data_def same_debt_ok_def)
next
  case False
  let ?s = "set_meta key (\<lambda>m. m\<lparr>pseudo_data_invalidated := True, is_virgin := False\<rparr>) s"
  have b: "base_inv s" "flags_ok 16 s" using assms by (simp_all add: service_ok_def)
  have "keeps s ?s" by (rule keeps_set_meta[OF b(1)]) (auto simp: meta_ok_def)
  moreover have "flags_ok 16 ?s" using b(2) by (auto simp: flags_ok_def data_flag_ok_def data_view_def)
  ultimately have "keeps_flags s ?s" by (simp add: keeps_flags_def)
  then have "same_debt_ok s ?s" by (rule same_debt_keeps[OF assms])
  then show ?thesis using False by (auto simp: invalidate_data_def)
qed

lemma invalidate_surface_ok:
  assumes "service_ok s"
  shows "same_debt_ok s (invalidate_surface key s)"
proof (cases "metastate s key = None")
  case True
  then show ?thesis using assms by (simp add: invalidate_surface_def same_debt_ok_def)
next
  case False
  let ?s = "set_meta key (\<lambda>m. m\<lparr>pseudo_surface_invalidated := True\<rparr>) s"
  have b: "base_inv s" "flags_ok 16 s" using assms by (simp_all add: service_ok_def)
  have k: "keeps s ?s" by (rule keeps_set_meta[OF b(1)]) (auto simp: meta_ok_def)
  have "keeps_flags s ?s" by (rule keeps_flags_view[OF k _ b(2)]) (simp add: data_view_def fun_eq_iff)
  then have "same_debt_ok s ?s" by (rule same_debt_keeps[OF assms])
  then show ?thesis using False by (auto simp: invalidate_surface_def)
qed

lemma fold_same_debt:
  assumes "\<And>k s. service_ok s \<Longrightarrow> same_debt_ok s (f k s)" "service_ok s"
  shows "same_debt_ok s (fold f ks s)"
  using assms(2)
proof (induction ks arbitrary: s)
  case (Cons k ks)
  have 1: "same_debt_ok s (f k s)" by (rule assms(1)[OF Cons.prems])
  then have "same_debt_ok (f k s) (fold f ks (f k s))" by (intro Cons.IH) (simp add: same_debt_ok_def)
  then show ?case using same_debt_trans[OF 1] by simp
qed (simp add: same_debt_ok_def)

lemma same_debt_service: "same_debt_ok s s' \<Longrightarrow> service_ok s'"
  by (simp add: same_debt_ok_def)

lemma process_invalidations_ok:
  assumes "service_ok s"
  shows "same_debt_ok s (process_invalidations s)"
proof -
  let ?s1 = "fold invalidate_data (data_invalidated s) s"
  let ?s2 = "fold invalidate_surface (surface_invalidated s) ?s1"
  have 1: "same_debt_ok s ?s1" by (rule fold_same_debt[OF invalidate_data_ok assms])
  have 2: "same_debt_ok ?s1 ?s2" by (rule fold_same_debt[OF invalidate_surface_ok same_debt_service[OF 1]])
  note o2 = same_debt_service[OF 2]
  have "same_debt_ok ?s2 (?s2\<lparr>data_invalidated := [], surface_invalidated := []\<rparr>)"
    by (rule same_debt_irrelevant[OF o2]) (use o2 in \<open>simp_all add: service_ok_def\<close>)
  then show ?thesis unfolding process_invalidations_def Let_def
    by (rule same_debt_trans[OF same_debt_trans[OF 1 2]])
qed

lemma collected_height_ok:
  assumes "areas_ok ts" "k \<in> set (collect_keys ts)"
  shows "height_ok k"
proof -
  obtain t where t: "t \<in> set ts" "k \<in> set (area_keys (ts_area t))" using assms(2) by (auto simp: set_collect_keys)
  then have "area_covers (ts_area t) k" using assms(1) set_area_keys by (auto simp: areas_ok_def)
  then show ?thesis by (cases "ts_area t") (auto simp: height_ok_def)
qed

lemma refill_keys_ok:
  assumes "service_ok s"
  shows "same_debt_ok s (refill_keys s)"
proof (cases "keys_to_update s = []")
  case True
  have "\<forall>k \<in> set (collect_keys (chunk_tickets s)). height_ok k"
    using collected_height_ok assms unfolding service_ok_def by blast
  then show ?thesis using True by (simp add: refill_keys_def) (intro same_debt_irrelevant[OF assms]; simp)
next
  case False
  then show ?thesis using assms by (simp add: refill_keys_def same_debt_ok_def)
qed

lemma visit_keys_loop_ok:
  "service_ok s \<Longrightarrow> n \<le> length (keys_to_update s) \<Longrightarrow> same_debt_ok s (visit_keys_loop n tick_id s)"
proof (induction n arbitrary: s)
  case (Suc n)
  let ?k = "last (keys_to_update s)"
  let ?s1 = "tickChunkKey ?k tick_id s"
  let ?s2 = "?s1\<lparr>keys_to_update := butlast (keys_to_update ?s1)\<rparr>"
  have "keys_to_update s \<noteq> []" using Suc.prems(2) by auto
  then have "height_ok ?k" using Suc.prems(1) by (simp add: service_ok_def)
  then have k: "keeps_flags s ?s1" using Suc.prems(1) by (intro tickChunkKey_ok) (simp_all add: service_ok_def)
  have 1: "same_debt_ok s ?s1" by (rule same_debt_keeps[OF Suc.prems(1) k])
  note o1 = same_debt_service[OF 1]
  have 2: "same_debt_ok ?s1 ?s2"
    by (rule same_debt_irrelevant[OF o1]) (use o1 in \<open>auto simp: service_ok_def dest: in_set_butlastD\<close>)
  have "keys_to_update ?s1 = keys_to_update s" using k by (simp add: keeps_flags_def keeps_def)
  then have "n \<le> length (keys_to_update ?s2)" using Suc.prems(2) by simp
  then have "same_debt_ok ?s2 (visit_keys_loop n tick_id ?s2)" by (rule Suc.IH[OF same_debt_service[OF 2]])
  then show ?case unfolding visit_keys_loop.simps Let_def by (rule same_debt_trans[OF same_debt_trans[OF 1 2]])
qed (simp add: same_debt_ok_def)

lemma visitOldest_inv:
  assumes "\<And>k s. P s \<Longrightarrow> P (snd (fn k s))" "P s"
  shows "P (snd (visitOldest fn n c q s))"
  using assms(2)
proof (induction n arbitrary: q s)
  case (Suc n)
  show ?case
  proof (cases q)
    case (Cons it rest)
    obtain t k where it: "it = (t, k)" by force
    obtain nt s1 where f: "fn k s = (nt, s1)" by force
    have "P s1" using assms(1)[OF Suc.prems, of k] f by simp
    then show ?thesis using Cons it f Suc by simp
  qed (simp add: Suc.prems)
qed simp

lemma cleanup_visit_ok:
  assumes "service_ok s"
  shows "same_debt_ok s (snd (cleanup_visit tick_id key s))"
proof (cases "snd (cleanup_visit tick_id key s) = s")
  case True
  then show ?thesis using assms by (simp add: same_debt_ok_def)
next
  case False
  let ?s = "s\<lparr>chunk_table := (chunk_table s)(key := None), surface_table := (surface_table s)(key := None),
    metastate := (metastate s)(key := None)\<rparr>"
  have s': "snd (cleanup_visit tick_id key s) = ?s" and p: "pending_task_count (meta s key) = 0"
    using False by (auto simp: cleanup_visit_def meta_def not_less split: option.splits if_splits)
  have m: "meta ?s k = (if k = key then new_metastate else meta s k)" for k by (simp add: meta_def)
  have "debt ?s = debt s" using p by (auto simp: debt_def num_tasks_def fun_eq_iff m new_metastate_def)
  moreover have "flags_ok 16 ?s"
    using assms by (auto simp: service_ok_def flags_ok_def data_flag_ok_def data_view_def m new_metastate_def)
  moreover have "base_inv ?s" using assms by (auto simp: service_ok_def base_inv_def m meta_ok_def new_metastate_def)
  ultimately show ?thesis using assms unfolding s' by (simp add: same_debt_ok_def service_ok_def)
qed

lemma cleanup_ok:
  assumes "service_ok s"
  shows "same_debt_ok s (cleanup tick_id s)"
proof -
  let ?r = "visitOldest (cleanup_visit tick_id) 1000 tick_id (lru_order s) s"
  have 1: "same_debt_ok s (snd ?r)"
  proof (rule visitOldest_inv[where P = "same_debt_ok s"])
    fix k s1 assume "same_debt_ok s s1"
    then show "same_debt_ok s (snd (cleanup_visit tick_id k s1))"
      using same_debt_trans cleanup_visit_ok[OF same_debt_service] by blast
  qed (use assms in \<open>simp add: same_debt_ok_def\<close>)
  note o1 = same_debt_service[OF 1]
  have "same_debt_ok (snd ?r) ((snd ?r)\<lparr>lru_order := fst ?r\<rparr>)"
    by (rule same_debt_irrelevant[OF o1]) (use o1 in \<open>simp_all add: service_ok_def\<close>)
  then have "same_debt_ok s ((snd ?r)\<lparr>lru_order := fst ?r\<rparr>)" by (rule same_debt_trans[OF 1])
  moreover have "cleanup tick_id s = (snd ?r)\<lparr>lru_order := fst ?r\<rparr>" by (simp add: cleanup_def split_beta)
  ultimately show ?thesis by (simp only:)
qed

lemma doTick_ok:
  assumes ok: "service_ok s" and m: "\<forall>msg \<in> set msgs. message_area_ok msg" and t: "doTick tick_id msgs s = Some s'"
  shows "service_ok s' \<and> (\<forall>k. debt s' k = debt s k - of_nat (reports k msgs))"
proof -
  let ?s0 = "s\<lparr>current_tick := tick_id, generator_tick := tick_id\<rparr>"
  have 0: "same_debt_ok s ?s0" by (rule same_debt_irrelevant[OF ok]) (use ok in \<open>simp_all add: service_ok_def\<close>)
  obtain s1 where s1: "pollMessages msgs ?s0 = Some s1" using t by (auto simp: doTick_def split: option.splits)
  have P: "service_ok s1 \<and> (\<forall>k. debt s1 k = debt ?s0 k - of_nat (reports k msgs))"
    by (rule pollMessages_ok[OF same_debt_service[OF 0] m s1])
  let ?s2 = "process_invalidations s1"
  let ?s3 = "refill_keys ?s2"
  let ?s4 = "visit_keys_loop (min KEYS_PER_TICK (length (keys_to_update ?s3))) tick_id ?s3"
  have 2: "same_debt_ok s1 ?s2" using process_invalidations_ok P by blast
  have 3: "same_debt_ok ?s2 ?s3" by (rule refill_keys_ok[OF same_debt_service[OF 2]])
  have 4: "same_debt_ok ?s3 ?s4" by (rule visit_keys_loop_ok[OF same_debt_service[OF 3]]) simp
  have 5: "same_debt_ok ?s4 (cleanup tick_id ?s4)" by (rule cleanup_ok[OF same_debt_service[OF 4]])
  have "s' = cleanup tick_id ?s4" using t s1 by (simp add: doTick_def Let_def)
  then show ?thesis using 0 P 2 3 4 5 by (simp add: same_debt_ok_def)
qed

section \<open>Reachable states\<close>

definition owed :: "chunk_key \<Rightarrow> land_system \<Rightarrow> nat" where
  "owed key y = num_tasks key (service y) + reports key (inbox y) + length (filter (\<lambda>k. k = key) (unreported y))"

definition system_ok :: "land_system \<Rightarrow> bool" where
  "system_ok y \<longleftrightarrow> service_ok (service y) \<and> (\<forall>msg \<in> set (inbox y). message_area_ok msg) \<and>
     (\<forall>key. pending_task_count (meta (service y) key) = of_nat (owed key y))"

lemma new_land_service_ok: "service_ok new_land_service"
  by (auto simp: service_ok_def base_inv_def new_land_service_def meta_def meta_ok_def new_metastate_def
      flags_ok_def data_flag_ok_def data_view_def areas_ok_def)

lemma new_system_ok: "system_ok new_land_system"
proof -
  have "pending_task_count (meta new_land_service key) = 0" for key
    by (simp add: meta_def new_land_service_def new_metastate_def)
  moreover have "owed key new_land_system = 0" for key
    by (simp add: owed_def new_land_system_def num_tasks_def new_land_service_def reports_def)
  ultimately show ?thesis using new_land_service_ok by (simp add: system_ok_def new_land_system_def)
qed

lemma key_reports_append [simp]: "reports key (xs @ ys) = reports key xs + reports key ys"
  by (simp add: reports_def)

lemma task_message_key:
  "task_message body changed p = Some msg \<Longrightarrow> reported_key msg = task_key body \<and> message_area_ok msg"
  by (cases body) (auto split: if_splits)

lemma remove_nth_filter:
  "i < length xs \<Longrightarrow> length (filter P xs) = length (filter P (take i xs @ drop (Suc i) xs)) + (if P (xs ! i) then 1 else 0)"
  by (subst id_take_nth_drop[of i xs]) simp_all

lemma sorted_wrt_remove:
  assumes "sorted_wrt R xs" "i < length xs"
  shows "sorted_wrt R (take i xs @ drop (Suc i) xs)"
proof -
  have "sorted_wrt R (take i xs @ xs ! i # drop (Suc i) xs)" using assms by (simp add: id_take_nth_drop[symmetric])
  then show ?thesis by (simp add: sorted_wrt_append)
qed

lemma task_ends_ok:
  assumes ok: "system_ok y" and i: "i < length (outstanding (service y))" and t: "t = outstanding (service y) ! i"
  shows "system_ok (y\<lparr>service := (service y)\<lparr>outstanding := take i (outstanding (service y)) @ drop (Suc i) (outstanding (service y))\<rparr>,
       inbox := inbox y @ (case task_message (task_body t) changed surface of Some msg \<Rightarrow> [msg] | None \<Rightarrow> []),
       unreported := unreported y @ (case (task_message (task_body t) changed surface, task_key (task_body t)) of
         (None, Some key) \<Rightarrow> [key] | _ \<Rightarrow> [])\<rparr>)" (is "system_ok ?y")
proof -
  let ?s = "service y" and ?ts = "take i (outstanding (service y)) @ drop (Suc i) (outstanding (service y))"
  let ?msgs = "case task_message (task_body t) changed surface of Some msg \<Rightarrow> [msg] | None \<Rightarrow> []"
  have sok: "service_ok ?s" using ok by (simp add: system_ok_def)
  have sub: "set ?ts \<subseteq> set (outstanding ?s)" by (auto dest: in_set_takeD in_set_dropD)
  have "sorted_wrt (\<lambda>a b. task_counter a < task_counter b) (outstanding ?s)"
    using sok by (simp add: service_ok_def base_inv_def)
  from sorted_wrt_remove[OF this i] sub have "base_inv (?s\<lparr>outstanding := ?ts\<rparr>)"
    using sok by (auto simp: service_ok_def base_inv_def)
  moreover have "data_view (?s\<lparr>outstanding := ?ts\<rparr>) = data_view ?s" by (simp add: data_view_def fun_eq_iff)
  ultimately have "service_ok (?s\<lparr>outstanding := ?ts\<rparr>)"
    using sok flags_ok_view[of "?s\<lparr>outstanding := ?ts\<rparr>" ?s 16] by (simp add: service_ok_def)
  moreover have "\<forall>msg \<in> set ?msgs. message_area_ok msg" using task_message_key by (auto split: option.splits)
  moreover have "owed key ?y = owed key y" for key
  proof -
    have "num_tasks key ?s = num_tasks key (?s\<lparr>outstanding := ?ts\<rparr>) + (if task_key (task_body t) = Some key then 1 else 0)"
      using remove_nth_filter[OF i, of "\<lambda>t. task_key (task_body t) = Some key"] unfolding num_tasks_def t by simp
    moreover have "reports key ?msgs = (if task_message (task_body t) changed surface \<noteq> None \<and> task_key (task_body t) = Some key then 1 else 0)"
      using task_message_key by (auto simp: reports_def split: option.splits)
    ultimately show ?thesis by (auto simp: owed_def split: option.splits)
  qed
  ultimately show ?thesis using ok by (simp add: system_ok_def) blast
qed

lemma tick_ok:
  assumes ok: "system_ok y" and t: "doTick tick_id (inbox y) (service y) = Some s"
  shows "system_ok (y\<lparr>service := s, inbox := []\<rparr>)"
proof -
  have D: "service_ok s \<and> (\<forall>k. debt s k = debt (service y) k - of_nat (reports k (inbox y)))"
    using ok by (intro doTick_ok[OF _ _ t]) (simp_all add: system_ok_def)
  have "pending_task_count (meta s key) = of_nat (owed key (y\<lparr>service := s, inbox := []\<rparr>))" for key
  proof -
    have "pending_task_count (meta s key) = debt s key + of_nat (num_tasks key s)" by (simp add: debt_def)
    also have "debt s key = pending_task_count (meta (service y) key) - of_nat (num_tasks key (service y)) - of_nat (reports key (inbox y))"
      using D by (simp add: debt_def)
    also have "\<dots> = of_nat (length (filter (\<lambda>k. k = key) (unreported y)))"
      using ok by (simp add: system_ok_def owed_def)
    finally show ?thesis by (simp add: owed_def reports_def add.commute)
  qed
  then show ?thesis using D by (simp add: system_ok_def)
qed

lemma reachable_system_ok: "land_reachable y \<Longrightarrow> system_ok y"
proof (induction rule: land_reachable.induct)
  case (land_next y y')
  from land_next(2) show ?case
  proof (cases rule: land_step.cases)
    case (land_client msg)
    then have "reported_key msg = None" "message_area_ok msg"
      by (cases msg rule: client_message.cases; simp)+
    then show ?thesis using land_next(3) land_client(1) by (auto simp: system_ok_def owed_def reports_def)
  next
    case (land_task_ends i t changed surface)
    show ?thesis unfolding land_task_ends(1) by (rule task_ends_ok[OF land_next(3) land_task_ends(2,3)])
  next
    case (land_tick tick_id s)
    show ?thesis unfolding land_tick(1) by (rule tick_ok[OF land_next(3) land_tick(2)])
  qed
qed (rule new_system_ok)

end
