(* ===== verification/Land_Run.thy ===== *)
theory Land_Run
  imports Land_System
begin

text \<open>
  A concrete run of the land service, which the instances of \<open>Land_Correct\<close> rest on: one block
  edit, one tick and the tasks of the edited chunk that follow. The tasks are computed by
  lemmas about one operation each, as the service visits every neighbour of the chunk.
\<close>

section \<open>The tasks of a chunk\<close>

lemma system_meta_none: "metastate (service y) key = None \<Longrightarrow> pending_task_count (meta (service y) key) = 0"
  by (simp add: meta_def new_metastate_def)

lemma owed_zero:
  assumes "land_reachable y" "metastate (service y) key = None" "owed key y < 256"
  shows "owed key y = 0"
proof -
  have "(of_nat (owed key y) :: 8 word) = 0"
    using reachable_system_ok[OF assms(1)] system_meta_none[OF assms(2)] by (simp add: system_ok_def)
  then have "unat (of_nat (owed key y) :: 8 word) = 0" by simp
  then show ?thesis using assms(3) by (simp add: unat_of_nat)
qed

text \<open>The tasks of one chunk, over an operation on another chunk.\<close>

definition key_tasks :: "chunk_key \<Rightarrow> land_service \<Rightarrow> queued_task list" where
  "key_tasks key s = filter (\<lambda>t. task_key (task_body t) = Some key) (outstanding s)"

lemma key_tasks_simps [simp]:
  "key_tasks k (set_meta k' f s) = key_tasks k s"
  "key_tasks k (try_emplace k' t s) = key_tasks k s" "key_tasks k (getMetastate k' s) = key_tasks k s"
  "key_tasks k (s\<lparr>next_ptr := n\<rparr>) = key_tasks k s" "key_tasks k (s\<lparr>global_map_counter := c\<rparr>) = key_tasks k s"
  by (simp_all add: key_tasks_def getMetastate_def)

lemma key_tasks_enqueue:
  "key_tasks k (snd (enqueueTask body (bld, s))) = key_tasks k s @
     (if task_key body = Some k
      then [\<lparr>task_counter = next_task_counter s, task_waits = filter (\<lambda>c. c \<noteq> 0) (wait_counters bld), task_body = body\<rparr>] else [])"
  by (simp add: key_tasks_def enqueueTask_eq)

lemma key_tasks_prepare: "prepareKeyGeneration ck (bld, s) = (gen, bld', s') \<Longrightarrow> key_tasks k s' = key_tasks k s"
  using key_tasks_enqueue[of k Global_Map bld s]
  by (auto simp: prepareKeyGeneration_def ensureGlobalMap_def enqueueGenerate_def Let_def split_beta split: if_splits)

lemma chunk_gen_tasks:
  "\<exists>t. key_tasks k (enqueueChunkDataGen ck s) = key_tasks k s @
     (if k = ck \<and> chunk_data_invalidated (meta s ck) \<and> chunk_gen_task_counter (meta s ck) = 0 then [t] else [])"
proof (cases "chunk_data_invalidated (meta s ck) \<and> chunk_gen_task_counter (meta s ck) = 0")
  case False
  then show ?thesis by (auto simp: enqueueChunkDataGen_def Let_def)
next
  case True
  let ?s1 = "set_meta ck (\<lambda>m. m\<lparr>chunk_data_invalidated := False\<rparr>) s"
  let ?s2 = "set_meta ck (\<lambda>m. m\<lparr>latest_chunk_ptr := Some (next_ptr s)\<rparr>) (?s1\<lparr>next_ptr := next_ptr s + 1\<rparr>)"
  let ?bld = "addWait 0 new_builder"
  obtain gen bld' s3 where p: "prepareKeyGeneration ck (?bld, ?s2) = (gen, bld', s3)"
    by (cases "prepareKeyGeneration ck (?bld, ?s2)") auto
  let ?bs = "enqueueTask (Generate_Chunk ck (latest_chunk_ptr (meta s3 ck))) (addWait gen bld', s3)"
  have "enqueueChunkDataGen ck s = set_meta ck (\<lambda>m. m\<lparr>pending_task_count := pending_task_count m + 1,
      chunk_gen_task_counter := last_task_counter (fst ?bs)\<rparr>) (snd ?bs)"
    using True p by (simp add: enqueueChunkDataGen_def Let_def fresh_ptr_def split_beta)
  then have "key_tasks k (enqueueChunkDataGen ck s) = key_tasks k (snd ?bs)" by simp
  moreover have "key_tasks k s3 = key_tasks k s" using key_tasks_prepare[OF p] by simp
  ultimately show ?thesis using True by (auto simp: key_tasks_enqueue)
qed

lemma collect_chunk_tasks: "k \<noteq> dk \<Longrightarrow> key_tasks k (col_state (collect_chunk sel ck dk col)) = key_tasks k (col_state col)"
  using chunk_gen_tasks[of k dk "getMetastate dk (col_state col)"]
  by (simp add: collect_chunk_def collect_fixed_def Let_def)

lemma fold_chunk_tasks:
  "k \<notin> set ds \<Longrightarrow> key_tasks k (col_state (fold (collect_chunk sel ck) ds col)) = key_tasks k (col_state col)"
  by (induction ds arbitrary: col) (simp_all add: collect_chunk_tasks)

lemma fold_chunk_outdated: "col_outdated col \<Longrightarrow> col_outdated (fold (collect_chunk sel ck) ds col)"
  by (induction ds arbitrary: col) (simp_all add: collect_chunk_def collect_fixed_def Let_def)

lemma surface_gen_tasks:
  assumes "kscale ck = 0" "ck \<notin> set (surface_deps ck)" "pseudo_surface_invalidated (meta s ck)"
    "chunk_gen_task_counter (meta s ck) \<noteq> 0" "pseudo_surface_gen_task_counter (meta s ck) \<le> chunk_gen_task_counter (meta s ck)"
    "\<not> chunk_data_invalidated (meta s ck)"
  shows "\<exists>t. key_tasks ck (enqueuePseudoSurfaceGen ck s) = key_tasks ck s @ [t]"
proof -
  let ?s = "set_meta ck (\<lambda>m. m\<lparr>pseudo_surface_invalidated := False\<rparr>) s"
  let ?m = "meta ?s ck"
  let ?col = "fold (collect_chunk pseudo_surface_gen_task_counter ck) (surface_deps ck)
    \<lparr>col_state = ?s, col_deps = [latest_chunk_ptr ?m], col_waits = [chunk_gen_task_counter ?m],
      col_outdated = (chunk_gen_task_counter ?m \<ge> pseudo_surface_gen_task_counter ?m)\<rparr>"
  let ?bld = "addWait (pseudo_surface_gen_task_counter ?m) new_builder"
  have "enqueueChunkDataGen ck ?s = ?s" using assms(6) by (simp add: enqueueChunkDataGen_def)
  moreover have "col_outdated ?col" by (rule fold_chunk_outdated) (use assms(5) in simp)
  ultimately have "enqueuePseudoSurfaceGen ck s = surface_enqueued ck (enqueueTask (Surface_Lod0 ck (col_deps ?col))
      (addWaits (col_waits ?col) ?bld, col_state ?col))"
    using assms(1,3) unfolding enqueuePseudoSurfaceGen_def Let_def by simp
  moreover have "key_tasks ck (col_state ?col) = key_tasks ck s" by (simp add: fold_chunk_tasks[OF assms(2)])
  ultimately show ?thesis by (simp add: surface_enqueued_def key_tasks_enqueue)
qed


lemma chunk_gen_validates: "\<not> chunk_data_invalidated (meta (enqueueChunkDataGen ck s) ck)"
proof (cases "chunk_data_invalidated (meta s ck)")
  case True
  let ?s1 = "set_meta ck (\<lambda>m. m\<lparr>chunk_data_invalidated := False\<rparr>) s"
  let ?s2 = "set_meta ck (\<lambda>m. m\<lparr>latest_chunk_ptr := Some (next_ptr s)\<rparr>) (?s1\<lparr>next_ptr := next_ptr s + 1\<rparr>)"
  let ?bld = "addWait 0 new_builder"
  obtain gen bld' s3 where p: "prepareKeyGeneration ck (?bld, ?s2) = (gen, bld', s3)"
    by (cases "prepareKeyGeneration ck (?bld, ?s2)") auto
  then have "metastate s3 = metastate ?s2"
    by (auto simp: prepareKeyGeneration_def ensureGlobalMap_def enqueueGenerate_def enqueueTask_eq Let_def split: if_splits)
  then have "meta s3 ck = meta ?s2 ck" using metastate_view by metis
  then show ?thesis using True p
    by (simp add: enqueueChunkDataGen_def Let_def fresh_ptr_def split_beta enqueueTask_eq)
qed (simp add: enqueueChunkDataGen_def)

lemma block_edit_tasks:
  assumes "base_inv s" "metastate s key = None" "key \<notin> set (surface_deps key)"
    and key: "key = key_of_base (IVec3 (lowest_block x div int CHUNK_SIZE_BLOCKS) (lowest_block y div int CHUNK_SIZE_BLOCKS)
      (lowest_block z div int CHUNK_SIZE_BLOCKS)) 0"
  shows "\<exists>t1 t2 t3 p e. key_tasks key (handleBlockEditMessage (IVec3 x y z) i s) = key_tasks key s @ [t1, t2, t3] \<and>
    task_body t2 = Edit_Block key p e i"
proof -
  let ?s1 = "getMetastate key s"
  let ?s2 = "enqueueChunkDataGen key ?s1"
  have m: "meta s key = new_metastate" using assms(2) by (simp add: meta_def)
  have k1: "keeps s ?s1" by (rule keeps_getMetastate[OF assms(1)])
  have m1: "chunk_data_invalidated (meta ?s1 key)" "chunk_gen_task_counter (meta ?s1 key) = 0"
    by (simp_all add: getMetastate_def m new_metastate_def)
  obtain t1 where t1: "key_tasks key ?s2 = key_tasks key s @ [t1]"
    using chunk_gen_tasks[of key key ?s1] m1 by auto
  have k2: "keeps ?s1 ?s2" using enqueueChunkDataGen_ok[OF keeps_base[OF k1]] by blast
  have b2: "base_inv ?s2" by (rule keeps_base[OF k2])
  let ?m = "meta ?s2 key"
  let ?bs = "enqueueTask (Edit_Block key (latest_chunk_ptr ?m) (IVec3 (x - lowest_block x) (y - lowest_block y) (z - lowest_block z)) i)
    (addWait (chunk_gen_task_counter ?m) new_builder, ?s2)"
  let ?s3 = "set_meta key (\<lambda>m. m\<lparr>pending_task_count := pending_task_count m + 1,
    chunk_gen_task_counter := next_task_counter ?s2\<rparr>) (snd ?bs)"
  let ?s4 = "set_meta key (\<lambda>m. m\<lparr>pseudo_surface_invalidated := True\<rparr>) ?s3"
  have e: "handleBlockEditMessage (IVec3 x y z) i s = enqueuePseudoSurfaceGen key ?s4"
    by (simp add: handleBlockEditMessage_def Let_def key enqueueTask_eq)
  have t2: "key_tasks key ?s4 = key_tasks key s @ [t1, \<lparr>task_counter = next_task_counter ?s2,
      task_waits = filter (\<lambda>c. c \<noteq> 0) (wait_counters (addWait (chunk_gen_task_counter ?m) new_builder)),
      task_body = Edit_Block key (latest_chunk_ptr ?m) (IVec3 (x - lowest_block x) (y - lowest_block y) (z - lowest_block z)) i\<rparr>]"
    by (simp add: key_tasks_enqueue t1)
  have inv: "\<not> chunk_data_invalidated ?m" by (rule chunk_gen_validates)
  have "pseudo_surface_gen_task_counter ?m < next_task_counter ?s2" using base_meta[OF b2, of key] by (simp add: meta_ok_def)
  moreover have "kscale key = 0" by (simp add: key kscale_key_of_base0)
  ultimately obtain t3 where "key_tasks key (enqueuePseudoSurfaceGen key ?s4) = key_tasks key ?s4 @ [t3]"
    using surface_gen_tasks[of key ?s4] assms(3) inv by (auto simp: enqueueTask_eq)
  then show ?thesis using e t2 by auto
qed


lemma outstanding_cleanup [simp]: "outstanding (cleanup tick_id s) = outstanding s"
proof -
  have "outstanding (snd (visitOldest (cleanup_visit tick_id) 1000 tick_id (lru_order s) s)) = outstanding s"
    by (rule visitOldest_inv[where P = "\<lambda>s'. outstanding s' = outstanding s"])
      (auto simp: cleanup_visit_def split: option.splits)
  then show ?thesis by (simp add: cleanup_def split_beta)
qed

lemma outstanding_invalidations [simp]: "outstanding (process_invalidations s) = outstanding s"
proof -
  have "outstanding (fold invalidate_data ks s) = outstanding s" for ks s
    by (induction ks arbitrary: s) (simp_all add: invalidate_data_def)
  moreover have "outstanding (fold invalidate_surface ks s) = outstanding s" for ks s
    by (induction ks arbitrary: s) (simp_all add: invalidate_surface_def)
  ultimately show ?thesis by (simp add: process_invalidations_def Let_def)
qed

lemma tickets_invalidations [simp]:
  "chunk_tickets (process_invalidations s) = chunk_tickets s" "keys_to_update (process_invalidations s) = keys_to_update s"
proof -
  have "chunk_tickets (fold invalidate_data ks s) = chunk_tickets s \<and> keys_to_update (fold invalidate_data ks s) = keys_to_update s" for ks s
    by (induction ks arbitrary: s) (simp_all add: invalidate_data_def set_meta_def)
  moreover have "chunk_tickets (fold invalidate_surface ks s) = chunk_tickets s \<and> keys_to_update (fold invalidate_surface ks s) = keys_to_update s" for ks s
    by (induction ks arbitrary: s) (simp_all add: invalidate_surface_def set_meta_def)
  ultimately show "chunk_tickets (process_invalidations s) = chunk_tickets s" "keys_to_update (process_invalidations s) = keys_to_update s"
    by (simp_all add: process_invalidations_def Let_def)
qed

text \<open>A state after one block edit and one tick: a chunk generation, the edit and a surface
  generation of the chunk are enqueued.\<close>

definition edited_system :: land_system where
  "edited_system = \<lparr>service = the (doTick 0 [Block_Edit (IVec3 5 6 7) 1] new_land_service), inbox = [], unreported = []\<rparr>"

lemma edited_reachable: "land_reachable edited_system"
proof -
  let ?y1 = "new_land_system\<lparr>inbox := [Block_Edit (IVec3 5 6 7) 1]\<rparr>"
  have "land_step new_land_system ?y1"
    using land_client[of "Block_Edit (IVec3 5 6 7) 1" new_land_system] by (simp add: new_land_system_def)
  then have 1: "land_reachable ?y1" by (rule land_next[OF land_start])
  have "doTick 0 [Block_Edit (IVec3 5 6 7) 1] new_land_service \<noteq> None"
    by (simp add: doTick_def Let_def)
  then have "doTick 0 (inbox ?y1) (service ?y1) = Some (the (doTick 0 [Block_Edit (IVec3 5 6 7) 1] new_land_service))"
    by (auto simp: new_land_system_def)
  from land_tick[OF this] have "land_step ?y1 edited_system" by (simp add: edited_system_def new_land_system_def)
  then show ?thesis by (rule land_next[OF 1])
qed

lemma edited_tasks:
  "\<exists>t1 t2 t3 p e. key_tasks (mk_key 0 0 0 0) (service edited_system) = [t1, t2, t3] \<and> task_body t2 = Edit_Block (mk_key 0 0 0 0) p e 1"
proof -
  let ?s = "new_land_service\<lparr>current_tick := 0, generator_tick := 0\<rparr>"
  let ?s1 = "handleBlockEditMessage (IVec3 5 6 7) 1 ?s"
  have ok: "base_inv ?s" "flags_ok 16 ?s"
    by (auto simp: base_inv_def new_land_service_def meta_def meta_ok_def new_metastate_def flags_ok_def data_flag_ok_def data_view_def)
  have key: "mk_key 0 0 0 0 = key_of_base (IVec3 (lowest_block 5 div int CHUNK_SIZE_BLOCKS) (lowest_block 6 div int CHUNK_SIZE_BLOCKS)
      (lowest_block 7 div int CHUNK_SIZE_BLOCKS)) 0"
    by (simp add: key_of_base_def lowest_block_def align_down_eq)
  have "mk_key 0 0 0 0 \<notin> set (surface_deps (mk_key 0 0 0 0))" by code_simp
  from block_edit_tasks[OF ok(1) _ this key] obtain t1 t2 t3 p e where
    t: "key_tasks (mk_key 0 0 0 0) ?s1 = [t1, t2, t3]" "task_body t2 = Edit_Block (mk_key 0 0 0 0) p e 1"
    by (fastforce simp: new_land_service_def key_tasks_def)
  have "keeps_flags ?s ?s1" by (rule handleBlockEditMessage_ok[OF ok])
  then have k: "chunk_tickets ?s1 = []" "keys_to_update ?s1 = []" by (simp_all add: keeps_flags_def keeps_def new_land_service_def)
  have "collect_keys [] = []" by code_simp
  then have "refill_keys (process_invalidations ?s1) = process_invalidations ?s1" using k by (simp add: refill_keys_def)
  then have "service edited_system = cleanup 0 (process_invalidations ?s1)"
    using k by (simp add: edited_system_def doTick_def Let_def)
  then show ?thesis using t by (simp add: key_tasks_def)
qed

lemma edited_owed: "owed (mk_key 0 0 0 0) edited_system = 3"
  using edited_tasks by (auto simp: owed_def num_tasks_def key_tasks_def reports_def edited_system_def)

section \<open>Runs\<close>

lemma unreported_step: "land_step y y' \<Longrightarrow> set (unreported y) \<subseteq> set (unreported y')"
  by (erule land_stepE) auto

lemma unreported_steps: "land_step\<^sup>*\<^sup>* y y' \<Longrightarrow> set (unreported y) \<subseteq> set (unreported y')"
  by (induction rule: rtranclp_induct) (auto dest: unreported_step)

lemma reachable_steps: "land_step\<^sup>*\<^sup>* y y' \<Longrightarrow> land_reachable y \<Longrightarrow> land_reachable y'"
  by (induction rule: rtranclp_induct) (auto intro: land_next)

lemma oldest_ready:
  assumes "base_inv s" "outstanding s \<noteq> []"
  shows "task_ready s (outstanding s ! 0)"
proof -
  obtain t ts where o: "outstanding s = t # ts" using assms(2) by (cases "outstanding s") auto
  have "task_ok (next_task_counter s) t" "\<forall>t' \<in> set ts. task_counter t < task_counter t'"
    using assms(1) by (simp_all add: base_inv_def o)
  then show ?thesis by (fastforce simp: task_ready_def o task_ok_def)
qed

lemma reachable_base: "land_reachable y \<Longrightarrow> base_inv (service y)"
  using reachable_system_ok by (simp add: system_ok_def service_ok_def)

text \<open>The oldest task ends; an edit changes nothing.\<close>

lemma oldest_ends:
  assumes "land_reachable y" "outstanding (service y) = t # ts"
  shows "\<exists>y'. land_step y y' \<and> outstanding (service y') = ts \<and> metastate (service y') = metastate (service y) \<and>
    (\<forall>key. owed key y' = owed key y) \<and>
    (\<forall>key p e i. task_body t = Edit_Block key p e i \<longrightarrow> key \<in> set (unreported y'))"
proof -
  have ne: "0 < length (outstanding (service y))" "outstanding (service y) \<noteq> []" using assms(2) by simp_all
  note step = land_task_ends[OF ne(1) refl oldest_ready[OF reachable_base[OF assms(1)] ne(2)], of False None]
  let ?msg = "task_message (task_body t) False None"
  let ?y' = "y\<lparr>service := (service y)\<lparr>outstanding := ts\<rparr>, inbox := inbox y @ (case ?msg of Some msg \<Rightarrow> [msg] | None \<Rightarrow> []),
    unreported := unreported y @ (case (?msg, task_key (task_body t)) of (None, Some key) \<Rightarrow> [key] | _ \<Rightarrow> [])\<rparr>"
  have "land_step y ?y'" using step by (simp add: assms(2))
  moreover have "owed key ?y' = owed key y" for key
    by (cases "task_body t") (auto simp: owed_def num_tasks_def reports_def assms(2))
  ultimately show ?thesis by (intro exI[of _ ?y'] conjI) auto
qed

text \<open>All tasks can end one after the other.\<close>

lemma tasks_can_end:
  assumes "land_reachable y"
  shows "\<exists>y'. land_step\<^sup>*\<^sup>* y y' \<and> outstanding (service y') = [] \<and> metastate (service y') = metastate (service y) \<and>
    (\<forall>key. owed key y' = owed key y) \<and>
    (\<forall>t key p e i. t \<in> set (outstanding (service y)) \<and> task_body t = Edit_Block key p e i \<longrightarrow> key \<in> set (unreported y'))"
  using assms
proof (induction "outstanding (service y)" arbitrary: y)
  case (Cons t ts)
  obtain y1 where y1: "land_step y y1" "outstanding (service y1) = ts" "metastate (service y1) = metastate (service y)"
      "\<forall>key. owed key y1 = owed key y" "\<forall>key p e i. task_body t = Edit_Block key p e i \<longrightarrow> key \<in> set (unreported y1)"
    using oldest_ends[OF Cons.prems Cons.hyps(2)[symmetric]] by blast
  from Cons.hyps(1)[OF y1(2)[symmetric] land_next[OF Cons.prems y1(1)]]
  obtain y' where y': "land_step\<^sup>*\<^sup>* y1 y'" "outstanding (service y') = []" "metastate (service y') = metastate (service y1)"
      "\<forall>key. owed key y' = owed key y1"
      "\<forall>t key p e i. t \<in> set ts \<and> task_body t = Edit_Block key p e i \<longrightarrow> key \<in> set (unreported y')"
    using y1(2) by blast
  have "set (unreported y1) \<subseteq> set (unreported y')" by (rule unreported_steps[OF y'(1)])
  then have "\<forall>t key p e i. t \<in> set (outstanding (service y)) \<and> task_body t = Edit_Block key p e i \<longrightarrow> key \<in> set (unreported y')"
    using y1(5) y'(5) Cons.hyps(2) by (metis set_ConsD subsetD)
  moreover have "land_step\<^sup>*\<^sup>* y y'" by (rule converse_rtranclp_into_rtranclp[OF y1(1) y'(1)])
  ultimately show ?case using y' y1(3,4) by (intro exI[of _ y']) simp
qed auto

text \<open>The edit ends and has changed nothing.\<close>

lemma edited_unreported:
  "\<exists>y. land_reachable y \<and> mk_key 0 0 0 0 \<in> set (unreported y) \<and> owed (mk_key 0 0 0 0) y = 3 \<and> outstanding (service y) = []"
proof -
  obtain y where y: "land_step\<^sup>*\<^sup>* edited_system y" "outstanding (service y) = []" "owed (mk_key 0 0 0 0) y = 3"
      "\<forall>t key p e i. t \<in> set (outstanding (service edited_system)) \<and> task_body t = Edit_Block key p e i \<longrightarrow> key \<in> set (unreported y)"
    using tasks_can_end[OF edited_reachable] edited_owed by auto
  obtain t1 t2 t3 p e where t: "key_tasks (mk_key 0 0 0 0) (service edited_system) = [t1, t2, t3]"
      "task_body t2 = Edit_Block (mk_key 0 0 0 0) p e 1" using edited_tasks by blast
  have "t2 \<in> set (key_tasks (mk_key 0 0 0 0) (service edited_system))" using t(1) by simp
  then have "t2 \<in> set (outstanding (service edited_system))" by (simp add: key_tasks_def)
  then show ?thesis using y t(2) reachable_steps[OF y(1) edited_reachable] by blast
qed

end
