(* ===== verification/Land_Correct.thy ===== *)
theory Land_Correct
  imports Land_Run
begin

text \<open>
  What the land service guarantees in every reachable state of the service, its tasks and its
  inbox (\<open>land_system\<close>): the pending-task counters of src/voxen/land/land_service.cpp are exact,
  tasks capture no null pointer, busy chunks stay, tasks never wait in a circle. The last
  property shows the effect of \<open>editBlock\<close> returning without a completion message.
\<close>



text \<open>C10: No task ever captures a null pointer: the chunks and data objects a task reads, and
  the one it writes, exist when it is enqueued, at every level of detail and at the edges of
  the world.\<close>

theorem tasks_capture_no_null:
  assumes "land_reachable y"
  shows "list_all (\<lambda>t. \<not> captures_null (task_body t)) (outstanding (service y))"
  using reachable_system_ok[OF assms] by (auto simp: list_all_iff system_ok_def service_ok_def base_inv_def task_ok_def)

theorem tasks_capture_no_null_witness:
  "list_all (\<lambda>t. \<not> captures_null (task_body t)) (outstanding (service edited_system)) \<and> outstanding (service edited_system) \<noteq> []"
  using tasks_capture_no_null[OF edited_reachable] edited_tasks by (auto simp: key_tasks_def)

text \<open>While fewer than 256 tasks and messages of a chunk are on their way, its entry is not
  removed, so a completion always finds the entry its task was counted in.\<close>

theorem busy_chunks_are_kept:
  assumes "land_reachable y" "owed key y \<noteq> 0" "owed key y < 256"
  shows "metastate (service y) key \<noteq> None"
  using owed_zero[OF assms(1) _ assms(3)] assms(2) by blast

theorem busy_chunks_are_kept_witness:
  "metastate (service edited_system) (mk_key 0 0 0 0) \<noteq> None"
  by (rule busy_chunks_are_kept[OF edited_reachable]) (simp_all add: edited_owed)

text \<open>C14: A block edit that changes nothing sends no completion, so its chunk stays counted as
  busy: the service never removes the chunk again, in any later state in which fewer than 256
  tasks of it are on their way.\<close>

theorem unchanged_edit_pins_chunk:
  assumes "land_reachable y" "key \<in> set (unreported y)" "land_step\<^sup>*\<^sup>* y y'" "owed key y' < 256"
  shows "metastate (service y') key \<noteq> None"
proof
  assume none: "metastate (service y') key = None"
  have "key \<in> set (unreported y')" using unreported_steps[OF assms(3)] assms(2) by blast
  then have "length (filter (\<lambda>k. k = key) (unreported y')) \<noteq> 0" by (auto simp: filter_empty_conv)
  then show False using owed_zero[OF reachable_steps[OF assms(3,1)] none assms(4)] by (simp add: owed_def)
qed

theorem unchanged_edit_pins_chunk_witness:
  "\<exists>y. land_reachable y \<and> outstanding (service y) = [] \<and> metastate (service y) (mk_key 0 0 0 0) \<noteq> None"
proof -
  obtain y where y: "land_reachable y" "mk_key 0 0 0 0 \<in> set (unreported y)" "owed (mk_key 0 0 0 0) y = 3" "outstanding (service y) = []"
    using edited_unreported by blast
  have "metastate (service y) (mk_key 0 0 0 0) \<noteq> None"
    by (rule unchanged_edit_pins_chunk[OF y(1,2) rtranclp.rtrancl_refl]) (simp add: y(3))
  then show ?thesis using y by blast
qed

text \<open>C11: The tasks of the service never wait for each other in a circle: from every reachable
  state all enqueued tasks can run to their end, one after the other, without a further tick
  or message from a client, and nothing but the inbox changes.\<close>

theorem all_tasks_can_finish:
  assumes "land_reachable y"
  shows "\<exists>y'. land_step\<^sup>*\<^sup>* y y' \<and> outstanding (service y') = [] \<and> metastate (service y') = metastate (service y)"
  using tasks_can_end[OF assms] by blast

theorem all_tasks_can_finish_witness:
  "\<exists>y'. land_step\<^sup>*\<^sup>* edited_system y' \<and> outstanding (service y') = [] \<and>
     metastate (service y') = metastate (service edited_system)"
  by (rule all_tasks_can_finish[OF edited_reachable])

end
