(* ===== verification/Service_Locator.thy ===== *)
theory Service_Locator
  imports Uid "HOL-Library.Sublist"
begin

text \<open>
  \<open>ServiceLocator\<close> (src/voxen/svc/service_locator.cpp and include/voxen/svc/service_locator.hpp):
  services are started on request by registered factories, which may request other services,
  and are destroyed in reverse order of their start.

  A factory is the caller's code. It is a tree of what it does with the locator: it returns a
  service, throws, or calls a method and goes on depending on the result, which includes
  catching what \<open>requestService\<close> throws. \<open>requestService\<close> is written as its two critical
  sections with the factory call between them; the lock is free during that call. \<open>fuel\<close> bounds
  the depth of nested factory calls; \<open>None\<close> means it ran out.
\<close>

section \<open>State\<close>

datatype svc_error = Circular_Dependency | Unresolved_Dependency | Already_Registered | Factory_Error nat

datatype 's factory =
    Return_Service 's
  | Throw_Error svc_error
  | Call_Request uid "svc_error + 's \<Rightarrow> 's factory"
  | Call_Find uid "'s option \<Rightarrow> 's factory"
  | Call_Register uid "'s factory" "svc_error option \<Rightarrow> 's factory"

record 's service_locator =
  active_services :: "uid \<rightharpoonup> 's"
  factory_map :: "uid \<rightharpoonup> 's factory"
  start_order :: "uid list"
  pending_services :: "uid list"
  request_service_fail_logged :: bool

definition new_locator :: "'s service_locator" where
  "new_locator = \<lparr>active_services = Map.empty, factory_map = Map.empty, start_order = [], pending_services = [],
     request_service_fail_logged = False\<rparr>"

section \<open>Operations\<close>

definition findService :: "uid \<Rightarrow> 's service_locator \<Rightarrow> 's option" where
  "findService i l = active_services l i"

definition registerServiceFactory :: "uid \<Rightarrow> 's factory \<Rightarrow> 's service_locator \<Rightarrow> svc_error option \<times> 's service_locator" where
  "registerServiceFactory i f l =
     (if factory_map l i = None then (None, l\<lparr>factory_map := (factory_map l)(i \<mapsto> f)\<rparr>)
      else (Some Already_Registered, l))"

datatype 's request_start = Found 's | Refused svc_error | Call_Factory "'s factory"

text \<open>From the lock to the call of the factory.\<close>

definition request_begin :: "uid \<Rightarrow> 's service_locator \<Rightarrow> 's request_start \<times> 's service_locator" where
  "request_begin i l =
     (case active_services l i of
        Some s \<Rightarrow> (Found s, l)
      | None \<Rightarrow>
          let l = l\<lparr>request_service_fail_logged := False\<rparr>
          in if i \<in> set (pending_services l)
             then (Refused Circular_Dependency, l\<lparr>request_service_fail_logged := True\<rparr>)
             else case factory_map l i of
                    None \<Rightarrow> (Refused Unresolved_Dependency, l\<lparr>request_service_fail_logged := True\<rparr>)
                  | Some f \<Rightarrow> (Call_Factory f, l\<lparr>pending_services := pending_services l @ [i]\<rparr>))"

text \<open>From the return of the factory to the end; \<open>emplace\<close> does not replace an entry.\<close>

definition request_end :: "uid \<Rightarrow> svc_error + 's \<Rightarrow> 's service_locator \<Rightarrow> 's service_locator" where
  "request_end i r l =
     (case r of
        Inl e \<Rightarrow> l\<lparr>request_service_fail_logged := True, pending_services := butlast (pending_services l)\<rparr>
      | Inr s \<Rightarrow>
          l\<lparr>active_services := (if active_services l i = None then (active_services l)(i \<mapsto> s) else active_services l),
            start_order := start_order l @ [i], pending_services := butlast (pending_services l)\<rparr>)"

primrec run_factory ::
  "(uid \<Rightarrow> 's service_locator \<Rightarrow> ((svc_error + 's) \<times> 's service_locator) option) \<Rightarrow>
   's factory \<Rightarrow> 's service_locator \<Rightarrow> ((svc_error + 's) \<times> 's service_locator) option" where
  "run_factory req (Return_Service s) l = Some (Inr s, l)"
| "run_factory req (Throw_Error e) l = Some (Inl e, l)"
| "run_factory req (Call_Request i k) l =
     (case req i l of None \<Rightarrow> None | Some rl \<Rightarrow> run_factory req (k (fst rl)) (snd rl))"
| "run_factory req (Call_Find i k) l = run_factory req (k (findService i l)) l"
| "run_factory req (Call_Register i f k) l =
     (case registerServiceFactory i f l of (e, l) \<Rightarrow> run_factory req (k e) l)"

primrec requestService :: "nat \<Rightarrow> uid \<Rightarrow> 's service_locator \<Rightarrow> ((svc_error + 's) \<times> 's service_locator) option" where
  "requestService 0 i l = None"
| "requestService (Suc fuel) i l =
     (case request_begin i l of
        (Found s, l) \<Rightarrow> Some (Inr s, l)
      | (Refused e, l) \<Rightarrow> Some (Inl e, l)
      | (Call_Factory f, l) \<Rightarrow>
          (case run_factory (requestService fuel) f l of
             None \<Rightarrow> None
           | Some (r, l) \<Rightarrow> Some (r, request_end i r l)))"

text \<open>The destructor: the services in the order of their destruction, each with what
  \<open>findService\<close> still finds while it is destroyed. \<open>None\<close> is a failed assertion.\<close>

fun destroy_services :: "uid list \<Rightarrow> (uid \<rightharpoonup> 's) \<Rightarrow> (uid \<times> (uid \<rightharpoonup> 's)) list option" where
  "destroy_services [] act = Some []"
| "destroy_services (i # is) act =
     (if act i = None then None
      else map_option (\<lambda>evs. (i, act(i := None)) # evs) (destroy_services is (act(i := None))))"

definition destroyLocator :: "'s service_locator \<Rightarrow> (uid \<times> (uid \<rightharpoonup> 's)) list option" where
  "destroyLocator l = destroy_services (rev (start_order l)) (active_services l)"

section \<open>What a request keeps\<close>

definition locator_ok :: "'s service_locator \<Rightarrow> bool" where
  "locator_ok l \<longleftrightarrow> distinct (start_order l) \<and> set (start_order l) = dom (active_services l) \<and>
     distinct (pending_services l) \<and> set (pending_services l) \<inter> dom (active_services l) = {}"

text \<open>Services stay, pending requests are restored, and the start order only grows.\<close>

definition extends :: "'s service_locator \<Rightarrow> 's service_locator \<Rightarrow> bool" where
  "extends l l' \<longleftrightarrow> locator_ok l' \<and> active_services l \<subseteq>\<^sub>m active_services l' \<and> factory_map l \<subseteq>\<^sub>m factory_map l' \<and>
     pending_services l' = pending_services l \<and> prefix (start_order l) (start_order l')"

lemma extends_refl: "locator_ok l \<Longrightarrow> extends l l"
  by (simp add: extends_def)

lemma extends_trans: "extends l l' \<Longrightarrow> extends l' l'' \<Longrightarrow> extends l l''"
  by (auto simp: extends_def intro: map_le_trans)

lemma extends_ok: "extends l l' \<Longrightarrow> locator_ok l'"
  by (simp add: extends_def)

lemma extends_register:
  "locator_ok l \<Longrightarrow> registerServiceFactory i f l = (e, l') \<Longrightarrow> extends l l'"
  by (auto simp: registerServiceFactory_def extends_def locator_ok_def map_le_def split: if_splits)

text \<open>A factory call, from the same property of the requests it makes.\<close>

lemma run_factory_extends:
  assumes "\<And>i l r l'. req i l = Some (r, l') \<Longrightarrow> locator_ok l \<Longrightarrow> extends l l'"
    "run_factory req f l = Some (r, l')" "locator_ok l"
  shows "extends l l'"
  using assms(2,3)
proof (induction f arbitrary: l)
  case (Call_Request i k)
  then obtain r1 l1 where r1: "req i l = Some (r1, l1)" "run_factory req (k r1) l1 = Some (r, l')"
    by (auto split: option.splits)
  have 1: "extends l l1" by (rule assms(1)[OF r1(1) Call_Request.prems(2)])
  show ?case by (rule extends_trans[OF 1 Call_Request.IH[OF _ r1(2) extends_ok[OF 1]]]) simp
next
  case (Call_Find i k)
  then show ?case by auto
next
  case (Call_Register i f k)
  obtain e l1 where e: "registerServiceFactory i f l = (e, l1)" by force
  have 1: "extends l l1" by (rule extends_register[OF Call_Register.prems(2) e])
  have "run_factory req (k e) l1 = Some (r, l')" using Call_Register.prems(1) e by simp
  then show ?case by (intro extends_trans[OF 1] Call_Register.IH(2)[OF _ _ extends_ok[OF 1]]) simp_all
qed (auto simp: extends_refl)

text \<open>A request: on success the service is active, on failure it is not.\<close>

lemma request_begin_cases:
  "request_begin i l = (Found s, l') \<Longrightarrow> active_services l i = Some s \<and> l' = l"
  "request_begin i l = (Refused e, l') \<Longrightarrow> active_services l i = None \<and> l' = l\<lparr>request_service_fail_logged := True\<rparr> \<and>
     (if i \<in> set (pending_services l) then e = Circular_Dependency else factory_map l i = None \<and> e = Unresolved_Dependency)"
  "request_begin i l = (Call_Factory f, l') \<Longrightarrow> active_services l i = None \<and> i \<notin> set (pending_services l) \<and>
     factory_map l i = Some f \<and> l' = l\<lparr>request_service_fail_logged := False, pending_services := pending_services l @ [i]\<rparr>"
  by (auto simp: request_begin_def Let_def split: option.splits if_splits)

lemma extends_end:
  assumes "extends (l\<lparr>request_service_fail_logged := b, pending_services := pending_services l @ [i]\<rparr>) l1"
    "active_services l i = None" "i \<notin> set (pending_services l)"
  shows "extends l (request_end i r l1) \<and>
    active_services (request_end i r l1) i = (case r of Inl e \<Rightarrow> None | Inr s \<Rightarrow> Some s)"
proof -
  have ok: "locator_ok l1" and p: "pending_services l1 = pending_services l @ [i]" using assms(1) by (simp_all add: extends_def)
  have n: "active_services l1 i = None" "i \<notin> set (start_order l1)" using ok p by (auto simp: locator_ok_def)
  have "active_services l \<subseteq>\<^sub>m (active_services l1)(i \<mapsto> s)" for s
    using assms(1,2) by (auto simp: extends_def map_le_def)
  then show ?thesis using assms n p
    by (cases r) (auto simp: extends_def request_end_def locator_ok_def)
qed

lemma request_extends:
  "requestService fuel i l = Some (r, l') \<Longrightarrow> locator_ok l \<Longrightarrow>
   extends l l' \<and> active_services l' i = (case r of Inl e \<Rightarrow> None | Inr s \<Rightarrow> Some s)"
proof (induction fuel arbitrary: i l r l')
  case (Suc fuel)
  obtain st l0 where b: "request_begin i l = (st, l0)" by force
  show ?case
  proof (cases st)
    case (Found s)
    then show ?thesis using Suc.prems b request_begin_cases(1)[of i l s l0] by (auto simp: extends_refl)
  next
    case (Refused e)
    then have "r = Inl e" "l' = l\<lparr>request_service_fail_logged := True\<rparr>" "active_services l i = None"
      using Suc.prems b request_begin_cases(2)[of i l e l0] by auto
    then show ?thesis using Suc.prems(2) by (simp add: extends_def locator_ok_def)
  next
    case (Call_Factory f)
    note c = request_begin_cases(3)[OF b[unfolded Call_Factory]]
    obtain l1 where l1: "run_factory (requestService fuel) f l0 = Some (r, l1)" "l' = request_end i r l1"
      using Suc.prems(1) b Call_Factory by (auto split: option.splits)
    have "locator_ok l0" using c Suc.prems(2) by (auto simp: locator_ok_def)
    then have "extends l0 l1"
      by (intro run_factory_extends[OF _ l1(1)]) (use Suc.IH in blast)
    then show ?thesis using extends_end[where b = False and l = l and i = i and ?l1.0 = l1 and r = r] c l1(2) by simp
  qed
qed simp

section \<open>Fuel\<close>

lemma run_factory_mono:
  "(\<And>i l x. req i l = Some x \<Longrightarrow> req' i l = Some x) \<Longrightarrow> run_factory req f l = Some x \<Longrightarrow> run_factory req' f l = Some x"
  by (induction f arbitrary: l) (auto split: option.splits prod.splits)

lemma request_mono: "requestService n i (l :: 's service_locator) = Some x \<Longrightarrow> n \<le> m \<Longrightarrow> requestService m i l = Some x"
proof (induction n arbitrary: m i l x)
  case (Suc n)
  obtain k where m: "m = Suc k" "n \<le> k" using Suc.prems(2) by (cases m) auto
  have req: "requestService k i l = Some x" if "requestService n i l = Some x" for i x and l :: "'s service_locator"
    by (rule Suc.IH[OF that m(2)])
  have "run_factory (requestService k) f l1 = Some y" if "run_factory (requestService n) f l1 = Some y" for f y and l1 :: "'s service_locator"
    using run_factory_mono[of "requestService n" "requestService k"] req that by blast
  then show ?case using Suc.prems(1) m(1) by (auto split: request_start.splits prod.splits option.splits)
qed simp

text \<open>Every request ends: each nested factory call adds an identifier to the pending ones, and
  there are finitely many identifiers.\<close>

lemma finite_uids: "finite (UNIV :: uid set)"
proof -
  have "(UNIV :: uid set) = (\<lambda>(a, b). UID a b) ` UNIV" by (auto simp: image_iff) (metis uid.exhaust)
  then show ?thesis by (metis finite finite_imageI)
qed

definition answers :: "uid \<Rightarrow> 's service_locator \<Rightarrow> bool" where
  "answers i l \<longleftrightarrow> (\<exists>fuel x. requestService fuel i l = Some x)"

lemma factory_answers:
  fixes l :: "'s service_locator"
  assumes "\<And>i (l :: 's service_locator). locator_ok l \<Longrightarrow> pending_services l = p \<Longrightarrow> answers i l" "locator_ok l" "pending_services l = p"
  shows "\<exists>fuel x. run_factory (requestService fuel) f l = Some x"
  using assms(2,3)
proof (induction f arbitrary: l)
  case (Call_Request i k)
  obtain n r l1 where 1: "requestService n i l = Some (r, l1)"
    using assms(1)[OF Call_Request.prems, of i] by (auto simp: answers_def)
  have e: "extends l l1" using request_extends[OF 1 Call_Request.prems(1)] by blast
  then have "pending_services l1 = p" using Call_Request.prems(2) by (simp add: extends_def)
  from Call_Request.IH[OF rangeI extends_ok[OF e] this, of r]
  obtain m x where 2: "run_factory (requestService m) (k r) l1 = Some x" by blast
  have "requestService (max n m) i l = Some (r, l1)" by (rule request_mono[OF 1]) simp
  moreover have "run_factory (requestService (max n m)) (k r) l1 = Some x"
    by (rule run_factory_mono[OF _ 2]) (rule request_mono, assumption, simp)
  ultimately show ?case by (intro exI[of _ "max n m"] exI[of _ x]) simp
next
  case (Call_Find i k)
  then show ?case by auto
next
  case (Call_Register i f k)
  obtain e l1 where e: "registerServiceFactory i f l = (e, l1)" by force
  have 1: "extends l l1" by (rule extends_register[OF Call_Register.prems(1) e])
  then show ?case using Call_Register.IH(2)[OF rangeI extends_ok[OF 1]] Call_Register.prems(2) e by (auto simp: extends_def)
qed auto

lemma request_answers: "locator_ok l \<Longrightarrow> answers i l"
proof (induction "card (- set (pending_services l))" arbitrary: i l rule: less_induct)
  case less
  obtain st l0 where b: "request_begin i l = (st, l0)" by force
  show ?case
  proof (cases st)
    case (Call_Factory f)
    note c = request_begin_cases(3)[OF b[unfolded Call_Factory]]
    have ok: "locator_ok l0" using c less.prems by (auto simp: locator_ok_def)
    have "finite (- set (pending_services l))" by (rule finite_subset[OF _ finite_uids]) simp
    then have "card (- set (pending_services l0)) < card (- set (pending_services l))"
      using c by (intro psubset_card_mono) auto
    then obtain fuel x where "run_factory (requestService fuel) f l0 = Some x"
      using factory_answers[of "pending_services l0" l0 f] less.hyps ok by metis
    then have "requestService (Suc fuel) i l = Some (fst x, request_end i (fst x) (snd x))"
      using b Call_Factory by (simp add: split_beta)
    then show ?thesis unfolding answers_def by blast
  qed (use b in \<open>force simp: answers_def intro: exI[of _ "Suc 0"]\<close>)+
qed

section \<open>When a request succeeds\<close>

text \<open>The usual factory: it requests its dependencies one after the other and lets their
  exceptions through.\<close>

primrec deps_factory :: "uid list \<Rightarrow> 's \<Rightarrow> 's factory" where
  "deps_factory [] s = Return_Service s"
| "deps_factory (d # ds) s = Call_Request d (\<lambda>r. case r of Inl e \<Rightarrow> Throw_Error e | Inr _ \<Rightarrow> deps_factory ds s)"

definition plain_factories :: "(uid \<Rightarrow> uid list) \<Rightarrow> (uid \<Rightarrow> 's) \<Rightarrow> 's service_locator \<Rightarrow> bool" where
  "plain_factories deps svc l \<longleftrightarrow> (\<forall>i f. factory_map l i = Some f \<longrightarrow> f = deps_factory (deps i) (svc i))"

text \<open>A service can be started if it is active, or registered with dependencies that can be
  started: the dependency graph below it is complete and has no circle.\<close>

primrec startable_in :: "(uid \<Rightarrow> uid list) \<Rightarrow> 's service_locator \<Rightarrow> nat \<Rightarrow> uid \<Rightarrow> bool" where
  "startable_in deps l 0 i \<longleftrightarrow> active_services l i \<noteq> None"
| "startable_in deps l (Suc n) i \<longleftrightarrow> active_services l i \<noteq> None \<or>
     factory_map l i \<noteq> None \<and> list_all (startable_in deps l n) (deps i)"

definition startable :: "(uid \<Rightarrow> uid list) \<Rightarrow> 's service_locator \<Rightarrow> uid \<Rightarrow> bool" where
  "startable deps l i \<longleftrightarrow> (\<exists>n. startable_in deps l n i)"

lemma startable_in_Suc: "startable_in deps l n i \<Longrightarrow> startable_in deps l (Suc n) i"
  by (induction n arbitrary: i) (auto simp: list_all_iff)

lemma startable_in_mono: "startable_in deps l n i \<Longrightarrow> n \<le> m \<Longrightarrow> startable_in deps l m i"
proof (induction m)
  case (Suc m)
  then show ?case using startable_in_Suc[of deps l m i] by (cases "n = Suc m") auto
qed simp

lemma startable_all:
  assumes "\<forall>d \<in> set ds. startable deps l d"
  shows "\<exists>n. list_all (startable_in deps l n) ds"
  using assms
proof (induction ds)
  case (Cons d ds)
  then obtain n m where n: "startable_in deps l n d" "list_all (startable_in deps l m) ds" by (auto simp: startable_def)
  have "list_all (startable_in deps l (max n m)) (d # ds)"
    using startable_in_mono[OF n(1), of "max n m"] n(2) startable_in_mono[of deps l m _ "max n m"]
    by (auto simp: list_all_iff)
  then show ?case by blast
qed simp

text \<open>A later state, started from \<open>l\<close> with plain factories only.\<close>

definition started_from :: "(uid \<Rightarrow> uid list) \<Rightarrow> 's service_locator \<Rightarrow> 's service_locator \<Rightarrow> bool" where
  "started_from deps l l1 \<longleftrightarrow> locator_ok l1 \<and> active_services l \<subseteq>\<^sub>m active_services l1 \<and>
     factory_map l1 = factory_map l \<and> (\<forall>j. active_services l1 j \<noteq> None \<longrightarrow> startable deps l j)"

lemma startable_step: "factory_map l i \<noteq> None \<Longrightarrow> \<forall>d \<in> set (deps i). startable deps l d \<Longrightarrow> startable deps l i"
  using startable_all[of "deps i" deps l] startable_in.simps(2)[of deps l _ i] unfolding startable_def by blast

definition plain_error :: "svc_error + 's \<Rightarrow> bool" where
  "plain_error r \<longleftrightarrow> (\<forall>e. r = Inl e \<longrightarrow> e = Circular_Dependency \<or> e = Unresolved_Dependency)"

lemma deps_run_started:
  assumes req: "\<And>i l1 r l'. req i l1 = Some (r, l') \<Longrightarrow> started_from deps l l1 \<Longrightarrow>
      started_from deps l l' \<and> extends l1 l' \<and> plain_error r \<and> (isl r \<or> active_services l' i \<noteq> None)"
    and "run_factory req (deps_factory ds s) l1 = Some (r, l')" "started_from deps l l1"
  shows "started_from deps l l' \<and> plain_error r \<and> (isl r \<or> (\<forall>d \<in> set ds. startable deps l d))"
  using assms(2,3)
proof (induction ds arbitrary: l1)
  case (Cons d ds)
  then obtain r1 l2 where 1: "req d l1 = Some (r1, l2)"
      "run_factory req (case r1 of Inl e \<Rightarrow> Throw_Error e | Inr _ \<Rightarrow> deps_factory ds s) l2 = Some (r, l')"
    by (auto split: option.splits)
  note st = req[OF 1(1) Cons.prems(2)]
  show ?case
  proof (cases r1)
    case (Inl e)
    then show ?thesis using 1(2) st by auto
  next
    case (Inr s1)
    then have "startable deps l d" using st by (auto simp: started_from_def)
    then show ?thesis using Cons.IH[of l2] 1(2) Inr st by auto
  qed
qed (auto simp: plain_error_def)

lemma request_started:
  assumes plain: "plain_factories deps svc l"
  shows "requestService fuel i l1 = Some (r, l') \<Longrightarrow> started_from deps l l1 \<Longrightarrow>
    started_from deps l l' \<and> extends l1 l' \<and> plain_error r \<and> (isl r \<or> active_services l' i \<noteq> None)"
proof (induction fuel arbitrary: i l1 r l')
  case (Suc fuel)
  have ext: "extends l1 l' \<and> active_services l' i = (case r of Inl e \<Rightarrow> None | Inr s \<Rightarrow> Some s)"
    using request_extends[OF Suc.prems(1)] Suc.prems(2) by (simp add: started_from_def)
  then have act: "isl r \<or> active_services l' i \<noteq> None" by (cases r) auto
  obtain st l0 where b: "request_begin i l1 = (st, l0)" by force
  have "started_from deps l l' \<and> plain_error r"
  proof (cases st)
    case (Found s)
    then show ?thesis using Suc.prems b request_begin_cases(1)[of i l1 s l0] by (auto simp: plain_error_def)
  next
    case (Refused e)
    then have "r = Inl e" "l' = l1\<lparr>request_service_fail_logged := True\<rparr>" "e = Circular_Dependency \<or> e = Unresolved_Dependency"
      using Suc.prems b request_begin_cases(2)[of i l1 e l0] by (auto split: if_splits)
    then show ?thesis using Suc.prems(2) by (simp add: started_from_def plain_error_def locator_ok_def)
  next
    case (Call_Factory f)
    note c = request_begin_cases(3)[OF b[unfolded Call_Factory]]
    obtain l2 where l2: "run_factory (requestService fuel) f l0 = Some (r, l2)" "l' = request_end i r l2"
      using Suc.prems(1) b Call_Factory by (auto split: option.splits)
    have f: "f = deps_factory (deps i) (svc i)" and i: "factory_map l i \<noteq> None"
      using plain c Suc.prems(2) by (auto simp: plain_factories_def started_from_def)
    have "started_from deps l l0" using c Suc.prems(2) by (auto simp: started_from_def locator_ok_def)
    note d = deps_run_started[OF Suc.IH l2(1)[unfolded f] this]
    then have i': "isl r \<or> startable deps l i" using startable_step[OF i] by blast
    have "locator_ok l'" "active_services l \<subseteq>\<^sub>m active_services l'"
      using ext Suc.prems(2) by (auto simp: extends_def started_from_def intro: map_le_trans)
    moreover have "factory_map l' = factory_map l" using d l2(2) by (cases r) (simp_all add: request_end_def started_from_def)
    moreover have "startable deps l j" if "active_services l' j \<noteq> None" for j
      using d l2(2) i' that by (cases r) (auto simp: request_end_def started_from_def split: if_splits)
    ultimately show ?thesis using d by (simp add: started_from_def)
  qed
  then show ?case using ext act by simp
qed simp

text \<open>No pending service can be started with \<open>n\<close> nested requests: a circle below a service
  that can be started is impossible.\<close>

definition above_pending :: "(uid \<Rightarrow> uid list) \<Rightarrow> 's service_locator \<Rightarrow> nat \<Rightarrow> 's service_locator \<Rightarrow> bool" where
  "above_pending deps l n l1 \<longleftrightarrow> (\<forall>p \<in> set (pending_services l1). \<not> startable_in deps l n p)"

lemma deps_run_succeeds:
  assumes req: "\<And>i l1 r l'. req i l1 = Some (r, l') \<Longrightarrow> started_from deps l l1 \<Longrightarrow> above_pending deps l n l1 \<Longrightarrow>
      startable_in deps l n i \<Longrightarrow> \<not> isl r \<and> started_from deps l l' \<and> pending_services l' = pending_services l1"
    and "run_factory req (deps_factory ds s) l1 = Some (r, l')" "started_from deps l l1" "above_pending deps l n l1"
    "list_all (startable_in deps l n) ds"
  shows "\<not> isl r"
  using assms(2-)
proof (induction ds arbitrary: l1)
  case (Cons d ds)
  then obtain r1 l2 where 1: "req d l1 = Some (r1, l2)"
      "run_factory req (case r1 of Inl e \<Rightarrow> Throw_Error e | Inr _ \<Rightarrow> deps_factory ds s) l2 = Some (r, l')"
    by (auto split: option.splits)
  have st: "\<not> isl r1 \<and> started_from deps l l2 \<and> pending_services l2 = pending_services l1"
    by (rule req[OF 1(1) Cons.prems(2,3)]) (use Cons.prems(4) in simp)
  then obtain s1 where "r1 = Inr s1" by (cases r1) auto
  then show ?case using Cons.IH[of l2] 1(2) st Cons.prems(3,4) by (simp add: above_pending_def)
qed auto

lemma startable_succeeds:
  assumes plain: "plain_factories deps svc l"
  shows "requestService fuel i l1 = Some (r, l') \<Longrightarrow> started_from deps l l1 \<Longrightarrow> above_pending deps l n l1 \<Longrightarrow>
    startable_in deps l n i \<Longrightarrow> \<not> isl r"
proof (induction n arbitrary: fuel i l1 r l')
  case 0
  then obtain s where "active_services l1 i = Some s" by (auto simp: started_from_def map_le_def dom_def)
  then show ?case using 0(1) by (cases fuel) (auto simp: request_begin_def)
next
  case (Suc n)
  have weaken: "above_pending deps l n l2" if "above_pending deps l (Suc n) l2" for l2
    using that startable_in_Suc unfolding above_pending_def by blast
  show ?case
  proof (cases "startable_in deps l n i")
    case True
    then show ?thesis using Suc.IH[OF Suc.prems(1,2) weaken[OF Suc.prems(3)]] by blast
  next
    case False
    then have "\<not> startable_in deps l 0 i" using startable_in_mono[of deps l 0 i n] by blast
    then have i: "active_services l i = None" "factory_map l i \<noteq> None" "list_all (startable_in deps l n) (deps i)"
      using Suc.prems(4) by auto
    obtain fuel' where fuel: "fuel = Suc fuel'" using Suc.prems(1) by (cases fuel) auto
    obtain st l0 where b: "request_begin i l1 = (st, l0)" by force
    have p: "i \<notin> set (pending_services l1)" using Suc.prems(3,4) by (auto simp: above_pending_def)
    show ?thesis
    proof (cases st)
      case (Found s)
      then show ?thesis using Suc.prems(1) b fuel by auto
    next
      case (Refused e)
      then show ?thesis using request_begin_cases(2)[OF b[unfolded Refused]] p i(2) Suc.prems(2) by (auto simp: started_from_def)
    next
      case (Call_Factory f)
      note c = request_begin_cases(3)[OF b[unfolded Call_Factory]]
      obtain l2 where l2: "run_factory (requestService fuel') f l0 = Some (r, l2)"
        using Suc.prems(1) b Call_Factory fuel by (auto split: option.splits)
      have f: "f = deps_factory (deps i) (svc i)"
        using plain c Suc.prems(2) by (auto simp: plain_factories_def started_from_def)
      have s0: "started_from deps l l0" using c Suc.prems(2) by (auto simp: started_from_def locator_ok_def)
      have a0: "above_pending deps l n l0" using c weaken[OF Suc.prems(3)] False by (auto simp: above_pending_def)
      show ?thesis
      proof (rule deps_run_succeeds[OF _ l2[unfolded f] s0 a0 i(3)])
        fix j l3 r3 l4
        assume a: "requestService fuel' j l3 = Some (r3, l4)" "started_from deps l l3" "above_pending deps l n l3" "startable_in deps l n j"
        show "\<not> isl r3 \<and> started_from deps l l4 \<and> pending_services l4 = pending_services l3"
          using Suc.IH[OF a] request_started[OF plain a(1,2)] by (simp add: extends_def)
      qed
    qed
  qed
qed

lemma started_from_self: "locator_ok l \<Longrightarrow> started_from deps l l"
  by (auto simp: started_from_def startable_def intro: exI[of _ 0])

section \<open>Destruction\<close>

lemma destroy_rev:
  "distinct is \<Longrightarrow> set is = dom act \<Longrightarrow>
   \<exists>evs. destroy_services (rev is) act = Some evs \<and> map fst evs = rev is \<and>
     (\<forall>i A. (i, A) \<in> set evs \<longrightarrow> (\<exists>xs ys. is = xs @ i # ys \<and> A = act |` set xs))"
proof (induction "is" arbitrary: act rule: rev_induct)
  case (snoc i "is")
  have d: "set is = dom (act(i := None))" "act i \<noteq> None" using snoc.prems by auto
  have "distinct is" using snoc.prems(1) by simp
  from snoc.IH[OF this d(1)] obtain evs where
    evs: "destroy_services (rev is) (act(i := None)) = Some evs" "map fst evs = rev is"
      "\<forall>j A. (j, A) \<in> set evs \<longrightarrow> (\<exists>xs ys. is = xs @ j # ys \<and> A = (act(i := None)) |` set xs)" by blast
  have "act(i := None) = act |` set is"
    using snoc.prems by (intro ext) (auto simp: restrict_map_def dom_def)
  moreover have "\<exists>xs ys. is @ [i] = xs @ j # ys \<and> A = act |` set xs" if j: "(j, A) \<in> set evs" for j A
  proof -
    obtain xs ys where xs: "is = xs @ j # ys" "A = (act(i := None)) |` set xs" using evs(3) j by blast
    have "i \<notin> set xs" using snoc.prems(1) xs(1) by auto
    then have "A = act |` set xs" using xs(2) by (auto simp: restrict_map_def fun_eq_iff)
    then show ?thesis using xs(1) by (intro exI[of _ xs] exI[of _ "ys @ [i]"]) simp
  qed
  ultimately show ?case using evs d(2)
    by (intro exI[of _ "(i, act(i := None)) # evs"]) auto
qed simp

lemma request_order:
  assumes "locator_ok l" "active_services l i = None" "requestService fuel i l = Some (Inr s, l')"
  shows "\<exists>xs. start_order l' = xs @ [i]"
proof -
  obtain fuel' where fuel: "fuel = Suc fuel'" using assms(3) by (cases fuel) auto
  obtain st l0 where b: "request_begin i l = (st, l0)" by force
  show ?thesis
  proof (cases st)
    case (Call_Factory f)
    then obtain l1 where "l' = request_end i (Inr s) l1" using assms(3) b fuel by (auto split: option.splits)
    then show ?thesis by (simp add: request_end_def)
  qed (use assms b fuel request_begin_cases(1)[of i l _ l0] in auto)
qed

section \<open>Guarantees\<close>

text \<open>A request always ends with a service or an exception, whatever the factories do, and
  it never loses a service: the services that were active stay, with their pointers, the
  requested one is active exactly if the request succeeds, and no request stays pending.\<close>

theorem requests_end:
  assumes "locator_ok l"
  shows "\<exists>fuel r l'. requestService fuel i l = Some (r, l') \<and> locator_ok l' \<and>
    active_services l \<subseteq>\<^sub>m active_services l' \<and> pending_services l' = pending_services l \<and>
    active_services l' i = (case r of Inl e \<Rightarrow> None | Inr s \<Rightarrow> Some s)"
proof -
  obtain fuel r l' where r: "requestService fuel i l = Some (r, l')"
    using request_answers[OF assms, of i] by (auto simp: answers_def)
  show ?thesis using r request_extends[OF r assms] by (auto simp: extends_def intro!: exI)
qed

text \<open>A locator with a chain of services, a circle and a service that needs an unknown one.\<close>

definition demo_deps :: "uid \<Rightarrow> uid list" where
  "demo_deps i = (if i = UID 0 1 then [UID 0 2, UID 0 3] else if i = UID 0 2 then [UID 0 3]
     else if i = UID 0 4 then [UID 0 3, UID 0 5] else if i = UID 0 5 then [UID 0 4] else if i = UID 0 6 then [UID 0 7] else [])"

definition demo_locator :: "uid service_locator" where
  "demo_locator = new_locator\<lparr>factory_map := (\<lambda>i. if i \<in> {UID 0 1, UID 0 2, UID 0 3, UID 0 4, UID 0 5, UID 0 6} then Some (deps_factory (demo_deps i) i) else None)\<rparr>"

lemma demo_ok: "locator_ok demo_locator"
  by (simp add: demo_locator_def new_locator_def locator_ok_def)

theorem requests_end_witness:
  "\<exists>fuel r l'. requestService fuel (UID 0 4) demo_locator = Some (r, l') \<and> locator_ok l' \<and>
    active_services demo_locator \<subseteq>\<^sub>m active_services l' \<and> pending_services l' = pending_services demo_locator \<and>
    active_services l' (UID 0 4) = (case r of Inl e \<Rightarrow> None | Inr s \<Rightarrow> Some s)"
  by (rule requests_end[OF demo_ok])


lemma demo_plain: "plain_factories demo_deps (\<lambda>i. i) demo_locator"
  by (simp add: plain_factories_def demo_locator_def)

lemmas demo_simps = demo_locator_def demo_deps_def new_locator_def request_begin_def request_end_def Let_def

lemma demo_runs:
  "map_option fst (requestService (Suc (Suc (Suc (Suc 0)))) (UID 0 1) demo_locator) = Some (Inr (UID 0 1))"
  "map_option fst (requestService (Suc (Suc (Suc (Suc 0)))) (UID 0 4) demo_locator) = Some (Inl Circular_Dependency)"
  "map_option fst (requestService (Suc (Suc (Suc (Suc 0)))) (UID 0 6) demo_locator) = Some (Inl Unresolved_Dependency)"
  by (simp_all add: demo_simps)


text \<open>A failed request may leave dependencies behind that were started on the way.\<close>

lemma failed_request_starts_dependency:
  "\<exists>l'. requestService (Suc (Suc (Suc (Suc 0)))) (UID 0 4) demo_locator = Some (Inl Circular_Dependency, l') \<and>
     active_services demo_locator (UID 0 3) = None \<and> active_services l' (UID 0 3) = Some (UID 0 3)"
  by (simp add: demo_simps)

text \<open>C16: Destruction runs in reverse order of starting, once per active service and without a
  failed assertion; while a service is destroyed it still finds every service that was active
  when its own start completed, in particular all it requested from its factory.\<close>

theorem destroyed_before_dependencies:
  assumes "locator_ok l" "active_services l i = None" "requestService fuel i l = Some (Inr s, l')" "extends l' l''"
  shows "\<exists>evs. destroyLocator l'' = Some evs \<and> map fst evs = rev (start_order l'') \<and>
    (\<exists>A. (i, A) \<in> set evs \<and> A = (active_services l')(i := None))"
proof -
  obtain xs where xs: "start_order l' = xs @ [i]" using request_order[OF assms(1-3)] by blast
  have ok: "locator_ok l'" "active_services l' i = Some s"
    using request_extends[OF assms(3,1)] by (auto simp: extends_def)
  have ok'': "distinct (start_order l'')" "set (start_order l'') = dom (active_services l'')"
      "active_services l' \<subseteq>\<^sub>m active_services l''"
    using assms(4) by (simp_all add: extends_def locator_ok_def)
  obtain ys where ys: "start_order l'' = xs @ i # ys" using assms(4) xs by (auto simp: extends_def prefix_def)
  obtain evs where evs: "destroyLocator l'' = Some evs" "map fst evs = rev (start_order l'')"
      "\<forall>i A. (i, A) \<in> set evs \<longrightarrow> (\<exists>xs ys. start_order l'' = xs @ i # ys \<and> A = active_services l'' |` set xs)"
    using destroy_rev[OF ok''(1,2)] by (auto simp: destroyLocator_def)
  have "i \<in> fst ` set evs" using evs(2) ys by (metis in_set_conv_decomp list.set_map set_rev)
  then obtain A where A: "(i, A) \<in> set evs" by force
  then obtain xs' ys' where x: "start_order l'' = xs' @ i # ys'" "A = active_services l'' |` set xs'" using evs(3) by blast
  have "xs' = xs" using x(1) ys ok''(1) by (metis append_Cons_eq_iff distinct.simps(2) distinct_append not_distinct_conv_prefix)
  moreover have "active_services l'' |` set xs = (active_services l')(i := None)"
  proof
    fix j
    have d: "set (xs @ [i]) = dom (active_services l')" "i \<notin> set xs" using ok(1) xs by (auto simp: locator_ok_def)
    show "(active_services l'' |` set xs) j = ((active_services l')(i := None)) j"
    proof (cases "j \<in> set xs")
      case True
      then have "j \<in> dom (active_services l')" "j \<noteq> i" using d by auto
      then show ?thesis using True ok''(3) by (simp add: map_le_def)
    next
      case False
      then have "j = i \<or> j \<notin> dom (active_services l')" using d by auto
      then have "j = i \<or> active_services l' j = None" by (simp only: domIff) blast
      then show ?thesis using False by auto
    qed
  qed
  ultimately show ?thesis using evs A x(2) by auto
qed

theorem destroyed_before_dependencies_witness:
  "\<exists>l'. requestService (Suc (Suc (Suc (Suc 0)))) (UID 0 1) demo_locator = Some (Inr (UID 0 1), l') \<and> active_services l' (UID 0 2) \<noteq> None \<and>
    (\<exists>evs. destroyLocator l' = Some evs \<and> map fst evs = [UID 0 1, UID 0 2, UID 0 3] \<and>
      (\<exists>A. (UID 0 1, A) \<in> set evs \<and> A = (active_services l')(UID 0 1 := None)))"
proof -
  obtain l' where l': "requestService (Suc (Suc (Suc (Suc 0)))) (UID 0 1) demo_locator = Some (Inr (UID 0 1), l')"
    "start_order l' = [UID 0 3, UID 0 2, UID 0 1]" "active_services l' (UID 0 2) \<noteq> None"
    by (simp add: demo_simps)
  have "active_services demo_locator (UID 0 1) = None" by (simp add: demo_locator_def new_locator_def)
  from destroyed_before_dependencies[OF demo_ok this l'(1)] request_extends[OF l'(1) demo_ok]
  have "\<exists>evs. destroyLocator l' = Some evs \<and> map fst evs = rev (start_order l') \<and>
      (\<exists>A. (UID 0 1, A) \<in> set evs \<and> A = (active_services l')(UID 0 1 := None))"
    using extends_refl extends_ok by blast
  then show ?thesis using l' by auto
qed

text \<open>While a factory runs the lock is free, and the pending services are those of all threads:
  a second thread that requests the same service meets it among them.\<close>

lemma pending_request_is_refused:
  assumes "request_begin i l = (Call_Factory f, l1)"
  shows "fst (request_begin i l1) = Refused Circular_Dependency"
  using request_begin_cases(3)[OF assms] by (simp add: request_begin_def Let_def)

end
