(* ===== verification/Message_Header.thy ===== *)
theory Message_Header
  imports Uid
begin

text \<open>
  Message headers (src/voxen/svc/messaging_private.hpp and .cpp, message_handling.cpp,
  message_sender.cpp): a header lives in one allocation with its payload, counts its references
  and keeps the status of a request in one atomic word, and links to the next message of an
  inbound queue. Headers are addressed by numbers in a store; a freed header is gone from it.
  \<open>None\<close> is undefined behaviour: an access to a freed header, or the call of a deleter that was
  never set. The size of an allocation and the futex calls are not modelled.
\<close>

section \<open>The atomic word\<close>

datatype request_status = Pending | Complete | Failed | Dropped

fun to_underlying :: "request_status \<Rightarrow> u32" where
  "to_underlying Pending = 0"
| "to_underlying Complete = 1"
| "to_underlying Failed = 2"
| "to_underlying Dropped = 3"

definition REF_MASK :: u32 where "REF_MASK = 0xFFFF"
definition WAIT_BIT :: u32 where "WAIT_BIT = push_bit 16 1"

definition atomicWordToStatus :: "u32 \<Rightarrow> request_status" where
  "atomicWordToStatus w =
     (let v = drop_bit 17 w AND 3
      in if v = 0 then Pending else if v = 1 then Complete else if v = 2 then Failed else Dropped)"

definition refcount :: "u32 \<Rightarrow> nat" where
  "refcount w = unat (w AND REF_MASK)"

lemma refcount_mod: "refcount w = unat w mod 65536"
proof -
  have "w AND REF_MASK = take_bit 16 w" by (simp add: REF_MASK_def take_bit_eq_mask mask_eq_exp_minus_1)
  then show ?thesis by (simp add: refcount_def take_bit_eq_mod unat_mod_distrib)
qed

lemma atomicWordToStatus_div: "atomicWordToStatus w =
  (let v = unat w div 131072 mod 4 in if v = 0 then Pending else if v = 1 then Complete else if v = 2 then Failed else Dropped)"
proof -
  have "unat (drop_bit 17 w AND 3) = unat w div 131072 mod 4"
  proof -
    have "drop_bit 17 w AND 3 = take_bit 2 (drop_bit 17 w)" by (simp add: take_bit_eq_mask mask_eq_exp_minus_1)
    then show ?thesis by (simp add: take_bit_eq_mod drop_bit_eq_div unat_mod_distrib unat_div_distrib)
  qed
  then have v: "unat (drop_bit 17 w AND 3) = unat w div 131072 mod 4" .
  let ?v = "drop_bit 17 w AND 3"
  have "(?v = 0) = (unat ?v = 0)" "(?v = 1) = (unat ?v = 1)" "(?v = 2) = (unat ?v = 2)"
    using word_unat_eq_iff[of ?v 0] word_unat_eq_iff[of ?v 1] word_unat_eq_iff[of ?v 2] by simp_all
  then show ?thesis unfolding atomicWordToStatus_def Let_def v by simp
qed

lemma div_mod_decr:
  assumes "0 < n mod (b :: nat)" "0 < b"
  shows "(n - 1) mod b = n mod b - 1" "(n - 1) div b = n div b"
proof -
  have "n mod b < b" by (rule mod_less_divisor[OF assms(2)])
  have n: "n - 1 = n div b * b + (n mod b - 1)" using assms(1) div_mult_mod_eq[of n b] by linarith
  show "(n - 1) mod b = n mod b - 1" "(n - 1) div b = n div b"
    unfolding n using \<open>n mod b < b\<close> assms(2) by (simp_all add: less_imp_diff_less)
qed

lemma div_mod_incr:
  assumes "n mod b + 1 < (b :: nat)"
  shows "(n + 1) mod b = n mod b + 1" "(n + 1) div b = n div b"
  using assms by (simp_all add: mod_Suc div_Suc)

lemma div_131072: "n div 131072 = n div 65536 div (2 :: nat)"
  using div_mult2_eq[of n 65536 2] by simp

lemma atomic_word_decr:
  assumes "0 < refcount w"
  shows "refcount (w - 1) = refcount w - 1 \<and> atomicWordToStatus (w - 1) = atomicWordToStatus w"
proof -
  have p: "0 < unat w mod 65536" using assms by (simp add: refcount_mod)
  then have "w \<noteq> 0" by auto
  then have u: "unat (w - 1) = unat w - 1" by (rule unat_minus_one)
  show ?thesis using div_mod_decr[OF p, OF zero_less_numeral]
    by (simp add: refcount_mod atomicWordToStatus_div u div_131072)
qed

lemma atomic_word_incr:
  assumes "refcount w < 65535"
  shows "refcount (w + 1) = refcount w + 1 \<and> atomicWordToStatus (w + 1) = atomicWordToStatus w"
proof -
  have p: "unat w mod 65536 + 1 < 65536" using assms by (simp add: refcount_mod)
  have "w \<noteq> - 1" using assms by (auto simp: refcount_def REF_MASK_def)
  then have "1 + w \<noteq> 0" by (metis add.inverse_inverse add_eq_0_iff)
  then have u: "unat (w + 1) = unat w + 1" using unatSuc[of w] by (simp add: add.commute)
  show ?thesis using div_mod_incr[OF p]
    by (simp add: refcount_mod atomicWordToStatus_div u div_131072)
qed

lemma refcount_bits: "refcount w = unat (take_bit 16 w)"
  by (simp add: refcount_mod take_bit_eq_mod unat_mod_distrib)

lemma atomicWordToStatus_bits: "atomicWordToStatus w = atomicWordToStatus v"
  if "take_bit 2 (drop_bit 17 w) = take_bit 2 (drop_bit 17 v)"
  using that by (simp add: atomicWordToStatus_def take_bit_eq_mask mask_eq_exp_minus_1)

lemma atomic_word_wait: "refcount (w OR WAIT_BIT) = refcount w \<and> atomicWordToStatus (w OR WAIT_BIT) = atomicWordToStatus w"
proof -
  have "take_bit 16 (w OR WAIT_BIT) = take_bit 16 w"
    by (rule word_eq_bitI) (auto simp: WAIT_BIT_def bit_simps bit_take_bit_iff bit_push_bit_iff)
  moreover have "take_bit 2 (drop_bit 17 (w OR WAIT_BIT)) = take_bit 2 (drop_bit 17 w)"
    by (rule word_eq_bitI) (auto simp: WAIT_BIT_def bit_simps bit_take_bit_iff bit_push_bit_iff bit_drop_bit_eq)
  ultimately show ?thesis by (auto simp: refcount_bits intro: atomicWordToStatus_bits)
qed

lemma atomic_word_complete:
  assumes "atomicWordToStatus w = Pending"
  shows "refcount (w OR push_bit 17 (to_underlying st)) = refcount w \<and> atomicWordToStatus (w OR push_bit 17 (to_underlying st)) = st"
proof -
  have "take_bit 16 (w OR push_bit 17 (to_underlying st)) = take_bit 16 w"
    by (rule word_eq_bitI) (auto simp: bit_simps bit_take_bit_iff bit_push_bit_iff)
  moreover have z: "drop_bit 17 w AND 3 = 0" using assms by (auto simp: atomicWordToStatus_def Let_def split: if_splits)
  have f: "drop_bit 17 (w OR push_bit 17 (to_underlying st)) AND 3 = (drop_bit 17 w AND 3) OR (drop_bit 17 (push_bit 17 (to_underlying st)) AND 3)"
    by (rule word_eq_bitI) (auto simp: bit_simps bit_drop_bit_eq)
  have "drop_bit 17 (push_bit 17 (to_underlying st)) = to_underlying st" by (cases st) simp_all
  then have "drop_bit 17 (w OR push_bit 17 (to_underlying st)) AND 3 = to_underlying st AND 3" using f z by simp
  then have "atomicWordToStatus (w OR push_bit 17 (to_underlying st)) = st"
    by (cases st) (simp_all add: atomicWordToStatus_def)
  ultimately show ?thesis by (simp add: refcount_bits)
qed

section \<open>Headers\<close>

type_synonym hdr = nat

text \<open>The bit fields of \<open>MessageAuxData\<close> and the optional blocks; \<open>deleter\<close> says whether the
  function pointer of the deleter block has been written.\<close>

record 'p message_header =
  from_uid :: uid
  msg_uid :: uid
  queue_link :: "hdr option"
  has_deleter_block :: bool
  has_request_block :: bool
  needs_completion_message :: bool
  is_completion_message :: bool
  atomic_word :: u32
  deleter :: bool
  exception :: "nat option"
  payload :: 'p

type_synonym 'p header_store = "hdr \<rightharpoonup> 'p message_header"

definition header_status :: "'p message_header \<Rightarrow> request_status" where
  "header_status m = atomicWordToStatus (atomic_word m)"

definition header_refs :: "'p message_header \<Rightarrow> nat" where
  "header_refs m = refcount (atomic_word m)"

text \<open>\<open>MessageHeader(bool deleter, bool request)\<close> with the payload constructed behind it.\<close>

definition new_header :: "bool \<Rightarrow> bool \<Rightarrow> 'p \<Rightarrow> 'p message_header" where
  "new_header del request p = \<lparr>from_uid = UID 0 0, msg_uid = UID 0 0, queue_link = None, has_deleter_block = del,
     has_request_block = request, needs_completion_message = False, is_completion_message = False, atomic_word = 1,
     deleter = False, exception = None, payload = p\<rparr>"

definition update_header :: "('p message_header \<Rightarrow> 'p message_header) \<Rightarrow> hdr \<Rightarrow> 'p header_store \<Rightarrow> 'p header_store option" where
  "update_header f h H = (case H h of None \<Rightarrow> None | Some m \<Rightarrow> Some (H(h \<mapsto> f m)))"

definition releaseRef :: "hdr \<Rightarrow> 'p header_store \<Rightarrow> 'p header_store option" where
  "releaseRef h H =
     (case H h of
        None \<Rightarrow> None
      | Some m \<Rightarrow>
          if atomic_word m AND REF_MASK = 1
          then (if has_deleter_block m \<and> \<not> deleter m then None else Some (H(h := None)))
          else Some (H(h \<mapsto> m\<lparr>atomic_word := atomic_word m - 1\<rparr>)))"

text \<open>\<open>makeMessageHeader\<close>: when the constructor of the payload throws (\<open>ctor = None\<close>) the storage
  is freed again; \<open>arbitrary_p\<close> stands for the bytes that are not a payload. The result is the
  header or \<open>None\<close> for the exception.\<close>

definition makeMessageHeader ::
  "'p \<Rightarrow> bool \<Rightarrow> bool \<Rightarrow> 'p option \<Rightarrow> hdr \<Rightarrow> 'p header_store \<Rightarrow> (hdr option \<times> 'p header_store) option" where
  "makeMessageHeader arbitrary_p del request ctor h H =
     (case ctor of
        Some p \<Rightarrow> Some (Some h, H(h \<mapsto> new_header del request p))
      | None \<Rightarrow> map_option (Pair None) (releaseRef h (H(h \<mapsto> new_header del request arbitrary_p))))"

section \<open>Handles\<close>

text \<open>\<open>RequestHandleBase\<close>: a header or null.\<close>

definition handle_new :: "hdr \<Rightarrow> 'p header_store \<Rightarrow> (hdr option \<times> 'p header_store) option" where
  "handle_new h H = map_option (Pair (Some h)) (update_header (\<lambda>m. m\<lparr>atomic_word := atomic_word m + 1\<rparr>) h H)"

definition handle_move :: "hdr option \<Rightarrow> hdr option \<times> hdr option" where
  "handle_move other = (other, None)"

definition handle_move_assign :: "hdr option \<Rightarrow> hdr option \<Rightarrow> hdr option \<times> hdr option" where
  "handle_move_assign this other = (other, this)"

definition handle_reset :: "hdr option \<Rightarrow> 'p header_store \<Rightarrow> (hdr option \<times> 'p header_store) option" where
  "handle_reset this H = (case this of None \<Rightarrow> Some (None, H) | Some h \<Rightarrow> map_option (Pair None) (releaseRef h H))"

definition handle_status :: "hdr option \<Rightarrow> 'p header_store \<Rightarrow> request_status option" where
  "handle_status this H = (case this of None \<Rightarrow> None | Some h \<Rightarrow> map_option header_status (H h))"

text \<open>The first part of \<open>wait\<close>: a status to return at once, or the wait flag is set and the
  thread sleeps until a later look at the status finds it changed.\<close>

definition wait_begin :: "hdr \<Rightarrow> 'p header_store \<Rightarrow> (request_status option \<times> 'p header_store) option" where
  "wait_begin h H =
     (case H h of
        None \<Rightarrow> None
      | Some m \<Rightarrow>
          if header_status m \<noteq> Pending then Some (Some (header_status m), H)
          else Some (None, H(h \<mapsto> m\<lparr>atomic_word := atomic_word m OR WAIT_BIT\<rparr>)))"

definition wait_again :: "hdr \<Rightarrow> 'p header_store \<Rightarrow> request_status option option" where
  "wait_again h H =
     (case H h of None \<Rightarrow> None | Some m \<Rightarrow> Some (if header_status m \<noteq> Pending then Some (header_status m) else None))"

text \<open>\<open>rethrowIfFailed\<close> moves the exception out.\<close>

definition rethrowIfFailed :: "hdr \<Rightarrow> 'p header_store \<Rightarrow> (nat option \<times> 'p header_store) option" where
  "rethrowIfFailed h H =
     (case H h of
        None \<Rightarrow> None
      | Some m \<Rightarrow>
          if header_status m = Failed \<and> exception m \<noteq> None
          then Some (exception m, H(h \<mapsto> m\<lparr>exception := None\<rparr>))
          else Some (None, H))"

text \<open>What handlers are given: \<open>MessageInfo\<close> and \<open>RequestCompletionInfo\<close>, whose
  \<open>rethrowIfFailed\<close> does not look at the status.\<close>

definition senderUid :: "hdr \<Rightarrow> 'p header_store \<Rightarrow> uid option" where
  "senderUid h H = map_option from_uid (H h)"

definition completion_status :: "hdr \<Rightarrow> 'p header_store \<Rightarrow> request_status option" where
  "completion_status h H = map_option header_status (H h)"

definition completion_rethrow :: "hdr \<Rightarrow> 'p header_store \<Rightarrow> (nat option \<times> 'p header_store) option" where
  "completion_rethrow h H =
     (case H h of
        None \<Rightarrow> None
      | Some m \<Rightarrow> Some (if exception m \<noteq> None then (exception m, H(h \<mapsto> m\<lparr>exception := None\<rparr>)) else (None, H)))"

text \<open>A payload whose constructor throws and whose type has a destructor: the deleter is called
  before it is set.\<close>

lemma throwing_constructor_calls_unset_deleter:
  "makeMessageHeader arbitrary_p True request None h H = None"
  by (simp add: makeMessageHeader_def releaseRef_def new_header_def REF_MASK_def)

section \<open>References\<close>

lemma mask_one: "(w AND REF_MASK = 1) = (refcount w = 1)"
  using word_unat_eq_iff[of "w AND REF_MASK" 1] by (simp add: refcount_def)

lemma releaseRef_last:
  assumes "H h = Some m" "header_refs m = 1" "has_deleter_block m \<longrightarrow> deleter m"
  shows "releaseRef h H = Some (H(h := None))"
  using assms by (simp add: releaseRef_def header_refs_def mask_one)

lemma releaseRef_more:
  assumes "H h = Some m" "1 < header_refs m"
  shows "releaseRef h H = Some (H(h \<mapsto> m\<lparr>atomic_word := atomic_word m - 1\<rparr>)) \<and>
    header_refs (m\<lparr>atomic_word := atomic_word m - 1\<rparr>) = header_refs m - 1 \<and>
    header_status (m\<lparr>atomic_word := atomic_word m - 1\<rparr>) = header_status m"
  using assms atomic_word_decr[of "atomic_word m"]
  by (simp add: releaseRef_def header_refs_def header_status_def mask_one)

lemma new_header_word: "header_refs (new_header d r p) = 1" "header_status (new_header d r p) = Pending"
  by (simp_all add: header_refs_def header_status_def new_header_def refcount_def REF_MASK_def atomicWordToStatus_def)

end
