(* ===== verification/Inbound_Queue.thy ===== *)
theory Inbound_Queue
  imports Message_Header
begin

text \<open>
  \<open>InboundQueue\<close> (src/voxen/svc/messaging_private.cpp): a queue of messages linked through their
  headers, with a pointer to the oldest and to the newest. \<open>linked\<close> relates such a queue to the
  list of its headers; each operation is shown to do to the list what its name says and to leave
  all headers of other queues alone. \<open>wait\<close> measures time and is not modelled.
\<close>

section \<open>Operations\<close>

record inbound_queue =
  oldest :: "hdr option"
  newest :: "hdr option"

definition new_queue :: inbound_queue where
  "new_queue = \<lparr>oldest = None, newest = None\<rparr>"

definition queue_push :: "hdr \<Rightarrow> inbound_queue \<Rightarrow> 'p header_store \<Rightarrow> (inbound_queue \<times> 'p header_store) option" where
  "queue_push h q H =
     (case update_header (\<lambda>m. m\<lparr>queue_link := None\<rparr>) h H of
        None \<Rightarrow> None
      | Some H \<Rightarrow>
          (case newest q of
             None \<Rightarrow> Some (\<lparr>oldest = Some h, newest = Some h\<rparr>, H)
           | Some n \<Rightarrow> map_option (Pair (q\<lparr>newest := Some h\<rparr>)) (update_header (\<lambda>m. m\<lparr>queue_link := Some h\<rparr>) n H)))"

definition queue_pop :: "inbound_queue \<Rightarrow> 'p header_store \<Rightarrow> (hdr option \<times> inbound_queue) option" where
  "queue_pop q H =
     (case oldest q of
        None \<Rightarrow> Some (None, q)
      | Some h \<Rightarrow>
          (case H h of
             None \<Rightarrow> None
           | Some m \<Rightarrow> Some (Some h, \<lparr>oldest = queue_link m, newest = (if queue_link m = None then None else newest q)\<rparr>)))"

text \<open>\<open>pop(msgs)\<close> with room for \<open>n\<close> more messages; the final test of \<open>m_oldest\<close> is
  \<open>drop_newest\<close>.\<close>

fun pop_loop :: "nat \<Rightarrow> inbound_queue \<Rightarrow> 'p header_store \<Rightarrow> (hdr list \<times> inbound_queue) option" where
  "pop_loop 0 q H = Some ([], q)"
| "pop_loop (Suc n) q H =
     (case oldest q of
        None \<Rightarrow> Some ([], q)
      | Some h \<Rightarrow>
          (case H h of
             None \<Rightarrow> None
           | Some m \<Rightarrow> map_option (\<lambda>(hs, q). (h # hs, q)) (pop_loop n (q\<lparr>oldest := queue_link m\<rparr>) H)))"

definition drop_newest :: "inbound_queue \<Rightarrow> inbound_queue" where
  "drop_newest q = (if oldest q = None then q\<lparr>newest := None\<rparr> else q)"

definition queue_pop_batch :: "nat \<Rightarrow> inbound_queue \<Rightarrow> 'p header_store \<Rightarrow> (hdr list \<times> inbound_queue) option" where
  "queue_pop_batch n q H = map_option (\<lambda>(hs, q). (hs, drop_newest q)) (pop_loop n q H)"

text \<open>\<open>clear\<close>: the loop may not end on a store that is no queue.\<close>

partial_function (option) clear_loop :: "hdr option \<Rightarrow> 'p header_store \<Rightarrow> 'p header_store option" where
  "clear_loop p H =
     (case p of
        None \<Rightarrow> Some H
      | Some h \<Rightarrow>
          (case H h of
             None \<Rightarrow> None
           | Some m \<Rightarrow> (case releaseRef h H of None \<Rightarrow> None | Some H' \<Rightarrow> clear_loop (queue_link m) H')))"

definition queue_clear :: "inbound_queue \<Rightarrow> 'p header_store \<Rightarrow> (inbound_queue \<times> 'p header_store) option" where
  "queue_clear q H = map_option (Pair new_queue) (clear_loop (oldest q) H)"

section \<open>The list of a queue\<close>

primrec linked :: "'p header_store \<Rightarrow> hdr option \<Rightarrow> hdr list \<Rightarrow> bool" where
  "linked H p [] \<longleftrightarrow> p = None"
| "linked H p (h # hs) \<longleftrightarrow> p = Some h \<and> (\<exists>m. H h = Some m \<and> linked H (queue_link m) hs)"

definition queue_rep :: "'p header_store \<Rightarrow> inbound_queue \<Rightarrow> hdr list \<Rightarrow> bool" where
  "queue_rep H q hs \<longleftrightarrow> linked H (oldest q) hs \<and> newest q = (if hs = [] then None else Some (last hs)) \<and> distinct hs"

lemma linked_live: "linked H p hs \<Longrightarrow> h \<in> set hs \<Longrightarrow> H h \<noteq> None"
  by (induction hs arbitrary: p) auto

lemma queue_live: "queue_rep H q hs \<Longrightarrow> h \<in> set hs \<Longrightarrow> H h \<noteq> None"
  by (auto simp: queue_rep_def dest: linked_live)

text \<open>A store that agrees on the links of these headers.\<close>

definition same_links :: "hdr set \<Rightarrow> 'p header_store \<Rightarrow> 'p header_store \<Rightarrow> bool" where
  "same_links A H H' \<longleftrightarrow> (\<forall>h \<in> A. map_option queue_link (H' h) = map_option queue_link (H h))"

lemma linked_same: "linked H p hs \<Longrightarrow> same_links (set hs) H H' \<Longrightarrow> linked H' p hs"
  by (induction hs arbitrary: p) (auto simp: same_links_def)

lemma queue_rep_same: "queue_rep H q hs \<Longrightarrow> same_links (set hs) H H' \<Longrightarrow> queue_rep H' q hs"
  by (auto simp: queue_rep_def intro: linked_same)

lemma linked_snoc:
  assumes "linked H p hs" "hs \<noteq> []" "distinct hs" "h \<notin> set hs" "H h = Some m" "queue_link m = None" "H (last hs) = Some mn"
  shows "linked (H(last hs \<mapsto> mn\<lparr>queue_link := Some h\<rparr>)) p (hs @ [h])"
  using assms
proof (induction hs arbitrary: p)
  case (Cons a hs)
  show ?case
  proof (cases "hs = []")
    case True
    then show ?thesis using Cons.prems by auto
  next
    case False
    then have "a \<noteq> last hs" using Cons.prems(3) last_in_set by fastforce
    then show ?thesis using Cons False by auto
  qed
qed simp

lemma push_rep:
  assumes "queue_rep H q hs" "h \<notin> set hs" "H h = Some m"
  shows "\<exists>q' H'. queue_push h q H = Some (q', H') \<and> queue_rep H' q' (hs @ [h]) \<and> dom H' = dom H \<and>
    same_links (- set (h # hs)) H H' \<and>
    (\<forall>k. map_option (queue_link_update (\<lambda>_. None)) (H' k) = map_option (queue_link_update (\<lambda>_. None)) (H k))"
proof (cases "hs = []")
  case True
  then show ?thesis using assms
    by (auto simp: queue_push_def update_header_def queue_rep_def same_links_def)
next
  case False
  let ?H = "H(h \<mapsto> m\<lparr>queue_link := None\<rparr>)"
  have l: "linked ?H (oldest q) hs" using assms by (auto simp: queue_rep_def same_links_def intro: linked_same)
  obtain mn where mn: "H (last hs) = Some mn" using queue_live[OF assms(1), of "last hs"] False by auto
  have ne: "last hs \<noteq> h" using assms(2) False last_in_set by metis
  have "linked (?H(last hs \<mapsto> mn\<lparr>queue_link := Some h\<rparr>)) (oldest q) (hs @ [h])"
    using assms False mn ne by (intro linked_snoc[OF l]) (auto simp: queue_rep_def)
  then show ?thesis using assms False mn ne
    by (auto simp: queue_push_def update_header_def queue_rep_def same_links_def)
qed

lemma pop_loop_rep:
  assumes "linked H (oldest q) hs"
  shows "\<exists>q'. pop_loop n q H = Some (take n hs, q') \<and> linked H (oldest q') (drop n hs) \<and> newest q' = newest q"
  using assms
proof (induction n arbitrary: q hs)
  case (Suc n)
  show ?case
  proof (cases hs)
    case (Cons h hs')
    then obtain m where m: "oldest q = Some h" "H h = Some m" "linked H (queue_link m) hs'" using Suc.prems by auto
    from Suc.IH[of "q\<lparr>oldest := queue_link m\<rparr>" hs'] m(3) obtain q' where
      "pop_loop n (q\<lparr>oldest := queue_link m\<rparr>) H = Some (take n hs', q')" "linked H (oldest q') (drop n hs')" "newest q' = newest q"
      by auto
    then show ?thesis using m Cons by auto
  qed (use Suc.prems in auto)
qed auto

lemma pop_batch_rep:
  assumes "queue_rep H q hs"
  shows "\<exists>q'. queue_pop_batch n q H = Some (take n hs, q') \<and> queue_rep H q' (drop n hs)"
proof -
  obtain q' where q': "pop_loop n q H = Some (take n hs, q')" "linked H (oldest q') (drop n hs)" "newest q' = newest q"
    using pop_loop_rep[of H q hs n] assms by (auto simp: queue_rep_def)
  have "queue_rep H (drop_newest q') (drop n hs)"
  proof (cases "drop n hs = []")
    case True
    then show ?thesis using q'(2) by (simp add: queue_rep_def drop_newest_def)
  next
    case False
    then obtain a ds where "drop n hs = a # ds" by (meson neq_Nil_conv)
    then have "oldest q' \<noteq> None" using q'(2) by simp
    moreover have "n < length hs" using False by simp
    then have "last (drop n hs) = last hs" "hs \<noteq> []" by auto
    ultimately have "last (drop n hs) = last hs" "hs \<noteq> []" "oldest q' \<noteq> None" by simp_all
    then show ?thesis using assms False q'(2,3) by (simp add: queue_rep_def drop_newest_def)
  qed
  then show ?thesis using q'(1) by (simp add: queue_pop_batch_def)
qed

lemma pop_rep:
  assumes "queue_rep H q hs"
  shows "\<exists>q'. queue_pop q H = Some (if hs = [] then None else Some (hd hs), q') \<and> queue_rep H q' (tl hs)"
proof (cases hs)
  case (Cons h hs')
  then obtain m where "H h = Some m" "linked H (queue_link m) hs'" "oldest q = Some h" using assms by (auto simp: queue_rep_def)
  then show ?thesis using assms Cons by (cases hs') (auto simp: queue_pop_def queue_rep_def)
qed (use assms in \<open>auto simp: queue_pop_def queue_rep_def\<close>)

text \<open>Clearing releases the reference of each header in order.\<close>

primrec release_all :: "hdr list \<Rightarrow> 'p header_store \<Rightarrow> 'p header_store option" where
  "release_all [] H = Some H"
| "release_all (h # hs) H = (case releaseRef h H of None \<Rightarrow> None | Some H' \<Rightarrow> release_all hs H')"

lemma releaseRef_links:
  "releaseRef h H = Some H' \<Longrightarrow> same_links (- {h}) H H' \<and> (H' h = None \<or> same_links UNIV H H')"
  by (auto simp: releaseRef_def same_links_def split: option.splits if_splits)

lemma clear_loop_rep:
  "linked H p hs \<Longrightarrow> distinct hs \<Longrightarrow> clear_loop p H = release_all hs H"
proof (induction hs arbitrary: p H)
  case Nil
  then show ?case by (simp add: clear_loop.simps)
next
  case (Cons h hs)
  then obtain m where m: "p = Some h" "H h = Some m" "linked H (queue_link m) hs" by auto
  show ?case
  proof (cases "releaseRef h H")
    case None
    then show ?thesis using m by (simp add: clear_loop.simps)
  next
    case (Some H')
    have "same_links (set hs) H H'"
      using releaseRef_links[OF Some] Cons.prems(2) by (auto simp: same_links_def)
    then have "linked H' (queue_link m) hs" by (rule linked_same[OF m(3)])
    then show ?thesis using Cons.IH Cons.prems(2) m Some by (subst clear_loop.simps) simp
  qed
qed

lemma clear_rep: "queue_rep H q hs \<Longrightarrow> queue_clear q H = map_option (Pair new_queue) (release_all hs H)"
  using clear_loop_rep[of H "oldest q" hs] by (simp add: queue_clear_def queue_rep_def)

lemma new_queue_rep: "queue_rep H new_queue []"
  by (simp add: queue_rep_def new_queue_def)

end
