(* ===== verification/Sorted_Table.thy ===== *)
theory Sorted_Table
  imports Prelude
begin

text \<open>
  Vectors of (key, value) pairs sorted by key and searched with \<open>std::table_lower_bound\<close>: the routes of
  a shard (src/voxen/svc/messaging_private.cpp) and the handler tables of a message queue
  (src/voxen/svc/message_queue.cpp) are kept in this way. On a sorted vector the result of the
  binary search is the number of smaller keys.
\<close>

type_synonym ('k, 'v) table = "('k \<times> 'v) list"

definition table_lower_bound :: "('k::linorder, 'v) table \<Rightarrow> 'k \<Rightarrow> nat" where
  "table_lower_bound xs k = length (takeWhile (\<lambda>it. fst it < k) xs)"

definition table_hit :: "('k::linorder, 'v) table \<Rightarrow> 'k \<Rightarrow> bool" where
  "table_hit xs k \<longleftrightarrow> table_lower_bound xs k < length xs \<and> fst (xs ! table_lower_bound xs k) = k"

definition table_find :: "('k::linorder, 'v) table \<Rightarrow> 'k \<Rightarrow> 'v option" where
  "table_find xs k = (if table_hit xs k then Some (snd (xs ! table_lower_bound xs k)) else None)"

definition table_insert :: "'k::linorder \<Rightarrow> 'v \<Rightarrow> ('k, 'v) table \<Rightarrow> ('k, 'v) table" where
  "table_insert k v xs = take (table_lower_bound xs k) xs @ (k, v) # drop (table_lower_bound xs k) xs"

definition table_assign :: "'k::linorder \<Rightarrow> 'v \<Rightarrow> ('k, 'v) table \<Rightarrow> ('k, 'v) table" where
  "table_assign k v xs = (if table_hit xs k then xs[table_lower_bound xs k := (k, v)] else table_insert k v xs)"

definition table_erase :: "'k::linorder \<Rightarrow> ('k, 'v) table \<Rightarrow> ('k, 'v) table" where
  "table_erase k xs = (if table_hit xs k then take (table_lower_bound xs k) xs @ drop (Suc (table_lower_bound xs k)) xs else xs)"

definition table_ok :: "('k::linorder, 'v) table \<Rightarrow> bool" where
  "table_ok xs \<longleftrightarrow> sorted_wrt (<) (map fst xs)"

text \<open>A sorted vector splits at the lower bound into smaller keys, at most one equal one, and
  larger keys.\<close>

lemma table_split:
  assumes "table_ok xs"
  obtains as bs where "xs = as @ bs" "table_lower_bound xs k = length as" "\<forall>it \<in> set as. fst it < k"
    "\<not> table_hit xs k" "\<forall>it \<in> set bs. k < fst it"
  | as v bs where "xs = as @ (k, v) # bs" "table_lower_bound xs k = length as" "\<forall>it \<in> set as. fst it < k"
    "table_hit xs k" "\<forall>it \<in> set bs. k < fst it"
proof -
  let ?as = "takeWhile (\<lambda>it. fst it < k) xs" and ?ds = "dropWhile (\<lambda>it. fst it < k) xs"
  have xs: "xs = ?as @ ?ds" "table_lower_bound xs k = length ?as" by (simp_all add: table_lower_bound_def)
  have as: "\<forall>it \<in> set ?as. fst it < k" by (auto dest: set_takeWhileD)
  have s: "sorted_wrt (<) (map fst ?ds)" using assms by (simp add: table_ok_def sorted_wrt_map sorted_wrt_dropWhile)
  show thesis
  proof (cases ?ds)
    case Nil
    then have "table_lower_bound xs k = length xs" using xs by (metis append_Nil2)
    then have "\<not> table_hit xs k" by (simp add: table_hit_def)
    then show ?thesis using that(1)[of ?as "[]"] xs as Nil by simp
  next
    case (Cons it ds)
    have n: "\<not> fst it < k" using hd_dropWhile[of "\<lambda>it. fst it < k" xs] Cons by simp
    have hit: "table_hit xs k = (fst it = k)"
      using xs Cons by (metis length_append length_Cons less_add_same_cancel1 nth_append_length table_hit_def zero_less_Suc)
    show ?thesis
    proof (cases "fst it = k")
      case True
      then have "\<forall>x \<in> set ds. k < fst x" using s Cons by auto
      then show ?thesis using that(2)[of ?as "snd it" ds] xs as Cons True hit by (metis prod.collapse)
    next
      case False
      then have "\<forall>x \<in> set (it # ds). k < fst x" using s Cons n by auto
      then show ?thesis using that(1)[of ?as "it # ds"] xs as Cons False hit by metis
    qed
  qed
qed

lemma map_of_small: "\<forall>it \<in> set xs. fst it < (k :: 'k::linorder) \<Longrightarrow> map_of xs k = None"
  by (induction xs) auto

lemma map_of_large: "\<forall>it \<in> set xs. (k :: 'k::linorder) < fst it \<Longrightarrow> map_of xs k = None"
  by (induction xs) auto

lemma table_find: "table_ok xs \<Longrightarrow> table_find xs k = map_of xs k"
  by (erule table_split[of xs k]) (simp_all add: table_find_def table_hit_def map_add_def map_of_small map_of_large)

lemma table_hit: "table_ok xs \<Longrightarrow> table_hit xs k = (map_of xs k \<noteq> None)"
  by (erule table_split[of xs k]) (simp_all add: map_add_def map_of_small map_of_large)

lemma table_insert:
  assumes "table_ok xs" "\<not> table_hit xs k"
  shows "table_ok (table_insert k v xs) \<and> map_of (table_insert k v xs) = (map_of xs)(k \<mapsto> v)"
  using assms(1)
proof (cases rule: table_split[of xs k])
  case (1 as bs)
  then have "table_insert k v xs = as @ (k, v) # bs" by (simp add: table_insert_def)
  then show ?thesis using 1 assms(1)
    by (auto simp: table_ok_def sorted_wrt_append map_add_def fun_eq_iff map_of_small split: option.splits)
qed (use assms in simp)

lemma table_assign:
  assumes "table_ok xs"
  shows "table_ok (table_assign k v xs) \<and> map_of (table_assign k v xs) = (map_of xs)(k \<mapsto> v)"
  using assms
proof (cases rule: table_split[of xs k])
  case (1 as bs)
  then show ?thesis using table_insert[OF assms] by (simp add: table_assign_def)
next
  case (2 as w bs)
  then have "table_assign k v xs = as @ (k, v) # bs" by (simp add: table_assign_def)
  then show ?thesis using 2 assms
    by (auto simp: table_ok_def sorted_wrt_append map_add_def fun_eq_iff map_of_small split: option.splits)
qed

lemma table_erase:
  assumes "table_ok xs"
  shows "table_ok (table_erase k xs) \<and> map_of (table_erase k xs) = (map_of xs)(k := None)"
  using assms
proof (cases rule: table_split[of xs k])
  case (1 as bs)
  then show ?thesis using assms table_hit[OF assms, of k] by (simp add: table_erase_def fun_upd_idem)
next
  case (2 as w bs)
  then have "table_erase k xs = as @ bs" by (simp add: table_erase_def)
  then show ?thesis using 2 assms
    by (auto simp: table_ok_def sorted_wrt_append map_add_def fun_eq_iff map_of_small map_of_large split: option.splits)
qed

end
