(* ===== verification/Messaging.thy ===== *)
theory Messaging
  imports Inbound_Queue Sorted_Table
begin

text \<open>
  Messaging between agents (src/voxen/svc/messaging_private.cpp, message_queue.cpp,
  message_sender.cpp, messaging_service.cpp): the router with its shards of routes, the message
  queues of agents with their handler tables, sending, polling and completion of requests.

  The functions are cut where the code gives up its locks, so that operations of several
  threads can be interleaved (\<open>Messaging_Steps\<close>): a sender looks up the queue of the recipient
  and pushes the message in two critical sections. Handlers are the agents' code; a call of a
  handler is represented by its name and its outcome. \<open>None\<close> is undefined behaviour.
\<close>

section \<open>Router\<close>

record 'p router =
  headers :: "'p header_store"
  shards :: "nat \<Rightarrow> (uid, nat) table"
  queue_storage :: "inbound_queue list"
  free_queues :: "nat list"

definition NUM_SHARDS :: nat where "NUM_SHARDS = 512"

definition getShard :: "uid \<Rightarrow> nat" where
  "getShard i = unat (v1 i) mod NUM_SHARDS"

definition new_router :: "'p router" where
  "new_router = \<lparr>headers = Map.empty, shards = (\<lambda>_. []), queue_storage = [], free_queues = []\<rparr>"

definition findRoute :: "uid \<Rightarrow> 'p router \<Rightarrow> nat option" where
  "findRoute i r = table_find (shards r (getShard i)) i"

definition addRoute :: "uid \<Rightarrow> nat \<Rightarrow> 'p router \<Rightarrow> bool \<times> 'p router" where
  "addRoute i q r =
     (let routes = shards r (getShard i)
      in if table_hit routes i then (False, r)
         else (True, r\<lparr>shards := (shards r)(getShard i := table_insert i q routes)\<rparr>))"

definition removeRoute :: "uid \<Rightarrow> 'p router \<Rightarrow> nat option \<times> 'p router" where
  "removeRoute i r =
     (let routes = shards r (getShard i)
      in (table_find routes i, r\<lparr>shards := (shards r)(getShard i := table_erase i routes)\<rparr>))"

text \<open>\<open>registerAgent\<close>; a null result is the exception \<open>AlreadyRegistered\<close>.\<close>

definition take_queue :: "'p router \<Rightarrow> nat \<times> 'p router" where
  "take_queue r =
     (if free_queues r \<noteq> [] then (last (free_queues r), r\<lparr>free_queues := butlast (free_queues r)\<rparr>)
      else (length (queue_storage r), r\<lparr>queue_storage := queue_storage r @ [new_queue]\<rparr>))"

definition registerAgent :: "uid \<Rightarrow> 'p router \<Rightarrow> nat option \<times> 'p router" where
  "registerAgent i r =
     (case take_queue r of (q, r) \<Rightarrow>
        case addRoute i q r of (ok, r) \<Rightarrow>
          if ok then (Some q, r) else (None, r\<lparr>free_queues := free_queues r @ [q]\<rparr>))"

definition clearQueue :: "nat \<Rightarrow> 'p router \<Rightarrow> 'p router option" where
  "clearQueue q r =
     (case queue_clear (queue_storage r ! q) (headers r) of
        None \<Rightarrow> None
      | Some (qq, H) \<Rightarrow> Some (r\<lparr>queue_storage := (queue_storage r)[q := qq], headers := H\<rparr>))"

definition unregisterAgent :: "uid \<Rightarrow> 'p router \<Rightarrow> 'p router option" where
  "unregisterAgent i r =
     (case removeRoute i r of (q, r) \<Rightarrow>
        case q of
          None \<Rightarrow> Some r
        | Some q \<Rightarrow> map_option (\<lambda>r. r\<lparr>free_queues := free_queues r @ [q]\<rparr>) (clearQueue q r))"

definition pushTo :: "nat \<Rightarrow> hdr \<Rightarrow> 'p router \<Rightarrow> 'p router option" where
  "pushTo q h r =
     (case queue_push h (queue_storage r ! q) (headers r) of
        None \<Rightarrow> None
      | Some (qq, H) \<Rightarrow> Some (r\<lparr>queue_storage := (queue_storage r)[q := qq], headers := H\<rparr>))"

definition releaseMessage :: "hdr \<Rightarrow> 'p router \<Rightarrow> 'p router option" where
  "releaseMessage h r = map_option (\<lambda>H. r\<lparr>headers := H\<rparr>) (releaseRef h (headers r))"

section \<open>Completion and sending\<close>

text \<open>\<open>completeRequest\<close> up to the push: the status is written, and the queue the message goes
  back to is looked up; without one the reference is released.\<close>

definition complete_begin :: "hdr \<Rightarrow> request_status \<Rightarrow> 'p router \<Rightarrow> (nat option \<times> 'p router) option" where
  "complete_begin h st r =
     (case headers r h of
        None \<Rightarrow> None
      | Some m \<Rightarrow>
          let m = m\<lparr>atomic_word := atomic_word m OR push_bit 17 (to_underlying st)\<rparr>;
              m = (if needs_completion_message m then m\<lparr>is_completion_message := True\<rparr> else m);
              r = r\<lparr>headers := (headers r)(h \<mapsto> m)\<rparr>
          in case (if needs_completion_message m then findRoute (from_uid m) r else None) of
               Some q \<Rightarrow> Some (Some q, r)
             | None \<Rightarrow> map_option (Pair None) (releaseMessage h r))"

definition finish_push :: "hdr \<Rightarrow> (nat option \<times> 'p router) option \<Rightarrow> 'p router option" where
  "finish_push h qr =
     (case qr of None \<Rightarrow> None | Some (None, r) \<Rightarrow> Some r | Some (Some q, r) \<Rightarrow> pushTo q h r)"

definition completeRequest :: "hdr \<Rightarrow> request_status \<Rightarrow> 'p router \<Rightarrow> 'p router option" where
  "completeRequest h st r = finish_push h (complete_begin h st r)"

definition send_begin :: "uid \<Rightarrow> hdr \<Rightarrow> 'p router \<Rightarrow> (nat option \<times> 'p router) option" where
  "send_begin to_uid h r =
     (case findRoute to_uid r of
        Some q \<Rightarrow> Some (Some q, r)
      | None \<Rightarrow>
          (case headers r h of
             None \<Rightarrow> None
           | Some m \<Rightarrow> if has_request_block m then complete_begin h Dropped r else map_option (Pair None) (releaseMessage h r)))"

definition router_send :: "uid \<Rightarrow> hdr \<Rightarrow> 'p router \<Rightarrow> 'p router option" where
  "router_send to_uid h r = finish_push h (send_begin to_uid h r)"

text \<open>\<open>MessageSender::doSend\<close> before it calls the router, and \<open>doRequestWithCompletion\<close>.\<close>

definition address_message :: "uid \<Rightarrow> uid \<Rightarrow> bool \<Rightarrow> hdr \<Rightarrow> 'p router \<Rightarrow> 'p router option" where
  "address_message my_uid mid del h r =
     map_option (\<lambda>H. r\<lparr>headers := H\<rparr>)
       (update_header (\<lambda>m. if del then m\<lparr>from_uid := my_uid, msg_uid := mid, deleter := True\<rparr>
          else m\<lparr>from_uid := my_uid, msg_uid := mid\<rparr>) h (headers r))"

definition doSend :: "uid \<Rightarrow> uid \<Rightarrow> uid \<Rightarrow> bool \<Rightarrow> hdr \<Rightarrow> 'p router \<Rightarrow> 'p router option" where
  "doSend my_uid to_uid mid del h r =
     (case address_message my_uid mid del h r of None \<Rightarrow> None | Some r \<Rightarrow> router_send to_uid h r)"

definition doRequestWithCompletion :: "uid \<Rightarrow> uid \<Rightarrow> uid \<Rightarrow> bool \<Rightarrow> hdr \<Rightarrow> 'p router \<Rightarrow> 'p router option" where
  "doRequestWithCompletion my_uid to_uid mid del h r =
     (case update_header (\<lambda>m. m\<lparr>needs_completion_message := True\<rparr>) h (headers r) of
        None \<Rightarrow> None
      | Some H \<Rightarrow> doSend my_uid to_uid mid del h (r\<lparr>headers := H\<rparr>))"

section \<open>Message queues of agents\<close>

record 'f message_queue =
  my_uid :: uid
  inbound :: nat
  handlers :: "(uid, 'f) table"
  completion_handlers :: "(uid, 'f) table"

definition new_message_queue :: "uid \<Rightarrow> nat \<Rightarrow> 'f message_queue" where
  "new_message_queue i q = \<lparr>my_uid = i, inbound = q, handlers = [], completion_handlers = []\<rparr>"

definition doRegisterHandler :: "uid \<Rightarrow> 'f \<Rightarrow> 'f message_queue \<Rightarrow> 'f message_queue" where
  "doRegisterHandler mid f mq = mq\<lparr>handlers := table_assign mid f (handlers mq)\<rparr>"

definition doRegisterCompletionHandler :: "uid \<Rightarrow> 'f \<Rightarrow> 'f message_queue \<Rightarrow> 'f message_queue" where
  "doRegisterCompletionHandler mid f mq = mq\<lparr>completion_handlers := table_assign mid f (completion_handlers mq)\<rparr>"

definition doUnregisterHandler :: "uid \<Rightarrow> 'f message_queue \<Rightarrow> 'f message_queue" where
  "doUnregisterHandler mid mq = mq\<lparr>handlers := table_erase mid (handlers mq)\<rparr>"

definition doUnregisterCompletionHandler :: "uid \<Rightarrow> 'f message_queue \<Rightarrow> 'f message_queue" where
  "doUnregisterCompletionHandler mid mq = mq\<lparr>completion_handlers := table_erase mid (completion_handlers mq)\<rparr>"

text \<open>What \<open>pollMessages\<close> does with a popped message: the handler to call, then, depending on how
  the call ended, the rest. A handler that returns may have changed the payload.\<close>

datatype 'p outcome = Returned 'p | Threw 'p nat

definition handler_for :: "'f message_queue \<Rightarrow> 'p message_header \<Rightarrow> 'f option" where
  "handler_for mq m =
     (if is_completion_message m then table_find (completion_handlers mq) (msg_uid m)
      else table_find (handlers mq) (msg_uid m))"

fun outcome_payload :: "'p outcome \<Rightarrow> 'p" where
  "outcome_payload (Returned p) = p"
| "outcome_payload (Threw p e) = p"

definition write_outcome :: "hdr \<Rightarrow> 'p outcome option \<Rightarrow> 'p router \<Rightarrow> 'p router option" where
  "write_outcome h out r =
     (case out of
        None \<Rightarrow> Some r
      | Some o' \<Rightarrow> map_option (\<lambda>H. r\<lparr>headers := H\<rparr>) (update_header (\<lambda>m. m\<lparr>payload := outcome_payload o'\<rparr>) h (headers r)))"

text \<open>After the call: the queue a completed request goes back to, whether an exception leaves
  \<open>pollMessages\<close>, and the router.\<close>

definition after_handler :: "hdr \<Rightarrow> 'p outcome option \<Rightarrow> 'p router \<Rightarrow> (nat option \<times> nat option \<times> 'p router) option" where
  "after_handler h out r =
     (case headers r h of
        None \<Rightarrow> None
      | Some m \<Rightarrow>
          if is_completion_message m \<or> \<not> has_request_block m
          then map_option (\<lambda>r. (None, (case out of Some (Threw p e) \<Rightarrow> Some e | _ \<Rightarrow> None), r)) (releaseMessage h r)
          else map_option (\<lambda>(q, r). (q, None, r))
            (case out of
               None \<Rightarrow> complete_begin h Dropped r
             | Some (Returned p) \<Rightarrow> complete_begin h Complete r
             | Some (Threw p e) \<Rightarrow>
                 complete_begin h Failed (r\<lparr>headers := (headers r)(h \<mapsto> m\<lparr>exception := Some e\<rparr>)\<rparr>)))"

definition BATCH_SIZE :: nat where "BATCH_SIZE = 8"

definition popBatch :: "nat \<Rightarrow> 'p router \<Rightarrow> (hdr list \<times> 'p router) option" where
  "popBatch q r =
     (case queue_pop_batch BATCH_SIZE (queue_storage r ! q) (headers r) of
        None \<Rightarrow> None
      | Some (hs, qq) \<Rightarrow> Some (hs, r\<lparr>queue_storage := (queue_storage r)[q := qq]\<rparr>))"

text \<open>The whole of \<open>pollMessages\<close>, without interference: \<open>call f sender payload\<close> is the outcome
  of a handler. The result has the exception that left it, if any. \<open>fuel\<close> bounds the batches.\<close>

fun poll_batch ::
  "('f \<Rightarrow> uid \<Rightarrow> 'p \<Rightarrow> 'p outcome) \<Rightarrow> 'f message_queue \<Rightarrow> hdr list \<Rightarrow> 'p router \<Rightarrow> (nat option \<times> 'p router) option" where
  "poll_batch call mq [] r = Some (None, r)"
| "poll_batch call mq (h # hs) r =
     (case headers r h of
        None \<Rightarrow> None
      | Some m \<Rightarrow>
          let out = map_option (\<lambda>f. call f (from_uid m) (payload m)) (handler_for mq m)
          in case write_outcome h out r of
               None \<Rightarrow> None
             | Some r \<Rightarrow>
                 (case after_handler h out r of
                    None \<Rightarrow> None
                  | Some (q, e, r) \<Rightarrow>
                      (case finish_push h (Some (q, r)) of
                         None \<Rightarrow> None
                       | Some r \<Rightarrow> if e \<noteq> None then Some (e, r) else poll_batch call mq hs r)))"

primrec pollMessages ::
  "nat \<Rightarrow> ('f \<Rightarrow> uid \<Rightarrow> 'p \<Rightarrow> 'p outcome) \<Rightarrow> 'f message_queue \<Rightarrow> 'p router \<Rightarrow> (nat option \<times> 'p router) option" where
  "pollMessages 0 call mq r = None"
| "pollMessages (Suc fuel) call mq r =
     (case popBatch (inbound mq) r of
        None \<Rightarrow> None
      | Some (hs, r) \<Rightarrow>
          if hs = [] then Some (None, r)
          else (case poll_batch call mq hs r of
                  None \<Rightarrow> None
                | Some (e, r) \<Rightarrow> if e \<noteq> None then Some (e, r) else pollMessages fuel call mq r))"

end
