(* ===== verification/Messaging_Steps.thy ===== *)
theory Messaging_Steps
  imports Messaging "HOL-Library.Multiset"
begin

text \<open>
  Messaging as a step relation: any number of threads send messages, poll their agents' queues,
  register and unregister agents and use request handles, interleaved at the critical sections
  of \<open>Messaging\<close>. \<open>in_flight\<close> holds messages whose sender has found a queue and has not pushed
  yet, \<open>popped\<close> the rest of the batches agents are working on, \<open>lost\<close> the batches an exception
  left behind. \<open>destination\<close> remembers whom a message was sent to. The invariant counts who owns
  a message.
\<close>

section \<open>Steps\<close>

record ('p, 'f) msg_system =
  router :: "'p router"
  agents :: "uid \<rightharpoonup> 'f message_queue"
  popped :: "(uid \<times> hdr) list"
  in_flight :: "(nat \<times> hdr) list"
  handles :: "hdr list"
  lost :: "hdr list"
  destination :: "hdr \<rightharpoonup> uid"

definition new_msg_system :: "('p, 'f) msg_system" where
  "new_msg_system = \<lparr>router = new_router, agents = Map.empty, popped = [], in_flight = [], handles = [], lost = [],
     destination = Map.empty\<rparr>"

datatype send_kind = Plain | With_Handle | With_Completion

text \<open>\<open>send\<close>, \<open>requestWithHandle\<close> and \<open>requestWithCompletion\<close>, up to the push.\<close>

definition start_send ::
  "send_kind \<Rightarrow> uid \<Rightarrow> uid \<Rightarrow> uid \<Rightarrow> bool \<Rightarrow> 'p \<Rightarrow> hdr \<Rightarrow> 'p router \<Rightarrow> (nat option \<times> 'p router) option" where
  "start_send kind sender to_uid mid del p h r =
     (let m = new_header del (kind \<noteq> Plain) p;
          m = (if kind = With_Handle then m\<lparr>atomic_word := atomic_word m + 1\<rparr>
               else if kind = With_Completion then m\<lparr>needs_completion_message := True\<rparr> else m)
      in case address_message sender mid del h (r\<lparr>headers := (headers r)(h \<mapsto> m)\<rparr>) of
           None \<Rightarrow> None
         | Some r \<Rightarrow> send_begin to_uid h r)"

inductive msg_step :: "('p, 'f) msg_system \<Rightarrow> ('p, 'f) msg_system \<Rightarrow> bool" where
  step_register: "registerAgent i (router y) = (q, r) \<Longrightarrow>
     msg_step y (y\<lparr>router := r, agents := (case q of None \<Rightarrow> agents y | Some q \<Rightarrow> (agents y)(i \<mapsto> new_message_queue i q))\<rparr>)"
| step_unregister: "agents y i \<noteq> None \<Longrightarrow> i \<notin> fst ` set (popped y) \<Longrightarrow> unregisterAgent i (router y) = Some r \<Longrightarrow>
     msg_step y (y\<lparr>router := r, agents := (agents y)(i := None)\<rparr>)"
| step_handlers: "agents y i = Some mq \<Longrightarrow>
     mq' \<in> {doRegisterHandler mid f mq, doRegisterCompletionHandler mid f mq, doUnregisterHandler mid mq, doUnregisterCompletionHandler mid mq} \<Longrightarrow>
     msg_step y (y\<lparr>agents := (agents y)(i \<mapsto> mq')\<rparr>)"
| step_send: "headers (router y) h = None \<Longrightarrow> start_send kind sender to_uid mid del p h (router y) = Some (q, r) \<Longrightarrow>
     msg_step y (y\<lparr>router := r, in_flight := in_flight y @ (case q of None \<Rightarrow> [] | Some q \<Rightarrow> [(q, h)]),
       handles := (if kind = With_Handle then h # handles y else handles y), destination := (destination y)(h \<mapsto> to_uid)\<rparr>)"
| step_push: "in_flight y = xs @ (q, h) # zs \<Longrightarrow> pushTo q h (router y) = Some r \<Longrightarrow>
     msg_step y (y\<lparr>router := r, in_flight := xs @ zs\<rparr>)"
| step_pop: "agents y i = Some mq \<Longrightarrow> i \<notin> fst ` set (popped y) \<Longrightarrow> popBatch (inbound mq) (router y) = Some (hs, r) \<Longrightarrow>
     msg_step y (y\<lparr>router := r, popped := popped y @ map (Pair i) hs\<rparr>)"
| step_handle: "agents y i = Some mq \<Longrightarrow> popped y = xs @ (i, h) # zs \<Longrightarrow> i \<notin> fst ` set xs \<Longrightarrow>
     headers (router y) h = Some m \<Longrightarrow> (out = None) = (handler_for mq m = None) \<Longrightarrow>
     write_outcome h out (router y) = Some r1 \<Longrightarrow> after_handler h out r1 = Some (q, e, r) \<Longrightarrow>
     msg_step y (y\<lparr>router := r, in_flight := in_flight y @ (case q of None \<Rightarrow> [] | Some q \<Rightarrow> [(q, h)]),
       popped := xs @ (if e = None then zs else filter (\<lambda>ih. fst ih \<noteq> i) zs),
       lost := lost y @ (if e = None then [] else map snd (filter (\<lambda>ih. fst ih = i) zs))\<rparr>)"
| step_reset: "handles y = xs @ h # zs \<Longrightarrow> handle_reset (Some h) (headers (router y)) = Some (n, H) \<Longrightarrow>
     msg_step y (y\<lparr>router := (router y)\<lparr>headers := H\<rparr>, handles := xs @ zs\<rparr>)"
| step_wait: "h \<in> set (handles y) \<Longrightarrow> wait_begin h (headers (router y)) = Some (st, H) \<Longrightarrow>
     msg_step y (y\<lparr>router := (router y)\<lparr>headers := H\<rparr>\<rparr>)"
| step_rethrow: "h \<in> set (handles y) \<Longrightarrow> rethrowIfFailed h (headers (router y)) = Some (e, H) \<Longrightarrow>
     msg_step y (y\<lparr>router := (router y)\<lparr>headers := H\<rparr>\<rparr>)"

inductive msg_reachable :: "('p, 'f) msg_system \<Rightarrow> bool" where
  msg_start: "msg_reachable new_msg_system"
| msg_next: "msg_reachable y \<Longrightarrow> msg_step y y' \<Longrightarrow> msg_reachable y'"

inductive_cases msg_stepE: "msg_step y y'"

section \<open>Owners of a message\<close>

text \<open>\<open>c\<close>: the message travels, in a queue or on its way; \<open>d\<close>: a handle holds it.\<close>

definition header_ok :: "'p message_header \<Rightarrow> bool \<Rightarrow> bool \<Rightarrow> bool" where
  "header_ok m c d \<longleftrightarrow> (c \<or> d) \<and> header_refs m = of_bool c + of_bool d \<and> (has_deleter_block m \<longrightarrow> deleter m) \<and>
     (d \<longrightarrow> has_request_block m \<and> \<not> needs_completion_message m) \<and>
     (needs_completion_message m \<longrightarrow> has_request_block m) \<and> (is_completion_message m \<longrightarrow> needs_completion_message m) \<and>
     (c \<and> has_request_block m \<and> \<not> is_completion_message m \<longrightarrow> header_status m = Pending)"

definition owner_ok :: "'p header_store \<Rightarrow> hdr multiset \<Rightarrow> hdr set \<Rightarrow> hdr \<Rightarrow> bool" where
  "owner_ok H M D h \<longleftrightarrow> (case H h of None \<Rightarrow> h \<notin># M \<and> h \<notin> D | Some m \<Rightarrow> header_ok m (h \<in># M) (h \<in> D))"

definition owned :: "'p header_store \<Rightarrow> hdr multiset \<Rightarrow> hdr set \<Rightarrow> bool" where
  "owned H M D \<longleftrightarrow> (\<forall>h. count M h \<le> 1) \<and> (\<forall>h. owner_ok H M D h)"

text \<open>A change at one header: all others are judged as before.\<close>

lemma owned_change:
  assumes "owned H M D" "\<And>k. k \<noteq> h \<Longrightarrow> H' k = H k" "\<And>k. k \<noteq> h \<Longrightarrow> (k \<in># M') = (k \<in># M)"
    "\<And>k. k \<noteq> h \<Longrightarrow> (k \<in> D') = (k \<in> D)" "\<And>k. count M' k \<le> 1" "owner_ok H' M' D' h"
  shows "owned H' M' D'"
  unfolding owned_def
proof (intro conjI allI assms(5))
  fix k
  show "owner_ok H' M' D' k"
  proof (cases "k = h")
    case False
    have "owner_ok H M D k" using assms(1) by (simp add: owned_def)
    then show ?thesis unfolding owner_ok_def assms(2-4)[OF False] .
  qed (simp add: assms(6))
qed

lemma owned_live: "owned H M D \<Longrightarrow> h \<in># M \<or> h \<in> D \<Longrightarrow> \<exists>m. H h = Some m \<and> header_ok m (h \<in># M) (h \<in> D)"
  unfolding owned_def owner_ok_def by (metis option.case_eq_if option.collapse)

lemma owned_single: "owned H (add_mset h M) D \<Longrightarrow> h \<notin># M"
  unfolding owned_def by (metis count_add_mset count_greater_eq_Suc_zero_iff not_less_eq_eq One_nat_def Suc_le_mono)

text \<open>A change of one header that leaves its owners.\<close>

lemma owned_update:
  assumes "owned H M D" "H h = Some m" "header_ok m (h \<in># M) (h \<in> D) \<Longrightarrow> header_ok m' (h \<in># M) (h \<in> D)"
  shows "owned (H(h \<mapsto> m')) M D"
proof (rule owned_change[OF assms(1), where h = h])
  show "count M k \<le> 1" for k using assms(1) by (simp add: owned_def)
  have "owner_ok H M D h" using assms(1) by (simp add: owned_def)
  then show "owner_ok (H(h \<mapsto> m')) M D h" using assms(2,3) by (simp add: owner_ok_def)
qed simp_all

lemma owned_release:
  assumes "owned H (add_mset h M) D"
  shows "\<exists>H'. releaseRef h H = Some H' \<and> owned H' M D \<and> same_links (- {h}) H H'"
proof -
  obtain m where m: "H h = Some m" "header_ok m True (h \<in> D)" using owned_live[OF assms, of h] by auto
  have h: "h \<notin># M" by (rule owned_single[OF assms])
  have c: "\<forall>k. count M k \<le> 1" using assms unfolding owned_def by (metis count_add_mset le_SucI le_trans nat_le_linear)
  have r: "owned H' M D" if "\<And>k. k \<noteq> h \<Longrightarrow> H' k = H k" "case H' h of None \<Rightarrow> h \<notin> D | Some m \<Rightarrow> header_ok m False (h \<in> D)" for H'
    by (rule owned_change[OF assms, where h = h]) (use that c h in \<open>auto simp: owner_ok_def split: option.splits\<close>)
  show ?thesis
  proof (cases "h \<in> D")
    case True
    then have "1 < header_refs m" using m(2) by (simp add: header_ok_def)
    note u = releaseRef_more[where H = H and h = h, OF m(1) this]
    show ?thesis
      by (rule exI[of _ "H(h \<mapsto> m\<lparr>atomic_word := atomic_word m - 1\<rparr>)"], intro conjI)
        (use u m True in \<open>auto intro!: r simp: header_ok_def same_links_def\<close>)
  next
    case False
    then have "releaseRef h H = Some (H(h := None))" using m by (intro releaseRef_last) (auto simp: header_ok_def)
    then show ?thesis using False by (auto intro!: r simp: same_links_def)
  qed
qed

lemma owned_release_handle:
  assumes "owned H M D" "h \<in> D"
  shows "\<exists>H'. releaseRef h H = Some H' \<and> owned H' M (D - {h}) \<and> (h \<in># M \<longrightarrow> same_links UNIV H H') \<and> same_links (- {h}) H H'"
proof -
  obtain m where m: "H h = Some m" "header_ok m (h \<in># M) True" using owned_live[OF assms(1), of h] assms(2) by auto
  have c: "\<forall>k. count M k \<le> 1" using assms(1) by (simp add: owned_def)
  have r: "owned H' M (D - {h})" if "\<And>k. k \<noteq> h \<Longrightarrow> H' k = H k" "case H' h of None \<Rightarrow> h \<notin># M | Some m \<Rightarrow> header_ok m (h \<in># M) False" for H'
    by (rule owned_change[OF assms(1), where h = h]) (use that c in \<open>auto simp: owner_ok_def split: option.splits\<close>)
  show ?thesis
  proof (cases "h \<in># M")
    case True
    then have "1 < header_refs m" using m(2) by (simp add: header_ok_def)
    note u = releaseRef_more[where H = H and h = h, OF m(1) this]
    show ?thesis
      by (rule exI[of _ "H(h \<mapsto> m\<lparr>atomic_word := atomic_word m - 1\<rparr>)"], intro conjI)
        (use u m True in \<open>auto intro!: r simp: header_ok_def same_links_def\<close>)
  next
    case False
    then have "releaseRef h H = Some (H(h := None))" using m by (intro releaseRef_last) (auto simp: header_ok_def)
    then show ?thesis using False by (auto intro!: r simp: same_links_def)
  qed
qed

lemma owned_count: "owned H M D \<Longrightarrow> count M h \<le> 1"
  by (simp add: owned_def)

lemma owned_new:
  assumes "owned H M D" "H h = None" "header_ok m True (h \<in> D')" "D' = D \<or> D' = insert h D"
  shows "owned (H(h \<mapsto> m)) (add_mset h M) D'"
proof -
  have "owner_ok H M D h" using assms(1) by (simp add: owned_def)
  then have h: "h \<notin># M" "h \<notin> D" using assms(2) by (simp_all add: owner_ok_def)
  then have "count (add_mset h M) k \<le> 1" for k using owned_count[OF assms(1), of k] by (auto simp: not_in_iff)
  then show ?thesis using h assms(3,4) by (intro owned_change[OF assms(1), where h = h]) (auto simp: owner_ok_def)
qed

lemma owned_release_all:
  assumes "owned H (mset hs + M) D"
  shows "\<exists>H'. release_all hs H = Some H' \<and> owned H' M D \<and> same_links (- set hs) H H'"
  using assms
proof (induction hs arbitrary: H)
  case Nil
  then show ?case by (simp add: same_links_def)
next
  case (Cons h hs)
  then obtain H1 where 1: "releaseRef h H = Some H1" "owned H1 (mset hs + M) D" "same_links (- {h}) H H1"
    using owned_release[of H h "mset hs + M" D] by auto
  obtain H' where 2: "release_all hs H1 = Some H'" "owned H' M D" "same_links (- set hs) H1 H'"
    using Cons.IH[OF 1(2)] by blast
  have "same_links (- set (h # hs)) H H'" using 1(3) 2(3) by (auto simp: same_links_def)
  then show ?case using 1(1) 2 by auto
qed

text \<open>A store with other links.\<close>

lemma header_ok_link [simp]: "header_ok (m\<lparr>queue_link := l\<rparr>) c d = header_ok m c d"
  by (simp add: header_ok_def header_refs_def header_status_def)

lemma owned_links:
  assumes "owned H M D" "\<And>k. map_option (queue_link_update (\<lambda>_. None)) (H' k) = map_option (queue_link_update (\<lambda>_. None)) (H k)"
  shows "owned H' M D"
proof -
  have ok: "header_ok m' c d = header_ok m c d" if "queue_link_update (\<lambda>_. None) m' = queue_link_update (\<lambda>_. None) m"
    for m m' :: "'a message_header" and c d
  proof -
    have "header_ok m' c d = header_ok (m'\<lparr>queue_link := None\<rparr>) c d" by (rule header_ok_link[symmetric])
    also have "\<dots> = header_ok (m\<lparr>queue_link := None\<rparr>) c d" by (simp only: that)
    also have "\<dots> = header_ok m c d" by (rule header_ok_link)
    finally show ?thesis .
  qed
  have "owner_ok H' M D h = owner_ok H M D h" for h
  proof (cases "H h")
    case None
    then show ?thesis using assms(2)[of h] by (simp add: owner_ok_def)
  next
    case (Some m)
    then obtain m' where m': "H' h = Some m'" "queue_link_update (\<lambda>_. None) m' = queue_link_update (\<lambda>_. None) m"
      using assms(2)[of h] by auto
    show ?thesis unfolding owner_ok_def Some m'(1) option.case by (rule ok[OF m'(2)])
  qed
  then show ?thesis using assms(1) by (simp add: owned_def)
qed

section \<open>All queues\<close>

lemma concat_update:
  assumes "q < length qs"
  shows "mset (concat (qs[q := xs])) + mset (qs ! q) = mset (concat qs) + mset xs"
proof -
  have "concat qs = concat (take q qs) @ qs ! q @ concat (drop (Suc q) qs)"
    using arg_cong[OF id_take_nth_drop[OF assms], of concat] by simp
  then have "mset (concat qs) = mset (concat (take q qs)) + mset (qs ! q) + mset (concat (drop (Suc q) qs))" by (simp add: ac_simps)
  moreover have "mset (concat (qs[q := xs])) = mset (concat (take q qs)) + mset xs + mset (concat (drop (Suc q) qs))"
    using assms by (simp add: upd_conv_take_nth_drop ac_simps)
  ultimately show ?thesis by (simp add: ac_simps)
qed

lemma queues_same:
  assumes "list_all2 (queue_rep H) st qs" "same_links (set (concat qs)) H H'"
  shows "list_all2 (queue_rep H') st qs"
  unfolding list_all2_conv_all_nth
proof (intro conjI allI impI)
  show "length st = length qs" using assms(1) by (rule list_all2_lengthD)
  fix i assume i: "i < length st"
  then have "qs ! i \<in> set qs" using \<open>length st = length qs\<close> by simp
  then have "same_links (set (qs ! i)) H H'" using assms(2) by (auto simp: same_links_def)
  then show "queue_rep H' (st ! i) (qs ! i)" by (rule queue_rep_same[OF list_all2_nthD[OF assms(1) i]])
qed

lemma other_queue:
  assumes "q < length qs" "j < length qs" "j \<noteq> q" "x \<in> set (qs ! j)" "x \<in> set (qs ! q)"
  shows "1 < count (mset (concat qs)) x"
proof -
  have "mset (concat qs) = mset (concat (qs[q := []])) + mset (qs ! q)" using concat_update[OF assms(1), of "[]"] by simp
  moreover have "qs[q := []] ! j \<in> set (qs[q := []])" using assms(2) by (intro nth_mem) simp
  then have "x \<in># mset (concat (qs[q := []]))" using assms(3,4) by auto
  moreover have "x \<in># mset (qs ! q)" using assms(5) by simp
  ultimately have "0 < count (mset (concat (qs[q := []]))) x" "0 < count (mset (qs ! q)) x"
    "count (mset (concat qs)) x = count (mset (concat (qs[q := []]))) x + count (mset (qs ! q)) x" by simp_all
  then show ?thesis by linarith
qed

section \<open>The router\<close>

definition routed :: "'p router \<Rightarrow> hdr list list \<Rightarrow> bool" where
  "routed r qs \<longleftrightarrow> list_all2 (queue_rep (headers r)) (queue_storage r) qs"

definition same_routes :: "'p router \<Rightarrow> 'p router \<Rightarrow> bool" where
  "same_routes r r' \<longleftrightarrow> shards r' = shards r \<and> free_queues r' = free_queues r \<and>
     length (queue_storage r') = length (queue_storage r)"

lemma routed_length: "routed r qs \<Longrightarrow> length qs = length (queue_storage r)"
  by (simp add: routed_def list_all2_lengthD)

lemma not_queued:
  assumes "owned H (mset (concat qs) + add_mset h N) D" "x \<in> set (concat qs)"
  shows "x \<noteq> h"
  using assms(2) owned_count[OF assms(1), of h] by (auto simp: count_eq_zero_iff)

lemma update_queue:
  assumes "routed r qs" "q < length qs" "queue_rep H qq xs" "same_links (set (concat (qs[q := []]))) (headers r) H"
  shows "routed (r\<lparr>queue_storage := (queue_storage r)[q := qq], headers := H\<rparr>) (qs[q := xs])"
proof -
  have "queue_rep H ((queue_storage r)[q := qq] ! i) (qs[q := xs] ! i)" if "i < length qs" for i
  proof (cases "i = q")
    case True
    then show ?thesis using assms(2,3) routed_length[OF assms(1)] by simp
  next
    case False
    have "qs[q := []] ! i \<in> set (qs[q := []])" using that by (intro nth_mem) simp
    then have "same_links (set (qs ! i)) (headers r) H" using False assms(4) by (auto simp: same_links_def)
    then show ?thesis using assms(1) that False routed_length[OF assms(1)]
      by (auto simp: routed_def list_all2_conv_all_nth intro: queue_rep_same)
  qed
  then show ?thesis using routed_length[OF assms(1)] by (simp add: routed_def list_all2_conv_all_nth)
qed

lemma concat_cut: "q < length qs \<Longrightarrow> x \<in> set (concat (qs[q := []])) \<Longrightarrow> x \<in> set (concat qs)"
  using set_update_subset_insert[of qs q "[]"] by auto

lemma cut_disjoint:
  assumes "owned H (mset (concat qs) + N) D" "q < length qs" "x \<in> set (concat (qs[q := []]))"
  shows "x \<notin> set (qs ! q)"
proof
  assume x: "x \<in> set (qs ! q)"
  have "mset (concat qs) = mset (concat (qs[q := []])) + mset (qs ! q)" using concat_update[OF assms(2), of "[]"] by simp
  moreover have "x \<in># mset (concat (qs[q := []]))" "x \<in># mset (qs ! q)" using assms(3) x by simp_all
  then have "0 < count (mset (concat (qs[q := []]))) x" "0 < count (mset (qs ! q)) x" by simp_all
  moreover from calculation(1) have "count (mset (concat qs)) x = count (mset (concat (qs[q := []]))) x + count (mset (qs ! q)) x"
    by (simp only: count_union)
  ultimately show False using owned_count[OF assms(1), of x] unfolding count_union by linarith
qed

lemma pushTo_ok:
  assumes "routed r qs" "owned (headers r) (mset (concat qs) + add_mset h N) D" "q < length qs"
  shows "\<exists>r'. pushTo q h r = Some r' \<and> routed r' (qs[q := qs ! q @ [h]]) \<and> same_routes r r' \<and>
    owned (headers r') (mset (concat (qs[q := qs ! q @ [h]])) + N) D"
proof -
  have rep: "queue_rep (headers r) (queue_storage r ! q) (qs ! q)"
    using assms(1,3) routed_length[OF assms(1)] by (simp add: routed_def list_all2_conv_all_nth)
  have h: "h \<notin> set (concat qs)" using not_queued[OF assms(2)] by blast
  have "qs ! q \<in> set qs" using assms(3) by simp
  then have hq: "h \<notin> set (qs ! q)" using h by auto
  obtain m where "headers r h = Some m" using owned_live[OF assms(2), of h] by auto
  from push_rep[OF rep hq this] obtain q' H' where
    p: "queue_push h (queue_storage r ! q) (headers r) = Some (q', H')" "queue_rep H' q' (qs ! q @ [h])"
      "same_links (- set (h # qs ! q)) (headers r) H'"
      "\<forall>k. map_option (queue_link_update (\<lambda>_. None)) (H' k) = map_option (queue_link_update (\<lambda>_. None)) (headers r k)" by blast
  have "same_links (set (concat (qs[q := []]))) (headers r) H'"
    unfolding same_links_def
  proof
    fix x assume x: "x \<in> set (concat (qs[q := []]))"
    have "x \<notin> set (qs ! q)" by (rule cut_disjoint[OF assms(2,3) x])
    moreover have "x \<noteq> h" using concat_cut[OF assms(3) x] h by blast
    ultimately show "map_option queue_link (H' x) = map_option queue_link (headers r x)" using p(3) by (simp add: same_links_def)
  qed
  from update_queue[OF assms(1,3) p(2) this]
  have 1: "routed (r\<lparr>queue_storage := (queue_storage r)[q := q'], headers := H'\<rparr>) (qs[q := qs ! q @ [h]])" .
  have "owned H' (mset (concat qs) + add_mset h N) D" by (rule owned_links[OF assms(2)]) (use p(4) in blast)
  moreover have "mset (concat (qs[q := qs ! q @ [h]])) + N = mset (concat qs) + add_mset h N"
    using concat_update[OF assms(3), of "qs ! q @ [h]"] by simp
  ultimately have "owned H' (mset (concat (qs[q := qs ! q @ [h]])) + N) D" by simp
  then show ?thesis using 1 p(1) by (auto simp: pushTo_def same_routes_def)
qed

lemma popBatch_ok:
  assumes "routed r qs" "q < length qs"
  shows "\<exists>r'. popBatch q r = Some (take BATCH_SIZE (qs ! q), r') \<and> routed r' (qs[q := drop BATCH_SIZE (qs ! q)]) \<and>
    same_routes r r' \<and> headers r' = headers r"
proof -
  have rep: "queue_rep (headers r) (queue_storage r ! q) (qs ! q)"
    using assms routed_length[OF assms(1)] by (simp add: routed_def list_all2_conv_all_nth)
  from pop_batch_rep[OF rep, of BATCH_SIZE] obtain q' where
    p: "queue_pop_batch BATCH_SIZE (queue_storage r ! q) (headers r) = Some (take BATCH_SIZE (qs ! q), q')"
      "queue_rep (headers r) q' (drop BATCH_SIZE (qs ! q))" by blast
  have "routed (r\<lparr>queue_storage := (queue_storage r)[q := q'], headers := headers r\<rparr>) (qs[q := drop BATCH_SIZE (qs ! q)])"
    by (rule update_queue[OF assms p(2)]) (simp add: same_links_def)
  then show ?thesis using p(1) by (auto simp: popBatch_def same_routes_def)
qed

lemma clearQueue_ok:
  assumes "routed r qs" "owned (headers r) (mset (concat qs) + N) D" "q < length qs"
  shows "\<exists>r'. clearQueue q r = Some r' \<and> routed r' (qs[q := []]) \<and> same_routes r r' \<and>
    owned (headers r') (mset (concat (qs[q := []])) + N) D"
proof -
  have rep: "queue_rep (headers r) (queue_storage r ! q) (qs ! q)"
    using assms(1,3) routed_length[OF assms(1)] by (simp add: routed_def list_all2_conv_all_nth)
  have "mset (concat qs) + N = mset (qs ! q) + (mset (concat (qs[q := []])) + N)"
    using concat_update[OF assms(3), of "[]"] by (simp add: ac_simps)
  then obtain H' where H': "release_all (qs ! q) (headers r) = Some H'" "owned H' (mset (concat (qs[q := []])) + N) D"
      "same_links (- set (qs ! q)) (headers r) H'"
    using owned_release_all[of "headers r" "qs ! q" "mset (concat (qs[q := []])) + N" D] assms(2) by metis
  have "same_links (set (concat (qs[q := []]))) (headers r) H'"
    using cut_disjoint[OF assms(2,3)] H'(3) unfolding same_links_def by blast
  from update_queue[OF assms(1,3) new_queue_rep this]
  show ?thesis using clear_rep[OF rep] H' by (auto simp: clearQueue_def same_routes_def)
qed

section \<open>Releasing and completing\<close>

text \<open>The header of a message that stops travelling, possibly just marked as complete.\<close>

definition same_owner :: "'p message_header \<Rightarrow> 'p message_header \<Rightarrow> bool" where
  "same_owner m m' \<longleftrightarrow> header_refs m' = header_refs m \<and> has_deleter_block m' = has_deleter_block m \<and> deleter m' = deleter m \<and>
     has_request_block m' = has_request_block m \<and> needs_completion_message m' = needs_completion_message m \<and>
     queue_link m' = queue_link m \<and> (is_completion_message m' \<longrightarrow> is_completion_message m \<or> needs_completion_message m)"

lemma same_owner_refl: "same_owner m m"
  by (simp add: same_owner_def)

lemma same_links_override: "same_links (- {h}) (H(h \<mapsto> m')) H' \<Longrightarrow> same_links (- {h}) H H'"
  by (simp add: same_links_def)

lemma owned_release_marked:
  assumes "owned H (add_mset h M) D" "H h = Some m" "same_owner m m'"
  shows "\<exists>H'. releaseRef h (H(h \<mapsto> m')) = Some H' \<and> owned H' M D \<and> same_links (- {h}) H H'"
proof -
  define m0 where "m0 = m'\<lparr>atomic_word := atomic_word m, is_completion_message := is_completion_message m\<rparr>"
  have ok: "header_ok m True (h \<in> D)" using owned_live[OF assms(1), of h] assms(2) by auto
  have h: "h \<notin># M" by (rule owned_single[OF assms(1)])
  have c: "\<forall>k. count M k \<le> 1" using assms(1) unfolding owned_def by (metis count_add_mset le_SucI le_trans nat_le_linear)
  have r: "owned H' M D" if "\<And>k. k \<noteq> h \<Longrightarrow> H' k = H k" "case H' h of None \<Rightarrow> h \<notin> D | Some m \<Rightarrow> header_ok m False (h \<in> D)" for H'
    by (rule owned_change[OF assms(1), where h = h]) (use that c h in \<open>auto simp: owner_ok_def split: option.splits\<close>)
  let ?H = "H(h \<mapsto> m')"
  show ?thesis
  proof (cases "h \<in> D")
    case True
    then have "1 < header_refs m'" using ok assms(3) by (simp add: header_ok_def same_owner_def)
    note u = releaseRef_more[where H = ?H and h = h, OF _ this]
    have "header_ok (m'\<lparr>atomic_word := atomic_word m' - 1\<rparr>) False True"
      using u ok assms(3) True by (auto simp: header_ok_def same_owner_def)
    then show ?thesis using u True assms(3)
      by (intro exI[of _ "?H(h \<mapsto> m'\<lparr>atomic_word := atomic_word m' - 1\<rparr>)"] conjI) (auto intro!: r simp: same_links_def)
  next
    case False
    then have "releaseRef h ?H = Some (?H(h := None))"
      using ok assms(3) by (intro releaseRef_last) (auto simp: header_ok_def same_owner_def)
    then show ?thesis using False by (auto intro!: r simp: same_links_def)
  qed
qed

lemma routed_headers:
  assumes "routed r qs" "same_links (set (concat qs)) (headers r) H"
  shows "routed (r\<lparr>headers := H\<rparr>) qs"
  using queues_same[OF _ assms(2)] assms(1) by (simp add: routed_def)

text \<open>One header changes; \<open>h\<close> is not in a queue.\<close>

lemma releaseMessage_ok:
  assumes "routed r qs" "owned (headers r) (mset (concat qs) + add_mset h N) D" "headers r h = Some m" "same_owner m m'"
  shows "\<exists>r'. releaseMessage h (r\<lparr>headers := (headers r)(h \<mapsto> m')\<rparr>) = Some r' \<and> routed r' qs \<and> same_routes r r' \<and>
    owned (headers r') (mset (concat qs) + N) D"
proof -
  have "owned (headers r) (add_mset h (mset (concat qs) + N)) D" using assms(2) by simp
  from owned_release_marked[OF this assms(3,4)] obtain H' where
    H': "releaseRef h ((headers r)(h \<mapsto> m')) = Some H'" "owned H' (mset (concat qs) + N) D" "same_links (- {h}) (headers r) H'" by blast
  have "same_links (set (concat qs)) (headers r) H'"
    using H'(3) not_queued[OF assms(2)] by (auto simp: same_links_def)
  from routed_headers[OF assms(1) this] show ?thesis using H' by (auto simp: releaseMessage_def same_routes_def)
qed

lemma release_plain_ok:
  assumes "routed r qs" "owned (headers r) (mset (concat qs) + add_mset h N) D"
  shows "\<exists>r'. releaseMessage h r = Some r' \<and> routed r' qs \<and> same_routes r r' \<and> owned (headers r') (mset (concat qs) + N) D"
proof -
  obtain m where m: "headers r h = Some m" using owned_live[OF assms(2), of h] by auto
  have "r\<lparr>headers := (headers r)(h \<mapsto> m)\<rparr> = r" using m by (simp add: fun_upd_idem)
  then show ?thesis using releaseMessage_ok[OF assms m same_owner_refl] by simp
qed

lemma findRoute_headers [simp]: "findRoute i (r\<lparr>headers := H\<rparr>) = findRoute i r"
  by (simp add: findRoute_def)

lemma same_routes_headers [simp]: "same_routes r (r\<lparr>headers := H\<rparr>)"
  by (simp add: same_routes_def)

text \<open>What becomes of a message that is completed: it travels back or is gone.\<close>

definition carried :: "hdr \<Rightarrow> nat option \<Rightarrow> hdr multiset" where
  "carried h q = (if q = None then {#} else {#h#})"

definition routes_below :: "'p router \<Rightarrow> bool" where
  "routes_below r \<longleftrightarrow> (\<forall>i q. findRoute i r = Some q \<longrightarrow> q < length (queue_storage r))"

lemma header_status_links: "header_refs (m\<lparr>is_completion_message := b\<rparr>) = header_refs m"
  by (simp add: header_refs_def)

lemma complete_begin_ok:
  assumes "routed r qs" "owned (headers r) (mset (concat qs) + add_mset h N) D" "headers r h = Some m" "same_owner m m1"
    "header_status m1 = Pending" "has_request_block m" "\<not> is_completion_message m" "routes_below r"
  shows "\<exists>q r'. complete_begin h st (r\<lparr>headers := (headers r)(h \<mapsto> m1)\<rparr>) = Some (q, r') \<and> routed r' qs \<and> same_routes r r' \<and>
    owned (headers r') (mset (concat qs) + (carried h q + N)) D \<and> (\<forall>q'. q = Some q' \<longrightarrow> q' < length qs)"
proof -
  define m2 where "m2 = m1\<lparr>atomic_word := atomic_word m1 OR push_bit 17 (to_underlying st)\<rparr>"
  define m3 where "m3 = (if needs_completion_message m2 then m2\<lparr>is_completion_message := True\<rparr> else m2)"
  have w: "header_refs m2 = header_refs m1" "header_status m2 = st"
    using atomic_word_complete[of "atomic_word m1" st] assms(5) by (simp_all add: m2_def header_refs_def header_status_def)
  then have so: "same_owner m m3"
    using assms(4,7) by (auto simp: m3_def m2_def same_owner_def header_status_links)
  have ok: "header_ok m True (h \<in> D)" using owned_live[OF assms(2), of h] assms(3) by auto
  let ?r = "r\<lparr>headers := (headers r)(h \<mapsto> m3)\<rparr>"
  have e: "complete_begin h st (r\<lparr>headers := (headers r)(h \<mapsto> m1)\<rparr>) =
      (case (if needs_completion_message m3 then findRoute (from_uid m3) r else None) of
         Some q \<Rightarrow> Some (Some q, ?r) | None \<Rightarrow> map_option (Pair None) (releaseMessage h ?r))"
    unfolding complete_begin_def Let_def m3_def m2_def by (simp cong: option.case_cong)
  show ?thesis
  proof (cases "if needs_completion_message m3 then findRoute (from_uid m3) r else None")
    case None
    obtain r' where "releaseMessage h ?r = Some r'" "routed r' qs" "same_routes r r'" "owned (headers r') (mset (concat qs) + N) D"
      using releaseMessage_ok[OF assms(1-3) so] by blast
    then show ?thesis using e None by (auto simp: carried_def)
  next
    case (Some q)
    then have n: "needs_completion_message m3" "findRoute (from_uid m3) r = Some q" by (auto split: if_splits)
    then have "header_ok m3 True (h \<in> D)"
      using ok so by (auto simp: header_ok_def same_owner_def m3_def split: if_splits)
    moreover have "h \<in># mset (concat qs) + add_mset h N" by simp
    ultimately have "owned ((headers r)(h \<mapsto> m3)) (mset (concat qs) + add_mset h N) D"
      by (intro owned_update[OF assms(2,3)]) simp
    moreover have "routed ?r qs"
      by (rule routed_headers[OF assms(1)]) (use not_queued[OF assms(2)] in \<open>auto simp: same_links_def\<close>)
    moreover have "q < length qs" using assms(8) n(2) routed_length[OF assms(1)] by (simp add: routes_below_def)
    ultimately show ?thesis using e Some by (auto simp: carried_def)
  qed
qed

section \<open>The invariant\<close>

definition traveling :: "('p, 'f) msg_system \<Rightarrow> hdr multiset" where
  "traveling y = mset (map snd (in_flight y)) + mset (map snd (popped y)) + mset (lost y)"

definition router_ok :: "'p router \<Rightarrow> bool" where
  "router_ok r \<longleftrightarrow> (\<forall>s. table_ok (shards r s)) \<and> (\<forall>i q. findRoute i r = Some q \<longrightarrow> q < length (queue_storage r)) \<and>
     (\<forall>q \<in> set (free_queues r). q < length (queue_storage r))"

definition msg_rep :: "('p, 'f) msg_system \<Rightarrow> hdr list list \<Rightarrow> bool" where
  "msg_rep y qs \<longleftrightarrow> routed (router y) qs \<and> owned (headers (router y)) (mset (concat qs) + traveling y) (set (handles y)) \<and>
     distinct (handles y) \<and> router_ok (router y) \<and> (\<forall>qh \<in> set (in_flight y). fst qh < length qs) \<and>
     (\<forall>i mq. agents y i = Some mq \<longrightarrow> inbound mq < length qs)"

lemma router_ok_same: "router_ok r \<Longrightarrow> same_routes r r' \<Longrightarrow> router_ok r'"
  by (simp add: router_ok_def same_routes_def findRoute_def)

lemma router_ok_routes: "router_ok r \<Longrightarrow> routes_below r"
  by (simp add: router_ok_def routes_below_def)

lemma router_ok_headers [simp]: "router_ok (r\<lparr>headers := H\<rparr>) = router_ok r"
  by (simp add: router_ok_def)

lemma new_system_rep: "msg_rep new_msg_system []"
  by (auto simp: msg_rep_def new_msg_system_def new_router_def routed_def owned_def owner_ok_def traveling_def router_ok_def
      findRoute_def table_find_def table_hit_def table_ok_def)

subsection \<open>Registering\<close>

lemma findRoute_map: "router_ok r \<Longrightarrow> findRoute i r = map_of (shards r (getShard i)) i"
  by (simp add: findRoute_def router_ok_def table_find)

lemma addRoute_ok:
  assumes "router_ok r" "q < length (queue_storage r)" "addRoute i q r = (ok, r')"
  shows "router_ok r' \<and> headers r' = headers r \<and> queue_storage r' = queue_storage r \<and> free_queues r' = free_queues r"
proof (cases "table_hit (shards r (getShard i)) i")
  case False
  have t: "table_ok (shards r (getShard i))" using assms(1) by (simp add: router_ok_def)
  note ins = table_insert[OF t False, of q]
  have r': "r' = r\<lparr>shards := (shards r)(getShard i := table_insert i q (shards r (getShard i)))\<rparr>"
    using assms(3) False by (simp add: addRoute_def Let_def)
  have "findRoute j r' = (if j = i then Some q else findRoute j r)" for j
    using ins by (cases "getShard j = getShard i") (auto simp: findRoute_def r' table_find t)
  then have "findRoute j r' = Some q' \<Longrightarrow> q' < length (queue_storage r)" for j q'
    using assms(1,2) by (auto simp: router_ok_def split: if_splits)
  then show ?thesis using assms(1) ins by (simp add: router_ok_def r')
qed (use assms in \<open>simp add: addRoute_def Let_def\<close>)

lemma removeRoute_ok:
  assumes "router_ok r" "removeRoute i r = (q, r')"
  shows "router_ok r' \<and> headers r' = headers r \<and> queue_storage r' = queue_storage r \<and> q = findRoute i r"
proof -
  have t: "table_ok (shards r (getShard i))" using assms(1) by (simp add: router_ok_def)
  note er = table_erase[OF t, of i]
  have r': "r' = r\<lparr>shards := (shards r)(getShard i := table_erase i (shards r (getShard i)))\<rparr>" "q = findRoute i r"
    using assms(2) by (simp_all add: removeRoute_def Let_def findRoute_def)
  have "findRoute j r' = (if j = i then None else findRoute j r)" for j
    using er by (cases "getShard j = getShard i") (auto simp: findRoute_def r'(1) table_find t)
  then have "findRoute j r' = Some q' \<Longrightarrow> q' < length (queue_storage r)" for j q'
    using assms(1) by (auto simp: router_ok_def split: if_splits)
  then show ?thesis using assms(1) er r' by (simp add: router_ok_def)
qed

lemma take_queue_ok:
  assumes "router_ok r" "routed r qs" "take_queue r = (q, r')"
  shows "\<exists>qs'. routed r' qs' \<and> router_ok r' \<and> headers r' = headers r \<and> q < length (queue_storage r') \<and>
    concat qs' = concat qs \<and> length qs \<le> length qs'"
proof (cases "free_queues r = []")
  case True
  then have r': "r' = r\<lparr>queue_storage := queue_storage r @ [new_queue]\<rparr>" "q = length (queue_storage r)"
    using assms(3) by (simp_all add: take_queue_def)
  have "routed r' (qs @ [[]])" using assms(2) new_queue_rep by (auto simp: routed_def r'(1) intro!: list_all2_appendI)
  moreover have "router_ok r'" using assms(1) by (auto simp: router_ok_def r'(1) findRoute_def less_SucI)
  ultimately show ?thesis using r' by (intro exI[of _ "qs @ [[]]"]) simp
next
  case False
  then have r': "r' = r\<lparr>free_queues := butlast (free_queues r)\<rparr>" "q = last (free_queues r)"
    using assms(3) by (simp_all add: take_queue_def)
  have "q < length (queue_storage r)" using assms(1) False r'(2) by (simp add: router_ok_def)
  moreover have "router_ok r'" using assms(1) by (auto simp: router_ok_def r'(1) findRoute_def dest: in_set_butlastD)
  ultimately show ?thesis using assms(2) r' by (intro exI[of _ qs]) (simp add: routed_def)
qed

lemma register_ok:
  assumes "router_ok r" "routed r qs" "registerAgent i r = (q, r')"
  shows "\<exists>qs'. routed r' qs' \<and> router_ok r' \<and> headers r' = headers r \<and> (\<forall>q'. q = Some q' \<longrightarrow> q' < length qs') \<and>
    concat qs' = concat qs \<and> length qs \<le> length qs'"
proof -
  obtain q0 r0 where t: "take_queue r = (q0, r0)" by force
  obtain ok r1 where a: "addRoute i q0 r0 = (ok, r1)" by force
  obtain qs' where qs': "routed r0 qs'" "router_ok r0" "headers r0 = headers r" "q0 < length (queue_storage r0)"
      "concat qs' = concat qs" "length qs \<le> length qs'" using take_queue_ok[OF assms(1,2) t] by blast
  note r1 = addRoute_ok[OF qs'(2,4) a]
  have "routed r1 qs'" using qs'(1) r1 by (simp add: routed_def)
  moreover have "router_ok (r1\<lparr>free_queues := free_queues r1 @ [q0]\<rparr>)"
    using r1 qs'(4) by (auto simp: router_ok_def findRoute_def)
  moreover have "r' = (if ok then r1 else r1\<lparr>free_queues := free_queues r1 @ [q0]\<rparr>)" "q = (if ok then Some q0 else None)"
    using assms(3) t a by (auto simp: registerAgent_def)
  ultimately show ?thesis using r1 qs' routed_length[OF qs'(1)] by (intro exI[of _ qs']) (auto simp: routed_def)
qed

lemma unregister_ok:
  assumes "router_ok r" "routed r qs" "owned (headers r) (mset (concat qs) + N) D"
  shows "\<exists>r' qs'. unregisterAgent i r = Some r' \<and> routed r' qs' \<and> router_ok r' \<and>
    owned (headers r') (mset (concat qs') + N) D \<and> length qs' = length qs"
proof -
  obtain q r0 where rm: "removeRoute i r = (q, r0)" by force
  note r0 = removeRoute_ok[OF assms(1) rm]
  have rt: "routed r0 qs" using assms(2) r0 by (simp add: routed_def)
  show ?thesis
  proof (cases q)
    case None
    then show ?thesis using rm r0 rt assms(3) by (simp add: unregisterAgent_def) blast
  next
    case (Some q')
    then have q': "q' < length qs" using r0 assms(1) routed_length[OF assms(2)] by (simp add: router_ok_def)
    have ow: "owned (headers r0) (mset (concat qs) + N) D" using assms(3) r0 by simp
    obtain r1 where r1: "clearQueue q' r0 = Some r1" "routed r1 (qs[q' := []])" "same_routes r0 r1"
        "owned (headers r1) (mset (concat (qs[q' := []])) + N) D" using clearQueue_ok[OF rt ow q'] by blast
    have ok1: "router_ok r1" using router_ok_same r0 r1(3) by blast
    let ?r = "r1\<lparr>free_queues := free_queues r1 @ [q']\<rparr>"
    have "router_ok ?r" using ok1 q' routed_length[OF r1(2)] by (auto simp: router_ok_def findRoute_def)
    moreover have "routed ?r (qs[q' := []])" using r1(2) by (simp add: routed_def)
    moreover have "unregisterAgent i r = Some ?r" using rm Some r1(1) by (simp add: unregisterAgent_def)
    ultimately show ?thesis using r1(4) by (intro exI[of _ ?r] exI[of _ "qs[q' := []]"]) simp
  qed
qed

subsection \<open>Handling and sending\<close>

lemma owner_payload: "header_ok (m\<lparr>payload := p\<rparr>) c d = header_ok m c d"
  by (simp add: header_ok_def header_refs_def header_status_def)

lemma write_outcome_ok:
  assumes "routed r qs" "owned (headers r) M D" "headers r h = Some m"
  shows "\<exists>r' m'. write_outcome h out r = Some r' \<and> routed r' qs \<and> same_routes r r' \<and> owned (headers r') M D \<and>
    headers r' h = Some m' \<and> has_request_block m' = has_request_block m \<and> is_completion_message m' = is_completion_message m \<and>
    header_status m' = header_status m"
proof (cases out)
  case None
  then show ?thesis using assms by (simp add: write_outcome_def same_routes_def)
next
  case (Some o')
  let ?H = "(headers r)(h \<mapsto> m\<lparr>payload := outcome_payload o'\<rparr>)"
  have "owned ?H M D" by (rule owned_update[OF assms(2,3)]) (simp add: owner_payload)
  moreover have "routed (r\<lparr>headers := ?H\<rparr>) qs" by (rule routed_headers[OF assms(1)]) (use assms(3) in \<open>simp add: same_links_def\<close>)
  ultimately show ?thesis using Some assms(3)
    by (simp add: write_outcome_def update_header_def header_status_def)
qed

lemma after_handler_ok:
  assumes "routed r qs" "owned (headers r) (mset (concat qs) + add_mset h N) D" "router_ok r"
  shows "\<exists>q e r'. after_handler h out r = Some (q, e, r') \<and> routed r' qs \<and> same_routes r r' \<and>
    owned (headers r') (mset (concat qs) + (carried h q + N)) D \<and> (\<forall>q'. q = Some q' \<longrightarrow> q' < length qs)"
proof -
  obtain m where m: "headers r h = Some m" "header_ok m True (h \<in> D)" using owned_live[OF assms(2), of h] by auto
  show ?thesis
  proof (cases "is_completion_message m \<or> \<not> has_request_block m")
    case True
    obtain r' where "releaseMessage h r = Some r'" "routed r' qs" "same_routes r r'" "owned (headers r') (mset (concat qs) + N) D"
      using release_plain_ok[OF assms(1,2)] by blast
    then show ?thesis using True m(1) by (auto simp: after_handler_def carried_def)
  next
    case False
    then have st: "header_status m = Pending" using m(2) by (simp add: header_ok_def)
    have rq: "has_request_block m" "\<not> is_completion_message m" using False by auto
    have self: "r\<lparr>headers := (headers r)(h \<mapsto> m)\<rparr> = r" using m(1) by (simp add: fun_upd_idem)
    note c = complete_begin_ok[OF assms(1,2) m(1) same_owner_refl st rq router_ok_routes[OF assms(3)], unfolded self]
    show ?thesis
    proof (cases "\<exists>p e. out = Some (Threw p e)")
      case True
      then obtain p e where out: "out = Some (Threw p e)" by blast
      have "same_owner m (m\<lparr>exception := Some e\<rparr>)" "header_status (m\<lparr>exception := Some e\<rparr>) = Pending"
        using st by (simp_all add: same_owner_def header_refs_def header_status_def)
      from complete_begin_ok[OF assms(1,2) m(1) this rq router_ok_routes[OF assms(3)], of Failed]
      obtain q r' where "complete_begin h Failed (r\<lparr>headers := (headers r)(h \<mapsto> m\<lparr>exception := Some e\<rparr>)\<rparr>) = Some (q, r')"
        "routed r' qs" "same_routes r r'" "owned (headers r') (mset (concat qs) + (carried h q + N)) D" "\<forall>q'. q = Some q' \<longrightarrow> q' < length qs"
        by blast
      then show ?thesis using False m(1) out by (auto simp: after_handler_def)
    next
      case no: False
      define st where "st = (if out = None then Dropped else Complete)"
      obtain q r' where c': "complete_begin h st r = Some (q, r')"
        "routed r' qs" "same_routes r r'" "owned (headers r') (mset (concat qs) + (carried h q + N)) D" "\<forall>q'. q = Some q' \<longrightarrow> q' < length qs"
        using c[of st] by blast
      have "after_handler h out r = Some (q, None, r')"
        using rq m(1) no c'(1) by (auto simp: after_handler_def st_def split: option.splits outcome.splits)
      then show ?thesis using c' by blast
    qed
  qed
qed

lemma start_send_ok:
  assumes "routed r qs" "owned (headers r) (mset (concat qs) + N) D" "router_ok r" "headers r h = None"
  shows "\<exists>q r'. start_send kind sender to_uid mid del p h r = Some (q, r') \<and> routed r' qs \<and> same_routes r r' \<and>
    owned (headers r') (mset (concat qs) + (carried h q + N)) (if kind = With_Handle then insert h D else D) \<and>
    (\<forall>q'. q = Some q' \<longrightarrow> q' < length qs)"
proof -
  let ?D = "if kind = With_Handle then insert h D else D"
  define m where "m = (let m = new_header del (kind \<noteq> Plain) p in if kind = With_Handle then m\<lparr>atomic_word := atomic_word m + 1\<rparr>
               else if kind = With_Completion then m\<lparr>needs_completion_message := True\<rparr> else m)"
  define m' where "m' = (if del then m\<lparr>from_uid := sender, msg_uid := mid, deleter := True\<rparr> else m\<lparr>from_uid := sender, msg_uid := mid\<rparr>)"
  have own: "owner_ok (headers r) (mset (concat qs) + N) D h" using assms(2) unfolding owned_def by blast
  then have hD: "h \<notin> D" using assms(4) by (simp add: owner_ok_def)
  have w: "header_refs m = (if kind = With_Handle then 2 else 1) \<and> header_status m = Pending"
    using new_header_word[of del "kind \<noteq> Plain" p] atomic_word_incr[of "atomic_word (new_header del (kind \<noteq> Plain) p)"]
    by (cases kind) (auto simp: m_def Let_def header_refs_def header_status_def)
  have f: "has_deleter_block m = del" "has_request_block m = (kind \<noteq> Plain)" "needs_completion_message m = (kind = With_Completion)"
      "\<not> is_completion_message m" "deleter m = False"
    by (cases kind; simp add: m_def new_header_def)+
  have ok: "header_ok m' True (h \<in> ?D)"
    using w f hD by (cases kind; cases del) (simp_all add: header_ok_def m'_def header_refs_def header_status_def)
  have f': "has_request_block m' = (kind \<noteq> Plain)" "\<not> is_completion_message m'" using f by (simp_all add: m'_def)
  define r1 where "r1 = r\<lparr>headers := (headers r)(h \<mapsto> m')\<rparr>"
  have "same_links (set (concat qs)) (headers r) ((headers r)(h \<mapsto> m'))"
  proof -
    have "h \<notin> set (concat qs)" using own assms(4) by (auto simp: owner_ok_def)
    then show ?thesis by (auto simp: same_links_def)
  qed
  from routed_headers[OF assms(1) this] have r1: "routed r1 qs" by (simp add: r1_def)
  have "owned (headers r1) (add_mset h (mset (concat qs) + N)) ?D"
    unfolding r1_def using owned_new[OF assms(2,4) ok] by simp
  then have ow1: "owned (headers r1) (mset (concat qs) + add_mset h N) ?D" by simp
  have ok1: "router_ok r1" using assms(3) by (simp add: r1_def)
  have h1: "headers r1 h = Some m'" by (simp add: r1_def)
  have sr: "same_routes r r1" by (simp add: r1_def)
  have e: "start_send kind sender to_uid mid del p h r = send_begin to_uid h r1"
    unfolding start_send_def Let_def r1_def m'_def m_def by (simp add: address_message_def update_header_def)
  show ?thesis
  proof (cases "findRoute to_uid r1")
    case (Some q)
    then have "q < length qs" using ok1 routed_length[OF r1] by (simp add: router_ok_def)
    then show ?thesis using e Some r1 ow1 sr by (auto simp: send_begin_def carried_def)
  next
    case None
    show ?thesis
    proof (cases "has_request_block m'")
      case True
      have st: "header_status m' = Pending" using ok True f' by (simp add: header_ok_def)
      have "r1\<lparr>headers := (headers r1)(h \<mapsto> m')\<rparr> = r1" using h1 by (simp add: fun_upd_idem)
      with complete_begin_ok[OF r1 ow1 h1 same_owner_refl st True f'(2) router_ok_routes[OF ok1], of Dropped]
      obtain q r' where "complete_begin h Dropped r1 = Some (q, r')" "routed r' qs" "same_routes r1 r'"
        "owned (headers r') (mset (concat qs) + (carried h q + N)) ?D" "\<forall>q'. q = Some q' \<longrightarrow> q' < length qs" by auto
      then show ?thesis using e None True h1 sr by (auto simp: send_begin_def same_routes_def)
    next
      case False
      obtain r' where "releaseMessage h r1 = Some r'" "routed r' qs" "same_routes r1 r'" "owned (headers r') (mset (concat qs) + N) ?D"
        using release_plain_ok[OF r1 ow1] by blast
      then show ?thesis using e None False h1 sr by (auto simp: send_begin_def carried_def same_routes_def)
    qed
  qed
qed

subsection \<open>Every step\<close>

lemma traveling_append:
  "traveling (y\<lparr>router := r, in_flight := in_flight y @ (case q of None \<Rightarrow> [] | Some q \<Rightarrow> [(q, h)]), handles := hs, destination := d\<rparr>) =
     carried h q + traveling y"
  by (simp add: traveling_def carried_def split: option.splits)

lemma header_update_rep:
  assumes "msg_rep y qs" "headers (router y) h = Some m" "queue_link m' = queue_link m"
    "\<And>c d. header_ok m c d \<Longrightarrow> header_ok m' c d"
  shows "msg_rep (y\<lparr>router := (router y)\<lparr>headers := (headers (router y))(h \<mapsto> m')\<rparr>\<rparr>) qs"
proof -
  let ?H = "(headers (router y))(h \<mapsto> m')"
  have "owned ?H (mset (concat qs) + traveling y) (set (handles y))"
    using assms(1,2,4) by (intro owned_update[where m = m]) (auto simp: msg_rep_def)
  moreover have "routed ((router y)\<lparr>headers := ?H\<rparr>) qs"
    using assms(1-3) by (intro routed_headers) (auto simp: msg_rep_def same_links_def)
  moreover have "traveling (y\<lparr>router := (router y)\<lparr>headers := ?H\<rparr>\<rparr>) = traveling y" by (simp add: traveling_def)
  ultimately show ?thesis using assms(1) by (simp add: msg_rep_def)
qed

lemma send_rep:
  assumes "msg_rep y qs" "headers (router y) h = None" "start_send kind sender to_uid mid del p h (router y) = Some (q, r)"
  shows "msg_rep (y\<lparr>router := r, in_flight := in_flight y @ (case q of None \<Rightarrow> [] | Some q \<Rightarrow> [(q, h)]),
       handles := (if kind = With_Handle then h # handles y else handles y), destination := (destination y)(h \<mapsto> to_uid)\<rparr>) qs"
proof -
  have y: "routed (router y) qs" "owned (headers (router y)) (mset (concat qs) + traveling y) (set (handles y))" "router_ok (router y)"
    using assms(1) by (simp_all add: msg_rep_def)
  have s: "routed r qs \<and> same_routes (router y) r \<and>
      owned (headers r) (mset (concat qs) + (carried h q + traveling y)) (if kind = With_Handle then insert h (set (handles y)) else set (handles y)) \<and>
      (\<forall>q'. q = Some q' \<longrightarrow> q' < length qs)"
    using start_send_ok[OF y assms(2), of kind sender to_uid mid del p] assms(3) by auto
  have "owner_ok (headers (router y)) (mset (concat qs) + traveling y) (set (handles y)) h" using y(2) unfolding owned_def by blast
  then have "h \<notin> set (handles y)" using assms(2) by (simp add: owner_ok_def)
  then show ?thesis using assms(1) s router_ok_same[OF y(3)]
    by (auto simp: msg_rep_def traveling_append split: option.splits)
qed

lemma push_rep_step:
  assumes "msg_rep y qs" "in_flight y = xs @ (q, h) # zs" "pushTo q h (router y) = Some r"
  shows "msg_rep (y\<lparr>router := r, in_flight := xs @ zs\<rparr>) (qs[q := qs ! q @ [h]])"
proof -
  let ?y = "y\<lparr>router := r, in_flight := xs @ zs\<rparr>"
  have t: "traveling y = add_mset h (traveling ?y)" by (simp add: traveling_def assms(2))
  have y: "routed (router y) qs" "owned (headers (router y)) (mset (concat qs) + add_mset h (traveling ?y)) (set (handles y))"
    "router_ok (router y)" "q < length qs" using assms(1,2) by (simp_all add: msg_rep_def t)
  have "routed r (qs[q := qs ! q @ [h]]) \<and> same_routes (router y) r \<and>
      owned (headers r) (mset (concat (qs[q := qs ! q @ [h]])) + traveling ?y) (set (handles y))"
    using pushTo_ok[OF y(1,2,4)] assms(3) by auto
  then show ?thesis using assms(1,2) router_ok_same[OF y(3)] by (simp add: msg_rep_def)
qed

lemma pop_rep_step:
  assumes "msg_rep y qs" "agents y i = Some mq" "popBatch (inbound mq) (router y) = Some (hs, r)"
  shows "msg_rep (y\<lparr>router := r, popped := popped y @ map (Pair i) hs\<rparr>) (qs[inbound mq := drop BATCH_SIZE (qs ! inbound mq)])"
proof -
  let ?y = "y\<lparr>router := r, popped := popped y @ map (Pair i) hs\<rparr>" and ?qs = "qs[inbound mq := drop BATCH_SIZE (qs ! inbound mq)]"
  have y: "routed (router y) qs" "inbound mq < length qs" "router_ok (router y)" using assms(1,2) by (auto simp: msg_rep_def)
  have p: "hs = take BATCH_SIZE (qs ! inbound mq) \<and> routed r ?qs \<and> same_routes (router y) r \<and> headers r = headers (router y)"
    using popBatch_ok[OF y(1,2)] assms(3) by auto
  have "mset (qs ! inbound mq) = mset hs + mset (drop BATCH_SIZE (qs ! inbound mq))"
    using p by (metis append_take_drop_id mset_append)
  then have "mset (concat ?qs) + mset hs = mset (concat qs)"
    using concat_update[OF y(2), of "drop BATCH_SIZE (qs ! inbound mq)"] by (simp add: ac_simps)
  moreover have "traveling ?y = mset hs + traveling y" by (simp add: traveling_def comp_def)
  ultimately have "mset (concat ?qs) + traveling ?y = mset (concat qs) + traveling y" by (simp flip: add.assoc)
  then show ?thesis using assms(1) p router_ok_same[OF y(3)] by (auto simp: msg_rep_def)
qed

lemma mset_filter_parts: "mset (filter P xs) + mset (filter (\<lambda>x. \<not> P x) xs) = mset xs"
  by (induction xs) auto

lemma handle_rep_step:
  assumes "msg_rep y qs" "popped y = xs @ (i, h) # zs" "write_outcome h out (router y) = Some r1" "after_handler h out r1 = Some (q, e, r)"
  shows "msg_rep (y\<lparr>router := r, in_flight := in_flight y @ (case q of None \<Rightarrow> [] | Some q \<Rightarrow> [(q, h)]),
       popped := xs @ (if e = None then zs else filter (\<lambda>ih. fst ih \<noteq> i) zs),
       lost := lost y @ (if e = None then [] else map snd (filter (\<lambda>ih. fst ih = i) zs))\<rparr>) qs" (is "msg_rep ?y qs")
proof -
  define N where "N = mset (map snd (in_flight y)) + mset (map snd (xs @ zs)) + mset (lost y)"
  have t: "traveling y = add_mset h N" by (simp add: traveling_def N_def assms(2))
  have "mset zs = mset (filter (\<lambda>ih. fst ih \<noteq> i) zs) + mset (filter (\<lambda>ih. fst ih = i) zs)"
    using mset_filter_parts[of "\<lambda>ih. fst ih = i" zs] by (simp add: ac_simps)
  then have "mset (map snd zs) = mset (map snd (filter (\<lambda>ih. fst ih \<noteq> i) zs)) + mset (map snd (filter (\<lambda>ih. fst ih = i) zs))"
    by (metis image_mset_union mset_map)
  then have t': "traveling ?y = carried h q + N"
    by (auto simp: traveling_def N_def carried_def ac_simps split: option.splits)
  have y: "routed (router y) qs" "owned (headers (router y)) (mset (concat qs) + add_mset h N) (set (handles y))" "router_ok (router y)"
    using assms(1) by (simp_all add: msg_rep_def t)
  obtain m where m: "headers (router y) h = Some m" using owned_live[OF y(2), of h] by auto
  have r1: "routed r1 qs" "same_routes (router y) r1" "owned (headers r1) (mset (concat qs) + add_mset h N) (set (handles y))"
    using write_outcome_ok[OF y(1,2) m, of out] assms(3) by auto
  have "routed r qs \<and> same_routes r1 r \<and> owned (headers r) (mset (concat qs) + (carried h q + N)) (set (handles y)) \<and>
      (\<forall>q'. q = Some q' \<longrightarrow> q' < length qs)"
    using after_handler_ok[OF r1(1,3) router_ok_same[OF y(3) r1(2)], of out] assms(4) by auto
  then show ?thesis using assms(1) t' router_ok_same[OF router_ok_same[OF y(3) r1(2)]]
    by (auto simp: msg_rep_def split: option.splits)
qed

lemma reset_rep_step:
  assumes "msg_rep y qs" "handles y = xs @ h # zs" "handle_reset (Some h) (headers (router y)) = Some (n, H)"
  shows "msg_rep (y\<lparr>router := (router y)\<lparr>headers := H\<rparr>, handles := xs @ zs\<rparr>) qs"
proof -
  have ow: "owned (headers (router y)) (mset (concat qs) + traveling y) (set (handles y))" using assms(1) by (simp add: msg_rep_def)
  have "h \<in> set (handles y)" using assms(2) by simp
  from owned_release_handle[OF ow this] assms(3)
  have H: "owned H (mset (concat qs) + traveling y) (set (handles y) - {h})"
    "h \<in># mset (concat qs) + traveling y \<longrightarrow> same_links UNIV (headers (router y)) H" "same_links (- {h}) (headers (router y)) H"
    by (auto simp: handle_reset_def)
  have d: "set (handles y) - {h} = set (xs @ zs)" "distinct (xs @ zs)" using assms(1,2) by (auto simp: msg_rep_def)
  have "same_links (set (concat qs)) (headers (router y)) H"
  proof (cases "h \<in> set (concat qs)")
    case True
    then show ?thesis using H(2) by (simp add: same_links_def)
  next
    case False
    then show ?thesis using H(3) by (auto simp: same_links_def)
  qed
  then have "routed ((router y)\<lparr>headers := H\<rparr>) qs" using assms(1) by (intro routed_headers) (simp_all add: msg_rep_def)
  moreover have "traveling (y\<lparr>router := (router y)\<lparr>headers := H\<rparr>, handles := xs @ zs\<rparr>) = traveling y" by (simp add: traveling_def)
  ultimately show ?thesis using assms(1) H(1) d by (simp add: msg_rep_def)
qed

lemma msg_step_rep:
  assumes "msg_rep y qs" "msg_step y y'"
  shows "\<exists>qs'. msg_rep y' qs'"
  using assms(2)
proof (cases rule: msg_step.cases)
  case (step_register i q r)
  have y: "router_ok (router y)" "routed (router y) qs" using assms(1) by (simp_all add: msg_rep_def)
  from register_ok[OF y step_register(2)] obtain qs' where
    qs': "routed r qs'" "router_ok r" "headers r = headers (router y)" "\<forall>q'. q = Some q' \<longrightarrow> q' < length qs'"
      "concat qs' = concat qs" "length qs \<le> length qs'" by blast
  have "traveling y' = traveling y" by (simp add: traveling_def step_register(1))
  then have "msg_rep y' qs'" using assms(1) qs' unfolding step_register(1)
    by (force simp: msg_rep_def new_message_queue_def split: option.splits if_splits)
  then show ?thesis by blast
next
  case (step_unregister i r)
  have y: "router_ok (router y)" "routed (router y) qs" "owned (headers (router y)) (mset (concat qs) + traveling y) (set (handles y))"
    using assms(1) by (simp_all add: msg_rep_def)
  from unregister_ok[OF y, of i] obtain qs' where qs': "routed r qs'" "router_ok r"
    "owned (headers r) (mset (concat qs') + traveling y) (set (handles y))" "length qs' = length qs" using step_unregister(4) by auto
  have "traveling y' = traveling y" by (simp add: traveling_def step_unregister(1))
  then have "msg_rep y' qs'" using assms(1) qs' by (simp add: msg_rep_def step_unregister(1))
  then show ?thesis by blast
next
  case (step_handlers i mq mq' mid f)
  have "inbound mq' = inbound mq" using step_handlers(3)
    by (auto simp: doRegisterHandler_def doRegisterCompletionHandler_def doUnregisterHandler_def doUnregisterCompletionHandler_def)
  moreover have "traveling y' = traveling y" by (simp add: traveling_def step_handlers(1))
  ultimately have "msg_rep y' qs" using assms(1) step_handlers(2) by (auto simp: msg_rep_def step_handlers(1))
  then show ?thesis by blast
next
  case (step_send h kind sender to_uid mid del p q r)
  then show ?thesis using send_rep[OF assms(1) step_send(2,3)] by blast
next
  case (step_push xs q h zs r)
  then show ?thesis using push_rep_step[OF assms(1) step_push(2,3)] by blast
next
  case (step_pop i mq hs r)
  then show ?thesis using pop_rep_step[OF assms(1) step_pop(2,4)] by blast
next
  case (step_handle i mq xs h zs m out r1 q e r)
  then show ?thesis using handle_rep_step[OF assms(1) step_handle(3,7,8)] by blast
next
  case (step_reset xs h zs n H)
  then show ?thesis using reset_rep_step[OF assms(1) step_reset(2,3)] by blast
next
  case (step_wait h st H)
  then obtain m where m: "headers (router y) h = Some m" by (auto simp: wait_begin_def split: option.splits)
  have ok: "header_ok m c d \<Longrightarrow> header_ok (m\<lparr>atomic_word := atomic_word m OR WAIT_BIT\<rparr>) c d" for c d
    using atomic_word_wait[of "atomic_word m"] by (simp add: header_ok_def header_refs_def header_status_def)
  have "H = headers (router y) \<or> H = (headers (router y))(h \<mapsto> m\<lparr>atomic_word := atomic_word m OR WAIT_BIT\<rparr>)"
    using step_wait(3) m by (auto simp: wait_begin_def split: if_splits)
  then show ?thesis using header_update_rep[OF assms(1) m _ ok] assms(1) step_wait(1) by auto
next
  case (step_rethrow h e H)
  then obtain m where m: "headers (router y) h = Some m" by (auto simp: rethrowIfFailed_def split: option.splits)
  have ok: "header_ok m c d \<Longrightarrow> header_ok (m\<lparr>exception := None\<rparr>) c d" for c d
    by (simp add: header_ok_def header_refs_def header_status_def)
  have "H = headers (router y) \<or> H = (headers (router y))(h \<mapsto> m\<lparr>exception := None\<rparr>)"
    using step_rethrow(3) m by (auto simp: rethrowIfFailed_def split: if_splits)
  then show ?thesis using header_update_rep[OF assms(1) m _ ok] assms(1) step_rethrow(1) by auto
qed

lemma reachable_rep: "msg_reachable y \<Longrightarrow> \<exists>qs. msg_rep y qs"
proof (induction rule: msg_reachable.induct)
  case msg_start
  then show ?case using new_system_rep by blast
next
  case (msg_next y y')
  then show ?case using msg_step_rep by blast
qed

end
