(* ===== verification/Messaging_Correct.thy ===== *)
theory Messaging_Correct
  imports Messaging_Steps
begin

text \<open>
  What messaging guarantees under every interleaving of its critical sections: inbound queues are
  first in, first out; reference counts are exact, so no header is used after it is freed and
  none is kept without an owner. The last properties show where the code goes wrong: a request
  queued at an agent that unregisters, a batch left by an exception, and a sender that pushes
  into a queue that has changed hands.
\<close>

text \<open>An inbound queue behaves as a list: a push appends to it, a pop takes its first
  message or reports that it is empty, a batch takes up to \<open>n\<close> messages in order, and clearing
  releases each message once. No other queue's links change.\<close>

theorem inbound_queue_is_fifo:
  assumes "queue_rep H q hs"
  shows "(\<forall>h m. h \<notin> set hs \<and> H h = Some m \<longrightarrow>
      (\<exists>q' H'. queue_push h q H = Some (q', H') \<and> queue_rep H' q' (hs @ [h]) \<and> same_links (- set (h # hs)) H H')) \<and>
    (\<exists>q'. queue_pop q H = Some (if hs = [] then None else Some (hd hs), q') \<and> queue_rep H q' (tl hs)) \<and>
    (\<exists>q'. queue_pop_batch n q H = Some (take n hs, q') \<and> queue_rep H q' (drop n hs)) \<and>
    queue_clear q H = map_option (Pair new_queue) (release_all hs H)"
  using push_rep[OF assms] pop_rep[OF assms] pop_batch_rep[OF assms, of n] clear_rep[OF assms] by blast

definition demo_store :: "nat header_store" where
  "demo_store = [5 \<mapsto> new_header False False 50, 6 \<mapsto> new_header False False 60]"

theorem inbound_queue_is_fifo_witness:
  "\<exists>q1 H1 q2 H2. queue_push 5 new_queue demo_store = Some (q1, H1) \<and> queue_push 6 q1 H1 = Some (q2, H2) \<and>
     (\<exists>q3. queue_pop q2 H2 = Some (Some 5, q3) \<and> queue_rep H2 q3 [6])"
proof -
  have "\<exists>m. demo_store 5 = Some m" by (simp add: demo_store_def)
  then obtain q1 H1 where 1: "queue_push 5 new_queue demo_store = Some (q1, H1)" "queue_rep H1 q1 [5]"
      "same_links (- {5}) demo_store H1"
    using conjunct1[OF inbound_queue_is_fifo[OF new_queue_rep, of demo_store], rule_format, of 5] by auto
  have "map_option queue_link (H1 6) = Some None" using 1(3) by (simp add: same_links_def demo_store_def new_header_def)
  then obtain m where "H1 6 = Some m" by auto
  then obtain q2 H2 where 2: "queue_push 6 q1 H1 = Some (q2, H2)" "queue_rep H2 q2 [5, 6]"
    using conjunct1[OF inbound_queue_is_fifo[OF 1(2)], rule_format, of 6 m] by auto
  from inbound_queue_is_fifo[OF 2(2)] show ?thesis using 1(1) 2(1) by auto
qed

section \<open>Ownership\<close>

text \<open>C18: In every reachable state the reference count of a header is the number of its owners -
  its place in a queue, on its way, in a batch or among lost messages, and a handle - and a header
  exists exactly if it has one.\<close>

theorem reference_counts_exact:
  assumes "msg_reachable y"
  shows "\<exists>qs. list_all2 (queue_rep (headers (router y))) (queue_storage (router y)) qs \<and>
    (\<forall>h. (case headers (router y) h of None \<Rightarrow> 0 | Some m \<Rightarrow> header_refs m) =
      count (mset (concat qs) + traveling y + mset (handles y)) h)"
proof -
  obtain qs where qs: "msg_rep y qs" using reachable_rep[OF assms] by blast
  then have ow: "owned (headers (router y)) (mset (concat qs) + traveling y) (set (handles y))" and d: "distinct (handles y)"
    by (simp_all add: msg_rep_def)
  have "(case headers (router y) h of None \<Rightarrow> 0 | Some m \<Rightarrow> header_refs m) = count (mset (concat qs) + traveling y + mset (handles y)) h" for h
  proof -
    have 1: "owner_ok (headers (router y)) (mset (concat qs) + traveling y) (set (handles y)) h"
      and 2: "count (mset (concat qs) + traveling y) h \<le> 1" using ow unfolding owned_def by blast+
    have c: "count M h = of_bool (h \<in># M)" if "count M h \<le> 1" for M :: "hdr multiset"
    proof (cases "h \<in># M")
      case True
      then have "0 < count M h" by (simp only: count_greater_zero_iff)
      then have "count M h = 1" using that by linarith
      then show ?thesis using True by simp
    qed (simp add: count_eq_zero_iff)
    have 3: "count (mset (handles y)) h = of_bool (h \<in> set (handles y))" using d by (simp add: distinct_count_atmost_1)
    have "(case headers (router y) h of None \<Rightarrow> 0 | Some m \<Rightarrow> header_refs m) =
        of_bool (h \<in># mset (concat qs) + traveling y) + of_bool (h \<in> set (handles y))"
      using 1 unfolding owner_ok_def header_ok_def by (cases "headers (router y) h") auto
    then show ?thesis unfolding count_union[of "mset (concat qs) + traveling y"] c[OF 2] 3 .
  qed
  then show ?thesis using qs by (auto simp: msg_rep_def routed_def)
qed

lemma push_defined:
  assumes "msg_rep y qs" "(q, h) \<in> set (in_flight y)"
  shows "pushTo q h (router y) \<noteq> None"
proof -
  have "h \<in># traveling y" using assms(2) by (force simp: traveling_def)
  then obtain N where "traveling y = add_mset h N" by (metis multi_member_split)
  then have ow: "owned (headers (router y)) (mset (concat qs) + add_mset h N) (set (handles y))" and r: "routed (router y) qs"
    and q: "q < length qs" using assms by (auto simp: msg_rep_def)
  from pushTo_ok[OF r ow q] show ?thesis by auto
qed

lemma handling_defined:
  assumes "msg_rep y qs" "(i, h) \<in> set (popped y)"
  shows "\<exists>r. write_outcome h out (router y) = Some r \<and> after_handler h out r \<noteq> None"
proof -
  have t: "h \<in># traveling y" using assms(2) by (force simp: traveling_def)
  then obtain N where N: "traveling y = add_mset h N" by (metis multi_member_split)
  have y: "routed (router y) qs" "owned (headers (router y)) (mset (concat qs) + traveling y) (set (handles y))"
    "router_ok (router y)" using assms(1) by (simp_all add: msg_rep_def)
  obtain m where m: "headers (router y) h = Some m" using owned_live[OF y(2), of h] t by auto
  obtain r where r: "write_outcome h out (router y) = Some r" "routed r qs" "same_routes (router y) r"
    "owned (headers r) (mset (concat qs) + add_mset h N) (set (handles y))"
    using write_outcome_ok[OF y(1,2) m, of out] N by auto
  from after_handler_ok[OF r(2,4) router_ok_same[OF y(3) r(3)], of out] show ?thesis using r(1) by auto
qed

lemma handle_defined:
  assumes "msg_rep y qs" "h \<in> set (handles y)"
  shows "handle_reset (Some h) (headers (router y)) \<noteq> None \<and> wait_begin h (headers (router y)) \<noteq> None"
proof -
  have ow: "owned (headers (router y)) (mset (concat qs) + traveling y) (set (handles y))" using assms(1) by (simp add: msg_rep_def)
  obtain m where "headers (router y) h = Some m" using owned_live[OF ow, of h] assms(2) by auto
  then show ?thesis using owned_release_handle[OF ow assms(2)] by (auto simp: handle_reset_def wait_begin_def)
qed

lemma agent_defined:
  assumes "msg_rep y qs"
  shows "unregisterAgent i (router y) \<noteq> None" "agents y i = Some mq \<Longrightarrow> popBatch (inbound mq) (router y) \<noteq> None"
proof -
  have y: "routed (router y) qs" "owned (headers (router y)) (mset (concat qs) + traveling y) (set (handles y))"
    "router_ok (router y)" using assms by (simp_all add: msg_rep_def)
  show "unregisterAgent i (router y) \<noteq> None" using unregister_ok[OF y(3,1,2), of i] by auto
  assume "agents y i = Some mq"
  then have "inbound mq < length qs" using assms by (simp add: msg_rep_def)
  from popBatch_ok[OF y(1) this] show "popBatch (inbound mq) (router y) \<noteq> None" by auto
qed


section \<open>Three runs\<close>

type_synonym demo_system = "(nat, nat) msg_system"

abbreviation agent_a :: uid where "agent_a \<equiv> UID 0 1"
abbreviation agent_b :: uid where "agent_b \<equiv> UID 0 2"

definition demo_routes :: "uid \<Rightarrow> nat \<Rightarrow> (uid, nat) table" where
  "demo_routes i = (\<lambda>_. [])(getShard i := [(i, 0)])"

definition one_agent :: "uid \<Rightarrow> nat header_store \<Rightarrow> inbound_queue \<Rightarrow> nat router" where
  "one_agent i H q = \<lparr>headers = H, shards = demo_routes i, queue_storage = [q], free_queues = []\<rparr>"

definition demo_message :: "bool \<Rightarrow> u32 \<Rightarrow> nat message_header" where
  "demo_message request w = (new_header False request 7)\<lparr>from_uid := agent_b, msg_uid := UID 9 9, atomic_word := w\<rparr>"

definition with_agent :: "uid \<Rightarrow> nat router \<Rightarrow> demo_system" where
  "with_agent i r = new_msg_system\<lparr>router := r, agents := [i \<mapsto> new_message_queue i 0]\<rparr>"

lemma demo_register: "msg_reachable (with_agent i (one_agent i Map.empty new_queue))"
proof -
  have "registerAgent i (new_router :: nat router) = (Some 0, one_agent i Map.empty new_queue)"
    by (simp add: registerAgent_def take_queue_def addRoute_def new_router_def table_hit_def table_lower_bound_def table_insert_def
        one_agent_def demo_routes_def)
  then show ?thesis
    using msg_next[OF msg_start step_register[of i "new_msg_system :: demo_system"]]
    by (simp add: with_agent_def new_msg_system_def)
qed

lemma demo_route: "findRoute j (one_agent i H q) = (if j = i then Some 0 else None)"
  by (auto simp: findRoute_def one_agent_def demo_routes_def table_find_def table_hit_def table_lower_bound_def)

text \<open>A message is sent to the agent and its sender has found the queue.\<close>

definition sent :: "uid \<Rightarrow> send_kind \<Rightarrow> demo_system" where
  "sent i kind = (with_agent i (one_agent i [0 \<mapsto> demo_message (kind \<noteq> Plain) (if kind = Plain then 1 else 2)] new_queue))
     \<lparr>in_flight := [(0, 0)], handles := (if kind = Plain then [] else [0]), destination := [0 \<mapsto> i]\<rparr>"

lemma demo_send: "kind \<noteq> With_Completion \<Longrightarrow> msg_reachable (sent i kind)"
proof -
  assume k: "kind \<noteq> With_Completion"
  let ?y = "with_agent i (one_agent i Map.empty new_queue)"
  have "start_send kind agent_b i (UID 9 9) False 7 0 (router ?y) =
      Some (Some 0, one_agent i [0 \<mapsto> demo_message (kind \<noteq> Plain) (if kind = Plain then 1 else 2)] new_queue)"
    using k by (cases kind) (simp_all add: start_send_def Let_def address_message_def update_header_def send_begin_def
        with_agent_def findRoute_def one_agent_def demo_routes_def table_find_def table_hit_def table_lower_bound_def demo_message_def new_header_def)
  moreover have "headers (router ?y) 0 = None" by (simp add: with_agent_def one_agent_def)
  ultimately have "msg_step ?y (sent i kind)"
    using k step_send[of ?y 0 kind agent_b i "UID 9 9" False 7 "Some 0"]
    by (cases kind) (simp_all add: sent_def with_agent_def new_msg_system_def)
  then show ?thesis by (rule msg_next[OF demo_register])
qed

text \<open>First run: a request is pushed, and the agent unregisters.\<close>

definition abandoned :: "('p, 'f) msg_system \<Rightarrow> hdr \<Rightarrow> bool" where
  "abandoned y h \<longleftrightarrow> h \<in> set (handles y) \<and>
     pred_option (\<lambda>m. header_refs m = 1 \<and> header_status m = Pending) (headers (router y) h) \<and> headers (router y) h \<noteq> None"

lemma demo_abandoned: "\<exists>y :: demo_system. msg_reachable y \<and> abandoned y 0 \<and> agents y = Map.empty"
proof -
  let ?m = "demo_message True 2"
  let ?y = "sent agent_a With_Handle"
  let ?r = "one_agent agent_a [0 \<mapsto> ?m] \<lparr>oldest = Some 0, newest = Some 0\<rparr>"
  let ?y1 = "?y\<lparr>router := ?r, in_flight := []\<rparr>"
  have "pushTo 0 0 (router ?y) = Some ?r"
    by (simp add: pushTo_def queue_push_def update_header_def sent_def with_agent_def one_agent_def new_queue_def demo_message_def new_header_def)
  then have "msg_step ?y ?y1" using step_push[of ?y "[]" 0 0 "[]"] by (simp add: sent_def)
  then have 1: "msg_reachable ?y1" using msg_next[OF demo_send] by blast
  have w: "releaseRef 0 [0 \<mapsto> ?m] = Some [0 \<mapsto> demo_message True 1]"
    by (simp add: releaseRef_def demo_message_def new_header_def REF_MASK_def)
  have "unregisterAgent agent_a ?r = Some \<lparr>headers = [0 \<mapsto> demo_message True 1], shards = (\<lambda>_. []), queue_storage = [new_queue], free_queues = [0]\<rparr>"
    (is "_ = Some ?r2")
    by (simp add: unregisterAgent_def removeRoute_def one_agent_def demo_routes_def table_find_def table_hit_def table_lower_bound_def
        table_erase_def clearQueue_def queue_clear_def clear_loop.simps[of "Some 0"] clear_loop.simps[of None] w)
      (simp add: demo_message_def new_header_def clear_loop.simps fun_upd_idem)
  then have "msg_step ?y1 (?y1\<lparr>router := ?r2, agents := (agents ?y1)(agent_a := None)\<rparr>)"
    by (intro step_unregister) (simp_all add: sent_def with_agent_def new_msg_system_def)
  from msg_next[OF 1 this] show ?thesis
    by (intro exI[of _ "?y1\<lparr>router := ?r2, agents := (agents ?y1)(agent_a := None)\<rparr>"] conjI)
      (simp_all add: abandoned_def sent_def with_agent_def demo_message_def new_header_def header_refs_def header_status_def
        refcount_def REF_MASK_def atomicWordToStatus_def)
qed

theorem reference_counts_exact_witness:
  "\<exists>qs. list_all2 (queue_rep (headers (router (sent agent_a With_Handle)))) (queue_storage (router (sent agent_a With_Handle))) qs \<and>
     2 = count (mset (concat qs) + traveling (sent agent_a With_Handle) + mset (handles (sent agent_a With_Handle))) (0 :: nat)"
proof -
  have r: "(case headers (router (sent agent_a With_Handle)) 0 of None \<Rightarrow> 0 | Some m \<Rightarrow> header_refs m) = 2"
    by (simp add: sent_def with_agent_def one_agent_def demo_message_def header_refs_def refcount_def REF_MASK_def)
  have "msg_reachable (sent agent_a With_Handle)" by (rule demo_send) simp
  from reference_counts_exact[OF this] r show ?thesis by metis
qed


section \<open>Requests nobody will answer\<close>

text \<open>Two stores agree on the reference count and the status of a header.\<close>

definition same_word :: "hdr \<Rightarrow> 'p header_store \<Rightarrow> 'p header_store \<Rightarrow> bool" where
  "same_word h H H' \<longleftrightarrow>
     map_option (\<lambda>m. (header_refs m, header_status m)) (H' h) = map_option (\<lambda>m. (header_refs m, header_status m)) (H h)"

lemma same_word_trans: "same_word h H H1 \<Longrightarrow> same_word h H1 H2 \<Longrightarrow> same_word h H H2"
  by (simp add: same_word_def)

lemma same_word_other: "H' h = H h \<Longrightarrow> same_word h H H'"
  by (simp add: same_word_def)

lemma releaseRef_word: "releaseRef k H = Some H' \<Longrightarrow> h \<noteq> k \<Longrightarrow> same_word h H H'"
  by (auto simp: releaseRef_def same_word_def split: option.splits if_splits)

lemma release_all_word: "release_all hs H = Some H' \<Longrightarrow> h \<notin> set hs \<Longrightarrow> same_word h H H'"
proof (induction hs arbitrary: H)
  case (Cons k hs)
  then obtain H1 where H1: "releaseRef k H = Some H1" "release_all hs H1 = Some H'" by (auto split: option.splits)
  then show ?case using Cons.IH[OF H1(2)] releaseRef_word[OF H1(1), of h] Cons.prems(2) same_word_trans by auto
qed (simp add: same_word_def)

lemma pushTo_word: "pushTo q k r = Some r' \<Longrightarrow> same_word h (headers r) (headers r')"
  by (auto simp: pushTo_def queue_push_def update_header_def same_word_def header_refs_def header_status_def
      split: option.splits if_splits)

lemma releaseMessage_word: "releaseMessage k r = Some r' \<Longrightarrow> h \<noteq> k \<Longrightarrow> same_word h (headers r) (headers r')"
  by (auto simp: releaseMessage_def dest: releaseRef_word)

lemma complete_begin_word:
  assumes "complete_begin k st r = Some (q, r')" "h \<noteq> k"
  shows "same_word h (headers r) (headers r')"
proof -
  obtain m where m: "headers r k = Some m" using assms(1) by (auto simp: complete_begin_def split: option.splits)
  have w: "same_word h (headers r) ((headers r)(k \<mapsto> m'))" for m' using assms(2) by (simp add: same_word_def)
  obtain m' where "r' = r\<lparr>headers := (headers r)(k \<mapsto> m')\<rparr> \<or> releaseMessage k (r\<lparr>headers := (headers r)(k \<mapsto> m')\<rparr>) = Some r'"
    using assms(1) m unfolding complete_begin_def Let_def by (auto split: option.splits)
  then show ?thesis
    using w[of m'] releaseMessage_word[of k "r\<lparr>headers := (headers r)(k \<mapsto> m')\<rparr>" r' h] assms(2) by (auto intro: same_word_trans)
qed

lemma send_begin_word: "send_begin to_uid k r = Some (q, r') \<Longrightarrow> h \<noteq> k \<Longrightarrow> same_word h (headers r) (headers r')"
  by (auto simp: send_begin_def same_word_other dest: complete_begin_word releaseMessage_word split: option.splits if_splits)

lemma start_send_word:
  assumes "start_send kind sender to_uid mid del p k r = Some (q, r')" "h \<noteq> k"
  shows "same_word h (headers r) (headers r')"
proof -
  obtain m where "send_begin to_uid k (r\<lparr>headers := (headers r)(k \<mapsto> m)\<rparr>) = Some (q, r')"
    using assms(1) by (auto simp: start_send_def Let_def address_message_def update_header_def)
  from send_begin_word[OF this assms(2)] show ?thesis using assms(2) by (simp add: same_word_def)
qed

lemma handled_word:
  assumes "write_outcome k out r = Some r1" "after_handler k out r1 = Some (q, e, r')" "h \<noteq> k"
  shows "same_word h (headers r) (headers r')"
proof -
  have 1: "same_word h (headers r) (headers r1)" using assms(1,3)
    by (auto simp: write_outcome_def update_header_def same_word_def split: option.splits)
  obtain m where m: "headers r1 k = Some m" using assms(2) by (auto simp: after_handler_def split: option.splits)
  have "same_word h (headers r1) (headers r')"
  proof (cases "is_completion_message m \<or> \<not> has_request_block m")
    case True
    then show ?thesis using assms(2,3) m by (auto simp: after_handler_def dest: releaseMessage_word)
  next
    case False
    have id: "r1\<lparr>headers := (headers r1)(k \<mapsto> m)\<rparr> = r1" using m by (simp add: fun_upd_idem)
    have "\<exists>st m'. complete_begin k st (r1\<lparr>headers := (headers r1)(k \<mapsto> m')\<rparr>) = Some (q, r')"
    proof (cases "\<exists>p x. out = Some (Threw p x)")
      case True
      then have "\<exists>x. complete_begin k Failed (r1\<lparr>headers := (headers r1)(k \<mapsto> m\<lparr>exception := Some x\<rparr>)\<rparr>) = Some (q, r')"
        using assms(2) m False by (auto simp: after_handler_def)
      then show ?thesis by blast
    next
      case nt: False
      then have "\<exists>st. complete_begin k st r1 = Some (q, r')"
        using assms(2) m False by (auto simp: after_handler_def split: option.splits outcome.splits)
      then show ?thesis using id by metis
    qed
    then obtain st m' where "complete_begin k st (r1\<lparr>headers := (headers r1)(k \<mapsto> m')\<rparr>) = Some (q, r')" by blast
    from complete_begin_word[OF this assms(3)] show ?thesis using assms(3) by (simp add: same_word_def)
  qed
  then show ?thesis using 1 same_word_trans by blast
qed

lemma unregister_word:
  assumes "router_ok r" "routed r qs" "h \<notin> set (concat qs)" "unregisterAgent i r = Some r'"
  shows "same_word h (headers r) (headers r')"
proof -
  obtain q r0 where rm: "removeRoute i r = (q, r0)" by force
  note r0 = removeRoute_ok[OF assms(1) rm]
  show ?thesis
  proof (cases q)
    case None
    then show ?thesis using assms(4) rm r0 by (simp add: unregisterAgent_def same_word_def)
  next
    case (Some q')
    have q': "q' < length qs" using r0 Some assms(1) routed_length[OF assms(2)] by (simp add: router_ok_def)
    then have "queue_rep (headers r0) (queue_storage r0 ! q') (qs ! q')"
      using assms(2) r0 routed_length[OF assms(2)] by (simp add: routed_def list_all2_conv_all_nth)
    moreover obtain r1 where "clearQueue q' r0 = Some r1" "headers r' = headers r1"
      using assms(4) rm Some by (auto simp: unregisterAgent_def)
    ultimately have "release_all (qs ! q') (headers r) = Some (headers r')"
      using r0 by (auto simp: clearQueue_def clear_rep split: option.splits)
    moreover have "h \<notin> set (qs ! q')" using assms(3) q' nth_mem by fastforce
    ultimately show ?thesis by (rule release_all_word)
  qed
qed

lemma abandoned_not_carried:
  assumes "msg_rep y qs" "abandoned y h"
  shows "h \<notin> set (concat qs)" "h \<notin># traveling y"
proof -
  have "owned (headers (router y)) (mset (concat qs) + traveling y) (set (handles y))" using assms(1) by (simp add: msg_rep_def)
  from owned_live[OF this, of h] assms(2) have "h \<notin># mset (concat qs) + traveling y"
    by (auto simp: abandoned_def header_ok_def of_bool_def split: if_splits)
  then show "h \<notin> set (concat qs)" "h \<notin># traveling y" by simp_all
qed

lemma abandoned_word:
  assumes "abandoned y h" "same_word h (headers (router y)) (headers (router y'))" "h \<in> set (handles y')"
  shows "abandoned y' h"
  using assms unfolding abandoned_def same_word_def
  by (cases "headers (router y) h"; cases "headers (router y') h") auto

lemma abandoned_step:
  assumes "msg_rep y qs" "abandoned y h" "msg_step y y'" "h \<in> set (handles y')"
  shows "abandoned y' h"
proof (rule abandoned_word[OF assms(2) _ assms(4)])
  note nc = abandoned_not_carried[OF assms(1,2)]
  have y: "router_ok (router y)" "routed (router y) qs" "distinct (handles y)" using assms(1) by (simp_all add: msg_rep_def)
  show "same_word h (headers (router y)) (headers (router y'))"
    using assms(3)
  proof (cases rule: msg_step.cases)
    case (step_register i q r)
    then show ?thesis using register_ok[OF y(1,2) step_register(2)] by (auto simp: same_word_def)
  next
    case (step_unregister i r)
    then show ?thesis using unregister_word[OF y(1,2) nc(1) step_unregister(4)] by simp
  next
    case (step_send k kind sender to_uid mid del p q r)
    have "h \<noteq> k" using assms(2) step_send(2) by (auto simp: abandoned_def)
    then show ?thesis using start_send_word[OF step_send(3)] step_send(1) by simp
  next
    case (step_push xs q k zs r)
    then show ?thesis using pushTo_word[OF step_push(3)] by simp
  next
    case (step_pop i mq hs r)
    then show ?thesis by (auto simp: popBatch_def same_word_def split: option.splits)
  next
    case (step_handle i mq xs k zs m out r1 q e r)
    have "h \<noteq> k" using nc(2) step_handle(3) by (auto simp: traveling_def)
    then show ?thesis using handled_word[OF step_handle(7,8)] step_handle(1) by simp
  next
    case (step_reset xs k zs n H)
    have "h \<noteq> k" using y(3) step_reset(1,2) assms(4) by auto
    then show ?thesis using step_reset(1,3) by (auto simp: handle_reset_def dest: releaseRef_word)
  next
    case (step_wait k st H)
    then show ?thesis
      by (auto simp: wait_begin_def same_word_def header_refs_def header_status_def atomic_word_wait split: option.splits if_splits)
  next
    case (step_rethrow k e H)
    then show ?thesis
      by (auto simp: rethrowIfFailed_def same_word_def header_refs_def header_status_def split: option.splits if_splits)
  qed (simp add: same_word_def)
qed

text \<open>The steps of a thread that keeps its handle.\<close>

definition keeping :: "hdr \<Rightarrow> ('p, 'f) msg_system \<Rightarrow> ('p, 'f) msg_system \<Rightarrow> bool" where
  "keeping h y y' \<longleftrightarrow> msg_step y y' \<and> h \<in> set (handles y')"

lemma abandoned_steps:
  assumes "(keeping h)\<^sup>*\<^sup>* y y'" "msg_reachable y" "abandoned y h"
  shows "msg_reachable y' \<and> abandoned y' h"
  using assms
proof (induction rule: rtranclp_induct)
  case (step y1 y2)
  then have y1: "msg_reachable y1" "abandoned y1 h" "msg_step y1 y2" "h \<in> set (handles y2)" by (simp_all add: keeping_def)
  obtain qs where "msg_rep y1 qs" using reachable_rep[OF y1(1)] by blast
  then show ?case using abandoned_step[OF _ y1(2,3,4)] msg_next[OF y1(1,3)] by blast
qed simp

lemma abandoned_waits: "abandoned y h \<Longrightarrow> wait_again h (headers (router y)) = Some None"
  by (auto simp: abandoned_def wait_again_def)

text \<open>C22: A request whose handle is its last owner while it is still pending is never answered:
  as long as the handle is kept, every later look of \<open>wait\<close> at the status finds \<open>Pending\<close>. A
  request that is queued when its recipient unregisters becomes such a request.\<close>

theorem abandoned_request_never_completes:
  assumes "msg_reachable y" "abandoned y h" "(keeping h)\<^sup>*\<^sup>* y y'"
  shows "wait_again h (headers (router y')) = Some None"
  using abandoned_steps[OF assms(3,1,2)] abandoned_waits by blast

theorem abandoned_request_never_completes_witness:
  "\<exists>y :: demo_system. msg_reachable y \<and> agents y = Map.empty \<and> wait_again 0 (headers (router y)) = Some None"
proof -
  obtain y :: demo_system where y: "msg_reachable y" "abandoned y 0" "agents y = Map.empty" using demo_abandoned by blast
  then show ?thesis using abandoned_request_never_completes[OF y(1,2) rtranclp.rtrancl_refl] by blast
qed

section \<open>Batches an exception leaves behind\<close>

lemma lost_step: "msg_step y y' \<Longrightarrow> set (lost y) \<subseteq> set (lost y')"
  by (erule msg_stepE) auto

lemma lost_steps: "msg_step\<^sup>*\<^sup>* y y' \<Longrightarrow> msg_reachable y \<Longrightarrow> msg_reachable y' \<and> set (lost y) \<subseteq> set (lost y')"
proof (induction rule: rtranclp_induct)
  case (step y1 y2)
  then show ?case using lost_step[OF step(2)] msg_next by blast
qed simp

lemma lost_pending:
  assumes "msg_reachable y" "h \<in> set (lost y)"
  shows "\<exists>m. headers (router y) h = Some m \<and> (h \<in> set (handles y) \<longrightarrow> header_status m = Pending)"
proof -
  obtain qs where "msg_rep y qs" using reachable_rep[OF assms(1)] by blast
  then have ow: "owned (headers (router y)) (mset (concat qs) + traveling y) (set (handles y))" by (simp add: msg_rep_def)
  have "h \<in># mset (concat qs) + traveling y" using assms(2) by (simp add: traveling_def)
  with owned_live[OF ow, of h] show ?thesis by (auto simp: header_ok_def)
qed

text \<open>C24: A message whose batch an exception has left behind is never handled and never freed, and
  a request among them stays pending for as long as its handle is kept.\<close>

theorem exception_loses_batch:
  assumes "msg_reachable y" "h \<in> set (lost y)" "msg_step\<^sup>*\<^sup>* y y'"
  shows "h \<in> set (lost y') \<and>
    (\<exists>m. headers (router y') h = Some m \<and> (h \<in> set (handles y') \<longrightarrow> header_status m = Pending))"
  using lost_steps[OF assms(3,1)] lost_pending assms(2) by blast

text \<open>Second run: an agent's handler throws at the first of two messages.\<close>

abbreviation demo_linked :: "hdr option \<Rightarrow> nat message_header" where
  "demo_linked l \<equiv> (demo_message False 1)\<lparr>queue_link := l\<rparr>"

definition two_sent :: "(nat \<times> hdr) list \<Rightarrow> hdr option \<Rightarrow> inbound_queue \<Rightarrow> demo_system" where
  "two_sent fl l q = (with_agent agent_a (one_agent agent_a [0 \<mapsto> demo_linked l, 1 \<mapsto> demo_message True 2] q))
     \<lparr>in_flight := fl, handles := [1], destination := [0 \<mapsto> agent_a, 1 \<mapsto> agent_a]\<rparr>"

lemma demo_pushed: "msg_reachable ((sent i Plain)\<lparr>router := one_agent i [0 \<mapsto> demo_message False 1] \<lparr>oldest = Some 0, newest = Some 0\<rparr>, in_flight := []\<rparr>)"
  (is "msg_reachable ?y")
proof -
  have "pushTo 0 0 (router (sent i Plain)) = Some (one_agent i [0 \<mapsto> demo_message False 1] \<lparr>oldest = Some 0, newest = Some 0\<rparr>)"
    by (simp add: pushTo_def queue_push_def update_header_def sent_def with_agent_def one_agent_def new_queue_def demo_message_def new_header_def)
  then have "msg_step (sent i Plain) ?y" using step_push[of "sent i Plain" "[]" 0 0 "[]"] by (simp add: sent_def)
  then show ?thesis by (rule msg_next[rotated]) (rule demo_send, simp)
qed

lemma demo_two_sent: "msg_reachable (two_sent [(0, 1)] None \<lparr>oldest = Some 0, newest = Some 0\<rparr>)" (is "msg_reachable ?z")
proof -
  let ?y = "(sent agent_a Plain)\<lparr>router := one_agent agent_a [0 \<mapsto> demo_message False 1] \<lparr>oldest = Some 0, newest = Some 0\<rparr>, in_flight := []\<rparr>"
  have "start_send With_Handle agent_b agent_a (UID 9 9) False 7 1 (router ?y) = Some (Some 0, router ?z)"
    by (simp add: start_send_def Let_def address_message_def update_header_def send_begin_def two_sent_def
        with_agent_def findRoute_def one_agent_def demo_routes_def table_find_def table_hit_def table_lower_bound_def demo_message_def new_header_def)
  moreover have "headers (router ?y) 1 = None" by (simp add: one_agent_def)
  ultimately have "msg_step ?y ?z"
    using step_send[of ?y 1 With_Handle agent_b agent_a "UID 9 9" False 7 "Some 0"]
    by (simp add: sent_def two_sent_def with_agent_def new_msg_system_def demo_message_def new_header_def)
  then show ?thesis by (rule msg_next[OF demo_pushed])
qed

lemma demo_two_pushed: "msg_reachable (two_sent [] (Some 1) \<lparr>oldest = Some 0, newest = Some 1\<rparr>)" (is "msg_reachable ?z")
proof -
  let ?y = "two_sent [(0, 1)] None \<lparr>oldest = Some 0, newest = Some 0\<rparr>"
  have "pushTo 0 1 (router ?y) = Some (router ?z)"
    by (simp add: pushTo_def queue_push_def update_header_def two_sent_def with_agent_def one_agent_def demo_message_def new_header_def fun_upd_twist)
  then have "msg_step ?y ?z" using step_push[of ?y "[]" 0 1 "[]"] by (simp add: two_sent_def with_agent_def new_msg_system_def)
  then show ?thesis by (rule msg_next[OF demo_two_sent])
qed

lemma demo_lost:
  "\<exists>y :: demo_system. msg_reachable y \<and> lost y = [1] \<and> handles y = [1]"
proof -
  let ?y = "two_sent [] (Some 1) \<lparr>oldest = Some 0, newest = Some 1\<rparr>"
  let ?mq = "doRegisterHandler (UID 9 9) (5 :: nat) (new_message_queue agent_a 0)"
  let ?y1 = "?y\<lparr>agents := [agent_a \<mapsto> ?mq]\<rparr>"
  let ?r = "one_agent agent_a [0 \<mapsto> demo_linked (Some 1), 1 \<mapsto> demo_message True 2] new_queue"
  let ?y2 = "?y1\<lparr>router := ?r, popped := [(agent_a, 0), (agent_a, 1)]\<rparr>"
  have ag: "agents ?y agent_a = Some (new_message_queue agent_a 0)" by (simp add: two_sent_def with_agent_def)
  have 1: "msg_step ?y ?y1"
    using step_handlers[where y = ?y, OF ag, of ?mq "UID 9 9" 5] by (simp add: two_sent_def with_agent_def new_msg_system_def)
  have pop: "popBatch 0 (router ?y1) = Some ([0, 1], ?r)"
    by (simp add: popBatch_def BATCH_SIZE_def queue_pop_batch_def two_sent_def with_agent_def one_agent_def drop_newest_def new_queue_def
        demo_message_def new_header_def eval_nat_numeral)
  have 2: "msg_step ?y1 ?y2"
    using step_pop[where y = ?y1, of agent_a ?mq "[0, 1]" ?r] pop
    by (simp add: two_sent_def with_agent_def new_msg_system_def doRegisterHandler_def new_message_queue_def)
  let ?m = "demo_linked (Some 1)"
  let ?out = "Some (Threw 7 13)"
  have m: "headers (router ?y2) 0 = Some ?m" by (simp add: one_agent_def)
  have hf: "handler_for ?mq ?m = Some 5"
    by (simp add: handler_for_def demo_message_def new_header_def doRegisterHandler_def new_message_queue_def
        table_assign_def table_insert_def table_find_def table_hit_def table_lower_bound_def)
  have w: "write_outcome 0 ?out (router ?y2) = Some ?r"
    by (simp add: write_outcome_def update_header_def one_agent_def demo_message_def new_header_def fun_upd_twist)
  have "releaseMessage 0 ?r = Some (one_agent agent_a [1 \<mapsto> demo_message True 2] new_queue)"
    by (simp add: releaseMessage_def releaseRef_def one_agent_def demo_message_def new_header_def REF_MASK_def fun_upd_twist)
  then have a: "after_handler 0 ?out ?r = Some (None, Some 13, one_agent agent_a [1 \<mapsto> demo_message True 2] new_queue)"
    by (simp add: after_handler_def one_agent_def demo_message_def new_header_def)
  have ag2: "agents ?y2 agent_a = Some ?mq" "popped ?y2 = [] @ (agent_a, 0) # [(agent_a, 1)]" "agent_a \<notin> fst ` set ([] :: (uid \<times> hdr) list)"
    "(?out = None) = (handler_for ?mq ?m = None)" using hf by simp_all
  have "msg_reachable ?y2" using msg_next[OF msg_next[OF demo_two_pushed 1] 2] .
  from msg_next[OF this step_handle[OF ag2(1,2,3) m ag2(4) w a]] show ?thesis
    by (intro exI conjI) (auto simp: two_sent_def with_agent_def new_msg_system_def)
qed

theorem exception_loses_batch_witness:
  "\<exists>y :: demo_system. msg_reachable y \<and> 1 \<in> set (lost y) \<and> 1 \<in> set (handles y) \<and>
     pred_option (\<lambda>m. header_status m = Pending) (headers (router y) 1)"
proof -
  obtain y :: demo_system where y: "msg_reachable y" "lost y = [1]" "handles y = [1]" using demo_lost by blast
  then have "1 \<in> set (lost y)" by simp
  from exception_loses_batch[OF y(1) this rtranclp.rtrancl_refl] show ?thesis using y by auto
qed

section \<open>A queue that changes hands\<close>

text \<open>C25: A message can reach another agent than it was sent to: the sender looks up the queue of
  the recipient and pushes later; when the recipient unregisters between the two and another
  agent registers, that agent takes over the queue and receives the message.\<close>

theorem message_reaches_other_agent:
  "\<exists>(y :: demo_system) m. msg_reachable y \<and> popped y = [(agent_b, 0)] \<and> destination y 0 = Some agent_a \<and>
     headers (router y) 0 = Some m \<and> \<not> is_completion_message m"
proof -
  let ?y = "sent agent_a Plain" and ?H = "[0 \<mapsto> demo_message False 1] :: nat header_store"
  let ?r1 = "\<lparr>headers = ?H, shards = (\<lambda>_. []), queue_storage = [new_queue], free_queues = [0]\<rparr> :: nat router"
  let ?y1 = "?y\<lparr>router := ?r1, agents := Map.empty\<rparr>"
  let ?y2 = "?y\<lparr>router := one_agent agent_b ?H new_queue, agents := [agent_b \<mapsto> new_message_queue agent_b 0]\<rparr>"
  let ?y3 = "?y2\<lparr>router := one_agent agent_b ?H \<lparr>oldest = Some 0, newest = Some 0\<rparr>, in_flight := []\<rparr>"
  let ?y4 = "?y3\<lparr>router := one_agent agent_b ?H new_queue, popped := [(agent_b, 0)]\<rparr>"
  have "unregisterAgent agent_a (one_agent agent_a ?H new_queue) = Some ?r1"
    by (simp add: unregisterAgent_def removeRoute_def one_agent_def demo_routes_def table_find_def table_hit_def table_lower_bound_def
        table_erase_def clearQueue_def queue_clear_def new_queue_def clear_loop.simps fun_upd_idem)
  then have "msg_step ?y (?y\<lparr>router := ?r1, agents := (agents ?y)(agent_a := None)\<rparr>)"
    by (intro step_unregister) (simp_all add: sent_def with_agent_def new_msg_system_def demo_message_def new_header_def)
  moreover have "(agents ?y)(agent_a := None) = Map.empty" by (simp add: sent_def with_agent_def)
  ultimately have 1: "msg_step ?y ?y1" by simp
  have "registerAgent agent_b ?r1 = (Some 0, one_agent agent_b ?H new_queue)"
    by (simp add: registerAgent_def take_queue_def addRoute_def table_hit_def table_lower_bound_def table_insert_def one_agent_def demo_routes_def)
  then have 2: "msg_step ?y1 ?y2" using step_register[where y = ?y1 and i = agent_b] by simp
  have "pushTo 0 0 (router ?y2) = Some (router ?y3)"
    by (simp add: pushTo_def queue_push_def update_header_def one_agent_def new_queue_def demo_message_def new_header_def)
  then have 3: "msg_step ?y2 ?y3" using step_push[where y = ?y2 and xs = "[]" and zs = "[]" and q = 0 and h = 0]
    by (simp add: sent_def)
  have "popBatch 0 (router ?y3) = Some ([0], one_agent agent_b ?H new_queue)"
    by (simp add: popBatch_def BATCH_SIZE_def queue_pop_batch_def one_agent_def drop_newest_def new_queue_def
        demo_message_def new_header_def eval_nat_numeral)
  then have 4: "msg_step ?y3 ?y4"
    using step_pop[where y = ?y3 and i = agent_b and hs = "[0]"]
    by (simp add: sent_def with_agent_def new_msg_system_def new_message_queue_def)
  have "msg_reachable ?y" by (rule demo_send) simp
  then have "msg_reachable ?y4" using 1 2 3 4 msg_next by blast
  then show ?thesis
    by (intro exI[of _ ?y4] exI[of _ "demo_message False 1"]) (simp add: sent_def one_agent_def demo_message_def new_header_def)
qed

end
