(* ===== verification/Config.thy ===== *)
theory Config
  imports Prelude
begin

text \<open>
  The configuration (src/common/config.cpp): typed options grouped in sections, filled from a
  scheme of defaults and an ini file, looked up with a type, and patched by strings.

  The ini library is third-party code: \<open>ini_ops\<close> has the two functions the code calls, and
  \<open>ini_law\<close> states what is documented of them. Conversions of doubles are parameters too. The
  file itself is read and written by the library; a configuration starts from a loaded one.
\<close>

section \<open>Numbers and strings\<close>

datatype config_error = Invalid_Argument | Out_Of_Range | Option_Missing | Bad_Variant_Access | Assertion_Failed

definition isspace :: "char \<Rightarrow> bool" where
  "isspace c \<longleftrightarrow> (let n = of_char c :: nat in n = 32 \<or> 9 \<le> n \<and> n \<le> 13)"

definition isdigit :: "char \<Rightarrow> bool" where
  "isdigit c \<longleftrightarrow> (let n = of_char c :: nat in 48 \<le> n \<and> n \<le> 57)"

definition digit_value :: "char \<Rightarrow> int" where
  "digit_value c = of_char c - 48"

definition digit_char :: "nat \<Rightarrow> char" where
  "digit_char n = char_of (n + 48)"

definition tolower :: "char \<Rightarrow> char" where
  "tolower c = (let n = of_char c :: nat in if 65 \<le> n \<and> n \<le> 90 then char_of (n + 32) else c)"

definition decimal :: "string \<Rightarrow> int" where
  "decimal ds = foldl (\<lambda>a d. 10 * a + digit_value d) 0 ds"

definition sign_of :: "string \<Rightarrow> bool \<times> string" where
  "sign_of s =
     (case s of
        [] \<Rightarrow> (False, [])
      | c # cs \<Rightarrow> if c = CHR ''-'' then (True, cs) else if c = CHR ''+'' then (False, cs) else (False, s))"

definition stoi :: "string \<Rightarrow> config_error + int" where
  "stoi s =
     (case sign_of (dropWhile isspace s) of (neg, s) \<Rightarrow>
        let ds = takeWhile isdigit s; v = (if neg then - decimal ds else decimal ds)
        in if ds = [] then Inl Invalid_Argument
           else if v < - (2 ^ 31) \<or> 2 ^ 31 \<le> v then Inl Out_Of_Range else Inr v)"

fun nat_to_string :: "nat \<Rightarrow> string" where
  "nat_to_string n = (if n < 10 then [digit_char n] else nat_to_string (n div 10) @ [digit_char (n mod 10)])"

declare nat_to_string.simps [simp del]

definition int_to_string :: "int \<Rightarrow> string" where
  "int_to_string v = (if v < 0 then CHR ''-'' # nat_to_string (nat (- v)) else nat_to_string (nat v))"

text \<open>A string view, and the characters behind it up to the next zero: \<open>data()\<close> of a view does
  not end where the view does.\<close>

definition c_string :: "string \<Rightarrow> string \<Rightarrow> string" where
  "c_string view behind = takeWhile (\<lambda>c. c \<noteq> CHR 0x00) (view @ behind)"

section \<open>Options\<close>

datatype 'd option_t = Opt_String string | Opt_Int int | Opt_Double 'd | Opt_Bool bool

fun variant_index :: "'d option_t \<Rightarrow> nat" where
  "variant_index (Opt_String s) = 0"
| "variant_index (Opt_Int v) = 1"
| "variant_index (Opt_Double d) = 2"
| "variant_index (Opt_Bool b) = 3"

record 'd double_ops =
  double_to_string :: "'d \<Rightarrow> string"
  stod :: "string \<Rightarrow> config_error + 'd"

fun optionToString :: "'d double_ops \<Rightarrow> 'd option_t \<Rightarrow> string" where
  "optionToString D (Opt_String s) = s"
| "optionToString D (Opt_Int v) = int_to_string v"
| "optionToString D (Opt_Double d) = double_to_string D d"
| "optionToString D (Opt_Bool b) = (if b then ''true'' else ''false'')"

definition bool_from_string :: "string \<Rightarrow> bool" where
  "bool_from_string s \<longleftrightarrow> length s = 4 \<and> tolower (s ! 0) = CHR ''t'' \<and> tolower (s ! 1) = CHR ''r'' \<and>
     tolower (s ! 2) = CHR ''u'' \<and> tolower (s ! 3) = CHR ''e''"

definition optionFromString :: "'d double_ops \<Rightarrow> string \<Rightarrow> string \<Rightarrow> nat \<Rightarrow> config_error + 'd option_t" where
  "optionFromString D s behind type =
     (if type = 0 then Inr (Opt_String s)
      else if type = 1 then map_sum id Opt_Int (stoi (c_string s behind))
      else if type = 2 then map_sum id Opt_Double (stod D (c_string s behind))
      else if type = 3 then Inr (Opt_Bool (bool_from_string s))
      else Inr (Opt_String []))"

record 'd scheme_entry =
  entry_section :: string
  parameter_name :: string
  description :: string
  default_value :: "'d option_t"

record 'i ini_ops =
  ini_get :: "'i \<Rightarrow> string \<Rightarrow> string \<Rightarrow> string option"
  ini_set :: "'i \<Rightarrow> string \<Rightarrow> string \<Rightarrow> string \<Rightarrow> string option \<Rightarrow> 'i"

record ('i, 'd) config =
  data :: "string \<rightharpoonup> string \<rightharpoonup> 'd option_t"
  ini :: 'i

text \<open>The constructor, for one entry of the scheme and for all.\<close>

definition store_option :: "string \<Rightarrow> string \<Rightarrow> 'd option_t \<Rightarrow> ('i, 'd) config \<Rightarrow> ('i, 'd) config" where
  "store_option s p v c =
     (let c = (if data c s = None then c\<lparr>data := (data c)(s \<mapsto> Map.empty)\<rparr> else c)
      in c\<lparr>data := (data c)(s \<mapsto> (the (data c s))(p \<mapsto> v))\<rparr>)"

definition load_entry ::
  "'i ini_ops \<Rightarrow> 'd double_ops \<Rightarrow> 'd scheme_entry \<Rightarrow> ('i, 'd) config \<Rightarrow> config_error + ('i, 'd) config" where
  "load_entry I D e c =
     (case ini_get I (ini c) (entry_section e) (parameter_name e) of
        None \<Rightarrow>
          Inr (store_option (entry_section e) (parameter_name e) (default_value e)
            (c\<lparr>ini := ini_set I (ini c) (entry_section e) (parameter_name e) (optionToString D (default_value e))
               (Some (''; '' @ description e))\<rparr>))
      | Some v \<Rightarrow>
          (case optionFromString D v [] (variant_index (default_value e)) of
             Inl x \<Rightarrow> Inl x
           | Inr value \<Rightarrow> Inr (store_option (entry_section e) (parameter_name e) value c)))"

fun load_entries ::
  "'i ini_ops \<Rightarrow> 'd double_ops \<Rightarrow> 'd scheme_entry list \<Rightarrow> ('i, 'd) config \<Rightarrow> config_error + ('i, 'd) config" where
  "load_entries I D [] c = Inr c"
| "load_entries I D (e # es) c = (case load_entry I D e c of Inl x \<Rightarrow> Inl x | Inr c \<Rightarrow> load_entries I D es c)"

definition new_config :: "'i ini_ops \<Rightarrow> 'd double_ops \<Rightarrow> 'i \<Rightarrow> 'd scheme_entry list \<Rightarrow> config_error + ('i, 'd) config" where
  "new_config I D file scheme = load_entries I D scheme \<lparr>data = Map.empty, ini = file\<rparr>"

text \<open>Looking up. \<open>std::get\<close> of another alternative throws; the assertion of \<open>optionInt32\<close> is a
  branch.\<close>

definition find_option :: "('i, 'd) config \<Rightarrow> string \<Rightarrow> string \<Rightarrow> 'd option_t option" where
  "find_option c s p = (case data c s of None \<Rightarrow> None | Some m \<Rightarrow> m p)"

definition optionBool :: "('i, 'd) config \<Rightarrow> string \<Rightarrow> string \<Rightarrow> config_error + bool option" where
  "optionBool c s p =
     (case find_option c s p of None \<Rightarrow> Inr None | Some (Opt_Bool b) \<Rightarrow> Inr (Some b) | Some _ \<Rightarrow> Inl Bad_Variant_Access)"

definition optionDouble :: "('i, 'd) config \<Rightarrow> string \<Rightarrow> string \<Rightarrow> config_error + 'd option" where
  "optionDouble c s p =
     (case find_option c s p of None \<Rightarrow> Inr None | Some (Opt_Double d) \<Rightarrow> Inr (Some d) | Some _ \<Rightarrow> Inl Bad_Variant_Access)"

definition optionInt64 :: "('i, 'd) config \<Rightarrow> string \<Rightarrow> string \<Rightarrow> config_error + int option" where
  "optionInt64 c s p =
     (case find_option c s p of None \<Rightarrow> Inr None | Some (Opt_Int v) \<Rightarrow> Inr (Some v) | Some _ \<Rightarrow> Inl Bad_Variant_Access)"

definition optionInt32 :: "('i, 'd) config \<Rightarrow> string \<Rightarrow> string \<Rightarrow> config_error + int option" where
  "optionInt32 c s p =
     (case optionInt64 c s p of
        Inl x \<Rightarrow> Inl x
      | Inr None \<Rightarrow> Inr None
      | Inr (Some v) \<Rightarrow> if - (2 ^ 31) \<le> v \<and> v \<le> 2 ^ 31 - 1 then Inr (Some v) else Inl Assertion_Failed)"

definition optionString :: "('i, 'd) config \<Rightarrow> string \<Rightarrow> string \<Rightarrow> config_error + string option" where
  "optionString c s p =
     (case find_option c s p of None \<Rightarrow> Inr None | Some (Opt_String v) \<Rightarrow> Inr (Some v) | Some _ \<Rightarrow> Inl Bad_Variant_Access)"

definition required :: "(config_error + 'a option) \<Rightarrow> config_error + 'a" where
  "required r = (case r of Inl x \<Rightarrow> Inl x | Inr None \<Rightarrow> Inl Option_Missing | Inr (Some v) \<Rightarrow> Inr v)"

definition getInt32 :: "('i, 'd) config \<Rightarrow> string \<Rightarrow> string \<Rightarrow> config_error + int" where
  "getInt32 c s p = required (optionInt32 c s p)"

definition getDouble :: "('i, 'd) config \<Rightarrow> string \<Rightarrow> string \<Rightarrow> config_error + 'd" where
  "getDouble c s p = required (optionDouble c s p)"

definition getBool :: "('i, 'd) config \<Rightarrow> string \<Rightarrow> string \<Rightarrow> config_error + bool" where
  "getBool c s p = required (optionBool c s p)"

text \<open>\<open>patch\<close>: the new value has the type of the old one. \<open>behind\<close> is what follows the view.\<close>

definition patch ::
  "'i ini_ops \<Rightarrow> 'd double_ops \<Rightarrow> string \<Rightarrow> string \<Rightarrow> string \<Rightarrow> string \<Rightarrow> bool \<Rightarrow> ('i, 'd) config \<Rightarrow> config_error + ('i, 'd) config" where
  "patch I D s p v behind save c =
     (case find_option c s p of
        None \<Rightarrow> Inl Option_Missing
      | Some old \<Rightarrow>
          (case optionFromString D v behind (variant_index old) of
             Inl x \<Rightarrow> Inl x
           | Inr new \<Rightarrow>
               let c = c\<lparr>data := (data c)(s \<mapsto> (the (data c s))(p \<mapsto> new))\<rparr>
               in Inr (if save then c\<lparr>ini := ini_set I (ini c) s p (optionToString D new) None\<rparr> else c)))"

definition mainConfigScheme :: "'d \<Rightarrow> 'd \<Rightarrow> 'd \<Rightarrow> 'd scheme_entry list" where
  "mainConfigScheme d15 d100 d50 =
     [\<lparr>entry_section = ''dev'', parameter_name = ''fps_logging'', description = ''Enable FPS and UPS logging'', default_value = Opt_Bool False\<rparr>,
      \<lparr>entry_section = ''window'', parameter_name = ''width'', description = ''Voxen window width'', default_value = Opt_Int 1600\<rparr>,
      \<lparr>entry_section = ''window'', parameter_name = ''height'', description = ''Voxen window height'', default_value = Opt_Int 900\<rparr>,
      \<lparr>entry_section = ''window'', parameter_name = ''fullscreen'', description = ''Enable fullscreen for Voxen window'', default_value = Opt_Bool False\<rparr>,
      \<lparr>entry_section = ''controller'', parameter_name = ''mouse_sensitivity'', description = ''Mouse sensitivity'', default_value = Opt_Double d15\<rparr>,
      \<lparr>entry_section = ''controller'', parameter_name = ''forward_speed'', description = ''Player forward speed'', default_value = Opt_Double d100\<rparr>,
      \<lparr>entry_section = ''controller'', parameter_name = ''strafe_speed'', description = ''Player strafe speed'', default_value = Opt_Double d50\<rparr>,
      \<lparr>entry_section = ''controller'', parameter_name = ''roll_speed'', description = ''Player roll speed'', default_value = Opt_Double d15\<rparr>]"

section \<open>Decimal numbers\<close>

lemma decimal_snoc: "decimal (ds @ [d]) = 10 * decimal ds + digit_value d"
  by (simp add: decimal_def)

lemma digit_char: "n < 10 \<Longrightarrow> isdigit (digit_char n) \<and> digit_value (digit_char n) = int n \<and> \<not> isspace (digit_char n) \<and>
  digit_char n \<noteq> CHR ''-'' \<and> digit_char n \<noteq> CHR ''+'' \<and> digit_char n \<noteq> CHR 0x00"
proof -
  assume n: "n < 10"
  then have o: "of_char (digit_char n) = n + 48" by (simp add: digit_char_def)
  have i: "(of_char (digit_char n) :: int) = int (n + 48)" using o by (metis of_nat_of_char)
  have "digit_char n \<noteq> c" if "of_char c < (48 :: nat)" for c using o that by (metis not_add_less2)
  then show ?thesis using n o i by (simp add: isdigit_def isspace_def digit_value_def Let_def)
qed

lemma nat_to_string: "nat_to_string n \<noteq> [] \<and> list_all isdigit (nat_to_string n) \<and> decimal (nat_to_string n) = int n \<and>
  (\<forall>c \<in> set (nat_to_string n). \<not> isspace c \<and> c \<noteq> CHR ''-'' \<and> c \<noteq> CHR ''+'' \<and> c \<noteq> CHR 0x00)"
proof (induction n rule: nat_to_string.induct)
  case (1 n)
  show ?case
  proof (cases "n < 10")
    case True
    then show ?thesis using digit_char[OF True] by (simp add: nat_to_string.simps[of n] decimal_def)
  next
    case False
    have d: "n mod 10 < 10" by simp
    have "int n = 10 * int (n div 10) + int (n mod 10)" by presburger
    then show ?thesis using 1[OF False] digit_char[OF d] False
      by (simp add: nat_to_string.simps[of n] decimal_snoc list_all_iff)
  qed
qed

lemma sign_of_digits:
  assumes "ds \<noteq> []" "\<forall>c \<in> set ds. c \<noteq> CHR ''-'' \<and> c \<noteq> CHR ''+''"
  shows "sign_of ds = (False, ds)"
  using assms by (cases ds) (simp_all add: sign_of_def)

lemma takeWhile_all: "list_all P xs \<Longrightarrow> takeWhile P xs = xs"
  by (simp add: list_all_iff)

lemma dropWhile_none: "\<forall>c \<in> set xs. \<not> P c \<Longrightarrow> dropWhile P xs = xs"
  by (cases xs) auto

lemma stoi_to_string:
  "stoi (int_to_string v) = (if - (2 ^ 31) \<le> v \<and> v < 2 ^ 31 then Inr v else Inl Out_Of_Range)"
proof (cases "v < 0")
  case True
  note d = nat_to_string[of "nat (- v)"]
  have "\<not> isspace (CHR ''-'')" by code_simp
  then have "sign_of (dropWhile isspace (int_to_string v)) = (True, nat_to_string (nat (- v)))"
    using True by (simp add: int_to_string_def sign_of_def)
  then show ?thesis using d True by (simp add: stoi_def Let_def takeWhile_all)
next
  case False
  note d = nat_to_string[of "nat v"]
  have "dropWhile isspace (nat_to_string (nat v)) = nat_to_string (nat v)" using d by (intro dropWhile_none) blast
  then have "sign_of (dropWhile isspace (int_to_string v)) = (False, nat_to_string (nat v))"
    using False d by (simp add: int_to_string_def sign_of_digits)
  then show ?thesis using d False by (simp add: stoi_def Let_def takeWhile_all)
qed

lemma int_string_no_zero: "\<forall>c \<in> set (int_to_string v). c \<noteq> CHR 0x00"
  using nat_to_string by (auto simp: int_to_string_def)

lemma c_string_int: "c_string (int_to_string v) [] = int_to_string v"
proof -
  have "list_all (\<lambda>c. c \<noteq> CHR 0x00) (int_to_string v)" using int_string_no_zero by (simp add: list_all_iff)
  from takeWhile_all[OF this] show ?thesis by (simp add: c_string_def)
qed

lemma stoi_range: "stoi s = Inr v \<Longrightarrow> - (2 ^ 31) \<le> v \<and> v < 2 ^ 31"
  by (auto simp: stoi_def Let_def split: prod.splits if_splits)

lemma option_text:
  assumes "variant_index x \<noteq> 2"
  shows "optionFromString D (optionToString D x) [] (variant_index x) =
    (if \<exists>v. x = Opt_Int v \<and> (v < - (2 ^ 31) \<or> 2 ^ 31 \<le> v) then Inl Out_Of_Range else Inr x)"
proof (cases x)
  case (Opt_Int v)
  then show ?thesis by (auto simp: optionFromString_def c_string_int stoi_to_string)
next
  case (Opt_Bool b)
  have "bool_from_string ''true''" "\<not> bool_from_string ''false''" by code_simp+
  then show ?thesis using Opt_Bool by (simp add: optionFromString_def)
qed (use assms in \<open>simp_all add: optionFromString_def\<close>)

text \<open>Every option other than a double is read back from the text it is written as, except
  that an integer option, which has 64 bits, is refused when it does not fit 32 bits.\<close>

theorem option_roundtrip:
  assumes "variant_index x \<noteq> 2"
  shows "optionFromString D (optionToString D x) [] (variant_index x) =
    (if \<exists>v. x = Opt_Int v \<and> (v < - (2 ^ 31) \<or> 2 ^ 31 \<le> v) then Inl Out_Of_Range else Inr x)"
  by (rule option_text[OF assms])

definition demo_doubles :: "int double_ops" where
  "demo_doubles = \<lparr>double_to_string = int_to_string, stod = stoi\<rparr>"

theorem option_roundtrip_witness:
  "optionFromString demo_doubles (optionToString demo_doubles (Opt_Int 3000000000)) [] 1 = Inl Out_Of_Range \<and>
   optionFromString demo_doubles (optionToString demo_doubles (Opt_Int (- 17))) [] 1 = Inr (Opt_Int (- 17))"
  using option_roundtrip[of "Opt_Int 3000000000" demo_doubles] option_roundtrip[of "Opt_Int (- 17)" demo_doubles] by simp

text \<open>The text of a patch ends where its view ends only if a character follows that ends a number.\<close>

lemma patch_reads_behind_view: "optionFromString D ''12'' ''34'' 1 = Inr (Opt_Int 1234)"
proof -
  have "stoi (c_string ''12'' ''34'') = Inr 1234" by code_simp
  then show ?thesis by (simp add: optionFromString_def)
qed

section \<open>Loading\<close>

text \<open>What is documented of the ini library: section and key names are compared without case.\<close>

definition same_name :: "string \<Rightarrow> string \<Rightarrow> bool" where
  "same_name a b \<longleftrightarrow> map tolower a = map tolower b"

definition ini_law :: "'i ini_ops \<Rightarrow> bool" where
  "ini_law I \<longleftrightarrow> (\<forall>i s p v comment s' p'. ini_get I (ini_set I i s p v comment) s' p' =
     (if same_name s s' \<and> same_name p p' then Some v else ini_get I i s' p'))"

definition entry_names :: "'d scheme_entry \<Rightarrow> string \<times> string" where
  "entry_names e = (map tolower (entry_section e), map tolower (parameter_name e))"

definition entry_value :: "'i ini_ops \<Rightarrow> 'd double_ops \<Rightarrow> 'i \<Rightarrow> 'd scheme_entry \<Rightarrow> config_error + 'd option_t" where
  "entry_value I D i e =
     (case ini_get I i (entry_section e) (parameter_name e) of
        None \<Rightarrow> Inr (default_value e)
      | Some v \<Rightarrow> optionFromString D v [] (variant_index (default_value e)))"

lemma find_store: "find_option (store_option s p v c) s' p' = (if s' = s \<and> p' = p then Some v else find_option c s' p')"
  by (auto simp: find_option_def store_option_def Let_def split: option.splits)

lemma store_ini [simp]: "ini (store_option s p v c) = ini c"
  by (simp add: store_option_def Let_def)

lemma find_ini [simp]: "find_option (c\<lparr>ini := i\<rparr>) s p = find_option c s p"
  by (simp add: find_option_def)

lemma find_config [simp]: "find_option \<lparr>data = Map.empty, ini = i\<rparr> s p = None"
  by (simp add: find_option_def)

lemma load_entry_result:
  "load_entry I D e c = (case entry_value I D (ini c) e of Inl x \<Rightarrow> Inl x
     | Inr v \<Rightarrow> Inr (store_option (entry_section e) (parameter_name e) v
         (if ini_get I (ini c) (entry_section e) (parameter_name e) = None
          then c\<lparr>ini := ini_set I (ini c) (entry_section e) (parameter_name e) (optionToString D (default_value e)) (Some (''; '' @ description e))\<rparr>
          else c)))"
  by (simp add: load_entry_def entry_value_def split: option.splits sum.splits)

lemma load_entry_find:
  assumes "load_entry I D e c = Inr c'"
  shows "\<exists>v. entry_value I D (ini c) e = Inr v \<and>
    (\<forall>s p. find_option c' s p = (if s = entry_section e \<and> p = parameter_name e then Some v else find_option c s p))"
proof -
  obtain v c1 where "entry_value I D (ini c) e = Inr v" "c' = store_option (entry_section e) (parameter_name e) v c1"
      "\<forall>s p. find_option c1 s p = find_option c s p"
    using assms by (simp add: load_entry_result split: sum.splits if_splits) (metis find_ini)+
  then show ?thesis by (auto simp: find_store)
qed

lemma load_entry_other:
  assumes "ini_law I" "load_entry I D e c = Inr c'" "entry_names e' \<noteq> entry_names e"
  shows "entry_value I D (ini c') e' = entry_value I D (ini c) e'"
proof -
  have "ini_get I (ini_set I i (entry_section e) (parameter_name e) v cm) (entry_section e') (parameter_name e') =
      ini_get I i (entry_section e') (parameter_name e')" for i v cm
    using assms(1,3) unfolding ini_law_def same_name_def entry_names_def by auto
  then show ?thesis using assms(2) by (auto simp: load_entry_result entry_value_def split: sum.splits if_splits)
qed

lemma load_entries_values:
  assumes "ini_law I" "distinct (map entry_names es)"
  shows "case load_entries I D es c of
      Inl x \<Rightarrow> \<exists>e \<in> set es. entry_value I D (ini c) e = Inl x
    | Inr c' \<Rightarrow> (\<forall>e \<in> set es. \<exists>v. find_option c' (entry_section e) (parameter_name e) = Some v \<and> entry_value I D (ini c) e = Inr v) \<and>
        (\<forall>s p. (s, p) \<notin> (\<lambda>e. (entry_section e, parameter_name e)) ` set es \<longrightarrow> find_option c' s p = find_option c s p)"
  using assms(2)
proof (induction es arbitrary: c)
  case (Cons e es)
  show ?case
  proof (cases "load_entry I D e c")
    case (Inl x)
    then show ?thesis by (auto simp: load_entry_result split: sum.splits)
  next
    case (Inr c1)
    from load_entry_find[OF this] obtain v where v: "entry_value I D (ini c) e = Inr v" "find_option c1 (entry_section e) (parameter_name e) = Some v"
        "\<forall>s p. (s, p) \<noteq> (entry_section e, parameter_name e) \<longrightarrow> find_option c1 s p = find_option c s p" by auto
    have o: "entry_value I D (ini c1) e' = entry_value I D (ini c) e'" if "e' \<in> set es" for e'
    proof (rule load_entry_other[OF assms(1) Inr])
      have "entry_names e \<notin> entry_names ` set es" using Cons.prems by simp
      then show "entry_names e' \<noteq> entry_names e" using that by (metis imageI)
    qed
    have n: "(entry_section e, parameter_name e) \<notin> (\<lambda>e. (entry_section e, parameter_name e)) ` set es"
      using Cons.prems by (force simp: entry_names_def)
    show ?thesis
    proof (cases "load_entries I D es c1")
      case Inl2: (Inl x)
      then show ?thesis using Cons.IH[of c1] Cons.prems Inr o by auto
    next
      case Inr2: (Inr c2)
      then have ih: "\<forall>e \<in> set es. \<exists>v. find_option c2 (entry_section e) (parameter_name e) = Some v \<and> entry_value I D (ini c1) e = Inr v"
        "\<forall>s p. (s, p) \<notin> (\<lambda>e. (entry_section e, parameter_name e)) ` set es \<longrightarrow> find_option c2 s p = find_option c1 s p"
        using Cons.IH[of c1] Cons.prems by auto
      have "find_option c2 (entry_section e) (parameter_name e) = Some v" using ih(2) n v(2) by simp
      then show ?thesis using Inr Inr2 ih o v by auto
    qed
  qed
qed simp

text \<open>C30: A configuration starts exactly if every value in the file can be converted to the type of
  its default; then each option of the scheme has the value from the file, or else its default,
  and there are no others.\<close>

theorem config_loads_scheme:
  assumes "ini_law I" "distinct (map entry_names scheme)"
  shows "case new_config I D file scheme of
      Inl x \<Rightarrow> \<exists>e \<in> set scheme. entry_value I D file e = Inl x
    | Inr c \<Rightarrow> (\<forall>e \<in> set scheme. map_option Inr (find_option c (entry_section e) (parameter_name e)) = Some (entry_value I D file e)) \<and>
        {(s, p). find_option c s p \<noteq> None} = (\<lambda>e. (entry_section e, parameter_name e)) ` set scheme"
proof -
  note l = load_entries_values[OF assms, of D "\<lparr>data = Map.empty, ini = file\<rparr>"]
  show ?thesis
  proof (cases "new_config I D file scheme")
    case (Inl x)
    then show ?thesis using l by (simp add: new_config_def)
  next
    case (Inr c)
    then have "\<forall>e \<in> set scheme. \<exists>v. find_option c (entry_section e) (parameter_name e) = Some v \<and> entry_value I D file e = Inr v"
      "\<forall>s p. (s, p) \<notin> (\<lambda>e. (entry_section e, parameter_name e)) ` set scheme \<longrightarrow> find_option c s p = None"
      using l by (simp_all add: new_config_def)
    then show ?thesis using Inr by fastforce
  qed
qed

definition demo_ini :: "(string \<times> string \<rightharpoonup> string) ini_ops" where
  "demo_ini = \<lparr>ini_get = (\<lambda>i s p. i (map tolower s, map tolower p)),
     ini_set = (\<lambda>i s p v comment. i((map tolower s, map tolower p) \<mapsto> v))\<rparr>"

definition demo_scheme :: "int scheme_entry list" where
  "demo_scheme = mainConfigScheme 15 1000 500"

definition demo_file :: "string \<times> string \<rightharpoonup> string" where
  "demo_file = [(''window'', ''width'') \<mapsto> ''800px'', (''dev'', ''fps_logging'') \<mapsto> ''True'']"

lemma demo_ini_law: "ini_law demo_ini"
  by (auto simp: ini_law_def demo_ini_def same_name_def)

lemma demo_scheme_distinct: "distinct (map entry_names demo_scheme)"
  unfolding demo_scheme_def by code_simp

theorem config_loads_scheme_witness:
  "case new_config demo_ini demo_doubles demo_file demo_scheme of Inl x \<Rightarrow> False
   | Inr c \<Rightarrow> find_option c ''window'' ''width'' = Some (Opt_Int 800) \<and>
       find_option c ''window'' ''height'' = Some (Opt_Int 900) \<and> find_option c ''window'' ''depth'' = None"
proof -
  note l = config_loads_scheme[OF demo_ini_law demo_scheme_distinct, of demo_doubles demo_file]
  have e: "list_all (\<lambda>e. \<not> isl (entry_value demo_ini demo_doubles demo_file e)) demo_scheme"
    unfolding demo_scheme_def by code_simp
  have v: "entry_value demo_ini demo_doubles demo_file (demo_scheme ! 1) = Inr (Opt_Int 800)"
    "entry_value demo_ini demo_doubles demo_file (demo_scheme ! 2) = Inr (Opt_Int 900)"
    unfolding demo_scheme_def by code_simp+
  have s: "demo_scheme ! 1 \<in> set demo_scheme" "demo_scheme ! 2 \<in> set demo_scheme"
    "(''window'', ''depth'') \<notin> (\<lambda>e. (entry_section e, parameter_name e)) ` set demo_scheme"
    by (simp_all add: demo_scheme_def mainConfigScheme_def)
  have n: "entry_section (demo_scheme ! 1) = ''window''" "parameter_name (demo_scheme ! 1) = ''width''"
    "entry_section (demo_scheme ! 2) = ''window''" "parameter_name (demo_scheme ! 2) = ''height''"
    by (simp_all add: demo_scheme_def mainConfigScheme_def)
  show ?thesis
  proof (cases "new_config demo_ini demo_doubles demo_file demo_scheme")
    case (Inl x)
    then show ?thesis using l e by (auto simp: list_all_iff)
  next
    case (Inr c)
    then have c: "\<forall>e \<in> set demo_scheme. map_option Inr (find_option c (entry_section e) (parameter_name e)) =
        Some (entry_value demo_ini demo_doubles demo_file e)"
      "{(s, p). find_option c s p \<noteq> None} = (\<lambda>e. (entry_section e, parameter_name e)) ` set demo_scheme"
      using l by simp_all
    have "find_option c ''window'' ''depth'' = None" using c(2) s(3) by blast
    then show ?thesis using bspec[OF c(1) s(1)] bspec[OF c(1) s(2)] v n Inr by auto
  qed
qed

section \<open>Types of options\<close>

text \<open>A configuration of a scheme: loaded, then patched any number of times.\<close>

inductive configured :: "'i ini_ops \<Rightarrow> 'd double_ops \<Rightarrow> 'd scheme_entry list \<Rightarrow> ('i, 'd) config \<Rightarrow> bool" for I D scheme where
  config_new: "new_config I D file scheme = Inr c \<Longrightarrow> configured I D scheme c"
| config_patch: "configured I D scheme c \<Longrightarrow> patch I D s p v behind save c = Inr c' \<Longrightarrow> configured I D scheme c'"

fun fits :: "'d option_t \<Rightarrow> bool" where
  "fits (Opt_Int v) \<longleftrightarrow> - (2 ^ 31) \<le> v \<and> v < 2 ^ 31"
| "fits _ \<longleftrightarrow> True"

lemma map_sum_Inr: "map_sum id f r = Inr y \<longleftrightarrow> (\<exists>x. r = Inr x \<and> y = f x)"
  by (cases r) auto

lemma from_string_type: "optionFromString D s behind (variant_index x) = Inr y \<Longrightarrow> variant_index y = variant_index x \<and> fits y"
  by (cases x) (auto simp: optionFromString_def map_sum_Inr dest: stoi_range)

definition typed :: "'d scheme_entry list \<Rightarrow> ('i, 'd) config \<Rightarrow> bool" where
  "typed es c \<longleftrightarrow> (\<forall>e \<in> set es. pred_option (\<lambda>v. variant_index v = variant_index (default_value e)) (find_option c (entry_section e) (parameter_name e)) \<and>
     find_option c (entry_section e) (parameter_name e) \<noteq> None) \<and> (\<forall>s p. pred_option fits (find_option c s p))"

lemma entry_value_type:
  assumes "entry_value I D i e = Inr v" "fits (default_value e)"
  shows "variant_index v = variant_index (default_value e) \<and> fits v"
  using assms from_string_type[of D _ "[]" "default_value e" v] by (auto simp: entry_value_def split: option.splits)

lemma new_typed:
  assumes "ini_law I" "distinct (map entry_names es)" "\<forall>e \<in> set es. fits (default_value e)" "new_config I D file es = Inr c"
  shows "typed es c"
proof -
  have l: "\<forall>e \<in> set es. \<exists>v. find_option c (entry_section e) (parameter_name e) = Some v \<and> entry_value I D file e = Inr v"
    "\<forall>s p. (s, p) \<notin> (\<lambda>e. (entry_section e, parameter_name e)) ` set es \<longrightarrow> find_option c s p = None"
    using load_entries_values[OF assms(1,2), of D "\<lparr>data = Map.empty, ini = file\<rparr>"] assms(4) by (simp_all add: new_config_def)
  have t: "\<exists>v. find_option c (entry_section e) (parameter_name e) = Some v \<and> variant_index v = variant_index (default_value e) \<and> fits v"
    if "e \<in> set es" for e using l(1) that entry_value_type assms(3) by metis
  have "pred_option fits (find_option c s p)" for s p
  proof (cases "(s, p) \<in> (\<lambda>e. (entry_section e, parameter_name e)) ` set es")
    case True
    then obtain e where "e \<in> set es" "s = entry_section e" "p = parameter_name e" by auto
    then show ?thesis using t[of e] by auto
  next
    case False
    then show ?thesis using l(2) by simp
  qed
  then show ?thesis using t unfolding typed_def by fastforce
qed

lemma patch_result:
  assumes "patch I D s p v behind save c = Inr c'"
  shows "\<exists>old new. find_option c s p = Some old \<and> optionFromString D v behind (variant_index old) = Inr new \<and>
    (\<forall>s' p'. find_option c' s' p' = (if s' = s \<and> p' = p then Some new else find_option c s' p')) \<and>
    ini c' = (if save then ini_set I (ini c) s p (optionToString D new) None else ini c)"
proof -
  obtain old new where o: "find_option c s p = Some old" "optionFromString D v behind (variant_index old) = Inr new"
    using assms by (auto simp: patch_def split: option.splits sum.splits)
  then obtain m where m: "data c s = Some m" by (auto simp: find_option_def split: option.splits)
  have "c' = (let c = c\<lparr>data := (data c)(s \<mapsto> m(p \<mapsto> new))\<rparr> in if save then c\<lparr>ini := ini_set I (ini c) s p (optionToString D new) None\<rparr> else c)"
    using assms o m unfolding patch_def Let_def by (auto split: if_splits)
  then show ?thesis using o m by (auto simp: find_option_def Let_def)
qed

lemma patch_typed: "typed es c \<Longrightarrow> patch I D s p v behind save c = Inr c' \<Longrightarrow> typed es c'"
proof -
  assume t: "typed es c" and p: "patch I D s p v behind save c = Inr c'"
  from patch_result[OF p] obtain old new where r: "find_option c s p = Some old" "optionFromString D v behind (variant_index old) = Inr new"
      "\<forall>s' p'. find_option c' s' p' = (if s' = s \<and> p' = p then Some new else find_option c s' p')" by blast
  note n = from_string_type[OF r(2)]
  show ?thesis unfolding typed_def
  proof (intro conjI ballI allI)
    fix e assume e: "e \<in> set es"
    then have te: "pred_option (\<lambda>v. variant_index v = variant_index (default_value e)) (find_option c (entry_section e) (parameter_name e))"
      "find_option c (entry_section e) (parameter_name e) \<noteq> None" using t by (simp_all add: typed_def)
    show "pred_option (\<lambda>v. variant_index v = variant_index (default_value e)) (find_option c' (entry_section e) (parameter_name e))"
      using te(1) r(1,3) n by auto
    show "find_option c' (entry_section e) (parameter_name e) \<noteq> None" using te(2) r(3) by simp
  next
    fix s' p'
    show "pred_option fits (find_option c' s' p')" using t n r(3) by (simp add: typed_def)
  qed
qed

lemma configured_typed:
  assumes "configured I D es c" "ini_law I" "distinct (map entry_names es)" "\<forall>e \<in> set es. fits (default_value e)"
  shows "typed es c"
  using assms(1)
proof (induction rule: configured.induct)
  case (config_new f c)
  then show ?case using new_typed[OF assms(2-4)] by blast
next
  case (config_patch c s p v behind save c')
  then show ?case using patch_typed by blast
qed

lemma typed_option:
  assumes "typed es c" "e \<in> set es"
    and "\<And>v. find_option c (entry_section e) (parameter_name e) = Some v \<Longrightarrow> variant_index v = variant_index (default_value e) \<Longrightarrow> fits v \<Longrightarrow> thesis"
  shows thesis
proof -
  have e: "pred_option (\<lambda>v. variant_index v = variant_index (default_value e)) (find_option c (entry_section e) (parameter_name e))"
    "find_option c (entry_section e) (parameter_name e) \<noteq> None" "pred_option fits (find_option c (entry_section e) (parameter_name e))"
    using assms(1,2) by (simp_all add: typed_def)
  then obtain v where "find_option c (entry_section e) (parameter_name e) = Some v" by auto
  then show thesis using assms(3)[of v] e by simp
qed

text \<open>C28: However a configuration has been loaded and patched, each option of its scheme can be
  looked up with the type of its default, and no lookup of a 32-bit integer fails its assertion.\<close>

theorem options_keep_their_type:
  assumes "configured I D scheme c" "ini_law I" "distinct (map entry_names scheme)" "\<forall>e \<in> set scheme. fits (default_value e)"
    and "e \<in> set scheme"
  shows "case default_value e of
      Opt_String s \<Rightarrow> \<exists>s. optionString c (entry_section e) (parameter_name e) = Inr (Some s)
    | Opt_Int v \<Rightarrow> \<exists>v. getInt32 c (entry_section e) (parameter_name e) = Inr v
    | Opt_Double d \<Rightarrow> \<exists>d. getDouble c (entry_section e) (parameter_name e) = Inr d
    | Opt_Bool b \<Rightarrow> \<exists>b. getBool c (entry_section e) (parameter_name e) = Inr b"
proof -
  obtain v where v: "find_option c (entry_section e) (parameter_name e) = Some v" "variant_index v = variant_index (default_value e)" "fits v"
    using configured_typed[OF assms(1-4)] assms(5) by (rule typed_option)
  note lookups = optionString_def getInt32_def getDouble_def getBool_def optionBool_def optionInt32_def optionInt64_def
    optionDouble_def required_def
  show ?thesis
  proof (cases "default_value e")
    case (Opt_String s)
    then obtain s' where "v = Opt_String s'" using v(2) by (cases v) simp_all
    then show ?thesis using Opt_String v(1) by (simp add: lookups)
  next
    case (Opt_Int n)
    then obtain n' where "v = Opt_Int n'" using v(2) by (cases v) simp_all
    then show ?thesis using Opt_Int v(1,3) by (simp add: lookups)
  next
    case (Opt_Double d)
    then obtain d' where "v = Opt_Double d'" using v(2) by (cases v) simp_all
    then show ?thesis using Opt_Double v(1) by (simp add: lookups)
  next
    case (Opt_Bool b)
    then obtain b' where "v = Opt_Bool b'" using v(2) by (cases v) simp_all
    then show ?thesis using Opt_Bool v(1) by (simp add: lookups)
  qed
qed

theorem options_keep_their_type_witness:
  "case new_config demo_ini demo_doubles demo_file demo_scheme of Inl x \<Rightarrow> False
   | Inr c \<Rightarrow> \<exists>v. getInt32 c ''window'' ''width'' = Inr v"
proof -
  have "\<not> isl (new_config demo_ini demo_doubles demo_file demo_scheme)" unfolding demo_scheme_def by code_simp
  then obtain c where c: "new_config demo_ini demo_doubles demo_file demo_scheme = Inr c" by (cases "new_config demo_ini demo_doubles demo_file demo_scheme") auto
  have "\<forall>e \<in> set demo_scheme. fits (default_value e)" "demo_scheme ! 1 \<in> set demo_scheme" "default_value (demo_scheme ! 1) = Opt_Int 1600"
    "entry_section (demo_scheme ! 1) = ''window''" "parameter_name (demo_scheme ! 1) = ''width''"
    by (simp_all add: demo_scheme_def mainConfigScheme_def)
  with options_keep_their_type[OF config_new[OF c] demo_ini_law demo_scheme_distinct] show ?thesis using c by fastforce
qed



end
