(* ===== verification/Input_Events.thy ===== *)
theory Input_Events
  imports Config "HOL-Library.Word" Complex_Main
begin

unbundle bit_operations_syntax

text \<open>
  The input event adapter (src/client/input_event_adapter.cpp, include/extras/string_utils.hpp):
  bindings of keys, mouse buttons and the wheel to player actions, read from settings such as
  "MOUSE_LEFT, ESCAPE" or "A+Shift", and the lookup of incoming events.

  The constants of GLFW are a parameter \<open>G\<close>, which gives the value of each constant by its name
  without the prefix; \<open>glfw_ok\<close> states what is documented of them. \<open>None\<close> is a failed assertion.
\<close>

section \<open>Tables\<close>

datatype PlayerActionEvent = No_Action | MoveForward | MoveBackward | MoveUp | MoveDown | MoveLeft | MoveRight
  | RollLeft | RollRight | PauseGame | IncreaseSpeed | DecreaseSpeed | LockChunkLoadingPoint | ModifyBlock
  | ChooseItem nat

definition KEYCODE_2_STRING :: "(string \<times> string) list" where
  "KEYCODE_2_STRING =
   [(''KEY_SPACE'', ''SPACE''), (''KEY_APOSTROPHE'', ''APOSTROPHE''), (''KEY_COMMA'', ''COMMA''),
    (''KEY_MINUS'', ''MINUS''), (''KEY_PERIOD'', ''PERIOD''), (''KEY_SLASH'', ''SLASH''), (''KEY_0'', ''0''),
    (''KEY_1'', ''1''), (''KEY_2'', ''2''), (''KEY_3'', ''3''), (''KEY_4'', ''4''), (''KEY_5'', ''5''),
    (''KEY_6'', ''6''), (''KEY_7'', ''7''), (''KEY_8'', ''8''), (''KEY_9'', ''9''),
    (''KEY_SEMICOLON'', ''SEMICOLON''), (''KEY_EQUAL'', ''EQUAL''), (''KEY_A'', ''A''), (''KEY_B'', ''B''),
    (''KEY_C'', ''C''), (''KEY_D'', ''D''), (''KEY_E'', ''E''), (''KEY_F'', ''F''), (''KEY_G'', ''G''),
    (''KEY_H'', ''H''), (''KEY_I'', ''I''), (''KEY_J'', ''J''), (''KEY_K'', ''K''), (''KEY_L'', ''L''),
    (''KEY_M'', ''M''), (''KEY_N'', ''N''), (''KEY_O'', ''O''), (''KEY_P'', ''P''), (''KEY_Q'', ''Q''),
    (''KEY_R'', ''R''), (''KEY_S'', ''S''), (''KEY_T'', ''T''), (''KEY_U'', ''U''), (''KEY_V'', ''V''),
    (''KEY_W'', ''W''), (''KEY_X'', ''X''), (''KEY_Y'', ''Y''), (''KEY_Z'', ''Z''), (''KEY_LEFT_BRACKET'', ''[''),
    (''KEY_BACKSLASH'', [CHR 0x5C]), (''KEY_RIGHT_BRACKET'', '']''), (''KEY_GRAVE_ACCENT'', [CHR 0x60]),
    (''KEY_ESCAPE'', ''ESCAPE''), (''KEY_ENTER'', ''ENTER''), (''KEY_TAB'', ''TAB''),
    (''KEY_BACKSPACE'', ''BACKSPACE''), (''KEY_INSERT'', ''INSERT''), (''KEY_DELETE'', ''DELETE''),
    (''KEY_RIGHT'', ''RIGHT''), (''KEY_LEFT'', ''LEFT''), (''KEY_DOWN'', ''DOWN''), (''KEY_UP'', ''UP''),
    (''KEY_PAGE_UP'', ''PAGE_UP''), (''KEY_PAGE_DOWN'', ''PAGE_DOWN''), (''KEY_HOME'', ''HOME''),
    (''KEY_END'', ''END''), (''KEY_PRINT_SCREEN'', ''PRINTSCREEN''), (''KEY_PAUSE'', ''PAUSE''),
    (''KEY_F1'', ''F1''), (''KEY_F2'', ''F2''), (''KEY_F3'', ''F3''), (''KEY_F4'', ''F4''), (''KEY_F5'', ''F5''),
    (''KEY_F6'', ''F6''), (''KEY_F7'', ''F7''), (''KEY_F8'', ''F8''), (''KEY_F9'', ''F9''), (''KEY_F10'', ''F10''),
    (''KEY_F11'', ''F11''), (''KEY_F12'', ''F12''), (''KEY_KP_0'', ''NUMPAD_0''), (''KEY_KP_1'', ''NUMPAD_1''),
    (''KEY_KP_2'', ''NUMPAD_2''), (''KEY_KP_3'', ''NUMPAD_3''), (''KEY_KP_4'', ''NUMPAD_4''),
    (''KEY_KP_5'', ''NUMPAD_5''), (''KEY_KP_6'', ''NUMPAD_6''), (''KEY_KP_7'', ''NUMPAD_7''),
    (''KEY_KP_8'', ''NUMPAD_8''), (''KEY_KP_9'', ''NUMPAD_9''), (''KEY_KP_DECIMAL'', ''NUMPAD_DECIMAL''),
    (''KEY_KP_DIVIDE'', ''NUMPAD_DIVIDE''), (''KEY_KP_MULTIPLY'', ''NUMPAD_MULTIPLY''),
    (''KEY_KP_SUBTRACT'', ''NUMPAD_SUBTRACT''), (''KEY_KP_ADD'', ''NUMPAD_ADD''),
    (''KEY_KP_ENTER'', ''NUMPAD_ENTER''), (''KEY_KP_EQUAL'', ''NUMPAD_EQUAL''), (''KEY_MENU'', ''MENU'')]"

definition MODS_2_STRING :: "(string \<times> string) list" where
  "MODS_2_STRING =
   [(''MOD_SHIFT'', ''Shift''), (''MOD_CONTROL'', ''Control''), (''MOD_ALT'', ''Alt''), (''MOD_SUPER'', ''Super''),
    (''MOD_CAPS_LOCK'', ''CapsLock''), (''MOD_NUM_LOCK'', ''Numlock'')]"

definition PLAYERACTIONS_2_STRINGS :: "(PlayerActionEvent \<times> string) list" where
  "PLAYERACTIONS_2_STRINGS =
   [(MoveForward, ''move forward''), (MoveBackward, ''move backward''), (MoveUp, ''move up''),
    (MoveDown, ''stop move down''), (MoveLeft, ''move left''), (MoveRight, ''move right''),
    (RollLeft, ''roll left''), (RollRight, ''roll right''), (PauseGame, ''pause game''),
    (IncreaseSpeed, ''increase speed''), (DecreaseSpeed, ''decrease speed''),
    (LockChunkLoadingPoint, ''lock chunk loading point''), (ModifyBlock, ''modify block'')]"

definition MOUSEKEY_2_STRING :: "(string \<times> string) list" where
  "MOUSEKEY_2_STRING =
   [(''MOUSE_BUTTON_LEFT'', ''MOUSE_LEFT''), (''MOUSE_BUTTON_RIGHT'', ''MOUSE_RIGHT''),
    (''MOUSE_BUTTON_MIDDLE'', ''MOUSE_MIDDLE''), (''MOUSE_BUTTON_4'', ''MOUSE_4''),
    (''MOUSE_BUTTON_5'', ''MOUSE_5''), (''MOUSE_BUTTON_6'', ''MOUSE_6''), (''MOUSE_BUTTON_7'', ''MOUSE_7''),
    (''MOUSE_BUTTON_8'', ''MOUSE_8'')]"

definition KEYS_DELIMITER :: string where "KEYS_DELIMITER = ''+''"
definition KEYS_SEQUENCE_DELIMITER :: string where "KEYS_SEQUENCE_DELIMITER = '', ''"
definition SCROLL_UP_STRING :: string where "SCROLL_UP_STRING = ''ScrollUp''"
definition SCROLL_DOWN_STRING :: string where "SCROLL_DOWN_STRING = ''ScrollDown''"

section \<open>Strings\<close>

text \<open>The pieces \<open>string_split_apply\<close> hands to its function; \<open>piece\<close> is the piece so far,
  reversed. The code does not end on an empty delimiter, which it never uses.\<close>

fun is_prefix :: "string \<Rightarrow> string \<Rightarrow> bool" where
  "is_prefix [] s \<longleftrightarrow> True"
| "is_prefix (d # ds) [] \<longleftrightarrow> False"
| "is_prefix (d # ds) (c # cs) \<longleftrightarrow> d = c \<and> is_prefix ds cs"

fun split_pieces :: "nat \<Rightarrow> string \<Rightarrow> string \<Rightarrow> string \<Rightarrow> string list" where
  "split_pieces skip d piece [] = [rev piece]"
| "split_pieces (Suc skip) d piece (c # cs) = split_pieces skip d piece cs"
| "split_pieces 0 d piece (c # cs) =
     (if is_prefix d (c # cs) then rev piece # split_pieces (length d - 1) d [] cs
      else split_pieces 0 d (c # piece) cs)"

definition string_split_apply :: "string \<Rightarrow> string \<Rightarrow> string list" where
  "string_split_apply s d = split_pieces 0 d [] s"

fun contains :: "string \<Rightarrow> string \<Rightarrow> bool" where
  "contains d [] \<longleftrightarrow> is_prefix d []"
| "contains d (c # cs) \<longleftrightarrow> is_prefix d (c # cs) \<or> contains d cs"

definition actionToString :: "PlayerActionEvent \<Rightarrow> string" where
  "actionToString event = (case map_of PLAYERACTIONS_2_STRINGS event of None \<Rightarrow> [] | Some s \<Rightarrow> s)"

definition stringToAction :: "string \<Rightarrow> PlayerActionEvent" where
  "stringToAction s =
     (case find (\<lambda>(e, t). t = s) PLAYERACTIONS_2_STRINGS of None \<Rightarrow> No_Action | Some (e, t) \<Rightarrow> e)"

text \<open>The last matching name, since the loop does not stop, and the names of the modifiers.\<close>

definition name_of :: "(string \<Rightarrow> int) \<Rightarrow> (string \<times> string) list \<Rightarrow> int \<Rightarrow> string" where
  "name_of G table code = foldl (\<lambda>result (c, s). if G c = code then s else result) [] table"

definition append_mods :: "(string \<Rightarrow> int) \<Rightarrow> int \<Rightarrow> string \<Rightarrow> string" where
  "append_mods G mods result =
     foldl (\<lambda>result (c, s). if mods AND G c \<noteq> 0 then result @ KEYS_DELIMITER @ s else result) result MODS_2_STRING"

definition keyboardKeyToString :: "(string \<Rightarrow> int) \<Rightarrow> int \<Rightarrow> int \<Rightarrow> string" where
  "keyboardKeyToString G key mods = append_mods G mods (name_of G KEYCODE_2_STRING key)"

definition mouseButtonToString :: "(string \<Rightarrow> int) \<Rightarrow> int \<Rightarrow> int \<Rightarrow> string" where
  "mouseButtonToString G button mods = append_mods G mods (name_of G MOUSEKEY_2_STRING button)"

definition scrollToString :: "real \<Rightarrow> string" where
  "scrollToString yoffset = (if yoffset \<ge> 0 then SCROLL_UP_STRING else SCROLL_DOWN_STRING)"

section \<open>Parsing\<close>

datatype mapkey = Unknown | Key int int | Mouse int int | Scroll bool

definition code_of :: "(string \<Rightarrow> int) \<Rightarrow> (string \<times> string) list \<Rightarrow> string \<Rightarrow> int option" where
  "code_of G table s = map_option (\<lambda>(c, t). G c) (find (\<lambda>(c, t). t = s) table)"

text \<open>\<open>parseComplexToken\<close> on the variables \<open>key\<close>, \<open>mods\<close>, \<open>key_type\<close> and \<open>fully_parsed\<close>.\<close>

definition parseComplexToken :: "(string \<Rightarrow> int) \<Rightarrow> int \<times> int \<times> nat \<times> bool \<Rightarrow> string \<Rightarrow> int \<times> int \<times> nat \<times> bool" where
  "parseComplexToken G st s =
     (case st of (key, mods, key_type, fully_parsed) \<Rightarrow>
        if \<not> fully_parsed then st
        else (case code_of G KEYCODE_2_STRING s of
                Some k \<Rightarrow> (k, mods, 1, True)
              | None \<Rightarrow>
                  (case code_of G MOUSEKEY_2_STRING s of
                     Some k \<Rightarrow> (k, mods, 2, True)
                   | None \<Rightarrow>
                       (case code_of G MODS_2_STRING s of
                          Some m \<Rightarrow> (key, mods OR m, key_type, True)
                        | None \<Rightarrow> (key, mods, key_type, False)))))"

definition stringToMapkey :: "(string \<Rightarrow> int) \<Rightarrow> string \<Rightarrow> mapkey" where
  "stringToMapkey G s =
     (if \<not> contains KEYS_DELIMITER s
      then (case code_of G KEYCODE_2_STRING s of
              Some k \<Rightarrow> Key k 0
            | None \<Rightarrow>
                (case code_of G MOUSEKEY_2_STRING s of
                   Some k \<Rightarrow> Mouse k 0
                 | None \<Rightarrow>
                     if s = SCROLL_UP_STRING then Scroll True
                     else if s = SCROLL_DOWN_STRING then Scroll False else Unknown))
      else (case foldl (parseComplexToken G) (0, 0, 0, True) (string_split_apply s KEYS_DELIMITER) of
              (key, mods, key_type, fully_parsed) \<Rightarrow>
                if \<not> fully_parsed then Unknown
                else if key_type = 0 then Unknown
                else if key_type = 1 then Key key mods
                else Mouse key mods))"

section \<open>Bindings\<close>

record bindings =
  keyboardKeyToActionMap :: "int \<times> int \<rightharpoonup> PlayerActionEvent"
  mouseKeyToActionMap :: "int \<times> int \<rightharpoonup> PlayerActionEvent"
  scrollToActionMap :: "bool \<rightharpoonup> PlayerActionEvent"

definition no_bindings :: bindings where
  "no_bindings = \<lparr>keyboardKeyToActionMap = Map.empty, mouseKeyToActionMap = Map.empty, scrollToActionMap = Map.empty\<rparr>"

fun bind_key :: "mapkey \<Rightarrow> PlayerActionEvent \<Rightarrow> bindings \<Rightarrow> bindings" where
  "bind_key Unknown event b = b"
| "bind_key (Key k m) event b = b\<lparr>keyboardKeyToActionMap := (keyboardKeyToActionMap b)((k, m) \<mapsto> event)\<rparr>"
| "bind_key (Mouse k m) event b = b\<lparr>mouseKeyToActionMap := (mouseKeyToActionMap b)((k, m) \<mapsto> event)\<rparr>"
| "bind_key (Scroll up) event b = b\<lparr>scrollToActionMap := (scrollToActionMap b)(up \<mapsto> event)\<rparr>"

definition parseToken :: "(string \<Rightarrow> int) \<Rightarrow> string \<Rightarrow> PlayerActionEvent \<Rightarrow> string \<Rightarrow> bindings \<Rightarrow> bindings option" where
  "parseToken G s event d b =
     (if stringToMapkey G s \<noteq> Unknown then Some (bind_key (stringToMapkey G s) event b)
      else if stringToMapkey G d = Unknown then None
      else Some (bind_key (stringToMapkey G d) event b))"

fun parse_tokens :: "(string \<Rightarrow> int) \<Rightarrow> string list \<Rightarrow> PlayerActionEvent \<Rightarrow> string \<Rightarrow> bindings \<Rightarrow> bindings option" where
  "parse_tokens G [] event d b = Some b"
| "parse_tokens G (s # ss) event d b =
     (case parseToken G s event d b of None \<Rightarrow> None | Some b \<Rightarrow> parse_tokens G ss event d b)"

definition setting :: "PlayerActionEvent \<Rightarrow> string \<Rightarrow> string \<Rightarrow> 'd scheme_entry" where
  "setting event text value = \<lparr>entry_section = ''player actions'', parameter_name = actionToString event, description = text,
     default_value = Opt_String value\<rparr>"

definition actionSettingsScheme :: "(string \<Rightarrow> int) \<Rightarrow> 'd scheme_entry list" where
  "actionSettingsScheme G =
     [setting MoveForward ''Fly forward'' (keyboardKeyToString G (G ''KEY_W'') 0),
      setting MoveRight ''Fly right'' (keyboardKeyToString G (G ''KEY_D'') 0),
      setting MoveLeft ''Fly left'' (keyboardKeyToString G (G ''KEY_A'') 0),
      setting MoveBackward ''Fly backward'' (keyboardKeyToString G (G ''KEY_S'') 0),
      setting MoveDown ''Fly down'' (keyboardKeyToString G (G ''KEY_C'') 0),
      setting MoveUp ''Fly up'' (keyboardKeyToString G (G ''KEY_SPACE'') 0),
      setting RollLeft ''Roll counterclockwise'' (keyboardKeyToString G (G ''KEY_Q'') 0),
      setting RollRight ''Rool clockwise'' (keyboardKeyToString G (G ''KEY_E'') 0),
      setting PauseGame ''Pause movement and release cursor'' (mouseButtonToString G (G ''MOUSE_BUTTON_LEFT'') 0
        @ KEYS_SEQUENCE_DELIMITER
        @ keyboardKeyToString G (G ''KEY_ESCAPE'') 0),
      setting IncreaseSpeed ''Incrase movement speed'' (scrollToString 1),
      setting DecreaseSpeed ''Decrease movement speed'' (scrollToString (- 1)),
      setting LockChunkLoadingPoint ''Lock chunk-loading position'' (keyboardKeyToString G (G ''KEY_F'') 0),
      setting ModifyBlock ''Modify the block in front of you'' (mouseButtonToString G (G ''MOUSE_BUTTON_RIGHT'') 0)]"

text \<open>\<open>init\<close>: one setting, with the value the configuration has for it, and all of them. A failed
  lookup of the option is an exception (\<open>Inl\<close>).\<close>

definition init_entry ::
  "(string \<Rightarrow> int) \<Rightarrow> ('i, 'd) config \<Rightarrow> 'd scheme_entry \<Rightarrow> bindings \<Rightarrow> config_error + bindings option" where
  "init_entry G c e b =
     (case default_value e of
        Opt_String d \<Rightarrow>
          (case optionString c (entry_section e) (parameter_name e) of
             Inl x \<Rightarrow> Inl x
           | Inr v \<Rightarrow>
               let value = (case v of None \<Rightarrow> d | Some s \<Rightarrow> s);
                   event = stringToAction (parameter_name e)
               in Inr (if event = No_Action then Some b
                       else if \<not> contains KEYS_SEQUENCE_DELIMITER value then parseToken G value event d b
                       else parse_tokens G (string_split_apply value KEYS_SEQUENCE_DELIMITER) event d b))
      | _ \<Rightarrow> Inl Bad_Variant_Access)"

fun init_entries ::
  "(string \<Rightarrow> int) \<Rightarrow> ('i, 'd) config \<Rightarrow> 'd scheme_entry list \<Rightarrow> bindings \<Rightarrow> config_error + bindings option" where
  "init_entries G c [] b = Inr (Some b)"
| "init_entries G c (e # es) b =
     (case init_entry G c e b of
        Inl x \<Rightarrow> Inl x
      | Inr None \<Rightarrow> Inr None
      | Inr (Some b) \<Rightarrow> init_entries G c es b)"

text \<open>The static state: the bindings and the settings. \<open>release\<close> deletes the settings, which saves
  their file, and keeps the bindings.\<close>

record ('i, 'd) adapter =
  bound :: bindings
  actionSettingsConfig :: "('i, 'd) config option"

definition init_adapter ::
  "(string \<Rightarrow> int) \<Rightarrow> 'i ini_ops \<Rightarrow> 'd double_ops \<Rightarrow> 'i \<Rightarrow> ('i, 'd) adapter \<Rightarrow> config_error + ('i, 'd) adapter option" where
  "init_adapter G I D file a =
     (if actionSettingsConfig a \<noteq> None then Inr None
      else (case new_config I D file (actionSettingsScheme G) of
              Inl x \<Rightarrow> Inl x
            | Inr c \<Rightarrow>
                map_sum id (map_option (\<lambda>b. \<lparr>bound = b, actionSettingsConfig = Some c\<rparr>))
                  (init_entries G c (actionSettingsScheme G) (bound a))))"

definition release_adapter :: "('i, 'd) adapter \<Rightarrow> 'i option \<times> ('i, 'd) adapter" where
  "release_adapter a = (map_option ini (actionSettingsConfig a), a\<lparr>actionSettingsConfig := None\<rparr>)"

section \<open>Events\<close>

definition glfwKeyboardToPlayerEvent :: "(string \<Rightarrow> int) \<Rightarrow> bindings \<Rightarrow> int \<Rightarrow> int \<Rightarrow> int \<Rightarrow> PlayerActionEvent \<times> bool" where
  "glfwKeyboardToPlayerEvent G b key action mods =
     (if G ''KEY_0'' \<le> key \<and> key \<le> G ''KEY_9'' \<and> mods = 0
      then (ChooseItem (nat (key - G ''KEY_0'')), action \<noteq> G ''RELEASE'')
      else (case keyboardKeyToActionMap b (key, mods) of
              Some event \<Rightarrow> (event, action \<noteq> G ''RELEASE'')
            | None \<Rightarrow> (No_Action, True)))"

definition glfwMouseKeyToPlayerEvent :: "(string \<Rightarrow> int) \<Rightarrow> bindings \<Rightarrow> int \<Rightarrow> int \<Rightarrow> int \<Rightarrow> PlayerActionEvent \<times> bool" where
  "glfwMouseKeyToPlayerEvent G b button action mods =
     (case mouseKeyToActionMap b (button, mods) of
        Some event \<Rightarrow> (event, action \<noteq> G ''RELEASE'')
      | None \<Rightarrow> (No_Action, True))"

definition glfwMouseScrollToPlayerEvent :: "bindings \<Rightarrow> real \<Rightarrow> real \<Rightarrow> PlayerActionEvent \<times> bool" where
  "glfwMouseScrollToPlayerEvent b xoffset yoffset =
     (case scrollToActionMap b (yoffset \<ge> 0) of
        Some event \<Rightarrow> (event, True)
      | None \<Rightarrow> (No_Action, True))"

section \<open>What is documented of GLFW\<close>

definition glfw_ok :: "(string \<Rightarrow> int) \<Rightarrow> bool" where
  "glfw_ok G \<longleftrightarrow> distinct (map (\<lambda>(c, s). G c) KEYCODE_2_STRING) \<and> distinct (map (\<lambda>(c, s). G c) MOUSEKEY_2_STRING) \<and>
     map (\<lambda>(c, s). G c) MODS_2_STRING = [1, 2, 4, 8, 16, 32] \<and> G ''KEY_9'' = G ''KEY_0'' + 9"

text \<open>The documented values.\<close>

definition glfw_values :: "(string \<times> int) list" where
  "glfw_values =
   [(''KEY_SPACE'', 32), (''KEY_APOSTROPHE'', 39), (''KEY_COMMA'', 44), (''KEY_MINUS'', 45), (''KEY_PERIOD'', 46),
    (''KEY_SLASH'', 47), (''KEY_0'', 48), (''KEY_1'', 49), (''KEY_2'', 50), (''KEY_3'', 51), (''KEY_4'', 52),
    (''KEY_5'', 53), (''KEY_6'', 54), (''KEY_7'', 55), (''KEY_8'', 56), (''KEY_9'', 57), (''KEY_SEMICOLON'', 59),
    (''KEY_EQUAL'', 61), (''KEY_A'', 65), (''KEY_B'', 66), (''KEY_C'', 67), (''KEY_D'', 68), (''KEY_E'', 69),
    (''KEY_F'', 70), (''KEY_G'', 71), (''KEY_H'', 72), (''KEY_I'', 73), (''KEY_J'', 74), (''KEY_K'', 75),
    (''KEY_L'', 76), (''KEY_M'', 77), (''KEY_N'', 78), (''KEY_O'', 79), (''KEY_P'', 80), (''KEY_Q'', 81),
    (''KEY_R'', 82), (''KEY_S'', 83), (''KEY_T'', 84), (''KEY_U'', 85), (''KEY_V'', 86), (''KEY_W'', 87),
    (''KEY_X'', 88), (''KEY_Y'', 89), (''KEY_Z'', 90), (''KEY_LEFT_BRACKET'', 91), (''KEY_BACKSLASH'', 92),
    (''KEY_RIGHT_BRACKET'', 93), (''KEY_GRAVE_ACCENT'', 96), (''KEY_ESCAPE'', 256), (''KEY_ENTER'', 257),
    (''KEY_TAB'', 258), (''KEY_BACKSPACE'', 259), (''KEY_INSERT'', 260), (''KEY_DELETE'', 261),
    (''KEY_RIGHT'', 262), (''KEY_LEFT'', 263), (''KEY_DOWN'', 264), (''KEY_UP'', 265), (''KEY_PAGE_UP'', 266),
    (''KEY_PAGE_DOWN'', 267), (''KEY_HOME'', 268), (''KEY_END'', 269), (''KEY_PRINT_SCREEN'', 283),
    (''KEY_PAUSE'', 284), (''KEY_F1'', 290), (''KEY_F2'', 291), (''KEY_F3'', 292), (''KEY_F4'', 293),
    (''KEY_F5'', 294), (''KEY_F6'', 295), (''KEY_F7'', 296), (''KEY_F8'', 297), (''KEY_F9'', 298),
    (''KEY_F10'', 299), (''KEY_F11'', 300), (''KEY_F12'', 301), (''KEY_KP_0'', 320), (''KEY_KP_1'', 321),
    (''KEY_KP_2'', 322), (''KEY_KP_3'', 323), (''KEY_KP_4'', 324), (''KEY_KP_5'', 325), (''KEY_KP_6'', 326),
    (''KEY_KP_7'', 327), (''KEY_KP_8'', 328), (''KEY_KP_9'', 329), (''KEY_KP_DECIMAL'', 330),
    (''KEY_KP_DIVIDE'', 331), (''KEY_KP_MULTIPLY'', 332), (''KEY_KP_SUBTRACT'', 333), (''KEY_KP_ADD'', 334),
    (''KEY_KP_ENTER'', 335), (''KEY_KP_EQUAL'', 336), (''KEY_MENU'', 348), (''MOD_SHIFT'', 1),
    (''MOD_CONTROL'', 2), (''MOD_ALT'', 4), (''MOD_SUPER'', 8), (''MOD_CAPS_LOCK'', 16), (''MOD_NUM_LOCK'', 32),
    (''MOUSE_BUTTON_LEFT'', 0), (''MOUSE_BUTTON_RIGHT'', 1), (''MOUSE_BUTTON_MIDDLE'', 2), (''MOUSE_BUTTON_4'', 3),
    (''MOUSE_BUTTON_5'', 4), (''MOUSE_BUTTON_6'', 5), (''MOUSE_BUTTON_7'', 6), (''MOUSE_BUTTON_8'', 7),
    (''RELEASE'', 0), (''PRESS'', 1), (''REPEAT'', 2)]"

definition glfw3 :: "string \<Rightarrow> int" where
  "glfw3 c = (case map_of glfw_values c of Some v \<Rightarrow> v | None \<Rightarrow> -1)"

lemma glfw3_ok: "glfw_ok glfw3"
  by code_simp

section \<open>Splitting\<close>

lemma split_end: "x \<notin> set t \<Longrightarrow> split_pieces 0 [x] p t = [rev p @ t]"
  by (induction t arbitrary: p) auto

lemma split_here: "x \<notin> set t \<Longrightarrow> split_pieces 0 [x] p (t @ x # r) = (rev p @ t) # split_pieces 0 [x] [] r"
  by (induction t arbitrary: p) auto

lemma split_joined:
  "x \<notin> set t \<Longrightarrow> \<forall>s \<in> set ss. x \<notin> set s \<Longrightarrow> split_pieces 0 [x] [] (t @ concat (map (\<lambda>s. [x] @ s) ss)) = t # ss"
proof (induction ss arbitrary: t)
  case Nil
  then show ?case by (simp add: split_end)
next
  case (Cons s ss)
  then show ?case using split_here[of x t "[]" "s @ concat (map (\<lambda>s. [x] @ s) ss)"] by simp
qed

lemma contains_single: "contains [x] s \<longleftrightarrow> x \<in> set s"
  by (induction s) auto

section \<open>Tables\<close>

lemma table_names:
  "distinct (map snd KEYCODE_2_STRING)" "distinct (map snd MOUSEKEY_2_STRING)" "distinct (map snd MODS_2_STRING)"
  "list_all (\<lambda>s. s \<notin> set (map snd KEYCODE_2_STRING)) (map snd MOUSEKEY_2_STRING)"
  "list_all (\<lambda>s. s \<notin> set (map snd KEYCODE_2_STRING)) (map snd MODS_2_STRING)"
  "list_all (\<lambda>s. s \<notin> set (map snd MOUSEKEY_2_STRING)) (map snd MODS_2_STRING)"
  "list_all (\<lambda>s. CHR ''+'' \<notin> set s) (map snd KEYCODE_2_STRING)"
  "list_all (\<lambda>s. CHR ''+'' \<notin> set s) (map snd MOUSEKEY_2_STRING)"
  "list_all (\<lambda>s. CHR ''+'' \<notin> set s) (map snd MODS_2_STRING)"
  by code_simp+

lemma find_name: "distinct (map snd xs) \<Longrightarrow> (c, t) \<in> set xs \<Longrightarrow> find (\<lambda>(c, s). s = t) xs = Some (c, t)"
  by (induction xs) force+

lemma find_no_name: "t \<notin> set (map snd xs) \<Longrightarrow> find (\<lambda>(c, s). s = t) xs = None"
  by (force simp: find_None_iff)

lemma code_of_name: "distinct (map snd xs) \<Longrightarrow> (c, t) \<in> set xs \<Longrightarrow> code_of G xs t = Some (G c)"
  by (simp add: code_of_def find_name)

lemma code_of_none: "t \<notin> set (map snd xs) \<Longrightarrow> code_of G xs t = None"
  unfolding code_of_def by (subst find_no_name) auto

lemma name_of_other: "code \<notin> set (map (\<lambda>(c, s). G c) xs) \<Longrightarrow> foldl (\<lambda>result (c, s). if G c = code then s else result) r xs = r"
  by (induction xs arbitrary: r) auto

lemma name_of_code:
  assumes "distinct (map (\<lambda>(c, s). G c) xs)" "(c, t) \<in> set xs"
  shows "name_of G xs (G c) = t"
proof -
  have "foldl (\<lambda>result (c', s). if G c' = G c then s else result) r xs = t" for r
    using assms
  proof (induction xs arbitrary: r)
    case (Cons x xs)
    show ?case
    proof (cases "x = (c, t)")
      case True
      then show ?thesis using name_of_other[of "G c" G xs t] Cons.prems(1) by simp
    next
      case False
      then show ?thesis using Cons by simp
    qed
  qed simp
  then show ?thesis by (simp add: name_of_def)
qed

section \<open>Modifiers\<close>

definition active_mods :: "(string \<Rightarrow> int) \<Rightarrow> int \<Rightarrow> (string \<times> string) list" where
  "active_mods G mods = filter (\<lambda>(c, s). mods AND G c \<noteq> 0) MODS_2_STRING"

lemma append_mods_active: "append_mods G mods r = r @ concat (map (\<lambda>s. KEYS_DELIMITER @ s) (map snd (active_mods G mods)))"
proof -
  have "foldl (\<lambda>result (c, s). if mods AND G c \<noteq> 0 then result @ KEYS_DELIMITER @ s else result) r xs =
      r @ concat (map (\<lambda>s. KEYS_DELIMITER @ s) (map snd (filter (\<lambda>(c, s). mods AND G c \<noteq> 0) xs)))" for xs
    by (induction xs arbitrary: r) auto
  then show ?thesis by (simp add: append_mods_def active_mods_def)
qed

lemma parse_mods:
  assumes "\<forall>(c, s) \<in> set xs. (c, s) \<in> set MODS_2_STRING"
  shows "foldl (parseComplexToken G) (k, m, ty, True) (map snd xs) = (k, foldl (OR) m (map (\<lambda>(c, s). G c) xs), ty, True)"
  using assms
proof (induction xs arbitrary: m)
  case (Cons x xs)
  obtain c s where x: "x = (c, s)" by force
  then have cs: "(c, s) \<in> set MODS_2_STRING" using Cons.prems by simp
  then have "s \<in> set (map snd MODS_2_STRING)" by force
  then have "s \<notin> set (map snd KEYCODE_2_STRING)" "s \<notin> set (map snd MOUSEKEY_2_STRING)"
    using table_names(5,6) unfolding list_all_iff by blast+
  then have "parseComplexToken G (k, m, ty, True) s = (k, m OR G c, ty, True)"
    using code_of_none[of s] code_of_name[OF table_names(3) cs, of G] by (simp add: parseComplexToken_def)
  then show ?case using Cons x by simp
qed simp

lemma fold_or_bits: "bit (foldl (OR) (m :: int) xs) n \<longleftrightarrow> bit m n \<or> (\<exists>x \<in> set xs. bit x n)"
  by (induction xs arbitrary: m) (auto simp: bit_or_iff)

lemma and_power: "mods AND 2 ^ i \<noteq> 0 \<longleftrightarrow> bit (mods :: int) i"
proof -
  have "bit (mods AND 2 ^ i) n \<longleftrightarrow> bit mods i \<and> n = i" for n
    by (auto simp: bit_and_iff bit_exp_iff)
  then show ?thesis by (metis bit_0_eq bot_apply bot_bool_def bit_eqI)
qed

lemma mods_values:
  assumes "glfw_ok G"
  shows "{G c | c s. (c, s) \<in> set MODS_2_STRING} = (\<lambda>i. 2 ^ i) ` {..<6}"
proof -
  have "{G c | c s. (c, s) \<in> set MODS_2_STRING} = set (map (\<lambda>(c, s). G c) MODS_2_STRING)" by force
  also have "\<dots> = set [1, 2, 4, 8, 16, 32]" using assms by (simp only: glfw_ok_def)
  also have "\<dots> = set (map (\<lambda>i. 2 ^ i) [0, 1, 2, 3, 4, 5])" by simp
  also have "\<dots> = (\<lambda>i. 2 ^ i) ` set [0, 1, 2, 3, 4, 5]" by (rule set_map)
  also have "set [0, 1, 2, 3, 4, 5] = {..<6 :: nat}" by auto
  finally show ?thesis .
qed

lemma active_mods_value:
  assumes "glfw_ok G"
  shows "foldl (OR) 0 (map (\<lambda>(c, s). G c) (active_mods G mods)) = mods AND 63"
proof (rule bit_eqI)
  fix n
  have 1: "(\<exists>x \<in> set (map (\<lambda>(c, s). G c) (active_mods G mods)). bit x n) \<longleftrightarrow>
      (\<exists>x \<in> {G c | c s. (c, s) \<in> set MODS_2_STRING}. mods AND x \<noteq> 0 \<and> bit x n)"
    by (force simp: active_mods_def)
  have "\<dots> \<longleftrightarrow> n < 6 \<and> bit mods n" unfolding mods_values[OF assms] by (auto simp: and_power bit_exp_iff)
  moreover have "bit (63 :: int) n \<longleftrightarrow> n < 6"
  proof -
    have m: "(63 :: int) = mask 6" by (simp add: mask_eq_exp_minus_1)
    have "bit (mask 6 :: int) n \<longleftrightarrow> n < 6" unfolding bit_mask_iff by simp
    then show ?thesis unfolding m .
  qed
  ultimately show "bit (foldl (OR) 0 (map (\<lambda>(c, s). G c) (active_mods G mods))) n \<longleftrightarrow> bit (mods AND 63) n"
    using 1 by (simp add: fold_or_bits bit_and_iff) blast
qed

lemma active_mods_names: "\<forall>s \<in> set (map snd (active_mods G mods)). CHR ''+'' \<notin> set s"
  using table_names(9) by (auto simp: active_mods_def list_all_iff)

lemma active_mods_in: "\<forall>(c, s) \<in> set (active_mods G mods). (c, s) \<in> set MODS_2_STRING"
  by (auto simp: active_mods_def)

lemma active_mods_none: "glfw_ok G \<Longrightarrow> active_mods G mods = [] \<Longrightarrow> mods AND 63 = 0"
  using active_mods_value[of G mods] by simp

text \<open>A name with its modifiers is read as its key or button with these modifiers.\<close>

lemma parse_named:
  assumes "glfw_ok G" "CHR ''+'' \<notin> set t"
    "parseComplexToken G (0, 0, 0, True) t = (k, 0, ty, True)" "ty = 1 \<or> ty = 2"
    "active_mods G mods = [] \<Longrightarrow> stringToMapkey G t = (if ty = 1 then Key k 0 else Mouse k 0)"
  shows "stringToMapkey G (append_mods G mods t) = (if ty = 1 then Key k (mods AND 63) else Mouse k (mods AND 63))"
proof (cases "active_mods G mods = []")
  case True
  then show ?thesis using active_mods_none[OF assms(1) True] assms(5) by (simp add: append_mods_active)
next
  case False
  let ?s = "append_mods G mods t"
  have d: "KEYS_DELIMITER = [CHR ''+'']" by (simp add: KEYS_DELIMITER_def)
  have s: "?s = t @ concat (map (\<lambda>s. [CHR ''+''] @ s) (map snd (active_mods G mods)))"
    by (simp only: append_mods_active d)
  have sp: "string_split_apply ?s KEYS_DELIMITER = t # map snd (active_mods G mods)"
    unfolding string_split_apply_def d s using assms(2) active_mods_names by (rule split_joined)
  have "CHR ''+'' \<in> set ?s" using False by (cases "active_mods G mods") (simp_all add: s)
  then have c: "contains KEYS_DELIMITER ?s" by (simp add: d contains_single)
  have "foldl (parseComplexToken G) (0, 0, 0, True) (t # map snd (active_mods G mods)) =
      (k, foldl (OR) 0 (map (\<lambda>(c, s). G c) (active_mods G mods)), ty, True)"
    using parse_mods[OF active_mods_in, of G k 0 ty] assms(3) by simp
  then show ?thesis using c sp assms(4) by (auto simp: stringToMapkey_def active_mods_value[OF assms(1)])
qed

lemma parse_key:
  assumes "glfw_ok G" "(c, t) \<in> set KEYCODE_2_STRING"
  shows "stringToMapkey G (keyboardKeyToString G (G c) mods) = Key (G c) (mods AND 63)"
proof -
  have "t \<in> set (map snd KEYCODE_2_STRING)" using assms(2) by force
  then have t: "CHR ''+'' \<notin> set t" using table_names(7) unfolding list_all_iff by blast
  have n: "name_of G KEYCODE_2_STRING (G c) = t" using assms by (intro name_of_code) (simp_all add: glfw_ok_def)
  have k: "code_of G KEYCODE_2_STRING t = Some (G c)" by (rule code_of_name[OF table_names(1) assms(2)])
  have "stringToMapkey G t = Key (G c) 0" using k t by (simp add: stringToMapkey_def KEYS_DELIMITER_def contains_single)
  moreover have "parseComplexToken G (0, 0, 0, True) t = (G c, 0, 1, True)" using k by (simp add: parseComplexToken_def)
  ultimately show ?thesis using parse_named[OF assms(1) t, of "G c" 1 mods] n by (simp add: keyboardKeyToString_def)
qed

lemma parse_button:
  assumes "glfw_ok G" "(c, t) \<in> set MOUSEKEY_2_STRING"
  shows "stringToMapkey G (mouseButtonToString G (G c) mods) = Mouse (G c) (mods AND 63)"
proof -
  have "t \<in> set (map snd MOUSEKEY_2_STRING)" using assms(2) by force
  then have t: "CHR ''+'' \<notin> set t" "t \<notin> set (map snd KEYCODE_2_STRING)" using table_names(4,8) unfolding list_all_iff by blast+
  have n: "name_of G MOUSEKEY_2_STRING (G c) = t" using assms by (intro name_of_code) (simp_all add: glfw_ok_def)
  have k: "code_of G KEYCODE_2_STRING t = None" "code_of G MOUSEKEY_2_STRING t = Some (G c)"
    using code_of_none[OF t(2)] code_of_name[OF table_names(2) assms(2)] by simp_all
  have "stringToMapkey G t = Mouse (G c) 0" using k t by (simp add: stringToMapkey_def KEYS_DELIMITER_def contains_single)
  moreover have "parseComplexToken G (0, 0, 0, True) t = (G c, 0, 2, True)" using k by (simp add: parseComplexToken_def)
  ultimately show ?thesis using parse_named[OF assms(1) t(1), of "G c" 2 mods] n by (simp add: mouseButtonToString_def)
qed

lemma parse_scroll: "stringToMapkey G (scrollToString y) = Scroll (y \<ge> 0)"
proof -
  have "SCROLL_UP_STRING \<notin> set (map snd KEYCODE_2_STRING)" "SCROLL_UP_STRING \<notin> set (map snd MOUSEKEY_2_STRING)"
    "SCROLL_DOWN_STRING \<notin> set (map snd KEYCODE_2_STRING)" "SCROLL_DOWN_STRING \<notin> set (map snd MOUSEKEY_2_STRING)"
    "CHR ''+'' \<notin> set SCROLL_UP_STRING" "CHR ''+'' \<notin> set SCROLL_DOWN_STRING" "SCROLL_UP_STRING \<noteq> SCROLL_DOWN_STRING" by code_simp+
  then show ?thesis
    by (simp add: stringToMapkey_def scrollToString_def code_of_none KEYS_DELIMITER_def contains_single)
qed

text \<open>C31: What is written for a key, a button or the wheel, with any modifiers, is read back as
  the same key, button or wheel with the modifiers the code knows.\<close>

theorem binding_text_roundtrip:
  assumes "glfw_ok G"
  shows "list_all (\<lambda>(c, t). stringToMapkey G (keyboardKeyToString G (G c) mods) = Key (G c) (mods AND 63)) KEYCODE_2_STRING \<and>
    list_all (\<lambda>(c, t). stringToMapkey G (mouseButtonToString G (G c) mods) = Mouse (G c) (mods AND 63)) MOUSEKEY_2_STRING \<and>
    stringToMapkey G (scrollToString y) = Scroll (y \<ge> 0)"
  using parse_key[OF assms] parse_button[OF assms] parse_scroll by (auto simp: list_all_iff)

theorem binding_text_roundtrip_witness:
  "stringToMapkey glfw3 (keyboardKeyToString glfw3 65 (1 + 4)) = Key 65 5"
proof -
  have "(''KEY_A'', ''A'') \<in> set KEYCODE_2_STRING" "glfw3 ''KEY_A'' = 65" by code_simp+
  with binding_text_roundtrip[OF glfw3_ok, of "1 + 4"] show ?thesis unfolding list_all_iff by fastforce
qed

section \<open>Settings\<close>

text \<open>The default of each setting but that of \<open>PauseGame\<close> is a token.\<close>

lemma table_keys:
  "list_all (\<lambda>c. c \<in> set (map fst KEYCODE_2_STRING)) [''KEY_W'', ''KEY_D'', ''KEY_A'', ''KEY_S'', ''KEY_C'', ''KEY_SPACE'', ''KEY_Q'', ''KEY_E'', ''KEY_ESCAPE'', ''KEY_F'']"
  "list_all (\<lambda>c. c \<in> set (map fst MOUSEKEY_2_STRING)) [''MOUSE_BUTTON_LEFT'', ''MOUSE_BUTTON_RIGHT'']"
  by code_simp+

lemma default_token:
  assumes "glfw_ok G"
  shows "c \<in> set (map fst KEYCODE_2_STRING) \<Longrightarrow> stringToMapkey G (keyboardKeyToString G (G c) 0) = Key (G c) 0"
    "c \<in> set (map fst MOUSEKEY_2_STRING) \<Longrightarrow> stringToMapkey G (mouseButtonToString G (G c) 0) = Mouse (G c) 0"
  using parse_key[OF assms, of c _ 0] parse_button[OF assms, of c _ 0] by force+

lemma no_mods: "append_mods G 0 t = t"
  by (simp add: append_mods_active active_mods_def case_prod_unfold)

lemma key_text: "glfw_ok G \<Longrightarrow> (c, t) \<in> set KEYCODE_2_STRING \<Longrightarrow> keyboardKeyToString G (G c) 0 = t \<and> stringToMapkey G t = Key (G c) 0"
  using parse_key[of G c t 0] name_of_code[of G KEYCODE_2_STRING c t] by (simp add: keyboardKeyToString_def no_mods glfw_ok_def)

lemma button_text: "glfw_ok G \<Longrightarrow> (c, t) \<in> set MOUSEKEY_2_STRING \<Longrightarrow> mouseButtonToString G (G c) 0 = t \<and> stringToMapkey G t = Mouse (G c) 0"
  using parse_button[of G c t 0] name_of_code[of G MOUSEKEY_2_STRING c t] by (simp add: mouseButtonToString_def no_mods glfw_ok_def)

lemma scroll_text: "scrollToString 1 = ''ScrollUp''" "scrollToString (- 1) = ''ScrollDown''"
  "stringToMapkey G ''ScrollUp'' = Scroll True" "stringToMapkey G ''ScrollDown'' = Scroll False"
  using parse_scroll[of G 1] parse_scroll[of G "- 1"] by (simp_all add: scrollToString_def SCROLL_UP_STRING_def SCROLL_DOWN_STRING_def)

definition default_keys :: "(string \<times> string) list" where
  "default_keys = [(''KEY_W'', ''W''), (''KEY_D'', ''D''), (''KEY_A'', ''A''), (''KEY_S'', ''S''), (''KEY_C'', ''C''),
     (''KEY_SPACE'', ''SPACE''), (''KEY_Q'', ''Q''), (''KEY_E'', ''E''), (''KEY_ESCAPE'', ''ESCAPE''), (''KEY_F'', ''F'')]"

lemma default_keys: "list_all (\<lambda>x. x \<in> set KEYCODE_2_STRING) default_keys"
  "(''MOUSE_BUTTON_LEFT'', ''MOUSE_LEFT'') \<in> set MOUSEKEY_2_STRING" "(''MOUSE_BUTTON_RIGHT'', ''MOUSE_RIGHT'') \<in> set MOUSEKEY_2_STRING"
  by code_simp+

lemma default_texts:
  assumes "glfw_ok G"
  shows "list_all (\<lambda>(c, t). keyboardKeyToString G (G c) 0 = t \<and> stringToMapkey G t = Key (G c) 0) default_keys"
  using key_text[OF assms] default_keys(1) by (auto simp: list_all_iff)

text \<open>The settings written out: text of the default, and what it stands for.\<close>

definition default_settings :: "(PlayerActionEvent \<times> string \<times> string) list" where
  "default_settings =
     [(MoveForward, ''Fly forward'', ''W''), (MoveRight, ''Fly right'', ''D''), (MoveLeft, ''Fly left'', ''A''),
      (MoveBackward, ''Fly backward'', ''S''), (MoveDown, ''Fly down'', ''C''), (MoveUp, ''Fly up'', ''SPACE''),
      (RollLeft, ''Roll counterclockwise'', ''Q''), (RollRight, ''Rool clockwise'', ''E''),
      (PauseGame, ''Pause movement and release cursor'', ''MOUSE_LEFT, ESCAPE''),
      (IncreaseSpeed, ''Incrase movement speed'', ''ScrollUp''), (DecreaseSpeed, ''Decrease movement speed'', ''ScrollDown''),
      (LockChunkLoadingPoint, ''Lock chunk-loading position'', ''F''),
      (ModifyBlock, ''Modify the block in front of you'', ''MOUSE_RIGHT'')]"

lemma scheme_text:
  assumes "glfw_ok G"
  shows "actionSettingsScheme G = map (\<lambda>(e, t, v). setting e t v) default_settings"
  using default_texts[OF assms] button_text[OF assms default_keys(2)] button_text[OF assms default_keys(3)]
  by (simp add: actionSettingsScheme_def default_settings_def default_keys_def scroll_text KEYS_SEQUENCE_DELIMITER_def)

lemma pause_default_unknown: "stringToMapkey G ''MOUSE_LEFT, ESCAPE'' = Unknown"
proof -
  have n: "''MOUSE_LEFT, ESCAPE'' \<notin> set (map snd KEYCODE_2_STRING)" "''MOUSE_LEFT, ESCAPE'' \<notin> set (map snd MOUSEKEY_2_STRING)"
    by code_simp+
  have "\<not> contains KEYS_DELIMITER ''MOUSE_LEFT, ESCAPE''" by code_simp
  then show ?thesis using code_of_none[OF n(1), of G] code_of_none[OF n(2), of G]
    by (simp add: stringToMapkey_def SCROLL_UP_STRING_def SCROLL_DOWN_STRING_def)
qed

lemma default_tokens_known:
  assumes "glfw_ok G"
  shows "list_all (\<lambda>(e, t, v). (stringToMapkey G v = Unknown) = (e = PauseGame)) default_settings"
  using default_texts[OF assms] button_text[OF assms default_keys(2)] button_text[OF assms default_keys(3)] pause_default_unknown[of G]
  by (simp add: default_settings_def default_keys_def scroll_text)

lemma action_names: "list_all (\<lambda>(e, t, v). stringToAction (actionToString e) = e \<and> e \<noteq> No_Action) default_settings"
  by code_simp

text \<open>C32: A setting whose text cannot be read falls back to its default, except that of
  \<open>PauseGame\<close>: its default is a list of two bindings, which is not a token, so that an
  unreadable binding of this action fails an assertion.\<close>

theorem bad_token_uses_default:
  assumes "glfw_ok G" "e \<in> set (actionSettingsScheme G)" "default_value e = Opt_String d" "stringToMapkey G s = Unknown"
  shows "parseToken G s (stringToAction (parameter_name e)) d b =
    (if stringToAction (parameter_name e) = PauseGame then None
     else parseToken G d (stringToAction (parameter_name e)) d b)"
proof -
  obtain ev t v where v: "(ev, t, v) \<in> set default_settings" "e = setting ev t v"
    using assms(2) by (auto simp: scheme_text[OF assms(1)])
  then have "(stringToMapkey G v = Unknown) = (ev = PauseGame)" "stringToAction (actionToString ev) = ev" "d = v"
    using default_tokens_known[OF assms(1)] action_names assms(3) by (auto simp: list_all_iff setting_def)
  then show ?thesis using v(2) assms(4) by (auto simp: parseToken_def setting_def)
qed

theorem bad_token_uses_default_witness:
  "parseToken glfw3 ''LMB'' PauseGame ''MOUSE_LEFT, ESCAPE'' no_bindings = None"
proof -
  have s: "stringToMapkey glfw3 ''LMB'' = Unknown" by code_simp
  let ?e = "setting PauseGame ''Pause movement and release cursor'' ''MOUSE_LEFT, ESCAPE'' :: int scheme_entry"
  have "?e \<in> set (actionSettingsScheme glfw3)" by (simp add: scheme_text[OF glfw3_ok] default_settings_def)
  moreover have "stringToAction (actionToString PauseGame) = PauseGame" by code_simp
  ultimately show ?thesis using bad_token_uses_default[OF glfw3_ok, of ?e] s by (simp add: setting_def)
qed

section \<open>Without a settings file\<close>

lemma scheme_names:
  assumes "glfw_ok G"
  shows "distinct (map entry_names (actionSettingsScheme G :: 'd scheme_entry list))"
proof -
  have "map entry_names (actionSettingsScheme G :: 'd scheme_entry list) =
      map (\<lambda>(e, t, v). (map tolower ''player actions'', map tolower (actionToString e))) default_settings"
    unfolding scheme_text[OF assms] by (simp add: setting_def entry_names_def case_prod_unfold)
  moreover have "distinct (map (\<lambda>(e, t, v). (map tolower ''player actions'', map tolower (actionToString e))) default_settings)"
    by code_simp
  ultimately show ?thesis by simp
qed

lemma init_default:
  assumes "find_option c ''player actions'' (actionToString ev) = Some (Opt_String d)" "stringToAction (actionToString ev) = ev"
    "ev \<noteq> No_Action"
  shows "init_entry G c (setting ev t d) b =
    Inr (if \<not> contains KEYS_SEQUENCE_DELIMITER d then parseToken G d ev d b
         else parse_tokens G (string_split_apply d KEYS_SEQUENCE_DELIMITER) ev d b)"
  using assms by (simp add: init_entry_def setting_def optionString_def)

lemma known_token: "stringToMapkey G s = k \<Longrightarrow> k \<noteq> Unknown \<Longrightarrow> parseToken G s ev d b = Some (bind_key k ev b)"
  by (auto simp: parseToken_def)

lemma default_shapes:
  "list_all (\<lambda>(e, t, v). contains KEYS_SEQUENCE_DELIMITER v = (e = PauseGame)) default_settings"
  "string_split_apply ''MOUSE_LEFT, ESCAPE'' KEYS_SEQUENCE_DELIMITER = [''MOUSE_LEFT'', ''ESCAPE'']"
  by code_simp+

text \<open>The bindings a player gets who has not changed any setting.\<close>

definition default_bindings :: "(string \<Rightarrow> int) \<Rightarrow> bindings" where
  "default_bindings G = \<lparr>keyboardKeyToActionMap = [(G ''KEY_W'', 0) \<mapsto> MoveForward, (G ''KEY_D'', 0) \<mapsto> MoveRight,
       (G ''KEY_A'', 0) \<mapsto> MoveLeft, (G ''KEY_S'', 0) \<mapsto> MoveBackward, (G ''KEY_C'', 0) \<mapsto> MoveDown, (G ''KEY_SPACE'', 0) \<mapsto> MoveUp,
       (G ''KEY_Q'', 0) \<mapsto> RollLeft, (G ''KEY_E'', 0) \<mapsto> RollRight, (G ''KEY_ESCAPE'', 0) \<mapsto> PauseGame,
       (G ''KEY_F'', 0) \<mapsto> LockChunkLoadingPoint],
     mouseKeyToActionMap = [(G ''MOUSE_BUTTON_LEFT'', 0) \<mapsto> PauseGame, (G ''MOUSE_BUTTON_RIGHT'', 0) \<mapsto> ModifyBlock],
     scrollToActionMap = [True \<mapsto> IncreaseSpeed, False \<mapsto> DecreaseSpeed]\<rparr>"

lemma default_entries:
  assumes "glfw_ok G" "\<forall>(ev, t, d) \<in> set default_settings. find_option c ''player actions'' (actionToString ev) = Some (Opt_String d)"
  shows "init_entries G c (actionSettingsScheme G) no_bindings = Inr (Some (default_bindings G))"
proof -
  have o: "list_all (\<lambda>(ev, t, d). \<forall>b. init_entry G c (setting ev t d) b = Inr
      (if ev \<noteq> PauseGame then parseToken G d ev d b else parse_tokens G (string_split_apply d KEYS_SEQUENCE_DELIMITER) ev d b))
      default_settings"
    unfolding list_all_iff
  proof (clarify)
    fix ev t d b assume x: "(ev, t, d) \<in> set default_settings"
    then have "stringToAction (actionToString ev) = ev" "ev \<noteq> No_Action" "contains KEYS_SEQUENCE_DELIMITER d = (ev = PauseGame)"
      using action_names default_shapes(1) by (auto simp: list_all_iff)
    moreover have "find_option c ''player actions'' (actionToString ev) = Some (Opt_String d)" using assms(2) x by blast
    ultimately show "init_entry G c (setting ev t d) b = Inr (if ev \<noteq> PauseGame then parseToken G d ev d b
        else parse_tokens G (string_split_apply d KEYS_SEQUENCE_DELIMITER) ev d b)" by (simp add: init_default)
  qed
  show ?thesis unfolding scheme_text[OF assms(1)]
    using o default_texts[OF assms(1)] button_text[OF assms(1) default_keys(2)] button_text[OF assms(1) default_keys(3)]
    by (simp add: default_settings_def default_keys_def default_shapes(2) scroll_text known_token default_bindings_def no_bindings_def)
qed

text \<open>With a settings file that sets nothing, the adapter starts and binds exactly the default
  keys, buttons and wheel directions.\<close>

theorem starts_with_default_bindings:
  fixes a :: "('i, 'd) adapter" and D :: "'d double_ops"
  assumes "glfw_ok G" "ini_law I" "\<forall>s p. ini_get I file s p = None" "a = \<lparr>bound = no_bindings, actionSettingsConfig = None\<rparr>"
  shows "\<exists>c. init_adapter G I D file a = Inr (Some \<lparr>bound = default_bindings G, actionSettingsConfig = Some c\<rparr>)"
proof -
  note l = load_entries_values[OF assms(2) scheme_names[OF assms(1)], of D "\<lparr>data = Map.empty, ini = file\<rparr>"]
  have v: "entry_value I D file e = Inr (default_value e)" for e :: "'d scheme_entry"
    using assms(3) by (simp add: entry_value_def)
  obtain c where c: "new_config I D file (actionSettingsScheme G) = Inr c"
    using l v by (cases "new_config I D file (actionSettingsScheme G)") (auto simp: new_config_def)
  then have f: "\<forall>e \<in> set (actionSettingsScheme G). find_option c (entry_section e) (parameter_name e) = Some (default_value e)"
    using l v by (auto simp: new_config_def)
  have "find_option c ''player actions'' (actionToString ev) = Some (Opt_String d)" if "(ev, t, d) \<in> set default_settings" for ev t d
  proof -
    have "(setting ev t d :: 'd scheme_entry) \<in> set (actionSettingsScheme G)" using that by (force simp: scheme_text[OF assms(1)])
    then show ?thesis using f by (force simp: setting_def)
  qed
  then have "init_entries G c (actionSettingsScheme G) no_bindings = Inr (Some (default_bindings G))"
    by (intro default_entries[OF assms(1)]) auto
  then show ?thesis using c assms(4) by (simp add: init_adapter_def)
qed

theorem starts_with_default_bindings_witness:
  "case init_adapter glfw3 demo_ini demo_doubles Map.empty \<lparr>bound = no_bindings, actionSettingsConfig = None\<rparr> of
     Inr (Some a) \<Rightarrow> keyboardKeyToActionMap (bound a) (256, 0) = Some PauseGame | _ \<Rightarrow> False"
proof -
  have "glfw3 ''KEY_ESCAPE'' = 256" "glfw3 ''KEY_F'' = 70" by code_simp+
  then have "keyboardKeyToActionMap (default_bindings glfw3) (256, 0) = Some PauseGame" by (simp add: default_bindings_def)
  moreover have "\<forall>s p. ini_get demo_ini Map.empty s p = None" by (simp add: demo_ini_def)
  ultimately show ?thesis
    using starts_with_default_bindings[OF glfw3_ok demo_ini_law _ refl, of Map.empty demo_doubles] by auto
qed

text \<open>Two facts about events: the digits are never looked up in the bindings, and a horizontal turn
  of the wheel counts as an upward one.\<close>

lemma digit_bindings_ignored:
  assumes "glfw_ok G" "i < 10"
  shows "glfwKeyboardToPlayerEvent G b (G ''KEY_0'' + int i) action 0 = (ChooseItem i, action \<noteq> G ''RELEASE'')"
  using assms by (simp add: glfwKeyboardToPlayerEvent_def glfw_ok_def)

lemma horizontal_wheel_is_up: "glfwMouseScrollToPlayerEvent b x 0 = glfwMouseScrollToPlayerEvent b x' 1"
  by (simp add: glfwMouseScrollToPlayerEvent_def)

end
