(* ===== verification/Private_Pool.thy ===== *)
theory Private_Pool
  imports Prelude "HOL-Library.Word"
begin

text \<open>
  The private object pool (src/voxen/common/private_object_pool.cpp): slabs of equal objects with a
  header at their end, a chain of freed objects that runs through the objects themselves, and an
  object that finds its slab, and through its header its pool, by masking its address.

  Addresses are numbers below \<open>2 ^ 64\<close>. \<open>links\<close> holds the pointer-sized word at the start of each
  object, which the owner of a live object may overwrite; \<open>slab_headers\<close> holds the header of the
  slab at an address. \<open>None\<close> is an access to memory that is no slab. The address of a new slab is
  chosen by \<open>operator new\<close> and an argument here.
\<close>

section \<open>Sizes\<close>

definition SLAB_HEADER_SIZE :: nat where "SLAB_HEADER_SIZE = 24"

definition adjustObjectSize :: "nat \<Rightarrow> nat" where
  "adjustObjectSize object_size = max object_size 8"

fun bit_width :: "nat \<Rightarrow> nat" where
  "bit_width n = (if n = 0 then 0 else Suc (bit_width (n div 2)))"

declare bit_width.simps [simp del]

definition bit_ceil :: "nat \<Rightarrow> nat" where
  "bit_ceil n = (if n \<le> 1 then 1 else 2 ^ bit_width (n - 1))"

definition calcSlabSize :: "nat \<Rightarrow> nat \<Rightarrow> nat" where
  "calcSlabSize object_size objects_hint =
     (let slab_size = objects_hint * max object_size 8;
          slab_size = (slab_size + 8 - 1) div 8 * 8;
          slab_size = slab_size + SLAB_HEADER_SIZE
      in bit_ceil slab_size)"

definition calcMaxObjects :: "nat \<Rightarrow> nat \<Rightarrow> nat" where
  "calcMaxObjects adjusted_object_size slab_size = (slab_size - SLAB_HEADER_SIZE) div adjusted_object_size"

section \<open>Operations\<close>

record slab_header =
  header_pool :: nat
  next_slab :: nat
  initial_objects :: nat

record private_pool =
  adjusted_object_size :: nat
  slab_size :: nat
  max_objects :: nat
  live_allocations :: nat
  last_freed_object :: nat
  newest_slab :: nat

record pool_heap =
  links :: "nat \<Rightarrow> nat"
  slab_headers :: "nat \<rightharpoonup> slab_header"
  pools :: "nat \<rightharpoonup> private_pool"

text \<open>The constructor; the sizes are cut to 32 bits.\<close>

definition new_private_pool :: "nat \<Rightarrow> nat \<Rightarrow> private_pool" where
  "new_private_pool object_size objects_hint =
     (let a = adjustObjectSize object_size mod 2 ^ 32; s = calcSlabSize object_size objects_hint mod 2 ^ 32
      in \<lparr>adjusted_object_size = a, slab_size = s, max_objects = calcMaxObjects a s,
          live_allocations = 0, last_freed_object = 0, newest_slab = 0\<rparr>)"

definition set_pool :: "nat \<Rightarrow> private_pool \<Rightarrow> pool_heap \<Rightarrow> pool_heap" where
  "set_pool i P H = H\<lparr>pools := (pools H)(i \<mapsto> P)\<rparr>"

text \<open>\<open>allocate\<close>: a freed object, or the next one of the newest slab, which may have to be created.\<close>

definition add_slab :: "nat \<Rightarrow> nat \<Rightarrow> private_pool \<Rightarrow> pool_heap \<Rightarrow> private_pool \<times> pool_heap" where
  "add_slab i slab P H =
     (P\<lparr>newest_slab := slab\<rparr>,
      H\<lparr>slab_headers := (slab_headers H)(slab \<mapsto> \<lparr>header_pool = i, next_slab = newest_slab P, initial_objects = 0\<rparr>)\<rparr>)"

definition with_room :: "nat \<Rightarrow> nat \<Rightarrow> private_pool \<Rightarrow> pool_heap \<Rightarrow> (private_pool \<times> pool_heap) option" where
  "with_room i slab P H =
     (if newest_slab P = 0 then Some (add_slab i slab P H)
      else (case slab_headers H (newest_slab P) of
              None \<Rightarrow> None
            | Some h \<Rightarrow> Some (if initial_objects h = max_objects P then add_slab i slab P H else (P, H))))"

definition bump :: "nat \<Rightarrow> private_pool \<Rightarrow> pool_heap \<Rightarrow> (nat \<times> pool_heap) option" where
  "bump i P H =
     (case slab_headers H (newest_slab P) of
        None \<Rightarrow> None
      | Some h \<Rightarrow>
          Some (newest_slab P + initial_objects h * adjusted_object_size P,
            set_pool i (P\<lparr>live_allocations := (live_allocations P + 1) mod 2 ^ 32\<rparr>)
              (H\<lparr>slab_headers := (slab_headers H)(newest_slab P \<mapsto> h\<lparr>initial_objects := initial_objects h + 1\<rparr>)\<rparr>)))"

definition private_allocate :: "nat \<Rightarrow> nat \<Rightarrow> pool_heap \<Rightarrow> (nat \<times> pool_heap) option" where
  "private_allocate i slab H =
     (case pools H i of
        None \<Rightarrow> None
      | Some P \<Rightarrow>
          if last_freed_object P \<noteq> 0
          then Some (last_freed_object P,
            set_pool i (P\<lparr>live_allocations := (live_allocations P + 1) mod 2 ^ 32,
              last_freed_object := links H (last_freed_object P)\<rparr>) H)
          else (case with_room i slab P H of None \<Rightarrow> None | Some (P, H) \<Rightarrow> bump i P H))"

text \<open>\<open>deallocate\<close>: the lower bits of the address are masked off to get the slab.\<close>

definition slab_base :: "nat \<Rightarrow> nat \<Rightarrow> nat" where
  "slab_base obj size' = unat ((of_nat obj :: u64) AND NOT (of_nat size' - 1))"

definition private_deallocate :: "nat \<Rightarrow> nat \<Rightarrow> pool_heap \<Rightarrow> pool_heap option" where
  "private_deallocate obj size' H =
     (case slab_headers H (slab_base obj size') of
        None \<Rightarrow> None
      | Some h \<Rightarrow>
          (case pools H (header_pool h) of
             None \<Rightarrow> None
           | Some P \<Rightarrow>
               Some (set_pool (header_pool h)
                 (P\<lparr>live_allocations := (live_allocations P + 2 ^ 32 - 1) mod 2 ^ 32, last_freed_object := obj\<rparr>)
                 (H\<lparr>links := (links H)(obj := last_freed_object P)\<rparr>))))"

text \<open>The destructor deletes the slabs one after the other; the result has the deleted addresses.\<close>

partial_function (option) delete_slabs :: "nat \<Rightarrow> nat list \<Rightarrow> pool_heap \<Rightarrow> (nat list \<times> pool_heap) option" where
  "delete_slabs slab gone H =
     (if slab = 0 then Some (gone, H)
      else (case slab_headers H slab of
              None \<Rightarrow> None
            | Some h \<Rightarrow> delete_slabs (next_slab h) (gone @ [slab]) (H\<lparr>slab_headers := (slab_headers H)(slab := None)\<rparr>)))"

definition destroy_pool :: "nat \<Rightarrow> pool_heap \<Rightarrow> (nat list \<times> pool_heap) option" where
  "destroy_pool i H =
     (case pools H i of
        None \<Rightarrow> None
      | Some P \<Rightarrow>
          if live_allocations P \<noteq> 0 then None
          else map_option (\<lambda>(gone, H). (gone, H\<lparr>pools := (pools H)(i := None)\<rparr>)) (delete_slabs (newest_slab P) [] H))"

text \<open>\<open>PrivateObjectPool::allocate\<close> with a constructor that throws gives the place back.\<close>

definition allocate_object :: "nat \<Rightarrow> nat \<Rightarrow> bool \<Rightarrow> pool_heap \<Rightarrow> (nat option \<times> pool_heap) option" where
  "allocate_object i slab throws H =
     (case pools H i of
        None \<Rightarrow> None
      | Some P \<Rightarrow>
          (case private_allocate i slab H of
             None \<Rightarrow> None
           | Some (obj, H) \<Rightarrow>
               if throws then map_option (Pair None) (private_deallocate obj (slab_size P) H)
               else Some (Some obj, H)))"

section \<open>Sizes of slabs\<close>

lemma bit_width_bound: "n < 2 ^ bit_width n"
proof (induction n rule: bit_width.induct)
  case (1 n)
  show ?case
  proof (cases "n = 0")
    case False
    have "n div 2 < 2 ^ bit_width (n div 2)" using 1[OF False] .
    then have "n < 2 * 2 ^ bit_width (n div 2)" by linarith
    then show ?thesis using False by (simp add: bit_width.simps[of n])
  qed simp
qed

lemma bit_width_le: "n < 2 ^ k \<Longrightarrow> bit_width n \<le> k"
proof (induction k arbitrary: n)
  case 0
  then show ?case by (simp add: bit_width.simps[of 0])
next
  case (Suc k)
  have "n div 2 < 2 ^ k" using Suc.prems by simp
  then have "bit_width (n div 2) \<le> k" by (rule Suc.IH)
  then show ?case by (simp add: bit_width.simps[of n])
qed

lemma bit_ceil: "n \<le> bit_ceil n" "\<exists>k. bit_ceil n = 2 ^ k" "n \<le> 2 ^ j \<Longrightarrow> bit_ceil n \<le> 2 ^ j"
proof -
  show "n \<le> bit_ceil n" using bit_width_bound[of "n - 1"] unfolding bit_ceil_def by (auto split: if_split)
  show "\<exists>k. bit_ceil n = 2 ^ k"
  proof (cases "n \<le> 1")
    case True
    then have "bit_ceil n = 2 ^ 0" by (simp add: bit_ceil_def)
    then show ?thesis ..
  qed (auto simp: bit_ceil_def)
  assume n: "n \<le> 2 ^ j"
  show "bit_ceil n \<le> 2 ^ j"
  proof (cases "n \<le> 1")
    case False
    then have "n - 1 < 2 ^ j" using n by linarith
    then have "bit_width (n - 1) \<le> j" by (rule bit_width_le)
    then show ?thesis using False by (simp add: bit_ceil_def)
  qed (simp add: bit_ceil_def)
qed

text \<open>The sizes a pool can work with: at least one object of at most 512 bytes, and a slab below
  \<open>2 ^ 32\<close> bytes.\<close>

definition fitting :: "nat \<Rightarrow> nat \<Rightarrow> bool" where
  "fitting object_size objects_hint \<longleftrightarrow> 0 < objects_hint \<and> object_size \<le> 512 \<and> objects_hint * max object_size 8 + 31 \<le> 2 ^ 31"

definition shape_ok :: "private_pool \<Rightarrow> bool" where
  "shape_ok P \<longleftrightarrow> 8 \<le> adjusted_object_size P \<and> 0 < max_objects P \<and> (\<exists>k \<le> 31. slab_size P = 2 ^ k) \<and>
     max_objects P * adjusted_object_size P + SLAB_HEADER_SIZE \<le> slab_size P"

lemma new_pool_shape:
  assumes "fitting object_size objects_hint"
  shows "shape_ok (new_private_pool object_size objects_hint) \<and> objects_hint \<le> max_objects (new_private_pool object_size objects_hint) \<and>
    slab_size (new_private_pool object_size objects_hint) = calcSlabSize object_size objects_hint \<and>
    object_size \<le> adjusted_object_size (new_private_pool object_size objects_hint)"
proof -
  define a where "a = max object_size 8"
  define raw where "raw = (objects_hint * a + 7) div 8 * 8 + 24"
  have s: "calcSlabSize object_size objects_hint = bit_ceil raw"
    by (simp add: calcSlabSize_def Let_def raw_def a_def SLAB_HEADER_SIZE_def add.commute)
  have "raw \<le> objects_hint * a + 7 + 24" unfolding raw_def using div_times_less_eq_dividend[of "objects_hint * a + 7" 8] by linarith
  then have "raw \<le> 2 ^ 31" using assms by (simp add: fitting_def a_def)
  then have le: "bit_ceil raw \<le> 2 ^ 31" by (rule bit_ceil(3))
  obtain k where k: "bit_ceil raw = 2 ^ k" using bit_ceil(2) by blast
  then have "k \<le> 31" using le by (metis one_less_numeral_iff power_le_imp_le_exp semiring_norm(76))
  have "objects_hint * a \<le> (objects_hint * a + 7) div 8 * 8" by linarith
  then have room: "objects_hint * a + 24 \<le> bit_ceil raw" using bit_ceil(1)[of raw] unfolding raw_def by linarith
  have am: "a mod 2 ^ 32 = a" using assms by (simp add: fitting_def a_def)
  have sm: "bit_ceil raw mod 2 ^ 32 = bit_ceil raw" using le by simp
  define m where "m = (bit_ceil raw - 24) div a"
  have P: "new_private_pool object_size objects_hint =
      \<lparr>adjusted_object_size = a, slab_size = bit_ceil raw, max_objects = m, live_allocations = 0, last_freed_object = 0, newest_slab = 0\<rparr>"
    using am sm by (simp add: new_private_pool_def Let_def adjustObjectSize_def s a_def calcMaxObjects_def SLAB_HEADER_SIZE_def m_def)
  have a8: "8 \<le> a" "object_size \<le> a" by (simp_all add: a_def)
  have "objects_hint * a \<le> bit_ceil raw - 24" using room by simp
  then have hm: "objects_hint \<le> m" unfolding m_def using a8 by (simp add: less_eq_div_iff_mult_less_eq)
  have "m * a \<le> bit_ceil raw - 24" unfolding m_def by (rule div_times_less_eq_dividend)
  then have "m * a + 24 \<le> bit_ceil raw" using room by simp
  moreover have "0 < m" using hm assms by (simp add: fitting_def)
  ultimately show ?thesis using P s a8 hm k \<open>k \<le> 31\<close> by (auto simp: shape_ok_def SLAB_HEADER_SIZE_def)
qed

section \<open>Addresses\<close>

lemma slab_base_div:
  assumes "k < 64" "obj < 2 ^ 64"
  shows "slab_base obj (2 ^ k) = obj div 2 ^ k * 2 ^ k"
proof -
  have m: "(of_nat (2 ^ k) :: u64) - 1 = mask k" by (simp add: mask_eq_exp_minus_1)
  have "(of_nat obj :: u64) AND NOT (mask k) = push_bit k (drop_bit k (of_nat obj))"
    by (rule bit_word_eqI) (auto simp: bit_simps bit_push_bit_iff bit_drop_bit_eq bit_not_iff bit_mask_iff)
  then have "slab_base obj (2 ^ k) = unat (push_bit k (drop_bit k (of_nat obj :: u64)))" unfolding slab_base_def m by simp
  also have "\<dots> = obj div 2 ^ k * 2 ^ k mod 2 ^ 64"
  proof -
    have "unat (of_nat obj :: u64) = obj" using assms(2) by (simp add: unat_of_nat)
    then have "unat (drop_bit k (of_nat obj :: u64)) = obj div 2 ^ k" by (simp only: unat_drop_bit_eq) (simp add: drop_bit_eq_div)
    then have "drop_bit k (of_nat obj :: u64) = of_nat (obj div 2 ^ k)" by (metis of_nat_unat ucast_id)
    then have "push_bit k (drop_bit k (of_nat obj :: u64)) = of_nat (obj div 2 ^ k * 2 ^ k)" by (simp add: push_bit_eq_mult)
    then show ?thesis by (simp only: unat_of_nat) simp
  qed
  also have "\<dots> = obj div 2 ^ k * 2 ^ k"
  proof -
    have "obj div 2 ^ k * 2 ^ k \<le> obj" by (rule div_times_less_eq_dividend)
    then have "obj div 2 ^ k * 2 ^ k < 2 ^ 64" using assms(2) by (rule le_less_trans)
    then show ?thesis by (rule mod_less)
  qed
  finally show ?thesis .
qed

lemma slab_base_inside:
  assumes "shape_ok P" "slab_size P dvd b" "b + slab_size P \<le> 2 ^ 64" "b \<le> obj" "obj < b + slab_size P"
  shows "slab_base obj (slab_size P) = b"
proof -
  obtain k where k: "k \<le> 31" "slab_size P = 2 ^ k" using assms(1) by (auto simp: shape_ok_def)
  obtain c where c: "b = 2 ^ k * c" using assms(2) k by auto
  have "obj div 2 ^ k = c" using assms(4,5) c k by (intro div_nat_eqI) (simp_all add: mult.commute)
  then show ?thesis using slab_base_div[of k obj] k assms(3,5) c by (simp add: mult.commute)
qed

section \<open>The invariant\<close>

text \<open>The chain of slabs, the chain of freed objects, and the objects handed out so far.\<close>

primrec slab_chain :: "(nat \<rightharpoonup> slab_header) \<Rightarrow> nat \<Rightarrow> nat \<Rightarrow> nat list \<Rightarrow> bool" where
  "slab_chain hs i p [] \<longleftrightarrow> p = 0"
| "slab_chain hs i p (b # bs) \<longleftrightarrow> p = b \<and> b \<noteq> 0 \<and> (\<exists>h. hs b = Some h \<and> header_pool h = i \<and> slab_chain hs i (next_slab h) bs)"

primrec free_chain :: "(nat \<Rightarrow> nat) \<Rightarrow> nat \<Rightarrow> nat list \<Rightarrow> bool" where
  "free_chain ln p [] \<longleftrightarrow> p = 0"
| "free_chain ln p (a # as) \<longleftrightarrow> p = a \<and> a \<noteq> 0 \<and> free_chain ln (ln a) as"

definition slab_count :: "(nat \<rightharpoonup> slab_header) \<Rightarrow> nat \<Rightarrow> nat" where
  "slab_count hs b = (case hs b of None \<Rightarrow> 0 | Some h \<Rightarrow> initial_objects h)"

definition slab_objects :: "(nat \<rightharpoonup> slab_header) \<Rightarrow> nat \<Rightarrow> nat \<Rightarrow> nat set" where
  "slab_objects hs size' b = {b + k * size' | k. k < slab_count hs b}"

definition pool_objects :: "(nat \<rightharpoonup> slab_header) \<Rightarrow> nat \<Rightarrow> nat list \<Rightarrow> nat set" where
  "pool_objects hs size' bs = (\<Union>b \<in> set bs. slab_objects hs size' b)"

definition pool_ok :: "pool_heap \<Rightarrow> nat set \<Rightarrow> nat \<Rightarrow> private_pool \<Rightarrow> nat list \<Rightarrow> nat list \<Rightarrow> bool" where
  "pool_ok H L i P bs fs \<longleftrightarrow> shape_ok P \<and> slab_chain (slab_headers H) i (newest_slab P) bs \<and> distinct bs \<and>
     (\<forall>b \<in> set bs. slab_size P dvd b \<and> b + slab_size P \<le> 2 ^ 64 \<and> slab_count (slab_headers H) b \<le> max_objects P) \<and>
     (\<forall>b \<in> set (tl bs). slab_count (slab_headers H) b = max_objects P) \<and>
     free_chain (links H) (last_freed_object P) fs \<and> distinct fs \<and> set fs \<inter> L = {} \<and>
     set fs \<union> L = pool_objects (slab_headers H) (adjusted_object_size P) bs \<and>
     live_allocations P = card L mod 2 ^ 32"

lemma slab_chain_headers: "slab_chain hs i p bs \<Longrightarrow> \<forall>b \<in> set bs. hs' b = hs b \<Longrightarrow> slab_chain hs' i p bs"
  by (induction bs arbitrary: p) auto

lemma slab_chain_live: "slab_chain hs i p bs \<Longrightarrow> b \<in> set bs \<Longrightarrow> b \<noteq> 0 \<and> (\<exists>h. hs b = Some h \<and> header_pool h = i)"
  by (induction bs arbitrary: p) auto

lemma free_chain_links: "free_chain ln p fs \<Longrightarrow> \<forall>a \<in> set fs. ln' a = ln a \<Longrightarrow> free_chain ln' p fs"
  by (induction fs arbitrary: p) auto

lemma pool_objects_headers: "\<forall>b \<in> set bs. slab_count hs' b = slab_count hs b \<Longrightarrow> pool_objects hs' s bs = pool_objects hs s bs"
  by (simp add: pool_objects_def slab_objects_def)

text \<open>An object lies in its slab, before the header.\<close>

lemma object_inside:
  assumes "shape_ok P" "k < max_objects P" "a = b + k * adjusted_object_size P"
  shows "b \<le> a" "a + adjusted_object_size P + SLAB_HEADER_SIZE \<le> b + slab_size P"
proof -
  have "(k + 1) * adjusted_object_size P \<le> max_objects P * adjusted_object_size P" using assms(2) by (intro mult_le_mono1) simp
  then show "b \<le> a" "a + adjusted_object_size P + SLAB_HEADER_SIZE \<le> b + slab_size P"
    using assms(1,3) by (auto simp: shape_ok_def)
qed

lemma pool_object_slab:
  assumes "pool_ok H L i P bs fs" "a \<in> pool_objects (slab_headers H) (adjusted_object_size P) bs"
  shows "\<exists>b \<in> set bs. slab_base a (slab_size P) = b \<and> b \<le> a \<and> a + adjusted_object_size P + SLAB_HEADER_SIZE \<le> b + slab_size P"
proof -
  obtain b k where b: "b \<in> set bs" "k < slab_count (slab_headers H) b" "a = b + k * adjusted_object_size P"
    using assms(2) by (auto simp: pool_objects_def slab_objects_def)
  have p: "shape_ok P" "k < max_objects P" "slab_size P dvd b" "b + slab_size P \<le> 2 ^ 64"
    using assms(1) b by (auto simp: pool_ok_def)
  note ins = object_inside[OF p(1,2) b(3)]
  have "a < b + slab_size P" using ins(2) by (simp add: SLAB_HEADER_SIZE_def)
  from slab_base_inside[OF p(1,3,4) ins(1) this] show ?thesis using b(1) ins by auto
qed

text \<open>All pools together: their slabs are disjoint ranges.\<close>

record pool_system =
  heap :: pool_heap
  owned_objects :: "(nat \<times> nat) set"

definition live_of :: "pool_system \<Rightarrow> nat \<Rightarrow> nat set" where
  "live_of y i = {a. (i, a) \<in> owned_objects y}"

definition slab_range :: "private_pool \<Rightarrow> nat \<Rightarrow> nat set" where
  "slab_range P b = {b..<b + slab_size P}"

definition pools_ok :: "pool_system \<Rightarrow> (nat \<Rightarrow> nat list) \<Rightarrow> (nat \<Rightarrow> nat list) \<Rightarrow> bool" where
  "pools_ok y S F \<longleftrightarrow>
     (\<forall>i P. pools (heap y) i = Some P \<longrightarrow> finite (live_of y i) \<and> pool_ok (heap y) (live_of y i) i P (S i) (F i)) \<and>
     (\<forall>i. pools (heap y) i = None \<longrightarrow> live_of y i = {}) \<and>
     (\<forall>i j P Q b c. pools (heap y) i = Some P \<longrightarrow> pools (heap y) j = Some Q \<longrightarrow> b \<in> set (S i) \<longrightarrow> c \<in> set (S j) \<longrightarrow>
       (i, b) \<noteq> (j, c) \<longrightarrow> slab_range P b \<inter> slab_range Q c = {}) \<and>
     (\<forall>c h. slab_headers (heap y) c = Some h \<longrightarrow> pools (heap y) (header_pool h) \<noteq> None \<and> c \<in> set (S (header_pool h)))"

subsection \<open>One pool\<close>

lemma pool_ok_heap:
  assumes "pool_ok H L i P bs fs" "links H' = links H" "slab_headers H' = slab_headers H"
  shows "pool_ok H' L i P bs fs"
  using assms by (simp add: pool_ok_def)

lemma pool_ok_headers:
  assumes "pool_ok H L i P bs fs" "\<forall>b \<in> set bs. hs b = slab_headers H b"
  shows "pool_ok (H\<lparr>slab_headers := hs\<rparr>) L i P bs fs"
proof -
  have "\<forall>b \<in> set bs. slab_count hs b = slab_count (slab_headers H) b" using assms(2) by (simp add: slab_count_def)
  moreover have "\<forall>b \<in> set (tl bs). b \<in> set bs" by (cases bs) auto
  ultimately show ?thesis using assms slab_chain_headers[of "slab_headers H" i "newest_slab P" bs hs] pool_objects_headers[of bs hs "slab_headers H"]
    by (auto simp: pool_ok_def)
qed

lemma pool_ok_links:
  assumes "pool_ok H L i P bs fs" "\<forall>a \<in> set fs. ln a = links H a"
  shows "pool_ok (H\<lparr>links := ln\<rparr>) L i P bs fs"
  using assms free_chain_links[of "links H" "last_freed_object P" fs ln] by (simp add: pool_ok_def)

definition counted :: "private_pool \<Rightarrow> private_pool" where
  "counted P = P\<lparr>live_allocations := (live_allocations P + 1) mod 2 ^ 32\<rparr>"

lemma card_insert_mod: "finite L \<Longrightarrow> a \<notin> L \<Longrightarrow> (card L mod 2 ^ 32 + 1) mod 2 ^ 32 = card (insert a L) mod 2 ^ 32"
  by (simp add: mod_Suc_eq)

lemma reuse_ok:
  assumes "pool_ok H L i P bs fs" "finite L" "last_freed_object P \<noteq> 0"
  shows "last_freed_object P \<notin> L \<and>
    pool_ok H (insert (last_freed_object P) L) i ((counted P)\<lparr>last_freed_object := links H (last_freed_object P)\<rparr>) bs (tl fs)"
proof -
  obtain a fs' where fs: "fs = a # fs'" "a = last_freed_object P" "free_chain (links H) (links H a) fs'"
    using assms(1,3) by (cases fs) (auto simp: pool_ok_def)
  then have a: "a \<notin> L" "a \<notin> set fs'" using assms(1) by (auto simp: pool_ok_def)
  then show ?thesis using assms(1,2) fs card_insert_mod[OF assms(2) a(1)]
    by (auto simp: pool_ok_def shape_ok_def counted_def)
qed

lemma grow_ok:
  assumes "pool_ok H L i P bs fs" "bs = [] \<or> slab_count (slab_headers H) (hd bs) = max_objects P"
    "s \<notin> set bs" "s \<noteq> 0" "slab_size P dvd s" "s + slab_size P \<le> 2 ^ 64" "add_slab i s P H = (P', H')"
  shows "pool_ok H' L i P' (s # bs) fs \<and> slab_count (slab_headers H') s = 0"
proof -
  let ?h = "\<lparr>header_pool = i, next_slab = newest_slab P, initial_objects = 0\<rparr>"
  let ?hs = "(slab_headers H)(s \<mapsto> ?h)"
  have P': "P' = P\<lparr>newest_slab := s\<rparr>" "H' = H\<lparr>slab_headers := ?hs\<rparr>" using assms(7) by (simp_all add: add_slab_def)
  have c: "slab_count ?hs b = slab_count (slab_headers H) b" if "b \<in> set bs" for b using that assms(3) by (auto simp: slab_count_def)
  have s0: "slab_count ?hs s = 0" by (simp add: slab_count_def)
  have "slab_chain ?hs i s (s # bs)" using assms(1,3,4) by (auto simp: pool_ok_def intro: slab_chain_headers)
  moreover have "pool_objects ?hs (adjusted_object_size P) (s # bs) = pool_objects (slab_headers H) (adjusted_object_size P) bs"
    using c s0 by (simp add: pool_objects_def slab_objects_def)
  moreover have "\<forall>b \<in> set bs. slab_count ?hs b = max_objects P"
  proof
    fix b assume b: "b \<in> set bs"
    then have "b = hd bs \<or> b \<in> set (tl bs)" by (cases bs) auto
    then show "slab_count ?hs b = max_objects P" using assms(1,2) b c[OF b] by (auto simp: pool_ok_def)
  qed
  ultimately show ?thesis using assms(1,3,5,6) s0 by (auto simp: pool_ok_def shape_ok_def P')
qed

lemma bump_ok:
  assumes "pool_ok H L i P (b # bs) fs" "finite L" "slab_count (slab_headers H) b < max_objects P"
  shows "\<exists>a h. bump i P H = Some (a, set_pool i (counted P) (H\<lparr>slab_headers := (slab_headers H)(b \<mapsto> h)\<rparr>)) \<and> a \<notin> L \<and>
    pool_ok (H\<lparr>slab_headers := (slab_headers H)(b \<mapsto> h)\<rparr>) (insert a L) i (counted P) (b # bs) fs"
proof -
  obtain h where h: "slab_headers H b = Some h" "header_pool h = i" "newest_slab P = b" "b \<noteq> 0"
      "slab_chain (slab_headers H) i (next_slab h) bs"
    using assms(1) by (auto simp: pool_ok_def)
  let ?n = "initial_objects h" and ?adj = "adjusted_object_size P"
  let ?h = "h\<lparr>initial_objects := ?n + 1\<rparr>"
  let ?hs = "(slab_headers H)(b \<mapsto> ?h)" and ?a = "b + ?n * ?adj"
  have n: "slab_count (slab_headers H) b = ?n" "slab_count ?hs b = ?n + 1" "?n < max_objects P"
    using h(1) assms(3) by (simp_all add: slab_count_def)
  have sh: "shape_ok P" "slab_size P dvd b" "b + slab_size P \<le> 2 ^ 64" "b \<notin> set bs" using assms(1) by (simp_all add: pool_ok_def)
  note ins = object_inside[OF sh(1) n(3), of ?a b, OF refl]
  have "?a < b + slab_size P" using ins(2) by (simp add: SLAB_HEADER_SIZE_def)
  then have base: "slab_base ?a (slab_size P) = b" using slab_base_inside[OF sh(1-3) ins(1)] by simp
  have new: "?a \<notin> pool_objects (slab_headers H) ?adj (b # bs)"
  proof
    assume "?a \<in> pool_objects (slab_headers H) ?adj (b # bs)"
    then obtain c k where c: "c \<in> set (b # bs)" "k < slab_count (slab_headers H) c" "?a = c + k * ?adj"
      by (auto simp: pool_objects_def slab_objects_def)
    have cc: "slab_size P dvd c" "c + slab_size P \<le> 2 ^ 64" "k < max_objects P" using assms(1) c by (auto simp: pool_ok_def)
    note ic = object_inside[OF sh(1) cc(3) c(3)]
    have "?a < c + slab_size P" using ic(2) by (simp add: SLAB_HEADER_SIZE_def)
    then have "c = b" using slab_base_inside[OF sh(1) cc(1,2) ic(1)] base by simp
    then have "k * ?adj = ?n * ?adj" using c(3) by auto
    then have "k = ?n" using sh(1) by (auto simp: shape_ok_def)
    then show False using c(2) \<open>c = b\<close> n(1) by simp
  qed
  have cs: "slab_count ?hs x = slab_count (slab_headers H) x" if "x \<in> set bs" for x using that sh(4) by (auto simp: slab_count_def)
  have "slab_objects ?hs ?adj b = insert ?a (slab_objects (slab_headers H) ?adj b)"
    unfolding slab_objects_def n(1,2) by (auto simp: less_Suc_eq)
  then have obj: "pool_objects ?hs ?adj (b # bs) = insert ?a (pool_objects (slab_headers H) ?adj (b # bs))"
    using cs by (simp add: pool_objects_def slab_objects_def)
  have aL: "?a \<notin> L" "?a \<notin> set fs" using new assms(1) by (auto simp: pool_ok_def)
  have ch: "slab_chain ?hs i b (b # bs)" using h sh(4) by (auto intro: slab_chain_headers)
  have "pool_ok (H\<lparr>slab_headers := ?hs\<rparr>) (insert ?a L) i (counted P) (b # bs) fs"
    using assms(1) obj aL ch h(3) cs n card_insert_mod[OF assms(2) aL(1)]
    by (auto simp: pool_ok_def shape_ok_def counted_def)
  then show ?thesis using aL h(1,3) by (intro exI[of _ ?a] exI[of _ ?h]) (simp add: bump_def counted_def)
qed

subsection \<open>All pools\<close>

definition fresh_slab :: "pool_system \<Rightarrow> private_pool \<Rightarrow> nat \<Rightarrow> bool" where
  "fresh_slab y P s \<longleftrightarrow> s \<noteq> 0 \<and> slab_size P dvd s \<and> s + slab_size P \<le> 2 ^ 64 \<and>
     (\<forall>c h Q. slab_headers (heap y) c = Some h \<longrightarrow> pools (heap y) (header_pool h) = Some Q \<longrightarrow> slab_range P s \<inter> slab_range Q c = {})"

lemma slab_nonempty: "shape_ok P \<Longrightarrow> b \<in> slab_range P b"
  by (auto simp: slab_range_def shape_ok_def)

lemma other_slab:
  assumes "pools_ok y S F" "pools (heap y) i = Some P" "pools (heap y) j = Some Q" "b \<in> set (S i)" "j \<noteq> i"
  shows "b \<notin> set (S j)"
proof
  assume "b \<in> set (S j)"
  then have "slab_range P b \<inter> slab_range Q b = {}" using assms by (auto simp: pools_ok_def)
  moreover have "shape_ok P" "shape_ok Q" using assms(1-3) by (auto simp: pools_ok_def pool_ok_def)
  ultimately show False using slab_nonempty by blast
qed

lemma fresh_not_slab:
  assumes "pools_ok y S F" "fresh_slab y P s" "shape_ok P" "pools (heap y) j = Some Q" "c \<in> set (S j)"
  shows "s \<noteq> c \<and> slab_range P s \<inter> slab_range Q c = {}"
proof -
  have q: "pool_ok (heap y) (live_of y j) j Q (S j) (F j)" using assms(1,4) by (simp add: pools_ok_def)
  then obtain h where "slab_headers (heap y) c = Some h" "header_pool h = j"
    using slab_chain_live[of "slab_headers (heap y)" j "newest_slab Q" "S j" c] assms(5) by (auto simp: pool_ok_def)
  then have d: "slab_range P s \<inter> slab_range Q c = {}" using assms(2,4) by (auto simp: fresh_slab_def)
  have "shape_ok Q" using q by (simp add: pool_ok_def)
  then show ?thesis using d slab_nonempty[OF assms(3), of s] slab_nonempty[of Q c] by auto
qed

text \<open>A change of pool \<open>i\<close> alone: the others are as before.\<close>

lemma pools_ok_change:
  assumes "pools_ok y S F" "pools (heap y) i = Some P" "pools H' = (pools (heap y))(i \<mapsto> P')" "slab_size P' = slab_size P"
    "finite L'" "pool_ok H' L' i P' bs fs"
    "\<And>j Q. j \<noteq> i \<Longrightarrow> pools (heap y) j = Some Q \<Longrightarrow> pool_ok H' (live_of y j) j Q (S j) (F j)"
    "\<And>b j Q c. b \<in> set bs - set (S i) \<Longrightarrow> pools (heap y) j = Some Q \<Longrightarrow> c \<in> set (S j) \<Longrightarrow> slab_range P b \<inter> slab_range Q c = {}"
    "\<And>b c. b \<in> set bs - set (S i) \<Longrightarrow> c \<in> set bs \<Longrightarrow> b \<noteq> c \<Longrightarrow> slab_range P b \<inter> slab_range P c = {}"
    "live_of y' i = L'" "\<And>j. j \<noteq> i \<Longrightarrow> live_of y' j = live_of y j" "heap y' = H'"
    "\<And>c h. slab_headers H' c = Some h \<Longrightarrow> header_pool h = i \<and> c \<in> set bs \<or> header_pool h \<noteq> i \<and> slab_headers (heap y) c = Some h"
  shows "pools_ok y' (S(i := bs)) (F(i := fs))"
proof -
  have r: "slab_range P' b = slab_range P b" for b by (simp add: slab_range_def assms(4))
  have dis: "slab_range P b \<inter> slab_range Q c = {}"
    if "pools (heap y) j = Some Q" "j \<noteq> i" "b \<in> set bs" "c \<in> set (S j)" for b j Q c
  proof (cases "b \<in> set (S i)")
    case True
    then show ?thesis using assms(1,2) that by (auto simp: pools_ok_def)
  qed (use assms(8) that in blast)
  have own: "slab_range P b \<inter> slab_range P c = {}" if "b \<in> set bs" "c \<in> set bs" "b \<noteq> c" for b c
  proof (cases "b \<in> set (S i)")
    case b: True
    show ?thesis
    proof (cases "c \<in> set (S i)")
      case True
      then show ?thesis using assms(1,2) b that(3) unfolding pools_ok_def by blast
    next
      case False
      then show ?thesis using assms(9)[of c b] that by blast
    qed
  qed (use assms(9) that in blast)
  show ?thesis unfolding pools_ok_def
  proof (intro conjI allI impI)
    fix j Q assume q: "pools (heap y') j = Some Q"
    show "finite (live_of y' j)" using q assms(1,3,5,10-12) by (auto simp: pools_ok_def split: if_splits)
    show "pool_ok (heap y') (live_of y' j) j Q ((S(i := bs)) j) ((F(i := fs)) j)"
      using q assms(3,6,7,10-12) by (auto split: if_splits)
  next
    fix j assume "pools (heap y') j = None"
    then show "live_of y' j = {}" using assms(1,3,11,12) by (auto simp: pools_ok_def split: if_splits)
  next
    fix c h assume "slab_headers (heap y') c = Some h"
    then have h: "header_pool h = i \<and> c \<in> set bs \<or> header_pool h \<noteq> i \<and> slab_headers (heap y) c = Some h" using assms(12,13) by simp
    show "pools (heap y') (header_pool h) \<noteq> None" using h assms(1,3,12) by (auto simp: pools_ok_def)
    show "c \<in> set ((S(i := bs)) (header_pool h))" using h assms(1) by (auto simp: pools_ok_def)
  next
    fix j k Q R b c
    assume q: "pools (heap y') j = Some Q" "pools (heap y') k = Some R" "b \<in> set ((S(i := bs)) j)" "c \<in> set ((S(i := bs)) k)"
      "(j, b) \<noteq> (k, c)"
    show "slab_range Q b \<inter> slab_range R c = {}"
    proof (cases "j = i")
      case j: True
      show ?thesis
      proof (cases "k = i")
        case True
        then have "Q = P'" "R = P'" using q j assms(3,12) by simp_all
        then show ?thesis using q j True own[of b c] by (simp add: r)
      next
        case False
        have "Q = P'" using q j assms(3,12) by simp
        then show ?thesis using False q j dis[of k R b c] assms(3,12) r[of b] by simp
      qed
    next
      case j: False
      show ?thesis
      proof (cases "k = i")
        case True
        have "R = P'" using True q j assms(3,12) by simp
        then show ?thesis using True q j dis[of j Q c b] assms(3,12) r[of c] by (simp add: Int_commute)
      next
        case False
        then show ?thesis using q j assms(1,3,12) unfolding pools_ok_def by (metis fun_upd_other)
      qed
    qed
  qed
qed

lemma with_room_ok:
  assumes "pool_ok H L i P bs fs" "s \<notin> set bs" "s \<noteq> 0" "slab_size P dvd s" "s + slab_size P \<le> 2 ^ 64"
  shows "\<exists>P1 hs b bs1. with_room i s P H = Some (P1, H\<lparr>slab_headers := hs\<rparr>) \<and> pool_ok (H\<lparr>slab_headers := hs\<rparr>) L i P1 (b # bs1) fs \<and>
    slab_count hs b < max_objects P1 \<and> slab_size P1 = slab_size P \<and> (\<forall>c. c \<noteq> s \<longrightarrow> hs c = slab_headers H c) \<and>
    (hs s = slab_headers H s \<and> b # bs1 = bs \<or> b # bs1 = s # bs) \<and> max_objects P1 = max_objects P"
proof (cases "\<exists>b bs'. bs = b # bs' \<and> slab_count (slab_headers H) b \<noteq> max_objects P")
  case True
  then obtain b bs' where b: "bs = b # bs'" "slab_count (slab_headers H) b \<noteq> max_objects P" by blast
  then obtain h where h: "newest_slab P = b" "b \<noteq> 0" "slab_headers H b = Some h" using assms(1) by (auto simp: pool_ok_def)
  have "slab_count (slab_headers H) b < max_objects P" using assms(1) b by (auto simp: pool_ok_def)
  moreover have "with_room i s P H = Some (P, H\<lparr>slab_headers := slab_headers H\<rparr>)" using b h by (simp add: with_room_def slab_count_def)
  moreover have "pool_ok (H\<lparr>slab_headers := slab_headers H\<rparr>) L i P (b # bs') fs" using assms(1) b(1) by simp
  ultimately show ?thesis using b(1) by (intro exI[of _ P] exI[of _ "slab_headers H"] exI[of _ b] exI[of _ bs']) simp
next
  case False
  then have full: "bs = [] \<or> slab_count (slab_headers H) (hd bs) = max_objects P" by (cases bs) auto
  let ?hs = "(slab_headers H)(s \<mapsto> \<lparr>header_pool = i, next_slab = newest_slab P, initial_objects = 0\<rparr>)"
  have add: "add_slab i s P H = (P\<lparr>newest_slab := s\<rparr>, H\<lparr>slab_headers := ?hs\<rparr>)" by (simp add: add_slab_def)
  note g = grow_ok[OF assms(1) full assms(2-5) add]
  have "with_room i s P H = Some (P\<lparr>newest_slab := s\<rparr>, H\<lparr>slab_headers := ?hs\<rparr>)"
  proof (cases bs)
    case Nil
    then show ?thesis using assms(1) add by (simp add: with_room_def pool_ok_def)
  next
    case (Cons b bs')
    then obtain h where "newest_slab P = b" "b \<noteq> 0" "slab_headers H b = Some h" using assms(1) by (auto simp: pool_ok_def)
    then show ?thesis using full Cons add by (simp add: with_room_def slab_count_def)
  qed
  moreover have "0 < max_objects P" using assms(1) by (simp add: pool_ok_def shape_ok_def)
  ultimately show ?thesis using g
    by (intro exI[of _ "P\<lparr>newest_slab := s\<rparr>"] exI[of _ ?hs] exI[of _ s] exI[of _ bs]) simp
qed

lemma live_of_insert: "live_of (y\<lparr>heap := H, owned_objects := insert (i, a) (owned_objects y)\<rparr>) j =
  (if j = i then insert a (live_of y i) else live_of y j)"
  by (auto simp: live_of_def)

lemma set_pool_simps [simp]: "links (set_pool i P H) = links H" "slab_headers (set_pool i P H) = slab_headers H"
  "pools (set_pool i P H) = (pools H)(i \<mapsto> P)"
  by (simp_all add: set_pool_def)

lemma allocate_ok:
  assumes "pools_ok y S F" "pools (heap y) i = Some P" "fresh_slab y P s"
  shows "\<exists>a H S' F'. private_allocate i s (heap y) = Some (a, H) \<and> (i, a) \<notin> owned_objects y \<and>
    pools_ok (y\<lparr>heap := H, owned_objects := insert (i, a) (owned_objects y)\<rparr>) S' F'"
proof -
  have p: "finite (live_of y i)" "pool_ok (heap y) (live_of y i) i P (S i) (F i)" using assms(1,2) by (simp_all add: pools_ok_def)
  have sh: "shape_ok P" using p(2) by (simp add: pool_ok_def)
  have others: "pool_ok (heap y) (live_of y j) j Q (S j) (F j)" if "pools (heap y) j = Some Q" for j Q
    using assms(1) that by (simp add: pools_ok_def)
  show ?thesis
  proof (cases "last_freed_object P = 0")
    case False
    let ?a = "last_freed_object P"
    let ?P = "(counted P)\<lparr>last_freed_object := links (heap y) ?a\<rparr>"
    note r = reuse_ok[OF p(2,1) False]
    have al: "private_allocate i s (heap y) = Some (?a, set_pool i ?P (heap y))"
      using assms(2) False by (simp add: private_allocate_def counted_def)
    have n: "(i, ?a) \<notin> owned_objects y" using r by (simp add: live_of_def)
    have "pools_ok (y\<lparr>heap := set_pool i ?P (heap y), owned_objects := insert (i, ?a) (owned_objects y)\<rparr>) (S(i := S i)) (F(i := tl (F i)))"
    proof (rule pools_ok_change[OF assms(1,2)])
      show "pool_ok (set_pool i ?P (heap y)) (insert ?a (live_of y i)) i ?P (S i) (tl (F i))"
        using r by (auto intro: pool_ok_heap)
      show "pool_ok (set_pool i ?P (heap y)) (live_of y j) j Q (S j) (F j)" if "pools (heap y) j = Some Q" for j Q
        using others[OF that] by (auto intro: pool_ok_heap)
      show "header_pool h = i \<and> c \<in> set (S i) \<or> header_pool h \<noteq> i \<and> slab_headers (heap y) c = Some h"
        if "slab_headers (set_pool i ?P (heap y)) c = Some h" for c h using assms(1) that by (auto simp: pools_ok_def)
    qed (use p(1) in \<open>auto simp: counted_def live_of_insert\<close>)
    then show ?thesis using al n by blast
  next
    case True
    have fs: "s \<noteq> c \<and> slab_range P s \<inter> slab_range Q c = {}" if "pools (heap y) j = Some Q" "c \<in> set (S j)" for j Q c
      using fresh_not_slab[OF assms(1,3) sh that] .
    have s: "s \<notin> set (S i)" "s \<noteq> 0" "slab_size P dvd s" "s + slab_size P \<le> 2 ^ 64"
      using fs[OF assms(2)] assms(3) by (auto simp: fresh_slab_def)
    obtain P1 hs b bs where w: "with_room i s P (heap y) = Some (P1, (heap y)\<lparr>slab_headers := hs\<rparr>)"
        "pool_ok ((heap y)\<lparr>slab_headers := hs\<rparr>) (live_of y i) i P1 (b # bs) (F i)" "slab_count hs b < max_objects P1"
        "slab_size P1 = slab_size P" "\<forall>c. c \<noteq> s \<longrightarrow> hs c = slab_headers (heap y) c"
        "hs s = slab_headers (heap y) s \<and> b # bs = S i \<or> b # bs = s # S i"
      using with_room_ok[OF p(2) s] by blast
    from bump_ok[OF w(2) p(1)] w(3) obtain a h where bu: "bump i P1 ((heap y)\<lparr>slab_headers := hs\<rparr>) =
          Some (a, set_pool i (counted P1) ((heap y)\<lparr>slab_headers := hs(b \<mapsto> h)\<rparr>))" "a \<notin> live_of y i"
        "pool_ok ((heap y)\<lparr>slab_headers := hs(b \<mapsto> h)\<rparr>) (insert a (live_of y i)) i (counted P1) (b # bs) (F i)" by auto
    let ?H = "set_pool i (counted P1) ((heap y)\<lparr>slab_headers := hs(b \<mapsto> h)\<rparr>)"
    have al: "private_allocate i s (heap y) = Some (a, ?H)" using assms(2) True w(1) bu(1) by (simp add: private_allocate_def)
    have "set (b # bs) = set (S i) \<or> set (b # bs) = insert s (set (S i))" using w(6) by (metis list.simps(15))
    then have sub: "set (b # bs) - set (S i) \<subseteq> {s}" by blast
    have "pools_ok (y\<lparr>heap := ?H, owned_objects := insert (i, a) (owned_objects y)\<rparr>) (S(i := b # bs)) (F(i := F i))"
    proof (rule pools_ok_change[OF assms(1,2)])
      show "pool_ok ?H (insert a (live_of y i)) i (counted P1) (b # bs) (F i)" using bu(3) by (auto intro: pool_ok_heap)
      show "slab_size (counted P1) = slab_size P" using w(4) by (simp add: counted_def)
      show "pool_ok ?H (live_of y j) j Q (S j) (F j)" if "j \<noteq> i" "pools (heap y) j = Some Q" for j Q
      proof -
        have "(hs(b \<mapsto> h)) c = slab_headers (heap y) c" if c: "c \<in> set (S j)" for c
        proof -
          have "c \<noteq> s" using fs[OF \<open>pools (heap y) j = Some Q\<close> c] by blast
          moreover have "c \<noteq> b"
          proof (cases "b = s")
            case False
            then have "b \<in> set (S i)" using w(6) by (metis list.set_intros(1) list.sel(1))
            then show ?thesis using other_slab[OF assms(1,2) \<open>pools (heap y) j = Some Q\<close> _ \<open>j \<noteq> i\<close>] c by blast
          qed (use \<open>c \<noteq> s\<close> in simp)
          ultimately show ?thesis using w(5) by simp
        qed
        then have "pool_ok ((heap y)\<lparr>slab_headers := hs(b \<mapsto> h)\<rparr>) (live_of y j) j Q (S j) (F j)"
          using pool_ok_headers[OF others[OF that(2)]] by blast
        then show ?thesis by (rule pool_ok_heap) simp_all
      qed
      show "slab_range P b' \<inter> slab_range Q c = {}" if "b' \<in> set (b # bs) - set (S i)" "pools (heap y) j = Some Q" "c \<in> set (S j)" for b' j Q c
        using fs[OF that(2,3)] sub that(1) by blast
      show "slab_range P b' \<inter> slab_range P c = {}" if "b' \<in> set (b # bs) - set (S i)" "c \<in> set (b # bs)" "b' \<noteq> c" for b' c
      proof -
        have "b' = s" "c \<in> set (S i)" using that sub by blast+
        then show ?thesis using fs[OF assms(2)] by blast
      qed
      show "header_pool g = i \<and> c \<in> set (b # bs) \<or> header_pool g \<noteq> i \<and> slab_headers (heap y) c = Some g"
        if g: "slab_headers ?H c = Some g" for c g
      proof (cases "c = b")
        case True
        have "slab_chain (hs(b \<mapsto> h)) i (newest_slab (counted P1)) (b # bs)" using bu(3) by (simp add: pool_ok_def)
        then show ?thesis using g True by auto
      next
        case False
        then have "slab_headers (heap y) c = Some g" using g w(5,6) by (metis fun_upd_other list.inject pool_heap.select_convs(2) pool_heap.surjective pool_heap.update_convs(2) set_pool_simps(2))
        moreover from this have "c \<in> set (S (header_pool g))" using assms(1) by (simp add: pools_ok_def)
        moreover have "set (S i) \<subseteq> set (b # bs)" using w(6) by (metis list.set_intros(2) subsetI)
        ultimately show ?thesis by (cases "header_pool g = i") auto
      qed
    qed (use p(1) in \<open>auto simp: live_of_insert\<close>)
    then show ?thesis using al bu(2) by (auto simp: live_of_def)
  qed
qed

lemma pool_object_index:
  assumes "pool_ok H L i P bs fs" "a \<in> pool_objects (slab_headers H) (adjusted_object_size P) bs"
  shows "\<exists>b k. b \<in> set bs \<and> a = b + k * adjusted_object_size P \<and> slab_base a (slab_size P) = b \<and>
    {a..<a + adjusted_object_size P} \<subseteq> {b..<b + (slab_size P - SLAB_HEADER_SIZE)}"
proof -
  obtain b k where b: "b \<in> set bs" "k < slab_count (slab_headers H) b" "a = b + k * adjusted_object_size P"
    using assms(2) by (auto simp: pool_objects_def slab_objects_def)
  have p: "shape_ok P" "k < max_objects P" "slab_size P dvd b" "b + slab_size P \<le> 2 ^ 64"
    using assms(1) b by (auto simp: pool_ok_def)
  note ins = object_inside[OF p(1,2) b(3)]
  have "a < b + slab_size P" using ins(2) by (simp add: SLAB_HEADER_SIZE_def)
  from slab_base_inside[OF p(1,3,4) ins(1) this] b ins show ?thesis by (intro exI[of _ b] exI[of _ k]) auto
qed

lemma index_apart: "k \<noteq> k' \<Longrightarrow> {b + k * n..<b + k * n + n} \<inter> {b + k' * n..<b + k' * n + n} = {}" for b k k' n :: nat
proof -
  have one: "{b + k * n..<b + k * n + n} \<inter> {b + k' * n..<b + k' * n + n} = {}" if "k < k'" for k k'
  proof -
    have "(k + 1) * n \<le> k' * n" using that by (intro mult_le_mono1) simp
    then show ?thesis by auto
  qed
  assume "k \<noteq> k'"
  then show ?thesis using one[of k k'] one[of k' k] by (cases "k < k'") (auto simp: Int_commute)
qed

lemma objects_apart:
  assumes "pools_ok y S F" "pools (heap y) i = Some P" "pools (heap y) j = Some Q"
    and "a \<in> pool_objects (slab_headers (heap y)) (adjusted_object_size P) (S i)"
    and "c \<in> pool_objects (slab_headers (heap y)) (adjusted_object_size Q) (S j)" and "(i, a) \<noteq> (j, c)"
  shows "{a..<a + adjusted_object_size P} \<inter> {c..<c + adjusted_object_size Q} = {}"
proof -
  have p: "pool_ok (heap y) (live_of y i) i P (S i) (F i)" "pool_ok (heap y) (live_of y j) j Q (S j) (F j)"
    using assms(1-3) by (simp_all add: pools_ok_def)
  obtain b k where b: "b \<in> set (S i)" "a = b + k * adjusted_object_size P" "{a..<a + adjusted_object_size P} \<subseteq> slab_range P b"
    using pool_object_index[OF p(1) assms(4)] by (fastforce simp: slab_range_def)
  obtain d l where d: "d \<in> set (S j)" "c = d + l * adjusted_object_size Q" "{c..<c + adjusted_object_size Q} \<subseteq> slab_range Q d"
    using pool_object_index[OF p(2) assms(5)] by (fastforce simp: slab_range_def)
  show ?thesis
  proof (cases "(i, b) = (j, d)")
    case True
    then have "P = Q" "k \<noteq> l" using assms(2,3,6) b(2) d(2) by auto
    then show ?thesis using index_apart[of k l b] True b(2) d(2) by simp
  next
    case False
    then have "slab_range P b \<inter> slab_range Q d = {}" using assms(1-3) b(1) d(1) unfolding pools_ok_def by blast
    then show ?thesis using b(3) d(3) by blast
  qed
qed

lemma known_object:
  assumes "pools_ok y S F" "pools (heap y) i = Some P" "a \<in> live_of y i \<union> set (F i)"
  shows "a \<in> pool_objects (slab_headers (heap y)) (adjusted_object_size P) (S i)"
  using assms by (auto simp: pools_ok_def pool_ok_def)

lemma live_not_free:
  assumes "pools_ok y S F" "pools (heap y) i = Some P" "a \<in> live_of y i" "pools (heap y) j = Some Q"
  shows "a \<notin> set (F j)"
proof
  assume f: "a \<in> set (F j)"
  show False
  proof (cases "j = i")
    case True
    then show ?thesis using assms(1-3) f by (auto simp: pools_ok_def pool_ok_def)
  next
    case False
    have "{a..<a + adjusted_object_size P} \<inter> {a..<a + adjusted_object_size Q} = {}"
      using objects_apart[OF assms(1,2,4) known_object[OF assms(1,2)] known_object[OF assms(1,4)], of a a] assms(3) f False by blast
    moreover have "shape_ok P" "shape_ok Q" using assms(1,2,4) by (auto simp: pools_ok_def pool_ok_def)
    then have "0 < adjusted_object_size P" "0 < adjusted_object_size Q" by (auto simp: shape_ok_def)
    then have "a \<in> {a..<a + adjusted_object_size P} \<inter> {a..<a + adjusted_object_size Q}" by simp
    ultimately show False by blast
  qed
qed

lemma write_ok:
  assumes "pools_ok y S F" "(i, a) \<in> owned_objects y"
  shows "pools_ok (y\<lparr>heap := (heap y)\<lparr>links := (links (heap y))(a := v)\<rparr>\<rparr>) S F"
proof -
  have a: "a \<in> live_of y i" using assms(2) by (simp add: live_of_def)
  then obtain P where P: "pools (heap y) i = Some P" using assms(1) unfolding pools_ok_def by (metis empty_iff option.exhaust)
  let ?H = "(heap y)\<lparr>links := (links (heap y))(a := v)\<rparr>"
  have "pool_ok ?H (live_of y j) j Q (S j) (F j)" if "pools (heap y) j = Some Q" for j Q
  proof (rule pool_ok_links)
    show "pool_ok (heap y) (live_of y j) j Q (S j) (F j)" using assms(1) that by (simp add: pools_ok_def)
    show "\<forall>x \<in> set (F j). ((links (heap y))(a := v)) x = links (heap y) x" using live_not_free[OF assms(1) P a that] by auto
  qed
  moreover have "live_of (y\<lparr>heap := ?H\<rparr>) = live_of y" by (simp add: live_of_def fun_eq_iff)
  ultimately show ?thesis using assms(1) unfolding pools_ok_def by simp
qed

lemma pred_mod:
  assumes "0 < (N :: nat)"
  shows "(Suc m mod N + N - 1) mod N = m mod N"
proof -
  have "Suc m mod N + N - 1 = Suc m mod N + (N - 1)" using assms by simp
  then have "(Suc m mod N + N - 1) mod N = (Suc m + (N - 1)) mod N" by (simp only: mod_add_left_eq)
  also have "Suc m + (N - 1) = m + N" using assms by simp
  finally show ?thesis by simp
qed

lemma card_remove_mod:
  assumes "finite L" "a \<in> L"
  shows "(card L mod 2 ^ 32 + 2 ^ 32 - 1) mod 2 ^ 32 = card (L - {a}) mod 2 ^ 32"
proof -
  have c: "card L = Suc (card (L - {a}))" using assms by (rule card.remove)
  show ?thesis unfolding c by (rule pred_mod) (rule zero_less_power, rule zero_less_numeral)
qed

lemma deallocate_ok:
  assumes "pools_ok y S F" "pools (heap y) i = Some P" "(i, a) \<in> owned_objects y"
  shows "\<exists>H. private_deallocate a (slab_size P) (heap y) = Some H \<and>
    pools_ok (y\<lparr>heap := H, owned_objects := owned_objects y - {(i, a)}\<rparr>) S (F(i := a # F i)) \<and>
    (\<forall>s. map_option fst (private_allocate i s H) = Some a)"
proof -
  have a: "a \<in> live_of y i" using assms(3) by (simp add: live_of_def)
  have p: "finite (live_of y i)" "pool_ok (heap y) (live_of y i) i P (S i) (F i)" using assms(1,2) by (simp_all add: pools_ok_def)
  have obj: "a \<in> pool_objects (slab_headers (heap y)) (adjusted_object_size P) (S i)" using known_object[OF assms(1,2)] a by blast
  obtain b where b: "b \<in> set (S i)" "slab_base a (slab_size P) = b" "b \<le> a" using pool_object_slab[OF p(2) obj] by blast
  then obtain h where h: "slab_headers (heap y) b = Some h" "header_pool h = i" "b \<noteq> 0"
    using slab_chain_live[of "slab_headers (heap y)" i "newest_slab P" "S i" b] p(2) by (auto simp: pool_ok_def)
  let ?P = "P\<lparr>live_allocations := (live_allocations P + 2 ^ 32 - 1) mod 2 ^ 32, last_freed_object := a\<rparr>"
  let ?ln = "(links (heap y))(a := last_freed_object P)"
  let ?H = "set_pool i ?P ((heap y)\<lparr>links := ?ln\<rparr>)"
  have d: "private_deallocate a (slab_size P) (heap y) = Some ?H" using b(2) h assms(2) by (simp add: private_deallocate_def)
  have af: "a \<notin> set (F j)" if "pools (heap y) j = Some Q" for j Q by (rule live_not_free[OF assms(1,2) a that])
  have a0: "a \<noteq> 0" using b(3) h(3) by simp
  have "pool_ok ((heap y)\<lparr>links := ?ln\<rparr>) (live_of y i) i P (S i) (F i)"
    using pool_ok_links[OF p(2), of ?ln] af[OF assms(2)] by auto
  then have ok: "pool_ok ((heap y)\<lparr>links := ?ln\<rparr>) (live_of y i - {a}) i ?P (S i) (a # F i)"
    using a a0 af[OF assms(2)] card_remove_mod[OF p(1) a] by (auto simp: pool_ok_def shape_ok_def)
  have "pools_ok (y\<lparr>heap := ?H, owned_objects := owned_objects y - {(i, a)}\<rparr>) (S(i := S i)) (F(i := a # F i))"
  proof (rule pools_ok_change[OF assms(1,2)])
    show "pool_ok ?H (live_of y i - {a}) i ?P (S i) (a # F i)" using ok by (auto intro: pool_ok_heap)
    show "pool_ok ?H (live_of y j) j Q (S j) (F j)" if "j \<noteq> i" "pools (heap y) j = Some Q" for j Q
    proof -
      have "pool_ok (heap y) (live_of y j) j Q (S j) (F j)" using assms(1) that(2) by (simp add: pools_ok_def)
      then have "pool_ok ((heap y)\<lparr>links := ?ln\<rparr>) (live_of y j) j Q (S j) (F j)"
        using af[OF that(2)] by (intro pool_ok_links) auto
      then show ?thesis by (auto intro: pool_ok_heap)
    qed
    show "header_pool h = i \<and> c \<in> set (S i) \<or> header_pool h \<noteq> i \<and> slab_headers (heap y) c = Some h"
      if "slab_headers ?H c = Some h" for c h using assms(1) that by (auto simp: pools_ok_def)
  qed (use p(1) in \<open>auto simp: live_of_def\<close>)
  moreover have "\<forall>s. map_option fst (private_allocate i s ?H) = Some a" using a0 by (simp add: private_allocate_def)
  ultimately show ?thesis using d by (intro exI[of _ ?H]) simp
qed

lemma header_known:
  "pools_ok y S F \<Longrightarrow> slab_headers (heap y) c = Some h \<Longrightarrow> pools (heap y) (header_pool h) \<noteq> None \<and> c \<in> set (S (header_pool h))"
  unfolding pools_ok_def by blast

lemma create_ok:
  assumes "pools_ok y S F" "pools (heap y) i = None" "fitting object_size objects_hint"
  shows "pools_ok (y\<lparr>heap := set_pool i (new_private_pool object_size objects_hint) (heap y)\<rparr>) (S(i := [])) (F(i := []))"
proof -
  let ?P = "new_private_pool object_size objects_hint"
  let ?y = "y\<lparr>heap := set_pool i ?P (heap y)\<rparr>"
  have l: "live_of ?y j = live_of y j" for j by (simp add: live_of_def)
  have e: "live_of y i = {}" using assms(1,2) by (simp add: pools_ok_def)
  have "newest_slab ?P = 0" "last_freed_object ?P = 0" "live_allocations ?P = 0" by (simp_all add: new_private_pool_def Let_def)
  moreover have "shape_ok ?P" using new_pool_shape[OF assms(3)] by blast
  ultimately have "pool_ok (heap ?y) {} i ?P [] []" by (simp add: pool_ok_def pool_objects_def)
  moreover have "pool_ok (heap ?y) (live_of y j) j Q (S j) (F j)" if "pools (heap y) j = Some Q" for j Q
  proof -
    have "pool_ok (heap y) (live_of y j) j Q (S j) (F j)" using assms(1) that by (simp add: pools_ok_def)
    then show ?thesis by (rule pool_ok_heap) simp_all
  qed
  moreover have "c \<in> set (S (header_pool h))" "header_pool h \<noteq> i" if "slab_headers (heap y) c = Some h" for c h
    using header_known[OF assms(1) that] assms(2) by auto
  ultimately show ?thesis unfolding pools_ok_def l using assms(1,2) e
    by (auto simp: pools_ok_def split: if_splits)
qed

lemma delete_slabs:
  assumes "slab_chain (slab_headers H) i p bs" "distinct bs"
  shows "\<exists>hs. delete_slabs p gone H = Some (gone @ bs, H\<lparr>slab_headers := hs\<rparr>) \<and> (\<forall>c. hs c = (if c \<in> set bs then None else slab_headers H c))"
  using assms
proof (induction bs arbitrary: p gone H)
  case Nil
  then show ?case by (intro exI[of _ "slab_headers H"]) (simp add: delete_slabs.simps)
next
  case (Cons b bs)
  then obtain h where h: "p = b" "b \<noteq> 0" "slab_headers H b = Some h" "slab_chain (slab_headers H) i (next_slab h) bs" "b \<notin> set bs"
    by auto
  let ?H = "H\<lparr>slab_headers := (slab_headers H)(b := None)\<rparr>"
  have "slab_chain (slab_headers ?H) i (next_slab h) bs" using h(4,5) by (auto intro: slab_chain_headers)
  from Cons.IH[OF this, of "gone @ [b]"] Cons.prems(2) obtain hs where
    hs: "delete_slabs (next_slab h) (gone @ [b]) ?H = Some ((gone @ [b]) @ bs, ?H\<lparr>slab_headers := hs\<rparr>)"
      "\<forall>c. hs c = (if c \<in> set bs then None else slab_headers ?H c)" by auto
  have "delete_slabs p gone H = Some (gone @ b # bs, H\<lparr>slab_headers := hs\<rparr>)"
    using h(1-3) hs(1) by (subst delete_slabs.simps) simp
  then show ?case using hs(2) by auto
qed

lemma destroy_ok:
  assumes "pools_ok y S F" "pools (heap y) i = Some P" "live_of y i = {}"
  shows "\<exists>H. destroy_pool i (heap y) = Some (S i, H) \<and> pools_ok (y\<lparr>heap := H\<rparr>) S F"
proof -
  have p: "pool_ok (heap y) {} i P (S i) (F i)" using assms unfolding pools_ok_def by metis
  then have c: "slab_chain (slab_headers (heap y)) i (newest_slab P) (S i)" "distinct (S i)" "live_allocations P = 0"
    by (simp_all add: pool_ok_def)
  obtain hs where hs: "delete_slabs (newest_slab P) [] (heap y) = Some (S i, (heap y)\<lparr>slab_headers := hs\<rparr>)"
      "\<forall>c. hs c = (if c \<in> set (S i) then None else slab_headers (heap y) c)" using delete_slabs[OF c(1,2), of "[]"] by auto
  let ?H = "(heap y)\<lparr>slab_headers := hs, pools := (pools (heap y))(i := None)\<rparr>"
  have d: "destroy_pool i (heap y) = Some (S i, ?H)" using assms(2) c(3) hs(1) by (simp add: destroy_pool_def)
  have o: "pool_ok ?H (live_of y j) j Q (S j) (F j)" if "j \<noteq> i" "pools (heap y) j = Some Q" for j Q
  proof -
    have ok: "pool_ok (heap y) (live_of y j) j Q (S j) (F j)" using assms(1) that(2) by (simp add: pools_ok_def)
    have "\<forall>b \<in> set (S j). hs b = slab_headers (heap y) b"
      using other_slab[OF assms(1) that(2) assms(2)] that(1) hs(2) by (metis (no_types))
    then have "pool_ok ((heap y)\<lparr>slab_headers := hs\<rparr>) (live_of y j) j Q (S j) (F j)" by (rule pool_ok_headers[OF ok])
    then show ?thesis by (rule pool_ok_heap) simp_all
  qed
  have l: "live_of (y\<lparr>heap := ?H\<rparr>) j = live_of y j" for j by (simp add: live_of_def)
  have "pools_ok (y\<lparr>heap := ?H\<rparr>) S F" unfolding pools_ok_def l
  proof (intro conjI allI impI)
    fix j Q assume "pools (heap (y\<lparr>heap := ?H\<rparr>)) j = Some Q"
    then have j: "j \<noteq> i" "pools (heap y) j = Some Q" by (auto split: if_splits)
    show "finite (live_of y j)" using assms(1) j(2) by (simp add: pools_ok_def)
    show "pool_ok (heap (y\<lparr>heap := ?H\<rparr>)) (live_of y j) j Q (S j) (F j)" using o[OF j] by simp
  next
    fix j assume "pools (heap (y\<lparr>heap := ?H\<rparr>)) j = None"
    then show "live_of y j = {}" using assms(1,3) by (auto simp: pools_ok_def split: if_splits)
  next
    fix j k Q R b c
    assume "pools (heap (y\<lparr>heap := ?H\<rparr>)) j = Some Q" "pools (heap (y\<lparr>heap := ?H\<rparr>)) k = Some R" "b \<in> set (S j)" "c \<in> set (S k)"
      "(j, b) \<noteq> (k, c)"
    then show "slab_range Q b \<inter> slab_range R c = {}" using assms(1) unfolding pools_ok_def by (auto split: if_splits)
  next
    fix c h assume "slab_headers (heap (y\<lparr>heap := ?H\<rparr>)) c = Some h"
    then have c: "c \<notin> set (S i)" "slab_headers (heap y) c = Some h" using hs(2) by (auto split: if_splits)
    then have k: "c \<in> set (S (header_pool h))" "pools (heap y) (header_pool h) \<noteq> None"
      using header_known[OF assms(1)] by blast+
    then have "header_pool h \<noteq> i" using c(1) by auto
    then show "pools (heap (y\<lparr>heap := ?H\<rparr>)) (header_pool h) \<noteq> None" using k(2) by simp
    show "c \<in> set (S (header_pool h))" by (rule k(1))
  qed
  then show ?thesis using d by blast
qed

section \<open>Programs\<close>

text \<open>Any number of pools, used in any order. The owner of an object may write over all of it, and
  an object is given back with the slab size of its type, which is that of its pool.\<close>

definition no_pools :: pool_system where
  "no_pools = \<lparr>heap = \<lparr>links = (\<lambda>_. 0), slab_headers = Map.empty, pools = Map.empty\<rparr>, owned_objects = {}\<rparr>"

inductive pools_reachable :: "pool_system \<Rightarrow> bool" where
  pools_start: "pools_reachable no_pools"
| pools_create: "pools_reachable y \<Longrightarrow> pools (heap y) i = None \<Longrightarrow> fitting object_size objects_hint \<Longrightarrow>
    pools_reachable (y\<lparr>heap := set_pool i (new_private_pool object_size objects_hint) (heap y)\<rparr>)"
| pools_allocate: "pools_reachable y \<Longrightarrow> pools (heap y) i = Some P \<Longrightarrow> fresh_slab y P s \<Longrightarrow>
    private_allocate i s (heap y) = Some (a, H) \<Longrightarrow>
    pools_reachable (y\<lparr>heap := H, owned_objects := insert (i, a) (owned_objects y)\<rparr>)"
| pools_write: "pools_reachable y \<Longrightarrow> (i, a) \<in> owned_objects y \<Longrightarrow>
    pools_reachable (y\<lparr>heap := (heap y)\<lparr>links := (links (heap y))(a := v)\<rparr>\<rparr>)"
| pools_deallocate: "pools_reachable y \<Longrightarrow> (i, a) \<in> owned_objects y \<Longrightarrow> pools (heap y) i = Some P \<Longrightarrow>
    private_deallocate a (slab_size P) (heap y) = Some H \<Longrightarrow>
    pools_reachable (y\<lparr>heap := H, owned_objects := owned_objects y - {(i, a)}\<rparr>)"
| pools_destroy: "pools_reachable y \<Longrightarrow> live_of y i = {} \<Longrightarrow> destroy_pool i (heap y) = Some (gone, H) \<Longrightarrow>
    pools_reachable (y\<lparr>heap := H\<rparr>)"

lemma reachable_pools_ok: "pools_reachable y \<Longrightarrow> \<exists>S F. pools_ok y S F"
proof (induction rule: pools_reachable.induct)
  case pools_start
  then show ?case by (auto simp: pools_ok_def no_pools_def live_of_def)
next
  case (pools_create y i object_size objects_hint)
  then show ?case using create_ok by blast
next
  case (pools_allocate y i P s a H)
  then show ?case using allocate_ok by fastforce
next
  case (pools_write y i a v)
  then show ?case using write_ok by blast
next
  case (pools_deallocate y i a P H)
  then show ?case using deallocate_ok by fastforce
next
  case (pools_destroy y i gone H)
  then obtain S F where ok: "pools_ok y S F" by blast
  obtain P where "pools (heap y) i = Some P" using pools_destroy(3) by (auto simp: destroy_pool_def split: option.splits)
  from destroy_ok[OF ok this pools_destroy(2)] show ?case using pools_destroy(3) by auto
qed

text \<open>C34: In every reachable state the live objects of all pools have disjoint bytes, and each lies
  in a slab of its own pool below the slab's header, where masking its address leads.\<close>

theorem live_objects_are_apart:
  assumes "pools_reachable y" "(i, a) \<in> owned_objects y" "(j, c) \<in> owned_objects y"
  shows "\<exists>P Q h. pools (heap y) i = Some P \<and> pools (heap y) j = Some Q \<and>
    slab_headers (heap y) (slab_base a (slab_size P)) = Some h \<and> header_pool h = i \<and>
    {a..<a + adjusted_object_size P} \<subseteq>
      {slab_base a (slab_size P)..<slab_base a (slab_size P) + (slab_size P - SLAB_HEADER_SIZE)} \<and>
    ((i, a) = (j, c) \<or> {a..<a + adjusted_object_size P} \<inter> {c..<c + adjusted_object_size Q} = {})"
proof -
  obtain S F where ok: "pools_ok y S F" using reachable_pools_ok[OF assms(1)] by blast
  have l: "a \<in> live_of y i" "c \<in> live_of y j" using assms(2,3) by (simp_all add: live_of_def)
  then obtain P Q where P: "pools (heap y) i = Some P" "pools (heap y) j = Some Q"
    using ok unfolding pools_ok_def by (metis empty_iff option.exhaust)
  have p: "pool_ok (heap y) (live_of y i) i P (S i) (F i)" using ok P by (simp add: pools_ok_def)
  have ka: "a \<in> pool_objects (slab_headers (heap y)) (adjusted_object_size P) (S i)" using known_object[OF ok P(1)] l by blast
  have kc: "c \<in> pool_objects (slab_headers (heap y)) (adjusted_object_size Q) (S j)" using known_object[OF ok P(2)] l by blast
  obtain b where b: "b \<in> set (S i)" "slab_base a (slab_size P) = b"
      "{a..<a + adjusted_object_size P} \<subseteq> {b..<b + (slab_size P - SLAB_HEADER_SIZE)}" using pool_object_index[OF p ka] by blast
  then obtain h where "slab_headers (heap y) b = Some h" "header_pool h = i"
    using slab_chain_live[of "slab_headers (heap y)" i "newest_slab P" "S i" b] p by (auto simp: pool_ok_def)
  then show ?thesis using P b objects_apart[OF ok P ka kc] by blast
qed

text \<open>C35: A reachable pool always works: it hands out an object nobody owns, takes back what is
  owned and hands it out next, and when nothing is owned its destructor deletes each of its slabs
  once.\<close>

theorem private_pool_works:
  assumes "pools_reachable y" "pools (heap y) i = Some P"
  shows "(fresh_slab y P s \<longrightarrow> (\<exists>a H. private_allocate i s (heap y) = Some (a, H) \<and> (i, a) \<notin> owned_objects y)) \<and>
    ((i, a) \<in> owned_objects y \<longrightarrow> (\<exists>H. private_deallocate a (slab_size P) (heap y) = Some H \<and>
      map_option fst (private_allocate i s H) = Some a)) \<and>
    (live_of y i = {} \<longrightarrow> (\<exists>gone H. destroy_pool i (heap y) = Some (gone, H) \<and> distinct gone \<and>
      set gone = {b. \<exists>h. slab_headers (heap y) b = Some h \<and> header_pool h = i}))"
proof -
  obtain S F where ok: "pools_ok y S F" using reachable_pools_ok[OF assms(1)] by blast
  have p: "pool_ok (heap y) (live_of y i) i P (S i) (F i)" using ok assms(2) by (simp add: pools_ok_def)
  have d: "distinct (S i)" using p by (simp add: pool_ok_def)
  have h: "\<exists>h. slab_headers (heap y) b = Some h \<and> header_pool h = i" if "b \<in> set (S i)" for b
    using slab_chain_live[of "slab_headers (heap y)" i "newest_slab P" "S i" b] p that by (auto simp: pool_ok_def)
  have k: "b \<in> set (S i)" if "slab_headers (heap y) b = Some h" "header_pool h = i" for b h
    using header_known[OF ok that(1)] that(2) by blast
  show ?thesis
  proof (intro conjI impI)
    assume "fresh_slab y P s"
    then show "\<exists>a H. private_allocate i s (heap y) = Some (a, H) \<and> (i, a) \<notin> owned_objects y" using allocate_ok[OF ok assms(2)] by blast
  next
    assume "(i, a) \<in> owned_objects y"
    then show "\<exists>H. private_deallocate a (slab_size P) (heap y) = Some H \<and> map_option fst (private_allocate i s H) = Some a"
      using deallocate_ok[OF ok assms(2)] by blast
  next
    assume "live_of y i = {}"
    from destroy_ok[OF ok assms(2) this] obtain H where "destroy_pool i (heap y) = Some (S i, H)" by blast
    then show "\<exists>gone H. destroy_pool i (heap y) = Some (gone, H) \<and> distinct gone \<and>
      set gone = {b. \<exists>h. slab_headers (heap y) b = Some h \<and> header_pool h = i}" using d h k by blast
  qed
qed

section \<open>A run\<close>

text \<open>Objects of 12 bytes: the second one starts at an address that is no multiple of 8, where
  \<open>deallocate\<close> stores a pointer.\<close>

definition twelve_pool :: "nat \<Rightarrow> nat \<Rightarrow> private_pool" where
  "twelve_pool live slab = \<lparr>adjusted_object_size = 12, slab_size = 2048, max_objects = 168, live_allocations = live,
     last_freed_object = 0, newest_slab = slab\<rparr>"

definition twelve_heap :: "nat \<Rightarrow> pool_heap" where
  "twelve_heap n = \<lparr>links = (\<lambda>_. 0), slab_headers = [4096 \<mapsto> \<lparr>header_pool = 0, next_slab = 0, initial_objects = n\<rparr>],
     pools = [0 \<mapsto> twelve_pool n 4096]\<rparr>"

definition twelve_system :: pool_system where
  "twelve_system = \<lparr>heap = twelve_heap 2, owned_objects = {(0, 4096), (0, 4108)}\<rparr>"

lemma twelve_reachable: "pools_reachable twelve_system"
proof -
  let ?H0 = "\<lparr>links = (\<lambda>_. 0), slab_headers = Map.empty, pools = [0 \<mapsto> twelve_pool 0 0]\<rparr> :: pool_heap"
  let ?y0 = "\<lparr>heap = ?H0, owned_objects = {}\<rparr>" and ?y1 = "\<lparr>heap = twelve_heap 1, owned_objects = {(0, 4096)}\<rparr>"
  have "calcSlabSize 12 100 = 2048" by (simp add: calcSlabSize_def bit_ceil_def bit_width.simps SLAB_HEADER_SIZE_def)
  then have n: "new_private_pool 12 100 = twelve_pool 0 0"
    by (simp add: new_private_pool_def adjustObjectSize_def calcMaxObjects_def SLAB_HEADER_SIZE_def twelve_pool_def)
  have f: "fitting 12 100" by (simp add: fitting_def)
  have 0: "pools_reachable ?y0"
    using pools_create[OF pools_start _ f, of 0] by (simp add: no_pools_def set_pool_def n)
  have a0: "private_allocate 0 4096 (heap ?y0) = Some (4096, twelve_heap 1)"
    by (simp add: private_allocate_def with_room_def add_slab_def bump_def set_pool_def twelve_pool_def twelve_heap_def)
  have "pools (heap ?y0) 0 = Some (twelve_pool 0 0)" "fresh_slab ?y0 (twelve_pool 0 0) 4096"
    by (simp_all add: fresh_slab_def twelve_pool_def)
  from pools_allocate[OF 0 this a0] have 1: "pools_reachable ?y1" by simp
  have a1: "private_allocate 0 8192 (heap ?y1) = Some (4108, twelve_heap 2)"
    by (simp add: private_allocate_def with_room_def bump_def set_pool_def twelve_pool_def twelve_heap_def)
      (simp add: numeral_2_eq_2)
  have "pools (heap ?y1) 0 = Some (twelve_pool 1 4096)" "fresh_slab ?y1 (twelve_pool 1 4096) 8192"
    by (simp_all add: fresh_slab_def twelve_pool_def twelve_heap_def slab_range_def)
  from pools_allocate[OF 1 this a1] show ?thesis by (simp add: twelve_system_def insert_commute)
qed

lemma freed_link_unaligned: "(0, 4108) \<in> owned_objects twelve_system \<and> (4108 :: nat) mod 8 \<noteq> 0"
  by (simp add: twelve_system_def)

theorem live_objects_are_apart_witness:
  "(0, 4096) \<in> owned_objects twelve_system \<and> (0, 4108) \<in> owned_objects twelve_system \<and>
   {4096..<4096 + 12} \<inter> {4108..<4108 + (12 :: nat)} = {}"
proof -
  have o: "(0, 4096) \<in> owned_objects twelve_system" "(0, 4108) \<in> owned_objects twelve_system" by (simp_all add: twelve_system_def)
  have "pools (heap twelve_system) 0 = Some (twelve_pool 2 4096)" "adjusted_object_size (twelve_pool 2 4096) = 12"
    by (simp_all add: twelve_system_def twelve_heap_def twelve_pool_def)
  then show ?thesis using live_objects_are_apart[OF twelve_reachable o] o by auto
qed

theorem private_pool_works_witness:
  "\<exists>H. private_deallocate 4108 2048 (heap twelve_system) = Some H \<and> map_option fst (private_allocate 0 8192 H) = Some 4108"
proof -
  have "pools (heap twelve_system) 0 = Some (twelve_pool 2 4096)" "slab_size (twelve_pool 2 4096) = 2048"
    "(0, 4108) \<in> owned_objects twelve_system"
    by (simp_all add: twelve_system_def twelve_heap_def twelve_pool_def)
  then show ?thesis using private_pool_works[OF twelve_reachable, of 0 "twelve_pool 2 4096" 8192 4108] by auto
qed

text \<open>C36: A slab has room for at least as many objects as the pool was asked for, its size is a
  power of two, and its objects end before its header.\<close>

theorem slab_holds_hint:
  assumes "fitting object_size objects_hint" "P = new_private_pool object_size objects_hint"
  shows "objects_hint \<le> max_objects P \<and> max_objects P * adjusted_object_size P + SLAB_HEADER_SIZE \<le> slab_size P \<and>
    object_size \<le> adjusted_object_size P \<and> slab_size P = calcSlabSize object_size objects_hint \<and> (\<exists>k \<le> 31. slab_size P = 2 ^ k)"
  using new_pool_shape[OF assms(1)] unfolding assms(2) shape_ok_def by blast

theorem slab_holds_hint_witness: "100 \<le> max_objects (new_private_pool 12 100)"
proof -
  have "fitting 12 100" by (simp add: fitting_def)
  then show ?thesis using slab_holds_hint[OF _ refl] by blast
qed

text \<open>A pool of more than \<open>2 ^ 31\<close> bytes per slab has no slab size at all: it is cut to 32 bits.\<close>

lemma huge_slab_is_cut: "slab_size (new_private_pool 512 8388608) = 0"
  by (simp add: new_private_pool_def Let_def calcSlabSize_def bit_ceil_def bit_width.simps SLAB_HEADER_SIZE_def)

end
