(* ===== verification/Uid_Registry.thy ===== *)
theory Uid_Registry
  imports Uid
begin

text \<open>
  The UID registry (src/voxen/debug/uid_registry.cpp): descriptions of identifiers in 32 locked
  shards. A description is a copy, or a view of characters somebody else owns; \<open>mem\<close> gives the
  characters at an address when they are read. The locks make each operation one step.
\<close>

datatype StringOrLiteral = Literal nat nat | Copied string

definition view_of :: "(nat \<Rightarrow> string) \<Rightarrow> StringOrLiteral \<Rightarrow> string" where
  "view_of mem s = (case s of Literal p n \<Rightarrow> take n (mem p) | Copied t \<Rightarrow> t)"

definition REGISTRY_SHARDS :: nat where "REGISTRY_SHARDS = 32"

type_synonym registry = "nat \<Rightarrow> uid \<rightharpoonup> StringOrLiteral"

definition selectShard :: "uid \<Rightarrow> nat" where
  "selectShard i = unat (v1 i) mod REGISTRY_SHARDS"

definition empty_registry :: registry where "empty_registry = (\<lambda>_. Map.empty)"

definition registerLiteral :: "uid \<Rightarrow> nat \<Rightarrow> nat \<Rightarrow> registry \<Rightarrow> registry" where
  "registerLiteral i p n g = g(selectShard i := (g (selectShard i))(i \<mapsto> Literal p n))"

definition registerString :: "uid \<Rightarrow> string \<Rightarrow> registry \<Rightarrow> registry" where
  "registerString i s g = g(selectShard i := (g (selectShard i))(i \<mapsto> Copied s))"

definition unregister_uid :: "uid \<Rightarrow> registry \<Rightarrow> registry" where
  "unregister_uid i g = g(selectShard i := (g (selectShard i))(i := None))"

text \<open>\<open>uid_chars\<close> is read as a C string, which ends at the zero that \<open>toChars\<close> writes.\<close>

definition uid_text :: "uid \<Rightarrow> string" where
  "uid_text i = takeWhile (\<lambda>c. c \<noteq> CHR 0x00) (toChars i)"

datatype Format = FORMAT_STRING_AND_UID | FORMAT_STRING_OR_UID | FORMAT_STRING_ONLY

definition lookup_uid :: "(nat \<Rightarrow> string) \<Rightarrow> uid \<Rightarrow> Format \<Rightarrow> registry \<Rightarrow> string" where
  "lookup_uid mem i fmt g =
     (case g (selectShard i) i of
        Some s \<Rightarrow> if fmt = FORMAT_STRING_AND_UID then view_of mem s @ '' ('' @ uid_text i @ '')'' else view_of mem s
      | None \<Rightarrow> if fmt \<noteq> FORMAT_STRING_ONLY then uid_text i else [])"

section \<open>One map\<close>

datatype registry_op = Reg_Literal uid nat nat | Reg_String uid string | Unregister uid

fun registry_step :: "registry_op \<Rightarrow> registry \<Rightarrow> registry" where
  "registry_step (Reg_Literal i p n) g = registerLiteral i p n g"
| "registry_step (Reg_String i s) g = registerString i s g"
| "registry_step (Unregister i) g = unregister_uid i g"

text \<open>The last operation on an identifier decides, whatever happened to the others.\<close>

fun last_description :: "uid \<Rightarrow> registry_op list \<Rightarrow> StringOrLiteral option \<Rightarrow> StringOrLiteral option" where
  "last_description i [] d = d"
| "last_description i (Reg_Literal j p n # ops) d = last_description i ops (if j = i then Some (Literal p n) else d)"
| "last_description i (Reg_String j s # ops) d = last_description i ops (if j = i then Some (Copied s) else d)"
| "last_description i (Unregister j # ops) d = last_description i ops (if j = i then None else d)"

lemma registry_steps: "fold registry_step ops g (selectShard i) i = last_description i ops (g (selectShard i) i)"
proof (induction ops arbitrary: g)
  case (Cons x ops)
  show ?case unfolding fold.simps comp_def Cons.IH
    by (cases x) (auto simp: registerLiteral_def registerString_def unregister_uid_def)
qed simp

text \<open>After any operations a lookup tells the last description of the identifier if it has one,
  with the identifier behind it in the default format, and otherwise the identifier or nothing.\<close>

theorem registry_is_a_map:
  "lookup_uid mem i fmt (fold registry_step ops empty_registry) =
     (case last_description i ops None of
        None \<Rightarrow> (case fmt of FORMAT_STRING_ONLY \<Rightarrow> [] | _ \<Rightarrow> uid_text i)
      | Some s \<Rightarrow> view_of mem s @ (case fmt of FORMAT_STRING_AND_UID \<Rightarrow> '' ('' @ uid_text i @ '')'' | _ \<Rightarrow> []))"
  using registry_steps[of ops empty_registry i]
  by (simp add: lookup_uid_def empty_registry_def split: option.splits Format.splits)

end
