(* ===== verification/Render_Graph.thy ===== *)
theory Render_Graph
  imports Prelude "HOL-Library.Word"
begin

unbundle bit_operations_syntax

text \<open>
  The render graph builder (src/voxen/gfx/vk/render_graph_builder.cpp, render_graph_private.hpp): it
  declares images, views, buffers and passes, collects how each resource is used, and puts barriers
  between passes whose accesses conflict. Also the usage and handle bookkeeping of double-buffered
  resources in render_graph_runner.cpp.

  Vulkan's constants are a parameter \<open>V\<close>, which gives the value of each by its name without the
  prefix. Resources are positions in lists, which like the deques of the code only grow; the
  output image and its view are the first entries. Clear values, callbacks and formats are
  opaque numbers. \<open>None\<close> is a failed assertion.
\<close>

section \<open>State\<close>

type_synonym flags = u64

record mip_state =
  layout :: flags
  stages :: flags
  read_access :: flags
  write_access :: flags

record graph_image =
  image_name :: string
  image_sibling :: "nat option"
  mip_states :: "mip_state list"
  image_format :: flags
  image_extent :: "nat \<times> nat"
  mip_levels :: nat
  array_layers :: nat
  image_usage :: flags

record graph_view =
  view_name :: string
  view_image :: nat
  view_sibling :: "nat option"
  view_is_array :: bool
  view_format :: flags
  view_aspect :: flags
  base_mip :: nat
  level_count :: nat
  layer_count :: nat
  view_usage :: flags

record graph_buffer =
  buffer_name :: string
  dynamic_sized :: bool
  buffer_size :: nat
  buffer_usage :: flags
  buffer_stages :: flags
  buffer_read :: flags
  buffer_write :: flags

record buffer_barrier =
  bar_buffer :: nat
  buf_src_stages :: flags
  buf_src_access :: flags
  buf_dst_stages :: flags
  buf_dst_access :: flags

record image_barrier =
  bar_image :: nat
  img_src_stages :: flags
  img_src_access :: flags
  img_dst_stages :: flags
  img_dst_access :: flags
  old_layout :: flags
  new_layout :: flags
  sub_base :: nat
  sub_count :: nat

record render_target =
  target_view :: "nat option"
  load_op :: flags
  store_op :: flags
  clear_value :: nat
  read_only :: bool

datatype command =
    Barrier "buffer_barrier list" "image_barrier list"
  | Render_Pass string nat "render_target list" render_target
  | Compute_Pass string nat

record render_graph =
  buffers :: "graph_buffer list"
  images :: "graph_image list"
  views :: "graph_view list"
  commands :: "command list"

section \<open>Constants\<close>

definition formatToAspect :: "(string \<Rightarrow> flags) \<Rightarrow> flags \<Rightarrow> flags" where
  "formatToAspect V f =
     (if f = V ''FORMAT_D32_SFLOAT'' \<or> f = V ''FORMAT_D16_UNORM'' then V ''IMAGE_ASPECT_DEPTH_BIT''
      else if f = V ''FORMAT_S8_UINT'' then V ''IMAGE_ASPECT_STENCIL_BIT''
      else if f = V ''FORMAT_D32_SFLOAT_S8_UINT'' \<or> f = V ''FORMAT_D24_UNORM_S8_UINT''
      then V ''IMAGE_ASPECT_DEPTH_BIT'' OR V ''IMAGE_ASPECT_STENCIL_BIT''
      else V ''IMAGE_ASPECT_COLOR_BIT'')"

definition any_of :: "(string \<Rightarrow> flags) \<Rightarrow> string list \<Rightarrow> flags" where
  "any_of V names = foldr (\<lambda>n f. V n OR f) names 0"

definition KNOWN_READ_FLAGS :: "(string \<Rightarrow> flags) \<Rightarrow> flags" where
  "KNOWN_READ_FLAGS V = any_of V [''ACCESS_2_INDIRECT_COMMAND_READ_BIT'', ''ACCESS_2_UNIFORM_READ_BIT'',
     ''ACCESS_2_COLOR_ATTACHMENT_READ_BIT'', ''ACCESS_2_DEPTH_STENCIL_ATTACHMENT_READ_BIT'',
     ''ACCESS_2_TRANSFER_READ_BIT'', ''ACCESS_2_SHADER_SAMPLED_READ_BIT'', ''ACCESS_2_SHADER_STORAGE_READ_BIT'']"

definition KNOWN_WRITE_FLAGS :: "(string \<Rightarrow> flags) \<Rightarrow> flags" where
  "KNOWN_WRITE_FLAGS V = any_of V [''ACCESS_2_COLOR_ATTACHMENT_WRITE_BIT'',
     ''ACCESS_2_DEPTH_STENCIL_ATTACHMENT_WRITE_BIT'', ''ACCESS_2_TRANSFER_WRITE_BIT'', ''ACCESS_2_SHADER_STORAGE_WRITE_BIT'']"

definition splitReadWriteFlags :: "(string \<Rightarrow> flags) \<Rightarrow> flags \<Rightarrow> (flags \<times> flags) option" where
  "splitReadWriteFlags V f =
     (if f AND (KNOWN_READ_FLAGS V OR KNOWN_WRITE_FLAGS V) = f
      then Some (f AND KNOWN_READ_FLAGS V, f AND KNOWN_WRITE_FLAGS V) else None)"

fun access_to_usage :: "(flags \<times> flags) list \<Rightarrow> flags \<Rightarrow> flags \<Rightarrow> flags option" where
  "access_to_usage [] f usage = (if f = 0 then Some usage else None)"
| "access_to_usage ((a, u) # mapping) f usage =
     (if f AND a \<noteq> 0 then access_to_usage mapping (f AND NOT a) (usage OR u) else access_to_usage mapping f usage)"

definition bufferAccessToUsage :: "(string \<Rightarrow> flags) \<Rightarrow> flags \<Rightarrow> flags option" where
  "bufferAccessToUsage V f = access_to_usage
     [(V ''ACCESS_2_INDIRECT_COMMAND_READ_BIT'', V ''BUFFER_USAGE_INDIRECT_BUFFER_BIT''),
      (V ''ACCESS_2_UNIFORM_READ_BIT'', V ''BUFFER_USAGE_UNIFORM_BUFFER_BIT''),
      (V ''ACCESS_2_TRANSFER_READ_BIT'', V ''BUFFER_USAGE_TRANSFER_SRC_BIT''),
      (V ''ACCESS_2_TRANSFER_WRITE_BIT'', V ''BUFFER_USAGE_TRANSFER_DST_BIT''),
      (V ''ACCESS_2_SHADER_SAMPLED_READ_BIT'', V ''BUFFER_USAGE_UNIFORM_TEXEL_BUFFER_BIT''),
      (V ''ACCESS_2_SHADER_STORAGE_READ_BIT'' OR V ''ACCESS_2_SHADER_STORAGE_WRITE_BIT'', V ''BUFFER_USAGE_STORAGE_BUFFER_BIT'')] f 0"

definition imageAccessToUsage :: "(string \<Rightarrow> flags) \<Rightarrow> flags \<Rightarrow> flags option" where
  "imageAccessToUsage V f = access_to_usage
     [(V ''ACCESS_2_COLOR_ATTACHMENT_READ_BIT'' OR V ''ACCESS_2_COLOR_ATTACHMENT_WRITE_BIT'', V ''IMAGE_USAGE_COLOR_ATTACHMENT_BIT''),
      (V ''ACCESS_2_DEPTH_STENCIL_ATTACHMENT_READ_BIT'' OR V ''ACCESS_2_DEPTH_STENCIL_ATTACHMENT_WRITE_BIT'',
        V ''IMAGE_USAGE_DEPTH_STENCIL_ATTACHMENT_BIT''),
      (V ''ACCESS_2_TRANSFER_READ_BIT'', V ''IMAGE_USAGE_TRANSFER_SRC_BIT''),
      (V ''ACCESS_2_TRANSFER_WRITE_BIT'', V ''IMAGE_USAGE_TRANSFER_DST_BIT''),
      (V ''ACCESS_2_SHADER_SAMPLED_READ_BIT'', V ''IMAGE_USAGE_SAMPLED_BIT''),
      (V ''ACCESS_2_SHADER_STORAGE_READ_BIT'' OR V ''ACCESS_2_SHADER_STORAGE_WRITE_BIT'', V ''IMAGE_USAGE_STORAGE_BIT'')] f 0"

section \<open>Declaring resources\<close>

record image_config =
  config_format :: flags
  config_resolution :: "nat \<times> nat"
  config_mips :: nat
  config_layers :: nat

definition new_mip :: "(string \<Rightarrow> flags) \<Rightarrow> mip_state" where
  "new_mip V = \<lparr>layout = V ''IMAGE_LAYOUT_UNDEFINED'', stages = 0, read_access = 0, write_access = 0\<rparr>"

definition new_image :: "(string \<Rightarrow> flags) \<Rightarrow> string \<Rightarrow> nat option \<Rightarrow> image_config \<Rightarrow> graph_image" where
  "new_image V name sibling c = \<lparr>image_name = name, image_sibling = sibling, mip_states = replicate (config_mips c) (new_mip V),
     image_format = config_format c, image_extent = config_resolution c, mip_levels = config_mips c,
     array_layers = config_layers c, image_usage = 0\<rparr>"

definition new_graph :: "(string \<Rightarrow> flags) \<Rightarrow> flags \<Rightarrow> nat \<times> nat \<Rightarrow> render_graph" where
  "new_graph V fmt extent = \<lparr>buffers = [],
     images = [new_image V [] None \<lparr>config_format = fmt, config_resolution = extent, config_mips = 1, config_layers = 1\<rparr>],
     views = [\<lparr>view_name = [], view_image = 0, view_sibling = None, view_is_array = False, view_format = fmt,
       view_aspect = V ''IMAGE_ASPECT_COLOR_BIT'', base_mip = 0, level_count = 1, layer_count = 1, view_usage = 0\<rparr>],
     commands = []\<rparr>"

definition make2DImage :: "(string \<Rightarrow> flags) \<Rightarrow> string \<Rightarrow> image_config \<Rightarrow> render_graph \<Rightarrow> nat \<times> render_graph" where
  "make2DImage V name c g = (length (images g), g\<lparr>images := images g @ [new_image V (''graph/img/'' @ name) None c]\<rparr>)"

definition makeDoubleBuffered2DImage ::
  "(string \<Rightarrow> flags) \<Rightarrow> string \<Rightarrow> image_config \<Rightarrow> render_graph \<Rightarrow> (nat \<times> nat) \<times> render_graph" where
  "makeDoubleBuffered2DImage V name c g =
     (let n = length (images g)
      in ((n, n + 1), g\<lparr>images := images g @ [new_image V (''graph/img/'' @ name @ ''@A'') (Some (n + 1)) c,
          new_image V (''graph/img/'' @ name @ ''@B'') (Some n) c]\<rparr>))"

definition makeBuffer :: "string \<Rightarrow> nat \<Rightarrow> bool \<Rightarrow> render_graph \<Rightarrow> nat \<times> render_graph" where
  "makeBuffer name size' dynamic g =
     (length (buffers g), g\<lparr>buffers := buffers g @ [\<lparr>buffer_name = ''graph/buf/'' @ name, dynamic_sized = dynamic, buffer_size = size',
        buffer_usage = 0, buffer_stages = 0, buffer_read = 0, buffer_write = 0\<rparr>]\<rparr>)"

definition REMAINING_MIP_LEVELS :: nat where "REMAINING_MIP_LEVELS = 2 ^ 32 - 1"

text \<open>\<open>makeImageView\<close>; the image is a handle, which may be null.\<close>

definition makeImageView ::
  "(string \<Rightarrow> flags) \<Rightarrow> string \<Rightarrow> nat option \<Rightarrow> flags \<Rightarrow> nat \<Rightarrow> nat \<Rightarrow> render_graph \<Rightarrow> nat option \<times> render_graph" where
  "makeImageView V name img fmt firstMip mipCount g =
     (case img of
        None \<Rightarrow> (None, g)
      | Some i \<Rightarrow>
          let im = images g ! i; n = length (views g);
              v = \<lparr>view_name = ''graph/img/'' @ name, view_image = i, view_sibling = None, view_is_array = array_layers im > 1,
                view_format = fmt, view_aspect = formatToAspect V fmt, base_mip = firstMip,
                level_count = (if mipCount = REMAINING_MIP_LEVELS then mip_levels im else mipCount),
                layer_count = array_layers im, view_usage = 0\<rparr>
          in (Some n, g\<lparr>views := views g @
            (case image_sibling im of
               None \<Rightarrow> [v]
             | Some s \<Rightarrow> [v\<lparr>view_name := view_name v @ ''@A'', view_sibling := Some (n + 1)\<rparr>,
                 v\<lparr>view_name := view_name v @ ''@B'', view_image := s, view_sibling := Some n\<rparr>])\<rparr>))"

definition makeBasicImageView :: "(string \<Rightarrow> flags) \<Rightarrow> string \<Rightarrow> nat option \<Rightarrow> render_graph \<Rightarrow> nat option \<times> render_graph" where
  "makeBasicImageView V name img g =
     (case img of None \<Rightarrow> (None, g)
      | Some i \<Rightarrow> makeImageView V name img (image_format (images g ! i)) 0 REMAINING_MIP_LEVELS g)"

definition makeSingleMipImageView :: "(string \<Rightarrow> flags) \<Rightarrow> string \<Rightarrow> nat option \<Rightarrow> nat \<Rightarrow> render_graph \<Rightarrow> nat option \<times> render_graph" where
  "makeSingleMipImageView V name img mip g =
     (case img of None \<Rightarrow> (None, g) | Some i \<Rightarrow> makeImageView V name img (image_format (images g ! i)) mip 1 g)"

record resource_usage =
  use_buffer :: "nat option"
  use_view :: "nat option"
  use_stages :: flags
  use_access :: flags
  use_layout :: flags
  use_discard :: bool

definition makeBufferUsage :: "(string \<Rightarrow> flags) \<Rightarrow> nat option \<Rightarrow> flags \<Rightarrow> flags \<Rightarrow> bool \<Rightarrow> resource_usage" where
  "makeBufferUsage V b st acc discard = \<lparr>use_buffer = b, use_view = None, use_stages = st, use_access = acc,
     use_layout = V ''IMAGE_LAYOUT_UNDEFINED'', use_discard = discard\<rparr>"

definition makeImageViewUsage :: "nat option \<Rightarrow> flags \<Rightarrow> flags \<Rightarrow> flags \<Rightarrow> bool \<Rightarrow> resource_usage" where
  "makeImageViewUsage v st acc lay discard = \<lparr>use_buffer = None, use_view = v, use_stages = st, use_access = acc,
     use_layout = lay, use_discard = discard\<rparr>"

definition makeSrvUsage :: "(string \<Rightarrow> flags) \<Rightarrow> nat option \<Rightarrow> flags \<Rightarrow> resource_usage" where
  "makeSrvUsage V v st = makeImageViewUsage v st (V ''ACCESS_2_SHADER_SAMPLED_READ_BIT'') (V ''IMAGE_LAYOUT_SHADER_READ_ONLY_OPTIMAL'') False"

definition no_target :: "(string \<Rightarrow> flags) \<Rightarrow> render_target" where
  "no_target V = \<lparr>target_view = None, load_op = V ''ATTACHMENT_LOAD_OP_DONT_CARE'', store_op = V ''ATTACHMENT_STORE_OP_DONT_CARE'',
     clear_value = 0, read_only = False\<rparr>"

definition makeOutputRenderTarget :: "(string \<Rightarrow> flags) \<Rightarrow> bool \<Rightarrow> nat \<Rightarrow> render_target" where
  "makeOutputRenderTarget V clear value = \<lparr>target_view = Some 0,
     load_op = (if clear then V ''ATTACHMENT_LOAD_OP_CLEAR'' else V ''ATTACHMENT_LOAD_OP_DONT_CARE''),
     store_op = V ''ATTACHMENT_STORE_OP_STORE'', clear_value = value, read_only = False\<rparr>"

text \<open>The four functions for other targets differ in the view's name and the operations.\<close>

definition make_target ::
  "(string \<Rightarrow> flags) \<Rightarrow> string \<Rightarrow> string \<Rightarrow> string \<Rightarrow> nat option \<Rightarrow> nat \<Rightarrow> nat \<Rightarrow> render_graph \<Rightarrow> render_target \<times> render_graph" where
  "make_target V suffix load store img value mip g =
     (case img of
        None \<Rightarrow> (no_target V, g)
      | Some i \<Rightarrow>
          (case makeSingleMipImageView V (image_name (images g ! i) @ suffix) img mip g of
             (v, g) \<Rightarrow> (\<lparr>target_view = v, load_op = V load, store_op = V store, clear_value = value, read_only = False\<rparr>, g)))"

definition makeRenderTargetDiscardStore :: "(string \<Rightarrow> flags) \<Rightarrow> nat option \<Rightarrow> nat \<Rightarrow> render_graph \<Rightarrow> render_target \<times> render_graph" where
  "makeRenderTargetDiscardStore V img mip g =
     make_target V ''/rtv'' ''ATTACHMENT_LOAD_OP_DONT_CARE'' ''ATTACHMENT_STORE_OP_STORE'' img 0 mip g"

definition makeRenderTargetClearStore :: "(string \<Rightarrow> flags) \<Rightarrow> nat option \<Rightarrow> nat \<Rightarrow> nat \<Rightarrow> render_graph \<Rightarrow> render_target \<times> render_graph" where
  "makeRenderTargetClearStore V img value mip g =
     make_target V ''/rtv'' ''ATTACHMENT_LOAD_OP_CLEAR'' ''ATTACHMENT_STORE_OP_STORE'' img value mip g"

definition makeDepthStencilTargetClearStore :: "(string \<Rightarrow> flags) \<Rightarrow> nat option \<Rightarrow> nat \<Rightarrow> nat \<Rightarrow> render_graph \<Rightarrow> render_target \<times> render_graph" where
  "makeDepthStencilTargetClearStore V img value mip g =
     make_target V ''/dsv'' ''ATTACHMENT_LOAD_OP_CLEAR'' ''ATTACHMENT_STORE_OP_STORE'' img value mip g"

definition makeDepthStencilTargetClearDiscard :: "(string \<Rightarrow> flags) \<Rightarrow> nat option \<Rightarrow> nat \<Rightarrow> nat \<Rightarrow> render_graph \<Rightarrow> render_target \<times> render_graph" where
  "makeDepthStencilTargetClearDiscard V img value mip g =
     make_target V ''/dsv'' ''ATTACHMENT_LOAD_OP_CLEAR'' ''ATTACHMENT_STORE_OP_DONT_CARE'' img value mip g"

section \<open>Hazards\<close>

text \<open>Barriers are added to the last command if that is a barrier.\<close>

definition add_barriers :: "buffer_barrier list \<Rightarrow> image_barrier list \<Rightarrow> command list \<Rightarrow> command list" where
  "add_barriers bs is' cmds =
     (case cmds of
        [] \<Rightarrow> [Barrier bs is']
      | _ \<Rightarrow> (case last cmds of
                Barrier bs0 is0 \<Rightarrow> butlast cmds @ [Barrier (bs0 @ bs) (is0 @ is')]
              | _ \<Rightarrow> cmds @ [Barrier bs is']))"

definition resolveBufferHazards :: "nat \<Rightarrow> flags \<Rightarrow> flags \<Rightarrow> flags \<Rightarrow> render_graph \<Rightarrow> render_graph" where
  "resolveBufferHazards b st rd wr g =
     (let buf = buffers g ! b
      in if buffer_write buf = 0 \<and> (buffer_read buf = 0 \<or> wr = 0)
         then g\<lparr>buffers := (buffers g)[b := buf\<lparr>buffer_stages := buffer_stages buf OR st,
           buffer_read := buffer_read buf OR rd, buffer_write := buffer_write buf OR wr\<rparr>]\<rparr>
         else g\<lparr>buffers := (buffers g)[b := buf\<lparr>buffer_stages := st, buffer_read := rd, buffer_write := wr\<rparr>],
           commands := add_barriers [\<lparr>bar_buffer = b, buf_src_stages = buffer_stages buf,
             buf_src_access = buffer_read buf OR buffer_write buf, buf_dst_stages = st, buf_dst_access = rd OR wr\<rparr>] [] (commands g)\<rparr>)"

definition scan_mips :: "(string \<Rightarrow> flags) \<Rightarrow> mip_state list \<Rightarrow> flags \<times> bool \<times> flags \<times> flags \<times> flags" where
  "scan_mips V ms =
     foldl (\<lambda>(lay, different, st, rd, wr) m. (lay, different \<or> layout m \<noteq> lay, st OR stages m, rd OR read_access m, wr OR write_access m))
       (case ms of [] \<Rightarrow> V ''IMAGE_LAYOUT_UNDEFINED'' | m # _ \<Rightarrow> layout m, False, 0, 0, 0) ms"

definition update_range :: "nat \<Rightarrow> nat \<Rightarrow> ('a \<Rightarrow> 'a) \<Rightarrow> 'a list \<Rightarrow> 'a list" where
  "update_range b e f xs = map (\<lambda>(i, x). if b \<le> i \<and> i < e then f x else x) (enumerate 0 xs)"

definition resolveImageHazards ::
  "(string \<Rightarrow> flags) \<Rightarrow> nat \<Rightarrow> flags \<Rightarrow> flags \<Rightarrow> flags \<Rightarrow> flags \<Rightarrow> bool \<Rightarrow> render_graph \<Rightarrow> render_graph option" where
  "resolveImageHazards V v st rd wr lay discard g =
     (let view = views g ! v; im = images g ! view_image view;
          mipBegin = base_mip view; mipEnd = (mipBegin + level_count view) mod 2 ^ 32
      in if mipEnd > mip_levels im then None
         else (case scan_mips V (take (mipEnd - mipBegin) (drop mipBegin (mip_states im))) of
           (old, different, old_st, old_rd, old_wr) \<Rightarrow>
             let different = (different \<and> \<not> discard); old = (if discard then V ''IMAGE_LAYOUT_UNDEFINED'' else old);
                 put = (\<lambda>f. (images g)[view_image view := im\<lparr>mip_states := update_range mipBegin mipEnd f (mip_states im)\<rparr>])
             in if \<not> different \<and> old_wr = 0 \<and> (old_rd = 0 \<or> wr = 0) \<and> old = lay
                then Some (g\<lparr>images := put (\<lambda>m. m\<lparr>stages := stages m OR st, read_access := read_access m OR rd,
                  write_access := write_access m OR wr\<rparr>)\<rparr>)
                else Some (g\<lparr>images := put (\<lambda>m. \<lparr>layout = lay, stages = st, read_access = rd, write_access = wr\<rparr>),
                  commands := add_barriers []
                    (if \<not> different
                     then [\<lparr>bar_image = view_image view, img_src_stages = old_st, img_src_access = old_rd OR old_wr,
                       img_dst_stages = st, img_dst_access = rd OR wr, old_layout = old, new_layout = lay,
                       sub_base = mipBegin, sub_count = level_count view\<rparr>]
                     else map (\<lambda>mip. let m = mip_states im ! mip
                       in \<lparr>bar_image = view_image view, img_src_stages = stages m, img_src_access = read_access m OR write_access m,
                         img_dst_stages = st, img_dst_access = rd OR wr, old_layout = layout m, new_layout = lay,
                         sub_base = mip, sub_count = 1\<rparr>) [mipBegin..<mipEnd])
                    (commands g)\<rparr>)))"

definition add_view_usage :: "nat \<Rightarrow> flags \<Rightarrow> render_graph \<Rightarrow> render_graph" where
  "add_view_usage v u g =
     (let view = views g ! v; i = view_image view
      in g\<lparr>views := (views g)[v := view\<lparr>view_usage := view_usage view OR u\<rparr>],
           images := (images g)[i := (images g ! i)\<lparr>image_usage := image_usage (images g ! i) OR u\<rparr>]\<rparr>)"

definition resolve_usage :: "(string \<Rightarrow> flags) \<Rightarrow> resource_usage \<Rightarrow> render_graph \<Rightarrow> render_graph option" where
  "resolve_usage V x g =
     (if (use_buffer x = None) = (use_view x = None) then None
      else (case splitReadWriteFlags V (use_access x) of
              None \<Rightarrow> None
            | Some (rd, wr) \<Rightarrow>
                (case use_buffer x of
                   Some b \<Rightarrow>
                     (case bufferAccessToUsage V (use_access x) of
                        None \<Rightarrow> None
                      | Some u \<Rightarrow> Some (resolveBufferHazards b (use_stages x) rd wr
                          (g\<lparr>buffers := (buffers g)[b := (buffers g ! b)\<lparr>buffer_usage := buffer_usage (buffers g ! b) OR u\<rparr>]\<rparr>)))
                 | None \<Rightarrow>
                     (case imageAccessToUsage V (use_access x) of
                        None \<Rightarrow> None
                      | Some u \<Rightarrow> resolveImageHazards V (the (use_view x)) (use_stages x) rd wr (use_layout x) (use_discard x)
                          (add_view_usage (the (use_view x)) u g)))))"

fun resolveResourceUsage :: "(string \<Rightarrow> flags) \<Rightarrow> resource_usage list \<Rightarrow> render_graph \<Rightarrow> render_graph option" where
  "resolveResourceUsage V [] g = Some g"
| "resolveResourceUsage V (x # xs) g =
     (case resolve_usage V x g of None \<Rightarrow> None | Some g \<Rightarrow> resolveResourceUsage V xs g)"

section \<open>Passes\<close>

definition add_command :: "command \<Rightarrow> render_graph \<Rightarrow> render_graph" where
  "add_command c g = g\<lparr>commands := commands g @ [c]\<rparr>"

definition makeComputePass :: "(string \<Rightarrow> flags) \<Rightarrow> string \<Rightarrow> nat \<Rightarrow> resource_usage list \<Rightarrow> render_graph \<Rightarrow> render_graph option" where
  "makeComputePass V name callback usage g =
     map_option (add_command (Compute_Pass name callback)) (resolveResourceUsage V usage g)"

definition use_target :: "(string \<Rightarrow> flags) \<Rightarrow> string \<Rightarrow> flags \<Rightarrow> flags \<Rightarrow> flags \<Rightarrow> render_target \<Rightarrow> render_graph \<Rightarrow> render_graph option" where
  "use_target V u st rd wr t g =
     (case target_view t of
        None \<Rightarrow> Some g
      | Some v \<Rightarrow>
          if level_count (views g ! v) \<noteq> 1 then None
          else resolveImageHazards V v st rd (if read_only t then 0 else wr) (V ''IMAGE_LAYOUT_ATTACHMENT_OPTIMAL'')
            (load_op t = V ''ATTACHMENT_LOAD_OP_CLEAR'' \<or> load_op t = V ''ATTACHMENT_LOAD_OP_DONT_CARE'')
            (add_view_usage v (V u) g))"

fun use_color_targets :: "(string \<Rightarrow> flags) \<Rightarrow> render_target list \<Rightarrow> render_graph \<Rightarrow> render_graph option" where
  "use_color_targets V [] g = Some g"
| "use_color_targets V (t # ts) g =
     (case use_target V ''IMAGE_USAGE_COLOR_ATTACHMENT_BIT'' (V ''PIPELINE_STAGE_2_COLOR_ATTACHMENT_OUTPUT_BIT'')
        (V ''ACCESS_2_COLOR_ATTACHMENT_READ_BIT'') (V ''ACCESS_2_COLOR_ATTACHMENT_WRITE_BIT'') t g of
        None \<Rightarrow> None | Some g \<Rightarrow> use_color_targets V ts g)"

definition GRAPH_MAX_RENDER_TARGETS :: nat where "GRAPH_MAX_RENDER_TARGETS = 8"

definition makeRenderPass ::
  "(string \<Rightarrow> flags) \<Rightarrow> string \<Rightarrow> nat \<Rightarrow> render_target list \<Rightarrow> render_target \<Rightarrow> resource_usage list \<Rightarrow> render_graph \<Rightarrow> render_graph option" where
  "makeRenderPass V name callback color_targets ds_target usage g =
     (case resolveResourceUsage V usage g of
        None \<Rightarrow> None
      | Some g \<Rightarrow>
          (case use_target V ''IMAGE_USAGE_DEPTH_STENCIL_ATTACHMENT_BIT''
             (V ''PIPELINE_STAGE_2_EARLY_FRAGMENT_TESTS_BIT'' OR V ''PIPELINE_STAGE_2_LATE_FRAGMENT_TESTS_BIT'')
             (V ''ACCESS_2_DEPTH_STENCIL_ATTACHMENT_READ_BIT'') (V ''ACCESS_2_DEPTH_STENCIL_ATTACHMENT_WRITE_BIT'') ds_target g of
             None \<Rightarrow> None
           | Some g \<Rightarrow>
               if length color_targets > GRAPH_MAX_RENDER_TARGETS then None
               else map_option (add_command (Render_Pass name callback color_targets ds_target)) (use_color_targets V color_targets g)))"

text \<open>\<open>rebuildGraph\<close> ends with the transition of the output image.\<close>

definition present_output :: "(string \<Rightarrow> flags) \<Rightarrow> render_graph \<Rightarrow> render_graph option" where
  "present_output V g = resolveImageHazards V 0 0 0 0 (V ''IMAGE_LAYOUT_PRESENT_SRC_KHR'') False g"

text \<open>\<open>finalizeRebuild\<close>, before it allocates: siblings get the union of their usages, one after
  another, each reading what its sibling has by then.\<close>

fun share_image_usage :: "nat list \<Rightarrow> graph_image list \<Rightarrow> graph_image list" where
  "share_image_usage [] ims = ims"
| "share_image_usage (i # is') ims =
     share_image_usage is' (case image_sibling (ims ! i) of
        None \<Rightarrow> ims
      | Some s \<Rightarrow> ims[i := (ims ! i)\<lparr>image_usage := image_usage (ims ! i) OR image_usage (ims ! s)\<rparr>])"

fun share_view_usage :: "nat list \<Rightarrow> graph_view list \<Rightarrow> graph_view list" where
  "share_view_usage [] vs = vs"
| "share_view_usage (v # ws) vs =
     share_view_usage ws (case view_sibling (vs ! v) of
        None \<Rightarrow> vs
      | Some s \<Rightarrow> vs[v := (vs ! v)\<lparr>view_usage := view_usage (vs ! v) OR view_usage (vs ! s)\<rparr>])"

definition views_of :: "render_graph \<Rightarrow> nat \<Rightarrow> nat list" where
  "views_of g i = filter (\<lambda>v. view_image (views g ! v) = i) [0..<length (views g)]"

text \<open>Images come in the order of their declaration, each followed by its views; those without a
  sibling are skipped with their views.\<close>

definition finalize_usage :: "render_graph \<Rightarrow> render_graph" where
  "finalize_usage g = g\<lparr>images := share_image_usage [1..<length (images g)] (images g),
     views := share_view_usage (concat (map (views_of g) (filter (\<lambda>i. image_sibling (images g ! i) \<noteq> None) [1..<length (images g)]))) (views g)\<rparr>"

section \<open>Conflicting accesses\<close>

text \<open>A barrier on buffer \<open>b\<close> at position \<open>n\<close> or later; and no barrier may be added to a command
  before \<open>n\<close>.\<close>

definition barred :: "nat \<Rightarrow> nat \<Rightarrow> command list \<Rightarrow> bool" where
  "barred n b cmds \<longleftrightarrow> (\<exists>k bs is'. n \<le> k \<and> k < length cmds \<and> cmds ! k = Barrier bs is' \<and> b \<in> bar_buffer ` set bs)"

fun is_barrier :: "command \<Rightarrow> bool" where
  "is_barrier (Barrier bs is') = True"
| "is_barrier _ = False"

definition sealed :: "nat \<Rightarrow> command list \<Rightarrow> bool" where
  "sealed n cmds \<longleftrightarrow> n \<le> length cmds \<and> (n = length cmds \<longrightarrow> cmds = [] \<or> \<not> is_barrier (last cmds))"

lemma add_barriers_cases:
  "(\<exists>cmds' bs0 is0. cmds = cmds' @ [Barrier bs0 is0] \<and> add_barriers bs is' cmds = cmds' @ [Barrier (bs0 @ bs) (is0 @ is')]) \<or>
   (cmds = [] \<or> \<not> is_barrier (last cmds)) \<and> add_barriers bs is' cmds = cmds @ [Barrier bs is']"
proof (cases cmds rule: rev_cases)
  case (snoc cmds' c)
  then have "cmds \<noteq> []" by simp
  then obtain d ds where d: "cmds = d # ds" by (meson neq_Nil_conv)
  then have "add_barriers bs is' cmds = (case c of Barrier bs0 is0 \<Rightarrow> cmds' @ [Barrier (bs0 @ bs) (is0 @ is')] | _ \<Rightarrow> cmds @ [Barrier bs is'])"
    using snoc unfolding add_barriers_def by (metis butlast_snoc last_snoc list.case(2))
  then show ?thesis using snoc by (cases c) auto
qed (simp add: add_barriers_def)

lemma barred_append: "barred n b cmds \<Longrightarrow> barred n b (cmds @ cs)"
  unfolding barred_def by (metis length_append nth_append trans_less_add1)

lemma barred_add:
  assumes "barred n b cmds"
  shows "barred n b (add_barriers bs is' cmds)"
  using add_barriers_cases[of cmds bs is']
proof (elim disjE exE conjE)
  fix cmds' bs0 is0
  assume c: "cmds = cmds' @ [Barrier bs0 is0]" and a: "add_barriers bs is' cmds = cmds' @ [Barrier (bs0 @ bs) (is0 @ is')]"
  obtain k bs1 is1 where k: "n \<le> k" "k < length cmds" "cmds ! k = Barrier bs1 is1" "b \<in> bar_buffer ` set bs1"
    using assms by (auto simp: barred_def)
  show ?thesis
  proof (cases "k < length cmds'")
    case True
    then have "cmds' ! k = Barrier bs1 is1" using k(3) c by (simp add: nth_append)
    then show ?thesis using True k a unfolding barred_def
      by (intro exI[of _ k] exI[of _ bs1] exI[of _ is1]) (simp add: nth_append)
  next
    case False
    then have "k = length cmds'" using k(2) c by simp
    then show ?thesis using k a c unfolding barred_def
      by (intro exI[of _ k] exI[of _ "bs0 @ bs"] exI[of _ "is0 @ is'"]) (simp add: image_Un)
  qed
qed (use barred_append[OF assms, of "[Barrier bs is']"] in simp_all)

lemma sealed_add: "sealed n cmds \<Longrightarrow> sealed n (add_barriers bs is' cmds)"
  using add_barriers_cases[of cmds bs is'] by (auto simp: sealed_def)

lemma sealed_append: "sealed n cmds \<Longrightarrow> \<not> is_barrier c \<Longrightarrow> sealed n (cmds @ [c])"
  by (auto simp: sealed_def)

lemma barred_new:
  assumes "sealed n cmds" "b \<in> bar_buffer ` set bs"
  shows "barred n b (add_barriers bs is' cmds)"
  using add_barriers_cases[of cmds bs is']
proof (elim disjE exE conjE)
  fix cmds' bs0 is0
  assume c: "cmds = cmds' @ [Barrier bs0 is0]" and a: "add_barriers bs is' cmds = cmds' @ [Barrier (bs0 @ bs) (is0 @ is')]"
  then have "n \<le> length cmds'" using assms(1) by (auto simp: sealed_def)
  then show ?thesis using assms(2) a unfolding barred_def
    by (intro exI[of _ "length cmds'"] exI[of _ "bs0 @ bs"] exI[of _ "is0 @ is'"]) (auto simp: image_Un)
next
  assume a: "add_barriers bs is' cmds = cmds @ [Barrier bs is']"
  then show ?thesis using assms unfolding barred_def sealed_def
    by (intro exI[of _ "length cmds"] exI[of _ bs] exI[of _ is']) simp
qed (use assms in \<open>auto simp: barred_def sealed_def intro!: exI[of _ "length cmds"]\<close>)

text \<open>An access with reads \<open>rd\<close> and writes \<open>wr\<close> is remembered until a barrier comes.\<close>

definition remembers :: "nat \<Rightarrow> flags \<Rightarrow> flags \<Rightarrow> render_graph \<Rightarrow> bool" where
  "remembers b rd wr g \<longleftrightarrow> (rd \<noteq> 0 \<longrightarrow> buffer_read (buffers g ! b) \<noteq> 0) \<and> (wr \<noteq> 0 \<longrightarrow> buffer_write (buffers g ! b) \<noteq> 0)"

definition watched :: "nat \<Rightarrow> nat \<Rightarrow> flags \<Rightarrow> flags \<Rightarrow> render_graph \<Rightarrow> bool" where
  "watched n b rd wr g \<longleftrightarrow> b < length (buffers g) \<and> sealed n (commands g) \<and> (barred n b (commands g) \<or> remembers b rd wr g)"

lemma or_nonzero: "(x :: flags) \<noteq> 0 \<Longrightarrow> x OR y \<noteq> 0" "(x :: flags) \<noteq> 0 \<Longrightarrow> y OR x \<noteq> 0"
  by (simp_all add: or_eq_0_iff)

lemma resolve_buffer_watched:
  assumes "watched n b rd wr g"
  shows "watched n b rd wr (resolveBufferHazards b' st rd' wr' g)"
proof (cases "b' = b")
  case True
  show ?thesis
  proof (cases "buffer_write (buffers g ! b) = 0 \<and> (buffer_read (buffers g ! b) = 0 \<or> wr' = 0)")
    case c: True
    then show ?thesis using assms True by (auto simp: watched_def remembers_def resolveBufferHazards_def Let_def or_nonzero)
  next
    case False
    then show ?thesis using assms True
      by (auto simp: watched_def resolveBufferHazards_def Let_def sealed_add intro!: barred_new)
  qed
next
  case False
  then show ?thesis using assms
    by (auto simp: watched_def remembers_def resolveBufferHazards_def Let_def sealed_add barred_add)
qed

lemma resolve_buffer_conflict:
  assumes "watched n b rd wr g" "wr \<noteq> 0 \<or> rd \<noteq> 0 \<and> wr' \<noteq> 0"
  shows "barred n b (commands (resolveBufferHazards b st rd' wr' g))"
proof (cases "barred n b (commands g)")
  case True
  then show ?thesis by (auto simp: resolveBufferHazards_def Let_def barred_add)
next
  case False
  then have "remembers b rd wr g" "sealed n (commands g)" using assms(1) by (simp_all add: watched_def)
  then show ?thesis using assms(2) by (auto simp: remembers_def resolveBufferHazards_def Let_def intro!: barred_new)
qed

lemma resolve_image_shape:
  assumes "resolveImageHazards V v st rd wr lay discard g = Some g'"
  shows "buffers g' = buffers g \<and> views g' = views g \<and> (commands g' = commands g \<or> (\<exists>is'. commands g' = add_barriers [] is' (commands g)))"
  using assms unfolding resolveImageHazards_def Let_def by (auto split: if_splits prod.splits)

lemma watched_same:
  assumes "watched n b rd wr g" "buffers g' = buffers g" "commands g' = commands g \<or> (\<exists>is'. commands g' = add_barriers [] is' (commands g))"
  shows "watched n b rd wr g'"
  using assms by (auto simp: watched_def remembers_def sealed_add barred_add)

lemma resolve_usage_watched:
  assumes "watched n b rd wr g" "resolve_usage V x g = Some g'"
  shows "watched n b rd wr g'"
proof -
  obtain rd' wr' where s: "splitReadWriteFlags V (use_access x) = Some (rd', wr')"
    using assms(2) by (auto simp: resolve_usage_def split: if_splits option.splits)
  show ?thesis
  proof (cases "use_buffer x")
    case (Some b')
    then obtain u where "bufferAccessToUsage V (use_access x) = Some u"
      using assms(2) s by (auto simp: resolve_usage_def split: if_splits option.splits)
    then have g': "g' = resolveBufferHazards b' (use_stages x) rd' wr'
        (g\<lparr>buffers := (buffers g)[b' := (buffers g ! b')\<lparr>buffer_usage := buffer_usage (buffers g ! b') OR u\<rparr>]\<rparr>)"
      using assms(2) s Some by (auto simp: resolve_usage_def split: if_splits)
    have "watched n b rd wr (g\<lparr>buffers := (buffers g)[b' := (buffers g ! b')\<lparr>buffer_usage := buffer_usage (buffers g ! b') OR u\<rparr>]\<rparr>)"
      using assms(1) by (cases "b' = b") (auto simp: watched_def remembers_def)
    then show ?thesis unfolding g' by (rule resolve_buffer_watched)
  next
    case None
    then obtain u where "resolveImageHazards V (the (use_view x)) (use_stages x) rd' wr' (use_layout x) (use_discard x)
          (add_view_usage (the (use_view x)) u g) = Some g'"
      using assms(2) s by (auto simp: resolve_usage_def split: if_splits option.splits)
    from resolve_image_shape[OF this] have "buffers g' = buffers g"
        "commands g' = commands g \<or> (\<exists>is'. commands g' = add_barriers [] is' (commands g))"
      by (auto simp: add_view_usage_def Let_def)
    then show ?thesis by (rule watched_same[OF assms(1)])
  qed
qed

lemma resolve_usages_watched: "watched n b rd wr g \<Longrightarrow> resolveResourceUsage V us g = Some g' \<Longrightarrow> watched n b rd wr g'"
proof (induction us arbitrary: g)
  case (Cons x us)
  then obtain g1 where "resolve_usage V x g = Some g1" "resolveResourceUsage V us g1 = Some g'" by (auto split: option.splits)
  then show ?case using Cons.IH resolve_usage_watched[OF Cons.prems(1)] by blast
qed simp

lemma use_target_shape:
  assumes "use_target V u st rd wr t g = Some g'"
  shows "buffers g' = buffers g \<and> (commands g' = commands g \<or> (\<exists>is'. commands g' = add_barriers [] is' (commands g)))"
proof (cases "target_view t")
  case None
  then show ?thesis using assms by (simp add: use_target_def)
next
  case (Some v)
  then obtain rd' wr' lay d where "resolveImageHazards V v st rd' wr' lay d (add_view_usage v (V u) g) = Some g'"
    using assms by (auto simp: use_target_def split: if_splits)
  from resolve_image_shape[OF this] show ?thesis by (simp add: add_view_usage_def Let_def)
qed

lemma use_color_targets_watched: "watched n b rd wr g \<Longrightarrow> use_color_targets V ts g = Some g' \<Longrightarrow> watched n b rd wr g'"
proof (induction ts arbitrary: g)
  case (Cons t ts)
  then obtain g1 where g1: "use_color_targets V ts g1 = Some g'"
    "use_target V ''IMAGE_USAGE_COLOR_ATTACHMENT_BIT'' (V ''PIPELINE_STAGE_2_COLOR_ATTACHMENT_OUTPUT_BIT'')
        (V ''ACCESS_2_COLOR_ATTACHMENT_READ_BIT'') (V ''ACCESS_2_COLOR_ATTACHMENT_WRITE_BIT'') t g = Some g1" by (auto split: option.splits)
  from use_target_shape[OF g1(2)] watched_same[OF Cons.prems(1)] have "watched n b rd wr g1" by blast
  then show ?case using Cons.IH g1(1) by blast
qed simp

lemma add_command_watched: "watched n b rd wr g \<Longrightarrow> \<not> is_barrier c \<Longrightarrow> watched n b rd wr (add_command c g)"
  by (auto simp: watched_def remembers_def add_command_def sealed_append barred_append)

lemma compute_pass_split:
  assumes "makeComputePass V name cb us g = Some g'"
  shows "\<exists>g1. resolveResourceUsage V us g = Some g1 \<and> g' = add_command (Compute_Pass name cb) g1"
  using assms by (auto simp: makeComputePass_def)

lemma render_pass_split:
  assumes "makeRenderPass V name cb ts ds us g = Some g'"
  shows "\<exists>g1 g2 g3 st rd wr. resolveResourceUsage V us g = Some g1 \<and>
    use_target V ''IMAGE_USAGE_DEPTH_STENCIL_ATTACHMENT_BIT'' st rd wr ds g1 = Some g2 \<and>
    use_color_targets V ts g2 = Some g3 \<and> g' = add_command (Render_Pass name cb ts ds) g3"
  using assms by (auto simp: makeRenderPass_def split: option.splits if_splits)

text \<open>What declares a graph: resources, and passes that use views the graph has. The level range of a view does not
  pass 32 bits; one past the levels of its image is refused when the view is used. The other
  functions for views and render targets call \<open>makeImageView\<close>, or leave the graph as it is for a null image.\<close>

definition usages_exist :: "resource_usage list \<Rightarrow> render_graph \<Rightarrow> bool" where
  "usages_exist us g \<longleftrightarrow> list_all (\<lambda>x. case use_view x of None \<Rightarrow> True | Some v \<Rightarrow> v < length (views g)) us"

definition targets_exist :: "render_target list \<Rightarrow> render_graph \<Rightarrow> bool" where
  "targets_exist ts g \<longleftrightarrow> list_all (\<lambda>t. case target_view t of None \<Rightarrow> True | Some v \<Rightarrow> v < length (views g)) ts"

inductive builder_step :: "(string \<Rightarrow> flags) \<Rightarrow> render_graph \<Rightarrow> render_graph \<Rightarrow> bool" for V where
  step_compute: "usages_exist us g \<Longrightarrow> makeComputePass V name cb us g = Some g' \<Longrightarrow> builder_step V g g'"
| step_render: "usages_exist us g \<Longrightarrow> targets_exist (ds # ts) g \<Longrightarrow> makeRenderPass V name cb ts ds us g = Some g' \<Longrightarrow> builder_step V g g'"
| step_image: "make2DImage V name c g = (i, g') \<Longrightarrow> builder_step V g g'"
| step_double: "makeDoubleBuffered2DImage V name c g = (ij, g') \<Longrightarrow> builder_step V g g'"
| step_buffer: "makeBuffer name size' dynamic g = (i, g') \<Longrightarrow> builder_step V g g'"
| step_view: "i < length (images g) \<Longrightarrow> firstMip + (if mipCount = REMAINING_MIP_LEVELS then mip_levels (images g ! i) else mipCount) < 2 ^ 32 \<Longrightarrow>
    makeImageView V name (Some i) fmt firstMip mipCount g = (v, g') \<Longrightarrow> builder_step V g g'"

lemma builder_step_watched:
  assumes "builder_step V g g'" "watched n b rd wr g"
  shows "watched n b rd wr g'"
  using assms(1)
proof (cases rule: builder_step.cases)
  case (step_compute us name cb)
  then show ?thesis using compute_pass_split resolve_usages_watched[OF assms(2)] add_command_watched by fastforce
next
  case (step_render us ds ts name cb)
  from render_pass_split[OF this(3)] obtain g1 g2 g3 st rd' wr' where r: "resolveResourceUsage V us g = Some g1"
    "use_target V ''IMAGE_USAGE_DEPTH_STENCIL_ATTACHMENT_BIT'' st rd' wr' ds g1 = Some g2"
    "use_color_targets V ts g2 = Some g3" "g' = add_command (Render_Pass name cb ts ds) g3" by blast
  have "watched n b rd wr g1" by (rule resolve_usages_watched[OF assms(2) r(1)])
  then have "watched n b rd wr g2" using use_target_shape[OF r(2)] watched_same by blast
  then have "watched n b rd wr g3" by (rule use_color_targets_watched[OF _ r(3)])
  then show ?thesis unfolding r(4) by (rule add_command_watched) simp
next
  case (step_buffer name size' dynamic i)
  then show ?thesis using assms(2) by (auto simp: makeBuffer_def watched_def remembers_def nth_append)
qed (use assms(2) in \<open>auto simp: make2DImage_def makeDoubleBuffered2DImage_def makeImageView_def Let_def watched_def remembers_def\<close>)

lemma builder_steps_watched: "(builder_step V)\<^sup>*\<^sup>* g g' \<Longrightarrow> watched n b rd wr g \<Longrightarrow> watched n b rd wr g'"
proof (induction rule: rtranclp_induct)
  case (step g1 g2)
  then show ?case using builder_step_watched by blast
qed

definition reads_of :: "(string \<Rightarrow> flags) \<Rightarrow> resource_usage \<Rightarrow> flags" where
  "reads_of V x = use_access x AND KNOWN_READ_FLAGS V"

definition writes_of :: "(string \<Rightarrow> flags) \<Rightarrow> resource_usage \<Rightarrow> flags" where
  "writes_of V x = use_access x AND KNOWN_WRITE_FLAGS V"

lemma resolve_usage_buffer:
  assumes "resolve_usage V x g = Some g'" "use_buffer x = Some b"
  shows "\<exists>u. g' = resolveBufferHazards b (use_stages x) (reads_of V x) (writes_of V x)
    (g\<lparr>buffers := (buffers g)[b := (buffers g ! b)\<lparr>buffer_usage := u\<rparr>]\<rparr>)"
  using assms by (auto simp: resolve_usage_def splitReadWriteFlags_def reads_of_def writes_of_def split: if_splits option.splits)

lemma resolve_buffer_remembers:
  assumes "b < length (buffers g)"
  shows "remembers b rd wr (resolveBufferHazards b st rd wr g) \<and> length (buffers (resolveBufferHazards b st rd wr g)) = length (buffers g)"
  using assms by (auto simp: remembers_def resolveBufferHazards_def Let_def or_nonzero)

text \<open>Other usages of the same pass do not touch the buffer.\<close>

lemma resolve_usage_other:
  assumes "resolve_usage V x g = Some g'" "use_buffer x \<noteq> Some b" "remembers b rd wr g" "b < length (buffers g)"
  shows "remembers b rd wr g' \<and> b < length (buffers g')"
proof (cases "use_buffer x")
  case (Some b')
  from resolve_usage_buffer[OF assms(1) this] obtain u where
    "g' = resolveBufferHazards b' (use_stages x) (reads_of V x) (writes_of V x) (g\<lparr>buffers := (buffers g)[b' := (buffers g ! b')\<lparr>buffer_usage := u\<rparr>]\<rparr>)" ..
  then show ?thesis using assms(2-4) Some by (auto simp: remembers_def resolveBufferHazards_def Let_def)
next
  case None
  then obtain rd' wr' u where "resolveImageHazards V (the (use_view x)) (use_stages x) rd' wr' (use_layout x) (use_discard x)
        (add_view_usage (the (use_view x)) u g) = Some g'"
    using assms(1) by (auto simp: resolve_usage_def split: if_splits option.splits)
  from resolve_image_shape[OF this] show ?thesis using assms(3,4) by (simp add: add_view_usage_def Let_def remembers_def)
qed

lemma resolve_usages_other:
  "resolveResourceUsage V xs g = Some g' \<Longrightarrow> list_all (\<lambda>x. use_buffer x \<noteq> Some b) xs \<Longrightarrow> remembers b rd wr g \<Longrightarrow> b < length (buffers g) \<Longrightarrow>
   remembers b rd wr g' \<and> b < length (buffers g')"
proof (induction xs arbitrary: g)
  case (Cons x xs)
  then obtain g1 where "resolve_usage V x g = Some g1" "resolveResourceUsage V xs g1 = Some g'" by (auto split: option.splits)
  then show ?case using Cons resolve_usage_other[of V x g g1 b rd wr] by auto
qed simp

lemma resolve_usages_append:
  "resolveResourceUsage V (xs @ ys) g = (case resolveResourceUsage V xs g of None \<Rightarrow> None | Some g \<Rightarrow> resolveResourceUsage V ys g)"
  by (induction xs arbitrary: g) (auto split: option.splits)

lemma resolve_usages_length:
  "resolveResourceUsage V xs g = Some g' \<Longrightarrow> b < length (buffers g) \<Longrightarrow> b < length (buffers g')"
proof (induction xs arbitrary: g)
  case (Cons x xs)
  then obtain g1 where g1: "resolve_usage V x g = Some g1" "resolveResourceUsage V xs g1 = Some g'" by (auto split: option.splits)
  have "b < length (buffers g1)"
  proof (cases "use_buffer x = Some b")
    case True
    from resolve_usage_buffer[OF g1(1) True] show ?thesis using Cons.prems(2) by (auto simp: resolveBufferHazards_def Let_def)
  next
    case False
    then show ?thesis using resolve_usage_other[OF g1(1) False, of 0 0] Cons.prems(2) by (simp add: remembers_def)
  qed
  then show ?case using Cons.IH g1(2) by blast
qed simp

lemma resolve_usage_barred:
  assumes "resolve_usage V x g = Some g'" "barred n b (commands g)"
  shows "barred n b (commands g')"
proof (cases "use_buffer x")
  case (Some b')
  from resolve_usage_buffer[OF assms(1) this] obtain u where
    "g' = resolveBufferHazards b' (use_stages x) (reads_of V x) (writes_of V x) (g\<lparr>buffers := (buffers g)[b' := (buffers g ! b')\<lparr>buffer_usage := u\<rparr>]\<rparr>)" ..
  then show ?thesis using assms(2) by (auto simp: resolveBufferHazards_def Let_def barred_add)
next
  case None
  then obtain rd' wr' u where "resolveImageHazards V (the (use_view x)) (use_stages x) rd' wr' (use_layout x) (use_discard x)
        (add_view_usage (the (use_view x)) u g) = Some g'"
    using assms(1) by (auto simp: resolve_usage_def split: if_splits option.splits)
  from resolve_image_shape[OF this] show ?thesis using assms(2) by (auto simp: add_view_usage_def Let_def barred_add)
qed

lemma resolve_usages_barred:
  "resolveResourceUsage V xs g = Some g' \<Longrightarrow> barred n b (commands g) \<Longrightarrow> barred n b (commands g')"
proof (induction xs arbitrary: g)
  case (Cons x xs)
  then obtain g1 where "resolve_usage V x g = Some g1" "resolveResourceUsage V xs g1 = Some g'" by (auto split: option.splits)
  then show ?case using Cons.IH resolve_usage_barred Cons.prems(2) by blast
qed simp

lemma compute_pass_uses:
  assumes "makeComputePass V p cb (xs @ a # ys) g = Some g'" "use_buffer a = Some b" "b < length (buffers g)"
  shows "\<exists>h u k. resolveResourceUsage V xs g = Some h \<and> b < length (buffers h) \<and>
    resolveResourceUsage V ys (resolveBufferHazards b (use_stages a) (reads_of V a) (writes_of V a)
      (h\<lparr>buffers := (buffers h)[b := (buffers h ! b)\<lparr>buffer_usage := u\<rparr>]\<rparr>)) = Some k \<and> g' = add_command (Compute_Pass p cb) k"
proof -
  obtain h h' k where h: "resolveResourceUsage V xs g = Some h" "resolve_usage V a h = Some h'"
      "resolveResourceUsage V ys h' = Some k" "g' = add_command (Compute_Pass p cb) k"
    using compute_pass_split[OF assms(1)] by (auto simp: resolve_usages_append split: option.splits)
  show ?thesis using h resolve_usage_buffer[OF h(2) assms(2)] resolve_usages_length[OF h(1) assms(3)] by blast
qed

lemma compute_pass_watches:
  assumes "makeComputePass V p cb (xs @ a # ys) g = Some g'" "use_buffer a = Some b" "b < length (buffers g)"
    "list_all (\<lambda>x. use_buffer x \<noteq> Some b) ys"
  shows "watched (length (commands g')) b (reads_of V a) (writes_of V a) g'"
proof -
  obtain h u k where h: "b < length (buffers h)"
    "resolveResourceUsage V ys (resolveBufferHazards b (use_stages a) (reads_of V a) (writes_of V a)
      (h\<lparr>buffers := (buffers h)[b := (buffers h ! b)\<lparr>buffer_usage := u\<rparr>]\<rparr>)) = Some k" "g' = add_command (Compute_Pass p cb) k"
    using compute_pass_uses[OF assms(1-3)] by blast
  let ?h = "h\<lparr>buffers := (buffers h)[b := (buffers h ! b)\<lparr>buffer_usage := u\<rparr>]\<rparr>"
  have "b < length (buffers ?h)" using h(1) by simp
  from resolve_buffer_remembers[OF this] this
  have "remembers b (reads_of V a) (writes_of V a) k \<and> b < length (buffers k)"
    using resolve_usages_other[OF h(2) assms(4)] by metis
  then show ?thesis unfolding h(3) by (simp add: watched_def sealed_def add_command_def remembers_def)
qed


definition sample_constants :: "string \<Rightarrow> flags" where
  "sample_constants n = (if n = ''ACCESS_2_SHADER_STORAGE_READ_BIT'' then 2 else if n = ''ACCESS_2_SHADER_STORAGE_WRITE_BIT'' then 4
     else if n = ''IMAGE_LAYOUT_PRESENT_SRC_KHR'' then 9 else if n = ''BUFFER_USAGE_STORAGE_BUFFER_BIT'' then 32 else 0)"

definition sample_write :: resource_usage where
  "sample_write = makeBufferUsage sample_constants (Some 0) 8 4 False"

definition sample_read :: resource_usage where
  "sample_read = makeBufferUsage sample_constants (Some 0) 8 2 False"


section \<open>Image layouts\<close>

text \<open>What executing image barriers does to the layouts of the images' levels, where \<open>None\<close> is a
  transition from a layout that the level does not have.\<close>

type_synonym layouts = "nat \<Rightarrow> nat \<Rightarrow> flags"

definition expects :: "(string \<Rightarrow> flags) \<Rightarrow> image_barrier \<Rightarrow> layouts \<Rightarrow> bool" where
  "expects V b L \<longleftrightarrow> old_layout b = V ''IMAGE_LAYOUT_UNDEFINED'' \<or>
     list_all (\<lambda>m. L (bar_image b) m = old_layout b) [sub_base b..<sub_base b + sub_count b]"

definition transition :: "image_barrier \<Rightarrow> layouts \<Rightarrow> layouts" where
  "transition b L = (\<lambda>i m. if i = bar_image b \<and> sub_base b \<le> m \<and> m < sub_base b + sub_count b then new_layout b else L i m)"

fun run_transitions :: "(string \<Rightarrow> flags) \<Rightarrow> image_barrier list \<Rightarrow> layouts \<Rightarrow> layouts option" where
  "run_transitions V [] L = Some L"
| "run_transitions V (b # bs) L = (if expects V b L then run_transitions V bs (transition b L) else None)"

fun image_barriers :: "command \<Rightarrow> image_barrier list" where
  "image_barriers (Barrier bs is') = is'"
| "image_barriers _ = []"

definition run_commands :: "(string \<Rightarrow> flags) \<Rightarrow> command list \<Rightarrow> layouts option" where
  "run_commands V cmds = run_transitions V (concat (map image_barriers cmds)) (\<lambda>_ _. V ''IMAGE_LAYOUT_UNDEFINED'')"

lemma run_transitions_append:
  "run_transitions V (xs @ ys) L = (case run_transitions V xs L of None \<Rightarrow> None | Some L \<Rightarrow> run_transitions V ys L)"
  by (induction xs arbitrary: L) auto

lemma run_add_barriers:
  "run_commands V (add_barriers bs is' cmds) = (case run_commands V cmds of None \<Rightarrow> None | Some L \<Rightarrow> run_transitions V is' L)"
  using add_barriers_cases[of cmds bs is'] by (auto simp: run_commands_def run_transitions_append split: option.split)

lemma run_add_command: "\<not> is_barrier c \<Longrightarrow> run_commands V (cmds @ [c]) = run_commands V cmds"
  by (cases c) (simp_all add: run_commands_def)

text \<open>One barrier for each level of a range.\<close>

lemma run_each_mip:
  assumes "b \<le> e" "\<And>m. b \<le> m \<Longrightarrow> m < e \<Longrightarrow> bar_image (B m) = i \<and> sub_base (B m) = m \<and> sub_count (B m) = 1 \<and>
    old_layout (B m) = L i m \<and> new_layout (B m) = lay"
  shows "run_transitions V (map B [b..<e]) L = Some (\<lambda>j m. if j = i \<and> b \<le> m \<and> m < e then lay else L j m)"
  using assms
proof (induction e rule: dec_induct)
  case (step e)
  have "run_transitions V (map B [b..<e]) L = Some (\<lambda>j m. if j = i \<and> b \<le> m \<and> m < e then lay else L j m)"
    using step.IH step.prems by simp
  moreover have "bar_image (B e) = i" "sub_base (B e) = e" "sub_count (B e) = 1" "old_layout (B e) = L i e" "new_layout (B e) = lay"
    using step.prems[of e] step.hyps by simp_all
  ultimately show ?case using step.hyps
    by (auto simp: run_transitions_append expects_def transition_def fun_eq_iff)
qed (auto simp: fun_eq_iff)

lemma scan_layout:
  "foldl (\<lambda>(lay, different, st, rd, wr) m. (lay, different \<or> layout m \<noteq> lay, st OR stages m, rd OR read_access m, wr OR write_access m))
     (lay0, d0, s0, r0, w0) ms = (old, d, st, rd, wr) \<Longrightarrow> old = lay0 \<and> (d \<longleftrightarrow> d0 \<or> (\<exists>m \<in> set ms. layout m \<noteq> lay0))"
proof (induction ms arbitrary: d0 s0 r0 w0)
  case (Cons a ms)
  have "old = lay0 \<and> d = ((d0 \<or> layout a \<noteq> lay0) \<or> (\<exists>m \<in> set ms. layout m \<noteq> lay0))"
    by (rule Cons.IH[of "d0 \<or> layout a \<noteq> lay0" "s0 OR stages a" "r0 OR read_access a" "w0 OR write_access a"]) (use Cons.prems in simp)
  then show ?case by auto
qed simp

lemma scan_mips_layout:
  assumes "scan_mips V ms = (old, d, st, rd, wr)" "\<not> d" "m \<in> set ms"
  shows "layout m = old"
  using scan_layout[OF assms(1)[unfolded scan_mips_def]] assms(2,3) by auto

lemma update_range_nth:
  "m < length xs \<Longrightarrow> update_range b e f xs ! m = (if b \<le> m \<and> m < e then f (xs ! m) else xs ! m)"
  "length (update_range b e f xs) = length xs"
  by (simp_all add: update_range_def nth_enumerate_eq)

text \<open>The graph is well formed, and its record of the layouts agrees with its commands.\<close>

definition graph_wf :: "render_graph \<Rightarrow> bool" where
  "graph_wf g \<longleftrightarrow>
     (\<forall>im \<in> set (images g). length (mip_states im) = mip_levels im \<and> (\<forall>s. image_sibling im = Some s \<longrightarrow> s < length (images g))) \<and>
     (\<forall>w \<in> set (views g). view_image w < length (images g) \<and> base_mip w + level_count w < 2 ^ 32)"

definition tracks :: "(string \<Rightarrow> flags) \<Rightarrow> layouts \<Rightarrow> graph_image list \<Rightarrow> bool" where
  "tracks V L ims \<longleftrightarrow> (\<forall>i m. i < length ims \<longrightarrow> m < length (mip_states (ims ! i)) \<longrightarrow> L i m = layout (mip_states (ims ! i) ! m)) \<and>
     (\<forall>i m. length ims \<le> i \<longrightarrow> L i m = V ''IMAGE_LAYOUT_UNDEFINED'')"

definition laid_out :: "(string \<Rightarrow> flags) \<Rightarrow> render_graph \<Rightarrow> bool" where
  "laid_out V g \<longleftrightarrow> graph_wf g \<and> (\<exists>L. run_commands V (commands g) = Some L \<and> tracks V L (images g))"

lemma tracks_same:
  assumes "tracks V L ims" "length ims' = length ims" "\<And>i. i < length ims \<Longrightarrow> map layout (mip_states (ims' ! i)) = map layout (mip_states (ims ! i))"
  shows "tracks V L ims'"
proof -
  have "L i m = layout (mip_states (ims' ! i) ! m)" if "i < length ims" "m < length (mip_states (ims' ! i))" for i m
  proof -
    have "length (mip_states (ims' ! i)) = length (mip_states (ims ! i))" using assms(3)[OF that(1)] by (metis length_map)
    then show ?thesis using assms(1) that assms(3)[OF that(1)] unfolding tracks_def by (metis nth_map)
  qed
  then show ?thesis using assms(1,2) by (simp add: tracks_def)
qed

definition one_transition :: "(string \<Rightarrow> flags) \<Rightarrow> nat \<Rightarrow> nat \<Rightarrow> nat \<Rightarrow> flags \<Rightarrow> mip_state list \<Rightarrow> image_barrier \<Rightarrow> bool" where
  "one_transition V i b e lay ms x \<longleftrightarrow> bar_image x = i \<and> sub_base x = b \<and> sub_base x + sub_count x = e \<and> new_layout x = lay \<and>
     (old_layout x = V ''IMAGE_LAYOUT_UNDEFINED'' \<or> (\<forall>m \<in> set (take (e - b) (drop b ms)). layout m = old_layout x))"

definition each_transition :: "nat \<Rightarrow> flags \<Rightarrow> mip_state list \<Rightarrow> (nat \<Rightarrow> image_barrier) \<Rightarrow> bool" where
  "each_transition i lay ms B \<longleftrightarrow> (\<forall>m. bar_image (B m) = i \<and> sub_base (B m) = m \<and> sub_count (B m) = 1 \<and>
     old_layout (B m) = layout (ms ! m) \<and> new_layout (B m) = lay)"

lemma image_step:
  assumes "resolveImageHazards V v st rd wr lay discard g = Some g'" "graph_wf g" "v < length (views g)"
  defines "i \<equiv> view_image (views g ! v)" and "b \<equiv> base_mip (views g ! v)"
  defines "e \<equiv> b + level_count (views g ! v)"
  defines "ms \<equiv> mip_states (images g ! i)"
  shows "i < length (images g) \<and> e \<le> length ms \<and>
    (\<exists>f. images g' = (images g)[i := (images g ! i)\<lparr>mip_states := update_range b e f ms\<rparr>] \<and> views g' = views g \<and>
      (commands g' = commands g \<and> (\<forall>m. layout (f m) = layout m) \<or>
       (\<forall>m. layout (f m) = lay) \<and> (\<exists>is'. commands g' = add_barriers [] is' (commands g) \<and>
         ((\<exists>x. is' = [x] \<and> one_transition V i b e lay ms x) \<or> (\<exists>B. is' = map B [b..<e] \<and> each_transition i lay ms B)))))"
proof -
  have v: "views g ! v \<in> set (views g)" using assms(3) by simp
  then have "i < length (images g)" "e < 2 ^ 32" using assms(2) by (simp_all add: graph_wf_def i_def e_def b_def)
  moreover have "length ms = mip_levels (images g ! i)" using assms(2) calculation(1) by (simp add: graph_wf_def ms_def)
  ultimately have i: "i < length (images g)" "e \<le> length ms" "e mod 4294967296 = e" "\<not> mip_levels (images g ! i) < e"
    using assms(1) by (auto simp: resolveImageHazards_def Let_def i_def[symmetric] b_def[symmetric] e_def[symmetric] split: if_splits)
  obtain old d ost ord owr where scan: "scan_mips V (take (e - b) (drop b ms)) = (old, d, ost, ord, owr)"
    by (metis prod_cases5)
  note old = scan_mips_layout[OF scan]
  have e: "e mod 2 ^ 32 = e" using i(3) by simp
  note r = assms(1)[unfolded resolveImageHazards_def Let_def, folded i_def b_def, folded e_def ms_def, unfolded e scan prod.case if_not_P[OF i(4)]]
  let ?old = "if discard then V ''IMAGE_LAYOUT_UNDEFINED'' else old"
  consider (same) "\<not> (d \<and> \<not> discard) \<and> owr = 0 \<and> (ord = 0 \<or> wr = 0) \<and> ?old = lay"
    | (one) "\<not> (d \<and> \<not> discard)" "\<not> (owr = 0 \<and> (ord = 0 \<or> wr = 0) \<and> ?old = lay)" | (each) "d \<and> \<not> discard" by blast
  then show ?thesis
  proof cases
    case same
    then have g': "g' = g\<lparr>images := (images g)[i := (images g ! i)\<lparr>mip_states := update_range b e (\<lambda>m. m\<lparr>stages := stages m OR st,
        read_access := read_access m OR rd, write_access := write_access m OR wr\<rparr>) ms\<rparr>]\<rparr>"
      using r by (auto split: if_splits)
    show ?thesis unfolding g' using i by auto
  next
    case one
    then have g': "images g' = (images g)[i := (images g ! i)\<lparr>mip_states := update_range b e (\<lambda>m. \<lparr>layout = lay, stages = st, read_access = rd, write_access = wr\<rparr>) ms\<rparr>]"
        "views g' = views g" "commands g' = add_barriers [] [\<lparr>bar_image = i, img_src_stages = ost, img_src_access = ord OR owr,
           img_dst_stages = st, img_dst_access = rd OR wr, old_layout = ?old, new_layout = lay,
           sub_base = b, sub_count = level_count (views g ! v)\<rparr>] (commands g)"
      using r by (auto split: if_splits)
    have "one_transition V i b e lay ms \<lparr>bar_image = i, img_src_stages = ost, img_src_access = ord OR owr,
           img_dst_stages = st, img_dst_access = rd OR wr, old_layout = ?old, new_layout = lay,
           sub_base = b, sub_count = level_count (views g ! v)\<rparr>"
      using one(1) old by (auto simp: one_transition_def e_def)
    then show ?thesis using i g' by (intro conjI exI[of _ "\<lambda>m. \<lparr>layout = lay, stages = st, read_access = rd, write_access = wr\<rparr>"]) auto
  next
    case each
    let ?B = "\<lambda>mip. let m = ms ! mip
                       in \<lparr>bar_image = i, img_src_stages = stages m, img_src_access = read_access m OR write_access m,
                         img_dst_stages = st, img_dst_access = rd OR wr, old_layout = layout m, new_layout = lay,
                         sub_base = mip, sub_count = 1\<rparr>"
    from each have g': "images g' = (images g)[i := (images g ! i)\<lparr>mip_states := update_range b e (\<lambda>m. \<lparr>layout = lay, stages = st, read_access = rd, write_access = wr\<rparr>) ms\<rparr>]"
        "views g' = views g" "commands g' = add_barriers [] (map ?B [b..<e]) (commands g)"
      using r by (auto split: if_splits simp: Let_def)
    have "each_transition i lay ms ?B" by (simp add: each_transition_def Let_def)
    then show ?thesis using i g' by (intro conjI exI[of _ "\<lambda>m. \<lparr>layout = lay, stages = st, read_access = rd, write_access = wr\<rparr>"]) auto
  qed
qed

lemma graph_wf_nth:
  "graph_wf g \<longleftrightarrow>
     (\<forall>i < length (images g). length (mip_states (images g ! i)) = mip_levels (images g ! i) \<and>
        (\<forall>s. image_sibling (images g ! i) = Some s \<longrightarrow> s < length (images g))) \<and>
     (\<forall>v < length (views g). view_image (views g ! v) < length (images g) \<and> base_mip (views g ! v) + level_count (views g ! v) < 2 ^ 32)"
  by (simp add: graph_wf_def all_set_conv_all_nth)

abbreviation laid :: "nat \<Rightarrow> nat \<Rightarrow> nat \<Rightarrow> flags \<Rightarrow> layouts \<Rightarrow> layouts" where
  "laid i b e lay L \<equiv> (\<lambda>j m. if j = i \<and> b \<le> m \<and> m < e then lay else L j m)"

lemma tracks_laid:
  assumes "tracks V L ims" "i < length ims" "\<And>m. layout (f m) = lay"
  shows "tracks V (laid i b e lay L) (ims[i := (ims ! i)\<lparr>mip_states := update_range b e f (mip_states (ims ! i))\<rparr>])"
  using assms by (auto simp: tracks_def nth_list_update update_range_nth)

lemma tracks_kept:
  assumes "tracks V L ims" "i < length ims" "\<And>m. layout (f m) = layout m"
  shows "tracks V L (ims[i := (ims ! i)\<lparr>mip_states := update_range b e f (mip_states (ims ! i))\<rparr>])"
  using assms by (auto simp: tracks_def nth_list_update update_range_nth)

lemma run_one_transition:
  assumes "one_transition V i b e lay (mip_states (ims ! i)) x" "tracks V L ims" "i < length ims" "e \<le> length (mip_states (ims ! i))"
  shows "run_transitions V [x] L = Some (laid i b e lay L)"
proof -
  have x: "bar_image x = i" "sub_base x = b" "b + sub_count x = e" "new_layout x = lay" using assms(1) by (auto simp: one_transition_def)
  have "L i m = old_layout x" if o: "old_layout x \<noteq> V ''IMAGE_LAYOUT_UNDEFINED''" and m: "b \<le> m" "m < e" for m
  proof -
    let ?ms = "mip_states (ims ! i)"
    have "take (e - b) (drop b ?ms) ! (m - b) = ?ms ! m" "m - b < length (take (e - b) (drop b ?ms))" using m assms(4) by simp_all
    then have "?ms ! m \<in> set (take (e - b) (drop b ?ms))" by (metis nth_mem)
    then have "layout (?ms ! m) = old_layout x" using assms(1) o by (auto simp: one_transition_def)
    moreover have "L i m = layout (?ms ! m)" using assms(2-4) m by (simp add: tracks_def)
    ultimately show ?thesis by simp
  qed
  then have "expects V x L" using x by (auto simp: expects_def list_all_iff)
  moreover have "transition x L = laid i b e lay L" using x by (auto simp: transition_def fun_eq_iff)
  ultimately show ?thesis by simp
qed

lemma run_each_transition:
  assumes "each_transition i lay (mip_states (ims ! i)) B" "tracks V L ims" "i < length ims" "e \<le> length (mip_states (ims ! i))" "b \<le> e"
  shows "run_transitions V (map B [b..<e]) L = Some (laid i b e lay L)"
  using assms by (intro run_each_mip) (simp_all add: each_transition_def tracks_def)

lemma view_target:
  "laid_out V g \<Longrightarrow> v < length (views g) \<Longrightarrow> view_image (views g ! v) < length (images g)"
  by (simp add: laid_out_def graph_wf_def)

lemma image_hazards_laid_out:
  assumes "laid_out V g" "resolveImageHazards V v st rd wr lay discard g = Some g'" "v < length (views g)"
  shows "laid_out V g' \<and> views g' = views g"
proof -
  obtain L where wf: "graph_wf g" and L: "run_commands V (commands g) = Some L" "tracks V L (images g)"
    using assms(1) by (auto simp: laid_out_def)
  define i b e where d: "i = view_image (views g ! v)" "b = base_mip (views g ! v)" "e = b + level_count (views g ! v)"
  define ms where "ms = mip_states (images g ! i)"
  note step = image_step[OF assms(2) wf assms(3), folded d(1,2), folded d(3) ms_def]
  then obtain f where f: "images g' = (images g)[i := (images g ! i)\<lparr>mip_states := update_range b e f ms\<rparr>]" "views g' = views g"
    "commands g' = commands g \<and> (\<forall>m. layout (f m) = layout m) \<or>
       (\<forall>m. layout (f m) = lay) \<and> (\<exists>is'. commands g' = add_barriers [] is' (commands g) \<and>
         ((\<exists>x. is' = [x] \<and> one_transition V i b e lay ms x) \<or> (\<exists>B. is' = map B [b..<e] \<and> each_transition i lay ms B)))"
    and i: "i < length (images g)" "e \<le> length ms" by blast
  have wf': "graph_wf g'" using wf i(1) unfolding graph_wf_nth f(1,2)
    by (auto simp: nth_list_update update_range_nth ms_def)
  from f(3) have "\<exists>L'. run_commands V (commands g') = Some L' \<and> tracks V L' (images g')"
  proof (elim disjE conjE exE)
    assume c: "commands g' = commands g" "\<forall>m. layout (f m) = layout m"
    then show ?thesis using L tracks_kept[OF L(2) i(1)] by (auto simp: f(1) ms_def)
  next
    fix is' x assume c: "\<forall>m. layout (f m) = lay" "commands g' = add_barriers [] is' (commands g)" "is' = [x]" "one_transition V i b e lay ms x"
    then have "run_commands V (commands g') = Some (laid i b e lay L)"
      using run_one_transition[OF _ L(2) i(1)] i(2) by (simp add: run_add_barriers L(1) ms_def del: run_transitions.simps)
    then show ?thesis using tracks_laid[OF L(2) i(1)] c(1) by (auto simp: f(1) ms_def)
  next
    fix is' B assume c: "\<forall>m. layout (f m) = lay" "commands g' = add_barriers [] is' (commands g)" "is' = map B [b..<e]" "each_transition i lay ms B"
    then have "run_commands V (commands g') = Some (laid i b e lay L)"
      using run_each_transition[OF _ L(2) i(1)] i(2) d(3) by (simp add: run_add_barriers L(1) ms_def)
    then show ?thesis using tracks_laid[OF L(2) i(1)] c(1) by (auto simp: f(1) ms_def)
  qed
  then show ?thesis using wf' f(2) by (simp add: laid_out_def)
qed

lemma view_usage_laid_out:
  assumes "laid_out V g" "v < length (views g)"
  shows "laid_out V (add_view_usage v u g) \<and> length (views (add_view_usage v u g)) = length (views g)"
proof -
  obtain L where wf: "graph_wf g" and L: "run_commands V (commands g) = Some L" "tracks V L (images g)"
    using assms(1) by (auto simp: laid_out_def)
  have vi: "view_image (views g ! v) < length (images g)" using wf assms(2) by (simp add: graph_wf_def)
  then have "graph_wf (add_view_usage v u g)" using wf assms(2) unfolding graph_wf_nth add_view_usage_def
    by (auto simp: Let_def nth_list_update)
  moreover have "tracks V L (images (add_view_usage v u g))"
    using vi by (intro tracks_same[OF L(2)]) (auto simp: add_view_usage_def Let_def nth_list_update)
  ultimately show ?thesis using L(1) by (simp add: laid_out_def add_view_usage_def Let_def)
qed

lemma buffer_hazards_laid_out:
  assumes "laid_out V g"
  shows "laid_out V (resolveBufferHazards b st rd wr (g\<lparr>buffers := bs\<rparr>)) \<and> views (resolveBufferHazards b st rd wr (g\<lparr>buffers := bs\<rparr>)) = views g"
  using assms by (auto simp: laid_out_def graph_wf_def resolveBufferHazards_def Let_def run_add_barriers)

lemma exist_same:
  assumes "length (views g') = length (views g)"
  shows "usages_exist us g' = usages_exist us g" "targets_exist ts g' = targets_exist ts g"
  unfolding usages_exist_def targets_exist_def assms by (rule refl)+

lemma exist_Cons:
  "usages_exist (x # us) g \<longleftrightarrow> usages_exist [x] g \<and> usages_exist us g"
  "targets_exist (t # ts) g \<longleftrightarrow> targets_exist [t] g \<and> targets_exist ts g"
  by (simp_all add: usages_exist_def targets_exist_def)

lemma usage_laid_out:
  assumes "laid_out V g" "resolve_usage V x g = Some g'" "usages_exist [x] g"
  shows "laid_out V g' \<and> length (views g') = length (views g)"
proof (cases "use_buffer x")
  case (Some b)
  from resolve_usage_buffer[OF assms(2) this] show ?thesis using buffer_hazards_laid_out[OF assms(1)] by auto
next
  case None
  then obtain v rd wr u where v: "use_view x = Some v" and
    r: "resolveImageHazards V v (use_stages x) rd wr (use_layout x) (use_discard x) (add_view_usage v u g) = Some g'"
    using assms(2) by (auto simp: resolve_usage_def split: if_splits option.splits)
  have "v < length (views g)" using assms(3) v by (simp add: usages_exist_def)
  from view_usage_laid_out[OF assms(1) this] image_hazards_laid_out[OF _ r] this show ?thesis by simp
qed

lemma usages_laid_out:
  "resolveResourceUsage V us g = Some g' \<Longrightarrow> laid_out V g \<Longrightarrow> usages_exist us g \<Longrightarrow> laid_out V g' \<and> length (views g') = length (views g)"
proof (induction us arbitrary: g)
  case (Cons x us)
  then obtain g1 where g1: "resolve_usage V x g = Some g1" "resolveResourceUsage V us g1 = Some g'" by (auto split: option.splits)
  have e: "usages_exist [x] g" "usages_exist us g" using Cons.prems(3) exist_Cons(1) by blast+
  have k: "laid_out V g1 \<and> length (views g1) = length (views g)" by (rule usage_laid_out[OF Cons.prems(2) g1(1) e(1)])
  then have "usages_exist us g1" using e(2) exist_same(1) by blast
  then show ?case using Cons.IH[OF g1(2)] k by simp
qed simp

lemma target_laid_out:
  assumes "laid_out V g" "use_target V u st rd wr t g = Some g'" "targets_exist [t] g"
  shows "laid_out V g' \<and> length (views g') = length (views g)"
proof (cases "target_view t")
  case (Some v)
  then have v: "v < length (views g)" using assms(3) by (simp add: targets_exist_def)
  obtain wr' lay d where r: "resolveImageHazards V v st rd wr' lay d (add_view_usage v (V u) g) = Some g'"
    using assms(2) Some by (auto simp: use_target_def split: if_splits)
  from view_usage_laid_out[OF assms(1) v] image_hazards_laid_out[OF _ r] v show ?thesis by simp
qed (use assms in \<open>simp add: use_target_def\<close>)

lemma color_targets_laid_out:
  "use_color_targets V ts g = Some g' \<Longrightarrow> laid_out V g \<Longrightarrow> targets_exist ts g \<Longrightarrow> laid_out V g' \<and> length (views g') = length (views g)"
proof (induction ts arbitrary: g)
  case (Cons t ts)
  then obtain g1 where g1: "use_color_targets V ts g1 = Some g'"
    "use_target V ''IMAGE_USAGE_COLOR_ATTACHMENT_BIT'' (V ''PIPELINE_STAGE_2_COLOR_ATTACHMENT_OUTPUT_BIT'')
        (V ''ACCESS_2_COLOR_ATTACHMENT_READ_BIT'') (V ''ACCESS_2_COLOR_ATTACHMENT_WRITE_BIT'') t g = Some g1" by (auto split: option.splits)
  have e: "targets_exist [t] g" "targets_exist ts g" using Cons.prems(3) exist_Cons(2) by blast+
  have k: "laid_out V g1 \<and> length (views g1) = length (views g)" by (rule target_laid_out[OF Cons.prems(2) g1(2) e(1)])
  then have "targets_exist ts g1" using e(2) exist_same(2) by blast
  then show ?case using Cons.IH[OF g1(1)] k by simp
qed simp

lemma laid_out_command: "laid_out V g \<Longrightarrow> \<not> is_barrier c \<Longrightarrow> laid_out V (add_command c g)"
  by (simp add: laid_out_def add_command_def graph_wf_def run_add_command)

lemma laid_out_images:
  assumes "laid_out V g" "list_all (\<lambda>im. length (mip_states im) = mip_levels im \<and> (\<forall>m \<in> set (mip_states im). layout m = V ''IMAGE_LAYOUT_UNDEFINED'') \<and>
    (\<forall>s. image_sibling im = Some s \<longrightarrow> s < length (images g) + length ims)) ims"
  shows "laid_out V (g\<lparr>images := images g @ ims\<rparr>)"
proof -
  obtain L where wf: "graph_wf g" and L: "run_commands V (commands g) = Some L" "tracks V L (images g)"
    using assms(1) by (auto simp: laid_out_def)
  have "graph_wf (g\<lparr>images := images g @ ims\<rparr>)" using wf assms(2) unfolding graph_wf_def
    by (simp add: list_all_iff ball_Un) (meson trans_less_add1)
  moreover have "L i m = layout (mip_states ((images g @ ims) ! i) ! m)"
    if "i < length (images g @ ims)" "m < length (mip_states ((images g @ ims) ! i))" for i m
  proof (cases "i < length (images g)")
    case True
    then show ?thesis using L(2) that(2) by (simp add: tracks_def nth_append)
  next
    case False
    then have "(images g @ ims) ! i = ims ! (i - length (images g))" "i - length (images g) < length ims"
      using that(1) by (simp_all add: nth_append less_diff_conv2)
    then have "layout (mip_states ((images g @ ims) ! i) ! m) = V ''IMAGE_LAYOUT_UNDEFINED''"
      using assms(2) that(2) by (simp add: list_all_length)
    then show ?thesis using L(2) False by (simp add: tracks_def)
  qed
  then have "tracks V L (images g @ ims)" using L(2) by (simp add: tracks_def)
  ultimately show ?thesis using L(1) by (auto simp: laid_out_def)
qed

lemma laid_out_views:
  assumes "laid_out V g" "list_all (\<lambda>w. view_image w < length (images g) \<and> base_mip w + level_count w < 2 ^ 32) vs"
  shows "laid_out V (g\<lparr>views := views g @ vs\<rparr>)"
  using assms by (auto simp: laid_out_def graph_wf_def list_all_iff)

lemma builder_step_laid_out:
  assumes "builder_step V g g'" "laid_out V g"
  shows "laid_out V g'"
  using assms(1)
proof (cases rule: builder_step.cases)
  case (step_compute us name cb)
  then show ?thesis using compute_pass_split[OF step_compute(2)] usages_laid_out assms(2) laid_out_command by fastforce
next
  case (step_render us ds ts name cb)
  from render_pass_split[OF this(3)] obtain g1 g2 g3 st rd wr where r: "resolveResourceUsage V us g = Some g1"
    "use_target V ''IMAGE_USAGE_DEPTH_STENCIL_ATTACHMENT_BIT'' st rd wr ds g1 = Some g2"
    "use_color_targets V ts g2 = Some g3" "g' = add_command (Render_Pass name cb ts ds) g3" by blast
  have 1: "laid_out V g1 \<and> length (views g1) = length (views g)" by (rule usages_laid_out[OF r(1) assms(2) step_render(1)])
  moreover have "targets_exist [ds] g1" using step_render(2) 1 exist_Cons(2) exist_same(2) by blast
  ultimately have 2: "laid_out V g2 \<and> length (views g2) = length (views g)" using target_laid_out[OF _ r(2)] by simp
  moreover have "targets_exist ts g2" using step_render(2) 2 exist_Cons(2) exist_same(2) by blast
  ultimately have "laid_out V g3" using color_targets_laid_out[OF r(3)] by simp
  then show ?thesis unfolding r(4) by (rule laid_out_command) simp
next
  case (step_image name c i)
  then show ?thesis using laid_out_images[OF assms(2)] by (auto simp: make2DImage_def new_image_def new_mip_def)
next
  case (step_double name c ij)
  then show ?thesis using laid_out_images[OF assms(2)] by (auto simp: makeDoubleBuffered2DImage_def Let_def new_image_def new_mip_def)
next
  case (step_buffer name size' dynamic i)
  then show ?thesis using assms(2) by (auto simp: makeBuffer_def laid_out_def graph_wf_def)
next
  case (step_view i firstMip mipCount name fmt v)
  have "\<And>s. image_sibling (images g ! i) = Some s \<Longrightarrow> s < length (images g)" using assms(2) step_view(1) by (auto simp: laid_out_def graph_wf_def)
  then show ?thesis using step_view laid_out_views[OF assms(2)]
    by (auto simp: makeImageView_def Let_def split: option.splits)
qed

lemma builder_steps_laid_out: "(builder_step V)\<^sup>*\<^sup>* g g' \<Longrightarrow> laid_out V g \<Longrightarrow> laid_out V g'"
proof (induction rule: rtranclp_induct)
  case (step g1 g2)
  then show ?case using builder_step_laid_out by blast
qed

lemma new_graph_laid_out: "laid_out V (new_graph V fmt extent)"
  by (simp add: laid_out_def graph_wf_def new_graph_def new_image_def new_mip_def run_commands_def tracks_def)

text \<open>Passes keep the shape of views and images, and declarations add to it.\<close>

definition outline :: "render_graph \<Rightarrow> (nat \<times> nat \<times> nat) list \<times> nat list" where
  "outline g = (map (\<lambda>w. (view_image w, base_mip w, level_count w)) (views g), map mip_levels (images g))"

lemma map_update_same: "f x = f (xs ! i) \<Longrightarrow> map f (xs[i := x]) = map f xs"
  by (metis list_update_id map_update)

lemma outline_view_usage: "outline (add_view_usage v u g) = outline g"
  by (simp add: outline_def add_view_usage_def Let_def map_update_same)

lemma outline_image_hazards:
  assumes "resolveImageHazards V v st rd wr lay discard g = Some g'"
  shows "outline g' = outline g"
  using assms unfolding resolveImageHazards_def Let_def
  by (auto simp: outline_def map_update_same split: if_splits prod.splits)

lemma outline_buffer_hazards: "outline (resolveBufferHazards b st rd wr (g\<lparr>buffers := bs\<rparr>)) = outline g"
  by (simp add: outline_def resolveBufferHazards_def Let_def)

lemma outline_usage: "resolve_usage V x g = Some g' \<Longrightarrow> outline g' = outline g"
  by (auto simp: resolve_usage_def outline_buffer_hazards outline_view_usage
      dest!: outline_image_hazards split: if_splits option.splits)

lemma outline_usages: "resolveResourceUsage V us g = Some g' \<Longrightarrow> outline g' = outline g"
  by (induction us arbitrary: g) (auto split: option.splits dest!: outline_usage)

lemma outline_target: "use_target V u st rd wr t g = Some g' \<Longrightarrow> outline g' = outline g"
  by (auto simp: use_target_def outline_view_usage dest!: outline_image_hazards split: option.splits if_splits)

lemma outline_color_targets: "use_color_targets V ts g = Some g' \<Longrightarrow> outline g' = outline g"
  by (induction ts arbitrary: g) (auto split: option.splits dest!: outline_target)

lemma outline_command: "outline (add_command c g) = outline g"
  by (simp add: outline_def add_command_def)

definition has_output :: "render_graph \<Rightarrow> bool" where
  "has_output g \<longleftrightarrow> (\<exists>ws ns. outline g = ((0, 0, 1) # ws, 1 # ns))"

lemma has_output_extend:
  assumes "has_output g" "outline g' = (fst (outline g) @ ws, snd (outline g) @ ns)"
  shows "has_output g'"
  using assms by (auto simp: has_output_def)

lemma builder_step_output:
  assumes "builder_step V g g'" "has_output g"
  shows "has_output g'"
  using assms(1)
proof (cases rule: builder_step.cases)
  case (step_compute us name cb)
  have "outline g' = outline g" using compute_pass_split[OF step_compute(2)] by (auto simp: outline_command dest!: outline_usages)
  then show ?thesis using assms(2) by (simp add: has_output_def)
next
  case (step_render us ds ts name cb)
  have "outline g' = outline g" using render_pass_split[OF step_render(3)]
    by (auto simp: outline_command dest!: outline_usages outline_target outline_color_targets)
  then show ?thesis using assms(2) by (simp add: has_output_def)
next
  case (step_image name c i)
  show ?thesis by (rule has_output_extend[OF assms(2), of _ "[]" "[config_mips c]"])
    (use step_image in \<open>auto simp: make2DImage_def outline_def new_image_def\<close>)
next
  case (step_double name c ij)
  show ?thesis by (rule has_output_extend[OF assms(2), of _ "[]" "[config_mips c, config_mips c]"])
    (use step_double in \<open>auto simp: makeDoubleBuffered2DImage_def Let_def outline_def new_image_def\<close>)
next
  case (step_buffer name size' dynamic i)
  show ?thesis by (rule has_output_extend[OF assms(2), of _ "[]" "[]"]) (use step_buffer in \<open>auto simp: makeBuffer_def outline_def\<close>)
next
  case (step_view i firstMip mipCount name fmt v)
  then have "images g' = images g \<and> (\<exists>ws. views g' = views g @ ws)" by (auto simp: makeImageView_def Let_def)
  then obtain ws where "images g' = images g" "views g' = views g @ ws" by blast
  then show ?thesis
    by (intro has_output_extend[OF assms(2), of _ "map (\<lambda>w. (view_image w, base_mip w, level_count w)) ws" "[]"]) (simp add: outline_def)
qed

lemma builder_steps_output: "(builder_step V)\<^sup>*\<^sup>* g g' \<Longrightarrow> has_output g \<Longrightarrow> has_output g'"
proof (induction rule: rtranclp_induct)
  case (step g1 g2)
  then show ?case using builder_step_output by blast
qed

lemma present_output_layout:
  assumes "laid_out V g" "has_output g"
  shows "\<exists>g'. present_output V g = Some g' \<and> length (mip_states (images g' ! 0)) = 1 \<and> images g' \<noteq> [] \<and>
    layout (mip_states (images g' ! 0) ! 0) = V ''IMAGE_LAYOUT_PRESENT_SRC_KHR''"
proof -
  obtain w ws im ims where g: "views g = w # ws" "images g = im # ims" "view_image w = 0" "base_mip w = 0" "level_count w = 1" "mip_levels im = 1"
    using assms(2) by (auto simp: has_output_def outline_def split: list.splits)
  moreover have "length (mip_states im) = 1" using assms(1) g by (simp add: laid_out_def graph_wf_def)
  then obtain m where "mip_states im = [m]" by (metis One_nat_def length_0_conv length_Suc_conv)
  ultimately show ?thesis
    by (auto simp: present_output_def resolveImageHazards_def Let_def scan_mips_def update_range_def)
qed

text \<open>C13: The graph can always be finished; executing its barriers from undefined layouts never starts a transition from a
  layout that a level of an image does not have, and leaves the output image ready to be presented.\<close>

theorem barriers_match_image_layouts:
  assumes "(builder_step V)\<^sup>*\<^sup>* (new_graph V fmt extent) g"
  shows "\<exists>g' L. present_output V g = Some g' \<and> run_commands V (commands g') = Some L \<and> L 0 0 = V ''IMAGE_LAYOUT_PRESENT_SRC_KHR''"
proof -
  have g: "laid_out V g" "has_output g"
    using builder_steps_laid_out[OF assms new_graph_laid_out] builder_steps_output[OF assms]
    by (simp_all add: has_output_def outline_def new_graph_def new_image_def)
  then obtain g' where g': "present_output V g = Some g'" "length (mip_states (images g' ! 0)) = 1" "images g' \<noteq> []"
    "layout (mip_states (images g' ! 0) ! 0) = V ''IMAGE_LAYOUT_PRESENT_SRC_KHR''" using present_output_layout by blast
  have "0 < length (views g)" using g(2) by (auto simp: has_output_def outline_def split: list.splits)
  then have "laid_out V g'" using image_hazards_laid_out[OF g(1) g'(1)[unfolded present_output_def]] by blast
  then show ?thesis using g' by (auto simp: laid_out_def tracks_def)
qed

lemma barriers_match_image_layouts_witness:
  "\<exists>g g' L. builder_step sample_constants (new_graph sample_constants 3 (1, 1)) g \<and> present_output sample_constants g = Some g' \<and>
     run_commands sample_constants (commands g') = Some L \<and> L 0 0 = 9"
proof -
  let ?g = "new_graph sample_constants 3 (1, 1)"
  have "builder_step sample_constants ?g (snd (make2DImage sample_constants ''depth'' \<lparr>config_format = 4, config_resolution = (1, 1), config_mips = 2, config_layers = 1\<rparr> ?g))"
    by (rule step_image[OF prod.collapse[symmetric]])
  from barriers_match_image_layouts[OF r_into_rtranclp[of "builder_step sample_constants", OF this]] this
  show ?thesis by (auto simp: sample_constants_def)
qed

text \<open>A write is made visible only to the stages that read first: a pass that reads the buffer in
  another stage after them gets no barrier, so nothing orders it after the write.\<close>

lemma later_stage_gets_no_barrier:
  "map_option (\<lambda>g. map (\<lambda>c. case c of Barrier bs is' \<Rightarrow> map (\<lambda>b. (buf_src_stages b, buf_dst_stages b)) bs | _ \<Rightarrow> []) (commands g))
     (Option.bind (makeComputePass sample_constants ''write'' 0 [makeBufferUsage sample_constants (Some 0) 8 4 False]
        (snd (makeBuffer ''b'' 64 False (new_graph sample_constants 0 (1, 1))))) (\<lambda>g.
      Option.bind (makeComputePass sample_constants ''read'' 1 [makeBufferUsage sample_constants (Some 0) 16 2 False] g) (\<lambda>g.
      makeComputePass sample_constants ''read'' 2 [makeBufferUsage sample_constants (Some 0) 32 2 False] g)))
   = Some [[], [(8, 16)], [], []]"
  by code_simp

text \<open>A view of the remaining levels counts all the levels of the image, so one that does not start at
  the first level fails the assertion when it is used.\<close>

lemma remaining_levels_view_unusable:
  assumes "0 < firstMip" "mip_levels (images g ! i) + firstMip < 2 ^ 32" "image_sibling (images g ! i) = None"
    "makeImageView V name (Some i) fmt firstMip REMAINING_MIP_LEVELS g = (Some v, g')"
  shows "resolveImageHazards V v st rd wr lay discard g' = None"
proof -
  have "v = length (views g)" and g': "g' = g\<lparr>views := views g @ [\<lparr>view_name = ''graph/img/'' @ name, view_image = i, view_sibling = None,
      view_is_array = array_layers (images g ! i) > 1, view_format = fmt, view_aspect = formatToAspect V fmt, base_mip = firstMip,
      level_count = mip_levels (images g ! i), layer_count = array_layers (images g ! i), view_usage = 0\<rparr>]\<rparr>"
    using assms(3,4) by (auto simp: makeImageView_def Let_def)
  then show ?thesis using assms(1,2) by (simp add: resolveImageHazards_def Let_def add.commute)
qed

end
