(* ===== verification/Spec2Isabelle.thy ===== *)
theory Spec2Isabelle
  imports Prelude Uid Hash Chunk_Key Storage_Tree_Utils Item_Storage Storage_Tree Storage_Tree_Correct
    Bitset Fixed_Pool Linear_Allocator
    Versioned_Map Flat_Map Hash_Trie Hash_Trie_Diff
    Cube_Array Compressed_Storage Compressed_Bool Async_Counter_Tracker Async_Counter_Threads Octahedra_Walker Lru_Visit_Ordering Land_Tickets
    Land_Invalidation Land_Service Land_Service_Steps Land_System Land_Run Land_Correct Service_Locator
    Message_Header Inbound_Queue Sorted_Table Messaging Messaging_Steps Messaging_Correct
    Config Input_Events Private_Pool Uid_Registry Render_Graph
begin

text \<open>
  Voxen is a voxel game engine in C++. This development models its own core: the identifiers and
  hashes everything else is keyed by, the containers that keep the state of the world, the
  counters and schedules that order background work, the land service that drives them, what
  services are built on (the service locator and messaging), and what the client is configured
  and drawn by: settings, input bindings and the render graph. All paths below are relative to the
  repository's src/ directory.

  Parts and how they interact.

  A chunk of the world is named by a packed 64-bit key. The land service receives tickets (areas
  somebody wants loaded) and block edits as messages, and once per tick walks the keys covered by
  the tickets. For each it enqueues tasks that generate chunk data, aggregate it into pseudo-chunk
  data of coarser levels of detail, and build surfaces. A task waits for counters of earlier tasks;
  the counter tracker knows which are complete. A finished task sends a message, which changes the
  tables of the land state and marks dependent chunks stale. The tables are versioned containers:
  a reader copies them and asks what changed since its last copy. Chunks keep their blocks in
  compressed storages; the storage tree is the second, path-based store of chunks.

  Services find each other through the locator, which starts them on demand and destroys them in
  reverse order. They talk by messages: a sender hands a reference-counted message to a router,
  which finds the inbound queue of the recipient; the recipient polls its queue and calls its
  handlers; a request is answered through its handle or by a message that travels back.

  The client reads typed options from settings files, among them the bindings of keys and buttons
  to player actions. Each frame is drawn by a graph of passes; its builder collects how passes use
  images and buffers and puts barriers between them.

  Theories and the code they follow.

  \<open>Prelude\<close>: names for fixed-width integers, masks, population counts.

  \<open>Uid\<close> (include/voxen/common/uid.hpp, src/voxen/common/uid.cpp) and \<open>Hash\<close>
  (src/voxen/util/hash.cpp): 128-bit identifiers with their text form and parser; XXH64, FNV,
  xorshift and CRC32 helpers.

  \<open>Chunk_Key\<close> (include/voxen/land/chunk_key.hpp, land_public_consts.hpp): keys, their packing, order
  and level-of-detail arithmetic. \<open>Storage_Tree_Utils\<close> (src/voxen/land/storage_tree_utils.cpp):
  keys to tree paths and back. \<open>Item_Storage\<close>, \<open>Storage_Tree\<close> (src/voxen/land/land_storage_tree*.cpp):
  packed children, nodes, copy on write, access, remove and lookup. \<open>Storage_Tree_Correct\<close>: the
  invariant of the tree and what each operation does to every lookup, exceptions included.

  \<open>Bitset\<close>, \<open>Fixed_Pool\<close>, \<open>Linear_Allocator\<close> (include/extras/bitset.hpp, fixed_pool.hpp,
  linear_allocator.hpp): slot allocation, reference-counted slots, and a free list of ranges. Two
  locales state what an allocator of slots and of ranges promises; both are interpreted on the
  models.

  \<open>Versioned_Map\<close>: the contract of a versioned map as a locale. \<open>Flat_Map\<close>
  (include/voxen/common/v8g_flat_map_impl.hpp) and \<open>Hash_Trie\<close> (v8g_hash_trie_impl.hpp) interpret
  it. \<open>Hash_Trie_Diff\<close>: what visits of a trie report, with the version stamps that let it skip
  unchanged subtrees.

  \<open>Cube_Array\<close> (include/voxen/land/cube_array.hpp), \<open>Compressed_Storage\<close> and \<open>Compressed_Bool\<close>
  (src/voxen/land/compressed_chunk_storage.cpp): block arrays and their compressed forms.

  \<open>Async_Counter_Tracker\<close> and \<open>Async_Counter_Threads\<close> (src/voxen/svc/async_counter_tracker.cpp):
  completion of 64-bit task counters, first as functions, then as atomic steps of any number of
  threads.

  \<open>Octahedra_Walker\<close> (src/voxen/util/concentric_octahedra_walker.cpp), \<open>Lru_Visit_Ordering\<close>
  (include/voxen/util/lru_visit_ordering.hpp), \<open>Land_Tickets\<close> (src/voxen/land/chunk_ticket.cpp and
  the ticket code of land_service.cpp).

  \<open>Land_Invalidation\<close>, \<open>Land_Service\<close> (src/voxen/land/land_service.cpp, with what it uses of
  svc/task_builder.cpp and land_generator.cpp): dependencies and invalidations, then the whole
  service as functions on a record of its state. \<open>Land_Service_Steps\<close>: what every operation keeps.
  \<open>Land_System\<close>: the service with its tasks and its inbox as a step relation and the invariant of
  its reachable states. \<open>Land_Run\<close>: a concrete run. \<open>Land_Correct\<close>: the guarantees.

  \<open>Service_Locator\<close> (src/voxen/svc/service_locator.cpp): registering, requesting and destroying
  services; a factory is a tree of the requests it makes.

  \<open>Message_Header\<close> (src/voxen/svc/messaging_private.hpp and .cpp, message_handling.cpp,
  message_sender.hpp): the atomic word of a message, reference counts, request handles.
  \<open>Inbound_Queue\<close> (messaging_private.cpp): queues linked through headers, related to lists.
  \<open>Sorted_Table\<close>: sorted arrays of routes and handlers. \<open>Messaging\<close> (messaging_private.cpp,
  message_queue.cpp, message_sender.cpp): the router, sending, polling and completing, cut where
  locks are given up. \<open>Messaging_Steps\<close>: any interleaving of those pieces as a step relation, with
  the invariant that counts the owners of a message. \<open>Messaging_Correct\<close>: the guarantees, and three
  runs in which messaging goes wrong.

  \<open>Config\<close> (src/common/config.cpp): options, their text forms, loading, lookup and patching, with
  what a life of a configuration keeps. \<open>Input_Events\<close> (src/client/input_event_adapter.cpp,
  include/extras/string_utils.hpp): names of keys, parsing of bindings, lookup of events.
  \<open>Private_Pool\<close> (src/voxen/common/private_object_pool.cpp): slabs of objects on a heap, and a step
  relation of any number of pools with the invariant that keeps live objects apart.
  \<open>Uid_Registry\<close> (src/voxen/debug/uid_registry.cpp): sharded descriptions as one map.
  \<open>Render_Graph\<close> (src/voxen/gfx/vk/render_graph_builder.cpp): resources, passes and barriers, and a
  step relation of what may be declared, with two invariants: an access is remembered until a
  barrier on its buffer comes, and the recorded image layouts are those that executing the
  barriers leads to.

  Conventions. A class is a record, an operation a function from state to state; an exception, a
  failed assertion or undefined behaviour the code may run into is a value of an option or sum
  type. Machine integers are words where wrap-around can matter. Raw memory (slots of an item
  storage, of a pool or of a node) is a list of optional values. Shared, reference-counted nodes
  are values; where the code decides by reference count or version stamp whether it must copy a
  node first, that decision is in the model. Concurrency is a step relation whose steps are the
  atomic accesses or critical sections of the code.

  Bounds and fuel. Loops over data are structural recursions or come with a measure. The trie
  functions take the depth as fuel: four bits of a hash select a root and six bits a slot of each
  level below it, so ten levels use up 64 bits, and the theorem on scripts shows they suffice. The storage tree has the fixed depth of its
  path. Pseudo-data generation recurses on the level of detail, which decreases. A service request takes
  the depth of nested factory calls as fuel, and a theorem shows that enough exists. Polling takes
  the number of batches as fuel, since handlers may keep sending. Clearing a queue is a partial
  function, which returns on every queue that represents a list.

  What the lemmas show. Containers: an invariant, an abstraction to a map, set or function, one law
  per operation, and scripts of operations by induction. Step relations: an invariant of reachable
  states by rule induction, then progress. Where the code is wrong the theorem states what it does
  do, and names the input on which it fails.

  Not modelled. What generator tasks compute (noise, contouring, surfaces) and everything else that
  lives in floating point: no theory of IEEE arithmetic is among the ones used here. Graphics
  other than the render graph builder, windowing, files and other system calls: their logic is in
  drivers and the kernel. Allocation
  failure, memory orders, lock implementations and sleeping threads (a wait is the look at the
  value it waits for). Third-party code is an argument of the definitions
  that use it: zlib's CRC32, the ini library and conversions of doubles (\<open>Config\<close>), the constants of
  GLFW and Vulkan (\<open>Input_Events\<close>, \<open>Render_Graph\<close>), the address of a new slab (\<open>Private_Pool\<close>).
  The shared object pool, the pipe allocator and the task queues: their correctness rests on memory
  orders. Logging. The land service's destructor, the
  registration of its handlers and the task service's worker threads.
\<close>

end
